(* ===== verification/Prelude.thy ===== *)
theory Prelude
  imports Main "HOL-Library.Word"
begin

text \<open>
  Shared vocabulary of the development: the machine integer types of the 32-bit target
  (RP2040/RP2350, so \<open>mp_uint_t\<close> and \<open>size_t\<close> are 32 bits wide and an \<open>mpz_dig_t\<close> is
  16 bits wide), the collections of simplification rules the components extend, and
  generic lemmas on words, lists and natural numbers used by more than one component.
\<close>

unbundle bit_operations_syntax

type_synonym u8 = "8 word"
type_synonym u16 = "16 word"
type_synonym u32 = "32 word"

text \<open>The exceptions that the modelled code raises.\<close>

datatype mp_error =
  KeyError | IndexError | ValueError | TypeError | OverflowError | ZeroDivisionError | MemoryError | RuntimeError | UnicodeError

named_theorems word_nat "reading of machine words as natural numbers"

section \<open>Words as natural numbers\<close>

text \<open>Words are read with \<^const>\<open>unat\<close> throughout, so its integer image is kept as it is.\<close>

declare of_nat_unat [simp del]

lemma u8_less: "unat (x :: u8) < 256"
  using unsigned_less [of x] by simp

lemma u16_less: "unat (x :: u16) < 65536"
  using unsigned_less [of x] by simp

lemma u32_less: "unat (x :: u32) < 4294967296"
  using unsigned_less [of x] by simp

lemma unat_u32_of_u16 [word_nat]: "unat (ucast (d :: u16) :: u32) = unat d"
  by (simp add: unsigned_ucast_eq take_bit_nat_eq_self_iff order_less_trans [OF u16_less])

lemma unat_u16_of_u32 [word_nat]: "unat (ucast (x :: u32) :: u16) = unat x mod 65536"
  by (simp add: unsigned_ucast_eq take_bit_eq_mod)

lemma unat_u32_of_u8 [word_nat]: "unat (ucast (d :: u8) :: u32) = unat d"
  by (simp add: unsigned_ucast_eq take_bit_nat_eq_self_iff order_less_trans [OF u8_less])

lemma unat_u8_of_u32 [word_nat]: "unat (ucast (x :: u32) :: u8) = unat x mod 256"
  by (simp add: unsigned_ucast_eq take_bit_eq_mod)

lemma unat_u16_of_u8 [word_nat]: "unat (ucast (d :: u8) :: u16) = unat d"
  by (simp add: unsigned_ucast_eq take_bit_nat_eq_self_iff order_less_trans [OF u8_less])

lemma unat_u8_of_u16 [word_nat]: "unat (ucast (x :: u16) :: u8) = unat x mod 256"
  by (simp add: unsigned_ucast_eq take_bit_eq_mod)

lemma unat_and_mask [word_nat]:
  "unat (x AND mask n :: 'a::len word) = unat x mod 2 ^ n"
proof -
  have "unat (x AND mask n) = unat (take_bit n x)"
    by (simp only: take_bit_eq_mask)
  also have "\<dots> = take_bit n (unat x)"
    by (rule unsigned_take_bit_eq)
  finally show ?thesis
    by (simp only: take_bit_eq_mod)
qed

lemma unat_drop_bit_nat [word_nat]:
  "unat (drop_bit n (x :: 'a::len word)) = unat x div 2 ^ n"
  by (rule trans [OF unat_drop_bit_eq drop_bit_eq_div])

lemma unat_add_noovf:
  "unat a + unat b < 2 ^ LENGTH('a) \<Longrightarrow> unat (a + b :: 'a::len word) = unat a + unat b"
  by (simp add: unat_word_ariths)

lemma unat_mult_noovf:
  "unat a * unat b < 2 ^ LENGTH('a) \<Longrightarrow> unat (a * b :: 'a::len word) = unat a * unat b"
  by (simp add: unat_word_ariths)

lemma unat_add_u32:
  "unat a + unat b < 4294967296 \<Longrightarrow> unat (a + b :: u32) = unat a + unat b"
  by (rule unat_add_noovf) simp

lemma unat_mult_u32:
  "unat a * unat b < 4294967296 \<Longrightarrow> unat (a * b :: u32) = unat a * unat b"
  by (rule unat_mult_noovf) simp


section \<open>Words as signed integers\<close>

lemma sint_of_int_u32:
  "- 2147483648 \<le> k \<Longrightarrow> k < 2147483648 \<Longrightarrow> sint (word_of_int k :: u32) = k"
  by (simp add: sint_sbintrunc' signed_take_bit_int_eq_self_iff)

lemma sint_add_u32:
  "- 2147483648 \<le> sint a + sint b \<Longrightarrow> sint a + sint b < 2147483648 \<Longrightarrow>
   sint (a + b :: u32) = sint a + sint b"
  by (simp add: sint_word_add signed_take_bit_int_eq_self_iff)

lemma sint_diff_u32:
  "- 2147483648 \<le> sint a - sint b \<Longrightarrow> sint a - sint b < 2147483648 \<Longrightarrow>
   sint (a - b :: u32) = sint a - sint b"
  by (simp add: sint_word_diff signed_take_bit_int_eq_self_iff)

lemma sint_small_u32:
  assumes "unat x < 2147483648"
  shows "sint (x :: u32) = int (unat x)"
proof -
  have "- (2 ^ 31) \<le> uint x"
    by (rule order.trans [OF _ unsigned_greater_eq]) simp
  moreover have "uint x < 2147483648"
    using assms by (metis of_nat_less_iff of_nat_numeral uint_nat)
  then have "uint x < 2 ^ 31"
    by simp
  ultimately have "signed_take_bit 31 (uint x) = uint x"
    by (simp only: signed_take_bit_int_eq_self_iff)
  then show ?thesis
    by (simp add: sint_uint uint_nat)
qed

lemma sint_u32_of_u16: "sint (ucast (a :: u16) :: u32) = int (unat a)"
  using u16_less [of a] sint_small_u32 [of "ucast a"] by (simp only: unat_u32_of_u16)

lemma sint_diff_u16:
  "sint (ucast a - ucast b :: u32) = int (unat a) - int (unat b)" for a b :: u16
proof -
  have "int (unat a) < 65536" and "int (unat b) < 65536"
    using u16_less [of a] u16_less [of b] by linarith+
  then show ?thesis
    using sint_diff_u32 [of "ucast a" "ucast b"] unfolding sint_u32_of_u16 by linarith
qed

lemma sint_high_u32: "sint (signed_drop_bit n (x :: u32)) = sint x div 2 ^ n"
  by (simp only: sint_signed_drop_bit_eq drop_bit_eq_div)

lemma unat_mod_sint_u32:
  assumes "n \<le> 32"
  shows "int (unat (x :: u32) mod 2 ^ n) = sint x mod 2 ^ n"
proof -
  have "take_bit n (sint x) = take_bit n (uint x)"
    using assms by (simp only: sint_uint) (simp add: take_bit_signed_take_bit)
  then show ?thesis
    by (simp add: take_bit_eq_mod zmod_int uint_nat)
qed


section \<open>Arithmetic on natural numbers and integers\<close>

lemma sgn_nat_diff_neg: "a < b \<Longrightarrow> sgn (int a - int b) = -1"
  by (simp add: sgn_if)

lemma sgn_nat_diff_pos: "b < a \<Longrightarrow> sgn (int a - int b) = 1"
  by (simp add: sgn_if)

text \<open>One step of a little-endian digit loop, in base \<open>b\<close>, modulo the digits still to come.\<close>

lemma mod_mult_digit:
  fixes x y :: int
  assumes "0 \<le> m"
  shows "(x + b * y) mod (b * m) = x mod b + b * ((x div b + y) mod m)"
proof (cases "b = 0")
  case False
  have "(x + b * y) mod (b * m) = b * ((x + b * y) div b mod m) + (x + b * y) mod b"
    using assms by (rule zmod_zmult2_eq)
  with False show ?thesis
    by (simp add: algebra_simps)
qed simp


lemma div_borrow:
  fixes x :: int
  assumes "- b \<le> x" and "x < b"
  shows "x div b \<in> {-1, 0}"
proof (cases "0 \<le> x")
  case True
  with assms show ?thesis
    by (simp add: div_pos_pos_trivial)
next
  case False
  with assms have "x div b = -1"
    by (intro int_div_pos_eq [where r = "x + b"]) auto
  then show ?thesis
    by simp
qed


lemma or_low_bits:
  fixes p y :: nat
  assumes "y < 2 ^ n"
  shows "(2 ^ n * p) OR y = 2 ^ n * p + y"
proof -
  have "push_bit n p AND take_bit n y = 0"
    by (rule bit_eqI) (auto simp: bit_simps)
  then have "push_bit n p + take_bit n y = push_bit n p OR take_bit n y"
    by (rule disjunctive_add_eq_or)
  then show ?thesis
    using assms by (simp add: take_bit_nat_eq_self push_bit_eq_mult mult.commute)
qed

lemma unat_or_u16:
  assumes "unat (d :: u32) = 65536 * p"
  shows "unat (d OR ucast (j :: u16)) = 65536 * p + unat j"
  using or_low_bits [of "unat j" 16 p] u16_less [of j]
  by (simp add: unsigned_or_eq assms unat_u32_of_u16)

lemma unat_push16_u32: "unat (push_bit 16 (x :: u32)) = 65536 * (unat x mod 65536)"
proof -
  have "unat (push_bit 16 x) = (unat x * 65536) mod (65536 * 65536)"
    by (simp add: push_bit_eq_mult unat_word_ariths)
  also have "\<dots> = 65536 * (unat x mod 65536)"
    by (simp only: mult.commute [of "unat x"] mult_mod_right)
  finally show ?thesis .
qed

end
