(* ===== verification/Mpn.thy ===== *)
theory Mpn
  imports Prelude
begin

text \<open>
  The digit-level layer of \<^verbatim>\<open>py/mpz.c\<close>: the \<^verbatim>\<open>mpn_*\<close> functions on arrays of
  16-bit digits (\<^verbatim>\<open>MPZ_DIG_SIZE = 16\<close>, the setting of every 32-bit port), little endian.
  A digit array is the list of its digits. A function that stores a result at \<^verbatim>\<open>idig\<close> and
  returns its length is modelled by the list of the digits it stores, from \<^verbatim>\<open>idig[0]\<close> up,
  together with the returned length; the caller's buffer is the business of theory Mpz.
  Every loop of the C code reads digit \<open>t\<close> of its operands before it stores digit \<open>t\<close> of
  the result and never reads a lower digit again (\<^verbatim>\<open>mpn_shl\<close>: a higher one), so the
  list form is also right when result and operands share memory.
  Intermediate sums are \<^typ>\<open>u32\<close>, the C type \<^verbatim>\<open>mpz_dbl_dig_t\<close>, wrapping as in C.
\<close>

type_synonym dig = u16
type_synonym dbl = u32

definition DIG_SIZE :: nat where "DIG_SIZE = 16"

definition DIG_MASK :: dbl where "DIG_MASK = 0xFFFF"

section \<open>The value of a digit array\<close>

fun mpn_val :: "dig list \<Rightarrow> nat" where
  "mpn_val [] = 0"
| "mpn_val (d # ds) = unat d + 65536 * mpn_val ds"

definition normalised :: "dig list \<Rightarrow> bool" where
  "normalised ds \<longleftrightarrow> (ds \<noteq> [] \<longrightarrow> last ds \<noteq> 0)"

lemma mpn_val_append: "mpn_val (xs @ ys) = mpn_val xs + 65536 ^ length xs * mpn_val ys"
  by (induction xs) (auto simp: algebra_simps)

lemma mpn_val_zeros [simp]: "mpn_val (replicate n 0) = 0"
  by (induction n) auto

lemma mpn_val_less: "mpn_val ds < 65536 ^ length ds"
proof (induction ds)
  case (Cons d ds)
  have "unat d + 65536 * mpn_val ds < 65536 * (mpn_val ds + 1)"
    using u16_less [of d] by simp
  also have "\<dots> \<le> 65536 * 65536 ^ length ds"
    using Cons.IH by (intro mult_le_mono2) simp
  finally show ?case by simp
qed simp

lemma mpn_val_ge:
  assumes "normalised ds" and "ds \<noteq> []"
  shows "65536 ^ (length ds - 1) \<le> mpn_val ds"
proof -
  from assms(2) obtain es e where ds: "ds = es @ [e]"
    by (metis rev_exhaust)
  with assms have "0 < unat e"
    by (simp add: normalised_def unat_gt_0)
  then have "65536 ^ length es \<le> 65536 ^ length es * unat e"
    by simp
  also have "\<dots> \<le> mpn_val ds"
    using ds by (simp add: mpn_val_append)
  finally show ?thesis
    using ds by simp
qed

lemma mpn_val_eq_0_iff: "normalised ds \<Longrightarrow> mpn_val ds = 0 \<longleftrightarrow> ds = []"
  using mpn_val_ge [of ds] by fastforce

lemma unat_low_dig [simp]: "unat (ucast (x AND DIG_MASK) :: dig) = unat x mod 65536"
proof -
  have "DIG_MASK = mask 16"
    by (simp add: DIG_MASK_def mask_eq_exp_minus_1)
  then have "unat (x AND DIG_MASK) = unat x mod 65536"
    using unat_and_mask [of x 16] by simp
  then show ?thesis
    by (simp add: unat_u16_of_u32)
qed

lemma unat_high_dig [simp]: "unat (drop_bit DIG_SIZE (x :: dbl)) = unat x div 65536"
  by (simp add: DIG_SIZE_def unat_drop_bit_nat)

lemma low_high_dig: "unat (ucast (x AND DIG_MASK) :: dig) + 65536 * unat (drop_bit DIG_SIZE x) = unat (x :: dbl)"
  by simp


section \<open>Digit array operations\<close>

text \<open>\<^verbatim>\<open>mpn_remove_trailing_zeros(oidig, idig)\<close>, with \<open>n = idig - oidig\<close>.\<close>

fun mpn_remove_trailing_zeros :: "dig list \<Rightarrow> nat \<Rightarrow> nat" where
  "mpn_remove_trailing_zeros ds 0 = 0"
| "mpn_remove_trailing_zeros ds (Suc i) =
     (if ds ! i = 0 then mpn_remove_trailing_zeros ds i else Suc i)"

text \<open>\<^verbatim>\<open>mpn_cmp\<close>: the loop reads both arrays from the top digit down.\<close>

fun mpn_cmp_digs :: "dig list \<Rightarrow> dig list \<Rightarrow> nat \<Rightarrow> int" where
  "mpn_cmp_digs is js 0 = 0"
| "mpn_cmp_digs is js (Suc n) =
     (let cmp = sint (ucast (is ! n) - ucast (js ! n) :: dbl)
      in if cmp < 0 then -1 else if cmp > 0 then 1 else mpn_cmp_digs is js n)"

definition mpn_cmp :: "dig list \<Rightarrow> dig list \<Rightarrow> int" where
  "mpn_cmp is js =
     (if length is < length js then -1
      else if length is > length js then 1
      else mpn_cmp_digs is js (length is))"

text \<open>
  \<^verbatim>\<open>mpn_shl\<close>: the loop runs from the high end of both arrays, so the digits of \<open>j\<close> come
  highest first and so do the digits it stores; the last store is the one after the loop.
\<close>

fun mpn_shl_digs :: "nat \<Rightarrow> dbl \<Rightarrow> dig list \<Rightarrow> dig list" where
  "mpn_shl_digs s d [] = [ucast (drop_bit s d AND DIG_MASK)]"
| "mpn_shl_digs s d (j # js) =
     (let d' = d OR ucast j
      in ucast (drop_bit s d' AND DIG_MASK) # mpn_shl_digs s (push_bit DIG_SIZE d') js)"

definition mpn_shl :: "dig list \<Rightarrow> nat \<Rightarrow> dig list \<times> nat" where
  "mpn_shl js n =
     (let n_whole = (n + DIG_SIZE - 1) mod 2 ^ 32 div DIG_SIZE;
          n_part = (if n mod DIG_SIZE = 0 then DIG_SIZE else n mod DIG_SIZE);
          is = replicate (n_whole - 1) 0 @ rev (mpn_shl_digs (DIG_SIZE - n_part) 0 (rev js))
      in (is, mpn_remove_trailing_zeros is (length js + n_whole)))"

text \<open>\<^verbatim>\<open>mpn_shr\<close>; a zero top digit shortens the result by one digit only.\<close>

fun mpn_shr_digs :: "nat \<Rightarrow> dig list \<Rightarrow> dig list" where
  "mpn_shr_digs p [] = []"
| "mpn_shr_digs p (j # js) =
     (let d = (case js of [] \<Rightarrow> ucast j | j1 # _ \<Rightarrow> ucast j OR push_bit DIG_SIZE (ucast j1))
      in ucast (drop_bit p d AND DIG_MASK) # mpn_shr_digs p js)"

definition mpn_shr :: "dig list \<Rightarrow> nat \<Rightarrow> dig list \<times> nat" where
  "mpn_shr js n =
     (let n_whole = n div DIG_SIZE; n_part = n mod DIG_SIZE
      in if n_whole \<ge> length js then ([], 0)
         else let is = mpn_shr_digs n_part (drop n_whole js);
                  jlen = length js - n_whole
              in (is, if last is = 0 then jlen - 1 else jlen))"

text \<open>\<^verbatim>\<open>mpn_add\<close>: the loop over the digits of both operands, then over those of \<open>j\<close> alone.\<close>

fun mpn_add_digs :: "dbl \<Rightarrow> dig list \<Rightarrow> dig list \<Rightarrow> dig list" where
  "mpn_add_digs carry (j # js) (k # ks) =
     (let c = carry + (ucast j + ucast k)
      in ucast (c AND DIG_MASK) # mpn_add_digs (drop_bit DIG_SIZE c) js ks)"
| "mpn_add_digs carry (j # js) [] =
     (let c = carry + ucast j
      in ucast (c AND DIG_MASK) # mpn_add_digs (drop_bit DIG_SIZE c) js [])"
| "mpn_add_digs carry [] ks = (if carry \<noteq> 0 then [ucast carry] else [])"

definition mpn_add :: "dig list \<Rightarrow> dig list \<Rightarrow> dig list \<times> nat" where
  "mpn_add js ks = (let is = mpn_add_digs 0 js ks in (is, length is))"

text \<open>
  \<^verbatim>\<open>mpn_sub\<close>: \<^verbatim>\<open>borrow\<close> is an \<^verbatim>\<open>int32_t\<close>, kept here as the same 32 bits and shifted
  arithmetically (\<^const>\<open>signed_drop_bit\<close>).
\<close>

fun mpn_sub_digs :: "dbl \<Rightarrow> dig list \<Rightarrow> dig list \<Rightarrow> dig list" where
  "mpn_sub_digs borrow (j # js) (k # ks) =
     (let b = borrow + (ucast j - ucast k)
      in ucast (b AND DIG_MASK) # mpn_sub_digs (signed_drop_bit DIG_SIZE b) js ks)"
| "mpn_sub_digs borrow (j # js) [] =
     (let b = borrow + ucast j
      in ucast (b AND DIG_MASK) # mpn_sub_digs (signed_drop_bit DIG_SIZE b) js [])"
| "mpn_sub_digs borrow [] ks = []"

definition mpn_sub :: "dig list \<Rightarrow> dig list \<Rightarrow> dig list \<times> nat" where
  "mpn_sub js ks =
     (let is = mpn_sub_digs 0 js ks in (is, mpn_remove_trailing_zeros is (length is)))"

text \<open>\<^verbatim>\<open>mpn_mul_dig_add_dig\<close>: \<open>i * dmul + dadd\<close> in place.\<close>

fun mpn_mul_dig_digs :: "dbl \<Rightarrow> dig list \<Rightarrow> dig \<Rightarrow> dig list" where
  "mpn_mul_dig_digs carry (i # is) dmul =
     (let c = carry + ucast i * ucast dmul
      in ucast (c AND DIG_MASK) # mpn_mul_dig_digs (drop_bit DIG_SIZE c) is dmul)"
| "mpn_mul_dig_digs carry [] dmul = (if carry \<noteq> 0 then [ucast carry] else [])"

definition mpn_mul_dig_add_dig :: "dig list \<Rightarrow> dig \<Rightarrow> dig \<Rightarrow> dig list \<times> nat" where
  "mpn_mul_dig_add_dig is dmul dadd =
     (let is' = mpn_mul_dig_digs (ucast dadd) is dmul in (is', length is'))"

text \<open>
  \<^verbatim>\<open>mpn_mul\<close> accumulates one row \<open>j * k\<close> for each digit of \<open>k\<close> into the (zeroed) result
  buffer. \<open>mpn_mul_row\<close> is the inner loop: the digits stored from the position of the row on.
\<close>

fun mpn_mul_row :: "dbl \<Rightarrow> dig list \<Rightarrow> dig list \<Rightarrow> dig \<Rightarrow> dig list" where
  "mpn_mul_row carry (i # is) (j # js) k =
     (let c = carry + (ucast i + ucast j * ucast k)
      in ucast (c AND DIG_MASK) # mpn_mul_row (drop_bit DIG_SIZE c) is js k)"
| "mpn_mul_row carry [] (j # js) k = []"
| "mpn_mul_row carry is [] k = (if carry \<noteq> 0 then [ucast carry] else [])"

fun mpn_mul_rows :: "nat \<Rightarrow> nat \<Rightarrow> dig list \<Rightarrow> dig list \<Rightarrow> dig list \<Rightarrow> dig list \<times> nat" where
  "mpn_mul_rows t ilen buf js [] = (buf, ilen)"
| "mpn_mul_rows t ilen buf js (k # ks) =
     (let row = mpn_mul_row 0 (drop t buf) js k;
          buf' = take t buf @ row @ drop (t + length row) buf
      in mpn_mul_rows (Suc t) (t + length row) buf' js ks)"

definition mpn_mul :: "dig list \<Rightarrow> dig list \<Rightarrow> dig list \<Rightarrow> dig list \<times> nat" where
  "mpn_mul buf js ks = mpn_mul_rows 0 0 buf js ks"

section \<open>Bitwise operations\<close>

definition mpn_and :: "dig list \<Rightarrow> dig list \<Rightarrow> dig list \<times> nat" where
  "mpn_and js ks =
     (let is = map2 (\<lambda>j k. j AND k) js ks in (is, mpn_remove_trailing_zeros is (length is)))"

text \<open>The common loop of \<^verbatim>\<open>mpn_or\<close> and \<^verbatim>\<open>mpn_xor\<close>: the rest of \<open>j\<close> is copied.\<close>

definition mpn_or :: "dig list \<Rightarrow> dig list \<Rightarrow> dig list \<times> nat" where
  "mpn_or js ks =
     (let is = map2 (\<lambda>j k. j OR k) js ks @ drop (length ks) js in (is, length is))"

definition mpn_xor :: "dig list \<Rightarrow> dig list \<Rightarrow> dig list \<times> nat" where
  "mpn_xor js ks =
     (let is = map2 (\<lambda>j k. j XOR k) js ks @ drop (length ks) js
      in (is, mpn_remove_trailing_zeros is (length is)))"

text \<open>
  The general loops for negative operands. The three carries are \<^verbatim>\<open>mpz_dbl_dig_t\<close>; a mask is
  \<open>0\<close> or \<^const>\<open>DIG_MASK\<close> as the initial carry is \<open>0\<close> or not. Once the digits of \<open>k\<close>
  are used up its digit counts as \<open>0\<close> (\<^verbatim>\<open>--klen <= --jlen\<close> fails when \<^verbatim>\<open>klen\<close> has wrapped).
\<close>

definition carry_mask :: "dbl \<Rightarrow> dig" where
  "carry_mask c = (if 0 = c then 0 else 0xFFFF)"

fun mpn_and_neg_digs ::
    "dig \<Rightarrow> dig \<Rightarrow> dig \<Rightarrow> dbl \<Rightarrow> dbl \<Rightarrow> dbl \<Rightarrow> dig list \<Rightarrow> dig list \<Rightarrow> dig list" where
  "mpn_and_neg_digs im jm km ci cj ck (j # js) ks =
     (let cj' = cj + ucast (j XOR jm);
          ck' = ck + (case ks of [] \<Rightarrow> ucast km | k # _ \<Rightarrow> ucast (k XOR km));
          ci' = ci + (((cj' AND ck') XOR ucast im) AND DIG_MASK)
      in ucast (ci' AND DIG_MASK) #
         mpn_and_neg_digs im jm km (drop_bit DIG_SIZE ci') (drop_bit DIG_SIZE cj')
           (drop_bit DIG_SIZE ck') js (tl ks))"
| "mpn_and_neg_digs im jm km ci cj ck [] ks = (if 0 \<noteq> ci then [ucast ci] else [])"

definition mpn_and_neg ::
    "dig list \<Rightarrow> dig list \<Rightarrow> dbl \<Rightarrow> dbl \<Rightarrow> dbl \<Rightarrow> dig list \<times> nat" where
  "mpn_and_neg js ks ci cj ck =
     (let is = mpn_and_neg_digs (carry_mask ci) (carry_mask cj) (carry_mask ck) ci cj ck js ks
      in (is, mpn_remove_trailing_zeros is (length is)))"

text \<open>
  \<^verbatim>\<open>mpn_or_neg\<close> of the \<^verbatim>\<open>MICROPY_OPT_MPZ_BITWISE\<close> build. It asserts that no carry is left;
  the final carry is returned with the digits so that the assertion can be stated.
\<close>

fun mpn_or_neg_digs ::
    "dig \<Rightarrow> dig \<Rightarrow> dbl \<Rightarrow> dbl \<Rightarrow> dbl \<Rightarrow> dig list \<Rightarrow> dig list \<Rightarrow> dig list \<times> dbl" where
  "mpn_or_neg_digs jm km ci cj ck (j # js) ks =
     (let cj' = cj + ucast (j XOR jm);
          ck' = ck + (case ks of [] \<Rightarrow> ucast km | k # _ \<Rightarrow> ucast (k XOR km));
          ci' = ci + (((cj' OR ck') XOR DIG_MASK) AND DIG_MASK);
          (is, c) = mpn_or_neg_digs jm km (drop_bit DIG_SIZE ci') (drop_bit DIG_SIZE cj')
                      (drop_bit DIG_SIZE ck') js (tl ks)
      in (ucast (ci' AND DIG_MASK) # is, c))"
| "mpn_or_neg_digs jm km ci cj ck [] ks = ([], ci)"

definition mpn_or_neg :: "dig list \<Rightarrow> dig list \<Rightarrow> dbl \<Rightarrow> dbl \<Rightarrow> (dig list \<times> nat) option" where
  "mpn_or_neg js ks cj ck =
     (let (is, ci) = mpn_or_neg_digs (carry_mask cj) (carry_mask ck) 1 cj ck js ks
      in if ci = 0 then Some (is, mpn_remove_trailing_zeros is (length is)) else None)"

fun mpn_xor_neg_digs :: "dbl \<Rightarrow> dbl \<Rightarrow> dbl \<Rightarrow> dig list \<Rightarrow> dig list \<Rightarrow> dig list" where
  "mpn_xor_neg_digs ci cj ck (j # js) ks =
     (let cj' = cj + (ucast j + DIG_MASK);
          ck' = ck + (case ks of [] \<Rightarrow> DIG_MASK | k # _ \<Rightarrow> ucast k + DIG_MASK);
          ci' = ci + ((cj' XOR ck') AND DIG_MASK)
      in ucast (ci' AND DIG_MASK) #
         mpn_xor_neg_digs (drop_bit DIG_SIZE ci') (drop_bit DIG_SIZE cj')
           (drop_bit DIG_SIZE ck') js (tl ks))"
| "mpn_xor_neg_digs ci cj ck [] ks = (if 0 \<noteq> ci then [ucast ci] else [])"

definition mpn_xor_neg ::
    "dig list \<Rightarrow> dig list \<Rightarrow> dbl \<Rightarrow> dbl \<Rightarrow> dbl \<Rightarrow> dig list \<times> nat" where
  "mpn_xor_neg js ks ci cj ck =
     (let is = mpn_xor_neg_digs ci cj ck js ks
      in (is, mpn_remove_trailing_zeros is (length is)))"

end
