(* ===== verification/Mpn_Correct.thy ===== *)
theory Mpn_Correct
  imports Mpn
begin

text \<open>
  Functional correctness of the digit-level functions of theory Mpn: the value of the digits a
  function stores is the corresponding operation on the values of its operands, the length it
  returns drops leading zero digits only, and the number of digits it stores stays within what
  its callers allocate.
\<close>

section \<open>Trailing zeros and comparison\<close>

lemma mpn_remove_trailing_zeros_le: "mpn_remove_trailing_zeros ds n \<le> n"
  by (induction ds n rule: mpn_remove_trailing_zeros.induct) auto

lemma mpn_remove_trailing_zeros_val:
  "n \<le> length ds \<Longrightarrow> mpn_val (take (mpn_remove_trailing_zeros ds n) ds) = mpn_val (take n ds)"
proof (induction ds n rule: mpn_remove_trailing_zeros.induct)
  case (2 ds i)
  then show ?case
    by (auto simp: take_Suc_conv_app_nth mpn_val_append)
qed simp

lemma mpn_remove_trailing_zeros_normalised:
  "n \<le> length ds \<Longrightarrow> normalised (take (mpn_remove_trailing_zeros ds n) ds)"
proof (induction ds n rule: mpn_remove_trailing_zeros.induct)
  case (2 ds i)
  then show ?case
    by (auto simp: take_Suc_conv_app_nth normalised_def)
qed (simp add: normalised_def)

lemma normalisedI:
  assumes "65536 ^ (length ds - 1) \<le> mpn_val ds"
  shows "normalised ds"
proof (cases ds rule: rev_cases)
  case (snoc es e)
  have "mpn_val es < 65536 ^ length es"
    by (rule mpn_val_less)
  with assms snoc have "e \<noteq> 0"
    by (auto simp: mpn_val_append)
  with snoc show ?thesis
    by (simp add: normalised_def)
qed (simp add: normalised_def)

lemma mpn_cmp_digs_sgn:
  "n \<le> length is \<Longrightarrow> n \<le> length js \<Longrightarrow>
   mpn_cmp_digs is js n = sgn (int (mpn_val (take n is)) - int (mpn_val (take n js)))"
proof (induction "is" js n rule: mpn_cmp_digs.induct)
  case (2 "is" js n)
  define a where "a = unat (is ! n)"
  define b where "b = unat (js ! n)"
  define x where "x = mpn_val (take n is)"
  define y where "y = mpn_val (take n js)"
  have x: "x < 65536 ^ n" and y: "y < 65536 ^ n"
    using mpn_val_less [of "take n is"] mpn_val_less [of "take n js"] 2(2,3)
    by (simp_all add: x_def y_def min_def)
  have is_val: "mpn_val (take (Suc n) is) = x + 65536 ^ n * a"
    and js_val: "mpn_val (take (Suc n) js) = y + 65536 ^ n * b"
    using 2(2,3) by (simp_all add: take_Suc_conv_app_nth mpn_val_append x_def y_def a_def b_def)
  consider "a < b" | "a > b" | "a = b"
    by linarith
  then show ?case
  proof cases
    case 1
    then have "65536 ^ n * (a + 1) \<le> 65536 ^ n * b"
      by (intro mult_le_mono2) simp
    with x have "x + 65536 ^ n * a < y + 65536 ^ n * b"
      by (simp add: algebra_simps)
    then have "sgn (int (x + 65536 ^ n * a) - int (y + 65536 ^ n * b)) = -1"
      by (rule sgn_nat_diff_neg)
    with 1 show ?thesis
      by (simp only: mpn_cmp_digs.simps Let_def sint_diff_u16 is_val js_val)
        (simp add: a_def b_def)
  next
    case 2
    then have "65536 ^ n * (b + 1) \<le> 65536 ^ n * a"
      by (intro mult_le_mono2) simp
    with y have "y + 65536 ^ n * b < x + 65536 ^ n * a"
      by (simp add: algebra_simps)
    then have "sgn (int (x + 65536 ^ n * a) - int (y + 65536 ^ n * b)) = 1"
      by (rule sgn_nat_diff_pos)
    with 2 show ?thesis
      by (simp only: mpn_cmp_digs.simps Let_def sint_diff_u16 is_val js_val)
        (simp add: a_def b_def)
  next
    case 3
    with "2.IH" [OF refl] "2.prems" show ?thesis
      by (simp only: mpn_cmp_digs.simps Let_def sint_diff_u16 is_val js_val)
        (simp add: a_def b_def x_def y_def)
  qed
qed simp

lemma normalised_val_less:
  assumes "normalised js" and "length is < length js"
  shows "mpn_val is < mpn_val js"
proof -
  have "mpn_val is < 65536 ^ length is"
    by (rule mpn_val_less)
  also have "\<dots> \<le> 65536 ^ (length js - 1)"
    using assms(2) by (intro power_increasing) auto
  also have "\<dots> \<le> mpn_val js"
    using assms by (intro mpn_val_ge) auto
  finally show ?thesis .
qed

lemma mpn_cmp_correct:
  assumes "normalised is" and "normalised js"
  shows "mpn_cmp is js = sgn (int (mpn_val is) - int (mpn_val js))"
proof -
  consider "length is < length js" | "length is > length js" | "length is = length js"
    by linarith
  then show ?thesis
  proof cases
    case 1
    with normalised_val_less [OF assms(2) 1] show ?thesis
      by (simp add: mpn_cmp_def sgn_if)
  next
    case 2
    with normalised_val_less [OF assms(1) 2] show ?thesis
      by (simp add: mpn_cmp_def sgn_if)
  next
    case 3
    with mpn_cmp_digs_sgn [of "length is" "is" js] show ?thesis
      by (simp add: mpn_cmp_def)
  qed
qed

section \<open>Addition and subtraction\<close>

lemma mpn_add_digs_step:
  assumes "unat (c :: dbl) \<le> 1"
  shows "unat (c + (ucast j + ucast k) :: dbl) = unat c + (unat (j :: dig) + unat (k :: dig))"
    and "unat (c + ucast j :: dbl) = unat c + unat (j :: dig)"
    and "unat (drop_bit DIG_SIZE (c + (ucast j + ucast k)) :: dbl) \<le> 1"
    and "unat (drop_bit DIG_SIZE (c + ucast j) :: dbl) \<le> 1"
proof -
  show 1: "unat (c + (ucast j + ucast k) :: dbl) = unat c + (unat j + unat k)"
    and 2: "unat (c + ucast j :: dbl) = unat c + unat j"
    using assms u16_less [of j] u16_less [of k] by (simp_all add: unat_add_u32 unat_u32_of_u16)
  show "unat (drop_bit DIG_SIZE (c + (ucast j + ucast k)) :: dbl) \<le> 1"
    and "unat (drop_bit DIG_SIZE (c + ucast j) :: dbl) \<le> 1"
    using assms u16_less [of j] u16_less [of k] by (simp_all add: 1 2)
qed

lemma mpn_add_digs_val:
  assumes "length ks \<le> length js" and "unat c \<le> 1"
  shows "mpn_val (mpn_add_digs c js ks) = mpn_val js + mpn_val ks + unat c"
  using assms
proof (induction c js ks rule: mpn_add_digs.induct)
  case (1 c j js k ks)
  note step = mpn_add_digs_step [OF "1.prems"(2)]
  show ?case
    using "1.IH" [OF refl _ step(3)] "1.prems"(1) step(1) [of j k]
    by (simp add: Let_def)
next
  case (2 c j js)
  note step = mpn_add_digs_step [OF "2.prems"(2)]
  show ?case
    using "2.IH" [OF refl _ step(4)] step(2) [of j]
    by (simp add: Let_def)
next
  case (3 c ks)
  then show ?case
    by (auto simp: unat_u16_of_u32)
qed

lemma mpn_add_digs_length:
  "unat c \<le> 1 \<Longrightarrow>
   length (mpn_add_digs c js ks) = length js \<or>
   length (mpn_add_digs c js ks) = Suc (length js) \<and> last (mpn_add_digs c js ks) \<noteq> 0"
proof (induction c js ks rule: mpn_add_digs.induct)
  case (1 c j js k ks)
  show ?case
    using "1.IH" [OF refl mpn_add_digs_step(3) [OF "1.prems"]] by (auto simp: Let_def)
next
  case (2 c j js)
  show ?case
    using "2.IH" [OF refl mpn_add_digs_step(4) [OF "2.prems"]] by (auto simp: Let_def)
next
  case (3 c ks)
  then have "c \<noteq> 0 \<Longrightarrow> unat (ucast c :: dig) \<noteq> 0"
    by (simp add: unat_u16_of_u32 unat_eq_0)
  then show ?case
    by auto
qed

lemma mpn_add_correct:
  assumes "normalised js" and "length ks \<le> length js" and "mpn_add js ks = (is, n)"
  shows "n = length is" and "mpn_val is = mpn_val js + mpn_val ks"
    and "normalised is" and "n \<le> length js + 1" and "length js \<le> n"
proof -
  have "is": "is = mpn_add_digs 0 js ks" and n: "n = length is"
    using assms(3) by (auto simp: mpn_add_def Let_def)
  show "n = length is"
    by (rule n)
  show v: "mpn_val is = mpn_val js + mpn_val ks"
    using mpn_add_digs_val [OF assms(2), of 0] by (simp add: "is")
  have len: "length is = length js \<or> length is = Suc (length js) \<and> last is \<noteq> 0"
    using mpn_add_digs_length [of 0 js ks] by (simp add: "is")
  then show "n \<le> length js + 1" and "length js \<le> n"
    by (auto simp: n)
  show "normalised is"
  proof (cases "length is = length js")
    case True
    show ?thesis
    proof (cases "js = []")
      case False
      with v True mpn_val_ge [OF assms(1)] show ?thesis
        by (intro normalisedI) simp
    qed (use True in \<open>simp add: normalised_def\<close>)
  next
    case False
    with len show ?thesis
      by (simp add: normalised_def)
  qed
qed

lemma mpn_sub_digs_step:
  assumes "sint (b :: dbl) \<in> {-1, 0}"
  shows "sint (b + (ucast j - ucast k) :: dbl) = sint b + (int (unat (j :: dig)) - int (unat (k :: dig)))"
    and "sint (b + ucast j :: dbl) = sint b + int (unat (j :: dig))"
    and "sint (signed_drop_bit DIG_SIZE (b + (ucast j - ucast k)) :: dbl) \<in> {-1, 0}"
    and "sint (signed_drop_bit DIG_SIZE (b + ucast j) :: dbl) \<in> {-1, 0}"
proof -
  have j: "int (unat j) < 65536" and k: "int (unat k) < 65536"
    using u16_less [of j] u16_less [of k] by linarith+
  show 1: "sint (b + (ucast j - ucast k) :: dbl) = sint b + (int (unat j) - int (unat k))"
    using assms j k sint_add_u32 [of b "ucast j - ucast k"] by (auto simp only: sint_diff_u16)
  show 2: "sint (b + ucast j :: dbl) = sint b + int (unat j)"
    using assms j sint_add_u32 [of b "ucast j"] by (auto simp only: sint_u32_of_u16)
  show "sint (signed_drop_bit DIG_SIZE (b + (ucast j - ucast k)) :: dbl) \<in> {-1, 0}"
    and "sint (signed_drop_bit DIG_SIZE (b + ucast j) :: dbl) \<in> {-1, 0}"
    using assms j k unfolding sint_high_u32 1 2 DIG_SIZE_def
    by (auto simp del: insert_iff intro!: div_borrow [of 65536, simplified])
qed

lemma int_low_dig: "int (unat (x :: dbl) mod 65536) = sint x mod 65536"
  using unat_mod_sint_u32 [of 16 x] by simp

lemma sint_high_dig: "sint (signed_drop_bit DIG_SIZE (x :: dbl)) = sint x div 65536"
  by (simp add: sint_high_u32 DIG_SIZE_def)

lemma mpn_sub_digs_val:
  assumes "length ks \<le> length js" and "sint b \<in> {-1, 0}"
  shows "length (mpn_sub_digs b js ks) = length js \<and>
    int (mpn_val (mpn_sub_digs b js ks)) =
      (int (mpn_val js) - int (mpn_val ks) + sint b) mod 65536 ^ length js"
  using assms
proof (induction b js ks rule: mpn_sub_digs.induct)
  case (1 b j js k ks)
  note step = mpn_sub_digs_step [OF "1.prems"(2)]
  define x where "x = b + (ucast j - ucast k :: dbl)"
  define y where "y = int (mpn_val js) - int (mpn_val ks)"
  have IH: "length (mpn_sub_digs (signed_drop_bit DIG_SIZE x) js ks) = length js \<and>
      int (mpn_val (mpn_sub_digs (signed_drop_bit DIG_SIZE x) js ks)) =
      (sint x div 65536 + y) mod 65536 ^ length js"
    using "1.IH" [OF x_def] "1.prems"(1) step(3) by (simp add: x_def y_def sint_high_dig add.commute)
  have "int (mpn_val (j # js)) - int (mpn_val (k # ks)) + sint b = sint x + 65536 * y"
    unfolding x_def step(1) by (simp add: y_def)
  then show ?case
    using IH by (simp only: mpn_sub_digs.simps Let_def flip: x_def)
      (simp add: mod_mult_digit int_low_dig)
next
  case (2 b j js)
  note step = mpn_sub_digs_step [OF "2.prems"(2)]
  define x where "x = b + (ucast j :: dbl)"
  have IH: "length (mpn_sub_digs (signed_drop_bit DIG_SIZE x) js []) = length js \<and>
      int (mpn_val (mpn_sub_digs (signed_drop_bit DIG_SIZE x) js [])) =
      (sint x div 65536 + int (mpn_val js)) mod 65536 ^ length js"
    using "2.IH" [OF x_def] step(4) by (simp add: x_def sint_high_dig add.commute)
  have "int (mpn_val (j # js)) - int (mpn_val []) + sint b = sint x + 65536 * int (mpn_val js)"
    unfolding x_def step(2) by simp
  then show ?case
    using IH by (simp only: mpn_sub_digs.simps Let_def flip: x_def)
      (simp add: mod_mult_digit int_low_dig)
qed auto

lemma mpn_sub_correct:
  assumes "length ks \<le> length js" and "mpn_val ks \<le> mpn_val js" and "mpn_sub js ks = (is, n)"
  shows "length is = length js" and "n \<le> length js" and "normalised (take n is)"
    and "mpn_val (take n is) = mpn_val js - mpn_val ks"
proof -
  have "is": "is = mpn_sub_digs 0 js ks" and n: "n = mpn_remove_trailing_zeros is (length is)"
    using assms(3) by (auto simp: mpn_sub_def Let_def)
  have v: "int (mpn_val is) = (int (mpn_val js) - int (mpn_val ks)) mod 65536 ^ length js"
    and len: "length is = length js"
    using mpn_sub_digs_val [OF assms(1), of 0] by (simp_all add: "is")
  show "length is = length js"
    by (rule len)
  show "n \<le> length js"
    using mpn_remove_trailing_zeros_le [of "is" "length is"] by (simp add: n len)
  show "normalised (take n is)"
    unfolding n by (rule mpn_remove_trailing_zeros_normalised) simp
  have "int (mpn_val js - mpn_val ks) < int (65536 ^ length js)"
    using mpn_val_less [of js] by (intro of_nat_less_iff [THEN iffD2]) linarith
  with v assms(2) have "int (mpn_val is) = int (mpn_val js - mpn_val ks)"
    by (simp add: of_nat_diff mod_pos_pos_trivial)
  then show "mpn_val (take n is) = mpn_val js - mpn_val ks"
    by (simp add: n mpn_remove_trailing_zeros_val)
qed

section \<open>Multiplication\<close>

lemma mul_dig_bound:
  assumes "unat (c :: dbl) < 65536"
  shows "unat (c + (ucast i + ucast j * ucast k) :: dbl) =
      unat c + (unat (i :: dig) + unat (j :: dig) * unat (k :: dig))"
    and "unat (c + ucast j * ucast k :: dbl) = unat c + unat j * unat k"
    and "unat (drop_bit DIG_SIZE (c + (ucast i + ucast j * ucast k)) :: dbl) < 65536"
    and "unat (drop_bit DIG_SIZE (c + ucast j * ucast k) :: dbl) < 65536"
proof -
  have jk: "unat j * unat k \<le> 65535 * 65535"
    using u16_less [of j] u16_less [of k] by (intro mult_le_mono) simp_all
  then have m: "unat (ucast j * ucast k :: dbl) = unat j * unat k"
    by (simp add: unat_mult_u32 unat_u32_of_u16)
  have a: "unat (ucast i + ucast j * ucast k :: dbl) = unat i + unat j * unat k"
    using jk u16_less [of i] by (subst unat_add_u32) (simp_all add: m unat_u32_of_u16)
  show 1: "unat (c + (ucast i + ucast j * ucast k) :: dbl) =
      unat c + (unat i + unat j * unat k)"
    using jk u16_less [of i] assms by (subst unat_add_u32) (simp_all add: a)
  show 2: "unat (c + ucast j * ucast k :: dbl) = unat c + unat j * unat k"
    using jk assms by (subst unat_add_u32) (simp_all add: m)
  show "unat (drop_bit DIG_SIZE (c + (ucast i + ucast j * ucast k)) :: dbl) < 65536"
    using jk u16_less [of i] assms by (simp add: 1)
  show "unat (drop_bit DIG_SIZE (c + ucast j * ucast k) :: dbl) < 65536"
    using jk assms by (simp add: 2)
qed

lemma ucast_carry:
  assumes "unat (c :: dbl) < 65536" and "c \<noteq> 0"
  shows "unat (ucast c :: dig) = unat c" and "(ucast c :: dig) \<noteq> 0"
proof -
  show 1: "unat (ucast c :: dig) = unat c"
    using assms(1) by (simp add: unat_u16_of_u32)
  then show "(ucast c :: dig) \<noteq> 0"
    using assms(2) by (metis unat_eq_0)
qed

lemma mpn_mul_dig_digs_val:
  assumes "unat c < 65536"
  shows "mpn_val (mpn_mul_dig_digs c is d) = mpn_val is * unat d + unat c \<and>
    (length (mpn_mul_dig_digs c is d) = length is \<or>
     length (mpn_mul_dig_digs c is d) = Suc (length is) \<and> last (mpn_mul_dig_digs c is d) \<noteq> 0)"
  using assms
proof (induction c "is" d rule: mpn_mul_dig_digs.induct)
  case (1 c i "is" d)
  have "mpn_val (mpn_mul_dig_digs c (i # is) d) =
      unat c + unat i * unat d + 65536 * (mpn_val is * unat d)"
    using "1.IH" [OF refl mul_dig_bound(4) [OF "1.prems"]] mul_dig_bound(2) [OF "1.prems", of i d]
    by (simp add: Let_def)
  then show ?case
    using "1.IH" [OF refl mul_dig_bound(4) [OF "1.prems"]]
    by (auto simp: Let_def algebra_simps)
next
  case (2 c d)
  then show ?case
    by (auto simp: ucast_carry)
qed

lemma mpn_mul_dig_add_dig_correct:
  assumes "normalised is" and "dmul \<noteq> 0" and "mpn_mul_dig_add_dig is dmul dadd = (is', n)"
  shows "n = length is'" and "mpn_val is' = mpn_val is * unat dmul + unat dadd"
    and "normalised is'" and "n \<le> length is + 1" and "length is \<le> n"
proof -
  have eq: "is' = mpn_mul_dig_digs (ucast dadd) is dmul" and n: "n = length is'"
    using assms(3) by (auto simp: mpn_mul_dig_add_dig_def Let_def)
  show "n = length is'"
    by (rule n)
  have "unat (ucast dadd :: dbl) < 65536"
    using u16_less [of dadd] by (simp add: unat_u32_of_u16)
  from mpn_mul_dig_digs_val [OF this, of "is" dmul]
  have v: "mpn_val is' = mpn_val is * unat dmul + unat dadd"
    and len: "length is' = length is \<or> length is' = Suc (length is) \<and> last is' \<noteq> 0"
    by (simp_all add: eq unat_u32_of_u16)
  show "mpn_val is' = mpn_val is * unat dmul + unat dadd"
    by (rule v)
  from len show "n \<le> length is + 1" and "length is \<le> n"
    by (auto simp: n)
  show "normalised is'"
  proof (cases "length is' = length is \<and> is \<noteq> []")
    case True
    then have "65536 ^ (length is' - 1) \<le> mpn_val is"
      using mpn_val_ge [OF assms(1)] by simp
    also have "\<dots> \<le> mpn_val is'"
      using assms(2) by (simp add: v trans_le_add1 unat_gt_0 Suc_leI)
    finally show ?thesis
      by (rule normalisedI)
  next
    case False
    with len show ?thesis
      by (auto simp: normalised_def)
  qed
qed

lemma mpn_mul_row_val:
  assumes "unat c < 65536" and "length js \<le> length is"
  shows "mpn_val (mpn_mul_row c is js k) = mpn_val (take (length js) is) + mpn_val js * unat k + unat c
    \<and> (length (mpn_mul_row c is js k) = length js \<or>
       length (mpn_mul_row c is js k) = Suc (length js) \<and> last (mpn_mul_row c is js k) \<noteq> 0)"
  using assms
proof (induction c "is" js k rule: mpn_mul_row.induct)
  case (1 c i "is" j js k)
  note bound = mul_dig_bound(1) [OF "1.prems"(1), of i j k]
  note IH = "1.IH" [OF refl mul_dig_bound(3) [OF "1.prems"(1)]]
  have "mpn_val (mpn_mul_row c (i # is) (j # js) k) =
      unat c + (unat i + unat j * unat k) +
      65536 * (mpn_val (take (length js) is) + mpn_val js * unat k)"
    using IH "1.prems"(2) bound by (simp add: Let_def)
  then show ?case
    using IH "1.prems"(2) by (auto simp: Let_def algebra_simps)
qed (auto simp: ucast_carry)

lemma mpn_val_replicate_app [simp]: "mpn_val (replicate n 0 @ ds) = 65536 ^ n * mpn_val ds"
  by (simp add: mpn_val_append)

lemma mpn_val_take_drop:
  "n \<le> length ds \<Longrightarrow> mpn_val ds = mpn_val (take n ds) + 65536 ^ n * mpn_val (drop n ds)"
  using mpn_val_append [of "take n ds" "drop n ds"] by simp

lemma mpn_mul_rows_val:
  assumes "t + length js + length ks \<le> length buf"
    and "drop (t + length js) buf = replicate (length buf - (t + length js)) 0"
    and "mpn_mul_rows t ilen buf js ks = (buf', ilen')"
  shows "length buf' = length buf \<and> mpn_val buf' = mpn_val buf + 65536 ^ t * mpn_val js * mpn_val ks
    \<and> (if ks = [] then ilen' = ilen
       else drop ilen' buf' = replicate (length buf - ilen') 0 \<and>
         (ilen' = t + length js + length ks - 1 \<or>
          ilen' = t + length js + length ks \<and> last (take ilen' buf') \<noteq> 0))"
  using assms
proof (induction t ilen buf js ks rule: mpn_mul_rows.induct)
  case (1 t ilen buf js)
  then show ?case by simp
next
  case (2 t ilen buf js k ks)
  define row where "row = mpn_mul_row 0 (drop t buf) js k"
  define buf1 where "buf1 = take t buf @ row @ drop (t + length row) buf"
  define Z where "Z = length buf - (t + length js)"
  have tl: "t + length js + 1 + length ks \<le> length buf"
    using "2.prems"(1) by simp
  have row_val: "mpn_val row = mpn_val (take (length js) (drop t buf)) + mpn_val js * unat k"
    and row_len: "length row = length js \<or> length row = Suc (length js) \<and> last row \<noteq> 0"
    using mpn_mul_row_val [of 0 js "drop t buf" k] tl by (simp_all add: row_def)
  have zeros: "drop (t + length js) buf = replicate Z 0"
    using "2.prems"(2) by (simp add: Z_def)
  have zeros': "drop (t + length row) buf = replicate (length buf - (t + length row)) 0"
  proof -
    have "drop (t + length row) buf = drop (length row - length js) (drop (t + length js) buf)"
      using row_len by auto
    then show ?thesis
      using row_len by (auto simp: zeros Z_def)
  qed
  have len1: "length buf1 = length buf"
    using tl row_len by (auto simp: buf1_def)
  have "mpn_val buf = mpn_val (take t buf) + 65536 ^ t * mpn_val (take (length js) (drop t buf))"
    using mpn_val_take_drop [of t buf] mpn_val_take_drop [of "length js" "drop t buf"] tl zeros
    by (simp add: add.commute)
  then have val1: "mpn_val buf1 = mpn_val buf + 65536 ^ t * mpn_val js * unat k"
    using tl by (simp add: buf1_def mpn_val_append zeros' row_val algebra_simps)
  have drop1: "drop (Suc t + length js) buf1 = replicate (length buf1 - (Suc t + length js)) 0"
    using tl row_len unfolding len1 by (auto simp: buf1_def zeros')
  have tl1: "Suc t + length js + length ks \<le> length buf1"
    using tl len1 by simp
  have rec: "mpn_mul_rows (Suc t) (t + length row) buf1 js ks = (buf', ilen')"
    using "2.prems"(3) by (simp add: Let_def flip: row_def buf1_def)
  have IH: "length buf' = length buf1 \<and>
      mpn_val buf' = mpn_val buf1 + 65536 ^ Suc t * mpn_val js * mpn_val ks \<and>
      (if ks = [] then ilen' = t + length row
       else drop ilen' buf' = replicate (length buf1 - ilen') 0 \<and>
         (ilen' = Suc t + length js + length ks - 1 \<or>
          ilen' = Suc t + length js + length ks \<and> last (take ilen' buf') \<noteq> 0))"
    by (rule "2.IH" [OF row_def buf1_def tl1 drop1 rec])
  show ?case
  proof (cases "ks = []")
    case True
    with rec have "buf' = buf1" and "ilen' = t + length row"
      by simp_all
    moreover have "drop (t + length row) buf1 = replicate (length buf - (t + length row)) 0"
      and "take (t + length row) buf1 = take t buf @ row"
      using tl by (simp_all add: buf1_def zeros' min_def)
    ultimately show ?thesis
      using True row_len len1 val1 by (auto simp: last_append)
  next
    case False
    with IH len1 val1 show ?thesis
      by (auto simp: algebra_simps)
  qed
qed

lemma mpn_mul_correct:
  assumes "normalised js" and "normalised ks" and "js \<noteq> []" and "ks \<noteq> []"
    and "length js + length ks \<le> m" and "mpn_mul (replicate m 0) js ks = (is, n)"
  shows "length is = m" and "n \<le> length js + length ks" and "normalised (take n is)"
    and "mpn_val (take n is) = mpn_val js * mpn_val ks"
proof -
  note * = mpn_mul_rows_val [of 0 js ks "replicate m 0" 0 "is" n]
  have len: "length is = m" and v: "mpn_val is = mpn_val js * mpn_val ks"
    and z: "drop n is = replicate (m - n) 0"
    and n: "n = length js + length ks - 1 \<or> n = length js + length ks \<and> last (take n is) \<noteq> 0"
    using * assms(4,5,6) by (auto simp: mpn_mul_def split: if_splits)
  show "length is = m"
    by (rule len)
  show n_le: "n \<le> length js + length ks"
    using n by auto
  have "mpn_val is = mpn_val (take n is) + 65536 ^ n * mpn_val (drop n is)"
    using n_le assms(5) len by (intro mpn_val_take_drop) simp
  with v z show v': "mpn_val (take n is) = mpn_val js * mpn_val ks"
    by simp
  show "normalised (take n is)"
  proof (cases "n = length js + length ks - 1")
    case True
    have "65536 ^ (length js - 1) * 65536 ^ (length ks - 1) \<le> mpn_val js * mpn_val ks"
      using assms(1-4) by (intro mult_le_mono mpn_val_ge)
    moreover have "length (take n is) - 1 = (length js - 1) + (length ks - 1)"
      using True assms(3,4,5) len by (cases js; cases ks) auto
    ultimately have "65536 ^ (length (take n is) - 1) \<le> mpn_val (take n is)"
      by (simp only: v' power_add)
    then show ?thesis
      by (rule normalisedI)
  next
    case False
    with n have "last (take n is) \<noteq> 0"
      by blast
    then show ?thesis
      unfolding normalised_def by blast
  qed
qed

section \<open>Shifts\<close>

lemma mpn_shl_digs_val:
  assumes "s \<le> 15" and "unat d = 65536 * p"
  shows "length (mpn_shl_digs s d js) = Suc (length js) \<and>
    mpn_val (rev (mpn_shl_digs s d js)) =
      ((p * 65536 ^ length js + mpn_val (rev js)) * 65536) div 2 ^ s mod 65536 ^ Suc (length js)"
  using assms(2)
proof (induction js arbitrary: d p)
  case Nil
  then show ?case
    by (simp add: unat_drop_bit_nat mult.commute)
next
  case (Cons j js)
  define n where "n = length js"
  define M where "M = (unat j * 65536 ^ n + mpn_val (rev js)) * 65536"
  define d' where "d' = d OR ucast j"
  have d': "unat d' = 65536 * p + unat j"
    unfolding d'_def using Cons.prems by (rule unat_or_u16)
  have "unat (push_bit DIG_SIZE d') = 65536 * unat j"
    using u16_less [of j] by (simp add: DIG_SIZE_def unat_push16_u32 d')
  from Cons.IH [OF this]
  have len: "length (mpn_shl_digs s (push_bit DIG_SIZE d') js) = Suc n"
    and rest: "mpn_val (rev (mpn_shl_digs s (push_bit DIG_SIZE d') js)) =
      M div 2 ^ s mod 65536 ^ Suc n"
    by (simp_all add: n_def M_def)
  have M_div: "M div 65536 ^ Suc n = unat j"
  proof -
    have "M div 65536 ^ Suc n = (unat j * 65536 ^ n + mpn_val (rev js)) div 65536 ^ n"
      unfolding M_def power_Suc2 by (rule div_mult_mult2) simp
    also have "\<dots> = unat j"
      using mpn_val_less [of "rev js"] by (simp add: n_def)
    finally show ?thesis .
  qed
  define X where "X = (p * 65536 ^ Suc n * 65536 + M) div 2 ^ s"
  have X_div: "X div 65536 ^ Suc n = (65536 * p + unat j) div 2 ^ s"
  proof -
    have "X div 65536 ^ Suc n = (p * 65536 ^ Suc n * 65536 + M) div 65536 ^ Suc n div 2 ^ s"
      by (simp only: X_def div_mult2_eq [symmetric] mult.commute)
    also have "(p * 65536 ^ Suc n * 65536 + M) div 65536 ^ Suc n = 65536 * p + unat j"
      using M_div by (simp add: mult.assoc mult.left_commute [of p] del: power_Suc)
    finally show ?thesis .
  qed
  have pow: "(65536 :: nat) = 2 ^ s * 2 ^ (16 - s)"
    using assms(1) by (simp flip: power_add)
  have "X = (2 ^ s * (p * 2 ^ (16 - s) * 65536 ^ Suc n) + M) div 2 ^ s"
    unfolding X_def by (subst (2) pow) (simp add: algebra_simps)
  then have X_mod: "X mod 65536 ^ Suc n = M div 2 ^ s mod 65536 ^ Suc n"
    by simp
  have "mpn_val (rev (mpn_shl_digs s d (j # js))) =
      M div 2 ^ s mod 65536 ^ Suc n + 65536 ^ Suc n * ((65536 * p + unat j) div 2 ^ s mod 65536)"
    by (simp add: Let_def mpn_val_append rest len unat_drop_bit_nat d' del: power_Suc flip: d'_def)
  also have "\<dots> = X mod (65536 ^ Suc n * 65536)"
    by (simp only: mod_mult2_eq X_div X_mod)
  also have "X = (p * 65536 ^ length (j # js) + mpn_val (rev (j # js))) * 65536 div 2 ^ s"
    by (simp add: X_def M_def n_def mpn_val_append algebra_simps)
  finally show ?case
    using len by (simp add: Let_def n_def mult.commute flip: d'_def)
qed


lemma mpn_shl_correct:
  assumes "0 < n" and "n + 15 < 2 ^ 32" and "mpn_shl js n = (is, m)"
  shows "length is = length js + (n + 15) div 16" and "m \<le> length is"
    and "normalised (take m is)" and "mpn_val (take m is) = mpn_val js * 2 ^ n"
proof -
  define w where "w = (n + 15) div 16"
  define p where "p = (if n mod 16 = 0 then 16 else n mod 16)"
  have w: "(n + DIG_SIZE - 1) mod 2 ^ 32 div DIG_SIZE = w"
    using assms(2) by (simp add: DIG_SIZE_def w_def)
  have p: "1 \<le> p" "p \<le> 16" and w1: "1 \<le> w"
    using assms(1) by (auto simp: w_def p_def)
  have n: "n = 16 * (w - 1) + p"
  proof (cases "n mod 16 = 0")
    case True
    then obtain q where "n = 16 * q"
      by (auto elim: dvdE)
    then show ?thesis
      using assms(1) by (cases q) (simp_all add: w_def p_def)
  next
    case False
    define q where "q = n div 16"
    define r where "r = n mod 16"
    have "0 < r" and "r < 16"
      using False by (simp_all add: r_def)
    then have "(16 * q + r + 15) div 16 = Suc q"
      by (intro div_nat_eqI) simp_all
    then have "w = Suc (n div 16)"
      by (simp add: w_def q_def r_def)
    then show ?thesis
      using False by (simp add: p_def)
  qed
  have "is": "is = replicate (w - 1) 0 @ rev (mpn_shl_digs (16 - p) 0 (rev js))"
    and m: "m = mpn_remove_trailing_zeros is (length js + w)"
    using assms(3) unfolding mpn_shl_def Let_def w by (auto simp: DIG_SIZE_def p_def)
  have "16 - p \<le> 15"
    using p by simp
  note digs = mpn_shl_digs_val [OF this, of 0 0 "rev js"]
  have len: "length is = length js + w"
    using digs w1 by (simp add: "is")
  then show "length is = length js + (n + 15) div 16"
    by (simp add: w_def)
  show "m \<le> length is"
    using mpn_remove_trailing_zeros_le [of "is" "length js + w"] by (simp add: m len)
  show "normalised (take m is)"
    unfolding m by (rule mpn_remove_trailing_zeros_normalised) (simp add: len)
  have "mpn_val js * 2 ^ p < 65536 ^ length js * 65536"
  proof -
    have "(2 :: nat) ^ p \<le> 2 ^ 16"
      using p by (intro power_increasing) auto
    then have "mpn_val js * 2 ^ p \<le> mpn_val js * 65536"
      by (intro mult_le_mono2) simp
    also have "\<dots> < 65536 ^ length js * 65536"
      using mpn_val_less [of js] by simp
    finally show ?thesis .
  qed
  moreover have "mpn_val js * 65536 div 2 ^ (16 - p) = mpn_val js * 2 ^ p"
  proof -
    have "(65536 :: nat) = 2 ^ p * 2 ^ (16 - p)"
      using p by (simp flip: power_add)
    then have "mpn_val js * 65536 = mpn_val js * 2 ^ p * 2 ^ (16 - p)"
      by (simp only: mult.assoc)
    then show ?thesis
      by (simp only: nonzero_mult_div_cancel_right) simp
  qed
  ultimately have "mpn_val (rev (mpn_shl_digs (16 - p) 0 (rev js))) = mpn_val js * 2 ^ p"
    using digs by (simp add: mult.commute)
  then have "mpn_val is = 65536 ^ (w - 1) * (mpn_val js * 2 ^ p)"
    by (simp add: "is")
  also have "\<dots> = mpn_val js * 2 ^ n"
  proof -
    have "(2 :: nat) ^ n = 65536 ^ (w - 1) * 2 ^ p"
      by (subst n) (simp add: power_add power_mult)
    then show ?thesis
      by simp
  qed
  finally show "mpn_val (take m is) = mpn_val js * 2 ^ n"
    by (simp add: m len mpn_remove_trailing_zeros_val)
qed

lemma mpn_val_drop: "mpn_val (drop n ds) = mpn_val ds div 65536 ^ n"
proof (cases "n \<le> length ds")
  case True
  then have "mpn_val ds = mpn_val (take n ds) + 65536 ^ n * mpn_val (drop n ds)"
    by (rule mpn_val_take_drop)
  moreover have "mpn_val (take n ds) < 65536 ^ n"
    using mpn_val_less [of "take n ds"] True by simp
  ultimately show ?thesis
    by simp
next
  case False
  have "mpn_val ds < 65536 ^ length ds"
    by (rule mpn_val_less)
  also have "\<dots> \<le> 65536 ^ n"
    using False by (intro power_increasing) auto
  finally show ?thesis
    using False by simp
qed

lemma mpn_shr_digs_val:
  assumes "p \<le> 15"
  shows "length (mpn_shr_digs p js) = length js \<and> mpn_val (mpn_shr_digs p js) = mpn_val js div 2 ^ p"
proof (induction js)
  case (Cons j js)
  define d :: dbl
    where "d = (case js of [] \<Rightarrow> ucast j | j1 # _ \<Rightarrow> ucast j OR push_bit DIG_SIZE (ucast j1))"
  define V where "V = mpn_val js"
  have d: "unat d = unat j + 65536 * (V mod 65536)"
  proof (cases js)
    case Nil
    then show ?thesis
      by (simp add: d_def V_def unat_u32_of_u16)
  next
    case (Cons j1 js')
    have "unat (push_bit DIG_SIZE (ucast j1) :: dbl) = 65536 * unat j1"
      using u16_less [of j1] by (simp add: DIG_SIZE_def unat_push16_u32 unat_u32_of_u16)
    from unat_or_u16 [OF this, of j] u16_less [of j1] Cons show ?thesis
      by (simp add: d_def V_def or.commute)
  qed
  have pow: "(65536 :: nat) = 2 ^ p * 2 ^ (16 - p)"
    using assms by (simp flip: power_add)
  define X where "X = unat j + 65536 * V"
  have split: "65536 * q = 2 ^ p * (2 ^ (16 - p) * q)" for q :: nat
    by (subst pow) (simp only: mult.assoc)
  have "X = unat d + 65536 * (65536 * (V div 65536))"
    unfolding X_def d using div_mult_mod_eq [of V 65536] by linarith
  then have "X = unat d + 2 ^ p * (2 ^ (16 - p) * (65536 * (V div 65536)))"
    by (simp only: split [of "65536 * (V div 65536)"])
  then have "X div 2 ^ p = unat d div 2 ^ p + 2 ^ (16 - p) * (65536 * (V div 65536))"
    by simp
  then have "X div 2 ^ p mod 65536 = unat d div 2 ^ p mod 65536"
    by (simp add: mult.left_commute [of _ 65536])
  moreover have "X div 2 ^ p div 65536 = V div 2 ^ p"
  proof -
    have "X div 2 ^ p div 65536 = X div 65536 div 2 ^ p"
      by (simp only: div_mult2_eq [symmetric] mult.commute)
    also have "X div 65536 = V"
      using u16_less [of j] by (simp add: X_def)
    finally show ?thesis .
  qed
  ultimately have "unat d div 2 ^ p mod 65536 + 65536 * (V div 2 ^ p) = X div 2 ^ p"
    using mod_mult_div_eq [of "X div 2 ^ p" 65536] by simp
  then show ?case
    using Cons.IH by (simp add: Let_def unat_drop_bit_nat V_def X_def flip: d_def)
qed simp

lemma mpn_shr_correct:
  assumes "normalised js" and "mpn_shr js n = (is, m)"
  shows "length is \<le> length js" and "m \<le> length is" and "normalised (take m is)"
    and "mpn_val (take m is) = mpn_val js div 2 ^ n"
proof -
  define w where "w = n div 16"
  define p where "p = n mod 16"
  have n: "n = 16 * w + p" and p: "p \<le> 15"
    by (simp_all add: w_def p_def)
  have pow: "(2 :: nat) ^ n = 65536 ^ w * 2 ^ p"
    by (simp add: n power_add power_mult)
  have "length is \<le> length js \<and> m \<le> length is \<and> normalised (take m is) \<and>
    mpn_val (take m is) = mpn_val js div 2 ^ n"
  proof (cases "w \<ge> length js")
    case True
    have "mpn_val js < 65536 ^ length js"
      by (rule mpn_val_less)
    also have "\<dots> \<le> 65536 ^ w"
      using True by (intro power_increasing) auto
    also have "\<dots> \<le> 2 ^ n"
      by (simp add: pow)
    finally show ?thesis
      using assms(2) True by (simp add: mpn_shr_def DIG_SIZE_def w_def normalised_def)
  next
    case False
    define ds where "ds = drop w js"
    have ds: "ds \<noteq> []" "normalised ds"
      using False assms(1) by (auto simp: ds_def normalised_def)
    have "is": "is = mpn_shr_digs p ds" and m: "m = (if last is = 0 then length ds - 1 else length ds)"
      using assms(2) False by (auto simp: mpn_shr_def DIG_SIZE_def w_def p_def ds_def Let_def)
    have len: "length is = length ds" and v: "mpn_val is = mpn_val js div 2 ^ n"
      using mpn_shr_digs_val [OF p, of ds] by (simp_all add: "is" ds_def mpn_val_drop pow div_mult2_eq)
    show ?thesis
    proof (cases "last is = 0")
      case False
      then show ?thesis
        using len v by (simp add: m normalised_def) (simp add: ds_def)
    next
      case True
      then obtain es where es: "is = es @ [0]"
        using len ds(1) by (metis append_butlast_last_id length_0_conv)
      have "normalised es"
      proof (cases "es = []")
        case False
        then have "length ds = Suc (Suc (length es - 1))"
          using es len by (cases es) auto
        then have "65536 * 65536 ^ (length es - 1) \<le> mpn_val ds"
          using mpn_val_ge [OF ds(2,1)] by simp
        moreover have "2 ^ p * 65536 ^ (length es - 1) \<le> (65536 :: nat) * 65536 ^ (length es - 1)"
          using p power_increasing [of p 16 "2 :: nat"] by simp
        ultimately have "2 ^ p * 65536 ^ (length es - 1) \<le> mpn_val ds"
          by (rule order.trans [rotated])
        then have "65536 ^ (length es - 1) \<le> mpn_val ds div 2 ^ p"
          by (simp add: less_eq_div_iff_mult_less_eq mult.commute)
        also have "\<dots> = mpn_val es"
          using mpn_shr_digs_val [OF p, of ds] es by (simp add: "is" mpn_val_append)
        finally show ?thesis
          by (rule normalisedI)
      qed (simp add: normalised_def)
      with True es len v show ?thesis
        by (simp add: m mpn_val_append) (simp add: ds_def)
    qed
  qed
  then show "length is \<le> length js" and "m \<le> length is" and "normalised (take m is)"
    and "mpn_val (take m is) = mpn_val js div 2 ^ n"
    by blast+
qed

end
