(* ===== verification/Mpn_Bits.thy ===== *)
theory Mpn_Bits
  imports Mpn_Correct
begin

text \<open>
  Correctness of the bitwise digit functions. Arrays of digits are read as integers in two's
  complement: the loops of \<^verbatim>\<open>mpn_and_neg\<close>, \<^verbatim>\<open>mpn_or_neg\<close> and \<^verbatim>\<open>mpn_xor_neg\<close> are
  instances of one loop (\<open>bit_loop\<close>) that adds a carry into each operand on the fly, combines
  the low 16 bits, and adds a carry into the result; its value is computed once.
\<close>

section \<open>Non-negative operands\<close>

lemma bit_split_nat:
  fixes x y :: nat
  shows "x AND y = (x mod 65536 AND y mod 65536) + 65536 * (x div 65536 AND y div 65536)"
    and "x OR y = (x mod 65536 OR y mod 65536) + 65536 * (x div 65536 OR y div 65536)"
    and "x XOR y = (x mod 65536 XOR y mod 65536) + 65536 * (x div 65536 XOR y div 65536)"
proof -
  have split: "z = take_bit 16 z + 65536 * drop_bit 16 z" for z :: nat
    by (simp add: take_bit_eq_mod drop_bit_eq_div)
  show "x AND y = (x mod 65536 AND y mod 65536) + 65536 * (x div 65536 AND y div 65536)"
    using split [of "x AND y"] by (simp only: take_bit_and drop_bit_and) (simp add: take_bit_eq_mod drop_bit_eq_div)
  show "x OR y = (x mod 65536 OR y mod 65536) + 65536 * (x div 65536 OR y div 65536)"
    using split [of "x OR y"] by (simp only: take_bit_or drop_bit_or) (simp add: take_bit_eq_mod drop_bit_eq_div)
  show "x XOR y = (x mod 65536 XOR y mod 65536) + 65536 * (x div 65536 XOR y div 65536)"
    using split [of "x XOR y"] by (simp only: take_bit_xor drop_bit_xor) (simp add: take_bit_eq_mod drop_bit_eq_div)
qed

lemma mpn_val_and:
  "length ks \<le> length js \<Longrightarrow> mpn_val (map2 (\<lambda>j k. j AND k) js ks) = mpn_val js AND mpn_val ks"
proof (induction js ks rule: list_induct2')
  case (4 j js k ks)
  then show ?case
    using u16_less [of j] u16_less [of k]
    by (subst bit_split_nat) (simp add: unsigned_and_eq)
qed auto

lemma mpn_val_or:
  "length ks \<le> length js \<Longrightarrow>
   mpn_val (map2 (\<lambda>j k. j OR k) js ks @ drop (length ks) js) = mpn_val js OR mpn_val ks"
proof (induction js ks rule: list_induct2')
  case (4 j js k ks)
  then show ?case
    using u16_less [of j] u16_less [of k]
    by (subst bit_split_nat) (simp add: unsigned_or_eq)
qed auto

lemma mpn_val_xor:
  "length ks \<le> length js \<Longrightarrow>
   mpn_val (map2 (\<lambda>j k. j XOR k) js ks @ drop (length ks) js) = mpn_val js XOR mpn_val ks"
proof (induction js ks rule: list_induct2')
  case (4 j js k ks)
  then show ?case
    using u16_less [of j] u16_less [of k]
    by (subst bit_split_nat) (simp add: unsigned_xor_eq)
qed auto

section \<open>The carry loop\<close>

fun bit_loop ::
    "(dbl \<Rightarrow> dbl \<Rightarrow> dbl) \<Rightarrow> dbl \<Rightarrow> dbl \<Rightarrow> dbl \<Rightarrow> dbl list \<Rightarrow> dbl list \<Rightarrow> dig list \<times> dbl" where
  "bit_loop g ci cj ck (a # as) (b # bs) =
     (let cj' = cj + a; ck' = ck + b; ci' = ci + (g cj' ck' AND DIG_MASK);
          (is, c) = bit_loop g (drop_bit DIG_SIZE ci') (drop_bit DIG_SIZE cj')
                      (drop_bit DIG_SIZE ck') as bs
      in (ucast (ci' AND DIG_MASK) # is, c))"
| "bit_loop g ci cj ck as bs = ([], ci)"

fun dbl_val :: "dbl list \<Rightarrow> int" where
  "dbl_val [] = 0"
| "dbl_val (a # as) = int (unat a) + 65536 * dbl_val as"

text \<open>
  The integer operation \<open>G\<close> a digit operation \<open>g\<close> computes: it agrees with \<open>g\<close> on the low 16
  bits and works bit by bit.
\<close>

definition bitwise_of :: "(int \<Rightarrow> int \<Rightarrow> int) \<Rightarrow> (dbl \<Rightarrow> dbl \<Rightarrow> dbl) \<Rightarrow> bool" where
  "bitwise_of G g \<longleftrightarrow>
     (\<forall>x y. int (unat (g x y AND DIG_MASK)) = take_bit 16 (G (int (unat x)) (int (unat y)))) \<and>
     (\<forall>x y n. take_bit n (G x y) = take_bit n (G (take_bit n x) (take_bit n y))) \<and>
     (\<forall>x y n. drop_bit n (G x y) = G (drop_bit n x) (drop_bit n y))"

lemma take_bit_digits: "take_bit (16 * Suc n) x = take_bit 16 x + 65536 * take_bit (16 * n) (drop_bit 16 (x :: int))"
proof -
  have "x mod (65536 * 65536 ^ n) = 65536 * (x div 65536 mod 65536 ^ n) + x mod 65536"
    by (rule zmod_zmult2_eq) simp
  moreover have "(2 :: int) ^ (16 * Suc n) = 65536 * 65536 ^ n" and "(2 :: int) ^ (16 * n) = 65536 ^ n"
    by (simp_all add: power_mult power_add)
  ultimately show ?thesis
    by (simp only: take_bit_eq_mod drop_bit_eq_div) simp
qed

lemma unat_and_DIG_MASK: "unat (x AND DIG_MASK) = unat x mod 65536"
  using unat_and_mask [of x 16] by (simp add: DIG_MASK_def mask_eq_exp_minus_1)

lemma bit_loop_val:
  assumes "bitwise_of G g" and "length as = length bs"
    and "\<forall>a \<in> set as \<union> set bs. unat a \<le> 131070"
    and "unat ci \<le> 1" and "unat cj \<le> 1" and "unat ck \<le> 1"
    and "bit_loop g ci cj ck as bs = (is, c)"
  shows "length is = length as \<and> unat c \<le> 1 \<and>
    int (mpn_val is) + 65536 ^ length as * int (unat c) =
      int (unat ci) + take_bit (16 * length as)
        (G (int (unat cj) + dbl_val as) (int (unat ck) + dbl_val bs))"
  using assms(2-)
proof (induction as bs arbitrary: ci cj ck "is" rule: list_induct2)
  case Nil
  then show ?case by simp
next
  case (Cons a as b bs)
  define cj' where "cj' = cj + a"
  define ck' where "ck' = ck + b"
  define ci' where "ci' = ci + (g cj' ck' AND DIG_MASK)"
  have cj': "unat cj' = unat cj + unat a" and ck': "unat ck' = unat ck + unat b"
    using Cons.prems(1,3,4) unfolding cj'_def ck'_def by (auto intro!: unat_add_u32)
  have "unat (g cj' ck' AND DIG_MASK) < 65536"
    by (simp add: unat_and_DIG_MASK)
  then have ci': "unat ci' = unat ci + unat (g cj' ck' AND DIG_MASK)"
    using Cons.prems(2) unfolding ci'_def by (auto intro!: unat_add_u32)
  obtain is' where rec: "bit_loop g (drop_bit DIG_SIZE ci') (drop_bit DIG_SIZE cj')
      (drop_bit DIG_SIZE ck') as bs = (is', c)" and "is": "is = ucast (ci' AND DIG_MASK) # is'"
    using Cons.prems(5) by (auto simp: Let_def ci'_def cj'_def ck'_def split: prod.splits)
  have carries: "unat (drop_bit DIG_SIZE ci') \<le> 1" "unat (drop_bit DIG_SIZE cj') \<le> 1"
    "unat (drop_bit DIG_SIZE ck') \<le> 1"
    using Cons.prems(1-4) by (auto simp: ci' cj' ck' unat_and_DIG_MASK)
  define A where "A = int (unat cj) + dbl_val (a # as)"
  define K where "K = int (unat ck) + dbl_val (b # bs)"
  have A: "A = int (unat cj') + 65536 * dbl_val as" and K: "K = int (unat ck') + 65536 * dbl_val bs"
    by (simp_all add: A_def K_def cj' ck')
  have A_high: "drop_bit 16 A = int (unat (drop_bit DIG_SIZE cj')) + dbl_val as"
    and K_high: "drop_bit 16 K = int (unat (drop_bit DIG_SIZE ck')) + dbl_val bs"
    unfolding A K unat_high_dig by (simp_all add: drop_bit_eq_div zdiv_int)
  have A_low: "take_bit 16 A = take_bit 16 (int (unat cj'))"
    and K_low: "take_bit 16 K = take_bit 16 (int (unat ck'))"
    by (simp_all add: A K take_bit_eq_mod)
  have low: "int (unat (g cj' ck' AND DIG_MASK)) = take_bit 16 (G A K)"
    using assms(1) A_low K_low unfolding bitwise_of_def by metis
  have high: "drop_bit 16 (G A K) = G (drop_bit 16 A) (drop_bit 16 K)"
    using assms(1) unfolding bitwise_of_def by blast
  have IH: "length is' = length as \<and> unat c \<le> 1 \<and>
    int (mpn_val is') + 65536 ^ length as * int (unat c) =
      int (unat (drop_bit DIG_SIZE ci')) + take_bit (16 * length as) (drop_bit 16 (G A K))"
    unfolding high A_high K_high using Cons.prems(1) by (intro Cons.IH carries rec) auto
  have "int (mpn_val is) + 65536 ^ length (a # as) * int (unat c) =
      int (unat ci' mod 65536) + 65536 * (int (mpn_val is') + 65536 ^ length as * int (unat c))"
    by (simp add: "is" algebra_simps)
  also have "\<dots> = int (unat ci') + 65536 * take_bit (16 * length as) (drop_bit 16 (G A K))"
    using IH by (simp add: zdiv_int zmod_int)
  also have "\<dots> = int (unat ci) + take_bit (16 * length (a # as)) (G A K)"
    by (simp only: ci' of_nat_add low length_Cons take_bit_digits)
  finally show ?case
    using IH "is" by (simp add: A_def K_def)
qed

section \<open>Signed values\<close>

definition sval :: "bool \<Rightarrow> dig list \<Rightarrow> int" where
  "sval neg ds = (if neg then - int (mpn_val ds) else int (mpn_val ds))"

lemma mask16_dbl: "(0xFFFF :: dbl) = mask 16" "ucast (0xFFFF :: dig) = (mask 16 :: dbl)"
  by (simp_all add: mask_eq_exp_minus_1)

lemma unat_xor_mask16: "unat (j XOR 0xFFFF :: dig) = 65535 - unat j"
proof -
  have "(0xFFFF :: dig) = -1"
    by simp
  then have "j XOR 0xFFFF = -1 - j"
    by (simp only:) (simp add: not_eq_complement)
  moreover have "unat (-1 - j) = unat (-1 :: dig) - unat j"
    by (rule unat_sub) simp
  ultimately show ?thesis
    by (simp add: unsigned_minus_1_eq_mask mask_eq_exp_minus_1)
qed

lemma bitwise_of_and:
  "bitwise_of (\<lambda>x y. x AND y) (\<lambda>x y. (x AND y) XOR ucast (0 :: dig))"
  "bitwise_of (\<lambda>x y. NOT (x AND y)) (\<lambda>x y. (x AND y) XOR ucast (0xFFFF :: dig))"
  unfolding bitwise_of_def uint_nat [symmetric] DIG_MASK_def mask16_dbl
  by (auto intro!: bit_eqI simp: bit_simps)

lemma bitwise_of_or: "bitwise_of (\<lambda>x y. NOT (x OR y)) (\<lambda>x y. (x OR y) XOR DIG_MASK)"
  unfolding bitwise_of_def uint_nat [symmetric] DIG_MASK_def mask16_dbl
  by (auto intro!: bit_eqI simp: bit_simps)

lemma bitwise_of_xor: "bitwise_of (\<lambda>x y. x XOR y) (\<lambda>x y. x XOR y)"
  unfolding bitwise_of_def uint_nat [symmetric] DIG_MASK_def mask16_dbl
  by (auto intro!: bit_eqI simp: bit_simps)

text \<open>The operands of the loops of the program, and their values modulo the digits of \<open>j\<close>.\<close>

definition pad :: "nat \<Rightarrow> dig list \<Rightarrow> dig list" where
  "pad n ks = ks @ replicate (n - length ks) 0"

lemma length_pad: "length ks \<le> n \<Longrightarrow> length (pad n ks) = n"
  by (simp add: pad_def)

lemma mpn_val_pad [simp]: "mpn_val (pad n ks) = mpn_val ks"
  by (simp add: pad_def mpn_val_append)

lemma pad_Suc: "ks \<noteq> [] \<Longrightarrow> pad (Suc n) ks = hd ks # pad n (tl ks)" "pad (Suc n) [] = 0 # pad n []"
  by (cases ks; simp add: pad_def)+

lemma dbl_val_mask0: "dbl_val (map (\<lambda>j. ucast (j XOR 0)) js) = int (mpn_val js)"
  by (induction js) (auto simp: unat_u32_of_u16)

lemma dbl_val_mask1:
  "dbl_val (map (\<lambda>j. ucast (j XOR 0xFFFF :: dig)) js) = 65536 ^ length js - 1 - int (mpn_val js)"
proof (induction js)
  case (Cons j js)
  have "int (65535 - unat j) = 65535 - int (unat j)"
    using u16_less [of j] by (simp add: of_nat_diff)
  then show ?case
    using Cons by (simp add: unat_u32_of_u16 unat_xor_mask16)
qed simp

lemma dbl_val_plus_mask:
  "dbl_val (map (\<lambda>j. ucast j + DIG_MASK) js) = int (mpn_val js) + 65536 ^ length js - 1"
proof (induction js)
  case (Cons j js)
  have "unat (ucast j + DIG_MASK :: dbl) = unat j + 65535"
    using u16_less [of j] by (subst unat_add_u32) (simp_all add: DIG_MASK_def unat_u32_of_u16)
  then show ?case
    using Cons by simp
qed simp

lemma take_bit_add_power: "take_bit n (x + 2 ^ n) = take_bit n (x :: int)"
  by (simp add: take_bit_eq_mod)

lemma mask_operand:
  assumes "length ds = n"
  shows "take_bit (16 * n) (int (unat (of_bool neg :: dbl)) +
      dbl_val (map (\<lambda>d. ucast (d XOR carry_mask (of_bool neg))) ds)) =
    take_bit (16 * n) (sval neg ds)"
  using assms take_bit_add_power [of "16 * n" "- int (mpn_val ds)"]
  by (cases neg) (simp_all add: carry_mask_def dbl_val_mask0 dbl_val_mask1 sval_def power_mult
      del: xor_self_eq xor.right_neutral)

lemma minus_one_operand:
  assumes "length ds = n"
  shows "take_bit (16 * n) (int (unat (of_bool c :: dbl)) +
      dbl_val (map (\<lambda>d. ucast d + DIG_MASK) ds)) =
    take_bit (16 * n) (int (mpn_val ds) - of_bool (\<not> c))"
proof -
  have "int (unat (of_bool c :: dbl)) + dbl_val (map (\<lambda>d. ucast d + DIG_MASK) ds) =
      (int (mpn_val ds) - of_bool (\<not> c)) + 2 ^ (16 * n)"
    using assms by (cases c) (simp_all only: dbl_val_plus_mask, simp_all add: power_mult)
  then show ?thesis
    by (simp only: take_bit_add_power)
qed

lemma bitwise_of_take_bit:
  assumes "bitwise_of G g" and "take_bit n x = take_bit n x'" and "take_bit n y = take_bit n y'"
  shows "take_bit n (G x y) = take_bit n (G x' y')"
  using assms unfolding bitwise_of_def by metis

section \<open>The loops of the program as instances\<close>

lemma mpn_and_neg_digs_loop:
  assumes "length ks \<le> length js"
  shows "mpn_and_neg_digs im jm km ci cj ck js ks =
    (let (is, c) = bit_loop (\<lambda>x y. (x AND y) XOR ucast im) ci cj ck
        (map (\<lambda>j. ucast (j XOR jm)) js) (map (\<lambda>k. ucast (k XOR km)) (pad (length js) ks))
     in is @ (if 0 \<noteq> c then [ucast c] else []))"
  using assms
proof (induction js arbitrary: ci cj ck ks)
  case (Cons j js)
  then have "length (tl ks) \<le> length js"
    by (cases ks) auto
  then show ?case
    by (cases ks) (simp_all add: Let_def Cons.IH pad_Suc split: prod.splits)
qed (simp add: pad_def)

lemma mpn_or_neg_digs_loop:
  assumes "length ks \<le> length js"
  shows "mpn_or_neg_digs jm km ci cj ck js ks =
    bit_loop (\<lambda>x y. (x OR y) XOR DIG_MASK) ci cj ck
      (map (\<lambda>j. ucast (j XOR jm)) js) (map (\<lambda>k. ucast (k XOR km)) (pad (length js) ks))"
  using assms
proof (induction js arbitrary: ci cj ck ks)
  case (Cons j js)
  then have "length (tl ks) \<le> length js"
    by (cases ks) auto
  then show ?case
    by (cases ks) (simp_all add: Let_def Cons.IH pad_Suc split: prod.splits)
qed (simp add: pad_def)

lemma mpn_xor_neg_digs_loop:
  assumes "length ks \<le> length js"
  shows "mpn_xor_neg_digs ci cj ck js ks =
    (let (is, c) = bit_loop (\<lambda>x y. x XOR y) ci cj ck
        (map (\<lambda>j. ucast j + DIG_MASK) js) (map (\<lambda>k. ucast k + DIG_MASK) (pad (length js) ks))
     in is @ (if 0 \<noteq> c then [ucast c] else []))"
  using assms
proof (induction js arbitrary: ci cj ck ks)
  case (Cons j js)
  then have "length (tl ks) \<le> length js"
    by (cases ks) auto
  then show ?case
    by (cases ks) (simp_all add: Let_def Cons.IH pad_Suc split: prod.splits)
qed (simp add: pad_def)


section \<open>Correctness\<close>

text \<open>
  One statement for the three loops: run on the signed operands, the loop leaves the operation on
  the signed values, modulo the digits of \<open>j\<close>, plus the carry it started with.
\<close>

lemma bit_loop_neg:
  assumes "bitwise_of G g" and "length ks \<le> length js"
    and "bit_loop g (of_bool neg) (of_bool jn) (of_bool kn)
        (map (\<lambda>j. ucast (j XOR carry_mask (of_bool jn))) js)
        (map (\<lambda>k. ucast (k XOR carry_mask (of_bool kn))) (pad (length js) ks)) = (is, c)"
  shows "length is = length js" and "unat c \<le> 1"
    and "int (mpn_val is) + 65536 ^ length js * int (unat c) =
      of_bool neg + take_bit (16 * length js) (G (sval jn js) (sval kn ks))"
proof -
  have small: "unat (of_bool b :: dbl) \<le> 1" for b
    by simp
  have dig: "\<forall>a\<in>set (map (\<lambda>j. ucast (j XOR m) :: dbl) ds). unat a \<le> 131070" for m :: dig and ds
    using u16_less by (auto simp: unat_u32_of_u16 less_imp_le intro: order.trans [OF less_imp_le [OF u16_less]])
  note loop = bit_loop_val [OF assms(1) _ _ small small small assms(3)]
  have *: "length is = length js \<and> unat c \<le> 1 \<and>
    int (mpn_val is) + 65536 ^ length js * int (unat c) =
      int (unat (of_bool neg :: dbl)) + take_bit (16 * length js)
        (G (int (unat (of_bool jn :: dbl)) + dbl_val (map (\<lambda>j. ucast (j XOR carry_mask (of_bool jn))) js))
           (int (unat (of_bool kn :: dbl)) +
            dbl_val (map (\<lambda>k. ucast (k XOR carry_mask (of_bool kn))) (pad (length js) ks))))"
    using loop dig [of "carry_mask (of_bool jn)" js]
      dig [of "carry_mask (of_bool kn)" "pad (length js) ks"] assms(2)
    by (simp add: length_pad ball_Un)
  then show "length is = length js" and "unat c \<le> 1"
    by blast+
  have "sval kn (pad (length js) ks) = sval kn ks"
    by (simp add: sval_def)
  with * show "int (mpn_val is) + 65536 ^ length js * int (unat c) =
      of_bool neg + take_bit (16 * length js) (G (sval jn js) (sval kn ks))"
    using bitwise_of_take_bit [OF assms(1) mask_operand [of js "length js" jn]
      mask_operand [of "pad (length js) ks" "length js" kn]] assms(2)
    by (simp add: length_pad)
qed

lemma int_val_less: "int (mpn_val ds) < 2 ^ (16 * length ds)"
proof -
  have "int (mpn_val ds) < int (65536 ^ length ds)"
    using mpn_val_less [of ds] by (simp only: of_nat_less_iff)
  then show ?thesis
    by (simp add: power_mult)
qed

lemma int_val_less_longer: "length ks \<le> length js \<Longrightarrow> int (mpn_val ks) < 2 ^ (16 * length js)"
  using int_val_less [of ks] by (rule order.strict_trans2) (simp add: power_increasing)

text \<open>A negative value \<open>- v\<close> with \<open>0 < v\<close> is the complement of \<open>v - 1\<close>.\<close>

lemma neg_as_not: "- v = NOT (v - 1)" for v :: int
  by (simp add: not_eq_complement)

lemma with_carry_digit:
  assumes "unat c \<le> 1"
  shows "int (mpn_val (is @ (if 0 \<noteq> c then [ucast c] else []))) =
      int (mpn_val is) + 65536 ^ length is * int (unat (c :: dbl))"
  using assms by (auto simp: mpn_val_append unat_u16_of_u32)

lemma strip_zeros:
  assumes "m = mpn_remove_trailing_zeros is (length is)"
  shows "m \<le> length is" and "normalised (take m is)" and "mpn_val (take m is) = mpn_val is"
  using mpn_remove_trailing_zeros_le [of "is" "length is"]
    mpn_remove_trailing_zeros_normalised [of "length is" "is"]
    mpn_remove_trailing_zeros_val [of "length is" "is"]
  by (simp_all add: assms)

lemma and_neg_value:
  assumes "jn \<or> kn" and "0 \<le> J" and "0 \<le> K" and "J < 2 ^ N" and "K < 2 ^ N"
    and "jn \<Longrightarrow> 0 < J" and "kn \<Longrightarrow> 0 < K"
  defines "R \<equiv> (if jn then - J else J) AND (if kn then - K else K)"
  shows "of_bool (jn = kn) + take_bit N (if jn = kn then NOT R else R) = (if jn \<and> kn then - R else (R :: int))"
proof (cases "jn = kn")
  case True
  with assms(1) have n: "jn" "kn"
    by auto
  have "NOT R = (J - 1) OR (K - 1)"
    by (simp add: R_def n neg_as_not [of J] neg_as_not [of K])
  moreover have "0 \<le> (J - 1) OR (K - 1)" and "(J - 1) OR (K - 1) < 2 ^ N"
    using assms(4-7) n by (auto intro: OR_upper)
  ultimately have "take_bit N (NOT R) = NOT R"
    by (metis take_bit_int_eq_self)
  then show ?thesis
    using n by (simp add: not_eq_complement)
next
  case False
  have "0 \<le> R \<and> R < 2 ^ N"
  proof (cases jn)
    case True
    with False have "R = K AND - J"
      by (simp add: R_def and.commute)
    then show ?thesis
      using assms(3,5) AND_upper1 [of K "- J"] by auto
  next
    case jnf: False
    with assms(1) have "R = J AND - K"
      by (simp add: R_def)
    then show ?thesis
      using assms(2,4) AND_upper1 [of J "- K"] by auto
  qed
  with False show ?thesis
    by (simp add: take_bit_int_eq_self)
qed

lemma mpn_and_neg_correct:
  assumes "length ks \<le> length js" and "jn \<or> kn"
    and "jn \<Longrightarrow> 0 < mpn_val js" and "kn \<Longrightarrow> 0 < mpn_val ks"
    and "mpn_and_neg js ks (of_bool (jn = kn)) (of_bool jn) (of_bool kn) = (is, m)"
  shows "length is \<le> length js + 1" and "m \<le> length is" and "normalised (take m is)"
    and "sval (jn \<and> kn) (take m is) = sval jn js AND sval kn ks"
proof -
  define im where "im = carry_mask (of_bool (jn = kn))"
  define G where "G = (\<lambda>x y :: int. if jn = kn then NOT (x AND y) else x AND y)"
  have G: "bitwise_of G (\<lambda>x y. (x AND y) XOR ucast im)"
    using bitwise_of_and by (cases "jn = kn") (simp_all add: G_def im_def carry_mask_def)
  obtain ds c where loop: "bit_loop (\<lambda>x y. (x AND y) XOR ucast im) (of_bool (jn = kn)) (of_bool jn) (of_bool kn)
        (map (\<lambda>j. ucast (j XOR carry_mask (of_bool jn))) js)
        (map (\<lambda>k. ucast (k XOR carry_mask (of_bool kn))) (pad (length js) ks)) = (ds, c)"
    by fastforce
  have "is": "is = ds @ (if 0 \<noteq> c then [ucast c] else [])"
    and m: "m = mpn_remove_trailing_zeros is (length is)"
    using assms(5) loop
    by (auto simp: mpn_and_neg_def mpn_and_neg_digs_loop [OF assms(1)] Let_def simp flip: im_def)
  note L = bit_loop_neg [OF G assms(1) loop]
  show "length is \<le> length js + 1"
    using L(1) by (simp add: "is")
  show "m \<le> length is" and "normalised (take m is)"
    by (rule strip_zeros [OF m])+
  have "int (mpn_val is) = of_bool (jn = kn) + take_bit (16 * length js) (G (sval jn js) (sval kn ks))"
    using L by (simp only: "is" with_carry_digit)
  also have "\<dots> = (if jn \<and> kn then - (sval jn js AND sval kn ks) else sval jn js AND sval kn ks)"
    using and_neg_value [OF assms(2), of "int (mpn_val js)" "int (mpn_val ks)" "16 * length js"]
      assms(3,4) int_val_less int_val_less_longer [OF assms(1)]
    by (simp add: G_def sval_def)
  finally show "sval (jn \<and> kn) (take m is) = sval jn js AND sval kn ks"
    by (simp add: sval_def [of "jn \<and> kn"] strip_zeros(3) [OF m])
qed

lemma or_neg_value:
  assumes "jn \<or> kn" and "0 \<le> J" and "0 \<le> K" and "J < 2 ^ N" and "K < 2 ^ N"
    and "jn \<Longrightarrow> 0 < J" and "kn \<Longrightarrow> 0 < K"
  defines "R \<equiv> (if jn then - J else J) OR (if kn then - K else K)"
  shows "1 + take_bit N (NOT R) = (- R :: int)" and "- R < 2 ^ N"
proof -
  have "NOT R = (if jn then J - 1 else NOT J) AND (if kn then K - 1 else NOT K)"
    by (simp add: R_def neg_as_not [of J] neg_as_not [of K])
  moreover have "0 \<le> \<dots> \<and> 1 + \<dots> < 2 ^ N"
  proof (cases jn)
    case True
    have "1 + (J - 1 AND X) < 2 ^ N" for X
    proof -
      have "J - 1 AND X \<le> J - 1"
        using assms(6) True by (intro AND_upper1) simp
      with assms(4) show ?thesis
        by linarith
    qed
    then show ?thesis
      using assms(6) True by auto
  next
    case False
    with assms(1) have kn: kn
      by simp
    have "NOT J AND (K - 1) \<le> K - 1"
      using assms(7) kn by (intro AND_upper2) simp
    with assms(5) have "1 + (NOT J AND (K - 1)) < 2 ^ N"
      by linarith
    with False kn show ?thesis
      using assms(7) by auto
  qed
  ultimately have *: "0 \<le> NOT R" "1 + NOT R < 2 ^ N"
    by simp_all
  then show "1 + take_bit N (NOT R) = - R"
    by (simp add: take_bit_int_eq_self) (simp add: not_eq_complement)
  show "- R < 2 ^ N"
    using * by (simp add: not_eq_complement)
qed

lemma mpn_or_neg_correct:
  assumes "length ks \<le> length js" and "jn \<or> kn"
    and "jn \<Longrightarrow> 0 < mpn_val js" and "kn \<Longrightarrow> 0 < mpn_val ks"
  obtains "is" m where "mpn_or_neg js ks (of_bool jn) (of_bool kn) = Some (is, m)"
    and "length is = length js" and "m \<le> length is" and "normalised (take m is)"
    and "sval True (take m is) = sval jn js OR sval kn ks"
proof -
  obtain ds c where loop: "bit_loop (\<lambda>x y. (x OR y) XOR DIG_MASK) (of_bool True) (of_bool jn) (of_bool kn)
        (map (\<lambda>j. ucast (j XOR carry_mask (of_bool jn))) js)
        (map (\<lambda>k. ucast (k XOR carry_mask (of_bool kn))) (pad (length js) ks)) = (ds, c)"
    by fastforce
  note L = bit_loop_neg [OF bitwise_of_or assms(1) loop]
  note V = or_neg_value [OF assms(2), of "int (mpn_val js)" "int (mpn_val ks)" "16 * length js"]
  have v: "int (mpn_val ds) + 65536 ^ length js * int (unat c) = - (sval jn js OR sval kn ks)"
    using L(3) V(1) assms(3,4) int_val_less int_val_less_longer [OF assms(1)]
    by (simp add: sval_def)
  have "- (sval jn js OR sval kn ks) < 65536 ^ length js"
    using V(2) assms(3,4) int_val_less int_val_less_longer [OF assms(1)]
    by (simp add: sval_def power_mult)
  with v L(2) have "c = 0"
    by (cases "unat c = 0") (auto simp: unat_eq_0 le_Suc_eq)
  define m where "m = mpn_remove_trailing_zeros ds (length ds)"
  note strip = strip_zeros [OF m_def]
  have "mpn_or_neg js ks (of_bool jn) (of_bool kn) = Some (ds, m)"
    using loop \<open>c = 0\<close> by (simp add: mpn_or_neg_def mpn_or_neg_digs_loop [OF assms(1)] m_def)
  moreover have "sval True (take m ds) = sval jn js OR sval kn ks"
    using v \<open>c = 0\<close> by (simp add: sval_def [of True] strip(3))
  ultimately show ?thesis
    using L(1) strip(1,2) by (intro that)
qed

lemma bit_loop_xor:
  assumes "length ks \<le> length js"
    and "bit_loop (\<lambda>x y. x XOR y) (of_bool neg) (of_bool jc) (of_bool kc)
        (map (\<lambda>j. ucast j + DIG_MASK) js) (map (\<lambda>k. ucast k + DIG_MASK) (pad (length js) ks)) = (is, c)"
  shows "length is = length js" and "unat c \<le> 1"
    and "int (mpn_val is) + 65536 ^ length js * int (unat c) =
      of_bool neg + take_bit (16 * length js)
        ((int (mpn_val js) - of_bool (\<not> jc)) XOR (int (mpn_val ks) - of_bool (\<not> kc)))"
proof -
  have small: "unat (of_bool b :: dbl) \<le> 1" for b
    by simp
  have dig: "unat (ucast j + DIG_MASK :: dbl) \<le> 131070" for j :: dig
    using u16_less [of j] by (subst unat_add_u32) (simp_all add: DIG_MASK_def unat_u32_of_u16)
  note loop = bit_loop_val [OF bitwise_of_xor _ _ small small small assms(2)]
  have *: "length is = length js \<and> unat c \<le> 1 \<and>
    int (mpn_val is) + 65536 ^ length js * int (unat c) =
      int (unat (of_bool neg :: dbl)) + take_bit (16 * length js)
        ((int (unat (of_bool jc :: dbl)) + dbl_val (map (\<lambda>j. ucast j + DIG_MASK) js)) XOR
         (int (unat (of_bool kc :: dbl)) + dbl_val (map (\<lambda>k. ucast k + DIG_MASK) (pad (length js) ks))))"
    using loop dig assms(1) by (simp add: length_pad ball_Un)
  then show "length is = length js" and "unat c \<le> 1"
    by blast+
  show "int (mpn_val is) + 65536 ^ length js * int (unat c) =
      of_bool neg + take_bit (16 * length js)
        ((int (mpn_val js) - of_bool (\<not> jc)) XOR (int (mpn_val ks) - of_bool (\<not> kc)))"
    using * bitwise_of_take_bit [OF bitwise_of_xor minus_one_operand [of js "length js" jc]
      minus_one_operand [of "pad (length js) ks" "length js" kc]] assms(1)
    by (simp add: length_pad)
qed

text \<open>
  The carries of \<^verbatim>\<open>mpz_xor_inpl\<close>: all zero when both operands are negative; else \<open>1\<close> for the
  result and for the operand that is not negative.
\<close>

lemma mpn_xor_neg_correct:
  assumes "length ks \<le> length js" and "jn \<or> kn"
    and "jn \<Longrightarrow> 0 < mpn_val js" and "kn \<Longrightarrow> 0 < mpn_val ks"
    and "mpn_xor_neg js ks (of_bool (jn \<noteq> kn)) (of_bool (\<not> jn)) (of_bool (\<not> kn)) = (is, m)"
  shows "length is \<le> length js + of_bool (jn \<noteq> kn)" and "m \<le> length is" and "normalised (take m is)"
    and "sval (jn \<noteq> kn) (take m is) = sval jn js XOR sval kn ks"
proof -
  obtain ds c where loop: "bit_loop (\<lambda>x y. x XOR y) (of_bool (jn \<noteq> kn)) (of_bool (\<not> jn)) (of_bool (\<not> kn))
        (map (\<lambda>j. ucast j + DIG_MASK) js) (map (\<lambda>k. ucast k + DIG_MASK) (pad (length js) ks)) = (ds, c)"
    by fastforce
  have "is": "is = ds @ (if 0 \<noteq> c then [ucast c] else [])"
    and m: "m = mpn_remove_trailing_zeros is (length is)"
    using assms(5) loop
    by (auto simp: mpn_xor_neg_def mpn_xor_neg_digs_loop [OF assms(1)] Let_def)
  note L = bit_loop_xor [OF assms(1) loop]
  define J where "J = int (mpn_val js) - of_bool jn"
  define K where "K = int (mpn_val ks) - of_bool kn"
  have J: "0 \<le> J" "J < 2 ^ (16 * length js)" and K: "0 \<le> K" "K < 2 ^ (16 * length js)"
    using assms(3,4) order.strict_trans1 [OF _ int_val_less [of js], of J]
      order.strict_trans1 [OF _ int_val_less_longer [OF assms(1)], of K]
    by (auto simp: J_def K_def)
  then have "take_bit (16 * length js) (J XOR K) = J XOR K"
    by (intro take_bit_int_eq_self XOR_upper) simp_all
  then have v: "int (mpn_val ds) + 65536 ^ length js * int (unat c) = of_bool (jn \<noteq> kn) + (J XOR K)"
    using L(3) by (simp add: J_def K_def)
  show "m \<le> length is" and "normalised (take m is)"
    by (rule strip_zeros [OF m])+
  show "length is \<le> length js + of_bool (jn \<noteq> kn)"
  proof (cases "jn = kn")
    case True
    have "J XOR K < 65536 ^ length js"
      using J K XOR_upper [of J "16 * length js" K] by (simp add: power_mult)
    with v True L(2) have "c = 0"
      by (cases "unat c = 0") (auto simp: unat_eq_0 le_Suc_eq)
    with L(1) show ?thesis
      by (simp add: "is")
  qed (use L(1) in \<open>simp add: "is"\<close>)
  have sval_xor: "sval b ds = (if b then NOT (int (mpn_val ds) - 1) else int (mpn_val ds))" for b ds
    by (simp add: sval_def not_eq_complement)
  have "int (mpn_val is) = of_bool (jn \<noteq> kn) + (J XOR K)"
    using v L(1,2) by (simp only: "is" with_carry_digit)
  moreover have "sval jn js XOR sval kn ks = (if jn \<noteq> kn then NOT (J XOR K) else J XOR K)"
    by (auto simp: sval_xor J_def K_def)
  ultimately show "sval (jn \<noteq> kn) (take m is) = sval jn js XOR sval kn ks"
    by (cases jn; cases kn) (simp_all add: sval_def [of _ "take m is"] strip_zeros(3) [OF m] not_eq_complement)
qed

end
