(* ===== verification/Mpn_Div.thy ===== *)
theory Mpn_Div
  imports Mpn_Correct
begin

text \<open>
  \<^verbatim>\<open>mpn_div\<close> of \<^verbatim>\<open>py/mpz.c\<close>: schoolbook division in base \<open>2^16\<close> with the denominator
  normalised on the fly, a quotient digit guessed from the leading digits (it may be too large and
  may even exceed a digit), a multiply-and-subtract pass with a signed borrow, and a correction
  loop that adds the denominator back until the borrow is gone. The loops whose termination is
  not evident are \<^theory_text>\<open>partial_function (option)\<close>: \<open>None\<close> is a loop that never ends.
\<close>

section \<open>The function\<close>

definition DIG_MSB :: dig where "DIG_MSB = 0x8000"

text \<open>\<^verbatim>\<open>while ((d & DIG_MSB) == 0) { d <<= 1; ++norm_shift; }\<close>\<close>

partial_function (option) mpn_div_norm_shift :: "dig \<Rightarrow> nat \<Rightarrow> nat option" where
  "mpn_div_norm_shift d s =
     (if d AND DIG_MSB = 0 then mpn_div_norm_shift (push_bit 1 d) (Suc s) else Some s)"

declare mpn_div_norm_shift.simps [code]

text \<open>The numerator shifted left in place, lowest digit first.\<close>

fun mpn_div_shift_num :: "nat \<Rightarrow> dig \<Rightarrow> dig list \<Rightarrow> dig list" where
  "mpn_div_shift_num s carry [] = []"
| "mpn_div_shift_num s carry (n # ns) =
     ucast ((push_bit s (ucast n) OR ucast carry) AND DIG_MASK) #
     mpn_div_shift_num s (ucast (drop_bit (DIG_SIZE - s) (ucast n :: dbl))) ns"

text \<open>The remainder shifted back in place, highest digit first.\<close>

fun mpn_div_unshift_num :: "nat \<Rightarrow> dig \<Rightarrow> dig list \<Rightarrow> dig list" where
  "mpn_div_unshift_num s carry [] = []"
| "mpn_div_unshift_num s carry (n # ns) =
     ucast ((drop_bit s (ucast n) OR ucast carry) AND DIG_MASK) #
     mpn_div_unshift_num s (ucast (push_bit (DIG_SIZE - s) (ucast n :: dbl))) ns"

definition mpn_div_lead :: "dig list \<Rightarrow> nat \<Rightarrow> dbl" where
  "mpn_div_lead ds s =
     (let lead = push_bit s (ucast (ds ! (length ds - 1)))
      in if length ds \<ge> 2 then lead OR drop_bit (DIG_SIZE - s) (ucast (ds ! (length ds - 2)))
         else lead)"

text \<open>
  The multiply-and-subtract pass over the digits of the numerator under the denominator; \<open>borrow\<close>
  and \<open>low_digs\<close> are \<^verbatim>\<open>int32_t\<close>, \<open>x\<close> is \<^verbatim>\<open>uint32_t\<close>.
\<close>

fun mpn_div_mulsub :: "nat \<Rightarrow> dbl \<Rightarrow> dbl \<Rightarrow> dbl \<Rightarrow> dig list \<Rightarrow> dig list \<Rightarrow> dig list \<times> dbl" where
  "mpn_div_mulsub s quo d_norm borrow (n # ns) (d # ds) =
     (let d_norm' = push_bit s (ucast d) OR drop_bit DIG_SIZE d_norm;
          x = quo * (d_norm' AND DIG_MASK);
          low_digs = (borrow AND DIG_MASK) + ucast n - (x AND DIG_MASK);
          borrow' = signed_drop_bit DIG_SIZE borrow - drop_bit DIG_SIZE x
                    + signed_drop_bit DIG_SIZE low_digs;
          (ns', b) = mpn_div_mulsub s quo d_norm' borrow' ns ds
      in (ucast (low_digs AND DIG_MASK) # ns', b))"
| "mpn_div_mulsub s quo d_norm borrow ns ds = ([], borrow)"

text \<open>One pass of the correction loop: the denominator added back.\<close>

fun mpn_div_add :: "nat \<Rightarrow> dbl \<Rightarrow> dbl \<Rightarrow> dig list \<Rightarrow> dig list \<Rightarrow> dig list \<times> dbl" where
  "mpn_div_add s d_norm carry (n # ns) (d # ds) =
     (let d_norm' = push_bit s (ucast d) OR drop_bit DIG_SIZE d_norm;
          carry' = carry + (ucast n + (d_norm' AND DIG_MASK));
          (ns', c) = mpn_div_add s d_norm' (drop_bit DIG_SIZE carry') ns ds
      in (ucast (carry' AND DIG_MASK) # ns', c))"
| "mpn_div_add s d_norm carry ns ds = ([], carry)"

partial_function (option) mpn_div_correct_quo ::
    "nat \<Rightarrow> dig list \<Rightarrow> dig list \<Rightarrow> dbl \<Rightarrow> dbl \<Rightarrow> (dig list \<times> dbl) option" where
  "mpn_div_correct_quo s ds ns borrow quo =
     (if borrow = 0 then Some (ns, quo)
      else mpn_div_correct_quo s ds (fst (mpn_div_add s 0 0 ns ds))
             (borrow + snd (mpn_div_add s 0 0 ns ds)) (quo - 1))"

declare mpn_div_correct_quo.simps [code]

text \<open>
  The main loop; \<open>k\<close> is the number of quotient digits still to be found, so that the numerator
  is \<open>length ds + k\<close> digits long, \<^verbatim>\<open>num_dig\<close> points at index \<open>length ds + k - 1\<close> and the
  digits under the denominator start at index \<open>k - 1\<close>, the index of the quotient digit.
\<close>

primrec mpn_div_loop ::
    "nat \<Rightarrow> dbl \<Rightarrow> dig list \<Rightarrow> nat \<Rightarrow> dig list \<Rightarrow> dig list \<Rightarrow> (dig list \<times> dig list) option" where
  "mpn_div_loop s lead ds 0 num quo_dig = Some (num, quo_dig)"
| "mpn_div_loop s lead ds (Suc k) num quo_dig =
     (let top = num ! (length ds + k);
          quo = (push_bit DIG_SIZE (ucast top) OR ucast (num ! (length ds + k - 1))) div lead;
          (ns, borrow) = mpn_div_mulsub s quo 0 0 (take (length ds) (drop k num)) ds
      in case mpn_div_correct_quo s ds ns (borrow + ucast top) quo of
           None \<Rightarrow> None
         | Some (ns', quo') \<Rightarrow>
             mpn_div_loop s lead ds k (take k num @ ns' @ drop (k + length ds) num)
               (quo_dig[k := ucast (quo' AND DIG_MASK)]))"

text \<open>
  \<^verbatim>\<open>mpn_div(num_dig, &num_len, den_dig, den_len, quo_dig, &quo_len)\<close>: the numerator buffer (which
  has room for one digit more than \<open>num_len\<close>) is overwritten with the remainder. The result is
  the two buffers with their lengths.
\<close>

definition mpn_div ::
    "dig list \<Rightarrow> nat \<Rightarrow> dig list \<Rightarrow> dig list \<Rightarrow> ((dig list \<times> nat) \<times> (dig list \<times> nat)) option" where
  "mpn_div num num_len ds quo_dig =
     (let cmp = mpn_cmp (take num_len num) ds
      in if cmp = 0 then Some ((num, 0), (quo_dig[0 := 1], 1))
         else if cmp < 0 then Some ((num, num_len), (quo_dig, 0))
         else case mpn_div_norm_shift (ds ! (length ds - 1)) 0 of
           None \<Rightarrow> None
         | Some s \<Rightarrow>
             let num1 = mpn_div_shift_num s 0 (take num_len num @ [0]) @ drop (Suc num_len) num;
                 quo_len = Suc num_len - length ds
             in case mpn_div_loop s (mpn_div_lead ds s) ds quo_len num1 quo_dig of
                  None \<Rightarrow> None
                | Some (num2, quo1) \<Rightarrow>
                    let rem_len = length ds;
                        num3 = rev (mpn_div_unshift_num s 0 (rev (take rem_len num2))) @ drop rem_len num2
                    in Some ((num3, mpn_remove_trailing_zeros num3 rem_len),
                             (quo1, mpn_remove_trailing_zeros quo1 quo_len)))"

section \<open>Normalisation\<close>

lemma DIG_MSB_clear: "d AND DIG_MSB = 0 \<longleftrightarrow> unat d < 32768"
proof -
  have "DIG_MSB = push_bit 15 1"
    by (simp add: DIG_MSB_def)
  then have "d AND DIG_MSB = 0 \<longleftrightarrow> \<not> bit d 15"
    by (simp only: bit_iff_and_push_bit_not_eq_0 [of d]) simp
  also have "\<dots> \<longleftrightarrow> \<not> bit (unat d) 15"
    by (simp add: bit_unsigned_iff)
  also have "\<dots> \<longleftrightarrow> even (unat d div 32768)"
    by (simp add: bit_iff_odd [of "unat d"])
  also have "\<dots> \<longleftrightarrow> unat d < 32768"
  proof
    assume e: "even (unat d div 32768)"
    have "unat d div 32768 < 2"
      using u16_less [of d] by simp
    with e have "unat d div 32768 = 0"
      by (cases "unat d div 32768 = 1") auto
    then show "unat d < 32768"
      by simp
  qed simp
  finally show ?thesis .
qed

lemma norm_shift_exists:
  assumes "0 < unat d"
  obtains k where "mpn_div_norm_shift d s = Some (s + k)" and "k \<le> 15"
    and "32768 \<le> unat d * 2 ^ k" and "unat d * 2 ^ k < 65536"
proof -
  have "\<exists>k. mpn_div_norm_shift d s = Some (s + k) \<and> k \<le> n \<and>
      32768 \<le> unat d * 2 ^ k \<and> unat d * 2 ^ k < 65536"
    if "32768 \<le> unat d * 2 ^ n" for n
    using that
  proof (induction n arbitrary: d s)
    case 0
    then show ?case
      using u16_less [of d] by (intro exI [of _ 0]) (simp add: mpn_div_norm_shift.simps DIG_MSB_clear)
  next
    case (Suc n)
    show ?case
    proof (cases "unat d < 32768")
      case True
      then have d2: "unat (push_bit 1 d) = 2 * unat d"
        by (simp add: push_bit_eq_mult unat_word_ariths mult.commute)
      then obtain k where "mpn_div_norm_shift (push_bit 1 d) (Suc s) = Some (Suc s + k)" "k \<le> n"
          "32768 \<le> 2 * unat d * 2 ^ k" "2 * unat d * 2 ^ k < 65536"
        using Suc.IH [of "push_bit 1 d" "Suc s"] Suc.prems by auto
      with True show ?thesis
        by (intro exI [of _ "Suc k"]) (simp add: mpn_div_norm_shift.simps [of d] DIG_MSB_clear)
    next
      case False
      then show ?thesis
        using u16_less [of d]
        by (intro exI [of _ 0]) (simp add: mpn_div_norm_shift.simps DIG_MSB_clear)
    qed
  qed
  from this [of 15] assms that show ?thesis
    by auto
qed

section \<open>The digits of the normalised denominator\<close>

fun norm_digs :: "nat \<Rightarrow> dbl \<Rightarrow> dig list \<Rightarrow> dig list" where
  "norm_digs s d_norm [] = []"
| "norm_digs s d_norm (d # ds) =
     (let d_norm' = push_bit s (ucast d) OR drop_bit DIG_SIZE d_norm
      in ucast (d_norm' AND DIG_MASK) # norm_digs s d_norm' ds)"

lemma unat_push_u32:
  assumes "unat (x :: dbl) * 2 ^ s < 4294967296"
  shows "unat (push_bit s x) = unat x * 2 ^ s"
proof -
  have "unat (push_bit s x) = take_bit 32 (push_bit s (unat x))"
    using unsigned_push_bit_eq [of s x, where ?'a = nat] by simp
  also have "\<dots> = push_bit s (unat x)"
    using assms by (intro take_bit_nat_eq_self) (simp add: push_bit_eq_mult)
  finally show ?thesis
    by (simp only: push_bit_eq_mult)
qed

lemma unat_shift_or:
  assumes "s \<le> 15" and "unat (c :: dbl) < 2 ^ s"
  shows "unat (push_bit s (ucast (d :: dig)) OR c) = unat d * 2 ^ s + unat c"
proof -
  have "unat d * 2 ^ s < 65536 * 2 ^ s"
    using u16_less [of d] by simp
  also have "\<dots> \<le> 65536 * 2 ^ 15"
    using assms(1) by (intro mult_le_mono2 power_increasing) auto
  finally have "unat (push_bit s (ucast d :: dbl)) = unat d * 2 ^ s"
    by (subst unat_push_u32) (simp_all add: unat_u32_of_u16)
  then show ?thesis
    using or_low_bits [OF assms(2), of "unat d"] by (simp add: unsigned_or_eq mult.commute)
qed

lemma norm_digs_step:
  fixes d :: dig and d_norm :: dbl
  assumes "s \<le> 15" and "unat d_norm div 65536 < 2 ^ s"
  defines "d_norm' \<equiv> push_bit s (ucast d) OR drop_bit DIG_SIZE d_norm"
  shows "unat d_norm' = unat d * 2 ^ s + unat d_norm div 65536" and "unat d_norm' div 65536 < 2 ^ s"
proof -
  show 1: "unat d_norm' = unat d * 2 ^ s + unat d_norm div 65536"
    unfolding d_norm'_def using assms(1,2) by (subst unat_shift_or) simp_all
  have "unat d * 2 ^ s + 2 ^ s \<le> 65536 * 2 ^ s"
    using u16_less [of d] mult_le_mono1 [of "Suc (unat d)" 65536 "2 ^ s"] by simp
  with assms(2) have "unat d_norm' < 2 ^ s * 65536"
    unfolding 1 by linarith
  then show "unat d_norm' div 65536 < 2 ^ s"
    by (simp add: less_mult_imp_div_less)
qed

lemma norm_digs_val:
  assumes "s \<le> 15" and "unat d_norm div 65536 < 2 ^ s"
  shows "length (norm_digs s d_norm ds) = length ds \<and>
    (mpn_val ds * 2 ^ s + unat d_norm div 65536) mod 65536 ^ length ds =
     mpn_val (norm_digs s d_norm ds)"
  using assms(2)
proof (induction ds arbitrary: d_norm)
  case (Cons d ds)
  define d_norm' where "d_norm' = push_bit s (ucast d) OR drop_bit DIG_SIZE d_norm"
  note step = norm_digs_step [OF assms(1) Cons.prems, of d, folded d_norm'_def]
  have "(mpn_val (d # ds) * 2 ^ s + unat d_norm div 65536) mod 65536 ^ length (d # ds) =
      (unat d_norm' + 65536 * (mpn_val ds * 2 ^ s)) mod (65536 * 65536 ^ length ds)"
    by (simp add: step(1) algebra_simps)
  also have "\<dots> = unat d_norm' mod 65536 +
      65536 * ((mpn_val ds * 2 ^ s + unat d_norm' div 65536) mod 65536 ^ length ds)"
    by (subst mod_mult2_eq) (simp add: add.commute)
  also have "\<dots> = mpn_val (norm_digs s d_norm (d # ds))"
    using Cons.IH [OF step(2)] by (simp add: Let_def flip: d_norm'_def)
  finally show ?case
    using Cons.IH [OF step(2)] by (simp add: Let_def flip: d_norm'_def)
qed simp


section \<open>The passes over the digits under the denominator\<close>

lemma mulsub_digit:
  fixes b n x :: int
  shows "(b mod 65536 + n - x mod 65536) mod 65536 = (b + n - x) mod 65536"
    and "b div 65536 - x div 65536 + (b mod 65536 + n - x mod 65536) div 65536 = (b + n - x) div 65536"
proof -
  have e: "b + n - x = (b mod 65536 + n - x mod 65536) + 65536 * (b div 65536 - x div 65536)"
    by (simp add: algebra_simps)
  show "(b mod 65536 + n - x mod 65536) mod 65536 = (b + n - x) mod 65536"
    by (simp only: e mod_mult_self2)
  show "b div 65536 - x div 65536 + (b mod 65536 + n - x mod 65536) div 65536 = (b + n - x) div 65536"
    unfolding e by (subst div_mult_self2) simp_all
qed

lemma sint_and_DIG_MASK: "sint (x AND DIG_MASK :: dbl) = sint x mod 65536"
proof -
  have u: "unat (x AND DIG_MASK) = unat x mod 65536"
    using unat_and_mask [of x 16] by (simp add: DIG_MASK_def mask_eq_exp_minus_1)
  then have "sint (x AND DIG_MASK) = int (unat x mod 65536)"
    by (subst sint_small_u32) simp_all
  then show ?thesis
    by (simp only: int_low_dig)
qed

lemma mulsub_word_step:
  fixes borrow x :: dbl and n :: dig
  assumes "- 65537 \<le> sint borrow" and "sint borrow \<le> 0"
  defines "low \<equiv> (borrow AND DIG_MASK) + ucast n - (x AND DIG_MASK)"
  defines "borrow' \<equiv> signed_drop_bit DIG_SIZE borrow - drop_bit DIG_SIZE x + signed_drop_bit DIG_SIZE low"
  defines "r \<equiv> sint borrow + int (unat n) - int (unat x)"
  shows "int (unat low mod 65536) = r mod 65536" and "sint borrow' = r div 65536"
proof -
  have n: "0 \<le> int (unat n)" "int (unat n) < 65536"
    using u16_less [of n] by linarith+
  have xm: "unat (x AND DIG_MASK) = unat x mod 65536"
    using unat_and_mask [of x 16] by (simp add: DIG_MASK_def mask_eq_exp_minus_1)
  have sx: "sint (x AND DIG_MASK) = int (unat x) mod 65536"
    using xm by (subst sint_small_u32) (simp_all add: zmod_int)
  have sxd: "sint (drop_bit DIG_SIZE x) = int (unat x) div 65536"
    using u32_less [of x] by (subst sint_small_u32) (simp_all add: zdiv_int)
  have s1: "sint ((borrow AND DIG_MASK) + ucast n) = sint borrow mod 65536 + int (unat n)"
    using n pos_mod_bound [of 65536 "sint borrow"] pos_mod_sign [of 65536 "sint borrow"]
    by (subst sint_add_u32; unfold sint_and_DIG_MASK sint_u32_of_u16; linarith)
  have low: "sint low = sint borrow mod 65536 + int (unat n) - int (unat x) mod 65536"
    using n pos_mod_bound [of 65536 "sint borrow"] pos_mod_sign [of 65536 "sint borrow"]
      pos_mod_bound [of 65536 "int (unat x)"] pos_mod_sign [of 65536 "int (unat x)"]
    unfolding low_def by (subst sint_diff_u32; unfold s1 sx; linarith)
  show "int (unat low mod 65536) = r mod 65536"
    unfolding int_low_dig low r_def by (rule mulsub_digit)
  have x_div: "0 \<le> int (unat x) div 65536" "int (unat x) div 65536 < 65536"
    using u32_less [of x] by (simp_all flip: zdiv_int)
  have b_div: "- 2 \<le> sint borrow div 65536" "sint borrow div 65536 \<le> 0"
    using assms(1,2) by linarith+
  have s2: "sint (signed_drop_bit DIG_SIZE borrow - drop_bit DIG_SIZE x) =
      sint borrow div 65536 - int (unat x) div 65536"
    using x_div b_div by (subst sint_diff_u32; unfold sint_high_dig sxd; linarith)
  have l_div: "- 2 \<le> sint low div 65536" "sint low div 65536 \<le> 2"
    using n pos_mod_bound [of 65536 "sint borrow"] pos_mod_sign [of 65536 "sint borrow"]
      pos_mod_bound [of 65536 "int (unat x)"] pos_mod_sign [of 65536 "int (unat x)"]
    unfolding low by linarith+
  have "sint borrow' = sint borrow div 65536 - int (unat x) div 65536 + sint low div 65536"
    using x_div b_div l_div unfolding borrow'_def
    by (subst sint_add_u32; unfold s2 sint_high_dig; linarith)
  then show "sint borrow' = r div 65536"
    unfolding low r_def by (simp only: mulsub_digit(2))
qed

lemma mpn_div_mulsub_val:
  assumes "s \<le> 15" and "unat d_norm div 65536 < 2 ^ s" and "unat quo \<le> 65537"
    and "- int (unat quo) \<le> sint borrow" and "sint borrow \<le> 0" and "length ns = length ds"
    and "mpn_div_mulsub s quo d_norm borrow ns ds = (ns', b)"
  shows "length ns' = length ns \<and> - int (unat quo) \<le> sint b \<and> sint b \<le> 0 \<and>
    int (mpn_val ns') + 65536 ^ length ns * sint b =
      int (mpn_val ns) + sint borrow - int (unat quo) * int (mpn_val (norm_digs s d_norm ds))"
  using assms(6,2,4,5,7)
proof (induction ns ds arbitrary: d_norm borrow ns' rule: list_induct2)
  case Nil
  then show ?case by simp
next
  case (Cons n ns d ds)
  define d_norm' where "d_norm' = push_bit s (ucast d) OR drop_bit DIG_SIZE d_norm"
  define e where "e = unat d_norm' mod 65536"
  define x where "x = quo * (d_norm' AND DIG_MASK)"
  define low where "low = (borrow AND DIG_MASK) + ucast n - (x AND DIG_MASK)"
  define borrow' where "borrow' = signed_drop_bit DIG_SIZE borrow - drop_bit DIG_SIZE x +
      signed_drop_bit DIG_SIZE low"
  define r where "r = sint borrow + int (unat n) - int (unat x)"
  obtain ns'' where rec: "mpn_div_mulsub s quo d_norm' borrow' ns ds = (ns'', b)"
    and ns': "ns' = ucast (low AND DIG_MASK) # ns''"
    using Cons.prems(4)
    by (simp add: Let_def split: prod.splits flip: d_norm'_def) (auto simp: x_def low_def borrow'_def)
  have e: "e < 65536" "unat (d_norm' AND DIG_MASK) = e"
    using unat_and_mask [of d_norm' 16] by (simp_all add: e_def DIG_MASK_def mask_eq_exp_minus_1)
  have "unat quo * e \<le> 65537 * 65535"
    using assms(3) e by (intro mult_le_mono) auto
  then have x: "unat x = unat quo * e"
    unfolding x_def using e by (subst unat_mult_u32) simp_all
  have b1: "- 65537 \<le> sint borrow"
    using Cons.prems(2) assms(3) by linarith
  note word = mulsub_word_step [OF b1 Cons.prems(3), where n = n and x = x,
      folded low_def, folded borrow'_def, folded r_def]
  have n: "int (unat n) < 65536"
    using u16_less [of n] by linarith
  have "int (unat quo * e) \<le> int (unat quo) * 65535"
    using e(1) by (simp add: mult_left_mono)
  then have "- int (unat quo) * 65536 \<le> r"
    using Cons.prems(2) unfolding r_def x by linarith
  then have lo: "- int (unat quo) \<le> sint borrow'"
    unfolding word(2) by linarith
  have hi: "sint borrow' \<le> 0"
    using n Cons.prems(3) unfolding word(2) r_def by linarith
  have IH: "length ns'' = length ns \<and> - int (unat quo) \<le> sint b \<and> sint b \<le> 0 \<and>
    int (mpn_val ns'') + 65536 ^ length ns * sint b =
      int (mpn_val ns) + sint borrow' - int (unat quo) * int (mpn_val (norm_digs s d_norm' ds))"
    using norm_digs_step(2) [OF assms(1) Cons.prems(1), of d] lo hi rec
    by (intro Cons.IH) (simp_all add: d_norm'_def)
  have "int (mpn_val ns') + 65536 ^ length (n # ns) * sint b =
      r mod 65536 + 65536 * (int (mpn_val ns'') + 65536 ^ length ns * sint b)"
    using word(1) by (simp add: ns' algebra_simps)
  also have "\<dots> = r mod 65536 + 65536 * (int (mpn_val ns) + r div 65536 -
      int (unat quo) * int (mpn_val (norm_digs s d_norm' ds)))"
    using IH word(2) by simp
  also have "\<dots> = r + 65536 * (int (mpn_val ns) - int (unat quo) * int (mpn_val (norm_digs s d_norm' ds)))"
    using mod_mult_div_eq [of r 65536] by (simp add: algebra_simps)
  also have "\<dots> = int (mpn_val (n # ns)) + sint borrow -
      int (unat quo) * int (mpn_val (norm_digs s d_norm (d # ds)))"
    by (simp add: r_def x e_def Let_def algebra_simps flip: d_norm'_def)
  finally show ?case
    using IH ns' by simp
qed

lemma mpn_div_add_val:
  assumes "s \<le> 15" and "unat d_norm div 65536 < 2 ^ s" and "unat carry \<le> 1"
    and "length ns = length ds" and "mpn_div_add s d_norm carry ns ds = (ns', c)"
  shows "length ns' = length ns \<and> unat c \<le> 1 \<and>
    mpn_val ns' + 65536 ^ length ns * unat c =
      mpn_val ns + mpn_val (norm_digs s d_norm ds) + unat carry"
  using assms(4,2,3,5)
proof (induction ns ds arbitrary: d_norm carry ns' rule: list_induct2)
  case Nil
  then show ?case by simp
next
  case (Cons n ns d ds)
  define d_norm' where "d_norm' = push_bit s (ucast d) OR drop_bit DIG_SIZE d_norm"
  define e where "e = unat d_norm' mod 65536"
  define carry' where "carry' = carry + (ucast n + (d_norm' AND DIG_MASK))"
  obtain ns'' where rec: "mpn_div_add s d_norm' (drop_bit DIG_SIZE carry') ns ds = (ns'', c)"
    and ns': "ns' = ucast (carry' AND DIG_MASK) # ns''"
    using Cons.prems(3)
    by (simp add: Let_def split: prod.splits flip: d_norm'_def) (auto simp: carry'_def)
  have e: "e < 65536" "unat (d_norm' AND DIG_MASK) = e"
    using unat_and_mask [of d_norm' 16] by (simp_all add: e_def DIG_MASK_def mask_eq_exp_minus_1)
  have n: "unat n < 65536"
    by (rule u16_less)
  have 1: "unat (ucast n + (d_norm' AND DIG_MASK) :: dbl) = unat n + e"
    using n e(1) by (subst unat_add_u32) (simp_all add: e(2) unat_u32_of_u16)
  have carry': "unat carry' = unat carry + (unat n + e)"
    using n e(1) Cons.prems(2) unfolding carry'_def by (subst unat_add_u32) (simp_all add: 1)
  have "unat carry' < 2 * 65536"
    using n e(1) Cons.prems(2) unfolding carry' by linarith
  then have "unat (drop_bit DIG_SIZE carry') \<le> 1"
    by (simp add: less_mult_imp_div_less less_Suc_eq_le flip: less_Suc_eq_le)
  then have IH: "length ns'' = length ns \<and> unat c \<le> 1 \<and>
    mpn_val ns'' + 65536 ^ length ns * unat c =
      mpn_val ns + mpn_val (norm_digs s d_norm' ds) + unat (drop_bit DIG_SIZE carry')"
    using norm_digs_step(2) [OF assms(1) Cons.prems(1), of d] rec
    by (intro Cons.IH) (simp_all add: d_norm'_def)
  have "mpn_val ns' + 65536 ^ length (n # ns) * unat c =
      unat carry' mod 65536 + 65536 * (mpn_val ns'' + 65536 ^ length ns * unat c)"
    by (simp add: ns' algebra_simps)
  also have "\<dots> = unat carry' mod 65536 + 65536 * (unat carry' div 65536) +
      65536 * (mpn_val ns + mpn_val (norm_digs s d_norm' ds))"
    using IH by (simp add: algebra_simps)
  also have "\<dots> = unat carry' + 65536 * (mpn_val ns + mpn_val (norm_digs s d_norm' ds))"
    by (simp only: mod_mult_div_eq)
  also have "\<dots> = mpn_val (n # ns) + mpn_val (norm_digs s d_norm (d # ds)) + unat carry"
    by (simp add: carry' e_def Let_def algebra_simps flip: d_norm'_def)
  finally show ?case
    using IH ns' by simp
qed

lemma int_less_pow: "a < 65536 ^ n \<Longrightarrow> int a < 65536 ^ n"
  using of_nat_less_iff [of a "65536 ^ n", where ?'a = int] by simp

lemma int_minus_div_mult: "int t - int (t div d) * int d = int (t mod d)"
proof -
  have "int t = int (t div d) * int d + int (t mod d)"
    by (simp flip: of_nat_mult of_nat_add)
  then show ?thesis by simp
qed

text \<open>
  The correction loop ends: with \<open>X = ns + 65536^n * borrow = T - quo * D\<close> every pass adds one
  \<open>D\<close> to \<open>X\<close> and takes one from \<open>quo\<close>, and the borrow is zero exactly when \<open>X\<close> has reached
  \<open>T mod D\<close>.
\<close>

lemma mpn_div_correct_quo_val:
  fixes T :: nat and ds :: "dig list" and s :: nat
  defines "D \<equiv> mpn_val (norm_digs s 0 ds)"
  assumes "s \<le> 15" and "0 < D" and "length ns = length ds"
    and "D < 65536 ^ length ds" and "65536 ^ length ds \<le> 2 * D"
    and "int (mpn_val ns) + 65536 ^ length ds * sint borrow = int T - int (unat quo) * int D"
    and "T div D \<le> unat quo"
    and "- 65537 \<le> sint borrow"
  shows "\<exists>ns' quo'. mpn_div_correct_quo s ds ns borrow quo = Some (ns', quo') \<and>
    length ns' = length ds \<and> mpn_val ns' = T mod D \<and> unat quo' = T div D"
  using assms(4,7-)
proof (induction "unat quo - T div D" arbitrary: ns borrow quo)
  case 0
  then have q: "unat quo = T div D"
    by simp
  have eq: "int (mpn_val ns) + 65536 ^ length ds * sint borrow = int (T mod D)"
    using 0(3) q int_minus_div_mult [of T D] by simp
  have lt: "int (T mod D) < 65536 ^ length ds"
    using assms(3,5) mod_less_divisor [of D T] by (intro int_less_pow) linarith
  have v: "int (mpn_val ns) < 65536 ^ length ds"
    using mpn_val_less [of ns] 0(2) by (intro int_less_pow) simp
  have "sint borrow = 0"
  proof (rule ccontr)
    assume "sint borrow \<noteq> 0"
    then consider "1 \<le> sint borrow" | "sint borrow \<le> -1" by linarith
    then show False
    proof cases
      case 1
      then have "65536 ^ length ds * 1 \<le> 65536 ^ length ds * sint borrow"
        by (intro mult_left_mono) auto
      then show False using eq lt by linarith
    next
      case 2
      then have "65536 ^ length ds * sint borrow \<le> 65536 ^ length ds * -1"
        by (intro mult_left_mono) auto
      then show False using eq v by linarith
    qed
  qed
  then have "borrow = 0"
    by (simp only: signed_eq_0_iff)
  with eq 0 q show ?case
    by (simp add: mpn_div_correct_quo.simps)
next
  case (Suc m)
  obtain ns1 c where add: "mpn_div_add s 0 0 ns ds = (ns1, c)"
    by (cases "mpn_div_add s 0 0 ns ds")
  have ad: "length ns1 = length ns" "unat c \<le> 1"
    "mpn_val ns1 + 65536 ^ length ns * unat c = mpn_val ns + D"
    using mpn_div_add_val [of s 0 0 ns ds ns1 c] assms(2) Suc.prems(1) add by (simp_all add: D_def)
  have q: "T div D < unat quo"
    using Suc(2) by linarith
  have "T < unat quo * D"
    using q assms(3) by (metis div_less_iff_less_mult)
  then have "int T < int (unat quo) * int D"
    by (metis of_nat_less_iff of_nat_mult)
  then have neg: "int (mpn_val ns) + 65536 ^ length ds * sint borrow < 0"
    using Suc.prems(2) by linarith
  have b: "sint borrow < 0"
  proof (rule ccontr)
    assume "\<not> sint borrow < 0"
    then have "0 \<le> 65536 ^ length ds * sint borrow"
      by simp
    with neg show False by linarith
  qed
  then have b0: "borrow \<noteq> 0"
    by auto
  have sc: "sint c = int (unat c)"
    using ad(2) by (intro sint_small_u32) simp
  have b1: "sint (borrow + c) = sint borrow + int (unat c)"
    using b ad(2) Suc.prems(4) by (subst sint_add_u32; unfold sc; linarith)
  have q1: "unat (quo - 1) = unat quo - 1"
    using q by (intro unat_minus_one) auto
  have "\<exists>ns' quo'. mpn_div_correct_quo s ds ns1 (borrow + c) (quo - 1) = Some (ns', quo') \<and>
    length ns' = length ds \<and> mpn_val ns' = T mod D \<and> unat quo' = T div D"
  proof (rule Suc.hyps(1))
    show "m = unat (quo - 1) - T div D"
      using Suc(2) q1 by linarith
    show "length ns1 = length ds"
      using ad(1) Suc.prems(1) by simp
    have "int (mpn_val ns1) + 65536 ^ length ds * int (unat c) = int (mpn_val ns) + int D"
      using ad(3) Suc.prems(1) by (metis of_nat_add of_nat_mult of_nat_numeral of_nat_power)
    moreover have "int (unat (quo - 1)) = int (unat quo) - 1"
      using q q1 by linarith
    then have "int (unat (quo - 1)) * int D = int (unat quo) * int D - int D"
      by (simp add: left_diff_distrib)
    ultimately show "int (mpn_val ns1) + 65536 ^ length ds * sint (borrow + c) =
        int T - int (unat (quo - 1)) * int D"
      using Suc.prems(2) unfolding b1 distrib_left by linarith
    show "T div D \<le> unat (quo - 1)"
      using q q1 by linarith
    show "- 65537 \<le> sint (borrow + c)"
      using b1 Suc.prems(4) by linarith
  qed
  with b0 add show ?case
    by (simp add: mpn_div_correct_quo.simps [of s ds ns borrow quo])
qed

section \<open>The main loop\<close>

lemma quo_guess_bounds:
  fixes T D :: nat
  assumes "0 < P" and "P * 32768 \<le> D" and "T < D * 65536"
  shows "T div D \<le> (T div P) div (D div P)" and "(T div P) div (D div P) \<le> 65537"
proof -
  define l where "l = D div P"
  have l: "32768 \<le> l"
    using assms(1,2) by (simp add: l_def less_eq_div_iff_mult_less_eq mult.commute)
  have "T div D * D \<le> T"
    by simp
  moreover have "P * l \<le> D"
    by (simp add: l_def)
  ultimately have "T div D * (P * l) \<le> T"
    by (meson mult_le_mono2 order_trans)
  then have "T div D * l \<le> T div P"
    using assms(1) by (simp add: less_eq_div_iff_mult_less_eq algebra_simps)
  then show "T div D \<le> (T div P) div (D div P)"
    using l by (simp add: less_eq_div_iff_mult_less_eq flip: l_def)
  have "D < P * (l + 1)"
    using assms(1) by (simp add: l_def dividend_less_times_div algebra_simps)
  then have "T < (l + 1) * 65536 * P"
    using assms(3) by (simp add: algebra_simps)
  then have "T div P < (l + 1) * 65536"
    by (rule less_mult_imp_div_less)
  also have "\<dots> \<le> 65538 * l"
    using l by simp
  finally have "(T div P) div l < 65538"
    by (rule less_mult_imp_div_less)
  then show "(T div P) div (D div P) \<le> 65537"
    by (simp add: l_def)
qed

lemma mpn_val_two_top:
  assumes "length W = Suc m"
  shows "(mpn_val W + 65536 ^ length W * t) div 65536 ^ m = t * 65536 + unat (W ! m)"
proof -
  have W: "W = take m W @ [W ! m]"
    using assms by (simp add: take_Suc_conv_app_nth [of m W, symmetric])
  have lt: "mpn_val (take m W) < 65536 ^ m"
    using mpn_val_less [of "take m W"] assms by simp
  have "mpn_val W = mpn_val (take m W) + 65536 ^ m * unat (W ! m)"
    using assms by (subst W, subst mpn_val_append) simp
  then have "mpn_val W + 65536 ^ length W * t = mpn_val (take m W) + 65536 ^ m * (t * 65536 + unat (W ! m))"
    using assms by (simp add: algebra_simps)
  then show ?thesis
    using lt by simp
qed

lemma unat_two_digs:
  "unat (push_bit DIG_SIZE (ucast (x :: dig)) OR ucast (y :: dig) :: dbl) = unat x * 65536 + unat y"
proof -
  have "unat (push_bit 16 (ucast x) OR ucast y :: dbl) = 65536 * unat x + unat y"
    using u16_less [of x] by (intro unat_or_u16) (simp add: unat_push16_u32 unat_u32_of_u16)
  then show ?thesis
    by (simp only: DIG_SIZE_def mult.commute)
qed

text \<open>One quotient digit: the guess, the multiply-and-subtract pass and the corrections.\<close>

lemma mpn_div_digit:
  fixes ds W :: "dig list" and s :: nat and top :: dig
  defines "D \<equiv> mpn_val (norm_digs s 0 ds)"
  defines "T \<equiv> mpn_val W + 65536 ^ length ds * unat top"
  assumes "s \<le> 15" and "length ds = Suc m" and "65536 ^ m * 32768 \<le> D"
    and "length W = length ds" and "T < D * 65536" and "unat lead = D div 65536 ^ m"
    and "quo = (push_bit DIG_SIZE (ucast top) OR ucast (W ! m)) div lead"
    and "mpn_div_mulsub s quo 0 0 W ds = (ns, borrow)"
  shows "\<exists>ns' quo'. mpn_div_correct_quo s ds ns (borrow + ucast top) quo = Some (ns', quo') \<and>
    length ns' = length ds \<and> mpn_val ns' = T mod D \<and> unat quo' = T div D"
proof -
  have two: "unat (push_bit DIG_SIZE (ucast top) OR ucast (W ! m) :: dbl) = T div 65536 ^ m"
    using mpn_val_two_top [of W m "unat top"] assms(4,6)
    by (simp add: T_def unat_two_digs)
  have quo: "unat quo = (T div 65536 ^ m) div (D div 65536 ^ m)"
    unfolding assms(9) by (simp add: unat_div_distrib two assms(8))
  have q: "T div D \<le> unat quo" "unat quo \<le> 65537"
    unfolding quo using quo_guess_bounds [of "65536 ^ m" D T] assms(5,7) by simp_all
  have ms: "length ns = length W \<and> - int (unat quo) \<le> sint borrow \<and> sint borrow \<le> 0 \<and>
    int (mpn_val ns) + 65536 ^ length W * sint borrow = int (mpn_val W) - int (unat quo) * int D"
    using mpn_div_mulsub_val [of s 0 quo 0 W ds ns borrow] assms(3,6,10) q(2) by (simp add: D_def)
  have top: "0 \<le> int (unat top)" "int (unat top) < 65536"
    using u16_less [of top] by linarith+
  have b: "sint (borrow + ucast top) = sint borrow + int (unat top)"
    using ms q(2) top by (subst sint_add_u32; unfold sint_u32_of_u16; linarith)
  show ?thesis
    unfolding D_def
  proof (rule mpn_div_correct_quo_val; (fold D_def)?)
    show "s \<le> 15" by fact
    show "0 < D"
      using assms(5) by (metis gr0I le_zero_eq mult_eq_0_iff power_eq_0_iff zero_neq_numeral)
    show "length ns = length ds"
      using ms assms(6) by simp
    show "D < 65536 ^ length ds"
      using norm_digs_val [of s 0 ds] mpn_val_less [of "norm_digs s 0 ds"] assms(3) by (simp add: D_def)
    show "65536 ^ length ds \<le> 2 * D"
      using assms(4,5) by simp
    show "int (mpn_val ns) + 65536 ^ length ds * sint (borrow + ucast top) = int T - int (unat quo) * int D"
      using ms assms(6) unfolding b distrib_left T_def by simp
    show "T div D \<le> unat quo"
      by fact
    show "- 65537 \<le> sint (borrow + ucast top)"
      unfolding b using ms q(2) top by linarith
  qed
qed

lemma div_mod_split:
  fixes D :: nat
  assumes "0 < D"
  shows "(l + P * T) div D = (l + P * (T mod D)) div D + P * (T div D)"
    and "(l + P * T) mod D = (l + P * (T mod D)) mod D"
proof -
  have "l + P * T = (l + P * (T mod D)) + D * (P * (T div D))"
    using mod_mult_div_eq [of T D] by (metis (no_types) add.assoc distrib_left mult.left_commute)
  then show "(l + P * T) div D = (l + P * (T mod D)) div D + P * (T div D)"
    and "(l + P * T) mod D = (l + P * (T mod D)) mod D"
    using assms by (simp_all only: div_mult_self2 mod_mult_self2)
qed

lemma mpn_div_loop_val:
  fixes ds :: "dig list" and s :: nat
  defines "D \<equiv> mpn_val (norm_digs s 0 ds)"
  assumes "s \<le> 15" and "length ds = Suc m" and "65536 ^ m * 32768 \<le> D"
    and "unat lead = D div 65536 ^ m"
    and "length ds + k \<le> length num" and "k \<le> length quo"
    and "mpn_val (take (length ds + k) num) < D * 65536 ^ k"
  shows "\<exists>num' quo'. mpn_div_loop s lead ds k num quo = Some (num', quo') \<and>
    length num' = length num \<and> length quo' = length quo \<and> drop k quo' = drop k quo \<and>
    mpn_val (take (length ds) num') = mpn_val (take (length ds + k) num) mod D \<and>
    mpn_val (take k quo') = mpn_val (take (length ds + k) num) div D"
  using assms(6-)
proof (induction k arbitrary: num quo)
  case 0
  then show ?case by simp
next
  case (Suc k)
  define W where "W = take (length ds) (drop k num)"
  define top where "top = num ! (length ds + k)"
  define T where "T = mpn_val W + 65536 ^ length ds * unat top"
  define q where "q = (push_bit DIG_SIZE (ucast top) OR ucast (W ! m)) div lead"
  obtain ns borrow where ms: "mpn_div_mulsub s q 0 0 W ds = (ns, borrow)"
    by (cases "mpn_div_mulsub s q 0 0 W ds")
  have D0: "0 < D"
    using assms(4) by (metis gr0I le_zero_eq mult_eq_0_iff power_eq_0_iff zero_neq_numeral)
  have W: "length W = length ds" "num ! (length ds + k - 1) = W ! m"
    using Suc.prems(1) assms(3) by (simp_all add: W_def add.commute)
  have split: "take (length ds + Suc k) num = take k num @ W @ [top]"
    using Suc.prems(1) take_add [of k "length ds" num] unfolding W_def top_def
    by (simp add: take_Suc_conv_app_nth add.commute [of "length ds"])
  have R: "mpn_val (take (length ds + Suc k) num) = mpn_val (take k num) + 65536 ^ k * T"
    using Suc.prems(1) W(1) unfolding split T_def by (simp add: mpn_val_append)
  have "D * 65536 ^ Suc k = 65536 ^ k * (D * 65536)"
    by simp
  then have "65536 ^ k * T < 65536 ^ k * (D * 65536)"
    using Suc.prems(3) unfolding R by linarith
  then have T: "T < D * 65536"
    by simp
  obtain ns' q' where cq: "mpn_div_correct_quo s ds ns (borrow + ucast top) q = Some (ns', q')"
    and ns': "length ns' = length ds" "mpn_val ns' = T mod D" and q': "unat q' = T div D"
    using mpn_div_digit [OF assms(2,3) assms(4) [unfolded D_def] W(1) T [unfolded T_def D_def]
        assms(5) [unfolded D_def] q_def ms] by (auto simp: T_def D_def)
  define num1 where "num1 = take k num @ ns' @ drop (k + length ds) num"
  define quo1 where "quo1 = quo[k := ucast (q' AND DIG_MASK)]"
  have num1: "take (length ds + k) num1 = take k num @ ns'" "length num1 = length num"
    using Suc.prems(1) ns'(1) by (simp_all add: num1_def)
  have low: "mpn_val (take k num) < 65536 ^ k"
    using mpn_val_less [of "take k num"] Suc.prems(1) by simp
  have v1: "mpn_val (take (length ds + k) num1) = mpn_val (take k num) + 65536 ^ k * (T mod D)"
    using Suc.prems(1) unfolding num1 by (simp add: mpn_val_append ns'(2))
  have "65536 ^ k * (T mod D + 1) \<le> 65536 ^ k * D"
    using mod_less_divisor [OF D0, of T] by (intro mult_le_mono2) linarith
  with low have "mpn_val (take (length ds + k) num1) < D * 65536 ^ k"
    unfolding v1 by (simp add: algebra_simps)
  then obtain num' quo' where loop: "mpn_div_loop s lead ds k num1 quo1 = Some (num', quo')"
    and len: "length num' = length num1" "length quo' = length quo1" and dr: "drop k quo' = drop k quo1"
    and v: "mpn_val (take (length ds) num') = mpn_val (take (length ds + k) num1) mod D"
      "mpn_val (take k quo') = mpn_val (take (length ds + k) num1) div D"
    using Suc.IH [of num1 quo1] Suc.prems num1(2) by (auto simp: quo1_def)
  have run: "mpn_div_loop s lead ds (Suc k) num quo = Some (num', quo')"
    using ms cq loop by (simp add: Let_def flip: W_def top_def W(2) add: W(2) q_def num1_def quo1_def)
  have nth: "quo' ! k = ucast (q' AND DIG_MASK)"
    using arg_cong [OF dr, of hd] len(2) Suc.prems(2) by (simp add: hd_drop_conv_nth quo1_def)
  have "T div D < 65536"
    using T D0 by (simp add: div_less_iff_less_mult mult.commute)
  then have "unat (quo' ! k) = T div D"
    by (simp add: nth q')
  then have "mpn_val (take (Suc k) quo') = mpn_val (take k quo') + 65536 ^ k * (T div D)"
    using len(2) Suc.prems(2) by (simp add: take_Suc_conv_app_nth mpn_val_append quo1_def)
  moreover have "drop (Suc k) quo' = drop (Suc k) quo"
    using arg_cong [OF dr, of "drop 1"] by (simp add: quo1_def)
  ultimately show ?case
    using run len v div_mod_split [OF D0, of "mpn_val (take k num)" "65536 ^ k" T]
    unfolding R v1 num1(2) by (simp add: quo1_def)
qed

section \<open>Shifting the numerator and the remainder\<close>

lemma two_pow_split: "s \<le> 15 \<Longrightarrow> (65536 :: nat) = 2 ^ s * 2 ^ (16 - s)"
  by (simp flip: power_add)

lemma shifted_dig_div:
  fixes n c :: nat
  assumes "s \<le> 15" and "c < 2 ^ s"
  shows "(n * 2 ^ s + c) div 65536 = n div 2 ^ (16 - s)"
proof -
  have "(n * 2 ^ s + c) div 65536 = (n * 2 ^ s + c) div 2 ^ s div 2 ^ (16 - s)"
    unfolding two_pow_split [OF assms(1)] by (rule div_mult2_eq)
  also have "(n * 2 ^ s + c) div 2 ^ s = n"
    using assms(2) by simp
  finally show ?thesis .
qed

lemma unat_high_part:
  assumes "s \<le> 15"
  shows "unat (drop_bit (DIG_SIZE - s) (ucast (n :: dig)) :: dbl) = unat n div 2 ^ (16 - s)"
    and "unat n div 2 ^ (16 - s) < 2 ^ s"
proof -
  show "unat (drop_bit (DIG_SIZE - s) (ucast (n :: dig)) :: dbl) = unat n div 2 ^ (16 - s)"
    by (simp add: unat_drop_bit_nat unat_u32_of_u16 DIG_SIZE_def)
  show "unat n div 2 ^ (16 - s) < 2 ^ s"
    using u16_less [of n] two_pow_split [OF assms] by (intro less_mult_imp_div_less) simp
qed

lemma mpn_div_shift_num_val:
  assumes "s \<le> 15" and "unat carry < 2 ^ s"
  shows "length (mpn_div_shift_num s carry ns) = length ns \<and>
    mpn_val (mpn_div_shift_num s carry ns) = (mpn_val ns * 2 ^ s + unat carry) mod 65536 ^ length ns"
  using assms(2)
proof (induction ns arbitrary: carry)
  case (Cons n ns)
  define c where "c = (ucast (drop_bit (DIG_SIZE - s) (ucast n :: dbl)) :: dig)"
  define d where "d = (ucast ((push_bit s (ucast n) OR ucast carry) AND DIG_MASK) :: dig)"
  have "(2::nat) ^ s \<le> 2 ^ 15"
    using assms(1) by (intro power_increasing) auto
  then have c: "unat c = unat n div 2 ^ (16 - s)" "unat c < 2 ^ s"
    using unat_high_part [OF assms(1), of n] by (simp_all add: c_def unat_u16_of_u32)
  have d: "unat d = (unat n * 2 ^ s + unat carry) mod 65536"
    using Cons.prems unat_shift_or [OF assms(1), of "ucast carry" n] by (simp add: d_def unat_u32_of_u16)
  have "(mpn_val (n # ns) * 2 ^ s + unat carry) mod 65536 ^ length (n # ns) =
      ((unat n * 2 ^ s + unat carry) + 65536 * (mpn_val ns * 2 ^ s)) mod (65536 * 65536 ^ length ns)"
    by (simp add: algebra_simps)
  also have "\<dots> = unat d + 65536 * ((mpn_val ns * 2 ^ s + unat c) mod 65536 ^ length ns)"
    by (subst mod_mult2_eq) (simp add: d c(1) shifted_dig_div [OF assms(1) Cons.prems] add.commute [of "65536 * _"])
  finally show ?case
    using Cons.IH [OF c(2)] by (simp flip: c_def d_def)
qed simp

lemma mpn_div_unshift_num_val:
  assumes "s \<le> 15" and "c < 2 ^ s" and "unat carry = c * 2 ^ (16 - s) mod 65536"
  shows "length (mpn_div_unshift_num s carry ns) = length ns \<and>
    mpn_val (rev (mpn_div_unshift_num s carry ns)) =
      (65536 ^ length ns * c + mpn_val (rev ns)) div 2 ^ s"
  using assms(2,3)
proof (induction ns arbitrary: carry c)
  case (Cons n ns)
  define c' where "c' = unat n mod 2 ^ s"
  define carry' where "carry' = (ucast (push_bit (DIG_SIZE - s) (ucast n :: dbl)) :: dig)"
  define d where "d = (ucast ((drop_bit s (ucast n) OR ucast carry) AND DIG_MASK) :: dig)"
  have pw: "(65536 :: nat) = 2 ^ s * 2 ^ (16 - s)" "(65536 :: nat) = 2 ^ (16 - s) * 2 ^ s"
    using two_pow_split [OF assms(1)] by (simp_all add: mult.commute)
  have n: "unat n < 65536"
    by (rule u16_less)
  have c': "c' < 2 ^ s"
    by (simp add: c'_def)
  have "c' * 2 ^ (16 - s) < 65536"
    using c' unfolding pw(1) by simp
  moreover have "unat n * 2 ^ (16 - s) mod 65536 = c' * 2 ^ (16 - s)"
    unfolding pw(1) c'_def by (simp add: mult_mod_left)
  moreover have "unat n * 2 ^ (16 - s) < 65536 * 65536"
    using n power_increasing [of "16 - s" 16 "2 :: nat"] by (intro mult_less_le_imp_less) auto
  then have "unat (push_bit (DIG_SIZE - s) (ucast n :: dbl)) = unat n * 2 ^ (16 - s)"
    by (subst unat_push_u32) (simp_all add: unat_u32_of_u16 DIG_SIZE_def)
  ultimately have carry': "unat carry' = c' * 2 ^ (16 - s) mod 65536"
    by (simp add: carry'_def unat_u16_of_u32)
  have lo: "unat n div 2 ^ s < 2 ^ (16 - s)"
    using n unfolding pw(2) by (rule less_mult_imp_div_less)
  have cs: "c * 2 ^ (16 - s) + 2 ^ (16 - s) \<le> 65536"
    using mult_le_mono1 [of "Suc c" "2 ^ s" "2 ^ (16 - s)"] Cons.prems(1) unfolding pw(1) by simp
  have "c * 2 ^ (16 - s) < 65536"
    using cs lo by linarith
  then have "unat d = (2 ^ (16 - s) * c OR (unat n div 2 ^ s)) mod 65536"
    using Cons.prems(2)
    by (simp add: d_def unsigned_or_eq unat_drop_bit_nat unat_u32_of_u16 or.commute mult.commute)
  also have "\<dots> = 2 ^ (16 - s) * c + unat n div 2 ^ s"
    unfolding or_low_bits [OF lo] using cs lo by (simp add: mult.commute)
  also have "\<dots> = (unat n + 2 ^ s * (2 ^ (16 - s) * c)) div 2 ^ s"
    by simp
  also have "2 ^ s * (2 ^ (16 - s) * c) = c * 65536"
    unfolding pw(1) by simp
  finally have d: "unat d = (c * 65536 + unat n) div 2 ^ s"
    by (simp only: add.commute)
  have m: "(c * 65536 + unat n) mod 2 ^ s = c'"
    unfolding pw(2) c'_def by (simp add: mult.assoc [symmetric])
  have "65536 ^ length (n # ns) * c + mpn_val (rev (n # ns)) =
      65536 ^ length ns * (c * 65536 + unat n) + mpn_val (rev ns)"
    by (simp add: mpn_val_append algebra_simps)
  also have "c * 65536 + unat n = unat d * 2 ^ s + c'"
    using div_mult_mod_eq [of "c * 65536 + unat n" "2 ^ s"] by (simp only: d m)
  also have "65536 ^ length ns * (unat d * 2 ^ s + c') + mpn_val (rev ns) =
      (65536 ^ length ns * c' + mpn_val (rev ns)) + 2 ^ s * (65536 ^ length ns * unat d)"
    by (simp add: algebra_simps)
  finally have "(65536 ^ length (n # ns) * c + mpn_val (rev (n # ns))) div 2 ^ s =
      65536 ^ length ns * unat d + (65536 ^ length ns * c' + mpn_val (rev ns)) div 2 ^ s"
    by simp
  then show ?case
    using Cons.IH [OF c' carry'] by (simp add: mpn_val_append Let_def flip: carry'_def d_def)
qed simp


section \<open>Division\<close>

lemma mpn_div_lead_val:
  fixes ds :: "dig list" and s :: nat
  defines "D \<equiv> mpn_val ds * 2 ^ s"
  assumes "s \<le> 15" and "length ds = Suc m" and "unat (ds ! m) * 2 ^ s < 65536"
  shows "unat (mpn_div_lead ds s) = D div 65536 ^ m"
proof -
  define t where "t = ds ! m"
  have ds: "ds = take m ds @ [t]"
    using assms(3) by (simp add: t_def take_Suc_conv_app_nth [of m ds, symmetric])
  have t: "unat (push_bit s (ucast t) :: dbl) = unat t * 2 ^ s"
    using assms(4) by (subst unat_push_u32) (simp_all add: t_def unat_u32_of_u16)
  have len: "length (take m ds) = m"
    using assms(3) by simp
  have val: "mpn_val ds = mpn_val (take m ds) + 65536 ^ m * unat t"
    using mpn_val_append [of "take m ds" "[t]"] len ds by simp
  have D: "D = mpn_val (take m ds) * 2 ^ s + 65536 ^ m * (unat t * 2 ^ s)"
    by (simp add: D_def val algebra_simps)
  show ?thesis
  proof (cases m)
    case 0
    then show ?thesis
      using assms(3) t by (simp add: mpn_div_lead_def D t_def)
  next
    case (Suc l)
    define u where "u = ds ! l"
    have lt: "mpn_val (take l ds) < 65536 ^ l"
      using mpn_val_less [of "take l ds"] assms(3) Suc by simp
    have "mpn_val (take m ds) = mpn_val (take l ds) + 65536 ^ l * unat u"
      using assms(3) Suc by (simp add: take_Suc_conv_app_nth mpn_val_append u_def)
    then have "mpn_val (take m ds) div 65536 ^ l = unat u"
      using lt by simp
    moreover have "mpn_val (take m ds) * 2 ^ s div 65536 ^ m = mpn_val (take m ds) div 65536 ^ l div 2 ^ (16 - s)"
    proof -
      have "(65536 :: nat) ^ m = 65536 ^ l * 2 ^ (16 - s) * 2 ^ s"
        using two_pow_split [OF assms(2)] Suc by (simp add: mult.commute)
      moreover have "mpn_val (take m ds) * 2 ^ s div (65536 ^ l * 2 ^ (16 - s) * 2 ^ s) =
          mpn_val (take m ds) div (65536 ^ l * 2 ^ (16 - s))"
        by (rule div_mult_mult2) simp
      ultimately show ?thesis
        by (simp only: div_mult2_eq)
    qed
    ultimately have lo: "mpn_val (take m ds) * 2 ^ s div 65536 ^ m = unat u div 2 ^ (16 - s)"
      by simp
    have "unat (push_bit s (ucast t) OR drop_bit (DIG_SIZE - s) (ucast u) :: dbl) =
        unat t * 2 ^ s + unat u div 2 ^ (16 - s)"
      using unat_high_part [OF assms(2), of u] unat_shift_or [OF assms(2), of _ t] by simp
    then show ?thesis
      using assms(3) Suc lo by (simp add: mpn_div_lead_def D t_def u_def Let_def)
  qed
qed

lemma mpn_div_normalise:
  fixes ds :: "dig list"
  defines "D \<equiv> mpn_val ds"
  assumes "normalised ds" and "length ds = Suc m"
  obtains s where "mpn_div_norm_shift (ds ! m) 0 = Some s" and "s \<le> 15"
    and "unat (ds ! m) * 2 ^ s < 65536" and "65536 ^ m * 32768 \<le> D * 2 ^ s"
    and "mpn_val (norm_digs s 0 ds) = D * 2 ^ s"
proof -
  have "ds ! m \<noteq> 0"
    using assms(2,3) last_conv_nth [of ds] by (fastforce simp: normalised_def)
  then have "0 < unat (ds ! m)"
    by (simp add: unat_gt_0)
  then obtain s where s: "mpn_div_norm_shift (ds ! m) 0 = Some s" "s \<le> 15"
    "32768 \<le> unat (ds ! m) * 2 ^ s" "unat (ds ! m) * 2 ^ s < 65536"
    using norm_shift_exists [of "ds ! m" 0] by auto
  have split: "mpn_val ds = mpn_val (take m ds) + 65536 ^ m * unat (ds ! m)"
    using assms(3) mpn_val_append [of "take m ds" "[ds ! m]"] by (simp add: take_Suc_conv_app_nth [of m ds, symmetric])
  have "65536 ^ m * 32768 \<le> 65536 ^ m * (unat (ds ! m) * 2 ^ s)"
    using s(3) by (rule mult_le_mono2)
  also have "\<dots> \<le> D * 2 ^ s"
    by (simp add: D_def split algebra_simps)
  finally have Dlo: "65536 ^ m * 32768 \<le> D * 2 ^ s" .
  have "mpn_val (take m ds) + 1 \<le> 65536 ^ m"
    using mpn_val_less [of "take m ds"] assms(3) by simp
  then have "D + 1 \<le> 65536 ^ m * (unat (ds ! m) + 1)"
    by (simp add: D_def split)
  then have "(D + 1) * 2 ^ s \<le> 65536 ^ m * ((unat (ds ! m) + 1) * 2 ^ s)"
    by (metis mult.assoc mult_le_mono1)
  also have "\<dots> \<le> 65536 ^ m * 65536"
  proof (rule mult_le_mono2)
    have "unat (ds ! m) * 2 ^ s < 2 ^ (16 - s) * 2 ^ s"
      using s(4) unfolding two_pow_split [OF s(2)] by (simp only: mult.commute)
    then have "unat (ds ! m) + 1 \<le> 2 ^ (16 - s)"
      by simp
    then show "(unat (ds ! m) + 1) * 2 ^ s \<le> 65536"
      using mult_le_mono1 [of "unat (ds ! m) + 1" "2 ^ (16 - s)" "2 ^ s"] two_pow_split [OF s(2)]
      by (simp only: mult.commute)
  qed
  finally have "D * 2 ^ s + 2 ^ s \<le> 65536 ^ length ds"
    using assms(3) by (simp add: algebra_simps)
  moreover have "(0 :: nat) < 2 ^ s"
    by simp
  ultimately have Dhi: "D * 2 ^ s < 65536 ^ length ds"
    by linarith
  have nd: "mpn_val (norm_digs s 0 ds) = D * 2 ^ s"
    using norm_digs_val [of s 0 ds] s(2) Dhi by (simp add: D_def)
  show ?thesis
    by (rule that [OF s(1,2,4) Dlo nd])
qed

theorem mpn_div_correct:
  assumes "normalised (take num_len num)" and "num_len < length num"
    and "normalised ds" and "ds \<noteq> []" and "num_len < length quo"
  defines "N \<equiv> mpn_val (take num_len num)" and "D \<equiv> mpn_val ds"
  shows "\<exists>num' rem_len quo' quo_len. mpn_div num num_len ds quo = Some ((num', rem_len), (quo', quo_len)) \<and>
    length num' = length num \<and> rem_len \<le> num_len \<and> normalised (take rem_len num') \<and>
    mpn_val (take rem_len num') = N mod D \<and>
    length quo' = length quo \<and> quo_len \<le> length quo \<and> normalised (take quo_len quo') \<and>
    mpn_val (take quo_len quo') = N div D"
proof -
  have cmp: "mpn_cmp (take num_len num) ds = sgn (int N - int D)"
    unfolding N_def D_def using assms(1,3) by (rule mpn_cmp_correct)
  have D0: "0 < D"
    using assms(3,4) mpn_val_eq_0_iff [of ds] by (simp add: D_def)
  consider "N = D" | "N < D" | "D < N"
    by linarith
  then show ?thesis
  proof cases
    case 1
    then show ?thesis
      using cmp D0 assms(5) by (cases quo) (auto simp: mpn_div_def normalised_def)
  next
    case 2
    then show ?thesis
      using cmp assms(1,2) by (auto simp: mpn_div_def N_def normalised_def)
  next
    case 3
    obtain m where m: "length ds = Suc m"
      using assms(4) by (cases ds) auto
    from mpn_div_normalise [OF assms(3) m, folded D_def]
    obtain s where s: "mpn_div_norm_shift (ds ! m) 0 = Some s" "s \<le> 15" "unat (ds ! m) * 2 ^ s < 65536"
      and Dlo: "65536 ^ m * 32768 \<le> D * 2 ^ s" and nd: "mpn_val (norm_digs s 0 ds) = D * 2 ^ s" .
    define quo_len where "quo_len = Suc num_len - length ds"
    define num1 where
      "num1 = mpn_div_shift_num s 0 (take num_len num @ [0]) @ drop (Suc num_len) num"
    have len: "length ds \<le> num_len"
      using normalised_val_less [OF assms(3), of "take num_len num"] 3 assms(2)
      by (fastforce simp: N_def D_def)
    then have ql: "length ds + quo_len = Suc num_len" "quo_len \<le> length quo"
      using assms(5) m by (simp_all add: quo_len_def)
    have N: "N < 65536 ^ num_len"
      using mpn_val_less [of "take num_len num"] assms(2) by (simp add: N_def)
    have "N * 2 ^ s < 65536 ^ num_len * 65536"
      using N s(2) power_increasing [of s 16 "2 :: nat"] by (intro mult_less_le_imp_less) auto
    then have sh: "length (mpn_div_shift_num s 0 (take num_len num @ [0])) = Suc num_len \<and>
        mpn_val (mpn_div_shift_num s 0 (take num_len num @ [0])) = N * 2 ^ s"
      using mpn_div_shift_num_val [of s 0 "take num_len num @ [0]"] s(2) assms(2)
      by (simp add: N_def mpn_val_append mult.commute)
    then have num1: "length num1 = length num" "mpn_val (take (length ds + quo_len) num1) = N * 2 ^ s"
      using assms(2) ql(1) by (simp_all add: num1_def)
    have "(65536 :: nat) ^ num_len = 65536 ^ m * 65536 ^ quo_len"
      using ql(1) m by (simp flip: power_add)
    also have "\<dots> \<le> D * 65536 ^ quo_len"
      using mpn_val_ge [OF assms(3,4)] m by (intro mult_le_mono1) (simp add: D_def)
    finally have "N * 2 ^ s < D * 65536 ^ quo_len * 2 ^ s"
      using N by simp
    then have lt: "N * 2 ^ s < D * 2 ^ s * 65536 ^ quo_len"
      by (simp add: algebra_simps)
    obtain num2 quo1 where loop: "mpn_div_loop s (mpn_div_lead ds s) ds quo_len num1 quo = Some (num2, quo1)"
      and l2: "length num2 = length num" "length quo1 = length quo"
      and r2: "mpn_val (take (length ds) num2) = (N * 2 ^ s) mod (D * 2 ^ s)"
      and q2: "mpn_val (take quo_len quo1) = (N * 2 ^ s) div (D * 2 ^ s)"
      using mpn_div_loop_val [OF s(2) m, of "mpn_div_lead ds s" quo_len num1 quo]
        mpn_div_lead_val [OF s(2) m s(3)] Dlo lt num1 ql assms(2)
      unfolding nd D_def by auto
    define num3 where
      "num3 = rev (mpn_div_unshift_num s 0 (rev (take (length ds) num2))) @ drop (length ds) num2"
    have u: "length (mpn_div_unshift_num s 0 (rev (take (length ds) num2))) = length ds \<and>
        mpn_val (rev (mpn_div_unshift_num s 0 (rev (take (length ds) num2)))) = N mod D"
      using mpn_div_unshift_num_val [of s 0 0 "rev (take (length ds) num2)"] s(2) l2 len assms(2)
      by (simp add: r2 flip: mult_mod_left)
    then have num3: "length num3 = length num" "mpn_val (take (length ds) num3) = N mod D"
      using l2 len assms(2) by (simp_all add: num3_def)
    have qv: "mpn_val (take quo_len quo1) = N div D"
      by (simp add: q2)
    have s1: "mpn_div_norm_shift (ds ! (length ds - 1)) 0 = Some s"
      using s(1) m by simp
    have "sgn (int N - int D) = 1"
      using 3 by simp
    then have run: "mpn_div num num_len ds quo =
        Some ((num3, mpn_remove_trailing_zeros num3 (length ds)),
              (quo1, mpn_remove_trailing_zeros quo1 quo_len))"
      using s1 loop unfolding mpn_div_def cmp Let_def num3_def
      by (simp add: Let_def del: One_nat_def flip: quo_len_def num1_def)
    show ?thesis
      unfolding run
      using num3 qv l2 ql(2) len assms(2)
        mpn_remove_trailing_zeros_le [of num3 "length ds"] mpn_remove_trailing_zeros_le [of quo1 quo_len]
        mpn_remove_trailing_zeros_val [of "length ds" num3] mpn_remove_trailing_zeros_val [of quo_len quo1]
        mpn_remove_trailing_zeros_normalised [of "length ds" num3]
        mpn_remove_trailing_zeros_normalised [of quo_len quo1]
      by auto
  qed
qed

end
