(* ===== verification/Mpz.thy ===== *)
theory Mpz
  imports Mpn_Bits Mpn_Div "HOL-Library.Monad_Syntax"
begin

text \<open>
  The \<^verbatim>\<open>mpz_*\<close> functions of \<^verbatim>\<open>py/mpz.c\<close>: signed integers in buffers that grow. They
  take pointers and many of them allow \<^verbatim>\<open>dest\<close> to be one of the operands, so the model has an
  explicit store from addresses to \<^verbatim>\<open>mpz_t\<close> records and reads an operand from the store at the
  point where the code reads it. An address is that of a caller's object or of one of the
  temporaries that a function clones or declares. An operation returns \<open>None\<close> when an assertion
  of the code fails or a buffer would be overrun; the raise of \<^verbatim>\<open>MemoryError\<close> by the
  allocator is not modelled.
\<close>

section \<open>Objects and the store\<close>

text \<open>
  \<^verbatim>\<open>struct _mpz_t\<close>: \<^verbatim>\<open>alloc\<close> is the length of the buffer \<open>z_dig\<close> and \<^verbatim>\<open>dig == NULL\<close>
  is the empty one.
\<close>

record mpz =
  z_neg :: bool
  z_fixed :: bool
  z_len :: nat
  z_dig :: "dig list"

datatype addr = Ob nat | Tmp nat

type_synonym mpz_store = "addr \<Rightarrow> mpz"

definition digits :: "mpz \<Rightarrow> dig list" where
  "digits z = take (z_len z) (z_dig z)"

definition mpz_val :: "mpz \<Rightarrow> int" where
  "mpz_val z = sval (z_neg z) (digits z)"

text \<open>The invariant: no leading zero digit, no negative zero, no more digits than the buffer has.\<close>

definition mpz_ok :: "mpz \<Rightarrow> bool" where
  "mpz_ok z \<longleftrightarrow> z_len z \<le> length (z_dig z) \<and> normalised (digits z) \<and> (z_neg z \<longrightarrow> z_len z \<noteq> 0)"

definition mpz_zero :: mpz where
  "mpz_zero = \<lparr>z_neg = False, z_fixed = False, z_len = 0, z_dig = []\<rparr>"

definition mpz_init_zero :: "addr \<Rightarrow> mpz_store \<Rightarrow> mpz_store" where
  "mpz_init_zero z \<sigma> = \<sigma>(z := mpz_zero)"

text \<open>
  \<^verbatim>\<open>mpz_need_dig\<close>; the allocator clears what it hands out
  (\<^verbatim>\<open>MICROPY_GC_CONSERVATIVE_CLEAR\<close>).
\<close>

definition MIN_ALLOC :: nat where "MIN_ALLOC = 2"

definition mpz_need_dig :: "addr \<Rightarrow> nat \<Rightarrow> mpz_store \<Rightarrow> mpz_store option" where
  "mpz_need_dig z need \<sigma> =
     (let need' = (if need < MIN_ALLOC then MIN_ALLOC else need);
          alloc = length (z_dig (\<sigma> z))
      in if alloc < need'
         then if z_fixed (\<sigma> z) then None
              else Some (\<sigma>(z := (\<sigma> z)\<lparr>z_dig := z_dig (\<sigma> z) @ replicate (need' - alloc) 0\<rparr>))
         else Some \<sigma>)"

text \<open>
  The store of a digit function's result: the digits it writes from \<^verbatim>\<open>z->dig[0]\<close> on and the
  length it returns.
\<close>

definition mpz_put :: "addr \<Rightarrow> dig list \<times> nat \<Rightarrow> mpz_store \<Rightarrow> mpz_store option" where
  "mpz_put z r \<sigma> =
     (if length (fst r) \<le> length (z_dig (\<sigma> z))
      then Some (\<sigma>(z := (\<sigma> z)\<lparr>z_len := snd r, z_dig := fst r @ drop (length (fst r)) (z_dig (\<sigma> z))\<rparr>))
      else None)"

definition mpz_put_neg :: "addr \<Rightarrow> bool \<Rightarrow> mpz_store \<Rightarrow> mpz_store" where
  "mpz_put_neg z b \<sigma> = \<sigma>(z := (\<sigma> z)\<lparr>z_neg := b\<rparr>)"

text \<open>\<^verbatim>\<open>mpz_clone\<close> returns the new object; the caller chooses its address.\<close>

definition mpz_clone :: "mpz \<Rightarrow> mpz option" where
  "mpz_clone src = (if z_dig src = [] then None else Some (src\<lparr>z_fixed := False\<rparr>))"

definition mpz_set :: "addr \<Rightarrow> addr \<Rightarrow> mpz_store \<Rightarrow> mpz_store option" where
  "mpz_set dest src \<sigma> =
     do { \<sigma>1 \<leftarrow> mpz_need_dig dest (z_len (\<sigma> src)) \<sigma>;
          mpz_put dest (digits (\<sigma>1 src), z_len (\<sigma>1 src)) (mpz_put_neg dest (z_neg (\<sigma>1 src)) \<sigma>1) }"

section \<open>Conversion from machine integers\<close>

text \<open>\<^verbatim>\<open>while (uval > 0) { z->dig[z->len++] = uval & DIG_MASK; uval >>= DIG_SIZE; }\<close>\<close>

function uval_digs :: "'a::len word \<Rightarrow> dig list" where
  "uval_digs u =
     (if u = 0 then [] else ucast (u AND mask DIG_SIZE) # uval_digs (drop_bit DIG_SIZE u))"
  by auto

termination
proof (relation "measure unat")
  fix u :: "'a word"
  assume "u \<noteq> 0"
  then have "0 < unat u"
    by (simp add: unat_gt_0)
  then show "(drop_bit DIG_SIZE u, u) \<in> measure unat"
    by (simp add: DIG_SIZE_def unat_drop_bit_nat)
qed simp

declare uval_digs.simps [simp del]

definition mpz_put_uval :: "addr \<Rightarrow> 'a::len word \<Rightarrow> mpz_store \<Rightarrow> mpz_store option" where
  "mpz_put_uval z u \<sigma> = mpz_put z (uval_digs u, length (uval_digs u)) \<sigma>"

text \<open>\<^verbatim>\<open>MPZ_NUM_DIG_FOR_INT\<close> is \<open>2\<close>, \<^verbatim>\<open>MPZ_NUM_DIG_FOR_LL\<close> is \<open>4\<close>.\<close>

definition mpz_set_from_int :: "addr \<Rightarrow> 32 word \<Rightarrow> mpz_store \<Rightarrow> mpz_store option" where
  "mpz_set_from_int z val \<sigma> =
     (if val = 0 then Some (\<sigma>(z := (\<sigma> z)\<lparr>z_neg := False, z_len := 0\<rparr>))
      else do { \<sigma>1 \<leftarrow> mpz_need_dig z 2 \<sigma>;
                mpz_put_uval z (if sint val < 0 then - val else val)
                  (mpz_put_neg z (sint val < 0) \<sigma>1) })"

definition mpz_set_from_ll :: "addr \<Rightarrow> 64 word \<Rightarrow> bool \<Rightarrow> mpz_store \<Rightarrow> mpz_store option" where
  "mpz_set_from_ll z val is_signed \<sigma> =
     do { \<sigma>1 \<leftarrow> mpz_need_dig z 4 \<sigma>;
          mpz_put_uval z (if is_signed \<and> sint val < 0 then - val else val)
            (mpz_put_neg z (is_signed \<and> sint val < 0) \<sigma>1) }"

definition mpz_init_from_int :: "addr \<Rightarrow> 32 word \<Rightarrow> mpz_store \<Rightarrow> mpz_store option" where
  "mpz_init_from_int z val \<sigma> = mpz_set_from_int z val (mpz_init_zero z \<sigma>)"

definition mpz_init_fixed_from_int ::
    "addr \<Rightarrow> dig list \<Rightarrow> 32 word \<Rightarrow> mpz_store \<Rightarrow> mpz_store option" where
  "mpz_init_fixed_from_int z buf val \<sigma> =
     mpz_set_from_int z val
       (\<sigma>(z := \<lparr>z_neg = False, z_fixed = True, z_len = 0, z_dig = buf\<rparr>))"

section \<open>Comparison, signs and shifts\<close>

definition mpz_is_zero :: "mpz \<Rightarrow> bool" where "mpz_is_zero z = (z_len z = 0)"

definition mpz_is_neg :: "mpz \<Rightarrow> bool" where "mpz_is_neg z = z_neg z"

definition mpz_cmp :: "mpz \<Rightarrow> mpz \<Rightarrow> int" where
  "mpz_cmp z1 z2 =
     (let cmp = of_bool (z_neg z2) - of_bool (z_neg z1)
      in if cmp \<noteq> 0 then cmp
         else let cmp = mpn_cmp (digits z1) (digits z2)
              in if z_neg z1 then - cmp else cmp)"

definition mpz_abs_inpl :: "addr \<Rightarrow> addr \<Rightarrow> mpz_store \<Rightarrow> mpz_store option" where
  "mpz_abs_inpl dest z \<sigma> =
     do { \<sigma>1 \<leftarrow> (if dest \<noteq> z then mpz_set dest z \<sigma> else Some \<sigma>);
          Some (mpz_put_neg dest False \<sigma>1) }"

definition mpz_neg_inpl :: "addr \<Rightarrow> addr \<Rightarrow> mpz_store \<Rightarrow> mpz_store option" where
  "mpz_neg_inpl dest z \<sigma> =
     do { \<sigma>1 \<leftarrow> (if dest \<noteq> z then mpz_set dest z \<sigma> else Some \<sigma>);
          Some (if z_len (\<sigma>1 dest) \<noteq> 0 then mpz_put_neg dest (\<not> z_neg (\<sigma>1 dest)) \<sigma>1 else \<sigma>1) }"

definition mpz_not_inpl :: "addr \<Rightarrow> addr \<Rightarrow> mpz_store \<Rightarrow> mpz_store option" where
  "mpz_not_inpl dest z \<sigma> =
     do { \<sigma>1 \<leftarrow> (if dest \<noteq> z then mpz_set dest z \<sigma> else Some \<sigma>);
          if z_len (\<sigma>1 dest) = 0
          then do { \<sigma>2 \<leftarrow> mpz_need_dig dest 1 \<sigma>1;
                    \<sigma>3 \<leftarrow> mpz_put dest ([1], 1) \<sigma>2;
                    Some (mpz_put_neg dest True \<sigma>3) }
          else if z_neg (\<sigma>1 dest)
          then let \<sigma>2 = mpz_put_neg dest False \<sigma>1
               in mpz_put dest (mpn_sub (digits (\<sigma>2 dest)) [1]) \<sigma>2
          else do { \<sigma>2 \<leftarrow> mpz_need_dig dest (z_len (\<sigma>1 dest) + 1) \<sigma>1;
                    \<sigma>3 \<leftarrow> mpz_put dest (mpn_add (digits (\<sigma>2 dest)) [1]) \<sigma>2;
                    Some (mpz_put_neg dest True \<sigma>3) } }"

definition mpz_shl_inpl :: "addr \<Rightarrow> addr \<Rightarrow> nat \<Rightarrow> mpz_store \<Rightarrow> mpz_store option" where
  "mpz_shl_inpl dest lhs rhs \<sigma> =
     (if z_len (\<sigma> lhs) = 0 \<or> rhs = 0 then mpz_set dest lhs \<sigma>
      else do { \<sigma>1 \<leftarrow> mpz_need_dig dest (z_len (\<sigma> lhs) + (rhs + DIG_SIZE - 1) mod 2 ^ 32 div DIG_SIZE) \<sigma>;
                \<sigma>2 \<leftarrow> mpz_put dest (mpn_shl (digits (\<sigma>1 lhs)) rhs) \<sigma>1;
                Some (mpz_put_neg dest (z_neg (\<sigma>2 lhs)) \<sigma>2) })"

text \<open>
  The bits that a right shift of a negative number drops; \<^verbatim>\<open>lhs\<close> is read after the digits of
  \<^verbatim>\<open>dest\<close> have been stored.
\<close>

definition mpz_shr_round_up :: "mpz \<Rightarrow> nat \<Rightarrow> bool" where
  "mpz_shr_round_up lhs rhs =
     (let n_whole = rhs div DIG_SIZE; n_part = rhs mod DIG_SIZE
      in list_ex (\<lambda>d. d \<noteq> 0) (take n_whole (digits lhs)) \<or>
         (n_whole < z_len lhs \<and>
          (ucast (z_dig lhs ! n_whole) AND (push_bit n_part 1 - 1) :: dbl) \<noteq> 0))"

definition mpz_shr_inpl :: "addr \<Rightarrow> addr \<Rightarrow> nat \<Rightarrow> mpz_store \<Rightarrow> mpz_store option" where
  "mpz_shr_inpl dest lhs rhs \<sigma> =
     (if z_len (\<sigma> lhs) = 0 \<or> rhs = 0 then mpz_set dest lhs \<sigma>
      else do { \<sigma>1 \<leftarrow> mpz_need_dig dest (z_len (\<sigma> lhs)) \<sigma>;
                \<sigma>2 \<leftarrow> mpz_put dest (mpn_shr (digits (\<sigma>1 lhs)) rhs) \<sigma>1;
                let \<sigma>3 = mpz_put_neg dest (z_neg (\<sigma>2 lhs)) \<sigma>2
                in if z_neg (\<sigma>3 dest) \<and> mpz_shr_round_up (\<sigma>3 lhs) rhs
                   then if z_len (\<sigma>3 dest) = 0 then mpz_put dest ([1], 1) \<sigma>3
                        else mpz_put dest (mpn_add (digits (\<sigma>3 dest)) [1]) \<sigma>3
                   else Some \<sigma>3 })"

section \<open>Addition and subtraction\<close>

definition mpz_add_inpl :: "addr \<Rightarrow> addr \<Rightarrow> addr \<Rightarrow> mpz_store \<Rightarrow> mpz_store option" where
  "mpz_add_inpl dest lhs0 rhs0 \<sigma> =
     (let (lhs, rhs) = (if mpn_cmp (digits (\<sigma> lhs0)) (digits (\<sigma> rhs0)) < 0 then (rhs0, lhs0)
                        else (lhs0, rhs0))
      in do { \<sigma>2 \<leftarrow>
                if z_neg (\<sigma> lhs) = z_neg (\<sigma> rhs)
                then do { \<sigma>1 \<leftarrow> mpz_need_dig dest (z_len (\<sigma> lhs) + 1) \<sigma>;
                          mpz_put dest (mpn_add (digits (\<sigma>1 lhs)) (digits (\<sigma>1 rhs))) \<sigma>1 }
                else do { \<sigma>1 \<leftarrow> mpz_need_dig dest (z_len (\<sigma> lhs)) \<sigma>;
                          mpz_put dest (mpn_sub (digits (\<sigma>1 lhs)) (digits (\<sigma>1 rhs))) \<sigma>1 };
              Some (mpz_put_neg dest (z_neg (\<sigma>2 lhs) \<and> z_len (\<sigma>2 dest) \<noteq> 0) \<sigma>2) })"

definition mpz_sub_inpl :: "addr \<Rightarrow> addr \<Rightarrow> addr \<Rightarrow> mpz_store \<Rightarrow> mpz_store option" where
  "mpz_sub_inpl dest lhs0 rhs0 \<sigma> =
     (let neg = (mpn_cmp (digits (\<sigma> lhs0)) (digits (\<sigma> rhs0)) < 0);
          (lhs, rhs) = (if neg then (rhs0, lhs0) else (lhs0, rhs0))
      in do { \<sigma>2 \<leftarrow>
                if z_neg (\<sigma> lhs) \<noteq> z_neg (\<sigma> rhs)
                then do { \<sigma>1 \<leftarrow> mpz_need_dig dest (z_len (\<sigma> lhs) + 1) \<sigma>;
                          mpz_put dest (mpn_add (digits (\<sigma>1 lhs)) (digits (\<sigma>1 rhs))) \<sigma>1 }
                else do { \<sigma>1 \<leftarrow> mpz_need_dig dest (z_len (\<sigma> lhs)) \<sigma>;
                          mpz_put dest (mpn_sub (digits (\<sigma>1 lhs)) (digits (\<sigma>1 rhs))) \<sigma>1 };
              Some (mpz_put_neg dest
                      (if z_len (\<sigma>2 dest) = 0 then False
                       else if neg then \<not> z_neg (\<sigma>2 lhs) else z_neg (\<sigma>2 lhs)) \<sigma>2) })"

section \<open>Bitwise operations\<close>

definition mpz_more_digits :: "addr \<Rightarrow> addr \<Rightarrow> mpz_store \<Rightarrow> addr \<times> addr" where
  "mpz_more_digits lhs rhs \<sigma> = (if z_len (\<sigma> lhs) < z_len (\<sigma> rhs) then (rhs, lhs) else (lhs, rhs))"

definition mpz_and_inpl :: "addr \<Rightarrow> addr \<Rightarrow> addr \<Rightarrow> mpz_store \<Rightarrow> mpz_store option" where
  "mpz_and_inpl dest lhs0 rhs0 \<sigma> =
     (let (lhs, rhs) = mpz_more_digits lhs0 rhs0 \<sigma>
      in if \<not> z_neg (\<sigma> lhs) \<and> \<not> z_neg (\<sigma> rhs)
         then do { \<sigma>1 \<leftarrow> mpz_need_dig dest (z_len (\<sigma> lhs)) \<sigma>;
                   \<sigma>2 \<leftarrow> mpz_put dest (mpn_and (digits (\<sigma>1 lhs)) (digits (\<sigma>1 rhs))) \<sigma>1;
                   Some (mpz_put_neg dest False \<sigma>2) }
         else do { \<sigma>1 \<leftarrow> mpz_need_dig dest (z_len (\<sigma> lhs) + 1) \<sigma>;
                   \<sigma>2 \<leftarrow> mpz_put dest
                     (mpn_and_neg (digits (\<sigma>1 lhs)) (digits (\<sigma>1 rhs))
                        (of_bool (z_neg (\<sigma>1 lhs) = z_neg (\<sigma>1 rhs)))
                        (of_bool (z_neg (\<sigma>1 lhs))) (of_bool (z_neg (\<sigma>1 rhs)))) \<sigma>1;
                   Some (mpz_put_neg dest (z_neg (\<sigma>2 lhs) \<and> z_neg (\<sigma>2 rhs)) \<sigma>2) })"

definition mpz_or_inpl :: "addr \<Rightarrow> addr \<Rightarrow> addr \<Rightarrow> mpz_store \<Rightarrow> mpz_store option" where
  "mpz_or_inpl dest lhs0 rhs0 \<sigma> =
     (let (lhs, rhs) = mpz_more_digits lhs0 rhs0 \<sigma>
      in if \<not> z_neg (\<sigma> lhs) \<and> \<not> z_neg (\<sigma> rhs)
         then do { \<sigma>1 \<leftarrow> mpz_need_dig dest (z_len (\<sigma> lhs)) \<sigma>;
                   \<sigma>2 \<leftarrow> mpz_put dest (mpn_or (digits (\<sigma>1 lhs)) (digits (\<sigma>1 rhs))) \<sigma>1;
                   Some (mpz_put_neg dest False \<sigma>2) }
         else do { \<sigma>1 \<leftarrow> mpz_need_dig dest (z_len (\<sigma> lhs) + 1) \<sigma>;
                   r \<leftarrow> mpn_or_neg (digits (\<sigma>1 lhs)) (digits (\<sigma>1 rhs))
                         (of_bool (z_neg (\<sigma>1 lhs))) (of_bool (z_neg (\<sigma>1 rhs)));
                   \<sigma>2 \<leftarrow> mpz_put dest r \<sigma>1;
                   Some (mpz_put_neg dest True \<sigma>2) })"

definition mpz_xor_inpl :: "addr \<Rightarrow> addr \<Rightarrow> addr \<Rightarrow> mpz_store \<Rightarrow> mpz_store option" where
  "mpz_xor_inpl dest lhs0 rhs0 \<sigma> =
     (let (lhs, rhs) = mpz_more_digits lhs0 rhs0 \<sigma>
      in if z_neg (\<sigma> lhs) = z_neg (\<sigma> rhs)
         then do { \<sigma>1 \<leftarrow> mpz_need_dig dest (z_len (\<sigma> lhs)) \<sigma>;
                   \<sigma>2 \<leftarrow> mpz_put dest
                     (if \<not> z_neg (\<sigma>1 lhs) then mpn_xor (digits (\<sigma>1 lhs)) (digits (\<sigma>1 rhs))
                      else mpn_xor_neg (digits (\<sigma>1 lhs)) (digits (\<sigma>1 rhs)) 0 0 0) \<sigma>1;
                   Some (mpz_put_neg dest False \<sigma>2) }
         else do { \<sigma>1 \<leftarrow> mpz_need_dig dest (z_len (\<sigma> lhs) + 1) \<sigma>;
                   \<sigma>2 \<leftarrow> mpz_put dest
                     (mpn_xor_neg (digits (\<sigma>1 lhs)) (digits (\<sigma>1 rhs)) 1
                        (of_bool (\<not> z_neg (\<sigma>1 lhs))) (of_bool (\<not> z_neg (\<sigma>1 rhs)))) \<sigma>1;
                   Some (mpz_put_neg dest True \<sigma>2) })"

section \<open>Multiplication, division and powers\<close>

text \<open>\<^verbatim>\<open>memset(z->dig, 0, n * sizeof(mpz_dig_t))\<close>\<close>

definition mpz_clear :: "addr \<Rightarrow> nat \<Rightarrow> mpz_store \<Rightarrow> mpz_store option" where
  "mpz_clear z n \<sigma> = mpz_put z (replicate n 0, z_len (\<sigma> z)) \<sigma>"

text \<open>
  \<^verbatim>\<open>mpz_mul_inpl\<close>: when an operand is \<^verbatim>\<open>dest\<close> itself it is replaced by the clone \<open>temp\<close>.
\<close>

definition mpz_mul_inpl :: "addr \<Rightarrow> addr \<Rightarrow> addr \<Rightarrow> mpz_store \<Rightarrow> mpz_store option" where
  "mpz_mul_inpl dest lhs rhs \<sigma> =
     (if z_len (\<sigma> lhs) = 0 \<or> z_len (\<sigma> rhs) = 0 then mpz_set_from_int dest 0 \<sigma>
      else do { temp \<leftarrow> (if lhs = dest \<or> rhs = dest then mpz_clone (\<sigma> dest) else Some mpz_zero);
                let get = (\<lambda>p \<tau>. if p = dest then temp else \<tau> p)
                in do { \<sigma>1 \<leftarrow> mpz_need_dig dest (z_len (get lhs \<sigma>) + z_len (get rhs \<sigma>)) \<sigma>;
                        \<sigma>2 \<leftarrow> mpz_clear dest (length (z_dig (\<sigma>1 dest))) \<sigma>1;
                        \<sigma>3 \<leftarrow> mpz_put dest
                               (mpn_mul (z_dig (\<sigma>2 dest)) (digits (get lhs \<sigma>2)) (digits (get rhs \<sigma>2))) \<sigma>2;
                        Some (mpz_put_neg dest (z_neg (get lhs \<sigma>3) \<noteq> z_neg (get rhs \<sigma>3)) \<sigma>3) } })"

text \<open>
  \<^verbatim>\<open>mpz_divmod_inpl\<close>; \<^verbatim>\<open>mpzone\<close>, which holds \<open>-1\<close>, is the temporary \<open>Tmp 3\<close>.
\<close>

definition mpz_divmod_inpl ::
    "addr \<Rightarrow> addr \<Rightarrow> addr \<Rightarrow> addr \<Rightarrow> mpz_store \<Rightarrow> mpz_store option" where
  "mpz_divmod_inpl dest_quo dest_rem lhs rhs \<sigma> =
     (if mpz_is_zero (\<sigma> rhs) then None
      else do {
        \<sigma>1 \<leftarrow> mpz_need_dig dest_quo (z_len (\<sigma> lhs) + 1) \<sigma>;
        \<sigma>2 \<leftarrow> mpz_clear dest_quo (z_len (\<sigma>1 lhs) + 1) \<sigma>1;
        \<sigma>3 \<leftarrow> Some (\<sigma>2(dest_quo := (\<sigma>2 dest_quo)\<lparr>z_neg := False, z_len := 0\<rparr>));
        \<sigma>4 \<leftarrow> mpz_need_dig dest_rem (z_len (\<sigma>3 lhs) + 1) \<sigma>3;
        \<sigma>5 \<leftarrow> mpz_set dest_rem lhs \<sigma>4;
        (r, q) \<leftarrow> mpn_div (z_dig (\<sigma>5 dest_rem)) (z_len (\<sigma>5 dest_rem)) (digits (\<sigma>5 rhs))
                          (z_dig (\<sigma>5 dest_quo));
        \<sigma>6 \<leftarrow> mpz_put dest_rem r \<sigma>5;
        \<sigma>7 \<leftarrow> mpz_put dest_quo q \<sigma>6;
        \<sigma>8 \<leftarrow> Some (mpz_put_neg dest_rem (z_neg (\<sigma>7 dest_rem) \<and> z_len (\<sigma>7 dest_rem) \<noteq> 0) \<sigma>7);
        if z_neg (\<sigma>8 lhs) \<noteq> z_neg (\<sigma>8 rhs)
        then let \<sigma>9 = mpz_put_neg dest_quo (z_len (\<sigma>8 dest_quo) \<noteq> 0) \<sigma>8
             in if \<not> mpz_is_zero (\<sigma>9 dest_rem)
                then do { \<sigma>10 \<leftarrow> mpz_init_from_int (Tmp 3) (- 1) \<sigma>9;
                          \<sigma>11 \<leftarrow> mpz_add_inpl dest_quo dest_quo (Tmp 3) \<sigma>10;
                          mpz_add_inpl dest_rem dest_rem rhs \<sigma>11 }
                else Some \<sigma>9
        else Some \<sigma>8 })"

text \<open>
  \<^verbatim>\<open>mpz_pow_inpl\<close> and \<^verbatim>\<open>mpz_pow3_inpl\<close>: the clones \<open>x\<close> and \<open>n\<close> are \<open>Tmp 0\<close> and
  \<open>Tmp 1\<close>, \<^verbatim>\<open>quo\<close> is \<open>Tmp 2\<close>.
\<close>

definition mpz_halve :: "addr \<Rightarrow> mpz_store \<Rightarrow> mpz_store option" where
  "mpz_halve n \<sigma> = mpz_put n (mpn_shr (digits (\<sigma> n)) 1) \<sigma>"

definition mpz_dig_odd :: "mpz \<Rightarrow> bool" where
  "mpz_dig_odd z \<longleftrightarrow> z_dig z ! 0 AND 1 \<noteq> 0"

partial_function (option) mpz_pow_loop :: "addr \<Rightarrow> mpz_store \<Rightarrow> mpz_store option" where
  "mpz_pow_loop dest \<sigma> =
     (if z_len (\<sigma> (Tmp 1)) = 0 then Some \<sigma>
      else do { \<sigma>1 \<leftarrow> (if mpz_dig_odd (\<sigma> (Tmp 1)) then mpz_mul_inpl dest dest (Tmp 0) \<sigma> else Some \<sigma>);
                \<sigma>2 \<leftarrow> mpz_halve (Tmp 1) \<sigma>1;
                if z_len (\<sigma>2 (Tmp 1)) = 0 then Some \<sigma>2
                else do { \<sigma>3 \<leftarrow> mpz_mul_inpl (Tmp 0) (Tmp 0) (Tmp 0) \<sigma>2;
                          mpz_pow_loop dest \<sigma>3 } })"

declare mpz_pow_loop.simps [code]

definition mpz_pow_inpl :: "addr \<Rightarrow> addr \<Rightarrow> addr \<Rightarrow> mpz_store \<Rightarrow> mpz_store option" where
  "mpz_pow_inpl dest lhs rhs \<sigma> =
     (if z_len (\<sigma> lhs) = 0 \<or> z_neg (\<sigma> rhs) then mpz_set_from_int dest 0 \<sigma>
      else if z_len (\<sigma> rhs) = 0 then mpz_set_from_int dest 1 \<sigma>
      else do { x \<leftarrow> mpz_clone (\<sigma> lhs);
                n \<leftarrow> mpz_clone (\<sigma> rhs);
                \<sigma>1 \<leftarrow> mpz_set_from_int dest 1 (\<sigma>(Tmp 0 := x, Tmp 1 := n));
                mpz_pow_loop dest \<sigma>1 })"

partial_function (option) mpz_pow3_loop :: "addr \<Rightarrow> addr \<Rightarrow> mpz_store \<Rightarrow> mpz_store option" where
  "mpz_pow3_loop dest modulus \<sigma> =
     (if z_len (\<sigma> (Tmp 1)) = 0 then Some \<sigma>
      else do { \<sigma>1 \<leftarrow> (if mpz_dig_odd (\<sigma> (Tmp 1))
                      then do { \<tau> \<leftarrow> mpz_mul_inpl dest dest (Tmp 0) \<sigma>;
                                mpz_divmod_inpl (Tmp 2) dest dest modulus \<tau> }
                      else Some \<sigma>);
                \<sigma>2 \<leftarrow> mpz_halve (Tmp 1) \<sigma>1;
                if z_len (\<sigma>2 (Tmp 1)) = 0 then Some \<sigma>2
                else do { \<sigma>3 \<leftarrow> mpz_mul_inpl (Tmp 0) (Tmp 0) (Tmp 0) \<sigma>2;
                          \<sigma>4 \<leftarrow> mpz_divmod_inpl (Tmp 2) (Tmp 0) (Tmp 0) modulus \<sigma>3;
                          mpz_pow3_loop dest modulus \<sigma>4 } })"

declare mpz_pow3_loop.simps [code]

definition mpz_pow3_inpl :: "addr \<Rightarrow> addr \<Rightarrow> addr \<Rightarrow> addr \<Rightarrow> mpz_store \<Rightarrow> mpz_store option" where
  "mpz_pow3_inpl dest lhs rhs modulus \<sigma> =
     (if z_len (\<sigma> lhs) = 0 \<or> z_neg (\<sigma> rhs) \<or>
         (z_len (\<sigma> modulus) = 1 \<and> z_dig (\<sigma> modulus) ! 0 = 1)
      then mpz_set_from_int dest 0 \<sigma>
      else do { \<sigma>1 \<leftarrow> mpz_set_from_int dest 1 \<sigma>;
                if z_len (\<sigma>1 rhs) = 0 then Some \<sigma>1
                else do { x \<leftarrow> mpz_clone (\<sigma>1 lhs);
                          n \<leftarrow> mpz_clone (\<sigma>1 rhs);
                          mpz_pow3_loop dest modulus
                            (mpz_init_zero (Tmp 2) (\<sigma>1(Tmp 0 := x, Tmp 1 := n))) } })"

end
