(* ===== verification/Mpz_Correct.thy ===== *)
theory Mpz_Correct
  imports Mpz
begin

text \<open>
  The operations of theory Mpz compute the integer operation they are named after, for every
  aliasing of \<^verbatim>\<open>dest\<close> with the operands that the code allows, keep the invariant
  \<^const>\<open>mpz_ok\<close> and change no other object.
\<close>

section \<open>The effect of an operation\<close>

definition mpz_sets :: "addr \<Rightarrow> int \<Rightarrow> mpz_store \<Rightarrow> mpz_store \<Rightarrow> bool" where
  "mpz_sets d v \<sigma> \<sigma>' \<longleftrightarrow>
     mpz_ok (\<sigma>' d) \<and> mpz_val (\<sigma>' d) = v \<and> \<not> z_fixed (\<sigma>' d) \<and> (\<forall>a. a \<noteq> d \<longrightarrow> \<sigma>' a = \<sigma> a)"

text \<open>The effect of making room in a buffer.\<close>

definition mpz_room :: "addr \<Rightarrow> nat \<Rightarrow> mpz_store \<Rightarrow> mpz_store \<Rightarrow> bool" where
  "mpz_room d need \<sigma> \<sigma>1 \<longleftrightarrow>
     (\<forall>a. a \<noteq> d \<longrightarrow> \<sigma>1 a = \<sigma> a) \<and> (\<forall>a. z_len (\<sigma>1 a) = z_len (\<sigma> a) \<and> z_neg (\<sigma>1 a) = z_neg (\<sigma> a)) \<and>
     (\<forall>a. mpz_ok (\<sigma> a) \<longrightarrow> digits (\<sigma>1 a) = digits (\<sigma> a) \<and> mpz_ok (\<sigma>1 a)) \<and>
     z_fixed (\<sigma>1 d) = z_fixed (\<sigma> d) \<and> length (z_dig (\<sigma> d)) \<le> length (z_dig (\<sigma>1 d)) \<and>
     need \<le> length (z_dig (\<sigma>1 d)) \<and> 2 \<le> length (z_dig (\<sigma>1 d))"

named_theorems mpz_room

lemma mpz_roomD [mpz_room]:
  assumes "mpz_room d need \<sigma> \<sigma>1"
  shows "a \<noteq> d \<Longrightarrow> \<sigma>1 a = \<sigma> a" and "z_len (\<sigma>1 a) = z_len (\<sigma> a)" and "z_neg (\<sigma>1 a) = z_neg (\<sigma> a)"
    and "mpz_ok (\<sigma> a) \<Longrightarrow> digits (\<sigma>1 a) = digits (\<sigma> a)" and "mpz_ok (\<sigma> a) \<Longrightarrow> mpz_ok (\<sigma>1 a)"
    and "z_fixed (\<sigma>1 d) = z_fixed (\<sigma> d)"
  using assms by (auto simp: mpz_room_def)

lemma mpz_room_length:
  assumes "mpz_room d need \<sigma> \<sigma>1"
  shows "need \<le> length (z_dig (\<sigma>1 d))" and "2 \<le> length (z_dig (\<sigma>1 d))"
    and "length (z_dig (\<sigma> d)) \<le> length (z_dig (\<sigma>1 d))"
  using assms by (auto simp: mpz_room_def)

lemma mpz_okD:
  assumes "mpz_ok z"
  shows "normalised (digits z)" and "length (digits z) = z_len z" and "z_len z \<le> length (z_dig z)"
    and "z_neg z \<Longrightarrow> z_len z \<noteq> 0"
  using assms by (auto simp: mpz_ok_def digits_def)

lemma mpz_ok_pos:
  assumes "mpz_ok z" and "z_len z \<noteq> 0"
  shows "0 < mpn_val (digits z)"
proof -
  have "digits z \<noteq> []"
    using mpz_okD(2) [OF assms(1)] assms(2) by auto
  then show ?thesis
    using mpn_val_eq_0_iff [OF mpz_okD(1) [OF assms(1)]] by simp
qed

lemma mpz_ok_zero: "mpz_ok z \<Longrightarrow> z_len z = 0 \<longleftrightarrow> mpz_val z = 0"
  using mpz_ok_pos [of z] by (cases "z_len z = 0") (auto simp: mpz_val_def sval_def digits_def)

lemma mpz_ok_neg: "mpz_ok z \<Longrightarrow> z_neg z \<longleftrightarrow> mpz_val z < 0"
  using mpz_ok_pos [of z] by (auto simp: mpz_val_def sval_def dest: mpz_okD)

lemma mpz_need_dig_room:
  assumes "\<not> z_fixed (\<sigma> d) \<or> (need \<le> length (z_dig (\<sigma> d)) \<and> 2 \<le> length (z_dig (\<sigma> d)))"
  obtains \<sigma>1 where "mpz_need_dig d need \<sigma> = Some \<sigma>1" and "mpz_room d need \<sigma> \<sigma>1"
proof -
  define need' where "need' = (if need < MIN_ALLOC then MIN_ALLOC else need)"
  have n: "need \<le> need'" "2 \<le> need'" "need' \<le> need \<or> need' \<le> 2"
    by (auto simp: need'_def MIN_ALLOC_def)
  show ?thesis
  proof (cases "length (z_dig (\<sigma> d)) < need'")
    case True
    define \<sigma>1 where
      "\<sigma>1 = \<sigma>(d := (\<sigma> d)\<lparr>z_dig := z_dig (\<sigma> d) @ replicate (need' - length (z_dig (\<sigma> d))) 0\<rparr>)"
    have "mpz_need_dig d need \<sigma> = Some \<sigma>1"
      using True assms n by (auto simp: mpz_need_dig_def Let_def \<sigma>1_def simp flip: need'_def)
    moreover have "mpz_room d need \<sigma> \<sigma>1"
      using True n by (auto simp: mpz_room_def \<sigma>1_def mpz_ok_def digits_def)
    ultimately show ?thesis
      by (rule that)
  next
    case False
    then have "mpz_need_dig d need \<sigma> = Some \<sigma>"
      by (simp add: mpz_need_dig_def Let_def flip: need'_def)
    moreover have "mpz_room d need \<sigma> \<sigma>"
      using False n by (auto simp: mpz_room_def)
    ultimately show ?thesis
      by (rule that)
  qed
qed

lemma mpz_put_some:
  assumes "length ws \<le> length (z_dig (\<sigma> d))"
  shows "mpz_put d (ws, m) \<sigma> = Some (\<sigma>(d := (\<sigma> d)\<lparr>z_len := m, z_dig := ws @ drop (length ws) (z_dig (\<sigma> d))\<rparr>))"
  using assms by (simp add: mpz_put_def)

lemma mpz_put_neg_simps [simp]:
  "mpz_put_neg d b \<sigma> d = (\<sigma> d)\<lparr>z_neg := b\<rparr>" "a \<noteq> d \<Longrightarrow> mpz_put_neg d b \<sigma> a = \<sigma> a"
  "z_len (mpz_put_neg d b \<sigma> a) = z_len (\<sigma> a)" "z_dig (mpz_put_neg d b \<sigma> a) = z_dig (\<sigma> a)"
  "digits (mpz_put_neg d b \<sigma> a) = digits (\<sigma> a)" "z_fixed (mpz_put_neg d b \<sigma> a) = z_fixed (\<sigma> a)"
  by (auto simp: mpz_put_neg_def digits_def)

text \<open>
  A magnitude \<open>u\<close> has been stored in \<open>d\<close>; with the sign that the code stores next the
  object has its final value.
\<close>

definition mpz_mag :: "addr \<Rightarrow> int \<Rightarrow> mpz_store \<Rightarrow> mpz_store \<Rightarrow> bool" where
  "mpz_mag d u \<sigma> \<sigma>2 \<longleftrightarrow>
     (\<forall>a. z_neg (\<sigma>2 a) = z_neg (\<sigma> a)) \<and> (z_len (\<sigma>2 d) = 0 \<longleftrightarrow> u = 0) \<and>
     (\<forall>b. (b \<longrightarrow> u \<noteq> 0) \<longrightarrow> mpz_sets d (if b then - u else u) \<sigma> (mpz_put_neg d b \<sigma>2))"

lemma mpz_mag_neg: "mpz_mag d u \<sigma> \<sigma>2 \<Longrightarrow> z_neg (\<sigma>2 a) = z_neg (\<sigma> a)"
  and mpz_mag_len: "mpz_mag d u \<sigma> \<sigma>2 \<Longrightarrow> z_len (\<sigma>2 d) = 0 \<longleftrightarrow> u = 0"
  by (auto simp: mpz_mag_def)

lemma mpz_mag_sets:
  assumes "mpz_mag d u \<sigma> \<sigma>2" and "b \<Longrightarrow> u \<noteq> 0" and "v = (if b then - u else u)"
  shows "mpz_sets d v \<sigma> (mpz_put_neg d b \<sigma>2)"
  using assms unfolding mpz_mag_def by blast

text \<open>Storing a normalised result after making room for it.\<close>

lemma mpz_store_result:
  assumes "mpz_room d need \<sigma> \<sigma>1" and "\<not> z_fixed (\<sigma> d)"
    and "length ws \<le> need \<or> length ws \<le> 2" and "m \<le> length ws" and "normalised (take m ws)"
  obtains \<sigma>2 where "mpz_put d (ws, m) \<sigma>1 = Some \<sigma>2" and "mpz_mag d (int (mpn_val (take m ws))) \<sigma> \<sigma>2"
    and "digits (\<sigma>2 d) = take m ws" and "z_len (\<sigma>2 d) = m"
proof -
  define \<sigma>2 where
    "\<sigma>2 = \<sigma>1(d := (\<sigma>1 d)\<lparr>z_len := m, z_dig := ws @ drop (length ws) (z_dig (\<sigma>1 d))\<rparr>)"
  have "length ws \<le> length (z_dig (\<sigma>1 d))"
    using mpz_room_length [OF assms(1)] assms(3) by auto
  then have put: "mpz_put d (ws, m) \<sigma>1 = Some \<sigma>2"
    unfolding \<sigma>2_def by (rule mpz_put_some)
  have "m = 0 \<longleftrightarrow> mpn_val (take m ws) = 0"
    using assms(4) mpn_val_eq_0_iff [OF assms(5)] by auto
  then have "mpz_mag d (int (mpn_val (take m ws))) \<sigma> \<sigma>2"
    using assms(2,4,5)
    by (auto simp: mpz_mag_def \<sigma>2_def mpz_room [OF assms(1)] mpz_sets_def mpz_ok_def digits_def
        mpz_val_def sval_def)
  with put show ?thesis
    by (rule that) (use assms(4) in \<open>auto simp: \<sigma>2_def digits_def\<close>)
qed

lemma mpz_setsD:
  assumes "mpz_sets d v \<sigma> \<sigma>'"
  shows "mpz_ok (\<sigma>' d)" and "mpz_val (\<sigma>' d) = v" and "\<not> z_fixed (\<sigma>' d)" and "a \<noteq> d \<Longrightarrow> \<sigma>' a = \<sigma> a"
  using assms by (auto simp: mpz_sets_def)

lemma sval_sgn: "(b \<longrightarrow> 0 < mpn_val ds) \<Longrightarrow> b \<longleftrightarrow> sval b ds < 0"
  by (auto simp: sval_def)

section \<open>Copies, signs and comparison\<close>

lemma mpz_set_ok:
  assumes "mpz_ok (\<sigma> s)" and "\<not> z_fixed (\<sigma> d)"
  obtains \<sigma>' where "mpz_set d s \<sigma> = Some \<sigma>'" and "mpz_sets d (mpz_val (\<sigma> s)) \<sigma> \<sigma>'"
    and "z_neg (\<sigma>' d) = z_neg (\<sigma> s)" and "z_len (\<sigma>' d) = z_len (\<sigma> s)" and "digits (\<sigma>' d) = digits (\<sigma> s)"
    and "z_dig (\<sigma>' d) \<noteq> []"
    and "length (z_dig (\<sigma> d)) \<le> length (z_dig (\<sigma>' d))"
proof -
  obtain \<sigma>1 where need: "mpz_need_dig d (z_len (\<sigma> s)) \<sigma> = Some \<sigma>1" and room: "mpz_room d (z_len (\<sigma> s)) \<sigma> \<sigma>1"
    using assms(2) mpz_need_dig_room [of \<sigma> d "z_len (\<sigma> s)"] by blast
  note ok = mpz_okD [OF assms(1)] and len = mpz_room_length [OF room]
  have "length (digits (\<sigma> s)) \<le> length (z_dig (mpz_put_neg d (z_neg (\<sigma> s)) \<sigma>1 d))"
    using len ok(2) by simp
  note put = mpz_put_some [where \<sigma> = "mpz_put_neg d (z_neg (\<sigma> s)) \<sigma>1" and d = d and ws = "digits (\<sigma> s)"
      and m = "z_len (\<sigma> s)", OF this]
  show ?thesis
  proof (rule that)
    show "mpz_set d s \<sigma> = Some ((mpz_put_neg d (z_neg (\<sigma> s)) \<sigma>1)(d := (mpz_put_neg d (z_neg (\<sigma> s)) \<sigma>1 d)
       \<lparr>z_len := z_len (\<sigma> s), z_dig := digits (\<sigma> s) @ drop (length (digits (\<sigma> s))) (z_dig (mpz_put_neg d (z_neg (\<sigma> s)) \<sigma>1 d))\<rparr>))"
      using need put mpz_room [OF room] assms(1) by (simp add: mpz_set_def)
  qed (use assms ok len in \<open>auto simp: mpz_sets_def mpz_ok_def mpz_val_def digits_def mpz_room [OF room]\<close>)
qed

lemma mpz_sets_refl: "mpz_ok (\<sigma> d) \<Longrightarrow> \<not> z_fixed (\<sigma> d) \<Longrightarrow> mpz_sets d (mpz_val (\<sigma> d)) \<sigma> \<sigma>"
  by (simp add: mpz_sets_def)

text \<open>The prefix \<^verbatim>\<open>if (dest != z) { mpz_set(dest, z); }\<close>.\<close>

lemma mpz_copy_ok:
  assumes "mpz_ok (\<sigma> s)" and "\<not> z_fixed (\<sigma> d)"
  obtains \<sigma>' where "(if d \<noteq> s then mpz_set d s \<sigma> else Some \<sigma>) = Some \<sigma>'"
    and "mpz_sets d (mpz_val (\<sigma> s)) \<sigma> \<sigma>'"
proof (cases "d = s")
  case True
  then show ?thesis
    using assms that [of \<sigma>] mpz_sets_refl [of \<sigma> d] by simp
next
  case False
  then show ?thesis
    using mpz_set_ok [OF assms] that by auto
qed

lemma mpz_abs_inpl_ok:
  assumes "mpz_ok (\<sigma> z)" and "\<not> z_fixed (\<sigma> d)"
  obtains \<sigma>' where "mpz_abs_inpl d z \<sigma> = Some \<sigma>'" and "mpz_sets d \<bar>mpz_val (\<sigma> z)\<bar> \<sigma> \<sigma>'"
proof -
  obtain \<sigma>1 where "(if d \<noteq> z then mpz_set d z \<sigma> else Some \<sigma>) = Some \<sigma>1"
    and 1: "mpz_sets d (mpz_val (\<sigma> z)) \<sigma> \<sigma>1"
    using mpz_copy_ok [OF assms] .
  then have "mpz_abs_inpl d z \<sigma> = Some (mpz_put_neg d False \<sigma>1)"
    by (simp add: mpz_abs_inpl_def)
  moreover have "mpz_val (mpz_put_neg d False \<sigma>1 d) = \<bar>mpz_val (\<sigma>1 d)\<bar>"
    by (simp add: mpz_val_def sval_def digits_def)
  then have "mpz_sets d \<bar>mpz_val (\<sigma> z)\<bar> \<sigma> (mpz_put_neg d False \<sigma>1)"
    using 1 by (auto simp: mpz_sets_def mpz_ok_def digits_def)
  ultimately show ?thesis
    by (rule that)
qed

lemma mpz_neg_inpl_ok:
  assumes "mpz_ok (\<sigma> z)" and "\<not> z_fixed (\<sigma> d)"
  obtains \<sigma>' where "mpz_neg_inpl d z \<sigma> = Some \<sigma>'" and "mpz_sets d (- mpz_val (\<sigma> z)) \<sigma> \<sigma>'"
proof -
  obtain \<sigma>1 where 0: "(if d \<noteq> z then mpz_set d z \<sigma> else Some \<sigma>) = Some \<sigma>1"
    and 1: "mpz_sets d (mpz_val (\<sigma> z)) \<sigma> \<sigma>1"
    using mpz_copy_ok [OF assms] .
  let ?\<sigma>' = "if z_len (\<sigma>1 d) \<noteq> 0 then mpz_put_neg d (\<not> z_neg (\<sigma>1 d)) \<sigma>1 else \<sigma>1"
  have "mpz_neg_inpl d z \<sigma> = Some ?\<sigma>'"
    using 0 by (simp add: mpz_neg_inpl_def)
  moreover have "mpz_val (?\<sigma>' d) = - mpz_val (\<sigma>1 d)"
    by (auto simp: mpz_val_def sval_def digits_def)
  then have "mpz_sets d (- mpz_val (\<sigma> z)) \<sigma> ?\<sigma>'"
    using 1 by (auto simp: mpz_sets_def mpz_ok_def digits_def)
  ultimately show ?thesis
    by (rule that)
qed

lemma mpn_cmp_sgn:
  assumes "mpz_ok x" and "mpz_ok y"
  shows "mpn_cmp (digits x) (digits y) = sgn (\<bar>mpz_val x\<bar> - \<bar>mpz_val y\<bar>)"
  using mpn_cmp_correct [of "digits x" "digits y"] mpz_okD(1) assms
  by (simp add: mpz_val_def sval_def)

lemma mpz_cmp_ok:
  assumes "mpz_ok x" and "mpz_ok y"
  shows "mpz_cmp x y = sgn (mpz_val x - mpz_val y)"
  using mpn_cmp_sgn [OF assms] mpz_ok_neg [OF assms(1)] mpz_ok_neg [OF assms(2)]
  by (auto simp: mpz_cmp_def Let_def sgn_if)

section \<open>Addition and subtraction\<close>

lemma mpz_abs_val: "\<bar>mpz_val z\<bar> = int (mpn_val (digits z))"
  by (simp add: mpz_val_def sval_def)

lemma mpn_val_len:
  assumes "mpz_ok x" and "mpz_ok y" and "mpn_val (digits y) \<le> mpn_val (digits x)"
  shows "length (digits y) \<le> length (digits x)"
  using normalised_val_less [OF mpz_okD(1) [OF assms(2)], of "digits x"] assms(3) by linarith

text \<open>The common middle part of \<^verbatim>\<open>mpz_add_inpl\<close> and \<^verbatim>\<open>mpz_sub_inpl\<close>.\<close>

lemma mpz_add_part:
  assumes "mpz_ok (\<sigma> l)" and "mpz_ok (\<sigma> r)" and "\<not> z_fixed (\<sigma> d)"
    and "mpn_val (digits (\<sigma> r)) \<le> mpn_val (digits (\<sigma> l))"
  obtains \<sigma>2 where "do { \<sigma>1 \<leftarrow> mpz_need_dig d (z_len (\<sigma> l) + 1) \<sigma>;
      mpz_put d (mpn_add (digits (\<sigma>1 l)) (digits (\<sigma>1 r))) \<sigma>1 } = Some \<sigma>2"
    and "mpz_mag d (\<bar>mpz_val (\<sigma> l)\<bar> + \<bar>mpz_val (\<sigma> r)\<bar>) \<sigma> \<sigma>2"
proof -
  obtain \<sigma>1 where need: "mpz_need_dig d (z_len (\<sigma> l) + 1) \<sigma> = Some \<sigma>1"
    and room: "mpz_room d (z_len (\<sigma> l) + 1) \<sigma> \<sigma>1"
    using assms(3) mpz_need_dig_room [of \<sigma> d "z_len (\<sigma> l) + 1"] by blast
  obtain ws m where add: "mpn_add (digits (\<sigma> l)) (digits (\<sigma> r)) = (ws, m)"
    by fastforce
  note ok = mpz_okD [OF assms(1)]
  note c = mpn_add_correct [OF ok(1) mpn_val_len [OF assms(1,2,4)] add]
  have len: "length ws \<le> z_len (\<sigma> l) + 1"
    using c(1,4) ok(2) by simp
  obtain \<sigma>2 where put: "mpz_put d (ws, m) \<sigma>1 = Some \<sigma>2" and "mpz_mag d (int (mpn_val (take m ws))) \<sigma> \<sigma>2"
    using mpz_store_result [OF room assms(3), of ws m] len c(1,3) by auto
  with need add assms(1,2) c(1,2) show ?thesis
    by (intro that [of \<sigma>2]) (simp_all add: mpz_room [OF room] mpz_abs_val)
qed

lemma mpz_sub_part:
  assumes "mpz_ok (\<sigma> l)" and "mpz_ok (\<sigma> r)" and "\<not> z_fixed (\<sigma> d)"
    and "mpn_val (digits (\<sigma> r)) \<le> mpn_val (digits (\<sigma> l))"
  obtains \<sigma>2 where "do { \<sigma>1 \<leftarrow> mpz_need_dig d (z_len (\<sigma> l)) \<sigma>;
      mpz_put d (mpn_sub (digits (\<sigma>1 l)) (digits (\<sigma>1 r))) \<sigma>1 } = Some \<sigma>2"
    and "mpz_mag d (\<bar>mpz_val (\<sigma> l)\<bar> - \<bar>mpz_val (\<sigma> r)\<bar>) \<sigma> \<sigma>2"
proof -
  obtain \<sigma>1 where need: "mpz_need_dig d (z_len (\<sigma> l)) \<sigma> = Some \<sigma>1"
    and room: "mpz_room d (z_len (\<sigma> l)) \<sigma> \<sigma>1"
    using assms(3) mpz_need_dig_room [of \<sigma> d "z_len (\<sigma> l)"] by blast
  obtain ws m where sub: "mpn_sub (digits (\<sigma> l)) (digits (\<sigma> r)) = (ws, m)"
    by fastforce
  note ok = mpz_okD [OF assms(1)]
  note c = mpn_sub_correct [OF mpn_val_len [OF assms(1,2,4)] assms(4) sub]
  have len: "length ws \<le> z_len (\<sigma> l)" "m \<le> length ws"
    using c(1,2) ok(2) by simp_all
  obtain \<sigma>2 where put: "mpz_put d (ws, m) \<sigma>1 = Some \<sigma>2" and "mpz_mag d (int (mpn_val (take m ws))) \<sigma> \<sigma>2"
    using mpz_store_result [OF room assms(3), of ws m] len c(3) by auto
  with need sub assms(1,2,4) c(4) show ?thesis
    by (intro that [of \<sigma>2]) (simp_all add: mpz_room [OF room] mpz_abs_val of_nat_diff)
qed

lemma mpz_signed_part:
  assumes "mpz_ok (\<sigma> l)" and "mpz_ok (\<sigma> r)" and "\<not> z_fixed (\<sigma> d)"
    and "mpn_val (digits (\<sigma> r)) \<le> mpn_val (digits (\<sigma> l))"
  obtains \<sigma>2 where "(if s
     then do { \<sigma>1 \<leftarrow> mpz_need_dig d (z_len (\<sigma> l) + 1) \<sigma>;
               mpz_put d (mpn_add (digits (\<sigma>1 l)) (digits (\<sigma>1 r))) \<sigma>1 }
     else do { \<sigma>1 \<leftarrow> mpz_need_dig d (z_len (\<sigma> l)) \<sigma>;
               mpz_put d (mpn_sub (digits (\<sigma>1 l)) (digits (\<sigma>1 r))) \<sigma>1 }) = Some \<sigma>2"
    and "mpz_mag d (if s then \<bar>mpz_val (\<sigma> l)\<bar> + \<bar>mpz_val (\<sigma> r)\<bar>
                    else \<bar>mpz_val (\<sigma> l)\<bar> - \<bar>mpz_val (\<sigma> r)\<bar>) \<sigma> \<sigma>2"
proof (cases s)
  case True
  show ?thesis
    by (rule mpz_add_part [OF assms]) (use True in \<open>auto intro: that\<close>)
next
  case False
  show ?thesis
    by (rule mpz_sub_part [OF assms]) (use False in \<open>auto intro: that\<close>)
qed

lemma mpz_add_inpl_ok:
  assumes "mpz_ok (\<sigma> l)" and "mpz_ok (\<sigma> r)" and "\<not> z_fixed (\<sigma> d)"
  obtains \<sigma>' where "mpz_add_inpl d l r \<sigma> = Some \<sigma>'"
    and "mpz_sets d (mpz_val (\<sigma> l) + mpz_val (\<sigma> r)) \<sigma> \<sigma>'"
proof -
  define swap where "swap \<longleftrightarrow> mpn_cmp (digits (\<sigma> l)) (digits (\<sigma> r)) < 0"
  define L where "L = (if swap then r else l)"
  define R where "R = (if swap then l else r)"
  have LR: "(if swap then (r, l) else (l, r)) = (L, R)"
    by (simp add: L_def R_def)
  have ok: "mpz_ok (\<sigma> L)" "mpz_ok (\<sigma> R)"
    using assms(1,2) by (simp_all add: L_def R_def)
  have le: "mpn_val (digits (\<sigma> R)) \<le> mpn_val (digits (\<sigma> L))"
    using mpn_cmp_sgn [OF assms(1,2)] by (auto simp: L_def R_def swap_def mpz_abs_val)
  then have abs_le: "\<bar>mpz_val (\<sigma> R)\<bar> \<le> \<bar>mpz_val (\<sigma> L)\<bar>"
    by (simp add: mpz_abs_val)
  have sum: "mpz_val (\<sigma> l) + mpz_val (\<sigma> r) = mpz_val (\<sigma> L) + mpz_val (\<sigma> R)"
    by (simp add: L_def R_def)
  define mid where "mid = (if z_neg (\<sigma> L) = z_neg (\<sigma> R)
     then do { \<sigma>1 \<leftarrow> mpz_need_dig d (z_len (\<sigma> L) + 1) \<sigma>;
               mpz_put d (mpn_add (digits (\<sigma>1 L)) (digits (\<sigma>1 R))) \<sigma>1 }
     else do { \<sigma>1 \<leftarrow> mpz_need_dig d (z_len (\<sigma> L)) \<sigma>;
               mpz_put d (mpn_sub (digits (\<sigma>1 L)) (digits (\<sigma>1 R))) \<sigma>1 })"
  define u where "u = (if z_neg (\<sigma> L) = z_neg (\<sigma> R) then \<bar>mpz_val (\<sigma> L)\<bar> + \<bar>mpz_val (\<sigma> R)\<bar>
                 else \<bar>mpz_val (\<sigma> L)\<bar> - \<bar>mpz_val (\<sigma> R)\<bar>)"
  obtain \<sigma>2 where mid: "mid = Some \<sigma>2" and mag: "mpz_mag d u \<sigma> \<sigma>2"
    unfolding mid_def u_def by (rule mpz_signed_part [OF ok assms(3) le])
  have "mpz_add_inpl d l r \<sigma> = Some (mpz_put_neg d (z_neg (\<sigma>2 L) \<and> z_len (\<sigma>2 d) \<noteq> 0) \<sigma>2)"
    unfolding mpz_add_inpl_def Let_def swap_def [symmetric] LR prod.case mid_def [symmetric] mid
    by simp
  moreover have "mpz_sets d (mpz_val (\<sigma> l) + mpz_val (\<sigma> r)) \<sigma>
      (mpz_put_neg d (z_neg (\<sigma>2 L) \<and> z_len (\<sigma>2 d) \<noteq> 0) \<sigma>2)"
    using abs_le mpz_ok_neg [OF ok(1)] mpz_ok_neg [OF ok(2)]
    by (intro mpz_mag_sets [OF mag])
      (auto simp: sum u_def mpz_mag_len [OF mag] mpz_mag_neg [OF mag] split: if_splits)
  ultimately show ?thesis
    by (rule that)
qed

lemma mpz_sub_inpl_ok:
  assumes "mpz_ok (\<sigma> l)" and "mpz_ok (\<sigma> r)" and "\<not> z_fixed (\<sigma> d)"
  obtains \<sigma>' where "mpz_sub_inpl d l r \<sigma> = Some \<sigma>'"
    and "mpz_sets d (mpz_val (\<sigma> l) - mpz_val (\<sigma> r)) \<sigma> \<sigma>'"
proof -
  define swap where "swap \<longleftrightarrow> mpn_cmp (digits (\<sigma> l)) (digits (\<sigma> r)) < 0"
  define L where "L = (if swap then r else l)"
  define R where "R = (if swap then l else r)"
  have LR: "(if swap then (r, l) else (l, r)) = (L, R)"
    by (simp add: L_def R_def)
  have ok: "mpz_ok (\<sigma> L)" "mpz_ok (\<sigma> R)"
    using assms(1,2) by (simp_all add: L_def R_def)
  have le: "mpn_val (digits (\<sigma> R)) \<le> mpn_val (digits (\<sigma> L))"
    using mpn_cmp_sgn [OF assms(1,2)] by (auto simp: L_def R_def swap_def mpz_abs_val)
  then have abs_le: "\<bar>mpz_val (\<sigma> R)\<bar> \<le> \<bar>mpz_val (\<sigma> L)\<bar>"
    by (simp add: mpz_abs_val)
  have diff: "mpz_val (\<sigma> l) - mpz_val (\<sigma> r) =
      (if swap then mpz_val (\<sigma> R) - mpz_val (\<sigma> L) else mpz_val (\<sigma> L) - mpz_val (\<sigma> R))"
    by (simp add: L_def R_def)
  define mid where "mid = (if z_neg (\<sigma> L) \<noteq> z_neg (\<sigma> R)
     then do { \<sigma>1 \<leftarrow> mpz_need_dig d (z_len (\<sigma> L) + 1) \<sigma>;
               mpz_put d (mpn_add (digits (\<sigma>1 L)) (digits (\<sigma>1 R))) \<sigma>1 }
     else do { \<sigma>1 \<leftarrow> mpz_need_dig d (z_len (\<sigma> L)) \<sigma>;
               mpz_put d (mpn_sub (digits (\<sigma>1 L)) (digits (\<sigma>1 R))) \<sigma>1 })"
  define u where "u = (if z_neg (\<sigma> L) \<noteq> z_neg (\<sigma> R) then \<bar>mpz_val (\<sigma> L)\<bar> + \<bar>mpz_val (\<sigma> R)\<bar>
                 else \<bar>mpz_val (\<sigma> L)\<bar> - \<bar>mpz_val (\<sigma> R)\<bar>)"
  obtain \<sigma>2 where mid: "mid = Some \<sigma>2" and mag: "mpz_mag d u \<sigma> \<sigma>2"
    unfolding mid_def u_def by (rule mpz_signed_part [OF ok assms(3) le])
  define neg where "neg = (if z_len (\<sigma>2 d) = 0 then False else if swap then \<not> z_neg (\<sigma>2 L) else z_neg (\<sigma>2 L))"
  have "mpz_sub_inpl d l r \<sigma> = Some (mpz_put_neg d neg \<sigma>2)"
    unfolding mpz_sub_inpl_def Let_def swap_def [symmetric] LR prod.case mid_def [symmetric] mid
    by (simp add: neg_def)
  moreover have "mpz_sets d (mpz_val (\<sigma> l) - mpz_val (\<sigma> r)) \<sigma> (mpz_put_neg d neg \<sigma>2)"
    using abs_le mpz_ok_neg [OF ok(1)] mpz_ok_neg [OF ok(2)]
    by (intro mpz_mag_sets [OF mag])
      (auto simp: diff u_def neg_def mpz_mag_len [OF mag] mpz_mag_neg [OF mag] split: if_splits)
  ultimately show ?thesis
    by (rule that)
qed

section \<open>Machine integers\<close>

lemma uval_digs_val: "mpn_val (uval_digs u) = unat u" "normalised (uval_digs u)"
  "length (uval_digs u) \<le> (LENGTH('a) + 15) div 16" for u :: "'a::len word"
proof -
  have "mpn_val (uval_digs u) = unat u \<and> normalised (uval_digs u) \<and>
      (\<forall>k. unat u < 65536 ^ k \<longrightarrow> length (uval_digs u) \<le> k)"
  proof (induction u rule: uval_digs.induct)
    case (1 u)
    show ?case
    proof (cases "u = 0")
      case False
      have hi: "unat (drop_bit DIG_SIZE u) = unat u div 65536"
        by (simp add: DIG_SIZE_def unat_drop_bit_nat)
      have lo: "unat (ucast (u AND mask DIG_SIZE) :: dig) = unat u mod 65536"
        using unat_and_mask [of u 16] by (simp add: DIG_SIZE_def unsigned_ucast_eq take_bit_eq_mod)
      have IH: "mpn_val (uval_digs (drop_bit DIG_SIZE u)) = unat u div 65536"
        "normalised (uval_digs (drop_bit DIG_SIZE u))"
        "\<And>k. unat u div 65536 < 65536 ^ k \<Longrightarrow> length (uval_digs (drop_bit DIG_SIZE u)) \<le> k"
        using 1 [OF False] unfolding hi by auto
      have "uval_digs (drop_bit DIG_SIZE u) = [] \<Longrightarrow> unat u mod 65536 \<noteq> 0"
        using IH(1) False by (metis mod_div_mult_eq mpn_val.simps(1) mult_eq_0_iff add_0 unat_eq_zero)
      then have "normalised (uval_digs u)"
        using IH(2) False lo by (subst uval_digs.simps) (auto simp: normalised_def)
      moreover have "length (uval_digs u) \<le> k" if "unat u < 65536 ^ k" for k
      proof (cases k)
        case 0
        with that False show ?thesis
          using unat_gt_0 [of u] by simp
      next
        case (Suc j)
        with that have "unat u div 65536 < 65536 ^ j"
          by (simp add: div_less_iff_less_mult mult.commute)
        then show ?thesis
          using IH(3) [of j] Suc False by (subst uval_digs.simps) simp
      qed
      ultimately show ?thesis
        using IH(1) lo False by (subst uval_digs.simps) auto
    qed (simp add: uval_digs.simps normalised_def)
  qed
  moreover have "unat u < 65536 ^ ((LENGTH('a) + 15) div 16)"
  proof -
    have "unat u < 2 ^ LENGTH('a)"
      by (rule unsigned_less)
    also have "\<dots> \<le> 2 ^ (16 * ((LENGTH('a) + 15) div 16))"
      by (intro power_increasing) auto
    finally show ?thesis
      by (simp add: power_mult)
  qed
  ultimately show "mpn_val (uval_digs u) = unat u" "normalised (uval_digs u)"
    "length (uval_digs u) \<le> (LENGTH('a) + 15) div 16"
    by auto
qed

lemma mpz_put_uval_ok:
  fixes u :: "'a::len word"
  assumes "mpz_room d ((LENGTH('a) + 15) div 16) \<sigma> \<sigma>1" and "\<not> z_fixed (\<sigma> d)" and "b \<Longrightarrow> 0 < unat u"
  obtains \<sigma>2 where "mpz_put_uval d u (mpz_put_neg d b \<sigma>1) = Some \<sigma>2"
    and "mpz_sets d (if b then - int (unat u) else int (unat u)) \<sigma> \<sigma>2"
proof -
  note u = uval_digs_val [of u]
  have "length (uval_digs u) \<le> length (z_dig (\<sigma>1 d))"
    using u(3) mpz_room_length [OF assms(1)] by linarith
  then have "length (uval_digs u) \<le> length (z_dig (mpz_put_neg d b \<sigma>1 d))"
    by simp
  note put = mpz_put_some [where \<sigma> = "mpz_put_neg d b \<sigma>1" and m = "length (uval_digs u)", OF this]
  show ?thesis
  proof (rule that)
    show "mpz_put_uval d u (mpz_put_neg d b \<sigma>1) = Some ((mpz_put_neg d b \<sigma>1)(d := (mpz_put_neg d b \<sigma>1 d)
        \<lparr>z_len := length (uval_digs u),
         z_dig := uval_digs u @ drop (length (uval_digs u)) (z_dig (mpz_put_neg d b \<sigma>1 d))\<rparr>))"
      unfolding mpz_put_uval_def by (rule put)
    have "b \<Longrightarrow> uval_digs u \<noteq> []"
      using assms(3) u(1) by auto
    then show "mpz_sets d (if b then - int (unat u) else int (unat u)) \<sigma> ((mpz_put_neg d b \<sigma>1)(d := (mpz_put_neg d b \<sigma>1 d)
        \<lparr>z_len := length (uval_digs u),
         z_dig := uval_digs u @ drop (length (uval_digs u)) (z_dig (mpz_put_neg d b \<sigma>1 d))\<rparr>))"
      using u(1,2) assms(2) mpz_room [OF assms(1)]
      by (auto simp: mpz_sets_def mpz_ok_def mpz_val_def sval_def digits_def)
  qed
qed

lemma uint_sint_mod: "uint w = sint w mod 2 ^ LENGTH('a)" for w :: "'a::len word"
proof -
  have "take_bit LENGTH('a) (sint w) = uint w"
    unfolding sint_uint by (simp add: take_bit_signed_take_bit take_bit_int_eq_self)
  then show ?thesis
    by (simp add: take_bit_eq_mod)
qed

lemma unat_uminus_sint:
  fixes w :: "'a::len word"
  assumes "sint w < 0"
  shows "int (unat (- w)) = - sint w"
proof -
  have "(2 :: int) ^ (LENGTH('a) - 1) < 2 ^ LENGTH('a)"
    by (intro power_strict_increasing) auto
  then have lt: "- sint w < 2 ^ LENGTH('a)"
    using sint_ge [of w] by linarith
  have "uint (- w) = (- uint w) mod 2 ^ LENGTH('a)"
    by (simp add: uint_word_ariths)
  also have "\<dots> = (- sint w) mod 2 ^ LENGTH('a)"
    by (simp only: uint_sint_mod mod_minus_eq)
  also have "\<dots> = - sint w"
    using assms lt by (intro mod_pos_pos_trivial) auto
  finally show ?thesis
    by (simp only: uint_nat)
qed

lemma unat_nonneg_sint:
  fixes w :: "'a::len word"
  assumes "0 \<le> sint w"
  shows "int (unat w) = sint w"
proof -
  have "(2 :: int) ^ (LENGTH('a) - 1) < 2 ^ LENGTH('a)"
    by (intro power_strict_increasing) auto
  then have "sint w < 2 ^ LENGTH('a)"
    using sint_lt [of w] by linarith
  then have "uint w = sint w"
    using assms by (simp add: uint_sint_mod)
  then show ?thesis
    by (simp only: uint_nat)
qed

lemma mpz_set_from_int_ok:
  assumes "\<not> z_fixed (\<sigma> d)"
  obtains \<sigma>' where "mpz_set_from_int d w \<sigma> = Some \<sigma>'" and "mpz_sets d (sint w) \<sigma> \<sigma>'"
proof (cases "w = 0")
  case True
  then show ?thesis
    using assms that
    by (auto simp: mpz_set_from_int_def mpz_sets_def mpz_ok_def mpz_val_def sval_def digits_def normalised_def)
next
  case False
  define u where "u = (if sint w < 0 then - w else w)"
  obtain \<sigma>1 where need: "mpz_need_dig d 2 \<sigma> = Some \<sigma>1" and room: "mpz_room d 2 \<sigma> \<sigma>1"
    using assms mpz_need_dig_room [of \<sigma> d 2] by blast
  have u: "(if sint w < 0 then - int (unat u) else int (unat u)) = sint w"
    by (simp add: u_def unat_uminus_sint unat_nonneg_sint)
  then have pos: "0 < unat u" if "sint w < 0"
    using that by (auto split: if_splits)
  have room': "mpz_room d ((LENGTH(32) + 15) div 16) \<sigma> \<sigma>1"
    using room by simp
  show ?thesis
  proof (rule mpz_put_uval_ok [OF room' assms pos])
    fix \<sigma>2
    assume "mpz_put_uval d u (mpz_put_neg d (sint w < 0) \<sigma>1) = Some \<sigma>2"
      and s: "mpz_sets d (if sint w < 0 then - int (unat u) else int (unat u)) \<sigma> \<sigma>2"
    then have "mpz_set_from_int d w \<sigma> = Some \<sigma>2"
      using False need by (simp add: mpz_set_from_int_def u_def)
    then show ?thesis
      using s unfolding u by (rule that)
  qed
qed

lemma mpz_set_from_ll_ok:
  assumes "\<not> z_fixed (\<sigma> d)"
  obtains \<sigma>' where "mpz_set_from_ll d w s \<sigma> = Some \<sigma>'"
    and "mpz_sets d (if s then sint w else int (unat w)) \<sigma> \<sigma>'"
proof -
  define b where "b \<longleftrightarrow> s \<and> sint w < 0"
  define u where "u = (if b then - w else w)"
  obtain \<sigma>1 where need: "mpz_need_dig d 4 \<sigma> = Some \<sigma>1" and room: "mpz_room d 4 \<sigma> \<sigma>1"
    using assms mpz_need_dig_room [of \<sigma> d 4] by blast
  have u: "(if b then - int (unat u) else int (unat u)) = (if s then sint w else int (unat w))"
    by (simp add: u_def b_def unat_uminus_sint unat_nonneg_sint)
  then have pos: "0 < unat u" if "b"
    using that b_def by (auto split: if_splits)
  have room': "mpz_room d ((LENGTH(64) + 15) div 16) \<sigma> \<sigma>1"
    using room by simp
  show ?thesis
  proof (rule mpz_put_uval_ok [OF room' assms pos])
    fix \<sigma>2
    assume "mpz_put_uval d u (mpz_put_neg d b \<sigma>1) = Some \<sigma>2"
      and s: "mpz_sets d (if b then - int (unat u) else int (unat u)) \<sigma> \<sigma>2"
    then have "mpz_set_from_ll d w s \<sigma> = Some \<sigma>2"
      using need by (simp add: mpz_set_from_ll_def u_def b_def)
    then show ?thesis
      using s unfolding u by (rule that)
  qed
qed

section \<open>Bitwise operations\<close>

lemma mpn_or_normalised:
  assumes "normalised js" and "normalised ks" and "length ks \<le> length js" and "mpn_or js ks = (is, m)"
  shows "normalised is"
proof -
  have v: "mpn_val is = mpn_val js OR mpn_val ks" and len: "length is = length js"
    using assms(3,4) mpn_val_or [OF assms(3)] by (auto simp: mpn_or_def Let_def)
  have "int (mpn_val js) \<le> int (mpn_val js) OR int (mpn_val ks)"
    using or_greater_eq [of "int (mpn_val ks)" "int (mpn_val js)"] by (simp add: or.commute)
  then have le: "mpn_val js \<le> mpn_val is"
    unfolding v by (simp flip: of_nat_or_eq)
  show ?thesis
  proof (cases "js = []")
    case True
    then show ?thesis
      using len by (simp add: normalised_def)
  next
    case False
    then show ?thesis
      using mpn_val_ge [OF assms(1) False] le len by (intro normalisedI) simp
  qed
qed

text \<open>Making room, computing the digits from the unchanged operands, storing them.\<close>

lemma mpz_binary_part:
  assumes "mpz_ok (\<sigma> l)" and "mpz_ok (\<sigma> r)" and "\<not> z_fixed (\<sigma> d)"
    and "f (digits (\<sigma> l)) (digits (\<sigma> r)) = (ws, m)"
    and "length ws \<le> need" and "m \<le> length ws" and "normalised (take m ws)"
    and "sval b (take m ws) = v" and "b \<Longrightarrow> v \<noteq> 0"
  obtains \<sigma>1 \<sigma>2 where "mpz_need_dig d need \<sigma> = Some \<sigma>1" and "mpz_room d need \<sigma> \<sigma>1"
    and "mpz_put d (f (digits (\<sigma>1 l)) (digits (\<sigma>1 r))) \<sigma>1 = Some \<sigma>2"
    and "\<forall>a. z_neg (\<sigma>2 a) = z_neg (\<sigma> a)"
    and "mpz_sets d v \<sigma> (mpz_put_neg d b \<sigma>2)"
proof -
  obtain \<sigma>1 where need: "mpz_need_dig d need \<sigma> = Some \<sigma>1" and room: "mpz_room d need \<sigma> \<sigma>1"
    using assms(3) mpz_need_dig_room [of \<sigma> d need] by blast
  obtain \<sigma>2 where put: "mpz_put d (ws, m) \<sigma>1 = Some \<sigma>2" and mag: "mpz_mag d (int (mpn_val (take m ws))) \<sigma> \<sigma>2"
    using mpz_store_result [OF room assms(3) _ assms(6,7)] assms(5) by blast
  have "mpz_sets d v \<sigma> (mpz_put_neg d b \<sigma>2)"
    using assms(8,9) by (intro mpz_mag_sets [OF mag]) (auto simp: sval_def)
  moreover have "mpz_put d (f (digits (\<sigma>1 l)) (digits (\<sigma>1 r))) \<sigma>1 = Some \<sigma>2"
    using put assms(1,2,4) by (simp add: mpz_room [OF room])
  ultimately show ?thesis
    using that need room mpz_mag_neg [OF mag] by blast
qed

lemma mpz_more_digits_cases:
  assumes "mpz_more_digits l0 r0 \<sigma> = (l, r)"
  shows "(l = l0 \<and> r = r0 \<or> l = r0 \<and> r = l0) \<and> z_len (\<sigma> r) \<le> z_len (\<sigma> l)"
  using assms by (auto simp: mpz_more_digits_def split: if_splits)

lemma mpz_bit_operands:
  assumes "mpz_more_digits l0 r0 \<sigma> = (l, r)" and "mpz_ok (\<sigma> l0)" and "mpz_ok (\<sigma> r0)"
  shows "mpz_ok (\<sigma> l)" and "mpz_ok (\<sigma> r)" and "length (digits (\<sigma> r)) \<le> length (digits (\<sigma> l))"
    and "length (digits (\<sigma> l)) = z_len (\<sigma> l)"
    and "z_neg (\<sigma> l) \<Longrightarrow> 0 < mpn_val (digits (\<sigma> l))" and "z_neg (\<sigma> r) \<Longrightarrow> 0 < mpn_val (digits (\<sigma> r))"
proof -
  show ok: "mpz_ok (\<sigma> l)" "mpz_ok (\<sigma> r)"
    using mpz_more_digits_cases [OF assms(1)] assms(2,3) by auto
  show "length (digits (\<sigma> r)) \<le> length (digits (\<sigma> l))" "length (digits (\<sigma> l)) = z_len (\<sigma> l)"
    using mpz_more_digits_cases [OF assms(1)] mpz_okD(2) [OF ok(1)] mpz_okD(2) [OF ok(2)] by simp_all
  show "z_neg (\<sigma> l) \<Longrightarrow> 0 < mpn_val (digits (\<sigma> l))" "z_neg (\<sigma> r) \<Longrightarrow> 0 < mpn_val (digits (\<sigma> r))"
    using ok mpz_okD(4) mpz_ok_pos by blast+
qed

lemma mpz_and_inpl_ok:
  assumes "mpz_ok (\<sigma> l0)" and "mpz_ok (\<sigma> r0)" and "\<not> z_fixed (\<sigma> d)"
  obtains \<sigma>' where "mpz_and_inpl d l0 r0 \<sigma> = Some \<sigma>'"
    and "mpz_sets d (mpz_val (\<sigma> l0) AND mpz_val (\<sigma> r0)) \<sigma> \<sigma>'"
proof -
  obtain l r where lr: "mpz_more_digits l0 r0 \<sigma> = (l, r)"
    by fastforce
  note ops = mpz_bit_operands [OF lr assms(1,2)]
  have sym: "mpz_val (\<sigma> l0) AND mpz_val (\<sigma> r0) = mpz_val (\<sigma> l) AND mpz_val (\<sigma> r)"
    using mpz_more_digits_cases [OF lr] by (auto simp: and.commute)
  show ?thesis
  proof (cases "z_neg (\<sigma> l) \<or> z_neg (\<sigma> r)")
    case False
    obtain ws m where f: "mpn_and (digits (\<sigma> l)) (digits (\<sigma> r)) = (ws, m)"
      by fastforce
    have ws: "length ws \<le> z_len (\<sigma> l)" "m \<le> length ws" "normalised (take m ws)"
      and v: "mpn_val (take m ws) = mpn_val (digits (\<sigma> l)) AND mpn_val (digits (\<sigma> r))"
      using f ops(3,4) mpn_remove_trailing_zeros_le [of ws "length ws"]
        mpn_remove_trailing_zeros_normalised [of "length ws" ws]
        mpn_remove_trailing_zeros_val [of "length ws" ws] mpn_val_and [OF ops(3)]
      by (auto simp: mpn_and_def Let_def)
    have "sval False (take m ws) = mpz_val (\<sigma> l) AND mpz_val (\<sigma> r)"
      using False by (simp add: v mpz_val_def sval_def of_nat_and_eq)
    from mpz_binary_part [where f = mpn_and, OF ops(1,2) assms(3) f ws this] obtain \<sigma>1 \<sigma>2
      where "mpz_need_dig d (z_len (\<sigma> l)) \<sigma> = Some \<sigma>1"
        and "mpz_put d (mpn_and (digits (\<sigma>1 l)) (digits (\<sigma>1 r))) \<sigma>1 = Some \<sigma>2"
        and "mpz_sets d (mpz_val (\<sigma> l) AND mpz_val (\<sigma> r)) \<sigma> (mpz_put_neg d False \<sigma>2)"
      by blast
    then show ?thesis
      using False lr by (intro that) (auto simp: mpz_and_inpl_def sym)
  next
    case True
    obtain ws m where f: "mpn_and_neg (digits (\<sigma> l)) (digits (\<sigma> r)) (of_bool (z_neg (\<sigma> l) = z_neg (\<sigma> r)))
        (of_bool (z_neg (\<sigma> l))) (of_bool (z_neg (\<sigma> r))) = (ws, m)"
      by fastforce
    note c = mpn_and_neg_correct [OF ops(3) True ops(5,6) f]
    have v: "sval (z_neg (\<sigma> l) \<and> z_neg (\<sigma> r)) (take m ws) = mpz_val (\<sigma> l) AND mpz_val (\<sigma> r)"
      using c(4) by (simp add: mpz_val_def)
    have nz: "mpz_val (\<sigma> l) AND mpz_val (\<sigma> r) \<noteq> 0" if "z_neg (\<sigma> l) \<and> z_neg (\<sigma> r)"
    proof -
      have "mpz_val (\<sigma> l) AND mpz_val (\<sigma> r) < 0"
        using that mpz_ok_neg [OF ops(1)] mpz_ok_neg [OF ops(2)] by simp
      then show ?thesis by linarith
    qed
    have len: "length ws \<le> z_len (\<sigma> l) + 1"
      using c(1) ops(4) by simp
    from mpz_binary_part [where f = "\<lambda>x y. mpn_and_neg x y (of_bool (z_neg (\<sigma> l) = z_neg (\<sigma> r)))
        (of_bool (z_neg (\<sigma> l))) (of_bool (z_neg (\<sigma> r)))", OF ops(1,2) assms(3) f len c(2,3) v nz] obtain \<sigma>1 \<sigma>2
      where run: "mpz_need_dig d (z_len (\<sigma> l) + 1) \<sigma> = Some \<sigma>1"
        and room: "mpz_room d (z_len (\<sigma> l) + 1) \<sigma> \<sigma>1"
        and put: "mpz_put d (mpn_and_neg (digits (\<sigma>1 l)) (digits (\<sigma>1 r)) (of_bool (z_neg (\<sigma> l) = z_neg (\<sigma> r)))
        (of_bool (z_neg (\<sigma> l))) (of_bool (z_neg (\<sigma> r)))) \<sigma>1 = Some \<sigma>2"
        and n: "\<forall>a. z_neg (\<sigma>2 a) = z_neg (\<sigma> a)"
        and s: "mpz_sets d (mpz_val (\<sigma> l) AND mpz_val (\<sigma> r)) \<sigma> (mpz_put_neg d (z_neg (\<sigma> l) \<and> z_neg (\<sigma> r)) \<sigma>2)"
      by blast
    show ?thesis
    proof (rule that)
      show "mpz_and_inpl d l0 r0 \<sigma> = Some (mpz_put_neg d (z_neg (\<sigma> l) \<and> z_neg (\<sigma> r)) \<sigma>2)"
        using True lr run put n by (auto simp: mpz_and_inpl_def mpz_room [OF room])
    qed (simp add: sym s)
  qed
qed

lemma mpz_or_inpl_ok:
  assumes "mpz_ok (\<sigma> l0)" and "mpz_ok (\<sigma> r0)" and "\<not> z_fixed (\<sigma> d)"
  obtains \<sigma>' where "mpz_or_inpl d l0 r0 \<sigma> = Some \<sigma>'"
    and "mpz_sets d (mpz_val (\<sigma> l0) OR mpz_val (\<sigma> r0)) \<sigma> \<sigma>'"
proof -
  obtain l r where lr: "mpz_more_digits l0 r0 \<sigma> = (l, r)"
    by fastforce
  note ops = mpz_bit_operands [OF lr assms(1,2)]
  have sym: "mpz_val (\<sigma> l0) OR mpz_val (\<sigma> r0) = mpz_val (\<sigma> l) OR mpz_val (\<sigma> r)"
    using mpz_more_digits_cases [OF lr] by (auto simp: or.commute)
  show ?thesis
  proof (cases "z_neg (\<sigma> l) \<or> z_neg (\<sigma> r)")
    case False
    obtain ws m where f: "mpn_or (digits (\<sigma> l)) (digits (\<sigma> r)) = (ws, m)"
      by fastforce
    have m: "m = length ws" "length ws = z_len (\<sigma> l)"
      and v: "mpn_val ws = mpn_val (digits (\<sigma> l)) OR mpn_val (digits (\<sigma> r))"
      using f ops(3,4) mpn_val_or [OF ops(3)] by (auto simp: mpn_or_def Let_def)
    have "normalised ws"
      using mpn_or_normalised [OF mpz_okD(1) [OF ops(1)] mpz_okD(1) [OF ops(2)] ops(3) f] .
    then have ws: "length ws \<le> z_len (\<sigma> l)" "m \<le> length ws" "normalised (take m ws)"
      using m by simp_all
    have "sval False (take m ws) = mpz_val (\<sigma> l) OR mpz_val (\<sigma> r)"
      using False by (simp add: v m mpz_val_def sval_def of_nat_or_eq)
    from mpz_binary_part [where f = mpn_or, OF ops(1,2) assms(3) f ws this] obtain \<sigma>1 \<sigma>2
      where "mpz_need_dig d (z_len (\<sigma> l)) \<sigma> = Some \<sigma>1"
        and "mpz_put d (mpn_or (digits (\<sigma>1 l)) (digits (\<sigma>1 r))) \<sigma>1 = Some \<sigma>2"
        and "mpz_sets d (mpz_val (\<sigma> l) OR mpz_val (\<sigma> r)) \<sigma> (mpz_put_neg d False \<sigma>2)"
      by blast
    then show ?thesis
      using False lr by (intro that) (auto simp: mpz_or_inpl_def sym)
  next
    case True
    obtain ws m where f: "mpn_or_neg (digits (\<sigma> l)) (digits (\<sigma> r)) (of_bool (z_neg (\<sigma> l))) (of_bool (z_neg (\<sigma> r))) = Some (ws, m)"
      and c: "length ws = length (digits (\<sigma> l))" "m \<le> length ws" "normalised (take m ws)"
        "sval True (take m ws) = sval (z_neg (\<sigma> l)) (digits (\<sigma> l)) OR sval (z_neg (\<sigma> r)) (digits (\<sigma> r))"
      by (rule mpn_or_neg_correct [OF ops(3) True ops(5,6)])
    have v: "sval True (take m ws) = mpz_val (\<sigma> l) OR mpz_val (\<sigma> r)"
      using c(4) by (simp add: mpz_val_def)
    have "mpz_val (\<sigma> l) OR mpz_val (\<sigma> r) < 0"
      using True mpz_ok_neg [OF ops(1)] mpz_ok_neg [OF ops(2)] by simp
    then have nz: "mpz_val (\<sigma> l) OR mpz_val (\<sigma> r) \<noteq> 0" by linarith
    have len: "length ws \<le> z_len (\<sigma> l) + 1"
      using c(1) ops(4) by simp
    from mpz_binary_part [where f = "\<lambda>x y. (ws, m)", OF ops(1,2) assms(3) refl len c(2,3) v nz] obtain \<sigma>1 \<sigma>2
      where run: "mpz_need_dig d (z_len (\<sigma> l) + 1) \<sigma> = Some \<sigma>1"
        and room: "mpz_room d (z_len (\<sigma> l) + 1) \<sigma> \<sigma>1"
        and put: "mpz_put d (ws, m) \<sigma>1 = Some \<sigma>2"
        and s: "mpz_sets d (mpz_val (\<sigma> l) OR mpz_val (\<sigma> r)) \<sigma> (mpz_put_neg d True \<sigma>2)"
      by blast
    show ?thesis
    proof (rule that)
      show "mpz_or_inpl d l0 r0 \<sigma> = Some (mpz_put_neg d True \<sigma>2)"
        using True lr run put f ops(1,2) by (auto simp: mpz_or_inpl_def mpz_room [OF room])
    qed (simp add: sym s)
  qed
qed


lemma mpz_xor_inpl_ok:
  assumes "mpz_ok (\<sigma> l0)" and "mpz_ok (\<sigma> r0)" and "\<not> z_fixed (\<sigma> d)"
  obtains \<sigma>' where "mpz_xor_inpl d l0 r0 \<sigma> = Some \<sigma>'"
    and "mpz_sets d (mpz_val (\<sigma> l0) XOR mpz_val (\<sigma> r0)) \<sigma> \<sigma>'"
proof -
  obtain l r where lr: "mpz_more_digits l0 r0 \<sigma> = (l, r)"
    by fastforce
  note ops = mpz_bit_operands [OF lr assms(1,2)]
  have sym: "mpz_val (\<sigma> l0) XOR mpz_val (\<sigma> r0) = mpz_val (\<sigma> l) XOR mpz_val (\<sigma> r)"
    using mpz_more_digits_cases [OF lr] by (auto simp: xor.commute)
  show ?thesis
  proof (cases "z_neg (\<sigma> l) \<or> z_neg (\<sigma> r)")
    case False
    obtain ws m where f: "mpn_xor (digits (\<sigma> l)) (digits (\<sigma> r)) = (ws, m)"
      by fastforce
    have ws: "length ws \<le> z_len (\<sigma> l)" "m \<le> length ws" "normalised (take m ws)"
      and v: "mpn_val (take m ws) = mpn_val (digits (\<sigma> l)) XOR mpn_val (digits (\<sigma> r))"
      using f ops(3,4) mpn_remove_trailing_zeros_le [of ws "length ws"]
        mpn_remove_trailing_zeros_normalised [of "length ws" ws]
        mpn_remove_trailing_zeros_val [of "length ws" ws] mpn_val_xor [OF ops(3)]
      by (auto simp: mpn_xor_def Let_def)
    have "sval False (take m ws) = mpz_val (\<sigma> l) XOR mpz_val (\<sigma> r)"
      using False by (simp add: v mpz_val_def sval_def of_nat_xor_eq)
    from mpz_binary_part [where f = mpn_xor, OF ops(1,2) assms(3) f ws this] obtain \<sigma>1 \<sigma>2
      where "mpz_need_dig d (z_len (\<sigma> l)) \<sigma> = Some \<sigma>1" "mpz_room d (z_len (\<sigma> l)) \<sigma> \<sigma>1"
        and "mpz_put d (mpn_xor (digits (\<sigma>1 l)) (digits (\<sigma>1 r))) \<sigma>1 = Some \<sigma>2"
        and "mpz_sets d (mpz_val (\<sigma> l) XOR mpz_val (\<sigma> r)) \<sigma> (mpz_put_neg d False \<sigma>2)"
      by blast
    then show ?thesis
      using False lr by (intro that) (auto simp: mpz_xor_inpl_def sym mpz_room)
  next
    case True
    define b where "b \<longleftrightarrow> z_neg (\<sigma> l) \<noteq> z_neg (\<sigma> r)"
    obtain ws m where f: "mpn_xor_neg (digits (\<sigma> l)) (digits (\<sigma> r)) (of_bool b)
        (of_bool (\<not> z_neg (\<sigma> l))) (of_bool (\<not> z_neg (\<sigma> r))) = (ws, m)"
      by fastforce
    note c = mpn_xor_neg_correct [OF ops(3) True ops(5,6) f [unfolded b_def]]
    have v: "sval b (take m ws) = mpz_val (\<sigma> l) XOR mpz_val (\<sigma> r)"
      using c(4) by (simp add: mpz_val_def b_def)
    have nz: "mpz_val (\<sigma> l) XOR mpz_val (\<sigma> r) \<noteq> 0" if b
    proof -
      have "mpz_val (\<sigma> l) XOR mpz_val (\<sigma> r) < 0"
        using that mpz_ok_neg [OF ops(1)] mpz_ok_neg [OF ops(2)] by (auto simp: b_def)
      then show ?thesis by linarith
    qed
    have len: "length ws \<le> z_len (\<sigma> l) + of_bool b"
      using c(1) ops(4) by (simp add: b_def)
    from mpz_binary_part [where f = "\<lambda>x y. mpn_xor_neg x y (of_bool b)
        (of_bool (\<not> z_neg (\<sigma> l))) (of_bool (\<not> z_neg (\<sigma> r)))", OF ops(1,2) assms(3) f len c(2,3) v nz] obtain \<sigma>1 \<sigma>2
      where run: "mpz_need_dig d (z_len (\<sigma> l) + of_bool b) \<sigma> = Some \<sigma>1"
        and room: "mpz_room d (z_len (\<sigma> l) + of_bool b) \<sigma> \<sigma>1"
        and put: "mpz_put d (mpn_xor_neg (digits (\<sigma>1 l)) (digits (\<sigma>1 r)) (of_bool b)
        (of_bool (\<not> z_neg (\<sigma> l))) (of_bool (\<not> z_neg (\<sigma> r)))) \<sigma>1 = Some \<sigma>2"
        and s: "mpz_sets d (mpz_val (\<sigma> l) XOR mpz_val (\<sigma> r)) \<sigma> (mpz_put_neg d b \<sigma>2)"
      by blast
    show ?thesis
    proof (rule that)
      show "mpz_xor_inpl d l0 r0 \<sigma> = Some (mpz_put_neg d b \<sigma>2)"
        using True lr run put by (auto simp: mpz_xor_inpl_def mpz_room [OF room] b_def)
    qed (simp add: sym s)
  qed
qed

section \<open>Complement and shifts\<close>

lemma mpz_sets_trans:
  assumes "mpz_sets d v \<sigma> \<sigma>1" and "mpz_sets d w \<sigma>1 \<sigma>2"
  shows "mpz_sets d w \<sigma> \<sigma>2"
  using assms by (auto simp: mpz_sets_def)

lemma mpz_put_frame:
  assumes "mpz_put d r \<sigma> = Some \<sigma>'"
  shows "a \<noteq> d \<Longrightarrow> \<sigma>' a = \<sigma> a" and "length (z_dig (\<sigma>' d)) = length (z_dig (\<sigma> d))"
    and "z_fixed (\<sigma>' d) = z_fixed (\<sigma> d)" and "z_neg (\<sigma>' a) = z_neg (\<sigma> a)"
  using assms by (auto simp: mpz_put_def split: if_splits)

text \<open>Storing a result whose sign is already there.\<close>

lemma mpz_put_signed:
  assumes "length ws \<le> length (z_dig (\<tau> d))" and "m \<le> length ws" and "normalised (take m ws)"
    and "\<not> z_fixed (\<tau> d)" and "z_neg (\<tau> d) \<Longrightarrow> m \<noteq> 0" and "\<And>a. a \<noteq> d \<Longrightarrow> \<tau> a = \<sigma> a"
  obtains \<sigma>' where "mpz_put d (ws, m) \<tau> = Some \<sigma>'"
    and "mpz_sets d (sval (z_neg (\<tau> d)) (take m ws)) \<sigma> \<sigma>'"
proof (rule that [OF mpz_put_some [where \<sigma> = \<tau> and m = m, OF assms(1)]])
qed (use assms in \<open>auto simp: mpz_sets_def mpz_ok_def digits_def mpz_val_def\<close>)

text \<open>One added to or taken from the magnitude of an object.\<close>

lemma mpz_incr_part:
  assumes "mpz_ok (\<sigma> d)" and "\<not> z_fixed (\<sigma> d)" and "mpz_room d need \<sigma> \<sigma>1" and "z_len (\<sigma> d) < need"
    and "z_len (\<sigma> d) \<noteq> 0"
  obtains \<sigma>2 where "mpz_put d (mpn_add (digits (\<sigma>1 d)) [1]) \<sigma>1 = Some \<sigma>2"
    and "mpz_mag d (\<bar>mpz_val (\<sigma> d)\<bar> + 1) \<sigma> \<sigma>2"
proof -
  obtain ws m where add: "mpn_add (digits (\<sigma> d)) [1] = (ws, m)"
    by fastforce
  note ok = mpz_okD [OF assms(1)]
  have "length [1 :: dig] \<le> length (digits (\<sigma> d))"
    using ok(2) assms(5) by simp
  note c = mpn_add_correct [OF ok(1) this add]
  have len: "length ws \<le> need"
    using c(1,4) ok(2) assms(4) by simp
  obtain \<sigma>2 where "mpz_put d (ws, m) \<sigma>1 = Some \<sigma>2" "mpz_mag d (int (mpn_val (take m ws))) \<sigma> \<sigma>2"
    using mpz_store_result [OF assms(3,2), of ws m] len c(1,3) by auto
  with add assms(1) c(1,2) show ?thesis
    by (intro that [of \<sigma>2]) (simp_all add: mpz_room [OF assms(3)] mpz_abs_val add.commute)
qed

lemma digits_neg [simp]: "digits (z\<lparr>z_neg := b\<rparr>) = digits z"
  by (simp add: digits_def)

lemma mpz_room_refl:
  "need \<le> length (z_dig (\<sigma> d)) \<Longrightarrow> 2 \<le> length (z_dig (\<sigma> d)) \<Longrightarrow> mpz_room d need \<sigma> \<sigma>"
  by (simp add: mpz_room_def)

lemma mpz_not_inpl_ok:
  assumes "mpz_ok (\<sigma> z)" and "\<not> z_fixed (\<sigma> d)"
  obtains \<sigma>' where "mpz_not_inpl d z \<sigma> = Some \<sigma>'" and "mpz_sets d (NOT (mpz_val (\<sigma> z))) \<sigma> \<sigma>'"
proof -
  obtain \<sigma>1 where 0: "(if d \<noteq> z then mpz_set d z \<sigma> else Some \<sigma>) = Some \<sigma>1"
    and 1: "mpz_sets d (mpz_val (\<sigma> z)) \<sigma> \<sigma>1"
    using mpz_copy_ok [OF assms] .
  have ok: "mpz_ok (\<sigma>1 d)" and val: "mpz_val (\<sigma>1 d) = mpz_val (\<sigma> z)" and nf: "\<not> z_fixed (\<sigma>1 d)"
    using mpz_setsD [OF 1] by auto
  have not: "NOT (mpz_val (\<sigma> z)) = - mpz_val (\<sigma>1 d) - 1"
    by (simp add: val not_int_def)
  consider "z_len (\<sigma>1 d) = 0" | "z_len (\<sigma>1 d) \<noteq> 0" "z_neg (\<sigma>1 d)" | "z_len (\<sigma>1 d) \<noteq> 0" "\<not> z_neg (\<sigma>1 d)"
    by blast
  then show ?thesis
  proof cases
    case 1
    obtain \<sigma>2 where need: "mpz_need_dig d 1 \<sigma>1 = Some \<sigma>2" and room: "mpz_room d 1 \<sigma>1 \<sigma>2"
      using nf mpz_need_dig_room [of \<sigma>1 d 1] by blast
    obtain \<sigma>3 where put: "mpz_put d ([1], 1) \<sigma>2 = Some \<sigma>3"
      and mag: "mpz_mag d (int (mpn_val (take 1 [1]))) \<sigma>1 \<sigma>3"
      by (rule mpz_store_result [OF room nf, of "[1]" 1]) (auto simp: normalised_def)
    have "mpz_sets d (- mpz_val (\<sigma>1 d) - 1) \<sigma>1 (mpz_put_neg d True \<sigma>3)"
      using mpz_ok_zero [OF ok] 1 by (intro mpz_mag_sets [OF mag]) simp_all
    then show ?thesis
      using 1 put need 0 mpz_sets_trans [OF \<open>mpz_sets d (mpz_val (\<sigma> z)) \<sigma> \<sigma>1\<close>]
      by (intro that) (simp_all add: mpz_not_inpl_def not)
  next
    case 2
    obtain ws m where sub: "mpn_sub (digits (\<sigma>1 d)) [1] = (ws, m)"
      by fastforce
    have "length [1 :: dig] \<le> length (digits (\<sigma>1 d))" "mpn_val [1] \<le> mpn_val (digits (\<sigma>1 d))"
      using mpz_okD(2) [OF ok] mpz_ok_pos [OF ok] 2 by simp_all
    note c = mpn_sub_correct [OF this sub]
    define \<sigma>2 where "\<sigma>2 = mpz_put_neg d False \<sigma>1"
    have "length ws \<le> length (z_dig (\<sigma>2 d))"
      using c(1) mpz_okD(2,3) [OF ok] by (simp add: \<sigma>2_def)
    moreover have "m \<le> length ws"
      using c(1,2) by simp
    ultimately obtain \<sigma>3 where put: "mpz_put d (ws, m) \<sigma>2 = Some \<sigma>3"
      and s: "mpz_sets d (sval (z_neg (\<sigma>2 d)) (take m ws)) \<sigma>1 \<sigma>3"
      by (rule mpz_put_signed [where \<sigma> = \<sigma>1]) (use c(3) nf in \<open>auto simp: \<sigma>2_def\<close>)
    have "- mpz_val (\<sigma>1 d) = int (mpn_val (digits (\<sigma>1 d)))"
      using 2 by (simp add: mpz_val_def sval_def)
    with s have "mpz_sets d (- mpz_val (\<sigma>1 d) - 1) \<sigma>1 \<sigma>3"
      using c(4) mpz_ok_pos [OF ok 2(1)] by (simp add: sval_def \<sigma>2_def)
    then show ?thesis
      using 2 put sub 0 mpz_sets_trans [OF \<open>mpz_sets d (mpz_val (\<sigma> z)) \<sigma> \<sigma>1\<close>]
      by (intro that) (simp_all add: mpz_not_inpl_def not \<sigma>2_def)
  next
    case 3
    obtain \<sigma>2 where need: "mpz_need_dig d (z_len (\<sigma>1 d) + 1) \<sigma>1 = Some \<sigma>2"
      and room: "mpz_room d (z_len (\<sigma>1 d) + 1) \<sigma>1 \<sigma>2"
      using nf mpz_need_dig_room [of \<sigma>1 d "z_len (\<sigma>1 d) + 1"] by blast
    obtain \<sigma>3 where put: "mpz_put d (mpn_add (digits (\<sigma>2 d)) [1]) \<sigma>2 = Some \<sigma>3"
      and mag: "mpz_mag d (\<bar>mpz_val (\<sigma>1 d)\<bar> + 1) \<sigma>1 \<sigma>3"
      by (rule mpz_incr_part [OF ok nf room]) (use 3 in auto)
    have "mpz_sets d (- mpz_val (\<sigma>1 d) - 1) \<sigma>1 (mpz_put_neg d True \<sigma>3)"
      using mpz_ok_neg [OF ok] 3 by (intro mpz_mag_sets [OF mag]) auto
    then show ?thesis
      using 3 put need 0 mpz_sets_trans [OF \<open>mpz_sets d (mpz_val (\<sigma> z)) \<sigma> \<sigma>1\<close>]
      by (intro that) (simp_all add: mpz_not_inpl_def not)
  qed
qed

lemma mpz_shl_inpl_ok:
  assumes "mpz_ok (\<sigma> l)" and "\<not> z_fixed (\<sigma> d)" and "n + 15 < 2 ^ 32"
  obtains \<sigma>' where "mpz_shl_inpl d l n \<sigma> = Some \<sigma>'" and "mpz_sets d (push_bit n (mpz_val (\<sigma> l))) \<sigma> \<sigma>'"
proof (cases "z_len (\<sigma> l) = 0 \<or> n = 0")
  case True
  then have "push_bit n (mpz_val (\<sigma> l)) = mpz_val (\<sigma> l)"
    using mpz_ok_zero [OF assms(1)] by auto
  then show ?thesis
    using True mpz_set_ok [OF assms(1,2)] that by (auto simp: mpz_shl_inpl_def)
next
  case False
  define w where "w = (n + DIG_SIZE - 1) mod 2 ^ 32 div DIG_SIZE"
  have w: "w = (n + 15) div 16"
    using assms(3) by (simp add: w_def DIG_SIZE_def)
  obtain \<sigma>1 where need: "mpz_need_dig d (z_len (\<sigma> l) + w) \<sigma> = Some \<sigma>1"
    and room: "mpz_room d (z_len (\<sigma> l) + w) \<sigma> \<sigma>1"
    using assms(2) mpz_need_dig_room [of \<sigma> d "z_len (\<sigma> l) + w"] by blast
  obtain ws m where shl: "mpn_shl (digits (\<sigma> l)) n = (ws, m)"
    by fastforce
  have "0 < n" using False by simp
  note c = mpn_shl_correct [OF this assms(3) shl]
  have len: "length ws \<le> z_len (\<sigma> l) + w"
    using c(1) mpz_okD(2) [OF assms(1)] by (simp add: w)
  obtain \<sigma>2 where put: "mpz_put d (ws, m) \<sigma>1 = Some \<sigma>2" and mag: "mpz_mag d (int (mpn_val (take m ws))) \<sigma> \<sigma>2"
    using mpz_store_result [OF room assms(2) _ c(2,3)] len by blast
  have "mpz_shl_inpl d l n \<sigma> = Some (mpz_put_neg d (z_neg (\<sigma> l)) \<sigma>2)"
    using False need put shl assms(1) mpz_mag_neg [OF mag]
    unfolding mpz_shl_inpl_def w_def [symmetric] by (simp add: mpz_room [OF room])
  moreover have "mpz_sets d (push_bit n (mpz_val (\<sigma> l))) \<sigma> (mpz_put_neg d (z_neg (\<sigma> l)) \<sigma>2)"
    using mpz_ok_pos [OF assms(1)] False
    by (intro mpz_mag_sets [OF mag]) (auto simp: c(4) mpz_val_def sval_def push_bit_eq_mult)
  ultimately show ?thesis
    by (rule that)
qed


lemma mpn_val_mod:
  assumes "n = 16 * w + p"
  shows "mpn_val ds mod 2 ^ n =
    (if w < length ds then mpn_val (take w ds) + 65536 ^ w * (mpn_val (drop w ds) mod 2 ^ p) else mpn_val ds)"
proof -
  have n: "(2 :: nat) ^ n = 65536 ^ w * 2 ^ p"
    by (simp add: assms power_add power_mult)
  show ?thesis
  proof (cases "w < length ds")
    case True
    have "mpn_val ds div 65536 ^ w = mpn_val (drop w ds)"
      by (simp add: mpn_val_drop)
    moreover have "mpn_val ds mod 65536 ^ w = mpn_val (take w ds)"
      using mpn_val_take_drop [of w ds] mpn_val_less [of "take w ds"] True by simp
    ultimately show ?thesis
      using True by (simp add: n mod_mult2_eq)
  next
    case False
    have "mpn_val ds < 65536 ^ length ds"
      by (rule mpn_val_less)
    also have "\<dots> \<le> 65536 ^ w"
      using False by (intro power_increasing) auto
    also have "\<dots> \<le> 2 ^ n"
      by (simp add: n)
    finally show ?thesis
      using False by simp
  qed
qed

lemma list_ex_nonzero: "list_ex (\<lambda>d. d \<noteq> 0) ds \<longleftrightarrow> mpn_val ds \<noteq> 0"
  by (induction ds) (auto simp: unat_eq_zero)

lemma mpz_shr_round_up_iff:
  assumes "length (digits z) = z_len z"
  shows "mpz_shr_round_up z n \<longleftrightarrow> mpn_val (digits z) mod 2 ^ n \<noteq> 0"
proof -
  define w where "w = n div 16"
  define p where "p = n mod 16"
  have n: "n = 16 * w + p" and p: "p < 16"
    by (simp_all add: w_def p_def)
  note len = assms
  have part: "(ucast d AND (push_bit p 1 - 1) :: dbl) \<noteq> 0 \<longleftrightarrow> mpn_val (d # ds) mod 2 ^ p \<noteq> 0" for d ds
  proof -
    have "push_bit p 1 - 1 = (mask p :: dbl)"
      by (simp add: mask_eq_exp_minus_1 push_bit_eq_mult)
    then have "unat (ucast d AND (push_bit p 1 - 1) :: dbl) = unat d mod 2 ^ p"
      using unat_and_mask [of "ucast d :: dbl" p] by (simp add: unat_u32_of_u16)
    moreover have "(65536 :: nat) = 2 ^ p * 2 ^ (16 - p)"
      using p by (simp flip: power_add)
    then have "mpn_val (d # ds) = unat d + 2 ^ p * (2 ^ (16 - p) * mpn_val ds)"
      by (simp flip: mult.assoc)
    then have "mpn_val (d # ds) mod 2 ^ p = unat d mod 2 ^ p"
      by (simp only: mod_mult_self2)
    ultimately show ?thesis
      by (simp add: unat_eq_zero [symmetric] del: mpn_val.simps)
  qed
  show ?thesis
  proof (cases "w < z_len z")
    case True
    then obtain d ds where d: "drop w (digits z) = d # ds" "z_dig z ! w = d"
      using Cons_nth_drop_Suc [of w "digits z", symmetric] len by (force simp: digits_def)
    then show ?thesis
      using True mpn_val_mod [OF n, of "digits z"] part [of d ds]
      unfolding mpz_shr_round_up_def Let_def DIG_SIZE_def w_def [symmetric] p_def [symmetric]
      by (simp add: list_ex_nonzero len)
  next
    case False
    then show ?thesis
      using mpn_val_mod [OF n, of "digits z"] len
      unfolding mpz_shr_round_up_def Let_def DIG_SIZE_def w_def [symmetric] p_def [symmetric]
      by (simp add: list_ex_nonzero)
  qed
qed

text \<open>A negative number rounded towards minus infinity.\<close>

lemma neg_div_pow: "(- int v) div 2 ^ n = - int (v div 2 ^ n) - of_bool (v mod 2 ^ n \<noteq> 0)"
proof -
  have "(- int v) div 2 ^ n = - (int v div 2 ^ n) - of_bool (int v mod 2 ^ n \<noteq> 0)"
    by (simp add: zdiv_zminus1_eq_if)
  moreover have "int v mod 2 ^ n = int (v mod 2 ^ n)"
    by (simp add: zmod_int)
  ultimately show ?thesis
    by (simp add: zdiv_int)
qed

text \<open>The store when the shifted digits and the sign are in place, before the rounding.\<close>

lemma mpz_shr_inpl_stored:
  assumes "mpz_ok (\<sigma> l)" and "\<not> z_fixed (\<sigma> d)" and "z_len (\<sigma> l) \<noteq> 0" and "n \<noteq> 0"
  obtains \<sigma>3 where
    "mpz_shr_inpl d l n \<sigma> =
      (if z_neg (\<sigma> l) \<and> mpz_shr_round_up (\<sigma>3 l) n
       then if z_len (\<sigma>3 d) = 0 then mpz_put d ([1], 1) \<sigma>3
            else mpz_put d (mpn_add (digits (\<sigma>3 d)) [1]) \<sigma>3
       else Some \<sigma>3)"
    and "mpn_val (digits (\<sigma>3 d)) = mpn_val (digits (\<sigma> l)) div 2 ^ n" and "normalised (digits (\<sigma>3 d))"
    and "length (digits (\<sigma>3 d)) = z_len (\<sigma>3 d)" and "z_len (\<sigma>3 d) \<le> length (z_dig (\<sigma>3 d))" and "z_neg (\<sigma>3 d) = z_neg (\<sigma> l)"
    and "\<not> z_fixed (\<sigma>3 d)" and "\<And>a. a \<noteq> d \<Longrightarrow> \<sigma>3 a = \<sigma> a" and "2 \<le> length (z_dig (\<sigma>3 d))" and "z_len (\<sigma> l) \<le> length (z_dig (\<sigma>3 d))"
proof -
  obtain \<sigma>1 where need: "mpz_need_dig d (z_len (\<sigma> l)) \<sigma> = Some \<sigma>1"
    and room: "mpz_room d (z_len (\<sigma> l)) \<sigma> \<sigma>1"
    using assms(2) mpz_need_dig_room [of \<sigma> d "z_len (\<sigma> l)"] by blast
  obtain ws m where shr: "mpn_shr (digits (\<sigma> l)) n = (ws, m)"
    by fastforce
  note c = mpn_shr_correct [OF mpz_okD(1) [OF assms(1)] shr]
  have len: "length ws \<le> z_len (\<sigma> l)"
    using c(1) mpz_okD(2) [OF assms(1)] by simp
  obtain \<sigma>2 where put: "mpz_put d (ws, m) \<sigma>1 = Some \<sigma>2" and mag: "mpz_mag d (int (mpn_val (take m ws))) \<sigma> \<sigma>2"
    and dig: "digits (\<sigma>2 d) = take m ws" "z_len (\<sigma>2 d) = m"
    using mpz_store_result [OF room assms(2) _ c(2,3)] len by blast
  define \<sigma>3 where "\<sigma>3 = mpz_put_neg d (z_neg (\<sigma> l)) \<sigma>2"
  have run: "mpz_shr_inpl d l n \<sigma> =
      (if z_neg (\<sigma> l) \<and> mpz_shr_round_up (\<sigma>3 l) n
       then if z_len (\<sigma>3 d) = 0 then mpz_put d ([1], 1) \<sigma>3
            else mpz_put d (mpn_add (digits (\<sigma>3 d)) [1]) \<sigma>3
       else Some \<sigma>3)"
    using assms need put shr mpz_mag_neg [OF mag]
    by (cases "z_neg (\<sigma> l)") (simp_all add: mpz_shr_inpl_def mpz_room [OF room] \<sigma>3_def Let_def)
  show ?thesis
  proof (rule that [OF run])
    show "\<sigma>3 a = \<sigma> a" if "a \<noteq> d" for a
      using that mpz_put_frame [OF put] by (simp add: \<sigma>3_def mpz_room [OF room])
  qed (use dig c(2,3,4) mpz_put_frame [OF put] assms(2) mpz_room_length [OF room] len in
      \<open>auto simp: \<sigma>3_def mpz_room [OF room]\<close>)
qed

text \<open>The rounding adds one to the magnitude.\<close>

lemma mpz_shr_rounded:
  assumes "normalised (digits (\<tau> d))" and "length (digits (\<tau> d)) = z_len (\<tau> d)" and "\<not> z_fixed (\<tau> d)"
    and "mpn_val (digits (\<tau> d)) < mpn_val js" and "normalised js" and "length js \<le> length (z_dig (\<tau> d))"
    and "2 \<le> length (z_dig (\<tau> d))" and "\<And>a. a \<noteq> d \<Longrightarrow> \<tau> a = \<sigma> a"
  obtains \<sigma>' where "(if z_len (\<tau> d) = 0 then mpz_put d ([1], 1) \<tau> else mpz_put d (mpn_add (digits (\<tau> d)) [1]) \<tau>) = Some \<sigma>'"
    and "mpz_sets d (if z_neg (\<tau> d) then - int (mpn_val (digits (\<tau> d)) + 1) else int (mpn_val (digits (\<tau> d)) + 1)) \<sigma> \<sigma>'"
proof (cases "z_len (\<tau> d) = 0")
  case True
  obtain \<sigma>' where "mpz_put d ([1], 1) \<tau> = Some \<sigma>'" "mpz_sets d (sval (z_neg (\<tau> d)) (take 1 [1])) \<sigma> \<sigma>'"
    by (rule mpz_put_signed [where \<sigma> = \<sigma> and \<tau> = \<tau> and ws = "[1]" and m = 1 and d = d])
      (use assms in \<open>auto simp: normalised_def\<close>)
  then show ?thesis
    using True assms(2) by (intro that [of \<sigma>']) (auto simp: sval_def)
next
  case False
  obtain ws m where add: "mpn_add (digits (\<tau> d)) [1] = (ws, m)"
    by fastforce
  have "length [1 :: dig] \<le> length (digits (\<tau> d))"
    using False assms(2) by simp
  note a = mpn_add_correct [OF assms(1) this add]
  have "length ws \<le> length (z_dig (\<tau> d))" "m \<le> length ws" "normalised (take m ws)" "m \<noteq> 0"
    using normalised_val_less [OF a(3), of js] assms(2,4,6) a(1,2,3,5) False by (auto simp: not_less [symmetric])
  then obtain \<sigma>' where "mpz_put d (ws, m) \<tau> = Some \<sigma>'" and "mpz_sets d (sval (z_neg (\<tau> d)) (take m ws)) \<sigma> \<sigma>'"
    using assms(3,8) by (elim mpz_put_signed [where \<sigma> = \<sigma> and \<tau> = \<tau> and ws = ws and m = m and d = d]) auto
  moreover have "sval (z_neg (\<tau> d)) (take m ws) =
      (if z_neg (\<tau> d) then - int (mpn_val (digits (\<tau> d)) + 1) else int (mpn_val (digits (\<tau> d)) + 1))"
    using a(1,2) by (simp add: sval_def)
  ultimately show ?thesis
    using False add by (intro that [of \<sigma>']) simp_all
qed

lemma div_pow_less: "n \<noteq> 0 \<Longrightarrow> 0 < v \<Longrightarrow> v div 2 ^ n < (v :: nat)"
  by (intro div_less_dividend one_less_power) simp_all

lemma mpz_shr_inpl_ok:
  assumes "mpz_ok (\<sigma> l)" and "\<not> z_fixed (\<sigma> d)" and "d \<noteq> l \<or> 0 \<le> mpz_val (\<sigma> l)"
  obtains \<sigma>' where "mpz_shr_inpl d l n \<sigma> = Some \<sigma>'" and "mpz_sets d (drop_bit n (mpz_val (\<sigma> l))) \<sigma> \<sigma>'"
proof (cases "z_len (\<sigma> l) = 0 \<or> n = 0")
  case True
  then have "drop_bit n (mpz_val (\<sigma> l)) = mpz_val (\<sigma> l)"
    using mpz_ok_zero [OF assms(1)] by auto
  then show ?thesis
    using True mpz_set_ok [OF assms(1,2)] that by (auto simp: mpz_shr_inpl_def)
next
  case False
  then have z: "z_len (\<sigma> l) \<noteq> 0" and n: "n \<noteq> 0"
    by simp_all
  define v where "v = mpn_val (digits (\<sigma> l))"
  have v0: "0 < v"
    using mpz_ok_pos [OF assms(1) z] by (simp add: v_def)
  note js = mpz_okD(1,2) [OF assms(1)]
  show ?thesis
  proof (rule mpz_shr_inpl_stored [OF assms(1,2) z n])
    fix \<sigma>3
    assume run: "mpz_shr_inpl d l n \<sigma> =
      (if z_neg (\<sigma> l) \<and> mpz_shr_round_up (\<sigma>3 l) n
       then if z_len (\<sigma>3 d) = 0 then mpz_put d ([1], 1) \<sigma>3
            else mpz_put d (mpn_add (digits (\<sigma>3 d)) [1]) \<sigma>3
       else Some \<sigma>3)"
      and s3: "mpn_val (digits (\<sigma>3 d)) = mpn_val (digits (\<sigma> l)) div 2 ^ n" "normalised (digits (\<sigma>3 d))"
        "length (digits (\<sigma>3 d)) = z_len (\<sigma>3 d)" "z_len (\<sigma>3 d) \<le> length (z_dig (\<sigma>3 d))" "z_neg (\<sigma>3 d) = z_neg (\<sigma> l)"
        "\<not> z_fixed (\<sigma>3 d)" "\<And>a. a \<noteq> d \<Longrightarrow> \<sigma>3 a = \<sigma> a" "2 \<le> length (z_dig (\<sigma>3 d))" "z_len (\<sigma> l) \<le> length (z_dig (\<sigma>3 d))"
    have up: "mpz_shr_round_up (\<sigma>3 l) n \<longleftrightarrow> v mod 2 ^ n \<noteq> 0" if "z_neg (\<sigma> l)"
      using that s3(7) [of l] mpz_ok_neg [OF assms(1)] assms(3) mpz_shr_round_up_iff [OF js(2), of n] by (auto simp: v_def)
    show ?thesis
    proof (cases "z_neg (\<sigma> l) \<and> v mod 2 ^ n \<noteq> 0")
      case True
      obtain \<sigma>' where "mpz_shr_inpl d l n \<sigma> = Some \<sigma>'" "mpz_sets d (- int (v div 2 ^ n + 1)) \<sigma> \<sigma>'"
        using mpz_shr_rounded [of \<sigma>3 d "digits (\<sigma> l)" \<sigma>, OF s3(2,3,6) _ js(1) _ s3(8,7)] s3(1,5,9) js(2) run up True
          div_pow_less [OF n v0] by (auto simp: v_def)
      moreover have "drop_bit n (mpz_val (\<sigma> l)) = - int (v div 2 ^ n + 1)"
        using True neg_div_pow [of v n] by (simp add: mpz_val_def sval_def v_def drop_bit_eq_div)
      ultimately show ?thesis
        using that by simp
    next
      case False
      have "sval (z_neg (\<sigma> l)) (digits (\<sigma>3 d)) = drop_bit n (mpz_val (\<sigma> l))"
        using False neg_div_pow [of v n] by (auto simp: mpz_val_def sval_def s3(1) drop_bit_eq_div zdiv_int simp flip: v_def)
      moreover have "z_len (\<sigma>3 d) \<noteq> 0" if "z_neg (\<sigma> l)"
      proof -
        have "v div 2 ^ n \<noteq> 0"
          using that False v0 by (auto simp: div_eq_0_iff)
        then have "0 < length (digits (\<sigma>3 d))"
          using s3(1) by (auto simp: v_def)
        then show ?thesis
          by (simp only: s3(3))
      qed
      ultimately have "mpz_sets d (drop_bit n (mpz_val (\<sigma> l))) \<sigma> \<sigma>3"
        using s3 by (auto simp: mpz_sets_def mpz_ok_def mpz_val_def)
      moreover have "mpz_shr_inpl d l n \<sigma> = Some \<sigma>3"
        using run up False by (metis (no_types))
      ultimately show ?thesis
        using that by blast
    qed
  qed
qed

text \<open>
  In place the digits of a negative number are overwritten before the bits that the shift drops are looked at, so
  it is the magnitude of the result that decides whether one is added; a number of fewer bits than the count
  becomes a negative zero.
\<close>

lemma mpz_shr_inpl_in_place:
  assumes "mpz_ok (\<sigma> d)" and "\<not> z_fixed (\<sigma> d)" and "mpz_val (\<sigma> d) < 0" and "n \<noteq> 0"
  defines "v \<equiv> nat (- mpz_val (\<sigma> d)) div 2 ^ n"
  obtains \<sigma>' where "mpz_shr_inpl d d n \<sigma> = Some \<sigma>'" and "mpz_val (\<sigma>' d) = - int (v + of_bool (v mod 2 ^ n \<noteq> 0))"
    and "z_neg (\<sigma>' d)" and "z_len (\<sigma>' d) = 0 \<longleftrightarrow> v = 0" and "\<And>a. a \<noteq> d \<Longrightarrow> \<sigma>' a = \<sigma> a"
proof -
  have neg: "z_neg (\<sigma> d)"
    using mpz_ok_neg [OF assms(1)] assms(3) by simp
  then have z: "z_len (\<sigma> d) \<noteq> 0"
    using mpz_okD(4) [OF assms(1)] by simp
  have v: "v = mpn_val (digits (\<sigma> d)) div 2 ^ n"
    using neg by (simp add: v_def mpz_val_def sval_def)
  note js = mpz_okD(1,2) [OF assms(1)]
  show ?thesis
  proof (rule mpz_shr_inpl_stored [of \<sigma> d d n, OF assms(1,2) z assms(4)])
    fix \<sigma>3
    assume run: "mpz_shr_inpl d d n \<sigma> =
      (if z_neg (\<sigma> d) \<and> mpz_shr_round_up (\<sigma>3 d) n
       then if z_len (\<sigma>3 d) = 0 then mpz_put d ([1], 1) \<sigma>3
            else mpz_put d (mpn_add (digits (\<sigma>3 d)) [1]) \<sigma>3
       else Some \<sigma>3)"
      and s3: "mpn_val (digits (\<sigma>3 d)) = mpn_val (digits (\<sigma> d)) div 2 ^ n" "normalised (digits (\<sigma>3 d))"
        "length (digits (\<sigma>3 d)) = z_len (\<sigma>3 d)" "z_len (\<sigma>3 d) \<le> length (z_dig (\<sigma>3 d))" "z_neg (\<sigma>3 d) = z_neg (\<sigma> d)"
        "\<not> z_fixed (\<sigma>3 d)" "\<And>a. a \<noteq> d \<Longrightarrow> \<sigma>3 a = \<sigma> a" "2 \<le> length (z_dig (\<sigma>3 d))" "z_len (\<sigma> d) \<le> length (z_dig (\<sigma>3 d))"
    have up: "mpz_shr_round_up (\<sigma>3 d) n \<longleftrightarrow> v mod 2 ^ n \<noteq> 0"
      using mpz_shr_round_up_iff [OF s3(3), of n] by (simp add: s3(1) v)
    have zero: "z_len (\<sigma>3 d) = 0 \<longleftrightarrow> v = 0"
      using mpn_val_eq_0_iff [OF s3(2)] s3(1,3) by (auto simp: v)
    show ?thesis
    proof (cases "v mod 2 ^ n = 0")
      case True
      then show ?thesis
        using that [of \<sigma>3] run up neg zero s3 by (simp add: mpz_val_def sval_def v)
    next
      case False
      obtain \<sigma>' where "mpz_shr_inpl d d n \<sigma> = Some \<sigma>'" "mpz_sets d (- int (v + 1)) \<sigma> \<sigma>'"
        using mpz_shr_rounded [of \<sigma>3 d "digits (\<sigma> d)" \<sigma>, OF s3(2,3,6) _ js(1) _ s3(8,7)] s3(1,5,9) js(2) run up False neg
          div_pow_less [OF assms(4) mpz_ok_pos [OF assms(1) z]] by (auto simp: v)
      moreover from this have "z_neg (\<sigma>' d)" "z_len (\<sigma>' d) \<noteq> 0"
        using mpz_ok_neg [of "\<sigma>' d"] mpz_okD(4) [of "\<sigma>' d"] by (auto simp: mpz_sets_def)
      ultimately show ?thesis
        using that [of \<sigma>'] False by (cases "v = 0") (auto simp: mpz_sets_def)
    qed
  qed
qed

section \<open>Multiplication\<close>

lemma mpz_store_signed:
  assumes "length ws \<le> length (z_dig (\<tau> d))" and "m \<le> length ws" and "normalised (take m ws)"
    and "\<not> z_fixed (\<tau> d)" and "b \<Longrightarrow> m \<noteq> 0" and "\<And>a. a \<noteq> d \<Longrightarrow> \<tau> a = \<sigma> a"
  obtains \<sigma>' where "mpz_put d (ws, m) \<tau> = Some \<sigma>'" and "z_len (\<sigma>' d) = m" and "digits (\<sigma>' d) = take m ws"
    and "mpz_sets d (sval b (take m ws)) \<sigma> (mpz_put_neg d b \<sigma>')"
proof (rule that [OF mpz_put_some [where \<sigma> = \<tau> and m = m, OF assms(1)]])
qed (use assms in \<open>auto simp: mpz_sets_def mpz_ok_def digits_def mpz_val_def\<close>)

lemma mpz_mul_inpl_ok:
  assumes "mpz_ok (\<sigma> l)" and "mpz_ok (\<sigma> r)" and "\<not> z_fixed (\<sigma> d)"
  obtains \<sigma>' where "mpz_mul_inpl d l r \<sigma> = Some \<sigma>'"
    and "mpz_sets d (mpz_val (\<sigma> l) * mpz_val (\<sigma> r)) \<sigma> \<sigma>'"
proof (cases "z_len (\<sigma> l) = 0 \<or> z_len (\<sigma> r) = 0")
  case True
  then have v: "mpz_val (\<sigma> l) * mpz_val (\<sigma> r) = sint (0 :: 32 word)"
    using mpz_ok_zero [OF assms(1)] mpz_ok_zero [OF assms(2)] by auto
  have run: "mpz_mul_inpl d l r \<sigma> = mpz_set_from_int d 0 \<sigma>"
    using True by (simp add: mpz_mul_inpl_def)
  show ?thesis
    by (rule mpz_set_from_int_ok [where \<sigma> = \<sigma> and d = d and w = 0, OF assms(3)])
      (rule that; simp only: run v)
next
  case False
  define J where "J = digits (\<sigma> l)"
  define K where "K = digits (\<sigma> r)"
  define temp where "temp = (if l = d \<or> r = d then (\<sigma> d)\<lparr>z_fixed := False\<rparr> else mpz_zero)"
  define get where "get = (\<lambda>p \<tau>. if p = d then temp else \<tau> p)"
  have "z_dig (\<sigma> d) \<noteq> []" if "l = d \<or> r = d"
    using that False mpz_okD(3) [OF assms(1)] mpz_okD(3) [OF assms(2)] by auto
  then have clone: "(if l = d \<or> r = d then mpz_clone (\<sigma> d) else Some mpz_zero) = Some temp"
    by (simp add: temp_def mpz_clone_def)
  have get: "digits (get l \<tau>) = J" "digits (get r \<tau>) = K" "z_neg (get l \<tau>) = z_neg (\<sigma> l)"
    "z_neg (get r \<tau>) = z_neg (\<sigma> r)" "z_len (get l \<tau>) = length J" "z_len (get r \<tau>) = length K"
    if "\<And>a. a \<noteq> d \<Longrightarrow> \<tau> a = \<sigma> a" for \<tau>
    using that mpz_okD(2) [OF assms(1)] mpz_okD(2) [OF assms(2)]
    by (auto simp: get_def temp_def J_def K_def digits_def)
  have nz: "J \<noteq> []" "K \<noteq> []" and norm: "normalised J" "normalised K"
    using False mpz_okD(1,2) [OF assms(1)] mpz_okD(1,2) [OF assms(2)] by (auto simp: J_def K_def)
  obtain \<sigma>1 where need: "mpz_need_dig d (length J + length K) \<sigma> = Some \<sigma>1"
    and room: "mpz_room d (length J + length K) \<sigma> \<sigma>1"
    using assms(3) mpz_need_dig_room [of \<sigma> d "length J + length K"] by blast
  define N where "N = length (z_dig (\<sigma>1 d))"
  obtain \<sigma>2 where clear: "mpz_clear d N \<sigma>1 = Some \<sigma>2" and z2: "z_dig (\<sigma>2 d) = replicate N 0"
    by (simp add: mpz_clear_def mpz_put_def N_def)
  note f2 = mpz_put_frame [OF clear [unfolded mpz_clear_def]]
  obtain ws m where mul: "mpn_mul (replicate N 0) J K = (ws, m)"
    by fastforce
  have "length J + length K \<le> N"
    using mpz_room_length [OF room] by (simp add: N_def)
  note c = mpn_mul_correct [OF norm nz this mul]
  have "0 < mpn_val J * mpn_val K"
    using mpn_val_eq_0_iff [OF norm(1)] mpn_val_eq_0_iff [OF norm(2)] nz by simp
  then have m0: "m \<noteq> 0"
    using c(4) by (cases "m = 0") auto
  define b where "b \<longleftrightarrow> z_neg (\<sigma> l) \<noteq> z_neg (\<sigma> r)"
  have 2: "length ws \<le> length (z_dig (\<sigma>2 d))" "\<not> z_fixed (\<sigma>2 d)" "\<And>a. a \<noteq> d \<Longrightarrow> \<sigma>2 a = \<sigma> a"
    using c(1) z2 f2 assms(3) mpz_room [OF room] by simp_all
  have m: "m \<le> length ws"
    using c(1,2) \<open>length J + length K \<le> N\<close> by simp
  obtain \<sigma>3 where put: "mpz_put d (ws, m) \<sigma>2 = Some \<sigma>3"
    and s: "mpz_sets d (sval b (take m ws)) \<sigma> (mpz_put_neg d b \<sigma>3)"
    by (rule mpz_store_signed [where \<tau> = \<sigma>2 and d = d and b = b and \<sigma> = \<sigma> and ws = ws and m = m])
      (use 2 c(3) m m0 in auto)
  have 3: "\<And>a. a \<noteq> d \<Longrightarrow> \<sigma>3 a = \<sigma> a"
    using mpz_put_frame(1) [OF put] 2(3) by simp
  have unf: "mpz_mul_inpl d l r \<sigma> = do { \<sigma>1 \<leftarrow> mpz_need_dig d (z_len (get l \<sigma>) + z_len (get r \<sigma>)) \<sigma>;
      \<sigma>2 \<leftarrow> mpz_clear d (length (z_dig (\<sigma>1 d))) \<sigma>1;
      \<sigma>3 \<leftarrow> mpz_put d (mpn_mul (z_dig (\<sigma>2 d)) (digits (get l \<sigma>2)) (digits (get r \<sigma>2))) \<sigma>2;
      Some (mpz_put_neg d (z_neg (get l \<sigma>3) \<noteq> z_neg (get r \<sigma>3)) \<sigma>3) }"
    unfolding mpz_mul_inpl_def clone Let_def get_def using False by simp
  have "mpz_mul_inpl d l r \<sigma> = Some (mpz_put_neg d b \<sigma>3)"
    unfolding unf get(5,6) [OF refl] need using clear put mul z2
    by (simp add: get [OF 2(3)] get [OF 3] b_def flip: N_def)
  moreover have "sval b (take m ws) = mpz_val (\<sigma> l) * mpz_val (\<sigma> r)"
    by (simp add: sval_def b_def c(4) mpz_val_def J_def K_def)
  ultimately show ?thesis
    using that s by simp
qed

section \<open>Division\<close>

lemma mpz_okI_sval:
  assumes "z_len z \<le> length (z_dig z)" and "normalised (digits z)" and "z_neg z \<Longrightarrow> z_len z \<noteq> 0"
  shows "mpz_ok z"
  using assms by (simp add: mpz_ok_def)

text \<open>The division of the magnitudes, up to the test of the signs.\<close>

lemma mpz_divmod_mag:
  assumes "mpz_ok (\<sigma> l)" and "mpz_ok (\<sigma> r)" and "mpz_val (\<sigma> r) \<noteq> 0"
    and "\<not> z_fixed (\<sigma> q)" and "\<not> z_fixed (\<sigma> m)" and "q \<noteq> m" and "q \<noteq> l" and "q \<noteq> r" and "m \<noteq> r"
  defines "Q \<equiv> \<bar>mpz_val (\<sigma> l)\<bar> div \<bar>mpz_val (\<sigma> r)\<bar>"
    and "M \<equiv> \<bar>mpz_val (\<sigma> l)\<bar> mod \<bar>mpz_val (\<sigma> r)\<bar>"
  obtains \<sigma>8 where "mpz_divmod_inpl q m l r \<sigma> =
      (if z_neg (\<sigma>8 l) \<noteq> z_neg (\<sigma>8 r)
       then let \<sigma>9 = mpz_put_neg q (z_len (\<sigma>8 q) \<noteq> 0) \<sigma>8
            in if \<not> mpz_is_zero (\<sigma>9 m)
               then do { \<sigma>10 \<leftarrow> mpz_init_from_int (Tmp 3) (- 1) \<sigma>9;
                         \<sigma>11 \<leftarrow> mpz_add_inpl q q (Tmp 3) \<sigma>10;
                         mpz_add_inpl m m r \<sigma>11 }
               else Some \<sigma>9
       else Some \<sigma>8)"
    and "mpz_ok (\<sigma>8 q)" and "\<not> z_fixed (\<sigma>8 q)" and "mpz_val (\<sigma>8 q) = Q" and "\<not> z_neg (\<sigma>8 q)"
    and "mpz_ok (\<sigma>8 m)" and "\<not> z_fixed (\<sigma>8 m)" and "mpz_val (\<sigma>8 m) = (if z_neg (\<sigma> l) then - M else M)"
    and "\<And>a. a \<noteq> q \<Longrightarrow> a \<noteq> m \<Longrightarrow> \<sigma>8 a = \<sigma> a"
proof -
  define n where "n = z_len (\<sigma> l) + 1"
  note okl = mpz_okD [OF assms(1)] and okr = mpz_okD [OF assms(2)]
  obtain \<sigma>1 where need1: "mpz_need_dig q n \<sigma> = Some \<sigma>1" and room1: "mpz_room q n \<sigma> \<sigma>1"
    using assms(4) mpz_need_dig_room [of \<sigma> q n] by blast
  have 1: "\<And>a. a \<noteq> q \<Longrightarrow> \<sigma>1 a = \<sigma> a" "\<not> z_fixed (\<sigma>1 q)" "n \<le> length (z_dig (\<sigma>1 q))"
    using mpz_room_length [OF room1] assms(4) by (simp_all add: mpz_room [OF room1])
  then obtain \<sigma>2 where clear: "mpz_clear q n \<sigma>1 = Some \<sigma>2"
    by (simp add: mpz_clear_def mpz_put_def)
  note f2 = mpz_put_frame [OF clear [unfolded mpz_clear_def]]
  define \<sigma>3 where "\<sigma>3 = \<sigma>2(q := (\<sigma>2 q)\<lparr>z_neg := False, z_len := 0\<rparr>)"
  have 3: "\<And>a. a \<noteq> q \<Longrightarrow> \<sigma>3 a = \<sigma> a" "\<not> z_fixed (\<sigma>3 q)" "n \<le> length (z_dig (\<sigma>3 q))" "\<not> z_neg (\<sigma>3 q)"
    using 1 f2 by (simp_all add: \<sigma>3_def)
  obtain \<sigma>4 where need4: "mpz_need_dig m n \<sigma>3 = Some \<sigma>4" and room4: "mpz_room m n \<sigma>3 \<sigma>4"
    using assms(5,6) 3(1) [of m] mpz_need_dig_room [of \<sigma>3 m n] by auto
  have 4: "\<And>a. a \<noteq> m \<Longrightarrow> \<sigma>4 a = \<sigma>3 a" "\<not> z_fixed (\<sigma>4 m)" "n \<le> length (z_dig (\<sigma>4 m))" "mpz_ok (\<sigma>4 l)"
      "digits (\<sigma>4 l) = digits (\<sigma> l)" "z_len (\<sigma>4 l) = z_len (\<sigma> l)" "z_neg (\<sigma>4 l) = z_neg (\<sigma> l)"
    using mpz_room_length [OF room4] assms(1,5,6,7) 3(1) by (simp_all add: mpz_room [OF room4])
  obtain \<sigma>5 where set5: "mpz_set m l \<sigma>4 = Some \<sigma>5" and s5: "mpz_sets m (mpz_val (\<sigma>4 l)) \<sigma>4 \<sigma>5"
    and d5: "z_neg (\<sigma>5 m) = z_neg (\<sigma>4 l)" "z_len (\<sigma>5 m) = z_len (\<sigma>4 l)" "digits (\<sigma>5 m) = digits (\<sigma>4 l)"
      "length (z_dig (\<sigma>4 m)) \<le> length (z_dig (\<sigma>5 m))"
    by (rule mpz_set_ok [where \<sigma> = \<sigma>4 and d = m and s = l]) (use 4 in auto)
  have 5: "\<And>a. a \<noteq> q \<Longrightarrow> a \<noteq> m \<Longrightarrow> \<sigma>5 a = \<sigma> a" "\<not> z_fixed (\<sigma>5 m)" "\<sigma>5 q = \<sigma>3 q" "\<sigma>5 r = \<sigma> r"
      "z_neg (\<sigma>5 m) = z_neg (\<sigma> l)"
    using mpz_setsD [OF s5] 3 4 d5 assms(6,8,9) by simp_all
  obtain num' rl quo' ql where div: "mpn_div (z_dig (\<sigma>5 m)) (z_len (\<sigma>5 m)) (digits (\<sigma>5 r)) (z_dig (\<sigma>5 q)) =
      Some ((num', rl), (quo', ql))"
    and num: "length num' = length (z_dig (\<sigma>5 m))" "rl \<le> z_len (\<sigma>5 m)" "normalised (take rl num')"
      "mpn_val (take rl num') = mpn_val (digits (\<sigma>5 m)) mod mpn_val (digits (\<sigma>5 r))"
    and quo: "length quo' = length (z_dig (\<sigma>5 q))" "ql \<le> length (z_dig (\<sigma>5 q))" "normalised (take ql quo')"
      "mpn_val (take ql quo') = mpn_val (digits (\<sigma>5 m)) div mpn_val (digits (\<sigma>5 r))"
  proof -
    have "digits (\<sigma>5 r) \<noteq> []"
      using assms(3) 5(4) by (auto simp: mpz_val_def sval_def split: if_splits)
    with mpn_div_correct [of "z_len (\<sigma>5 m)" "z_dig (\<sigma>5 m)" "digits (\<sigma>5 r)" "z_dig (\<sigma>5 q)"] show ?thesis
      using that okl okr 5 d5 4 3 unfolding n_def digits_def [symmetric] by auto
  qed
  have qm: "int (mpn_val (digits (\<sigma>5 m)) div mpn_val (digits (\<sigma>5 r))) = Q"
      "int (mpn_val (digits (\<sigma>5 m)) mod mpn_val (digits (\<sigma>5 r))) = M"
    by (simp_all add: Q_def M_def mpz_abs_val 5(4) d5 4(5) zdiv_int zmod_int)
  obtain \<sigma>6 where put6: "mpz_put m (num', rl) \<sigma>5 = Some \<sigma>6"
    and d6: "z_len (\<sigma>6 m) = rl" "digits (\<sigma>6 m) = take rl num'"
    and s6: "mpz_sets m (sval (z_neg (\<sigma> l) \<and> rl \<noteq> 0) (take rl num')) \<sigma>5
      (mpz_put_neg m (z_neg (\<sigma> l) \<and> rl \<noteq> 0) \<sigma>6)"
    by (rule mpz_store_signed [where \<tau> = \<sigma>5 and \<sigma> = \<sigma>5 and ws = num' and m = rl and d = m
          and b = "z_neg (\<sigma> l) \<and> rl \<noteq> 0"]) (use num 5 mpz_setsD(1) [OF s5, THEN mpz_okD(3)] in auto)
  note f6 = mpz_put_frame [OF put6]
  obtain \<sigma>7 where put7: "mpz_put q (quo', ql) \<sigma>6 = Some \<sigma>7"
    and d7: "digits (\<sigma>7 q) = take ql quo'" and s7: "mpz_sets q (sval False (take ql quo')) \<sigma>6 (mpz_put_neg q False \<sigma>7)"
    by (rule mpz_store_signed [where \<tau> = \<sigma>6 and \<sigma> = \<sigma>6 and ws = quo' and m = ql and d = q and b = False])
      (use quo f6 5 3 assms(6) in auto)
  note f7 = mpz_put_frame [OF put7]
  have same: "mpz_put_neg q False \<sigma>7 q = \<sigma>7 q"
    using f7(4) [of q] f6(4) [of q] 5(3) 3(4) by simp
  define \<sigma>8 where "\<sigma>8 = mpz_put_neg m (z_neg (\<sigma> l) \<and> rl \<noteq> 0) \<sigma>7"
  have m8: "\<sigma>8 m = mpz_put_neg m (z_neg (\<sigma> l) \<and> rl \<noteq> 0) \<sigma>6 m"
    using f7(1) [of m] assms(6) by (simp add: \<sigma>8_def)
  have q8: "\<sigma>8 q = mpz_put_neg q False \<sigma>7 q"
    using same assms(6) by (simp add: \<sigma>8_def)
  show ?thesis
  proof (rule that [of \<sigma>8])
    have "z_neg (\<sigma>7 m) = z_neg (\<sigma> l)" "z_len (\<sigma>7 m) = rl"
      using f7(4) [of m] f6(4) [of m] f7(1) [of m] d6 5(5) assms(6) by simp_all
    then have e8: "mpz_put_neg m (z_neg (\<sigma>7 m) \<and> z_len (\<sigma>7 m) \<noteq> 0) \<sigma>7 = \<sigma>8"
      by (simp add: \<sigma>8_def)
    have e0: "mpz_is_zero (\<sigma> r) = False" "z_len (\<sigma> l) + 1 = n" "z_len (\<sigma>1 l) + 1 = n" "z_len (\<sigma>3 l) + 1 = n"
      using assms(2,3,7) 1(1) 3(1) mpz_ok_zero [of "\<sigma> r"] by (simp_all add: n_def mpz_is_zero_def)
    show "mpz_divmod_inpl q m l r \<sigma> =
      (if z_neg (\<sigma>8 l) \<noteq> z_neg (\<sigma>8 r)
       then let \<sigma>9 = mpz_put_neg q (z_len (\<sigma>8 q) \<noteq> 0) \<sigma>8
            in if \<not> mpz_is_zero (\<sigma>9 m)
               then do { \<sigma>10 \<leftarrow> mpz_init_from_int (Tmp 3) (- 1) \<sigma>9;
                         \<sigma>11 \<leftarrow> mpz_add_inpl q q (Tmp 3) \<sigma>10;
                         mpz_add_inpl m m r \<sigma>11 }
               else Some \<sigma>9
       else Some \<sigma>8)"
      by (simp only: mpz_divmod_inpl_def e0 need1 clear need4 set5 div put6 put7 e8 bind.bind_lunit
          \<sigma>3_def [symmetric] prod.case if_False)
    show "mpz_val (\<sigma>8 m) = (if z_neg (\<sigma> l) then - M else M)"
      using mpz_setsD(2) [OF s6] num(2,4) qm(2) unfolding m8 by (cases "rl = 0") (auto simp: sval_def)
    show "mpz_val (\<sigma>8 q) = Q"
      using mpz_setsD(2) [OF s7] quo(4) qm(1) unfolding q8 by (simp add: sval_def)
    show "\<And>a. a \<noteq> q \<Longrightarrow> a \<noteq> m \<Longrightarrow> \<sigma>8 a = \<sigma> a"
      using f7(1) f6(1) 5(1) by (simp add: \<sigma>8_def)
  qed (use mpz_setsD(1,3) [OF s6] mpz_setsD(1,3) [OF s7] in \<open>auto simp: m8 q8 mpz_put_neg_def\<close>)
qed

lemma floor_signs:
  fixes a b :: int
  assumes "b \<noteq> 0"
  defines "Q \<equiv> \<bar>a\<bar> div \<bar>b\<bar>" and "M \<equiv> \<bar>a\<bar> mod \<bar>b\<bar>"
  shows "a div b = (if (a < 0) = (b < 0) then Q else if M = 0 then - Q else - Q - 1)"
    and "a mod b = (if (a < 0) = (b < 0) \<or> M = 0 then (if a < 0 then - M else M)
                    else (if a < 0 then - M else M) + b)"
proof -
  have ne: "a mod b \<noteq> b" "b \<noteq> a mod b"
    using neg_mod_bound [of b a] pos_mod_bound [of b a] assms(1) by (cases "b < 0"; force)+
  show "a div b = (if (a < 0) = (b < 0) then Q else if M = 0 then - Q else - Q - 1)"
    and "a mod b = (if (a < 0) = (b < 0) \<or> M = 0 then (if a < 0 then - M else M)
                    else (if a < 0 then - M else M) + b)"
  unfolding Q_def M_def using assms(1) ne
  by (auto simp: abs_if zdiv_zminus1_eq_if zdiv_zminus2_eq_if zmod_zminus1_eq_if zmod_zminus2_eq_if)
qed

lemma mpz_init_from_int_ok:
  obtains \<sigma>' where "mpz_init_from_int d w \<sigma> = Some \<sigma>'" and "mpz_sets d (sint w) \<sigma> \<sigma>'"
proof (rule mpz_set_from_int_ok [where \<sigma> = "mpz_init_zero d \<sigma>" and d = d and w = w])
  show "\<not> z_fixed (mpz_init_zero d \<sigma> d)"
    by (simp add: mpz_init_zero_def mpz_zero_def)
qed (rule that; auto simp: mpz_init_from_int_def mpz_sets_def mpz_init_zero_def)

lemma mpz_divmod_inpl_ok:
  assumes "mpz_ok (\<sigma> l)" and "mpz_ok (\<sigma> r)" and "mpz_val (\<sigma> r) \<noteq> 0"
    and "\<not> z_fixed (\<sigma> q)" and "\<not> z_fixed (\<sigma> m)" and "q \<noteq> m" and "q \<noteq> l" and "q \<noteq> r" and "m \<noteq> r"
    and "Tmp 3 \<notin> {q, m, l, r}"
  obtains \<sigma>' where "mpz_divmod_inpl q m l r \<sigma> = Some \<sigma>'"
    and "mpz_ok (\<sigma>' m)" and "\<not> z_fixed (\<sigma>' m)" and "mpz_val (\<sigma>' m) = mpz_val (\<sigma> l) mod mpz_val (\<sigma> r)"
    and "mpz_ok (\<sigma>' q)" and "\<not> z_fixed (\<sigma>' q)"
    and "m \<noteq> l \<Longrightarrow> mpz_val (\<sigma>' q) = mpz_val (\<sigma> l) div mpz_val (\<sigma> r)"
    and "\<And>a. a \<notin> {q, m, Tmp 3} \<Longrightarrow> \<sigma>' a = \<sigma> a"
proof -
  define L where "L = mpz_val (\<sigma> l)"
  define R where "R = mpz_val (\<sigma> r)"
  define Q where "Q = \<bar>L\<bar> div \<bar>R\<bar>"
  define M where "M = \<bar>L\<bar> mod \<bar>R\<bar>"
  have R0: "R \<noteq> 0" using assms(3) by (simp add: R_def)
  note signs = floor_signs [OF R0, of L, folded Q_def M_def]
  have nl: "z_neg (\<sigma> l) \<longleftrightarrow> L < 0" and nr: "z_neg (\<sigma> r) \<longleftrightarrow> R < 0"
    using mpz_ok_neg assms(1,2) by (simp_all add: L_def R_def)
  obtain \<sigma>8 where run: "mpz_divmod_inpl q m l r \<sigma> =
      (if z_neg (\<sigma>8 l) \<noteq> z_neg (\<sigma>8 r)
       then let \<sigma>9 = mpz_put_neg q (z_len (\<sigma>8 q) \<noteq> 0) \<sigma>8
            in if \<not> mpz_is_zero (\<sigma>9 m)
               then do { \<sigma>10 \<leftarrow> mpz_init_from_int (Tmp 3) (- 1) \<sigma>9;
                         \<sigma>11 \<leftarrow> mpz_add_inpl q q (Tmp 3) \<sigma>10;
                         mpz_add_inpl m m r \<sigma>11 }
               else Some \<sigma>9
       else Some \<sigma>8)"
    and q8: "mpz_ok (\<sigma>8 q)" "\<not> z_fixed (\<sigma>8 q)" "mpz_val (\<sigma>8 q) = Q" "\<not> z_neg (\<sigma>8 q)"
    and m8: "mpz_ok (\<sigma>8 m)" "\<not> z_fixed (\<sigma>8 m)" "mpz_val (\<sigma>8 m) = (if L < 0 then - M else M)"
    and f8: "\<And>a. a \<noteq> q \<Longrightarrow> a \<noteq> m \<Longrightarrow> \<sigma>8 a = \<sigma> a"
    by (rule mpz_divmod_mag [OF assms(1-9)]) (use nl in \<open>auto simp: Q_def M_def L_def R_def\<close>)
  have r8: "z_neg (\<sigma>8 r) \<longleftrightarrow> R < 0" "mpz_ok (\<sigma>8 r)" "mpz_val (\<sigma>8 r) = R"
    using f8 [of r] nr assms(2,8,9) by (simp_all add: R_def)
  have M: "0 \<le> M"
    using R0 by (simp add: M_def)
  have l8: "z_neg (\<sigma>8 l) \<longleftrightarrow> L < 0 \<and> (m = l \<longrightarrow> M \<noteq> 0)"
    using f8 [of l] nl assms(7) mpz_ok_neg [OF m8(1)] m8(3) M by (cases "m = l") auto
  have zero8: "mpz_is_zero (\<sigma>8 m) \<longleftrightarrow> M = 0"
    using mpz_ok_zero [OF m8(1)] m8(3) by (auto simp: mpz_is_zero_def)
  show ?thesis
  proof (cases "z_neg (\<sigma>8 l) = z_neg (\<sigma>8 r)")
    case True
    then have "mpz_divmod_inpl q m l r \<sigma> = Some \<sigma>8"
      by (simp add: run)
    then show ?thesis
      by (rule that) (use True q8 m8 f8 signs l8 r8(1) in \<open>auto simp flip: L_def R_def\<close>)
  next
    case False
    define \<sigma>9 where "\<sigma>9 = mpz_put_neg q (z_len (\<sigma>8 q) \<noteq> 0) \<sigma>8"
    have q9: "mpz_ok (\<sigma>9 q)" "\<not> z_fixed (\<sigma>9 q)" "mpz_val (\<sigma>9 q) = - Q" and f9: "\<And>a. a \<noteq> q \<Longrightarrow> \<sigma>9 a = \<sigma>8 a"
      using q8 mpz_ok_zero [OF q8(1)] by (auto simp: \<sigma>9_def mpz_ok_def mpz_val_def sval_def digits_def)
    have run9: "mpz_divmod_inpl q m l r \<sigma> =
        (if M \<noteq> 0 then do { \<sigma>10 \<leftarrow> mpz_init_from_int (Tmp 3) (- 1) \<sigma>9;
                         \<sigma>11 \<leftarrow> mpz_add_inpl q q (Tmp 3) \<sigma>10;
                         mpz_add_inpl m m r \<sigma>11 }
         else Some \<sigma>9)"
      using False f9 [of m] assms(6) zero8 unfolding run \<sigma>9_def [symmetric] Let_def by simp
    show ?thesis
    proof (cases "M = 0")
      case True
      then have "mpz_divmod_inpl q m l r \<sigma> = Some \<sigma>9"
        by (simp add: run9)
      then show ?thesis
        by (rule that) (use True False q9 m8 f8 f9 signs l8 r8(1) assms(6) in \<open>auto simp flip: L_def R_def\<close>)
    next
      case M0: False
      obtain \<sigma>10 where i: "mpz_init_from_int (Tmp 3) (- 1) \<sigma>9 = Some \<sigma>10" and s10: "mpz_sets (Tmp 3) (sint (- 1 :: 32 word)) \<sigma>9 \<sigma>10"
        by (rule mpz_init_from_int_ok)
      note d10 = mpz_setsD [OF s10]
      have 10: "\<sigma>10 q = \<sigma>9 q" "\<sigma>10 m = \<sigma>8 m" "\<sigma>10 r = \<sigma>8 r"
        using d10(4) f9 assms(6,8,10) by auto
      obtain \<sigma>11 where a1: "mpz_add_inpl q q (Tmp 3) \<sigma>10 = Some \<sigma>11"
        and s11: "mpz_sets q (mpz_val (\<sigma>10 q) + mpz_val (\<sigma>10 (Tmp 3))) \<sigma>10 \<sigma>11"
        by (rule mpz_add_inpl_ok [where \<sigma> = \<sigma>10 and d = q and l = q and r = "Tmp 3"]) (use 10 q9 d10 in auto)
      note d11 = mpz_setsD [OF s11]
      have 11: "\<sigma>11 m = \<sigma>8 m" "\<sigma>11 r = \<sigma>8 r"
        using d11(4) 10 assms(6,8) by auto
      obtain \<sigma>12 where a2: "mpz_add_inpl m m r \<sigma>11 = Some \<sigma>12"
        and s12: "mpz_sets m (mpz_val (\<sigma>11 m) + mpz_val (\<sigma>11 r)) \<sigma>11 \<sigma>12"
        by (rule mpz_add_inpl_ok [where \<sigma> = \<sigma>11 and d = m and l = m and r = r]) (use 11 m8 r8 in auto)
      note d12 = mpz_setsD [OF s12]
      have q12: "\<sigma>12 q = \<sigma>11 q"
        using d12(4) assms(6) by simp
      have opp: "(L < 0) \<noteq> (R < 0)"
        using False l8 r8(1) M0 by auto
      have "mpz_divmod_inpl q m l r \<sigma> = Some \<sigma>12"
        using M0 i a1 a2 by (simp add: run9)
      then show ?thesis
      proof (rule that)
        show "mpz_val (\<sigma>12 m) = mpz_val (\<sigma> l) mod mpz_val (\<sigma> r)"
          using opp M0 signs(2) d12(2) 11 m8(3) r8(3) by (simp flip: L_def R_def)
        show "mpz_val (\<sigma>12 q) = mpz_val (\<sigma> l) div mpz_val (\<sigma> r)"
          using opp M0 signs(1) d11(2) d10(2) 10 q9(3) by (simp add: q12 flip: L_def R_def)
        show "\<sigma>12 a = \<sigma> a" if "a \<notin> {q, m, Tmp 3}" for a
          using that d12(4) [of a] d11(4) [of a] d10(4) [of a] f9 [of a] f8 [of a] by simp
      qed (use d12 d11 q12 in auto)
    qed
  qed
qed

section \<open>Powers\<close>

lemma mpz_halve_ok:
  assumes "mpz_ok (\<sigma> n)" and "\<not> z_fixed (\<sigma> n)" and "\<not> z_neg (\<sigma> n)"
  obtains \<sigma>' where "mpz_halve n \<sigma> = Some \<sigma>'" and "mpz_sets n (mpz_val (\<sigma> n) div 2) \<sigma> \<sigma>'"
proof -
  obtain ws m where shr: "mpn_shr (digits (\<sigma> n)) 1 = (ws, m)"
    by fastforce
  note c = mpn_shr_correct [OF mpz_okD(1) [OF assms(1)] shr]
  have "length ws \<le> length (z_dig (\<sigma> n))"
    using c(1) mpz_okD(2,3) [OF assms(1)] by simp
  then obtain \<sigma>' where "mpz_put n (ws, m) \<sigma> = Some \<sigma>'" and "mpz_sets n (sval (z_neg (\<sigma> n)) (take m ws)) \<sigma> \<sigma>'"
    by (rule mpz_put_signed [where \<tau> = \<sigma> and \<sigma> = \<sigma> and d = n]) (use c assms in auto)
  then show ?thesis
    using that shr c(4) assms(3) by (simp add: mpz_halve_def sval_def mpz_val_def zdiv_int)
qed

lemma mpz_dig_odd_iff:
  assumes "mpz_ok z" and "z_len z \<noteq> 0"
  shows "mpz_dig_odd z \<longleftrightarrow> odd (mpz_val z)"
proof -
  obtain d ds where d: "digits z = d # ds"
    using mpz_okD(2) [OF assms(1)] assms(2) by (cases "digits z") auto
  then have "z_dig z ! 0 = d"
    by (cases "z_dig z"; cases "z_len z") (auto simp: digits_def)
  moreover have "d AND 1 \<noteq> 0 \<longleftrightarrow> odd (unat d)"
    using unat_and_mask [of d 1] unat_eq_zero [of "d AND 1"] by (simp add: even_iff_mod_2_eq_zero)
  ultimately show ?thesis
    using d by (simp add: mpz_dig_odd_def mpz_val_def sval_def)
qed

lemma mpz_pow_loop_ok:
  assumes "mpz_ok (\<sigma> d)" and "\<not> z_fixed (\<sigma> d)" and "d \<noteq> Tmp 0" and "d \<noteq> Tmp 1"
    and "mpz_ok (\<sigma> (Tmp 0))" and "\<not> z_fixed (\<sigma> (Tmp 0))"
    and "mpz_ok (\<sigma> (Tmp 1))" and "\<not> z_fixed (\<sigma> (Tmp 1))" and "mpz_val (\<sigma> (Tmp 1)) = int n"
  shows "\<exists>\<sigma>'. mpz_pow_loop d \<sigma> = Some \<sigma>' \<and> mpz_ok (\<sigma>' d) \<and> \<not> z_fixed (\<sigma>' d) \<and>
    mpz_val (\<sigma>' d) = mpz_val (\<sigma> d) * mpz_val (\<sigma> (Tmp 0)) ^ n \<and>
    (\<forall>a. a \<notin> {d, Tmp 0, Tmp 1} \<longrightarrow> \<sigma>' a = \<sigma> a)"
  using assms
proof (induction n arbitrary: \<sigma> rule: less_induct)
  case (less n)
  note p = less.prems
  have neg: "\<not> z_neg (\<sigma> (Tmp 1))"
    using mpz_ok_neg [OF p(7)] p(9) by simp
  show ?case
  proof (cases "n = 0")
    case True
    then have "z_len (\<sigma> (Tmp 1)) = 0"
      using mpz_ok_zero [OF p(7)] p(9) by simp
    then show ?thesis
      using True p(1,2) by (simp add: mpz_pow_loop.simps)
  next
    case False
    then have len: "z_len (\<sigma> (Tmp 1)) \<noteq> 0"
      using mpz_ok_zero [OF p(7)] p(9) by simp
    have odd: "mpz_dig_odd (\<sigma> (Tmp 1)) \<longleftrightarrow> odd n"
      using mpz_dig_odd_iff [OF p(7) len] p(9) by simp
    obtain \<sigma>1 where r1: "(if mpz_dig_odd (\<sigma> (Tmp 1)) then mpz_mul_inpl d d (Tmp 0) \<sigma> else Some \<sigma>) = Some \<sigma>1"
      and s1: "mpz_sets d (mpz_val (\<sigma> d) * (if odd n then mpz_val (\<sigma> (Tmp 0)) else 1)) \<sigma> \<sigma>1"
    proof (cases "odd n")
      case True
      show ?thesis
        by (rule mpz_mul_inpl_ok [OF p(1,5,2)], rule that) (use True odd in auto)
    next
      case False
      show ?thesis
        by (rule that) (use False odd p(1,2) in \<open>auto simp: mpz_sets_def\<close>)
    qed
    have 1: "\<sigma>1 (Tmp 0) = \<sigma> (Tmp 0)" "\<sigma>1 (Tmp 1) = \<sigma> (Tmp 1)"
      using mpz_setsD(4) [OF s1] p(3,4) by auto
    obtain \<sigma>2 where r2: "mpz_halve (Tmp 1) \<sigma>1 = Some \<sigma>2" and s2: "mpz_sets (Tmp 1) (mpz_val (\<sigma>1 (Tmp 1)) div 2) \<sigma>1 \<sigma>2"
      by (rule mpz_halve_ok [where \<sigma> = \<sigma>1 and n = "Tmp 1"]) (use 1 p(7,8) neg in auto)
    have n2: "mpz_val (\<sigma>2 (Tmp 1)) = int (n div 2)"
      using mpz_setsD(2) [OF s2] 1(2) p(9) by (simp add: zdiv_int)
    have 2: "\<sigma>2 (Tmp 0) = \<sigma> (Tmp 0)" "\<sigma>2 d = \<sigma>1 d"
      using mpz_setsD(4) [OF s2] 1 p(4) by auto
    have zero: "z_len (\<sigma>2 (Tmp 1)) = 0 \<longleftrightarrow> n div 2 = 0"
      using mpz_ok_zero [OF mpz_setsD(1) [OF s2]] n2 by simp
    have pow: "x * (if odd n then y else 1) * (y * y) ^ (n div 2) = x * y ^ n" for x y :: int
    proof -
      have "y ^ n = y ^ (n mod 2 + 2 * (n div 2))"
        by simp
      also have "\<dots> = (if odd n then y else 1) * (y * y) ^ (n div 2)"
        by (simp only: power_add power_mult power2_eq_square) (simp add: odd_iff_mod_2_eq_one)
      finally show ?thesis by simp
    qed
    show ?thesis
    proof (cases "n div 2 = 0")
      case True
      then have "mpz_pow_loop d \<sigma> = Some \<sigma>2"
        using r1 r2 len zero by (subst mpz_pow_loop.simps) simp
      moreover have "mpz_val (\<sigma>2 d) = mpz_val (\<sigma> d) * mpz_val (\<sigma> (Tmp 0)) ^ n"
        using mpz_setsD(2) [OF s1] pow [of "mpz_val (\<sigma> d)" "mpz_val (\<sigma> (Tmp 0))"] True 2 by simp
      ultimately show ?thesis
        using mpz_setsD(1,3) [OF s1] mpz_setsD(4) [OF s1] mpz_setsD(4) [OF s2] 2(2) by auto
    next
      case False
      obtain \<sigma>3 where r3: "mpz_mul_inpl (Tmp 0) (Tmp 0) (Tmp 0) \<sigma>2 = Some \<sigma>3"
        and s3: "mpz_sets (Tmp 0) (mpz_val (\<sigma>2 (Tmp 0)) * mpz_val (\<sigma>2 (Tmp 0))) \<sigma>2 \<sigma>3"
        by (rule mpz_mul_inpl_ok [where \<sigma> = \<sigma>2 and d = "Tmp 0" and l = "Tmp 0" and r = "Tmp 0"])
          (use 2 p(5,6) in auto)
      have 3: "\<sigma>3 d = \<sigma>1 d" "\<sigma>3 (Tmp 1) = \<sigma>2 (Tmp 1)"
        using mpz_setsD(4) [OF s3] 2 p(3) by auto
      have "n div 2 < n"
        using False by simp
      from less.IH [OF this, of \<sigma>3] obtain \<sigma>' where r4: "mpz_pow_loop d \<sigma>3 = Some \<sigma>'"
        and ok: "mpz_ok (\<sigma>' d)" "\<not> z_fixed (\<sigma>' d)"
        and v: "mpz_val (\<sigma>' d) = mpz_val (\<sigma>3 d) * mpz_val (\<sigma>3 (Tmp 0)) ^ (n div 2)"
        and f: "\<forall>a. a \<notin> {d, Tmp 0, Tmp 1} \<longrightarrow> \<sigma>' a = \<sigma>3 a"
        using 3 mpz_setsD(1-3) [OF s1] mpz_setsD(1-3) [OF s2] mpz_setsD(1-3) [OF s3] p(3,4) n2 by auto
      have "mpz_pow_loop d \<sigma> = Some \<sigma>'"
        using r1 r2 r3 r4 len zero False by (subst mpz_pow_loop.simps) simp
      moreover have "mpz_val (\<sigma>' d) = mpz_val (\<sigma> d) * mpz_val (\<sigma> (Tmp 0)) ^ n"
        using v mpz_setsD(2) [OF s1] mpz_setsD(2) [OF s3] 2 3
          pow [of "mpz_val (\<sigma> d)" "mpz_val (\<sigma> (Tmp 0))"] by simp
      moreover have "\<sigma>' a = \<sigma> a" if "a \<notin> {d, Tmp 0, Tmp 1}" for a
        using that f mpz_setsD(4) [OF s1, of a] mpz_setsD(4) [OF s2, of a] mpz_setsD(4) [OF s3, of a] by simp
      ultimately show ?thesis
        using ok by blast
    qed
  qed
qed

lemma mpz_clone_ok:
  assumes "mpz_ok z" and "z_len z \<noteq> 0"
  obtains z' where "mpz_clone z = Some z'" and "mpz_ok z'" and "\<not> z_fixed z'" and "mpz_val z' = mpz_val z"
    and "z_len z' = z_len z"
proof (rule that)
  show "mpz_clone z = Some (z\<lparr>z_fixed := False\<rparr>)"
    using mpz_okD(3) [OF assms(1)] assms(2) by (auto simp: mpz_clone_def)
qed (use assms(1) in \<open>auto simp: mpz_ok_def mpz_val_def digits_def\<close>)

text \<open>\<open>0 ** 0\<close> is \<open>0\<close> here.\<close>

lemma mpz_pow_inpl_ok:
  assumes "mpz_ok (\<sigma> l)" and "mpz_ok (\<sigma> r)" and "\<not> z_fixed (\<sigma> d)" and "d \<notin> {Tmp 0, Tmp 1}"
  obtains \<sigma>' where "mpz_pow_inpl d l r \<sigma> = Some \<sigma>'" and "mpz_ok (\<sigma>' d)" and "\<not> z_fixed (\<sigma>' d)"
    and "mpz_val (\<sigma>' d) = (if mpz_val (\<sigma> l) = 0 \<or> mpz_val (\<sigma> r) < 0 then 0
                           else mpz_val (\<sigma> l) ^ nat (mpz_val (\<sigma> r)))"
    and "\<And>a. a \<notin> {d, Tmp 0, Tmp 1} \<Longrightarrow> \<sigma>' a = \<sigma> a"
proof -
  note z = mpz_ok_zero [OF assms(1)] mpz_ok_zero [OF assms(2)] mpz_ok_neg [OF assms(2)]
  consider "mpz_val (\<sigma> l) = 0 \<or> mpz_val (\<sigma> r) < 0" | "mpz_val (\<sigma> l) \<noteq> 0" "mpz_val (\<sigma> r) = 0"
    | "mpz_val (\<sigma> l) \<noteq> 0" "0 < mpz_val (\<sigma> r)"
    by linarith
  then show ?thesis
  proof cases
    case 1
    then have run: "mpz_pow_inpl d l r \<sigma> = mpz_set_from_int d 0 \<sigma>"
      using z by (auto simp: mpz_pow_inpl_def)
    obtain \<sigma>' where "mpz_set_from_int d 0 \<sigma> = Some \<sigma>'" "mpz_sets d (sint (0 :: 32 word)) \<sigma> \<sigma>'"
      by (rule mpz_set_from_int_ok [where \<sigma> = \<sigma> and d = d and w = 0, OF assms(3)])
    then show ?thesis
      using 1 run by (intro that [of \<sigma>']) (auto simp: mpz_sets_def)
  next
    case 2
    then have run: "mpz_pow_inpl d l r \<sigma> = mpz_set_from_int d 1 \<sigma>"
      using z by (auto simp: mpz_pow_inpl_def)
    obtain \<sigma>' where "mpz_set_from_int d 1 \<sigma> = Some \<sigma>'" "mpz_sets d (sint (1 :: 32 word)) \<sigma> \<sigma>'"
      by (rule mpz_set_from_int_ok [where \<sigma> = \<sigma> and d = d and w = 1, OF assms(3)])
    then show ?thesis
      using 2 run by (intro that [of \<sigma>']) (auto simp: mpz_sets_def)
  next
    case 3
    obtain x where x: "mpz_clone (\<sigma> l) = Some x" "mpz_ok x" "\<not> z_fixed x" "mpz_val x = mpz_val (\<sigma> l)"
      by (rule mpz_clone_ok [OF assms(1)]) (use z 3 in auto)
    obtain n where n: "mpz_clone (\<sigma> r) = Some n" "mpz_ok n" "\<not> z_fixed n" "mpz_val n = mpz_val (\<sigma> r)"
      by (rule mpz_clone_ok [OF assms(2)]) (use z 3 in auto)
    define \<sigma>0 where "\<sigma>0 = \<sigma>(Tmp 0 := x, Tmp 1 := n)"
    obtain \<sigma>1 where r1: "mpz_set_from_int d 1 \<sigma>0 = Some \<sigma>1" and s1: "mpz_sets d (sint (1 :: 32 word)) \<sigma>0 \<sigma>1"
      by (rule mpz_set_from_int_ok [where \<sigma> = \<sigma>0 and d = d and w = 1]) (use assms(3,4) in \<open>auto simp: \<sigma>0_def\<close>)
    have 1: "\<sigma>1 (Tmp 0) = x" "\<sigma>1 (Tmp 1) = n"
      using mpz_setsD(4) [OF s1] assms(4) by (auto simp: \<sigma>0_def)
    from mpz_pow_loop_ok [of \<sigma>1 d "nat (mpz_val (\<sigma> r))"] obtain \<sigma>' where
      "mpz_pow_loop d \<sigma>1 = Some \<sigma>'" "mpz_ok (\<sigma>' d)" "\<not> z_fixed (\<sigma>' d)"
      "mpz_val (\<sigma>' d) = mpz_val (\<sigma>1 d) * mpz_val x ^ nat (mpz_val (\<sigma> r))"
      "\<forall>a. a \<notin> {d, Tmp 0, Tmp 1} \<longrightarrow> \<sigma>' a = \<sigma>1 a"
      using mpz_setsD(1-3) [OF s1] assms(4) 1 x n 3 by auto
    moreover from this(1) have "mpz_pow_inpl d l r \<sigma> = Some \<sigma>'"
      using 3 z x(1) n(1) r1 by (simp add: mpz_pow_inpl_def \<sigma>0_def)
    ultimately show ?thesis
      using that 3 x(4) mpz_setsD(2) [OF s1] mpz_setsD(4) [OF s1] by (auto simp: \<sigma>0_def)
  qed
qed

lemma mod_pow_step:
  fixes x y m :: int
  shows "((if odd n then x * y mod m else x) * (y * y mod m) ^ (n div 2)) mod m = x * y ^ n mod m"
proof -
  have "y ^ n = y ^ (n mod 2 + 2 * (n div 2))"
    by simp
  also have "\<dots> = (if odd n then y else 1) * (y * y) ^ (n div 2)"
    by (simp only: power_add power_mult power2_eq_square) (simp add: odd_iff_mod_2_eq_one)
  finally have "x * y ^ n mod m = (if odd n then x * y else x) * (y * y) ^ (n div 2) mod m"
    by (simp add: mult.assoc)
  also have "\<dots> = ((if odd n then x * y mod m else x) * (y * y mod m) ^ (n div 2)) mod m"
    by (simp add: mod_mult_left_eq) (metis (no_types) mod_mult_eq mod_mod_trivial power_mod)
  finally show ?thesis by simp
qed

lemma mpz_pow3_loop_ok:
  assumes "mpz_ok (\<sigma> (Ob d))" and "\<not> z_fixed (\<sigma> (Ob d))"
    and "mpz_ok (\<sigma> (Ob k))" and "d \<noteq> k" and "mpz_val (\<sigma> (Ob k)) \<noteq> 0"
    and "mpz_ok (\<sigma> (Tmp 0))" and "\<not> z_fixed (\<sigma> (Tmp 0))"
    and "mpz_ok (\<sigma> (Tmp 1))" and "\<not> z_fixed (\<sigma> (Tmp 1))" and "mpz_val (\<sigma> (Tmp 1)) = int n" and "0 < n"
    and "\<not> z_fixed (\<sigma> (Tmp 2))"
  shows "\<exists>\<sigma>'. mpz_pow3_loop (Ob d) (Ob k) \<sigma> = Some \<sigma>' \<and> mpz_ok (\<sigma>' (Ob d)) \<and> \<not> z_fixed (\<sigma>' (Ob d)) \<and>
    mpz_val (\<sigma>' (Ob d)) = mpz_val (\<sigma> (Ob d)) * mpz_val (\<sigma> (Tmp 0)) ^ n mod mpz_val (\<sigma> (Ob k)) \<and>
    (\<forall>i. i \<noteq> d \<longrightarrow> \<sigma>' (Ob i) = \<sigma> (Ob i))"
  using assms
proof (induction n arbitrary: \<sigma> rule: less_induct)
  case (less n)
  note p = less.prems
  define m where "m = mpz_val (\<sigma> (Ob k))"
  define x where "x = mpz_val (\<sigma> (Tmp 0))"
  have neg: "\<not> z_neg (\<sigma> (Tmp 1))"
    using mpz_ok_neg [OF p(8)] p(10) by simp
  have len: "z_len (\<sigma> (Tmp 1)) \<noteq> 0"
    using mpz_ok_zero [OF p(8)] p(10,11) by simp
  have odd: "mpz_dig_odd (\<sigma> (Tmp 1)) \<longleftrightarrow> odd n"
    using mpz_dig_odd_iff [OF p(8) len] p(10) by simp
  obtain \<sigma>1 where r1: "(if mpz_dig_odd (\<sigma> (Tmp 1))
      then do { \<tau> \<leftarrow> mpz_mul_inpl (Ob d) (Ob d) (Tmp 0) \<sigma>;
                mpz_divmod_inpl (Tmp 2) (Ob d) (Ob d) (Ob k) \<tau> }
      else Some \<sigma>) = Some \<sigma>1"
    and ok1: "mpz_ok (\<sigma>1 (Ob d))" "\<not> z_fixed (\<sigma>1 (Ob d))" "\<not> z_fixed (\<sigma>1 (Tmp 2))"
    and v1: "mpz_val (\<sigma>1 (Ob d)) = (if odd n then mpz_val (\<sigma> (Ob d)) * x mod m else mpz_val (\<sigma> (Ob d)))"
    and f1: "\<And>a. a \<notin> {Ob d, Tmp 2, Tmp 3} \<Longrightarrow> \<sigma>1 a = \<sigma> a"
  proof (cases "odd n")
    case True
    obtain \<tau> where t: "mpz_mul_inpl (Ob d) (Ob d) (Tmp 0) \<sigma> = Some \<tau>"
      and st: "mpz_sets (Ob d) (mpz_val (\<sigma> (Ob d)) * x) \<sigma> \<tau>"
      unfolding x_def by (rule mpz_mul_inpl_ok [OF p(1,6,2)])
    note dt = mpz_setsD [OF st]
    obtain \<sigma>1 where "mpz_divmod_inpl (Tmp 2) (Ob d) (Ob d) (Ob k) \<tau> = Some \<sigma>1"
      "mpz_ok (\<sigma>1 (Ob d))" "\<not> z_fixed (\<sigma>1 (Ob d))" "mpz_val (\<sigma>1 (Ob d)) = mpz_val (\<tau> (Ob d)) mod mpz_val (\<tau> (Ob k))"
      "\<not> z_fixed (\<sigma>1 (Tmp 2))" "\<And>a. a \<notin> {Tmp 2, Ob d, Tmp 3} \<Longrightarrow> \<sigma>1 a = \<tau> a"
      by (rule mpz_divmod_inpl_ok [where \<sigma> = \<tau> and q = "Tmp 2" and m = "Ob d" and l = "Ob d" and r = "Ob k"])
        (use dt p in auto)
    then show ?thesis
      using True t odd dt p(4) by (intro that [of \<sigma>1]) (auto simp: m_def)
  next
    case False
    show ?thesis
      by (rule that [of \<sigma>]) (use False odd p in auto)
  qed
  have 1: "\<sigma>1 (Tmp 0) = \<sigma> (Tmp 0)" "\<sigma>1 (Tmp 1) = \<sigma> (Tmp 1)" "\<sigma>1 (Ob k) = \<sigma> (Ob k)"
    using f1 p(4) by auto
  obtain \<sigma>2 where r2: "mpz_halve (Tmp 1) \<sigma>1 = Some \<sigma>2" and s2: "mpz_sets (Tmp 1) (mpz_val (\<sigma>1 (Tmp 1)) div 2) \<sigma>1 \<sigma>2"
    by (rule mpz_halve_ok [where \<sigma> = \<sigma>1 and n = "Tmp 1"]) (use 1 p(8,9) neg in auto)
  note d2 = mpz_setsD [OF s2]
  have n2: "mpz_val (\<sigma>2 (Tmp 1)) = int (n div 2)"
    using d2(2) 1(2) p(10) by (simp add: zdiv_int)
  have zero: "z_len (\<sigma>2 (Tmp 1)) = 0 \<longleftrightarrow> n div 2 = 0"
    using mpz_ok_zero [OF d2(1)] n2 by simp
  note pow = mod_pow_step [of n "mpz_val (\<sigma> (Ob d))" x m]
  show ?case
  proof (cases "n div 2 = 0")
    case True
    then have "n = 1"
      using p(11) by simp
    have "mpz_pow3_loop (Ob d) (Ob k) \<sigma> = Some \<sigma>2"
      using r1 r2 len zero True by (subst mpz_pow3_loop.simps) (simp del: bind_assoc)
    moreover have "mpz_val (\<sigma>2 (Ob d)) = mpz_val (\<sigma> (Ob d)) * x ^ n mod m"
      using v1 d2(4) \<open>n = 1\<close> by simp
    ultimately show ?thesis
      using ok1 d2(4) f1 by (auto simp: m_def x_def)
  next
    case False
    obtain \<sigma>3 where r3: "mpz_mul_inpl (Tmp 0) (Tmp 0) (Tmp 0) \<sigma>2 = Some \<sigma>3"
      and s3: "mpz_sets (Tmp 0) (mpz_val (\<sigma>2 (Tmp 0)) * mpz_val (\<sigma>2 (Tmp 0))) \<sigma>2 \<sigma>3"
      by (rule mpz_mul_inpl_ok [where \<sigma> = \<sigma>2 and d = "Tmp 0" and l = "Tmp 0" and r = "Tmp 0"])
        (use 1 d2 p(6,7) in auto)
    note d3 = mpz_setsD [OF s3]
    obtain \<sigma>4 where r4: "mpz_divmod_inpl (Tmp 2) (Tmp 0) (Tmp 0) (Ob k) \<sigma>3 = Some \<sigma>4"
      and ok4: "mpz_ok (\<sigma>4 (Tmp 0))" "\<not> z_fixed (\<sigma>4 (Tmp 0))" "\<not> z_fixed (\<sigma>4 (Tmp 2))"
      and v4: "mpz_val (\<sigma>4 (Tmp 0)) = mpz_val (\<sigma>3 (Tmp 0)) mod mpz_val (\<sigma>3 (Ob k))"
      and f4: "\<And>a. a \<notin> {Tmp 2, Tmp 0, Tmp 3} \<Longrightarrow> \<sigma>4 a = \<sigma>3 a"
      by (rule mpz_divmod_inpl_ok [where \<sigma> = \<sigma>3 and q = "Tmp 2" and m = "Tmp 0" and l = "Tmp 0" and r = "Ob k"])
        (use d3 d2 1 p ok1 in auto)
    have 4: "\<sigma>4 (Ob i) = \<sigma>1 (Ob i)" "\<sigma>4 (Tmp 1) = \<sigma>2 (Tmp 1)" for i
      using f4 d3(4) d2(4) by auto
    have x4: "mpz_val (\<sigma>4 (Tmp 0)) = x * x mod m"
      using v4 d3(2,4) d2(4) 1 by (simp add: x_def m_def)
    have "n div 2 < n" "0 < n div 2"
      using False by simp_all
    from less.IH [OF this(1), of \<sigma>4] this(2) obtain \<sigma>' where r5: "mpz_pow3_loop (Ob d) (Ob k) \<sigma>4 = Some \<sigma>'"
      and ok: "mpz_ok (\<sigma>' (Ob d))" "\<not> z_fixed (\<sigma>' (Ob d))"
      and v: "mpz_val (\<sigma>' (Ob d)) = mpz_val (\<sigma>4 (Ob d)) * mpz_val (\<sigma>4 (Tmp 0)) ^ (n div 2) mod mpz_val (\<sigma>4 (Ob k))"
      and f: "\<forall>i. i \<noteq> d \<longrightarrow> \<sigma>' (Ob i) = \<sigma>4 (Ob i)"
      using 4 1 ok1 ok4 d2(1,3) n2 p by auto
    have "mpz_pow3_loop (Ob d) (Ob k) \<sigma> = Some \<sigma>'"
      using r1 r2 r3 r4 r5 len zero False by (subst mpz_pow3_loop.simps) (simp del: bind_assoc)
    moreover have "mpz_val (\<sigma>' (Ob d)) = mpz_val (\<sigma> (Ob d)) * x ^ n mod m"
      using v v1 pow 4 1 by (simp add: x4 m_def)
    moreover have "\<sigma>' (Ob i) = \<sigma> (Ob i)" if "i \<noteq> d" for i
      using that f 4(1) f1 by simp
    ultimately show ?thesis
      using ok by (auto simp: x_def m_def)
  qed
qed

lemma mpz_is_one:
  assumes "mpz_ok z"
  shows "z_len z = 1 \<and> z_dig z ! 0 = 1 \<longleftrightarrow> \<bar>mpz_val z\<bar> = 1"
proof
  assume 1: "z_len z = 1 \<and> z_dig z ! 0 = 1"
  then have "digits z = [1]"
    using mpz_okD(3) [OF assms] by (cases "z_dig z") (auto simp: digits_def)
  then show "\<bar>mpz_val z\<bar> = 1"
    by (simp add: mpz_abs_val)
next
  assume "\<bar>mpz_val z\<bar> = 1"
  then have v: "mpn_val (digits z) = 1"
    by (simp add: mpz_abs_val)
  then have "digits z \<noteq> []" "\<not> length [1 :: dig] < length (digits z)"
    using normalised_val_less [OF mpz_okD(1) [OF assms], of "[1]"] by auto
  then obtain d where d: "digits z = [d]"
    by (cases "digits z") auto
  then have "unat d = 1"
    using v by simp
  then have "d = 1"
    by (metis unat_1 unsigned_word_eqI)
  with d show "z_len z = 1 \<and> z_dig z ! 0 = 1"
    using mpz_okD(2) [OF assms] by (cases "z_dig z"; cases "z_len z") (auto simp: digits_def)
qed

lemma mpz_pow3_inpl_ok:
  assumes "mpz_ok (\<sigma> (Ob l))" and "mpz_ok (\<sigma> (Ob r))" and "mpz_ok (\<sigma> (Ob k))"
    and "\<not> z_fixed (\<sigma> (Ob d))" and "d \<notin> {l, r, k}" and "mpz_val (\<sigma> (Ob k)) \<noteq> 0"
  obtains \<sigma>' where "mpz_pow3_inpl (Ob d) (Ob l) (Ob r) (Ob k) \<sigma> = Some \<sigma>'"
    and "mpz_ok (\<sigma>' (Ob d))" and "\<not> z_fixed (\<sigma>' (Ob d))"
    and "mpz_val (\<sigma>' (Ob d)) =
      (if mpz_val (\<sigma> (Ob l)) = 0 \<or> mpz_val (\<sigma> (Ob r)) < 0 \<or> \<bar>mpz_val (\<sigma> (Ob k))\<bar> = 1 then 0
       else if mpz_val (\<sigma> (Ob r)) = 0 then 1
       else mpz_val (\<sigma> (Ob l)) ^ nat (mpz_val (\<sigma> (Ob r))) mod mpz_val (\<sigma> (Ob k)))"
    and "\<And>i. i \<noteq> d \<Longrightarrow> \<sigma>' (Ob i) = \<sigma> (Ob i)"
proof -
  note zl = mpz_ok_zero [OF assms(1)] and zr = mpz_ok_zero [OF assms(2)] mpz_ok_neg [OF assms(2)]
  have one: "z_len (\<sigma> (Ob k)) = 1 \<and> z_dig (\<sigma> (Ob k)) ! 0 = 1 \<longleftrightarrow> \<bar>mpz_val (\<sigma> (Ob k))\<bar> = 1"
    by (rule mpz_is_one [OF assms(3)])
  consider "mpz_val (\<sigma> (Ob l)) = 0 \<or> mpz_val (\<sigma> (Ob r)) < 0 \<or> \<bar>mpz_val (\<sigma> (Ob k))\<bar> = 1"
    | "mpz_val (\<sigma> (Ob l)) \<noteq> 0" "0 \<le> mpz_val (\<sigma> (Ob r))" "\<bar>mpz_val (\<sigma> (Ob k))\<bar> \<noteq> 1"
    by linarith
  then show ?thesis
  proof cases
    case 1
    then have run: "mpz_pow3_inpl (Ob d) (Ob l) (Ob r) (Ob k) \<sigma> = mpz_set_from_int (Ob d) 0 \<sigma>"
      using zl zr one by (auto simp: mpz_pow3_inpl_def)
    obtain \<sigma>' where "mpz_set_from_int (Ob d) 0 \<sigma> = Some \<sigma>'" "mpz_sets (Ob d) (sint (0 :: 32 word)) \<sigma> \<sigma>'"
      by (rule mpz_set_from_int_ok [where \<sigma> = \<sigma> and d = "Ob d" and w = 0, OF assms(4)])
    then show ?thesis
      using 1 run by (intro that [of \<sigma>']) (auto simp: mpz_sets_def)
  next
    case 2
    obtain \<sigma>1 where r1: "mpz_set_from_int (Ob d) 1 \<sigma> = Some \<sigma>1" and s1: "mpz_sets (Ob d) (sint (1 :: 32 word)) \<sigma> \<sigma>1"
      by (rule mpz_set_from_int_ok [where \<sigma> = \<sigma> and d = "Ob d" and w = 1, OF assms(4)])
    note d1 = mpz_setsD [OF s1]
    have 1: "\<sigma>1 (Ob l) = \<sigma> (Ob l)" "\<sigma>1 (Ob r) = \<sigma> (Ob r)" "\<sigma>1 (Ob k) = \<sigma> (Ob k)"
      using d1(4) assms(5) by auto
    have c: "(z_len (\<sigma> (Ob l)) = 0 \<or> z_neg (\<sigma> (Ob r)) \<or>
        (z_len (\<sigma> (Ob k)) = 1 \<and> z_dig (\<sigma> (Ob k)) ! 0 = 1)) = False"
      unfolding zl zr(2) one using 2 by simp
    have run: "mpz_pow3_inpl (Ob d) (Ob l) (Ob r) (Ob k) \<sigma> =
        (if z_len (\<sigma> (Ob r)) = 0 then Some \<sigma>1
         else do { x \<leftarrow> mpz_clone (\<sigma> (Ob l)); n \<leftarrow> mpz_clone (\<sigma> (Ob r));
                   mpz_pow3_loop (Ob d) (Ob k) (mpz_init_zero (Tmp 2) (\<sigma>1(Tmp 0 := x, Tmp 1 := n))) })"
      by (simp only: mpz_pow3_inpl_def c if_False r1 bind.bind_lunit 1)
    show ?thesis
    proof (cases "mpz_val (\<sigma> (Ob r)) = 0")
      case True
      then show ?thesis
        using run 2 zr d1 by (intro that [of \<sigma>1]) auto
    next
      case False
      obtain x where x: "mpz_clone (\<sigma> (Ob l)) = Some x" "mpz_ok x" "\<not> z_fixed x" "mpz_val x = mpz_val (\<sigma> (Ob l))"
        by (rule mpz_clone_ok [OF assms(1)]) (use zl 2 in auto)
      obtain n where n: "mpz_clone (\<sigma> (Ob r)) = Some n" "mpz_ok n" "\<not> z_fixed n" "mpz_val n = mpz_val (\<sigma> (Ob r))"
        by (rule mpz_clone_ok [OF assms(2)]) (use zr False in auto)
      define \<sigma>2 where "\<sigma>2 = mpz_init_zero (Tmp 2) (\<sigma>1(Tmp 0 := x, Tmp 1 := n))"
      have 3: "\<sigma>2 (Tmp 0) = x" "\<sigma>2 (Tmp 1) = n" "\<not> z_fixed (\<sigma>2 (Tmp 2))" "\<And>i. \<sigma>2 (Ob i) = \<sigma>1 (Ob i)"
        by (simp_all add: \<sigma>2_def mpz_init_zero_def mpz_zero_def)
      have "mpz_val (\<sigma>2 (Tmp 1)) = int (nat (mpz_val (\<sigma> (Ob r))))" "0 < nat (mpz_val (\<sigma> (Ob r)))"
        "d \<noteq> k"
        using 2(2) False n(4) 3(2) assms(5) by simp_all
      with mpz_pow3_loop_ok [of \<sigma>2 d k "nat (mpz_val (\<sigma> (Ob r)))"] obtain \<sigma>' where
        "mpz_pow3_loop (Ob d) (Ob k) \<sigma>2 = Some \<sigma>'" "mpz_ok (\<sigma>' (Ob d))" "\<not> z_fixed (\<sigma>' (Ob d))"
        "mpz_val (\<sigma>' (Ob d)) = mpz_val (\<sigma>2 (Ob d)) * mpz_val x ^ nat (mpz_val (\<sigma> (Ob r))) mod mpz_val (\<sigma> (Ob k))"
        "\<forall>i. i \<noteq> d \<longrightarrow> \<sigma>' (Ob i) = \<sigma>2 (Ob i)"
        using 3(3) x(2,3) n(2,3) d1(1,3) assms(3,6) unfolding 3(1,2,4) 1(3) by blast
      moreover from this(1) have "mpz_pow3_inpl (Ob d) (Ob l) (Ob r) (Ob k) \<sigma> = Some \<sigma>'"
        unfolding run using False zr x(1) n(1) by (simp add: \<sigma>2_def)
      ultimately show ?thesis
        using 2 False 3 x(4) d1 by (intro that [of \<sigma>']) simp_all
    qed
  qed
qed

end
