(* ===== verification/Mpz_Props.thy ===== *)
theory Mpz_Props
  imports Mpz_Correct
begin

text \<open>
  The properties of the big integer arithmetic of \<^verbatim>\<open>py/mpz.c\<close>, with a store on which they
  are exercised.
\<close>

section \<open>A store to exercise the operations on\<close>

definition mpz_lit :: "bool \<Rightarrow> dig list \<Rightarrow> mpz" where
  "mpz_lit neg ds = \<lparr>z_neg = neg, z_fixed = False, z_len = length ds, z_dig = ds\<rparr>"

definition demo :: mpz_store where
  "demo = (\<lambda>_. mpz_zero)(Ob 0 := mpz_lit True [1, 0xFFFF, 7], Ob 5 := mpz_lit False [0x8000, 0x1234],
     Ob 2 := mpz_lit False [3])"

lemma mpz_lit_simps [simp]:
  "mpz_ok (mpz_lit neg ds) \<longleftrightarrow> normalised ds \<and> (neg \<longrightarrow> ds \<noteq> [])"
  "mpz_val (mpz_lit neg ds) = sval neg ds"
  "\<not> z_fixed (mpz_lit neg ds)"
  by (auto simp: mpz_lit_def mpz_ok_def mpz_val_def digits_def)

lemma demo_simps [simp]:
  "mpz_ok (demo (Ob 0))" "mpz_ok (demo (Ob 5))" "mpz_ok (demo (Ob 2))"
  "\<not> z_fixed (demo a)"
  "mpz_val (demo (Ob 0)) = - 34359672833" "mpz_val (demo (Ob 5)) = 305430528" "mpz_val (demo (Ob 2)) = 3"
  by (auto simp: demo_def normalised_def sval_def mpz_zero_def)

section \<open>Properties\<close>

text \<open>
  C1. \<^verbatim>\<open>mpz_divmod_inpl\<close> returns for every dividend and every non-zero divisor of either sign,
  with no buffer overrun and no endless correction loop; it leaves the floored remainder of Python
  in \<^verbatim>\<open>dest_rem\<close> (which may be the dividend itself, as the modular power uses it), the
  floored quotient in \<^verbatim>\<open>dest_quo\<close> when \<^verbatim>\<open>dest_rem\<close> is not the dividend, and nothing
  else changed but its own temporary.
\<close>

theorem mpz_divmod_correct:
  assumes "mpz_ok (\<sigma> l)" and "mpz_ok (\<sigma> r)" and "mpz_val (\<sigma> r) \<noteq> 0"
    and "\<not> z_fixed (\<sigma> q)" and "\<not> z_fixed (\<sigma> m)" and "q \<notin> {m, l, r}" and "m \<noteq> r"
    and "Tmp 3 \<notin> {q, m, l, r}"
  shows "\<exists>\<sigma>'. mpz_divmod_inpl q m l r \<sigma> = Some \<sigma>' \<and>
    mpz_ok (\<sigma>' m) \<and> mpz_val (\<sigma>' m) = mpz_val (\<sigma> l) mod mpz_val (\<sigma> r) \<and>
    mpz_ok (\<sigma>' q) \<and> (m \<noteq> l \<longrightarrow> mpz_val (\<sigma>' q) = mpz_val (\<sigma> l) div mpz_val (\<sigma> r)) \<and>
    (\<forall>a. a \<notin> {q, m, Tmp 3} \<longrightarrow> \<sigma>' a = \<sigma> a)"
proof -
  have ne: "q \<noteq> m" "q \<noteq> l" "q \<noteq> r"
    using assms(6) by auto
  show ?thesis
    by (rule mpz_divmod_inpl_ok [OF assms(1-5) ne assms(7,8)]) blast
qed

theorem mpz_divmod_correct_witness:
  "\<exists>\<sigma>'. mpz_divmod_inpl (Ob 3) (Ob 4) (Ob 0) (Ob 5) demo = Some \<sigma>' \<and>
    mpz_val (\<sigma>' (Ob 3)) = - 113 \<and> mpz_val (\<sigma>' (Ob 4)) = 153976831"
  using mpz_divmod_correct [of demo "Ob 0" "Ob 5" "Ob 3" "Ob 4"] by auto

text \<open>
  C2. \<^verbatim>\<open>mpz_mul_inpl\<close> stores the product, for every aliasing of \<^verbatim>\<open>dest\<close>, \<^verbatim>\<open>lhs\<close> and
  \<^verbatim>\<open>rhs\<close>, and changes no other object.
\<close>

theorem mpz_mul_correct:
  assumes "mpz_ok (\<sigma> l)" and "mpz_ok (\<sigma> r)" and "\<not> z_fixed (\<sigma> d)"
  shows "\<exists>\<sigma>'. mpz_mul_inpl d l r \<sigma> = Some \<sigma>' \<and> mpz_sets d (mpz_val (\<sigma> l) * mpz_val (\<sigma> r)) \<sigma> \<sigma>'"
  by (rule mpz_mul_inpl_ok [OF assms]) blast

theorem mpz_mul_correct_witness:
  "\<exists>\<sigma>'. mpz_mul_inpl (Ob 0) (Ob 0) (Ob 0) demo = Some \<sigma>' \<and>
    mpz_sets (Ob 0) 1180587117190798245889 demo \<sigma>'"
  using mpz_mul_correct [of demo "Ob 0" "Ob 0" "Ob 0"] by auto

text \<open>
  C3. \<^verbatim>\<open>mpz_pow3_inpl\<close>, with \<^verbatim>\<open>dest\<close> none of the operands, returns for every exponent: with
  \<^verbatim>\<open>lhs ** rhs % mod\<close> in \<^verbatim>\<open>dest\<close> for a positive one, the remainder having the sign of the modulus, and
  with \<open>0\<close> for a negative one. With the exponent zero it does not reduce: it leaves \<open>1\<close> whatever the sign of
  the modulus, and \<open>0\<close> when the base is zero as well, where \<^verbatim>\<open>lhs ** rhs % mod\<close> is \<open>1 % mod\<close>.
\<close>

theorem mpz_pow3_correct:
  assumes "mpz_ok (\<sigma> (Ob l))" and "mpz_ok (\<sigma> (Ob r))" and "mpz_ok (\<sigma> (Ob k))"
    and "\<not> z_fixed (\<sigma> (Ob d))" and "d \<notin> {l, r, k}" and "mpz_val (\<sigma> (Ob k)) \<noteq> 0"
  shows "\<exists>\<sigma>'. mpz_pow3_inpl (Ob d) (Ob l) (Ob r) (Ob k) \<sigma> = Some \<sigma>' \<and> mpz_ok (\<sigma>' (Ob d)) \<and>
    mpz_val (\<sigma>' (Ob d)) =
      (if 0 < mpz_val (\<sigma> (Ob r)) then mpz_val (\<sigma> (Ob l)) ^ nat (mpz_val (\<sigma> (Ob r))) mod mpz_val (\<sigma> (Ob k))
       else if mpz_val (\<sigma> (Ob r)) < 0 \<or> mpz_val (\<sigma> (Ob l)) = 0 \<or> \<bar>mpz_val (\<sigma> (Ob k))\<bar> = 1 then 0
       else 1) \<and>
    (\<forall>i. i \<noteq> d \<longrightarrow> \<sigma>' (Ob i) = \<sigma> (Ob i))"
proof -
  have one: "x mod k = 0" if "\<bar>k\<bar> = 1" for x k :: int
    using that by (auto simp: abs_if split: if_splits)
  have zero: "(0 :: int) ^ nat (mpz_val (\<sigma> (Ob r))) = 0" if "0 < mpz_val (\<sigma> (Ob r))"
    using that by (simp add: power_0_left)
  show ?thesis
    by (rule mpz_pow3_inpl_ok [OF assms]) (use one in \<open>auto simp: zero\<close>)
qed

theorem mpz_pow3_correct_witness:
  "(\<exists>\<sigma>'. mpz_pow3_inpl (Ob 3) (Ob 0) (Ob 2) (Ob 5) demo = Some \<sigma>' \<and>
     mpz_val (\<sigma>' (Ob 3)) = (- 34359672833) ^ 3 mod 305430528) \<and>
   (\<exists>\<sigma>'. mpz_pow3_inpl (Ob 4) (Ob 3) (Ob 3) (Ob 5) demo = Some \<sigma>' \<and> mpz_val (\<sigma>' (Ob 4)) = 0)"
proof
  show "\<exists>\<sigma>'. mpz_pow3_inpl (Ob 3) (Ob 0) (Ob 2) (Ob 5) demo = Some \<sigma>' \<and>
      mpz_val (\<sigma>' (Ob 3)) = (- 34359672833) ^ 3 mod 305430528"
    using mpz_pow3_correct [of demo 0 2 5 3] by auto
  have "mpz_ok (demo (Ob 3))" "mpz_val (demo (Ob 3)) = 0"
    by (simp_all add: demo_def mpz_zero_def mpz_ok_def normalised_def digits_def mpz_val_def sval_def)
  then show "\<exists>\<sigma>'. mpz_pow3_inpl (Ob 4) (Ob 3) (Ob 3) (Ob 5) demo = Some \<sigma>' \<and> mpz_val (\<sigma>' (Ob 4)) = 0"
    using mpz_pow3_correct [of demo 3 3 5 4] by auto
qed

text \<open>
  C4. \<^verbatim>\<open>mpz_pow_inpl\<close> stores the power for every aliasing of \<^verbatim>\<open>dest\<close> with the operands; a zero
  base gives \<open>0\<close> for the exponent zero too, and so does a negative exponent.
\<close>

theorem mpz_pow_correct:
  assumes "mpz_ok (\<sigma> l)" and "mpz_ok (\<sigma> r)" and "\<not> z_fixed (\<sigma> d)" and "d \<notin> {Tmp 0, Tmp 1}"
  shows "\<exists>\<sigma>'. mpz_pow_inpl d l r \<sigma> = Some \<sigma>' \<and> mpz_ok (\<sigma>' d) \<and>
    mpz_val (\<sigma>' d) = (if mpz_val (\<sigma> l) = 0 \<or> mpz_val (\<sigma> r) < 0 then 0
                      else mpz_val (\<sigma> l) ^ nat (mpz_val (\<sigma> r))) \<and>
    (\<forall>a. a \<notin> {d, Tmp 0, Tmp 1} \<longrightarrow> \<sigma>' a = \<sigma> a)"
  by (rule mpz_pow_inpl_ok [OF assms]) blast

theorem mpz_pow_correct_witness:
  "\<exists>\<sigma>'. mpz_pow_inpl (Ob 2) (Ob 2) (Ob 2) demo = Some \<sigma>' \<and> mpz_val (\<sigma>' (Ob 2)) = 27"
  using mpz_pow_correct [of demo "Ob 2" "Ob 2" "Ob 2"] by auto

text \<open>
  C5. \<^verbatim>\<open>mpz_add_inpl\<close> and \<^verbatim>\<open>mpz_sub_inpl\<close> store the sum and the difference for all signs and
  every aliasing of \<^verbatim>\<open>dest\<close>, \<^verbatim>\<open>lhs\<close> and \<^verbatim>\<open>rhs\<close>, never a negative zero, and change no other
  object.
\<close>

theorem mpz_add_sub_correct:
  assumes "mpz_ok (\<sigma> l)" and "mpz_ok (\<sigma> r)" and "\<not> z_fixed (\<sigma> d)"
  shows "(\<exists>\<sigma>'. mpz_add_inpl d l r \<sigma> = Some \<sigma>' \<and> mpz_sets d (mpz_val (\<sigma> l) + mpz_val (\<sigma> r)) \<sigma> \<sigma>') \<and>
    (\<exists>\<sigma>'. mpz_sub_inpl d l r \<sigma> = Some \<sigma>' \<and> mpz_sets d (mpz_val (\<sigma> l) - mpz_val (\<sigma> r)) \<sigma> \<sigma>')"
proof
  show "\<exists>\<sigma>'. mpz_add_inpl d l r \<sigma> = Some \<sigma>' \<and> mpz_sets d (mpz_val (\<sigma> l) + mpz_val (\<sigma> r)) \<sigma> \<sigma>'"
    by (rule mpz_add_inpl_ok [OF assms]) blast
  show "\<exists>\<sigma>'. mpz_sub_inpl d l r \<sigma> = Some \<sigma>' \<and> mpz_sets d (mpz_val (\<sigma> l) - mpz_val (\<sigma> r)) \<sigma> \<sigma>'"
    by (rule mpz_sub_inpl_ok [OF assms]) blast
qed

theorem mpz_add_sub_correct_witness:
  "\<exists>\<sigma>'. mpz_sub_inpl (Ob 5) (Ob 0) (Ob 5) demo = Some \<sigma>' \<and> mpz_sets (Ob 5) (- 34665103361) demo \<sigma>'"
  using mpz_add_sub_correct [of demo "Ob 0" "Ob 5" "Ob 5"] by auto

text \<open>
  C6. The bitwise operations on sign and magnitude compute those of two's complement integers of
  unbounded width, for all signs and every aliasing; the assertion of \<^verbatim>\<open>mpn_or_neg\<close> that no
  carry is left never fails.
\<close>

theorem mpz_bitwise_correct:
  assumes "mpz_ok (\<sigma> l)" and "mpz_ok (\<sigma> r)" and "\<not> z_fixed (\<sigma> d)"
  shows "(\<exists>\<sigma>'. mpz_and_inpl d l r \<sigma> = Some \<sigma>' \<and> mpz_sets d (mpz_val (\<sigma> l) AND mpz_val (\<sigma> r)) \<sigma> \<sigma>') \<and>
    (\<exists>\<sigma>'. mpz_or_inpl d l r \<sigma> = Some \<sigma>' \<and> mpz_sets d (mpz_val (\<sigma> l) OR mpz_val (\<sigma> r)) \<sigma> \<sigma>') \<and>
    (\<exists>\<sigma>'. mpz_xor_inpl d l r \<sigma> = Some \<sigma>' \<and> mpz_sets d (mpz_val (\<sigma> l) XOR mpz_val (\<sigma> r)) \<sigma> \<sigma>') \<and>
    (\<exists>\<sigma>'. mpz_not_inpl d l \<sigma> = Some \<sigma>' \<and> mpz_sets d (NOT (mpz_val (\<sigma> l))) \<sigma> \<sigma>')"
proof (intro conjI)
  show "\<exists>\<sigma>'. mpz_and_inpl d l r \<sigma> = Some \<sigma>' \<and> mpz_sets d (mpz_val (\<sigma> l) AND mpz_val (\<sigma> r)) \<sigma> \<sigma>'"
    by (rule mpz_and_inpl_ok [OF assms]) blast
  show "\<exists>\<sigma>'. mpz_or_inpl d l r \<sigma> = Some \<sigma>' \<and> mpz_sets d (mpz_val (\<sigma> l) OR mpz_val (\<sigma> r)) \<sigma> \<sigma>'"
    by (rule mpz_or_inpl_ok [OF assms]) blast
  show "\<exists>\<sigma>'. mpz_xor_inpl d l r \<sigma> = Some \<sigma>' \<and> mpz_sets d (mpz_val (\<sigma> l) XOR mpz_val (\<sigma> r)) \<sigma> \<sigma>'"
    by (rule mpz_xor_inpl_ok [OF assms]) blast
  show "\<exists>\<sigma>'. mpz_not_inpl d l \<sigma> = Some \<sigma>' \<and> mpz_sets d (NOT (mpz_val (\<sigma> l))) \<sigma> \<sigma>'"
    by (rule mpz_not_inpl_ok [OF assms(1,3)]) blast
qed

theorem mpz_bitwise_correct_witness:
  "\<exists>\<sigma>'. mpz_and_inpl (Ob 0) (Ob 0) (Ob 5) demo = Some \<sigma>' \<and>
    mpz_sets (Ob 0) (- 34359672833 AND 305430528) demo \<sigma>'"
  using mpz_bitwise_correct [of demo "Ob 0" "Ob 5" "Ob 0"] by auto

text \<open>
  C7. \<^verbatim>\<open>mpz_shl_inpl\<close> multiplies by a power of two, in place or not, for shift counts that a small
  integer can hold; \<^verbatim>\<open>mpz_shr_inpl\<close> divides by a power of two rounding to minus infinity when
  \<^verbatim>\<open>dest\<close> is not \<^verbatim>\<open>lhs\<close> or the number is not negative (for a negative number in place see C11).
\<close>

theorem mpz_shift_correct:
  assumes "mpz_ok (\<sigma> l)" and "\<not> z_fixed (\<sigma> d)" and "n + 15 < 2 ^ 32"
  shows "(\<exists>\<sigma>'. mpz_shl_inpl d l n \<sigma> = Some \<sigma>' \<and> mpz_sets d (mpz_val (\<sigma> l) * 2 ^ n) \<sigma> \<sigma>') \<and>
    (d \<noteq> l \<or> 0 \<le> mpz_val (\<sigma> l) \<longrightarrow>
      (\<exists>\<sigma>'. mpz_shr_inpl d l n \<sigma> = Some \<sigma>' \<and> mpz_sets d (mpz_val (\<sigma> l) div 2 ^ n) \<sigma> \<sigma>'))"
proof (intro conjI impI)
  show "\<exists>\<sigma>'. mpz_shl_inpl d l n \<sigma> = Some \<sigma>' \<and> mpz_sets d (mpz_val (\<sigma> l) * 2 ^ n) \<sigma> \<sigma>'"
    by (rule mpz_shl_inpl_ok [where n = n, OF assms]) (auto simp: push_bit_eq_mult)
next
  assume a: "d \<noteq> l \<or> 0 \<le> mpz_val (\<sigma> l)"
  show "\<exists>\<sigma>'. mpz_shr_inpl d l n \<sigma> = Some \<sigma>' \<and> mpz_sets d (mpz_val (\<sigma> l) div 2 ^ n) \<sigma> \<sigma>'"
    by (rule mpz_shr_inpl_ok [where n = n, OF assms(1,2) a]) (auto simp: drop_bit_eq_div)
qed

theorem mpz_shift_correct_witness:
  "(\<exists>\<sigma>'. mpz_shl_inpl (Ob 0) (Ob 0) 1 demo = Some \<sigma>' \<and> mpz_sets (Ob 0) (- 68719345666) demo \<sigma>') \<and>
   (\<exists>\<sigma>'. mpz_shr_inpl (Ob 5) (Ob 0) 17 demo = Some \<sigma>' \<and> mpz_sets (Ob 5) (- 262144) demo \<sigma>')"
  using mpz_shift_correct [of demo "Ob 0" "Ob 5" 17] mpz_shift_correct [of demo "Ob 0" "Ob 0" 1] by auto

text \<open>
  C8. \<^verbatim>\<open>mpz_cmp\<close> orders the values; \<^verbatim>\<open>mpz_neg_inpl\<close> and \<^verbatim>\<open>mpz_abs_inpl\<close>, in place or not,
  store the negated and the absolute value.
\<close>

theorem mpz_sign_correct:
  assumes "mpz_ok (\<sigma> z)" and "mpz_ok (\<sigma> y)" and "\<not> z_fixed (\<sigma> d)"
  shows "mpz_cmp (\<sigma> z) (\<sigma> y) = sgn (mpz_val (\<sigma> z) - mpz_val (\<sigma> y)) \<and>
    (\<exists>\<sigma>'. mpz_neg_inpl d z \<sigma> = Some \<sigma>' \<and> mpz_sets d (- mpz_val (\<sigma> z)) \<sigma> \<sigma>') \<and>
    (\<exists>\<sigma>'. mpz_abs_inpl d z \<sigma> = Some \<sigma>' \<and> mpz_sets d \<bar>mpz_val (\<sigma> z)\<bar> \<sigma> \<sigma>')"
proof (intro conjI)
  show "mpz_cmp (\<sigma> z) (\<sigma> y) = sgn (mpz_val (\<sigma> z) - mpz_val (\<sigma> y))"
    by (rule mpz_cmp_ok [OF assms(1,2)])
  show "\<exists>\<sigma>'. mpz_neg_inpl d z \<sigma> = Some \<sigma>' \<and> mpz_sets d (- mpz_val (\<sigma> z)) \<sigma> \<sigma>'"
    by (rule mpz_neg_inpl_ok [OF assms(1,3)]) blast
  show "\<exists>\<sigma>'. mpz_abs_inpl d z \<sigma> = Some \<sigma>' \<and> mpz_sets d \<bar>mpz_val (\<sigma> z)\<bar> \<sigma> \<sigma>'"
    by (rule mpz_abs_inpl_ok [OF assms(1,3)]) blast
qed

theorem mpz_sign_correct_witness:
  "mpz_cmp (demo (Ob 0)) (demo (Ob 5)) = - 1 \<and>
    (\<exists>\<sigma>'. mpz_neg_inpl (Ob 0) (Ob 0) demo = Some \<sigma>' \<and> mpz_sets (Ob 0) 34359672833 demo \<sigma>')"
  using mpz_sign_correct [of demo "Ob 0" "Ob 5" "Ob 0"] by auto

end
