(* ===== verification/Mpz_Conv.thy ===== *)
theory Mpz_Conv
  imports Mpz_Correct
begin

text \<open>
  Conversions of \<^verbatim>\<open>py/mpz.c\<close>: to machine words (\<^verbatim>\<open>mpz_hash\<close>, \<^verbatim>\<open>mpz_as_int_checked\<close>,
  \<^verbatim>\<open>mpz_as_uint_checked\<close>), from and to byte arrays, from and to text, and from the fields of
  a 32-bit float. Text and byte buffers are lists of \<^typ>\<open>u8\<close>.
\<close>

section \<open>Machine words\<close>

definition mpz_hash :: "mpz \<Rightarrow> u32" where
  "mpz_hash z =
     (let val = foldl (\<lambda>val d. push_bit DIG_SIZE val OR ucast d) 0 (rev (digits z))
      in if z_neg z then - val else val)"

text \<open>The loop of the two checked conversions, from the top digit down.\<close>

fun mpz_acc :: "u32 \<Rightarrow> u32 \<Rightarrow> dig list \<Rightarrow> u32 option" where
  "mpz_acc limit val [] = Some val"
| "mpz_acc limit val (d # ds) =
     (if limit < val then None else mpz_acc limit (push_bit DIG_SIZE val OR ucast d) ds)"

definition MP_OBJ_WORD_MSBIT_HIGH :: u32 where "MP_OBJ_WORD_MSBIT_HIGH = 0x80000000"

definition mpz_as_int_checked :: "mpz \<Rightarrow> u32 option" where
  "mpz_as_int_checked i =
     (case mpz_acc (drop_bit DIG_SIZE (NOT MP_OBJ_WORD_MSBIT_HIGH)) 0 (rev (digits i)) of
        None \<Rightarrow> None
      | Some val \<Rightarrow> Some (if z_neg i then - val else val))"

definition mpz_as_uint_checked :: "mpz \<Rightarrow> u32 option" where
  "mpz_as_uint_checked i =
     (if z_neg i then None
      else mpz_acc (drop_bit (DIG_SIZE - 1) (NOT MP_OBJ_WORD_MSBIT_HIGH)) 0 (rev (digits i)))"

section \<open>Byte arrays\<close>

text \<open>The inner loop of \<^verbatim>\<open>mpz_set_from_bytes\<close>, with the number of bits in \<open>d\<close>.\<close>

fun mpz_take_bytes :: "dig \<Rightarrow> nat \<Rightarrow> u8 list \<Rightarrow> dig \<times> u8 list" where
  "mpz_take_bytes d num_bits [] = (d, [])"
| "mpz_take_bytes d num_bits (b # bs) =
     (if num_bits < DIG_SIZE then mpz_take_bytes (d OR push_bit num_bits (ucast b)) (num_bits + 8) bs
      else (d, b # bs))"

lemma mpz_take_bytes_length: "length (snd (mpz_take_bytes d n bs)) \<le> length bs"
proof (induction d n bs rule: mpz_take_bytes.induct)
  case (2 d n b bs)
  then show ?case
    by (cases "n < DIG_SIZE") auto
qed simp

function mpz_bytes_digs :: "u8 list \<Rightarrow> dig list" where
  "mpz_bytes_digs [] = []"
| "mpz_bytes_digs (b # bs) =
     (let (d, rest) = mpz_take_bytes 0 0 (b # bs) in d # mpz_bytes_digs rest)"
  by pat_completeness auto

termination
proof (relation "measure length", goal_cases)
  case (2 b bs x d rest)
  then have "rest = snd (mpz_take_bytes (0 OR push_bit 0 (ucast b)) 8 bs)"
    by (simp add: DIG_SIZE_def) (metis snd_conv)
  then show ?case
    using mpz_take_bytes_length by (simp add: less_Suc_eq_le)
qed simp

definition mpz_set_from_bytes :: "addr \<Rightarrow> bool \<Rightarrow> u8 list \<Rightarrow> mpz_store \<Rightarrow> mpz_store option" where
  "mpz_set_from_bytes z big_endian buf \<sigma> =
     do { \<sigma>1 \<leftarrow> mpz_need_dig z ((length buf * 8 + DIG_SIZE - 1) div DIG_SIZE) \<sigma>;
          let ds = mpz_bytes_digs (if big_endian then rev buf else buf)
          in mpz_put z (ds, mpn_remove_trailing_zeros ds (length ds)) (mpz_put_neg z False \<sigma>1) }"

text \<open>
  \<^verbatim>\<open>mpz_as_bytes\<close>. The loop state: the bytes stored so far in the order of the stores, the room
  left, the carry of the negation and the flag \<open>ok\<close>.
\<close>

record as_bytes_state =
  ab_out :: "u8 list"
  ab_olen :: nat
  ab_carry :: u32
  ab_ok :: bool

definition mpz_as_byte :: "bool \<Rightarrow> u32 \<Rightarrow> as_bytes_state \<Rightarrow> as_bytes_state" where
  "mpz_as_byte neg d st =
     (let val = (ucast d :: dig);
          val = (if neg then ucast ((NOT (ucast val) AND 0xff) + ab_carry st) else val);
          st = (if neg then st\<lparr>ab_carry := ucast (drop_bit 8 val)\<rparr> else st)
      in if ab_olen st = 0 then st\<lparr>ab_ok := (ab_ok st \<and> (ucast val :: u8) = 0)\<rparr>
         else st\<lparr>ab_out := ab_out st @ [ucast val], ab_olen := ab_olen st - 1\<rparr>)"

function mpz_as_bytes_bits :: "bool \<Rightarrow> nat \<Rightarrow> u32 \<Rightarrow> as_bytes_state \<Rightarrow> nat \<times> u32 \<times> as_bytes_state" where
  "mpz_as_bytes_bits neg bits d st =
     (if 8 \<le> bits then mpz_as_bytes_bits neg (bits - 8) (drop_bit 8 d) (mpz_as_byte neg d st)
      else (bits, d, st))"
  by auto

termination
  by (relation "measure (\<lambda>(_, bits, _, _). bits)") auto

declare mpz_as_bytes_bits.simps [simp del]

fun mpz_as_bytes_digs :: "bool \<Rightarrow> dig list \<Rightarrow> nat \<Rightarrow> u32 \<Rightarrow> as_bytes_state \<Rightarrow> as_bytes_state" where
  "mpz_as_bytes_digs neg [] bits d st = st"
| "mpz_as_bytes_digs neg (z # zs) bits d st =
     (let (bits, d, st) = mpz_as_bytes_bits neg (bits + DIG_SIZE) (push_bit DIG_SIZE d OR ucast z) st
      in mpz_as_bytes_digs neg zs bits d st)"

definition mpz_as_bytes :: "mpz \<Rightarrow> bool \<Rightarrow> bool \<Rightarrow> nat \<Rightarrow> bool \<times> u8 list" where
  "mpz_as_bytes z big_endian as_signed len =
     (let st = mpz_as_bytes_digs (z_neg z) (digits z) 0 0
                 \<lparr>ab_out = [], ab_olen = len, ab_carry = 1, ab_ok = True\<rparr>;
          buf = ab_out st @ replicate (ab_olen st) (if z_neg z then 0xff else 0);
          buf = (if big_endian then rev buf else buf);
          ok = (if as_signed \<and> ab_olen st = 0 \<and> len > 0
                then ab_ok st \<and>
                     ((buf ! (if big_endian then 0 else len - 1) AND 0x80 \<noteq> 0) = z_neg z)
                else ab_ok st)
      in (ok, buf))"

section \<open>Text\<close>

definition char_value :: "u8 \<Rightarrow> nat option" where
  "char_value c =
     (let v = unat c
      in if 48 \<le> v \<and> v \<le> 57 then Some (v - 48)
         else if 65 \<le> v \<and> v \<le> 90 then Some (v - (65 - 10))
         else if 97 \<le> v \<and> v \<le> 122 then Some (v - (97 - 10))
         else None)"

fun mpz_str_loop :: "addr \<Rightarrow> u8 list \<Rightarrow> nat \<Rightarrow> nat \<Rightarrow> mpz_store \<Rightarrow> (nat \<times> mpz_store) option" where
  "mpz_str_loop z [] base n \<sigma> = Some (n, \<sigma>)"
| "mpz_str_loop z (c # cs) base n \<sigma> =
     (case char_value c of
        None \<Rightarrow> Some (n, \<sigma>)
      | Some v \<Rightarrow>
          if v \<ge> base then Some (n, \<sigma>)
          else do { \<sigma>1 \<leftarrow> mpz_put z (mpn_mul_dig_add_dig (digits (\<sigma> z)) (of_nat base) (of_nat v)) \<sigma>;
                    mpz_str_loop z cs base (n + 1) \<sigma>1 })"

text \<open>\<^verbatim>\<open>mpz_set_from_str\<close>: the number of bytes processed and the new store.\<close>

definition mpz_set_from_str :: "addr \<Rightarrow> u8 list \<Rightarrow> bool \<Rightarrow> nat \<Rightarrow> mpz_store \<Rightarrow> (nat \<times> mpz_store) option" where
  "mpz_set_from_str z str neg base \<sigma> =
     (if base > 36 then None
      else do { \<sigma>1 \<leftarrow> mpz_need_dig z (length str * 8 div DIG_SIZE + 1) \<sigma>;
                mpz_str_loop z str base 0 (\<sigma>1(z := (\<sigma>1 z)\<lparr>z_neg := neg, z_len := 0\<rparr>)) })"

text \<open>One pass of the conversion loop of \<^verbatim>\<open>mpz_as_str_inpl\<close>: division by the base from the
  top digit down, giving the quotient digits (top first) and the remainder.\<close>

fun mpz_str_div :: "u32 \<Rightarrow> u32 \<Rightarrow> dig list \<Rightarrow> dig list \<times> u32" where
  "mpz_str_div base a [] = ([], a)"
| "mpz_str_div base a (d # ds) =
     (let a = push_bit DIG_SIZE a OR ucast d;
          (qs, r) = mpz_str_div base (a mod base) ds
      in (ucast (a div base) # qs, r))"

definition mpz_str_char :: "u32 \<Rightarrow> u8 \<Rightarrow> u8" where
  "mpz_str_char a base_char =
     (let a = a + 48 in ucast (if 57 < a then a + (ucast base_char - 57 - 1) else a))"

text \<open>
  The conversion loop: \<open>n\<close> is the number of characters stored since \<^verbatim>\<open>last_comma\<close>; a comma
  character of \<open>0\<close> is no comma. The characters come lowest first.
\<close>

partial_function (option) mpz_str_chars ::
    "u32 \<Rightarrow> u8 \<Rightarrow> u8 \<Rightarrow> nat \<Rightarrow> dig list \<Rightarrow> u8 list option" where
  "mpz_str_chars base base_char comma n dig =
     (let (qs, a) = mpz_str_div base 0 (rev dig);
          c = mpz_str_char a base_char;
          dig = rev qs;
          done = list_all (\<lambda>d. d = 0) dig;
          sep = (\<not> done \<and> comma \<noteq> 0 \<and> n + 1 = 3)
      in if done then Some [c]
         else do { s \<leftarrow> mpz_str_chars base base_char comma (if sep then 0 else n + 1) dig;
                   Some (c # (if sep then [comma] else []) @ s) })"

declare mpz_str_chars.simps [code]

text \<open>\<^verbatim>\<open>mpz_as_str_inpl\<close>: the string without its final null byte; \<^verbatim>\<open>prefix == NULL\<close> is the
  empty prefix.\<close>

definition mpz_as_str_inpl :: "mpz \<Rightarrow> nat \<Rightarrow> u8 list \<Rightarrow> u8 \<Rightarrow> u8 \<Rightarrow> u8 list option" where
  "mpz_as_str_inpl i base prefix base_char comma =
     (if \<not> (2 \<le> base \<and> base \<le> 32) then None
      else if z_len i = 0 then Some (prefix @ [48])
      else do { s \<leftarrow> mpz_str_chars (of_nat base) base_char comma 0 (digits i);
                Some (rev (s @ rev prefix @ (if z_neg i then [45] else []))) })"

section \<open>Floats\<close>

text \<open>
  \<^verbatim>\<open>mpz_set_from_float\<close> on the fields of a single precision number: sign, 8-bit biased
  exponent and 23-bit fraction. \<open>float_digs\<close> is the last loop.
\<close>

definition MP_FLOAT_EXP_BITS :: nat where "MP_FLOAT_EXP_BITS = 8"
definition MP_FLOAT_FRAC_BITS :: nat where "MP_FLOAT_FRAC_BITS = 23"
definition MP_FLOAT_EXP_BIAS :: nat where "MP_FLOAT_EXP_BIAS = 127"

fun float_digs :: "nat \<Rightarrow> u32 \<Rightarrow> dig list" where
  "float_digs 0 frc = []"
| "float_digs (Suc n) frc = ucast (frc AND DIG_MASK) # float_digs n (drop_bit DIG_SIZE frc)"

definition mpz_float_digits :: "nat \<Rightarrow> nat \<Rightarrow> u32 \<Rightarrow> dig list" where
  "mpz_float_digits dig_cnt adj_exp frac =
     (let rm = adj_exp mod DIG_SIZE;
          frc = frac OR push_bit MP_FLOAT_FRAC_BITS 1;
          (shft, dig_ind, frc) =
            (if adj_exp < MP_FLOAT_FRAC_BITS then (0, 0, drop_bit (MP_FLOAT_FRAC_BITS - adj_exp) frc)
             else (unat (of_nat rm - of_nat MP_FLOAT_FRAC_BITS :: u32) mod DIG_SIZE,
                   (adj_exp - MP_FLOAT_FRAC_BITS) div DIG_SIZE, frc));
          zeros = replicate dig_ind 0
      in if shft \<noteq> 0
         then zeros @ [ucast (push_bit shft frc AND DIG_MASK)] @
              float_digs (dig_cnt - (dig_ind + 1)) (drop_bit (DIG_SIZE - shft) frc)
         else zeros @ float_digs (dig_cnt - dig_ind) frc)"

definition mpz_set_from_float :: "addr \<Rightarrow> bool \<Rightarrow> nat \<Rightarrow> u32 \<Rightarrow> mpz_store \<Rightarrow> mpz_store option" where
  "mpz_set_from_float z neg ex frac \<sigma> =
     (let \<sigma>1 = mpz_put_neg z neg \<sigma>
      in if ex = 0 then mpz_set_from_int z 0 \<sigma>1
         else if ex = 2 ^ MP_FLOAT_EXP_BITS - 1 then mpz_set_from_int z 0 \<sigma>1
         else if ex < MP_FLOAT_EXP_BIAS then mpz_set_from_int z 0 \<sigma>1
         else if ex = MP_FLOAT_EXP_BIAS then mpz_set_from_int z 1 \<sigma>1
         else let adj_exp = ex - MP_FLOAT_EXP_BIAS;
                  dig_cnt = (adj_exp + 1 + (DIG_SIZE - 1)) div DIG_SIZE
              in do { \<sigma>2 \<leftarrow> mpz_need_dig z dig_cnt \<sigma>1;
                      mpz_put z (mpz_float_digits dig_cnt adj_exp frac, dig_cnt) \<sigma>2 })"

end
