(* ===== verification/Mpz_Conv_Correct.thy ===== *)
theory Mpz_Conv_Correct
  imports Mpz_Conv
begin

text \<open>
  The conversions of theory Mpz_Conv: values of the machine words, byte arrays and texts, and the
  conditions under which they are reported to fit.
\<close>

section \<open>Machine words\<close>

lemma unat_shift_in_dig:
  "unat (push_bit DIG_SIZE w OR ucast d :: u32) = 65536 * (unat w mod 65536) + unat (d :: dig)"
proof -
  have "unat (push_bit 16 w) = 65536 * (unat w mod 65536)"
    by (rule unat_push16_u32)
  from unat_or_u16 [OF this, of d] show ?thesis
    by (simp add: DIG_SIZE_def)
qed

lemma unat_of_nat_u32: "unat (of_nat n :: u32) = n mod 4294967296"
  by (simp add: unsigned_of_nat take_bit_eq_mod)

lemma mod_mult_65536: "(65536 * (v mod 65536) + d) mod 4294967296 = (65536 * v + d) mod (4294967296 :: nat)"
proof -
  have "65536 * v = 65536 * (v mod 65536) + 4294967296 * (v div 65536)"
    using mod_mult_div_eq [of v 65536] by linarith
  then have "65536 * v + d = (65536 * (v mod 65536) + d) + 4294967296 * (v div 65536)"
    by linarith
  then show ?thesis
    by (simp only: mod_mult_self2)
qed

lemma mpz_hash_fold: "foldl (\<lambda>val d. push_bit DIG_SIZE val OR ucast d) 0 (rev ds) = (of_nat (mpn_val ds) :: u32)"
proof (induction ds)
  case (Cons d ds)
  let ?w = "of_nat (mpn_val ds) :: u32"
  have "unat (push_bit DIG_SIZE ?w OR ucast d) = 65536 * (mpn_val ds mod 65536) + unat d"
    unfolding unat_shift_in_dig unat_of_nat_u32 by (simp add: mod_mod_cancel)
  also have "\<dots> = (65536 * (mpn_val ds mod 65536) + unat d) mod 4294967296"
    using u16_less [of d] mod_less_divisor [of 65536 "mpn_val ds"] by (subst mod_less) linarith+
  also have "\<dots> = unat (of_nat (mpn_val (d # ds)) :: u32)"
    unfolding mod_mult_65536 unat_of_nat_u32 by (simp add: add.commute)
  finally show ?case
    using Cons.IH by (simp add: word_unat_eq_iff [symmetric])
qed simp

lemma mpz_hash_val: "mpz_hash z = of_int (mpz_val z)"
  by (simp add: mpz_hash_def mpz_hash_fold mpz_val_def sval_def)

lemma mpz_acc_val:
  assumes "(unat l + 1) * 65536 \<le> 4294967296" and "unat v < (unat l + 1) * 65536"
  shows "mpz_acc l v (rev ds) = (let n = unat v * 65536 ^ length ds + mpn_val ds
    in if n < (unat l + 1) * 65536 then Some (of_nat n) else None)"
  using assms(2)
proof (induction ds arbitrary: v rule: rev_induct)
  case (snoc d ds)
  define B where "B = (unat l + 1) * 65536"
  define v' where "v' = push_bit DIG_SIZE v OR ucast d"
  have val: "unat v * 65536 ^ length (ds @ [d]) + mpn_val (ds @ [d]) =
      (65536 * unat v + unat d) * 65536 ^ length ds + mpn_val ds"
    by (simp add: mpn_val_append algebra_simps)
  show ?case
  proof (cases "l < v")
    case True
    then have "unat l + 1 \<le> unat v"
      by (simp add: word_less_nat_alt)
    then have "B * 1 \<le> unat v * 65536 * 65536 ^ length ds"
      unfolding B_def by (intro mult_le_mono) auto
    then show ?thesis
      using True by (simp add: val B_def algebra_simps)
  next
    case False
    then have le: "unat v \<le> unat l"
      by (simp add: word_less_nat_alt)
    have "unat l < 65536"
      using assms(1) by simp
    with le have v65: "unat v < 65536"
      by linarith
    have v': "unat v' = 65536 * unat v + unat d"
      unfolding v'_def unat_shift_in_dig using v65 by simp
    have "unat v' < B"
      using le u16_less [of d] unfolding v' B_def by simp
    from snoc.IH [OF this [unfolded B_def]] show ?thesis
      using False unfolding val by (simp add: v' mult.commute flip: v'_def)
  qed
qed (simp add: Let_def of_nat_unat)

lemma mpz_as_int_checked_val:
  "mpz_as_int_checked z = (if \<bar>mpz_val z\<bar> < 2 ^ 31 then Some (of_int (mpz_val z)) else None)"
proof -
  have l: "unat (drop_bit DIG_SIZE (NOT MP_OBJ_WORD_MSBIT_HIGH)) = 32767"
    by (simp add: DIG_SIZE_def MP_OBJ_WORD_MSBIT_HIGH_def)
  have "mpz_acc (drop_bit DIG_SIZE (NOT MP_OBJ_WORD_MSBIT_HIGH)) 0 (rev (digits z)) =
      (if mpn_val (digits z) < 2147483648 then Some (of_nat (mpn_val (digits z))) else None)"
    by (subst mpz_acc_val) (simp_all only: l, simp_all)
  then show ?thesis
    by (simp add: mpz_as_int_checked_def mpz_val_def sval_def)
qed

lemma mpz_as_uint_checked_val:
  assumes "mpz_ok z"
  shows "mpz_as_uint_checked z = (if 0 \<le> mpz_val z \<and> mpz_val z < 2 ^ 32 then Some (of_int (mpz_val z)) else None)"
proof -
  have l: "unat (drop_bit (DIG_SIZE - 1) (NOT MP_OBJ_WORD_MSBIT_HIGH)) = 65535"
    by (simp add: DIG_SIZE_def MP_OBJ_WORD_MSBIT_HIGH_def)
  have "mpz_acc (drop_bit (DIG_SIZE - 1) (NOT MP_OBJ_WORD_MSBIT_HIGH)) 0 (rev (digits z)) =
      (if mpn_val (digits z) < 4294967296 then Some (of_nat (mpn_val (digits z))) else None)"
    by (subst mpz_acc_val) (simp_all only: l, simp_all)
  then show ?thesis
    unfolding mpz_as_uint_checked_def using mpz_ok_neg [OF assms]
    by (auto simp: mpz_val_def sval_def)
qed

section \<open>Byte arrays\<close>

fun bytes_val :: "u8 list \<Rightarrow> nat" where
  "bytes_val [] = 0"
| "bytes_val (b # bs) = unat b + 256 * bytes_val bs"

lemma bytes_val_append: "bytes_val (xs @ ys) = bytes_val xs + 256 ^ length xs * bytes_val ys"
  by (induction xs) (auto simp: algebra_simps)

lemma bytes_val_less: "bytes_val bs < 256 ^ length bs"
proof (induction bs)
  case (Cons b bs)
  have "unat b + 256 * bytes_val bs < 256 * (bytes_val bs + 1)"
    using u8_less [of b] by simp
  also have "\<dots> \<le> 256 * 256 ^ length bs"
    using Cons.IH by (intro mult_le_mono2) simp
  finally show ?case by simp
qed simp

lemma bytes_val_zeros [simp]: "bytes_val (replicate n 0) = 0"
  by (induction n) auto

lemma bytes_val_ones: "bytes_val (replicate n 0xff) + 1 = 256 ^ n"
  by (induction n) auto

lemma bytes_val_take: "n \<le> length bs \<Longrightarrow> bytes_val (take n bs) = bytes_val bs mod 256 ^ n"
  using bytes_val_append [of "take n bs" "drop n bs"] bytes_val_less [of "take n bs"] by simp

lemma bytes_val_drop: "n \<le> length bs \<Longrightarrow> bytes_val (drop n bs) = bytes_val bs div 256 ^ n"
  using bytes_val_append [of "take n bs" "drop n bs"] bytes_val_less [of "take n bs"] by simp

lemma bytes_val_eq_0: "bytes_val bs = 0 \<longleftrightarrow> (\<forall>b \<in> set bs. b = 0)"
  by (induction bs) (auto simp: unat_eq_zero)

text \<open>From bytes.\<close>

lemma unat_byte_pair: "unat (ucast a OR push_bit 8 (ucast b) :: dig) = unat (a :: u8) + 256 * unat (b :: u8)"
proof -
  have "unat (push_bit 8 (ucast b) :: dig) = take_bit LENGTH(16) (push_bit 8 (unat (ucast b :: dig)))"
    by (rule unsigned_push_bit_eq)
  also have "\<dots> = 256 * unat b"
    using u8_less [of b] by (simp add: unat_u16_of_u8 push_bit_eq_mult take_bit_eq_mod)
  finally show ?thesis
    using or_low_bits [of "unat a" 8 "unat b"] u8_less [of a]
    by (simp add: unsigned_or_eq unat_u16_of_u8 or.commute)
qed

lemma mpz_bytes_digs_pairs:
  "mpz_bytes_digs [a] = [ucast a]"
  "mpz_bytes_digs (a # b # bs) = (ucast a OR push_bit 8 (ucast b)) # mpz_bytes_digs bs"
  by (cases bs; simp add: DIG_SIZE_def)+

lemma mpz_bytes_digs_val:
  "mpn_val (mpz_bytes_digs bs) = bytes_val bs \<and> length (mpz_bytes_digs bs) = (length bs + 1) div 2"
proof (induction bs rule: induct_list012)
  case (3 a b bs)
  then show ?case
    by (simp add: mpz_bytes_digs_pairs unat_byte_pair del: mpz_bytes_digs.simps(2))
qed (auto simp: mpz_bytes_digs_pairs unat_u16_of_u8 simp del: mpz_bytes_digs.simps(2))

lemma mpz_set_from_bytes_ok:
  assumes "\<not> z_fixed (\<sigma> d)"
  obtains \<sigma>' where "mpz_set_from_bytes d be buf \<sigma> = Some \<sigma>'"
    and "mpz_sets d (int (bytes_val (if be then rev buf else buf))) \<sigma> \<sigma>'"
proof -
  define bs where "bs = (if be then rev buf else buf)"
  define ds where "ds = mpz_bytes_digs bs"
  define need where "need = (length buf * 8 + DIG_SIZE - 1) div DIG_SIZE"
  have ds: "mpn_val ds = bytes_val bs" "length ds = need"
    using mpz_bytes_digs_val [of bs] by (auto simp: ds_def bs_def need_def DIG_SIZE_def)
  obtain \<sigma>1 where n: "mpz_need_dig d need \<sigma> = Some \<sigma>1" and room: "mpz_room d need \<sigma> \<sigma>1"
    using assms mpz_need_dig_room [of \<sigma> d need] by blast
  obtain \<sigma>2 where "mpz_put d (ds, mpn_remove_trailing_zeros ds (length ds)) (mpz_put_neg d False \<sigma>1) = Some \<sigma>2"
    and "mpz_sets d (sval (z_neg (mpz_put_neg d False \<sigma>1 d))
          (take (mpn_remove_trailing_zeros ds (length ds)) ds)) \<sigma> \<sigma>2"
    by (rule mpz_put_signed [where \<tau> = "mpz_put_neg d False \<sigma>1" and \<sigma> = \<sigma> and d = d and ws = ds
          and m = "mpn_remove_trailing_zeros ds (length ds)"])
      (use ds(2) mpz_room_length [OF room] assms in \<open>auto simp: mpn_remove_trailing_zeros_le
         mpn_remove_trailing_zeros_normalised mpz_room [OF room]\<close>)
  then show ?thesis
    using that n ds(1)
    unfolding mpz_set_from_bytes_def Let_def bs_def [symmetric] ds_def [symmetric] need_def [symmetric]
    by (simp add: sval_def mpn_remove_trailing_zeros_val)
qed

text \<open>
  To bytes: the bytes that the loop stores or drops, with the carry of the negation, before the
  split into those that have room and those that have not.
\<close>

fun dig_bytes :: "dig list \<Rightarrow> u8 list" where
  "dig_bytes [] = []"
| "dig_bytes (d # ds) = ucast d # ucast (drop_bit 8 d) # dig_bytes ds"

lemma dig_bytes_val: "bytes_val (dig_bytes ds) = mpn_val ds \<and> length (dig_bytes ds) = 2 * length ds"
proof (induction ds)
  case (Cons d ds)
  have "unat (ucast d :: u8) = unat d mod 256" "unat (ucast (drop_bit 8 d) :: u8) = unat d div 256"
    using u16_less [of d] by (simp_all add: unat_u8_of_u16 unat_drop_bit_nat)
  then show ?case
    using Cons by simp
qed simp

fun out_bytes :: "bool \<Rightarrow> u32 \<Rightarrow> u8 list \<Rightarrow> u8 list" where
  "out_bytes neg c [] = []"
| "out_bytes neg c (b # bs) =
     (if neg then let v = 255 - unat b + unat c in of_nat v # out_bytes neg (of_nat (v div 256)) bs
      else b # out_bytes neg c bs)"

lemma out_bytes_length [simp]: "length (out_bytes neg c bs) = length bs"
  by (induction bs arbitrary: c) (auto simp: Let_def)

lemma out_bytes_pos: "out_bytes False c bs = bs"
  by (induction bs) auto

lemma out_bytes_neg:
  assumes "unat c \<le> 1"
  shows "bytes_val (out_bytes True c bs) = (256 ^ length bs - 1 - bytes_val bs + unat c) mod 256 ^ length bs"
  using assms
proof (induction bs arbitrary: c)
  case (Cons b bs)
  define v where "v = 255 - unat b + unat c"
  have b: "unat b < 256"
    by (rule u8_less)
  have v: "v \<le> 256"
    using Cons.prems b by (simp add: v_def)
  have c': "unat (of_nat (v div 256) :: u32) = v div 256"
    using v by (simp add: unsigned_of_nat take_bit_eq_mod)
  have lt: "bytes_val bs + 1 \<le> 256 ^ length bs"
    using bytes_val_less [of bs] by simp
  have "256 ^ length (b # bs) - 1 - bytes_val (b # bs) + unat c =
      v + 256 * (256 ^ length bs - 1 - bytes_val bs)"
    using b lt by (simp add: v_def)
  also have "\<dots> = v mod 256 + 256 * (256 ^ length bs - 1 - bytes_val bs + v div 256)"
    by simp
  finally have "(256 ^ length (b # bs) - 1 - bytes_val (b # bs) + unat c) mod 256 ^ length (b # bs) =
      (v mod 256 + 256 * (256 ^ length bs - 1 - bytes_val bs + v div 256)) mod (256 * 256 ^ length bs)"
    by simp
  also have "\<dots> = v mod 256 + 256 * ((256 ^ length bs - 1 - bytes_val bs + v div 256) mod 256 ^ length bs)"
    by (subst mod_mult2_eq) simp
  also have "\<dots> = bytes_val (out_bytes True c (b # bs))"
    using Cons.IH [of "of_nat (v div 256)"] v
    by (simp add: c' Let_def unsigned_of_nat take_bit_eq_mod div_le_mono flip: v_def)
  finally show ?case by simp
qed simp


text \<open>The loop of \<^verbatim>\<open>mpz_as_bytes\<close> stores the first bytes and tests the rest.\<close>

definition as_bytes_next :: "as_bytes_state \<Rightarrow> u8 list \<Rightarrow> as_bytes_state \<Rightarrow> bool" where
  "as_bytes_next st bs st' \<longleftrightarrow>
     ab_out st' = ab_out st @ take (ab_olen st) bs \<and> ab_olen st' = ab_olen st - length bs \<and>
     (ab_ok st' \<longleftrightarrow> ab_ok st \<and> (\<forall>b \<in> set (drop (ab_olen st) bs). b = 0))"

lemma as_bytes_next_trans:
  assumes "as_bytes_next st bs st1" and "as_bytes_next st1 cs st2"
  shows "as_bytes_next st (bs @ cs) st2"
  using assms by (auto simp: as_bytes_next_def)

lemma unat_not_low_byte: "unat (NOT w AND 0xff :: u32) = 255 - unat w mod 256"
proof -
  have "NOT w AND 0xff = take_bit 8 (NOT w)"
    by (simp add: take_bit_eq_mask mask_eq_exp_minus_1)
  also have "\<dots> = mask 8 - take_bit 8 w"
    by (rule take_bit_not_eq_mask_diff)
  finally have e: "NOT w AND 0xff = mask 8 - take_bit 8 w" .
  have m: "unat (mask 8 :: u32) = 255" "unat (take_bit 8 w) = unat w mod 256"
    using unat_and_mask [of w 8] by (simp_all add: mask_eq_exp_minus_1 take_bit_eq_mask)
  have "take_bit 8 w \<le> mask 8"
    using mod_less_divisor [of 256 "unat w"] unfolding word_le_nat_alt m by linarith
  then show ?thesis
    unfolding e by (simp only: unat_sub m)
qed

lemma mpz_as_byte_next:
  fixes d :: u32
  assumes "unat (ab_carry st) \<le> 1"
  defines "v \<equiv> 255 - unat d mod 256 + unat (ab_carry st)"
  shows "as_bytes_next st [if neg then of_nat v else ucast d] (mpz_as_byte neg d st)"
    and "ab_carry (mpz_as_byte neg d st) = (if neg then of_nat (v div 256) else ab_carry st)"
proof -
  have v: "v \<le> 256"
    using assms(1) by (simp add: v_def)
  have "unat (ucast (ucast d :: dig) :: u32) mod 256 = unat d mod 256"
    by (simp add: unat_u32_of_u16 unat_u16_of_u32 mod_mod_cancel)
  then have "unat ((NOT (ucast (ucast d :: dig)) AND 0xff) + ab_carry st :: u32) = v"
    using v unfolding v_def by (subst unat_add_u32) (simp_all add: unat_not_low_byte)
  then have w: "unat (ucast ((NOT (ucast (ucast d :: dig)) AND 0xff) + ab_carry st :: u32) :: dig) = v"
    using v by (simp add: unat_u16_of_u32)
  have low: "ucast ((ucast ((NOT (ucast (ucast d :: dig)) AND 0xff) + ab_carry st :: u32)) :: dig) = (of_nat v :: u8)"
    by (rule word_unat_eq_iff [THEN iffD2]) (simp add: unat_u8_of_u16 w unsigned_of_nat take_bit_eq_mod)
  have high: "ucast (drop_bit 8 (ucast ((NOT (ucast (ucast d :: dig)) AND 0xff) + ab_carry st :: u32) :: dig)) =
      (of_nat (v div 256) :: u32)"
    using v by (intro word_unat_eq_iff [THEN iffD2])
      (simp add: unat_u32_of_u16 unat_drop_bit_nat w unsigned_of_nat take_bit_eq_mod)
  have pos: "ucast (ucast d :: dig) = (ucast d :: u8)"
    by (rule word_unat_eq_iff [THEN iffD2]) (simp add: unat_u8_of_u16 unat_u16_of_u32 unat_u8_of_u32 mod_mod_cancel)
  show "as_bytes_next st [if neg then of_nat v else ucast d] (mpz_as_byte neg d st)"
    and "ab_carry (mpz_as_byte neg d st) = (if neg then of_nat (v div 256) else ab_carry st)"
    unfolding mpz_as_byte_def Let_def as_bytes_next_def
    by (cases "ab_olen st"; cases neg; simp add: low high pos)+
qed

lemma mpz_as_bytes_digs_next:
  assumes "unat (ab_carry st) \<le> 1"
  shows "as_bytes_next st (out_bytes neg (ab_carry st) (dig_bytes ds)) (mpz_as_bytes_digs neg ds 0 0 st)"
  using assms
proof (induction ds arbitrary: st)
  case Nil
  then show ?case
    by (simp add: as_bytes_next_def)
next
  case (Cons d ds)
  define st1 where "st1 = mpz_as_byte neg (ucast d) st"
  define st2 where "st2 = mpz_as_byte neg (drop_bit 8 (ucast d)) st1"
  have dz: "drop_bit 16 (ucast d :: u32) = 0"
    using u16_less [of d] by (simp add: word_unat_eq_iff unat_drop_bit_nat unat_u32_of_u16)
  have run: "mpz_as_bytes_digs neg (d # ds) 0 0 st = mpz_as_bytes_digs neg ds 0 0 st2"
    by (simp add: mpz_as_bytes_bits.simps DIG_SIZE_def dz st1_def st2_def)
  note 1 = mpz_as_byte_next [where d = "ucast d" and neg = neg, OF Cons.prems, folded st1_def]
  have c1: "unat (ab_carry st1) \<le> 1"
    using Cons.prems unfolding 1(2) by (auto simp: unsigned_of_nat take_bit_eq_mod div_le_mono less_Suc_eq_le)
  note 2 = mpz_as_byte_next [where d = "drop_bit 8 (ucast d)" and neg = neg, OF c1, folded st2_def]
  have c2: "unat (ab_carry st2) \<le> 1"
    using c1 unfolding 2(2) by (auto simp: unsigned_of_nat take_bit_eq_mod div_le_mono less_Suc_eq_le)
  have b0: "unat (ucast d :: u32) mod 256 = unat (ucast d :: u8)" "(ucast (ucast d :: u32) :: u8) = ucast d"
    by (simp_all add: unat_u32_of_u16 unat_u8_of_u16 word_unat_eq_iff unat_u8_of_u32)
  have b1: "unat (drop_bit 8 (ucast d :: u32)) mod 256 = unat (ucast (drop_bit 8 d) :: u8)"
      "(ucast (drop_bit 8 (ucast d :: u32)) :: u8) = ucast (drop_bit 8 d)"
    by (simp_all add: unat_u32_of_u16 unat_u8_of_u16 word_unat_eq_iff unat_u8_of_u32 unat_drop_bit_nat)
  show ?case
    using as_bytes_next_trans [OF as_bytes_next_trans [OF 1(1) 2(1)] Cons.IH [OF c2]]
    unfolding run 1(2) 2(2) b0 b1 by (cases neg) (simp_all add: Let_def 1(2) 2(2) b0 b1)
qed

definition le_bytes :: "bool \<Rightarrow> u8 list \<Rightarrow> u8 list" where
  "le_bytes be buf = (if be then rev buf else buf)"

lemma top_bit: "(b AND 0x80 \<noteq> 0) \<longleftrightarrow> 128 \<le> unat (b :: u8)"
proof -
  have "(b AND 0x80 \<noteq> 0) \<longleftrightarrow> bit b 7"
    by (simp only: bit_iff_and_push_bit_not_eq_0 [of b 7]) simp
  also have "\<dots> \<longleftrightarrow> bit (unat b) 7"
    by (simp add: bit_unsigned_iff)
  also have "\<dots> \<longleftrightarrow> odd (unat b div 128)"
    by (simp add: bit_iff_odd [of "unat b"])
  also have "\<dots> \<longleftrightarrow> 128 \<le> unat b"
  proof
    show "128 \<le> unat b" if "odd (unat b div 128)"
      using that by (cases "unat b < 128") auto
    show "odd (unat b div 128)" if "128 \<le> unat b"
    proof -
      have "unat b div 128 = 1"
        using that u8_less [of b] by (simp add: div_nat_eqI)
      then show ?thesis by simp
    qed
  qed
  finally show ?thesis .
qed

lemma top_byte:
  assumes "length bs = Suc n"
  shows "128 \<le> unat (bs ! n) \<longleftrightarrow> 128 * 256 ^ n \<le> bytes_val bs"
proof -
  have bs: "bytes_val bs = bytes_val (take n bs) + 256 ^ n * unat (bs ! n)"
    using assms bytes_val_append [of "take n bs" "[bs ! n]"] by (simp add: take_Suc_conv_app_nth [of n bs, symmetric])
  have lt: "bytes_val (take n bs) < 256 ^ n"
    using bytes_val_less [of "take n bs"] assms by simp
  show ?thesis
  proof
    assume "128 \<le> unat (bs ! n)"
    then have "256 ^ n * 128 \<le> 256 ^ n * unat (bs ! n)"
      by (rule mult_le_mono2)
    then show "128 * 256 ^ n \<le> bytes_val bs"
      unfolding bs by linarith
  next
    assume "128 * 256 ^ n \<le> bytes_val bs"
    then have "128 * 256 ^ n < 256 ^ n * (unat (bs ! n) + 1)"
      using lt unfolding bs distrib_left by linarith
    then have "256 ^ n * 128 < 256 ^ n * (unat (bs ! n) + 1)"
      by (simp only: mult.commute [of 128])
    then have "128 < unat (bs ! n) + 1"
      by (simp only: mult_less_cancel1)
    then show "128 \<le> unat (bs ! n)" by simp
  qed
qed

text \<open>The bytes of the whole number, two for each digit.\<close>

definition mpz_bytes :: "mpz \<Rightarrow> u8 list" where
  "mpz_bytes z = out_bytes (z_neg z) 1 (dig_bytes (digits z))"

lemma mpz_bytes_val:
  assumes "mpz_ok z"
  shows "length (mpz_bytes z) = 2 * z_len z"
    and "int (bytes_val (mpz_bytes z)) = (if z_neg z then 256 ^ (2 * z_len z) + mpz_val z else mpz_val z)"
proof -
  have len: "length (dig_bytes (digits z)) = 2 * z_len z" and v: "bytes_val (dig_bytes (digits z)) = mpn_val (digits z)"
    using dig_bytes_val [of "digits z"] mpz_okD(2) [OF assms] by simp_all
  then show "length (mpz_bytes z) = 2 * z_len z"
    by (simp add: mpz_bytes_def)
  show "int (bytes_val (mpz_bytes z)) = (if z_neg z then 256 ^ (2 * z_len z) + mpz_val z else mpz_val z)"
  proof (cases "z_neg z")
    case True
    have lt: "mpn_val (digits z) < 256 ^ (2 * z_len z)"
      using bytes_val_less [of "dig_bytes (digits z)"] len v by simp
    have pos: "0 < mpn_val (digits z)"
      using mpz_ok_pos [OF assms] mpz_okD(4) [OF assms True] by simp
    have "bytes_val (mpz_bytes z) = 256 ^ (2 * z_len z) - mpn_val (digits z)"
      using True lt pos by (simp add: mpz_bytes_def out_bytes_neg len v)
    then show ?thesis
      using True lt by (simp add: of_nat_diff mpz_val_def sval_def)
  next
    case False
    then show ?thesis
      by (simp add: mpz_bytes_def out_bytes_pos v mpz_val_def sval_def)
  qed
qed

lemma mpz_as_bytes_run:
  assumes "mpz_as_bytes z be s len = (ok, buf)"
  shows "length buf = len"
    and "le_bytes be buf = take len (mpz_bytes z) @ replicate (len - length (mpz_bytes z)) (if z_neg z then 0xff else 0)"
    and "ok \<longleftrightarrow> (\<forall>b \<in> set (drop len (mpz_bytes z)). b = 0) \<and>
      (s \<and> 0 < len \<and> len \<le> length (mpz_bytes z) \<longrightarrow> (128 \<le> unat (le_bytes be buf ! (len - 1)) \<longleftrightarrow> z_neg z))"
proof -
  define st where "st = \<lparr>ab_out = [], ab_olen = len, ab_carry = 1, ab_ok = True\<rparr>"
  define st' where "st' = mpz_as_bytes_digs (z_neg z) (digits z) 0 0 st"
  have "as_bytes_next st (mpz_bytes z) st'"
    using mpz_as_bytes_digs_next [of st "z_neg z" "digits z"] by (simp add: st_def st'_def mpz_bytes_def)
  then have n: "ab_out st' = take len (mpz_bytes z)" "ab_olen st' = len - length (mpz_bytes z)"
      "ab_ok st' \<longleftrightarrow> (\<forall>b \<in> set (drop len (mpz_bytes z)). b = 0)"
    by (simp_all add: as_bytes_next_def st_def)
  define le where "le = ab_out st' @ replicate (ab_olen st') (if z_neg z then 0xff else 0)"
  have le: "length le = len"
    by (simp add: le_def n)
  have buf: "buf = (if be then rev le else le)"
    and ok: "ok = (if s \<and> ab_olen st' = 0 \<and> len > 0
                then ab_ok st' \<and> ((buf ! (if be then 0 else len - 1) AND 0x80 \<noteq> 0) = z_neg z)
                else ab_ok st')"
    using assms by (auto simp: mpz_as_bytes_def Let_def st_def st'_def le_def split: if_splits)
  show "length buf = len"
    by (simp add: buf le)
  have b: "le_bytes be buf = le"
    by (simp add: le_bytes_def buf)
  then show "le_bytes be buf = take len (mpz_bytes z) @ replicate (len - length (mpz_bytes z)) (if z_neg z then 0xff else 0)"
    by (simp add: le_def n)
  have "buf ! (if be then 0 else len - 1) = le ! (len - 1)" if "0 < len"
    using that le by (cases be) (simp_all add: buf rev_nth)
  then show "ok \<longleftrightarrow> (\<forall>b \<in> set (drop len (mpz_bytes z)). b = 0) \<and>
      (s \<and> 0 < len \<and> len \<le> length (mpz_bytes z) \<longrightarrow> (128 \<le> unat (le_bytes be buf ! (len - 1)) \<longleftrightarrow> z_neg z))"
    unfolding ok b top_bit using n by auto
qed

lemma mpz_as_bytes_mod:
  assumes "mpz_ok z" and "mpz_as_bytes z be s len = (ok, buf)"
  shows "int (bytes_val (le_bytes be buf)) = mpz_val z mod 256 ^ len"
proof (cases "len \<le> 2 * z_len z")
  case True
  then have e: "le_bytes be buf = take len (mpz_bytes z)"
    using mpz_as_bytes_run(2) [OF assms(2)] mpz_bytes_val(1) [OF assms(1)] by simp
  have "int (bytes_val (le_bytes be buf)) = int (bytes_val (mpz_bytes z)) mod 256 ^ len"
    unfolding e using True mpz_bytes_val(1) [OF assms(1)] by (simp add: bytes_val_take zmod_int)
  also have "\<dots> = mpz_val z mod 256 ^ len"
  proof (cases "z_neg z")
    case True
    have "(256 :: int) ^ (2 * z_len z) = 256 ^ len * 256 ^ (2 * z_len z - len)"
      using \<open>len \<le> 2 * z_len z\<close> by (simp flip: power_add)
    then show ?thesis
      using True by (simp add: mpz_bytes_val(2) [OF assms(1)] add.commute)
  qed (simp add: mpz_bytes_val(2) [OF assms(1)])
  finally show ?thesis .
next
  case False
  define k where "k = len - 2 * z_len z"
  have len: "len = 2 * z_len z + k"
    using False by (simp add: k_def)
  have e: "le_bytes be buf = mpz_bytes z @ replicate k (if z_neg z then 0xff else 0)"
    using mpz_as_bytes_run(2) [OF assms(2)] mpz_bytes_val(1) [OF assms(1)] False by (simp add: k_def)
  have "bytes_val (mpz_bytes z) < 256 ^ (2 * z_len z)"
    using bytes_val_less [of "mpz_bytes z"] mpz_bytes_val(1) [OF assms(1)] by simp
  then have lt: "int (bytes_val (mpz_bytes z)) < 256 ^ (2 * z_len z)"
    using of_nat_less_iff [of "bytes_val (mpz_bytes z)" "256 ^ (2 * z_len z)", where ?'a = int] by simp
  have val: "int (bytes_val (le_bytes be buf)) = int (bytes_val (mpz_bytes z)) +
      256 ^ (2 * z_len z) * int (bytes_val (replicate k (if z_neg z then 0xff else 0)))"
    unfolding e by (simp add: bytes_val_append mpz_bytes_val(1) [OF assms(1)])
  have "256 ^ (2 * z_len z) \<le> (256 :: int) ^ len"
    by (intro power_increasing) (auto simp: len)
  show ?thesis
  proof (cases "z_neg z")
    case True
    have ones: "int (bytes_val (replicate k 0xff)) = 256 ^ k - 1"
      using arg_cong [OF bytes_val_ones [of k], of int] by simp
    have b: "int (bytes_val (mpz_bytes z)) = 256 ^ (2 * z_len z) + mpz_val z"
      using mpz_bytes_val(2) [OF assms(1)] True by (simp only: if_True)
    have v: "int (bytes_val (le_bytes be buf)) = mpz_val z + 256 ^ len"
      unfolding val b using True by (simp only: if_True ones len power_add right_diff_distrib mult_1_right)
    have "int (bytes_val (le_bytes be buf)) < 256 ^ len"
      using bytes_val_less [of "le_bytes be buf"] mpz_as_bytes_run(1) [OF assms(2)]
        of_nat_less_iff [of "bytes_val (le_bytes be buf)" "256 ^ len", where ?'a = int]
      by (auto simp: le_bytes_def)
    then have "int (bytes_val (le_bytes be buf)) = (mpz_val z + 256 ^ len) mod 256 ^ len"
      unfolding v [symmetric] by simp
    then show ?thesis
      by (simp only: mod_add_self2)
  next
    case False
    then have b: "int (bytes_val (mpz_bytes z)) = mpz_val z" "0 \<le> mpz_val z"
      using mpz_ok_neg [OF assms(1)] by (simp_all add: mpz_bytes_val(2) [OF assms(1)])
    moreover have "mpz_val z < 256 ^ len"
      using lt \<open>256 ^ (2 * z_len z) \<le> (256 :: int) ^ len\<close> unfolding b by (rule less_le_trans)
    moreover have "int (bytes_val (le_bytes be buf)) = mpz_val z"
      using False by (simp add: val b)
    ultimately show ?thesis by simp
  qed
qed


lemma mpz_bytes_drop_zero:
  assumes "mpz_ok z" and "len \<le> 2 * z_len z"
  shows "(\<forall>b \<in> set (drop len (mpz_bytes z)). b = 0) \<longleftrightarrow> bytes_val (mpz_bytes z) < 256 ^ len"
proof -
  have "(\<forall>b \<in> set (drop len (mpz_bytes z)). b = 0) \<longleftrightarrow> bytes_val (mpz_bytes z) div 256 ^ len = 0"
    using assms mpz_bytes_val(1) [OF assms(1)] by (simp add: bytes_val_drop flip: bytes_val_eq_0)
  then show ?thesis
    by (simp add: div_eq_0_iff)
qed

text \<open>The result of \<^verbatim>\<open>mpz_as_bytes\<close> for a number that is not negative.\<close>

lemma mpz_as_bytes_fits:
  assumes ok: "mpz_ok z" and as: "mpz_as_bytes z be s len = (ok, buf)" and pos: "0 \<le> mpz_val z"
  shows "ok \<longleftrightarrow> mpz_val z < (if s \<and> 0 < len then 2 ^ (8 * len - 1) else 2 ^ (8 * len))"
proof -
  have neg: "\<not> z_neg z"
    using mpz_ok_neg [OF ok] pos by simp
  define v where "v = bytes_val (mpz_bytes z)"
  have v: "mpz_val z = int v"
    using mpz_bytes_val(2) [OF ok] neg by (simp add: v_def)
  have len: "length (mpz_bytes z) = 2 * z_len z"
    by (rule mpz_bytes_val(1) [OF ok])
  have p: "(2 :: nat) ^ (8 * len) = 256 ^ len"
    by (simp add: power_mult)
  have lt: "v < 256 ^ (2 * z_len z)"
    using bytes_val_less [of "mpz_bytes z"] by (simp add: v_def len)
  have cut: "(\<forall>b \<in> set (drop len (mpz_bytes z)). b = 0) \<longleftrightarrow> v < 256 ^ len"
  proof (cases "len \<le> 2 * z_len z")
    case False
    then have "(256 :: nat) ^ (2 * z_len z) \<le> 256 ^ len"
      by (intro power_increasing) auto
    then have "v < 256 ^ len"
      using lt by linarith
    with False show ?thesis
      by (simp add: len)
  qed (use mpz_bytes_drop_zero [OF ok] in \<open>simp add: v_def\<close>)
  have ok': "ok \<longleftrightarrow> v < 256 ^ len \<and> (s \<and> 0 < len \<and> len \<le> 2 * z_len z \<longrightarrow> \<not> 128 \<le> unat (le_bytes be buf ! (len - 1)))"
    using mpz_as_bytes_run(3) [OF as] neg by (simp add: cut len)
  show ?thesis
  proof (cases "s \<and> 0 < len")
    case False
    then show ?thesis
      unfolding ok' v by (auto simp: p)
  next
    case True
    have half: "(2 :: nat) ^ (8 * len - 1) = 128 * 256 ^ (len - 1)"
      using True by (cases len) (simp_all add: power_add power_mult)
    have full: "(256 :: nat) ^ len = 256 * 256 ^ (len - 1)"
      using True by (cases len) simp_all
    have m: "bytes_val (le_bytes be buf) = v mod 256 ^ len"
      using mpz_as_bytes_mod [OF ok as] of_nat_eq_iff [of "bytes_val (le_bytes be buf)" "v mod 256 ^ len", where ?'a = int]
      by (simp add: v zmod_int)
    have top: "128 \<le> unat (le_bytes be buf ! (len - 1)) \<longleftrightarrow> 128 * 256 ^ (len - 1) \<le> bytes_val (le_bytes be buf)"
      using True mpz_as_bytes_run(1) [OF as] by (intro top_byte) (auto simp: le_bytes_def)
    have goal: "ok \<longleftrightarrow> v < 128 * 256 ^ (len - 1)"
    proof (cases "len \<le> 2 * z_len z")
      case True
      then show ?thesis
        using \<open>s \<and> 0 < len\<close> unfolding ok' top m by (auto simp: full)
    next
      case False
      then have "(256 :: nat) ^ (2 * z_len z) \<le> 256 ^ (len - 1)"
        by (intro power_increasing) auto
      with lt have "v < 128 * 256 ^ (len - 1)"
        by linarith
      with False show ?thesis
        unfolding ok' full by simp
    qed
    have "mpz_val z < 2 ^ (8 * len - 1) \<longleftrightarrow> v < 2 ^ (8 * len - 1)"
      unfolding v using of_nat_less_iff [of v "2 ^ (8 * len - 1)", where ?'a = int] by simp
    then show ?thesis
      using True goal unfolding half [symmetric] by (simp only: if_True simp_thms)
  qed
qed

text \<open>And for a negative number that is given room for all of its digits.\<close>

lemma mpz_as_bytes_fits_neg:
  assumes ok: "mpz_ok z" and as: "mpz_as_bytes z be s len = (ok, buf)" and neg: "mpz_val z < 0"
    and len: "2 * z_len z \<le> len"
  shows "ok \<longleftrightarrow> (s \<longrightarrow> - (2 ^ (8 * len - 1)) \<le> mpz_val z)"
proof -
  have n: "z_neg z" "0 < z_len z"
    using mpz_ok_neg [OF ok] neg mpz_okD(4) [OF ok] by auto
  have l: "length (mpz_bytes z) = 2 * z_len z"
    by (rule mpz_bytes_val(1) [OF ok])
  have half: "(2 :: int) ^ (8 * len - 1) = 128 * 256 ^ (len - 1)"
    using n len by (cases len) (simp_all add: power_add power_mult)
  have b: "int (bytes_val (mpz_bytes z)) = 256 ^ (2 * z_len z) + mpz_val z"
    using mpz_bytes_val(2) [OF ok] n by (simp only: if_True)
  have ok': "ok \<longleftrightarrow> (s \<and> len \<le> 2 * z_len z \<longrightarrow> 128 \<le> unat (le_bytes be buf ! (len - 1)))"
    using mpz_as_bytes_run(3) [OF as] n len by (auto simp: l)
  show ?thesis
  proof (cases "len = 2 * z_len z")
    case True
    have bv: "int (bytes_val (le_bytes be buf)) = 256 * 256 ^ (len - 1) + mpz_val z"
    proof -
      have "(256 :: int) ^ (2 * z_len z) = 256 * 256 ^ (len - 1)"
        using n True power_minus_mult [of "2 * z_len z" "256 :: int"] by simp
      then show ?thesis
        using mpz_as_bytes_run(2) [OF as] b True by (simp add: l)
    qed
    have "128 \<le> unat (le_bytes be buf ! (len - 1)) \<longleftrightarrow> 128 * 256 ^ (len - 1) \<le> bytes_val (le_bytes be buf)"
      using n True mpz_as_bytes_run(1) [OF as] by (intro top_byte) (auto simp: le_bytes_def)
    also have "\<dots> \<longleftrightarrow> int (128 * 256 ^ (len - 1)) \<le> int (bytes_val (le_bytes be buf))"
      by (simp only: of_nat_le_iff)
    also have "\<dots> \<longleftrightarrow> - (128 * 256 ^ (len - 1)) \<le> mpz_val z"
      unfolding bv of_nat_mult of_nat_power of_nat_numeral by linarith
    finally show ?thesis
      unfolding ok' half using True by simp
  next
    case False
    have "(256 :: int) ^ (2 * z_len z) \<le> 256 ^ (len - 1)"
      using False len by (intro power_increasing) auto
    moreover have "0 \<le> 256 ^ (2 * z_len z) + mpz_val z"
      unfolding b [symmetric] by simp
    moreover have "0 \<le> (256 :: int) ^ (len - 1)"
      by simp
    ultimately have "- (128 * 256 ^ (len - 1)) \<le> mpz_val z"
      by linarith
    then show ?thesis
      unfolding ok' half using False len by simp
  qed
qed

text \<open>
  A negative number that is given less room: the bytes there is no room for are tested for zero after the
  negation, so the flag is set only for a number just above the least one of so many digits.
\<close>

lemma mpz_as_bytes_flag_neg:
  assumes ok: "mpz_ok z" and as: "mpz_as_bytes z be s len = (ok, buf)" and neg: "mpz_val z < 0"
    and len: "len < 2 * z_len z"
  shows "ok \<longleftrightarrow> 256 ^ (2 * z_len z) - 256 ^ len < - mpz_val z \<and> (s \<and> 0 < len \<longrightarrow> 2 ^ (8 * len - 1) \<le> mpz_val z mod 256 ^ len)"
proof -
  have n: "z_neg z"
    using mpz_ok_neg [OF ok] neg by simp
  have l: "length (mpz_bytes z) = 2 * z_len z"
    by (rule mpz_bytes_val(1) [OF ok])
  have b: "int (bytes_val (mpz_bytes z)) = 256 ^ (2 * z_len z) + mpz_val z"
    using mpz_bytes_val(2) [OF ok] n by (simp only: if_True)
  have "(\<forall>b \<in> set (drop len (mpz_bytes z)). b = 0) \<longleftrightarrow> int (bytes_val (mpz_bytes z)) < int (256 ^ len)"
    using mpz_bytes_drop_zero [OF ok, of len] len by (simp only: of_nat_less_iff less_imp_le)
  also have "\<dots> \<longleftrightarrow> 256 ^ (2 * z_len z) - 256 ^ len < - mpz_val z"
    unfolding b of_nat_power of_nat_numeral by linarith
  finally have cut: "(\<forall>b \<in> set (drop len (mpz_bytes z)). b = 0) \<longleftrightarrow> 256 ^ (2 * z_len z) - 256 ^ len < - mpz_val z" .
  have top: "128 \<le> unat (le_bytes be buf ! (len - 1)) \<longleftrightarrow> 2 ^ (8 * len - 1) \<le> mpz_val z mod 256 ^ len" if "0 < len"
  proof -
    have half: "(2 :: nat) ^ (8 * len - 1) = 128 * 256 ^ (len - 1)"
      using that by (cases len) (simp_all add: power_add power_mult)
    have "128 \<le> unat (le_bytes be buf ! (len - 1)) \<longleftrightarrow> 2 ^ (8 * len - 1) \<le> bytes_val (le_bytes be buf)"
      unfolding half using that mpz_as_bytes_run(1) [OF as] by (intro top_byte) (auto simp: le_bytes_def)
    also have "\<dots> \<longleftrightarrow> int (2 ^ (8 * len - 1)) \<le> int (bytes_val (le_bytes be buf))"
      by (simp only: of_nat_le_iff)
    finally show ?thesis
      unfolding mpz_as_bytes_mod [OF ok as] of_nat_power of_nat_numeral .
  qed
  show ?thesis
    using mpz_as_bytes_run(3) [OF as] top len n by (auto simp: cut l)
qed

text \<open>So whenever it is set, the number lies below the range of the bytes.\<close>

lemma mpz_as_bytes_flag_wrong:
  assumes "mpz_ok z" and "mpz_as_bytes z be s len = (True, buf)" and "mpz_val z < 0" and "len < 2 * z_len z"
  shows "mpz_val z < - (256 ^ len)"
proof -
  have "(256 :: int) ^ Suc len \<le> 256 ^ (2 * z_len z)"
    using assms(4) by (intro power_increasing) auto
  moreover have "256 ^ (2 * z_len z) - 256 ^ len < - mpz_val z"
    using mpz_as_bytes_flag_neg [OF assms] by blast
  moreover have "(0 :: int) < 256 ^ len"
    by simp
  ultimately show ?thesis
    unfolding power_Suc by linarith
qed

text \<open>Stored bytes read back as the number.\<close>

lemma mpz_as_bytes_round:
  assumes "mpz_ok z" and "mpz_as_bytes z be s len = (True, buf)" and "0 \<le> mpz_val z"
  shows "int (bytes_val (if be then rev buf else buf)) = mpz_val z"
proof -
  have p: "(256 :: int) ^ len = 2 ^ (8 * len)"
    by (simp add: power_mult)
  have "(2 :: int) ^ (8 * len - 1) \<le> 2 ^ (8 * len)"
    by (rule power_increasing) auto
  then have "mpz_val z < 256 ^ len"
    unfolding p using mpz_as_bytes_fits [OF assms] by (simp only: simp_thms split: if_splits)
  then show ?thesis
    using mpz_as_bytes_mod [OF assms(1,2)] assms(3) by (simp add: le_bytes_def)
qed

section \<open>Text\<close>

text \<open>The characters that \<^verbatim>\<open>mpz_set_from_str\<close> takes, and the number they denote.\<close>

definition str_digit :: "nat \<Rightarrow> u8 \<Rightarrow> bool" where
  "str_digit base c = (case char_value c of None \<Rightarrow> False | Some v \<Rightarrow> v < base)"

definition str_val :: "nat \<Rightarrow> nat \<Rightarrow> u8 list \<Rightarrow> nat" where
  "str_val base a cs = foldl (\<lambda>a c. a * base + the (char_value c)) a (takeWhile (str_digit base) cs)"

lemma str_val_simps [simp]:
  "str_val base a [] = a"
  "str_val base a (c # cs) = (if str_digit base c then str_val base (a * base + the (char_value c)) cs else a)"
  by (simp_all add: str_val_def)

lemma mpz_str_loop_ok:
  assumes "normalised (digits (\<sigma> z))" and "mpn_val (digits (\<sigma> z)) < 256 ^ k" and "base \<le> 36"
    and "(k + length cs) div 2 + 1 \<le> length (z_dig (\<sigma> z))" and "z_len (\<sigma> z) \<le> length (z_dig (\<sigma> z))"
  obtains \<sigma>' where "mpz_str_loop z cs base n \<sigma> = Some (n + length (takeWhile (str_digit base) cs), \<sigma>')"
    and "normalised (digits (\<sigma>' z))" and "mpn_val (digits (\<sigma>' z)) = str_val base (mpn_val (digits (\<sigma> z))) cs"
    and "z_neg (\<sigma>' z) = z_neg (\<sigma> z)" and "z_fixed (\<sigma>' z) = z_fixed (\<sigma> z)"
    and "z_len (\<sigma>' z) \<le> length (z_dig (\<sigma>' z))" and "\<forall>a. a \<noteq> z \<longrightarrow> \<sigma>' a = \<sigma> a"
  using assms
proof (induction cs arbitrary: n k \<sigma> thesis)
  case Nil
  then show ?case by simp
next
  case (Cons c cs)
  show ?case
  proof (cases "str_digit base c")
    case False
    then show ?thesis
      using Cons.prems by (auto simp: str_digit_def split: option.splits)
  next
    case True
    then obtain v where v: "char_value c = Some v" "v < base"
      by (auto simp: str_digit_def split: option.splits)
    then have b: "unat (of_nat base :: dig) = base" "unat (of_nat v :: dig) = v" "(of_nat base :: dig) \<noteq> 0"
      using \<open>base \<le> 36\<close> by (simp_all add: unsigned_of_nat take_bit_eq_mod word_unat_eq_iff)
    obtain ws m where mul: "mpn_mul_dig_add_dig (digits (\<sigma> z)) (of_nat base) (of_nat v) = (ws, m)"
      by fastforce
    note c = mpn_mul_dig_add_dig_correct [OF Cons.prems(2) b(3) mul, unfolded b]
    have "mpn_val ws < (mpn_val (digits (\<sigma> z)) + 1) * base"
      using v(2) by (simp add: c(2))
    also have "\<dots> \<le> 256 ^ k * 256"
      using Cons.prems(3) \<open>base \<le> 36\<close> by (intro mult_le_mono) auto
    finally have lt: "mpn_val ws < 256 ^ (k + 1)"
      by simp
    have "length ws \<le> k div 2 + 1"
    proof (rule ccontr)
      assume "\<not> length ws \<le> k div 2 + 1"
      then have "(256 :: nat) ^ (k + 1) \<le> 256 ^ (2 * (length ws - 1))"
        by (intro power_increasing) auto
      also have "\<dots> = 65536 ^ (length ws - 1)"
        by (simp add: power_mult)
      also have "\<dots> \<le> mpn_val ws"
        using \<open>\<not> length ws \<le> k div 2 + 1\<close> by (intro mpn_val_ge [OF c(3)]) auto
      finally show False
        using lt by simp
    qed
    moreover have "k div 2 + 1 \<le> length (z_dig (\<sigma> z))"
      using Cons.prems(5) div_le_mono [of k "k + length (c # cs)" 2] by linarith
    ultimately have le: "length ws \<le> length (z_dig (\<sigma> z))"
      by linarith
    define \<sigma>1 where "\<sigma>1 = \<sigma>(z := (\<sigma> z)\<lparr>z_len := m, z_dig := ws @ drop (length ws) (z_dig (\<sigma> z))\<rparr>)"
    have put: "mpz_put z (ws, m) \<sigma> = Some \<sigma>1"
      unfolding \<sigma>1_def using le by (rule mpz_put_some)
    have d: "digits (\<sigma>1 z) = ws"
      using c(1) by (simp add: \<sigma>1_def digits_def)
    have p: "normalised (digits (\<sigma>1 z))" "mpn_val (digits (\<sigma>1 z)) < 256 ^ (k + 1)" "base \<le> 36"
        "(k + 1 + length cs) div 2 + 1 \<le> length (z_dig (\<sigma>1 z))" "z_len (\<sigma>1 z) \<le> length (z_dig (\<sigma>1 z))"
      using c(1,3) lt le Cons.prems(4,5) by (simp_all add: d, simp_all add: \<sigma>1_def)
    obtain \<sigma>' where r: "mpz_str_loop z cs base (n + 1) \<sigma>1 = Some (n + 1 + length (takeWhile (str_digit base) cs), \<sigma>')"
      "normalised (digits (\<sigma>' z))" "mpn_val (digits (\<sigma>' z)) = str_val base (mpn_val (digits (\<sigma>1 z))) cs"
      "z_neg (\<sigma>' z) = z_neg (\<sigma>1 z)" "z_fixed (\<sigma>' z) = z_fixed (\<sigma>1 z)"
      "z_len (\<sigma>' z) \<le> length (z_dig (\<sigma>' z))" "\<forall>a. a \<noteq> z \<longrightarrow> \<sigma>' a = \<sigma>1 a"
      by (rule Cons.IH [where n = "n + 1" and \<sigma> = \<sigma>1, OF _ p])
    show ?thesis
      by (rule Cons.prems(1) [of \<sigma>'])
        (use r v True mul put in \<open>simp_all add: d c(2), simp_all add: \<sigma>1_def\<close>)
  qed
qed

lemma mpz_set_from_str_ok:
  assumes "\<not> z_fixed (\<sigma> z)" and "base \<le> 36" and "neg \<longrightarrow> 0 < str_val base 0 cs"
  obtains \<sigma>' where "mpz_set_from_str z cs neg base \<sigma> = Some (length (takeWhile (str_digit base) cs), \<sigma>')"
    and "mpz_sets z (if neg then - int (str_val base 0 cs) else int (str_val base 0 cs)) \<sigma> \<sigma>'"
proof -
  obtain \<sigma>1 where n: "mpz_need_dig z (length cs * 8 div DIG_SIZE + 1) \<sigma> = Some \<sigma>1"
    and room: "mpz_room z (length cs * 8 div DIG_SIZE + 1) \<sigma> \<sigma>1"
    using assms(1) mpz_need_dig_room [of \<sigma> z] by blast
  define \<sigma>2 where "\<sigma>2 = \<sigma>1(z := (\<sigma>1 z)\<lparr>z_neg := neg, z_len := 0\<rparr>)"
  have d: "digits (\<sigma>2 z) = []"
    by (simp add: \<sigma>2_def digits_def)
  have half: "length cs * 8 div DIG_SIZE = length cs div 2"
    by (simp add: DIG_SIZE_def)
  obtain \<sigma>' where r: "mpz_str_loop z cs base 0 \<sigma>2 = Some (0 + length (takeWhile (str_digit base) cs), \<sigma>')"
      "normalised (digits (\<sigma>' z))" "mpn_val (digits (\<sigma>' z)) = str_val base (mpn_val (digits (\<sigma>2 z))) cs"
      "z_neg (\<sigma>' z) = z_neg (\<sigma>2 z)" "z_fixed (\<sigma>' z) = z_fixed (\<sigma>2 z)"
      "z_len (\<sigma>' z) \<le> length (z_dig (\<sigma>' z))" "\<forall>a. a \<noteq> z \<longrightarrow> \<sigma>' a = \<sigma>2 a"
    by (rule mpz_str_loop_ok [where \<sigma> = \<sigma>2 and k = 0 and n = 0 and z = z and cs = cs and base = base])
      (use assms(2) mpz_room_length [OF room] in \<open>simp_all add: d half normalised_def, simp_all add: \<sigma>2_def\<close>)
  have v: "mpn_val (digits (\<sigma>' z)) = str_val base 0 cs"
    using r(3) by (simp add: d)
  have "z_len (\<sigma>' z) \<noteq> 0" if neg
  proof
      assume "z_len (\<sigma>' z) = 0"
      then show False
        using that assms(3) v by (simp add: digits_def)
    qed
  then have "mpz_ok (\<sigma>' z)"
    using r(2,4,6) by (simp add: mpz_ok_def \<sigma>2_def)
  moreover have "mpz_val (\<sigma>' z) = (if neg then - int (str_val base 0 cs) else int (str_val base 0 cs))"
    using r(4) v by (simp add: mpz_val_def sval_def \<sigma>2_def)
  ultimately have "mpz_sets z (if neg then - int (str_val base 0 cs) else int (str_val base 0 cs)) \<sigma> \<sigma>'"
    using r(5,7) assms(1) by (simp add: mpz_sets_def \<sigma>2_def mpz_room [OF room])
  moreover have "mpz_set_from_str z cs neg base \<sigma> = Some (length (takeWhile (str_digit base) cs), \<sigma>')"
    using assms(2) n r(1) by (simp add: mpz_set_from_str_def flip: \<sigma>2_def)
  ultimately show ?thesis
    by (intro that [of \<sigma>'])
qed

text \<open>Division of the digits by the base, and the characters of the remainders.\<close>

lemma mpz_str_div_ok:
  assumes "0 < unat base" and "unat base \<le> 65536" and "unat a < unat base" and "mpz_str_div base a ds = (qs, r)"
  shows "length qs = length ds \<and> unat r < unat base \<and>
    unat a * 65536 ^ length ds + mpn_val (rev ds) = mpn_val (rev qs) * unat base + unat r"
  using assms(3,4)
proof (induction ds arbitrary: a qs)
  case (Cons d ds)
  define a' where "a' = push_bit DIG_SIZE a OR ucast d"
  have a': "unat a' = 65536 * unat a + unat d"
    unfolding a'_def unat_shift_in_dig using Cons.prems(1) assms(2) by simp
  obtain qs' where qs': "mpz_str_div base (a' mod base) ds = (qs', r)" and qs: "qs = ucast (a' div base) # qs'"
    using Cons.prems(2) by (auto simp: Let_def a'_def split: prod.splits)
  have m: "unat (a' mod base) = unat a' mod unat base" "unat (a' div base) = unat a' div unat base"
    by (simp_all add: unat_mod_distrib unat_div_distrib)
  have IH: "length qs' = length ds" "unat r < unat base"
      "(unat a' mod unat base) * 65536 ^ length ds + mpn_val (rev ds) = mpn_val (rev qs') * unat base + unat r"
    using Cons.IH [OF _ qs'] assms(1) by (simp_all add: m)
  have "unat a' < 65536 * (unat a + 1)"
    using u16_less [of d] by (simp add: a')
  also have "\<dots> \<le> 65536 * unat base"
    using Cons.prems(1) by (intro mult_le_mono) auto
  finally have "unat a' div unat base < 65536"
    using assms(1) by (simp add: less_mult_imp_div_less)
  then have q: "unat (ucast (a' div base) :: dig) = unat a' div unat base"
    by (simp add: unat_u16_of_u32 m)
  have "unat a * 65536 ^ length (d # ds) + mpn_val (rev (d # ds)) = unat a' * 65536 ^ length ds + mpn_val (rev ds)"
    by (simp add: mpn_val_append a' algebra_simps)
  also have "\<dots> = (unat a' div unat base * unat base + unat a' mod unat base) * 65536 ^ length ds + mpn_val (rev ds)"
    by (simp only: div_mult_mod_eq)
  also have "\<dots> = unat a' div unat base * unat base * 65536 ^ length ds + (mpn_val (rev qs') * unat base + unat r)"
    unfolding IH(3) [symmetric] by (simp only: distrib_right add.assoc)
  also have "\<dots> = mpn_val (rev qs) * unat base + unat r"
    by (simp add: qs mpn_val_append q IH(1) algebra_simps)
  finally show ?case
    using IH by (simp add: qs)
qed simp

definition digit_char :: "u8 \<Rightarrow> nat \<Rightarrow> u8" where
  "digit_char bc a = of_nat (if a < 10 then 48 + a else unat bc + a - 10)"

lemma mpz_str_char_ok:
  assumes "unat a < 32"
  shows "mpz_str_char a bc = digit_char bc (unat a)"
proof -
  have s: "unat (a + 48) = unat a + 48"
    using assms by (subst unat_add_u32) auto
  have "unat (a + 48 + (ucast bc - 57 - 1)) = unat bc + unat a - 10" if "10 \<le> unat a"
  proof -
    have e: "a + 48 + (ucast bc - 57 - 1) = (a - 10) + ucast bc"
      by simp
    have "unat (a - 10) = unat a - 10"
      using that by (subst unat_sub) (auto simp: word_le_nat_alt)
    then have "unat (a - 10 + ucast bc) = (unat a - 10) + unat bc"
      using assms u8_less [of bc] by (subst unat_add_u32) (simp_all add: unat_u32_of_u8)
    then show ?thesis
      unfolding e using that by simp
  qed
  moreover have "57 < a + 48 \<longleftrightarrow> 10 \<le> unat a"
    by (simp add: word_less_nat_alt s) arith
  ultimately show ?thesis
    using assms by (intro word_unat_eq_iff [THEN iffD2])
      (auto simp: mpz_str_char_def digit_char_def Let_def unat_u8_of_u32 s unsigned_of_nat take_bit_eq_mod)
qed

lemma char_value_digit_char:
  assumes "a < 32" and "bc = 97 \<or> bc = 65"
  shows "char_value (digit_char bc a) = Some a"
proof -
  have "unat (digit_char bc a) = (if a < 10 then 48 + a else unat bc + a - 10)"
    using assms by (auto simp: digit_char_def unsigned_of_nat take_bit_eq_mod)
  then show ?thesis
    using assms by (auto simp: char_value_def Let_def)
qed

text \<open>The characters of a number, lowest first, with a separator after every third.\<close>

function base_chars :: "nat \<Rightarrow> u8 \<Rightarrow> u8 \<Rightarrow> nat \<Rightarrow> nat \<Rightarrow> u8 list" where
  "base_chars b bc comma n v =
     (if b < 2 \<or> v < b then [digit_char bc v]
      else digit_char bc (v mod b) #
        (if comma \<noteq> 0 \<and> n + 1 = 3 then comma # base_chars b bc comma 0 (v div b)
         else base_chars b bc comma (n + 1) (v div b)))"
  by auto

termination
  by (relation "measure (\<lambda>(b, bc, comma, n, v). v)") auto

declare base_chars.simps [simp del]

lemma list_all_zero: "list_all (\<lambda>d. d = 0) ds \<longleftrightarrow> mpn_val ds = 0"
  by (induction ds) (auto simp: unat_eq_zero)

lemma mpz_str_chars_ok:
  assumes "2 \<le> b" and "b \<le> 32"
  shows "mpz_str_chars (of_nat b) bc comma n ds = Some (base_chars b bc comma n (mpn_val ds))"
proof (induction "mpn_val ds" arbitrary: ds n rule: less_induct)
  case less
  have b: "unat (of_nat b :: u32) = b"
    using assms by (simp add: unsigned_of_nat take_bit_eq_mod)
  obtain qs a where div: "mpz_str_div (of_nat b) 0 (rev ds) = (qs, a)"
    by fastforce
  have d: "unat a < b" "mpn_val ds = mpn_val (rev qs) * b + unat a"
    using mpz_str_div_ok [OF _ _ _ div] assms by (simp_all add: b)
  then have q: "mpn_val (rev qs) = mpn_val ds div b" "unat a = mpn_val ds mod b"
    using assms by simp_all
  have c: "mpz_str_char a bc = digit_char bc (mpn_val ds mod b)"
    using mpz_str_char_ok [OF less_le_trans [OF d(1) assms(2)], of bc] by (simp only: q(2))
  show ?case
  proof (cases "mpn_val ds < b")
    case True
    then show ?thesis
      by (subst mpz_str_chars.simps, subst base_chars.simps)
        (simp add: div c q list_all_zero)
  next
    case False
    then have "mpn_val (rev qs) < mpn_val ds" "mpn_val ds div b \<noteq> 0"
      using assms by (auto simp: q div_greater_zero_iff)
    then show ?thesis
      using False assms less [of "rev qs"]
      by (subst mpz_str_chars.simps, subst base_chars.simps) (simp add: div c q list_all_zero)
  qed
qed

text \<open>Without separators the characters are digits of the number.\<close>

lemma base_chars_digits:
  assumes "2 \<le> b" and "b \<le> 32" and "bc = 97 \<or> bc = 65"
  shows "(\<forall>c \<in> set (base_chars b bc 0 n v). str_digit b c) \<and>
    foldl (\<lambda>a c. a * b + the (char_value c)) 0 (rev (base_chars b bc 0 n v)) = v"
proof (induction v arbitrary: n rule: less_induct)
  case (less v)
  show ?case
  proof (cases "v < b")
    case True
    then show ?thesis
      using assms by (subst (1 2) base_chars.simps) (simp add: str_digit_def char_value_digit_char)
  next
    case False
    have "v div b < v" and m: "v mod b < b"
      using False assms by auto
    have "char_value (digit_char bc (v mod b)) = Some (v mod b)"
      by (rule char_value_digit_char [OF less_le_trans [OF m assms(2)] assms(3)])
    moreover note \<open>v div b < v\<close> m
    ultimately show ?thesis
      using False assms less.IH [of "v div b" "n + 1"]
      by (subst (1 2) base_chars.simps) (auto simp: str_digit_def)
  qed
qed

lemma mpz_as_str_ok:
  assumes "2 \<le> b" and "b \<le> 32" and "mpz_ok z"
  shows "mpz_as_str_inpl z b prefix bc comma =
    Some ((if mpz_val z < 0 then [45] else []) @ prefix @ rev (if mpz_val z = 0 then [48] else base_chars b bc comma 0 (nat \<bar>mpz_val z\<bar>)))"
proof -
  have v: "nat \<bar>mpz_val z\<bar> = mpn_val (digits z)"
    by (simp add: mpz_abs_val)
  have "mpn_val (digits z) = 0 \<longleftrightarrow> z_len z = 0"
    using mpz_ok_pos [OF assms(3)] by (cases "z_len z = 0") (auto simp: digits_def)
  then have "mpz_val z = 0 \<longleftrightarrow> z_len z = 0" "mpz_val z < 0 \<longleftrightarrow> z_neg z"
    using mpz_ok_neg [OF assms(3)] by (auto simp: mpz_val_def sval_def)
  then show ?thesis
    using mpz_okD(4) [OF assms(3)] assms by (auto simp: mpz_as_str_inpl_def mpz_str_chars_ok v)
qed

text \<open>Reading back the text of a number.\<close>

lemma str_val_digits:
  assumes "2 \<le> b" and "b \<le> 32" and "bc = 97 \<or> bc = 65"
    and s_def: "s = rev (base_chars b bc 0 0 v)"
  shows "takeWhile (str_digit b) s = s" and "str_val b 0 s = v"
proof -
  show all: "takeWhile (str_digit b) s = s"
    using base_chars_digits [OF assms(1-3)] by (simp add: s_def takeWhile_eq_all_conv)
  show "str_val b 0 s = v"
    using base_chars_digits [OF assms(1-3)] unfolding str_val_def all by (simp add: s_def)
qed

section \<open>Floats\<close>

lemma float_digs_val: "length (float_digs n frc) = n \<and> mpn_val (float_digs n frc) = unat frc mod 65536 ^ n"
proof (induction n arbitrary: frc)
  case (Suc n)
  have "unat (ucast (frc AND DIG_MASK) :: dig) = unat frc mod 65536"
    using unat_and_mask [of frc 16] by (simp add: DIG_MASK_def mask_eq_exp_minus_1 unat_u16_of_u32)
  then show ?case
    using Suc.IH [of "drop_bit DIG_SIZE frc"]
    by (simp add: DIG_SIZE_def unat_drop_bit_nat mod_mult2_eq)
qed simp

lemma mpn_val_low_zeros: "mpn_val (replicate n 0 @ ds) = 65536 ^ n * mpn_val ds"
  by (induction n) auto

lemma float_shift_mod:
  assumes "23 \<le> e"
  shows "unat (of_nat (e mod DIG_SIZE) - of_nat MP_FLOAT_FRAC_BITS :: u32) mod DIG_SIZE = (e - 23) mod 16"
proof -
  obtain t where t: "e = 23 + t"
    using assms le_Suc_ex by blast
  have "(4294967273 + e mod 16) mod 4294967296 mod 16 = (4294967273 + e mod 16) mod (16 :: nat)"
    by (simp add: mod_mod_cancel)
  also have "\<dots> = (4294967296 + t) mod 16"
    unfolding t mod_add_right_eq by simp
  also have "\<dots> = ((4294967296 :: nat) mod 16 + t) mod 16"
    by (simp only: mod_add_left_eq)
  also have "\<dots> = (e - 23) mod 16"
    unfolding t by simp
  finally have "(4294967273 + e mod 16) mod 4294967296 mod 16 = (e - 23) mod (16 :: nat)" .
  then have m: "unat (of_nat (4294967273 + e mod 16) :: u32) mod 16 = (e - 23) mod 16"
    by (simp only: unat_of_nat_u32)
  have "of_nat (e mod 16) - of_nat 23 = (of_nat (4294967273 + e mod 16) :: u32)"
    by simp
  then show ?thesis
    unfolding DIG_SIZE_def MP_FLOAT_FRAC_BITS_def by (simp only: m)
qed

lemma mpz_float_digits_val:
  fixes e :: nat and frac :: u32
  assumes "0 < e" and "unat frac < 2 ^ 23"
  defines "m \<equiv> 2 ^ 23 + unat frac" and "cnt \<equiv> e div 16 + 1"
  shows "length (mpz_float_digits cnt e frac) = cnt"
    and "mpn_val (mpz_float_digits cnt e frac) = m * 2 ^ e div 2 ^ 23"
proof -
  define frc where "frc = frac OR push_bit MP_FLOAT_FRAC_BITS 1"
  have frc: "unat frc = m"
    using or_low_bits [of "unat frac" 23 1] assms(2)
    by (simp add: frc_def MP_FLOAT_FRAC_BITS_def unsigned_or_eq or.commute m_def)
  have m: "m < 2 ^ 24"
    using assms(2) by (simp add: m_def)
  have top: "(2 :: nat) ^ (e + 1) \<le> 65536 ^ cnt"
  proof -
    have "(2 :: nat) ^ (e + 1) \<le> 2 ^ (16 * cnt)"
      by (intro power_increasing) (auto simp: cnt_def)
    then show ?thesis
      by (simp add: power_mult)
  qed
  have "length (mpz_float_digits cnt e frac) = cnt \<and> mpn_val (mpz_float_digits cnt e frac) = m * 2 ^ e div 2 ^ 23"
  proof (cases "e < 23")
    case True
    have v: "m * 2 ^ e div 2 ^ 23 = m div 2 ^ (23 - e)"
    proof -
      have "(2 :: nat) ^ 23 = 2 ^ (23 - e) * 2 ^ e"
        using True by (simp flip: power_add)
      then have "m * 2 ^ e div 2 ^ 23 = m * 2 ^ e div (2 ^ (23 - e) * 2 ^ e)"
        by (simp only:)
      also have "\<dots> = m div 2 ^ (23 - e)"
        by simp
      finally show ?thesis .
    qed
    have "m div 2 ^ (23 - e) < 65536 ^ cnt"
    proof -
      have "m < 2 ^ (23 - e) * 2 ^ (e + 1)"
      proof -
        have "(2 :: nat) ^ 24 = 2 ^ ((23 - e) + (e + 1))"
          using True by simp
        then show ?thesis
          using m by (simp only: power_add)
      qed
      then have "m div 2 ^ (23 - e) < 2 ^ (e + 1)"
        by (simp add: less_mult_imp_div_less mult.commute)
      with top show ?thesis by linarith
    qed
    moreover have "mpz_float_digits cnt e frac = float_digs cnt (drop_bit (23 - e) frc)"
      unfolding mpz_float_digits_def Let_def frc_def [symmetric] using True by (simp add: MP_FLOAT_FRAC_BITS_def)
    ultimately show ?thesis
      using float_digs_val [of cnt "drop_bit (23 - e) frc"] unfolding v
      by (simp add: unat_drop_bit_nat frc)
  next
    case False
    define s where "s = (e - 23) mod 16"
    define k where "k = (e - 23) div 16"
    have e: "e = 23 + (16 * k + s)" and s: "s < 16"
      using False by (simp_all add: s_def k_def)
    have v: "m * 2 ^ e div 2 ^ 23 = 65536 ^ k * (m * 2 ^ s)"
      by (simp add: e power_add power_mult)
    have k: "k < cnt"
      using e by (simp add: cnt_def)
    have "65536 ^ k * (m * 2 ^ s) < 65536 ^ k * 65536 ^ (cnt - k)"
    proof -
      have "m * 2 ^ (16 * k + s) < 2 ^ 24 * 2 ^ (16 * k + s)"
        using m by simp
      also have "\<dots> = 2 ^ (e + 1)"
        by (simp add: e power_add)
      also have "\<dots> \<le> 65536 ^ k * 65536 ^ (cnt - k)"
        using top k by (simp flip: power_add)
      finally show ?thesis
        by (simp add: power_add power_mult mult.left_commute)
    qed
    then have lt: "m * 2 ^ s < 65536 ^ (cnt - k)"
      by simp
    have d: "mpz_float_digits cnt e frac =
        (if s \<noteq> 0 then replicate k 0 @ [ucast (push_bit s frc AND DIG_MASK)] @ float_digs (cnt - (k + 1)) (drop_bit (16 - s) frc)
         else replicate k 0 @ float_digs (cnt - k) frc)"
      unfolding mpz_float_digits_def Let_def frc_def [symmetric]
      using False float_shift_mod [of e] by (simp add: s_def k_def MP_FLOAT_FRAC_BITS_def DIG_SIZE_def)
    show ?thesis
    proof (cases "s = 0")
      case True
      then show ?thesis
        using k lt float_digs_val [of "cnt - k" frc] unfolding v d
        by (simp add: mpn_val_low_zeros frc)
    next
      case False
      have p: "(65536 :: nat) = 2 ^ (16 - s) * 2 ^ s"
        using s by (simp flip: power_add)
      define lowd :: dig where "lowd = ucast (push_bit s frc AND DIG_MASK)"
      have low: "unat lowd = m * 2 ^ s mod 65536"
      proof -
        have "unat (push_bit s frc) = m * 2 ^ s mod 4294967296"
          using unsigned_push_bit_eq [of s frc, where ?'a = nat]
          by (simp add: frc push_bit_eq_mult take_bit_eq_mod)
        then show ?thesis
          using unat_and_mask [of "push_bit s frc" 16]
          unfolding lowd_def by (simp add: DIG_MASK_def mask_eq_exp_minus_1 unat_u16_of_u32 mod_mod_cancel)
      qed
      have high: "m * 2 ^ s div 65536 = m div 2 ^ (16 - s)"
        unfolding p by simp
      have "m * 2 ^ s < 65536 * 65536 ^ (cnt - (k + 1))"
        using lt k by (simp flip: power_Suc add: Suc_diff_Suc)
      then have "m div 2 ^ (16 - s) < 65536 ^ (cnt - (k + 1))"
        unfolding high [symmetric] by (simp add: less_mult_imp_div_less mult.commute)
      then have "mpn_val ([lowd] @ float_digs (cnt - (k + 1)) (drop_bit (16 - s) frc)) =
          m * 2 ^ s mod 65536 + 65536 * (m * 2 ^ s div 65536)"
        using float_digs_val [of "cnt - (k + 1)" "drop_bit (16 - s) frc"]
        unfolding high by (simp add: low unat_drop_bit_nat frc)
      then have "mpn_val ([lowd] @ float_digs (cnt - (k + 1)) (drop_bit (16 - s) frc)) = m * 2 ^ s"
        by (simp only: mod_mult_div_eq)
      then show ?thesis
        using False k float_digs_val [of "cnt - (k + 1)" "drop_bit (16 - s) frc"] unfolding v d lowd_def [symmetric]
        by (simp only: if_True mpn_val_low_zeros) simp
    qed
  qed
  then show "length (mpz_float_digits cnt e frac) = cnt"
    and "mpn_val (mpz_float_digits cnt e frac) = m * 2 ^ e div 2 ^ 23"
    by simp_all
qed

lemma mpz_set_from_float_ok:
  assumes "\<not> z_fixed (\<sigma> z)" and "127 < ex" and "ex < 255" and "unat frac < 2 ^ 23"
  defines "v \<equiv> int ((2 ^ 23 + unat frac) * 2 ^ (ex - 127) div 2 ^ 23)"
  obtains \<sigma>' where "mpz_set_from_float z neg ex frac \<sigma> = Some \<sigma>'"
    and "mpz_sets z (if neg then - v else v) \<sigma> \<sigma>'"
proof -
  define e where "e = ex - 127"
  define cnt where "cnt = e div 16 + 1"
  define ds where "ds = mpz_float_digits cnt e frac"
  have e: "0 < e"
    using assms(2) by (simp add: e_def)
  note d = mpz_float_digits_val [OF e assms(4), folded cnt_def, folded ds_def]
  have "(2 ^ 23 + unat frac) * 2 ^ e div 2 ^ 23 \<ge> 2 ^ 23 * 2 ^ e div 2 ^ 23"
    by (intro div_le_mono mult_le_mono) auto
  then have big: "2 ^ e \<le> mpn_val ds"
    by (simp add: d(2))
  have "(65536 :: nat) ^ (length ds - 1) = 2 ^ (16 * (e div 16))"
    by (simp add: d(1) cnt_def power_mult)
  also have "\<dots> \<le> 2 ^ e"
    by (intro power_increasing) auto
  finally have n: "normalised ds"
    using big by (intro normalisedI) linarith
  define \<sigma>0 where "\<sigma>0 = mpz_put_neg z neg \<sigma>"
  obtain \<sigma>1 where need: "mpz_need_dig z cnt \<sigma>0 = Some \<sigma>1" and room: "mpz_room z cnt \<sigma>0 \<sigma>1"
    using assms(1) mpz_need_dig_room [of \<sigma>0 z cnt] by (auto simp: \<sigma>0_def)
  obtain \<sigma>2 where put: "mpz_put z (ds, cnt) \<sigma>1 = Some \<sigma>2"
    and sets: "mpz_sets z (sval (z_neg (\<sigma>1 z)) (take cnt ds)) \<sigma> \<sigma>2"
    by (rule mpz_put_signed [where \<tau> = \<sigma>1 and \<sigma> = \<sigma> and d = z and ws = ds and m = cnt])
      (use d(1) n mpz_room_length [OF room] assms(1) in
        \<open>auto simp: mpz_room [OF room] \<sigma>0_def cnt_def mpz_put_neg_def\<close>)
  have c: "(ex - MP_FLOAT_EXP_BIAS + 1 + (DIG_SIZE - 1)) div DIG_SIZE = cnt"
    by (simp add: cnt_def e_def DIG_SIZE_def MP_FLOAT_EXP_BIAS_def)
  have "mpz_set_from_float z neg ex frac \<sigma> = Some \<sigma>2"
    using assms(2,3) need put unfolding mpz_set_from_float_def Let_def c
    by (simp add: MP_FLOAT_EXP_BIAS_def MP_FLOAT_EXP_BITS_def ds_def e_def flip: \<sigma>0_def)
  moreover have "sval (z_neg (\<sigma>1 z)) (take cnt ds) = (if neg then - v else v)"
    using d by (simp add: sval_def mpz_room [OF room] \<sigma>0_def v_def e_def)
  ultimately show ?thesis
    using sets that by simp
qed

end
