(* ===== verification/Mpz_Conv_Props.thy ===== *)
theory Mpz_Conv_Props
  imports Mpz_Props Mpz_Conv_Correct
begin

text \<open>Properties of the conversions of multiple-precision integers.\<close>

text \<open>
  C9. \<^verbatim>\<open>mpz_hash\<close> and the checked conversions to machine words: the hash is the value modulo
  the word size; \<^verbatim>\<open>mpz_as_int_checked\<close> gives every number whose magnitude fits in 31 bits and
  \<^verbatim>\<open>mpz_as_uint_checked\<close> every number from \<open>0\<close> that fits in 32 bits, and each reports all other
  numbers.
\<close>

theorem mpz_machine_words:
  assumes "mpz_ok z"
  shows "mpz_hash z = of_int (mpz_val z) \<and>
    mpz_as_int_checked z = (if \<bar>mpz_val z\<bar> < 2 ^ 31 then Some (of_int (mpz_val z)) else None) \<and>
    mpz_as_uint_checked z = (if 0 \<le> mpz_val z \<and> mpz_val z < 2 ^ 32 then Some (of_int (mpz_val z)) else None)"
  by (intro conjI) (fact mpz_hash_val mpz_as_int_checked_val mpz_as_uint_checked_val [OF assms])+

theorem mpz_machine_words_witness:
  "mpz_as_int_checked (mpz_lit True [0xFFFF, 0x7FFF]) = Some 0x80000001 \<and>
   mpz_as_uint_checked (mpz_lit False [0, 0, 1]) = None"
  using mpz_machine_words [of "mpz_lit True [0xFFFF, 0x7FFF]"] mpz_machine_words [of "mpz_lit False [0, 0, 1]"]
  by (simp add: normalised_def sval_def)

text \<open>
  C10. \<^verbatim>\<open>mpz_as_bytes\<close> fills exactly the requested bytes with the value modulo \<open>256 ^ len\<close>, in
  either byte order. The flag it returns is exactly this: for a number from \<open>0\<close>, whether it lies in the range of the requested
  bytes, signed or not; for a negative number given room for all of its digits, whether it lies in the signed range (always
  true when the caller asks for unsigned bytes); for a negative number given less room, a test of the bytes that were cut off that does not
  say whether the number fits (C11). When it is set, \<^verbatim>\<open>mpz_set_from_bytes\<close> of bytes from a number from \<open>0\<close> restores it.
\<close>

theorem mpz_bytes_roundtrip:
  assumes "mpz_ok z" and "mpz_as_bytes z be s len = (ok, buf)" and "\<not> z_fixed (\<sigma> d)"
  shows "length buf = len \<and> int (bytes_val (if be then rev buf else buf)) = mpz_val z mod 256 ^ len \<and>
    (ok \<longleftrightarrow>
      (if 0 \<le> mpz_val z then mpz_val z < (if s \<and> 0 < len then 2 ^ (8 * len - 1) else 2 ^ (8 * len))
       else if 2 * z_len z \<le> len then s \<longrightarrow> - (2 ^ (8 * len - 1)) \<le> mpz_val z
       else 256 ^ (2 * z_len z) - 256 ^ len < - mpz_val z \<and> (s \<and> 0 < len \<longrightarrow> 2 ^ (8 * len - 1) \<le> mpz_val z mod 256 ^ len))) \<and>
    (0 \<le> mpz_val z \<and> ok \<longrightarrow>
      (\<exists>\<sigma>'. mpz_set_from_bytes d be buf \<sigma> = Some \<sigma>' \<and> mpz_sets d (mpz_val z) \<sigma> \<sigma>'))"
proof (intro conjI impI)
  show "length buf = len"
    by (rule mpz_as_bytes_run(1) [OF assms(2)])
  show "int (bytes_val (if be then rev buf else buf)) = mpz_val z mod 256 ^ len"
    using mpz_as_bytes_mod [OF assms(1,2)] by (simp only: le_bytes_def)
  show "ok \<longleftrightarrow>
      (if 0 \<le> mpz_val z then mpz_val z < (if s \<and> 0 < len then 2 ^ (8 * len - 1) else 2 ^ (8 * len))
       else if 2 * z_len z \<le> len then s \<longrightarrow> - (2 ^ (8 * len - 1)) \<le> mpz_val z
       else 256 ^ (2 * z_len z) - 256 ^ len < - mpz_val z \<and> (s \<and> 0 < len \<longrightarrow> 2 ^ (8 * len - 1) \<le> mpz_val z mod 256 ^ len))"
  proof (cases "0 \<le> mpz_val z")
    case True
    show ?thesis
      unfolding if_P [OF True] by (rule mpz_as_bytes_fits [OF assms(1,2) True])
  next
    case False
    then have neg: "mpz_val z < 0"
      by simp
    show ?thesis
    proof (cases "2 * z_len z \<le> len")
      case True
      show ?thesis
        unfolding if_not_P [OF False] if_P [OF True] by (rule mpz_as_bytes_fits_neg [OF assms(1,2) neg True])
    next
      case len: False
      then have "len < 2 * z_len z"
        by simp
      with neg show ?thesis
        unfolding if_not_P [OF False] if_not_P [OF len] by (rule mpz_as_bytes_flag_neg [OF assms(1,2)])
    qed
  qed
next
  assume "0 \<le> mpz_val z \<and> ok"
  then have "mpz_as_bytes z be s len = (True, buf)" and "0 \<le> mpz_val z"
    using assms(2) by auto
  from mpz_as_bytes_round [OF assms(1) this]
  show "\<exists>\<sigma>'. mpz_set_from_bytes d be buf \<sigma> = Some \<sigma>' \<and> mpz_sets d (mpz_val z) \<sigma> \<sigma>'"
    using mpz_set_from_bytes_ok [where \<sigma> = \<sigma> and d = d and be = be and buf = buf, OF assms(3)] by metis
qed

theorem mpz_bytes_roundtrip_witness:
  "\<exists>\<sigma>'. mpz_set_from_bytes (Ob 5) True [1, 2, 3] demo = Some \<sigma>' \<and> mpz_sets (Ob 5) 66051 demo \<sigma>'"
proof -
  have "mpz_as_bytes (mpz_lit False [0x203, 1]) True False 3 = (True, [1, 2, 3])"
    by (simp add: mpz_as_bytes_def mpz_lit_def digits_def mpz_as_bytes_bits.simps mpz_as_byte_def Let_def DIG_SIZE_def)
  from mpz_bytes_roundtrip [OF _ this, of demo "Ob 5"] show ?thesis
    by (simp add: normalised_def sval_def)
qed

text \<open>
  C11. The two operations that go wrong on negative numbers. In place, \<^verbatim>\<open>mpz_shr_inpl\<close> of any negative number by any
  count from \<open>1\<close> rounds by the digits it has just written, not by the bits that the shift drops: with \<open>v\<close> the magnitude shifted, it leaves \<open>-(v + 1)\<close>
  if the low \<open>n\<close> bits of \<open>v\<close> are not all zero and \<open>-v\<close> otherwise, so it is right only if these bits are zero exactly when those of the operand are, and for \<open>v = 0\<close> it leaves the negative zero that
  \<^verbatim>\<open>mpz.h\<close> excludes. \<^verbatim>\<open>mpz_as_bytes\<close> of any negative number that is given less room than its digits
  take reports success only when the number is too small for the bytes, and so a failure whenever it fits.
\<close>

theorem mpz_negative_numbers_wrong:
  assumes "mpz_ok (\<sigma> z)" and "\<not> z_fixed (\<sigma> z)" and "mpz_val (\<sigma> z) < 0" and "0 < n"
    and "len < 2 * z_len (\<sigma> z)" and "mpz_as_bytes (\<sigma> z) be s len = (ok, buf)"
  shows "(\<exists>\<sigma>'. mpz_shr_inpl z z n \<sigma> = Some \<sigma>' \<and>
      (let v = nat (- mpz_val (\<sigma> z)) div 2 ^ n in
         mpz_val (\<sigma>' z) = - int (v + of_bool (v mod 2 ^ n \<noteq> 0)) \<and>
         (mpz_val (\<sigma>' z) = mpz_val (\<sigma> z) div 2 ^ n \<longleftrightarrow> (v mod 2 ^ n = 0 \<longleftrightarrow> mpz_val (\<sigma> z) mod 2 ^ n = 0)) \<and>
         (v = 0 \<longrightarrow> z_neg (\<sigma>' z) \<and> z_len (\<sigma>' z) = 0 \<and> \<not> mpz_ok (\<sigma>' z)))) \<and>
    (ok \<longrightarrow> mpz_val (\<sigma> z) < - (256 ^ len))"
proof
  define v where "v = nat (- mpz_val (\<sigma> z)) div 2 ^ n"
  define u where "u = nat (- mpz_val (\<sigma> z))"
  have u: "mpz_val (\<sigma> z) = - int u"
    using assms(3) by (simp add: u_def)
  have floor: "mpz_val (\<sigma> z) div 2 ^ n = - int v - of_bool (u mod 2 ^ n \<noteq> 0)"
    using neg_div_pow [of u n] unfolding u v_def by simp
  have "mpz_val (\<sigma> z) mod 2 ^ n = 0 \<longleftrightarrow> int u mod 2 ^ n = 0"
    by (simp add: u mod_eq_0_iff_dvd)
  also have "\<dots> \<longleftrightarrow> int (u mod 2 ^ n) = int 0"
    by (simp add: zmod_int)
  also have "\<dots> \<longleftrightarrow> u mod 2 ^ n = 0"
    by (simp only: of_nat_eq_iff)
  finally have dvd: "mpz_val (\<sigma> z) mod 2 ^ n = 0 \<longleftrightarrow> u mod 2 ^ n = 0" .
  obtain \<sigma>' where r: "mpz_shr_inpl z z n \<sigma> = Some \<sigma>'" "mpz_val (\<sigma>' z) = - int (v + of_bool (v mod 2 ^ n \<noteq> 0))"
    "z_neg (\<sigma>' z)" "z_len (\<sigma>' z) = 0 \<longleftrightarrow> v = 0"
    by (rule mpz_shr_inpl_in_place [of \<sigma> z n, OF assms(1-3)]) (use assms(4) in \<open>auto simp: v_def\<close>)
  have "mpz_val (\<sigma>' z) = mpz_val (\<sigma> z) div 2 ^ n \<longleftrightarrow> (v mod 2 ^ n = 0 \<longleftrightarrow> mpz_val (\<sigma> z) mod 2 ^ n = 0)"
    unfolding r(2) floor dvd by (simp add: of_bool_def)
  with r show "\<exists>\<sigma>'. mpz_shr_inpl z z n \<sigma> = Some \<sigma>' \<and>
      (let v = nat (- mpz_val (\<sigma> z)) div 2 ^ n in
         mpz_val (\<sigma>' z) = - int (v + of_bool (v mod 2 ^ n \<noteq> 0)) \<and>
         (mpz_val (\<sigma>' z) = mpz_val (\<sigma> z) div 2 ^ n \<longleftrightarrow> (v mod 2 ^ n = 0 \<longleftrightarrow> mpz_val (\<sigma> z) mod 2 ^ n = 0)) \<and>
         (v = 0 \<longrightarrow> z_neg (\<sigma>' z) \<and> z_len (\<sigma>' z) = 0 \<and> \<not> mpz_ok (\<sigma>' z)))"
    unfolding Let_def v_def [symmetric] by (intro exI [of _ \<sigma>']) (auto simp: mpz_ok_def)
  show "ok \<longrightarrow> mpz_val (\<sigma> z) < - (256 ^ len)"
    using mpz_as_bytes_flag_wrong [of "\<sigma> z" be s len buf, OF assms(1) _ assms(3,5)] assms(6) by auto
qed

theorem mpz_negative_numbers_wrong_witness:
  "(\<exists>\<sigma>'. mpz_shr_inpl (Ob 0) (Ob 0) 16 ((\<lambda>_. mpz_zero)(Ob 0 := mpz_lit True [0xFF80])) = Some \<sigma>' \<and> \<not> mpz_ok (\<sigma>' (Ob 0))) \<and>
   mpz_as_bytes (mpz_lit True [0xFF80]) False True 1 = (True, [0x80]) \<and> mpz_val (mpz_lit True [0xFF80]) < - 256"
proof -
  have b: "mpz_as_bytes (mpz_lit True [0xFF80]) False True 1 = (True, [0x80])"
    by (simp add: mpz_as_bytes_def mpz_lit_def digits_def mpz_as_bytes_bits.simps mpz_as_byte_def Let_def DIG_SIZE_def)
  have len: "z_len (mpz_lit True [0xFF80]) = 1"
    by (simp add: mpz_lit_def)
  show ?thesis
    using mpz_negative_numbers_wrong [of "(\<lambda>_. mpz_zero)(Ob 0 := mpz_lit True [0xFF80])" "Ob 0" 16 1 False True True "[0x80]"] b len
    by (auto simp: normalised_def sval_def Let_def)
qed

text \<open>
  C12. \<^verbatim>\<open>mpz_as_str_inpl\<close> returns, for every base from 2 to 32 and both digit alphabets, a text
  whose digits \<^verbatim>\<open>mpz_set_from_str\<close> reads to the end and back to the same number; a minus sign in
  front stands for a negative number.
\<close>

theorem mpz_text_roundtrip:
  assumes "mpz_ok z" and "2 \<le> b" and "b \<le> 32" and "bc = 97 \<or> bc = 65" and "\<not> z_fixed (\<sigma> d)"
  shows "\<exists>s \<sigma>'. mpz_as_str_inpl z b [] bc 0 = Some ((if mpz_val z < 0 then [45] else []) @ s) \<and>
    mpz_set_from_str d s (mpz_val z < 0) b \<sigma> = Some (length s, \<sigma>') \<and> mpz_sets d (mpz_val z) \<sigma> \<sigma>'"
proof -
  define v where "v = nat \<bar>mpz_val z\<bar>"
  define s where "s = rev (base_chars b bc 0 0 v)"
  have zero: "v = 0 \<Longrightarrow> s = [48]"
    using assms(2) by (simp add: s_def base_chars.simps digit_char_def)
  have "mpz_as_str_inpl z b [] bc 0 = Some ((if mpz_val z < 0 then [45] else []) @ s)"
    using mpz_as_str_ok [OF assms(2,3,1), of "[]" bc 0] zero by (auto simp: s_def v_def)
  moreover note r = str_val_digits [OF assms(2-4) s_def]
  have "\<exists>\<sigma>'. mpz_set_from_str d s (mpz_val z < 0) b \<sigma> = Some (length s, \<sigma>') \<and> mpz_sets d (mpz_val z) \<sigma> \<sigma>'"
    by (rule mpz_set_from_str_ok [where \<sigma> = \<sigma> and z = d and base = b and neg = "mpz_val z < 0" and cs = s])
      (use assms(3,5) r in \<open>auto simp: v_def split: if_splits\<close>)
  ultimately show ?thesis
    by blast
qed

theorem mpz_text_roundtrip_witness:
  "\<exists>s \<sigma>'. mpz_as_str_inpl (demo (Ob 0)) 16 [] 97 0 = Some (45 # s) \<and>
     mpz_set_from_str (Ob 0) s True 16 demo = Some (length s, \<sigma>') \<and> mpz_sets (Ob 0) (- 34359672833) demo \<sigma>'"
  using mpz_text_roundtrip [of "demo (Ob 0)" 16 97 demo "Ob 0"] by auto

text \<open>
  C13. \<^verbatim>\<open>mpz_set_from_float\<close> of a finite single precision number of magnitude at least \<open>2\<close> stores
  its value rounded towards zero, with its sign.
\<close>

theorem mpz_from_float_truncates:
  assumes "\<not> z_fixed (\<sigma> z)" and "127 < ex" and "ex < 255" and "unat frac < 2 ^ 23"
  shows "\<exists>\<sigma>'. mpz_set_from_float z neg ex frac \<sigma> = Some \<sigma>' \<and>
    mpz_sets z (let v = int ((2 ^ 23 + unat frac) * 2 ^ (ex - 127) div 2 ^ 23) in if neg then - v else v) \<sigma> \<sigma>'"
  by (rule mpz_set_from_float_ok [where \<sigma> = \<sigma> and z = z and neg = neg, OF assms]) (auto simp: Let_def)

theorem mpz_from_float_truncates_witness:
  "\<exists>\<sigma>'. mpz_set_from_float (Ob 0) True 136 0x200001 demo = Some \<sigma>' \<and> mpz_sets (Ob 0) (- 640) demo \<sigma>'"
  using mpz_from_float_truncates [of demo "Ob 0" 136 "0x200001" True] by simp

end
