(* ===== verification/Hash_Table.thy ===== *)
theory Hash_Table
  imports Prelude
begin

text \<open>
  Open addressing as \<^verbatim>\<open>py/map.c\<close> does it for maps and sets: a table of slots that hold
  nothing (\<^verbatim>\<open>MP_OBJ_NULL\<close>), the mark of a deleted entry (\<^verbatim>\<open>MP_OBJ_SENTINEL\<close>) or a key,
  linear probing from the hash position, and a table of growing sizes. The definitions are the
  parts that \<^verbatim>\<open>mp_map_lookup\<close> and \<^verbatim>\<open>mp_set_lookup\<close> share; the lemmas hold for every hash and
  equality that agree, which the locale \<open>hash_keys\<close> states.
\<close>

datatype 'o key = KNull | KSentinel | Key 'o

definition is_filled :: "'o key \<Rightarrow> bool" where
  "is_filled k = (case k of Key _ \<Rightarrow> True | _ \<Rightarrow> False)"

lemma is_filled_simps [simp]:
  "\<not> is_filled KNull" "\<not> is_filled KSentinel" "is_filled (Key a)"
  by (auto simp: is_filled_def)

lemma is_filled_iff: "is_filled k \<longleftrightarrow> (\<exists>a. k = Key a)"
  by (cases k) auto

section \<open>Sizes\<close>

definition hash_allocation_sizes :: "nat list" where
  "hash_allocation_sizes =
     [0, 2, 4, 6, 8, 10, 12,
      17, 23, 29, 37, 47, 59, 73,
      97, 127, 167, 223, 293, 389, 521, 691, 919, 1223, 1627, 2161,
      3229, 4831, 7243, 10861, 16273, 24407, 36607, 54907]"

definition get_hash_alloc_greater_or_equal_to :: "nat \<Rightarrow> nat" where
  "get_hash_alloc_greater_or_equal_to x =
     (case List.find (\<lambda>s. x \<le> s) hash_allocation_sizes of
        Some s \<Rightarrow> s
      | None \<Rightarrow> (x + x div 2) OR 1)"

lemma find_first: "List.find P xs = Some x \<Longrightarrow> P x"
  by (induction xs) (auto split: if_splits)

lemma hash_alloc_ge: "x \<le> get_hash_alloc_greater_or_equal_to x"
proof (cases "List.find (\<lambda>s. x \<le> s) hash_allocation_sizes")
  case None
  have "x + x div 2 \<le> (x + x div 2) OR 1"
    using or_one_eq [of "x + x div 2"] by (simp del: One_nat_def)
  with None show ?thesis
    by (simp add: get_hash_alloc_greater_or_equal_to_def)
next
  case (Some s)
  then show ?thesis
    using find_first [OF Some] by (simp add: get_hash_alloc_greater_or_equal_to_def)
qed

section \<open>Probing\<close>

text \<open>
  How the search loop ends: on a matching key, on an empty slot, or back at its start, with the
  first deleted slot it passed.
\<close>

datatype probe_end = Hit nat | Empty nat "nat option" | Wrapped "nat option" | Out_of_bounds

definition probe_left :: "nat \<Rightarrow> nat \<Rightarrow> nat \<Rightarrow> nat" where
  "probe_left n start pos = (if pos < start then start - pos else start + n - pos)"

lemma probe_step_less:
  assumes "Suc pos mod n \<noteq> start" and "\<not> n \<le> pos" and "\<not> n \<le> start"
  shows "probe_left n start (Suc pos mod n) < probe_left n start pos"
  using assms by (cases "pos + 1 < n") (auto simp: probe_left_def not_less le_Suc_eq)

function probe :: "('o \<Rightarrow> bool) \<Rightarrow> 'o key list \<Rightarrow> nat \<Rightarrow> nat \<Rightarrow> nat option \<Rightarrow> probe_end" where
  "probe matches ks start pos avail =
     (if length ks \<le> pos \<or> length ks \<le> start then Out_of_bounds
      else let next = (pos + 1) mod length ks
        in case ks ! pos of
             KNull \<Rightarrow> Empty pos avail
           | KSentinel \<Rightarrow>
               let avail = (if avail = None then Some pos else avail)
               in if next = start then Wrapped avail else probe matches ks start next avail
           | Key k \<Rightarrow>
               if matches k then Hit pos
               else if next = start then Wrapped avail else probe matches ks start next avail)"
  by auto

termination
  by (relation "measure (\<lambda>(_, ks, start, pos, _). probe_left (length ks) start pos)")
    (auto intro: probe_step_less)

declare probe.simps [simp del]

text \<open>The slots from \<open>start\<close> round to \<open>pos\<close>, without \<open>pos\<close>.\<close>

definition cyc :: "nat \<Rightarrow> nat \<Rightarrow> nat \<Rightarrow> nat set" where
  "cyc n start pos = (if start \<le> pos then {start..<pos} else {start..<n} \<union> {..<pos})"

lemma cyc_self [simp]: "cyc n p p = {}"
  by (simp add: cyc_def)

lemma cyc_less: "q \<in> cyc n s p \<Longrightarrow> p < n \<Longrightarrow> q < n"
  by (auto simp: cyc_def split: if_splits)

lemma cyc_next:
  assumes "p < n" and "s < n" and "(p + 1) mod n \<noteq> s"
  shows "cyc n s ((p + 1) mod n) = insert p (cyc n s p)"
  using assms by (cases "p + 1 < n") (auto simp: cyc_def not_less le_Suc_eq)

lemma cyc_all:
  assumes "p < n" and "s < n" and "(p + 1) mod n = s"
  shows "q < n \<Longrightarrow> q = p \<or> q \<in> cyc n s p"
  using assms by (cases "p + 1 < n") (auto simp: cyc_def not_less le_Suc_eq)

lemma cyc_sub: "q \<in> cyc n s p \<Longrightarrow> cyc n s q \<subseteq> cyc n s p"
  by (auto simp: cyc_def split: if_splits)

lemma cyc_step:
  assumes "p \<in> cyc n s i" and "i < n" and "s < n" and "n \<noteq> 1"
  shows "(p + 1) mod n \<in> cyc n s i \<or> (p + 1) mod n = i"
  using assms by (cases "p + 1 < n") (auto simp: cyc_def not_less le_Suc_eq split: if_splits)

lemma probe_cases:
  assumes "s < length ks" and "p < length ks"
    and "\<forall>q \<in> cyc (length ks) s p. ks ! q \<noteq> KNull \<and> (\<forall>a. ks ! q = Key a \<longrightarrow> \<not> f a)"
    and "case avail of None \<Rightarrow> \<forall>q \<in> cyc (length ks) s p. ks ! q \<noteq> KSentinel
      | Some q \<Rightarrow> q \<in> cyc (length ks) s p \<and> ks ! q = KSentinel"
  shows "case probe f ks s p avail of
      Hit i \<Rightarrow> i < length ks \<and> (\<exists>a. ks ! i = Key a \<and> f a)
    | Empty i av \<Rightarrow> i < length ks \<and> ks ! i = KNull \<and>
        (\<forall>q \<in> cyc (length ks) s i. ks ! q \<noteq> KNull \<and> (\<forall>a. ks ! q = Key a \<longrightarrow> \<not> f a)) \<and>
        (case av of None \<Rightarrow> True | Some q \<Rightarrow> q \<in> cyc (length ks) s i \<and> ks ! q = KSentinel)
    | Wrapped av \<Rightarrow> (\<forall>q < length ks. ks ! q \<noteq> KNull \<and> (\<forall>a. ks ! q = Key a \<longrightarrow> \<not> f a)) \<and>
        (case av of None \<Rightarrow> \<forall>q < length ks. ks ! q \<noteq> KSentinel | Some q \<Rightarrow> q < length ks \<and> ks ! q = KSentinel)
    | Out_of_bounds \<Rightarrow> False"
  using assms
proof (induction f ks s p avail rule: probe.induct)
  case (1 f ks s p avail)
  note in_range = "1.prems"(1,2) and passed = "1.prems"(3) and av = "1.prems"(4)
  let ?next = "(p + 1) mod length ks"
  have next_less: "?next < length ks"
    by (rule mod_less_divisor) (use in_range in linarith)
  show ?case
  proof (cases "ks ! p")
    case KNull
    then show ?thesis
      using in_range passed av by (subst probe.simps) (auto split: option.splits)
  next
    case KSentinel
    define av' where "av' = (if avail = None then Some p else avail)"
    show ?thesis
    proof (cases "?next = s")
      case True
      note all = cyc_all [OF in_range(2,1) True]
      have "\<forall>q < length ks. ks ! q \<noteq> KNull \<and> (\<forall>a. ks ! q = Key a \<longrightarrow> \<not> f a)"
        using passed KSentinel by (auto dest!: all)
      moreover have "case av' of None \<Rightarrow> False | Some q \<Rightarrow> q < length ks \<and> ks ! q = KSentinel"
        using av KSentinel in_range cyc_less by (auto simp: av'_def split: option.splits)
      ultimately show ?thesis
        using in_range True KSentinel by (subst probe.simps) (auto simp: av'_def split: option.splits)
    next
      case False
      note step = cyc_next [OF in_range(2,1) False]
      have eq: "probe f ks s p avail = probe f ks s ?next av'"
        using in_range False KSentinel by (subst probe.simps) (simp add: av'_def)
      show ?thesis
        unfolding eq
        by (rule "1.IH"(1) [OF _ refl KSentinel av'_def False])
          (use in_range next_less passed av KSentinel step in \<open>auto simp: av'_def split: option.splits\<close>)
    qed
  next
    case (Key k)
    show ?thesis
    proof (cases "f k")
      case True
      then show ?thesis
        using in_range Key by (subst probe.simps) auto
    next
      case no: False
      show ?thesis
      proof (cases "?next = s")
        case True
        note all = cyc_all [OF in_range(2,1) True]
        have "\<forall>q < length ks. ks ! q \<noteq> KNull \<and> (\<forall>a. ks ! q = Key a \<longrightarrow> \<not> f a)"
          using passed Key no by (auto dest!: all)
        moreover have "case avail of None \<Rightarrow> \<forall>q < length ks. ks ! q \<noteq> KSentinel
            | Some q \<Rightarrow> q < length ks \<and> ks ! q = KSentinel"
        proof (cases avail)
          case None
          then show ?thesis
            using av Key by (auto dest!: all)
        next
          case (Some q)
          then show ?thesis
            using av by (auto intro: cyc_less [OF _ in_range(2)])
        qed
        ultimately show ?thesis
          using in_range True Key no by (subst probe.simps) auto
      next
        case False
        note step = cyc_next [OF in_range(2,1) False]
        have eq: "probe f ks s p avail = probe f ks s ?next avail"
          using in_range False Key no by (subst probe.simps) simp
        show ?thesis
          unfolding eq
          by (rule "1.IH"(2) [OF _ refl Key no False])
            (use in_range next_less passed av Key no step in \<open>auto split: option.splits\<close>)
      qed
    qed
  qed
qed

lemma cyc_total: "i < n \<Longrightarrow> j < n \<Longrightarrow> i \<noteq> j \<Longrightarrow> i \<in> cyc n s j \<or> j \<in> cyc n s i"
  by (auto simp: cyc_def)

text \<open>The slot that the code stores a new key in, when the search ended without a match.\<close>

definition add_slot :: "probe_end \<Rightarrow> nat option" where
  "add_slot r = (case r of Empty i av \<Rightarrow> Some (case av of None \<Rightarrow> i | Some q \<Rightarrow> q) | Wrapped av \<Rightarrow> av | _ \<Rightarrow> None)"

text \<open>
  The invariant of a table: no two slots hold the same key, and between the hash position of a
  key and its slot there is no empty slot.
\<close>

definition tab_ok :: "('o \<Rightarrow> nat) \<Rightarrow> ('o \<Rightarrow> 'o \<Rightarrow> bool) \<Rightarrow> 'o key list \<Rightarrow> bool" where
  "tab_ok hash_of same ks \<longleftrightarrow>
     (\<forall>i < length ks. \<forall>j < length ks. \<forall>a b. ks ! i = Key a \<and> ks ! j = Key b \<and> same a b \<longrightarrow> i = j) \<and>
     (\<forall>i < length ks. \<forall>a. ks ! i = Key a \<longrightarrow>
        (\<forall>q \<in> cyc (length ks) (hash_of a mod length ks) i. ks ! q \<noteq> KNull))"

definition filled_count :: "'o key list \<Rightarrow> nat" where
  "filled_count ks = length (filter is_filled ks)"

lemma filled_count_update:
  assumes "q < length ks"
  shows "filled_count (ks[q := k]) + of_bool (is_filled (ks ! q)) = filled_count ks + of_bool (is_filled k)"
  using assms
proof (induction ks arbitrary: q)
  case (Cons a ks)
  then show ?case
    by (cases q) (auto simp: filled_count_def)
qed simp

lemma filled_count_all: "(\<forall>q < length ks. is_filled (ks ! q)) \<longleftrightarrow> filled_count ks = length ks"
proof -
  have "filled_count ks = length ks \<longleftrightarrow> (\<forall>k \<in> set ks. is_filled k)"
  proof (induction ks)
    case (Cons k ks)
    then show ?case
      using le_imp_less_Suc [OF length_filter_le [of is_filled ks]] by (cases "is_filled k") (auto simp: filled_count_def)
  qed (simp add: filled_count_def)
  then show ?thesis
    by (simp add: all_set_conv_all_nth)
qed

lemma tab_ok_empty: "tab_ok hash_of same (replicate n KNull)"
  by (simp add: tab_ok_def)

locale hash_keys =
  fixes hash_of :: "'o \<Rightarrow> nat" and same :: "'o \<Rightarrow> 'o \<Rightarrow> bool"
  assumes same_refl: "same a a"
    and same_sym: "same a b \<Longrightarrow> same b a"
    and same_trans: "same a b \<Longrightarrow> same b c \<Longrightarrow> same a c"
    and same_hash: "same a b \<Longrightarrow> hash_of a = hash_of b"
begin

abbreviation search :: "'o key list \<Rightarrow> 'o \<Rightarrow> probe_end" where
  "search ks x \<equiv> probe (\<lambda>k. same k x) ks (hash_of x mod length ks) (hash_of x mod length ks) None"

lemma search_result:
  assumes "ks \<noteq> []"
  shows "case search ks x of
      Hit i \<Rightarrow> i < length ks \<and> (\<exists>a. ks ! i = Key a \<and> same a x)
    | Empty i av \<Rightarrow> i < length ks \<and> ks ! i = KNull \<and>
        (\<forall>q \<in> cyc (length ks) (hash_of x mod length ks) i. ks ! q \<noteq> KNull \<and> (\<forall>a. ks ! q = Key a \<longrightarrow> \<not> same a x)) \<and>
        (case av of None \<Rightarrow> True | Some q \<Rightarrow> q \<in> cyc (length ks) (hash_of x mod length ks) i \<and> ks ! q = KSentinel)
    | Wrapped av \<Rightarrow> (\<forall>q < length ks. ks ! q \<noteq> KNull \<and> (\<forall>a. ks ! q = Key a \<longrightarrow> \<not> same a x)) \<and>
        (case av of None \<Rightarrow> \<forall>q < length ks. ks ! q \<noteq> KSentinel | Some q \<Rightarrow> q < length ks \<and> ks ! q = KSentinel)
    | Out_of_bounds \<Rightarrow> False"
  using probe_cases [of "hash_of x mod length ks" ks "hash_of x mod length ks" "\<lambda>k. same k x" None] assms
  by simp

lemma search_hit_iff:
  assumes ok: "tab_ok hash_of same ks"
  shows "search ks x = Hit i \<longleftrightarrow> i < length ks \<and> (\<exists>a. ks ! i = Key a \<and> same a x)"
proof
  assume "search ks x = Hit i"
  then show "i < length ks \<and> (\<exists>a. ks ! i = Key a \<and> same a x)"
    using search_result [of ks x] by (cases "ks = []") (auto simp: probe.simps)
next
  assume "i < length ks \<and> (\<exists>a. ks ! i = Key a \<and> same a x)"
  then obtain a where i: "i < length ks" "ks ! i = Key a" "same a x"
    by blast
  then have ne: "ks \<noteq> []" and s: "hash_of x mod length ks = hash_of a mod length ks"
    using same_hash by auto
  show "search ks x = Hit i"
  proof (cases "search ks x")
    case (Hit j)
    then obtain b where "j < length ks" "ks ! j = Key b" "same b x"
      using search_result [OF ne, of x] by auto
    then have "j = i"
      using ok i same_trans [OF i(3) same_sym] unfolding tab_ok_def by blast
    with Hit show ?thesis by simp
  next
    case (Empty j av)
    then have j: "j < length ks" "ks ! j = KNull" "i \<notin> cyc (length ks) (hash_of x mod length ks) j"
      using search_result [OF ne, of x] i by auto
    moreover have "j \<notin> cyc (length ks) (hash_of x mod length ks) i"
      using ok i j(2) unfolding tab_ok_def s by blast
    ultimately have "i = j"
      using cyc_total i(1) by metis
    with i j show ?thesis by simp
  next
    case (Wrapped av)
    then show ?thesis
      using search_result [OF ne, of x] i by auto
  next
    case Out_of_bounds
    then show ?thesis
      using search_result [OF ne, of x] by simp
  qed
qed

lemma search_miss:
  assumes "tab_ok hash_of same ks" and "ks \<noteq> []" and "\<forall>i < length ks. \<forall>a. ks ! i = Key a \<longrightarrow> \<not> same a x"
  obtains (slot) q where "add_slot (search ks x) = Some q" and "q < length ks" and "\<not> is_filled (ks ! q)"
      and "\<forall>p \<in> cyc (length ks) (hash_of x mod length ks) q. ks ! p \<noteq> KNull"
      and "search ks x \<noteq> Wrapped None" and "\<forall>i. search ks x \<noteq> Hit i" and "search ks x \<noteq> Out_of_bounds"
  | (full) "search ks x = Wrapped None" and "filled_count ks = length ks"
proof (cases "search ks x")
  case (Hit i)
  then show ?thesis
    using search_hit_iff [OF assms(1)] assms(3) by blast
next
  case (Empty i av)
  note r = search_result [OF assms(2), of x, unfolded Empty, simplified]
  show ?thesis
  proof (cases av)
    case None
    with Empty r show ?thesis
      by (intro slot [of i]) (auto simp: add_slot_def)
  next
    case (Some q)
    with r have q: "q \<in> cyc (length ks) (hash_of x mod length ks) i" "ks ! q = KSentinel"
      by auto
    with Some Empty r show ?thesis
      using cyc_sub [OF q(1)] cyc_less [OF q(1)] by (intro slot [of q]) (auto simp: add_slot_def)
  qed
next
  case (Wrapped av)
  note r = search_result [OF assms(2), of x, unfolded Wrapped, simplified]
  show ?thesis
  proof (cases av)
    case None
    have "is_filled (ks ! q)" if "q < length ks" for q
      using r None that by (cases "ks ! q") auto
    then show ?thesis
      using Wrapped None full by (simp flip: filled_count_all)
  next
    case (Some q)
    have "\<forall>p \<in> cyc (length ks) (hash_of x mod length ks) q. p < length ks"
      using r Some by (auto intro: cyc_less)
    then show ?thesis
      using Wrapped Some r by (intro slot [of q]) (auto simp: add_slot_def)
  qed
next
  case Out_of_bounds
  then show ?thesis
    using search_result [OF assms(2), of x] by simp
qed

lemma tab_ok_insert:
  assumes ok: "tab_ok hash_of same ks" and q: "q < length ks" "\<not> is_filled (ks ! q)"
    and path: "\<forall>p \<in> cyc (length ks) (hash_of x mod length ks) q. ks ! p \<noteq> KNull"
    and new: "\<forall>i < length ks. \<forall>a. ks ! i = Key a \<longrightarrow> \<not> same a x"
  shows "tab_ok hash_of same (ks[q := Key x])"
  unfolding tab_ok_def length_list_update
proof (intro conjI allI impI ballI)
  fix i j a b
  assume "i < length ks" "j < length ks" "ks[q := Key x] ! i = Key a \<and> ks[q := Key x] ! j = Key b \<and> same a b"
  then show "i = j"
    using ok q(1) new same_sym unfolding tab_ok_def by (auto simp: nth_list_update split: if_splits)
next
  fix i a p
  assume "i < length ks" "ks[q := Key x] ! i = Key a" "p \<in> cyc (length ks) (hash_of a mod length ks) i"
  then show "ks[q := Key x] ! p \<noteq> KNull"
    using ok q(1) path unfolding tab_ok_def by (cases "i = q"; cases "p = q") auto
qed

lemma tab_ok_delete:
  assumes ok: "tab_ok hash_of same ks" and i: "i < length ks" "is_filled (ks ! i)"
    and k: "k = (if ks ! ((i + 1) mod length ks) = KNull then KNull else KSentinel)"
  shows "tab_ok hash_of same (ks[i := k])"
  unfolding tab_ok_def length_list_update
proof (intro conjI allI impI ballI)
  fix j l a b
  assume "j < length ks" "l < length ks" "ks[i := k] ! j = Key a \<and> ks[i := k] ! l = Key b \<and> same a b"
  then show "j = l"
    using ok i(1) k unfolding tab_ok_def by (auto simp: nth_list_update split: if_splits)
next
  fix j a p
  assume j: "j < length ks" "ks[i := k] ! j = Key a" and p: "p \<in> cyc (length ks) (hash_of a mod length ks) j"
  have "j \<noteq> i"
    using j i k by (auto split: if_splits)
  then have ja: "ks ! j = Key a"
    using j by simp
  have path: "\<forall>q \<in> cyc (length ks) (hash_of a mod length ks) j. ks ! q \<noteq> KNull"
    using ok j(1) ja unfolding tab_ok_def by blast
  show "ks[i := k] ! p \<noteq> KNull"
  proof (cases "p = i")
    case True
    have s: "hash_of a mod length ks < length ks"
      using i(1) by (intro mod_less_divisor) linarith
    have "length ks \<noteq> 1"
      using \<open>j \<noteq> i\<close> j(1) i(1) by linarith
    from cyc_step [OF p [unfolded True] j(1) s this] have "ks ! ((i + 1) mod length ks) \<noteq> KNull"
      using path ja by auto
    then show ?thesis
      using True i(1) k by simp
  next
    case False
    then show ?thesis
      using path p by simp
  qed
qed

end

end
