(* ===== verification/Mp_Map.thy ===== *)
theory Mp_Map
  imports Hash_Table "HOL-Library.Monad_Syntax"
begin

text \<open>
  \<^verbatim>\<open>mp_map_t\<close> of \<^verbatim>\<open>py/map.c\<close> with the lookup cache that the port enables. The objects are a
  type parameter; what the code asks of them is a record of functions. A slot is a pair of key
  and value, where \<^term>\<open>None\<close> as a value stands for \<^verbatim>\<open>MP_OBJ_NULL\<close>. A slot pointer that the
  code returns is the index of the slot, and the result \<^term>\<open>None\<close> of an operation is a failed
  assertion.
\<close>

record 'o obj_ops =
  op_is_qstr :: "'o \<Rightarrow> bool"
  op_is_str :: "'o \<Rightarrow> bool"
  op_hash :: "'o \<Rightarrow> nat"
  op_equal :: "'o \<Rightarrow> 'o \<Rightarrow> bool"
  op_word :: "'o \<Rightarrow> nat"

type_synonym ('o, 'v) slot = "'o key \<times> 'v option"

record ('o, 'v) mp_map =
  all_keys_are_qstrs :: bool
  is_fixed :: bool
  is_ordered :: bool
  used :: nat
  table :: "('o, 'v) slot list"

datatype lookup_kind = LOOKUP | ADD_IF_NOT_FOUND | REMOVE_IF_FOUND

type_synonym cache = "nat list"

definition MAP_LOOKUP_CACHE_SIZE :: nat where "MAP_LOOKUP_CACHE_SIZE = 128"

definition map_cache_offset :: "'o obj_ops \<Rightarrow> 'o \<Rightarrow> nat" where
  "map_cache_offset E index = op_word E index div 4 mod MAP_LOOKUP_CACHE_SIZE"

definition map_cache_get :: "'o obj_ops \<Rightarrow> ('o, 'v) mp_map \<Rightarrow> cache \<Rightarrow> 'o \<Rightarrow> nat" where
  "map_cache_get E m c index = c ! map_cache_offset E index mod length (table m)"

definition map_cache_set :: "'o obj_ops \<Rightarrow> 'o \<Rightarrow> nat \<Rightarrow> cache \<Rightarrow> cache" where
  "map_cache_set E index pos c = c[map_cache_offset E index := pos mod 256]"

definition null_slot :: "('o, 'v) slot" where
  "null_slot = (KNull, None)"

definition mp_map_init :: "nat \<Rightarrow> ('o, 'v) mp_map" where
  "mp_map_init n = \<lparr>all_keys_are_qstrs = True, is_fixed = False, is_ordered = False, used = 0,
     table = replicate n null_slot\<rparr>"

definition mp_map_init_fixed_table :: "('o, 'v) slot list \<Rightarrow> ('o, 'v) mp_map" where
  "mp_map_init_fixed_table tab = \<lparr>all_keys_are_qstrs = True, is_fixed = True, is_ordered = True,
     used = length tab, table = tab\<rparr>"

definition mp_map_clear :: "('o, 'v) mp_map \<Rightarrow> ('o, 'v) mp_map" where
  "mp_map_clear m = m\<lparr>table := [], used := 0, all_keys_are_qstrs := True, is_fixed := False\<rparr>"

text \<open>Stores of the lookup: a new key, and the deletion of the key in a slot of a hash table.\<close>

definition map_add_at :: "'o obj_ops \<Rightarrow> 'o \<Rightarrow> nat \<Rightarrow> ('o, 'v) mp_map \<Rightarrow> ('o, 'v) mp_map" where
  "map_add_at E index pos m =
     m\<lparr>used := used m + 1, table := (table m)[pos := (Key index, None)],
       all_keys_are_qstrs := all_keys_are_qstrs m \<and> op_is_qstr E index\<rparr>"

definition map_delete_at :: "nat \<Rightarrow> ('o, 'v) mp_map \<Rightarrow> ('o, 'v) mp_map" where
  "map_delete_at pos m =
     m\<lparr>used := used m - 1,
       table := (table m)[pos :=
         (if fst (table m ! ((pos + 1) mod length (table m))) = KNull then KNull else KSentinel,
          snd (table m ! pos))]\<rparr>"

definition map_set_value :: "nat \<Rightarrow> 'v option \<Rightarrow> ('o, 'v) mp_map \<Rightarrow> ('o, 'v) mp_map" where
  "map_set_value pos v m = m\<lparr>table := (table m)[pos := (fst (table m ! pos), v)]\<rparr>"

text \<open>Ordered arrays: the linear search over the used slots, and the two updates.\<close>

fun map_find_ordered :: "('o \<Rightarrow> bool) \<Rightarrow> ('o, 'v) slot list \<Rightarrow> nat \<Rightarrow> nat option" where
  "map_find_ordered matches [] i = None"
| "map_find_ordered matches (e # es) i =
     (case fst e of
        Key k \<Rightarrow> if matches k then Some i else map_find_ordered matches es (i + 1)
      | _ \<Rightarrow> map_find_ordered matches es (i + 1))"

definition map_remove_ordered :: "nat \<Rightarrow> ('o, 'v) mp_map \<Rightarrow> ('o, 'v) mp_map" where
  "map_remove_ordered i m =
     m\<lparr>used := used m - 1,
       table := take i (table m) @ drop (i + 1) (take (used m) (table m)) @
         [(KNull, snd (table m ! i))] @ drop (used m) (table m)\<rparr>"

definition map_append_ordered :: "'o obj_ops \<Rightarrow> 'o \<Rightarrow> ('o, 'v) mp_map \<Rightarrow> ('o, 'v) mp_map" where
  "map_append_ordered E index m =
     (let m = (if used m = length (table m) then m\<lparr>table := table m @ replicate 4 null_slot\<rparr> else m)
      in map_add_at E index (used m) m)"

definition mp_map_lookup_ordered ::
    "'o obj_ops \<Rightarrow> lookup_kind \<Rightarrow> bool \<Rightarrow> 'o \<Rightarrow> ('o, 'v) mp_map \<Rightarrow> cache \<Rightarrow> nat option \<times> ('o, 'v) mp_map \<times> cache" where
  "mp_map_lookup_ordered E kind only_ptrs index m c =
     (case map_find_ordered (\<lambda>k. k = index \<or> \<not> only_ptrs \<and> op_equal E k index) (take (used m) (table m)) 0 of
        Some i \<Rightarrow>
          (if kind = REMOVE_IF_FOUND
           then (Some (used m - 1), map_remove_ordered i m, map_cache_set E index (used m - 1) c)
           else (Some i, m, map_cache_set E index i c))
      | None \<Rightarrow>
          (if kind = ADD_IF_NOT_FOUND then (Some (used m), map_append_ordered E index m, c)
           else (None, m, c)))"

text \<open>
  \<^verbatim>\<open>mp_map_lookup\<close> and \<^verbatim>\<open>mp_map_rehash\<close> call each other: the search of a full table rehashes
  it and starts again, and the rehash looks every old key up in the new table. The rehash takes
  the lookup that it calls as an argument, the search takes the rehash and a bound on how often it
  starts again, and \<open>mp_map_lookup_f\<close> a bound on the depth of the calls; \<open>mp_map_lookup\<close> gives
  bounds that always suffice.
\<close>

type_synonym ('o, 'v) lookup_result = "(nat option \<times> ('o, 'v) mp_map \<times> cache) option"

fun map_rehash_elems ::
    "('o \<Rightarrow> ('o, 'v) mp_map \<Rightarrow> cache \<Rightarrow> ('o, 'v) lookup_result) \<Rightarrow> ('o, 'v) slot list \<Rightarrow> ('o, 'v) mp_map \<Rightarrow> cache \<Rightarrow>
     (('o, 'v) mp_map \<times> cache) option"
where
  "map_rehash_elems add [] m c = Some (m, c)"
| "map_rehash_elems add (e # es) m c =
     (case fst e of
        Key k \<Rightarrow>
          (case add k m c of
             Some (Some pos, m, c) \<Rightarrow> map_rehash_elems add es (map_set_value pos (snd e) m) c
           | _ \<Rightarrow> None)
      | _ \<Rightarrow> map_rehash_elems add es m c)"

definition mp_map_rehash ::
    "('o \<Rightarrow> ('o, 'v) mp_map \<Rightarrow> cache \<Rightarrow> ('o, 'v) lookup_result) \<Rightarrow> ('o, 'v) mp_map \<Rightarrow> cache \<Rightarrow> (('o, 'v) mp_map \<times> cache) option"
where
  "mp_map_rehash add m c =
     map_rehash_elems add (table m)
       (m\<lparr>used := 0, all_keys_are_qstrs := True,
          table := replicate (get_hash_alloc_greater_or_equal_to (length (table m) + 1)) null_slot\<rparr>) c"

fun map_search ::
    "nat \<Rightarrow> (('o, 'v) mp_map \<Rightarrow> cache \<Rightarrow> (('o, 'v) mp_map \<times> cache) option) \<Rightarrow>
     'o obj_ops \<Rightarrow> lookup_kind \<Rightarrow> bool \<Rightarrow> 'o \<Rightarrow> ('o, 'v) mp_map \<Rightarrow> cache \<Rightarrow> ('o, 'v) lookup_result"
where
  "map_search 0 rehash E kind only_ptrs index m c = None"
| "map_search (Suc n) rehash E kind only_ptrs index m c =
     (let start = op_hash E index mod length (table m);
          r = probe (\<lambda>k. k = index \<or> \<not> only_ptrs \<and> op_equal E k index) (map fst (table m)) start start None
      in case r of
           Out_of_bounds \<Rightarrow> None
         | Hit pos \<Rightarrow>
             Some (Some pos, if kind = REMOVE_IF_FOUND then map_delete_at pos m else m, map_cache_set E index pos c)
         | _ \<Rightarrow>
             if kind = ADD_IF_NOT_FOUND
             then case add_slot r of
                    Some q \<Rightarrow> Some (Some q, map_add_at E index q m, c)
                  | None \<Rightarrow> do { (m, c) \<leftarrow> rehash m c; map_search n rehash E kind only_ptrs index m c }
             else Some (None, m, c))"

fun mp_map_lookup_f ::
    "nat \<Rightarrow> 'o obj_ops \<Rightarrow> lookup_kind \<Rightarrow> 'o \<Rightarrow> ('o, 'v) mp_map \<Rightarrow> cache \<Rightarrow> ('o, 'v) lookup_result"
where
  "mp_map_lookup_f 0 E kind index m c = None"
| "mp_map_lookup_f (Suc n) E kind index m c =
     (if is_fixed m \<and> kind \<noteq> LOOKUP then None
      else if kind \<noteq> REMOVE_IF_FOUND \<and> table m \<noteq> [] \<and> fst (table m ! map_cache_get E m c index) = Key index
      then Some (Some (map_cache_get E m c index), m, c)
      else if all_keys_are_qstrs m \<and> \<not> op_is_qstr E index \<and> \<not> op_is_str E index \<and> kind \<noteq> ADD_IF_NOT_FOUND
      then Some (None, m, c)
      else let only_ptrs = (all_keys_are_qstrs m \<and> (op_is_qstr E index \<or> \<not> op_is_str E index));
               rehash = mp_map_rehash (mp_map_lookup_f n E ADD_IF_NOT_FOUND)
        in if is_ordered m then Some (mp_map_lookup_ordered E kind only_ptrs index m c)
           else if table m = []
           then if kind = ADD_IF_NOT_FOUND
                then do { (m, c) \<leftarrow> rehash m c; map_search 2 rehash E kind only_ptrs index m c }
                else Some (None, m, c)
           else map_search 2 rehash E kind only_ptrs index m c)"

declare mp_map_lookup_f.simps(2) [simp del] map_search.simps(2) [simp del]

definition mp_map_lookup ::
    "'o obj_ops \<Rightarrow> lookup_kind \<Rightarrow> 'o \<Rightarrow> ('o, 'v) mp_map \<Rightarrow> cache \<Rightarrow> ('o, 'v) lookup_result" where
  "mp_map_lookup E kind index m c = mp_map_lookup_f 2 E kind index m c"

section \<open>What a map stands for\<close>

text \<open>Two keys are the same to a map when they are identical or compare equal.\<close>

definition same_key :: "'o obj_ops \<Rightarrow> 'o \<Rightarrow> 'o \<Rightarrow> bool" where
  "same_key E a b \<longleftrightarrow> a = b \<or> op_equal E a b"

definition slot_matches :: "'o obj_ops \<Rightarrow> 'o \<Rightarrow> ('o, 'v) slot \<Rightarrow> bool" where
  "slot_matches E x s = (case fst s of Key a \<Rightarrow> same_key E a x | _ \<Rightarrow> False)"

definition map_get :: "'o obj_ops \<Rightarrow> ('o, 'v) mp_map \<Rightarrow> 'o \<Rightarrow> 'v option option" where
  "map_get E m x = map_option snd (List.find (slot_matches E x) (table m))"

definition keys :: "('o, 'v) mp_map \<Rightarrow> 'o key list" where
  "keys m = map fst (table m)"

definition map_ok :: "'o obj_ops \<Rightarrow> ('o, 'v) mp_map \<Rightarrow> bool" where
  "map_ok E m \<longleftrightarrow>
     used m = filled_count (keys m) \<and>
     (all_keys_are_qstrs m \<longrightarrow> (\<forall>a. Key a \<in> set (keys m) \<longrightarrow> op_is_qstr E a)) \<and>
     (if is_ordered m
      then (\<forall>i < length (table m). is_filled (keys m ! i) \<longleftrightarrow> i < used m) \<and>
        (\<forall>i < length (table m). \<forall>j < length (table m). \<forall>a b.
           keys m ! i = Key a \<and> keys m ! j = Key b \<and> same_key E a b \<longrightarrow> i = j)
      else tab_ok (op_hash E) (same_key E) (keys m))"

end
