(* ===== verification/Mp_Map_Correct.thy ===== *)
theory Mp_Map_Correct
  imports Mp_Map
begin

text \<open>
  The invariant and the effect of the operations of theory Mp_Map, for objects whose hash and
  equality obey the laws of the locale \<open>obj_laws\<close>.
\<close>

definition slot_at :: "'o obj_ops \<Rightarrow> ('o, 'v) mp_map \<Rightarrow> 'o \<Rightarrow> nat \<Rightarrow> bool" where
  "slot_at E m x i \<longleftrightarrow> i < length (table m) \<and> slot_matches E x (table m ! i)"

lemma keys_simps [simp]:
  "length (keys m) = length (table m)"
  "i < length (table m) \<Longrightarrow> keys m ! i = fst (table m ! i)"
  by (simp_all add: keys_def)

lemma slot_matches_iff: "slot_matches E x s \<longleftrightarrow> (\<exists>a. fst s = Key a \<and> same_key E a x)"
  by (cases "fst s") (auto simp: slot_matches_def)

lemma map_get_None: "map_get E m x = None \<longleftrightarrow> (\<forall>i. \<not> slot_at E m x i)"
  by (auto simp: map_get_def slot_at_def find_None_iff in_set_conv_nth simp del: split_paired_All split_paired_Ex)

lemma probe_cong:
  assumes "\<And>k. Key k \<in> set ks \<Longrightarrow> f k = g k"
  shows "probe f ks s p av = probe g ks s p av"
  using assms
proof (induction f ks s p av rule: probe.induct)
  case (1 f ks s p av)
  show ?case
  proof (cases "length ks \<le> p \<or> length ks \<le> s")
    case True
    then show ?thesis
      by (subst (1 2) probe.simps) simp
  next
    case False
    then have p: "ks ! p \<in> set ks"
      by simp
    show ?thesis
    proof (cases "ks ! p")
      case KNull
      then show ?thesis
        using False by (subst (1 2) probe.simps) simp
    next
      case KSentinel
      then show ?thesis
        using False "1.IH"(1) [OF False refl KSentinel refl _ "1.prems"] by (subst (1 2) probe.simps) (simp add: Let_def)
    next
      case (Key k)
      then show ?thesis
        using False "1.IH"(2) [OF False refl Key _ _ "1.prems"] "1.prems" [of k] p
        by (subst (1 2) probe.simps) (simp add: Let_def)
    qed
  qed
qed

lemma map_set_value_simps [simp]:
  "used (map_set_value p v m) = used m" "is_fixed (map_set_value p v m) = is_fixed m"
  "is_ordered (map_set_value p v m) = is_ordered m" "all_keys_are_qstrs (map_set_value p v m) = all_keys_are_qstrs m"
  "length (table (map_set_value p v m)) = length (table m)"
  by (simp_all add: map_set_value_def)

lemma keys_set_value [simp]: "keys (map_set_value p v m) = keys m"
proof (cases "p < length (table m)")
  case True
  then have "fst (table m ! p) = keys m ! p"
    by simp
  then show ?thesis
    by (simp add: map_set_value_def keys_def map_update)
qed (simp add: map_set_value_def keys_def list_update_beyond)

lemma map_ok_set_value: "map_ok E (map_set_value p v m) \<longleftrightarrow> map_ok E m"
  by (simp add: map_ok_def)

lemma slot_at_set_value: "slot_at E (map_set_value p v m) x i \<longleftrightarrow> slot_at E m x i"
  unfolding slot_at_def slot_matches_iff map_set_value_def by (cases "i = p") auto

lemma keys_delete_at: "keys (map_delete_at i m) =
    (keys m)[i := if fst (table m ! ((i + 1) mod length (table m))) = KNull then KNull else KSentinel]"
  by (simp add: keys_def map_delete_at_def map_update)

lemma keys_add_at: "keys (map_add_at E x i m) = (keys m)[i := Key x]"
  by (simp add: keys_def map_add_at_def map_update)

definition lookup_post ::
    "'o obj_ops \<Rightarrow> lookup_kind \<Rightarrow> 'o \<Rightarrow> ('o, 'v) mp_map \<Rightarrow> nat option \<Rightarrow> ('o, 'v) mp_map \<Rightarrow> bool" where
  "lookup_post E kind x m r m' \<longleftrightarrow>
     map_ok E m' \<and> is_fixed m' = is_fixed m \<and> is_ordered m' = is_ordered m \<and>
     (case kind of
        LOOKUP \<Rightarrow> m' = m \<and> (case r of None \<Rightarrow> map_get E m x = None | Some p \<Rightarrow> slot_at E m x p)
      | ADD_IF_NOT_FOUND \<Rightarrow>
          (\<exists>p. r = Some p \<and> slot_at E m' x p) \<and>
          used m' = used m + of_bool (map_get E m x = None) \<and>
          (\<forall>y. map_get E m' y = (if map_get E m x = None \<and> same_key E x y then Some None else map_get E m y))
      | REMOVE_IF_FOUND \<Rightarrow>
          used m = used m' + of_bool (map_get E m x \<noteq> None) \<and>
          (\<forall>y. map_get E m' y = (if same_key E x y then None else map_get E m y)) \<and>
          (case r of
             None \<Rightarrow> map_get E m x = None
           | Some p \<Rightarrow> p < length (table m') \<and> \<not> is_filled (keys m' ! p) \<and>
               map_get E m x = Some (snd (table m' ! p))))"

locale obj_laws = hash_keys "op_hash E" "same_key E" for E :: "'o obj_ops" +
  assumes qstr_same: "op_is_qstr E a \<Longrightarrow> op_is_qstr E b \<Longrightarrow> same_key E a b \<Longrightarrow> a = b"
    and qstr_str: "op_is_qstr E a \<Longrightarrow> same_key E a b \<Longrightarrow> op_is_qstr E b \<or> op_is_str E b"
begin

lemma slot_unique:
  assumes "map_ok E m" and "slot_at E m x i" and "slot_at E m x j"
  shows "i = j"
proof -
  obtain a b where i: "i < length (table m)" "keys m ! i = Key a" "same_key E a x"
    and j: "j < length (table m)" "keys m ! j = Key b" "same_key E b x"
    using assms(2,3) by (auto simp: slot_at_def slot_matches_iff)
  have "same_key E a b"
    using i(3) j(3) same_sym same_trans by blast
  then show ?thesis
    using assms(1) i j unfolding map_ok_def tab_ok_def by (metis keys_simps(1))
qed

lemma map_get_at:
  assumes "map_ok E m" and "slot_at E m x i"
  shows "map_get E m x = Some (snd (table m ! i))"
proof -
  have "List.find (slot_matches E x) (table m) = Some (table m ! i)"
    using assms slot_unique [OF assms] unfolding find_Some_iff slot_at_def
    by (metis less_irrefl order.strict_trans)
  then show ?thesis
    by (simp add: map_get_def)
qed

lemma map_get_same: "same_key E x y \<Longrightarrow> map_get E m x = map_get E m y"
  unfolding map_get_def slot_matches_def
  by (intro arg_cong [where f = "map_option snd"] arg_cong [where f = "\<lambda>P. List.find P (table m)"] ext)
    (auto split: key.splits dest: same_trans same_sym)

text \<open>Comparing only pointers is enough when the code does so.\<close>

lemma match_same:
  assumes "Key k \<in> set (keys m)"
    and "only_ptrs \<Longrightarrow> (\<forall>a. Key a \<in> set (keys m) \<longrightarrow> op_is_qstr E a) \<and> (op_is_qstr E x \<or> \<not> op_is_str E x)"
  shows "k = x \<or> \<not> only_ptrs \<and> op_equal E k x \<longleftrightarrow> same_key E k x"
proof -
  have "k = x" if "same_key E k x" and only_ptrs
    using assms that qstr_same qstr_str by blast
  then show ?thesis
    by (auto simp: same_key_def)
qed

text \<open>The map after a change of one slot.\<close>

lemma map_get_change:
  assumes m: "map_ok E m" and m': "map_ok E m'"
    and same: "\<And>y i. slot_at E m' y i \<longleftrightarrow> (if i = q then new \<and> same_key E x y else slot_at E m y (f i) \<and> \<not> same_key E x y)"
    and val: "\<And>y i. slot_at E m' y i \<Longrightarrow> i \<noteq> q \<Longrightarrow> snd (table m' ! i) = snd (table m ! f i)"
    and onto: "\<And>y j. slot_at E m y j \<Longrightarrow> \<not> same_key E x y \<Longrightarrow> \<exists>i. i \<noteq> q \<and> f i = j"
  shows "map_get E m' y = (if same_key E x y then (if new then Some (snd (table m' ! q)) else None) else map_get E m y)"
proof (cases "map_get E m' y")
  case None
  then have none: "\<not> slot_at E m' y i" for i
    by (simp add: map_get_None)
  show ?thesis
  proof (cases "same_key E x y")
    case True
    then show ?thesis
      using None same [of y q] none by auto
  next
    case False
    then have "\<not> slot_at E m y j" for j
      using onto [of y j] same [of y] none by metis
    then have "map_get E m y = None"
      by (simp add: map_get_None)
    then show ?thesis
      using None False by simp
  qed
next
  case (Some v)
  then obtain i where i: "slot_at E m' y i"
    using map_get_None [of E m' y] by auto
  then have v: "v = snd (table m' ! i)"
    using map_get_at [OF m' i] Some by simp
  show ?thesis
  proof (cases "i = q")
    case True
    then show ?thesis
      using i same [of y i] Some v by simp
  next
    case False
    then have "slot_at E m y (f i)" "\<not> same_key E x y"
      using i same [of y i] by simp_all
    then show ?thesis
      using map_get_at [OF m] val [OF i False] Some v by simp
  qed
qed

lemma no_slot: "map_get E m x = None \<Longrightarrow> i < length (table m) \<Longrightarrow> keys m ! i = Key a \<Longrightarrow> \<not> same_key E a x"
  using map_get_None [of E m x] by (auto simp: slot_at_def slot_matches_iff)

lemma map_add_at_get:
  assumes m: "map_ok E m" and ok: "map_ok E (map_add_at E x q m)"
    and q: "q < length (table m)" "\<not> is_filled (keys m ! q)" and new: "map_get E m x = None"
  shows "map_get E (map_add_at E x q m) y = (if same_key E x y then Some None else map_get E m y)"
    and "slot_at E (map_add_at E x q m) x q"
proof -
  let ?m' = "map_add_at E x q m"
  have at: "slot_at E ?m' y i \<longleftrightarrow> (if i = q then True \<and> same_key E x y else slot_at E m y i \<and> \<not> same_key E x y)" for y i
  proof (cases "i = q")
    case True
    then show ?thesis
      using q by (simp add: slot_at_def slot_matches_def map_add_at_def)
  next
    case False
    have "\<not> same_key E x y" if "slot_at E m y i"
      using that new map_get_same [of x y m] map_get_None [of E m y] by auto
    with False show ?thesis
      by (auto simp: slot_at_def map_add_at_def)
  qed
  show "slot_at E ?m' x q"
    by (simp add: at same_refl)
  have "map_get E ?m' y =
      (if same_key E x y then (if True then Some (snd (table ?m' ! q)) else None) else map_get E m y)"
  proof (rule map_get_change [OF m ok, where f = "\<lambda>i. i"])
    show "\<exists>i. i \<noteq> q \<and> i = j" if "slot_at E m y j" for y j
      using that q by (auto simp: slot_at_def slot_matches_iff)
    show "snd (table ?m' ! i) = snd (table m ! i)" if "i \<noteq> q" for i
      using that by (simp add: map_add_at_def)
  qed (rule at)
  then show "map_get E ?m' y = (if same_key E x y then Some None else map_get E m y)"
    using q by (simp add: map_add_at_def)
qed

lemma map_add_at_ok:
  assumes m: "map_ok E m" "\<not> is_ordered m" and q: "q < length (table m)" "\<not> is_filled (keys m ! q)"
    and path: "\<forall>p \<in> cyc (length (table m)) (op_hash E x mod length (table m)) q. keys m ! p \<noteq> KNull"
    and new: "map_get E m x = None"
  shows "map_ok E (map_add_at E x q m)"
proof -
  let ?m' = "map_add_at E x q m"
  have "tab_ok (op_hash E) (same_key E) (keys ?m')"
    unfolding keys_add_at using m q path no_slot [OF new] by (intro tab_ok_insert) (auto simp: map_ok_def)
  moreover have "filled_count (keys ?m') = filled_count (keys m) + 1"
    using filled_count_update [of q "keys m" "Key x"] q by (simp add: keys_add_at)
  moreover have "set (keys ?m') \<subseteq> insert (Key x) (set (keys m))"
    unfolding keys_add_at by (rule set_update_subset_insert)
  ultimately show "map_ok E ?m'"
    using m by (auto simp: map_ok_def map_add_at_def)
qed

lemma map_get_unfill:
  assumes m: "map_ok E m" and ok: "map_ok E m'" and i: "slot_at E m x i"
    and m': "table m' = (table m)[i := (k, v)]" and k: "\<not> is_filled k"
  shows "map_get E m' y = (if same_key E x y then None else map_get E m y)"
proof -
  have len: "i < length (table m)"
    using i by (simp add: slot_at_def)
  have at: "slot_at E m' y j \<longleftrightarrow> (if j = i then False \<and> same_key E x y else slot_at E m y j \<and> \<not> same_key E x y)" for y j
  proof (cases "j = i")
    case True
    then show ?thesis
      using k len by (auto simp: slot_at_def slot_matches_iff m')
  next
    case False
    have "\<not> same_key E x y" if "slot_at E m y j"
    proof
      assume "same_key E x y"
      then have "slot_at E m y i"
        using i by (auto simp: slot_at_def slot_matches_iff intro: same_trans)
      then show False
        using slot_unique [OF m that] False by simp
    qed
    with False show ?thesis
      by (auto simp: slot_at_def m')
  qed
  have "map_get E m' y =
      (if same_key E x y then (if False then Some (snd (table m' ! i)) else None) else map_get E m y)"
  proof (rule map_get_change [OF m ok, where f = "\<lambda>i. i"])
    show "\<exists>l. l \<noteq> i \<and> l = j" if "slot_at E m y j" "\<not> same_key E x y" for y j
    proof -
      have "j \<noteq> i"
      proof
        assume "j = i"
        then obtain a where "same_key E a y" "same_key E a x"
          using \<open>slot_at E m y j\<close> i by (auto simp: slot_at_def slot_matches_iff)
        then have "same_key E x y"
          using same_trans [OF same_sym] by blast
        with that show False by simp
      qed
      then show ?thesis by blast
    qed
    show "snd (table m' ! j) = snd (table m ! j)" if "j \<noteq> i" for j
      using that by (simp add: m')
  qed (rule at)
  then show ?thesis
    by simp
qed

lemma map_delete_at_ok:
  assumes m: "map_ok E m" "\<not> is_ordered m" and i: "slot_at E m x i"
  shows "map_ok E (map_delete_at i m)"
    and "map_get E (map_delete_at i m) y = (if same_key E x y then None else map_get E m y)"
    and "used m = used (map_delete_at i m) + 1"
    and "i < length (table (map_delete_at i m)) \<and> \<not> is_filled (keys (map_delete_at i m) ! i) \<and>
      map_get E m x = Some (snd (table (map_delete_at i m) ! i))"
proof -
  let ?m' = "map_delete_at i m"
  define k where "k = (if keys m ! ((i + 1) mod length (keys m)) = KNull then KNull else KSentinel :: 'o key)"
  have len: "i < length (table m)" and filled: "is_filled (keys m ! i)"
    using i by (auto simp: slot_at_def slot_matches_iff)
  have "(i + 1) mod length (table m) < length (table m)"
    using len by (intro mod_less_divisor) linarith
  then have m': "?m' = m\<lparr>used := used m - 1, table := (table m)[i := (k, snd (table m ! i))]\<rparr>"
    by (simp add: map_delete_at_def k_def)
  have keys': "keys ?m' = (keys m)[i := k]"
    by (simp add: m' keys_def map_update)
  have k: "\<not> is_filled k"
    by (simp add: k_def)
  have "tab_ok (op_hash E) (same_key E) (keys ?m')"
    unfolding keys' using m len filled by (intro tab_ok_delete) (auto simp: map_ok_def k_def)
  moreover have count: "filled_count (keys ?m') + 1 = filled_count (keys m)"
    using filled_count_update [of i "keys m" k] len filled k by (simp add: keys')
  moreover have "set (keys ?m') \<subseteq> insert k (set (keys m))"
    unfolding keys' by (rule set_update_subset_insert)
  ultimately show ok: "map_ok E ?m'"
    using m k by (auto simp: map_ok_def m')
  show "used m = used ?m' + 1"
    using count m by (simp add: m' map_ok_def)
  show "i < length (table ?m') \<and> \<not> is_filled (keys ?m' ! i) \<and> map_get E m x = Some (snd (table ?m' ! i))"
    using len k map_get_at [OF m(1) i] by (simp add: m')
  show "map_get E ?m' y = (if same_key E x y then None else map_get E m y)"
    by (rule map_get_unfill [OF m(1) ok i _ k]) (simp add: m')
qed

end

context obj_laws
begin

lemma map_search_ok:
  assumes m: "map_ok E m" "\<not> is_ordered m" "table m \<noteq> []"
    and ptrs: "only_ptrs \<Longrightarrow> (\<forall>a. Key a \<in> set (keys m) \<longrightarrow> op_is_qstr E a) \<and> (op_is_qstr E x \<or> \<not> op_is_str E x)"
    and room: "kind = ADD_IF_NOT_FOUND \<Longrightarrow> map_get E m x = None \<Longrightarrow> used m < length (table m)"
  obtains r m' c' where "map_search (Suc n) rehash E kind only_ptrs x m c = Some (r, m', c')"
    and "lookup_post E kind x m r m'" and "length (table m') = length (table m)"
    and "set (keys m') \<subseteq> {KNull, KSentinel, Key x} \<union> set (keys m)"
proof -
  have r: "probe (\<lambda>k. k = x \<or> \<not> only_ptrs \<and> op_equal E k x) (map fst (table m))
      (op_hash E x mod length (table m)) (op_hash E x mod length (table m)) None = search (keys m) x"
    unfolding keys_simps(1) unfolding keys_def [symmetric]
    by (rule probe_cong) (rule match_same [OF _ ptrs])
  have tab: "tab_ok (op_hash E) (same_key E) (keys m)"
    using m by (simp add: map_ok_def)
  show ?thesis
  proof (cases "map_get E m x")
    case (Some v)
    then obtain i where i: "slot_at E m x i"
      using map_get_None [of E m x] by auto
    then have hit: "search (keys m) x = Hit i"
      using search_hit_iff [OF tab, of x i] by (simp add: slot_at_def slot_matches_iff)
    have "lookup_post E kind x m (Some i) (if kind = REMOVE_IF_FOUND then map_delete_at i m else m)"
    proof (cases "kind = REMOVE_IF_FOUND")
      case True
      note del = map_delete_at_ok [OF m(1,2) i]
      have "is_fixed (map_delete_at i m) = is_fixed m" "is_ordered (map_delete_at i m) = is_ordered m"
        by (simp_all add: map_delete_at_def)
      then show ?thesis
        using del(1,3,4) Some by (simp add: lookup_post_def True del(2) del: keys_simps(2))
    next
      case False
      then show ?thesis
        using m(1) i Some by (cases kind) (simp_all add: lookup_post_def)
    qed
    moreover have "length (table (if kind = REMOVE_IF_FOUND then map_delete_at i m else m)) = length (table m)"
      by (simp add: map_delete_at_def)
    moreover have "set (keys (if kind = REMOVE_IF_FOUND then map_delete_at i m else m)) \<subseteq> {KNull, KSentinel, Key x} \<union> set (keys m)"
    proof -
      have del: "set (ks[i := k]) \<subseteq> {KNull, KSentinel, Key x} \<union> set ks" if "k \<in> {KNull, KSentinel}" for ks :: "'o key list" and k
        using set_update_subset_insert [of ks i k] that by blast
      have "set (keys (map_delete_at i m)) \<subseteq> {KNull, KSentinel, Key x} \<union> set (keys m)"
        unfolding keys_delete_at by (rule del) simp
      then show ?thesis
        by (cases "kind = REMOVE_IF_FOUND") auto
    qed
    moreover have "map_search (Suc n) rehash E kind only_ptrs x m c =
        Some (Some i, if kind = REMOVE_IF_FOUND then map_delete_at i m else m, map_cache_set E x i c)"
      unfolding map_search.simps(2) Let_def r hit by simp
    ultimately show ?thesis
      using that by blast
  next
    case None
    then have new: "\<forall>i < length (keys m). \<forall>a. keys m ! i = Key a \<longrightarrow> \<not> same_key E a x"
      using no_slot [OF None] unfolding keys_simps(1) by blast
    have ne: "keys m \<noteq> []"
      using m(3) by (simp add: keys_def)
    show ?thesis
    proof (cases rule: search_miss [OF tab ne new])
      case (1 q)
      note slot = this
      show ?thesis
      proof (cases "kind = ADD_IF_NOT_FOUND")
        case True
        have "map_search (Suc n) rehash E kind only_ptrs x m c = Some (Some q, map_add_at E x q m, c)"
          using slot True by (cases "search (keys m) x") (auto simp: map_search.simps(2) r Let_def)
        moreover have "lookup_post E kind x m (Some q) (map_add_at E x q m)"
        proof -
          have q: "q < length (table m)" "\<not> is_filled (keys m ! q)"
            using slot by simp_all
          have ok: "map_ok E (map_add_at E x q m)"
            using slot by (intro map_add_at_ok [OF m(1,2) q _ None]) simp
          from map_add_at_get [OF m(1) ok q None] ok show ?thesis
            using True None by (simp add: lookup_post_def) (simp add: map_add_at_def)
        qed
        moreover have "set (keys (map_add_at E x q m)) \<subseteq> {KNull, KSentinel, Key x} \<union> set (keys m)"
          using set_update_subset_insert [of "keys m" q "Key x"] unfolding keys_add_at by blast
        ultimately show ?thesis
          by (intro that) (auto simp: map_add_at_def)
      next
        case False
        have "map_search (Suc n) rehash E kind only_ptrs x m c = Some (None, m, c)"
          using slot False by (cases "search (keys m) x") (auto simp: map_search.simps(2) r Let_def)
        moreover have "lookup_post E kind x m None m"
          using False m(1) None map_get_same [of x _ m] by (cases kind) (auto simp: lookup_post_def)
        ultimately show ?thesis
          by (intro that) auto
      qed
    next
      case 2
      note full = this
      have "kind \<noteq> ADD_IF_NOT_FOUND"
        using room [OF _ None] full(2) m(1) by (auto simp: map_ok_def)
      then have "map_search (Suc n) rehash E kind only_ptrs x m c = Some (None, m, c)"
        using full by (simp add: map_search.simps(2) r Let_def)
      moreover have "lookup_post E kind x m None m"
        using \<open>kind \<noteq> ADD_IF_NOT_FOUND\<close> m(1) None map_get_same [of x _ m] by (cases kind) (auto simp: lookup_post_def)
      ultimately show ?thesis
        by (intro that) auto
    qed
  qed
qed

text \<open>A full table: the search for a new key gives up and rehashes.\<close>

lemma map_search_full:
  assumes m: "map_ok E m" "\<not> is_ordered m" "table m \<noteq> []"
    and ptrs: "only_ptrs \<Longrightarrow> (\<forall>a. Key a \<in> set (keys m) \<longrightarrow> op_is_qstr E a) \<and> (op_is_qstr E x \<or> \<not> op_is_str E x)"
    and full: "used m = length (table m)" and new: "map_get E m x = None"
  shows "map_search (Suc n) rehash E ADD_IF_NOT_FOUND only_ptrs x m c =
    do { (m, c) \<leftarrow> rehash m c; map_search n rehash E ADD_IF_NOT_FOUND only_ptrs x m c }"
proof -
  have r: "probe (\<lambda>k. k = x \<or> \<not> only_ptrs \<and> op_equal E k x) (map fst (table m))
      (op_hash E x mod length (table m)) (op_hash E x mod length (table m)) None = search (keys m) x"
    unfolding keys_simps(1) unfolding keys_def [symmetric]
    by (rule probe_cong) (rule match_same [OF _ ptrs])
  have tab: "tab_ok (op_hash E) (same_key E) (keys m)" and ne: "keys m \<noteq> []"
    using m by (simp_all add: map_ok_def keys_def)
  have fill: "is_filled (keys m ! q)" if "q < length (keys m)" for q
    using full m(1) that filled_count_all [of "keys m"] by (auto simp: map_ok_def)
  have "search (keys m) x = Wrapped None"
    by (cases rule: search_miss [OF tab ne, of x]) (use fill no_slot [OF new] in auto)
  then show ?thesis
    by (simp add: map_search.simps(2) r Let_def add_slot_def)
qed

text \<open>Ordered arrays.\<close>

lemma map_find_ordered_some:
  "map_find_ordered f es b = Some i \<longleftrightarrow> b \<le> i \<and> i < b + length es \<and>
     (\<exists>k. fst (es ! (i - b)) = Key k \<and> f k) \<and> (\<forall>j < i - b. \<forall>k. fst (es ! j) = Key k \<longrightarrow> \<not> f k)"
proof (induction es arbitrary: b)
  case (Cons e es)
  show ?case
  proof (cases "i \<le> b")
    case True
    then show ?thesis
      using Cons.IH [of "b + 1"] by (cases "fst e") (auto simp: le_Suc_eq)
  next
    case False
    then obtain d where "i - b = Suc d" and d: "i - Suc b = d"
      by (cases "i - b") auto
    then show ?thesis
      using Cons.IH [of "b + 1"] False by (cases "fst e") (auto simp: less_Suc_eq_0_disj)
  qed
qed auto

lemma map_find_ordered_none:
  "map_find_ordered f es b = None \<longleftrightarrow> (\<forall>j < length es. \<forall>k. fst (es ! j) = Key k \<longrightarrow> \<not> f k)"
proof (induction es arbitrary: b)
  case (Cons e es)
  then show ?case
    by (cases "fst e") (auto simp: less_Suc_eq_0_disj)
qed auto

lemma ordered_slot:
  assumes "map_ok E m" and "is_ordered m" and "slot_at E m x i"
  shows "i < used m" and "used m \<le> length (table m)"
proof -
  have "filled_count (keys m) \<le> length (keys m)"
    unfolding filled_count_def by (rule length_filter_le)
  then show "used m \<le> length (table m)"
    using assms(1) by (simp add: map_ok_def)
  show "i < used m"
    using assms by (auto simp: map_ok_def slot_at_def slot_matches_iff)
qed

lemma filled_prefix:
  assumes "\<And>i. i < length ks \<Longrightarrow> is_filled (ks ! i) \<longleftrightarrow> i < n" and "n \<le> length ks"
  shows "filled_count ks = n"
proof -
  have "filter is_filled (take n ks) = take n ks"
    using assms by (auto simp: filter_id_conv in_set_conv_nth)
  moreover have "filter is_filled (drop n ks) = []"
    using assms by (auto simp: filter_empty_conv in_set_conv_nth)
  ultimately have "filter is_filled (take n ks @ drop n ks) = take n ks"
    by (simp only: filter_append) simp
  then show ?thesis
    using assms(2) by (simp add: filled_count_def)
qed

lemma map_remove_ordered_nth:
  assumes "i < used m" and "used m \<le> length (table m)" and "j < length (table m)"
  shows "table (map_remove_ordered i m) ! j =
      (if j < i then table m ! j else if j < used m - 1 then table m ! (j + 1)
       else if j = used m - 1 then (KNull, snd (table m ! i)) else table m ! j)"
    and "length (table (map_remove_ordered i m)) = length (table m)"
  using assms by (auto simp: map_remove_ordered_def nth_append min_def nth_Cons')

lemma map_remove_ordered_ok:
  assumes m: "map_ok E m" "is_ordered m" and i: "slot_at E m x i"
  defines "m' \<equiv> map_remove_ordered i m"
  shows "map_ok E m'"
    and "map_get E m' y = (if same_key E x y then None else map_get E m y)"
    and "used m = used m' + 1" and "is_fixed m' = is_fixed m" and "is_ordered m' = is_ordered m"
    and "used m - 1 < length (table m')" and "\<not> is_filled (keys m' ! (used m - 1))"
    and "map_get E m x = Some (snd (table m' ! (used m - 1)))"
proof -
  note o = ordered_slot [OF m i]
  note nth = map_remove_ordered_nth(1) [OF o, folded m'_def]
  have len: "length (table m') = length (table m)"
    unfolding m'_def by (rule map_remove_ordered_nth(2) [OF o less_le_trans [OF o]])
  show fixed: "is_fixed m' = is_fixed m" and ord: "is_ordered m' = is_ordered m"
    by (simp_all add: m'_def map_remove_ordered_def)
  show u: "used m = used m' + 1"
    using o by (simp add: m'_def map_remove_ordered_def)
  have l: "used m - 1 < length (table m)" "\<not> used m - 1 < i"
    using o by linarith+
  then show "used m - 1 < length (table m')" and "\<not> is_filled (keys m' ! (used m - 1))"
    by (simp_all add: len nth)
  show "map_get E m x = Some (snd (table m' ! (used m - 1)))"
    using l map_get_at [OF m(1) i] by (simp add: nth)
  define f where "f j = (if j < i then j else j + 1)" for j
  have key: "keys m' ! j = (if j < used m - 1 then keys m ! f j else if j = used m - 1 then KNull else keys m ! j)"
    if "j < length (table m')" for j
    using that o by (auto simp: nth len f_def)
  have inj: "j < used m - 1 \<Longrightarrow> f j < used m \<and> f j \<noteq> i" for j
    by (auto simp: f_def)
  have fill: "is_filled (keys m ! j) \<longleftrightarrow> j < used m" if "j < length (table m)" for j
    using m that by (simp add: map_ok_def)
  have filled: "is_filled (keys m' ! j) \<longleftrightarrow> j < used m - 1" if "j < length (table m')" for j
    unfolding key [OF that] using fill [of j] fill [of "f j"] inj [of j] o that [unfolded len] by auto
  have d: "keys m ! f k = Key a \<Longrightarrow> keys m ! f l = Key b \<Longrightarrow> same_key E a b \<Longrightarrow> k < used m - 1 \<Longrightarrow> l < used m - 1 \<Longrightarrow> k = l" for k l a b
  proof -
    assume a: "keys m ! f k = Key a" "keys m ! f l = Key b" "same_key E a b" and l: "k < used m - 1" "l < used m - 1"
    have "f k < length (table m)" "f l < length (table m)"
      using inj [OF l(1)] inj [OF l(2)] o by linarith+
    then have "f k = f l"
      using a m unfolding map_ok_def by (simp only: if_True)
    then show "k = l"
      by (auto simp: f_def split: if_splits)
  qed
  have sub: "Key a \<in> set (keys m') \<Longrightarrow> Key a \<in> set (keys m)" for a
  proof -
    assume "Key a \<in> set (keys m')"
    then obtain j where j: "j < length (table m')" "keys m' ! j = Key a"
      by (auto simp: in_set_conv_nth)
    then have "j < used m - 1"
      using filled by (metis is_filled_simps(3))
    then have "keys m ! f j = Key a" "f j < length (keys m)"
      using j(2) inj [of j] o unfolding key [OF j(1)] keys_simps(1) by auto
    then show "Key a \<in> set (keys m)"
      by (metis nth_mem)
  qed
  show ok: "map_ok E m'"
    unfolding map_ok_def
  proof (intro conjI)
    show "used m' = filled_count (keys m')"
      using filled_prefix [of "keys m'" "used m - 1"] filled u o by (simp add: len)
    show "all_keys_are_qstrs m' \<longrightarrow> (\<forall>a. Key a \<in> set (keys m') \<longrightarrow> op_is_qstr E a)"
      using sub m by (auto simp: map_ok_def m'_def map_remove_ordered_def)
    have "\<forall>k < length (table m'). \<forall>l < length (table m'). \<forall>a b.
        keys m' ! k = Key a \<and> keys m' ! l = Key b \<and> same_key E a b \<longrightarrow> k = l"
    proof (intro allI impI)
      fix k l a b
      assume l: "k < length (table m')" "l < length (table m')"
        and h: "keys m' ! k = Key a \<and> keys m' ! l = Key b \<and> same_key E a b"
      then have "k < used m - 1" "l < used m - 1"
        using filled by (metis is_filled_simps(3))+
      then show "k = l"
        using d [of k a l b] h unfolding key [OF l(1)] key [OF l(2)] by (simp del: keys_simps(2))
    qed
    then show "if is_ordered m'
      then (\<forall>i < length (table m'). is_filled (keys m' ! i) \<longleftrightarrow> i < used m') \<and>
        (\<forall>i < length (table m'). \<forall>j < length (table m'). \<forall>a b.
           keys m' ! i = Key a \<and> keys m' ! j = Key b \<and> same_key E a b \<longrightarrow> i = j)
      else tab_ok (op_hash E) (same_key E) (keys m')"
      using filled u ord m(2) by simp
  qed
  have at: "slot_at E m' y j \<longleftrightarrow>
      (if j = used m - 1 then False \<and> same_key E x y else slot_at E m y (f j) \<and> \<not> same_key E x y)" for y j
  proof (cases "j < used m - 1")
    case True
    have "\<not> same_key E x y" if "slot_at E m y (f j)"
    proof
      assume "same_key E x y"
      then have "slot_at E m y i"
        using i by (auto simp: slot_at_def slot_matches_iff intro: same_trans)
      then show False
        using slot_unique [OF m(1) that] inj [OF True] by simp
    qed
    then show ?thesis
      using True o inj [OF True] by (auto simp: slot_at_def slot_matches_iff nth len f_def)
  next
    case False
    then have "\<not> slot_at E m' y j"
      using filled [of j] by (auto simp: slot_at_def slot_matches_iff)
    moreover have "\<not> slot_at E m y (f j)" if "j \<noteq> used m - 1"
      using False that ordered_slot(1) [OF m, of y "f j"] o by (auto simp: f_def)
    ultimately show ?thesis
      by simp
  qed
  have "map_get E m' y = (if same_key E x y then (if False then Some (snd (table m' ! (used m - 1))) else None) else map_get E m y)"
  proof (rule map_get_change [OF m(1) ok, where f = f])
    show "snd (table m' ! j) = snd (table m ! f j)" if "slot_at E m' y j" "j \<noteq> used m - 1" for y j
      using that filled [of j] o by (auto simp: slot_at_def slot_matches_iff nth len f_def)
    show "\<exists>k. k \<noteq> used m - 1 \<and> f k = j" if s: "slot_at E m y j" and ns: "\<not> same_key E x y" for y j
    proof -
      have "j \<noteq> i"
      proof
        assume "j = i"
        then obtain a where "same_key E a y" "same_key E a x"
          using s i by (auto simp: slot_at_def slot_matches_iff)
        then show False
          using same_trans [OF same_sym] ns by blast
      qed
      moreover have "j < used m"
        by (rule ordered_slot(1) [OF m s])
      ultimately show ?thesis
        using o by (intro exI [of _ "if j < i then j else j - 1"]) (auto simp: f_def)
    qed
  qed (rule at)
  then show "map_get E m' y = (if same_key E x y then None else map_get E m y)"
    by simp
qed

end

lemma map_get_append_null:
  fixes m :: "('o, 'v) mp_map"
  shows "map_get E (m\<lparr>table := table m @ replicate n null_slot\<rparr>) x = map_get E m x"
proof -
  have "List.find (slot_matches E x) (ss @ replicate n null_slot) = List.find (slot_matches E x) ss"
    for ss :: "('o, 'v) slot list"
  proof (induction ss)
    case Nil
    then show ?case
      by (induction n) (auto simp: slot_matches_def null_slot_def)
  qed auto
  then show ?thesis
    by (simp add: map_get_def)
qed

context obj_laws
begin

lemma map_ok_append_null:
  assumes "map_ok E m" and "is_ordered m" and "used m = length (table m)"
  shows "map_ok E (m\<lparr>table := table m @ replicate n null_slot\<rparr>)"
proof -
  let ?m' = "m\<lparr>table := table m @ replicate n null_slot\<rparr>"
  have k: "keys ?m' = keys m @ replicate n KNull"
    by (simp add: keys_def null_slot_def)
  have "(keys m @ replicate n KNull) ! i = (if i < length (table m) then keys m ! i else KNull)"
    if "i < length (table m) + n" for i
    using that by (simp add: nth_append)
  then show ?thesis
    using assms unfolding map_ok_def k by (auto simp: filled_count_def nth_append split: if_splits)
qed

lemma map_append_ordered_ok:
  assumes m: "map_ok E m" "is_ordered m" and new: "map_get E m x = None"
  defines "m' \<equiv> map_append_ordered E x m"
  shows "map_ok E m'" and "slot_at E m' x (used m)"
    and "map_get E m' y = (if same_key E x y then Some None else map_get E m y)"
    and "used m' = used m + 1" and "is_fixed m' = is_fixed m" and "is_ordered m' = is_ordered m"
proof -
  define m1 where "m1 = (if used m = length (table m) then m\<lparr>table := table m @ replicate 4 null_slot\<rparr> else m)"
  have m': "m' = map_add_at E x (used m1) m1"
    by (simp add: m'_def map_append_ordered_def m1_def Let_def)
  have le: "used m \<le> length (table m)"
    using m(1) length_filter_le [of is_filled "keys m"] by (simp add: map_ok_def filled_count_def)
  have m1: "map_ok E m1" "is_ordered m1" "used m1 = used m" "used m < length (table m1)" "is_fixed m1 = is_fixed m"
      "map_get E m1 = map_get E m"
    using m le map_ok_append_null [OF m, of 4] by (auto simp: m1_def map_get_append_null)
  have fill: "is_filled (keys m1 ! i) \<longleftrightarrow> i < used m" if "i < length (table m1)" for i
    using m1 that by (simp add: map_ok_def)
  have "\<not> is_filled (keys m1 ! used m)"
    using fill m1 by blast
  note q = m1(4) this
  have new1: "map_get E m1 x = None"
    using new m1 by simp
  have key: "keys m' ! i = (if i = used m then Key x else keys m1 ! i)" if "i < length (table m1)" for i
    using that unfolding m' keys_add_at m1(3) by (simp add: nth_list_update del: keys_simps(2))
  have len: "length (table m') = length (table m1)"
    by (simp add: m' map_add_at_def)
  show u: "used m' = used m + 1" "is_fixed m' = is_fixed m" "is_ordered m' = is_ordered m"
    using m1 m by (simp_all add: m' map_add_at_def)
  have fill': "is_filled (keys m' ! i) \<longleftrightarrow> i < used m + 1" if "i < length (table m1)" for i
    unfolding key [OF that] using fill [OF that] by auto
  have ok: "map_ok E m'"
    unfolding map_ok_def
  proof (intro conjI)
    show "used m' = filled_count (keys m')"
      using filled_prefix [of "keys m'" "used m + 1"] fill' u q len by simp
    have "set (keys m') \<subseteq> insert (Key x) (set (keys m1))"
      unfolding m' keys_add_at by (rule set_update_subset_insert)
    then show "all_keys_are_qstrs m' \<longrightarrow> (\<forall>a. Key a \<in> set (keys m') \<longrightarrow> op_is_qstr E a)"
      using m1(1) by (auto simp: map_ok_def m' map_add_at_def)
    have "\<forall>k < length (table m'). \<forall>l < length (table m'). \<forall>a b.
        keys m' ! k = Key a \<and> keys m' ! l = Key b \<and> same_key E a b \<longrightarrow> k = l"
    proof (intro allI impI)
      fix k l a b
      assume l: "k < length (table m')" "l < length (table m')"
        and h: "keys m' ! k = Key a \<and> keys m' ! l = Key b \<and> same_key E a b"
      have d: "keys m1 ! k = Key a \<Longrightarrow> keys m1 ! l = Key b \<Longrightarrow> k = l"
        using m1(1,2) l h unfolding map_ok_def len by (simp only: if_True) blast
      show "k = l"
        using h l d no_slot [OF new1, of k a] no_slot [OF new1, of l b] same_sym
        unfolding len by (auto simp: key simp del: keys_simps(2) split: if_splits)
    qed
    then show "if is_ordered m'
      then (\<forall>i < length (table m'). is_filled (keys m' ! i) \<longleftrightarrow> i < used m') \<and>
        (\<forall>i < length (table m'). \<forall>j < length (table m'). \<forall>a b.
           keys m' ! i = Key a \<and> keys m' ! j = Key b \<and> same_key E a b \<longrightarrow> i = j)
      else tab_ok (op_hash E) (same_key E) (keys m')"
      using fill' u m(2) by (simp add: len del: keys_simps(2))
  qed
  then show "map_ok E m'" .
  note get = map_add_at_get [OF m1(1) ok [unfolded m' m1(3)] q new1]
  show "slot_at E m' x (used m)"
    unfolding m' m1(3) by (rule get(2))
  show "map_get E m' y = (if same_key E x y then Some None else map_get E m y)"
    unfolding m' m1(3) by (simp only: get(1) m1(6))
qed

lemma mp_map_lookup_ordered_ok:
  assumes m: "map_ok E m" "is_ordered m"
    and ptrs: "only_ptrs \<Longrightarrow> (\<forall>a. Key a \<in> set (keys m) \<longrightarrow> op_is_qstr E a) \<and> (op_is_qstr E x \<or> \<not> op_is_str E x)"
  obtains r m' c' where "mp_map_lookup_ordered E kind only_ptrs x m c = (r, m', c')"
    and "lookup_post E kind x m r m'"
proof -
  define f where "f = (\<lambda>k. k = x \<or> \<not> only_ptrs \<and> op_equal E k x)"
  define es where "es = take (used m) (table m)"
  have le: "used m \<le> length (table m)"
    using m(1) length_filter_le [of is_filled "keys m"] by (simp add: map_ok_def filled_count_def)
  have f: "f k \<longleftrightarrow> same_key E k x" if "j < length (table m)" "fst (table m ! j) = Key k" for j k
  proof -
    have "Key k \<in> set (keys m)"
      using that by (metis keys_simps nth_mem)
    then show ?thesis
      unfolding f_def by (rule match_same [OF _ ptrs])
  qed
  have run: "mp_map_lookup_ordered E kind only_ptrs x m c =
     (case map_find_ordered f es 0 of
        Some i \<Rightarrow>
          (if kind = REMOVE_IF_FOUND
           then (Some (used m - 1), map_remove_ordered i m, map_cache_set E x (used m - 1) c)
           else (Some i, m, map_cache_set E x i c))
      | None \<Rightarrow>
          (if kind = ADD_IF_NOT_FOUND then (Some (used m), map_append_ordered E x m, c)
           else (None, m, c)))"
    by (simp add: mp_map_lookup_ordered_def f_def es_def)
  show ?thesis
  proof (cases "map_find_ordered f es 0")
    case None
    have none: "\<not> slot_at E m x i" for i
    proof
      assume s: "slot_at E m x i"
      then obtain k where "i < length (table m)" "fst (table m ! i) = Key k" "same_key E k x"
        by (auto simp: slot_at_def slot_matches_iff)
      then show False
        using None [unfolded map_find_ordered_none] ordered_slot(1) [OF m s] f by (auto simp: es_def)
    qed
    then have get: "map_get E m x = None"
      by (simp add: map_get_None)
    have "lookup_post E kind x m (if kind = ADD_IF_NOT_FOUND then Some (used m) else None)
        (if kind = ADD_IF_NOT_FOUND then map_append_ordered E x m else m)"
    proof (cases "kind = ADD_IF_NOT_FOUND")
      case True
      then show ?thesis
        using map_append_ordered_ok [OF m get] get by (simp add: lookup_post_def)
    next
      case False
      then show ?thesis
        using m(1) get map_get_same [of x _ m] by (cases kind) (auto simp: lookup_post_def)
    qed
    then show ?thesis
      using run None that by (cases "kind = ADD_IF_NOT_FOUND") auto
  next
    case (Some i)
    then obtain k where i: "i < used m" "i < length (table m)" "fst (table m ! i) = Key k" "f k"
      unfolding map_find_ordered_some using le by (auto simp: es_def)
    then have s: "slot_at E m x i"
      using f by (simp add: slot_at_def slot_matches_iff)
    have get: "map_get E m x = Some (snd (table m ! i))"
      by (rule map_get_at [OF m(1) s])
    have "lookup_post E kind x m (if kind = REMOVE_IF_FOUND then Some (used m - 1) else Some i)
        (if kind = REMOVE_IF_FOUND then map_remove_ordered i m else m)"
    proof (cases "kind = REMOVE_IF_FOUND")
      case True
      note rm = map_remove_ordered_ok [OF m s]
      show ?thesis
        using rm(1,3-8) True by (simp add: lookup_post_def rm(2) del: keys_simps(2))
    next
      case False
      then show ?thesis
        using m(1) get s by (cases kind) (simp_all add: lookup_post_def)
    qed
    then show ?thesis
      using run Some that by (cases "kind = REMOVE_IF_FOUND") auto
  qed
qed

text \<open>
  Rehashing. The argument is a lookup that adds a key when there is room for it; the old keys are
  added one by one to the new table.
\<close>

definition adds_with_room :: "('o \<Rightarrow> ('o, 'v) mp_map \<Rightarrow> cache \<Rightarrow> ('o, 'v) lookup_result) \<Rightarrow> bool" where
  "adds_with_room add \<longleftrightarrow>
     (\<forall>k m c. map_ok E m \<and> \<not> is_ordered m \<and> \<not> is_fixed m \<and> used m < length (table m) \<longrightarrow>
        (\<exists>r m' c'. add k m c = Some (r, m', c') \<and> lookup_post E ADD_IF_NOT_FOUND k m r m' \<and>
           length (table m') = length (table m) \<and> set (keys m') \<subseteq> {KNull, KSentinel, Key k} \<union> set (keys m)))"

lemma map_get_set_value:
  assumes "map_ok E m" and "slot_at E m x p"
  shows "map_get E (map_set_value p v m) y = (if same_key E x y then Some v else map_get E m y)"
proof -
  have ok: "map_ok E (map_set_value p v m)"
    using assms(1) by (simp add: map_ok_set_value)
  have at: "slot_at E (map_set_value p v m) y i \<longleftrightarrow>
      (if i = p then True \<and> same_key E x y else slot_at E m y i \<and> \<not> same_key E x y)" for y i
  proof (cases "i = p")
    case True
    then show ?thesis
      using assms(2) unfolding slot_at_set_value
      by (auto simp: slot_at_def slot_matches_iff intro: same_trans same_trans [OF same_sym])
  next
    case False
    have "\<not> same_key E x y" if "slot_at E m y i"
    proof
      assume "same_key E x y"
      then have "slot_at E m y p"
        using assms(2) by (auto simp: slot_at_def slot_matches_iff intro: same_trans)
      then show False
        using slot_unique [OF assms(1) that] False by simp
    qed
    then show ?thesis
      using False by (auto simp: slot_at_set_value)
  qed
  have "map_get E (map_set_value p v m) y =
      (if same_key E x y then (if True then Some (snd (table (map_set_value p v m) ! p)) else None) else map_get E m y)"
  proof (rule map_get_change [OF assms(1) ok, where f = "\<lambda>i. i"])
    show "snd (table (map_set_value p v m) ! i) = snd (table m ! i)" if "i \<noteq> p" for i
      using that by (simp add: map_set_value_def)
    show "\<exists>i. i \<noteq> p \<and> i = j" if s: "slot_at E m y j" and ns: "\<not> same_key E x y" for y j
    proof -
      have "j \<noteq> p"
      proof
        assume "j = p"
        then obtain a where "same_key E a y" "same_key E a x"
          using s assms(2) by (auto simp: slot_at_def slot_matches_iff)
        then show False
          using same_trans [OF same_sym] ns by blast
      qed
      then show ?thesis by blast
    qed
  qed (rule at)
  then show ?thesis
    using assms(2) by (simp add: map_set_value_def slot_at_def)
qed

definition slots_get :: "('o, 'v) slot list \<Rightarrow> 'o \<Rightarrow> 'v option option" where
  "slots_get es x = map_option snd (List.find (slot_matches E x) es)"

lemma map_rehash_elems_ok:
  assumes "adds_with_room add" and "map_ok E m" and "\<not> is_ordered m" and "\<not> is_fixed m"
    and "used m + filled_count (map fst es) \<le> length (table m)"
    and "\<forall>i < length es. \<forall>j < length es. \<forall>a b. fst (es ! i) = Key a \<and> fst (es ! j) = Key b \<and> same_key E a b \<longrightarrow> i = j"
    and "\<forall>e \<in> set es. \<forall>a. fst e = Key a \<longrightarrow> map_get E m a = None"
  obtains m' c' where "map_rehash_elems add es m c = Some (m', c')" and "map_ok E m'"
    and "\<forall>y. map_get E m' y = (case slots_get es y of Some v \<Rightarrow> Some v | None \<Rightarrow> map_get E m y)"
    and "used m' = used m + filled_count (map fst es)" and "length (table m') = length (table m)"
    and "is_ordered m' = is_ordered m" and "is_fixed m' = is_fixed m"
    and "set (keys m') \<subseteq> {KNull, KSentinel} \<union> fst ` set es \<union> set (keys m)"
  using assms(2-7)
proof (induction es arbitrary: m c thesis)
  case Nil
  show ?case
    by (rule Nil.prems(1) [of m c]) (use Nil.prems in \<open>auto simp: slots_get_def filled_count_def\<close>)
next
  case (Cons e es)
  note prems = Cons.prems(2-7)
  have tail: "\<forall>i < length es. \<forall>j < length es. \<forall>a b. fst (es ! i) = Key a \<and> fst (es ! j) = Key b \<and> same_key E a b \<longrightarrow> i = j"
    using prems(5) by (metis Suc_less_eq length_Cons nth_Cons_Suc nat.inject)
  show ?case
  proof (cases "is_filled (fst e)")
    case False
    have fc: "filled_count (map fst (e # es)) = filled_count (map fst es)"
      using False by (simp add: filled_count_def)
    have sg: "slots_get (e # es) y = slots_get es y" for y
      using False by (auto simp: slots_get_def slot_matches_iff)
    obtain m' c' where r: "map_rehash_elems add es m c = Some (m', c')" "map_ok E m'"
      "\<forall>y. map_get E m' y = (case slots_get es y of Some v \<Rightarrow> Some v | None \<Rightarrow> map_get E m y)"
      "used m' = used m + filled_count (map fst es)" "length (table m') = length (table m)"
      "is_ordered m' = is_ordered m" "is_fixed m' = is_fixed m"
      "set (keys m') \<subseteq> {KNull, KSentinel} \<union> fst ` set es \<union> set (keys m)"
      using Cons.IH [of m c] prems(1-4) tail prems(6) fc by auto
    have "map_rehash_elems add (e # es) m c = Some (m', c')"
      using r(1) False by (auto simp: is_filled_def split: key.splits)
    then show ?thesis
      using Cons.prems(1) [of m' c'] r fc sg by auto
  next
    case True
    then obtain k where k: "fst e = Key k"
      by (auto simp: is_filled_iff)
    have fc: "filled_count (map fst (e # es)) = Suc (filled_count (map fst es))"
      using True by (simp add: filled_count_def)
    have none: "map_get E m k = None"
      using prems(6) k by simp
    have room: "used m < length (table m)"
      using prems(4) fc by simp
    obtain r m1 c1 where add: "add k m c = Some (r, m1, c1)" and post: "lookup_post E ADD_IF_NOT_FOUND k m r m1"
      and len1: "length (table m1) = length (table m)" and set1: "set (keys m1) \<subseteq> {KNull, KSentinel, Key k} \<union> set (keys m)"
      using assms(1) prems(1-3) room unfolding adds_with_room_def by blast
    obtain p where p: "r = Some p" "slot_at E m1 k p"
      using post by (auto simp: lookup_post_def)
    define m2 where "m2 = map_set_value p (snd e) m1"
    have m1: "map_ok E m1" "used m1 = Suc (used m)" "is_ordered m1 = is_ordered m" "is_fixed m1 = is_fixed m"
      "\<And>y. map_get E m1 y = (if same_key E k y then Some None else map_get E m y)"
      using post none by (auto simp: lookup_post_def)
    have m2: "map_ok E m2" "used m2 = Suc (used m)" "is_ordered m2 = is_ordered m" "is_fixed m2 = is_fixed m"
      "length (table m2) = length (table m)" "keys m2 = keys m1"
      using m1 len1 by (simp_all add: m2_def map_ok_set_value)
    have get2: "map_get E m2 y = (if same_key E k y then Some (snd e) else map_get E m y)" for y
      using map_get_set_value [OF m1(1) p(2), of "snd e" y] m1(5) by (simp add: m2_def)
    have rest: "\<forall>e' \<in> set es. \<forall>a. fst e' = Key a \<longrightarrow> map_get E m2 a = None"
    proof (intro ballI allI impI)
      fix e' a assume e': "e' \<in> set es" "fst e' = Key a"
      then obtain j where j: "j < length es" "es ! j = e'"
        by (auto simp: in_set_conv_nth)
      have "\<not> same_key E k a"
        using prems(5) [rule_format, of 0 "Suc j" k a] j k e' by auto
      then show "map_get E m2 a = None"
        using prems(6) e' by (simp add: get2)
    qed
    have same_es: "slots_get es y = None" if "same_key E k y" for y
    proof -
      have "\<not> slot_matches E y e'" if e': "e' \<in> set es" for e'
      proof
        assume "slot_matches E y e'"
        then obtain a where a: "fst e' = Key a" "same_key E a y"
          by (auto simp: slot_matches_iff)
        then have "map_get E m2 a = None"
          using rest e' by blast
        moreover have "same_key E k a"
          using \<open>same_key E k y\<close> a(2) same_trans same_sym by blast
        ultimately show False
          by (simp add: get2)
      qed
      then show ?thesis
        by (auto simp: slots_get_def find_None_iff simp del: split_paired_All split_paired_Ex)
    qed
    obtain m' c' where r: "map_rehash_elems add es m2 c1 = Some (m', c')" "map_ok E m'"
      "\<forall>y. map_get E m' y = (case slots_get es y of Some v \<Rightarrow> Some v | None \<Rightarrow> map_get E m2 y)"
      "used m' = used m2 + filled_count (map fst es)" "length (table m') = length (table m2)"
      "is_ordered m' = is_ordered m2" "is_fixed m' = is_fixed m2"
      "set (keys m') \<subseteq> {KNull, KSentinel} \<union> fst ` set es \<union> set (keys m2)"
      using Cons.IH [of m2 c1] m2 prems(2-4) fc tail rest by auto
    have "map_rehash_elems add (e # es) m c = Some (m', c')"
      using r(1) by (simp add: k add p(1) flip: m2_def)
    moreover have "map_get E m' y = (case slots_get (e # es) y of Some v \<Rightarrow> Some v | None \<Rightarrow> map_get E m y)" for y
    proof -
      have "slots_get (e # es) y = (if same_key E k y then Some (snd e) else slots_get es y)"
        using k by (simp add: slots_get_def slot_matches_def)
      then show ?thesis
        using r(3) same_es [of y] get2 [of y] by (auto split: option.splits)
    qed
    moreover have "set (keys m') \<subseteq> {KNull, KSentinel} \<union> fst ` set (e # es) \<union> set (keys m)"
      using r(8) set1 k by (auto simp: m2(6))
    ultimately show ?thesis
      using Cons.prems(1) [of m' c'] r(2,4-7) m2 fc by simp
  qed
qed

end

context obj_laws
begin

lemma mp_map_rehash_ok:
  assumes "adds_with_room add" and m: "map_ok E m" "\<not> is_ordered m" "\<not> is_fixed m"
  obtains m' c' where "mp_map_rehash add m c = Some (m', c')" and "map_ok E m'"
    and "map_get E m' = map_get E m" and "used m' = used m" and "length (table m) < length (table m')"
    and "\<not> is_ordered m'" and "\<not> is_fixed m'" and "set (keys m') \<subseteq> {KNull, KSentinel} \<union> set (keys m)"
proof -
  define n where "n = get_hash_alloc_greater_or_equal_to (length (table m) + 1)"
  define m0 where "m0 = m\<lparr>used := 0, all_keys_are_qstrs := True, table := replicate n (null_slot :: ('o, 'a) slot)\<rparr>"
  have n: "length (table m) < n"
    using hash_alloc_ge [of "length (table m) + 1"] by (simp add: n_def)
  have k0: "keys m0 = replicate n KNull"
    by (simp add: keys_def m0_def null_slot_def)
  have m0: "map_ok E m0" "\<not> is_ordered m0" "\<not> is_fixed m0" "used m0 = 0" "length (table m0) = n"
    using m tab_ok_empty by (auto simp: map_ok_def k0) (auto simp: m0_def filled_count_def)
  have get0: "map_get E m0 y = None" for y
    by (auto simp: map_get_None slot_at_def slot_matches_iff m0_def null_slot_def)
  have used: "used m = filled_count (map fst (table m))"
    using m(1) by (simp add: map_ok_def keys_def)
  have le: "filled_count (map fst (table m)) \<le> length (table m)"
    using length_filter_le [of is_filled "map fst (table m)"] by (simp add: filled_count_def)
  have dist: "\<forall>i < length (table m). \<forall>j < length (table m). \<forall>a b.
      fst (table m ! i) = Key a \<and> fst (table m ! j) = Key b \<and> same_key E a b \<longrightarrow> i = j"
    using m unfolding map_ok_def tab_ok_def by simp
  obtain m' c' where r: "map_rehash_elems add (table m) m0 c = Some (m', c')" "map_ok E m'"
      "\<forall>y. map_get E m' y = (case slots_get (table m) y of Some v \<Rightarrow> Some v | None \<Rightarrow> map_get E m0 y)"
      "used m' = used m0 + filled_count (map fst (table m))" "length (table m') = length (table m0)"
      "is_ordered m' = is_ordered m0" "is_fixed m' = is_fixed m0"
      "set (keys m') \<subseteq> {KNull, KSentinel} \<union> fst ` set (table m) \<union> set (keys m0)"
  proof (rule map_rehash_elems_ok [OF assms(1) m0(1-3) _ dist])
    show "used m0 + filled_count (map fst (table m)) \<le> length (table m0)"
      using le n m0(4,5) by simp
    show "\<forall>e \<in> set (table m). \<forall>a. fst e = Key a \<longrightarrow> map_get E m0 a = None"
      by (simp add: get0)
  qed
  show ?thesis
  proof (rule that)
    show "mp_map_rehash add m c = Some (m', c')"
      using r(1) by (simp add: mp_map_rehash_def m0_def n_def)
    have "slots_get (table m) y = map_get E m y" for y
      by (simp add: slots_get_def map_get_def)
    then show "map_get E m' = map_get E m"
      using r(3) get0 by (intro ext) (simp split: option.splits)
    have "set (keys m0) \<subseteq> {KNull}"
      by (auto simp: k0)
    then show "set (keys m') \<subseteq> {KNull, KSentinel} \<union> set (keys m)"
      using r(8) unfolding keys_def set_map by blast
  qed (use r m0 n used in auto)
qed

lemma lookup_post_cong:
  assumes "map_get E m1 = map_get E m" and "used m1 = used m" and "is_fixed m1 = is_fixed m"
    and "is_ordered m1 = is_ordered m" and "lookup_post E ADD_IF_NOT_FOUND x m1 r m'"
  shows "lookup_post E ADD_IF_NOT_FOUND x m r m'"
  using assms(5) unfolding lookup_post_def assms(1-4) by simp

lemma used_le: "map_ok E m \<Longrightarrow> used m \<le> length (table m)"
  using length_filter_le [of is_filled "keys m"] by (simp add: map_ok_def filled_count_def)

lemma lookup_cache_hit:
  assumes m: "map_ok E m" and "kind \<noteq> REMOVE_IF_FOUND" and "table m \<noteq> []"
    and "fst (table m ! map_cache_get E m c x) = Key x"
  shows "lookup_post E kind x m (Some (map_cache_get E m c x)) m"
proof -
  have "map_cache_get E m c x < length (table m)"
    using assms(3) by (simp add: map_cache_get_def)
  then have s: "slot_at E m x (map_cache_get E m c x)"
    using assms(4) by (simp add: slot_at_def slot_matches_def same_refl)
  then show ?thesis
    using assms(2) m map_get_at [OF m s] by (cases kind) (auto simp: lookup_post_def)
qed

lemma lookup_f_adds_with_room: "adds_with_room (mp_map_lookup_f (Suc n) E ADD_IF_NOT_FOUND)"
  unfolding adds_with_room_def
proof (intro allI impI)
  fix x c and m :: "('o, 'a) mp_map"
  assume a: "map_ok E m \<and> \<not> is_ordered m \<and> \<not> is_fixed m \<and> used m < length (table m)"
  then have m: "map_ok E m" "\<not> is_ordered m" "table m \<noteq> []" and room: "used m < length (table m)"
    by auto
  define only_ptrs where "only_ptrs \<longleftrightarrow> all_keys_are_qstrs m \<and> (op_is_qstr E x \<or> \<not> op_is_str E x)"
  have ptrs: "(\<forall>a. Key a \<in> set (keys m) \<longrightarrow> op_is_qstr E a) \<and> (op_is_qstr E x \<or> \<not> op_is_str E x)" if only_ptrs
    using that m(1) by (simp add: only_ptrs_def map_ok_def)
  show "\<exists>r m' c'. mp_map_lookup_f (Suc n) E ADD_IF_NOT_FOUND x m c = Some (r, m', c') \<and>
      lookup_post E ADD_IF_NOT_FOUND x m r m' \<and> length (table m') = length (table m) \<and>
      set (keys m') \<subseteq> {KNull, KSentinel, Key x} \<union> set (keys m)"
  proof (cases "fst (table m ! map_cache_get E m c x) = Key x")
    case True
    then show ?thesis
      using a m lookup_cache_hit [OF m(1) _ m(3) True] by (simp add: mp_map_lookup_f.simps(2)) blast
  next
    case False
    obtain r m' c' where r: "map_search (Suc 1) (mp_map_rehash (mp_map_lookup_f n E ADD_IF_NOT_FOUND)) E
        ADD_IF_NOT_FOUND only_ptrs x m c = Some (r, m', c')"
      and post: "lookup_post E ADD_IF_NOT_FOUND x m r m'" "length (table m') = length (table m)"
        "set (keys m') \<subseteq> {KNull, KSentinel, Key x} \<union> set (keys m)"
      by (rule map_search_ok [OF m ptrs room])
    have "mp_map_lookup_f (Suc n) E ADD_IF_NOT_FOUND x m c = Some (r, m', c')"
      using a m(3) False r by (simp add: mp_map_lookup_f.simps(2) only_ptrs_def numeral_2_eq_2)
    with post show ?thesis by blast
  qed
qed

lemma mp_map_lookup_total:
  assumes m: "map_ok E m" and fixed: "is_fixed m \<Longrightarrow> kind = LOOKUP"
  obtains r m' c' where "mp_map_lookup E kind x m c = Some (r, m', c')" and "lookup_post E kind x m r m'"
proof -
  define only_ptrs where "only_ptrs \<longleftrightarrow> all_keys_are_qstrs m \<and> (op_is_qstr E x \<or> \<not> op_is_str E x)"
  have ptrs: "(\<forall>a. Key a \<in> set (keys m) \<longrightarrow> op_is_qstr E a) \<and> (op_is_qstr E x \<or> \<not> op_is_str E x)" if only_ptrs
    using that m by (simp add: only_ptrs_def map_ok_def)
  define rehash where "rehash = mp_map_rehash (mp_map_lookup_f (Suc 0) E ADD_IF_NOT_FOUND :: 'o \<Rightarrow> ('o, 'a) mp_map \<Rightarrow> cache \<Rightarrow> _)"
  have run: "mp_map_lookup E kind x m c =
     (if is_fixed m \<and> kind \<noteq> LOOKUP then None
      else if kind \<noteq> REMOVE_IF_FOUND \<and> table m \<noteq> [] \<and> fst (table m ! map_cache_get E m c x) = Key x
      then Some (Some (map_cache_get E m c x), m, c)
      else if all_keys_are_qstrs m \<and> \<not> op_is_qstr E x \<and> \<not> op_is_str E x \<and> kind \<noteq> ADD_IF_NOT_FOUND
      then Some (None, m, c)
      else if is_ordered m then Some (mp_map_lookup_ordered E kind only_ptrs x m c)
      else if table m = []
           then if kind = ADD_IF_NOT_FOUND
                then do { (m, c) \<leftarrow> rehash m c; map_search 2 rehash E kind only_ptrs x m c }
                else Some (None, m, c)
           else map_search 2 rehash E kind only_ptrs x m c)"
    unfolding mp_map_lookup_def numeral_2_eq_2 mp_map_lookup_f.simps(2) Let_def only_ptrs_def rehash_def ..
  have nf: "\<not> (is_fixed m \<and> kind \<noteq> LOOKUP)"
    using fixed by auto
  have absent: "lookup_post E kind x m None m" if "map_get E m x = None" and "kind \<noteq> ADD_IF_NOT_FOUND"
    using that m map_get_same [of x _ m] by (cases kind) (auto simp: lookup_post_def)
  show ?thesis
  proof (cases "kind \<noteq> REMOVE_IF_FOUND \<and> table m \<noteq> [] \<and> fst (table m ! map_cache_get E m c x) = Key x")
    case True
    moreover have "mp_map_lookup E kind x m c = Some (Some (map_cache_get E m c x), m, c)"
      unfolding run if_not_P [OF nf] if_P [OF True] ..
    ultimately show ?thesis
      using that lookup_cache_hit [OF m] by blast
  next
    case hit: False
    show ?thesis
    proof (cases "all_keys_are_qstrs m \<and> \<not> op_is_qstr E x \<and> \<not> op_is_str E x \<and> kind \<noteq> ADD_IF_NOT_FOUND")
      case True
      have "\<not> slot_at E m x i" for i
      proof
        assume "slot_at E m x i"
        then obtain a where "i < length (keys m)" "keys m ! i = Key a" "same_key E a x"
          by (auto simp: slot_at_def slot_matches_iff)
        then show False
          using True m qstr_str nth_mem [of i "keys m"] unfolding map_ok_def by metis
      qed
      then have "map_get E m x = None"
        by (simp add: map_get_None)
      moreover have "mp_map_lookup E kind x m c = Some (None, m, c)"
        unfolding run if_not_P [OF nf] if_not_P [OF hit] if_P [OF True] ..
      ultimately show ?thesis
        using True absent that by blast
    next
      case slow: False
      have run2: "mp_map_lookup E kind x m c =
        (if is_ordered m then Some (mp_map_lookup_ordered E kind only_ptrs x m c)
         else if table m = []
           then if kind = ADD_IF_NOT_FOUND
                then do { (m, c) \<leftarrow> rehash m c; map_search 2 rehash E kind only_ptrs x m c }
                else Some (None, m, c)
           else map_search 2 rehash E kind only_ptrs x m c)"
        unfolding run if_not_P [OF nf] if_not_P [OF hit] if_not_P [OF slow] ..
      show ?thesis
      proof (cases "is_ordered m")
        case True
        then show ?thesis
          using run2 mp_map_lookup_ordered_ok [where kind = kind and c = c, OF m True ptrs] that by (metis (full_types))
      next
        case unord: False
        have rehash: "kind = ADD_IF_NOT_FOUND \<Longrightarrow> \<exists>m1 c1 r m' c'. rehash m c = Some (m1, c1) \<and>
          map_search (Suc k) rehash E kind only_ptrs x m1 c1 = Some (r, m', c') \<and> lookup_post E kind x m r m'" for k
        proof -
          assume add: "kind = ADD_IF_NOT_FOUND"
          then have "\<not> is_fixed m"
            using fixed by auto
          obtain m1 c1 where r: "rehash m c = Some (m1, c1)" "map_ok E m1" "map_get E m1 = map_get E m"
            "used m1 = used m" "length (table m) < length (table m1)" "\<not> is_ordered m1" "\<not> is_fixed m1"
            "set (keys m1) \<subseteq> {KNull, KSentinel} \<union> set (keys m)"
            unfolding rehash_def by (rule mp_map_rehash_ok [OF lookup_f_adds_with_room m unord \<open>\<not> is_fixed m\<close>])
          have ptrs1: "(\<forall>a. Key a \<in> set (keys m1) \<longrightarrow> op_is_qstr E a) \<and> (op_is_qstr E x \<or> \<not> op_is_str E x)" if only_ptrs
            using ptrs [OF that] r(8) by blast
          have room: "used m1 < length (table m1)"
            using r(4,5) used_le [OF m] by simp
          then have ne: "table m1 \<noteq> []"
            by auto
          obtain r' m' c' where "map_search (Suc k) rehash E kind only_ptrs x m1 c1 = Some (r', m', c')"
            and "lookup_post E kind x m1 r' m'"
            by (rule map_search_ok [where kind = kind and n = k and rehash = rehash and c = c1, OF r(2,6) ne ptrs1 room])
          then show ?thesis
            using r lookup_post_cong [OF r(3,4)] unord \<open>\<not> is_fixed m\<close> add by blast
        qed
        show ?thesis
        proof (cases "table m = []")
          case True
          then have "map_get E m x = None"
            by (simp add: map_get_def)
          then show ?thesis
            using run2 unord True absent rehash [of 1] that by (cases "kind = ADD_IF_NOT_FOUND") (auto simp: numeral_2_eq_2)
        next
          case ne: False
          show ?thesis
          proof (cases "kind = ADD_IF_NOT_FOUND \<and> map_get E m x = None \<and> used m = length (table m)")
            case True
            have "map_search 2 rehash E kind only_ptrs x m c =
              do { (m, c) \<leftarrow> rehash m c; map_search 1 rehash E kind only_ptrs x m c }"
              using map_search_full [where n = "Suc 0" and rehash = rehash and c = c, OF m unord ne ptrs] True by (simp add: numeral_2_eq_2)
            then show ?thesis
              using run2 unord ne rehash [of 0] True that by auto
          next
            case False
            have room: "used m < length (table m)" if "kind = ADD_IF_NOT_FOUND" "map_get E m x = None"
              using False that used_le [OF m] by simp
            obtain r m' c' where "map_search (Suc 1) rehash E kind only_ptrs x m c = Some (r, m', c')"
              and "lookup_post E kind x m r m'"
              by (rule map_search_ok [where kind = kind and n = 1 and rehash = rehash and c = c, OF m unord ne ptrs room])
            then show ?thesis
              using run2 unord ne that by (simp add: numeral_2_eq_2)
          qed
        qed
      qed
    qed
  qed
qed

end

end
