(* ===== verification/Mp_Dict.thy ===== *)
theory Mp_Dict
  imports Mp_Map_Correct
begin

text \<open>
  The dict operations of \<^verbatim>\<open>py/objdict.c\<close> over theory Mp_Map. A dict state is the map with the
  shared lookup cache; an operation that raises returns \<open>Inl\<close> of the exception, and
  \<^term>\<open>None\<close> is a failed assertion, which the lemmas exclude.
\<close>

type_synonym ('o, 'v) dict = "('o, 'v) mp_map \<times> cache"
type_synonym ('o, 'v, 'r) dict_result = "((mp_error + 'r) \<times> ('o, 'v) dict) option"

section \<open>Operations\<close>

fun find_filled :: "('o, 'v) slot list \<Rightarrow> nat \<Rightarrow> nat option" where
  "find_filled [] i = None"
| "find_filled (e # es) i = (if is_filled (fst e) then Some i else find_filled es (i + 1))"

definition dict_iter_next :: "('o, 'v) mp_map \<Rightarrow> nat \<Rightarrow> nat option \<times> nat" where
  "dict_iter_next m cur =
     (case find_filled (drop cur (table m)) cur of
        Some i \<Rightarrow> (Some i, i + 1)
      | None \<Rightarrow> (None, cur))"

definition mp_obj_new_dict :: "nat \<Rightarrow> bool \<Rightarrow> ('o, 'v) mp_map" where
  "mp_obj_new_dict n ordered = (mp_map_init n)\<lparr>is_ordered := ordered\<rparr>"

definition mp_obj_dict_len :: "('o, 'v) dict \<Rightarrow> nat" where
  "mp_obj_dict_len d = used (fst d)"

text \<open>\<^verbatim>\<open>mp_map_lookup(map, key, MP_MAP_LOOKUP_ADD_IF_NOT_FOUND)->value = value\<close>\<close>

definition map_store :: "'o obj_ops \<Rightarrow> 'o \<Rightarrow> 'v \<Rightarrow> ('o, 'v) dict \<Rightarrow> ('o, 'v) dict option" where
  "map_store E k v d =
     (case mp_map_lookup E ADD_IF_NOT_FOUND k (fst d) (snd d) of
        Some (Some p, m, c) \<Rightarrow> Some (map_set_value p (Some v) m, c)
      | _ \<Rightarrow> None)"

definition mp_obj_dict_store :: "'o obj_ops \<Rightarrow> 'o \<Rightarrow> 'v \<Rightarrow> ('o, 'v) dict \<Rightarrow> ('o, 'v, unit) dict_result" where
  "mp_obj_dict_store E k v d =
     (if is_fixed (fst d) then Some (Inl TypeError, d)
      else do { d \<leftarrow> map_store E k v d; Some (Inr (), d) })"

definition mp_obj_dict_get :: "'o obj_ops \<Rightarrow> 'o \<Rightarrow> ('o, 'v) dict \<Rightarrow> ('o, 'v, 'v option) dict_result" where
  "mp_obj_dict_get E k d =
     do { (r, m, c) \<leftarrow> mp_map_lookup E LOOKUP k (fst d) (snd d);
          Some (case r of None \<Rightarrow> Inl KeyError | Some p \<Rightarrow> Inr (snd (table m ! p)), m, c) }"

definition dict_contains :: "'o obj_ops \<Rightarrow> 'o \<Rightarrow> ('o, 'v) dict \<Rightarrow> (bool \<times> ('o, 'v) dict) option" where
  "dict_contains E k d =
     do { (r, m, c) \<leftarrow> mp_map_lookup E LOOKUP k (fst d) (snd d); Some (r \<noteq> None, m, c) }"

text \<open>
  \<^verbatim>\<open>dict_get_helper\<close>: \<open>dflt\<close> is the third argument when there is one, \<open>none\<close> is
  \<^verbatim>\<open>mp_const_none\<close>.
\<close>

definition dict_get_helper ::
    "'o obj_ops \<Rightarrow> lookup_kind \<Rightarrow> 'v \<Rightarrow> 'o \<Rightarrow> 'v option \<Rightarrow> ('o, 'v) dict \<Rightarrow> ('o, 'v, 'v) dict_result" where
  "dict_get_helper E kind none k dflt d =
     (if kind \<noteq> LOOKUP \<and> is_fixed (fst d) then Some (Inl TypeError, d)
      else do { (r, m, c) \<leftarrow> mp_map_lookup E kind k (fst d) (snd d);
        case (case r of None \<Rightarrow> None | Some p \<Rightarrow> snd (table m ! p)) of
          None \<Rightarrow>
            (if dflt = None \<and> kind = REMOVE_IF_FOUND then Some (Inl KeyError, m, c)
             else let value = (case dflt of None \<Rightarrow> none | Some v \<Rightarrow> v)
               in if kind = ADD_IF_NOT_FOUND
                  then case r of None \<Rightarrow> None | Some p \<Rightarrow> Some (Inr value, map_set_value p (Some value) m, c)
                  else Some (Inr value, m, c))
        | Some value \<Rightarrow>
            Some (Inr value, if kind = REMOVE_IF_FOUND then map_set_value (the r) None m else m, c) })"

definition dict_get where "dict_get E = dict_get_helper E LOOKUP"
definition dict_pop where "dict_pop E = dict_get_helper E REMOVE_IF_FOUND"
definition dict_setdefault where "dict_setdefault E = dict_get_helper E ADD_IF_NOT_FOUND"

definition mp_obj_dict_delete :: "'o obj_ops \<Rightarrow> 'v \<Rightarrow> 'o \<Rightarrow> ('o, 'v) dict \<Rightarrow> ('o, 'v, 'v) dict_result" where
  "mp_obj_dict_delete E none k d = dict_get_helper E REMOVE_IF_FOUND none k None d"

datatype 'v subscr_op = Delete | Load | Store 'v

definition dict_subscr :: "'o obj_ops \<Rightarrow> 'v \<Rightarrow> 'o \<Rightarrow> 'v subscr_op \<Rightarrow> ('o, 'v) dict \<Rightarrow> ('o, 'v, 'v option) dict_result" where
  "dict_subscr E none k value d =
     (case value of
        Delete \<Rightarrow> do { (r, d) \<leftarrow> mp_obj_dict_delete E none k d;
                      Some (case r of Inl e \<Rightarrow> Inl e | Inr _ \<Rightarrow> Inr (Some none), d) }
      | Load \<Rightarrow> mp_obj_dict_get E k d
      | Store v \<Rightarrow> do { (r, d) \<leftarrow> mp_obj_dict_store E k v d;
                       Some (case r of Inl e \<Rightarrow> Inl e | Inr _ \<Rightarrow> Inr (Some none), d) })"

definition dict_clear :: "('o, 'v) dict \<Rightarrow> (mp_error + unit) \<times> ('o, 'v) dict" where
  "dict_clear d = (if is_fixed (fst d) then (Inl TypeError, d) else (Inr (), mp_map_clear (fst d), snd d))"

definition mp_obj_dict_copy :: "('o, 'v) mp_map \<Rightarrow> ('o, 'v) mp_map" where
  "mp_obj_dict_copy m =
     (mp_map_init (length (table m)))\<lparr>used := used m, all_keys_are_qstrs := all_keys_are_qstrs m, is_fixed := False,
        is_ordered := is_ordered m, table := table m\<rparr>"

definition dict_popitem :: "('o, 'v) dict \<Rightarrow> ('o, 'v, 'o key \<times> 'v option) dict_result" where
  "dict_popitem d =
     (let m = fst d
      in if is_fixed m then Some (Inl TypeError, d)
         else if used m = 0 then Some (Inl KeyError, d)
         else case fst (dict_iter_next m (if is_ordered m then used m - 1 else 0)) of
                None \<Rightarrow> None
              | Some i \<Rightarrow> Some (Inr (table m ! i), m\<lparr>used := used m - 1, table := (table m)[i := (KSentinel, None)]\<rparr>, snd d))"

text \<open>The loops of \<^verbatim>\<open>dict_fromkeys\<close> and \<^verbatim>\<open>dict_update\<close> store one pair after the other.\<close>

fun put_all :: "('o \<Rightarrow> 'v \<Rightarrow> 'm \<Rightarrow> 'm option) \<Rightarrow> ('o \<times> 'v) list \<Rightarrow> 'm \<Rightarrow> 'm option" where
  "put_all put [] m = Some m"
| "put_all put ((k, v) # kvs) m = do { m \<leftarrow> put k v m; put_all put kvs m }"

definition dict_fromkeys :: "'o obj_ops \<Rightarrow> nat option \<Rightarrow> 'o list \<Rightarrow> 'v \<Rightarrow> cache \<Rightarrow> ('o, 'v) dict option" where
  "dict_fromkeys E len ks value c =
     put_all (map_store E) (map (\<lambda>k. (k, value)) ks) (mp_obj_new_dict (case len of None \<Rightarrow> 0 | Some n \<Rightarrow> n) False, c)"

text \<open>The slots that an iteration with \<^verbatim>\<open>dict_iter_next\<close> or over the filled slots passes.\<close>

definition dict_items :: "('o, 'v) mp_map \<Rightarrow> ('o \<times> 'v) list" where
  "dict_items m = List.map_filter (\<lambda>e. case e of (Key a, Some v) \<Rightarrow> Some (a, v) | _ \<Rightarrow> None) (table m)"

text \<open>
  An argument of \<^verbatim>\<open>dict_update\<close>: nothing, the dict itself, another dict, or an iterable whose
  elements are iterables again.
\<close>

datatype ('o, 'v) update_arg = No_arg | Itself | Other_dict "('o, 'v) mp_map" | Pairs "'o list list"

fun dict_update_pairs ::
    "'o obj_ops \<Rightarrow> 'o list list \<Rightarrow> ('o, 'o) dict \<Rightarrow> ('o, 'o, unit) dict_result" where
  "dict_update_pairs E [] d = Some (Inr (), d)"
| "dict_update_pairs E (p # ps) d =
     (case p of
        [k, v] \<Rightarrow> do { d \<leftarrow> map_store E k v d; dict_update_pairs E ps d }
      | _ \<Rightarrow> Some (Inl ValueError, d))"

definition dict_update ::
    "'o obj_ops \<Rightarrow> ('o, 'o) update_arg \<Rightarrow> ('o \<times> 'o) list \<Rightarrow> ('o, 'o) dict \<Rightarrow> ('o, 'o, unit) dict_result" where
  "dict_update E arg kwargs d =
     (if is_fixed (fst d) then Some (Inl TypeError, d)
      else do { (r, d) \<leftarrow> (case arg of
                  No_arg \<Rightarrow> Some (Inr (), d)
                | Itself \<Rightarrow> Some (Inr (), d)
                | Other_dict m \<Rightarrow> do { d \<leftarrow> put_all (map_store E) (dict_items m) d; Some (Inr (), d) }
                | Pairs ps \<Rightarrow> dict_update_pairs E ps d);
                case r of
                  Inl e \<Rightarrow> Some (Inl e, d)
                | Inr _ \<Rightarrow> do { d \<leftarrow> put_all (map_store E) kwargs d; Some (Inr (), d) } })"

definition mp_obj_dict_make_new ::
    "'o obj_ops \<Rightarrow> bool \<Rightarrow> ('o, 'o) update_arg \<Rightarrow> ('o \<times> 'o) list \<Rightarrow> cache \<Rightarrow> ('o, 'o, unit) dict_result" where
  "mp_obj_dict_make_new E ordereddict arg kwargs c =
     (let d = (mp_obj_new_dict 0 ordereddict, c)
      in if arg \<noteq> No_arg \<or> kwargs \<noteq> [] then dict_update E arg kwargs d else Some (Inr (), d))"

text \<open>
  The comparison of \<^verbatim>\<open>dict_binary_op\<close>: two ordered dicts in step, otherwise a lookup of each
  key of the left dict in the right one. \<open>eqv\<close> is \<^verbatim>\<open>mp_obj_equal\<close> on the values.
\<close>

fun dict_equal_ordered :: "'o obj_ops \<Rightarrow> ('v \<Rightarrow> 'v \<Rightarrow> bool) \<Rightarrow> ('o \<times> 'v) list \<Rightarrow> ('o \<times> 'v) list \<Rightarrow> bool" where
  "dict_equal_ordered E eqv ((k, v) # xs) ((l, w) # ys) =
     (same_key E k l \<and> eqv v w \<and> dict_equal_ordered E eqv xs ys)"
| "dict_equal_ordered E eqv xs ys \<longleftrightarrow> xs = [] \<and> ys = []"

fun dict_equal_loop ::
    "'o obj_ops \<Rightarrow> ('v \<Rightarrow> 'v \<Rightarrow> bool) \<Rightarrow> ('o \<times> 'v) list \<Rightarrow> ('o, 'v) dict \<Rightarrow> (bool \<times> ('o, 'v) dict) option" where
  "dict_equal_loop E eqv [] d = Some (True, d)"
| "dict_equal_loop E eqv ((k, v) # es) d =
     do { (r, m, c) \<leftarrow> mp_map_lookup E LOOKUP k (fst d) (snd d);
          case (case r of None \<Rightarrow> None | Some p \<Rightarrow> snd (table m ! p)) of
            None \<Rightarrow> Some (False, m, c)
          | Some w \<Rightarrow> if eqv v w then dict_equal_loop E eqv es (m, c) else Some (False, m, c) }"

definition dict_equal ::
    "'o obj_ops \<Rightarrow> ('v \<Rightarrow> 'v \<Rightarrow> bool) \<Rightarrow> bool \<Rightarrow> ('o, 'v) mp_map \<Rightarrow> ('o, 'v) dict \<Rightarrow> (bool \<times> ('o, 'v) dict) option" where
  "dict_equal E eqv both_ordereddict m d =
     (if both_ordereddict then Some (dict_equal_ordered E eqv (dict_items m) (dict_items (fst d)), d)
      else if used m \<noteq> used (fst d) then Some (False, d)
      else dict_equal_loop E eqv (dict_items m) d)"

section \<open>Dicts as finite maps\<close>

definition dict_ok :: "'o obj_ops \<Rightarrow> ('o, 'v) dict \<Rightarrow> bool" where
  "dict_ok E d \<longleftrightarrow> map_ok E (fst d) \<and> \<not> is_fixed (fst d) \<and> (\<forall>x. map_get E (fst d) x \<noteq> Some None)"

definition dict_val :: "'o obj_ops \<Rightarrow> ('o, 'v) dict \<Rightarrow> 'o \<Rightarrow> 'v option" where
  "dict_val E d x = (case map_get E (fst d) x of Some (Some v) \<Rightarrow> Some v | _ \<Rightarrow> None)"

text \<open>The contract of a store into a mapping, and what follows for a sequence of stores.\<close>

locale py_mapping =
  fixes same :: "'o \<Rightarrow> 'o \<Rightarrow> bool" and get :: "'m \<Rightarrow> 'o \<Rightarrow> 'v option" and inv :: "'m \<Rightarrow> bool"
    and put :: "'o \<Rightarrow> 'v \<Rightarrow> 'm \<Rightarrow> 'm option"
  assumes put_total: "inv m \<Longrightarrow> \<exists>m'. put k v m = Some m' \<and> inv m' \<and> (\<forall>y. get m' y = (if same k y then Some v else get m y))"
begin

lemma put_all_total:
  "inv m \<Longrightarrow> \<exists>m'. put_all put kvs m = Some m' \<and> inv m' \<and>
     (\<forall>y. get m' y = (case List.find (\<lambda>(k, v). same k y) (rev kvs) of Some (k, v) \<Rightarrow> Some v | None \<Rightarrow> get m y))"
proof (induction kvs arbitrary: m)
  case (Cons kv kvs)
  obtain k v where kv: "kv = (k, v)"
    by fastforce
  obtain m1 where m1: "put k v m = Some m1" "inv m1" "\<forall>y. get m1 y = (if same k y then Some v else get m y)"
    using put_total [OF Cons.prems] by blast
  from Cons.IH [OF m1(2)] obtain m' where m': "put_all put kvs m1 = Some m'" "inv m'"
    "\<forall>y. get m' y = (case List.find (\<lambda>(k, v). same k y) (rev kvs) of Some (k, v) \<Rightarrow> Some v | None \<Rightarrow> get m1 y)"
    by blast
  have find: "List.find P (xs @ [x]) = (case List.find P xs of None \<Rightarrow> if P x then Some x else None | Some z \<Rightarrow> Some z)"
    for P :: "'o \<times> 'v \<Rightarrow> bool" and xs x
    by (induction xs) auto
  have "get m' y = (case List.find (\<lambda>(k, v). same k y) (rev (kv # kvs)) of Some (k, v) \<Rightarrow> Some v | None \<Rightarrow> get m y)" for y
    using m1(3) m'(3) by (simp add: find kv split: option.splits)
  then show ?case
    using m1(1) m' kv by auto
qed simp

end

lemma dict_val_eq: "dict_ok E d \<Longrightarrow> map_get E (fst d) x = map_option Some (dict_val E d x)"
  by (cases "map_get E (fst d) x") (auto simp: dict_ok_def dict_val_def split: option.splits, metis not_None_eq)

lemma map_set_value_same: "map_set_value p (snd (table m ! p)) m = m"
  by (simp add: map_set_value_def)

lemma map_get_set_unfilled:
  assumes "\<not> is_filled (keys m ! p)"
  shows "map_get E (map_set_value p v m) y = map_get E m y"
proof (cases "p < length (table m)")
  case True
  have "\<not> slot_matches E y (table m ! p)" "\<not> slot_matches E y (fst (table m ! p), v)"
    using assms True by (auto simp: slot_matches_def split: key.splits)
  then have "List.find (slot_matches E y) ((table m)[p := (fst (table m ! p), v)]) = List.find (slot_matches E y) (table m)"
    using True
  proof (induction "table m" arbitrary: m p)
    case (Cons e es)
    then show ?case
    proof (cases p)
      case (Suc q)
      then show ?thesis
        using Cons.hyps(1) [of "m\<lparr>table := es\<rparr>" q] Cons.prems Cons.hyps(2) [symmetric] by simp
    qed (use Cons.prems Cons.hyps(2) [symmetric] in simp)
  qed simp
  then show ?thesis
    by (simp add: map_get_def map_set_value_def)
qed (simp add: map_set_value_def map_get_def list_update_beyond)

context obj_laws
begin

lemma map_store_ok:
  assumes "dict_ok E d"
  shows "\<exists>d'. map_store E k v d = Some d' \<and> dict_ok E d' \<and>
    (\<forall>y. dict_val E d' y = (if same_key E k y then Some v else dict_val E d y))"
proof -
  have m: "map_ok E (fst d)" "is_fixed (fst d) \<Longrightarrow> ADD_IF_NOT_FOUND = LOOKUP"
    using assms by (auto simp: dict_ok_def)
  obtain r m' c' where l: "mp_map_lookup E ADD_IF_NOT_FOUND k (fst d) (snd d) = Some (r, m', c')"
    and post: "lookup_post E ADD_IF_NOT_FOUND k (fst d) r m'"
    by (rule mp_map_lookup_total [OF m])
  obtain p where p: "r = Some p" "slot_at E m' k p"
    using post by (auto simp: lookup_post_def)
  have ok: "map_ok E m'" "\<not> is_fixed m'"
    using post assms by (auto simp: lookup_post_def dict_ok_def)
  have get': "map_get E (map_set_value p (Some v) m') y =
      (if same_key E k y then Some (Some v) else map_get E (fst d) y)" for y
    using map_get_set_value [OF ok(1) p(2), of "Some v" y] post by (auto simp: lookup_post_def)
  have "map_store E k v d = Some (map_set_value p (Some v) m', c')"
    by (simp add: map_store_def l p)
  moreover have "dict_ok E (map_set_value p (Some v) m', c')"
    using ok assms by (auto simp: dict_ok_def map_ok_set_value get')
  ultimately show ?thesis
    by (auto simp: dict_val_def get')
qed

lemma dict_get_helper_ok:
  fixes d :: "('o, 'v) dict" and k :: 'o and dflt :: "'v option" and none :: 'v
  assumes d: "dict_ok E d"
  defines "val \<equiv> dict_val E d k"
  defines "res \<equiv> (case val of Some v \<Rightarrow> v | None \<Rightarrow> (case dflt of None \<Rightarrow> none | Some v \<Rightarrow> v))"
  shows "\<exists>d'. dict_get_helper E kind none k dflt d =
      Some (if val = None \<and> dflt = None \<and> kind = REMOVE_IF_FOUND then Inl KeyError else Inr res, d') \<and>
    dict_ok E d' \<and>
    (\<forall>y. dict_val E d' y =
      (if same_key E k y then (case kind of LOOKUP \<Rightarrow> val | ADD_IF_NOT_FOUND \<Rightarrow> Some res | REMOVE_IF_FOUND \<Rightarrow> None)
       else dict_val E d y))"
proof -
  have m: "map_ok E (fst d)" "is_fixed (fst d) \<Longrightarrow> kind = LOOKUP" "\<not> is_fixed (fst d)"
    using d by (auto simp: dict_ok_def)
  obtain r m' c' where l: "mp_map_lookup E kind k (fst d) (snd d) = Some (r, m', c')"
    and post: "lookup_post E kind k (fst d) r m'"
    by (rule mp_map_lookup_total [OF m(1,2)])
  have ok: "map_ok E m'" "\<not> is_fixed m'"
    using post m(3) by (auto simp: lookup_post_def)
  note g = dict_val_eq [OF d]
  have same: "dict_val E d y = dict_val E d k" if "same_key E k y" for y
    using map_get_same [OF that, of "fst d"] by (simp add: dict_val_def)
  consider (lookup) "kind = LOOKUP" | (add) "kind = ADD_IF_NOT_FOUND" | (remove) "kind = REMOVE_IF_FOUND"
    by (cases kind)
  then show ?thesis
  proof cases
    case lookup
    then have m': "m' = fst d" and r: "case r of None \<Rightarrow> val = None | Some p \<Rightarrow> slot_at E (fst d) k p"
      using post by (auto simp: lookup_post_def g val_def split: option.splits)
    have "snd (table (fst d) ! p) = val" if "slot_at E (fst d) k p" for p
      using map_get_at [OF m(1) that] g [of k] by (auto simp: val_def)
    then have "(case r of None \<Rightarrow> None | Some p \<Rightarrow> snd (table m' ! p)) = val"
      using r by (auto simp: m' split: option.splits)
    then have "dict_get_helper E kind none k dflt d = Some (Inr res, m', c')"
      unfolding dict_get_helper_def using lookup by (auto simp: l [unfolded lookup] res_def split: option.splits)
    moreover have "dict_ok E (m', c')" "\<forall>y. dict_val E (m', c') y = dict_val E d y"
      using d by (auto simp: dict_ok_def dict_val_def m')
    ultimately show ?thesis
      using lookup same by (auto simp: val_def)
  next
    case add
    obtain p where p: "r = Some p" "slot_at E m' k p"
      using post add by (auto simp: lookup_post_def)
    have get': "map_get E m' y = (if val = None \<and> same_key E k y then Some None else map_get E (fst d) y)" for y
      using post add by (simp add: lookup_post_def g val_def)
    have p_val: "snd (table m' ! p) = val"
      using map_get_at [OF ok(1) p(2)] get' [of k] same_refl [of k]
      by (auto simp: g val_def split: if_splits)
    let ?m = "map_set_value p (Some res) m'"
    have set: "map_get E ?m y = (if same_key E k y then Some (Some res) else map_get E (fst d) y)" for y
      using map_get_set_value [OF ok(1) p(2)] get' by auto
    have keep: "map_set_value p (Some res) m' = m'" if "val \<noteq> None"
      using that p_val map_set_value_same [of p m'] by (auto simp: res_def)
    have "dict_get_helper E kind none k dflt d = Some (Inr res, ?m, c')"
      unfolding dict_get_helper_def using add p_val keep m(3) by (auto simp: l [unfolded add] p(1) res_def Let_def split: option.splits)
    moreover have "dict_ok E (?m, c')"
      using ok d by (auto simp: dict_ok_def map_ok_set_value set)
    ultimately show ?thesis
      using add by (auto simp: dict_val_def set)
  next
    case remove
    have get': "map_get E m' y = (if same_key E k y then None else map_get E (fst d) y)" for y
      using post remove by (simp add: lookup_post_def)
    have ok': "dict_ok E (m', c')"
      using ok d by (auto simp: dict_ok_def get')
    show ?thesis
    proof (cases r)
      case None
      then have "val = None"
        using post remove by (simp add: lookup_post_def g val_def)
      then have "dict_get_helper E kind none k dflt d =
          Some (if val = None \<and> dflt = None \<and> kind = REMOVE_IF_FOUND then Inl KeyError else Inr res, m', c')"
        unfolding dict_get_helper_def using remove m(3) None by (auto simp: l [unfolded remove] res_def Let_def split: option.splits)
      then show ?thesis
        using ok' remove by (auto simp: dict_val_def get')
    next
      case (Some p)
      then have p: "\<not> is_filled (keys m' ! p)" "val = snd (table m' ! p)" "val \<noteq> None"
        using post remove g [of k] by (auto simp: lookup_post_def val_def simp del: keys_simps(2))
      let ?m = "map_set_value p None m'"
      note get'' = map_get_set_unfilled [OF p(1), of E None]
      have "dict_get_helper E kind none k dflt d = Some (Inr res, ?m, c')"
        unfolding dict_get_helper_def using remove m(3) Some p by (auto simp: l [unfolded remove] res_def split: option.splits)
      moreover have "dict_ok E (?m, c')"
        using ok' by (simp add: dict_ok_def map_ok_set_value get'')
      ultimately show ?thesis
        using remove p(3) by (auto simp: dict_val_def get'' get')
    qed
  qed
qed

lemma mark_sentinel_ok:
  assumes m: "map_ok E m" and i: "i < length (table m)" "keys m ! i = Key a" and last: "is_ordered m \<Longrightarrow> i + 1 = used m"
  defines "m' \<equiv> m\<lparr>used := used m - 1, table := (table m)[i := (KSentinel, None)]\<rparr>"
  shows "map_ok E m'" and "map_get E m' y = (if same_key E a y then None else map_get E m y)"
    and "used m' + 1 = used m"
proof -
  have m' [simp]: "used m' = used m - 1" "length (table m') = length (table m)" "is_ordered m' = is_ordered m"
      "all_keys_are_qstrs m' = all_keys_are_qstrs m"
    by (simp_all add: m'_def)
  have keys': "keys m' = (keys m)[i := KSentinel]"
    by (simp add: m'_def keys_def map_update)
  have count: "filled_count (keys m') + 1 = filled_count (keys m)"
    using filled_count_update [of i "keys m" KSentinel] i by (simp add: keys' del: keys_simps(2))
  then show "used m' + 1 = used m"
    using m by (simp add: map_ok_def)
  have "set (keys m') \<subseteq> insert KSentinel (set (keys m))"
    unfolding keys' by (rule set_update_subset_insert)
  then have qstrs: "all_keys_are_qstrs m' \<longrightarrow> (\<forall>a. Key a \<in> set (keys m') \<longrightarrow> op_is_qstr E a)"
    using m by (auto simp: map_ok_def)
  show ok: "map_ok E m'"
  proof (cases "is_ordered m")
    case True
    have "is_filled (keys m' ! j) \<longleftrightarrow> j < used m'" if "j < length (table m')" for j
      using m True last [OF True] that
      by (cases "j = i") (auto simp: map_ok_def keys' simp del: keys_simps(2))
    moreover have "j = l" if "j < length (table m')" "l < length (table m')" "keys m' ! j = Key b" "keys m' ! l = Key c"
      "same_key E b c" for j l b c
    proof -
      have "j \<noteq> i" "l \<noteq> i"
        using that i(1) by (auto simp: keys' simp del: keys_simps(2))
      then have "keys m ! j = Key b" "keys m ! l = Key c" "j < length (table m)" "l < length (table m)"
        using that by (auto simp: keys' simp del: keys_simps(2))
      then show ?thesis
        using m True that(5) unfolding map_ok_def by auto
    qed
    ultimately show ?thesis
      using True qstrs count m unfolding map_ok_def by (auto simp del: keys_simps(2))
  next
    case False
    have "tab_ok (op_hash E) (same_key E) (keys m')"
      using m False i unfolding map_ok_def tab_ok_def keys'
      by (auto simp: nth_list_update simp del: keys_simps(2))
    then show ?thesis
      using False qstrs count m by (auto simp: map_ok_def simp del: keys_simps(2))
  qed
  have "slot_at E m a i"
    using i by (auto simp: slot_at_def slot_matches_iff intro: same_refl)
  then show "map_get E m' y = (if same_key E a y then None else map_get E m y)"
    by (rule map_get_unfill [OF m ok _ _ is_filled_simps(2)]) (simp_all add: m'_def)
qed

end

lemma find_filled_cases:
  "case find_filled es i of
     None \<Rightarrow> \<forall>e \<in> set es. \<not> is_filled (fst e)
   | Some j \<Rightarrow> i \<le> j \<and> j < i + length es \<and> is_filled (fst (es ! (j - i)))"
proof (induction es i rule: find_filled.induct)
  case (2 e es i)
  then show ?case
    by (cases "find_filled es (i + 1)"; cases "is_filled (fst e)") (auto simp: nth_Cons' Suc_diff_le)
qed simp

lemma dict_iter_next_cases:
  "case fst (dict_iter_next m cur) of
     None \<Rightarrow> \<forall>i. cur \<le> i \<and> i < length (table m) \<longrightarrow> \<not> is_filled (keys m ! i)
   | Some i \<Rightarrow> cur \<le> i \<and> i < length (table m) \<and> is_filled (keys m ! i)"
proof (cases "find_filled (drop cur (table m)) cur")
  case None
  then have none: "\<forall>e \<in> set (drop cur (table m)). \<not> is_filled (fst e)"
    using find_filled_cases [of "drop cur (table m)" cur] by simp
  have "\<not> is_filled (fst (table m ! i))" if i: "cur \<le> i" "i < length (table m)" for i
  proof -
    have "drop cur (table m) ! (i - cur) \<in> set (drop cur (table m))"
      using i by (intro nth_mem) simp
    then show ?thesis
      using none i by simp
  qed
  then show ?thesis
    by (simp add: dict_iter_next_def None)
next
  case (Some j)
  then show ?thesis
    using find_filled_cases [of "drop cur (table m)" cur] by (auto simp: dict_iter_next_def)
qed

context obj_laws
begin

lemma dict_popitem_ok:
  fixes d :: "('o, 'v) dict"
  assumes d: "dict_ok E d"
  shows "case dict_popitem d of
      None \<Rightarrow> False
    | Some (Inl e, d') \<Rightarrow> e = KeyError \<and> mp_obj_dict_len d = 0 \<and> d' = d
    | Some (Inr (a, v), d') \<Rightarrow>
        (\<exists>k w. a = Key k \<and> v = Some w \<and> dict_val E d k = Some w \<and> dict_ok E d' \<and>
          mp_obj_dict_len d' + 1 = mp_obj_dict_len d \<and>
          (\<forall>y. dict_val E d' y = (if same_key E k y then None else dict_val E d y)))"
proof (cases "used (fst d) = 0")
  case True
  then show ?thesis
    using d by (simp add: dict_popitem_def dict_ok_def Let_def mp_obj_dict_len_def)
next
  case False
  define m :: "('o, 'v) mp_map" where "m = fst d"
  have m: "map_ok E m" "\<not> is_fixed m" "used m \<noteq> 0"
    using d False by (auto simp: dict_ok_def m_def)
  define cur where "cur = (if is_ordered m then used m - 1 else 0)"
  obtain i where i: "fst (dict_iter_next m cur) = Some i"
  proof (cases "fst (dict_iter_next m cur)")
    case None
    then have none: "\<forall>i. cur \<le> i \<and> i < length (table m) \<longrightarrow> \<not> is_filled (keys m ! i)"
      using dict_iter_next_cases [where m = m and cur = cur] by simp
    have "\<not> is_filled (keys m ! i)" if "i < length (table m)" for i
      using none that m(1,3) used_le [OF m(1)] unfolding map_ok_def cur_def by (cases "is_ordered m") (auto simp del: keys_simps(2))
    then have "filled_count (keys m) = 0"
      by (auto simp: filled_count_def in_set_conv_nth filter_empty_conv simp del: keys_simps(2))
    then show ?thesis
      using m(1,3) by (simp add: map_ok_def)
  qed
  have i': "cur \<le> i" "i < length (table m)" "is_filled (keys m ! i)"
    using dict_iter_next_cases [where m = m and cur = cur] i by auto
  then obtain k where k: "keys m ! i = Key k"
    by (auto simp: is_filled_iff)
  have "is_ordered m \<Longrightarrow> i + 1 = used m"
    using i' m(1,3) by (auto simp: map_ok_def cur_def simp del: keys_simps(2))
  note mark = mark_sentinel_ok [OF m(1) i'(2) k this]
  have at: "slot_at E m k i"
    using i' k by (auto simp: slot_at_def slot_matches_iff intro: same_refl)
  obtain w where w: "dict_val E d k = Some w" "snd (table m ! i) = Some w"
    using map_get_at [OF m(1) at] dict_val_eq [OF d, of k] by (cases "snd (table m ! i)") (auto simp: m_def)
  let ?m = "m\<lparr>used := used m - 1, table := (table m)[i := (KSentinel, None)]\<rparr>"
  have pop: "dict_popitem d = Some (Inr (Key k, Some w), ?m, snd d)"
    unfolding dict_popitem_def Let_def m_def [symmetric] cur_def [symmetric] i
    using m(2,3) w(2) k i'(2) by (simp add: prod_eq_iff)
  have "dict_ok E (?m, snd d)"
    using d mark(1,2) m(2) by (auto simp: dict_ok_def m_def)
  moreover have "dict_val E (?m, snd d) y = (if same_key E k y then None else dict_val E d y)" for y
    using mark(2) by (simp add: dict_val_def m_def)
  ultimately show ?thesis
    using w(1) mark(3) by (simp add: pop mp_obj_dict_len_def m_def)
qed

end

sublocale obj_laws \<subseteq> dict: py_mapping "same_key E" "dict_val E" "dict_ok E" "map_store E"
  by unfold_locales (rule map_store_ok)

context obj_laws
begin

text \<open>The pairs of a dict are its graph, and a store sequence of them is a merge of the two maps.\<close>

lemma items_iff: "(k, v) \<in> set (dict_items m) \<longleftrightarrow> (Key k, Some v) \<in> set (table m)"
proof -
  have "(k, v) \<in> set (List.map_filter (\<lambda>e. case e of (Key a, Some v) \<Rightarrow> Some (a, v) | _ \<Rightarrow> None) es) \<longleftrightarrow>
      (Key k, Some v) \<in> set es" for es
    by (induction es) (auto simp: List.map_filter_simps split: key.splits option.splits)
  then show ?thesis
    by (simp add: dict_items_def)
qed

lemma dict_items_iff:
  assumes "dict_ok E (m, c)"
  shows "(\<exists>k. (k, v) \<in> set (dict_items m) \<and> same_key E k y) \<longleftrightarrow> dict_val E (m, c) y = Some v"
proof -
  have m: "map_ok E m"
    using assms by (simp add: dict_ok_def)
  have items: "(k, v) \<in> set (dict_items m) \<longleftrightarrow> (\<exists>i < length (table m). table m ! i = (Key k, Some v))" for k
    unfolding items_iff by (auto simp: in_set_conv_nth)
  show ?thesis
  proof
    assume "\<exists>k. (k, v) \<in> set (dict_items m) \<and> same_key E k y"
    then obtain k i where i: "i < length (table m)" "table m ! i = (Key k, Some v)" "same_key E k y"
      using items by auto
    then have "slot_at E m y i"
      by (simp add: slot_at_def slot_matches_iff)
    then show "dict_val E (m, c) y = Some v"
      using map_get_at [OF m] i(2) by (simp add: dict_val_def)
  next
    assume v: "dict_val E (m, c) y = Some v"
    then have get: "map_get E m y = Some (Some v)"
      using dict_val_eq [OF assms] by simp
    then obtain i where i: "slot_at E m y i"
      using map_get_None [of E m y] by auto
    then obtain k where "fst (table m ! i) = Key k" "same_key E k y" "i < length (table m)"
      by (auto simp: slot_at_def slot_matches_iff)
    moreover have "snd (table m ! i) = Some v"
      using get map_get_at [OF m i] by simp
    ultimately show "\<exists>k. (k, v) \<in> set (dict_items m) \<and> same_key E k y"
      using items by (metis prod.collapse)
  qed
qed

lemma find_first_match: "List.find P xs = Some x \<Longrightarrow> x \<in> set xs \<and> P x"
  by (auto simp: find_Some_iff)

lemma dict_update_dict_ok:
  assumes d: "dict_ok E d" and m: "dict_ok E (m, c)"
  shows "\<exists>d'. dict_update E (Other_dict m) [] d = Some (Inr (), d') \<and> dict_ok E d' \<and>
    (\<forall>y. dict_val E d' y = (case dict_val E (m, c) y of Some v \<Rightarrow> Some v | None \<Rightarrow> dict_val E d y))"
proof -
  obtain d' where d': "put_all (map_store E) (dict_items m) d = Some d'" "dict_ok E d'"
    and val: "\<forall>y. dict_val E d' y =
      (case List.find (\<lambda>(k, v). same_key E k y) (rev (dict_items m)) of Some (k, v) \<Rightarrow> Some v | None \<Rightarrow> dict_val E d y)"
    using dict.put_all_total [OF d] by blast
  have find: "(case List.find (\<lambda>(k, v). same_key E k y) (rev (dict_items m)) of Some (k, v) \<Rightarrow> Some v | None \<Rightarrow> None)
      = dict_val E (m, c) y" (is "?find y = _") for y
  proof (cases "List.find (\<lambda>(k, v). same_key E k y) (rev (dict_items m))")
    case None
    then have "\<not> (\<exists>k v. (k, v) \<in> set (dict_items m) \<and> same_key E k y)"
      by (auto simp: find_None_iff)
    then have "dict_val E (m, c) y \<noteq> Some v" for v
      using dict_items_iff [OF m] by metis
    then have "dict_val E (m, c) y = None"
      by (cases "dict_val E (m, c) y") auto
    then show ?thesis
      using None by simp
  next
    case (Some kv)
    then obtain k v where kv: "kv = (k, v)" "(k, v) \<in> set (dict_items m)" "same_key E k y"
      using find_first_match [OF Some] by (cases kv) auto
    then have "dict_val E (m, c) y = Some v"
      using dict_items_iff [OF m] by blast
    then show ?thesis
      using Some kv by simp
  qed
  have "dict_val E d' y = (case dict_val E (m, c) y of Some v \<Rightarrow> Some v | None \<Rightarrow> dict_val E d y)" for y
    using val find [of y] by (auto split: option.splits)
  moreover have "dict_update E (Other_dict m) [] d = Some (Inr (), d')"
    using d d'(1) by (simp add: dict_update_def dict_ok_def)
  ultimately show ?thesis
    using d'(2) by blast
qed

lemma mp_obj_dict_copy_ok:
  assumes "map_ok E m" and "\<forall>y. map_get E m y \<noteq> Some None"
  shows "dict_ok E (mp_obj_dict_copy m, c)" and "dict_val E (mp_obj_dict_copy m, c) = dict_val E (m, c)"
proof -
  have "keys (mp_obj_dict_copy m) = keys m" "map_get E (mp_obj_dict_copy m) = map_get E m"
    by (auto simp: keys_def map_get_def mp_obj_dict_copy_def)
  then show "dict_ok E (mp_obj_dict_copy m, c)" "dict_val E (mp_obj_dict_copy m, c) = dict_val E (m, c)"
    using assms by (auto simp: dict_ok_def map_ok_def dict_val_def mp_obj_dict_copy_def)
qed

lemma dict_clear_ok:
  assumes "dict_ok E d"
  shows "\<exists>d'. dict_clear d = (Inr (), d') \<and> dict_ok E d' \<and> (\<forall>y. dict_val E d' y = None) \<and> mp_obj_dict_len d' = 0"
proof -
  have "keys (mp_map_clear (fst d)) = []" "map_get E (mp_map_clear (fst d)) y = None" for y
    by (auto simp: keys_def map_get_def mp_map_clear_def)
  then have "dict_ok E (mp_map_clear (fst d), snd d)"
    by (simp add: dict_ok_def map_ok_def filled_count_def tab_ok_def) (simp add: mp_map_clear_def)
  moreover have "\<not> is_fixed (fst d)"
    using assms by (simp add: dict_ok_def)
  ultimately show ?thesis
    by (simp add: dict_clear_def dict_val_def map_get_def mp_obj_dict_len_def) (simp add: mp_map_clear_def)
qed

lemma mp_obj_new_dict_ok:
  fixes y :: 'o
  shows "dict_ok E (mp_obj_new_dict n ordered :: ('o, 'v) mp_map, c)" and "dict_val E (mp_obj_new_dict n ordered :: ('o, 'v) mp_map, c) y = None"
proof -
  let ?m = "mp_obj_new_dict n ordered :: ('o, 'v) mp_map"
  have k: "keys ?m = replicate n KNull" "map_get E ?m y = None" for y
    by (auto simp: keys_def map_get_def mp_obj_new_dict_def mp_map_init_def null_slot_def find_None_iff slot_matches_def)
  have m: "used ?m = 0" "\<not> is_fixed ?m"
    by (simp_all add: mp_obj_new_dict_def mp_map_init_def)
  then have "map_ok E ?m"
    by (simp add: map_ok_def k(1) filled_count_def tab_ok_empty del: keys_simps) (simp add: mp_obj_new_dict_def mp_map_init_def)
  then show "dict_ok E (?m, c)"
    by (simp add: dict_ok_def m k)
  show "dict_val E (mp_obj_new_dict n ordered :: ('o, 'v) mp_map, c) y = None"
    by (simp add: dict_val_def k)
qed

lemma dict_equal_loop_ok:
  assumes "dict_ok E d"
  shows "\<exists>d'. dict_equal_loop E eqv es d = Some (\<forall>(k, v) \<in> set es. \<exists>w. dict_val E d k = Some w \<and> eqv v w, d') \<and> fst d' = fst d"
  using assms
proof (induction es arbitrary: d)
  case (Cons kv es)
  obtain k v where kv: "kv = (k, v)"
    by fastforce
  obtain r m' c' where l: "mp_map_lookup E LOOKUP k (fst d) (snd d) = Some (r, m', c')"
    and post: "lookup_post E LOOKUP k (fst d) r m'"
    by (rule mp_map_lookup_total [where m = "fst d" and kind = LOOKUP and x = k]) (use Cons.prems in \<open>auto simp: dict_ok_def\<close>)
  have m': "m' = fst d" and r: "(case r of None \<Rightarrow> None | Some p \<Rightarrow> snd (table m' ! p)) = dict_val E d k"
    using post dict_val_eq [OF Cons.prems, of k] map_get_at [of "fst d" k] Cons.prems
    by (auto simp: lookup_post_def dict_ok_def split: option.splits) (metis map_option_eq_Some option.inject)
  have "dict_ok E (m', c')" "dict_val E (m', c') = dict_val E d"
    using Cons.prems by (auto simp: m' dict_ok_def dict_val_def)
  with Cons.IH [of "(m', c')"] show ?case
    unfolding kv dict_equal_loop.simps l by (cases "dict_val E d k") (auto simp: r [unfolded m'] m')
qed simp

end

section \<open>A program of dict operations against the finite map\<close>

text \<open>
  The specification works on the function of theory \<open>dict_val\<close> alone: one command reads and
  changes the entry of every key that is the same as its own.
\<close>

datatype ('o, 'v) dict_cmd =
    Do_store 'o 'v | Do_load 'o | Do_delete 'o | Do_get 'o "'v option" | Do_pop 'o "'v option" | Do_setdefault 'o "'v option"

definition dict_step ::
    "'o obj_ops \<Rightarrow> 'v \<Rightarrow> ('o, 'v) dict_cmd \<Rightarrow> ('o, 'v) dict \<Rightarrow> ('o, 'v, 'v) dict_result" where
  "dict_step E none cmd d =
     (case cmd of
        Do_store k v \<Rightarrow> do { (r, d) \<leftarrow> mp_obj_dict_store E k v d; Some (case r of Inl e \<Rightarrow> Inl e | Inr _ \<Rightarrow> Inr none, d) }
      | Do_load k \<Rightarrow> do { (r, d) \<leftarrow> mp_obj_dict_get E k d; case r of Inl e \<Rightarrow> Some (Inl e, d) | Inr v \<Rightarrow> do { v \<leftarrow> v; Some (Inr v, d) } }
      | Do_delete k \<Rightarrow> mp_obj_dict_delete E none k d
      | Do_get k dflt \<Rightarrow> dict_get E none k dflt d
      | Do_pop k dflt \<Rightarrow> dict_pop E none k dflt d
      | Do_setdefault k dflt \<Rightarrow> dict_setdefault E none k dflt d)"

definition spec_step ::
    "('o \<Rightarrow> 'o \<Rightarrow> bool) \<Rightarrow> 'v \<Rightarrow> ('o, 'v) dict_cmd \<Rightarrow> ('o \<Rightarrow> 'v option) \<Rightarrow> (mp_error + 'v) \<times> ('o \<Rightarrow> 'v option)" where
  "spec_step same none cmd f =
     (let put = (\<lambda>k v y. if same k y then v else f y);
          or_else = (\<lambda>k dflt. case f k of Some v \<Rightarrow> v | None \<Rightarrow> (case dflt of Some v \<Rightarrow> v | None \<Rightarrow> none))
      in case cmd of
           Do_store k v \<Rightarrow> (Inr none, put k (Some v))
         | Do_load k \<Rightarrow> (case f k of Some v \<Rightarrow> Inr v | None \<Rightarrow> Inl KeyError, f)
         | Do_delete k \<Rightarrow> (case f k of Some v \<Rightarrow> Inr v | None \<Rightarrow> Inl KeyError, put k None)
         | Do_get k dflt \<Rightarrow> (Inr (or_else k dflt), f)
         | Do_pop k dflt \<Rightarrow> (if f k = None \<and> dflt = None then Inl KeyError else Inr (or_else k dflt), put k None)
         | Do_setdefault k dflt \<Rightarrow> (Inr (or_else k dflt), put k (Some (or_else k dflt))))"

fun dict_run ::
    "'o obj_ops \<Rightarrow> 'v \<Rightarrow> ('o, 'v) dict_cmd list \<Rightarrow> ('o, 'v) dict \<Rightarrow> ((mp_error + 'v) list \<times> ('o, 'v) dict) option" where
  "dict_run E none [] d = Some ([], d)"
| "dict_run E none (cmd # cmds) d =
     do { (r, d) \<leftarrow> dict_step E none cmd d; (rs, d) \<leftarrow> dict_run E none cmds d; Some (r # rs, d) }"

fun spec_run ::
    "('o \<Rightarrow> 'o \<Rightarrow> bool) \<Rightarrow> 'v \<Rightarrow> ('o, 'v) dict_cmd list \<Rightarrow> ('o \<Rightarrow> 'v option) \<Rightarrow> (mp_error + 'v) list \<times> ('o \<Rightarrow> 'v option)" where
  "spec_run same none [] f = ([], f)"
| "spec_run same none (cmd # cmds) f =
     (let (r, f) = spec_step same none cmd f; (rs, f) = spec_run same none cmds f in (r # rs, f))"

context obj_laws
begin

lemma mp_obj_dict_get_ok:
  assumes d: "dict_ok E d"
  shows "\<exists>d'. mp_obj_dict_get E k d = Some (case dict_val E d k of None \<Rightarrow> Inl KeyError | Some v \<Rightarrow> Inr (Some v), d') \<and>
    dict_ok E d' \<and> dict_val E d' = dict_val E d"
proof -
  have m: "map_ok E (fst d)" "is_fixed (fst d) \<Longrightarrow> LOOKUP = LOOKUP"
    using d by (auto simp: dict_ok_def)
  obtain r m' c' where l: "mp_map_lookup E LOOKUP k (fst d) (snd d) = Some (r, m', c')"
    and post: "lookup_post E LOOKUP k (fst d) r m'"
    by (rule mp_map_lookup_total [OF m])
  have m': "m' = fst d"
    using post by (simp add: lookup_post_def)
  have "(case r of None \<Rightarrow> Inl KeyError | Some p \<Rightarrow> Inr (snd (table (fst d) ! p)))
      = (case dict_val E d k of None \<Rightarrow> Inl KeyError | Some v \<Rightarrow> Inr (Some v))"
  proof (cases r)
    case None
    then show ?thesis
      using post dict_val_eq [OF d, of k] by (simp add: lookup_post_def)
  next
    case (Some p)
    then have "map_get E (fst d) k = Some (snd (table (fst d) ! p))"
      using post map_get_at [OF m(1)] by (simp add: lookup_post_def)
    then show ?thesis
      using dict_val_eq [OF d, of k] Some by (cases "snd (table (fst d) ! p)") auto
  qed
  moreover have "dict_ok E (fst d, c')" "dict_val E (fst d, c') = dict_val E d"
    using d by (auto simp: dict_ok_def dict_val_def)
  ultimately show ?thesis
    by (simp add: mp_obj_dict_get_def l m')
qed

lemma dict_val_same: "same_key E k y \<Longrightarrow> dict_val E d y = dict_val E d k"
  using map_get_same [of k y "fst d"] by (simp add: dict_val_def)

lemma dict_step_refines:
  assumes d: "dict_ok E d"
  shows "\<exists>d'. dict_step E none cmd d = Some (fst (spec_step (same_key E) none cmd (dict_val E d)), d') \<and> dict_ok E d' \<and>
    dict_val E d' = snd (spec_step (same_key E) none cmd (dict_val E d))"
proof (cases cmd)
  case (Do_store k v)
  then show ?thesis
    using map_store_ok [OF d, of k v] d
    by (auto simp: dict_step_def spec_step_def mp_obj_dict_store_def dict_ok_def fun_eq_iff)
next
  case (Do_load k)
  then show ?thesis
    using mp_obj_dict_get_ok [OF d, of k] by (auto simp: dict_step_def spec_step_def split: option.splits)
next
  case (Do_delete k)
  then show ?thesis
    using dict_get_helper_ok [OF d, of REMOVE_IF_FOUND none k None]
    by (auto simp: dict_step_def spec_step_def mp_obj_dict_delete_def fun_eq_iff split: option.splits)
next
  case (Do_get k dflt)
  then show ?thesis
    using dict_get_helper_ok [OF d, of LOOKUP none k dflt] dict_val_same [of k _ d]
    by (auto simp: dict_step_def spec_step_def dict_get_def fun_eq_iff split: option.splits)
next
  case (Do_pop k dflt)
  then show ?thesis
    using dict_get_helper_ok [OF d, of REMOVE_IF_FOUND none k dflt]
    by (auto simp: dict_step_def spec_step_def dict_pop_def fun_eq_iff split: option.splits)
next
  case (Do_setdefault k dflt)
  then show ?thesis
    using dict_get_helper_ok [OF d, of ADD_IF_NOT_FOUND none k dflt]
    by (auto simp: dict_step_def spec_step_def dict_setdefault_def fun_eq_iff split: option.splits)
qed

lemma dict_run_refines_run:
  assumes "dict_ok E d"
  shows "\<exists>d'. dict_run E none cmds d = Some (fst (spec_run (same_key E) none cmds (dict_val E d)), d') \<and> dict_ok E d' \<and>
    dict_val E d' = snd (spec_run (same_key E) none cmds (dict_val E d))"
  using assms
proof (induction cmds arbitrary: d)
  case (Cons cmd cmds)
  obtain d1 where d1: "dict_step E none cmd d = Some (fst (spec_step (same_key E) none cmd (dict_val E d)), d1)"
    "dict_ok E d1" "dict_val E d1 = snd (spec_step (same_key E) none cmd (dict_val E d))"
    using dict_step_refines [OF Cons.prems] by blast
  show ?case
    using Cons.IH [OF d1(2)] d1(1,3) by (auto simp: split_beta)
qed simp

end

section \<open>The order of an ordered dict\<close>

text \<open>The keys in the order in which \<^verbatim>\<open>dict_iter_next\<close> passes them.\<close>

definition filled_keys :: "'o key list \<Rightarrow> 'o list" where
  "filled_keys ks = List.map_filter (\<lambda>k. case k of Key a \<Rightarrow> Some a | _ \<Rightarrow> None) ks"

definition dict_key_order :: "('o, 'v) mp_map \<Rightarrow> 'o list" where
  "dict_key_order m = filled_keys (keys m)"

lemma filled_keys_simps [simp]:
  "filled_keys [] = []" "filled_keys (KNull # ks) = filled_keys ks" "filled_keys (KSentinel # ks) = filled_keys ks"
  "filled_keys (Key a # ks) = a # filled_keys ks"
  by (simp_all add: filled_keys_def List.map_filter_simps)

lemma filled_keys_append [simp]: "filled_keys (ks @ ls) = filled_keys ks @ filled_keys ls"
proof (induction ks)
  case (Cons k ks)
  then show ?case by (cases k) auto
qed simp

lemma filled_keys_none: "\<forall>k \<in> set ks. \<not> is_filled k \<Longrightarrow> filled_keys ks = []"
proof (induction ks)
  case (Cons k ks)
  then show ?case by (cases k) auto
qed simp

lemma set_filled_keys: "a \<in> set (filled_keys ks) \<longleftrightarrow> Key a \<in> set ks"
proof (induction ks)
  case (Cons k ks)
  then show ?case by (cases k) auto
qed simp

context obj_laws
begin

lemma ordered_lookup_cases:
  assumes l: "mp_map_lookup E kind k m c = Some (r, m', c')" and m: "map_ok E m" "is_ordered m" "\<not> is_fixed m"
    and kind: "kind \<noteq> LOOKUP"
  obtains (found) p where "kind = ADD_IF_NOT_FOUND" "r = Some p" "m' = m" "slot_at E m k p"
  | (removed) p where "kind = REMOVE_IF_FOUND" "slot_at E m k p" "p < used m" "m' = map_remove_ordered p m"
  | (absent) "map_get E m k = None" "m' = (if kind = ADD_IF_NOT_FOUND then map_append_ordered E k m else m)"
      "kind = ADD_IF_NOT_FOUND \<longrightarrow> r = Some (used m)"
proof -
  let ?only = "all_keys_are_qstrs m \<and> (op_is_qstr E k \<or> \<not> op_is_str E k)"
  let ?hit = "kind \<noteq> REMOVE_IF_FOUND \<and> table m \<noteq> [] \<and> fst (table m ! map_cache_get E m c k) = Key k"
  let ?odd = "all_keys_are_qstrs m \<and> \<not> op_is_qstr E k \<and> \<not> op_is_str E k \<and> kind \<noteq> ADD_IF_NOT_FOUND"
  have "mp_map_lookup E kind k m c =
      (if ?hit then Some (Some (map_cache_get E m c k), m, c) else if ?odd then Some (None, m, c)
       else Some (mp_map_lookup_ordered E kind ?only k m c))"
    using m(2,3) by (simp add: mp_map_lookup_def numeral_2_eq_2 mp_map_lookup_f.simps(2) Let_def)
  with l consider (cached) "?hit" "r = Some (map_cache_get E m c k)" "m' = m"
    | (odd) "\<not> ?hit" "?odd" "m' = m" "r = None"
    | (linear) "\<not> ?odd" "mp_map_lookup_ordered E kind ?only k m c = (r, m', c')"
    by (metis option.inject prod.inject)
  then show thesis
  proof cases
    case cached
    have "map_cache_get E m c k < length (table m)"
      using cached(1) by (simp add: map_cache_get_def)
    then have "slot_at E m k (map_cache_get E m c k)"
      using cached(1) same_refl by (auto simp: slot_at_def slot_matches_iff)
    moreover have "kind = ADD_IF_NOT_FOUND"
      using cached(1) kind by (cases kind) auto
    ultimately show thesis
      using found cached(2,3) by blast
  next
    case odd
    have qstrs: "op_is_qstr E a" if "i < length (table m)" "keys m ! i = Key a" for i a
      using m(1) odd(2) that nth_mem [of i "keys m"] unfolding map_ok_def by (metis keys_simps(1))
    have "\<not> slot_at E m k i" for i
      using qstrs [of i] odd(2) qstr_str by (auto simp: slot_at_def slot_matches_iff)
    then show thesis
      using absent odd by (simp add: map_get_None)
  next
    case linear
    let ?f = "\<lambda>a. a = k \<or> \<not> ?only \<and> op_equal E a k"
    have f: "?f a \<longleftrightarrow> same_key E a k" if "j < length (table m)" "fst (table m ! j) = Key a" for j a
    proof -
      have "Key a \<in> set (keys m)"
        using that by (metis keys_simps nth_mem)
      then show ?thesis
        by (rule match_same) (use m(1) in \<open>auto simp: map_ok_def\<close>)
    qed
    show thesis
    proof (cases "map_find_ordered ?f (take (used m) (table m)) 0")
      case (Some i)
      then obtain a where a: "i < used m" "fst (table m ! i) = Key a" "?f a"
        using used_le [OF m(1)] by (auto simp: map_find_ordered_some)
      then have at: "slot_at E m k i"
        using f [of i a] used_le [OF m(1)] by (auto simp: slot_at_def slot_matches_iff)
      show thesis
      proof (cases "kind = REMOVE_IF_FOUND")
        case True
        then have "m' = map_remove_ordered i m"
          using linear(2) Some by (simp add: mp_map_lookup_ordered_def)
        then show thesis
          using removed True at a(1) by blast
      next
        case False
        then have "kind = ADD_IF_NOT_FOUND" "m' = m" "r = Some i"
          using linear(2) Some kind by (auto simp: mp_map_lookup_ordered_def) (cases kind; simp)+
        then show thesis
          using found at by blast
      qed
    next
      case None
      have "\<not> slot_at E m k i" for i
      proof
        assume at: "slot_at E m k i"
        then obtain a where "i < used m" "fst (table m ! i) = Key a" "same_key E a k" "i < length (table m)"
          using ordered_slot(1) [OF m(1,2) at] by (auto simp: slot_at_def slot_matches_iff)
        then show False
          using None f [of i a] by (auto simp: map_find_ordered_none)
      qed
      then have "map_get E m k = None"
        by (simp add: map_get_None)
      moreover have "m' = (if kind = ADD_IF_NOT_FOUND then map_append_ordered E k m else m)"
          "kind = ADD_IF_NOT_FOUND \<longrightarrow> r = Some (used m)"
        using linear(2) None by (auto simp: mp_map_lookup_ordered_def split: if_splits)
      ultimately show thesis
        using absent by blast
    qed
  qed
qed

lemma ordered_keys:
  assumes "map_ok E m" and "is_ordered m"
  shows "dict_key_order m = filled_keys (take (used m) (keys m))"
proof -
  have "\<forall>k \<in> set (drop (used m) (keys m)). \<not> is_filled k"
    using assms unfolding map_ok_def by (auto simp: in_set_conv_nth simp del: keys_simps(2))
  then have "filled_keys (drop (used m) (keys m)) = []"
    by (rule filled_keys_none)
  then show ?thesis
    unfolding dict_key_order_def by (metis append_Nil2 append_take_drop_id filled_keys_append)
qed

lemma append_key_order:
  assumes m: "map_ok E m" "is_ordered m"
  shows "dict_key_order (map_append_ordered E k m) = dict_key_order m @ [k]"
proof -
  define ks where "ks = keys m @ (if used m = length (table m) then replicate 4 KNull else [])"
  have len: "used m < length ks"
    using used_le [OF m(1)] by (auto simp: ks_def)
  have "keys (map_append_ordered E k m) = ks[used m := Key k]"
    unfolding map_append_ordered_def Let_def keys_add_at ks_def by (simp add: keys_def null_slot_def)
  also have "\<dots> = take (used m) (keys m) @ Key k # drop (Suc (used m)) ks"
    using len used_le [OF m(1)] by (subst upd_conv_take_nth_drop) (auto simp: ks_def)
  finally have keys': "keys (map_append_ordered E k m) = take (used m) (keys m) @ Key k # drop (Suc (used m)) ks" .
  have "\<forall>a \<in> set (drop (used m) (keys m)). \<not> is_filled a"
    using m unfolding map_ok_def by (auto simp: in_set_conv_nth simp del: keys_simps(2))
  moreover have "set (drop (Suc (used m)) (keys m)) \<subseteq> set (drop (used m) (keys m))"
    by (rule set_drop_subset_set_drop) simp
  ultimately have "filled_keys (drop (Suc (used m)) ks) = []"
    by (intro filled_keys_none) (auto simp: ks_def split: if_splits)
  then show ?thesis
    unfolding ordered_keys [OF m] by (simp add: dict_key_order_def keys')
qed

lemma remove_key_order:
  assumes m: "map_ok E m" "is_ordered m" and p: "slot_at E m k p" "p < used m"
  shows "dict_key_order (map_remove_ordered p m) = filter (\<lambda>a. \<not> same_key E a k) (dict_key_order m)"
proof -
  let ?ks = "keys m"
  obtain a where a: "?ks ! p = Key a" "same_key E a k" "p < length ?ks"
    using p by (auto simp: slot_at_def slot_matches_iff)
  have split: "take (used m) ?ks = take p ?ks @ Key a # drop (p + 1) (take (used m) ?ks)"
    using p(2) a used_le [OF m(1)] id_take_nth_drop [of p "take (used m) ?ks"] by (simp add: min_def)
  have unfilled: "\<forall>k \<in> set (drop (used m) ?ks). \<not> is_filled k"
    using m unfolding map_ok_def by (auto simp: in_set_conv_nth simp del: keys_simps(2))
  have other: "\<not> same_key E b k" if "?ks ! j = Key b" "j < length ?ks" "j \<noteq> p" for b j
    using slot_unique [OF m(1) _ p(1), of j] that by (auto simp: slot_at_def slot_matches_iff)
  have rest: "filter (\<lambda>a. \<not> same_key E a k) (filled_keys ls) = filled_keys ls"
    if "\<forall>b. Key b \<in> set ls \<longrightarrow> \<not> same_key E b k" for ls
    using that by (auto simp: set_filled_keys intro!: filter_True)
  have "keys (map_remove_ordered p m) = take p ?ks @ drop (p + 1) (take (used m) ?ks) @ KNull # drop (used m) ?ks"
    by (simp add: keys_def map_remove_ordered_def take_map drop_map)
  then have "dict_key_order (map_remove_ordered p m) = filled_keys (take p ?ks) @ filled_keys (drop (p + 1) (take (used m) ?ks))"
    using filled_keys_none [OF unfilled] by (simp add: dict_key_order_def)
  moreover have "\<not> same_key E b k" if b: "Key b \<in> set (take p ?ks) \<or> Key b \<in> set (drop (p + 1) (take (used m) ?ks))" for b
  proof -
    from b obtain j where "j < length ?ks" "?ks ! j = Key b" "j \<noteq> p"
    proof
      assume "Key b \<in> set (take p ?ks)"
      then obtain j where "j < length (take p ?ks)" "take p ?ks ! j = Key b"
        by (meson in_set_conv_nth)
      then show thesis
        using that [of j] a(3) by (simp del: keys_simps(2))
    next
      assume "Key b \<in> set (drop (p + 1) (take (used m) ?ks))"
      then obtain j where "j < length (drop (p + 1) (take (used m) ?ks))" "drop (p + 1) (take (used m) ?ks) ! j = Key b"
        by (meson in_set_conv_nth)
      then show thesis
        using that [of "p + 1 + j"] used_le [OF m(1)] by (simp del: keys_simps(2))
    qed
    then show ?thesis
      by (intro other)
  qed
  moreover have "dict_key_order m = filled_keys (take p ?ks) @ a # filled_keys (drop (p + 1) (take (used m) ?ks))"
    unfolding ordered_keys [OF m] by (subst split) simp
  ultimately show ?thesis
    using a(2) by (simp add: rest)
qed

end

context obj_laws
begin

lemma set_value_order [simp]: "dict_key_order (map_set_value p v m) = dict_key_order m"
  by (simp add: dict_key_order_def)

lemma ordered_store:
  assumes d: "dict_ok E d" "is_ordered (fst d)"
  shows "\<exists>d'. map_store E k v d = Some d' \<and> is_ordered (fst d') \<and>
    dict_key_order (fst d') = dict_key_order (fst d) @ (if dict_val E d k = None then [k] else [])"
proof -
  have m: "map_ok E (fst d)" "\<not> is_fixed (fst d)"
    using d by (auto simp: dict_ok_def)
  obtain r m' c' where l: "mp_map_lookup E ADD_IF_NOT_FOUND k (fst d) (snd d) = Some (r, m', c')"
    and post: "lookup_post E ADD_IF_NOT_FOUND k (fst d) r m'"
    by (rule mp_map_lookup_total [of "fst d" ADD_IF_NOT_FOUND k "snd d"]) (use m in auto)
  obtain p where p: "r = Some p" "is_ordered m'"
    using post d(2) by (auto simp: lookup_post_def)
  have "dict_key_order m' = dict_key_order (fst d) @ (if dict_val E d k = None then [k] else [])"
    using l m(1) d(2) m(2) lookup_kind.distinct(2)
  proof (cases rule: ordered_lookup_cases)
    case (found p)
    then have "map_get E (fst d) k \<noteq> None"
      using map_get_at [OF m(1)] by simp
    then show ?thesis
      using dict_val_eq [OF d(1), of k] found by simp
  next
    case absent
    then show ?thesis
      using dict_val_eq [OF d(1), of k] append_key_order [OF m(1) d(2)] by simp
  qed simp_all
  then show ?thesis
    using p by (simp add: map_store_def l)
qed

lemma ordered_pop:
  assumes d: "dict_ok E d" "is_ordered (fst d)"
  shows "\<exists>r d'. dict_pop E none k dflt d = Some (r, d') \<and> is_ordered (fst d') \<and>
    dict_key_order (fst d') = filter (\<lambda>a. \<not> same_key E a k) (dict_key_order (fst d))"
proof -
  have m: "map_ok E (fst d)" "\<not> is_fixed (fst d)"
    using d by (auto simp: dict_ok_def)
  obtain r m' c' where l: "mp_map_lookup E REMOVE_IF_FOUND k (fst d) (snd d) = Some (r, m', c')"
    and post: "lookup_post E REMOVE_IF_FOUND k (fst d) r m'"
    by (rule mp_map_lookup_total [of "fst d" REMOVE_IF_FOUND k "snd d"]) (use m in auto)
  have "dict_key_order m' = filter (\<lambda>a. \<not> same_key E a k) (dict_key_order (fst d))"
    using l m(1) d(2) m(2) lookup_kind.distinct(4)
  proof (cases rule: ordered_lookup_cases)
    case (removed p)
    then show ?thesis
      using remove_key_order [OF m(1) d(2)] by simp
  next
    case absent
    then have "\<not> same_key E a k" if "Key a \<in> set (keys (fst d))" for a
      using no_slot [OF absent(1)] that by (metis in_set_conv_nth keys_simps(1))
    then show ?thesis
      using absent by (auto simp: dict_key_order_def set_filled_keys intro!: filter_True [symmetric])
  qed simp_all
  moreover have "is_ordered m'"
    using post d(2) by (simp add: lookup_post_def)
  moreover obtain r' d' where run: "dict_pop E none k dflt d = Some (r', d')"
    using dict_get_helper_ok [OF d(1), of REMOVE_IF_FOUND none k dflt] by (auto simp: dict_pop_def)
  moreover have "dict_key_order (fst d') = dict_key_order m' \<and> is_ordered (fst d') = is_ordered m'"
    using run m(2) by (auto simp: dict_pop_def dict_get_helper_def l Let_def split: option.splits if_splits)
  ultimately show ?thesis
    by auto
qed

lemma ordered_popitem:
  assumes d: "dict_ok E d" "is_ordered (fst d)" and ne: "mp_obj_dict_len d \<noteq> 0"
  shows "\<exists>k v d'. dict_popitem d = Some (Inr (Key k, v), d') \<and>
    dict_key_order (fst d) = dict_key_order (fst d') @ [k]"
proof -
  define m where "m = fst d"
  have m: "map_ok E m" "\<not> is_fixed m" "used m \<noteq> 0" "is_ordered m"
    using d ne by (auto simp: dict_ok_def m_def mp_obj_dict_len_def)
  have fill: "is_filled (keys m ! i) \<longleftrightarrow> i < used m" if "i < length (table m)" for i
    using m(1,4) that by (auto simp: map_ok_def)
  have le: "used m - 1 < length (table m)"
    using used_le [OF m(1)] m(3) by simp
  obtain i where i: "fst (dict_iter_next m (used m - 1)) = Some i"
    using dict_iter_next_cases [where m = m and cur = "used m - 1"] fill [of "used m - 1"] le m(3)
    by (cases "fst (dict_iter_next m (used m - 1))") (auto simp del: keys_simps(2))
  then have i': "i = used m - 1"
    using dict_iter_next_cases [where m = m and cur = "used m - 1"] fill [of i] by auto
  then obtain k where k: "keys m ! (used m - 1) = Key k"
    using fill [OF le] m(3) by (auto simp: is_filled_iff simp del: keys_simps(2))
  let ?m = "m\<lparr>used := used m - 1, table := (table m)[used m - 1 := (KSentinel, None)]\<rparr>"
  have pop: "dict_popitem d = Some (Inr (Key k, snd (table m ! (used m - 1))), ?m, snd d)"
    unfolding dict_popitem_def Let_def m_def [symmetric] using m i k le
    by (simp add: i' prod_eq_iff)
  have "keys ?m = (keys m)[used m - 1 := KSentinel]"
    by (simp add: keys_def map_update)
  then have "keys ?m = take (used m - 1) (keys m) @ KSentinel # drop (used m) (keys m)"
    using le m(3) by (simp add: upd_conv_take_nth_drop)
  moreover have "keys m = take (used m - 1) (keys m) @ Key k # drop (used m) (keys m)"
    using id_take_nth_drop [of "used m - 1" "keys m"] le m(3) k by simp
  moreover have "filled_keys (drop (used m) (keys m)) = []"
    using fill by (intro filled_keys_none) (auto simp: in_set_conv_nth simp del: keys_simps(2))
  ultimately have "dict_key_order m = dict_key_order ?m @ [k]"
    unfolding dict_key_order_def by (metis append_Nil2 filled_keys_append filled_keys_simps(3) filled_keys_simps(4))
  then show ?thesis
    using pop by (simp add: m_def)
qed

end

end
