(* ===== verification/Mp_Set.thy ===== *)
theory Mp_Set
  imports Mp_Map
begin

text \<open>
  \<^verbatim>\<open>mp_set_t\<close> of \<^verbatim>\<open>py/map.c\<close>: the same hash table without values, and the invariant and the
  effect of its operations. The flags of the lookup are the two bits that the code tests.
\<close>

record 'o mp_set =
  set_used :: nat
  set_table :: "'o key list"

definition mp_set_init :: "nat \<Rightarrow> 'o mp_set" where
  "mp_set_init n = \<lparr>set_used = 0, set_table = replicate n KNull\<rparr>"

definition mp_set_clear :: "'o mp_set \<Rightarrow> 'o mp_set" where
  "mp_set_clear s = s\<lparr>set_used := 0, set_table := []\<rparr>"

definition set_add_at :: "'o \<Rightarrow> nat \<Rightarrow> 'o mp_set \<Rightarrow> 'o mp_set" where
  "set_add_at x pos s = s\<lparr>set_used := set_used s + 1, set_table := (set_table s)[pos := Key x]\<rparr>"

definition set_delete_at :: "nat \<Rightarrow> 'o mp_set \<Rightarrow> 'o mp_set" where
  "set_delete_at pos s =
     s\<lparr>set_used := set_used s - 1,
       set_table := (set_table s)[pos :=
         (if set_table s ! ((pos + 1) mod length (set_table s)) = KNull then KNull else KSentinel)]\<rparr>"

type_synonym 'o set_result = "('o option \<times> 'o mp_set) option"

fun set_rehash_elems :: "('o \<Rightarrow> 'o mp_set \<Rightarrow> 'o set_result) \<Rightarrow> 'o key list \<Rightarrow> 'o mp_set \<Rightarrow> 'o mp_set option" where
  "set_rehash_elems add [] s = Some s"
| "set_rehash_elems add (e # es) s =
     (case e of
        Key k \<Rightarrow> do { (r, s) \<leftarrow> add k s; set_rehash_elems add es s }
      | _ \<Rightarrow> set_rehash_elems add es s)"

definition mp_set_rehash :: "('o \<Rightarrow> 'o mp_set \<Rightarrow> 'o set_result) \<Rightarrow> 'o mp_set \<Rightarrow> 'o mp_set option" where
  "mp_set_rehash add s =
     set_rehash_elems add (set_table s)
       (s\<lparr>set_used := 0, set_table := replicate (get_hash_alloc_greater_or_equal_to (length (set_table s) + 1)) KNull\<rparr>)"

definition key_of :: "'o key \<Rightarrow> 'o option" where
  "key_of k = (case k of Key a \<Rightarrow> Some a | _ \<Rightarrow> None)"

fun set_search ::
    "nat \<Rightarrow> ('o mp_set \<Rightarrow> 'o mp_set option) \<Rightarrow> 'o obj_ops \<Rightarrow> bool \<Rightarrow> bool \<Rightarrow> 'o \<Rightarrow> 'o mp_set \<Rightarrow> 'o set_result"
where
  "set_search 0 rehash E add remove index s = None"
| "set_search (Suc n) rehash E add remove index s =
     (let start = op_hash E index mod length (set_table s);
          r = probe (\<lambda>k. op_equal E k index) (set_table s) start start None
      in case r of
           Out_of_bounds \<Rightarrow> None
         | Hit pos \<Rightarrow> Some (key_of (set_table s ! pos), if remove then set_delete_at pos s else s)
         | _ \<Rightarrow>
             if add
             then case add_slot r of
                    Some q \<Rightarrow> Some (Some index, set_add_at index q s)
                  | None \<Rightarrow> do { s \<leftarrow> rehash s; set_search n rehash E add remove index s }
             else Some (None, s))"

fun mp_set_lookup_f :: "nat \<Rightarrow> 'o obj_ops \<Rightarrow> bool \<Rightarrow> bool \<Rightarrow> 'o \<Rightarrow> 'o mp_set \<Rightarrow> 'o set_result" where
  "mp_set_lookup_f 0 E add remove index s = None"
| "mp_set_lookup_f (Suc n) E add remove index s =
     (let rehash = mp_set_rehash (mp_set_lookup_f n E True False)
      in if set_table s = []
         then if add then do { s \<leftarrow> rehash s; set_search 2 rehash E add remove index s } else Some (None, s)
         else set_search 2 rehash E add remove index s)"

declare mp_set_lookup_f.simps(2) [simp del] set_search.simps(2) [simp del]

definition mp_set_lookup :: "'o obj_ops \<Rightarrow> bool \<Rightarrow> bool \<Rightarrow> 'o \<Rightarrow> 'o mp_set \<Rightarrow> 'o set_result" where
  "mp_set_lookup E add remove index s = mp_set_lookup_f 2 E add remove index s"

text \<open>\<^verbatim>\<open>mp_set_remove_first\<close>: the loop is over the positions from \<open>pos\<close> on.\<close>

fun set_first_filled :: "'o key list \<Rightarrow> nat \<Rightarrow> (nat \<times> 'o) option" where
  "set_first_filled [] pos = None"
| "set_first_filled (k # ks) pos =
     (case k of Key a \<Rightarrow> Some (pos, a) | _ \<Rightarrow> set_first_filled ks (pos + 1))"

definition mp_set_remove_first :: "'o mp_set \<Rightarrow> 'o option \<times> 'o mp_set" where
  "mp_set_remove_first s =
     (case set_first_filled (set_table s) 0 of
        Some (pos, elem) \<Rightarrow> (Some elem, set_delete_at pos s)
      | None \<Rightarrow> (None, s))"

section \<open>What a set stands for\<close>

definition set_mem :: "'o obj_ops \<Rightarrow> 'o mp_set \<Rightarrow> 'o \<Rightarrow> bool" where
  "set_mem E s x \<longleftrightarrow> list_ex (\<lambda>k. case k of Key a \<Rightarrow> op_equal E a x | _ \<Rightarrow> False) (set_table s)"

lemma set_mem_iff: "set_mem E s x \<longleftrightarrow> (\<exists>i < length (set_table s). \<exists>a. set_table s ! i = Key a \<and> op_equal E a x)"
proof -
  have "(case k of Key a \<Rightarrow> op_equal E a x | _ \<Rightarrow> False) \<longleftrightarrow> (\<exists>a. k = Key a \<and> op_equal E a x)" for k
    by (cases k) auto
  then show ?thesis
    by (simp add: set_mem_def list_ex_iff Bex_def in_set_conv_nth) blast
qed

definition set_ok :: "'o obj_ops \<Rightarrow> 'o mp_set \<Rightarrow> bool" where
  "set_ok E s \<longleftrightarrow> set_used s = filled_count (set_table s) \<and> tab_ok (op_hash E) (op_equal E) (set_table s)"

definition set_post :: "'o obj_ops \<Rightarrow> bool \<Rightarrow> bool \<Rightarrow> 'o \<Rightarrow> 'o mp_set \<Rightarrow> 'o option \<Rightarrow> 'o mp_set \<Rightarrow> bool" where
  "set_post E add remove x s r s' \<longleftrightarrow>
     set_ok E s' \<and> (\<not> add \<and> \<not> remove \<longrightarrow> s' = s) \<and>
     (if set_mem E s x
      then (\<exists>a. r = Some a \<and> Key a \<in> set (set_table s) \<and> op_equal E a x) \<and>
        set_used s = set_used s' + of_bool remove \<and>
        (\<forall>y. set_mem E s' y \<longleftrightarrow> set_mem E s y \<and> \<not> (remove \<and> op_equal E x y))
      else r = (if add then Some x else None) \<and> set_used s' = set_used s + of_bool add \<and>
        (\<forall>y. set_mem E s' y \<longleftrightarrow> set_mem E s y \<or> add \<and> op_equal E x y))"

lemma set_ok_init: "set_ok E (mp_set_init n)" and set_mem_init: "\<not> set_mem E (mp_set_init n) x"
  using tab_ok_empty by (auto simp: set_ok_def mp_set_init_def filled_count_def set_mem_iff)

locale set_laws = hash_keys "op_hash E" "op_equal E" for E :: "'o obj_ops"
begin

lemma set_add_at_ok:
  assumes s: "set_ok E s" and q: "q < length (set_table s)" "\<not> is_filled (set_table s ! q)"
    and path: "\<forall>p \<in> cyc (length (set_table s)) (op_hash E x mod length (set_table s)) q. set_table s ! p \<noteq> KNull"
    and new: "\<not> set_mem E s x"
  shows "set_post E True remove x s (Some x) (set_add_at x q s)"
proof -
  have tab: "tab_ok (op_hash E) (op_equal E) ((set_table s)[q := Key x])"
    using s q path new by (intro tab_ok_insert) (auto simp: set_ok_def set_mem_iff)
  have count: "filled_count ((set_table s)[q := Key x]) = filled_count (set_table s) + 1"
    using filled_count_update [of q "set_table s" "Key x"] q by simp
  have "set_mem E (set_add_at x q s) y \<longleftrightarrow> set_mem E s y \<or> op_equal E x y" for y
  proof
    assume "set_mem E (set_add_at x q s) y"
    then obtain i a where "i < length (set_table s)" "(set_table s)[q := Key x] ! i = Key a" "op_equal E a y"
      by (auto simp: set_mem_iff set_add_at_def)
    then show "set_mem E s y \<or> op_equal E x y"
      by (cases "i = q") (auto simp: set_mem_iff)
  next
    assume "set_mem E s y \<or> op_equal E x y"
    then consider i a where "i < length (set_table s)" "set_table s ! i = Key a" "op_equal E a y" | "op_equal E x y"
      by (auto simp: set_mem_iff)
    then show "set_mem E (set_add_at x q s) y"
    proof cases
      case (1 i a)
      then have "i \<noteq> q"
        using q(2) by auto
      with 1 show ?thesis
        by (auto simp: set_mem_iff set_add_at_def intro!: exI [of _ i])
    next
      case 2
      then show ?thesis
        using q(1) by (auto simp: set_mem_iff set_add_at_def intro!: exI [of _ q])
    qed
  qed
  then show ?thesis
    using tab count s new by (simp add: set_post_def set_ok_def) (simp add: set_add_at_def)
qed

lemma set_delete_at_ok:
  assumes s: "set_ok E s" and i: "i < length (set_table s)" "set_table s ! i = Key a" "op_equal E a x"
  shows "set_post E add True x s (Some a) (set_delete_at i s)"
proof -
  define k where "k = (if set_table s ! ((i + 1) mod length (set_table s)) = KNull then KNull else KSentinel :: 'o key)"
  have k: "\<not> is_filled k"
    by (simp add: k_def)
  have del: "set_delete_at i s = s\<lparr>set_used := set_used s - 1, set_table := (set_table s)[i := k]\<rparr>"
    by (simp add: set_delete_at_def k_def)
  have tab: "tab_ok (op_hash E) (op_equal E) ((set_table s)[i := k])"
    using s i by (intro tab_ok_delete) (auto simp: set_ok_def k_def)
  have count: "filled_count ((set_table s)[i := k]) + 1 = filled_count (set_table s)"
    using filled_count_update [of i "set_table s" k] i k by simp
  have mem: "set_mem E s x" and key: "Key a \<in> set (set_table s)"
    using i nth_mem [OF i(1)] by (auto simp: set_mem_iff)
  have "set_mem E (set_delete_at i s) y \<longleftrightarrow> set_mem E s y \<and> \<not> op_equal E x y" for y
  proof
    assume "set_mem E (set_delete_at i s) y"
    then obtain j b where j: "j < length (set_table s)" "(set_table s)[i := k] ! j = Key b" "op_equal E b y"
      by (auto simp: set_mem_iff del)
    then have "j \<noteq> i" and b: "set_table s ! j = Key b"
      using k i by (auto simp: nth_list_update split: if_splits)
    have "\<not> op_equal E x y"
    proof
      assume "op_equal E x y"
      then have "op_equal E a b"
        using i(3) j(3) same_trans same_sym by blast
      then show False
        using s i j(1) b \<open>j \<noteq> i\<close> unfolding set_ok_def tab_ok_def by blast
    qed
    then show "set_mem E s y \<and> \<not> op_equal E x y"
      using j(1,3) b by (auto simp: set_mem_iff)
  next
    assume y: "set_mem E s y \<and> \<not> op_equal E x y"
    then obtain j b where j: "j < length (set_table s)" "set_table s ! j = Key b" "op_equal E b y"
      by (auto simp: set_mem_iff)
    have "op_equal E x y" if "a = b"
      using that i(3) j(3) same_trans [OF same_sym] by blast
    then have "j \<noteq> i"
      using i(2) j(2) y by auto
    then show "set_mem E (set_delete_at i s) y"
      using j by (auto simp: set_mem_iff del intro!: exI [of _ j])
  qed
  then show ?thesis
    using tab count s mem key i(3) by (simp add: set_post_def set_ok_def) (auto simp: del)
qed

lemma set_search_ok:
  assumes s: "set_ok E s" "set_table s \<noteq> []"
    and room: "add \<Longrightarrow> \<not> set_mem E s x \<Longrightarrow> set_used s < length (set_table s)"
  obtains r s' where "set_search (Suc n) rehash E add remove x s = Some (r, s')" and "set_post E add remove x s r s'"
    and "length (set_table s') = length (set_table s)"
proof -
  have tab: "tab_ok (op_hash E) (op_equal E) (set_table s)"
    using s by (simp add: set_ok_def)
  show ?thesis
  proof (cases "set_mem E s x")
    case True
    then obtain i a where i: "i < length (set_table s)" "set_table s ! i = Key a" "op_equal E a x"
      by (auto simp: set_mem_iff)
    then have hit: "search (set_table s) x = Hit i"
      using search_hit_iff [OF tab, of x i] by blast
    have run: "set_search (Suc n) rehash E add remove x s = Some (Some a, if remove then set_delete_at i s else s)"
      unfolding set_search.simps(2) Let_def hit using i by (simp add: key_of_def)
    have post: "set_post E add remove x s (Some a) (if remove then set_delete_at i s else s)"
    proof (cases remove)
      case False
      have "Key a \<in> set (set_table s)"
        using i by (metis nth_mem)
      then show ?thesis
        using s True False i by (simp add: set_post_def)
    qed (use set_delete_at_ok [OF s(1) i] in simp)
    show ?thesis
      by (rule that [OF run post]) (simp add: set_delete_at_def)
  next
    case False
    then have new: "\<forall>i < length (set_table s). \<forall>a. set_table s ! i = Key a \<longrightarrow> \<not> op_equal E a x"
      by (auto simp: set_mem_iff)
    show ?thesis
    proof (cases rule: search_miss [OF tab s(2) new])
      case (1 q)
      note slot = this
      show ?thesis
      proof (cases add)
        case True
        have "set_search (Suc n) rehash E add remove x s = Some (Some x, set_add_at x q s)"
          using slot True by (cases "search (set_table s) x") (auto simp: set_search.simps(2) Let_def)
        moreover have "set_post E add remove x s (Some x) (set_add_at x q s)"
          using set_add_at_ok [OF s(1) slot(2,3,4) False] True by simp
        ultimately show ?thesis
          by (rule that) (simp add: set_add_at_def)
      next
        case no: False
        have "set_search (Suc n) rehash E add remove x s = Some (None, s)"
          using slot no by (cases "search (set_table s) x") (auto simp: set_search.simps(2) Let_def)
        moreover have "set_post E add remove x s None s"
          using s False no by (simp add: set_post_def)
        ultimately show ?thesis
          by (rule that) simp
      qed
    next
      case 2
      then have "\<not> add"
        using room [OF _ False] s(1) by (auto simp: set_ok_def)
      then have "set_search (Suc n) rehash E add remove x s = Some (None, s)"
        using 2 by (simp add: set_search.simps(2) Let_def)
      moreover have "set_post E add remove x s None s"
        using s False \<open>\<not> add\<close> by (simp add: set_post_def)
      ultimately show ?thesis
        by (rule that) simp
    qed
  qed
qed

lemma set_search_full:
  assumes s: "set_ok E s" "set_table s \<noteq> []" and full: "set_used s = length (set_table s)" and new: "\<not> set_mem E s x"
  shows "set_search (Suc n) rehash E True remove x s = do { s \<leftarrow> rehash s; set_search n rehash E True remove x s }"
proof -
  have tab: "tab_ok (op_hash E) (op_equal E) (set_table s)"
    using s by (simp add: set_ok_def)
  have fill: "is_filled (set_table s ! q)" if "q < length (set_table s)" for q
    using full s(1) that filled_count_all [of "set_table s"] by (auto simp: set_ok_def)
  have "search (set_table s) x = Wrapped None"
    by (cases rule: search_miss [OF tab s(2), of x]) (use fill new in \<open>auto simp: set_mem_iff\<close>)
  then show ?thesis
    by (simp add: set_search.simps(2) Let_def add_slot_def)
qed

definition set_adds_with_room :: "('o \<Rightarrow> 'o mp_set \<Rightarrow> 'o set_result) \<Rightarrow> bool" where
  "set_adds_with_room add \<longleftrightarrow>
     (\<forall>x s. set_ok E s \<and> set_used s < length (set_table s) \<longrightarrow>
        (\<exists>r s'. add x s = Some (r, s') \<and> set_post E True False x s r s' \<and> length (set_table s') = length (set_table s)))"

lemma set_rehash_elems_ok:
  assumes "set_adds_with_room add" and "set_ok E s"
    and "set_used s + filled_count es \<le> length (set_table s)"
    and "\<forall>i < length es. \<forall>j < length es. \<forall>a b. es ! i = Key a \<and> es ! j = Key b \<and> op_equal E a b \<longrightarrow> i = j"
    and "\<forall>a. Key a \<in> set es \<longrightarrow> \<not> set_mem E s a"
  shows "\<exists>s'. set_rehash_elems add es s = Some s' \<and> set_ok E s' \<and>
    (\<forall>y. set_mem E s' y \<longleftrightarrow> set_mem E s y \<or> (\<exists>a. Key a \<in> set es \<and> op_equal E a y)) \<and>
    set_used s' = set_used s + filled_count es \<and> length (set_table s') = length (set_table s)"
  using assms(2-5)
proof (induction es arbitrary: s)
  case Nil
  then show ?case
    by (simp add: filled_count_def)
next
  case (Cons e es)
  have tail: "\<forall>i < length es. \<forall>j < length es. \<forall>a b. es ! i = Key a \<and> es ! j = Key b \<and> op_equal E a b \<longrightarrow> i = j"
    using Cons.prems(3) by (metis Suc_less_eq length_Cons nth_Cons_Suc nat.inject)
  show ?case
  proof (cases "is_filled e")
    case False
    then have "filled_count (e # es) = filled_count es" and "Key a \<in> set (e # es) \<longleftrightarrow> Key a \<in> set es"
        and "set_rehash_elems add (e # es) s = set_rehash_elems add es s" for a
      by (auto simp: filled_count_def is_filled_def split: key.splits)
    with Cons.IH [of s] Cons.prems tail show ?thesis
      by simp
  next
    case True
    then obtain k where k: "e = Key k"
      by (auto simp: is_filled_iff)
    have fc: "filled_count (e # es) = Suc (filled_count es)"
      using True by (simp add: filled_count_def)
    have none: "\<not> set_mem E s k"
      using Cons.prems(4) k by simp
    have room: "set_used s < length (set_table s)"
      using Cons.prems(2) fc by simp
    obtain r s1 where add: "add k s = Some (r, s1)" and post: "set_post E True False k s r s1"
      and len: "length (set_table s1) = length (set_table s)"
      using assms(1) Cons.prems(1) room unfolding set_adds_with_room_def by blast
    have s1: "set_ok E s1" "set_used s1 = Suc (set_used s)" "\<And>y. set_mem E s1 y \<longleftrightarrow> set_mem E s y \<or> op_equal E k y"
      using post none by (auto simp: set_post_def)
    have "\<forall>a. Key a \<in> set es \<longrightarrow> \<not> set_mem E s1 a"
    proof (intro allI impI)
      fix a assume a: "Key a \<in> set es"
      then obtain j where "j < length es" "es ! j = Key a"
        by (auto simp: in_set_conv_nth)
      then have "\<not> op_equal E k a"
        using Cons.prems(3) [rule_format, of 0 "Suc j" k a] k by auto
      then show "\<not> set_mem E s1 a"
        using Cons.prems(4) a by (simp add: s1(3))
    qed
    moreover have "set_used s1 + filled_count es \<le> length (set_table s1)"
      using Cons.prems(2) fc by (simp add: s1(2) len)
    ultimately obtain s' where r: "set_rehash_elems add es s1 = Some s'" "set_ok E s'"
      "\<forall>y. set_mem E s' y \<longleftrightarrow> set_mem E s1 y \<or> (\<exists>a. Key a \<in> set es \<and> op_equal E a y)"
      "set_used s' = set_used s1 + filled_count es" "length (set_table s') = length (set_table s1)"
      using Cons.IH [OF s1(1) _ tail] by blast
    then show ?thesis
      using k add s1 len fc by auto
  qed
qed

lemma mp_set_rehash_ok:
  assumes "set_adds_with_room add" and s: "set_ok E s"
  obtains s' where "mp_set_rehash add s = Some s'" and "set_ok E s'" and "\<forall>y. set_mem E s' y \<longleftrightarrow> set_mem E s y"
    and "set_used s' = set_used s" and "length (set_table s) < length (set_table s')"
proof -
  define n where "n = get_hash_alloc_greater_or_equal_to (length (set_table s) + 1)"
  define s0 where "s0 = s\<lparr>set_used := 0, set_table := replicate n (KNull :: 'o key)\<rparr>"
  have n: "length (set_table s) < n"
    using hash_alloc_ge [of "length (set_table s) + 1"] by (simp add: n_def)
  have s0: "set_ok E s0" "set_used s0 = 0" "length (set_table s0) = n" "\<not> set_mem E s0 y" for y
    using tab_ok_empty by (auto simp: set_ok_def s0_def filled_count_def set_mem_iff)
  have le: "filled_count (set_table s) \<le> length (set_table s)"
    by (simp add: filled_count_def)
  have dist: "\<forall>i < length (set_table s). \<forall>j < length (set_table s). \<forall>a b.
      set_table s ! i = Key a \<and> set_table s ! j = Key b \<and> op_equal E a b \<longrightarrow> i = j"
    using s unfolding set_ok_def tab_ok_def by blast
  have "\<exists>s'. set_rehash_elems add (set_table s) s0 = Some s' \<and> set_ok E s' \<and>
    (\<forall>y. set_mem E s' y \<longleftrightarrow> set_mem E s0 y \<or> (\<exists>a. Key a \<in> set (set_table s) \<and> op_equal E a y)) \<and>
    set_used s' = set_used s0 + filled_count (set_table s) \<and> length (set_table s') = length (set_table s0)"
    by (rule set_rehash_elems_ok [OF assms(1) s0(1) _ dist]) (use s0 n le in auto)
  then obtain s' where r: "set_rehash_elems add (set_table s) s0 = Some s'" "set_ok E s'"
      "\<forall>y. set_mem E s' y \<longleftrightarrow> (\<exists>a. Key a \<in> set (set_table s) \<and> op_equal E a y)"
      "set_used s' = filled_count (set_table s)" "length (set_table s') = n"
    using s0 by auto
  show ?thesis
  proof (rule that)
    show "mp_set_rehash add s = Some s'"
      using r(1) by (simp add: mp_set_rehash_def s0_def n_def)
    show "\<forall>y. set_mem E s' y \<longleftrightarrow> set_mem E s y"
      using r(3) by (simp add: set_mem_iff in_set_conv_nth) blast
  qed (use r n s in \<open>auto simp: set_ok_def\<close>)
qed

lemma set_lookup_f_adds_with_room: "set_adds_with_room (mp_set_lookup_f (Suc n) E True False)"
  unfolding set_adds_with_room_def
proof (intro allI impI)
  fix x and s :: "'o mp_set"
  assume a: "set_ok E s \<and> set_used s < length (set_table s)"
  then have s: "set_ok E s" "set_table s \<noteq> []" and room: "set_used s < length (set_table s)"
    by auto
  obtain r s' where "set_search (Suc 1) (mp_set_rehash (mp_set_lookup_f n E True False)) E True False x s = Some (r, s')"
    and "set_post E True False x s r s'" and "length (set_table s') = length (set_table s)"
    by (rule set_search_ok [OF s room])
  then show "\<exists>r s'. mp_set_lookup_f (Suc n) E True False x s = Some (r, s') \<and> set_post E True False x s r s' \<and>
      length (set_table s') = length (set_table s)"
    using s(2) by (simp add: mp_set_lookup_f.simps(2) numeral_2_eq_2)
qed

lemma mp_set_lookup_total:
  assumes s: "set_ok E s"
  obtains r s' where "mp_set_lookup E add remove x s = Some (r, s')" and "set_post E add remove x s r s'"
proof -
  define rehash where "rehash = mp_set_rehash (mp_set_lookup_f (Suc 0) E True False)"
  have run: "mp_set_lookup E add remove x s =
     (if set_table s = []
      then if add then do { s \<leftarrow> rehash s; set_search 2 rehash E add remove x s } else Some (None, s)
      else set_search 2 rehash E add remove x s)"
    unfolding mp_set_lookup_def numeral_2_eq_2 mp_set_lookup_f.simps(2) Let_def rehash_def ..
  have le: "set_used s \<le> length (set_table s)"
    using s by (simp add: set_ok_def filled_count_def)
  have rehash: "\<exists>s1 r s'. rehash s = Some s1 \<and>
      set_search (Suc k) rehash E add remove x s1 = Some (r, s') \<and> set_post E add remove x s r s'"
    if new: "\<not> set_mem E s x" and add for k
  proof -
    obtain s1 where r: "rehash s = Some s1" "set_ok E s1" "\<forall>y. set_mem E s1 y \<longleftrightarrow> set_mem E s y"
      "set_used s1 = set_used s" "length (set_table s) < length (set_table s1)"
      unfolding rehash_def by (rule mp_set_rehash_ok [OF set_lookup_f_adds_with_room [of 0] s])
    have room: "set_used s1 < length (set_table s1)"
      using r(4,5) le by simp
    then have ne: "set_table s1 \<noteq> []"
      by auto
    obtain r' s' where "set_search (Suc k) rehash E add remove x s1 = Some (r', s')" "set_post E add remove x s1 r' s'"
      by (rule set_search_ok [where n = k and rehash = rehash and add = add and remove = remove and x = x, OF r(2) ne room])
    then show ?thesis
      using r(1,3,4) new \<open>add\<close> by (auto simp: set_post_def)
  qed
  show ?thesis
  proof (cases "set_table s = []")
    case True
    then have new: "\<not> set_mem E s x"
      by (simp add: set_mem_def)
    show ?thesis
    proof (cases add)
      case no: False
      have "set_post E add remove x s None s"
        using s new no by (simp add: set_post_def)
      then show ?thesis
        using that run True no by simp
    next
      case yes: True
      show ?thesis
        using that run True yes rehash [OF new yes, of 1] by (auto simp: numeral_2_eq_2)
    qed
  next
    case ne: False
    show ?thesis
    proof (cases "add \<and> \<not> set_mem E s x \<and> set_used s = length (set_table s)")
      case True
      then have "set_search 2 rehash E add remove x s = do { s \<leftarrow> rehash s; set_search 1 rehash E add remove x s }"
        using set_search_full [OF s ne, of x "Suc 0" rehash remove] by (simp add: numeral_2_eq_2)
      then show ?thesis
        using True that run ne rehash [of 0] by auto
    next
      case False
      then have room: "set_used s < length (set_table s)" if add "\<not> set_mem E s x"
        using that le by simp
      obtain r s' where "set_search (Suc 1) rehash E add remove x s = Some (r, s')" "set_post E add remove x s r s'"
        by (rule set_search_ok [where n = 1 and rehash = rehash and add = add and remove = remove and x = x, OF s ne room])
      then show ?thesis
        using that run ne by (simp add: numeral_2_eq_2)
    qed
  qed
qed

end

end
