(* ===== verification/Mp_Set_Ops.thy ===== *)
theory Mp_Set_Ops
  imports Mp_Set
begin

text \<open>
  The set methods of \<^verbatim>\<open>py/objset.c\<close> over theory Mp_Set. An iterable argument is the list of the
  objects that its iterator yields, and \<open>None\<close> stands for a failed assertion of the lookup, which
  the lemmas exclude. Results: a method that raises returns \<^term>\<open>Inl KeyError\<close>.
\<close>

section \<open>Operations\<close>

definition set_it_iternext :: "nat \<Rightarrow> 'o mp_set \<Rightarrow> 'o option \<times> nat" where
  "set_it_iternext cur s =
     (case set_first_filled (drop cur (set_table s)) cur of
        Some (i, a) \<Rightarrow> (Some a, i + 1)
      | None \<Rightarrow> (None, cur))"

text \<open>All that an iteration over a set yields.\<close>

definition set_items :: "'o mp_set \<Rightarrow> 'o list" where
  "set_items s = List.map_filter key_of (set_table s)"

definition set_copy :: "'o mp_set \<Rightarrow> 'o mp_set" where
  "set_copy s = (mp_set_init (length (set_table s)))\<lparr>set_used := set_used s, set_table := set_table s\<rparr>"

text \<open>The loop that looks up every item of an iterable, for its effect on the set.\<close>

fun set_lookup_all :: "'o obj_ops \<Rightarrow> bool \<Rightarrow> bool \<Rightarrow> 'o list \<Rightarrow> 'o mp_set \<Rightarrow> 'o mp_set option" where
  "set_lookup_all E add remove [] s = Some s"
| "set_lookup_all E add remove (x # xs) s =
     do { (r, s) \<leftarrow> mp_set_lookup E add remove x s; set_lookup_all E add remove xs s }"

definition set_add :: "'o obj_ops \<Rightarrow> 'o \<Rightarrow> 'o mp_set \<Rightarrow> 'o mp_set option" where
  "set_add E x s = do { (r, s) \<leftarrow> mp_set_lookup E True False x s; Some s }"

definition set_discard :: "'o obj_ops \<Rightarrow> 'o \<Rightarrow> 'o mp_set \<Rightarrow> 'o mp_set option" where
  "set_discard E x s = do { (r, s) \<leftarrow> mp_set_lookup E False True x s; Some s }"

definition set_remove :: "'o obj_ops \<Rightarrow> 'o \<Rightarrow> 'o mp_set \<Rightarrow> ((mp_error + unit) \<times> 'o mp_set) option" where
  "set_remove E x s =
     do { (r, s) \<leftarrow> mp_set_lookup E False True x s; Some (if r = None then Inl KeyError else Inr (), s) }"

definition set_pop :: "'o mp_set \<Rightarrow> (mp_error + 'o) \<times> 'o mp_set" where
  "set_pop s =
     (case mp_set_remove_first s of
        (None, s) \<Rightarrow> (Inl KeyError, s)
      | (Some x, s) \<Rightarrow> (Inr x, s))"

definition set_update_int :: "'o obj_ops \<Rightarrow> 'o list \<Rightarrow> 'o mp_set \<Rightarrow> 'o mp_set option" where
  "set_update_int E items s = set_lookup_all E True False items s"

definition set_make_new :: "'o obj_ops \<Rightarrow> 'o list \<Rightarrow> 'o mp_set option" where
  "set_make_new E items = set_lookup_all E True False items (mp_set_init 0)"

fun set_update :: "'o obj_ops \<Rightarrow> 'o list list \<Rightarrow> 'o mp_set \<Rightarrow> 'o mp_set option" where
  "set_update E [] s = Some s"
| "set_update E (items # args) s = do { s \<leftarrow> set_update_int E items s; set_update E args s }"

definition set_union :: "'o obj_ops \<Rightarrow> 'o mp_set \<Rightarrow> 'o list \<Rightarrow> 'o mp_set option" where
  "set_union E s items = set_update_int E items (set_copy s)"

text \<open>\<^verbatim>\<open>set_diff_int\<close>: each argument with the flag that it is the set itself.\<close>

fun set_diff_args :: "'o obj_ops \<Rightarrow> (bool \<times> 'o list) list \<Rightarrow> 'o mp_set \<Rightarrow> 'o mp_set option" where
  "set_diff_args E [] s = Some s"
| "set_diff_args E ((is_self, items) # args) s =
     (if is_self then set_diff_args E args (mp_set_clear s)
      else do { s \<leftarrow> set_lookup_all E False True items s; set_diff_args E args s })"

definition set_diff_int :: "'o obj_ops \<Rightarrow> (bool \<times> 'o list) list \<Rightarrow> bool \<Rightarrow> 'o mp_set \<Rightarrow> 'o mp_set option" where
  "set_diff_int E args update s = set_diff_args E args (if update then s else set_copy s)"

fun set_intersect_loop :: "'o obj_ops \<Rightarrow> 'o list \<Rightarrow> 'o mp_set \<Rightarrow> 'o mp_set \<Rightarrow> 'o mp_set option" where
  "set_intersect_loop E [] s out = Some out"
| "set_intersect_loop E (x # xs) s out =
     do { (r, s) \<leftarrow> mp_set_lookup E False False x s;
          out \<leftarrow> (if r \<noteq> None then set_add E x out else Some out);
          set_intersect_loop E xs s out }"

definition set_intersect_int :: "'o obj_ops \<Rightarrow> bool \<Rightarrow> 'o list \<Rightarrow> 'o mp_set \<Rightarrow> 'o mp_set option" where
  "set_intersect_int E is_self items s =
     (if is_self then Some (set_copy s) else set_intersect_loop E items s (mp_set_init 0))"

fun set_isdisjoint :: "'o obj_ops \<Rightarrow> 'o list \<Rightarrow> 'o mp_set \<Rightarrow> bool option" where
  "set_isdisjoint E [] s = Some True"
| "set_isdisjoint E (x # xs) s =
     do { (r, s) \<leftarrow> mp_set_lookup E False False x s;
          if r \<noteq> None then Some False else set_isdisjoint E xs s }"

fun set_all_in :: "'o obj_ops \<Rightarrow> 'o list \<Rightarrow> 'o mp_set \<Rightarrow> bool option" where
  "set_all_in E [] s = Some True"
| "set_all_in E (x # xs) s =
     do { (r, s) \<leftarrow> mp_set_lookup E False False x s;
          if r = None then Some False else set_all_in E xs s }"

definition set_issubset_internal :: "'o obj_ops \<Rightarrow> 'o mp_set \<Rightarrow> 'o mp_set \<Rightarrow> bool \<Rightarrow> bool option" where
  "set_issubset_internal E s t proper =
     (if proper \<and> set_used s = set_used t then Some False else set_all_in E (set_items s) t)"

definition set_equal :: "'o obj_ops \<Rightarrow> 'o mp_set \<Rightarrow> 'o mp_set \<Rightarrow> bool option" where
  "set_equal E s t = (if set_used s \<noteq> set_used t then Some False else set_issubset_internal E s t False)"

definition set_symmetric_difference_update :: "'o obj_ops \<Rightarrow> 'o list \<Rightarrow> 'o mp_set \<Rightarrow> 'o mp_set option" where
  "set_symmetric_difference_update E items s = set_lookup_all E True True items s"

definition set_symmetric_difference :: "'o obj_ops \<Rightarrow> 'o mp_set \<Rightarrow> 'o list \<Rightarrow> 'o mp_set option" where
  "set_symmetric_difference E s items = set_symmetric_difference_update E items (set_copy s)"

section \<open>Effects\<close>

lemma set_copy_ok: "set_ok E s \<Longrightarrow> set_ok E (set_copy s)" "set_mem E (set_copy s) x \<longleftrightarrow> set_mem E s x"
  by (simp_all add: set_copy_def set_ok_def set_mem_def)

lemma set_clear_ok: "set_ok E (mp_set_clear s)" "\<not> set_mem E (mp_set_clear s) x"
  using tab_ok_empty [of "op_hash E" "op_equal E" 0]
  by (simp_all add: mp_set_clear_def set_ok_def set_mem_def filled_count_def)

lemma set_items_iff: "a \<in> set (set_items s) \<longleftrightarrow> Key a \<in> set (set_table s)"
proof -
  have "a \<in> set (List.map_filter key_of ks) \<longleftrightarrow> Key a \<in> set ks" for ks
    by (induction ks) (auto simp: map_filter_simps key_of_def split: key.splits)
  then show ?thesis
    by (simp add: set_items_def)
qed

lemma set_mem_items: "set_mem E s x \<longleftrightarrow> (\<exists>a \<in> set (set_items s). op_equal E a x)"
  unfolding set_items_iff Bex_def set_mem_iff by (metis in_set_conv_nth)

lemma length_set_items: "length (set_items s) = filled_count (set_table s)"
  by (simp add: set_items_def map_filter_def filled_count_def key_of_def is_filled_def)
    (rule arg_cong [where f = length], rule filter_cong, auto split: key.splits)

lemma set_first_filled_some:
  "set_first_filled ks b = Some (i, a) \<Longrightarrow> b \<le> i \<and> i < b + length ks \<and> ks ! (i - b) = Key a"
proof (induction ks arbitrary: b)
  case (Cons k ks)
  show ?case
  proof (cases k)
    case (Key x)
    then show ?thesis
      using Cons.prems by simp
  qed (use Cons.prems Cons.IH [of "b + 1"] in \<open>auto simp: nth_Cons' Suc_diff_Suc Suc_le_eq\<close>)
qed simp

lemma set_first_filled_none: "set_first_filled ks b = None \<longleftrightarrow> (\<forall>a. Key a \<notin> set ks)"
  by (induction ks arbitrary: b) (auto split: key.splits)

context set_laws
begin

lemma set_lookup_all_ok:
  assumes "set_ok E s" and "\<not> (add \<and> remove)"
  obtains s' where "set_lookup_all E add remove xs s = Some s'" and "set_ok E s'"
    and "\<And>y. set_mem E s' y \<longleftrightarrow>
      (if list_ex (\<lambda>x. op_equal E x y) xs then (set_mem E s y \<or> add) \<and> \<not> remove else set_mem E s y)"
  using assms
proof (induction xs arbitrary: s thesis)
  case Nil
  then show ?case by simp
next
  case (Cons x xs)
  obtain r s1 where l: "mp_set_lookup E add remove x s = Some (r, s1)" and p: "set_post E add remove x s r s1"
    by (rule mp_set_lookup_total [OF Cons.prems(2)])
  have mem1: "set_mem E s1 y \<longleftrightarrow> (if op_equal E x y then (set_mem E s y \<or> add) \<and> \<not> remove else set_mem E s y)" for y
  proof -
    have "set_mem E s x \<longleftrightarrow> set_mem E s y" if "op_equal E x y"
      using that same_trans same_sym unfolding set_mem_iff by meson
    then show ?thesis
      using p Cons.prems(3) by (auto simp: set_post_def split: if_splits)
  qed
  have "set_ok E s1"
    using p by (simp add: set_post_def)
  from Cons.IH [OF _ this Cons.prems(3)] obtain s' where r: "set_lookup_all E add remove xs s1 = Some s'" "set_ok E s'"
    "\<And>y. set_mem E s' y \<longleftrightarrow>
      (if list_ex (\<lambda>x. op_equal E x y) xs then (set_mem E s1 y \<or> add) \<and> \<not> remove else set_mem E s1 y)"
    by blast
  show ?case
    by (rule Cons.prems(1) [of s']) (use r l mem1 Cons.prems(3) in auto)
qed

lemma mp_set_lookup_mem:
  assumes "set_ok E s"
  obtains r where "mp_set_lookup E False False x s = Some (r, s)" and "r \<noteq> None \<longleftrightarrow> set_mem E s x"
  by (rule mp_set_lookup_total [OF assms, of False False x]) (auto simp: set_post_def split: if_splits)

lemma set_lookup_all_one:
  assumes "mp_set_lookup E add remove x s = Some (r, s')"
  shows "set_lookup_all E add remove [x] s = Some s'"
  using assms by simp

lemma set_intersect_loop_ok:
  assumes "set_ok E s" and "set_ok E out"
  obtains out' where "set_intersect_loop E xs s out = Some out'" and "set_ok E out'"
    and "\<forall>y. set_mem E out' y \<longleftrightarrow> set_mem E out y \<or> set_mem E s y \<and> list_ex (\<lambda>x. op_equal E x y) xs"
  using assms(2)
proof (induction xs arbitrary: out thesis)
  case Nil
  then show ?case by simp
next
  case (Cons x xs)
  obtain r where l: "mp_set_lookup E False False x s = Some (r, s)" and r: "r \<noteq> None \<longleftrightarrow> set_mem E s x"
    by (rule mp_set_lookup_mem [OF assms(1)])
  have same: "set_mem E s x \<longleftrightarrow> set_mem E s y" if "op_equal E x y" for y
    using that same_trans same_sym unfolding set_mem_iff by meson
  obtain out1 where o: "(if r \<noteq> None then set_add E x out else Some out) = Some out1" "set_ok E out1"
    "\<And>y. set_mem E out1 y \<longleftrightarrow> set_mem E out y \<or> set_mem E s y \<and> op_equal E x y"
  proof (cases "set_mem E s x")
    case True
    obtain r' out1 where "mp_set_lookup E True False x out = Some (r', out1)" "set_post E True False x out r' out1"
      by (rule mp_set_lookup_total [OF Cons.prems(2)])
    moreover have "set_mem E out1 y \<longleftrightarrow> set_mem E out y \<or> op_equal E x y" for y
    proof -
      have "set_mem E out x \<longleftrightarrow> set_mem E out y" if "op_equal E x y"
        using that same_trans same_sym unfolding set_mem_iff by meson
      then show ?thesis
        using calculation(2) by (auto simp: set_post_def split: if_splits)
    qed
    ultimately show ?thesis
      using that [of out1] r True same by (auto simp: set_add_def set_post_def)
  qed (use that [of out] r Cons.prems(2) same in auto)
  obtain out' where f: "set_intersect_loop E xs s out1 = Some out'" "set_ok E out'"
    "\<forall>y. set_mem E out' y \<longleftrightarrow> set_mem E out1 y \<or> set_mem E s y \<and> list_ex (\<lambda>x. op_equal E x y) xs"
    by (rule Cons.IH [OF _ o(2)])
  show ?case
  proof (rule Cons.prems(1) [of out'])
    show "set_intersect_loop E (x # xs) s out = Some out'"
      using l o(1) f(1) by simp
  qed (use f o(3) in auto)
qed

lemma set_all_in_ok:
  assumes "set_ok E s"
  shows "set_all_in E xs s = Some (\<forall>x \<in> set xs. set_mem E s x)"
proof (induction xs)
  case (Cons x xs)
  obtain r where "mp_set_lookup E False False x s = Some (r, s)" and "r \<noteq> None \<longleftrightarrow> set_mem E s x"
    by (rule mp_set_lookup_mem [OF assms])
  with Cons show ?case
    by auto
qed simp

lemma set_isdisjoint_ok:
  assumes "set_ok E s"
  shows "set_isdisjoint E xs s = Some (\<forall>x \<in> set xs. \<not> set_mem E s x)"
proof (induction xs)
  case (Cons x xs)
  obtain r where "mp_set_lookup E False False x s = Some (r, s)" and "r \<noteq> None \<longleftrightarrow> set_mem E s x"
    by (rule mp_set_lookup_mem [OF assms])
  with Cons show ?case
    by auto
qed simp

text \<open>Two sets of the same size: one is within the other only when they are equal.\<close>

lemma set_mem_same: "op_equal E x y \<Longrightarrow> set_mem E s x \<longleftrightarrow> set_mem E s y"
  using same_trans same_sym unfolding set_mem_iff by meson

lemma distinct_keys_tail:
  assumes "\<forall>i < length (k # ks). \<forall>j < length (k # ks). \<forall>a b.
      (k # ks) ! i = Key a \<and> (k # ks) ! j = Key b \<and> op_equal E a b \<longrightarrow> i = j"
  shows "\<forall>i < length ks. \<forall>j < length ks. \<forall>a b. ks ! i = Key a \<and> ks ! j = Key b \<and> op_equal E a b \<longrightarrow> i = j"
  using assms by (metis Suc_less_eq length_Cons nth_Cons_Suc nat.inject)

lemma key_of_simps [simp]: "key_of (Key a) = Some a" "key_of KNull = None" "key_of KSentinel = None"
  by (simp_all add: key_of_def)

lemma distinct_items:
  assumes "\<forall>i < length ks. \<forall>j < length ks. \<forall>a b. ks ! i = Key a \<and> ks ! j = Key b \<and> op_equal E a b \<longrightarrow> i = j"
  shows "distinct (List.map_filter key_of ks) \<and>
    (\<forall>a b. Key a \<in> set ks \<and> Key b \<in> set ks \<and> op_equal E a b \<longrightarrow> a = b)"
proof
  show "\<forall>a b. Key a \<in> set ks \<and> Key b \<in> set ks \<and> op_equal E a b \<longrightarrow> a = b"
    using assms by (metis in_set_conv_nth key.inject)
  show "distinct (List.map_filter key_of ks)"
    using assms
  proof (induction ks)
    case (Cons k ks)
    have mem: "a \<in> set (List.map_filter key_of ks) \<longleftrightarrow> Key a \<in> set ks" for a
      by (induction ks) (auto simp: map_filter_simps key_of_def split: key.splits)
    have IH: "distinct (List.map_filter key_of ks)"
      by (rule Cons.IH [OF distinct_keys_tail [OF Cons.prems]])
    show ?case
    proof (cases k)
      case (Key x)
      have "Key x \<notin> set ks"
      proof
        assume "Key x \<in> set ks"
        then obtain j where "j < length ks" "ks ! j = Key x"
          by (auto simp: in_set_conv_nth)
        then show False
          using Cons.prems [rule_format, of 0 "Suc j" x x] Key same_refl by auto
      qed
      then show ?thesis
        using IH Key mem by (simp add: map_filter_simps)
    qed (use IH in \<open>simp_all add: map_filter_simps\<close>)
  qed (simp add: map_filter_simps)
qed

lemma set_ok_items:
  assumes "set_ok E s"
  shows "card (set (set_items s)) = set_used s"
    and "a \<in> set (set_items s) \<Longrightarrow> b \<in> set (set_items s) \<Longrightarrow> op_equal E a b \<Longrightarrow> a = b"
proof -
  have d: "\<forall>i < length (set_table s). \<forall>j < length (set_table s). \<forall>a b.
      set_table s ! i = Key a \<and> set_table s ! j = Key b \<and> op_equal E a b \<longrightarrow> i = j"
    using assms unfolding set_ok_def tab_ok_def by blast
  show "card (set (set_items s)) = set_used s"
    using distinct_items [OF d] assms length_set_items [of s]
    by (simp add: set_items_def [symmetric] distinct_card set_ok_def)
  show "a \<in> set (set_items s) \<Longrightarrow> b \<in> set (set_items s) \<Longrightarrow> op_equal E a b \<Longrightarrow> a = b"
    using distinct_items [OF d] by (simp add: set_items_iff)
qed

text \<open>Items of one set matched with items of another: the matching is injective.\<close>

lemma set_matching:
  assumes s: "set_ok E s" and sub: "\<forall>x \<in> set (set_items s). set_mem E t x"
  obtains f where "\<forall>a \<in> set (set_items s). f a \<in> set (set_items t) \<and> op_equal E (f a) a"
    and "inj_on f (set (set_items s))"
proof -
  obtain f where f: "\<forall>a \<in> set (set_items s). f a \<in> set (set_items t) \<and> op_equal E (f a) a"
    using sub unfolding set_mem_items by metis
  have "inj_on f (set (set_items s))"
  proof (rule inj_onI)
    fix a b assume ab: "a \<in> set (set_items s)" "b \<in> set (set_items s)" "f a = f b"
    then have "op_equal E (f a) a" "op_equal E (f a) b"
      using f by auto
    then have "op_equal E a b"
      using same_sym same_trans by blast
    then show "a = b"
      using set_ok_items(2) [OF s] ab by blast
  qed
  with f show ?thesis
    by (rule that)
qed

lemma set_items_mem: "x \<in> set (set_items s) \<Longrightarrow> set_mem E s x"
  using same_refl by (auto simp: set_mem_items)

lemma set_subset_equal:
  assumes s: "set_ok E s" and t: "set_ok E t" and used: "set_used s = set_used t"
    and sub: "\<forall>x \<in> set (set_items s). set_mem E t x"
  shows "set_mem E s y \<longleftrightarrow> set_mem E t y"
proof -
  obtain f where f: "\<forall>a \<in> set (set_items s). f a \<in> set (set_items t) \<and> op_equal E (f a) a"
    and "inj_on f (set (set_items s))"
    by (rule set_matching [OF s sub])
  then have "card (f ` set (set_items s)) = card (set (set_items t))"
    using set_ok_items(1) [OF s] set_ok_items(1) [OF t] used by (simp add: card_image)
  then have img: "f ` set (set_items s) = set (set_items t)"
    using f by (intro card_subset_eq) auto
  show ?thesis
  proof
    assume "set_mem E s y"
    then obtain a where a: "a \<in> set (set_items s)" "op_equal E a y"
      by (auto simp: set_mem_items)
    then show "set_mem E t y"
      using sub set_mem_same by blast
  next
    assume "set_mem E t y"
    then obtain b where b: "b \<in> set (set_items t)" "op_equal E b y"
      by (auto simp: set_mem_items)
    then obtain a where a: "a \<in> set (set_items s)" "b = f a"
      unfolding img [symmetric] by blast
    then have "op_equal E a y"
      using f b(2) same_sym same_trans by blast
    with a(1) show "set_mem E s y"
      by (auto simp: set_mem_items)
  qed
qed

lemma set_equal_ok:
  assumes s: "set_ok E s" and t: "set_ok E t"
  shows "set_equal E s t = Some (\<forall>y. set_mem E s y \<longleftrightarrow> set_mem E t y)"
proof (cases "set_used s = set_used t")
  case True
  have "set_equal E s t = Some (\<forall>x \<in> set (set_items s). set_mem E t x)"
    using True by (simp add: set_equal_def set_issubset_internal_def set_all_in_ok [OF t])
  also have "(\<forall>x \<in> set (set_items s). set_mem E t x) \<longleftrightarrow> (\<forall>y. set_mem E s y \<longleftrightarrow> set_mem E t y)"
    using set_subset_equal [OF s t True] set_items_mem by blast
  finally show ?thesis .
next
  case False
  have "\<not> (\<forall>y. set_mem E s y \<longleftrightarrow> set_mem E t y)"
  proof
    assume eq: "\<forall>y. set_mem E s y \<longleftrightarrow> set_mem E t y"
    have half: "set_used u \<le> set_used v" if u: "set_ok E u" and v: "set_ok E v"
      and uv: "\<forall>y. set_mem E u y \<longrightarrow> set_mem E v y" for u v
    proof -
      have "\<forall>x \<in> set (set_items u). set_mem E v x"
        using uv set_items_mem by blast
      then obtain f where f: "\<forall>a \<in> set (set_items u). f a \<in> set (set_items v) \<and> op_equal E (f a) a"
        and "inj_on f (set (set_items u))"
        by (rule set_matching [OF u])
      then have "card (set (set_items u)) \<le> card (set (set_items v))"
        using f by (intro card_inj_on_le [of f]) auto
      then show ?thesis
        using set_ok_items(1) [OF u] set_ok_items(1) [OF v] by simp
    qed
    show False
      using half [OF s t] half [OF t s] eq False by simp
  qed
  then show ?thesis
    using False by (simp add: set_equal_def)
qed

end

context set_laws
begin

lemma set_diff_args_ok:
  assumes "set_ok E s"
  shows "\<exists>s'. set_diff_args E args s = Some s' \<and> set_ok E s' \<and>
    (\<forall>y. set_mem E s' y \<longleftrightarrow> set_mem E s y \<and>
       \<not> list_ex (\<lambda>(is_self, items). is_self \<or> list_ex (\<lambda>x. op_equal E x y) items) args)"
  using assms
proof (induction args arbitrary: s)
  case (Cons arg args)
  obtain is_self items where arg: "arg = (is_self, items)"
    by fastforce
  show ?case
  proof (cases is_self)
    case True
    from Cons.IH [OF set_clear_ok(1)] show ?thesis
      by (auto simp: arg True set_clear_ok(2))
  next
    case False
    obtain s1 where s1: "set_lookup_all E False True items s = Some s1" "set_ok E s1"
      "\<And>y. set_mem E s1 y \<longleftrightarrow> (if list_ex (\<lambda>x. op_equal E x y) items then (set_mem E s y \<or> False) \<and> \<not> True else set_mem E s y)"
      using set_lookup_all_ok [OF Cons.prems, of False True items] by auto
    then show ?thesis
      using Cons.IH [OF s1(2)] by (auto simp: arg False s1(3))
  qed
qed simp

lemma set_update_int_ok:
  assumes "set_ok E s"
  shows "\<exists>s'. set_update_int E items s = Some s' \<and> set_ok E s' \<and>
    (\<forall>y. set_mem E s' y \<longleftrightarrow> set_mem E s y \<or> list_ex (\<lambda>x. op_equal E x y) items)"
proof -
  obtain s1 where "set_lookup_all E True False items s = Some s1" "set_ok E s1"
    "\<And>y. set_mem E s1 y \<longleftrightarrow> (if list_ex (\<lambda>x. op_equal E x y) items then (set_mem E s y \<or> True) \<and> \<not> False else set_mem E s y)"
    using set_lookup_all_ok [OF assms, of True False items] by auto
  then show ?thesis
    by (auto simp: set_update_int_def)
qed

end

context set_laws
begin

lemma set_toggle_all_ok:
  assumes "set_ok E s"
  shows "\<exists>s'. set_lookup_all E True True items s = Some s' \<and> set_ok E s' \<and>
    (\<forall>y. set_mem E s' y \<longleftrightarrow> (set_mem E s y \<noteq> odd (length (filter (\<lambda>x. op_equal E x y) items))))"
  using assms
proof (induction items arbitrary: s)
  case (Cons x items)
  obtain r s1 where l: "mp_set_lookup E True True x s = Some (r, s1)" and p: "set_post E True True x s r s1"
    by (rule mp_set_lookup_total [OF Cons.prems])
  have mem1: "set_mem E s1 y \<longleftrightarrow> (set_mem E s y \<noteq> op_equal E x y)" for y
    using p set_mem_same [of x y s] by (auto simp: set_post_def split: if_splits)
  have "set_ok E s1"
    using p by (simp add: set_post_def)
  from Cons.IH [OF this] show ?case
    by (auto simp: l mem1)
qed simp

end

end
