(* ===== verification/Qstr.thy ===== *)
theory Qstr
  imports Prelude "HOL-Library.List_Lexorder" "HOL-Library.Monad_Syntax"
begin

text \<open>
  The interned strings of \<^verbatim>\<open>py/qstr.c\<close>: pools of strings, the last pool first, and the chunk
  of memory that holds the bytes of the strings interned at run time. A string is the list of its
  bytes. The state is a record, and what the memory manager answers is an argument.
\<close>

section \<open>State\<close>

record qstr_entry =
  entry_hash :: nat
  entry_str :: "u8 list"

record qstr_pool =
  total_prev_len :: nat
  is_sorted :: bool
  pool_alloc :: nat
  entries :: "qstr_entry list"

record qstr_state =
  pools :: "qstr_pool list"
  qstr_last_chunk :: bool
  qstr_last_alloc :: nat
  qstr_last_used :: nat

text \<open>The answers to \<^verbatim>\<open>m_renew_maybe\<close>, to the two calls of \<^verbatim>\<open>m_new_maybe\<close> and to \<^verbatim>\<open>m_malloc_maybe\<close>.\<close>

record alloc_answers =
  can_grow :: bool
  can_chunk :: bool
  can_exact :: bool
  can_pool :: bool

definition MP_QSTR_empty :: nat where "MP_QSTR_empty = 1"
definition MICROPY_ALLOC_QSTR_CHUNK_INIT :: nat where "MICROPY_ALLOC_QSTR_CHUNK_INIT = 128"
definition MICROPY_ALLOC_QSTR_ENTRIES_INIT :: nat where "MICROPY_ALLOC_QSTR_ENTRIES_INIT = 10"

section \<open>Operations\<close>

text \<open>\<^verbatim>\<open>djb2\<close> on a 32-bit \<^verbatim>\<open>size_t\<close>, with the mask of one byte.\<close>

fun qstr_hash_loop :: "u8 list \<Rightarrow> u32 \<Rightarrow> u32" where
  "qstr_hash_loop [] hash = hash"
| "qstr_hash_loop (b # bs) hash = qstr_hash_loop bs ((push_bit 5 hash + hash) XOR ucast b)"

definition qstr_compute_hash :: "u8 list \<Rightarrow> nat" where
  "qstr_compute_hash data =
     (let hash = unat (qstr_hash_loop data 5381 AND 255) in if hash = 0 then hash + 1 else hash)"

fun find_qstr :: "qstr_pool list \<Rightarrow> nat \<Rightarrow> qstr_entry option" where
  "find_qstr [] q = None"
| "find_qstr (pool # ps) q =
     (if q < total_prev_len pool then find_qstr ps q
      else if q - total_prev_len pool < length (entries pool) then Some (entries pool ! (q - total_prev_len pool))
      else None)"

definition qstr_hash :: "qstr_state \<Rightarrow> nat \<Rightarrow> nat option" where
  "qstr_hash S q = map_option entry_hash (find_qstr (pools S) q)"

definition qstr_len :: "qstr_state \<Rightarrow> nat \<Rightarrow> nat option" where
  "qstr_len S q = map_option (\<lambda>e. length (entry_str e)) (find_qstr (pools S) q)"

definition qstr_str :: "qstr_state \<Rightarrow> nat \<Rightarrow> u8 list option" where
  "qstr_str S q = map_option entry_str (find_qstr (pools S) q)"

text \<open>
  \<^verbatim>\<open>strncmp(str, qstr, str_len)\<close>, where the second string ends in a zero byte: the sign of the
  result.
\<close>

fun strncmp :: "u8 list \<Rightarrow> u8 list \<Rightarrow> int" where
  "strncmp [] q = 0"
| "strncmp (x # xs) [] = (if x = 0 then 0 else 1)"
| "strncmp (x # xs) (y # ys) =
     (if x \<noteq> y then (if x < y then -1 else 1) else if x = 0 then 0 else strncmp xs ys)"

function qstr_bsearch :: "u8 list \<Rightarrow> qstr_entry list \<Rightarrow> nat \<Rightarrow> nat \<Rightarrow> nat \<times> nat" where
  "qstr_bsearch str es low high =
     (if 1 < high - low
      then let mid = (low + high) div 2
        in if strncmp str (entry_str (es ! mid)) \<le> 0 then qstr_bsearch str es low mid else qstr_bsearch str es mid high
      else (low, high))"
  by auto
termination
  by (relation "measure (\<lambda>(str, es, low, high). high - low)") auto

declare qstr_bsearch.simps [simp del]

fun qstr_scan :: "nat \<Rightarrow> u8 list \<Rightarrow> qstr_entry list \<Rightarrow> nat \<Rightarrow> nat option" where
  "qstr_scan hash str [] at = None"
| "qstr_scan hash str (e # es) at =
     (if entry_hash e = hash \<and> length (entry_str e) = length str \<and> entry_str e = str then Some at
      else qstr_scan hash str es (at + 1))"

text \<open>A sorted pool is not empty: the search would start from index \<^verbatim>\<open>len - 1\<close>.\<close>

definition qstr_find_pool :: "nat \<Rightarrow> u8 list \<Rightarrow> qstr_pool \<Rightarrow> nat option" where
  "qstr_find_pool hash str pool =
     (let (low, high) = (if is_sorted pool then qstr_bsearch str (entries pool) 0 (length (entries pool) - 1)
                         else (0, length (entries pool) - 1))
      in map_option (\<lambda>at. total_prev_len pool + at) (qstr_scan hash str (drop low (take (high + 1) (entries pool))) low))"

fun qstr_find_loop :: "nat \<Rightarrow> u8 list \<Rightarrow> qstr_pool list \<Rightarrow> nat" where
  "qstr_find_loop hash str [] = 0"
| "qstr_find_loop hash str (pool # ps) =
     (case qstr_find_pool hash str pool of Some q \<Rightarrow> q | None \<Rightarrow> qstr_find_loop hash str ps)"

definition qstr_find_strn :: "qstr_state \<Rightarrow> u8 list \<Rightarrow> nat" where
  "qstr_find_strn S str =
     (if str = [] then MP_QSTR_empty else qstr_find_loop (qstr_compute_hash str) str (pools S))"

text \<open>A new pool has room for twice as many strings as the last one, and for ten at least: the pool of the frozen code may have few.\<close>

definition qstr_add :: "bool \<Rightarrow> u8 list \<Rightarrow> qstr_state \<Rightarrow> (mp_error + nat) \<times> qstr_state" where
  "qstr_add pool_ok str S =
     (case pools S of
        [] \<Rightarrow> (Inl RuntimeError, S)
      | pool # ps \<Rightarrow>
          if pool_alloc pool \<le> length (entries pool) \<and> \<not> pool_ok
          then (Inl MemoryError, S\<lparr>qstr_last_chunk := False\<rparr>)
          else let (pool, ps) =
                 (if pool_alloc pool \<le> length (entries pool)
                  then (\<lparr>total_prev_len = total_prev_len pool + length (entries pool), is_sorted = False,
                         pool_alloc = max MICROPY_ALLOC_QSTR_ENTRIES_INIT (pool_alloc pool * 2), entries = []\<rparr>, pool # ps)
                  else (pool, ps))
               in (Inr (total_prev_len pool + length (entries pool)),
                   S\<lparr>pools := pool\<lparr>entries := entries pool @ [\<lparr>entry_hash = qstr_compute_hash str, entry_str = str\<rparr>]\<rparr> # ps\<rparr>))"

text \<open>The memory for the bytes of a new string: the chunk grown in place, or a new one.\<close>

definition qstr_chunk :: "alloc_answers \<Rightarrow> nat \<Rightarrow> qstr_state \<Rightarrow> (mp_error + unit) \<times> qstr_state" where
  "qstr_chunk A n_bytes S =
     (let S = (if qstr_last_chunk S \<and> qstr_last_alloc S < qstr_last_used S + n_bytes
               then if can_grow A then S\<lparr>qstr_last_alloc := qstr_last_alloc S + n_bytes\<rparr> else S\<lparr>qstr_last_chunk := False\<rparr>
               else S)
      in if qstr_last_chunk S then (Inr (), S\<lparr>qstr_last_used := qstr_last_used S + n_bytes\<rparr>)
         else if can_chunk A
         then (Inr (), S\<lparr>qstr_last_chunk := True, qstr_last_alloc := max n_bytes MICROPY_ALLOC_QSTR_CHUNK_INIT, qstr_last_used := n_bytes\<rparr>)
         else if can_exact A
         then (Inr (), S\<lparr>qstr_last_chunk := True, qstr_last_alloc := n_bytes, qstr_last_used := n_bytes\<rparr>)
         else (Inl MemoryError, S))"

definition qstr_from_strn_helper :: "alloc_answers \<Rightarrow> u8 list \<Rightarrow> bool \<Rightarrow> qstr_state \<Rightarrow> (mp_error + nat) \<times> qstr_state" where
  "qstr_from_strn_helper A str data_is_static S =
     (let q = qstr_find_strn S str
      in if q \<noteq> 0 then (Inr q, S)
         else if 256 \<le> length str then (Inl RuntimeError, S)
         else if data_is_static then qstr_add (can_pool A) str S
         else case qstr_chunk A (length str + 1) S of
                (Inl e, S) \<Rightarrow> (Inl e, S)
              | (Inr _, S) \<Rightarrow> qstr_add (can_pool A) str S)"

definition qstr_from_strn :: "alloc_answers \<Rightarrow> u8 list \<Rightarrow> qstr_state \<Rightarrow> (mp_error + nat) \<times> qstr_state" where
  "qstr_from_strn A str S = qstr_from_strn_helper A str False S"

text \<open>\<^verbatim>\<open>qstr_pool_info\<close> without the sizes that the collector reports: pools, strings and their bytes.\<close>

fun qstr_pool_info :: "nat \<Rightarrow> qstr_pool list \<Rightarrow> nat \<times> nat \<times> nat" where
  "qstr_pool_info const_pools [] = (0, 0, 0)"
| "qstr_pool_info const_pools (pool # ps) =
     (if length (pool # ps) = const_pools then (0, 0, 0)
      else let (n_pool, n_qstr, n_bytes) = qstr_pool_info const_pools ps
        in (n_pool + 1, n_qstr + length (entries pool), n_bytes + sum_list (map (\<lambda>e. length (entry_str e) + 1) (entries pool))))"

section \<open>The search\<close>

lemma qstr_scan_iff:
  "qstr_scan hash str es at = Some q \<Longrightarrow>
     at \<le> q \<and> q - at < length es \<and> entry_str (es ! (q - at)) = str \<and> entry_hash (es ! (q - at)) = hash"
  by (induction es arbitrary: at) (fastforce split: if_splits simp: nth_Cons')+

lemma qstr_scan_None:
  "qstr_scan hash str es at = None \<longleftrightarrow> (\<forall>e \<in> set es. entry_str e = str \<longrightarrow> entry_hash e \<noteq> hash)"
  by (induction es arbitrary: at) auto

lemma strncmp_le: "0 \<notin> set str \<Longrightarrow> strncmp str q \<le> 0 \<Longrightarrow> str \<le> q"
  by (induction str q rule: strncmp.induct) (auto split: if_splits)

lemma strncmp_greater: "strncmp str q > 0 \<Longrightarrow> q < str"
  by (induction str q rule: strncmp.induct) (auto split: if_splits)

text \<open>The bounds of the binary search keep every position of the string between them.\<close>

lemma qstr_bsearch_keeps:
  assumes "sorted_wrt (\<lambda>a b. entry_str a < entry_str b) es" and "0 \<notin> set str"
    and "i < length es" and "entry_str (es ! i) = str" and "low \<le> i" and "i \<le> high" and "high < length es"
    and "qstr_bsearch str es low high = (low', high')"
  shows "low' \<le> i \<and> i \<le> high' \<and> high' < length es"
  using assms
proof (induction str es low high rule: qstr_bsearch.induct)
  case (1 str es low high)
  note prems = "1.prems"
  show ?case
  proof (cases "1 < high - low")
    case True
    define mid where "mid = (low + high) div 2"
    have mid: "mid < high" "low \<le> mid" "mid < length es"
      using True prems(7) by (auto simp: mid_def)
    show ?thesis
    proof (cases "strncmp str (entry_str (es ! mid)) \<le> 0")
      case le: True
      have "i \<le> mid"
      proof (rule ccontr)
        assume "\<not> i \<le> mid"
        then have "entry_str (es ! mid) < entry_str (es ! i)"
          using sorted_wrt_nth_less [OF prems(1)] prems(3) by simp
        then show False
          using strncmp_le [OF prems(2) le] prems(4) by simp
      qed
      then show ?thesis
        using "1.IH"(1) [OF True mid_def le prems(1-5) _ mid(3)] prems(8) True le
        by (subst (asm) (2) qstr_bsearch.simps) (simp add: mid_def Let_def)
    next
      case gt: False
      have "mid \<le> i"
      proof (rule ccontr)
        assume "\<not> mid \<le> i"
        then have "entry_str (es ! i) < entry_str (es ! mid)"
          using sorted_wrt_nth_less [OF prems(1)] mid(3) by simp
        then show False
          using strncmp_greater [of str "entry_str (es ! mid)"] gt prems(4) by simp
      qed
      then show ?thesis
        using "1.IH"(2) [OF True mid_def gt prems(1-4) _ prems(6,7)] prems(8) True gt
        by (subst (asm) (2) qstr_bsearch.simps) (simp add: mid_def Let_def)
    qed
  next
    case False
    then show ?thesis
      using prems by (subst (asm) qstr_bsearch.simps) simp
  qed
qed

section \<open>Interning\<close>

definition qstrs :: "qstr_pool list \<Rightarrow> qstr_entry list" where
  "qstrs ps = concat (map entries (rev ps))"

fun pools_ok :: "qstr_pool list \<Rightarrow> bool" where
  "pools_ok [] \<longleftrightarrow> True"
| "pools_ok (pool # ps) \<longleftrightarrow>
     pools_ok ps \<and> total_prev_len pool = length (qstrs ps) \<and> 0 < pool_alloc pool \<and>
     (is_sorted pool \<longrightarrow> entries pool \<noteq> [] \<and> sorted_wrt (\<lambda>a b. entry_str a < entry_str b) (entries pool) \<and>
        (\<forall>e \<in> set (entries pool). 0 \<notin> set (entry_str e)))"

definition qstr_ok :: "qstr_state \<Rightarrow> bool" where
  "qstr_ok S \<longleftrightarrow>
     pools_ok (pools S) \<and> (let es = qstrs (pools S) in
       2 \<le> length es \<and> es ! 0 = \<lparr>entry_hash = 0, entry_str = []\<rparr> \<and> entry_str (es ! 1) = [] \<and>
       (\<forall>i < length es. 0 < i \<longrightarrow> entry_hash (es ! i) = qstr_compute_hash (entry_str (es ! i)) \<and> length (entry_str (es ! i)) < 256) \<and>
       distinct (map entry_str (tl es))) \<and>
     (qstr_last_chunk S \<longrightarrow> qstr_last_used S \<le> qstr_last_alloc S)"

lemma qstrs_Cons [simp]: "qstrs (pool # ps) = qstrs ps @ entries pool" "qstrs [] = []"
  by (simp_all add: qstrs_def)

lemma find_qstr_eq:
  "pools_ok ps \<Longrightarrow> find_qstr ps q = (if q < length (qstrs ps) then Some (qstrs ps ! q) else None)"
  by (induction ps) (auto simp: nth_append)

lemma hash_positive: "0 < qstr_compute_hash s"
  by (simp add: qstr_compute_hash_def Let_def)

text \<open>The search of one pool and of all pools.\<close>

lemma qstr_find_pool_Some:
  assumes "qstr_find_pool h s pool = Some q" and "entries pool \<noteq> [] \<or> \<not> is_sorted pool"
  shows "total_prev_len pool \<le> q \<and> q - total_prev_len pool < length (entries pool) \<and>
    entry_str (entries pool ! (q - total_prev_len pool)) = s \<and> entry_hash (entries pool ! (q - total_prev_len pool)) = h"
proof -
  obtain low high where lh: "(if is_sorted pool then qstr_bsearch s (entries pool) 0 (length (entries pool) - 1)
      else (0, length (entries pool) - 1)) = (low, high)"
    by fastforce
  then obtain at where at: "q = total_prev_len pool + at"
    "qstr_scan h s (drop low (take (high + 1) (entries pool))) low = Some at"
    using assms(1) by (auto simp: qstr_find_pool_def)
  note scan = qstr_scan_iff [OF at(2)]
  then have b: "at < length (entries pool)" "at < high + 1" "low \<le> at"
    by auto
  then have nth: "drop low (take (high + 1) (entries pool)) ! (at - low) = entries pool ! at"
    by (subst nth_drop) auto
  show ?thesis
    using scan b unfolding nth at(1) by simp
qed

lemma qstr_find_pool_None:
  assumes none: "qstr_find_pool (qstr_compute_hash s) s pool = None" and ok: "pools_ok (pool # ps)"
    and i: "i < length (entries pool)"
    and h: "entry_hash (entries pool ! i) = qstr_compute_hash s" and s: "entry_str (entries pool ! i) = s"
  shows False
proof -
  obtain low high where lh: "(if is_sorted pool then qstr_bsearch s (entries pool) 0 (length (entries pool) - 1)
      else (0, length (entries pool) - 1)) = (low, high)"
    by fastforce
  have bounds: "low \<le> i" "i \<le> high"
  proof -
    have "low \<le> i \<and> i \<le> high"
    proof (cases "is_sorted pool")
      case True
      then have "sorted_wrt (\<lambda>a b. entry_str a < entry_str b) (entries pool)" "0 \<notin> set s"
        using ok s nth_mem [OF i] by auto
      then show ?thesis
        using qstr_bsearch_keeps [of "entries pool" s i 0 "length (entries pool) - 1" low high] i s lh True by auto
    qed (use lh i in auto)
    then show "low \<le> i" "i \<le> high" by auto
  qed
  have "entries pool ! i \<in> set (drop low (take (high + 1) (entries pool)))"
    using bounds i by (auto simp: in_set_conv_nth intro!: exI [of _ "i - low"])
  moreover have "qstr_scan (qstr_compute_hash s) s (drop low (take (high + 1) (entries pool))) low = None"
    using none lh by (auto simp: qstr_find_pool_def)
  ultimately show False
    using h s by (auto simp: qstr_scan_None)
qed

lemma qstr_find_loop_ok:
  assumes "pools_ok ps" and "qstrs ps \<noteq> [] \<Longrightarrow> entry_hash (qstrs ps ! 0) = 0"
  shows "let q = qstr_find_loop (qstr_compute_hash s) s ps in
    if q = 0 then \<forall>i < length (qstrs ps). 0 < i \<longrightarrow> entry_hash (qstrs ps ! i) = qstr_compute_hash s \<longrightarrow> entry_str (qstrs ps ! i) \<noteq> s
    else q < length (qstrs ps) \<and> entry_str (qstrs ps ! q) = s"
  using assms
proof (induction ps)
  case (Cons pool ps)
  have ok: "total_prev_len pool = length (qstrs ps)" "entries pool \<noteq> [] \<or> \<not> is_sorted pool" "pools_ok ps"
    using Cons.prems(1) by auto
  have "entry_hash (qstrs ps ! 0) = 0" if "qstrs ps \<noteq> []"
    using Cons.prems(2) that by (auto simp: nth_append)
  note IH = Cons.IH [OF ok(3) this]
  show ?case
  proof (cases "qstr_find_pool (qstr_compute_hash s) s pool")
    case None
    have no: "entry_hash (entries pool ! i) = qstr_compute_hash s \<Longrightarrow> entry_str (entries pool ! i) = s \<Longrightarrow> False"
      if "i < length (entries pool)" for i
      using qstr_find_pool_None [OF None Cons.prems(1) that] .
    show ?thesis
    proof (cases "qstr_find_loop (qstr_compute_hash s) s ps = 0")
      case True
      have "entry_str (qstrs (pool # ps) ! i) \<noteq> s"
        if "i < length (qstrs (pool # ps))" "0 < i" "entry_hash (qstrs (pool # ps) ! i) = qstr_compute_hash s" for i
      proof (cases "i < length (qstrs ps)")
        case False
        then have "i - length (qstrs ps) < length (entries pool)"
          using that(1) by simp
        then show ?thesis
          using that no [of "i - length (qstrs ps)"] False by (auto simp: nth_append)
      qed (use IH ok True that in \<open>auto simp: Let_def nth_append\<close>)
      then show ?thesis
        by (simp add: None True)
    qed (use IH ok in \<open>auto simp: None Let_def nth_append\<close>)
  next
    case (Some q)
    note q = qstr_find_pool_Some [OF Some ok(2)]
    then have at: "q < length (qstrs (pool # ps))" "entry_str (qstrs (pool # ps) ! q) = s"
        "entry_hash (qstrs (pool # ps) ! q) = qstr_compute_hash s"
      using ok(1) by (auto simp: nth_append)
    have "q \<noteq> 0"
    proof
      assume "q = 0"
      then have "entry_hash (qstrs (pool # ps) ! q) = 0"
        using Cons.prems(2) at(1) by auto
      with at(3) hash_positive [of s] show False by simp
    qed
    then show ?thesis
      using at by (simp add: Some Let_def)
  qed
qed simp

text \<open>What a search of the whole table returns.\<close>

lemma qstr_ok_nth:
  assumes "qstr_ok S" and "0 < q" and "q < length (qstrs (pools S))"
  shows "entry_hash (qstrs (pools S) ! q) = qstr_compute_hash (entry_str (qstrs (pools S) ! q))"
  using assms by (simp add: qstr_ok_def Let_def)

lemma qstr_str_eq:
  "qstr_ok S \<Longrightarrow> qstr_str S q = (if q < length (qstrs (pools S)) then Some (entry_str (qstrs (pools S) ! q)) else None)"
  by (simp add: qstr_str_def qstr_ok_def find_qstr_eq Let_def)

lemma qstr_find_strn_ok:
  assumes S: "qstr_ok S"
  shows "if qstr_find_strn S s = 0 then \<forall>q. 0 < q \<longrightarrow> qstr_str S q \<noteq> Some s
    else qstr_str S (qstr_find_strn S s) = Some s"
proof (cases "s = []")
  case True
  then show ?thesis
    using S by (simp add: qstr_find_strn_def MP_QSTR_empty_def qstr_str_eq [OF S]) (simp add: qstr_ok_def Let_def)
next
  case False
  have ok: "pools_ok (pools S)" "qstrs (pools S) \<noteq> [] \<Longrightarrow> entry_hash (qstrs (pools S) ! 0) = 0"
    using S by (simp_all add: qstr_ok_def Let_def)
  show ?thesis
  proof (cases "qstr_find_strn S s = 0")
    case True
    then have none: "\<forall>i < length (qstrs (pools S)). 0 < i \<longrightarrow> entry_hash (qstrs (pools S) ! i) = qstr_compute_hash s \<longrightarrow>
        entry_str (qstrs (pools S) ! i) \<noteq> s"
      using qstr_find_loop_ok [OF ok, of s] False by (simp add: qstr_find_strn_def Let_def)
    have "entry_str (qstrs (pools S) ! i) \<noteq> s" if "i < length (qstrs (pools S))" "0 < i" for i
      using none that qstr_ok_nth [OF S that(2,1)] by auto
    then show ?thesis
      using True by (auto simp: qstr_str_eq [OF S])
  next
    case nz: False
    then show ?thesis
      using qstr_find_loop_ok [OF ok, of s] False by (simp add: qstr_find_strn_def Let_def qstr_str_eq [OF S])
  qed
qed

text \<open>A new string becomes the last entry.\<close>

lemma qstr_add_ok:
  assumes S: "qstr_ok S" and new: "\<forall>q. 0 < q \<longrightarrow> qstr_str S q \<noteq> Some s" and len: "length s < 256"
    and room: "\<not> is_sorted (hd (pools S)) \<or> pool_alloc (hd (pools S)) \<le> length (entries (hd (pools S)))"
  shows "case qstr_add pool_ok s S of
      (Inl e, S') \<Rightarrow> e = MemoryError \<and> \<not> pool_ok \<and> pools S' = pools S \<and> qstr_ok S'
    | (Inr q, S') \<Rightarrow> qstr_ok S' \<and> q = length (qstrs (pools S)) \<and>
        qstrs (pools S') = qstrs (pools S) @ [\<lparr>entry_hash = qstr_compute_hash s, entry_str = s\<rparr>] \<and>
        \<not> is_sorted (hd (pools S'))"
proof -
  have nonempty: "2 \<le> length (qstrs (pools S))"
    using S by (simp add: qstr_ok_def Let_def)
  then obtain pool ps where P: "pools S = pool # ps"
    by (cases "pools S") auto
  let ?e = "\<lparr>entry_hash = qstr_compute_hash s, entry_str = s\<rparr>"
  let ?es = "qstrs (pools S)"
  have fresh: "s \<notin> entry_str ` set (tl ?es)"
  proof
    assume "s \<in> entry_str ` set (tl ?es)"
    then obtain i where "i < length (tl ?es)" "entry_str (tl ?es ! i) = s"
      by (auto simp: in_set_conv_nth)
    then have "qstr_str S (i + 1) = Some s"
      by (simp add: qstr_str_eq [OF S] nth_tl)
    then show False
      using new by auto
  qed
  have es: "?es \<noteq> []"
    using nonempty by auto
  have table: "2 \<le> length (?es @ [?e]) \<and> (?es @ [?e]) ! 0 = \<lparr>entry_hash = 0, entry_str = []\<rparr> \<and>
      entry_str ((?es @ [?e]) ! 1) = [] \<and>
      (\<forall>i < length (?es @ [?e]). 0 < i \<longrightarrow> entry_hash ((?es @ [?e]) ! i) = qstr_compute_hash (entry_str ((?es @ [?e]) ! i)) \<and>
         length (entry_str ((?es @ [?e]) ! i)) < 256) \<and>
      distinct (map entry_str (tl (?es @ [?e])))"
    using S fresh len nonempty es by (auto simp: qstr_ok_def Let_def nth_append less_Suc_eq)
  consider (full) "pool_alloc pool \<le> length (entries pool)" "\<not> pool_ok"
    | (grow) "pool_alloc pool \<le> length (entries pool)" "pool_ok"
    | (room) "length (entries pool) < pool_alloc pool"
    by linarith
  then show ?thesis
  proof cases
    case full
    then show ?thesis
      using S by (simp add: qstr_add_def P qstr_ok_def)
  next
    case grow
    then show ?thesis
      using S table by (auto simp: qstr_add_def P qstr_ok_def Let_def)
  next
    case room
    then show ?thesis
      using S table assms(4) by (auto simp: qstr_add_def P qstr_ok_def Let_def)
  qed
qed

text \<open>The chunk.\<close>

lemma qstr_chunk_ok:
  assumes "qstr_last_chunk S \<Longrightarrow> qstr_last_used S \<le> qstr_last_alloc S"
  shows "case qstr_chunk A n S of (r, S') \<Rightarrow>
    pools S' = pools S \<and> (qstr_last_chunk S' \<longrightarrow> qstr_last_used S' \<le> qstr_last_alloc S') \<and>
    (case r of Inl e \<Rightarrow> e = MemoryError \<and> \<not> can_exact A | Inr _ \<Rightarrow> qstr_last_chunk S' \<and> n \<le> qstr_last_used S')"
  using assms by (auto simp: qstr_chunk_def Let_def split: if_splits)

lemma qstr_ok_chunk:
  assumes "qstr_ok S" and "pools S' = pools S" and "qstr_last_chunk S' \<longrightarrow> qstr_last_used S' \<le> qstr_last_alloc S'"
  shows "qstr_ok S'"
  using assms by (simp add: qstr_ok_def)

lemma qstr_str_append:
  assumes "qstr_ok S" and "qstr_ok S'" and "qstrs (pools S') = qstrs (pools S) @ [e]"
  shows "qstr_str S' q = (if q = length (qstrs (pools S)) then Some (entry_str e) else qstr_str S q)"
  by (simp add: qstr_str_eq assms nth_append)

definition qstr_pool_room :: "qstr_state \<Rightarrow> bool" where
  "qstr_pool_room S \<longleftrightarrow> \<not> is_sorted (hd (pools S)) \<or> pool_alloc (hd (pools S)) \<le> length (entries (hd (pools S)))"

lemma qstr_from_strn_ok:
  assumes S: "qstr_ok S" "qstr_pool_room S"
  shows "case qstr_from_strn A s S of
      (Inl e, S') \<Rightarrow> pools S' = pools S \<and> qstr_ok S' \<and> (\<forall>q. 0 < q \<longrightarrow> qstr_str S q \<noteq> Some s) \<and>
        (e = RuntimeError \<and> 256 \<le> length s \<or> e = MemoryError \<and> (\<not> can_pool A \<or> \<not> can_exact A))
    | (Inr q, S') \<Rightarrow> q \<noteq> 0 \<and> qstr_ok S' \<and> qstr_pool_room S' \<and> qstr_str S' q = Some s \<and>
        (\<forall>p t. qstr_str S p = Some t \<longrightarrow> qstr_str S' p = Some t)"
proof (cases "qstr_find_strn S s = 0")
  case False
  then show ?thesis
    using qstr_find_strn_ok [OF S(1), of s] S by (simp add: qstr_from_strn_def qstr_from_strn_helper_def Let_def)
next
  case True
  then have new: "\<forall>q. 0 < q \<longrightarrow> qstr_str S q \<noteq> Some s"
    using qstr_find_strn_ok [OF S(1), of s] by simp
  show ?thesis
  proof (cases "256 \<le> length s")
    case True
    then show ?thesis
      using \<open>qstr_find_strn S s = 0\<close> new S by (simp add: qstr_from_strn_def qstr_from_strn_helper_def Let_def)
  next
    case short: False
    obtain r S1 where c: "qstr_chunk A (length s + 1) S = (r, S1)"
      by fastforce
    have used: "qstr_last_chunk S \<Longrightarrow> qstr_last_used S \<le> qstr_last_alloc S"
      using S(1) by (simp add: qstr_ok_def)
    have S1: "pools S1 = pools S" "qstr_ok S1" "\<And>e. r = Inl e \<Longrightarrow> e = MemoryError \<and> \<not> can_exact A"
      using qstr_chunk_ok [OF used, of A "length s + 1", unfolded c prod.case] S(1) by (auto intro: qstr_ok_chunk)
    show ?thesis
    proof (cases r)
      case (Inl e)
      then show ?thesis
        using True short S1 new c by (simp add: qstr_from_strn_def qstr_from_strn_helper_def Let_def)
    next
      case (Inr u)
      have eq: "qstr_from_strn A s S = qstr_add (can_pool A) s S1"
        using True short c Inr by (simp add: qstr_from_strn_def qstr_from_strn_helper_def Let_def)
      have new1: "\<forall>q. 0 < q \<longrightarrow> qstr_str S1 q \<noteq> Some s"
        using new by (simp add: qstr_str_def S1(1))
      have room1: "\<not> is_sorted (hd (pools S1)) \<or> pool_alloc (hd (pools S1)) \<le> length (entries (hd (pools S1)))"
        using S(2) by (simp add: S1(1) qstr_pool_room_def)
      obtain res S2 where add: "qstr_add (can_pool A) s S1 = (res, S2)"
        by fastforce
      note ok = qstr_add_ok [OF S1(2) new1 _ room1, of "can_pool A", unfolded add]
      show ?thesis
      proof (cases res)
        case (Inl e)
        then show ?thesis
          using ok short new S1(1) unfolding eq add by simp
      next
        case Inr': (Inr q)
        have S2: "qstr_ok S2" "q = length (qstrs (pools S))" "\<not> is_sorted (hd (pools S2))"
          "qstrs (pools S2) = qstrs (pools S) @ [\<lparr>entry_hash = qstr_compute_hash s, entry_str = s\<rparr>]"
          using ok short Inr' S1(1) by simp_all
        note str = qstr_str_append [OF S(1) S2(1) S2(4)]
        have "q \<noteq> 0"
          using S(1) S2(2) by (auto simp: qstr_ok_def Let_def)
        moreover have "\<forall>p t. qstr_str S p = Some t \<longrightarrow> qstr_str S2 p = Some t"
          by (auto simp: str qstr_str_eq [OF S(1)] S2(2) split: if_splits)
        ultimately show ?thesis
          using S2 by (simp add: eq add Inr' str qstr_pool_room_def)
      qed
    qed
  qed
qed

text \<open>Interning makes the number of a string its identity.\<close>

lemma qstr_unique:
  assumes S: "qstr_ok S" and "0 < p" and "0 < q" and "qstr_str S p = Some s" and "qstr_str S q = Some s"
  shows "p = q"
proof -
  let ?es = "qstrs (pools S)"
  have pq: "p < length ?es" "q < length ?es" "entry_str (?es ! p) = entry_str (?es ! q)"
    using assms by (auto simp: qstr_str_eq split: if_splits)
  have "map entry_str (tl ?es) ! (p - 1) = map entry_str (tl ?es) ! (q - 1)"
    using assms(2,3) pq by (simp add: nth_tl)
  moreover have "distinct (map entry_str (tl ?es))"
    using S by (simp add: qstr_ok_def Let_def)
  ultimately have "p - 1 = q - 1"
    using nth_eq_iff_index_eq [of "map entry_str (tl ?es)" "p - 1" "q - 1"] assms(2,3) pq by simp
  then show ?thesis
    using assms(2,3) by simp
qed

end
