(* ===== verification/Py_Obj.thy ===== *)
theory Py_Obj
  imports Mp_Dict Mp_Set_Ops Qstr
begin

text \<open>
  The objects that keys mostly are: small integers, interned strings and string objects, with the
  equality of \<^verbatim>\<open>mp_obj_equal_not_equal\<close> (\<^verbatim>\<open>py/obj.c\<close>) and \<^verbatim>\<open>mp_obj_str_equal\<close> (\<^verbatim>\<open>py/objstr.c\<close>) and the
  hash of \<^verbatim>\<open>mp_unary_op\<close> (\<^verbatim>\<open>py/runtime.c\<close>). A qstr is the string it interns, which theory Qstr
  shows to be its identity. A string object has an address, and its hash field is either the
  hash of its bytes or zero, which stands for a hash that is not computed.
\<close>

datatype py_obj = SmallInt int | Qstr "u8 list" | Str nat bool "u8 list"

definition mp_obj_is_str :: "py_obj \<Rightarrow> bool" where
  "mp_obj_is_str x = (case x of SmallInt _ \<Rightarrow> False | _ \<Rightarrow> True)"

definition str_hash_field :: "py_obj \<Rightarrow> nat" where
  "str_hash_field x =
     (case x of SmallInt _ \<Rightarrow> 0 | Qstr s \<Rightarrow> qstr_compute_hash s | Str _ computed s \<Rightarrow> if computed then qstr_compute_hash s else 0)"

definition str_data :: "py_obj \<Rightarrow> u8 list" where
  "str_data x = (case x of SmallInt _ \<Rightarrow> [] | Qstr s \<Rightarrow> s | Str _ _ s \<Rightarrow> s)"

definition mp_obj_str_equal :: "py_obj \<Rightarrow> py_obj \<Rightarrow> bool" where
  "mp_obj_str_equal s1 s2 =
     (case (s1, s2) of
        (Qstr a, Qstr b) \<Rightarrow> a = b
      | _ \<Rightarrow>
          if str_hash_field s1 \<noteq> 0 \<and> str_hash_field s2 \<noteq> 0 \<and> str_hash_field s1 \<noteq> str_hash_field s2 then False
          else if length (str_data s1) \<noteq> length (str_data s2) then False
          else str_data s1 = str_data s2)"

definition mp_obj_equal :: "py_obj \<Rightarrow> py_obj \<Rightarrow> bool" where
  "mp_obj_equal o1 o2 = (o1 = o2 \<or> mp_obj_is_str o1 \<and> mp_obj_is_str o2 \<and> mp_obj_str_equal o1 o2)"

definition mp_obj_hash :: "py_obj \<Rightarrow> nat" where
  "mp_obj_hash x =
     (case x of
        SmallInt i \<Rightarrow> nat (i mod 2 ^ 32)
      | _ \<Rightarrow> if str_hash_field x = 0 then qstr_compute_hash (str_data x) else str_hash_field x)"

definition py_ops :: "(py_obj \<Rightarrow> nat) \<Rightarrow> py_obj obj_ops" where
  "py_ops word = \<lparr>op_is_qstr = (\<lambda>x. case x of Qstr _ \<Rightarrow> True | _ \<Rightarrow> False), op_is_str = (\<lambda>x. case x of Str _ _ _ \<Rightarrow> True | _ \<Rightarrow> False),
     op_hash = mp_obj_hash, op_equal = mp_obj_equal, op_word = word\<rparr>"

text \<open>Two objects are equal when they are the same small integer or hold the same bytes.\<close>

lemma str_equal_iff: "mp_obj_is_str a \<Longrightarrow> mp_obj_is_str b \<Longrightarrow> mp_obj_str_equal a b \<longleftrightarrow> str_data a = str_data b"
  using hash_positive [of "str_data a"]
  by (cases a; cases b) (auto simp: mp_obj_is_str_def mp_obj_str_equal_def str_data_def str_hash_field_def)

lemma mp_obj_equal_iff:
  "mp_obj_equal a b \<longleftrightarrow>
     (case (a, b) of (SmallInt i, SmallInt j) \<Rightarrow> i = j | (SmallInt _, _) \<Rightarrow> False | (_, SmallInt _) \<Rightarrow> False | _ \<Rightarrow> str_data a = str_data b)"
  by (cases a; cases b) (auto simp: mp_obj_equal_def str_equal_iff mp_obj_is_str_def str_data_def)

lemma mp_obj_hash_str: "mp_obj_is_str x \<Longrightarrow> mp_obj_hash x = qstr_compute_hash (str_data x)"
  using hash_positive by (cases x) (auto simp: mp_obj_hash_def mp_obj_is_str_def str_hash_field_def str_data_def)

lemma mp_obj_equal_hash: "mp_obj_equal a b \<Longrightarrow> mp_obj_hash a = mp_obj_hash b"
  by (cases a; cases b) (auto simp: mp_obj_equal_iff str_data_def mp_obj_hash_str [unfolded mp_obj_is_str_def])

lemma py_ops_simps [simp]:
  "op_is_qstr (py_ops w) a \<longleftrightarrow> (case a of Qstr _ \<Rightarrow> True | _ \<Rightarrow> False)"
  "op_is_str (py_ops w) a \<longleftrightarrow> (case a of Str _ _ _ \<Rightarrow> True | _ \<Rightarrow> False)"
  "op_hash (py_ops w) = mp_obj_hash" "op_equal (py_ops w) = mp_obj_equal" "op_word (py_ops w) = w"
  by (simp_all add: py_ops_def)

lemma py_same_key: "same_key (py_ops w) = mp_obj_equal"
  by (intro ext) (auto simp: same_key_def mp_obj_equal_def)

lemma mp_obj_equal_refl: "mp_obj_equal a a"
  and mp_obj_equal_sym: "mp_obj_equal a b \<Longrightarrow> mp_obj_equal b a"
  and mp_obj_equal_trans: "mp_obj_equal a b \<Longrightarrow> mp_obj_equal b c \<Longrightarrow> mp_obj_equal a c"
  by (auto simp: mp_obj_equal_iff split: py_obj.splits)

interpretation py: obj_laws "py_ops w" for w
  by unfold_locales (auto simp: py_same_key mp_obj_equal_refl mp_obj_equal_sym mp_obj_equal_iff str_data_def
      mp_obj_equal_hash intro: mp_obj_equal_trans split: py_obj.splits)

interpretation py_sets: set_laws "py_ops w" for w
  by unfold_locales (auto simp: mp_obj_equal_refl mp_obj_equal_sym mp_obj_equal_hash intro: mp_obj_equal_trans)

end
