(* ===== verification/Small_Int.thy ===== *)
theory Small_Int
  imports Prelude "HOL-Library.Signed_Division"
begin

text \<open>
  Small integers of \<^verbatim>\<open>py/smallint.c\<close> and \<^verbatim>\<open>py/smallint.h\<close>, for a 32-bit machine word and object
  representation A: the value in the upper 31 bits of the object word. A value of type
  \<^verbatim>\<open>mp_int_t\<close> is a word of 32 bits that is read with \<^const>\<open>sint\<close>.
\<close>

definition MSBIT_HIGH :: u32 where "MSBIT_HIGH = 0x80000000"

definition MP_SMALL_INT_MIN :: u32 where "MP_SMALL_INT_MIN = signed_drop_bit 1 MSBIT_HIGH"

definition MP_SMALL_INT_MAX :: u32 where "MP_SMALL_INT_MAX = NOT MP_SMALL_INT_MIN"

definition MP_SMALL_INT_FITS :: "u32 \<Rightarrow> bool" where
  "MP_SMALL_INT_FITS n \<longleftrightarrow> (n XOR push_bit 1 n) AND MSBIT_HIGH = 0"

definition MP_SMALL_INT_POSITIVE_MASK :: u32 where
  "MP_SMALL_INT_POSITIVE_MASK = NOT (MSBIT_HIGH OR drop_bit 1 MSBIT_HIGH)"

definition MP_OBJ_NEW_SMALL_INT :: "u32 \<Rightarrow> u32" where
  "MP_OBJ_NEW_SMALL_INT v = push_bit 1 v OR 1"

definition MP_OBJ_SMALL_INT_VALUE :: "u32 \<Rightarrow> u32" where
  "MP_OBJ_SMALL_INT_VALUE ob = signed_drop_bit 1 ob"

text \<open>Division of C, which rounds towards zero.\<close>

definition c_div :: "u32 \<Rightarrow> u32 \<Rightarrow> u32" where "c_div x y = word_of_int (sint x sdiv sint y)"

definition c_mod :: "u32 \<Rightarrow> u32 \<Rightarrow> u32" where "c_mod x y = word_of_int (sint x smod sint y)"

definition mp_small_int_mul_overflow :: "u32 \<Rightarrow> u32 \<Rightarrow> bool" where
  "mp_small_int_mul_overflow x y \<longleftrightarrow>
     (if 0 <s x
      then if 0 <s y then c_div MP_SMALL_INT_MAX y <s x else y <s c_div MP_SMALL_INT_MIN x
      else if 0 <s y then x <s c_div MP_SMALL_INT_MIN y else x \<noteq> 0 \<and> y <s c_div MP_SMALL_INT_MAX x)"

definition mp_small_int_modulo :: "u32 \<Rightarrow> u32 \<Rightarrow> u32" where
  "mp_small_int_modulo dividend divisor =
     (let dividend = c_mod dividend divisor
      in if dividend <s 0 \<and> 0 <s divisor \<or> 0 <s dividend \<and> divisor <s 0 then dividend + divisor else dividend)"

definition mp_small_int_floor_divide :: "u32 \<Rightarrow> u32 \<Rightarrow> u32" where
  "mp_small_int_floor_divide num denom =
     (let num = (if 0 \<le>s num then if denom <s 0 then num + (- denom - 1) else num
                 else if 0 \<le>s denom then num + (- denom + 1) else num)
      in c_div num denom)"

section \<open>Signed words\<close>

lemma sint_word_of_int: "- 2147483648 \<le> k \<Longrightarrow> k < 2147483648 \<Longrightarrow> sint (word_of_int k :: u32) = k"
  by (simp add: sint_sbintrunc' signed_take_bit_int_eq_self)

lemma sint_range: "- 2147483648 \<le> sint (x :: u32)" "sint (x :: u32) < 2147483648"
  using sint_ge [of x] sint_lt [of x] by simp_all

lemma sint_add: "- 2147483648 \<le> sint x + sint y \<Longrightarrow> sint x + sint y < 2147483648 \<Longrightarrow> sint (x + y :: u32) = sint x + sint y"
  using sint_word_of_int [of "sint x + sint y"] by simp

lemma sint_sub: "- 2147483648 \<le> sint x - sint y \<Longrightarrow> sint x - sint y < 2147483648 \<Longrightarrow> sint (x - y :: u32) = sint x - sint y"
  using sint_word_of_int [of "sint x - sint y"] by simp

lemma sint_mul: "- 2147483648 \<le> sint x * sint y \<Longrightarrow> sint x * sint y < 2147483648 \<Longrightarrow> sint (x * y :: u32) = sint x * sint y"
  using sint_word_of_int [of "sint x * sint y"] by simp

lemma sint_neg: "- 2147483648 < sint x \<Longrightarrow> sint (- x :: u32) = - sint x"
  using sint_word_of_int [of "- sint x"] sint_range [of x] by simp

definition small_range :: "int \<Rightarrow> bool" where
  "small_range k \<longleftrightarrow> - 1073741824 \<le> k \<and> k < 1073741824"

lemma sint_bounds: "sint MP_SMALL_INT_MIN = - 1073741824" "sint MP_SMALL_INT_MAX = 1073741823"
proof -
  have m: "sint MSBIT_HIGH = - 2147483648"
    by (simp add: MSBIT_HIGH_def)
  show n: "sint MP_SMALL_INT_MIN = - 1073741824"
    by (simp add: MP_SMALL_INT_MIN_def sint_signed_drop_bit_eq m drop_bit_eq_div)
  have "sint (NOT MP_SMALL_INT_MIN) = NOT (sint MP_SMALL_INT_MIN)"
    by (simp add: not_eq_complement) (use sint_neg [of MP_SMALL_INT_MIN] sint_sub [of "- MP_SMALL_INT_MIN" 1] n in simp)
  then show "sint MP_SMALL_INT_MAX = 1073741823"
    by (simp add: MP_SMALL_INT_MAX_def n)
qed

lemma fits_iff: "MP_SMALL_INT_FITS n \<longleftrightarrow> small_range (sint n)"
proof -
  have bits: "bit (sint n) i = bit n (min i 31)" for i
    using bit_imp_le_length [of n i] by (auto simp: bit_sint_iff min_def)
  have "bit MSBIT_HIGH i \<longleftrightarrow> i = 31" for i
  proof -
    have eq: "MSBIT_HIGH = push_bit 31 1"
      by (simp add: MSBIT_HIGH_def)
    have "bit (push_bit 31 1 :: u32) i \<longleftrightarrow> 31 \<le> i \<and> i < 32 \<and> i - 31 = 0"
      by (simp only: bit_push_bit_iff bit_1_iff) auto
    then show ?thesis
      unfolding eq by auto
  qed
  then have m: "bit ((n XOR push_bit 1 n) AND MSBIT_HIGH) i \<longleftrightarrow> i = 31 \<and> bit n 31 \<noteq> bit n 30" for i
    by (simp only: bit_and_iff bit_xor_iff bit_push_bit_iff) auto
  have z: "x = 0 \<longleftrightarrow> (\<forall>i. \<not> bit x i)" for x :: u32
    by (auto intro: bit_eqI)
  have "MP_SMALL_INT_FITS n \<longleftrightarrow> (bit n 31 \<longleftrightarrow> bit n 30)"
    unfolding MP_SMALL_INT_FITS_def z [of "(n XOR push_bit 1 n) AND MSBIT_HIGH"] m by blast
  also have "\<dots> \<longleftrightarrow> signed_take_bit 30 (sint n) = sint n"
  proof
    assume eq: "bit n 31 \<longleftrightarrow> bit n 30"
    show "signed_take_bit 30 (sint n) = sint n"
    proof (rule bit_eqI)
      fix i
      show "bit (signed_take_bit 30 (sint n)) i = bit (sint n) i"
        using eq by (cases "i \<le> 30"; cases "i = 31") (auto simp: bit_signed_take_bit_iff bits min_def)
    qed
  next
    assume "signed_take_bit 30 (sint n) = sint n"
    then have "bit (signed_take_bit 30 (sint n)) 31 = bit (sint n) 31"
      by simp
    then show "bit n 31 \<longleftrightarrow> bit n 30"
      by (simp add: bit_signed_take_bit_iff bits)
  qed
  also have "\<dots> \<longleftrightarrow> small_range (sint n)"
    by (simp add: signed_take_bit_int_eq_self_iff small_range_def)
  finally show ?thesis .
qed

lemma small_value: "sint (MP_OBJ_SMALL_INT_VALUE ob) = sint ob div 2"
  by (simp add: MP_OBJ_SMALL_INT_VALUE_def sint_signed_drop_bit_eq drop_bit_eq_div)

lemma small_value_range: "small_range (sint (MP_OBJ_SMALL_INT_VALUE ob))"
  using sint_range [of ob] unfolding small_value small_range_def by linarith

lemma small_new_fits:
  assumes "small_range (sint v)"
  shows "sint (MP_OBJ_SMALL_INT_VALUE (MP_OBJ_NEW_SMALL_INT v)) = sint v"
proof -
  have "push_bit 1 v OR 1 = v * 2 + 1"
    by (simp add: or_one_eq)
  also have "\<dots> = word_of_int (2 * sint v + 1)"
    by simp
  finally have eq: "MP_OBJ_NEW_SMALL_INT v = word_of_int (2 * sint v + 1)"
    unfolding MP_OBJ_NEW_SMALL_INT_def .
  have "sint (MP_OBJ_NEW_SMALL_INT v) = 2 * sint v + 1"
    unfolding eq using assms by (intro sint_word_of_int) (simp_all add: small_range_def)
  then show ?thesis
    by (simp add: small_value)
qed

section \<open>The operations\<close>

lemma less_signed: "x <s y \<longleftrightarrow> sint x < sint y" "x \<le>s y \<longleftrightarrow> sint x \<le> sint (y :: u32)"
  by (simp_all add: word_sless_alt word_sle_eq)

lemma int_div_less: "0 < (y :: int) \<Longrightarrow> m div y < x \<longleftrightarrow> m < x * y"
proof -
  assume y: "0 < y"
  have m: "m = m div y * y + m mod y" "0 \<le> m mod y" "m mod y < y"
    using y by (simp_all only: div_mult_mod_eq pos_mod_sign pos_mod_bound)
  show ?thesis
  proof
    assume "m div y < x"
    then have "(m div y + 1) * y \<le> x * y"
      using y by (intro mult_right_mono) simp_all
    then have "m div y * y + y \<le> x * y"
      by (simp add: distrib_right)
    then show "m < x * y"
      using m by linarith
  next
    assume less: "m < x * y"
    show "m div y < x"
    proof (rule ccontr)
      assume "\<not> m div y < x"
      then have "x * y \<le> m div y * y"
        using y by (intro mult_right_mono) simp_all
      then show False
        using less m by linarith
    qed
  qed
qed

lemma sdiv_range:
  fixes k l :: int
  assumes "\<bar>k\<bar> \<le> n" and "l \<noteq> 0"
  shows "\<bar>k sdiv l\<bar> \<le> n"
proof -
  have "\<bar>k\<bar> div \<bar>l\<bar> \<le> \<bar>k\<bar> div 1"
    by (rule zdiv_mono2) (use assms(2) in auto)
  then have "\<bar>k\<bar> div \<bar>l\<bar> \<le> \<bar>k\<bar>" "0 \<le> \<bar>k\<bar> div \<bar>l\<bar>"
    using assms(2) by (simp_all add: pos_imp_zdiv_nonneg_iff)
  moreover have "\<bar>k sdiv l\<bar> \<le> \<bar>k\<bar> div \<bar>l\<bar>"
    using calculation(2) by (auto simp: signed_divide_int_def abs_mult sgn_if)
  ultimately show ?thesis
    using assms(1) by linarith
qed

lemma sint_c_div:
  assumes "\<bar>sint x\<bar> \<le> 1073741824" and "sint y \<noteq> 0"
  shows "sint (c_div x y) = sint x sdiv sint y"
  unfolding c_div_def using sdiv_range [OF assms] by (intro sint_word_of_int) linarith+

lemma mul_overflow_iff:
  assumes x: "small_range (sint x)" and y: "small_range (sint y)"
  shows "mp_small_int_mul_overflow x y \<longleftrightarrow> \<not> small_range (sint x * sint y)"
proof -
  define X where "X = sint x"
  define Y where "Y = sint y"
  have b: "- 1073741824 \<le> X" "X < 1073741824" "- 1073741824 \<le> Y" "Y < 1073741824"
    using x y by (simp_all add: X_def Y_def small_range_def)
  have big: "\<bar>sint MP_SMALL_INT_MAX\<bar> \<le> 1073741824" "\<bar>sint MP_SMALL_INT_MIN\<bar> \<le> 1073741824"
    by (simp_all add: sint_bounds)
  have zero: "x = 0 \<longleftrightarrow> X = 0"
    by (simp add: X_def signed_eq_0_iff)
  note div = sint_c_div [OF big(1)] sint_c_div [OF big(2)] sint_bounds signed_divide_int_def
  define P where "P = X * Y"
  have P: "small_range (sint x * sint y) \<longleftrightarrow> - 1073741824 \<le> P \<and> P < 1073741824"
    by (simp add: small_range_def P_def X_def Y_def)
  consider (pp) "0 < X" "0 < Y" | (pn) "0 < X" "Y \<le> 0" | (np) "X \<le> 0" "0 < Y" | (nn) "X \<le> 0" "Y \<le> 0"
    by linarith
  then show ?thesis
  proof cases
    case pp
    then have "mp_small_int_mul_overflow x y \<longleftrightarrow> 1073741823 div Y < X"
      by (simp add: mp_small_int_mul_overflow_def less_signed div X_def Y_def)
    moreover have "1073741823 div Y < X \<longleftrightarrow> 1073741823 < P" "0 < P"
      using pp int_div_less [of Y 1073741823 X] by (simp_all add: P_def)
    ultimately show ?thesis
      unfolding P by linarith
  next
    case pn
    then have "mp_small_int_mul_overflow x y \<longleftrightarrow> 1073741824 div X < - Y"
      by (auto simp: mp_small_int_mul_overflow_def less_signed div X_def Y_def)
    moreover have "1073741824 div X < - Y \<longleftrightarrow> 1073741824 < - P" "P \<le> 0"
      using pn int_div_less [of X 1073741824 "- Y"] by (simp_all add: P_def mult.commute mult_le_0_iff)
    ultimately show ?thesis
      unfolding P by linarith
  next
    case np
    then have "mp_small_int_mul_overflow x y \<longleftrightarrow> 1073741824 div Y < - X"
      by (auto simp: mp_small_int_mul_overflow_def less_signed div X_def Y_def)
    moreover have "1073741824 div Y < - X \<longleftrightarrow> 1073741824 < - P" "P \<le> 0"
      using np int_div_less [of Y 1073741824 "- X"] by (simp_all add: P_def mult_le_0_iff)
    ultimately show ?thesis
      unfolding P by linarith
  next
    case nn
    have prod: "0 \<le> P"
      using nn by (simp add: P_def zero_le_mult_iff)
    show ?thesis
    proof (cases "X = 0")
      case True
      then have "P = 0" "\<not> mp_small_int_mul_overflow x y"
        using nn zero by (auto simp: mp_small_int_mul_overflow_def less_signed P_def X_def Y_def)
      then show ?thesis
        unfolding P by simp
    next
      case False
      then have "mp_small_int_mul_overflow x y \<longleftrightarrow> 1073741823 div (- X) < - Y"
        using nn zero by (auto simp: mp_small_int_mul_overflow_def less_signed div X_def Y_def)
      moreover have "1073741823 div (- X) < - Y \<longleftrightarrow> 1073741823 < P"
        using False nn int_div_less [of "- X" 1073741823 "- Y"] by (simp add: P_def mult.commute)
      ultimately show ?thesis
        unfolding P using prod by linarith
    qed
  qed
qed

lemma smod_bound: "y \<noteq> 0 \<Longrightarrow> \<bar>x smod y\<bar> < \<bar>y\<bar>" for x y :: int
  by (auto simp: signed_modulo_int_def abs_mult sgn_if)

lemma modulo_correct:
  assumes "small_range (sint y)" and "sint y \<noteq> 0"
  shows "sint (mp_small_int_modulo x y) = sint x mod sint y"
proof -
  define X where "X = sint x"
  define Y where "Y = sint y"
  have b: "- 1073741824 \<le> Y" "Y < 1073741824" "Y \<noteq> 0"
    using assms by (simp_all add: Y_def small_range_def)
  have m: "\<bar>X smod Y\<bar> < \<bar>Y\<bar>"
    using smod_bound b by simp
  have c: "sint (c_mod x y) = X smod Y"
    unfolding c_mod_def X_def [symmetric] Y_def [symmetric] using m b by (intro sint_word_of_int) linarith+
  have add: "sint (c_mod x y + y) = X smod Y + Y" if "X smod Y < 0 \<and> 0 < Y \<or> 0 < X smod Y \<and> Y < 0"
    using sint_add [of "c_mod x y" y] c m b that by (auto simp: Y_def)
  have "X mod Y = (if X smod Y < 0 \<and> 0 < Y \<or> 0 < X smod Y \<and> Y < 0 then X smod Y + Y else X smod Y)"
  proof -
    define r where "r = (if X smod Y < 0 \<and> 0 < Y \<or> 0 < X smod Y \<and> Y < 0 then X smod Y + Y else X smod Y)"
    have "X - r = Y * (if X smod Y < 0 \<and> 0 < Y \<or> 0 < X smod Y \<and> Y < 0 then X sdiv Y - 1 else X sdiv Y)"
      using minus_smod_eq_mult_sdiv [of X Y] by (auto simp: right_diff_distrib r_def)
    then have "Y dvd X - r"
      by (rule dvdI)
    then have "X mod Y = r mod Y"
      by (simp add: mod_eq_dvd_iff)
    also have "\<dots> = r"
    proof (cases "0 < Y")
      case True
      then have "0 \<le> r" "r < Y"
        using m by (auto simp: r_def)
      then show ?thesis
        by (rule mod_pos_pos_trivial)
    next
      case False
      then have "r \<le> 0" "Y < r"
        using m b by (auto simp: r_def)
      then show ?thesis
        by (rule mod_neg_neg_trivial)
    qed
    finally show ?thesis
      unfolding r_def .
  qed
  then show ?thesis
    using add c by (auto simp: mp_small_int_modulo_def Let_def less_signed X_def [symmetric] Y_def [symmetric])
qed

lemma div_ceil: "0 < (b :: int) \<Longrightarrow> (- a) div b = - ((a + b - 1) div b)"
proof -
  assume b: "0 < b"
  define q where "q = (a + b - 1) div b"
  have "a + b - 1 = q * b + (a + b - 1) mod b" "0 \<le> (a + b - 1) mod b" "(a + b - 1) mod b < b"
    using b by (simp_all only: q_def div_mult_mod_eq pos_mod_sign pos_mod_bound)
  then have "- a = b * (- q) + (q * b - a)" "0 \<le> q * b - a" "q * b - a < b"
    by (simp_all add: mult.commute)
  then show ?thesis
    unfolding q_def [symmetric] by (intro int_div_pos_eq)
qed

lemma floor_divide_correct:
  assumes x: "small_range (sint x)" and y: "small_range (sint y)" "sint y \<noteq> 0"
  shows "sint (mp_small_int_floor_divide x y) = sint x div sint y"
proof -
  define X where "X = sint x"
  define Y where "Y = sint y"
  have b: "- 1073741824 \<le> X" "X < 1073741824" "- 1073741824 \<le> Y" "Y < 1073741824" "Y \<noteq> 0"
    using assms by (simp_all add: X_def Y_def small_range_def)
  have n: "sint (- y) = - Y"
    using sint_neg [of y] b by (simp add: Y_def)
  have n1: "sint (- y - 1) = - Y - 1" "sint (- y + 1) = - Y + 1"
    using sint_sub [of "- y" 1] sint_add [of "- y" 1] n b by simp_all
  have a: "sint (x + (- y - 1)) = X + (- Y - 1)" if "0 \<le> X" "Y < 0"
    using sint_add [of x "- y - 1"] n1 b that by (simp add: X_def)
  have a': "sint (x + (- y + 1)) = X + (- Y + 1)" if "X < 0" "0 \<le> Y"
    using sint_add [of x "- y + 1"] n1 b that by (simp add: X_def)
  define N where "N = (if 0 \<le> X then if Y < 0 then X + (- Y - 1) else X else if 0 \<le> Y then X + (- Y + 1) else X)"
  define num where "num = (if 0 \<le>s x then if y <s 0 then x + (- y - 1) else x else if 0 \<le>s y then x + (- y + 1) else x)"
  have N: "sint num = N"
    using a a' by (auto simp: num_def N_def less_signed X_def Y_def)
  have "sint (c_div num y) = N sdiv Y"
  proof -
    have "\<bar>N sdiv Y\<bar> \<le> \<bar>N\<bar>"
      by (rule sdiv_range) (use b in auto)
    moreover have "\<bar>N\<bar> < 2147483648"
      using b by (auto simp: N_def)
    ultimately show ?thesis
      unfolding c_div_def N Y_def [symmetric] by (intro sint_word_of_int) linarith+
  qed
  moreover have "N sdiv Y = X div Y"
  proof -
    consider (pp) "0 \<le> X" "0 < Y" | (pn) "0 \<le> X" "Y < 0" | (np) "X < 0" "0 < Y" | (nn) "X < 0" "Y < 0"
      using b(5) by linarith
    then show ?thesis
    proof cases
      case pn
      then have "N sdiv Y = - ((X + - Y - 1) div (- Y))"
        by (auto simp: N_def signed_divide_int_def sgn_if algebra_simps)
      also have "\<dots> = (- X) div (- Y)"
        using div_ceil [of "- Y" X] pn by simp
      finally show ?thesis by simp
    next
      case np
      then have "N sdiv Y = - ((- X + Y - 1) div Y)"
        by (auto simp: N_def signed_divide_int_def sgn_if algebra_simps)
      then show ?thesis
        using div_ceil [of Y "- X"] np by simp
    qed (auto simp: N_def signed_divide_int_def sgn_if)
  qed
  ultimately show ?thesis
    by (simp add: mp_small_int_floor_divide_def Let_def num_def [symmetric] X_def Y_def)
qed

end
