(* ===== verification/Container_Ops.thy ===== *)
theory Container_Ops
  imports Py_Obj Small_Int
begin

text \<open>
  The operators of sets and dicts: \<^verbatim>\<open>set_unary_op\<close> and \<^verbatim>\<open>set_binary_op\<close> of \<^verbatim>\<open>objset.c\<close>, \<^verbatim>\<open>dict_unary_op\<close>,
  \<^verbatim>\<open>dict_binary_op\<close> and the views of \<^verbatim>\<open>objdict.c\<close>, over the operations of theories Mp_Set_Ops and Mp_Dict.
  The operators of \<^verbatim>\<open>mp_binary_op_t\<close> and \<^verbatim>\<open>mp_unary_op_t\<close> that these functions tell apart have constructors;
  the others are one.
\<close>

datatype container_op =
  OR_OP | XOR_OP | AND_OP | SUBTRACT_OP | INPLACE_OR_OP | INPLACE_XOR_OP | INPLACE_AND_OP | INPLACE_SUBTRACT_OP
| LESS_OP | MORE_OP | EQUAL_OP | LESS_EQUAL_OP | MORE_EQUAL_OP | CONTAINS_OP | OTHER_BINARY_OP

datatype container_unary_op = BOOL_OP | LEN_OP | HASH_OP | OTHER_UNARY_OP

section \<open>Sets\<close>

text \<open>
  A set object has the type \<^verbatim>\<open>set\<close> or \<^verbatim>\<open>frozenset\<close>. The right operand is an object that may be a set, the left
  operand itself among them.
\<close>

record 'o set_obj =
  so_frozen :: bool
  so_set :: "'o mp_set"

record 'o set_rhs =
  sr_obj :: 'o
  sr_set :: "'o set_obj option"
  sr_same :: bool

text \<open>
  The results: a new set, the left operand with its members after the operation, a bool, a small integer,
  \<^verbatim>\<open>MP_OBJ_NULL\<close>. In all cases but the second one the left operand is unchanged.
\<close>

datatype 'o set_op_result = SR_New "'o set_obj" | SR_Lhs "'o mp_set" | SR_Bool bool | SR_Small u32 | SR_Null

definition set_issubset where "set_issubset E s t = set_issubset_internal E s t False"
definition set_issubset_proper where "set_issubset_proper E s t = set_issubset_internal E s t True"
definition set_issuperset where "set_issuperset E s t = set_issubset_internal E t s False"
definition set_issuperset_proper where "set_issuperset_proper E s t = set_issubset_internal E t s True"

text \<open>
  The methods that wrap the operations of theory Mp_Set_Ops. The flags tell that an argument is the set
  itself; a copy never is.
\<close>

definition set_diff :: "'o obj_ops \<Rightarrow> 'o list list \<Rightarrow> 'o mp_set \<Rightarrow> 'o mp_set option" where
  "set_diff E others s = set_diff_int E (map (\<lambda>items. (False, items)) others) False s"

definition set_diff_update :: "'o obj_ops \<Rightarrow> (bool \<times> 'o list) list \<Rightarrow> 'o mp_set \<Rightarrow> 'o mp_set option" where
  "set_diff_update E others s = set_diff_int E others True s"

definition set_intersect :: "'o obj_ops \<Rightarrow> bool \<Rightarrow> 'o list \<Rightarrow> 'o mp_set \<Rightarrow> 'o mp_set option" where
  "set_intersect E same items s = set_intersect_int E same items s"

definition set_intersect_update :: "'o obj_ops \<Rightarrow> bool \<Rightarrow> 'o list \<Rightarrow> 'o mp_set \<Rightarrow> 'o mp_set option" where
  "set_intersect_update E same items s = (if same then Some s else set_intersect_int E False items s)"

definition set_clear :: "'o mp_set \<Rightarrow> 'o mp_set" where
  "set_clear s = mp_set_clear s"

definition mp_obj_new_set :: "'o obj_ops \<Rightarrow> 'o list \<Rightarrow> 'o mp_set option" where
  "mp_obj_new_set E items = set_lookup_all E True False items (mp_set_init (length items))"

definition mp_obj_set_store :: "'o obj_ops \<Rightarrow> 'o \<Rightarrow> 'o mp_set \<Rightarrow> 'o mp_set option" where
  "mp_obj_set_store E item s = set_lookup_all E True False [item] s"

text \<open>
  The hash of a frozenset starts with the address of its type. The hashes are signed words; their
  sum wraps.
\<close>

fun set_hash_loop :: "'o obj_ops \<Rightarrow> u32 \<Rightarrow> 'o key list \<Rightarrow> u32" where
  "set_hash_loop E hash [] = hash"
| "set_hash_loop E hash (k # ks) =
     set_hash_loop E (case k of Key a \<Rightarrow> hash + word_of_nat (op_hash E a) | _ \<Rightarrow> hash) ks"

definition set_unary_op :: "'o obj_ops \<Rightarrow> u32 \<Rightarrow> container_unary_op \<Rightarrow> 'o set_obj \<Rightarrow> 'o set_op_result" where
  "set_unary_op E mp_type_frozenset op self =
     (case op of
        BOOL_OP \<Rightarrow> SR_Bool (set_used (so_set self) \<noteq> 0)
      | LEN_OP \<Rightarrow> SR_Small (MP_OBJ_NEW_SMALL_INT (word_of_nat (set_used (so_set self))))
      | HASH_OP \<Rightarrow>
          if so_frozen self
          then SR_Small (MP_OBJ_NEW_SMALL_INT (set_hash_loop E mp_type_frozenset (set_table (so_set self))))
          else SR_Null
      | OTHER_UNARY_OP \<Rightarrow> SR_Null)"

text \<open>
  The result of an intersection that is not the one of an object with itself is a \<^verbatim>\<open>set\<close>, whatever the type of
  the left operand. An update of a set with itself iterates over the table that it changes: it adds
  nothing, and it removes each item when the iteration has passed it.
\<close>

definition set_binary_op_sets :: "'o obj_ops \<Rightarrow> container_op \<Rightarrow> 'o set_obj \<Rightarrow> 'o set_obj \<Rightarrow> bool \<Rightarrow> 'o set_op_result option" where
  "set_binary_op_sets E op lhs rhs same =
     (let update = \<not> so_frozen lhs;
          s = so_set lhs;
          t = so_set rhs;
          items = set_items t;
          new = (\<lambda>u. SR_New (lhs\<lparr>so_set := u\<rparr>));
          intersection = (\<lambda>u. SR_New \<lparr>so_frozen = same \<and> so_frozen lhs, so_set = u\<rparr>)
      in case op of
           OR_OP \<Rightarrow> map_option new (set_union E s items)
         | XOR_OP \<Rightarrow> map_option new (set_symmetric_difference E s items)
         | AND_OP \<Rightarrow> map_option intersection (set_intersect E same items s)
         | SUBTRACT_OP \<Rightarrow> map_option new (set_diff E [items] s)
         | INPLACE_OR_OP \<Rightarrow>
             if update then map_option SR_Lhs (set_update E [items] s) else map_option new (set_union E s items)
         | INPLACE_XOR_OP \<Rightarrow>
             if update then map_option SR_Lhs (set_symmetric_difference_update E items s)
             else map_option new (set_symmetric_difference E s items)
         | INPLACE_AND_OP \<Rightarrow>
             if update then map_option SR_Lhs (set_intersect_update E same items s)
             else map_option intersection (set_intersect_int E same items s)
         | INPLACE_SUBTRACT_OP \<Rightarrow>
             if update then map_option SR_Lhs (set_diff_int E [(same, items)] True s)
             else map_option new (set_diff_int E [(False, items)] False s)
         | LESS_OP \<Rightarrow> map_option SR_Bool (set_issubset_proper E s t)
         | MORE_OP \<Rightarrow> map_option SR_Bool (set_issuperset_proper E s t)
         | EQUAL_OP \<Rightarrow> map_option SR_Bool (set_equal E s t)
         | LESS_EQUAL_OP \<Rightarrow> map_option SR_Bool (set_issubset E s t)
         | MORE_EQUAL_OP \<Rightarrow> map_option SR_Bool (set_issuperset E s t)
         | CONTAINS_OP \<Rightarrow> None
         | OTHER_BINARY_OP \<Rightarrow> Some SR_Null)"

definition set_binary_op :: "'o obj_ops \<Rightarrow> container_op \<Rightarrow> 'o set_obj \<Rightarrow> 'o set_rhs \<Rightarrow> 'o set_op_result option" where
  "set_binary_op E op lhs rhs =
     (if op = CONTAINS_OP
      then map_option (\<lambda>(elem, s). SR_Bool (elem \<noteq> None)) (mp_set_lookup E False False (sr_obj rhs) (so_set lhs))
      else case sr_set rhs of
             None \<Rightarrow> Some SR_Null
           | Some other \<Rightarrow> set_binary_op_sets E op lhs other (sr_same rhs))"

subsection \<open>What the operators mean\<close>

fun set_op_members :: "container_op \<Rightarrow> (bool \<Rightarrow> bool \<Rightarrow> bool) option" where
  "set_op_members OR_OP = Some (\<or>)"
| "set_op_members INPLACE_OR_OP = Some (\<or>)"
| "set_op_members XOR_OP = Some (\<noteq>)"
| "set_op_members INPLACE_XOR_OP = Some (\<noteq>)"
| "set_op_members AND_OP = Some (\<and>)"
| "set_op_members INPLACE_AND_OP = Some (\<and>)"
| "set_op_members SUBTRACT_OP = Some (\<lambda>p q. p \<and> \<not> q)"
| "set_op_members INPLACE_SUBTRACT_OP = Some (\<lambda>p q. p \<and> \<not> q)"
| "set_op_members _ = None"

fun set_op_test :: "container_op \<Rightarrow> 'o set \<Rightarrow> 'o set \<Rightarrow> bool option" where
  "set_op_test LESS_OP A B = Some (A \<subset> B)"
| "set_op_test MORE_OP A B = Some (B \<subset> A)"
| "set_op_test EQUAL_OP A B = Some (A = B)"
| "set_op_test LESS_EQUAL_OP A B = Some (A \<subseteq> B)"
| "set_op_test MORE_EQUAL_OP A B = Some (B \<subseteq> A)"
| "set_op_test _ A B = None"

definition op_in_place :: "container_op \<Rightarrow> bool" where
  "op_in_place op \<longleftrightarrow> op \<in> {INPLACE_OR_OP, INPLACE_XOR_OP, INPLACE_AND_OP, INPLACE_SUBTRACT_OP}"

lemma set_items_list_ex: "list_ex (\<lambda>x. op_equal E x y) (set_items t) \<longleftrightarrow> set_mem E t y"
  by (auto simp: set_mem_items list_ex_iff)

context set_laws
begin

lemma set_items_distinct: "set_ok E s \<Longrightarrow> distinct (set_items s)"
  using distinct_items [of "set_table s"] unfolding set_ok_def tab_ok_def set_items_def by blast

lemma set_items_odd:
  assumes "set_ok E t"
  shows "odd (length (filter (\<lambda>x. op_equal E x y) (set_items t))) \<longleftrightarrow> set_mem E t y"
proof -
  note d = set_items_distinct [OF assms]
  show ?thesis
  proof (cases "set_mem E t y")
    case True
    then obtain a where a: "a \<in> set (set_items t)" "op_equal E a y"
      by (auto simp: set_mem_items)
    have "x = a" if "x \<in> set (set_items t)" "op_equal E x y" for x
      by (rule set_ok_items(2) [OF assms that(1) a(1) same_trans [OF that(2) same_sym [OF a(2)]]])
    then have "set (filter (\<lambda>x. op_equal E x y) (set_items t)) = {a}"
      unfolding set_filter using a by blast
    then have "length (filter (\<lambda>x. op_equal E x y) (set_items t)) = 1"
      using distinct_card [OF distinct_filter [OF d, of "\<lambda>x. op_equal E x y"]] by (simp only: card.insert card.empty) simp
    then show ?thesis
      using True by simp
  next
    case False
    then have "filter (\<lambda>x. op_equal E x y) (set_items t) = []"
      by (auto simp: set_mem_items filter_empty_conv)
    then show ?thesis
      using False by simp
  qed
qed

text \<open>The operations on the members, on a set and the items of another.\<close>

lemma set_union_members:
  assumes "set_ok E s"
  shows "\<exists>u. set_union E s (set_items t) = Some u \<and> set_ok E u \<and> (\<forall>y. set_mem E u y \<longleftrightarrow> set_mem E s y \<or> set_mem E t y)"
  using set_update_int_ok [OF set_copy_ok(1) [OF assms], of "set_items t"]
  by (simp add: set_union_def set_copy_ok(2) set_items_list_ex)

lemma set_update_members:
  assumes "set_ok E s"
  shows "\<exists>u. set_update E [set_items t] s = Some u \<and> set_ok E u \<and> (\<forall>y. set_mem E u y \<longleftrightarrow> set_mem E s y \<or> set_mem E t y)"
  using set_update_int_ok [OF assms, of "set_items t"] by (auto simp: set_items_list_ex)

lemma set_toggle_members:
  assumes "set_ok E s" and "set_ok E t"
  shows "\<exists>u. set_symmetric_difference_update E (set_items t) s = Some u \<and> set_ok E u \<and>
    (\<forall>y. set_mem E u y \<longleftrightarrow> set_mem E s y \<noteq> set_mem E t y)"
  using set_toggle_all_ok [OF assms(1), of "set_items t"]
  by (simp add: set_symmetric_difference_update_def set_items_odd [OF assms(2)])

lemma set_toggle_copy_members:
  assumes "set_ok E s" and "set_ok E t"
  shows "\<exists>u. set_symmetric_difference E s (set_items t) = Some u \<and> set_ok E u \<and>
    (\<forall>y. set_mem E u y \<longleftrightarrow> set_mem E s y \<noteq> set_mem E t y)"
  using set_toggle_members [OF set_copy_ok(1) [OF assms(1)] assms(2)] by (simp add: set_symmetric_difference_def set_copy_ok(2))

lemma set_intersect_members:
  assumes "set_ok E s" and "same \<Longrightarrow> t = s"
  shows "\<exists>u. set_intersect_int E same (set_items t) s = Some u \<and> set_ok E u \<and>
    (\<forall>y. set_mem E u y \<longleftrightarrow> set_mem E s y \<and> set_mem E t y)"
proof (cases same)
  case False
  obtain u where "set_intersect_loop E (set_items t) s (mp_set_init 0) = Some u" "set_ok E u"
    "\<forall>y. set_mem E u y \<longleftrightarrow> set_mem E (mp_set_init 0) y \<or> set_mem E s y \<and> list_ex (\<lambda>x. op_equal E x y) (set_items t)"
    by (rule set_intersect_loop_ok [OF assms(1) set_ok_init])
  then show ?thesis
    using False by (auto simp: set_intersect_int_def set_mem_init set_items_list_ex)
qed (use assms in \<open>auto simp: set_intersect_int_def set_copy_ok\<close>)

lemma set_diff_members:
  assumes "set_ok E s" and "same \<Longrightarrow> t = s"
  shows "\<exists>u. set_diff_int E [(same, set_items t)] update s = Some u \<and> set_ok E u \<and>
    (\<forall>y. set_mem E u y \<longleftrightarrow> set_mem E s y \<and> \<not> set_mem E t y)"
proof -
  have c: "set_ok E (if update then s else set_copy s)" "set_mem E (if update then s else set_copy s) = set_mem E s"
    using assms(1) by (auto simp: fun_eq_iff set_copy_ok)
  from set_diff_args_ok [OF c(1), of "[(same, set_items t)]"] show ?thesis
    using assms(2) by (auto simp: set_diff_int_def c(2) set_items_list_ex)
qed

lemma set_subset_members:
  assumes "set_ok E s" and "set_ok E t"
  shows "set_issubset_internal E s t proper =
    Some (if proper then {y. set_mem E s y} \<subset> {y. set_mem E t y} else {y. set_mem E s y} \<subseteq> {y. set_mem E t y})"
proof -
  have sub: "(\<forall>x \<in> set (set_items s). set_mem E t x) \<longleftrightarrow> {y. set_mem E s y} \<subseteq> {y. set_mem E t y}"
  proof
    assume "\<forall>x \<in> set (set_items s). set_mem E t x"
    then show "{y. set_mem E s y} \<subseteq> {y. set_mem E t y}"
      using set_mem_same [of _ _ t] unfolding set_mem_items [of E s] by blast
  qed (use set_items_mem [of _ s] in blast)
  have eq: "set_used s = set_used t \<longleftrightarrow> {y. set_mem E s y} = {y. set_mem E t y}" if "{y. set_mem E s y} \<subseteq> {y. set_mem E t y}"
    using set_subset_equal [OF assms] that set_equal_ok [OF assms] unfolding sub [symmetric]
    by (auto simp: set_equal_def split: if_splits)
  show ?thesis
    using sub eq by (auto simp: set_issubset_internal_def set_all_in_ok [OF assms(2)])
qed

text \<open>All operators.\<close>

lemma set_binary_op_sets_ok:
  assumes s: "set_ok E (so_set lhs)" and t: "set_ok E (so_set rhs)" and same: "same \<Longrightarrow> rhs = lhs" and op: "op \<noteq> CONTAINS_OP"
  shows "case set_op_members op of
      Some f \<Rightarrow> \<exists>u. set_ok E u \<and> (\<forall>y. set_mem E u y \<longleftrightarrow> f (set_mem E (so_set lhs) y) (set_mem E (so_set rhs) y)) \<and>
        set_binary_op_sets E op lhs rhs same =
          Some (if op_in_place op \<and> \<not> so_frozen lhs then SR_Lhs u
                else SR_New \<lparr>so_frozen = so_frozen lhs \<and> (op \<in> {AND_OP, INPLACE_AND_OP} \<longrightarrow> same), so_set = u\<rparr>)
    | None \<Rightarrow> set_binary_op_sets E op lhs rhs same =
        Some (case set_op_test op {y. set_mem E (so_set lhs) y} {y. set_mem E (so_set rhs) y} of Some b \<Rightarrow> SR_Bool b | None \<Rightarrow> SR_Null)"
proof -
  have same': "same \<Longrightarrow> so_set rhs = so_set lhs"
    using same by simp
  have new: "lhs\<lparr>so_set := u\<rparr> = \<lparr>so_frozen = so_frozen lhs, so_set = u\<rparr>" for u
    by (cases lhs) simp
  note members = set_union_members [OF s, of "so_set rhs"] set_update_members [OF s, of "so_set rhs"]
    set_toggle_members [OF s t] set_toggle_copy_members [OF s t]
    set_intersect_members [OF s, of same "so_set rhs"] set_intersect_members [OF s, of False "so_set rhs"]
    set_diff_members [OF s, of same "so_set rhs" True] set_diff_members [OF s, of False "so_set rhs" False]
  note tests = set_subset_members [OF s t] set_subset_members [OF t s] set_equal_ok [OF s t]
  show ?thesis
  proof (cases op)
    case INPLACE_AND_OP
    then show ?thesis
      using members(5,6) same' s by (cases same) (auto simp: set_binary_op_sets_def op_in_place_def Let_def set_intersect_update_def)
  qed (use members same' op tests in \<open>auto simp: set_binary_op_sets_def op_in_place_def Let_def new set_diff_def set_intersect_def set_issubset_def
      set_issubset_proper_def set_issuperset_def set_issuperset_proper_def\<close>)
qed

text \<open>The hash is a sum over the members, so that the layout of the table does not matter.\<close>

lemma set_hash_loop_sum: "set_hash_loop E hash ks = hash + sum_list (map (\<lambda>a. word_of_nat (op_hash E a)) (List.map_filter key_of ks))"
  by (induction ks arbitrary: hash) (auto simp: map_filter_simps split: key.splits)

lemma set_hash_equal:
  assumes s: "set_ok E s" and t: "set_ok E t" and eq: "\<And>y. set_mem E s y \<longleftrightarrow> set_mem E t y"
  shows "set_hash_loop E hash (set_table s) = set_hash_loop E hash (set_table t)"
proof -
  let ?h = "\<lambda>a. word_of_nat (op_hash E a) :: u32"
  have "\<forall>x \<in> set (set_items s). set_mem E t x"
    using set_items_mem [of _ s] eq by blast
  then obtain f where f: "\<forall>a \<in> set (set_items s). f a \<in> set (set_items t) \<and> op_equal E (f a) a" and inj: "inj_on f (set (set_items s))"
    by (rule set_matching [OF s])
  have "set_used s = set_used t"
    using set_equal_ok [OF s t] eq by (auto simp: set_equal_def split: if_splits)
  then have "card (f ` set (set_items s)) = card (set (set_items t))"
    using card_image [OF inj] set_ok_items(1) [OF s] set_ok_items(1) [OF t] by simp
  then have img: "f ` set (set_items s) = set (set_items t)"
    using f by (intro card_subset_eq) auto
  have "sum_list (map ?h (set_items s)) = sum ?h (set (set_items s))"
    by (rule sum_list_distinct_conv_sum_set [OF set_items_distinct [OF s]])
  also have "\<dots> = sum (\<lambda>a. ?h (f a)) (set (set_items s))"
    by (rule sum.cong) (use f same_hash in auto)
  also have "\<dots> = sum ?h (set (set_items t))"
    using sum.reindex [OF inj, of ?h] by (simp add: img)
  also have "\<dots> = sum_list (map ?h (set_items t))"
    by (rule sum_list_distinct_conv_sum_set [OF set_items_distinct [OF t], symmetric])
  finally show ?thesis
    by (simp add: set_hash_loop_sum set_items_def)
qed

end

section \<open>Dicts\<close>

text \<open>
  A dict object has the type \<^verbatim>\<open>dict\<close> or \<^verbatim>\<open>OrderedDict\<close>. The right operand is an object that may be a dict, the
  left operand itself among them, or an iterable of iterables.
\<close>

record 'o dict_obj =
  do_ordereddict :: bool
  do_map :: "('o, 'o) mp_map"

record 'o dict_rhs =
  dr_obj :: 'o
  dr_dict :: "'o dict_obj option"
  dr_same :: bool
  dr_pairs :: "'o list list"

datatype 'o dict_op_result = DR_New "'o dict_obj" | DR_Lhs | DR_Bool bool | DR_Small u32 | DR_Null | DR_Raise mp_error

definition dict_unary_op :: "container_unary_op \<Rightarrow> 'o dict_obj \<Rightarrow> 'o dict_op_result" where
  "dict_unary_op op self =
     (case op of
        BOOL_OP \<Rightarrow> DR_Bool (used (do_map self) \<noteq> 0)
      | LEN_OP \<Rightarrow> DR_Small (MP_OBJ_NEW_SMALL_INT (word_of_nat (used (do_map self))))
      | _ \<Rightarrow> DR_Null)"

text \<open>The result, the left operand after the operation and the lookup cache. \<open>eqv\<close> is \<^verbatim>\<open>mp_obj_equal\<close> on values.\<close>

definition dict_binary_op ::
    "'o obj_ops \<Rightarrow> ('o \<Rightarrow> 'o \<Rightarrow> bool) \<Rightarrow> container_op \<Rightarrow> 'o dict_obj \<Rightarrow> 'o dict_rhs \<Rightarrow> cache \<Rightarrow>
     ('o dict_op_result \<times> 'o dict_obj \<times> cache) option" where
  "dict_binary_op E eqv op lhs rhs c =
     (let arg = (\<lambda>same. case dr_dict rhs of
            Some other \<Rightarrow> if same then Itself else Other_dict (do_map other)
          | None \<Rightarrow> Pairs (dr_pairs rhs))
      in case op of
           CONTAINS_OP \<Rightarrow> do {
             (b, m, c) \<leftarrow> dict_contains E (dr_obj rhs) (do_map lhs, c);
             Some (DR_Bool b, lhs\<lparr>do_map := m\<rparr>, c) }
         | EQUAL_OP \<Rightarrow>
             (case dr_dict rhs of
                None \<Rightarrow> Some (DR_Bool False, lhs, c)
              | Some other \<Rightarrow>
                  if do_ordereddict lhs \<and> do_ordereddict other then do {
                    (b, d) \<leftarrow> dict_equal E eqv True (do_map lhs) (do_map other, c);
                    Some (DR_Bool b, lhs, snd d) }
                  else if \<not> do_ordereddict other then do {
                    (b, d) \<leftarrow> dict_equal E eqv False (do_map lhs) (do_map other, c);
                    Some (DR_Bool b, lhs, snd d) }
                  else Some (DR_Bool False, lhs, c))
         | OR_OP \<Rightarrow> do {
             (r, m, c) \<leftarrow> dict_update E (arg False) [] (mp_obj_dict_copy (do_map lhs), c);
             Some (case r of Inl e \<Rightarrow> DR_Raise e | Inr _ \<Rightarrow> DR_New (lhs\<lparr>do_map := m\<rparr>), lhs, c) }
         | INPLACE_OR_OP \<Rightarrow> do {
             (r, m, c) \<leftarrow> dict_update E (arg (dr_same rhs)) [] (do_map lhs, c);
             Some (case r of Inl e \<Rightarrow> DR_Raise e | Inr _ \<Rightarrow> DR_Lhs, lhs\<lparr>do_map := m\<rparr>, c) }
         | _ \<Rightarrow> Some (DR_Null, lhs, c))"

subsection \<open>Views and iterators\<close>

datatype dict_view_kind = DICT_VIEW_ITEMS | DICT_VIEW_KEYS | DICT_VIEW_VALUES

datatype ('o, 'v) view_item = View_Pair 'o 'v | View_Key 'o | View_Value 'v

record dict_view_it =
  vi_kind :: dict_view_kind
  vi_cur :: nat

definition dict_view_getiter :: "dict_view_kind \<Rightarrow> dict_view_it" where
  "dict_view_getiter kind = \<lparr>vi_kind = kind, vi_cur = 0\<rparr>"

definition dict_getiter :: dict_view_it where
  "dict_getiter = \<lparr>vi_kind = DICT_VIEW_KEYS, vi_cur = 0\<rparr>"

text \<open>The inner \<open>None\<close> is \<^verbatim>\<open>MP_OBJ_STOP_ITERATION\<close>, the outer one a filled slot without a value.\<close>

definition dict_view_it_iternext :: "dict_view_it \<Rightarrow> ('o, 'v) mp_map \<Rightarrow> (('o, 'v) view_item option \<times> dict_view_it) option" where
  "dict_view_it_iternext self m =
     (case dict_iter_next m (vi_cur self) of
        (None, cur) \<Rightarrow> Some (None, self\<lparr>vi_cur := cur\<rparr>)
      | (Some i, cur) \<Rightarrow>
          (case table m ! i of
             (Key k, Some v) \<Rightarrow>
               Some (Some (case vi_kind self of
                       DICT_VIEW_ITEMS \<Rightarrow> View_Pair k v
                     | DICT_VIEW_KEYS \<Rightarrow> View_Key k
                     | DICT_VIEW_VALUES \<Rightarrow> View_Value v), self\<lparr>vi_cur := cur\<rparr>)
           | _ \<Rightarrow> None))"

text \<open>All that an iterator yields; the last step is the one that stops it.\<close>

partial_function (option) dict_view_all :: "dict_view_it \<Rightarrow> ('o, 'v) mp_map \<Rightarrow> ('o, 'v) view_item list option" where
  [code]: "dict_view_all it m = do {
     (r, it) \<leftarrow> dict_view_it_iternext it m;
     case r of
       None \<Rightarrow> Some []
     | Some x \<Rightarrow> do { xs \<leftarrow> dict_view_all it m; Some (x # xs) } }"

definition dict_view_unary_op :: "container_unary_op \<Rightarrow> dict_view_kind \<Rightarrow> u32 \<Rightarrow> 'o dict_op_result" where
  "dict_view_unary_op op kind o_in =
     (if op = HASH_OP \<and> kind = DICT_VIEW_VALUES then DR_Small (MP_OBJ_NEW_SMALL_INT o_in) else DR_Null)"

definition dict_view_binary_op ::
    "'o obj_ops \<Rightarrow> ('o \<Rightarrow> 'o \<Rightarrow> bool) \<Rightarrow> container_op \<Rightarrow> dict_view_kind \<Rightarrow> 'o dict_obj \<Rightarrow> 'o dict_rhs \<Rightarrow> cache \<Rightarrow>
     ('o dict_op_result \<times> 'o dict_obj \<times> cache) option" where
  "dict_view_binary_op E eqv op kind d rhs c =
     (if kind \<noteq> DICT_VIEW_KEYS then Some (DR_Null, d, c)
      else if op \<noteq> CONTAINS_OP then Some (DR_Null, d, c)
      else dict_binary_op E eqv op d rhs c)"

section \<open>Equality of dicts\<close>

context hash_keys
begin

lemma matching:
  assumes sep: "\<forall>a\<in>A. \<forall>a'\<in>A. same a a' \<longrightarrow> a = a'" and sub: "\<forall>a\<in>A. \<exists>b\<in>B. same b a"
  obtains f where "inj_on f A" and "f ` A \<subseteq> B" and "\<And>a. a \<in> A \<Longrightarrow> same (f a) a"
proof -
  obtain f where f: "\<forall>a\<in>A. f a \<in> B \<and> same (f a) a"
    using sub by metis
  have "inj_on f A"
  proof (rule inj_onI)
    fix a a' assume a: "a \<in> A" "a' \<in> A" "f a = f a'"
    then have "same a a'"
      using f same_sym same_trans by metis
    then show "a = a'"
      using sep a by blast
  qed
  then show ?thesis
    using f by (intro that [of f]) auto
qed

lemma matching_card:
  assumes "finite B" and "\<forall>a\<in>A. \<forall>a'\<in>A. same a a' \<longrightarrow> a = a'" and "\<forall>a\<in>A. \<exists>b\<in>B. same b a"
  shows "card A \<le> card B"
  by (rule matching [OF assms(2,3)]) (rule card_inj_on_le [OF _ _ assms(1)])

lemma matching_onto:
  assumes "finite B" and "\<forall>a\<in>A. \<forall>a'\<in>A. same a a' \<longrightarrow> a = a'" and "\<forall>a\<in>A. \<exists>b\<in>B. same b a" and "card A = card B" and "b \<in> B"
  shows "\<exists>a\<in>A. same b a"
proof -
  obtain f where f: "inj_on f A" "f ` A \<subseteq> B" "\<And>a. a \<in> A \<Longrightarrow> same (f a) a"
    by (rule matching [OF assms(2,3)]) blast
  have "f ` A = B"
    using card_image [OF f(1)] assms(1,4) f(2) by (intro card_subset_eq) auto
  then obtain a where "a \<in> A" "b = f a"
    using assms(5) by blast
  then show ?thesis
    using f(3) by blast
qed

end

lemma items_keys:
  assumes "\<forall>e\<in>set es. is_filled (fst e) \<longrightarrow> snd e \<noteq> None"
  shows "map fst (List.map_filter (\<lambda>e. case e of (Key a, Some v) \<Rightarrow> Some (a, v) | _ \<Rightarrow> None) es) = List.map_filter key_of (map fst es)"
  using assms by (induction es) (auto simp: List.map_filter_simps key_of_def is_filled_def split: key.splits option.splits)

lemma length_filled: "length (List.map_filter key_of ks) = filled_count ks"
  by (induction ks) (auto simp: List.map_filter_simps filled_count_def key_of_def is_filled_def split: key.splits)

context obj_laws
begin

lemma dict_filled_value:
  assumes "dict_ok E (m, c)" and "e \<in> set (table m)" and "is_filled (fst e)"
  shows "snd e \<noteq> None"
proof
  assume n: "snd e = None"
  obtain i where i: "i < length (table m)" "table m ! i = e"
    using assms(2) by (auto simp: in_set_conv_nth)
  obtain a where a: "fst e = Key a"
    using assms(3) by (cases "fst e") (auto simp: is_filled_def)
  have "slot_at E m a i"
    using i a same_refl by (auto simp: slot_at_def slot_matches_iff)
  then have "map_get E m a = Some None"
    using map_get_at [of m a i] assms(1) i(2) n by (simp add: dict_ok_def)
  then show False
    using assms(1) by (simp add: dict_ok_def)
qed

lemma dict_items_keys:
  assumes "dict_ok E (m, c)"
  shows "card (fst ` set (dict_items m)) = used m"
    and "\<forall>a\<in>fst ` set (dict_items m). \<forall>b\<in>fst ` set (dict_items m). same_key E a b \<longrightarrow> a = b"
    and "map fst (dict_items m) = List.map_filter key_of (keys m)"
proof -
  show k: "map fst (dict_items m) = List.map_filter key_of (keys m)"
    unfolding dict_items_def keys_def by (rule items_keys) (use dict_filled_value [OF assms] in blast)
  let ?E = "E\<lparr>op_equal := same_key E\<rparr>"
  have laws: "set_laws ?E"
    using hash_keys_axioms by (simp add: set_laws_def)
  have m: "map_ok E m"
    using assms by (simp add: dict_ok_def)
  have ij: "i = j" if "i < length (keys m)" "j < length (keys m)" "keys m ! i = Key a \<and> keys m ! j = Key b \<and> op_equal ?E a b" for i j a b
    using slot_unique [OF m, of b i j] that same_refl by (auto simp: slot_at_def slot_matches_iff)
  have "distinct (List.map_filter key_of (keys m)) \<and>
      (\<forall>a b. Key a \<in> set (keys m) \<and> Key b \<in> set (keys m) \<and> op_equal ?E a b \<longrightarrow> a = b)"
    by (rule set_laws.distinct_items [OF laws]) (use ij in blast)
  then have d: "distinct (List.map_filter key_of (keys m))"
    and u: "\<forall>a b. Key a \<in> set (keys m) \<and> Key b \<in> set (keys m) \<and> same_key E a b \<longrightarrow> a = b"
    by simp_all
  have set: "fst ` set (dict_items m) = set (List.map_filter key_of (keys m))"
    using arg_cong [OF k, of set] by simp
  show "card (fst ` set (dict_items m)) = used m"
    unfolding set using distinct_card [OF d] m by (simp add: length_filled map_ok_def)
  have "a \<in> set (List.map_filter key_of ks) \<longleftrightarrow> Key a \<in> set ks" for a :: 'o and ks
    by (induction ks) (auto simp: List.map_filter_simps key_of_def split: key.splits)
  then show "\<forall>a\<in>fst ` set (dict_items m). \<forall>b\<in>fst ` set (dict_items m). same_key E a b \<longrightarrow> a = b"
    unfolding set using u by blast
qed

lemma dict_item_val: "dict_ok E (m, c) \<Longrightarrow> (k, v) \<in> set (dict_items m) \<Longrightarrow> dict_val E (m, c) k = Some v"
  using dict_items_iff [of m c v k] same_refl by blast

lemma dict_val_same: "same_key E x y \<Longrightarrow> dict_val E d x = dict_val E d y"
  by (simp add: dict_val_def map_get_same)

text \<open>The code compares the sizes and looks up the keys of one side only.\<close>

lemma dict_equal_ok:
  assumes l: "dict_ok E (m, c0)" and r: "dict_ok E (n, c)"
  shows "\<exists>d'. dict_equal E eqv False m (n, c) = Some (\<forall>y. rel_option eqv (dict_val E (m, c0) y) (dict_val E (n, c) y), d')"
proof -
  let ?A = "fst ` set (dict_items m)" and ?B = "fst ` set (dict_items n)"
  let ?R = "\<forall>y. rel_option eqv (dict_val E (m, c0) y) (dict_val E (n, c) y)"
  let ?L = "\<forall>(k, v) \<in> set (dict_items m). \<exists>w. dict_val E (n, c) k = Some w \<and> eqv v w"
  note A = dict_items_keys [OF l] and B = dict_items_keys [OF r]
  have sub: "\<exists>b\<in>fst ` set (dict_items n). same_key E b k" if "dict_ok E (n, c)" "dict_val E (n, c) k = Some w" for n c k w
    using dict_items_iff [OF that(1), of w k] that(2) by force
  have to: "?R" if u: "used m = used n" and L: "?L"
  proof
    fix y
    have AB: "\<forall>a\<in>?A. \<exists>b\<in>?B. same_key E b a"
    proof
      fix a assume "a \<in> ?A"
      then obtain v where "(a, v) \<in> set (dict_items m)"
        by force
      then obtain w where "dict_val E (n, c) a = Some w"
        using L by blast
      then show "\<exists>b\<in>?B. same_key E b a"
        by (rule sub [OF r])
    qed
    show "rel_option eqv (dict_val E (m, c0) y) (dict_val E (n, c) y)"
    proof (cases "dict_val E (m, c0) y")
      case (Some v)
      then obtain k where k: "(k, v) \<in> set (dict_items m)" "same_key E k y"
        using dict_items_iff [OF l, of v y] by blast
      then obtain w where "dict_val E (n, c) k = Some w" "eqv v w"
        using L by blast
      then show ?thesis
        using dict_val_same [OF k(2), of "(n, c)"] Some by simp
    next
      case None
      have "dict_val E (n, c) y = None"
      proof (rule ccontr)
        assume "dict_val E (n, c) y \<noteq> None"
        then obtain b where b: "b \<in> ?B" "same_key E b y"
          using sub [OF r, of y] by blast
        obtain a where "a \<in> ?A" "same_key E b a"
          using matching_onto [OF _ A(2) AB _ b(1)] A(1) B(1) u by auto
        then have "dict_val E (m, c0) y \<noteq> None"
          using dict_item_val [OF l, of a] dict_val_same [of b a "(m, c0)"] dict_val_same [OF b(2), of "(m, c0)"] by force
        then show False
          using None by simp
      qed
      then show ?thesis
        using None by simp
    qed
  qed
  have conv: "used m = used n" "?L" if R: "?R"
  proof -
    have some: "dict_val E (m, c0) y \<noteq> None \<longleftrightarrow> dict_val E (n, c) y \<noteq> None" for y
      using spec [OF R, of y] by (cases "dict_val E (m, c0) y"; cases "dict_val E (n, c) y") auto
    have "\<forall>a\<in>?A. \<exists>b\<in>?B. same_key E b a"
      using sub [OF r] some dict_item_val [OF l] by fastforce
    moreover have "\<forall>b\<in>?B. \<exists>a\<in>?A. same_key E a b"
      using sub [OF l] some dict_item_val [OF r] by fastforce
    ultimately show "used m = used n"
      using matching_card [OF _ A(2), of ?B] matching_card [OF _ B(2), of ?A] A(1) B(1) by force
    show ?L
    proof clarify
      fix k v assume "(k, v) \<in> set (dict_items m)"
      then have "dict_val E (m, c0) k = Some v"
        by (rule dict_item_val [OF l])
      then show "\<exists>w. dict_val E (n, c) k = Some w \<and> eqv v w"
        using spec [OF R, of k] by (auto simp: option_rel_Some1)
    qed
  qed
  obtain d' where d': "dict_equal_loop E eqv (dict_items m) (n, c) = Some (?L, d')"
    using dict_equal_loop_ok [OF r, of eqv "dict_items m"] by blast
  have "?R \<longleftrightarrow> used m = used n \<and> ?L"
    using to conv by blast
  then show ?thesis
    using d' by (auto simp: dict_equal_def)
qed

end

section \<open>The operators of dicts\<close>

text \<open>The dict that holds the entries of another one over its own.\<close>

definition merged :: "('o \<Rightarrow> 'o option) \<Rightarrow> ('o \<Rightarrow> 'o option) \<Rightarrow> 'o \<Rightarrow> 'o option" where
  "merged f g y = (case g y of Some v \<Rightarrow> Some v | None \<Rightarrow> f y)"

definition dict_op_post ::
    "'o obj_ops \<Rightarrow> ('o \<Rightarrow> 'o \<Rightarrow> bool) \<Rightarrow> container_op \<Rightarrow> 'o dict_obj \<Rightarrow> 'o dict_rhs \<Rightarrow> 'o dict_op_result \<Rightarrow> 'o dict_obj \<Rightarrow> bool" where
  "dict_op_post E eqv op lhs rhs r lhs' \<longleftrightarrow>
     (let val = (\<lambda>d. dict_val E (do_map d, []))
      in case op of
           CONTAINS_OP \<Rightarrow> r = DR_Bool (val lhs (dr_obj rhs) \<noteq> None) \<and> lhs' = lhs
         | EQUAL_OP \<Rightarrow>
             lhs' = lhs \<and>
             r = DR_Bool (case dr_dict rhs of
                   None \<Rightarrow> False
                 | Some other \<Rightarrow>
                     if do_ordereddict lhs \<and> do_ordereddict other
                     then list_all2 (\<lambda>(k, v) (l, w). same_key E k l \<and> eqv v w) (dict_items (do_map lhs)) (dict_items (do_map other))
                     else \<not> do_ordereddict other \<and> (\<forall>y. rel_option eqv (val lhs y) (val other y)))
         | OR_OP \<Rightarrow>
             lhs' = lhs \<and>
             (\<exists>m. r = DR_New (lhs\<lparr>do_map := m\<rparr>) \<and> dict_ok E (m, []) \<and>
               dict_val E (m, []) = merged (val lhs) (val (the (dr_dict rhs))))
         | INPLACE_OR_OP \<Rightarrow>
             r = DR_Lhs \<and>
             (\<exists>m. lhs' = lhs\<lparr>do_map := m\<rparr> \<and> dict_ok E (m, []) \<and>
               dict_val E (m, []) = merged (val lhs) (val (the (dr_dict rhs))))
         | _ \<Rightarrow> r = DR_Null \<and> lhs' = lhs)"

lemma dict_ok_cache: "dict_ok E (m, c) \<longleftrightarrow> dict_ok E (m, [])" "dict_val E (m, c) = dict_val E (m, [])"
  by (auto simp: dict_ok_def dict_val_def)

lemma dict_equal_ordered_iff:
  "dict_equal_ordered E eqv xs ys \<longleftrightarrow> list_all2 (\<lambda>(k, v) (l, w). same_key E k l \<and> eqv v w) xs ys"
  by (induction E eqv xs ys rule: dict_equal_ordered.induct) auto

context obj_laws
begin

lemma dict_contains_ok:
  assumes "dict_ok E d"
  shows "\<exists>c'. dict_contains E k d = Some (dict_val E d k \<noteq> None, fst d, c')"
proof -
  obtain r m' c' where l: "mp_map_lookup E LOOKUP k (fst d) (snd d) = Some (r, m', c')" and post: "lookup_post E LOOKUP k (fst d) r m'"
    by (rule mp_map_lookup_total [where m = "fst d" and kind = LOOKUP and x = k]) (use assms in \<open>auto simp: dict_ok_def\<close>)
  have "m' = fst d" "r \<noteq> None \<longleftrightarrow> map_get E (fst d) k \<noteq> None"
    using post map_get_None [of E "fst d" k] by (auto simp: lookup_post_def split: option.splits)
  then show ?thesis
    using l dict_val_eq [OF assms, of k] by (simp add: dict_contains_def)
qed

lemma dict_merge_ok:
  assumes "dict_ok E (m, [])" and "dict_ok E (n, [])"
  shows "\<exists>m' c'. dict_update E (Other_dict n) [] (m, c) = Some (Inr (), m', c') \<and> dict_ok E (m', []) \<and>
    dict_val E (m', []) = merged (dict_val E (m, [])) (dict_val E (n, []))"
proof -
  obtain m' c' where "dict_update E (Other_dict n) [] (m, c) = Some (Inr (), m', c')" "dict_ok E (m', c')"
    "\<forall>y. dict_val E (m', c') y = (case dict_val E (n, c) y of Some v \<Rightarrow> Some v | None \<Rightarrow> dict_val E (m, c) y)"
    using dict_update_dict_ok [of "(m, c)" n c] assms by (auto simp: dict_ok_cache [of _ _ c])
  then show ?thesis
    by (auto simp: merged_def fun_eq_iff dict_ok_cache [of _ _ c] dict_ok_cache [of _ _ c'] split: option.splits)
qed

lemma dict_binary_op_ok:
  assumes l: "dict_ok E (do_map lhs, [])" and r: "\<And>other. dr_dict rhs = Some other \<Longrightarrow> dict_ok E (do_map other, [])"
    and same: "dr_same rhs \<Longrightarrow> dr_dict rhs = Some lhs" and op: "op \<in> {OR_OP, INPLACE_OR_OP} \<Longrightarrow> dr_dict rhs \<noteq> None"
  shows "\<exists>r lhs' c'. dict_binary_op E eqv op lhs rhs c = Some (r, lhs', c') \<and> dict_op_post E eqv op lhs rhs r lhs'"
proof (cases op)
  case CONTAINS_OP
  obtain c' where "dict_contains E (dr_obj rhs) (do_map lhs, c) = Some (dict_val E (do_map lhs, c) (dr_obj rhs) \<noteq> None, do_map lhs, c')"
    using dict_contains_ok [of "(do_map lhs, c)" "dr_obj rhs"] l by (auto simp: dict_ok_cache [of _ _ c])
  then show ?thesis
    by (simp add: CONTAINS_OP dict_binary_op_def dict_op_post_def Let_def dict_ok_cache(2) [of _ _ c])
next
  case EQUAL_OP
  show ?thesis
  proof (cases "dr_dict rhs")
    case (Some other)
    obtain d' where "dict_equal E eqv False (do_map lhs) (do_map other, c) =
        Some (\<forall>y. rel_option eqv (dict_val E (do_map lhs, []) y) (dict_val E (do_map other, c) y), d')"
      using dict_equal_ok [OF l, of "do_map other" c eqv] r [OF Some] dict_ok_cache(1) [of E "do_map other" c] by blast
    then show ?thesis
      by (auto simp: EQUAL_OP Some dict_binary_op_def dict_op_post_def Let_def dict_ok_cache(2) [of _ _ c] dict_equal_def [of E eqv True]
          dict_equal_ordered_iff)
  qed (simp add: EQUAL_OP dict_binary_op_def dict_op_post_def Let_def)
next
  case OR_OP
  then obtain other where other: "dr_dict rhs = Some other"
    using op by auto
  have "dict_ok E (mp_obj_dict_copy (do_map lhs), [])" "dict_val E (mp_obj_dict_copy (do_map lhs), []) = dict_val E (do_map lhs, [])"
    using mp_obj_dict_copy_ok [of "do_map lhs" "[]"] l by (auto simp: dict_ok_def)
  from dict_merge_ok [OF this(1) r [OF other], of c] this(2) show ?thesis
    by (auto simp: OR_OP other dict_binary_op_def dict_op_post_def Let_def)
next
  case INPLACE_OR_OP
  then obtain other where other: "dr_dict rhs = Some other"
    using op by auto
  show ?thesis
  proof (cases "dr_same rhs")
    case True
    have "merged f f = f" for f :: "'o \<Rightarrow> 'o option"
      by (auto simp: merged_def fun_eq_iff split: option.splits)
    moreover have "dict_update E Itself [] (do_map lhs, c) = Some (Inr (), do_map lhs, c)"
      using l by (simp add: dict_update_def dict_ok_def)
    moreover have "lhs = lhs\<lparr>do_map := do_map lhs\<rparr>"
      by simp
    ultimately show ?thesis
      using l same [OF True] True by (auto intro!: exI [of _ "do_map lhs"] simp: INPLACE_OR_OP dict_binary_op_def dict_op_post_def Let_def)
  next
    case False
    from dict_merge_ok [OF l r [OF other], of c] False show ?thesis
      by (auto simp: INPLACE_OR_OP other dict_binary_op_def dict_op_post_def Let_def)
  qed
qed (simp_all add: dict_binary_op_def dict_op_post_def Let_def)

end

section \<open>What an iteration yields\<close>

definition view_item :: "dict_view_kind \<Rightarrow> 'o \<times> 'v \<Rightarrow> ('o, 'v) view_item" where
  "view_item kind e =
     (case kind of
        DICT_VIEW_ITEMS \<Rightarrow> View_Pair (fst e) (snd e)
      | DICT_VIEW_KEYS \<Rightarrow> View_Key (fst e)
      | DICT_VIEW_VALUES \<Rightarrow> View_Value (snd e))"

definition slot_items :: "('o, 'v) slot list \<Rightarrow> ('o \<times> 'v) list" where
  "slot_items es = List.map_filter (\<lambda>e. case e of (Key a, Some v) \<Rightarrow> Some (a, v) | _ \<Rightarrow> None) es"

lemma find_filled_items:
  assumes "\<forall>e\<in>set es. is_filled (fst e) \<longrightarrow> snd e \<noteq> None"
  shows "case find_filled es b of
      None \<Rightarrow> slot_items es = []
    | Some i \<Rightarrow> b \<le> i \<and> i < b + length es \<and>
        (\<exists>k v. es ! (i - b) = (Key k, Some v) \<and> slot_items es = (k, v) # slot_items (drop (i - b + 1) es))"
  using assms
proof (induction es b rule: find_filled.induct)
  case (2 e es b)
  show ?case
  proof (cases "is_filled (fst e)")
    case True
    then obtain k v where "e = (Key k, Some v)"
      using 2(2) by (cases e; cases "fst e") (auto simp: is_filled_def)
    then show ?thesis
      using True by (simp add: slot_items_def List.map_filter_simps)
  next
    case False
    have "slot_items (e # es) = slot_items es"
      using False by (cases e; cases "fst e") (auto simp: slot_items_def List.map_filter_simps is_filled_def)
    then show ?thesis
      using 2(1) [OF False] 2(2) False by (auto simp: Suc_diff_Suc Suc_le_eq nth_Cons' split: option.splits)
  qed
qed (simp add: slot_items_def)

context obj_laws
begin

lemma dict_view_all_from:
  assumes "dict_ok E (m, c)"
  shows "dict_view_all \<lparr>vi_kind = kind, vi_cur = cur\<rparr> m = Some (map (view_item kind) (slot_items (drop cur (table m))))"
proof (induction "length (table m) - cur" arbitrary: cur rule: less_induct)
  case less
  have v: "\<forall>e\<in>set (drop cur (table m)). is_filled (fst e) \<longrightarrow> snd e \<noteq> None"
    using dict_filled_value [OF assms] set_drop_subset [of cur "table m"] by blast
  show ?case
  proof (cases "find_filled (drop cur (table m)) cur")
    case None
    then show ?thesis
      using find_filled_items [OF v, of cur] by (simp add: dict_view_all.simps [of "\<lparr>vi_kind = kind, vi_cur = cur\<rparr>"] dict_view_it_iternext_def dict_iter_next_def)
  next
    case (Some i)
    obtain k w where i: "cur \<le> i" "i < cur + length (drop cur (table m))" "drop cur (table m) ! (i - cur) = (Key k, Some w)"
      "slot_items (drop cur (table m)) = (k, w) # slot_items (drop (i - cur + 1) (drop cur (table m)))"
      using find_filled_items [OF v, of cur] Some by auto
    have "table m ! i = (Key k, Some w)" "drop (i - cur + 1) (drop cur (table m)) = drop (i + 1) (table m)"
      using i(1,2,3) by (simp_all add: add.commute)
    moreover have "dict_view_all \<lparr>vi_kind = kind, vi_cur = i + 1\<rparr> m = Some (map (view_item kind) (slot_items (drop (i + 1) (table m))))"
      using i(1,2) by (intro less) auto
    ultimately show ?thesis
      using i(4) by (simp add: dict_view_all.simps [of "\<lparr>vi_kind = kind, vi_cur = cur\<rparr>"] dict_view_it_iternext_def dict_iter_next_def
          Some view_item_def split: dict_view_kind.split)
  qed
qed

lemma dict_view_all_items:
  assumes "dict_ok E (m, c)"
  shows "dict_view_all (dict_view_getiter kind) m = Some (map (view_item kind) (dict_items m))"
  using dict_view_all_from [OF assms, of kind 0] by (simp add: dict_view_getiter_def slot_items_def dict_items_def)

lemma dict_getiter_keys:
  assumes "dict_ok E (m, c)"
  shows "dict_view_all dict_getiter m = Some (map View_Key (dict_key_order m))"
proof -
  have "map fst (dict_items m) = dict_key_order m"
    using dict_items_keys(3) [OF assms] by (simp add: dict_key_order_def filled_keys_def key_of_def [abs_def])
  moreover have "dict_getiter = dict_view_getiter DICT_VIEW_KEYS"
    by (simp add: dict_getiter_def dict_view_getiter_def)
  ultimately show ?thesis
    using dict_view_all_items [OF assms, of DICT_VIEW_KEYS] by (simp add: view_item_def [abs_def] flip: \<open>map fst _ = _\<close>)
qed

end

end
