(* ===== verification/Mp_Props.thy ===== *)
theory Mp_Props
  imports Container_Ops
begin

text \<open>
  The properties of maps, dicts, sets and interned strings. They hold for every object model that
  obeys the laws of \<open>obj_laws\<close> or \<open>set_laws\<close>; the witnesses use the small integers and strings of
  theory Py_Obj.
\<close>

section \<open>Maps\<close>

text \<open>
  C14. Every lookup of a well-formed map returns: no assertion fails, the calls between the lookup
  and the rehash are at most two deep and the search starts again at most once. The map stays
  well-formed, and the lookup has the effect of its kind: a search changes nothing and finds the
  slot of the key exactly when there is one, an insertion adds the key when it is absent and keeps
  all other entries, also when the table grows, and a removal takes out the key alone and hands
  back the slot with the value. The lookup cache may hold anything.
\<close>

theorem map_lookup_correct:
  assumes "obj_laws E" and "map_ok E m" and "is_fixed m \<Longrightarrow> kind = LOOKUP"
  shows "\<exists>r m' c'. mp_map_lookup E kind x m c = Some (r, m', c') \<and> lookup_post E kind x m r m'"
  by (rule obj_laws.mp_map_lookup_total [OF assms(1,2), of kind]) (use assms(3) in blast)+

definition example_word :: "py_obj \<Rightarrow> nat" where
  "example_word x = (case x of SmallInt i \<Rightarrow> nat (2 * i + 1) | Qstr s \<Rightarrow> length s | Str a _ _ \<Rightarrow> a)"

abbreviation example_ops :: "py_obj obj_ops" where
  "example_ops \<equiv> py_ops example_word"

abbreviation example_map :: "(py_obj, nat) mp_map" where
  "example_map \<equiv> \<lparr>all_keys_are_qstrs = False, is_fixed = False, is_ordered = False, used = 2,
     table = [(Key (SmallInt 4), Some 7), (Key (SmallInt 3), Some 8)]\<rparr>"

lemma example_map_ok: "map_ok example_ops example_map"
  by (auto simp: map_ok_def keys_def filled_count_def tab_ok_def py_same_key mp_obj_equal_iff mp_obj_hash_def
      less_Suc_eq nth_Cons' cyc_def split: if_splits)

lemma map_lookup_correct_witness:
  "\<exists>r m' c'. mp_map_lookup example_ops ADD_IF_NOT_FOUND (SmallInt 9) example_map (replicate 128 0) = Some (r, m', c') \<and>
     lookup_post example_ops ADD_IF_NOT_FOUND (SmallInt 9) example_map r m'"
  by (rule map_lookup_correct [OF py.obj_laws_axioms example_map_ok]) simp

section \<open>Dicts\<close>

text \<open>
  C15. A program of dict operations refines the same program on a finite map: stores, subscript
  loads and deletions, \<^verbatim>\<open>get\<close>, \<^verbatim>\<open>pop\<close> and \<^verbatim>\<open>setdefault\<close> with and without a default return the results of
  the finite map one by one, \<^verbatim>\<open>KeyError\<close> included, and leave the dict that stands for the finite
  map after the program.
\<close>

theorem dict_refines_finite_map:
  assumes "obj_laws E" and "dict_ok E d"
  shows "\<exists>d'. dict_run E none cmds d = Some (fst (spec_run (same_key E) none cmds (dict_val E d)), d') \<and> dict_ok E d' \<and>
    dict_val E d' = snd (spec_run (same_key E) none cmds (dict_val E d))"
  by (rule obj_laws.dict_run_refines_run [OF assms])

lemma example_dict_ok: "dict_ok example_ops (mp_obj_new_dict n ordered, c)"
  by (rule py.mp_obj_new_dict_ok)

lemma dict_refines_finite_map_witness:
  "\<exists>d'. dict_run example_ops 0 [Do_store (SmallInt 4) 7, Do_pop (SmallInt 5) None, Do_setdefault (Str 8 False [97]) (Some 3), Do_load (Qstr [97])]
      (mp_obj_new_dict 2 False, replicate 128 0) = Some ([Inr 0, Inl KeyError, Inr 3, Inr (3 :: nat)], d')"
proof -
  have d: "dict_ok example_ops (mp_obj_new_dict 2 False :: (py_obj, nat) mp_map, replicate 128 0)"
    by (rule example_dict_ok)
  show ?thesis
    using dict_refines_finite_map [OF py.obj_laws_axioms d, of 0
      "[Do_store (SmallInt 4) 7, Do_pop (SmallInt 5) None, Do_setdefault (Str 8 False [97]) (Some 3), Do_load (Qstr [97])]"]
    by (auto simp: spec_step_def py_same_key mp_obj_equal_iff str_data_def py.mp_obj_new_dict_ok(2))
qed

text \<open>
  C16. \<^verbatim>\<open>popitem\<close> of a dict that is not empty removes one entry: the pair it returns is an entry of
  the dict, and the dict is left without that key and otherwise unchanged; of an empty dict it
  raises \<^verbatim>\<open>KeyError\<close> and changes nothing.
\<close>

theorem dict_popitem_correct:
  assumes "obj_laws E" and "dict_ok E d"
  shows "case dict_popitem d of
      None \<Rightarrow> False
    | Some (Inl e, d') \<Rightarrow> e = KeyError \<and> mp_obj_dict_len d = 0 \<and> d' = d
    | Some (Inr (a, v), d') \<Rightarrow>
        (\<exists>k w. a = Key k \<and> v = Some w \<and> dict_val E d k = Some w \<and> dict_ok E d' \<and>
          mp_obj_dict_len d' + 1 = mp_obj_dict_len d \<and>
          (\<forall>y. dict_val E d' y = (if same_key E k y then None else dict_val E d y)))"
  by (rule obj_laws.dict_popitem_ok [OF assms])

lemma dict_popitem_correct_witness:
  "case dict_popitem (example_map, []) of
      None \<Rightarrow> False
    | Some (Inl e, d') \<Rightarrow> False
    | Some (Inr (a, v), d') \<Rightarrow> \<exists>k w. a = Key k \<and> v = Some w \<and> dict_val example_ops (example_map, []) k = Some w"
proof -
  have "map_get example_ops example_map y \<noteq> Some None" for y
    by (auto simp: map_get_def slot_matches_def split: if_splits)
  then have "dict_ok example_ops (example_map, [])"
    by (simp add: dict_ok_def example_map_ok)
  from dict_popitem_correct [OF py.obj_laws_axioms this] show ?thesis
    by (auto simp: mp_obj_dict_len_def split: option.splits prod.splits sum.splits)
qed

text \<open>
  C17. The operators of dicts. \<^verbatim>\<open>in\<close> tests for a key. \<^verbatim>\<open>==\<close> of a dict with a \<^verbatim>\<open>dict\<close> decides that both have the
  same keys with equal values, by the sizes and the lookups of one side; two ordered dicts have to agree in the order as well; a comparison
  with anything else, an \<^verbatim>\<open>OrderedDict\<close> on the right of a \<^verbatim>\<open>dict\<close> included, is false. \<^verbatim>\<open>|\<close> makes a
  new dict with the entries of the right operand over those of the left one, \<^verbatim>\<open>|=\<close> puts them into the left one,
  which may be the right one as well. Other operators are not supported.
\<close>

theorem dict_binary_op_correct:
  assumes "obj_laws E" and "dict_ok E (do_map lhs, [])" and "\<forall>other. dr_dict rhs = Some other \<longrightarrow> dict_ok E (do_map other, [])"
    and "dr_same rhs \<longrightarrow> dr_dict rhs = Some lhs" and "op \<in> {OR_OP, INPLACE_OR_OP} \<longrightarrow> dr_dict rhs \<noteq> None"
  shows "\<exists>r lhs' c'. dict_binary_op E eqv op lhs rhs c = Some (r, lhs', c') \<and> dict_op_post E eqv op lhs rhs r lhs'"
  using assms(3-5) by (intro obj_laws.dict_binary_op_ok [OF assms(1,2)]) blast+

abbreviation example_entries :: "(py_obj, py_obj) mp_map" where
  "example_entries \<equiv> \<lparr>all_keys_are_qstrs = False, is_fixed = False, is_ordered = False, used = 2,
     table = [(Key (SmallInt 4), Some (SmallInt 7)), (Key (SmallInt 3), Some (SmallInt 8))]\<rparr>"

lemma example_entries_ok: "dict_ok example_ops (example_entries, c)"
proof -
  have "map_ok example_ops example_entries"
    by (auto simp: map_ok_def keys_def filled_count_def tab_ok_def py_same_key mp_obj_equal_iff mp_obj_hash_def
        less_Suc_eq nth_Cons' cyc_def split: if_splits)
  moreover have "map_get example_ops example_entries y \<noteq> Some None" for y
    by (auto simp: map_get_def slot_matches_def split: if_splits)
  ultimately show ?thesis
    by (simp add: dict_ok_def)
qed

lemma dict_binary_op_correct_witness:
  "\<exists>m c'. dict_binary_op example_ops (=) OR_OP \<lparr>do_ordereddict = False, do_map = mp_obj_new_dict 0 False\<rparr>
      \<lparr>dr_obj = SmallInt 0, dr_dict = Some \<lparr>do_ordereddict = False, do_map = example_entries\<rparr>, dr_same = False, dr_pairs = []\<rparr> [] =
        Some (DR_New \<lparr>do_ordereddict = False, do_map = m\<rparr>, \<lparr>do_ordereddict = False, do_map = mp_obj_new_dict 0 False\<rparr>, c') \<and>
     dict_val example_ops (m, []) (SmallInt 3) = Some (SmallInt 8)"
proof -
  let ?l = "\<lparr>do_ordereddict = False, do_map = mp_obj_new_dict 0 False\<rparr> :: py_obj dict_obj"
  let ?r = "\<lparr>dr_obj = SmallInt 0, dr_dict = Some \<lparr>do_ordereddict = False, do_map = example_entries\<rparr>, dr_same = False, dr_pairs = []\<rparr>"
  have "dict_ok example_ops (do_map ?l, [])"
    using example_dict_ok by simp
  from dict_binary_op_correct [OF py.obj_laws_axioms this, of ?r OR_OP "(=)" "[]"] example_entries_ok [of "[]"]
  obtain r l c' where r: "dict_binary_op example_ops (=) OR_OP ?l ?r [] = Some (r, l, c')" "dict_op_post example_ops (=) OR_OP ?l ?r r l"
    by auto
  have "dict_val example_ops (example_entries, []) (SmallInt 3) = Some (SmallInt 8)"
    by (simp add: dict_val_def map_get_def slot_matches_def py_same_key mp_obj_equal_iff)
  then show ?thesis
    using r by (auto simp: dict_op_post_def merged_def)
qed

text \<open>
  C18. An ordered dict yields its keys in the order of their insertion: a store appends a new key
  and leaves the order alone for a key that is there, a \<^verbatim>\<open>pop\<close> removes its key from the order, and
  \<^verbatim>\<open>popitem\<close> returns the last key. The iterator yields the keys in that order and then stops.
\<close>

theorem ordered_dict_order:
  assumes "obj_laws E" and "dict_ok E d" and "is_ordered (fst d)"
  shows "(\<exists>d'. map_store E k v d = Some d' \<and> is_ordered (fst d') \<and>
      dict_key_order (fst d') = dict_key_order (fst d) @ (if dict_val E d k = None then [k] else [])) \<and>
    (\<exists>r d'. dict_pop E none k dflt d = Some (r, d') \<and> is_ordered (fst d') \<and>
      dict_key_order (fst d') = filter (\<lambda>a. \<not> same_key E a k) (dict_key_order (fst d))) \<and>
    (mp_obj_dict_len d = 0 \<or>
     (\<exists>l w d'. dict_popitem d = Some (Inr (Key l, w), d') \<and> dict_key_order (fst d) = dict_key_order (fst d') @ [l])) \<and>
    dict_view_all dict_getiter (fst d) = Some (map View_Key (dict_key_order (fst d)))"
proof (intro conjI)
  show "dict_view_all dict_getiter (fst d) = Some (map View_Key (dict_key_order (fst d)))"
    using obj_laws.dict_getiter_keys [OF assms(1), of "fst d" "snd d"] assms(2) by simp
qed (use obj_laws.ordered_store [OF assms] obj_laws.ordered_pop [OF assms] obj_laws.ordered_popitem [OF assms] in blast)+

lemma ordered_dict_order_witness:
  "\<exists>d'. map_store example_ops (SmallInt 5) (6 :: nat) (mp_obj_new_dict 0 True, []) = Some d' \<and> dict_key_order (fst d') = [SmallInt 5]"
proof -
  have d: "dict_ok example_ops (mp_obj_new_dict 0 True :: (py_obj, nat) mp_map, [])"
    by (rule example_dict_ok)
  have empty: "dict_key_order (mp_obj_new_dict 0 True :: (py_obj, nat) mp_map) = []" "is_ordered (mp_obj_new_dict 0 True :: (py_obj, nat) mp_map)"
    by (simp_all add: dict_key_order_def keys_def mp_obj_new_dict_def mp_map_init_def)
  show ?thesis
    using ordered_dict_order [OF py.obj_laws_axioms d, of "SmallInt 5" 6 0 None] empty by (auto simp: py.mp_obj_new_dict_ok(2))
qed

section \<open>Sets\<close>

text \<open>
  C19. The set operations compute the sets they name, for arguments that are sets of any layout or
  other iterables with repeated items: union, intersection, difference from several arguments
  (the set itself among them), and the result is well-formed.
\<close>

theorem set_algebra:
  assumes "set_laws E" and "set_ok E s"
  shows "(\<exists>s'. set_union E s items = Some s' \<and> set_ok E s' \<and>
      (\<forall>y. set_mem E s' y \<longleftrightarrow> set_mem E s y \<or> list_ex (\<lambda>x. op_equal E x y) items)) \<and>
    (\<exists>s'. set_intersect_int E False items s = Some s' \<and> set_ok E s' \<and>
      (\<forall>y. set_mem E s' y \<longleftrightarrow> set_mem E s y \<and> list_ex (\<lambda>x. op_equal E x y) items)) \<and>
    (\<exists>s'. set_diff_int E args update s = Some s' \<and> set_ok E s' \<and>
      (\<forall>y. set_mem E s' y \<longleftrightarrow> set_mem E s y \<and>
         \<not> list_ex (\<lambda>(is_self, items). is_self \<or> list_ex (\<lambda>x. op_equal E x y) items) args))"
proof (intro conjI)
  note copy = set_copy_ok(1) [OF assms(2)] set_copy_ok(2)
  show "\<exists>s'. set_union E s items = Some s' \<and> set_ok E s' \<and>
      (\<forall>y. set_mem E s' y \<longleftrightarrow> set_mem E s y \<or> list_ex (\<lambda>x. op_equal E x y) items)"
    using set_laws.set_update_int_ok [OF assms(1) copy(1), of items] by (simp add: set_union_def copy(2))
  show "\<exists>s'. set_intersect_int E False items s = Some s' \<and> set_ok E s' \<and>
      (\<forall>y. set_mem E s' y \<longleftrightarrow> set_mem E s y \<and> list_ex (\<lambda>x. op_equal E x y) items)"
    by (rule set_laws.set_intersect_loop_ok [OF assms set_ok_init [of E 0], of items])
      (auto simp: set_intersect_int_def set_mem_init)
  show "\<exists>s'. set_diff_int E args update s = Some s' \<and> set_ok E s' \<and>
      (\<forall>y. set_mem E s' y \<longleftrightarrow> set_mem E s y \<and>
         \<not> list_ex (\<lambda>(is_self, items). is_self \<or> list_ex (\<lambda>x. op_equal E x y) items) args)"
    using set_laws.set_diff_args_ok [OF assms(1), of "if update then s else set_copy s" args] assms(2) copy(1)
    by (auto simp: set_diff_int_def copy(2) split: if_splits)
qed

lemma set_comparisons:
  assumes "set_laws E" and "set_ok E s" and "set_ok E t"
  shows "set_issubset_internal E s t False = Some (\<forall>y. set_mem E s y \<longrightarrow> set_mem E t y) \<and>
    set_isdisjoint E (set_items s) t = Some (\<forall>y. \<not> (set_mem E s y \<and> set_mem E t y)) \<and>
    set_equal E s t = Some (\<forall>y. set_mem E s y \<longleftrightarrow> set_mem E t y)"
proof -
  have items: "(\<forall>x \<in> set (set_items s). P x) \<longleftrightarrow> (\<forall>y. set_mem E s y \<longrightarrow> P y)"
    if "\<And>x y. op_equal E x y \<Longrightarrow> P x \<longleftrightarrow> P y" for P
    using that set_laws.set_items_mem [OF assms(1)] by (auto simp: set_mem_items)
  note same = set_laws.set_mem_same [OF assms(1)]
  show ?thesis
    using set_laws.set_equal_ok [OF assms] items [of "set_mem E t"] items [of "\<lambda>x. \<not> set_mem E t x"] same
    by (auto simp: set_issubset_internal_def set_laws.set_all_in_ok [OF assms(1,3)] set_laws.set_isdisjoint_ok [OF assms(1,3)])
qed

abbreviation example_set :: "py_obj mp_set" where
  "example_set \<equiv> \<lparr>set_used = 2, set_table = [Key (SmallInt 4), Key (SmallInt 3)]\<rparr>"

lemma example_set_ok: "set_ok example_ops example_set"
  by (auto simp: set_ok_def filled_count_def tab_ok_def mp_obj_equal_iff mp_obj_hash_def
      less_Suc_eq nth_Cons' cyc_def split: if_splits)

lemma set_algebra_witness:
  "\<exists>s'. set_union example_ops example_set [SmallInt 7, SmallInt 7] = Some s' \<and> set_mem example_ops s' (SmallInt 7)"
  using set_algebra [OF py_sets.set_laws_axioms example_set_ok, of "[SmallInt 7, SmallInt 7]" "[]" True]
  by (auto simp: mp_obj_equal_iff)

text \<open>
  C20. The operators of sets and frozensets, for operands of any layout and also for an object with itself: the
  result of \<^verbatim>\<open>|\<close>, \<^verbatim>\<open>^\<close>, \<^verbatim>\<open>&\<close> and \<^verbatim>\<open>-\<close> has the members that their names say, the forms in place change a \<^verbatim>\<open>set\<close> and
  make a new object for a \<^verbatim>\<open>frozenset\<close>, and the comparisons decide inclusion and equality of the members,
  strict ones included. The new object has the type of the left operand, but the intersection of different objects is a \<^verbatim>\<open>set\<close> for
  a \<^verbatim>\<open>frozenset\<close> too. A right operand that is no set is supported by \<^verbatim>\<open>in\<close> only. Frozensets that compare equal have equal hashes.
\<close>

theorem set_binary_op_correct:
  assumes "set_laws E" and "set_ok E (so_set lhs)" and "\<forall>other. sr_set rhs = Some other \<longrightarrow> set_ok E (so_set other)"
    and "sr_same rhs \<longrightarrow> sr_set rhs = Some lhs"
  shows "(case (set_op_members op, sr_set rhs) of
       (Some f, Some other) \<Rightarrow>
         \<exists>u. set_ok E u \<and> (\<forall>y. set_mem E u y \<longleftrightarrow> f (set_mem E (so_set lhs) y) (set_mem E (so_set other) y)) \<and>
           set_binary_op E op lhs rhs =
             Some (if op_in_place op \<and> \<not> so_frozen lhs then SR_Lhs u
                   else SR_New \<lparr>so_frozen = so_frozen lhs \<and> (op \<in> {AND_OP, INPLACE_AND_OP} \<longrightarrow> sr_same rhs), so_set = u\<rparr>)
     | (None, Some other) \<Rightarrow>
         set_binary_op E op lhs rhs =
           Some (if op = CONTAINS_OP then SR_Bool (set_mem E (so_set lhs) (sr_obj rhs))
                 else case set_op_test op {y. set_mem E (so_set lhs) y} {y. set_mem E (so_set other) y} of Some b \<Rightarrow> SR_Bool b | None \<Rightarrow> SR_Null)
     | (_, None) \<Rightarrow>
         set_binary_op E op lhs rhs =
           Some (if op = CONTAINS_OP then SR_Bool (set_mem E (so_set lhs) (sr_obj rhs)) else SR_Null)) \<and>
    (\<forall>other. sr_set rhs = Some other \<and> so_frozen lhs \<and> so_frozen other \<and> set_binary_op E EQUAL_OP lhs rhs = Some (SR_Bool True) \<longrightarrow>
       set_unary_op E frozenset HASH_OP lhs = set_unary_op E frozenset HASH_OP other)"
proof
  note laws = assms(1)
  have contains: "set_binary_op E CONTAINS_OP lhs rhs = Some (SR_Bool (set_mem E (so_set lhs) (sr_obj rhs)))"
    by (rule set_laws.mp_set_lookup_mem [OF laws assms(2), of "sr_obj rhs"]) (simp add: set_binary_op_def)
  show "case (set_op_members op, sr_set rhs) of
       (Some f, Some other) \<Rightarrow>
         \<exists>u. set_ok E u \<and> (\<forall>y. set_mem E u y \<longleftrightarrow> f (set_mem E (so_set lhs) y) (set_mem E (so_set other) y)) \<and>
           set_binary_op E op lhs rhs =
             Some (if op_in_place op \<and> \<not> so_frozen lhs then SR_Lhs u
                   else SR_New \<lparr>so_frozen = so_frozen lhs \<and> (op \<in> {AND_OP, INPLACE_AND_OP} \<longrightarrow> sr_same rhs), so_set = u\<rparr>)
     | (None, Some other) \<Rightarrow>
         set_binary_op E op lhs rhs =
           Some (if op = CONTAINS_OP then SR_Bool (set_mem E (so_set lhs) (sr_obj rhs))
                 else case set_op_test op {y. set_mem E (so_set lhs) y} {y. set_mem E (so_set other) y} of Some b \<Rightarrow> SR_Bool b | None \<Rightarrow> SR_Null)
     | (_, None) \<Rightarrow>
         set_binary_op E op lhs rhs =
           Some (if op = CONTAINS_OP then SR_Bool (set_mem E (so_set lhs) (sr_obj rhs)) else SR_Null)"
  proof (cases "op = CONTAINS_OP")
    case True
    then show ?thesis
      using contains by (simp split: option.split)
  next
    case False
    show ?thesis
    proof (cases "sr_set rhs")
      case (Some other)
      have "set_ok E (so_set other)" "sr_same rhs \<Longrightarrow> other = lhs"
        using assms(3,4) Some by auto
      from set_laws.set_binary_op_sets_ok [where same = "sr_same rhs", OF laws assms(2) this False] show ?thesis
        using False by (auto simp: Some set_binary_op_def split: option.splits)
    qed (use False in \<open>auto simp: set_binary_op_def split: option.split\<close>)
  qed
  show "\<forall>other. sr_set rhs = Some other \<and> so_frozen lhs \<and> so_frozen other \<and> set_binary_op E EQUAL_OP lhs rhs = Some (SR_Bool True) \<longrightarrow>
       set_unary_op E frozenset HASH_OP lhs = set_unary_op E frozenset HASH_OP other"
  proof (intro allI impI, elim conjE)
    fix other
    assume o: "sr_set rhs = Some other" "so_frozen lhs" "so_frozen other" and eq: "set_binary_op E EQUAL_OP lhs rhs = Some (SR_Bool True)"
    have t: "set_ok E (so_set other)"
      using assms(3) o(1) by simp
    have "\<forall>y. set_mem E (so_set lhs) y \<longleftrightarrow> set_mem E (so_set other) y"
      using eq set_laws.set_equal_ok [OF laws assms(2) t] o(1) by (simp add: set_binary_op_def set_binary_op_sets_def Let_def)
    then show "set_unary_op E frozenset HASH_OP lhs = set_unary_op E frozenset HASH_OP other"
      using set_laws.set_hash_equal [OF laws assms(2) t, of frozenset] o(2,3) by (simp add: set_unary_op_def)
  qed
qed

lemma set_binary_op_correct_witness:
  "\<exists>u. set_binary_op example_ops XOR_OP \<lparr>so_frozen = True, so_set = example_set\<rparr>
      \<lparr>sr_obj = SmallInt 0, sr_set = Some \<lparr>so_frozen = False, so_set = mp_set_init 3\<rparr>, sr_same = False\<rparr> =
        Some (SR_New \<lparr>so_frozen = True, so_set = u\<rparr>) \<and>
     set_mem example_ops u (SmallInt 4)"
proof -
  have "set_mem example_ops example_set (SmallInt 4)"
    by (simp add: set_mem_def mp_obj_equal_iff)
  then show ?thesis
    using set_binary_op_correct [OF py_sets.set_laws_axioms [of example_word], where lhs = "\<lparr>so_frozen = True, so_set = example_set\<rparr>" and op = XOR_OP
        and rhs = "\<lparr>sr_obj = SmallInt 0, sr_set = Some \<lparr>so_frozen = False, so_set = mp_set_init 3\<rparr>, sr_same = False\<rparr>" and frozenset = 0]
      example_set_ok set_ok_init [of example_ops 3] set_mem_init [of example_ops 3]
    by (auto simp: op_in_place_def)
qed

text \<open>
  C21. \<^verbatim>\<open>symmetric_difference\<close> toggles each item that its argument yields: a member of the result is a
  member of the set or is yielded an odd number of times, but not both. For an argument without
  repeated items this is the symmetric difference; an item that an iterable yields twice is not
  in the result of the difference with a set that does not hold it.
\<close>

theorem set_symmetric_difference_toggles:
  assumes "set_laws E" and "set_ok E s"
  shows "\<exists>s'. set_symmetric_difference E s items = Some s' \<and> set_ok E s' \<and>
     (\<forall>y. set_mem E s' y \<longleftrightarrow> (set_mem E s y \<noteq> odd (length (filter (\<lambda>x. op_equal E x y) items))))"
  using set_laws.set_toggle_all_ok [OF assms(1) set_copy_ok(1) [OF assms(2)], of items]
  by (simp add: set_symmetric_difference_def set_symmetric_difference_update_def set_copy_ok(2))

lemma set_symmetric_difference_toggles_witness:
  "\<exists>s'. set_symmetric_difference example_ops example_set [SmallInt 7, SmallInt 7] = Some s' \<and>
     \<not> set_mem example_ops s' (SmallInt 7)"
  using set_symmetric_difference_toggles [OF py_sets.set_laws_axioms example_set_ok, of "[SmallInt 7, SmallInt 7]"]
  by (auto simp: set_mem_def mp_obj_equal_iff)

section \<open>Interned strings\<close>

text \<open>
  C22. Interning: \<^verbatim>\<open>qstr_from_strn\<close> returns the number of an entry with the bytes of the string
  and keeps every number that was given out; a string has one number, so that the comparison of
  numbers compares strings. The search finds an entry exactly when there is one, the binary search
  in the sorted pools included. On failure, which needs a string of 256 bytes or a refused
  allocation, the table is unchanged and does not hold the string.
\<close>

theorem qstr_interning:
  assumes "qstr_ok S" and "qstr_pool_room S"
  shows "(case qstr_from_strn A s S of
      (Inl e, S') \<Rightarrow> pools S' = pools S \<and> qstr_ok S' \<and> (\<forall>q. 0 < q \<longrightarrow> qstr_str S q \<noteq> Some s) \<and>
        (e = RuntimeError \<and> 256 \<le> length s \<or> e = MemoryError \<and> (\<not> can_pool A \<or> \<not> can_exact A))
    | (Inr q, S') \<Rightarrow> q \<noteq> 0 \<and> qstr_ok S' \<and> qstr_pool_room S' \<and> qstr_str S' q = Some s \<and>
        (\<forall>p t. qstr_str S p = Some t \<longrightarrow> qstr_str S' p = Some t) \<and>
        (\<forall>p. 0 < p \<longrightarrow> qstr_str S' p = Some s \<longrightarrow> p = q))"
  using qstr_from_strn_ok [OF assms, where A = A and s = s] qstr_unique
  by (auto split: prod.splits sum.splits)

abbreviation example_qstrs :: qstr_state where
  "example_qstrs \<equiv> \<lparr>pools =
     [\<lparr>total_prev_len = 2, is_sorted = True, pool_alloc = 2,
        entries = [\<lparr>entry_hash = qstr_compute_hash [97], entry_str = [97]\<rparr>, \<lparr>entry_hash = qstr_compute_hash [98], entry_str = [98]\<rparr>]\<rparr>,
      \<lparr>total_prev_len = 0, is_sorted = False, pool_alloc = 10,
        entries = [\<lparr>entry_hash = 0, entry_str = []\<rparr>, \<lparr>entry_hash = qstr_compute_hash [], entry_str = []\<rparr>]\<rparr>],
     qstr_last_chunk = False, qstr_last_alloc = 0, qstr_last_used = 0\<rparr>"

lemma qstr_interning_witness:
  "case qstr_from_strn \<lparr>can_grow = True, can_chunk = True, can_exact = True, can_pool = True\<rparr> [99] example_qstrs of
      (Inl e, S') \<Rightarrow> False
    | (Inr q, S') \<Rightarrow> q \<noteq> 0 \<and> qstr_str S' q = Some [99]"
proof -
  have ok: "qstr_ok example_qstrs" "qstr_pool_room example_qstrs"
    by (auto simp: qstr_ok_def qstrs_def qstr_pool_room_def Let_def less_Suc_eq nth_Cons')
  show ?thesis
    using qstr_interning [OF ok, where A = "\<lparr>can_grow = True, can_chunk = True, can_exact = True, can_pool = True\<rparr>" and s = "[99]"]
    by (auto split: prod.splits sum.splits)
qed

end
