(* ===== verification/Gc.thy ===== *)
theory Gc
  imports Prelude "HOL-Library.Monad_Syntax"
begin

text \<open>
  The garbage collector of \<^verbatim>\<open>py/gc.c\<close> for one heap area with finalisers: the allocation table
  with two bits per block, the finaliser table with one bit per block, and the pool as words of
  32 bits, four to a block. An address is a natural number, a pointer argument is an option with
  \<^term>\<open>None\<close> for \<^verbatim>\<open>NULL\<close>, and the result \<^term>\<open>None\<close> of an operation is a failed assertion or a read
  outside the finaliser table.
\<close>

unbundle bit_operations_syntax

section \<open>The allocation table\<close>

definition BLOCKS_PER_ATB :: nat where "BLOCKS_PER_ATB = 4"
definition BYTES_PER_BLOCK :: nat where "BYTES_PER_BLOCK = 16"
definition WORDS_PER_BLOCK :: nat where "WORDS_PER_BLOCK = 4"
definition BLOCKS_PER_FTB :: nat where "BLOCKS_PER_FTB = 8"

abbreviation AT_FREE :: u8 where "AT_FREE \<equiv> 0"
abbreviation AT_HEAD :: u8 where "AT_HEAD \<equiv> 1"
abbreviation AT_TAIL :: u8 where "AT_TAIL \<equiv> 2"
abbreviation AT_MARK :: u8 where "AT_MARK \<equiv> 3"

definition BLOCK_SHIFT :: "nat \<Rightarrow> nat" where
  "BLOCK_SHIFT block = 2 * (block mod BLOCKS_PER_ATB)"

text \<open>The byte after the table is the gap byte, which is always \<^verbatim>\<open>AT_FREE\<close>.\<close>

definition atb_byte :: "u8 list \<Rightarrow> nat \<Rightarrow> u8" where
  "atb_byte t i = (if i < length t then t ! i else 0)"

definition ATB_GET_KIND :: "u8 list \<Rightarrow> nat \<Rightarrow> u8" where
  "ATB_GET_KIND t block = drop_bit (BLOCK_SHIFT block) (atb_byte t (block div BLOCKS_PER_ATB)) AND 3"

definition ATB_ANY_TO_FREE :: "nat \<Rightarrow> u8 list \<Rightarrow> u8 list" where
  "ATB_ANY_TO_FREE block t =
     t[block div BLOCKS_PER_ATB := t ! (block div BLOCKS_PER_ATB) AND NOT (push_bit (BLOCK_SHIFT block) AT_MARK)]"

definition ATB_FREE_TO_HEAD :: "nat \<Rightarrow> u8 list \<Rightarrow> u8 list" where
  "ATB_FREE_TO_HEAD block t =
     t[block div BLOCKS_PER_ATB := t ! (block div BLOCKS_PER_ATB) OR push_bit (BLOCK_SHIFT block) AT_HEAD]"

definition ATB_FREE_TO_TAIL :: "nat \<Rightarrow> u8 list \<Rightarrow> u8 list" where
  "ATB_FREE_TO_TAIL block t =
     t[block div BLOCKS_PER_ATB := t ! (block div BLOCKS_PER_ATB) OR push_bit (BLOCK_SHIFT block) AT_TAIL]"

definition ATB_HEAD_TO_MARK :: "nat \<Rightarrow> u8 list \<Rightarrow> u8 list" where
  "ATB_HEAD_TO_MARK block t =
     t[block div BLOCKS_PER_ATB := t ! (block div BLOCKS_PER_ATB) OR push_bit (BLOCK_SHIFT block) AT_MARK]"

definition ATB_MARK_TO_HEAD :: "nat \<Rightarrow> u8 list \<Rightarrow> u8 list" where
  "ATB_MARK_TO_HEAD block t =
     t[block div BLOCKS_PER_ATB := t ! (block div BLOCKS_PER_ATB) AND NOT (push_bit (BLOCK_SHIFT block) AT_TAIL)]"

lemma bit_ATB_GET_KIND:
  "bit (ATB_GET_KIND t b) n \<longleftrightarrow> n < 2 \<and> bit (atb_byte t (b div 4)) (2 * (b mod 4) + n)"
proof -
  have "(3 :: u8) = mask 2"
    by (simp add: mask_eq_exp_minus_1)
  moreover have "bit (mask 2 :: u8) n \<longleftrightarrow> n < 2"
    by (subst bit_mask_iff) auto
  ultimately have "bit (3 :: u8) n \<longleftrightarrow> n < 2"
    by simp
  then show ?thesis
    by (auto simp: ATB_GET_KIND_def BLOCK_SHIFT_def BLOCKS_PER_ATB_def bit_and_iff bit_drop_bit_eq)
qed

lemma length_ATB [simp]:
  "length (ATB_ANY_TO_FREE b t) = length t" "length (ATB_FREE_TO_HEAD b t) = length t"
  "length (ATB_FREE_TO_TAIL b t) = length t" "length (ATB_HEAD_TO_MARK b t) = length t"
  "length (ATB_MARK_TO_HEAD b t) = length t"
  by (simp_all add: ATB_ANY_TO_FREE_def ATB_FREE_TO_HEAD_def ATB_FREE_TO_TAIL_def ATB_HEAD_TO_MARK_def ATB_MARK_TO_HEAD_def)

lemma kind_beyond: "4 * length t \<le> b \<Longrightarrow> ATB_GET_KIND t b = AT_FREE"
  by (intro bit_eqI) (auto simp: bit_ATB_GET_KIND atb_byte_def)

lemma same_lane:
  fixes x y :: nat
  assumes "n < 2" and "m < 2"
  shows "2 * x + n = 2 * y + m \<longleftrightarrow> x = y \<and> n = m"
  using assms by presburger

lemma same_block: "c div 4 = b div (4 :: nat) \<and> c mod 4 = b mod 4 \<longleftrightarrow> c = b"
  by (metis div_mult_mod_eq)

text \<open>The bits that a macro sets or clears in the lane of a block.\<close>

lemma push_lane:
  fixes v :: u8
  assumes n: "n < 2" and v: "\<forall>n. bit v n \<longrightarrow> n < 2"
  shows "bit (push_bit (2 * (b mod 4)) v) (2 * (c mod (4 :: nat)) + n) \<longleftrightarrow> c mod 4 = b mod (4 :: nat) \<and> bit v n"
proof -
  have "b mod 4 < 4" "c mod 4 < 4" by simp_all
  then have small: "2 * (c mod 4) + n < 8"
    using n by linarith
  show ?thesis
  proof (cases "2 * (b mod 4) \<le> 2 * (c mod 4) + n \<and> 2 * (c mod 4) + n - 2 * (b mod 4) < 2")
    case True
    define m where "m = 2 * (c mod 4) + n - 2 * (b mod 4)"
    have "2 * (c mod 4) + n = 2 * (b mod 4) + m" "m < 2"
      using True by (simp_all add: m_def)
    then show ?thesis
      using same_lane [OF n, of m "c mod 4" "b mod 4"] small by (auto simp: bit_push_bit_iff)
  next
    case False
    then show ?thesis
      using v n by (auto simp: bit_push_bit_iff)
  qed
qed

lemma kind_set_lane:
  assumes b: "b < 4 * length t" and v: "\<forall>n. bit v n \<longrightarrow> n < 2"
  shows "ATB_GET_KIND (t[b div 4 := t ! (b div 4) OR push_bit (2 * (b mod 4)) v]) c =
    (if c = b then ATB_GET_KIND t b OR v else ATB_GET_KIND t c)" (is "ATB_GET_KIND ?t c = _")
proof (rule bit_eqI)
  fix n
  have len: "b div 4 < length t"
    using b by simp
  have lane: "bit (push_bit (2 * (b mod 4)) v) (2 * (c mod 4) + n) \<longleftrightarrow> c mod 4 = b mod 4 \<and> bit v n" if "n < 2"
    by (rule push_lane [OF that v])
  show "bit (ATB_GET_KIND ?t c) n \<longleftrightarrow> bit (if c = b then ATB_GET_KIND t b OR v else ATB_GET_KIND t c) n"
  proof (cases "c div 4 = b div 4")
    case True
    then show ?thesis
      using len lane same_block [of c b] v by (auto simp: bit_ATB_GET_KIND atb_byte_def bit_or_iff)
  next
    case False
    then have "c \<noteq> b" by blast
    then show ?thesis
      using False by (simp add: bit_ATB_GET_KIND atb_byte_def)
  qed
qed

lemma kind_clear_lane:
  assumes b: "b < 4 * length t" and v: "\<forall>n. bit v n \<longrightarrow> n < 2"
  shows "ATB_GET_KIND (t[b div 4 := t ! (b div 4) AND NOT (push_bit (2 * (b mod 4)) v)]) c =
    (if c = b then ATB_GET_KIND t b AND NOT v else ATB_GET_KIND t c)" (is "ATB_GET_KIND ?t c = _")
proof (rule bit_eqI)
  fix n
  have len: "b div 4 < length t"
    using b by simp
  have lane: "bit (push_bit (2 * (b mod 4)) v) (2 * (c mod 4) + n) \<longleftrightarrow> c mod 4 = b mod 4 \<and> bit v n" if "n < 2"
    by (rule push_lane [OF that v])
  show "bit (ATB_GET_KIND ?t c) n \<longleftrightarrow> bit (if c = b then ATB_GET_KIND t b AND NOT v else ATB_GET_KIND t c) n"
  proof (cases "c div 4 = b div 4")
    case True
    have "2 * (c mod 4) + n < 8" if "n < 2"
    proof -
      have "c mod 4 < 4" by simp
      then show ?thesis using that by linarith
    qed
    then show ?thesis
      using len True lane same_block [of c b] v
      by (auto simp: bit_ATB_GET_KIND atb_byte_def bit_and_iff bit_not_iff_eq)
  next
    case False
    then have "c \<noteq> b" by blast
    then show ?thesis
      using False by (simp add: bit_ATB_GET_KIND atb_byte_def)
  qed
qed

lemma low_bits: "bit (1 :: u8) n \<Longrightarrow> n < 2" "bit (2 :: u8) n \<Longrightarrow> n < 2" "bit (3 :: u8) n \<Longrightarrow> n < 2"
proof -
  have "(3 :: u8) = mask 2"
    by (simp add: mask_eq_exp_minus_1)
  then show "bit (3 :: u8) n \<Longrightarrow> n < 2"
    by (metis bit_mask_iff)
  have "n < 2" if "bit (push_bit 1 1 :: u8) n"
    using that by (simp only: bit_push_bit_iff) (auto simp: bit_1_iff)
  moreover have "(2 :: u8) = push_bit 1 1"
    by simp
  ultimately show "bit (2 :: u8) n \<Longrightarrow> n < 2"
    by argo
qed (simp add: bit_1_iff)

lemma kind_less: "unat (ATB_GET_KIND t b) < 4"
proof -
  have "(3 :: u8) = mask 2"
    by (simp add: mask_eq_exp_minus_1)
  then have "unat (x AND 3) = unat x mod 4" for x :: u8
    using unat_and_mask [of x 2] by simp
  then show ?thesis
    by (simp add: ATB_GET_KIND_def)
qed

lemma kind_cases [case_names free head tail mark]:
  obtains "ATB_GET_KIND t b = AT_FREE" | "ATB_GET_KIND t b = AT_HEAD" | "ATB_GET_KIND t b = AT_TAIL" | "ATB_GET_KIND t b = AT_MARK"
proof -
  have "unat (ATB_GET_KIND t b) \<in> {0, 1, 2, 3}"
    using kind_less [of t b] by auto
  then show thesis
    using that by (auto simp: word_unat_eq_iff)
qed

lemmas lane_defs = ATB_ANY_TO_FREE_def ATB_FREE_TO_HEAD_def ATB_FREE_TO_TAIL_def ATB_HEAD_TO_MARK_def ATB_MARK_TO_HEAD_def
  BLOCK_SHIFT_def BLOCKS_PER_ATB_def

lemma kind_any_to_free:
  assumes "b < 4 * length t"
  shows "ATB_GET_KIND (ATB_ANY_TO_FREE b t) c = (if c = b then AT_FREE else ATB_GET_KIND t c)"
proof -
  have "ATB_GET_KIND t b AND NOT 3 = 0"
    by (rule kind_cases [of t b]) simp_all
  then show ?thesis
    using kind_clear_lane [OF assms, of 3 c] low_bits(3) by (simp add: lane_defs)
qed

lemma kind_free_to_head:
  assumes "b < 4 * length t" and "ATB_GET_KIND t b = AT_FREE"
  shows "ATB_GET_KIND (ATB_FREE_TO_HEAD b t) c = (if c = b then AT_HEAD else ATB_GET_KIND t c)"
  using kind_set_lane [OF assms(1), of 1 c] low_bits(1) assms(2) by (simp add: lane_defs)

lemma kind_free_to_tail:
  assumes "b < 4 * length t" and "ATB_GET_KIND t b = AT_FREE"
  shows "ATB_GET_KIND (ATB_FREE_TO_TAIL b t) c = (if c = b then AT_TAIL else ATB_GET_KIND t c)"
  using kind_set_lane [OF assms(1), of 2 c] low_bits(2) assms(2) by (simp add: lane_defs)

lemma kind_head_to_mark:
  assumes "b < 4 * length t" and "ATB_GET_KIND t b = AT_HEAD"
  shows "ATB_GET_KIND (ATB_HEAD_TO_MARK b t) c = (if c = b then AT_MARK else ATB_GET_KIND t c)"
  using kind_set_lane [OF assms(1), of 3 c] low_bits(3) assms(2) by (simp add: lane_defs)

lemma kind_mark_to_head:
  assumes "b < 4 * length t" and "ATB_GET_KIND t b = AT_MARK"
  shows "ATB_GET_KIND (ATB_MARK_TO_HEAD b t) c = (if c = b then AT_HEAD else ATB_GET_KIND t c)"
  using kind_clear_lane [OF assms(1), of 2 c] low_bits(2) assms(2) by (simp add: lane_defs)

section \<open>State\<close>

record gc_state =
  gc_alloc_table :: "u8 list"
  gc_finaliser_table :: "u8 list"
  gc_pool :: "u32 list"
  gc_pool_start :: nat
  gc_last_free_atb_index :: nat
  gc_last_used_block :: nat
  gc_lock_depth :: nat
  gc_auto_collect_enabled :: bool
  gc_alloc_threshold :: nat
  gc_alloc_amount :: nat
  gc_stack_overflow :: bool

definition GC_COLLECT_FLAG :: nat where "GC_COLLECT_FLAG = 1"

definition gc_blocks :: "gc_state \<Rightarrow> nat" where
  "gc_blocks s = length (gc_alloc_table s) * BLOCKS_PER_ATB"

definition gc_kind :: "gc_state \<Rightarrow> nat \<Rightarrow> u8" where
  "gc_kind s block = ATB_GET_KIND (gc_alloc_table s) block"

definition gc_update_atb :: "(u8 list \<Rightarrow> u8 list) \<Rightarrow> gc_state \<Rightarrow> gc_state" where
  "gc_update_atb f s = s\<lparr>gc_alloc_table := f (gc_alloc_table s)\<rparr>"

definition VERIFY_PTR :: "gc_state \<Rightarrow> nat \<Rightarrow> bool" where
  "VERIFY_PTR s ptr \<longleftrightarrow> ptr mod BYTES_PER_BLOCK = 0 \<and> gc_pool_start s \<le> ptr \<and> ptr < gc_pool_start s + gc_blocks s * BYTES_PER_BLOCK"

definition BLOCK_FROM_PTR :: "gc_state \<Rightarrow> nat \<Rightarrow> nat" where
  "BLOCK_FROM_PTR s ptr = (ptr - gc_pool_start s) div BYTES_PER_BLOCK"

definition PTR_FROM_BLOCK :: "gc_state \<Rightarrow> nat \<Rightarrow> nat" where
  "PTR_FROM_BLOCK s block = block * BYTES_PER_BLOCK + gc_pool_start s"

definition FTB_GET :: "u8 list \<Rightarrow> nat \<Rightarrow> bool" where
  "FTB_GET t block = bit (t ! (block div BLOCKS_PER_FTB)) (block mod 8)"

definition FTB_SET :: "nat \<Rightarrow> u8 list \<Rightarrow> u8 list" where
  "FTB_SET block t = t[block div BLOCKS_PER_FTB := t ! (block div BLOCKS_PER_FTB) OR push_bit (block mod 8) 1]"

definition FTB_CLEAR :: "nat \<Rightarrow> u8 list \<Rightarrow> u8 list" where
  "FTB_CLEAR block t = t[block div BLOCKS_PER_FTB := t ! (block div BLOCKS_PER_FTB) AND NOT (push_bit (block mod 8) 1)]"

text \<open>
  \<^verbatim>\<open>gc_setup_area\<close> with its assertion; \<open>start\<close> and \<open>end\<close> are addresses. The size in bits is computed in a \<^verbatim>\<open>size_t\<close> of
  32 bits and wraps for an area above 512 MB; the products after it are smaller than the area.
\<close>

definition gc_table_byte_len :: "nat \<Rightarrow> nat" where
  "gc_table_byte_len len = (len - 1) * 8 mod 2 ^ 32 div (8 + 8 * BLOCKS_PER_ATB div BLOCKS_PER_FTB + 8 * BLOCKS_PER_ATB * BYTES_PER_BLOCK)"

definition gc_finaliser_byte_len :: "nat \<Rightarrow> nat" where
  "gc_finaliser_byte_len a = (a * BLOCKS_PER_ATB + BLOCKS_PER_FTB - 1) div BLOCKS_PER_FTB"

definition gc_setup_area :: "nat \<Rightarrow> nat \<Rightarrow> gc_state option" where
  "gc_setup_area start end_ptr =
     (let a = gc_table_byte_len (end_ptr - start);
          f = gc_finaliser_byte_len a;
          ftb_start = start + a + 1;
          pool = end_ptr - a * BLOCKS_PER_ATB * BYTES_PER_BLOCK
      in if ftb_start + f \<le> pool
         then Some \<lparr>gc_alloc_table = replicate a 0, gc_finaliser_table = replicate f 0,
           gc_pool = replicate (a * BLOCKS_PER_ATB * WORDS_PER_BLOCK) 0, gc_pool_start = pool,
           gc_last_free_atb_index = 0, gc_last_used_block = 0, gc_lock_depth = 0,
           gc_auto_collect_enabled = True, gc_alloc_threshold = 2 ^ 32 - 1, gc_alloc_amount = 0, gc_stack_overflow = False\<rparr>
         else None)"

definition gc_init :: "nat \<Rightarrow> nat \<Rightarrow> gc_state option" where
  "gc_init start end_ptr = gc_setup_area start (end_ptr div BYTES_PER_BLOCK * BYTES_PER_BLOCK)"

definition gc_lock :: "gc_state \<Rightarrow> gc_state" where
  "gc_lock s = s\<lparr>gc_lock_depth := (gc_lock_depth s + 2) mod 2 ^ 16\<rparr>"

definition gc_unlock :: "gc_state \<Rightarrow> gc_state" where
  "gc_unlock s = s\<lparr>gc_lock_depth := (gc_lock_depth s + 2 ^ 16 - 2) mod 2 ^ 16\<rparr>"

section \<open>Marking\<close>

text \<open>The blocks of a chain: its first block and the tails after it.\<close>

function tail_run :: "u8 list \<Rightarrow> nat \<Rightarrow> nat" where
  "tail_run t block = (if ATB_GET_KIND t block = AT_TAIL then Suc (tail_run t (block + 1)) else 0)"
  by auto
termination
proof (relation "measure (\<lambda>(t, block). 4 * length t - block)")
  fix t block
  assume tail: "ATB_GET_KIND t block = AT_TAIL"
  have "block < 4 * length t"
    using tail kind_beyond [of t block] by (auto simp: not_less [symmetric])
  then show "((t, block + 1), (t, block)) \<in> measure (\<lambda>(t, block). 4 * length t - block)"
    by simp
qed simp

declare tail_run.simps [simp del]

definition gc_chain_len :: "u8 list \<Rightarrow> nat \<Rightarrow> nat" where
  "gc_chain_len t block = 1 + tail_run t (block + 1)"

definition gc_chain_words :: "gc_state \<Rightarrow> nat \<Rightarrow> u32 list" where
  "gc_chain_words s block =
     take (gc_chain_len (gc_alloc_table s) block * WORDS_PER_BLOCK) (drop (block * WORDS_PER_BLOCK) (gc_pool s))"

text \<open>
  The loop over the words of a chain. The stack has its top at the head; a block that finds it
  full is marked all the same, and the overflow is noted. An entry of the stack is a block number of
  \<^verbatim>\<open>MICROPY_GC_STACK_ENTRY_TYPE\<close>; the model does not truncate it, and the port does not either: the type is \<^verbatim>\<open>uint16_t\<close> only on
  the boards without PSRAM, whose heap lies in the 520 KB of RAM at most and so has fewer than \<open>2 ^ 16\<close> blocks of 16 bytes, and \<^verbatim>\<open>size_t\<close> elsewhere.
\<close>

fun gc_mark_words :: "nat \<Rightarrow> u32 list \<Rightarrow> gc_state \<Rightarrow> nat list \<Rightarrow> gc_state \<times> nat list" where
  "gc_mark_words limit [] s stack = (s, stack)"
| "gc_mark_words limit (ptr # ptrs) s stack =
     (let block = BLOCK_FROM_PTR s (unat ptr)
      in if \<not> VERIFY_PTR s (unat ptr) then gc_mark_words limit ptrs s stack
         else if gc_kind s block \<noteq> AT_HEAD then gc_mark_words limit ptrs s stack
         else let s = gc_update_atb (ATB_HEAD_TO_MARK block) s
           in if length stack < limit then gc_mark_words limit ptrs s (block # stack)
              else gc_mark_words limit ptrs (s\<lparr>gc_stack_overflow := True\<rparr>) stack)"

text \<open>The number of unmarked heads bounds the work that is left.\<close>

definition gc_heads :: "gc_state \<Rightarrow> nat" where
  "gc_heads s = card {b. gc_kind s b = AT_HEAD}"

lemma gc_kind_beyond: "gc_blocks s \<le> b \<Longrightarrow> gc_kind s b = AT_FREE"
  by (simp add: gc_kind_def gc_blocks_def BLOCKS_PER_ATB_def kind_beyond)

lemma finite_kind: "k \<noteq> AT_FREE \<Longrightarrow> finite {b. gc_kind s b = k}"
  by (rule finite_subset [of _ "{..<gc_blocks s}"]) (use gc_kind_beyond in \<open>force simp: not_less [symmetric]\<close>)+

lemma gc_update_simps [simp]:
  "gc_alloc_table (gc_update_atb f s) = f (gc_alloc_table s)" "gc_pool (gc_update_atb f s) = gc_pool s"
  "gc_pool_start (gc_update_atb f s) = gc_pool_start s" "gc_finaliser_table (gc_update_atb f s) = gc_finaliser_table s"
  "gc_last_free_atb_index (gc_update_atb f s) = gc_last_free_atb_index s"
  "gc_last_used_block (gc_update_atb f s) = gc_last_used_block s" "gc_lock_depth (gc_update_atb f s) = gc_lock_depth s"
  "gc_auto_collect_enabled (gc_update_atb f s) = gc_auto_collect_enabled s"
  "gc_stack_overflow (gc_update_atb f s) = gc_stack_overflow s"
  "gc_alloc_threshold (gc_update_atb f s) = gc_alloc_threshold s" "gc_alloc_amount (gc_update_atb f s) = gc_alloc_amount s"
  by (simp_all add: gc_update_atb_def)

lemma gc_blocks_update [simp]: "length (f (gc_alloc_table s)) = length (gc_alloc_table s) \<Longrightarrow> gc_blocks (gc_update_atb f s) = gc_blocks s"
  by (simp add: gc_blocks_def)

lemma gc_kind_used: "gc_kind s b \<noteq> AT_FREE \<Longrightarrow> b < gc_blocks s"
  using gc_kind_beyond [of s b] by linarith

lemma gc_kind_mark:
  assumes "gc_kind s b = AT_HEAD"
  shows "gc_kind (gc_update_atb (ATB_HEAD_TO_MARK b) s) c = (if c = b then AT_MARK else gc_kind s c)"
proof -
  have "b < gc_blocks s"
    by (rule gc_kind_used) (simp add: assms)
  then show ?thesis
    using assms by (simp add: gc_kind_def gc_blocks_def BLOCKS_PER_ATB_def kind_head_to_mark)
qed

lemma gc_heads_mark:
  assumes "gc_kind s b = AT_HEAD"
  shows "gc_heads s = Suc (gc_heads (gc_update_atb (ATB_HEAD_TO_MARK b) s))"
proof -
  have "{c. gc_kind (gc_update_atb (ATB_HEAD_TO_MARK b) s) c = AT_HEAD} = {c. gc_kind s c = AT_HEAD} - {b}"
    by (auto simp: gc_kind_mark [OF assms])
  moreover have "card {c. gc_kind s c = AT_HEAD} = Suc (card ({c. gc_kind s c = AT_HEAD} - {b}))"
    using assms by (intro card.remove finite_kind) simp_all
  ultimately show ?thesis
    by (simp add: gc_heads_def)
qed

lemma gc_heads_overflow [simp]: "gc_heads (s\<lparr>gc_stack_overflow := v\<rparr>) = gc_heads s"
  by (simp add: gc_heads_def gc_kind_def)

lemma gc_mark_words_heads:
  assumes "gc_mark_words limit ptrs s stack = (s', stack')"
  shows "gc_heads s' + length stack' \<le> gc_heads s + length stack \<and>
    (gc_stack_overflow s' \<longrightarrow> gc_stack_overflow s \<or> gc_heads s' < gc_heads s) \<and> gc_heads s' \<le> gc_heads s"
  using assms
proof (induction limit ptrs s stack rule: gc_mark_words.induct)
  case (2 limit ptr ptrs s stack)
  show ?case
  proof (cases "VERIFY_PTR s (unat ptr) \<and> gc_kind s (BLOCK_FROM_PTR s (unat ptr)) = AT_HEAD")
    case True
    let ?s = "gc_update_atb (ATB_HEAD_TO_MARK (BLOCK_FROM_PTR s (unat ptr))) s"
    have h: "gc_heads s = Suc (gc_heads ?s)"
      using True by (intro gc_heads_mark) simp
    show ?thesis
    proof (cases "length stack < limit")
      case room: True
      then show ?thesis
        using "2.IH"(3) [OF refl _ _ refl] "2.prems" True h by (auto simp: Let_def)
    next
      case False
      then show ?thesis
        using "2.IH"(4) [OF refl _ _ refl] "2.prems" True h by (auto simp: Let_def)
    qed
  next
    case False
    then show ?thesis
      using "2.IH"(1,2) [OF refl] "2.prems" by (auto simp: Let_def split: if_splits)
  qed
qed simp

text \<open>
  The loop that pops the next block from the stack. The entries are the block numbers that the loop
  above pushed, so none is truncated here either.
\<close>

function gc_mark_subtree_loop :: "nat \<Rightarrow> nat \<Rightarrow> gc_state \<Rightarrow> nat list \<Rightarrow> gc_state" where
  "gc_mark_subtree_loop limit block s stack =
     (case gc_mark_words limit (gc_chain_words s block) s stack of
        (s, []) \<Rightarrow> s
      | (s, block # stack) \<Rightarrow> gc_mark_subtree_loop limit block s stack)"
  by auto
termination
  by (relation "measure (\<lambda>(limit, block, s, stack). gc_heads s + length stack)")
    (auto dest!: gc_mark_words_heads [OF sym])

declare gc_mark_subtree_loop.simps [simp del]

definition gc_mark_subtree :: "nat \<Rightarrow> nat \<Rightarrow> gc_state \<Rightarrow> gc_state" where
  "gc_mark_subtree limit block s = gc_mark_subtree_loop limit block s []"

lemma gc_mark_subtree_loop_heads:
  "gc_heads (gc_mark_subtree_loop limit block s stack) \<le> gc_heads s \<and>
   (gc_stack_overflow (gc_mark_subtree_loop limit block s stack) \<longrightarrow>
      gc_stack_overflow s \<or> gc_heads (gc_mark_subtree_loop limit block s stack) < gc_heads s)"
proof (induction limit block s stack rule: gc_mark_subtree_loop.induct)
  case (1 limit block s stack)
  obtain s' stack' where w: "gc_mark_words limit (gc_chain_words s block) s stack = (s', stack')"
    by fastforce
  note heads = gc_mark_words_heads [OF w]
  show ?case
  proof (cases stack')
    case Nil
    then show ?thesis
      using heads by (subst (1 2 3) gc_mark_subtree_loop.simps) (simp add: w)
  next
    case (Cons b st)
    then show ?thesis
      using heads "1.IH" [OF w [symmetric] Cons] by (subst (1 2 3) gc_mark_subtree_loop.simps) (auto simp: w)
  qed
qed

fun gc_rescan :: "nat \<Rightarrow> nat list \<Rightarrow> gc_state \<Rightarrow> gc_state" where
  "gc_rescan limit [] s = s"
| "gc_rescan limit (block # blocks) s =
     gc_rescan limit blocks (if gc_kind s block = AT_MARK then gc_mark_subtree limit block s else s)"

lemma gc_rescan_heads:
  "gc_heads (gc_rescan limit blocks s) \<le> gc_heads s \<and>
   (gc_stack_overflow (gc_rescan limit blocks s) \<longrightarrow> gc_stack_overflow s \<or> gc_heads (gc_rescan limit blocks s) < gc_heads s)"
proof (induction limit blocks s rule: gc_rescan.induct)
  case (2 limit block blocks s)
  let ?s = "if gc_kind s block = AT_MARK then gc_mark_subtree limit block s else s"
  have "gc_heads ?s \<le> gc_heads s \<and> (gc_stack_overflow ?s \<longrightarrow> gc_stack_overflow s \<or> gc_heads ?s < gc_heads s)"
    using gc_mark_subtree_loop_heads [of limit block s "[]"] by (auto simp: gc_mark_subtree_def)
  with "2.IH" show ?case
    unfolding gc_rescan.simps by linarith
qed simp

function gc_deal_with_stack_overflow :: "nat \<Rightarrow> gc_state \<Rightarrow> gc_state" where
  "gc_deal_with_stack_overflow limit s =
     (if gc_stack_overflow s
      then gc_deal_with_stack_overflow limit (gc_rescan limit [0..<gc_blocks s] (s\<lparr>gc_stack_overflow := False\<rparr>))
      else s)"
  by auto
termination
proof (relation "measure (\<lambda>(limit, s). 2 * gc_heads s + of_bool (gc_stack_overflow s))")
  fix limit :: nat and s :: gc_state
  assume o: "gc_stack_overflow s"
  let ?s = "gc_rescan limit [0..<gc_blocks s] (s\<lparr>gc_stack_overflow := False\<rparr>)"
  have "gc_heads ?s \<le> gc_heads s \<and> (gc_stack_overflow ?s \<longrightarrow> gc_heads ?s < gc_heads s)"
    using gc_rescan_heads [of limit "[0..<gc_blocks s]" "s\<lparr>gc_stack_overflow := False\<rparr>"] by simp
  then show "((limit, ?s), limit, s) \<in> measure (\<lambda>(limit, s). 2 * gc_heads s + of_bool (gc_stack_overflow s))"
    using o by auto
qed simp

declare gc_deal_with_stack_overflow.simps [simp del]

fun gc_collect_root :: "nat \<Rightarrow> u32 list \<Rightarrow> gc_state \<Rightarrow> gc_state" where
  "gc_collect_root limit [] s = s"
| "gc_collect_root limit (ptr # ptrs) s =
     (let block = BLOCK_FROM_PTR s (unat ptr)
      in gc_collect_root limit ptrs
        (if VERIFY_PTR s (unat ptr) \<and> gc_kind s block = AT_HEAD
         then gc_mark_subtree limit block (gc_update_atb (ATB_HEAD_TO_MARK block) s) else s))"

section \<open>Sweeping\<close>

text \<open>
  The finalisers of the unmarked heads. \<open>del\<close> is what the call of a \<^verbatim>\<open>__del__\<close> method does to the
  heap; the byte of flags that the loop shifts is read once.
\<close>

function gc_finalise_byte :: "(nat \<Rightarrow> gc_state \<Rightarrow> gc_state) \<Rightarrow> u8 \<Rightarrow> nat \<Rightarrow> gc_state \<Rightarrow> gc_state" where
  "gc_finalise_byte del flags block s =
     (if flags = 0 then s
      else gc_finalise_byte del (drop_bit 1 flags) (block + 1)
        (if bit flags 0 \<and> gc_kind s block = AT_HEAD
         then let s = del block s in s\<lparr>gc_finaliser_table := FTB_CLEAR block (gc_finaliser_table s)\<rparr> else s))"
  by auto
termination
proof (relation "measure (\<lambda>(del, flags, block, s). unat flags)")
  fix del :: "nat \<Rightarrow> gc_state \<Rightarrow> gc_state" and flags :: u8 and block s
  assume "flags \<noteq> 0"
  then have "0 < unat flags"
    by (simp add: unat_gt_0)
  then show "((del, drop_bit 1 flags, block + 1, s), del, flags, block, s') \<in> measure (\<lambda>(del, flags, block, s). unat flags)" for s s'
    by (simp add: unat_drop_bit_nat)
qed simp

declare gc_finalise_byte.simps [simp del]

fun gc_finalise_bytes :: "(nat \<Rightarrow> gc_state \<Rightarrow> gc_state) \<Rightarrow> nat list \<Rightarrow> gc_state \<Rightarrow> gc_state option" where
  "gc_finalise_bytes del [] s = Some s"
| "gc_finalise_bytes del (ftb_idx # idxs) s =
     (if length (gc_finaliser_table s) \<le> ftb_idx then None
      else gc_finalise_bytes del idxs
        (gc_finalise_byte del (gc_finaliser_table s ! ftb_idx) (ftb_idx * BLOCKS_PER_FTB) s))"

definition gc_sweep_run_finalisers :: "(nat \<Rightarrow> gc_state \<Rightarrow> gc_state) \<Rightarrow> gc_state \<Rightarrow> gc_state option" where
  "gc_sweep_run_finalisers del s =
     (if gc_blocks s < gc_last_used_block s then None
      else gc_finalise_bytes del [0..<gc_last_used_block s div BLOCKS_PER_FTB + 1] s)"

fun gc_sweep_loop :: "nat list \<Rightarrow> u8 list \<Rightarrow> bool \<Rightarrow> nat \<Rightarrow> u8 list \<times> nat" where
  "gc_sweep_loop [] t free_tail last_used = (t, last_used)"
| "gc_sweep_loop (block # blocks) t free_tail last_used =
     (let kind = ATB_GET_KIND t block
      in if kind = AT_HEAD then gc_sweep_loop blocks (ATB_ANY_TO_FREE block t) True last_used
         else if kind = AT_TAIL
         then if free_tail then gc_sweep_loop blocks (ATB_ANY_TO_FREE block t) free_tail last_used
              else gc_sweep_loop blocks t free_tail block
         else if kind = AT_MARK then gc_sweep_loop blocks (ATB_MARK_TO_HEAD block t) False block
         else gc_sweep_loop blocks t free_tail last_used)"

definition gc_sweep_free_blocks :: "gc_state \<Rightarrow> gc_state option" where
  "gc_sweep_free_blocks s =
     (if gc_blocks s < gc_last_used_block s then None
      else let (t, last_used) = gc_sweep_loop [0..<gc_last_used_block s + 1] (gc_alloc_table s) False 0
        in Some (s\<lparr>gc_alloc_table := t, gc_last_used_block := last_used\<rparr>))"

definition gc_collect_start_common :: "gc_state \<Rightarrow> gc_state option" where
  "gc_collect_start_common s =
     (if odd (gc_lock_depth s) then None
      else Some (s\<lparr>gc_lock_depth := gc_lock_depth s OR GC_COLLECT_FLAG, gc_stack_overflow := False\<rparr>))"

definition gc_collect_start :: "nat \<Rightarrow> u32 list \<Rightarrow> gc_state \<Rightarrow> gc_state option" where
  "gc_collect_start limit roots s =
     do { s \<leftarrow> gc_collect_start_common s; Some (gc_collect_root limit roots (s\<lparr>gc_alloc_amount := 0\<rparr>)) }"

definition gc_collect_end :: "nat \<Rightarrow> (nat \<Rightarrow> gc_state \<Rightarrow> gc_state) \<Rightarrow> gc_state \<Rightarrow> gc_state option" where
  "gc_collect_end limit del s =
     do { s \<leftarrow> gc_sweep_run_finalisers del (gc_deal_with_stack_overflow limit s);
          s \<leftarrow> gc_sweep_free_blocks s;
          Some (s\<lparr>gc_last_free_atb_index := 0, gc_lock_depth := 2 * (gc_lock_depth s div 2)\<rparr>) }"

text \<open>\<^verbatim>\<open>gc_collect\<close> of the port: the state's own roots and then the words of registers and stacks.\<close>

definition gc_collect :: "nat \<Rightarrow> (nat \<Rightarrow> gc_state \<Rightarrow> gc_state) \<Rightarrow> u32 list \<Rightarrow> u32 list \<Rightarrow> gc_state \<Rightarrow> gc_state option" where
  "gc_collect limit del roots stack_words s =
     do { s \<leftarrow> gc_collect_start limit roots s; gc_collect_end limit del (gc_collect_root limit stack_words s) }"

definition gc_sweep_all :: "nat \<Rightarrow> (nat \<Rightarrow> gc_state \<Rightarrow> gc_state) \<Rightarrow> gc_state \<Rightarrow> gc_state option" where
  "gc_sweep_all limit del s = do { s \<leftarrow> gc_collect_start_common s; gc_collect_end limit del s }"

section \<open>Allocation\<close>

text \<open>
  The search for a run of free blocks: the four lanes of a byte one after the other, with the
  number of free blocks just passed. The result is the last block of the run and its length.
\<close>

fun gc_scan_lanes :: "u8 \<Rightarrow> u8 list \<Rightarrow> nat \<Rightarrow> nat \<Rightarrow> nat \<Rightarrow> nat \<times> nat + nat" where
  "gc_scan_lanes a [] lane n_free n_blocks = Inr n_free"
| "gc_scan_lanes a (m # ms) lane n_free n_blocks =
     (if a AND m = 0
      then if n_blocks \<le> n_free + 1 then Inl (lane, n_free + 1) else gc_scan_lanes a ms (lane + 1) (n_free + 1) n_blocks
      else gc_scan_lanes a ms (lane + 1) 0 n_blocks)"

definition ATB_MASKS :: "u8 list" where
  "ATB_MASKS = [0x03, 0x0c, 0x30, 0xc0]"

fun gc_find_free :: "u8 list \<Rightarrow> nat \<Rightarrow> nat \<Rightarrow> nat \<Rightarrow> (nat \<times> nat) option" where
  "gc_find_free [] i n_free n_blocks = None"
| "gc_find_free (a # as) i n_free n_blocks =
     (case gc_scan_lanes a ATB_MASKS 0 n_free n_blocks of
        Inl (lane, n_free) \<Rightarrow> Some (i * BLOCKS_PER_ATB + lane, n_free)
      | Inr n_free \<Rightarrow> gc_find_free as (i + 1) n_free n_blocks)"

definition gc_find_run :: "gc_state \<Rightarrow> nat \<Rightarrow> (nat \<times> nat) option" where
  "gc_find_run s n_blocks =
     gc_find_free (drop (gc_last_free_atb_index s) (gc_alloc_table s)) (gc_last_free_atb_index s) 0 n_blocks"

text \<open>A 32-bit \<^verbatim>\<open>size_t\<close> rounded up to blocks, with the wrap-around of the addition.\<close>

definition gc_n_blocks :: "nat \<Rightarrow> nat" where
  "gc_n_blocks n_bytes = (n_bytes + BYTES_PER_BLOCK - 1) mod 2 ^ 32 div BYTES_PER_BLOCK"

definition gc_clear_words :: "nat \<Rightarrow> nat \<Rightarrow> gc_state \<Rightarrow> gc_state" where
  "gc_clear_words block n s =
     s\<lparr>gc_pool := take (block * WORDS_PER_BLOCK) (gc_pool s) @ replicate (n * WORDS_PER_BLOCK) 0 @
       drop ((block + n) * WORDS_PER_BLOCK) (gc_pool s)\<rparr>"

text \<open>The blocks that the search found are taken: a head, tails, zeroed words, and the flag.\<close>

definition gc_take_run :: "nat \<Rightarrow> nat \<Rightarrow> bool \<Rightarrow> gc_state \<Rightarrow> nat \<times> gc_state" where
  "gc_take_run end_block n_free has_finaliser s =
     (let start_block = end_block + 1 - n_free;
          s = (if n_free = 1 then s\<lparr>gc_last_free_atb_index := (end_block + 1) div BLOCKS_PER_ATB\<rparr> else s);
          s = s\<lparr>gc_last_used_block := max (gc_last_used_block s) end_block\<rparr>;
          s = gc_update_atb (ATB_FREE_TO_HEAD start_block) s;
          s = gc_update_atb (fold ATB_FREE_TO_TAIL [start_block + 1..<end_block + 1]) s;
          s = s\<lparr>gc_alloc_amount := (gc_alloc_amount s + n_free) mod 2 ^ 32\<rparr>;
          s = gc_clear_words start_block n_free s
      in (PTR_FROM_BLOCK s start_block,
          if has_finaliser then s\<lparr>gc_finaliser_table := FTB_SET start_block (gc_finaliser_table s)\<rparr> else s))"

text \<open>
  \<^verbatim>\<open>collect\<close> is the port's \<^verbatim>\<open>gc_collect\<close>. The search runs at most twice: before a collection and after it.
\<close>

definition gc_alloc ::
    "(gc_state \<Rightarrow> gc_state option) \<Rightarrow> nat \<Rightarrow> bool \<Rightarrow> gc_state \<Rightarrow> (nat option \<times> gc_state) option" where
  "gc_alloc collect n_bytes has_finaliser s =
     (let n_blocks = gc_n_blocks n_bytes
      in if n_blocks = 0 then Some (None, s)
         else if 0 < gc_lock_depth s then Some (None, s)
         else do {
           (collected, s) \<leftarrow>
             (if gc_auto_collect_enabled s \<and> gc_alloc_threshold s \<le> gc_alloc_amount s
              then do { s \<leftarrow> collect s; Some (True, s) } else Some (\<not> gc_auto_collect_enabled s, s));
           case gc_find_run s n_blocks of
             Some (i, n_free) \<Rightarrow> (let (p, s) = gc_take_run i n_free has_finaliser s in Some (Some p, s))
           | None \<Rightarrow>
               if collected then Some (None, s)
               else do {
                 s \<leftarrow> collect s;
                 case gc_find_run s n_blocks of
                   Some (i, n_free) \<Rightarrow> (let (p, s) = gc_take_run i n_free has_finaliser s in Some (Some p, s))
                 | None \<Rightarrow> Some (None, s) } })"

text \<open>The blocks from \<open>block\<close> while a tail follows.\<close>

function gc_free_chain :: "nat \<Rightarrow> u8 list \<Rightarrow> u8 list" where
  "gc_free_chain block t =
     (let t = ATB_ANY_TO_FREE block t
      in if ATB_GET_KIND t (block + 1) = AT_TAIL then gc_free_chain (block + 1) t else t)"
  by auto
termination
proof (relation "measure (\<lambda>(block, t). 4 * length t - block)")
  fix block :: nat and t t'
  assume t': "t' = ATB_ANY_TO_FREE block t" and tail: "ATB_GET_KIND t' (block + 1) = AT_TAIL"
  have "block + 1 < 4 * length t'"
    using tail kind_beyond [of t' "block + 1"] by (auto simp: not_less [symmetric])
  then show "((block + 1, t'), block, t) \<in> measure (\<lambda>(block, t). 4 * length t - block)"
    by (simp add: t')
qed simp

declare gc_free_chain.simps [simp del]

definition gc_free :: "nat option \<Rightarrow> gc_state \<Rightarrow> gc_state option" where
  "gc_free ptr s =
     (if gc_lock_depth s div 2 \<noteq> 0 then Some s
      else case ptr of
        None \<Rightarrow> Some s
      | Some p \<Rightarrow>
          if \<not> VERIFY_PTR s p then None
          else let block = BLOCK_FROM_PTR s p
            in if gc_kind s block = AT_HEAD \<or> gc_kind s block = AT_MARK \<and> odd (gc_lock_depth s)
               then let s = s\<lparr>gc_finaliser_table := FTB_CLEAR block (gc_finaliser_table s)\<rparr>;
                        s = s\<lparr>gc_last_free_atb_index := min (gc_last_free_atb_index s) (block div BLOCKS_PER_ATB)\<rparr>
                    in Some (gc_update_atb (gc_free_chain block) s)
               else None)"

definition gc_nbytes :: "nat \<Rightarrow> gc_state \<Rightarrow> nat" where
  "gc_nbytes ptr s =
     (if VERIFY_PTR s ptr \<and> gc_kind s (BLOCK_FROM_PTR s ptr) = AT_HEAD
      then gc_chain_len (gc_alloc_table s) (BLOCK_FROM_PTR s ptr) * BYTES_PER_BLOCK else 0)"

text \<open>The loop of \<^verbatim>\<open>gc_realloc\<close> that counts the tails of the chain and the free blocks after it.\<close>

fun gc_realloc_scan :: "u8 list \<Rightarrow> nat list \<Rightarrow> nat \<Rightarrow> nat \<Rightarrow> nat \<Rightarrow> nat \<times> nat" where
  "gc_realloc_scan t [] new_blocks n_blocks n_free = (n_blocks, n_free)"
| "gc_realloc_scan t (bl # bls) new_blocks n_blocks n_free =
     (if ATB_GET_KIND t bl = AT_TAIL then gc_realloc_scan t bls new_blocks (n_blocks + 1) n_free
      else if ATB_GET_KIND t bl = AT_FREE
      then if new_blocks \<le> n_blocks + (n_free + 1) then (n_blocks, n_free + 1)
           else gc_realloc_scan t bls new_blocks n_blocks (n_free + 1)
      else (n_blocks, n_free))"

definition gc_copy_words :: "nat \<Rightarrow> nat \<Rightarrow> nat \<Rightarrow> gc_state \<Rightarrow> gc_state" where
  "gc_copy_words dest src n s =
     s\<lparr>gc_pool := take (dest * WORDS_PER_BLOCK) (gc_pool s) @
       take (n * WORDS_PER_BLOCK) (drop (src * WORDS_PER_BLOCK) (gc_pool s)) @
       drop ((dest + n) * WORDS_PER_BLOCK) (gc_pool s)\<rparr>"

definition gc_realloc ::
    "(gc_state \<Rightarrow> gc_state option) \<Rightarrow> nat option \<Rightarrow> nat \<Rightarrow> bool \<Rightarrow> gc_state \<Rightarrow> (nat option \<times> gc_state) option" where
  "gc_realloc collect ptr_in n_bytes allow_move s =
     (case ptr_in of
        None \<Rightarrow> gc_alloc collect n_bytes False s
      | Some ptr \<Rightarrow>
          if n_bytes = 0 then do { s \<leftarrow> gc_free ptr_in s; Some (None, s) }
          else if 0 < gc_lock_depth s then Some (None, s)
          else if \<not> VERIFY_PTR s ptr \<or> gc_kind s (BLOCK_FROM_PTR s ptr) \<noteq> AT_HEAD then None
          else let block = BLOCK_FROM_PTR s ptr;
                   new_blocks = gc_n_blocks n_bytes;
                   (n_blocks, n_free) = gc_realloc_scan (gc_alloc_table s) [block + 1..<gc_blocks s] new_blocks 1 0
            in if new_blocks = n_blocks then Some (ptr_in, s)
               else if new_blocks < n_blocks
               then let s = gc_update_atb (fold ATB_ANY_TO_FREE [block + new_blocks..<block + n_blocks]) s
                 in Some (ptr_in, s\<lparr>gc_last_free_atb_index := min (gc_last_free_atb_index s) ((block + new_blocks) div BLOCKS_PER_ATB)\<rparr>)
               else if new_blocks \<le> n_blocks + n_free
               then let s = gc_update_atb (fold ATB_FREE_TO_TAIL [block + n_blocks..<block + new_blocks]) s;
                        s = s\<lparr>gc_last_used_block := max (gc_last_used_block s) (block + new_blocks)\<rparr>
                 in Some (ptr_in, gc_clear_words (block + n_blocks) (new_blocks - n_blocks) s)
               else if \<not> allow_move then Some (None, s)
               else do {
                 (ptr_out, s) \<leftarrow> gc_alloc collect n_bytes (FTB_GET (gc_finaliser_table s) block) s;
                 case ptr_out of
                   None \<Rightarrow> Some (None, s)
                 | Some q \<Rightarrow> do {
                     s \<leftarrow> gc_free ptr_in (gc_copy_words (BLOCK_FROM_PTR s q) block n_blocks s);
                     Some (ptr_out, s) } })"

text \<open>
  \<^verbatim>\<open>gc_info\<close>: one pass over the blocks with the length of the chain and of the free run it is in.
\<close>

record gc_info =
  info_total :: nat
  info_used :: nat
  info_free :: nat
  info_max_free :: nat
  info_num_1block :: nat
  info_num_2block :: nat
  info_max_block :: nat

fun gc_info_loop :: "u8 list \<Rightarrow> nat list \<Rightarrow> nat \<Rightarrow> nat \<Rightarrow> gc_info \<Rightarrow> gc_info" where
  "gc_info_loop t [] len len_free info = info"
| "gc_info_loop t (block # blocks) len len_free info =
     (let kind = ATB_GET_KIND t block;
          (info, len, len_free) =
            (if kind = AT_FREE then (info\<lparr>info_free := info_free info + 1\<rparr>, 0, len_free + 1)
             else if kind = AT_HEAD then (info\<lparr>info_used := info_used info + 1\<rparr>, 1, len_free)
             else if kind = AT_TAIL then (info\<lparr>info_used := info_used info + 1\<rparr>, len + 1, len_free)
             else (info, len, len_free));
          finish = (blocks = []);
          kind = (if finish then kind else ATB_GET_KIND t (hd blocks));
          (info, len_free) =
            (if finish \<or> kind = AT_FREE \<or> kind = AT_HEAD
             then let info = (if len = 1 then info\<lparr>info_num_1block := info_num_1block info + 1\<rparr>
                        else if len = 2 then info\<lparr>info_num_2block := info_num_2block info + 1\<rparr> else info);
                      info = info\<lparr>info_max_block := max (info_max_block info) len\<rparr>
                  in if finish \<or> kind = AT_HEAD then (info\<lparr>info_max_free := max (info_max_free info) len_free\<rparr>, 0)
                     else (info, len_free)
             else (info, len_free))
      in gc_info_loop t blocks len len_free info)"

definition gc_get_info :: "gc_state \<Rightarrow> gc_info" where
  "gc_get_info s =
     (let info = gc_info_loop (gc_alloc_table s) [0..<gc_blocks s] 0 0
        \<lparr>info_total = gc_blocks s * BYTES_PER_BLOCK, info_used = 0, info_free = 0, info_max_free = 0,
          info_num_1block = 0, info_num_2block = 0, info_max_block = 0\<rparr>
      in info\<lparr>info_used := info_used info * BYTES_PER_BLOCK, info_free := info_free info * BYTES_PER_BLOCK\<rparr>)"

end
