(* ===== verification/Gc_Mark.thy ===== *)
theory Gc_Mark
  imports Gc
begin

text \<open>
  The marking of theory Gc finds exactly the chains that the roots reach, with a stack of any
  size: a block that does not fit on the stack is found again by the scan for marked blocks.
\<close>

section \<open>What marking changes\<close>

definition gc_marks :: "gc_state \<Rightarrow> gc_state \<Rightarrow> bool" where
  "gc_marks s s' \<longleftrightarrow>
     length (gc_alloc_table s') = length (gc_alloc_table s) \<and>
     (\<forall>b. gc_kind s' b = gc_kind s b \<or> gc_kind s b = AT_HEAD \<and> gc_kind s' b = AT_MARK) \<and>
     s' = s\<lparr>gc_alloc_table := gc_alloc_table s', gc_stack_overflow := gc_stack_overflow s'\<rparr>"

lemma gc_marks_refl [simp]: "gc_marks s s"
  by (simp add: gc_marks_def)

lemma gc_marks_trans:
  assumes "gc_marks r s" and "gc_marks s t"
  shows "gc_marks r t"
proof -
  have "gc_kind t b = gc_kind r b \<or> gc_kind r b = AT_HEAD \<and> gc_kind t b = AT_MARK" for b
    using assms unfolding gc_marks_def by (metis (no_types, lifting))
  moreover have "t = r\<lparr>gc_alloc_table := gc_alloc_table t, gc_stack_overflow := gc_stack_overflow t\<rparr>"
    using assms unfolding gc_marks_def by (cases r; cases s; cases t) simp
  ultimately show ?thesis
    using assms by (simp add: gc_marks_def)
qed

lemma gc_marks_simps:
  assumes "gc_marks s s'"
  shows "gc_pool s' = gc_pool s" and "gc_pool_start s' = gc_pool_start s" and "gc_blocks s' = gc_blocks s"
    and "gc_kind s' b = AT_TAIL \<longleftrightarrow> gc_kind s b = AT_TAIL" and "gc_kind s' b = AT_FREE \<longleftrightarrow> gc_kind s b = AT_FREE"
    and "gc_kind s b = AT_MARK \<Longrightarrow> gc_kind s' b = AT_MARK"
    and "gc_kind s' b = AT_HEAD \<or> gc_kind s' b = AT_MARK \<longleftrightarrow> gc_kind s b = AT_HEAD \<or> gc_kind s b = AT_MARK"
proof -
  have k: "gc_kind s' b = gc_kind s b \<or> gc_kind s b = AT_HEAD \<and> gc_kind s' b = AT_MARK"
    using assms by (simp add: gc_marks_def)
  have eq: "s' = s\<lparr>gc_alloc_table := gc_alloc_table s', gc_stack_overflow := gc_stack_overflow s'\<rparr>"
    using assms by (simp add: gc_marks_def)
  show "gc_pool s' = gc_pool s" "gc_pool_start s' = gc_pool_start s"
    by (subst eq, simp)+
  show "gc_blocks s' = gc_blocks s"
    using assms by (simp add: gc_marks_def gc_blocks_def)
  show "gc_kind s' b = AT_TAIL \<longleftrightarrow> gc_kind s b = AT_TAIL" "gc_kind s' b = AT_FREE \<longleftrightarrow> gc_kind s b = AT_FREE"
    "gc_kind s b = AT_MARK \<Longrightarrow> gc_kind s' b = AT_MARK"
    "gc_kind s' b = AT_HEAD \<or> gc_kind s' b = AT_MARK \<longleftrightarrow> gc_kind s b = AT_HEAD \<or> gc_kind s b = AT_MARK"
    using k by auto
qed

lemma tail_run_cong:
  assumes "\<And>b. ATB_GET_KIND t' b = AT_TAIL \<longleftrightarrow> ATB_GET_KIND t b = AT_TAIL"
  shows "tail_run t' b = tail_run t b"
  using assms
proof (induction t b rule: tail_run.induct)
  case (1 t b)
  show ?case
    by (subst (1 2) tail_run.simps) (use 1 in simp)
qed

lemma gc_chain_words_marks: "gc_marks s s' \<Longrightarrow> gc_chain_words s' b = gc_chain_words s b"
  using tail_run_cong [of "gc_alloc_table s'" "gc_alloc_table s"] gc_marks_simps [of s s']
  by (simp add: gc_chain_words_def gc_chain_len_def gc_kind_def)

section \<open>Pointers between chains\<close>

definition gc_target :: "gc_state \<Rightarrow> u32 \<Rightarrow> nat option" where
  "gc_target s w =
     (let b = BLOCK_FROM_PTR s (unat w)
      in if VERIFY_PTR s (unat w) \<and> (gc_kind s b = AT_HEAD \<or> gc_kind s b = AT_MARK) then Some b else None)"

definition gc_points :: "gc_state \<Rightarrow> (nat \<times> nat) set" where
  "gc_points s = {(b, c). \<exists>w \<in> set (gc_chain_words s b). gc_target s w = Some c}"

definition gc_reach :: "gc_state \<Rightarrow> u32 list \<Rightarrow> nat set" where
  "gc_reach s roots = {c. \<exists>w \<in> set roots. \<exists>b. gc_target s w = Some b \<and> (b, c) \<in> (gc_points s)\<^sup>*}"

lemma gc_target_marks: "gc_marks s s' \<Longrightarrow> gc_target s' w = gc_target s w"
  using gc_marks_simps [of s s'] by (simp add: gc_target_def VERIFY_PTR_def BLOCK_FROM_PTR_def)

lemma gc_points_marks: "gc_marks s s' \<Longrightarrow> gc_points s' = gc_points s"
  by (simp add: gc_points_def gc_chain_words_marks gc_target_marks)

definition gc_scanned :: "gc_state \<Rightarrow> nat \<Rightarrow> bool" where
  "gc_scanned s b \<longleftrightarrow> (\<forall>c. (b, c) \<in> gc_points s \<longrightarrow> gc_kind s c = AT_MARK)"

lemma gc_scanned_marks: "gc_scanned s b \<Longrightarrow> gc_marks s s' \<Longrightarrow> gc_scanned s' b"
  using gc_marks_simps(6) [of s s'] by (auto simp: gc_scanned_def gc_points_marks)

definition gc_new :: "gc_state \<Rightarrow> gc_state \<Rightarrow> nat \<Rightarrow> bool" where
  "gc_new s s' c \<longleftrightarrow> gc_kind s c = AT_HEAD \<and> gc_kind s' c = AT_MARK"

lemma gc_new_split: "gc_marks r s \<Longrightarrow> gc_marks s t \<Longrightarrow> gc_new r t c \<longleftrightarrow> gc_new r s c \<or> gc_new s t c"
  unfolding gc_new_def gc_marks_def by (metis (no_types, lifting))

lemma gc_marks_one:
  assumes "gc_kind s b = AT_HEAD"
  shows "gc_marks s (gc_update_atb (ATB_HEAD_TO_MARK b) s)"
    and "gc_marks s ((gc_update_atb (ATB_HEAD_TO_MARK b) s)\<lparr>gc_stack_overflow := v\<rparr>)"
    and "gc_new s (gc_update_atb (ATB_HEAD_TO_MARK b) s) c \<longleftrightarrow> c = b"
    and "gc_new s ((gc_update_atb (ATB_HEAD_TO_MARK b) s)\<lparr>gc_stack_overflow := v\<rparr>) c \<longleftrightarrow> c = b"
proof -
  have k: "gc_kind (s\<lparr>gc_stack_overflow := v\<rparr>) c = gc_kind s c" for s v c
    by (simp add: gc_kind_def)
  note kind = gc_kind_mark [OF assms]
  show "gc_new s (gc_update_atb (ATB_HEAD_TO_MARK b) s) c \<longleftrightarrow> c = b"
    "gc_new s ((gc_update_atb (ATB_HEAD_TO_MARK b) s)\<lparr>gc_stack_overflow := v\<rparr>) c \<longleftrightarrow> c = b"
    using assms by (auto simp: gc_new_def kind k)
  show "gc_marks s (gc_update_atb (ATB_HEAD_TO_MARK b) s)"
    using assms by (simp add: gc_marks_def kind, (simp add: gc_update_atb_def)?)
  show "gc_marks s ((gc_update_atb (ATB_HEAD_TO_MARK b) s)\<lparr>gc_stack_overflow := v\<rparr>)"
    using assms by (simp add: gc_marks_def kind k, (simp add: gc_update_atb_def)?)
qed

definition gc_words_post :: "u32 list \<Rightarrow> gc_state \<Rightarrow> nat list \<Rightarrow> gc_state \<Rightarrow> nat list \<Rightarrow> bool" where
  "gc_words_post ws s stack s' stack' \<longleftrightarrow>
     gc_marks s s' \<and> (gc_stack_overflow s \<longrightarrow> gc_stack_overflow s') \<and>
     (\<exists>new. stack' = new @ stack \<and> (\<forall>c. c \<in> set new \<longrightarrow> gc_new s s' c) \<and>
        (\<forall>c. gc_new s s' c \<longrightarrow> c \<in> set new \<or> gc_stack_overflow s')) \<and>
     (\<forall>w \<in> set ws. \<forall>c. gc_target s w = Some c \<longrightarrow> gc_kind s' c = AT_MARK) \<and>
     (\<forall>c. gc_new s s' c \<longrightarrow> (\<exists>w \<in> set ws. gc_target s w = Some c))"

lemma gc_words_post_skip:
  assumes "gc_words_post ws s stack s' stack'" and "\<And>c. gc_target s w = Some c \<Longrightarrow> gc_kind s c = AT_MARK"
  shows "gc_words_post (w # ws) s stack s' stack'"
  using assms gc_marks_simps(6) [of s s'] unfolding gc_words_post_def by auto

lemma gc_words_post_step:
  assumes post: "gc_words_post ws s1 stack1 s' stack'" and marks: "gc_marks s s1" and new1: "\<And>c. gc_new s s1 c \<longleftrightarrow> c = b"
    and w: "gc_target s w = Some b" and o: "gc_stack_overflow s \<longrightarrow> gc_stack_overflow s1"
    and stack: "stack1 = b # stack \<or> stack1 = stack \<and> gc_stack_overflow s1"
  shows "gc_words_post (w # ws) s stack s' stack'"
proof -
  note p = post [unfolded gc_words_post_def]
  obtain new where new: "stack' = new @ stack1" "\<forall>c. c \<in> set new \<longrightarrow> gc_new s1 s' c"
    "\<forall>c. gc_new s1 s' c \<longrightarrow> c \<in> set new \<or> gc_stack_overflow s'"
    using p by blast
  have m': "gc_marks s s'" "gc_stack_overflow s1 \<longrightarrow> gc_stack_overflow s'"
    using p gc_marks_trans [OF marks] by auto
  have split: "gc_new s s' c \<longleftrightarrow> c = b \<or> gc_new s1 s' c" for c
    using gc_new_split [OF marks, of s' c] p new1 by simp
  have "gc_kind s1 b = AT_MARK"
    using new1 [of b] by (simp add: gc_new_def)
  then have b: "gc_kind s' b = AT_MARK"
    using p gc_marks_simps(6) by blast
  have "\<exists>new. stack' = new @ stack \<and> (\<forall>c. c \<in> set new \<longrightarrow> gc_new s s' c) \<and>
      (\<forall>c. gc_new s s' c \<longrightarrow> c \<in> set new \<or> gc_stack_overflow s')"
  proof (cases "stack1 = b # stack")
    case True
    then show ?thesis
      using new by (intro exI [of _ "new @ [b]"]) (auto simp: split)
  next
    case False
    then show ?thesis
      using new stack m'(2) by (intro exI [of _ new]) (auto simp: split)
  qed
  then show ?thesis
    unfolding gc_words_post_def using p m' o b w by (auto simp: gc_target_marks [OF marks] split)
qed

lemma gc_mark_words_ok:
  "gc_mark_words limit ws s stack = (s', stack') \<Longrightarrow> gc_words_post ws s stack s' stack'"
proof (induction ws arbitrary: s stack)
  case Nil
  then show ?case
    by (auto simp: gc_words_post_def gc_new_def)
next
  case (Cons w ws)
  let ?b = "BLOCK_FROM_PTR s (unat w)"
  show ?case
  proof (cases "VERIFY_PTR s (unat w) \<and> gc_kind s ?b = AT_HEAD")
    case False
    then have "gc_mark_words limit ws s stack = (s', stack')"
      using Cons.prems by (auto simp: Let_def split: if_splits)
    then show ?thesis
      by (rule gc_words_post_skip [OF Cons.IH]) (use False in \<open>auto simp: gc_target_def Let_def split: if_splits\<close>)
  next
    case True
    let ?s = "gc_update_atb (ATB_HEAD_TO_MARK ?b) s"
    have w: "gc_target s w = Some ?b"
      using True by (simp add: gc_target_def)
    note one = gc_marks_one [OF conjunct2 [OF True]]
    show ?thesis
    proof (cases "length stack < limit")
      case room: True
      then have "gc_mark_words limit ws ?s (?b # stack) = (s', stack')"
        using Cons.prems True by (simp add: Let_def)
      then show ?thesis
        by (rule gc_words_post_step [OF Cons.IH one(1) one(3) w]) simp_all
    next
      case full: False
      then have "gc_mark_words limit ws (?s\<lparr>gc_stack_overflow := True\<rparr>) stack = (s', stack')"
        using Cons.prems True by (simp add: Let_def)
      then show ?thesis
        by (rule gc_words_post_step [OF Cons.IH one(2) one(4) w]) simp_all
    qed
  qed
qed

section \<open>One subtree\<close>

definition gc_subtree_post :: "nat set \<Rightarrow> gc_state \<Rightarrow> gc_state \<Rightarrow> bool" where
  "gc_subtree_post start s s' \<longleftrightarrow>
     gc_marks s s' \<and> (gc_stack_overflow s \<longrightarrow> gc_stack_overflow s') \<and> (\<forall>b \<in> start. gc_scanned s' b) \<and>
     (\<forall>c. gc_new s s' c \<longrightarrow> gc_scanned s' c \<or> gc_stack_overflow s') \<and>
     (\<forall>c. gc_new s s' c \<longrightarrow> (\<exists>b \<in> start. (b, c) \<in> (gc_points s)\<^sup>*))"

lemma gc_words_scanned:
  assumes "gc_words_post (gc_chain_words s b) s stack s' stack'"
  shows "gc_scanned s' b"
proof -
  have m: "gc_marks s s'"
    using assms by (simp add: gc_words_post_def)
  show ?thesis
    using assms unfolding gc_scanned_def gc_words_post_def gc_points_marks [OF m] by (auto simp: gc_points_def)
qed

lemma gc_mark_subtree_loop_ok:
  "gc_subtree_post (insert block (set stack)) s (gc_mark_subtree_loop limit block s stack)"
proof (induction limit block s stack rule: gc_mark_subtree_loop.induct)
  case (1 limit block s stack)
  obtain s1 stack1 where w: "gc_mark_words limit (gc_chain_words s block) s stack = (s1, stack1)"
    by fastforce
  note post = gc_mark_words_ok [OF w]
  obtain new where new: "stack1 = new @ stack" "\<forall>c. c \<in> set new \<longrightarrow> gc_new s s1 c"
    "\<forall>c. gc_new s s1 c \<longrightarrow> c \<in> set new \<or> gc_stack_overflow s1"
    using post unfolding gc_words_post_def by blast
  have m1: "gc_marks s s1" "gc_stack_overflow s \<longrightarrow> gc_stack_overflow s1"
    using post by (auto simp: gc_words_post_def)
  have child: "(block, c) \<in> gc_points s" if "gc_new s s1 c" for c
    using post that by (auto simp: gc_words_post_def gc_points_def)
  show ?case
  proof (cases stack1)
    case Nil
    then have "gc_mark_subtree_loop limit block s stack = s1"
      by (subst gc_mark_subtree_loop.simps) (simp add: w)
    then show ?thesis
      using Nil new m1 gc_words_scanned [OF post] child by (auto simp: gc_subtree_post_def)
  next
    case (Cons b st)
    then have run: "gc_mark_subtree_loop limit block s stack = gc_mark_subtree_loop limit b s1 st" (is "_ = ?s'")
      by (subst gc_mark_subtree_loop.simps) (simp add: w)
    note IH = "1.IH" [OF w [symmetric] Cons, unfolded gc_subtree_post_def gc_points_marks [OF m1(1)]]
    have m: "gc_marks s1 ?s'"
      using IH by blast
    have bs: "insert b (set st) = set new \<union> set stack"
      using Cons new(1) by (metis list.simps(15) set_append)
    have "gc_scanned ?s' block"
      by (rule gc_scanned_marks [OF gc_words_scanned [OF post] m])
    moreover have "gc_scanned ?s' c \<or> gc_stack_overflow ?s'" if "gc_new s ?s' c" for c
      using that IH new(3) bs unfolding gc_new_split [OF m1(1) m] by blast
    moreover have "\<exists>b \<in> insert block (set stack). (b, c) \<in> (gc_points s)\<^sup>*" if "gc_new s ?s' c" for c
      using that unfolding gc_new_split [OF m1(1) m]
    proof
      assume "gc_new s1 ?s' c"
      then obtain x where x: "x \<in> set new \<union> set stack" "(x, c) \<in> (gc_points s)\<^sup>*"
        using IH bs by blast
      then show ?thesis
        using child new(2) by (auto intro: converse_rtrancl_into_rtrancl)
    qed (use child in blast)
    ultimately show ?thesis
      unfolding run using IH bs m1 gc_marks_trans [OF m1(1) m] by (auto simp: gc_subtree_post_def)
  qed
qed

section \<open>The whole marking\<close>

lemma gc_new_same [simp]: "\<not> gc_new s s c"
  by (auto simp: gc_new_def)

text \<open>One subtree after the other.\<close>

lemma gc_subtree_post_trans:
  assumes "gc_subtree_post A r s" and "gc_subtree_post B s t"
  shows "gc_subtree_post (A \<union> B) r t"
proof -
  have m: "gc_marks r s" "gc_marks s t"
    using assms by (auto simp: gc_subtree_post_def)
  show ?thesis
    using assms gc_marks_trans [OF m] unfolding gc_subtree_post_def gc_new_split [OF m] gc_points_marks [OF m(1)]
    by (auto intro: gc_scanned_marks [OF _ m(2)])
qed

lemma gc_subtree_post_mono: "gc_subtree_post A s t \<Longrightarrow> (\<And>b. b \<in> A \<Longrightarrow> b \<in> B) \<Longrightarrow> (\<And>b. b \<in> B \<Longrightarrow> gc_scanned t b) \<Longrightarrow> gc_subtree_post B s t"
  unfolding gc_subtree_post_def by blast

lemma gc_rescan_ok:
  "\<exists>A. gc_subtree_post A s (gc_rescan limit blocks s) \<and> {b \<in> set blocks. gc_kind s b = AT_MARK} \<subseteq> A \<and>
     (\<forall>a \<in> A. gc_kind s a = AT_MARK \<or> (\<exists>b. gc_kind s b = AT_MARK \<and> (b, a) \<in> (gc_points s)\<^sup>*))"
proof (induction limit blocks s rule: gc_rescan.induct)
  case (1 limit s)
  have "gc_subtree_post {} s s"
    by (simp add: gc_subtree_post_def)
  then show ?case by auto
next
  case (2 limit block blocks s)
  let ?A0 = "if gc_kind s block = AT_MARK then {block} else {}"
  define t where "t = (if gc_kind s block = AT_MARK then gc_mark_subtree limit block s else s)"
  have t: "gc_subtree_post ?A0 s t"
    using gc_mark_subtree_loop_ok [of block "[]" s limit] by (auto simp: t_def gc_mark_subtree_def gc_subtree_post_def)
  then have m: "gc_marks s t"
    by (simp add: gc_subtree_post_def)
  obtain A where A: "gc_subtree_post A t (gc_rescan limit blocks t)" "{b \<in> set blocks. gc_kind t b = AT_MARK} \<subseteq> A"
    "\<forall>a \<in> A. gc_kind t a = AT_MARK \<or> (\<exists>b. gc_kind t b = AT_MARK \<and> (b, a) \<in> (gc_points t)\<^sup>*)"
    using "2.IH" unfolding t_def [symmetric] by blast
  have from_mark: "gc_kind s b = AT_MARK \<or> (\<exists>c. gc_kind s c = AT_MARK \<and> (c, b) \<in> (gc_points s)\<^sup>*)" if "gc_kind t b = AT_MARK" for b
  proof (cases "gc_kind s b = AT_MARK")
    case False
    then have "gc_new s t b"
      using that m unfolding gc_new_def gc_marks_def by metis
    then show ?thesis
      using t by (auto simp: gc_subtree_post_def split: if_splits)
  qed simp
  have "gc_subtree_post (?A0 \<union> A) s (gc_rescan limit (block # blocks) s)"
    using gc_subtree_post_trans [OF t A(1)] by (simp add: t_def)
  moreover have "{b \<in> set (block # blocks). gc_kind s b = AT_MARK} \<subseteq> ?A0 \<union> A"
    using A(2) gc_marks_simps(6) [OF m] by auto
  moreover have "\<forall>a \<in> ?A0 \<union> A. gc_kind s a = AT_MARK \<or> (\<exists>b. gc_kind s b = AT_MARK \<and> (b, a) \<in> (gc_points s)\<^sup>*)"
    using A(3) from_mark unfolding gc_points_marks [OF m] by (auto intro: rtrancl_trans split: if_splits)
  ultimately show ?case by blast
qed

definition gc_closed :: "gc_state \<Rightarrow> bool" where
  "gc_closed s \<longleftrightarrow> gc_stack_overflow s \<or> (\<forall>b. gc_kind s b = AT_MARK \<longrightarrow> gc_scanned s b)"

text \<open>What the marking from a set of chains may mark.\<close>

definition gc_from :: "gc_state \<Rightarrow> gc_state \<Rightarrow> nat set \<Rightarrow> bool" where
  "gc_from s s' R \<longleftrightarrow> (\<forall>c. gc_new s s' c \<longrightarrow> (\<exists>b. (b \<in> R \<or> gc_kind s b = AT_MARK) \<and> (b, c) \<in> (gc_points s)\<^sup>*))"

lemma gc_from_mono: "gc_from s t R \<Longrightarrow> R \<subseteq> R' \<Longrightarrow> gc_from s t R'"
  unfolding gc_from_def by blast

lemma gc_from_trans:
  assumes m: "gc_marks r s" "gc_marks s t" and f: "gc_from r s R" "gc_from s t R"
  shows "gc_from r t R"
  unfolding gc_from_def gc_new_split [OF m]
proof (intro allI impI, elim disjE)
  fix c assume "gc_new s t c"
  then obtain b where b: "b \<in> R \<or> gc_kind s b = AT_MARK" "(b, c) \<in> (gc_points r)\<^sup>*"
    using f(2) by (auto simp: gc_from_def gc_points_marks [OF m(1)])
  show "\<exists>b. (b \<in> R \<or> gc_kind r b = AT_MARK) \<and> (b, c) \<in> (gc_points r)\<^sup>*"
  proof (cases "b \<in> R \<or> gc_kind r b = AT_MARK")
    case False
    then have "gc_new r s b"
      using b(1) m(1) unfolding gc_new_def gc_marks_def by metis
    then show ?thesis
      using f(1) b(2) unfolding gc_from_def by (meson rtrancl_trans)
  qed (use b in blast)
qed (use f(1) in \<open>auto simp: gc_from_def\<close>)

lemma gc_deal_ok:
  assumes "gc_closed s"
  shows "gc_marks s (gc_deal_with_stack_overflow limit s) \<and>
    \<not> gc_stack_overflow (gc_deal_with_stack_overflow limit s) \<and> gc_closed (gc_deal_with_stack_overflow limit s) \<and>
    gc_from s (gc_deal_with_stack_overflow limit s) {}"
  using assms
proof (induction limit s rule: gc_deal_with_stack_overflow.induct)
  case (1 limit s)
  show ?case
  proof (cases "gc_stack_overflow s")
    case False
    then show ?thesis
      using "1.prems" by (subst (1 2 3 4) gc_deal_with_stack_overflow.simps) (simp add: gc_from_def)
  next
    case True
    define r where "r = s\<lparr>gc_stack_overflow := False\<rparr>"
    define t where "t = gc_rescan limit [0..<gc_blocks s] r"
    have run: "gc_deal_with_stack_overflow limit s = gc_deal_with_stack_overflow limit t"
      using True by (subst gc_deal_with_stack_overflow.simps) (simp add: t_def r_def)
    have kind: "gc_kind r b = gc_kind s b" for b
      by (simp add: r_def gc_kind_def)
    have sr: "gc_marks s r"
      by (simp add: gc_marks_def kind) (simp add: r_def)
    obtain A where A: "gc_subtree_post A r t" "{b \<in> set [0..<gc_blocks s]. gc_kind r b = AT_MARK} \<subseteq> A"
      "\<forall>a \<in> A. gc_kind r a = AT_MARK \<or> (\<exists>b. gc_kind r b = AT_MARK \<and> (b, a) \<in> (gc_points r)\<^sup>*)"
      using gc_rescan_ok [of r limit "[0..<gc_blocks s]"] unfolding t_def by blast
    have rt: "gc_marks r t"
      using A(1) by (simp add: gc_subtree_post_def)
    have st: "gc_marks s t"
      by (rule gc_marks_trans [OF sr rt])
    have new: "gc_new s t c \<longleftrightarrow> gc_new r t c" for c
      by (simp add: gc_new_def kind)
    have "gc_closed t"
    proof (cases "gc_stack_overflow t")
      case False
      have "gc_scanned t b" if b: "gc_kind t b = AT_MARK" for b
      proof (cases "gc_kind r b = AT_MARK")
        case True
        then have "b < gc_blocks s"
          using gc_kind_used [of s b] by (simp add: kind)
        then show ?thesis
          using A(1,2) True by (auto simp: gc_subtree_post_def)
      next
        case False
        then have "gc_new r t b"
          using b rt unfolding gc_new_def gc_marks_def by metis
        then show ?thesis
          using A(1) \<open>\<not> gc_stack_overflow t\<close> by (auto simp: gc_subtree_post_def)
      qed
      then show ?thesis
        by (simp add: gc_closed_def)
    qed (simp add: gc_closed_def)
    have from_s: "gc_from s t {}"
      unfolding gc_from_def new
    proof (intro allI impI)
      fix c assume "gc_new r t c"
      then obtain a where a: "a \<in> A" "(a, c) \<in> (gc_points r)\<^sup>*"
        using A(1) by (auto simp: gc_subtree_post_def)
      then show "\<exists>b. (b \<in> {} \<or> gc_kind s b = AT_MARK) \<and> (b, c) \<in> (gc_points s)\<^sup>*"
        using A(3) unfolding gc_points_marks [OF sr] kind by (meson rtrancl_trans)
    qed
    note IH = "1.IH" [OF True, folded r_def, folded t_def, OF \<open>gc_closed t\<close>]
    show ?thesis
      unfolding run using IH gc_marks_trans [OF st] gc_from_trans [OF st _ from_s] by blast
  qed
qed

lemma gc_collect_root_ok:
  assumes "gc_closed s"
  shows "gc_marks s (gc_collect_root limit roots s) \<and> gc_closed (gc_collect_root limit roots s) \<and>
    (\<forall>w \<in> set roots. \<forall>b. gc_target s w = Some b \<longrightarrow> gc_kind (gc_collect_root limit roots s) b = AT_MARK) \<and>
    gc_from s (gc_collect_root limit roots s) {b. \<exists>w \<in> set roots. gc_target s w = Some b}"
  using assms
proof (induction roots arbitrary: s)
  case Nil
  then show ?case
    by (simp add: gc_from_def)
next
  case (Cons w roots)
  let ?b = "BLOCK_FROM_PTR s (unat w)"
  define t where "t = (if VERIFY_PTR s (unat w) \<and> gc_kind s ?b = AT_HEAD
      then gc_mark_subtree limit ?b (gc_update_atb (ATB_HEAD_TO_MARK ?b) s) else s)"
  let ?u = "gc_collect_root limit roots t"
  let ?R = "{b. \<exists>w \<in> set (w # roots). gc_target s w = Some b}"
  have run: "gc_collect_root limit (w # roots) s = ?u"
    by (simp add: t_def Let_def)
  have t: "gc_marks s t \<and> gc_closed t \<and> (\<forall>b. gc_target s w = Some b \<longrightarrow> gc_kind t b = AT_MARK) \<and> gc_from s t ?R"
  proof (cases "VERIFY_PTR s (unat w) \<and> gc_kind s ?b = AT_HEAD")
    case True
    let ?r = "gc_update_atb (ATB_HEAD_TO_MARK ?b) s"
    have t: "t = gc_mark_subtree_loop limit ?b ?r []"
      using True by (simp add: t_def gc_mark_subtree_def)
    note one = gc_marks_one [OF conjunct2 [OF True]]
    have post: "gc_subtree_post {?b} ?r t"
      using gc_mark_subtree_loop_ok [of ?b "[]" ?r limit] by (simp add: t)
    then have rt: "gc_marks ?r t" and o: "gc_stack_overflow s \<longrightarrow> gc_stack_overflow t"
      by (auto simp: gc_subtree_post_def)
    note st = gc_marks_trans [OF one(1) rt]
    have new: "gc_new s t c \<longleftrightarrow> c = ?b \<or> gc_new ?r t c" for c
      using gc_new_split [OF one(1) rt] one(3) by simp
    have target: "gc_target s w = Some ?b"
      using True by (simp add: gc_target_def)
    have "gc_scanned t c \<or> gc_stack_overflow t" if "gc_kind t c = AT_MARK" for c
    proof (cases "gc_kind s c = AT_MARK")
      case True
      then show ?thesis
        using Cons.prems o gc_scanned_marks [OF _ st] by (auto simp: gc_closed_def)
    next
      case False
      then have "gc_new s t c"
        using that st unfolding gc_new_def gc_marks_def by metis
      then show ?thesis
        using post new by (auto simp: gc_subtree_post_def)
    qed
    moreover have "gc_kind t ?b = AT_MARK"
      using gc_kind_mark [OF conjunct2 [OF True], of ?b] gc_marks_simps(6) [OF rt] by simp
    moreover have "gc_from s t ?R"
      using post target unfolding gc_from_def new gc_subtree_post_def gc_points_marks [OF one(1)] by auto
    ultimately show ?thesis
      using st target by (auto simp: gc_closed_def)
  next
    case False
    then show ?thesis
      using Cons.prems by (auto simp: t_def gc_from_def gc_target_def Let_def split: if_splits)
  qed
  have st: "gc_marks s t" "gc_closed t"
    using t by auto
  note IH = Cons.IH [OF st(2), unfolded gc_target_marks [OF st(1)]]
  then have tu: "gc_marks t ?u" by blast
  have "gc_from t ?u ?R"
    using IH by (auto intro: gc_from_mono)
  then have "gc_from s ?u ?R"
    using gc_from_trans [OF st(1) tu] t by blast
  then show ?case
    unfolding run using IH gc_marks_trans [OF st(1) tu] t gc_marks_simps(6) [OF tu] by auto
qed

end
