(* ===== verification/Gc_Sweep.thy ===== *)
theory Gc_Sweep
  imports Gc_Mark
begin

text \<open>
  The sweep of theory Gc frees the chains without a mark and clears the marks of the others; the
  well-formedness of the heap, and what a whole collection does to it.
\<close>

lemma tail_run_step:
  "tail_run t b = (if ATB_GET_KIND t b = AT_TAIL then Suc (tail_run t (b + 1)) else 0)"
  by (subst tail_run.simps) simp

lemma tail_run_kind: "b \<le> c \<Longrightarrow> c < b + tail_run t b \<Longrightarrow> ATB_GET_KIND t c = AT_TAIL"
proof (induction t b rule: tail_run.induct)
  case (1 t b)
  have tail: "ATB_GET_KIND t b = AT_TAIL"
    using "1.prems" by (subst (asm) tail_run_step) (simp split: if_splits)
  show ?case
  proof (cases "c = b")
    case False
    then show ?thesis
      using "1.IH" [OF tail] "1.prems" tail_run_step [of t b] tail by simp
  qed (simp add: tail)
qed

lemma tail_run_end: "ATB_GET_KIND t (b + tail_run t b) \<noteq> AT_TAIL"
proof (induction t b rule: tail_run.induct)
  case (1 t b)
  then show ?case
    using tail_run_step [of t b] by (cases "ATB_GET_KIND t b = AT_TAIL") simp_all
qed

text \<open>The table outside the block that a step of the sweep changes.\<close>

definition kinds_from :: "nat \<Rightarrow> u8 list \<Rightarrow> u8 list \<Rightarrow> bool" where
  "kinds_from k t t' \<longleftrightarrow> length t' = length t \<and> (\<forall>c \<ge> k. ATB_GET_KIND t' c = ATB_GET_KIND t c)"

lemma kinds_from_tail_run: "kinds_from k t t' \<Longrightarrow> k \<le> b \<Longrightarrow> tail_run t' b = tail_run t b"
proof (induction t b rule: tail_run.induct)
  case (1 t b)
  then show ?case
    using tail_run_step [of t b] tail_run_step [of t' b] by (auto simp: kinds_from_def)
qed

definition swept :: "nat \<Rightarrow> nat \<Rightarrow> bool \<Rightarrow> u8 list \<Rightarrow> u8 list \<Rightarrow> bool" where
  "swept k n free_tail t t' \<longleftrightarrow>
     length t' = length t \<and>
     (\<forall>c. c < k \<or> n \<le> c \<or> ATB_GET_KIND t c = AT_FREE \<longrightarrow> ATB_GET_KIND t' c = ATB_GET_KIND t c) \<and>
     (\<forall>c. k \<le> c \<and> c < n \<and> c < k + tail_run t k \<longrightarrow> ATB_GET_KIND t' c = (if free_tail then AT_FREE else AT_TAIL)) \<and>
     (\<forall>b. k \<le> b \<and> b < n \<and> ATB_GET_KIND t b = AT_HEAD \<longrightarrow>
        (\<forall>c. b \<le> c \<and> c < n \<and> c < b + gc_chain_len t b \<longrightarrow> ATB_GET_KIND t' c = AT_FREE)) \<and>
     (\<forall>b. k \<le> b \<and> b < n \<and> ATB_GET_KIND t b = AT_MARK \<longrightarrow>
        ATB_GET_KIND t' b = AT_HEAD \<and>
        (\<forall>c. b < c \<and> c < n \<and> c < b + gc_chain_len t b \<longrightarrow> ATB_GET_KIND t' c = AT_TAIL))"

lemma swept_step:
  assumes s: "swept (k + 1) n ft' t1 t'" and k: "k < n" and t1: "kinds_from (k + 1) t t1"
    and before: "\<And>c. c < k \<Longrightarrow> ATB_GET_KIND t1 c = ATB_GET_KIND t c"
    and at: "(ATB_GET_KIND t k = AT_FREE \<and> ATB_GET_KIND t1 k = AT_FREE \<and> tail_run t (k + 1) = 0) \<or>
      (ATB_GET_KIND t k = AT_HEAD \<and> ATB_GET_KIND t1 k = AT_FREE \<and> ft') \<or>
      (ATB_GET_KIND t k = AT_MARK \<and> ATB_GET_KIND t1 k = AT_HEAD \<and> \<not> ft') \<or>
      (ATB_GET_KIND t k = AT_TAIL \<and> ATB_GET_KIND t1 k = (if ft then AT_FREE else AT_TAIL) \<and> ft' = ft)"
  shows "swept k n ft t t'"
proof -
  have run: "tail_run t1 c = tail_run t c" if "k < c" for c
    using kinds_from_tail_run [OF t1] that by simp
  have chain: "gc_chain_len t1 c = gc_chain_len t c" if "k \<le> c" for c
    using run [of "c + 1"] that by (simp add: gc_chain_len_def)
  have kind: "ATB_GET_KIND t1 c = ATB_GET_KIND t c" if "c \<noteq> k" for c
    using t1 before that by (cases "c < k") (auto simp: kinds_from_def)
  have len: "length t1 = length t"
    using t1 by (simp add: kinds_from_def)
  note s' = s [unfolded swept_def]
  note heads = s' [THEN conjunct2, THEN conjunct2, THEN conjunct2, THEN conjunct1, rule_format]
    and marks = s' [THEN conjunct2, THEN conjunct2, THEN conjunct2, THEN conjunct2, rule_format]
  have atk: "ATB_GET_KIND t' k = ATB_GET_KIND t1 k"
    using s' by simp
  have first: "ATB_GET_KIND t' c = (if ft' then AT_FREE else AT_TAIL)" if "k < c" "c < n" "c < k + 1 + tail_run t (k + 1)" for c
    using s' that run [of "k + 1"] by simp
  show ?thesis
    unfolding swept_def
  proof (intro conjI allI impI)
    show "length t' = length t"
      using s' len by simp
  next
    fix c assume "c < k \<or> n \<le> c \<or> ATB_GET_KIND t c = AT_FREE"
    then show "ATB_GET_KIND t' c = ATB_GET_KIND t c"
      using s' kind [of c] k at atk by (cases "c = k") (auto split: if_splits)
  next
    fix c assume c: "k \<le> c \<and> c < n \<and> c < k + tail_run t k"
    then have "ATB_GET_KIND t k = AT_TAIL"
      using tail_run_step [of t k] by (auto split: if_splits)
    then show "ATB_GET_KIND t' c = (if ft then AT_FREE else AT_TAIL)"
      using c at atk first [of c] tail_run_step [of t k] by (cases "c = k") auto
  next
    fix b c assume b: "k \<le> b \<and> b < n \<and> ATB_GET_KIND t b = AT_HEAD" and c: "b \<le> c \<and> c < n \<and> c < b + gc_chain_len t b"
    show "ATB_GET_KIND t' c = AT_FREE"
    proof (cases "b = k")
      case True
      then show ?thesis
        using b c at atk first [of c] by (cases "c = k") (auto simp: gc_chain_len_def)
    next
      case False
      then have "k + 1 \<le> b \<and> b < n \<and> ATB_GET_KIND t1 b = AT_HEAD" "c < b + gc_chain_len t1 b"
        using b c kind [of b] chain [of b] by auto
      then show ?thesis
        using heads c by blast
    qed
  next
    fix b assume b: "k \<le> b \<and> b < n \<and> ATB_GET_KIND t b = AT_MARK"
    then show "ATB_GET_KIND t' b = AT_HEAD"
      using s' at atk kind [of b] by (cases "b = k") auto
  next
    fix b c assume b: "k \<le> b \<and> b < n \<and> ATB_GET_KIND t b = AT_MARK" and c: "b < c \<and> c < n \<and> c < b + gc_chain_len t b"
    show "ATB_GET_KIND t' c = AT_TAIL"
    proof (cases "b = k")
      case True
      then show ?thesis
        using b c at first [of c] by (auto simp: gc_chain_len_def)
    next
      case False
      then have "k + 1 \<le> b \<and> b < n \<and> ATB_GET_KIND t1 b = AT_MARK" "c < b + gc_chain_len t1 b"
        using b c kind [of b] chain [of b] by auto
      then show ?thesis
        using marks c by blast
    qed
  qed
qed

lemma gc_sweep_loop_swept:
  assumes "\<forall>c. k \<le> c \<and> c < n \<and> ATB_GET_KIND t c = AT_FREE \<longrightarrow> ATB_GET_KIND t (c + 1) \<noteq> AT_TAIL"
    and "gc_sweep_loop [k..<n] t ft lu = (t', lu')" and "k \<le> n"
  shows "swept k n ft t t' \<and> (lu' = lu \<or> k \<le> lu' \<and> lu' < n) \<and> (\<forall>c. k \<le> c \<and> c < n \<and> ATB_GET_KIND t' c \<noteq> AT_FREE \<longrightarrow> lu \<le> k \<longrightarrow> c \<le> lu')"
  using assms
proof (induction "n - k" arbitrary: k t ft lu)
  case 0
  then have "k = n" by simp
  then show ?case
    using 0 by (auto simp: swept_def)
next
  case (Suc d)
  then have k: "k < n" "d = n - (k + 1)" by auto
  have list: "[k..<n] = k # [k + 1..<n]"
    using k by (simp add: upt_conv_Cons)
  define t1 where "t1 = (if ATB_GET_KIND t k = AT_HEAD \<or> ATB_GET_KIND t k = AT_TAIL \<and> ft then ATB_ANY_TO_FREE k t
      else if ATB_GET_KIND t k = AT_MARK then ATB_MARK_TO_HEAD k t else t)"
  define ft1 where "ft1 = (if ATB_GET_KIND t k = AT_HEAD then True else if ATB_GET_KIND t k = AT_MARK then False else ft)"
  define lu1 where "lu1 = (if ATB_GET_KIND t k = AT_MARK \<or> ATB_GET_KIND t k = AT_TAIL \<and> \<not> ft then k else lu)"
  have run: "gc_sweep_loop [k + 1..<n] t1 ft1 lu1 = (t', lu')"
    using Suc.prems(2) unfolding list t1_def ft1_def lu1_def by (auto simp: Let_def split: if_splits)
  have used: "k < 4 * length t" if "ATB_GET_KIND t k \<noteq> AT_FREE"
    using kind_beyond [of t k] that by linarith
  have t1: "kinds_from (k + 1) t t1" "c < k \<Longrightarrow> ATB_GET_KIND t1 c = ATB_GET_KIND t c" for c
    using used by (auto simp: t1_def kinds_from_def kind_any_to_free kind_mark_to_head)
  have "\<forall>c. k + 1 \<le> c \<and> c < n \<and> ATB_GET_KIND t1 c = AT_FREE \<longrightarrow> ATB_GET_KIND t1 (c + 1) \<noteq> AT_TAIL"
    using Suc.prems(1) t1(1) by (auto simp: kinds_from_def)
  moreover have "k + 1 \<le> n"
    using k(1) by simp
  ultimately have IH': "swept (k + 1) n ft1 t1 t' \<and> (lu' = lu1 \<or> k + 1 \<le> lu' \<and> lu' < n) \<and>
      (\<forall>c. k + 1 \<le> c \<and> c < n \<and> ATB_GET_KIND t' c \<noteq> AT_FREE \<longrightarrow> lu1 \<le> k + 1 \<longrightarrow> c \<le> lu')"
    by (intro Suc.hyps(1) [OF k(2) _ run])
  have no_tail: "tail_run t (k + 1) = 0" if "ATB_GET_KIND t k = AT_FREE"
  proof -
    have "ATB_GET_KIND t (k + 1) \<noteq> AT_TAIL"
      using Suc.prems(1) k that by simp
    then show ?thesis
      by (subst tail_run_step) simp
  qed
  have "swept k n ft t t'"
  proof (rule swept_step [OF conjunct1 [OF IH'] k(1) t1(1) t1(2)])
    show "(ATB_GET_KIND t k = AT_FREE \<and> ATB_GET_KIND t1 k = AT_FREE \<and> tail_run t (k + 1) = 0) \<or>
      (ATB_GET_KIND t k = AT_HEAD \<and> ATB_GET_KIND t1 k = AT_FREE \<and> ft1) \<or>
      (ATB_GET_KIND t k = AT_MARK \<and> ATB_GET_KIND t1 k = AT_HEAD \<and> \<not> ft1) \<or>
      (ATB_GET_KIND t k = AT_TAIL \<and> ATB_GET_KIND t1 k = (if ft then AT_FREE else AT_TAIL) \<and> ft1 = ft)"
    proof (cases rule: kind_cases [of t k])
      case free
      then show ?thesis
        using no_tail by (simp add: t1_def)
    next
      case head
      then show ?thesis
        using used by (simp add: t1_def ft1_def kind_any_to_free)
    next
      case tail
      then show ?thesis
        using used by (simp add: t1_def ft1_def kind_any_to_free)
    next
      case mark
      then show ?thesis
        using used by (simp add: t1_def ft1_def kind_mark_to_head)
    qed
  qed
  moreover have "lu' = lu \<or> k \<le> lu' \<and> lu' < n"
    using IH' k by (auto simp: lu1_def split: if_splits)
  moreover have "c \<le> lu'" if "k \<le> c" "c < n" "ATB_GET_KIND t' c \<noteq> AT_FREE" "lu \<le> k" for c
  proof (cases "c = k")
    case True
    have "ATB_GET_KIND t' k = ATB_GET_KIND t1 k"
      using IH' by (simp add: swept_def)
    then have "ATB_GET_KIND t1 k \<noteq> AT_FREE"
      using that True by simp
    then have "lu1 = k"
      by (cases rule: kind_cases [of t k]) (use used in \<open>auto simp: t1_def lu1_def kind_any_to_free split: if_splits\<close>)
    then show ?thesis
      using IH' True by auto
  next
    case False
    have "lu1 \<le> k + 1"
      using that by (simp add: lu1_def)
    then show ?thesis
      using IH' that False by simp
  qed
  ultimately show ?case by blast
qed

section \<open>Well-formed heaps\<close>

definition gc_tails_ok :: "gc_state \<Rightarrow> bool" where
  "gc_tails_ok s \<longleftrightarrow> (\<forall>b. gc_kind s b = AT_FREE \<longrightarrow> gc_kind s (b + 1) \<noteq> AT_TAIL) \<and> gc_kind s 0 \<noteq> AT_TAIL"

definition gc_ok :: "gc_state \<Rightarrow> bool" where
  "gc_ok s \<longleftrightarrow>
     length (gc_pool s) = gc_blocks s * WORDS_PER_BLOCK \<and>
     length (gc_finaliser_table s) = gc_finaliser_byte_len (length (gc_alloc_table s)) \<and>
     gc_pool_start s mod BYTES_PER_BLOCK = 0 \<and> 0 < gc_pool_start s \<and>
     gc_pool_start s + gc_blocks s * BYTES_PER_BLOCK \<le> 2 ^ 32 \<and>
     gc_tails_ok s \<and> (\<forall>b. gc_kind s b \<noteq> AT_MARK) \<and>
     gc_last_used_block s \<le> gc_blocks s \<and> (\<forall>b. gc_kind s b \<noteq> AT_FREE \<longrightarrow> b \<le> gc_last_used_block s) \<and>
     gc_last_free_atb_index s \<le> length (gc_alloc_table s) \<and>
     (\<forall>b < gc_last_free_atb_index s * BLOCKS_PER_ATB. gc_kind s b \<noteq> AT_FREE)"

text \<open>A finaliser may write to the words of the heap; it does not allocate, which the lock forbids,
  and it does not free memory itself.\<close>

definition gc_del_ok :: "(nat \<Rightarrow> gc_state \<Rightarrow> gc_state) \<Rightarrow> bool" where
  "gc_del_ok del \<longleftrightarrow> (\<forall>b s. \<exists>p. length p = length (gc_pool s) \<and> del b s = s\<lparr>gc_pool := p\<rparr>)"

definition gc_finalised :: "gc_state \<Rightarrow> gc_state \<Rightarrow> bool" where
  "gc_finalised s s' \<longleftrightarrow>
     length (gc_pool s') = length (gc_pool s) \<and> length (gc_finaliser_table s') = length (gc_finaliser_table s) \<and>
     s' = s\<lparr>gc_pool := gc_pool s', gc_finaliser_table := gc_finaliser_table s'\<rparr>"

lemma gc_finalised_refl [simp]: "gc_finalised s s"
  by (simp add: gc_finalised_def)

lemma gc_finalised_trans: "gc_finalised r s \<Longrightarrow> gc_finalised s t \<Longrightarrow> gc_finalised r t"
  unfolding gc_finalised_def by (cases r; cases s; cases t) simp

lemma gc_finalised_step:
  assumes "gc_del_ok del"
  shows "gc_finalised s (let s = del block s in s\<lparr>gc_finaliser_table := FTB_CLEAR block (gc_finaliser_table s)\<rparr>)"
proof -
  obtain p where "length p = length (gc_pool s)" "del block s = s\<lparr>gc_pool := p\<rparr>"
    using assms unfolding gc_del_ok_def by blast
  then show ?thesis
    by (simp add: gc_finalised_def Let_def FTB_CLEAR_def)
qed

lemma gc_finalise_byte_ok: "gc_del_ok del \<Longrightarrow> gc_finalised s (gc_finalise_byte del flags block s)"
proof (induction del flags block s rule: gc_finalise_byte.induct)
  case (1 del flags block s)
  show ?case
  proof (cases "flags = 0")
    case True
    then show ?thesis
      by (subst gc_finalise_byte.simps) simp
  next
    case False
    let ?s = "if bit flags 0 \<and> gc_kind s block = AT_HEAD
         then let s = del block s in s\<lparr>gc_finaliser_table := FTB_CLEAR block (gc_finaliser_table s)\<rparr> else s"
    have "gc_finalised s ?s"
      using gc_finalised_step [OF "1.prems"] by (simp only: split: if_splits) simp
    then show ?thesis
      using "1.IH" [OF False "1.prems"] gc_finalised_trans False by (subst gc_finalise_byte.simps) (simp only: if_False)
  qed
qed

lemma gc_finalise_bytes_ok:
  assumes "gc_del_ok del" and "\<forall>i \<in> set idxs. i < length (gc_finaliser_table s)"
  shows "\<exists>s'. gc_finalise_bytes del idxs s = Some s' \<and> gc_finalised s s'"
  using assms(2)
proof (induction idxs arbitrary: s)
  case (Cons i idxs)
  let ?s = "gc_finalise_byte del (gc_finaliser_table s ! i) (i * BLOCKS_PER_FTB) s"
  have s: "gc_finalised s ?s"
    by (rule gc_finalise_byte_ok [OF assms(1)])
  then have "length (gc_finaliser_table ?s) = length (gc_finaliser_table s)"
    by (auto simp: gc_finalised_def)
  then show ?case
    using Cons.IH [of ?s] Cons.prems gc_finalised_trans [OF s] by auto
qed simp

text \<open>Finalisers that leave the memory of the heap alone.\<close>

definition gc_quiet :: "(nat \<Rightarrow> gc_state \<Rightarrow> gc_state) \<Rightarrow> bool" where
  "gc_quiet del \<longleftrightarrow> (\<forall>b s. gc_pool (del b s) = gc_pool s)"

lemma gc_finalise_byte_quiet: "gc_quiet del \<Longrightarrow> gc_pool (gc_finalise_byte del flags block s) = gc_pool s"
proof (induction del flags block s rule: gc_finalise_byte.induct)
  case (1 del flags block s)
  then show ?case
    by (subst gc_finalise_byte.simps) (auto simp: gc_quiet_def Let_def)
qed

lemma gc_finalise_bytes_quiet:
  assumes "gc_quiet del"
  shows "gc_finalise_bytes del idxs s = Some s' \<Longrightarrow> gc_pool s' = gc_pool s"
proof (induction idxs arbitrary: s)
  case (Cons i idxs)
  then show ?case
    using gc_finalise_byte_quiet [OF assms] by (auto split: if_splits)
qed simp

lemma finalised_simps:
  assumes "gc_finalised s s'"
  shows "gc_kind s' b = gc_kind s b" and "gc_blocks s' = gc_blocks s" and "gc_alloc_table s' = gc_alloc_table s"
    and "gc_last_used_block s' = gc_last_used_block s" and "gc_lock_depth s' = gc_lock_depth s"
    and "length (gc_pool s') = length (gc_pool s)" and "gc_pool_start s' = gc_pool_start s"
    and "length (gc_finaliser_table s') = length (gc_finaliser_table s)"
proof -
  have eq: "s' = s\<lparr>gc_pool := gc_pool s', gc_finaliser_table := gc_finaliser_table s'\<rparr>"
    using assms by (simp add: gc_finalised_def)
  show t: "gc_alloc_table s' = gc_alloc_table s" "gc_last_used_block s' = gc_last_used_block s"
    "gc_lock_depth s' = gc_lock_depth s" "gc_pool_start s' = gc_pool_start s"
    by (subst eq, simp)+
  show "gc_kind s' b = gc_kind s b" "gc_blocks s' = gc_blocks s"
    by (simp_all add: gc_kind_def gc_blocks_def t)
  show "length (gc_pool s') = length (gc_pool s)" "length (gc_finaliser_table s') = length (gc_finaliser_table s)"
    using assms by (simp_all add: gc_finalised_def)
qed

section \<open>A collection\<close>

lemma gc_tails_marks: "gc_marks s s' \<Longrightarrow> gc_tails_ok s' = gc_tails_ok s"
  by (simp add: gc_tails_ok_def gc_marks_simps)

lemma gc_marked_reach:
  assumes s: "gc_marks s s'" "\<forall>b. gc_kind s b \<noteq> AT_MARK" and closed: "\<forall>b. gc_kind s' b = AT_MARK \<longrightarrow> gc_scanned s' b"
    and roots: "\<forall>w \<in> set roots. \<forall>b. gc_target s w = Some b \<longrightarrow> gc_kind s' b = AT_MARK"
    and frm: "gc_from s s' {b. \<exists>w \<in> set roots. gc_target s w = Some b}"
  shows "gc_kind s' c = AT_MARK \<longleftrightarrow> c \<in> gc_reach s roots"
proof
  assume "gc_kind s' c = AT_MARK"
  then have "gc_new s s' c"
    using s unfolding gc_new_def gc_marks_def by metis
  then show "c \<in> gc_reach s roots"
    using frm s(2) unfolding gc_from_def gc_reach_def by blast
next
  assume "c \<in> gc_reach s roots"
  then obtain w b where b: "w \<in> set roots" "gc_target s w = Some b" "(b, c) \<in> (gc_points s)\<^sup>*"
    by (auto simp: gc_reach_def)
  show "gc_kind s' c = AT_MARK"
    using b(3)
  proof (induction rule: rtrancl_induct)
    case base
    then show ?case
      using roots b by blast
  next
    case (step x y)
    then show ?case
      using closed gc_points_marks [OF s(1)] by (auto simp: gc_scanned_def)
  qed
qed

text \<open>
  What a collection with these roots leaves: the chains that the roots reach keep their blocks,
  all other chains are free.
\<close>

definition gc_collected :: "gc_state \<Rightarrow> u32 list \<Rightarrow> gc_state \<Rightarrow> bool" where
  "gc_collected s roots s' \<longleftrightarrow>
     (\<forall>b. gc_kind s b = AT_HEAD \<longrightarrow>
        (\<forall>c. b \<le> c \<and> c < b + gc_chain_len (gc_alloc_table s) b \<longrightarrow>
           gc_kind s' c = (if b \<in> gc_reach s roots then gc_kind s c else AT_FREE))) \<and>
     (\<forall>b. gc_kind s b = AT_FREE \<longrightarrow> gc_kind s' b = AT_FREE) \<and>
     length (gc_alloc_table s') = length (gc_alloc_table s) \<and> gc_pool_start s' = gc_pool_start s"

end
