(* ===== verification/Gc_Collect.thy ===== *)
theory Gc_Collect
  imports Gc_Sweep
begin

text \<open>
  A whole collection: from a well-formed heap it ends, it frees exactly the chains that the roots
  do not reach, whatever the size of the mark stack, and it leaves a well-formed heap.
\<close>

lemma chain_start:
  assumes ok: "gc_tails_ok s" and used: "gc_kind s c \<noteq> AT_FREE"
  obtains b where "b \<le> c" and "gc_kind s b = AT_HEAD \<or> gc_kind s b = AT_MARK"
    and "c < b + gc_chain_len (gc_alloc_table s) b"
proof -
  have "\<exists>b \<le> c. (gc_kind s b = AT_HEAD \<or> gc_kind s b = AT_MARK) \<and> c < b + gc_chain_len (gc_alloc_table s) b"
    using used
  proof (induction c)
    case 0
    then have "gc_kind s 0 = AT_HEAD \<or> gc_kind s 0 = AT_MARK"
      using ok kind_cases [of "gc_alloc_table s" 0] by (auto simp: gc_tails_ok_def gc_kind_def)
    then show ?case
      by (auto simp: gc_chain_len_def)
  next
    case (Suc c)
    show ?case
    proof (cases "gc_kind s (Suc c) = AT_TAIL")
      case True
      then have "gc_kind s c \<noteq> AT_FREE"
        using ok by (auto simp: gc_tails_ok_def)
      then obtain b where b: "b \<le> c" "gc_kind s b = AT_HEAD \<or> gc_kind s b = AT_MARK"
          "c < b + gc_chain_len (gc_alloc_table s) b"
        using Suc.IH by blast
      have "Suc c \<noteq> b + gc_chain_len (gc_alloc_table s) b"
        using tail_run_end [of "gc_alloc_table s" "b + 1"] True by (auto simp: gc_chain_len_def gc_kind_def)
      then show ?thesis
        using b by (intro exI [of _ b]) auto
    next
      case False
      then have "gc_kind s (Suc c) = AT_HEAD \<or> gc_kind s (Suc c) = AT_MARK"
        using Suc.prems kind_cases [of "gc_alloc_table s" "Suc c"] by (auto simp: gc_kind_def)
      then show ?thesis
        by (intro exI [of _ "Suc c"]) (auto simp: gc_chain_len_def)
    qed
  qed
  then show thesis
    using that by blast
qed

lemma chain_tail:
  assumes "b < c" and "c < b + gc_chain_len (gc_alloc_table s) b"
  shows "gc_kind s c = AT_TAIL"
  using tail_run_kind [of "b + 1" c "gc_alloc_table s"] assms by (simp add: gc_chain_len_def gc_kind_def)

text \<open>A sweep over all blocks in use decides every block by the mark of the chain it is in.\<close>

lemma sweep_chains:
  assumes ok: "gc_tails_ok s" and last_used: "\<forall>b. gc_kind s b \<noteq> AT_FREE \<longrightarrow> b \<le> gc_last_used_block s"
    and run: "gc_sweep_loop [0..<gc_last_used_block s + 1] (gc_alloc_table s) False 0 = (t, lu)"
  shows "(\<forall>b. gc_kind s b = AT_HEAD \<longrightarrow>
            (\<forall>c. b \<le> c \<and> c < b + gc_chain_len (gc_alloc_table s) b \<longrightarrow> ATB_GET_KIND t c = AT_FREE)) \<and>
         (\<forall>b. gc_kind s b = AT_MARK \<longrightarrow> ATB_GET_KIND t b = AT_HEAD \<and>
            (\<forall>c. b < c \<and> c < b + gc_chain_len (gc_alloc_table s) b \<longrightarrow> ATB_GET_KIND t c = AT_TAIL)) \<and>
         (\<forall>b. gc_kind s b = AT_FREE \<longrightarrow> ATB_GET_KIND t b = AT_FREE) \<and>
         length t = length (gc_alloc_table s) \<and>
         (lu = 0 \<or> lu \<le> gc_last_used_block s) \<and> (\<forall>c. ATB_GET_KIND t c \<noteq> AT_FREE \<longrightarrow> c \<le> lu)"
proof -
  let ?t = "gc_alloc_table s" and ?n = "gc_last_used_block s + 1"
  have "\<forall>c. 0 \<le> c \<and> c < ?n \<and> ATB_GET_KIND ?t c = AT_FREE \<longrightarrow> ATB_GET_KIND ?t (c + 1) \<noteq> AT_TAIL"
    using ok by (simp add: gc_tails_ok_def gc_kind_def)
  note sw = gc_sweep_loop_swept [OF this run]
  have "swept 0 ?n False ?t t" and lu: "lu = 0 \<or> lu \<le> gc_last_used_block s"
    and used: "\<forall>c. c < ?n \<and> ATB_GET_KIND t c \<noteq> AT_FREE \<longrightarrow> c \<le> lu"
    using sw by auto
  note w = this(1) [unfolded swept_def]
  note heads = w [THEN conjunct2, THEN conjunct2, THEN conjunct2, THEN conjunct1, rule_format]
    and marks = w [THEN conjunct2, THEN conjunct2, THEN conjunct2, THEN conjunct2, rule_format]
  have free: "ATB_GET_KIND t b = AT_FREE" if "gc_kind s b = AT_FREE" for b
    using w that by (simp add: gc_kind_def)
  have inside: "c < ?n" if "b \<le> c" "c < b + gc_chain_len ?t b" "gc_kind s b \<noteq> AT_FREE" for b c
  proof -
    have "gc_kind s c \<noteq> AT_FREE"
      using chain_tail [of b c s] that by (cases "c = b") auto
    then show ?thesis
      using last_used by fastforce
  qed
  have 1: "ATB_GET_KIND t c = AT_FREE" if "gc_kind s b = AT_HEAD" "b \<le> c" "c < b + gc_chain_len ?t b" for b c
    using heads [of b c] inside [of b c] inside [of b b] that by (simp add: gc_kind_def)
  have 2: "ATB_GET_KIND t b = AT_HEAD" if "gc_kind s b = AT_MARK" for b
    using marks [of b] inside [of b b] that by (simp add: gc_kind_def gc_chain_len_def)
  have 3: "ATB_GET_KIND t c = AT_TAIL" if "gc_kind s b = AT_MARK" "b < c" "c < b + gc_chain_len ?t b" for b c
    using marks [of b] inside [of b b] inside [of b c] that by (simp add: gc_kind_def gc_chain_len_def)
  have 4: "c \<le> lu" if "ATB_GET_KIND t c \<noteq> AT_FREE" for c
  proof -
    have "gc_kind s c \<noteq> AT_FREE"
      using free that by blast
    then show ?thesis
      using last_used used that by fastforce
  qed
  have 5: "length t = length ?t"
    using w by blast
  show ?thesis
    by (intro conjI allI impI 5 lu; (elim conjE)?) (fact 1 2 3 4 free)+
qed

text \<open>The heap after the sweep is well formed again.\<close>

lemma swept_tails_ok:
  assumes ok: "gc_tails_ok s" and t: "gc_kind s' = ATB_GET_KIND t"
    and heads: "\<forall>b. gc_kind s b = AT_HEAD \<longrightarrow>
            (\<forall>c. b \<le> c \<and> c < b + gc_chain_len (gc_alloc_table s) b \<longrightarrow> ATB_GET_KIND t c = AT_FREE)"
    and marks: "\<forall>b. gc_kind s b = AT_MARK \<longrightarrow> ATB_GET_KIND t b = AT_HEAD \<and>
            (\<forall>c. b < c \<and> c < b + gc_chain_len (gc_alloc_table s) b \<longrightarrow> ATB_GET_KIND t c = AT_TAIL)"
    and free: "\<forall>b. gc_kind s b = AT_FREE \<longrightarrow> ATB_GET_KIND t b = AT_FREE"
  shows "gc_tails_ok s' \<and> (\<forall>b. gc_kind s' b \<noteq> AT_MARK)"
proof -
  have at: "(ATB_GET_KIND t c = AT_HEAD \<and> gc_kind s c = AT_MARK) \<or> ATB_GET_KIND t c = AT_FREE \<or>
      (ATB_GET_KIND t c = AT_TAIL \<and> (\<exists>b < c. gc_kind s b = AT_MARK \<and> c < b + gc_chain_len (gc_alloc_table s) b))" for c
  proof (cases "gc_kind s c = AT_FREE")
    case False
    obtain b where b: "b \<le> c" "gc_kind s b = AT_HEAD \<or> gc_kind s b = AT_MARK" "c < b + gc_chain_len (gc_alloc_table s) b"
      by (rule chain_start [OF ok False])
    show ?thesis
      using b heads marks by (cases "b = c") (auto simp: le_less)
  qed (use free in blast)
  have "ATB_GET_KIND t (c + 1) \<noteq> AT_TAIL" if "ATB_GET_KIND t c = AT_FREE" for c
  proof
    assume "ATB_GET_KIND t (c + 1) = AT_TAIL"
    then obtain b where b: "b < c + 1" "gc_kind s b = AT_MARK" "c + 1 < b + gc_chain_len (gc_alloc_table s) b"
      using at [of "c + 1"] by auto
    then have "ATB_GET_KIND t c = AT_HEAD \<or> ATB_GET_KIND t c = AT_TAIL"
      using marks by (cases "b = c") auto
    then show False
      using that by auto
  qed
  moreover have "ATB_GET_KIND t 0 \<noteq> AT_TAIL"
    using at [of 0] by auto
  moreover have "ATB_GET_KIND t c \<noteq> AT_MARK" for c
    using at [of c] by auto
  ultimately show ?thesis
    by (simp add: gc_tails_ok_def t)
qed

lemma or_flag: "even n \<Longrightarrow> 2 * ((n OR 1) div 2) = (n :: nat)"
  using or_one_eq [of n] by simp

lemma gc_collect_marked:
  assumes s: "\<forall>b. gc_kind s b \<noteq> AT_MARK"
    and run: "s' = gc_deal_with_stack_overflow limit (gc_collect_root limit ptrs (gc_collect_root limit roots s))"
  shows "gc_marks s s' \<and> (\<forall>c. gc_kind s' c = AT_MARK \<longleftrightarrow> c \<in> gc_reach s (roots @ ptrs))"
proof -
  define s2 where "s2 = gc_collect_root limit roots s"
  define s3 where "s3 = gc_collect_root limit ptrs s2"
  have "gc_closed s"
    using s by (simp add: gc_closed_def)
  note r2 = gc_collect_root_ok [OF this, of limit roots, folded s2_def]
  have m2: "gc_marks s s2" and c2: "gc_closed s2"
    and t2: "\<forall>w \<in> set roots. \<forall>b. gc_target s w = Some b \<longrightarrow> gc_kind s2 b = AT_MARK"
    and f2: "gc_from s s2 {b. \<exists>w \<in> set roots. gc_target s w = Some b}"
    using r2 by blast+
  note r3 = gc_collect_root_ok [OF c2, of limit ptrs, folded s3_def]
  have m3: "gc_marks s2 s3" and c3: "gc_closed s3"
    and t3: "\<forall>w \<in> set ptrs. \<forall>b. gc_target s w = Some b \<longrightarrow> gc_kind s3 b = AT_MARK"
    and f3: "gc_from s2 s3 {b. \<exists>w \<in> set ptrs. gc_target s w = Some b}"
    using r3 unfolding gc_target_marks [OF m2] by blast+
  note r4 = gc_deal_ok [OF c3, of limit]
  have s': "s' = gc_deal_with_stack_overflow limit s3"
    by (simp add: run s2_def s3_def)
  have m4: "gc_marks s3 s'" and o4: "\<not> gc_stack_overflow s'" and c4: "gc_closed s'" and f4: "gc_from s3 s' {}"
    using r4 unfolding s' by blast+
  note m23 = gc_marks_trans [OF m2 m3]
  note m = gc_marks_trans [OF m23 m4]
  let ?R = "{b. \<exists>w \<in> set (roots @ ptrs). gc_target s w = Some b}"
  have g2: "gc_from s s2 ?R"
    by (rule gc_from_mono [OF f2]) auto
  have g3: "gc_from s2 s3 ?R"
    by (rule gc_from_mono [OF f3]) auto
  have g4: "gc_from s3 s' ?R"
    by (rule gc_from_mono [OF f4]) auto
  have "gc_from s s' ?R"
    by (rule gc_from_trans [OF m23 m4 gc_from_trans [OF m2 m3 g2 g3] g4])
  moreover have "\<forall>w \<in> set (roots @ ptrs). \<forall>b. gc_target s w = Some b \<longrightarrow> gc_kind s' b = AT_MARK"
    using t2 t3 gc_marks_simps(6) [OF m4] gc_marks_simps(6) [OF m3] by auto
  moreover have "\<forall>b. gc_kind s' b = AT_MARK \<longrightarrow> gc_scanned s' b"
    using c4 o4 by (simp add: gc_closed_def)
  ultimately show ?thesis
    using gc_marked_reach [OF m s] m by blast
qed

lemma gc_collect_eq:
  "gc_collect limit del roots ptrs s =
     (if odd (gc_lock_depth s) then None
      else gc_collect_end limit del (gc_collect_root limit ptrs (gc_collect_root limit roots
        (s\<lparr>gc_lock_depth := gc_lock_depth s OR 1, gc_stack_overflow := False, gc_alloc_amount := 0\<rparr>))))"
  by (simp add: gc_collect_def gc_collect_start_def gc_collect_start_common_def GC_COLLECT_FLAG_def)

lemma gc_collect_ok:
  assumes s: "gc_ok s" and lock: "even (gc_lock_depth s)" and del: "gc_del_ok del"
    and ftb: "gc_last_used_block s < gc_blocks s"
  shows "\<exists>s'. gc_collect limit del roots ptrs s = Some s' \<and> gc_collected s (roots @ ptrs) s' \<and> gc_ok s' \<and>
    gc_lock_depth s' = gc_lock_depth s \<and> gc_last_used_block s' < gc_blocks s' \<and> gc_last_free_atb_index s' = 0 \<and>
    (gc_quiet del \<longrightarrow> gc_pool s' = gc_pool s)"
proof -
  define s1 where "s1 = s\<lparr>gc_lock_depth := gc_lock_depth s OR 1, gc_stack_overflow := False, gc_alloc_amount := 0\<rparr>"
  define s4 where "s4 = gc_deal_with_stack_overflow limit (gc_collect_root limit ptrs (gc_collect_root limit roots s1))"
  have same: "gc_kind s1 = gc_kind s" "gc_reach s1 = gc_reach s"
    by (simp_all add: s1_def gc_kind_def [abs_def] gc_reach_def [abs_def] gc_points_def gc_target_def VERIFY_PTR_def
        gc_blocks_def BLOCK_FROM_PTR_def gc_chain_words_def)
  have ok: "gc_tails_ok s" "\<forall>b. gc_kind s b \<noteq> AT_MARK" "\<forall>b. gc_kind s b \<noteq> AT_FREE \<longrightarrow> b \<le> gc_last_used_block s"
    using s by (simp_all add: gc_ok_def)
  have marked: "gc_marks s1 s4" "gc_kind s4 c = AT_MARK \<longleftrightarrow> c \<in> gc_reach s (roots @ ptrs)" for c
    using gc_collect_marked [of s1 s4 limit ptrs roots] ok(2) same by (simp_all add: s4_def)
  define a where "a = gc_alloc_table s4"
  define o1 where "o1 = gc_stack_overflow s4"
  have s4: "s4 = s1\<lparr>gc_alloc_table := a, gc_stack_overflow := o1\<rparr>" and a: "length a = length (gc_alloc_table s)"
    using marked(1) unfolding gc_marks_def a_def o1_def by (blast, simp add: s1_def)
  have kind4: "gc_kind s4 b = AT_FREE \<longleftrightarrow> gc_kind s b = AT_FREE" "gc_kind s4 b = AT_TAIL \<longleftrightarrow> gc_kind s b = AT_TAIL" for b
    using gc_marks_simps(4,5) [OF marked(1)] same by simp_all
  have head4: "gc_kind s4 b = AT_HEAD \<or> gc_kind s4 b = AT_MARK \<longleftrightarrow> gc_kind s b = AT_HEAD" for b
    using gc_marks_simps(7) [OF marked(1), of b] ok(2) same by simp
  have chain4: "gc_chain_len a b = gc_chain_len (gc_alloc_table s) b" for b
    using tail_run_cong [of a "gc_alloc_table s" "b + 1"] kind4(2) by (simp add: gc_chain_len_def gc_kind_def s4)
  have "\<forall>i \<in> set [0..<gc_last_used_block s4 div BLOCKS_PER_FTB + 1]. i < length (gc_finaliser_table s4)"
  proof
    fix i assume "i \<in> set [0..<gc_last_used_block s4 div BLOCKS_PER_FTB + 1]"
    then have "i \<le> gc_last_used_block s div 8"
      by (auto simp: s4 s1_def BLOCKS_PER_FTB_def)
    moreover have "gc_last_used_block s div 8 < (gc_blocks s + 7) div 8"
      using ftb by simp
    ultimately show "i < length (gc_finaliser_table s4)"
      using s by (simp add: s4 s1_def gc_ok_def gc_finaliser_byte_len_def BLOCKS_PER_FTB_def gc_blocks_def)
  qed
  from gc_finalise_bytes_ok [OF del this]
  obtain s5 where s5: "gc_finalise_bytes del [0..<gc_last_used_block s4 div BLOCKS_PER_FTB + 1] s4 = Some s5" "gc_finalised s4 s5"
    by blast
  have eq5: "s5 = s4\<lparr>gc_pool := gc_pool s5, gc_finaliser_table := gc_finaliser_table s5\<rparr>"
    using s5(2) by (simp add: gc_finalised_def)
  obtain t lu where run: "gc_sweep_loop [0..<gc_last_used_block s4 + 1] (gc_alloc_table s4) False 0 = (t, lu)"
    by fastforce
  have tails4: "gc_tails_ok s4"
    using ok(1) kind4 by (simp add: gc_tails_ok_def)
  have "\<forall>b. gc_kind s4 b \<noteq> AT_FREE \<longrightarrow> b \<le> gc_last_used_block s4"
    using ok(3) kind4 by (simp add: s4 s1_def)
  note sw = sweep_chains [OF tails4 this run]
  have heads: "\<forall>b. gc_kind s4 b = AT_HEAD \<longrightarrow>
            (\<forall>c. b \<le> c \<and> c < b + gc_chain_len (gc_alloc_table s4) b \<longrightarrow> ATB_GET_KIND t c = AT_FREE)"
    and marks: "\<forall>b. gc_kind s4 b = AT_MARK \<longrightarrow> ATB_GET_KIND t b = AT_HEAD \<and>
            (\<forall>c. b < c \<and> c < b + gc_chain_len (gc_alloc_table s4) b \<longrightarrow> ATB_GET_KIND t c = AT_TAIL)"
    and free: "\<forall>b. gc_kind s4 b = AT_FREE \<longrightarrow> ATB_GET_KIND t b = AT_FREE"
    and len_t: "length t = length a" and lu: "lu = 0 \<or> lu \<le> gc_last_used_block s"
    and used: "\<forall>c. ATB_GET_KIND t c \<noteq> AT_FREE \<longrightarrow> c \<le> lu"
    using sw by (simp_all add: s4 s1_def)
  define s' where "s' = s5\<lparr>gc_alloc_table := t, gc_last_used_block := lu, gc_last_free_atb_index := 0,
      gc_lock_depth := gc_lock_depth s\<rparr>"
  have kind': "gc_kind s' = ATB_GET_KIND t"
    by (simp add: s'_def gc_kind_def [abs_def])
  have blocks: "gc_blocks s' = gc_blocks s" "lu < gc_blocks s"
    using len_t a lu ftb by (auto simp: s'_def gc_blocks_def BLOCKS_PER_ATB_def)
  have lock5: "2 * (gc_lock_depth s4 div 2) = gc_lock_depth s"
    using or_flag [OF lock] by (simp add: s4 s1_def)
  have last5: "gc_last_used_block s5 = gc_last_used_block s4" "gc_alloc_table s5 = gc_alloc_table s4" "gc_blocks s5 = gc_blocks s4"
      "gc_lock_depth s5 = gc_lock_depth s4"
    by (subst eq5, simp add: gc_blocks_def)+
  have in4: "\<not> gc_blocks s4 < gc_last_used_block s4"
    using ftb a by (simp add: s4 s1_def gc_blocks_def)
  have "gc_collect limit del roots ptrs s = gc_collect_end limit del (gc_collect_root limit ptrs (gc_collect_root limit roots s1))"
    using lock by (simp add: gc_collect_eq s1_def)
  also have "\<dots> = Some s'"
    unfolding gc_collect_end_def s4_def [symmetric]
    using s5(1) run in4 lock5
    by (simp add: gc_sweep_run_finalisers_def gc_sweep_free_blocks_def last5 s'_def del: upt_Suc)
  finally have "gc_collect limit del roots ptrs s = Some s'" .
  moreover have "gc_collected s (roots @ ptrs) s'"
    unfolding gc_collected_def
  proof (intro conjI allI impI)
    fix b c assume b: "gc_kind s b = AT_HEAD" and c: "b \<le> c \<and> c < b + gc_chain_len (gc_alloc_table s) b"
    show "gc_kind s' c = (if b \<in> gc_reach s (roots @ ptrs) then gc_kind s c else AT_FREE)"
    proof (cases "b \<in> gc_reach s (roots @ ptrs)")
      case True
      then show ?thesis
        using marked(2) [of b] marks b c chain_tail [of b c s] by (cases "c = b") (auto simp: kind' chain4 a_def [symmetric])
    next
      case False
      then have "gc_kind s4 b = AT_HEAD"
        using marked(2) [of b] head4 [of b] b by blast
      then show ?thesis
        using heads c False by (simp add: kind' chain4 a_def [symmetric])
    qed
  next
    fix b assume "gc_kind s b = AT_FREE"
    then show "gc_kind s' b = AT_FREE"
      using free kind4 by (simp add: kind')
  next
    show "length (gc_alloc_table s') = length (gc_alloc_table s)"
      using len_t a by (simp add: s'_def)
    have "gc_pool_start s5 = gc_pool_start s"
      by (subst eq5) (simp add: s4 s1_def)
    then show "gc_pool_start s' = gc_pool_start s"
      by (simp add: s'_def)
  qed
  moreover have "gc_ok s'"
  proof -
    have "gc_tails_ok s' \<and> (\<forall>b. gc_kind s' b \<noteq> AT_MARK)"
      by (rule swept_tails_ok [OF tails4 kind' heads marks free])
    moreover have "length (gc_pool s') = gc_blocks s' * WORDS_PER_BLOCK"
      unfolding blocks using s s5(2) by (simp add: s'_def gc_finalised_def gc_ok_def s4 s1_def)
    moreover have "length (gc_finaliser_table s') = gc_finaliser_byte_len (length (gc_alloc_table s'))"
      using s s5(2) len_t a by (simp add: s'_def gc_finalised_def gc_ok_def s4 s1_def)
    moreover have "gc_pool_start s' = gc_pool_start s"
      by (simp add: s'_def, subst eq5) (simp add: s4 s1_def)
    ultimately show ?thesis
      using s blocks used kind' by (simp add: gc_ok_def s'_def)
  qed
  moreover have "gc_quiet del \<longrightarrow> gc_pool s' = gc_pool s"
    using gc_finalise_bytes_quiet [OF _ s5(1)] by (simp add: s'_def s4 s1_def)
  moreover have "gc_lock_depth s' = gc_lock_depth s \<and> gc_last_used_block s' < gc_blocks s' \<and> gc_last_free_atb_index s' = 0"
    unfolding blocks(1) using blocks(2) by (simp add: s'_def)
  ultimately show ?thesis by blast
qed
end
