(* ===== verification/Gc_Alloc.thy ===== *)
theory Gc_Alloc
  imports Gc_Collect
begin

text \<open>
  Allocation, freeing and resizing of theory Gc on a well-formed heap: the search finds the first
  run of free blocks that is long enough, an operation changes the blocks and the words of its own
  chain only, and the heap stays well formed.
\<close>

section \<open>The search for free blocks\<close>

text \<open>The search by blocks, without the bytes of the table.\<close>

fun free_run :: "u8 list \<Rightarrow> nat list \<Rightarrow> nat \<Rightarrow> nat \<Rightarrow> (nat \<times> nat) option" where
  "free_run t [] n_free n_blocks = None"
| "free_run t (b # bs) n_free n_blocks =
     (if ATB_GET_KIND t b = AT_FREE
      then if n_blocks \<le> n_free + 1 then Some (b, n_free + 1) else free_run t bs (n_free + 1) n_blocks
      else free_run t bs 0 n_blocks)"

lemma lane_free:
  fixes a :: u8
  assumes "lane < 4"
  shows "drop_bit (2 * lane) a AND 3 = 0 \<longleftrightarrow> a AND ATB_MASKS ! lane = 0"
proof -
  have 3: "(3 :: u8) = mask 2"
    by (simp add: mask_eq_exp_minus_1)
  have "ATB_MASKS ! lane = push_bit (2 * lane) 3"
    using assms by (auto simp: ATB_MASKS_def less_Suc_eq numeral_eq_Suc nth_Cons')
  then have "a AND ATB_MASKS ! lane = push_bit (2 * lane) (drop_bit (2 * lane) a AND 3)"
    by (auto intro!: bit_eqI simp: bit_push_bit_iff bit_and_iff bit_drop_bit_eq)
  moreover have "push_bit (2 * lane) y = 0 \<longleftrightarrow> y = 0" if small: "\<forall>n. bit y n \<longrightarrow> 2 * lane + n < 8" for y :: u8
  proof
    assume z: "push_bit (2 * lane) y = 0"
    show "y = 0"
    proof (rule bit_eqI)
      fix n
      have "\<not> bit (push_bit (2 * lane) y) (2 * lane + n)"
        using z by simp
      then show "bit y n = bit (0 :: u8) n"
        using small by (auto simp: bit_push_bit_iff)
    qed
  qed simp
  moreover have "2 * lane + n < 8" if "bit (drop_bit (2 * lane) a AND 3) n" for n
  proof -
    have "bit (3 :: u8) n"
      using that by (simp add: bit_and_iff)
    then have "n < 2"
      by (rule low_bits(3))
    then show ?thesis
      using assms by linarith
  qed
  ultimately show ?thesis
    by metis
qed

lemma gc_scan_lanes_blocks:
  assumes i: "i < length t" and l: "l + length ms = 4" and ms: "ms = drop l ATB_MASKS"
  shows "free_run t ([4 * i + l..<4 * i + 4] @ bs) nf nb =
    (case gc_scan_lanes (t ! i) ms l nf nb of Inl (lane, n) \<Rightarrow> Some (i * 4 + lane, n) | Inr n \<Rightarrow> free_run t bs n nb)"
  using l ms
proof (induction ms arbitrary: l nf)
  case Nil
  then show ?case by simp
next
  case (Cons m ms)
  have l: "l < 4"
    using Cons.prems(1) by simp
  have list: "[4 * i + l..<4 * i + 4] = (4 * i + l) # [4 * i + (l + 1)..<4 * i + 4]"
    using l by (simp add: upt_conv_Cons)
  have m: "m = ATB_MASKS ! l" and ms: "ms = drop (l + 1) ATB_MASKS"
    using Cons.prems by (simp_all add: ATB_MASKS_def) (metis nth_via_drop, metis drop_Suc list.sel(3) tl_drop)
  have "ATB_GET_KIND t (4 * i + l) = drop_bit (2 * l) (t ! i) AND 3"
    using l i by (simp add: ATB_GET_KIND_def BLOCK_SHIFT_def BLOCKS_PER_ATB_def atb_byte_def)
  then have "ATB_GET_KIND t (4 * i + l) = AT_FREE \<longleftrightarrow> t ! i AND m = 0"
    using lane_free [OF l, of "t ! i"] m by simp
  moreover have "l + 1 + length ms = 4"
    using Cons.prems(1) by simp
  note Cons.IH [OF this ms]
  ultimately show ?case
    unfolding list by simp
qed

lemma gc_find_free_blocks:
  "i \<le> length t \<Longrightarrow> gc_find_free (drop i t) i nf nb = free_run t [4 * i..<4 * length t] nf nb"
proof (induction "length t - i" arbitrary: i nf)
  case (Suc d)
  then have i: "i < length t" by simp
  have "[4 * i..<4 * length t] = [4 * i + 0..<4 * i + 4] @ [4 * (i + 1)..<4 * length t]"
    using i upt_add_eq_append [of "4 * i" "4 * i + 4" "4 * length t - (4 * i + 4)"] by (simp add: add.commute)
  moreover have "gc_find_free (drop (i + 1) t) (i + 1) n nb = free_run t [4 * (i + 1)..<4 * length t] n nb" for n
    using Suc by (intro Suc.hyps(1)) auto
  ultimately show ?case
    using gc_scan_lanes_blocks [OF i, of 0 ATB_MASKS "[4 * (i + 1)..<4 * length t]" nf nb] i
    by (simp add: Cons_nth_drop_Suc [symmetric] ATB_MASKS_def BLOCKS_PER_ATB_def split: sum.splits prod.splits)
qed simp

text \<open>First fit: the search finds the first run of free blocks that is long enough.\<close>

lemma free_run_Some:
  assumes "free_run t [k..<n] nf nb = Some (e, m)" and "nf \<le> k" and "nf < nb" and "\<forall>c. k - nf \<le> c \<and> c < k \<longrightarrow> ATB_GET_KIND t c = AT_FREE"
  shows "m = nb \<and> nb \<le> e + 1 \<and> k - nf \<le> e + 1 - nb \<and> e < n \<and> (\<forall>c. e + 1 - nb \<le> c \<and> c \<le> e \<longrightarrow> ATB_GET_KIND t c = AT_FREE) \<and>
    (\<forall>b. k - nf \<le> b \<and> b + nb \<le> e \<longrightarrow> (\<exists>c. b \<le> c \<and> c < b + nb \<and> ATB_GET_KIND t c \<noteq> AT_FREE))"
  using assms
proof (induction "n - k" arbitrary: k nf)
  case (Suc d)
  then have k: "k < n" "d = n - (k + 1)" by auto
  have list: "[k..<n] = k # [k + 1..<n]"
    using k by (simp add: upt_conv_Cons)
  show ?case
  proof (cases "ATB_GET_KIND t k = AT_FREE")
    case free: True
    then have all: "\<forall>c. k + 1 - (nf + 1) \<le> c \<and> c < k + 1 \<longrightarrow> ATB_GET_KIND t c = AT_FREE"
      using Suc.prems(4) by (auto simp: less_Suc_eq)
    show ?thesis
    proof (cases "nb \<le> nf + 1")
      case True
      then have "e = k" "m = nf + 1" "nb = nf + 1"
        using Suc.prems free by (auto simp: list)
      then show ?thesis
        using all Suc.prems(2) k by auto
    next
      case False
      then have run: "free_run t [k + 1..<n] (nf + 1) nb = Some (e, m)"
        using Suc.prems(1) free by (simp add: list)
      show ?thesis
        using Suc.hyps(1) [OF k(2) run _ _ all] False Suc.prems(2) by simp
    qed
  next
    case False
    then have run: "free_run t [k + 1..<n] 0 nb = Some (e, m)"
      using Suc.prems(1) by (simp add: list)
    have IH: "m = nb \<and> nb \<le> e + 1 \<and> k + 1 - 0 \<le> e + 1 - nb \<and> e < n \<and>
      (\<forall>c. e + 1 - nb \<le> c \<and> c \<le> e \<longrightarrow> ATB_GET_KIND t c = AT_FREE) \<and>
      (\<forall>b. k + 1 - 0 \<le> b \<and> b + nb \<le> e \<longrightarrow> (\<exists>c. b \<le> c \<and> c < b + nb \<and> ATB_GET_KIND t c \<noteq> AT_FREE))"
      by (rule Suc.hyps(1) [OF k(2) run]) (use Suc.prems(3) in auto)
    have "\<exists>c. b \<le> c \<and> c < b + nb \<and> ATB_GET_KIND t c \<noteq> AT_FREE" if "k - nf \<le> b" "b + nb \<le> e" for b
    proof (cases "b \<le> k")
      case True
      then show ?thesis
        using False that Suc.prems(2,3) by (intro exI [of _ k]) auto
    qed (use IH that in auto)
    then show ?thesis
      using IH by auto
  qed
qed simp

lemma free_run_None:
  assumes "free_run t [k..<n] nf nb = None" and "nf \<le> k" and "nf < nb" and "k - nf \<le> b" and "b + nb \<le> n"
  shows "\<exists>c. b \<le> c \<and> c < b + nb \<and> ATB_GET_KIND t c \<noteq> AT_FREE"
  using assms
proof (induction "n - k" arbitrary: k nf)
  case (Suc d)
  then have k: "k < n" "d = n - (k + 1)" by auto
  have list: "[k..<n] = k # [k + 1..<n]"
    using k by (simp add: upt_conv_Cons)
  show ?case
  proof (cases "ATB_GET_KIND t k = AT_FREE")
    case True
    then have "free_run t [k + 1..<n] (nf + 1) nb = None" "nf + 1 < nb"
      using Suc.prems(1) by (simp_all add: list split: if_splits)
    then show ?thesis
      using Suc.hyps(1) [OF k(2), of "nf + 1"] Suc.prems by simp
  next
    case False
    then have "free_run t [k + 1..<n] 0 nb = None"
      using Suc.prems(1) by (simp add: list)
    then show ?thesis
      using Suc.hyps(1) [OF k(2), of 0] Suc.prems False by (cases "b \<le> k") auto
  qed
qed auto

section \<open>Taking a run\<close>

lemma gc_ok_frame:
  assumes "gc_ok s" and "length (gc_alloc_table s') = length (gc_alloc_table s)" and "length (gc_pool s') = length (gc_pool s)"
    and "length (gc_finaliser_table s') = length (gc_finaliser_table s)" and "gc_pool_start s' = gc_pool_start s"
    and "gc_tails_ok s'" and "\<forall>c. gc_kind s' c \<noteq> AT_MARK"
    and "gc_last_used_block s' \<le> gc_blocks s'" and "\<forall>c. gc_kind s' c \<noteq> AT_FREE \<longrightarrow> c \<le> gc_last_used_block s'"
    and "gc_last_free_atb_index s' \<le> length (gc_alloc_table s')"
    and "\<forall>c < gc_last_free_atb_index s' * BLOCKS_PER_ATB. gc_kind s' c \<noteq> AT_FREE"
  shows "gc_ok s'"
proof -
  have "gc_blocks s' = gc_blocks s"
    using assms(2) by (simp add: gc_blocks_def)
  then show ?thesis
    using assms unfolding gc_ok_def by presburger
qed

lemma fold_tails_kind:
  assumes "b \<le> 4 * length t" and "\<forall>c. a \<le> c \<and> c < b \<longrightarrow> ATB_GET_KIND t c = AT_FREE"
  shows "ATB_GET_KIND (fold ATB_FREE_TO_TAIL [a..<b] t) c = (if a \<le> c \<and> c < b then AT_TAIL else ATB_GET_KIND t c) \<and>
    length (fold ATB_FREE_TO_TAIL [a..<b] t) = length t"
  using assms
proof (induction "b - a" arbitrary: a t)
  case (Suc d)
  then have a: "a < b" "d = b - (a + 1)" by auto
  have kind: "ATB_GET_KIND (ATB_FREE_TO_TAIL a t) c = (if c = a then AT_TAIL else ATB_GET_KIND t c)" for c
    using Suc.prems a by (intro kind_free_to_tail) auto
  have "ATB_GET_KIND (fold ATB_FREE_TO_TAIL [a + 1..<b] (ATB_FREE_TO_TAIL a t)) c =
      (if a + 1 \<le> c \<and> c < b then AT_TAIL else ATB_GET_KIND (ATB_FREE_TO_TAIL a t) c) \<and>
    length (fold ATB_FREE_TO_TAIL [a + 1..<b] (ATB_FREE_TO_TAIL a t)) = length (ATB_FREE_TO_TAIL a t)"
    by (rule Suc.hyps(1) [OF a(2)]) (use Suc.prems kind in auto)
  then show ?case
    using a(1) by (auto simp: kind upt_conv_Cons)
qed auto

lemma fold_free_kind:
  assumes "b \<le> 4 * length t"
  shows "ATB_GET_KIND (fold ATB_ANY_TO_FREE [a..<b] t) c = (if a \<le> c \<and> c < b then AT_FREE else ATB_GET_KIND t c) \<and>
    length (fold ATB_ANY_TO_FREE [a..<b] t) = length t"
  using assms
proof (induction "b - a" arbitrary: a t)
  case (Suc d)
  then have a: "a < b" "d = b - (a + 1)" by auto
  have kind: "ATB_GET_KIND (ATB_ANY_TO_FREE a t) c = (if c = a then AT_FREE else ATB_GET_KIND t c)" for c
    using Suc.prems a by (intro kind_any_to_free) auto
  have "ATB_GET_KIND (fold ATB_ANY_TO_FREE [a + 1..<b] (ATB_ANY_TO_FREE a t)) c =
      (if a + 1 \<le> c \<and> c < b then AT_FREE else ATB_GET_KIND (ATB_ANY_TO_FREE a t) c) \<and>
    length (fold ATB_ANY_TO_FREE [a + 1..<b] (ATB_ANY_TO_FREE a t)) = length (ATB_ANY_TO_FREE a t)"
    by (rule Suc.hyps(1) [OF a(2)]) (use Suc.prems in auto)
  then show ?case
    using a(1) by (auto simp: kind upt_conv_Cons)
qed auto

text \<open>The length of a chain from the kinds of its blocks.\<close>

lemma tail_run_eq:
  assumes "\<forall>c. b \<le> c \<and> c < b + n \<longrightarrow> ATB_GET_KIND t c = AT_TAIL" and "ATB_GET_KIND t (b + n) \<noteq> AT_TAIL"
  shows "tail_run t b = n"
  using assms
proof (induction n arbitrary: b)
  case 0
  then show ?case by (subst tail_run_step) simp
next
  case (Suc n)
  then show ?case by (subst tail_run_step) (auto intro!: Suc.IH)
qed

lemma chain_len_eq:
  assumes "\<forall>c. b < c \<and> c < b + n \<longrightarrow> ATB_GET_KIND t c = AT_TAIL" and "ATB_GET_KIND t (b + n) \<noteq> AT_TAIL" and "0 < n"
  shows "gc_chain_len t b = n"
  using tail_run_eq [of "b + 1" "n - 1" t] assms by (simp add: gc_chain_len_def)

lemma chain_in_blocks:
  assumes "gc_kind s b \<noteq> AT_FREE"
  shows "b + gc_chain_len (gc_alloc_table s) b \<le> gc_blocks s"
proof (rule ccontr)
  let ?n = "gc_chain_len (gc_alloc_table s) b"
  assume "\<not> ?thesis"
  then have "4 * length (gc_alloc_table s) \<le> b + ?n - 1"
    by (simp add: gc_blocks_def BLOCKS_PER_ATB_def)
  then have "gc_kind s (b + ?n - 1) = AT_FREE"
    by (simp add: gc_kind_def kind_beyond)
  moreover have "gc_kind s (b + ?n - 1) = AT_TAIL" if "1 < ?n"
    using chain_tail [of b "b + ?n - 1" s] that by simp
  ultimately show False
    using assms by (cases "1 < ?n") (auto simp: gc_chain_len_def)
qed

text \<open>What an operation that hands out the \<open>n\<close> blocks from \<open>b\<close> does.\<close>

definition gc_allocated :: "gc_state \<Rightarrow> nat \<Rightarrow> nat \<Rightarrow> gc_state \<Rightarrow> bool" where
  "gc_allocated s b n s' \<longleftrightarrow>
     0 < n \<and> b + n \<le> gc_blocks s \<and> (\<forall>c. b \<le> c \<and> c < b + n \<longrightarrow> gc_kind s c = AT_FREE) \<and>
     (\<forall>c. gc_kind s' c = (if c = b then AT_HEAD else if b < c \<and> c < b + n then AT_TAIL else gc_kind s c)) \<and>
     (\<forall>i < length (gc_pool s). gc_pool s' ! i = (if b * WORDS_PER_BLOCK \<le> i \<and> i < (b + n) * WORDS_PER_BLOCK then 0 else gc_pool s ! i)) \<and>
     length (gc_pool s') = length (gc_pool s) \<and> length (gc_alloc_table s') = length (gc_alloc_table s) \<and>
     gc_pool_start s' = gc_pool_start s \<and> gc_lock_depth s' = gc_lock_depth s"

lemma gc_clear_words_nth:
  assumes "(b + n) * WORDS_PER_BLOCK \<le> length (gc_pool s)"
  shows "length (gc_pool (gc_clear_words b n s)) = length (gc_pool s) \<and>
    (\<forall>i < length (gc_pool s). gc_pool (gc_clear_words b n s) ! i =
       (if b * WORDS_PER_BLOCK \<le> i \<and> i < (b + n) * WORDS_PER_BLOCK then 0 else gc_pool s ! i))"
  using assms by (auto simp: gc_clear_words_def nth_append add_mult_distrib)

lemma gc_allocated_tails_ok:
  assumes ok: "gc_tails_ok s" and a: "gc_allocated s b n s'"
  shows "gc_tails_ok s'"
  using assms unfolding gc_tails_ok_def gc_allocated_def by (auto split: if_splits)


lemma gc_find_run_blocks:
  assumes "gc_last_free_atb_index s \<le> length (gc_alloc_table s)"
  shows "gc_find_run s n = free_run (gc_alloc_table s) [4 * gc_last_free_atb_index s..<gc_blocks s] 0 n"
  using gc_find_free_blocks [OF assms, of 0 n] by (simp add: gc_find_run_def gc_blocks_def BLOCKS_PER_ATB_def mult.commute)

lemma gc_find_run_None:
  assumes ok: "gc_ok s" and run: "gc_find_run s n = None" and n: "0 < n" and b: "b + n \<le> gc_blocks s"
  shows "\<exists>c. b \<le> c \<and> c < b + n \<and> gc_kind s c \<noteq> AT_FREE"
proof (cases "b < 4 * gc_last_free_atb_index s")
  case True
  then have "gc_kind s b \<noteq> AT_FREE"
    using ok by (simp add: gc_ok_def BLOCKS_PER_ATB_def mult.commute)
  then show ?thesis
    using n by (intro exI [of _ b]) auto
next
  case False
  then show ?thesis
    using free_run_None [of "gc_alloc_table s" _ "gc_blocks s" 0 n b] run n b ok
    by (auto simp: gc_find_run_blocks gc_ok_def gc_kind_def)
qed

lemma gc_find_run_Some:
  assumes ok: "gc_ok s" and run: "gc_find_run s n = Some (e, m)" and n: "0 < n"
  shows "m = n \<and> n \<le> e + 1 \<and> e < gc_blocks s \<and> (\<forall>c. e + 1 - n \<le> c \<and> c \<le> e \<longrightarrow> gc_kind s c = AT_FREE) \<and>
    (n = 1 \<longrightarrow> (\<forall>c < e. gc_kind s c \<noteq> AT_FREE))"
proof -
  let ?k = "4 * gc_last_free_atb_index s"
  have "gc_last_free_atb_index s \<le> length (gc_alloc_table s)" and before: "\<forall>c < ?k. gc_kind s c \<noteq> AT_FREE"
    using ok by (simp_all add: gc_ok_def BLOCKS_PER_ATB_def mult.commute)
  then have "free_run (gc_alloc_table s) [?k..<gc_blocks s] 0 n = Some (e, m)"
    using run by (simp add: gc_find_run_blocks)
  note f = free_run_Some [OF this le0 n]
  have f: "m = n \<and> n \<le> e + 1 \<and> ?k - 0 \<le> e + 1 - n \<and> e < gc_blocks s \<and>
      (\<forall>c. e + 1 - n \<le> c \<and> c \<le> e \<longrightarrow> ATB_GET_KIND (gc_alloc_table s) c = AT_FREE) \<and>
      (\<forall>b. ?k - 0 \<le> b \<and> b + n \<le> e \<longrightarrow> (\<exists>c. b \<le> c \<and> c < b + n \<and> ATB_GET_KIND (gc_alloc_table s) c \<noteq> AT_FREE))"
    by (rule f) auto
  have "gc_kind s c \<noteq> AT_FREE" if "n = 1" "c < e" for c
  proof (cases "c < ?k")
    case False
    then have "?k - 0 \<le> c \<and> c + n \<le> e"
      using that by auto
    then obtain c' where "c \<le> c' \<and> c' < c + n \<and> ATB_GET_KIND (gc_alloc_table s) c' \<noteq> AT_FREE"
      using f by blast
    then show ?thesis
      using that by (cases "c' = c") (auto simp: gc_kind_def)
  qed (use before in blast)
  then show ?thesis
    using f by (simp add: gc_kind_def)
qed

lemma gc_take_run_ok:
  assumes ok: "gc_ok s" and run: "gc_find_run s n = Some (e, m)" and n: "0 < n" and take: "gc_take_run e m fin s = (p, s')"
  shows "p = PTR_FROM_BLOCK s (e + 1 - n) \<and> gc_allocated s (e + 1 - n) n s' \<and> gc_ok s' \<and>
    (gc_last_used_block s < gc_blocks s \<longrightarrow> gc_last_used_block s' < gc_blocks s')"
proof -
  note f = gc_find_run_Some [OF ok run n]
  define b where "b = e + 1 - n"
  have b: "b + n = e + 1" "e + 1 - m = b" "m = n" "b \<le> e"
    using f n by (auto simp: b_def)
  have free: "\<forall>c. b \<le> c \<and> c < b + n \<longrightarrow> ATB_GET_KIND (gc_alloc_table s) c = AT_FREE"
    using f b by (auto simp: b_def gc_kind_def)
  have inside: "b + n \<le> gc_blocks s" "b < 4 * length (gc_alloc_table s)" "b + n \<le> 4 * length (gc_alloc_table s)"
    using f b by (auto simp: gc_blocks_def BLOCKS_PER_ATB_def)
  define t1 where "t1 = ATB_FREE_TO_HEAD b (gc_alloc_table s)"
  define t where "t = fold ATB_FREE_TO_TAIL [b + 1..<e + 1] t1"
  have k1: "ATB_GET_KIND t1 c = (if c = b then AT_HEAD else gc_kind s c)" and l1: "length t1 = length (gc_alloc_table s)" for c
    using kind_free_to_head [of b "gc_alloc_table s" c] inside free n by (auto simp: t1_def gc_kind_def)
  have kt: "ATB_GET_KIND t c = (if b + 1 \<le> c \<and> c < e + 1 then AT_TAIL else ATB_GET_KIND t1 c) \<and> length t = length t1" for c
    unfolding t_def by (rule fold_tails_kind) (use inside free b l1 k1 in \<open>auto simp: gc_kind_def\<close>)
  define ix where "ix = (if n = 1 then (e + 1) div BLOCKS_PER_ATB else gc_last_free_atb_index s)"
  define f' where "f' = (if fin then FTB_SET b (gc_finaliser_table s) else gc_finaliser_table s)"
  let ?s' = "s\<lparr>gc_alloc_table := t, gc_pool := gc_pool (gc_clear_words b n s), gc_finaliser_table := f',
      gc_last_free_atb_index := ix, gc_last_used_block := max (gc_last_used_block s) e, gc_alloc_amount := (gc_alloc_amount s + n) mod 2 ^ 32\<rparr>"
  have "gc_take_run e n fin s = (PTR_FROM_BLOCK s b, ?s')"
    by (cases fin; cases "n = 1")
      (simp_all add: gc_take_run_def Let_def t_def t1_def ix_def f'_def b_def gc_update_atb_def gc_clear_words_def PTR_FROM_BLOCK_def)
  then have s': "s' = ?s'" and p: "p = PTR_FROM_BLOCK s b"
    using take b(3) by (simp_all only: prod.inject)
  have kind': "gc_kind s' c = (if c = b then AT_HEAD else if b < c \<and> c < b + n then AT_TAIL else gc_kind s c)" for c
    using kt [of c] k1 [of c] b by (auto simp: s' gc_kind_def)
  have len: "length t = length (gc_alloc_table s)" "length f' = length (gc_finaliser_table s)"
    using kt l1 by (simp_all add: f'_def FTB_SET_def)
  have pool: "length (gc_pool s) = gc_blocks s * WORDS_PER_BLOCK"
    using ok by (simp add: gc_ok_def)
  have room: "(b + n) * WORDS_PER_BLOCK \<le> length (gc_pool s)"
    unfolding pool using inside(1) by (intro mult_le_mono1)
  note cleared = gc_clear_words_nth [OF room]
  have alloc: "gc_allocated s b n s'"
    unfolding gc_allocated_def using n inside free cleared len kind' by (simp add: gc_kind_def s')
  have same: "gc_blocks s' = gc_blocks s"
    using len by (simp add: s' gc_blocks_def)
  have used: "\<forall>c < ix * BLOCKS_PER_ATB. gc_kind s' c \<noteq> AT_FREE"
  proof (intro allI impI)
    fix c assume c: "c < ix * BLOCKS_PER_ATB"
    show "gc_kind s' c \<noteq> AT_FREE"
    proof (cases "n = 1")
      case True
      then have "c \<le> e"
        using c by (auto simp: ix_def BLOCKS_PER_ATB_def)
      then show ?thesis
        using f True b by (cases "c = e") (auto simp: kind')
    next
      case False
      then have "gc_kind s c \<noteq> AT_FREE"
        using ok c by (simp add: gc_ok_def ix_def)
      then show ?thesis
        by (simp add: kind')
    qed
  qed
  have "ix \<le> length t"
    using ok f len by (auto simp: ix_def gc_ok_def gc_blocks_def BLOCKS_PER_ATB_def)
  moreover have "gc_tails_ok s'"
    using gc_allocated_tails_ok [OF _ alloc] ok by (simp add: gc_ok_def)
  moreover have "\<forall>c. gc_kind s' c \<noteq> AT_FREE \<longrightarrow> c \<le> gc_last_used_block s'"
  proof (intro allI impI)
    fix c assume "gc_kind s' c \<noteq> AT_FREE"
    then have "gc_kind s c \<noteq> AT_FREE \<or> c \<le> e"
      using b(1,4) by (auto simp: kind' split: if_splits)
    then show "c \<le> gc_last_used_block s'"
      using ok by (auto simp: gc_ok_def s' le_max_iff_disj)
  qed
  moreover have "gc_last_used_block s' \<le> gc_blocks s'"
    using ok f by (auto simp: same) (auto simp: s' gc_ok_def)
  moreover have "\<forall>c. gc_kind s' c \<noteq> AT_MARK"
    using ok by (simp add: kind' gc_ok_def)
  ultimately have "gc_ok s'"
    by (intro gc_ok_frame [OF ok]) (use used cleared len in \<open>simp_all add: s'\<close>)
  then show ?thesis
    using alloc p f unfolding same by (simp add: b_def s')
qed

text \<open>
  An allocation searches the heap as it is, or as the collection leaves it: with automatic collection
  enabled it collects when the amount allocated since the last collection has reached the
  threshold, or when the heap has no run of free blocks that is long enough.
\<close>

definition gc_has_run :: "gc_state \<Rightarrow> nat \<Rightarrow> bool" where
  "gc_has_run s n \<longleftrightarrow> (\<exists>b. b + n \<le> gc_blocks s \<and> (\<forall>c. b \<le> c \<and> c < b + n \<longrightarrow> gc_kind s c = AT_FREE))"

lemma gc_find_run_iff:
  assumes "gc_ok s" and "0 < n"
  shows "gc_find_run s n = None \<longleftrightarrow> \<not> gc_has_run s n"
proof
  assume none: "gc_find_run s n = None"
  show "\<not> gc_has_run s n"
    using gc_find_run_None [OF assms(1) none assms(2)] unfolding gc_has_run_def by blast
next
  assume no: "\<not> gc_has_run s n"
  show "gc_find_run s n = None"
  proof (rule ccontr)
    assume "gc_find_run s n \<noteq> None"
    then obtain e m where "gc_find_run s n = Some (e, m)"
      by fastforce
    note f = gc_find_run_Some [OF assms(1) this assms(2)]
    then have "gc_has_run s n"
      unfolding gc_has_run_def by (intro exI [of _ "e + 1 - n"]) auto
    with no show False ..
  qed
qed

definition gc_alloc_heap :: "gc_state \<Rightarrow> gc_state \<Rightarrow> nat \<Rightarrow> gc_state" where
  "gc_alloc_heap s r n =
     (if gc_auto_collect_enabled s \<and> (gc_alloc_threshold s \<le> gc_alloc_amount s \<or> \<not> gc_has_run s n) then r else s)"

lemma gc_alloc_eq:
  assumes "gc_ok s" and "gc_lock_depth s = 0" and "0 < gc_n_blocks n_bytes" and "collect s = Some r"
  defines "h \<equiv> gc_alloc_heap s r (gc_n_blocks n_bytes)"
  shows "gc_alloc collect n_bytes fin s =
    (case gc_find_run h (gc_n_blocks n_bytes) of
       Some (i, n_free) \<Rightarrow> (let (p, s) = gc_take_run i n_free fin h in Some (Some p, s))
     | None \<Rightarrow> Some (None, h))"
proof (cases "gc_auto_collect_enabled s \<and> gc_alloc_threshold s \<le> gc_alloc_amount s")
  case True
  then have "h = r"
    by (simp add: h_def gc_alloc_heap_def)
  then show ?thesis
    using True assms(2-4) by (simp add: gc_alloc_def Let_def split: option.split)
next
  case False
  show ?thesis
  proof (cases "gc_find_run s (gc_n_blocks n_bytes)")
    case None
    then have "h = (if gc_auto_collect_enabled s then r else s)"
      using False gc_find_run_iff [OF assms(1,3)] by (simp add: h_def gc_alloc_heap_def)
    then show ?thesis
      unfolding \<open>h = _\<close> using False None assms(2-4) by (cases "gc_auto_collect_enabled s") (simp_all add: gc_alloc_def Let_def)
  next
    case (Some a)
    then have "h = s"
      using False gc_find_run_iff [OF assms(1,3)] by (auto simp: h_def gc_alloc_heap_def)
    then show ?thesis
      using False Some assms(2-4) by (cases a) (auto simp: gc_alloc_def Let_def)
  qed
qed

lemma gc_alloc_exact:
  assumes s: "gc_ok s" and lock: "gc_lock_depth s = 0" and del: "gc_del_ok del"
    and last_used: "gc_last_used_block s < gc_blocks s" and n: "0 < gc_n_blocks n_bytes"
  obtains r h p s' where "gc_collect limit del roots ptrs s = Some r" and "gc_collected s (roots @ ptrs) r"
    and "h = gc_alloc_heap s r (gc_n_blocks n_bytes)"
    and "gc_alloc (gc_collect limit del roots ptrs) n_bytes fin s = Some (p, s')" and "gc_ok s'" and "gc_last_used_block s' < gc_blocks s'"
    and "gc_ok h" and "gc_quiet del \<Longrightarrow> gc_pool h = gc_pool s" and "gc_lock_depth h = gc_lock_depth s"
    and "case p of Some q \<Rightarrow> \<exists>b. gc_allocated h b (gc_n_blocks n_bytes) s' \<and> q = PTR_FROM_BLOCK h b
         | None \<Rightarrow> s' = h \<and> \<not> gc_has_run h (gc_n_blocks n_bytes)"
proof -
  have "even (gc_lock_depth s)"
    using lock by simp
  from gc_collect_ok [OF s this del last_used, of limit roots ptrs]
  obtain r where r: "gc_collect limit del roots ptrs s = Some r" "gc_collected s (roots @ ptrs) r" "gc_ok r" "gc_last_used_block r < gc_blocks r"
      "gc_quiet del \<longrightarrow> gc_pool r = gc_pool s" "gc_lock_depth r = gc_lock_depth s"
    by blast
  define h where "h = gc_alloc_heap s r (gc_n_blocks n_bytes)"
  have h: "gc_ok h" "gc_last_used_block h < gc_blocks h" "gc_quiet del \<Longrightarrow> gc_pool h = gc_pool s" "gc_lock_depth h = gc_lock_depth s"
    using s last_used r by (simp_all add: h_def gc_alloc_heap_def)
  note run = gc_alloc_eq [where collect = "gc_collect limit del roots ptrs" and fin = fin, OF s lock n r(1), folded h_def]
  show ?thesis
  proof (cases "gc_find_run h (gc_n_blocks n_bytes)")
    case None
    then have "\<not> gc_has_run h (gc_n_blocks n_bytes)"
      using gc_find_run_iff [OF h(1) n] by simp
    then show ?thesis
      using that [OF r(1,2) h_def, of None h] run None h by simp
  next
    case (Some a)
    then obtain e m where a: "gc_find_run h (gc_n_blocks n_bytes) = Some (e, m)"
      by (cases a) simp
    obtain q s' where take: "gc_take_run e m fin h = (q, s')"
      by fastforce
    note t = gc_take_run_ok [OF h(1) a n take]
    show ?thesis
      using that [OF r(1,2) h_def, of "Some q" s'] run a take t h by auto
  qed
qed

text \<open>The form that resizing uses.\<close>

definition gc_alloc_post :: "bool \<Rightarrow> u32 list \<Rightarrow> nat \<Rightarrow> gc_state \<Rightarrow> nat option \<Rightarrow> gc_state \<Rightarrow> bool" where
  "gc_alloc_post quiet roots n s p s' \<longleftrightarrow>
     gc_ok s' \<and> gc_last_used_block s' < gc_blocks s' \<and>
     (case p of
        Some q \<Rightarrow> \<exists>r b. (r = s \<or> gc_collected s roots r) \<and> (quiet \<longrightarrow> gc_pool r = gc_pool s) \<and>
          gc_lock_depth r = gc_lock_depth s \<and> gc_ok r \<and> gc_allocated r b n s' \<and> q = PTR_FROM_BLOCK r b
      | None \<Rightarrow> (s' = s \<or> gc_collected s roots s') \<and> (quiet \<longrightarrow> gc_pool s' = gc_pool s))"

lemma gc_alloc_ok:
  assumes "gc_ok s" and "gc_lock_depth s = 0" and "gc_del_ok del" and "gc_last_used_block s < gc_blocks s" and "0 < gc_n_blocks n_bytes"
  shows "\<exists>p s'. gc_alloc (gc_collect limit del roots ptrs) n_bytes fin s = Some (p, s') \<and>
    gc_alloc_post (gc_quiet del) (roots @ ptrs) (gc_n_blocks n_bytes) s p s'"
proof (rule gc_alloc_exact [OF assms, where limit = limit and roots = roots and ptrs = ptrs and fin = fin])
  fix r h p s'
  assume r: "gc_collected s (roots @ ptrs) r" "h = gc_alloc_heap s r (gc_n_blocks n_bytes)"
    and run: "gc_alloc (gc_collect limit del roots ptrs) n_bytes fin s = Some (p, s')"
    and h: "gc_ok s'" "gc_last_used_block s' < gc_blocks s'" "gc_ok h" "gc_quiet del \<Longrightarrow> gc_pool h = gc_pool s" "gc_lock_depth h = gc_lock_depth s"
      "case p of Some q \<Rightarrow> \<exists>b. gc_allocated h b (gc_n_blocks n_bytes) s' \<and> q = PTR_FROM_BLOCK h b
       | None \<Rightarrow> s' = h \<and> \<not> gc_has_run h (gc_n_blocks n_bytes)"
  have "h = s \<or> gc_collected s (roots @ ptrs) h"
    using r by (simp add: gc_alloc_heap_def)
  then have "gc_alloc_post (gc_quiet del) (roots @ ptrs) (gc_n_blocks n_bytes) s p s'"
    using h unfolding gc_alloc_post_def by (cases p) auto
  then show ?thesis
    using run by blast
qed

section \<open>Freeing\<close>

lemma gc_free_chain_kind:
  assumes "b < 4 * length t"
  shows "ATB_GET_KIND (gc_free_chain b t) c = (if b \<le> c \<and> c < b + gc_chain_len t b then AT_FREE else ATB_GET_KIND t c) \<and>
    length (gc_free_chain b t) = length t"
  using assms
proof (induction b t rule: gc_free_chain.induct)
  case (1 b t)
  let ?t = "ATB_ANY_TO_FREE b t"
  have kind: "ATB_GET_KIND ?t c = (if c = b then AT_FREE else ATB_GET_KIND t c)" for c
    by (rule kind_any_to_free [OF "1.prems"])
  show ?case
  proof (cases "ATB_GET_KIND ?t (b + 1) = AT_TAIL")
    case True
    have inside: "b + 1 < 4 * length ?t"
      using True kind_beyond [of ?t "b + 1"] by (auto simp: not_less [symmetric])
    have "tail_run ?t (b + 2) = tail_run t (b + 2)"
      by (rule kinds_from_tail_run [of "b + 1"]) (simp_all add: kinds_from_def kind)
    moreover have "gc_chain_len t b = Suc (gc_chain_len t (b + 1))"
      using True tail_run_step [of t "b + 1"] by (simp add: gc_chain_len_def kind)
    ultimately have "gc_chain_len ?t (b + 1) = gc_chain_len t (b + 1)" "gc_chain_len t b = Suc (gc_chain_len t (b + 1))"
      by (simp_all add: gc_chain_len_def)
    then show ?thesis
      using "1.IH" [OF refl True inside] True
      by (subst (1 2) gc_free_chain.simps) (auto simp: kind)
  next
    case False
    then have "gc_chain_len t b = 1"
      using tail_run_step [of t "b + 1"] by (simp add: gc_chain_len_def kind)
    then show ?thesis
      using False by (subst (1 2) gc_free_chain.simps) (auto simp: kind)
  qed
qed

definition gc_freed :: "gc_state \<Rightarrow> nat \<Rightarrow> nat \<Rightarrow> gc_state \<Rightarrow> bool" where
  "gc_freed s b n s' \<longleftrightarrow>
     (\<forall>c. gc_kind s' c = (if b \<le> c \<and> c < b + n then AT_FREE else gc_kind s c)) \<and> gc_pool s' = gc_pool s \<and>
     length (gc_alloc_table s') = length (gc_alloc_table s) \<and> gc_pool_start s' = gc_pool_start s \<and>
     gc_lock_depth s' = gc_lock_depth s"

lemma block_ptr:
  assumes "VERIFY_PTR s p"
  shows "BLOCK_FROM_PTR s p < gc_blocks s"
  using assms by (auto simp: VERIFY_PTR_def BLOCK_FROM_PTR_def BYTES_PER_BLOCK_def)

text \<open>Blocks of a chain from some point to its end become free.\<close>

lemma gc_freed_ok:
  assumes ok: "gc_ok s" and freed: "gc_freed s b n s'" and tail: "gc_kind s (b + n) \<noteq> AT_TAIL" and n: "0 < n"
    and same: "length (gc_finaliser_table s') = length (gc_finaliser_table s)" "gc_last_used_block s' = gc_last_used_block s"
    and ix: "gc_last_free_atb_index s' = min (gc_last_free_atb_index s) (b div BLOCKS_PER_ATB)"
  shows "gc_ok s'"
proof -
  have kind: "gc_kind s' c = (if b \<le> c \<and> c < b + n then AT_FREE else gc_kind s c)" for c
    using freed by (simp add: gc_freed_def)
  have blocks: "gc_blocks s' = gc_blocks s"
    using freed by (simp add: gc_freed_def gc_blocks_def)
  have "gc_tails_ok s'"
    unfolding gc_tails_ok_def
  proof (intro conjI allI impI)
    fix c assume c: "gc_kind s' c = AT_FREE"
    show "gc_kind s' (c + 1) \<noteq> AT_TAIL"
    proof (cases "c + 1 = b + n")
      case False
      then show ?thesis
        using c ok n by (auto simp: kind gc_ok_def gc_tails_ok_def split: if_splits)
    qed (use tail in \<open>simp add: kind\<close>)
  next
    show "gc_kind s' 0 \<noteq> AT_TAIL"
      using ok by (simp add: kind gc_ok_def gc_tails_ok_def)
  qed
  moreover have "\<forall>c < gc_last_free_atb_index s' * BLOCKS_PER_ATB. gc_kind s' c \<noteq> AT_FREE"
  proof (intro allI impI)
    fix c assume "c < gc_last_free_atb_index s' * BLOCKS_PER_ATB"
    then have "c < gc_last_free_atb_index s * BLOCKS_PER_ATB" "c < b"
      by (auto simp: ix BLOCKS_PER_ATB_def)
    then show "gc_kind s' c \<noteq> AT_FREE"
      using ok by (auto simp: kind gc_ok_def)
  qed
  moreover have "\<forall>c. gc_kind s' c \<noteq> AT_MARK" "\<forall>c. gc_kind s' c \<noteq> AT_FREE \<longrightarrow> c \<le> gc_last_used_block s'"
    using ok by (auto simp: kind same gc_ok_def)
  moreover have "gc_last_free_atb_index s' \<le> length (gc_alloc_table s')"
    using ok freed by (auto simp: ix gc_freed_def gc_ok_def)
  moreover have "gc_last_used_block s' \<le> gc_blocks s'"
    using ok by (simp add: same blocks gc_ok_def)
  ultimately show ?thesis
    by (intro gc_ok_frame [OF ok]) (use freed same in \<open>simp_all add: gc_freed_def\<close>)
qed

lemma gc_free_ok:
  assumes ok: "gc_ok s" and lock: "gc_lock_depth s = 0" and ptr: "VERIFY_PTR s p" and head: "gc_kind s (BLOCK_FROM_PTR s p) = AT_HEAD"
  shows "\<exists>s'. gc_free (Some p) s = Some s' \<and>
    gc_freed s (BLOCK_FROM_PTR s p) (gc_chain_len (gc_alloc_table s) (BLOCK_FROM_PTR s p)) s' \<and> gc_ok s' \<and>
    gc_last_used_block s' = gc_last_used_block s"
proof -
  define b where "b = BLOCK_FROM_PTR s p"
  define s' where "s' = gc_update_atb (gc_free_chain b)
      (s\<lparr>gc_finaliser_table := FTB_CLEAR b (gc_finaliser_table s),
         gc_last_free_atb_index := min (gc_last_free_atb_index s) (b div BLOCKS_PER_ATB)\<rparr>)"
  have "b < 4 * length (gc_alloc_table s)"
    using block_ptr [OF ptr] by (simp add: b_def gc_blocks_def BLOCKS_PER_ATB_def)
  note chain = gc_free_chain_kind [OF this]
  have freed: "gc_freed s b (gc_chain_len (gc_alloc_table s) b) s'"
    using chain by (simp add: gc_freed_def s'_def gc_update_atb_def gc_kind_def)
  have "gc_kind s (b + gc_chain_len (gc_alloc_table s) b) \<noteq> AT_TAIL"
    using tail_run_end [of "gc_alloc_table s" "b + 1"] by (simp add: gc_chain_len_def gc_kind_def)
  then have "gc_ok s'"
    by (rule gc_freed_ok [OF ok freed]) (simp_all add: s'_def gc_update_atb_def FTB_CLEAR_def gc_chain_len_def)
  moreover have "gc_free (Some p) s = Some s'"
    using lock ptr head by (simp add: gc_free_def s'_def b_def Let_def)
  ultimately show ?thesis
    using freed by (auto simp: b_def s'_def gc_update_atb_def)
qed

end
