(* ===== verification/Gc_Realloc.thy ===== *)
theory Gc_Realloc
  imports Gc_Alloc
begin

text \<open>
  Resizing of theory Gc: the scan finds the length of the chain and the free blocks after it, and
  whether the chain is cut, extended in place or moved, its words are kept and the other chains
  stay as they are.
\<close>

section \<open>The scan of the chain and of the space after it\<close>

lemma realloc_scan_free:
  assumes "gc_realloc_scan t [k..<n] new nblk nf = (N, F)" and "k \<le> n"
    and "\<forall>b. ATB_GET_KIND t b = AT_FREE \<longrightarrow> ATB_GET_KIND t (b + 1) \<noteq> AT_TAIL" and "0 < k" and "ATB_GET_KIND t (k - 1) = AT_FREE"
  shows "N = nblk \<and> nf \<le> F \<and> k + (F - nf) \<le> n \<and> (\<forall>c. k \<le> c \<and> c < k + (F - nf) \<longrightarrow> ATB_GET_KIND t c = AT_FREE)"
  using assms
proof (induction "n - k" arbitrary: k nf)
  case (Suc d)
  then have k: "k < n" "d = n - (k + 1)" by auto
  have list: "[k..<n] = k # [k + 1..<n]"
    using k by (simp add: upt_conv_Cons)
  have tail: "ATB_GET_KIND t k \<noteq> AT_TAIL"
    using Suc.prems(3,4,5) by (metis Suc_diff_1 Suc_eq_plus1)
  show ?case
  proof (cases "ATB_GET_KIND t k = AT_FREE \<and> \<not> new \<le> nblk + (nf + 1)")
    case True
    then have "gc_realloc_scan t [k + 1..<n] new nblk (nf + 1) = (N, F)"
      using Suc.prems(1) by (simp add: list)
    then have s: "N = nblk \<and> nf + 1 \<le> F \<and> k + 1 + (F - (nf + 1)) \<le> n \<and>
        (\<forall>c. k + 1 \<le> c \<and> c < k + 1 + (F - (nf + 1)) \<longrightarrow> ATB_GET_KIND t c = AT_FREE)"
      by (rule Suc.hyps(1) [OF k(2)]) (use Suc.prems True k in auto)
    have "ATB_GET_KIND t c = AT_FREE" if "k \<le> c" "c < k + (F - nf)" for c
      using that s True by (cases "c = k") auto
    then show ?thesis
      using s by auto
  next
    case False
    then show ?thesis
      using Suc.prems(1) tail k by (auto simp: list less_Suc_eq_le split: if_splits)
  qed
qed auto

lemma realloc_scan_chain:
  assumes "gc_realloc_scan t [k..<4 * length t] new nblk 0 = (N, F)" and "k \<le> 4 * length t"
    and "\<forall>b. ATB_GET_KIND t b = AT_FREE \<longrightarrow> ATB_GET_KIND t (b + 1) \<noteq> AT_TAIL"
  shows "N = nblk + tail_run t k \<and> k + tail_run t k + F \<le> 4 * length t \<and>
    (\<forall>c. k + tail_run t k \<le> c \<and> c < k + tail_run t k + F \<longrightarrow> ATB_GET_KIND t c = AT_FREE)"
  using assms
proof (induction "4 * length t - k" arbitrary: k nblk)
  case 0
  then have "tail_run t k = 0"
    by (subst tail_run_step) (simp add: kind_beyond)
  then show ?case
    using 0 by auto
next
  case (Suc d)
  let ?n = "4 * length t"
  have k: "k < ?n" "d = ?n - (k + 1)"
    using Suc by auto
  have list: "[k..<?n] = k # [k + 1..<?n]"
    using k by (simp add: upt_conv_Cons)
  show ?case
  proof (cases "ATB_GET_KIND t k = AT_TAIL")
    case True
    then have "gc_realloc_scan t [k + 1..<?n] new (nblk + 1) 0 = (N, F)" "k + 1 \<le> ?n"
      using Suc.prems(1) k by (simp_all add: list)
    note Suc.hyps(1) [OF k(2) this Suc.prems(3)]
    moreover have "tail_run t k = Suc (tail_run t (k + 1))"
      using True by (subst tail_run_step) simp
    ultimately show ?thesis
      by simp
  next
    case False
    then have run: "tail_run t k = 0"
      by (subst tail_run_step) simp
    show ?thesis
    proof (cases "ATB_GET_KIND t k = AT_FREE \<and> \<not> new \<le> nblk + 1")
      case True
      then have "gc_realloc_scan t [k + 1..<?n] new nblk 1 = (N, F)"
        using Suc.prems(1) by (simp add: list)
      then have s: "N = nblk \<and> 1 \<le> F \<and> k + 1 + (F - 1) \<le> ?n \<and>
          (\<forall>c. k + 1 \<le> c \<and> c < k + 1 + (F - 1) \<longrightarrow> ATB_GET_KIND t c = AT_FREE)"
        by (rule realloc_scan_free) (use Suc.prems(3) True k in auto)
      have "ATB_GET_KIND t c = AT_FREE" if "k \<le> c" "c < k + F" for c
        using that s True by (cases "c = k") auto
      then show ?thesis
        using s run by auto
    next
      case no: False
      then show ?thesis
        using Suc.prems(1) False k run by (auto simp: list less_Suc_eq_le split: if_splits)
    qed
  qed
qed

text \<open>The scan of a chain that has exactly the blocks it needs between its end and the end of the heap.\<close>

lemma realloc_scan_last_free:
  assumes "\<forall>c. k \<le> c \<and> c < n \<longrightarrow> ATB_GET_KIND t c = AT_FREE" and "k < n" and "new = nblk + nf + (n - k)"
  shows "gc_realloc_scan t [k..<n] new nblk nf = (nblk, nf + (n - k))"
  using assms
proof (induction "n - k" arbitrary: k nf)
  case (Suc d)
  have list: "[k..<n] = k # [k + 1..<n]"
    using Suc.prems(2) by (simp add: upt_conv_Cons)
  show ?case
  proof (cases "k + 1 < n")
    case True
    then have "gc_realloc_scan t [k + 1..<n] new nblk (nf + 1) = (nblk, nf + 1 + (n - (k + 1)))"
      by (intro Suc.hyps(1)) (use Suc in auto)
    moreover have "nf + 1 + (n - (k + 1)) = nf + (n - k)" "\<not> new \<le> nblk + (nf + 1)"
      using True Suc.prems(3) by linarith+
    ultimately show ?thesis
      using Suc.prems(1,2) by (simp add: list)
  next
    case False
    then have "n = k + 1"
      using Suc.prems(2) by simp
    then show ?thesis
      using Suc.prems by (simp add: list)
  qed
qed simp

lemma realloc_scan_to_end:
  assumes "\<forall>c. k \<le> c \<and> c < k + r \<longrightarrow> ATB_GET_KIND t c = AT_TAIL" and "\<forall>c. k + r \<le> c \<and> c < n \<longrightarrow> ATB_GET_KIND t c = AT_FREE"
    and "k + r < n" and "new = nblk + (n - k)"
  shows "gc_realloc_scan t [k..<n] new nblk 0 = (nblk + r, n - (k + r))"
  using assms
proof (induction r arbitrary: k nblk)
  case 0
  then show ?case
    using realloc_scan_last_free [of k n t new nblk 0] by simp
next
  case (Suc r)
  have list: "[k..<n] = k # [k + 1..<n]"
    using Suc.prems(3) by (simp add: upt_conv_Cons)
  have "gc_realloc_scan t [k + 1..<n] new (nblk + 1) 0 = (nblk + 1 + r, n - (k + 1 + r))"
    by (rule Suc.IH) (use Suc.prems in auto)
  then show ?case
    using Suc.prems(1,3) by (simp add: list)
qed

text \<open>The words of a chain, one by one.\<close>

lemma chain_words_nth:
  assumes "gc_kind s b \<noteq> AT_FREE" and "length (gc_pool s) = gc_blocks s * WORDS_PER_BLOCK"
  shows "length (gc_chain_words s b) = gc_chain_len (gc_alloc_table s) b * WORDS_PER_BLOCK"
    and "i < gc_chain_len (gc_alloc_table s) b * WORDS_PER_BLOCK \<Longrightarrow> gc_chain_words s b ! i = gc_pool s ! (b * WORDS_PER_BLOCK + i)"
proof -
  have "(b + gc_chain_len (gc_alloc_table s) b) * WORDS_PER_BLOCK \<le> length (gc_pool s)"
    unfolding assms(2) using chain_in_blocks [OF assms(1)] by (rule mult_le_mono1)
  then show "length (gc_chain_words s b) = gc_chain_len (gc_alloc_table s) b * WORDS_PER_BLOCK"
    and "i < gc_chain_len (gc_alloc_table s) b * WORDS_PER_BLOCK \<Longrightarrow> gc_chain_words s b ! i = gc_pool s ! (b * WORDS_PER_BLOCK + i)"
    by (simp_all add: gc_chain_words_def add_mult_distrib)
qed

text \<open>Two heaps agree on the chain at \<open>b\<close>.\<close>

definition gc_same_chain :: "gc_state \<Rightarrow> gc_state \<Rightarrow> nat \<Rightarrow> bool" where
  "gc_same_chain s s' b \<longleftrightarrow>
     gc_kind s' b = gc_kind s b \<and> gc_chain_len (gc_alloc_table s') b = gc_chain_len (gc_alloc_table s) b \<and>
     gc_chain_words s' b = gc_chain_words s b"

lemma gc_same_chain_refl [simp]: "gc_same_chain s s b"
  by (simp add: gc_same_chain_def)

lemma gc_same_chain_trans: "gc_same_chain r s b \<Longrightarrow> gc_same_chain s t b \<Longrightarrow> gc_same_chain r t b"
  by (simp add: gc_same_chain_def)

lemma gc_same_chainI:
  assumes used: "gc_kind s b = AT_HEAD" and pool: "length (gc_pool s) = gc_blocks s * WORDS_PER_BLOCK"
    and size: "length (gc_pool s') = length (gc_pool s)" "length (gc_alloc_table s') = length (gc_alloc_table s)"
    and kinds: "\<forall>c. b \<le> c \<and> c < b + gc_chain_len (gc_alloc_table s) b \<longrightarrow> gc_kind s' c = gc_kind s c"
    and stop: "gc_kind s' (b + gc_chain_len (gc_alloc_table s) b) \<noteq> AT_TAIL"
    and pools: "\<forall>i. b * WORDS_PER_BLOCK \<le> i \<and> i < (b + gc_chain_len (gc_alloc_table s) b) * WORDS_PER_BLOCK \<longrightarrow> gc_pool s' ! i = gc_pool s ! i"
  shows "gc_same_chain s s' b"
proof -
  let ?n = "gc_chain_len (gc_alloc_table s) b"
  have n: "0 < ?n"
    by (simp add: gc_chain_len_def)
  have head: "gc_kind s' b = gc_kind s b"
    using kinds n by simp
  have "\<forall>c. b < c \<and> c < b + ?n \<longrightarrow> ATB_GET_KIND (gc_alloc_table s') c = AT_TAIL"
    using kinds chain_tail [of b _ s] by (auto simp: gc_kind_def)
  then have len: "gc_chain_len (gc_alloc_table s') b = ?n"
    using stop n by (intro chain_len_eq) (simp_all add: gc_kind_def)
  have blocks: "gc_blocks s' = gc_blocks s"
    using size by (simp add: gc_blocks_def)
  have 1: "gc_kind s b \<noteq> AT_FREE" "gc_kind s' b \<noteq> AT_FREE"
    using used head by simp_all
  have 2: "length (gc_pool s') = gc_blocks s' * WORDS_PER_BLOCK"
    using size pool by (simp add: blocks)
  have "gc_chain_words s' b = gc_chain_words s b"
    using pools by (intro nth_equalityI) (simp_all add: chain_words_nth [OF 1(1) pool] chain_words_nth [OF 1(2) 2] len add_mult_distrib)
  then show ?thesis
    using head len by (simp add: gc_same_chain_def)
qed

text \<open>Chains do not overlap.\<close>

lemma chains_disjoint:
  assumes "gc_kind s b = AT_HEAD" and "gc_kind s h = AT_HEAD" and "h \<noteq> b"
    and "b \<le> c" and "c < b + gc_chain_len (gc_alloc_table s) b"
  shows "\<not> (h \<le> c \<and> c < h + gc_chain_len (gc_alloc_table s) h)"
proof
  assume h: "h \<le> c \<and> c < h + gc_chain_len (gc_alloc_table s) h"
  show False
  proof (cases "h < b")
    case True
    then have "gc_kind s b = AT_TAIL"
      using chain_tail [of h b s] h assms by simp
    then show False
      using assms by simp
  next
    case False
    then have "gc_kind s h = AT_TAIL"
      using chain_tail [of b h s] h assms by simp
    then show False
      using assms by simp
  qed
qed

section \<open>The other chains\<close>

lemma ok_pool: "gc_ok s \<Longrightarrow> length (gc_pool s) = gc_blocks s * WORDS_PER_BLOCK"
  by (simp add: gc_ok_def)

lemma chain_stop: "gc_kind s (b + gc_chain_len (gc_alloc_table s) b) \<noteq> AT_TAIL"
  using tail_run_end [of "gc_alloc_table s" "b + 1"] by (simp add: gc_chain_len_def gc_kind_def)

lemma word_block:
  assumes "b * WORDS_PER_BLOCK \<le> i" and "i < (b + n) * WORDS_PER_BLOCK"
  shows "b \<le> i div WORDS_PER_BLOCK \<and> i div WORDS_PER_BLOCK < b + n"
  using assms by (simp add: WORDS_PER_BLOCK_def div_less_iff_less_mult less_eq_div_iff_mult_less_eq)

lemma gc_allocated_same:
  assumes a: "gc_allocated r b n s'" and ok: "gc_ok r" and h: "gc_kind r h = AT_HEAD"
  shows "gc_same_chain r s' h"
proof -
  let ?m = "gc_chain_len (gc_alloc_table r) h"
  have used: "gc_kind r c \<noteq> AT_FREE" if "h \<le> c" "c < h + ?m" for c
    using that h chain_tail [of h c r] by (cases "c = h") auto
  have out: "\<not> (b \<le> c \<and> c < b + n)" if "h \<le> c" "c < h + ?m" for c
    using used [OF that] a by (auto simp: gc_allocated_def)
  show ?thesis
  proof (rule gc_same_chainI [OF h ok_pool [OF ok]])
    show "\<forall>c. h \<le> c \<and> c < h + ?m \<longrightarrow> gc_kind s' c = gc_kind r c"
    proof (intro allI impI)
      fix c assume "h \<le> c \<and> c < h + ?m"
      then have "\<not> (b \<le> c \<and> c < b + n)"
        using out by blast
      then show "gc_kind s' c = gc_kind r c"
        using a by (auto simp: gc_allocated_def)
    qed
    show "gc_kind s' (h + ?m) \<noteq> AT_TAIL"
    proof (cases "b < h + ?m \<and> h + ?m < b + n")
      case True
      then have "b \<le> h + ?m - 1 \<and> h + ?m - 1 < b + n"
        by auto
      then have "gc_kind r (h + ?m - 1) = AT_FREE"
        using a unfolding gc_allocated_def by blast
      moreover have "h \<le> h + ?m - 1" "h + ?m - 1 < h + ?m"
        by (simp_all add: gc_chain_len_def)
      ultimately show ?thesis
        using used [of "h + ?m - 1"] by blast
    next
      case False
      then show ?thesis
        using a chain_stop [of r h] by (auto simp: gc_allocated_def)
    qed
    show "\<forall>i. h * WORDS_PER_BLOCK \<le> i \<and> i < (h + ?m) * WORDS_PER_BLOCK \<longrightarrow> gc_pool s' ! i = gc_pool r ! i"
    proof (intro allI impI)
      fix i assume i: "h * WORDS_PER_BLOCK \<le> i \<and> i < (h + ?m) * WORDS_PER_BLOCK"
      have "(h + ?m) * WORDS_PER_BLOCK \<le> length (gc_pool r)"
        unfolding ok_pool [OF ok] using chain_in_blocks [of r h] h by (intro mult_le_mono1) simp
      then have "i < length (gc_pool r)"
        using i by linarith
      moreover have "\<not> (b * WORDS_PER_BLOCK \<le> i \<and> i < (b + n) * WORDS_PER_BLOCK)"
        using word_block [of h i ?m] word_block [of b i n] out [of "i div WORDS_PER_BLOCK"] i by blast
      ultimately show "gc_pool s' ! i = gc_pool r ! i"
        using a unfolding gc_allocated_def by presburger
    qed
  qed (use a in \<open>simp_all add: gc_allocated_def\<close>)
qed

lemma gc_allocated_chain:
  assumes a: "gc_allocated r b n s'" and ok: "gc_ok r"
  shows "gc_kind s' b = AT_HEAD \<and> gc_chain_len (gc_alloc_table s') b = n \<and> gc_chain_words s' b = replicate (n * WORDS_PER_BLOCK) 0"
proof -
  have n: "0 < n" and blocks: "gc_blocks s' = gc_blocks r"
    using a by (simp_all add: gc_allocated_def gc_blocks_def)
  have kind: "gc_kind s' c = (if c = b then AT_HEAD else if b < c \<and> c < b + n then AT_TAIL else gc_kind r c)" for c
    using a by (simp add: gc_allocated_def)
  have "gc_kind r (b + n) \<noteq> AT_TAIL"
  proof -
    have "gc_kind r (b + n - 1) = AT_FREE"
      using a n by (auto simp: gc_allocated_def)
    then have "gc_kind r (b + n - 1 + 1) \<noteq> AT_TAIL"
      using ok unfolding gc_ok_def gc_tails_ok_def by blast
    then show ?thesis
      using n by simp
  qed
  then have "gc_kind s' (b + n) \<noteq> AT_TAIL"
    by (simp add: kind)
  then have len: "gc_chain_len (gc_alloc_table s') b = n"
    using n kind by (intro chain_len_eq) (simp_all add: gc_kind_def)
  have head: "gc_kind s' b \<noteq> AT_FREE"
    by (simp add: kind)
  have pool: "length (gc_pool s') = gc_blocks s' * WORDS_PER_BLOCK"
    using a ok_pool [OF ok] by (simp add: blocks gc_allocated_def)
  note w = chain_words_nth [OF head pool, unfolded len]
  have "(b + n) * WORDS_PER_BLOCK \<le> length (gc_pool r)"
    unfolding ok_pool [OF ok] using a by (intro mult_le_mono1) (simp add: gc_allocated_def)
  then have "gc_chain_words s' b ! i = 0" if "i < n * WORDS_PER_BLOCK" for i
    using w(2) [OF that] that a by (simp add: gc_allocated_def add_mult_distrib)
  then have "gc_chain_words s' b = replicate (n * WORDS_PER_BLOCK) 0"
    by (intro nth_equalityI) (simp_all add: w(1))
  then show ?thesis
    using kind len by simp
qed

lemma gc_freed_same:
  assumes f: "gc_freed s b (gc_chain_len (gc_alloc_table s) b) s'" and b: "gc_kind s b = AT_HEAD" and ok: "gc_ok s"
    and h: "gc_kind s h = AT_HEAD" "h \<noteq> b"
  shows "gc_same_chain s s' h"
proof (rule gc_same_chainI [OF h(1) ok_pool [OF ok]])
  show "\<forall>c. h \<le> c \<and> c < h + gc_chain_len (gc_alloc_table s) h \<longrightarrow> gc_kind s' c = gc_kind s c"
    using f chains_disjoint [OF b h] by (auto simp: gc_freed_def)
  show "gc_kind s' (h + gc_chain_len (gc_alloc_table s) h) \<noteq> AT_TAIL"
    using f chain_stop [of s h] by (simp add: gc_freed_def)
qed (use f in \<open>simp_all add: gc_freed_def\<close>)

lemma gc_collected_same:
  assumes c: "gc_collected s roots r" and pool: "gc_pool r = gc_pool s" and ok: "gc_ok s" "gc_ok r"
    and h: "gc_kind s h = AT_HEAD" "h \<in> gc_reach s roots"
  shows "gc_same_chain s r h"
proof (rule gc_same_chainI [OF h(1) ok_pool [OF ok(1)]])
  let ?m = "gc_chain_len (gc_alloc_table s) h"
  show "\<forall>c. h \<le> c \<and> c < h + ?m \<longrightarrow> gc_kind r c = gc_kind s c"
    using c h by (simp add: gc_collected_def)
  show "gc_kind r (h + ?m) \<noteq> AT_TAIL"
  proof (cases "gc_kind s (h + ?m) = AT_FREE")
    case True
    then show ?thesis
      using c by (simp add: gc_collected_def)
  next
    case False
    then have head: "gc_kind s (h + ?m) = AT_HEAD"
      using chain_stop [of s h] ok(1) kind_cases [of "gc_alloc_table s" "h + ?m"] by (auto simp: gc_kind_def gc_ok_def)
    then have "gc_kind r (h + ?m) = (if h + ?m \<in> gc_reach s roots then gc_kind s (h + ?m) else AT_FREE)"
      using c by (simp add: gc_collected_def gc_chain_len_def)
    then show ?thesis
      using head by simp
  qed
qed (use c pool in \<open>simp_all add: gc_collected_def\<close>)

section \<open>Resizing\<close>

text \<open>
  What \<^verbatim>\<open>gc_realloc\<close> promises for the chain at \<open>b\<close> and a new length of \<open>n\<close> blocks: on success a chain
  of that length with the old words, cut or padded with zeros; on failure the heap is as it was or
  as a collection left it. The chains other than \<open>b\<close> stay as they are.
\<close>

definition gc_resized :: "bool \<Rightarrow> u32 list \<Rightarrow> gc_state \<Rightarrow> nat \<Rightarrow> nat \<Rightarrow> nat option \<Rightarrow> gc_state \<Rightarrow> bool" where
  "gc_resized quiet roots s b n p s' \<longleftrightarrow>
     gc_ok s' \<and>
     (\<exists>r. (r = s \<or> gc_collected s roots r) \<and> (quiet \<longrightarrow> gc_pool r = gc_pool s) \<and>
        (\<forall>h. gc_kind r h = AT_HEAD \<and> h \<noteq> b \<longrightarrow> gc_same_chain r s' h)) \<and>
     (case p of
        Some q \<Rightarrow> VERIFY_PTR s' q \<and>
          gc_kind s' (BLOCK_FROM_PTR s' q) = AT_HEAD \<and>
          gc_chain_len (gc_alloc_table s') (BLOCK_FROM_PTR s' q) = n \<and>
          (quiet \<longrightarrow> gc_chain_words s' (BLOCK_FROM_PTR s' q) =
            take (n * WORDS_PER_BLOCK) (gc_chain_words s b @ replicate (n * WORDS_PER_BLOCK) 0)) \<and>
          (BLOCK_FROM_PTR s' q \<noteq> b \<longrightarrow> gc_kind s' b = AT_FREE)
      | None \<Rightarrow> (quiet \<longrightarrow> gc_same_chain s s' b))"

lemma block_ptr_block [simp]: "BLOCK_FROM_PTR s (PTR_FROM_BLOCK s b) = b"
  by (simp add: BLOCK_FROM_PTR_def PTR_FROM_BLOCK_def BYTES_PER_BLOCK_def)

lemma verify_ptr_block:
  assumes "gc_ok s" and "b < gc_blocks s"
  shows "VERIFY_PTR s (PTR_FROM_BLOCK s b)"
proof -
  have "gc_pool_start s mod BYTES_PER_BLOCK = 0"
    using assms by (simp add: gc_ok_def)
  then show ?thesis
    using assms(2) by (simp add: VERIFY_PTR_def PTR_FROM_BLOCK_def BYTES_PER_BLOCK_def)
qed

text \<open>The chain is cut.\<close>

lemma gc_cut_ok:
  assumes ok: "gc_ok s" and ptr: "VERIFY_PTR s q" "b = BLOCK_FROM_PTR s q" and head: "gc_kind s b = AT_HEAD"
    and n: "0 < n" "n < N" and N: "N = gc_chain_len (gc_alloc_table s) b"
    and s': "s' = (gc_update_atb (fold ATB_ANY_TO_FREE [b + n..<b + N]) s)
      \<lparr>gc_last_free_atb_index := min (gc_last_free_atb_index s) ((b + n) div BLOCKS_PER_ATB)\<rparr>"
  shows "gc_resized quiet roots s b n (Some q) s'"
proof -
  have inside: "b + N \<le> gc_blocks s"
    using chain_in_blocks [of s b] head by (simp add: N)
  have "b + N \<le> 4 * length (gc_alloc_table s)"
    using inside by (simp add: gc_blocks_def BLOCKS_PER_ATB_def)
  note fold = fold_free_kind [OF this, of "b + n"]
  have kind: "gc_kind s' c = (if b + n \<le> c \<and> c < b + N then AT_FREE else gc_kind s c)" for c
    using fold by (simp add: s' gc_update_atb_def gc_kind_def)
  have len: "length (gc_alloc_table s') = length (gc_alloc_table s)"
    using fold by (simp add: s' gc_update_atb_def)
  have same: "gc_pool s' = gc_pool s" "gc_pool_start s' = gc_pool_start s" "gc_blocks s' = gc_blocks s"
    using len by (simp_all add: s' gc_update_atb_def gc_blocks_def)
  have "gc_freed s (b + n) (N - n) s'"
    using kind len n by (simp add: gc_freed_def s' gc_update_atb_def)
  moreover have "gc_kind s (b + n + (N - n)) \<noteq> AT_TAIL"
    using chain_stop [of s b] n N by simp
  ultimately have ok': "gc_ok s'"
    by (rule gc_freed_ok [OF ok]) (use n in \<open>simp_all add: s' gc_update_atb_def\<close>)
  have tails: "gc_kind s c = AT_TAIL" if "b < c" "c < b + N" for c
    using chain_tail [of b c s] that N by simp
  have chain: "gc_chain_len (gc_alloc_table s') b = n"
    using n tails kind by (intro chain_len_eq) (auto simp: gc_kind_def [symmetric])
  have used: "gc_kind s b \<noteq> AT_FREE" "gc_kind s' b \<noteq> AT_FREE"
    using head n by (auto simp: kind)
  note w = chain_words_nth [OF used(1) ok_pool [OF ok]] and w' = chain_words_nth [OF used(2) ok_pool [OF ok']]
  have "gc_chain_words s' b = take (n * WORDS_PER_BLOCK) (gc_chain_words s b @ replicate (n * WORDS_PER_BLOCK) 0)"
  proof (rule nth_equalityI)
    fix i assume "i < length (gc_chain_words s' b)"
    then have i: "i < n * WORDS_PER_BLOCK"
      by (simp add: w' chain)
    then have "i < N * WORDS_PER_BLOCK"
      using n(2) by (simp add: WORDS_PER_BLOCK_def)
    then show "gc_chain_words s' b ! i = take (n * WORDS_PER_BLOCK) (gc_chain_words s b @ replicate (n * WORDS_PER_BLOCK) 0) ! i"
      using i by (simp add: w w' chain nth_append N [symmetric] same)
  qed (simp add: w w' chain)
  moreover have "gc_same_chain s s' h" if h: "gc_kind s h = AT_HEAD" "h \<noteq> b" for h
  proof (rule gc_same_chainI [OF h(1) ok_pool [OF ok]])
    show "\<forall>c. h \<le> c \<and> c < h + gc_chain_len (gc_alloc_table s) h \<longrightarrow> gc_kind s' c = gc_kind s c"
      using kind chains_disjoint [OF head h] N by auto
    show "gc_kind s' (h + gc_chain_len (gc_alloc_table s) h) \<noteq> AT_TAIL"
      using kind chain_stop [of s h] by simp
  qed (simp_all add: same len)
  moreover have "VERIFY_PTR s' q \<and> BLOCK_FROM_PTR s' q = b"
    using ptr by (simp add: VERIFY_PTR_def BLOCK_FROM_PTR_def same)
  ultimately show ?thesis
    using ok' chain head n by (auto simp: gc_resized_def kind)
qed

text \<open>The chain is extended by the free blocks after it.\<close>

lemma gc_extend_ok:
  assumes ok: "gc_ok s" and ptr: "VERIFY_PTR s q" "b = BLOCK_FROM_PTR s q" and head: "gc_kind s b = AT_HEAD"
    and n: "N < n" and N: "N = gc_chain_len (gc_alloc_table s) b"
    and room: "b + n \<le> gc_blocks s" and free: "\<forall>c. b + N \<le> c \<and> c < b + n \<longrightarrow> gc_kind s c = AT_FREE"
    and s': "s' = gc_clear_words (b + N) (n - N) ((gc_update_atb (fold ATB_FREE_TO_TAIL [b + N..<b + n]) s)
      \<lparr>gc_last_used_block := max (gc_last_used_block s) (b + n)\<rparr>)"
  shows "gc_resized quiet roots s b n (Some q) s'"
proof -
  have "b + n \<le> 4 * length (gc_alloc_table s)"
    using room by (simp add: gc_blocks_def BLOCKS_PER_ATB_def)
  note fold = fold_tails_kind [OF this free [unfolded gc_kind_def]]
  have kind: "gc_kind s' c = (if b + N \<le> c \<and> c < b + n then AT_TAIL else gc_kind s c)" for c
    using fold by (simp add: s' gc_update_atb_def gc_kind_def gc_clear_words_def)
  have len: "length (gc_alloc_table s') = length (gc_alloc_table s)"
    using fold by (simp add: s' gc_update_atb_def gc_clear_words_def)
  have same: "gc_pool_start s' = gc_pool_start s" "gc_blocks s' = gc_blocks s"
    using len by (simp_all add: s' gc_update_atb_def gc_blocks_def gc_clear_words_def)
  have words: "(b + n) * WORDS_PER_BLOCK \<le> length (gc_pool s)"
    unfolding ok_pool [OF ok] using room by (rule mult_le_mono1)
  then have "(b + N + (n - N)) * WORDS_PER_BLOCK \<le> length (gc_pool ((gc_update_atb (fold ATB_FREE_TO_TAIL [b + N..<b + n]) s)
      \<lparr>gc_last_used_block := max (gc_last_used_block s) (b + n)\<rparr>))"
    using n by (simp add: gc_update_atb_def)
  note clear = gc_clear_words_nth [OF this, folded s']
  have pool: "length (gc_pool s') = length (gc_pool s)"
    and pools: "i < length (gc_pool s) \<Longrightarrow> gc_pool s' ! i =
      (if (b + N) * WORDS_PER_BLOCK \<le> i \<and> i < (b + n) * WORDS_PER_BLOCK then 0 else gc_pool s ! i)" for i
    using clear n by (simp_all add: gc_update_atb_def)
  have tails: "gc_kind s c = AT_TAIL" if "b < c" "c < b + N" for c
    using chain_tail [of b c s] that N by simp
  have N0: "0 < N"
    by (simp add: N gc_chain_len_def)
  have last_free: "gc_kind s (b + n - 1) = AT_FREE"
    using free n by auto
  have stop: "gc_kind s (b + n) \<noteq> AT_TAIL"
  proof -
    have "gc_kind s (b + n - 1 + 1) \<noteq> AT_TAIL"
      using ok last_free unfolding gc_ok_def gc_tails_ok_def by blast
    then show ?thesis
      using n by simp
  qed
  have "gc_tails_ok s'"
    unfolding gc_tails_ok_def
  proof (intro conjI allI impI)
    fix c assume "gc_kind s' c = AT_FREE"
    then have c: "gc_kind s c = AT_FREE" "\<not> (b + N \<le> c \<and> c < b + n)"
      by (auto simp: kind split: if_splits)
    moreover have "gc_kind s (b + N - 1) \<noteq> AT_FREE"
      using tails [of "b + N - 1"] head N0 by (cases "N = 1") auto
    ultimately have "c \<noteq> b + N - 1"
      by auto
    then have "\<not> (b + N \<le> c + 1 \<and> c + 1 < b + n)"
      using N0 c(2) by linarith
    then show "gc_kind s' (c + 1) \<noteq> AT_TAIL"
      using c ok by (auto simp: kind gc_ok_def gc_tails_ok_def)
  next
    show "gc_kind s' 0 \<noteq> AT_TAIL"
      using ok N0 by (auto simp: kind gc_ok_def gc_tails_ok_def)
  qed
  moreover have "gc_last_used_block s' = max (gc_last_used_block s) (b + n)" "gc_last_free_atb_index s' = gc_last_free_atb_index s"
      "gc_finaliser_table s' = gc_finaliser_table s"
    by (simp_all add: s' gc_update_atb_def gc_clear_words_def)
  moreover from this(1) have "\<forall>c. gc_kind s' c \<noteq> AT_FREE \<longrightarrow> c \<le> gc_last_used_block s'"
    using ok by (auto simp: kind gc_ok_def le_max_iff_disj)
  moreover have "gc_last_used_block s \<le> gc_blocks s" "gc_last_free_atb_index s \<le> length (gc_alloc_table s)"
      "\<forall>c < gc_last_free_atb_index s * BLOCKS_PER_ATB. gc_kind s' c \<noteq> AT_FREE" "\<forall>c. gc_kind s' c \<noteq> AT_MARK"
    using ok by (auto simp: kind gc_ok_def)
  ultimately have ok': "gc_ok s'"
    by (intro gc_ok_frame [OF ok]) (use room in \<open>simp_all add: len pool same\<close>)
  have chain: "gc_chain_len (gc_alloc_table s') b = n"
    using n tails kind stop by (intro chain_len_eq) (auto simp: gc_kind_def [symmetric])
  have used: "gc_kind s b \<noteq> AT_FREE" "gc_kind s' b \<noteq> AT_FREE"
    using head by (auto simp: kind)
  note w = chain_words_nth [OF used(1) ok_pool [OF ok]] and w' = chain_words_nth [OF used(2) ok_pool [OF ok']]
  have "gc_chain_words s' b = take (n * WORDS_PER_BLOCK) (gc_chain_words s b @ replicate (n * WORDS_PER_BLOCK) 0)"
  proof (rule nth_equalityI)
    fix i assume "i < length (gc_chain_words s' b)"
    then have i: "i < n * WORDS_PER_BLOCK"
      by (simp add: w' chain)
    then have "b * WORDS_PER_BLOCK + i < length (gc_pool s)" "b * WORDS_PER_BLOCK + i < (b + n) * WORDS_PER_BLOCK"
      using words by (simp_all add: add_mult_distrib)
    then show "gc_chain_words s' b ! i = take (n * WORDS_PER_BLOCK) (gc_chain_words s b @ replicate (n * WORDS_PER_BLOCK) 0) ! i"
      using i by (simp add: w w' chain nth_append N [symmetric] pools) (simp add: add_mult_distrib)
  qed (simp add: w w' chain)
  moreover have "gc_same_chain s s' h" if h: "gc_kind s h = AT_HEAD" "h \<noteq> b" for h
  proof (rule gc_same_chainI [OF h(1) ok_pool [OF ok] pool len])
    let ?m = "gc_chain_len (gc_alloc_table s) h"
    have used: "gc_kind s c \<noteq> AT_FREE" if "h \<le> c" "c < h + ?m" for c
      using that h chain_tail [of h c s] by (cases "c = h") auto
    then have out: "\<not> (b + N \<le> c \<and> c < b + n)" if "h \<le> c" "c < h + ?m" for c
      using free that by blast
    then show "\<forall>c. h \<le> c \<and> c < h + ?m \<longrightarrow> gc_kind s' c = gc_kind s c"
      by (auto simp: kind)
    have m: "0 < ?m"
      by (simp add: gc_chain_len_def)
    have "\<not> (b + N \<le> h + ?m \<and> h + ?m < b + n)"
    proof
      assume at: "b + N \<le> h + ?m \<and> h + ?m < b + n"
      show False
      proof (cases "h + ?m = b + N")
        case True
        then show False
          using chains_disjoint [OF head h, of "h + ?m - 1", folded N] m N0 by linarith
      next
        case False
        then have "b + N \<le> h + ?m - 1 \<and> h + ?m - 1 < b + n" "h \<le> h + ?m - 1" "h + ?m - 1 < h + ?m"
          using at m by auto
        then show False
          using out by blast
      qed
    qed
    then show "gc_kind s' (h + ?m) \<noteq> AT_TAIL"
      using chain_stop [of s h] by (auto simp: kind)
    show "\<forall>i. h * WORDS_PER_BLOCK \<le> i \<and> i < (h + ?m) * WORDS_PER_BLOCK \<longrightarrow> gc_pool s' ! i = gc_pool s ! i"
    proof (intro allI impI)
      fix i assume i: "h * WORDS_PER_BLOCK \<le> i \<and> i < (h + ?m) * WORDS_PER_BLOCK"
      have "(h + ?m) * WORDS_PER_BLOCK \<le> length (gc_pool s)"
        unfolding ok_pool [OF ok] using chain_in_blocks [of s h] h by (intro mult_le_mono1) simp
      then have "i < length (gc_pool s)"
        using i by linarith
      moreover have "\<not> ((b + N) * WORDS_PER_BLOCK \<le> i \<and> i < (b + n) * WORDS_PER_BLOCK)"
        using word_block [of h i ?m] word_block [of "b + N" i "n - N"] out [of "i div WORDS_PER_BLOCK"] i n by auto
      ultimately show "gc_pool s' ! i = gc_pool s ! i"
        by (simp only: pools if_False)
    qed
  qed
  moreover have "VERIFY_PTR s' q \<and> BLOCK_FROM_PTR s' q = b"
    using ptr by (simp add: VERIFY_PTR_def BLOCK_FROM_PTR_def same)
  ultimately show ?thesis
    using ok' chain head N0 by (auto simp: gc_resized_def kind)
qed

text \<open>The chain is moved: its words are copied to a new chain and its blocks are freed.\<close>

lemma gc_copy_words_nth:
  assumes "(d + n) * WORDS_PER_BLOCK \<le> length (gc_pool s)" and "(b + n) * WORDS_PER_BLOCK \<le> length (gc_pool s)"
  shows "length (gc_pool (gc_copy_words d b n s)) = length (gc_pool s)"
    and "i < length (gc_pool s) \<Longrightarrow> gc_pool (gc_copy_words d b n s) ! i =
       (if d * WORDS_PER_BLOCK \<le> i \<and> i < (d + n) * WORDS_PER_BLOCK
        then gc_pool s ! (b * WORDS_PER_BLOCK + (i - d * WORDS_PER_BLOCK)) else gc_pool s ! i)"
  using assms by (auto simp: gc_copy_words_def nth_append add_mult_distrib)

lemma gc_copy_words_kind [simp]:
  "gc_kind (gc_copy_words d b n s) = gc_kind s" "gc_alloc_table (gc_copy_words d b n s) = gc_alloc_table s"
  "gc_blocks (gc_copy_words d b n s) = gc_blocks s" "gc_pool_start (gc_copy_words d b n s) = gc_pool_start s"
  "gc_lock_depth (gc_copy_words d b n s) = gc_lock_depth s" "VERIFY_PTR (gc_copy_words d b n s) = VERIFY_PTR s"
  "BLOCK_FROM_PTR (gc_copy_words d b n s) = BLOCK_FROM_PTR s" "gc_tails_ok (gc_copy_words d b n s) = gc_tails_ok s"
  "gc_finaliser_table (gc_copy_words d b n s) = gc_finaliser_table s"
  "gc_last_used_block (gc_copy_words d b n s) = gc_last_used_block s"
  "gc_last_free_atb_index (gc_copy_words d b n s) = gc_last_free_atb_index s"
  by (simp_all add: gc_copy_words_def gc_kind_def [abs_def] gc_blocks_def VERIFY_PTR_def [abs_def] BLOCK_FROM_PTR_def [abs_def]
      gc_tails_ok_def)

lemma gc_copy_same:
  assumes ok: "gc_ok s" and d: "gc_kind s d = AT_HEAD" "n \<le> gc_chain_len (gc_alloc_table s) d" and b: "(b + n) * WORDS_PER_BLOCK \<le> length (gc_pool s)"
    and h: "gc_kind s h = AT_HEAD" "h \<noteq> d"
  shows "gc_same_chain s (gc_copy_words d b n s) h"
proof -
  let ?m = "gc_chain_len (gc_alloc_table s) h"
  have "(d + n) * WORDS_PER_BLOCK \<le> length (gc_pool s)"
    unfolding ok_pool [OF ok] using chain_in_blocks [of s d] d by (intro mult_le_mono1) auto
  note copy = gc_copy_words_nth [OF this b]
  show ?thesis
  proof (rule gc_same_chainI [OF h(1) ok_pool [OF ok] copy(1)])
    show "\<forall>i. h * WORDS_PER_BLOCK \<le> i \<and> i < (h + ?m) * WORDS_PER_BLOCK \<longrightarrow> gc_pool (gc_copy_words d b n s) ! i = gc_pool s ! i"
    proof (intro allI impI)
      fix i assume i: "h * WORDS_PER_BLOCK \<le> i \<and> i < (h + ?m) * WORDS_PER_BLOCK"
      have "(h + ?m) * WORDS_PER_BLOCK \<le> length (gc_pool s)"
        unfolding ok_pool [OF ok] using chain_in_blocks [of s h] h by (intro mult_le_mono1) simp
      then have "i < length (gc_pool s)"
        using i by linarith
      moreover have "\<not> (d * WORDS_PER_BLOCK \<le> i \<and> i < (d + n) * WORDS_PER_BLOCK)"
        using word_block [of h i ?m] word_block [of d i n] chains_disjoint [OF d(1) h, of "i div WORDS_PER_BLOCK"] i d(2) by auto
      ultimately show "gc_pool (gc_copy_words d b n s) ! i = gc_pool s ! i"
        by (simp only: copy(2) if_False)
    qed
  qed (use chain_stop [of s h] in simp_all)
qed

lemma gc_move_ok:
  assumes s: "gc_ok s" "gc_kind s b = AT_HEAD" and r: "r = s \<or> gc_collected s roots r" "quiet \<longrightarrow> gc_pool r = gc_pool s"
    and rok: "gc_ok r" "gc_lock_depth r = 0" and reach: "b \<in> gc_reach s roots" and N: "N = gc_chain_len (gc_alloc_table s) b" "N < n"
    and alloc: "gc_allocated r d n t" "gc_ok t" and ptr: "VERIFY_PTR s p" "b = BLOCK_FROM_PTR s p"
  shows "\<exists>s'. gc_free (Some p) (gc_copy_words d b N t) = Some s' \<and> gc_resized quiet roots s b n (Some (PTR_FROM_BLOCK r d)) s'"
proof -
  let ?t = "gc_copy_words d b N t"
  have br: "gc_kind r b = AT_HEAD \<and> gc_chain_len (gc_alloc_table r) b = N"
    and words_r: "gc_pool r = gc_pool s \<longrightarrow> gc_chain_words r b = gc_chain_words s b"
  proof -
    define r' where "r' = r\<lparr>gc_pool := gc_pool s\<rparr>"
    have "gc_same_chain s r' b"
    proof (cases "r = s")
      case False
      then have c: "gc_collected s roots r'"
        using r(1) by (simp add: gc_collected_def r'_def gc_kind_def)
      have "gc_blocks r = gc_blocks s"
        using r(1) False by (simp add: gc_collected_def gc_blocks_def)
      then have "length (gc_pool s) = length (gc_pool r)"
        using ok_pool [OF s(1)] ok_pool [OF rok(1)] by simp
      then have "gc_ok r'"
        by (intro gc_ok_frame [OF rok(1)]) (use rok(1) in \<open>simp_all add: gc_ok_def r'_def gc_kind_def gc_blocks_def gc_tails_ok_def\<close>)
      then show ?thesis
        using gc_collected_same [OF c _ s(1) _ s(2) reach] by (simp add: r'_def)
    qed (simp add: r'_def)
    then show "gc_kind r b = AT_HEAD \<and> gc_chain_len (gc_alloc_table r) b = N"
      and "gc_pool r = gc_pool s \<longrightarrow> gc_chain_words r b = gc_chain_words s b"
      using s(2) N(1) by (auto simp: gc_same_chain_def r'_def gc_kind_def gc_chain_words_def)
  qed
  have same_b: "gc_same_chain r t b"
    by (rule gc_allocated_same [OF alloc(1) rok(1)]) (simp add: br)
  have new: "gc_kind t d = AT_HEAD \<and> gc_chain_len (gc_alloc_table t) d = n \<and> gc_chain_words t d = replicate (n * WORDS_PER_BLOCK) 0"
    by (rule gc_allocated_chain [OF alloc(1) rok(1)])
  have bt: "gc_kind t b = AT_HEAD" "gc_chain_len (gc_alloc_table t) b = N" "gc_chain_words t b = gc_chain_words r b"
    using same_b br by (auto simp: gc_same_chain_def)
  have "gc_kind r d = AT_FREE"
    using alloc(1) by (simp add: gc_allocated_def)
  then have db: "d \<noteq> b"
    using br by auto
  have room: "(b + N) * WORDS_PER_BLOCK \<le> length (gc_pool t)" "(d + N) * WORDS_PER_BLOCK \<le> length (gc_pool t)"
      "(d + n) * WORDS_PER_BLOCK \<le> length (gc_pool t)"
    unfolding ok_pool [OF alloc(2)] using chain_in_blocks [of t b] chain_in_blocks [of t d] bt new N(2) by (auto intro!: mult_le_mono1)
  note copy = gc_copy_words_nth [OF room(2,1)]
  have okt: "gc_ok ?t"
    by (rule gc_ok_frame [OF alloc(2)]) (use alloc(2) copy(1) in \<open>simp_all add: gc_ok_def\<close>)
  have starts: "gc_pool_start t = gc_pool_start s" "gc_blocks t = gc_blocks s" "gc_lock_depth t = 0"
    using r(1) alloc(1) rok(2) by (auto simp: gc_allocated_def gc_collected_def gc_blocks_def)
  have vp: "VERIFY_PTR ?t p" "BLOCK_FROM_PTR ?t p = b"
    using ptr starts by (simp_all add: VERIFY_PTR_def BLOCK_FROM_PTR_def)
  have "gc_lock_depth ?t = 0" "gc_kind ?t (BLOCK_FROM_PTR ?t p) = AT_HEAD"
    using starts bt vp(2) by simp_all
  from gc_free_ok [OF okt this(1) vp(1) this(2)]
  obtain s' where s': "gc_free (Some p) ?t = Some s'" "gc_freed ?t b (gc_chain_len (gc_alloc_table ?t) b) s'" "gc_ok s'"
    by (auto simp: vp(2) [simplified])
  have keep: "gc_same_chain ?t s' h" if "gc_kind t h = AT_HEAD" "h \<noteq> b" for h
    by (rule gc_freed_same [OF s'(2) _ okt]) (use bt that in simp_all)
  have "gc_same_chain r s' h" if h: "gc_kind r h = AT_HEAD" "h \<noteq> b" for h
  proof -
    have 1: "gc_same_chain r t h"
      by (rule gc_allocated_same [OF alloc(1) rok(1) h(1)])
    then have ht: "gc_kind t h = AT_HEAD"
      using h by (simp add: gc_same_chain_def)
    have "h \<noteq> d"
      using h \<open>gc_kind r d = AT_FREE\<close> by auto
    then have "gc_same_chain t ?t h"
      by (intro gc_copy_same [OF alloc(2)]) (use new N(2) room ht in auto)
    then show ?thesis
      using gc_same_chain_trans 1 keep [OF ht h(2)] by blast
  qed
  moreover have sd: "gc_same_chain ?t s' d"
    by (rule keep) (use new db in auto)
  moreover have "gc_chain_words ?t d = take (n * WORDS_PER_BLOCK) (gc_chain_words r b @ replicate (n * WORDS_PER_BLOCK) 0)"
  proof (rule nth_equalityI)
    have d: "gc_kind ?t d \<noteq> AT_FREE" "gc_kind t d \<noteq> AT_FREE" "gc_kind t b \<noteq> AT_FREE"
      using new bt by simp_all
    note wd = chain_words_nth [OF d(1) ok_pool [OF okt]] and wt = chain_words_nth [OF d(2) ok_pool [OF alloc(2)]]
      and wb = chain_words_nth [OF d(3) ok_pool [OF alloc(2)]]
    show "length (gc_chain_words ?t d) = length (take (n * WORDS_PER_BLOCK) (gc_chain_words r b @ replicate (n * WORDS_PER_BLOCK) 0))"
      using wd(1) new by simp
    fix i assume "i < length (gc_chain_words ?t d)"
    then have i: "i < n * WORDS_PER_BLOCK"
      using wd(1) new by simp
    then have inside: "d * WORDS_PER_BLOCK + i < length (gc_pool t)"
      using room(3) by (simp add: add_mult_distrib)
    have zero: "gc_pool t ! (d * WORDS_PER_BLOCK + i) = 0"
      using wt(2) [of i] new i by simp
    have "gc_chain_words ?t d ! i = (if i < N * WORDS_PER_BLOCK then gc_chain_words t b ! i else 0)"
      using wd(2) [of i] wb(2) [of i] new bt i zero copy(2) [OF inside] by (simp add: add_mult_distrib)
    then show "gc_chain_words ?t d ! i = take (n * WORDS_PER_BLOCK) (gc_chain_words r b @ replicate (n * WORDS_PER_BLOCK) 0) ! i"
      using wb(1) bt i by (simp add: nth_append)
  qed
  moreover have "gc_kind s' b = AT_FREE"
    using s'(2) bt by (simp add: gc_freed_def gc_chain_len_def)
  moreover have "BLOCK_FROM_PTR s' (PTR_FROM_BLOCK r d) = d \<and> VERIFY_PTR s' (PTR_FROM_BLOCK r d)"
  proof -
    have "PTR_FROM_BLOCK r d = PTR_FROM_BLOCK s' d" "gc_blocks s' = gc_blocks r"
      using alloc(1) s'(2) by (simp_all add: PTR_FROM_BLOCK_def gc_allocated_def gc_freed_def gc_blocks_def)
    then show ?thesis
      using verify_ptr_block [OF s'(3), of d] alloc(1) by (simp add: gc_allocated_def)
  qed
  ultimately show ?thesis
    using s'(1,3) r(1,2) words_r new by (auto simp: gc_resized_def gc_same_chain_def)
qed

lemma gc_resized_same:
  assumes "gc_ok s" and "VERIFY_PTR s q" and "gc_kind s (BLOCK_FROM_PTR s q) = AT_HEAD"
    and n: "n = gc_chain_len (gc_alloc_table s) (BLOCK_FROM_PTR s q)"
  shows "gc_resized quiet roots s (BLOCK_FROM_PTR s q) n (Some q) s"
proof -
  have "gc_kind s (BLOCK_FROM_PTR s q) \<noteq> AT_FREE"
    using assms by simp
  then have "length (gc_chain_words s (BLOCK_FROM_PTR s q)) = n * WORDS_PER_BLOCK"
    using chain_words_nth(1) ok_pool assms by simp
  then show ?thesis
    using assms by (auto simp: gc_resized_def)
qed

lemma gc_resized_None:
  assumes ok: "gc_ok s" "gc_ok s'" and r: "s' = s \<or> gc_collected s roots s'" "quiet \<longrightarrow> gc_pool s' = gc_pool s"
    and b: "gc_kind s b = AT_HEAD" "b \<in> gc_reach s roots"
  shows "gc_resized quiet roots s b n None s'"
proof -
  have "gc_same_chain s s' b" if quiet
    using gc_collected_same [OF _ _ ok b] r that by (cases "s' = s") auto
  then show ?thesis
    using assms by (auto simp: gc_resized_def)
qed

lemma gc_realloc_ok:
  assumes s: "gc_ok s" and lock: "gc_lock_depth s = 0" and del: "gc_del_ok del"
    and last_used: "gc_last_used_block s < gc_blocks s" and ptr: "VERIFY_PTR s q" and b: "b = BLOCK_FROM_PTR s q"
    and head: "gc_kind s b = AT_HEAD" and reach: "b \<in> gc_reach s (roots @ ptrs)"
    and n: "0 < n_bytes" "0 < gc_n_blocks n_bytes"
  shows "\<exists>p s'. gc_realloc (gc_collect limit del roots ptrs) (Some q) n_bytes allow_move s = Some (p, s') \<and>
    gc_resized (gc_quiet del) (roots @ ptrs) s b (gc_n_blocks n_bytes) p s'"
proof -
  let ?collect = "gc_collect limit del roots ptrs" and ?n = "gc_n_blocks n_bytes"
  let ?N = "gc_chain_len (gc_alloc_table s) b" and ?R = "gc_resized (gc_quiet del) (roots @ ptrs) s b ?n"
  obtain N F where scan: "gc_realloc_scan (gc_alloc_table s) [b + 1..<gc_blocks s] ?n 1 0 = (N, F)"
    by fastforce
  have blocks: "gc_blocks s = 4 * length (gc_alloc_table s)"
    by (simp add: gc_blocks_def BLOCKS_PER_ATB_def)
  have "b < gc_blocks s"
    using block_ptr [OF ptr] b by simp
  then have "b + 1 \<le> 4 * length (gc_alloc_table s)"
    by (simp add: blocks)
  moreover have "\<forall>b. ATB_GET_KIND (gc_alloc_table s) b = AT_FREE \<longrightarrow> ATB_GET_KIND (gc_alloc_table s) (b + 1) \<noteq> AT_TAIL"
    using s by (simp add: gc_ok_def gc_tails_ok_def gc_kind_def)
  ultimately have c: "N = 1 + tail_run (gc_alloc_table s) (b + 1) \<and> b + 1 + tail_run (gc_alloc_table s) (b + 1) + F \<le> gc_blocks s \<and>
      (\<forall>c. b + 1 + tail_run (gc_alloc_table s) (b + 1) \<le> c \<and> c < b + 1 + tail_run (gc_alloc_table s) (b + 1) + F \<longrightarrow> gc_kind s c = AT_FREE)"
    using realloc_scan_chain [OF scan [unfolded blocks]] unfolding gc_kind_def blocks by blast
  then have N: "N = ?N"
    by (simp add: gc_chain_len_def)
  have N1: "b + 1 + tail_run (gc_alloc_table s) (b + 1) = b + N"
    using c by simp
  have room: "b + N + F \<le> gc_blocks s" and free: "\<forall>c. b + N \<le> c \<and> c < b + N + F \<longrightarrow> gc_kind s c = AT_FREE"
    using c unfolding N1 by blast+
  have N0: "0 < N"
    by (simp add: N gc_chain_len_def)
  define cut where "cut = (gc_update_atb (fold ATB_ANY_TO_FREE [b + ?n..<b + N]) s)
      \<lparr>gc_last_free_atb_index := min (gc_last_free_atb_index s) ((b + ?n) div BLOCKS_PER_ATB)\<rparr>"
  define ext where "ext = gc_clear_words (b + N) (?n - N) ((gc_update_atb (fold ATB_FREE_TO_TAIL [b + N..<b + ?n]) s)
      \<lparr>gc_last_used_block := max (gc_last_used_block s) (b + ?n)\<rparr>)"
  have "gc_realloc ?collect (Some q) n_bytes allow_move s =
     (if ?n = N then Some (Some q, s) else if ?n < N then Some (Some q, cut)
      else if ?n \<le> N + F then Some (Some q, ext)
      else if \<not> allow_move then Some (None, s)
      else do {
        (ptr_out, t) \<leftarrow> gc_alloc ?collect n_bytes (FTB_GET (gc_finaliser_table s) b) s;
        case ptr_out of
          None \<Rightarrow> Some (None, t)
        | Some q' \<Rightarrow> do { s' \<leftarrow> gc_free (Some q) (gc_copy_words (BLOCK_FROM_PTR t q') b N t); Some (ptr_out, s') } })"
    using n lock ptr head scan by (simp add: gc_realloc_def Let_def cut_def ext_def gc_update_atb_def b [symmetric])
  note run = this
  consider (same) "?n = N" | (cut) "?n < N" | (extend) "N < ?n" "?n \<le> N + F" | (stay) "N + F < ?n" "\<not> allow_move" | (move) "N + F < ?n" allow_move
    by linarith
  then show ?thesis
  proof cases
    case same
    then show ?thesis
      using run gc_resized_same [OF s ptr, of ?n] head b N by auto
  next
    case cut
    then have "?R (Some q) cut"
      using gc_cut_ok [OF s ptr b head n(2) _ N cut_def] by blast
    then show ?thesis
      using run cut by auto
  next
    case extend
    have "?R (Some q) ext"
      by (rule gc_extend_ok [OF s ptr b head extend(1) N _ _ ext_def]) (use extend room free in auto)
    then show ?thesis
      using run extend by auto
  next
    case stay
    then show ?thesis
      using run gc_resized_None [OF s s _ _ head reach] by auto
  next
    case move
    from gc_alloc_ok [OF s lock del last_used n(2)]
    obtain p t where t: "gc_alloc ?collect n_bytes (FTB_GET (gc_finaliser_table s) b) s = Some (p, t)"
        "gc_alloc_post (gc_quiet del) (roots @ ptrs) ?n s p t"
      by blast
    show ?thesis
    proof (cases p)
      case None
      then have "?R None t"
        using t(2) by (intro gc_resized_None [OF s _ _ _ head reach]) (auto simp: gc_alloc_post_def)
      then show ?thesis
        using run move t(1) None by simp
    next
      case (Some q')
      then obtain r d where r: "r = s \<or> gc_collected s (roots @ ptrs) r" "gc_quiet del \<longrightarrow> gc_pool r = gc_pool s"
          "gc_lock_depth r = 0" "gc_ok r" "gc_allocated r d ?n t" "q' = PTR_FROM_BLOCK r d" and okt: "gc_ok t"
        using t(2) lock by (auto simp: gc_alloc_post_def)
      have "N < ?n"
        using move by simp
      from gc_move_ok [OF s head r(1,2,4,3) reach N this r(5) okt ptr b]
      obtain s' where s': "gc_free (Some q) (gc_copy_words d b N t) = Some s'" "?R (Some (PTR_FROM_BLOCK r d)) s'"
        by blast
      have "BLOCK_FROM_PTR t q' = d"
        using r(5) by (simp add: r(6) BLOCK_FROM_PTR_def PTR_FROM_BLOCK_def gc_allocated_def BYTES_PER_BLOCK_def)
      then show ?thesis
        using run move t(1) Some s' r(6) by simp
    qed
  qed
qed

section \<open>The layout of a new heap\<close>

lemma gc_table_fits:
  assumes "0 < n"
  shows "gc_table_byte_len n + 1 + gc_finaliser_byte_len (gc_table_byte_len n) + gc_table_byte_len n * BLOCKS_PER_ATB * BYTES_PER_BLOCK \<le> n"
proof -
  define a where "a = gc_table_byte_len n"
  have a: "a = (n - 1) * 8 mod 2 ^ 32 div 524"
    by (simp add: a_def gc_table_byte_len_def BLOCKS_PER_ATB_def BLOCKS_PER_FTB_def BYTES_PER_BLOCK_def)
  have "524 * a \<le> (n - 1) * 8 mod 2 ^ 32"
    unfolding a by (rule times_div_less_eq_dividend)
  also have "\<dots> \<le> (n - 1) * 8"
    by (rule mod_less_eq_dividend)
  finally have "524 * a \<le> (n - 1) * 8" .
  moreover have "8 * ((4 * a + 7) div 8) \<le> 4 * a + 7"
    by (rule times_div_less_eq_dividend)
  ultimately have "8 * (a + 1 + (4 * a + 7) div 8 + 64 * a) < 8 * (n + 1)"
    using assms by (cases n) auto
  then have "a + 1 + (4 * a + 7) div 8 + 64 * a \<le> n"
    by simp
  then show ?thesis
    by (simp add: a_def [symmetric] gc_finaliser_byte_len_def BLOCKS_PER_ATB_def BLOCKS_PER_FTB_def BYTES_PER_BLOCK_def mult.commute)
qed

lemma gc_kind_zero: "ATB_GET_KIND (replicate n 0) b = AT_FREE"
  by (intro bit_eqI) (auto simp: bit_ATB_GET_KIND atb_byte_def)

lemma gc_init_ok:
  assumes area: "start + 16 \<le> end_ptr" and "end_ptr \<le> 2 ^ 32"
  shows "\<exists>s. gc_init start end_ptr = Some s \<and> gc_ok s \<and> (\<forall>b. gc_kind s b = AT_FREE) \<and> gc_lock_depth s = 0 \<and>
    gc_blocks s = (end_ptr div 16 * 16 - start - 1) * 8 mod 2 ^ 32 div 524 * 4 \<and>
    start < gc_pool_start s \<and> gc_pool_start s + gc_blocks s * BYTES_PER_BLOCK = end_ptr div 16 * 16"
proof -
  define e where "e = end_ptr div BYTES_PER_BLOCK * BYTES_PER_BLOCK"
  have e: "start < e" "e \<le> 2 ^ 32" "e mod 16 = 0"
    using assms by (simp_all add: e_def BYTES_PER_BLOCK_def)
  define a where "a = gc_table_byte_len (e - start)"
  define s where "s = \<lparr>gc_alloc_table = replicate a 0, gc_finaliser_table = replicate (gc_finaliser_byte_len a) 0,
      gc_pool = replicate (a * BLOCKS_PER_ATB * WORDS_PER_BLOCK) 0, gc_pool_start = e - a * BLOCKS_PER_ATB * BYTES_PER_BLOCK,
      gc_last_free_atb_index = 0, gc_last_used_block = 0, gc_lock_depth = 0,
      gc_auto_collect_enabled = True, gc_alloc_threshold = 2 ^ 32 - 1, gc_alloc_amount = 0, gc_stack_overflow = False\<rparr>"
  have fits: "a + 1 + gc_finaliser_byte_len a + a * BLOCKS_PER_ATB * BYTES_PER_BLOCK \<le> e - start"
    using gc_table_fits [of "e - start"] e by (simp add: a_def)
  then have "gc_init start end_ptr = Some s"
    by (simp add: gc_init_def gc_setup_area_def Let_def e_def [symmetric] a_def [symmetric] s_def)
  moreover have kinds: "\<forall>b. gc_kind s b = AT_FREE"
    by (simp add: gc_kind_def s_def gc_kind_zero)
  moreover have blocks: "gc_blocks s = a * BLOCKS_PER_ATB"
    by (simp add: s_def gc_blocks_def)
  moreover have "a = (e - start - 1) * 8 mod 2 ^ 32 div 524"
    by (simp add: a_def gc_table_byte_len_def BLOCKS_PER_ATB_def BLOCKS_PER_FTB_def BYTES_PER_BLOCK_def)
  moreover have pool: "start < gc_pool_start s" "gc_pool_start s + gc_blocks s * BYTES_PER_BLOCK = e"
    using fits by (simp_all add: blocks) (simp_all add: s_def)
  moreover have "gc_ok s"
  proof -
    have "gc_pool_start s mod BYTES_PER_BLOCK = 0"
    proof -
      have "16 dvd e" "16 dvd a * 4 * (16 :: nat)"
        using e(3) by (simp_all add: mod_eq_0_iff_dvd)
      then have "16 dvd e - a * 4 * 16"
        by (rule dvd_diff_nat)
      then show ?thesis
        by (simp only: s_def gc_state.simps BYTES_PER_BLOCK_def BLOCKS_PER_ATB_def mod_eq_0_iff_dvd)
    qed
    then show ?thesis
      using pool e(2) kinds by (simp add: gc_ok_def gc_tails_ok_def blocks) (simp add: s_def)
  qed
  moreover have "gc_lock_depth s = 0"
    by (simp add: s_def)
  moreover have e16: "end_ptr div 16 * 16 = e"
    by (simp add: e_def BYTES_PER_BLOCK_def)
  ultimately show ?thesis
    unfolding e16 by (intro exI [of _ s] conjI) (simp_all only: BLOCKS_PER_ATB_def simp_thms)
qed

text \<open>Well-formedness by a check of the blocks that the table has.\<close>

lemma gc_ok_check:
  assumes "length (gc_pool s) = gc_blocks s * WORDS_PER_BLOCK"
    and "length (gc_finaliser_table s) = gc_finaliser_byte_len (length (gc_alloc_table s))"
    and "gc_pool_start s mod BYTES_PER_BLOCK = 0" and "0 < gc_pool_start s"
    and "gc_pool_start s + gc_blocks s * BYTES_PER_BLOCK \<le> 2 ^ 32"
    and "gc_kind s 0 \<noteq> AT_TAIL"
    and "\<forall>b \<in> set [0..<gc_blocks s]. gc_kind s b \<noteq> AT_MARK \<and> (gc_kind s b = AT_FREE \<longrightarrow> gc_kind s (b + 1) \<noteq> AT_TAIL) \<and>
      (gc_kind s b \<noteq> AT_FREE \<longrightarrow> b \<le> gc_last_used_block s)"
    and "gc_last_used_block s \<le> gc_blocks s" and "gc_last_free_atb_index s = 0"
  shows "gc_ok s"
proof -
  have beyond: "gc_kind s b = AT_FREE" if "gc_blocks s \<le> b" for b
    using that kind_beyond [of "gc_alloc_table s" b] by (simp add: gc_kind_def gc_blocks_def BLOCKS_PER_ATB_def mult.commute)
  have "gc_kind s b \<noteq> AT_MARK" "gc_kind s b = AT_FREE \<Longrightarrow> gc_kind s (b + 1) \<noteq> AT_TAIL"
    "gc_kind s b \<noteq> AT_FREE \<Longrightarrow> b \<le> gc_last_used_block s" for b
    using assms(7) beyond [of b] beyond [of "b + 1"] by (cases "b < gc_blocks s"; simp)+
  then show ?thesis
    using assms by (simp add: gc_ok_def gc_tails_ok_def)
qed

section \<open>The read past the finaliser table\<close>

text \<open>
  \<^verbatim>\<open>gc_realloc\<close> raises the last used block to the block after the extended chain. When the chain
  ends with the heap, the sweep reads the byte after the finaliser table.
\<close>

lemma gc_realloc_to_end:
  assumes ok: "gc_ok s" and lock: "gc_lock_depth s = 0" and ptr: "VERIFY_PTR s q" and b: "b = BLOCK_FROM_PTR s q"
    and head: "gc_kind s b = AT_HEAD" and N: "N = gc_chain_len (gc_alloc_table s) b" and n: "N < gc_n_blocks n_bytes"
    and end_block: "b + gc_n_blocks n_bytes = gc_blocks s" and free: "\<forall>c. b + N \<le> c \<and> c < gc_blocks s \<longrightarrow> gc_kind s c = AT_FREE"
  obtains s' where "gc_realloc collect (Some q) n_bytes allow_move s = Some (Some q, s')" and "gc_ok s'"
    and "gc_last_used_block s' = gc_blocks s'" and "length (gc_alloc_table s') = length (gc_alloc_table s)" and "gc_lock_depth s' = 0"
proof -
  let ?n = "gc_n_blocks n_bytes"
  define s' where "s' = gc_clear_words (b + N) (?n - N) ((gc_update_atb (fold ATB_FREE_TO_TAIL [b + N..<b + ?n]) s)
      \<lparr>gc_last_used_block := max (gc_last_used_block s) (b + ?n)\<rparr>)"
  have r: "N = 1 + tail_run (gc_alloc_table s) (b + 1)"
    by (simp add: N gc_chain_len_def)
  have "gc_realloc_scan (gc_alloc_table s) [b + 1..<gc_blocks s] ?n 1 0 =
      (1 + tail_run (gc_alloc_table s) (b + 1), gc_blocks s - (b + 1 + tail_run (gc_alloc_table s) (b + 1)))"
  proof (rule realloc_scan_to_end)
    show "\<forall>c. b + 1 \<le> c \<and> c < b + 1 + tail_run (gc_alloc_table s) (b + 1) \<longrightarrow> ATB_GET_KIND (gc_alloc_table s) c = AT_TAIL"
      using tail_run_kind by blast
    show "\<forall>c. b + 1 + tail_run (gc_alloc_table s) (b + 1) \<le> c \<and> c < gc_blocks s \<longrightarrow> ATB_GET_KIND (gc_alloc_table s) c = AT_FREE"
      using free by (simp add: r gc_kind_def)
  qed (use n end_block r in auto)
  then have scan: "gc_realloc_scan (gc_alloc_table s) [b + 1..<gc_blocks s] ?n 1 0 = (N, ?n - N)"
    using end_block by (simp add: r)
  have pos: "0 < n_bytes"
    using n by (cases n_bytes) (simp_all add: gc_n_blocks_def BYTES_PER_BLOCK_def)
  have "gc_realloc collect (Some q) n_bytes allow_move s = Some (Some q, s')"
    using n lock ptr head scan pos by (simp add: gc_realloc_def Let_def s'_def gc_update_atb_def b [symmetric])
  moreover have "gc_resized True [] s b ?n (Some q) s'"
    by (rule gc_extend_ok [OF ok ptr b head n N _ _ s'_def]) (use end_block free in auto)
  moreover have len: "length (gc_alloc_table s') = length (gc_alloc_table s)"
    using fold_tails_kind [of "b + ?n" "gc_alloc_table s" "b + N"] end_block free
    by (simp add: s'_def gc_clear_words_def gc_update_atb_def gc_blocks_def BLOCKS_PER_ATB_def gc_kind_def)
  moreover have "gc_last_used_block s' = gc_blocks s'"
    using ok end_block len by (simp add: gc_blocks_def gc_ok_def) (simp add: s'_def gc_clear_words_def)
  moreover have "gc_lock_depth s' = 0"
    using lock by (simp add: s'_def gc_clear_words_def)
  ultimately show ?thesis
    using that by (simp add: gc_resized_def)
qed

lemma gc_collect_past_end:
  assumes ok: "gc_ok s" and lock: "even (gc_lock_depth s)" and del: "gc_del_ok del"
    and last_used: "gc_last_used_block s = gc_blocks s" and even: "even (length (gc_alloc_table s))"
  shows "gc_collect limit del roots ptrs s = None"
proof -
  define s1 where "s1 = s\<lparr>gc_lock_depth := gc_lock_depth s OR 1, gc_stack_overflow := False, gc_alloc_amount := 0\<rparr>"
  define s4 where "s4 = gc_deal_with_stack_overflow limit (gc_collect_root limit ptrs (gc_collect_root limit roots s1))"
  have "\<forall>b. gc_kind s1 b \<noteq> AT_MARK"
    using ok by (simp add: gc_ok_def s1_def gc_kind_def)
  then have m: "gc_marks s1 s4"
    using gc_collect_marked [of s1 s4] by (simp add: s4_def)
  then have eq4: "s4 = s1\<lparr>gc_alloc_table := gc_alloc_table s4, gc_stack_overflow := gc_stack_overflow s4\<rparr>"
    unfolding gc_marks_def by blast
  have "gc_finaliser_table s4 = gc_finaliser_table s1" "gc_last_used_block s4 = gc_last_used_block s1"
    by (subst eq4, simp)+
  then have f: "length (gc_finaliser_table s4) = gc_finaliser_byte_len (length (gc_alloc_table s))" "gc_last_used_block s4 = gc_blocks s"
    using ok last_used by (simp_all add: gc_ok_def s1_def)
  have "\<exists>i. i \<in> set idxs \<and> length (gc_finaliser_table r) \<le> i \<Longrightarrow> gc_finalise_bytes del idxs r = None" for idxs r
  proof (induction idxs arbitrary: r)
    case (Cons i idxs)
    have "gc_finalised r (gc_finalise_byte del (gc_finaliser_table r ! i) (i * BLOCKS_PER_FTB) r)"
      by (rule gc_finalise_byte_ok [OF del])
    then have "length (gc_finaliser_table (gc_finalise_byte del (gc_finaliser_table r ! i) (i * BLOCKS_PER_FTB) r)) = length (gc_finaliser_table r)"
      by (simp add: gc_finalised_def)
    then show ?case
      using Cons.IH [of "gc_finalise_byte del (gc_finaliser_table r ! i) (i * BLOCKS_PER_FTB) r"] Cons.prems by auto
  qed simp
  moreover have "gc_finaliser_byte_len (length (gc_alloc_table s)) = gc_blocks s div BLOCKS_PER_FTB"
    using even by (auto simp: gc_finaliser_byte_len_def gc_blocks_def BLOCKS_PER_ATB_def BLOCKS_PER_FTB_def elim!: evenE)
  then have "\<exists>i. i \<in> set [0..<gc_last_used_block s4 div BLOCKS_PER_FTB + 1] \<and> length (gc_finaliser_table s4) \<le> i"
    by (intro exI [of _ "gc_blocks s div BLOCKS_PER_FTB"]) (simp add: f)
  ultimately have "gc_sweep_run_finalisers del s4 = None"
    by (simp add: gc_sweep_run_finalisers_def)
  then have "gc_collect_end limit del (gc_collect_root limit ptrs (gc_collect_root limit roots s1)) = None"
    by (simp add: gc_collect_end_def s4_def [symmetric])
  then show ?thesis
    using lock by (simp add: gc_collect_eq s1_def)
qed

end
