(* ===== verification/Gc_Props.thy ===== *)
theory Gc_Props
  imports Gc_Realloc
begin

text \<open>
  The properties of the garbage collector: layout, collection, allocation, freeing and resizing.
\<close>

section \<open>The heap state\<close>

text \<open>C23. The layout that \<^verbatim>\<open>gc_init\<close> computes always fits its area, the assertion of
  \<^verbatim>\<open>gc_setup_area\<close> included: for an area of at least 16 bytes the new heap is well formed, all of
  its blocks are free, the tables lie before the pool and the pool ends where the area ends, rounded
  down to a block. Up to 512 MB the number of blocks is that of the whole area; above, the size in bits wraps in a 32-bit \<^verbatim>\<open>size_t\<close> and
  the pool takes only the end of the area.\<close>

theorem gc_init_layout:
  assumes "start + 16 \<le> end_ptr" and "end_ptr \<le> 2 ^ 32"
  shows "\<exists>s. gc_init start end_ptr = Some s \<and> gc_ok s \<and> (\<forall>b. gc_kind s b = AT_FREE) \<and> gc_lock_depth s = 0 \<and>
    gc_blocks s = (end_ptr div 16 * 16 - start - 1) * 8 mod 2 ^ 32 div 524 * 4 \<and>
    (end_ptr - start \<le> 2 ^ 29 \<longrightarrow> gc_blocks s = (end_ptr div 16 * 16 - start - 1) * 8 div 524 * 4) \<and>
    start < gc_pool_start s \<and> gc_pool_start s + gc_blocks s * BYTES_PER_BLOCK = end_ptr div 16 * 16"
proof -
  obtain s where s: "gc_init start end_ptr = Some s" "gc_ok s" "\<forall>b. gc_kind s b = AT_FREE" "gc_lock_depth s = 0"
    "gc_blocks s = (end_ptr div 16 * 16 - start - 1) * 8 mod 2 ^ 32 div 524 * 4"
    "start < gc_pool_start s" "gc_pool_start s + gc_blocks s * BYTES_PER_BLOCK = end_ptr div 16 * 16"
    using gc_init_ok [OF assms] by blast
  have "gc_blocks s = (end_ptr div 16 * 16 - start - 1) * 8 div 524 * 4" if "end_ptr - start \<le> 2 ^ 29"
  proof -
    have "end_ptr div 16 * 16 \<le> end_ptr"
      by simp
    then have "(end_ptr div 16 * 16 - start - 1) * 8 < 2 ^ 32"
      using that assms(1) by simp
    then show ?thesis
      unfolding s(5) by simp
  qed
  then show ?thesis
    using s by blast
qed

text \<open>A heap with two chains: blocks 0 and 1, whose first word points to block 3, and block 3; block 2
  holds a chain that nothing points to.\<close>

definition gc_example :: gc_state where
  "gc_example = \<lparr>gc_alloc_table = [0x59, 0], gc_finaliser_table = [0],
     gc_pool = [1088] @ replicate 31 0, gc_pool_start = 1040,
     gc_last_free_atb_index = 0, gc_last_used_block = 3, gc_lock_depth = 0, gc_auto_collect_enabled = True,
     gc_alloc_threshold = 2 ^ 32 - 1, gc_alloc_amount = 4, gc_stack_overflow = False\<rparr>"

lemma gc_example_kinds:
  "gc_kind gc_example b = (if b = 0 then AT_HEAD else if b = 1 then AT_TAIL else if b = 2 \<or> b = 3 then AT_HEAD else AT_FREE)"
proof (cases "b < 8")
  case True
  then have "b \<in> {0, 1, 2, 3, 4, 5, 6, 7}" by auto
  then show ?thesis
    by (auto simp: gc_kind_def gc_example_def ATB_GET_KIND_def BLOCK_SHIFT_def BLOCKS_PER_ATB_def atb_byte_def)
next
  case False
  then show ?thesis
    using kind_beyond [of "gc_alloc_table gc_example" b] by (auto simp: gc_kind_def gc_example_def)
qed

lemma gc_example_ok: "gc_ok gc_example"
proof (rule gc_ok_check)
  have "gc_blocks gc_example = 8"
    by (simp add: gc_blocks_def gc_example_def BLOCKS_PER_ATB_def)
  then show "\<forall>b \<in> set [0..<gc_blocks gc_example]. gc_kind gc_example b \<noteq> AT_MARK \<and>
      (gc_kind gc_example b = AT_FREE \<longrightarrow> gc_kind gc_example (b + 1) \<noteq> AT_TAIL) \<and>
      (gc_kind gc_example b \<noteq> AT_FREE \<longrightarrow> b \<le> gc_last_used_block gc_example)"
    by (auto simp: gc_example_kinds) (auto simp: gc_example_def)
qed (simp_all add: gc_example_kinds, simp_all add: gc_example_def gc_blocks_def BLOCKS_PER_ATB_def WORDS_PER_BLOCK_def
  BYTES_PER_BLOCK_def gc_finaliser_byte_len_def BLOCKS_PER_FTB_def)

theorem gc_init_layout_witness:
  "\<exists>s. gc_init 1024 1168 = Some s \<and> gc_ok s \<and> (\<forall>b. gc_kind s b = AT_FREE) \<and> gc_lock_depth s = 0 \<and>
    gc_blocks s = 8 \<and> 1024 < gc_pool_start s \<and> gc_pool_start s + gc_blocks s * BYTES_PER_BLOCK = 1168"
  using gc_init_layout [of 1024 1168] by simp

text \<open>C24. A collection ends and is exact, for every size of the mark stack and with any finalisers
  that do not allocate or free: a chain is kept, with the kinds of its blocks, when one of the root words
  reaches it through the words of chains, and every other chain becomes free; the heap stays well
  formed, and its words are unchanged when the finalisers leave them alone.\<close>

theorem gc_collect_exact:
  assumes "gc_ok s" and "even (gc_lock_depth s)" and "gc_del_ok del" and "gc_last_used_block s < gc_blocks s"
  shows "\<exists>s'. gc_collect limit del roots ptrs s = Some s' \<and> gc_ok s' \<and>
    (\<forall>b c. gc_kind s b = AT_HEAD \<and> b \<le> c \<and> c < b + gc_chain_len (gc_alloc_table s) b \<longrightarrow>
       gc_kind s' c = (if b \<in> gc_reach s (roots @ ptrs) then gc_kind s c else AT_FREE)) \<and>
    (\<forall>b. gc_kind s b = AT_FREE \<longrightarrow> gc_kind s' b = AT_FREE) \<and>
    (gc_quiet del \<longrightarrow> gc_pool s' = gc_pool s) \<and> gc_lock_depth s' = gc_lock_depth s"
  using gc_collect_ok [OF assms, of limit roots ptrs] unfolding gc_collected_def by blast

lemma gc_example_reach: "gc_reach gc_example [1040] \<subseteq> {0, 3}"
proof -
  note kinds = gc_example_kinds [unfolded gc_kind_def]
  have r2: "tail_run (gc_alloc_table gc_example) 2 = 0" and r4: "tail_run (gc_alloc_table gc_example) 4 = 0"
    by (subst tail_run_step, simp add: kinds)+
  have r1: "tail_run (gc_alloc_table gc_example) (Suc 0) = 1"
    by (subst tail_run_step) (simp add: kinds r2 numeral_2_eq_2 [symmetric])
  note runs = r1 r2 r4
  have tables: "gc_alloc_table gc_example = [0x59, 0]" "gc_pool gc_example = [1088] @ replicate 31 0"
    by (simp_all add: gc_example_def)
  have points: "(b, c) \<in> gc_points gc_example \<Longrightarrow> b \<in> {0, 3} \<Longrightarrow> c \<in> {0, 3}" for b c
    using runs by (auto simp: gc_points_def gc_chain_words_def gc_chain_len_def WORDS_PER_BLOCK_def gc_target_def VERIFY_PTR_def
        BLOCK_FROM_PTR_def BYTES_PER_BLOCK_def Let_def tables split: if_splits) (auto simp: gc_example_def)
  have "(b, c) \<in> (gc_points gc_example)\<^sup>* \<Longrightarrow> b \<in> {0, 3} \<Longrightarrow> c \<in> {0, 3}" for b c
    by (induction rule: rtrancl_induct) (use points in blast)+
  moreover have "gc_target gc_example 1040 = Some 0"
    by (simp add: gc_target_def VERIFY_PTR_def BLOCK_FROM_PTR_def BYTES_PER_BLOCK_def gc_example_kinds gc_blocks_def BLOCKS_PER_ATB_def)
      (simp add: gc_example_def)
  ultimately show ?thesis
    unfolding gc_reach_def by auto
qed

theorem gc_collect_exact_witness:
  "\<exists>s'. gc_collect 1 (\<lambda>b s. s) [] [1040] gc_example = Some s' \<and> gc_kind s' 2 = AT_FREE"
proof -
  have 1: "even (gc_lock_depth gc_example)" "gc_last_used_block gc_example < gc_blocks gc_example"
    by (simp_all add: gc_example_def gc_blocks_def BLOCKS_PER_ATB_def)
  have 2: "gc_del_ok (\<lambda>b s. s)"
    by (auto simp: gc_del_ok_def)
  obtain s' where s': "gc_collect 1 (\<lambda>b s. s) [] [1040] gc_example = Some s'"
    "\<forall>b c. gc_kind gc_example b = AT_HEAD \<and> b \<le> c \<and> c < b + gc_chain_len (gc_alloc_table gc_example) b \<longrightarrow>
       gc_kind s' c = (if b \<in> gc_reach gc_example ([] @ [1040]) then gc_kind gc_example c else AT_FREE)"
    using gc_collect_exact [OF gc_example_ok 1(1) 2 1(2), of 1 "[]" "[1040]"] by blast
  have "gc_kind gc_example 2 = AT_HEAD" "2 < 2 + gc_chain_len (gc_alloc_table gc_example) 2" "2 \<notin> gc_reach gc_example [1040]"
    using gc_example_reach by (auto simp: gc_example_kinds gc_chain_len_def)
  then show ?thesis
    using s'(1) s'(2) [rule_format, of 2 2] by simp
qed

text \<open>C25. An allocation from a well-formed heap always returns. With automatic collection enabled it collects exactly when
  the amount allocated since the last collection has reached the threshold or the heap has no run of free blocks of the requested length; with
  automatic collection disabled it never does. From the heap \<open>h\<close> that it searches then, it hands out the address of a run of
  free blocks of the requested length as one new chain with zeroed words, and leaves every other chain as it is; or it returns \<^verbatim>\<open>NULL\<close>, and then
  \<open>h\<close>, which it leaves as it is, is the heap after the collection if that is enabled and has no run of free blocks of that length.\<close>

theorem gc_alloc_correct:
  assumes "gc_ok s" and "gc_lock_depth s = 0" and "gc_del_ok del" and "gc_last_used_block s < gc_blocks s"
    and "0 < gc_n_blocks n_bytes"
  shows "\<exists>r h p s'. gc_collect limit del roots ptrs s = Some r \<and> gc_collected s (roots @ ptrs) r \<and>
    h = (if gc_auto_collect_enabled s \<and> (gc_alloc_threshold s \<le> gc_alloc_amount s \<or> \<not> gc_has_run s (gc_n_blocks n_bytes)) then r else s) \<and>
    gc_alloc (gc_collect limit del roots ptrs) n_bytes has_finaliser s = Some (p, s') \<and> gc_ok s' \<and>
    (case p of
       Some q \<Rightarrow> \<exists>b. q = PTR_FROM_BLOCK s' b \<and>
         (\<forall>c. b \<le> c \<and> c < b + gc_n_blocks n_bytes \<longrightarrow> gc_kind h c = AT_FREE) \<and>
         gc_kind s' b = AT_HEAD \<and> gc_chain_len (gc_alloc_table s') b = gc_n_blocks n_bytes \<and>
         gc_chain_words s' b = replicate (gc_n_blocks n_bytes * WORDS_PER_BLOCK) 0 \<and>
         (\<forall>k. gc_kind h k = AT_HEAD \<longrightarrow> gc_same_chain h s' k)
     | None \<Rightarrow> s' = (if gc_auto_collect_enabled s then r else s) \<and>
         (\<forall>b. b + gc_n_blocks n_bytes \<le> gc_blocks s' \<longrightarrow>
           (\<exists>c. b \<le> c \<and> c < b + gc_n_blocks n_bytes \<and> gc_kind s' c \<noteq> AT_FREE)))"
proof (rule gc_alloc_exact [OF assms, where limit = limit and roots = roots and ptrs = ptrs and fin = has_finaliser])
  fix r h p s'
  let ?n = "gc_n_blocks n_bytes"
  assume r: "gc_collect limit del roots ptrs s = Some r" "gc_collected s (roots @ ptrs) r" "h = gc_alloc_heap s r ?n"
    and run: "gc_alloc (gc_collect limit del roots ptrs) n_bytes has_finaliser s = Some (p, s')" and ok: "gc_ok s'" "gc_ok h"
    and p: "case p of Some q \<Rightarrow> \<exists>b. gc_allocated h b ?n s' \<and> q = PTR_FROM_BLOCK h b | None \<Rightarrow> s' = h \<and> \<not> gc_has_run h ?n"
  show ?thesis
  proof (cases p)
    case None
    then have "s' = h" "\<not> gc_has_run h ?n"
      using p by simp_all
    moreover from this have "h = (if gc_auto_collect_enabled s then r else s)"
      using r(3) by (auto simp: gc_alloc_heap_def)
    ultimately show ?thesis
      using r run ok None unfolding gc_alloc_heap_def by (intro exI [of _ r] exI [of _ h] exI [of _ p] exI [of _ s']) (auto simp: gc_has_run_def)
  next
    case (Some q)
    then obtain b where b: "gc_allocated h b ?n s'" "q = PTR_FROM_BLOCK h b"
      using p by auto
    then have "q = PTR_FROM_BLOCK s' b" "\<forall>c. b \<le> c \<and> c < b + ?n \<longrightarrow> gc_kind h c = AT_FREE"
      by (simp_all add: PTR_FROM_BLOCK_def gc_allocated_def)
    then show ?thesis
      using r run ok Some gc_allocated_chain [OF b(1) ok(2)] gc_allocated_same [OF b(1) ok(2)] unfolding gc_alloc_heap_def
      by (intro exI [of _ r] exI [of _ h] exI [of _ p] exI [of _ s']) auto
  qed
qed

theorem gc_alloc_correct_witness:
  "\<exists>p s'. gc_alloc (gc_collect 1 (\<lambda>b s. s) [] [1040]) 40 False gc_example = Some (p, s') \<and> gc_ok s'"
proof -
  have h: "gc_lock_depth gc_example = 0" "gc_last_used_block gc_example < gc_blocks gc_example" "0 < gc_n_blocks 40"
    by (simp_all add: gc_example_def gc_blocks_def BLOCKS_PER_ATB_def gc_n_blocks_def BYTES_PER_BLOCK_def)
  have "gc_del_ok (\<lambda>b s. s)"
    by (auto simp: gc_del_ok_def)
  then show ?thesis
    using gc_alloc_correct [OF gc_example_ok h(1) _ h(2,3), of "\<lambda>b s. s" 1 "[]" "[1040]" False] by blast
qed

text \<open>C26. \<^verbatim>\<open>gc_free\<close> of the address of a chain frees the blocks of that chain and no other block,
  keeps the words of the heap and its well-formedness.\<close>

theorem gc_free_correct:
  assumes "gc_ok s" and "gc_lock_depth s = 0" and "VERIFY_PTR s p" and "gc_kind s (BLOCK_FROM_PTR s p) = AT_HEAD"
  shows "\<exists>s'. gc_free (Some p) s = Some s' \<and> gc_ok s' \<and> gc_pool s' = gc_pool s \<and>
    (\<forall>c. gc_kind s' c = (if BLOCK_FROM_PTR s p \<le> c \<and> c < BLOCK_FROM_PTR s p + gc_chain_len (gc_alloc_table s) (BLOCK_FROM_PTR s p)
       then AT_FREE else gc_kind s c))"
  using gc_free_ok [OF assms] unfolding gc_freed_def by blast

theorem gc_free_correct_witness: "\<exists>s'. gc_free (Some 1072) gc_example = Some s' \<and> gc_ok s'"
proof -
  have "gc_lock_depth gc_example = 0" "VERIFY_PTR gc_example 1072" "gc_kind gc_example (BLOCK_FROM_PTR gc_example 1072) = AT_HEAD"
    by (simp_all add: gc_example_kinds VERIFY_PTR_def BLOCK_FROM_PTR_def BYTES_PER_BLOCK_def gc_blocks_def BLOCKS_PER_ATB_def)
      (simp_all add: gc_example_def)
  then show ?thesis
    using gc_free_correct [OF gc_example_ok] by blast
qed

text \<open>C27. Resizing a chain that the roots reach always returns. On success the result is the address
  of a chain of the requested length that holds the old words, cut or followed by zeros; a moved
  chain leaves its old blocks free; on failure the old chain is as it was. Whether the chain is cut,
  extended in place or moved, every other chain that the collection, if there was one, kept is as it
  was. (The words are those before the call when the finalisers leave the heap's words alone.)\<close>

theorem gc_realloc_correct:
  assumes "gc_ok s" and "gc_lock_depth s = 0" and "gc_del_ok del" and "gc_last_used_block s < gc_blocks s"
    and "VERIFY_PTR s q" and "b = BLOCK_FROM_PTR s q" and "gc_kind s b = AT_HEAD" and "b \<in> gc_reach s (roots @ ptrs)"
    and "0 < n_bytes" and "0 < gc_n_blocks n_bytes"
  shows "\<exists>p s'. gc_realloc (gc_collect limit del roots ptrs) (Some q) n_bytes allow_move s = Some (p, s') \<and>
    gc_resized (gc_quiet del) (roots @ ptrs) s b (gc_n_blocks n_bytes) p s'"
  by (rule gc_realloc_ok [OF assms])

theorem gc_realloc_correct_witness:
  "\<exists>p s'. gc_realloc (gc_collect 1 (\<lambda>b s. s) [] [1040]) (Some 1040) 60 True gc_example = Some (p, s') \<and>
    gc_resized True [1040] gc_example 0 4 p s'"
proof -
  have h: "gc_lock_depth gc_example = 0" "gc_last_used_block gc_example < gc_blocks gc_example" "VERIFY_PTR gc_example 1040"
      "0 = BLOCK_FROM_PTR gc_example 1040" "gc_kind gc_example 0 = AT_HEAD" "(0 :: nat) < 60" "0 < gc_n_blocks 60"
      "gc_n_blocks 60 = 4"
    by (simp_all add: gc_example_kinds VERIFY_PTR_def BLOCK_FROM_PTR_def BYTES_PER_BLOCK_def gc_blocks_def BLOCKS_PER_ATB_def gc_n_blocks_def)
      (simp_all add: gc_example_def)
  have d: "gc_del_ok (\<lambda>b s. s)" "gc_quiet (\<lambda>b s. s)"
    by (auto simp: gc_del_ok_def gc_quiet_def)
  have "gc_target gc_example 1040 = Some 0"
    using h by (simp add: gc_target_def)
  then have "0 \<in> gc_reach gc_example ([] @ [1040])"
    by (auto simp: gc_reach_def)
  from gc_realloc_correct [OF gc_example_ok h(1) d(1) h(2,3,4,5) this h(6,7), of 1 True]
  show ?thesis
    using d(2) by (simp add: h(8))
qed

text \<open>C28. When \<^verbatim>\<open>gc_realloc\<close> extends a chain in place up to the end of the heap, it records the block after the end as the last
  used one. If the allocation table has an even number of bytes, so that the finaliser table has no bits to spare, the next collection
  then reads past the finaliser table: the sweep of the finalisers takes one byte too many.\<close>

theorem gc_collect_reads_past_table:
  assumes "gc_ok s" and "gc_lock_depth s = 0" and "VERIFY_PTR s q" and "b = BLOCK_FROM_PTR s q" and "gc_kind s b = AT_HEAD"
    and "gc_chain_len (gc_alloc_table s) b < gc_n_blocks n_bytes" and "b + gc_n_blocks n_bytes = gc_blocks s"
    and "\<forall>c. b + gc_chain_len (gc_alloc_table s) b \<le> c \<and> c < gc_blocks s \<longrightarrow> gc_kind s c = AT_FREE"
    and "even (length (gc_alloc_table s))" and "gc_del_ok del"
  shows "\<exists>s'. gc_realloc collect (Some q) n_bytes allow_move s = Some (Some q, s') \<and> gc_last_used_block s' = gc_blocks s' \<and>
    gc_collect limit del roots ptrs s' = None"
proof (rule gc_realloc_to_end [where collect = collect and allow_move = allow_move, OF assms(1-5) refl assms(6-8)])
  fix s'
  assume "gc_realloc collect (Some q) n_bytes allow_move s = Some (Some q, s')" "gc_last_used_block s' = gc_blocks s'"
    and "gc_ok s'" "length (gc_alloc_table s') = length (gc_alloc_table s)" "gc_lock_depth s' = 0"
  then show ?thesis
    using gc_collect_past_end [of s' del limit roots ptrs] assms(9,10) by simp
qed

theorem gc_collect_reads_past_table_witness:
  "\<exists>s. gc_realloc (gc_collect 1 (\<lambda>b s. s) [] [1040]) (Some 1088) 80 True gc_example = Some (Some 1088, s) \<and>
    gc_collect 1 (\<lambda>b s. s) [] [1040] s = None"
proof -
  have tables: "gc_pool_start gc_example = 1040" "gc_blocks gc_example = 8" "gc_lock_depth gc_example = 0" "length (gc_alloc_table gc_example) = 2"
    by (simp_all add: gc_example_def gc_blocks_def BLOCKS_PER_ATB_def)
  have ptr: "VERIFY_PTR gc_example 1088" "3 = BLOCK_FROM_PTR gc_example 1088"
    by (simp_all add: VERIFY_PTR_def BLOCK_FROM_PTR_def BYTES_PER_BLOCK_def tables)
  have n: "gc_n_blocks 80 = 5"
    by (simp add: gc_n_blocks_def BYTES_PER_BLOCK_def)
  have "tail_run (gc_alloc_table gc_example) 4 = 0"
    by (subst tail_run_step) (simp add: gc_example_kinds [unfolded gc_kind_def])
  then have chain: "gc_chain_len (gc_alloc_table gc_example) 3 = 1"
    by (simp add: gc_chain_len_def)
  have d: "gc_del_ok (\<lambda>b s. s)"
    by (auto simp: gc_del_ok_def)
  show ?thesis
    using gc_collect_reads_past_table [OF gc_example_ok tables(3) ptr, of 80 "\<lambda>b s. s" "gc_collect 1 (\<lambda>b s. s) [] [1040]" True 1 "[]" "[1040]"] d
    by (auto simp: gc_example_kinds chain n tables)
qed

end
