(* ===== verification/Py_Int.thy ===== *)
theory Py_Int
  imports Small_Int Mpz_Conv
begin

text \<open>
  The objects of type \<^verbatim>\<open>int\<close> and their operators: \<^verbatim>\<open>py/objint_mpz.c\<close> and the part of \<^verbatim>\<open>mp_unary_op\<close>,
  \<^verbatim>\<open>mp_binary_op\<close> (\<^verbatim>\<open>py/runtime.c\<close>) and \<^verbatim>\<open>mp_obj_equal_not_equal\<close> (\<^verbatim>\<open>py/obj.c\<close>) that runs when the
  operands are integers. An integer is a tagged word or a heap object that holds an \<^typ>\<open>mpz\<close>. An
  operation gives \<open>None\<close> where an assertion of the code fails.
\<close>

datatype int_obj = Small u32 | Big mpz

datatype int_error = ZeroDivisionError | ValueError | OverflowError | TypeError

text \<open>
  \<^verbatim>\<open>mp_binary_op_t\<close>. The groups \<^verbatim>\<open>MP_BINARY_OP_*\<close>, \<^verbatim>\<open>MP_BINARY_OP_INPLACE_*\<close> and
  \<^verbatim>\<open>MP_BINARY_OP_REVERSE_*\<close> have the same members in the same order.
\<close>

datatype arith_op =
  OP_OR | OP_XOR | OP_AND | OP_LSHIFT | OP_RSHIFT | OP_ADD | OP_SUBTRACT | OP_MULTIPLY | OP_MAT_MULTIPLY
| OP_FLOOR_DIVIDE | OP_TRUE_DIVIDE | OP_MODULO | OP_POWER

datatype binary_op =
  Plain arith_op | Inplace arith_op | Reverse arith_op | OP_DIVMOD
| OP_LESS | OP_MORE | OP_EQUAL | OP_LESS_EQUAL | OP_MORE_EQUAL | OP_NOT_EQUAL

datatype unary_op = OP_POSITIVE | OP_NEGATIVE | OP_INVERT | OP_NOT | OP_BOOL | OP_HASH | OP_ABS | OP_INT_MAYBE

text \<open>
  The results: an object, a bool, the pair that \<^verbatim>\<open>divmod\<close> makes, an operation on floats that the code
  delegates to (with its operands), \<^verbatim>\<open>MP_OBJ_NULL\<close>, and a raised exception.
\<close>

datatype int_result =
  Res_Int int_obj | Res_Bool bool | Res_Pair int_obj int_obj | Res_Float arith_op int_obj int_obj
| Res_Null | Res_Raise int_error

section \<open>Creation and conversion\<close>

definition mp_obj_new_int_from_ll :: "64 word \<Rightarrow> int_obj option" where
  "mp_obj_new_int_from_ll val =
     do { \<sigma> \<leftarrow> mpz_set_from_ll (Ob 0) val True (mpz_init_zero (Ob 0) (\<lambda>_. mpz_zero)); Some (Big (\<sigma> (Ob 0))) }"

definition mp_obj_new_int_from_ull :: "64 word \<Rightarrow> int_obj option" where
  "mp_obj_new_int_from_ull val =
     do { \<sigma> \<leftarrow> mpz_set_from_ll (Ob 0) val False (mpz_init_zero (Ob 0) (\<lambda>_. mpz_zero)); Some (Big (\<sigma> (Ob 0))) }"

definition mp_obj_new_int :: "u32 \<Rightarrow> int_obj option" where
  "mp_obj_new_int value =
     (if MP_SMALL_INT_FITS value then Some (Small (MP_OBJ_NEW_SMALL_INT value))
      else mp_obj_new_int_from_ll (scast value))"

definition mp_obj_new_int_from_uint :: "u32 \<Rightarrow> int_obj option" where
  "mp_obj_new_int_from_uint value =
     (if value AND NOT MP_SMALL_INT_POSITIVE_MASK = 0 then Some (Small (MP_OBJ_NEW_SMALL_INT value))
      else mp_obj_new_int_from_ull (ucast value))"

definition mp_obj_int_sign :: "int_obj \<Rightarrow> int" where
  "mp_obj_int_sign self =
     (case self of
        Small ob \<Rightarrow> let val = MP_OBJ_SMALL_INT_VALUE ob in if val <s 0 then - 1 else if 0 <s val then 1 else 0
      | Big z \<Rightarrow> if z_len z = 0 then 0 else if \<not> z_neg z then 1 else - 1)"

definition mp_obj_int_get_truncated :: "int_obj \<Rightarrow> u32" where
  "mp_obj_int_get_truncated self =
     (case self of Small ob \<Rightarrow> MP_OBJ_SMALL_INT_VALUE ob | Big z \<Rightarrow> mpz_hash z)"

definition mp_obj_int_get_checked :: "int_obj \<Rightarrow> int_error + u32" where
  "mp_obj_int_get_checked self =
     (case self of
        Small ob \<Rightarrow> Inr (MP_OBJ_SMALL_INT_VALUE ob)
      | Big z \<Rightarrow> (case mpz_as_int_checked z of Some value \<Rightarrow> Inr value | None \<Rightarrow> Inl OverflowError))"

definition mp_obj_int_get_uint_checked :: "int_obj \<Rightarrow> int_error + u32" where
  "mp_obj_int_get_uint_checked self =
     (case self of
        Small ob \<Rightarrow> if 0 \<le>s MP_OBJ_SMALL_INT_VALUE ob then Inr (MP_OBJ_SMALL_INT_VALUE ob) else Inl OverflowError
      | Big z \<Rightarrow> (case mpz_as_uint_checked z of Some value \<Rightarrow> Inr value | None \<Rightarrow> Inl OverflowError))"

section \<open>The operators of int objects\<close>

definition mp_obj_int_unary_op :: "unary_op \<Rightarrow> mpz \<Rightarrow> int_result option" where
  "mp_obj_int_unary_op op z =
     (let \<sigma> = mpz_init_zero (Ob 1) ((\<lambda>_. mpz_zero)(Ob 0 := z))
      in case op of
           OP_BOOL \<Rightarrow> Some (Res_Bool (\<not> mpz_is_zero z))
         | OP_HASH \<Rightarrow> Some (Res_Int (Small (MP_OBJ_NEW_SMALL_INT (mpz_hash z))))
         | OP_POSITIVE \<Rightarrow> Some (Res_Int (Big z))
         | OP_NEGATIVE \<Rightarrow> do { \<sigma>' \<leftarrow> mpz_neg_inpl (Ob 1) (Ob 0) \<sigma>; Some (Res_Int (Big (\<sigma>' (Ob 1)))) }
         | OP_INVERT \<Rightarrow> do { \<sigma>' \<leftarrow> mpz_not_inpl (Ob 1) (Ob 0) \<sigma>; Some (Res_Int (Big (\<sigma>' (Ob 1)))) }
         | OP_ABS \<Rightarrow>
             if \<not> z_neg z then Some (Res_Int (Big z))
             else do { \<sigma>' \<leftarrow> mpz_abs_inpl (Ob 1) (Ob 0) \<sigma>; Some (Res_Int (Big (\<sigma>' (Ob 1)))) }
         | OP_INT_MAYBE \<Rightarrow> Some (Res_Int (Big z))
         | OP_NOT \<Rightarrow> Some Res_Null)"

text \<open>
  The operands of \<^verbatim>\<open>mp_obj_int_binary_op\<close>: \<open>Tmp 4\<close> is the local \<^verbatim>\<open>z_int\<close>, which holds the operand
  that is a small integer in the fixed buffer \<^verbatim>\<open>z_int_dig\<close>. The new object \<^verbatim>\<open>res\<close> is \<open>Ob 2\<close>,
  and the second result of a division is \<open>Ob 3\<close>.
\<close>

definition zptr :: "addr \<Rightarrow> int_obj \<Rightarrow> addr" where
  "zptr a x = (case x of Small _ \<Rightarrow> Tmp 4 | Big _ \<Rightarrow> a)"

definition mpz_operand :: "addr \<Rightarrow> int_obj \<Rightarrow> mpz_store \<Rightarrow> mpz_store option" where
  "mpz_operand a x \<sigma> =
     (case x of
        Small ob \<Rightarrow> mpz_init_fixed_from_int (zptr a x) [0, 0] (MP_OBJ_SMALL_INT_VALUE ob) \<sigma>
      | Big z \<Rightarrow> Some (\<sigma>(zptr a x := z)))"

text \<open>The end of the switch: a result that fits becomes a small integer.\<close>

definition mpz_to_obj :: "mpz \<Rightarrow> int_obj" where
  "mpz_to_obj res =
     (case mpz_as_int_checked res of
        Some res_small \<Rightarrow> if MP_SMALL_INT_FITS res_small then Small (MP_OBJ_NEW_SMALL_INT res_small) else Big res
      | None \<Rightarrow> Big res)"

definition int_result :: "mpz_store option \<Rightarrow> int_result option" where
  "int_result m = do { \<sigma> \<leftarrow> m; Some (Res_Int (mpz_to_obj (\<sigma> (Ob 2)))) }"

definition int_shift :: "(nat \<Rightarrow> mpz_store option) \<Rightarrow> int_obj \<Rightarrow> int_result option" where
  "int_shift shift rhs =
     (case mp_obj_int_get_checked rhs of
        Inl e \<Rightarrow> Some (Res_Raise e)
      | Inr irhs \<Rightarrow> if irhs <s 0 then Some (Res_Raise ValueError) else int_result (shift (unat irhs)))"

definition int_arith :: "arith_op \<Rightarrow> int_obj \<Rightarrow> int_obj \<Rightarrow> mpz_store \<Rightarrow> int_result option" where
  "int_arith op lhs rhs \<sigma> =
     (let l = zptr (Ob 0) lhs; r = zptr (Ob 1) rhs; res = Ob 2
      in case op of
           OP_ADD \<Rightarrow> int_result (mpz_add_inpl res l r \<sigma>)
         | OP_SUBTRACT \<Rightarrow> int_result (mpz_sub_inpl res l r \<sigma>)
         | OP_MULTIPLY \<Rightarrow> int_result (mpz_mul_inpl res l r \<sigma>)
         | OP_FLOOR_DIVIDE \<Rightarrow>
             if mpz_is_zero (\<sigma> r) then Some (Res_Raise ZeroDivisionError)
             else int_result (mpz_divmod_inpl res (Ob 3) l r \<sigma>)
         | OP_MODULO \<Rightarrow>
             if mpz_is_zero (\<sigma> r) then Some (Res_Raise ZeroDivisionError)
             else int_result (mpz_divmod_inpl (Ob 3) res l r \<sigma>)
         | OP_AND \<Rightarrow> int_result (mpz_and_inpl res l r \<sigma>)
         | OP_OR \<Rightarrow> int_result (mpz_or_inpl res l r \<sigma>)
         | OP_XOR \<Rightarrow> int_result (mpz_xor_inpl res l r \<sigma>)
         | OP_LSHIFT \<Rightarrow> int_shift (\<lambda>irhs. mpz_shl_inpl res l irhs \<sigma>) rhs
         | OP_RSHIFT \<Rightarrow> int_shift (\<lambda>irhs. mpz_shr_inpl res l irhs \<sigma>) rhs
         | OP_POWER \<Rightarrow>
             if mpz_is_neg (\<sigma> r) then Some (Res_Float op lhs rhs)
             else int_result (mpz_pow_inpl res l r \<sigma>)
         | OP_TRUE_DIVIDE \<Rightarrow>
             if mpz_is_zero (\<sigma> r) then Some (Res_Raise ZeroDivisionError) else Some (Res_Float op lhs rhs)
         | OP_MAT_MULTIPLY \<Rightarrow> Some Res_Null)"

definition mp_obj_int_binary_op :: "binary_op \<Rightarrow> int_obj \<Rightarrow> int_obj \<Rightarrow> int_result option" where
  "mp_obj_int_binary_op op lhs rhs =
     do { \<sigma>1 \<leftarrow> mpz_operand (Ob 0) lhs (\<lambda>_. mpz_zero);
          \<sigma> \<leftarrow> mpz_operand (Ob 1) rhs \<sigma>1;
          let l = zptr (Ob 0) lhs; r = zptr (Ob 1) rhs; cmp = mpz_cmp (\<sigma> l) (\<sigma> r)
          in case op of
               Plain a \<Rightarrow> int_arith a lhs rhs \<sigma>
             | Inplace a \<Rightarrow> int_arith a lhs rhs \<sigma>
             | OP_DIVMOD \<Rightarrow>
                 if mpz_is_zero (\<sigma> r) then Some (Res_Raise ZeroDivisionError)
                 else do { \<sigma>' \<leftarrow> mpz_divmod_inpl (Ob 3) (Ob 2) l r \<sigma>;
                           Some (Res_Pair (Big (\<sigma>' (Ob 3))) (Big (\<sigma>' (Ob 2)))) }
             | OP_LESS \<Rightarrow> Some (Res_Bool (cmp < 0))
             | OP_MORE \<Rightarrow> Some (Res_Bool (0 < cmp))
             | OP_LESS_EQUAL \<Rightarrow> Some (Res_Bool (cmp \<le> 0))
             | OP_MORE_EQUAL \<Rightarrow> Some (Res_Bool (0 \<le> cmp))
             | OP_EQUAL \<Rightarrow> Some (Res_Bool (cmp = 0))
             | _ \<Rightarrow> Some Res_Null }"

text \<open>\<^verbatim>\<open>mp_obj_int_pow3\<close> for three integers; \<^verbatim>\<open>l_temp\<close>, \<^verbatim>\<open>r_temp\<close>, \<^verbatim>\<open>m_temp\<close> and the result are
  \<open>Ob 0\<close> to \<open>Ob 3\<close>.\<close>

definition mp_mpz_for_int :: "addr \<Rightarrow> int_obj \<Rightarrow> mpz_store \<Rightarrow> mpz_store option" where
  "mp_mpz_for_int temp arg \<sigma> =
     (case arg of
        Small ob \<Rightarrow> mpz_init_from_int temp (MP_OBJ_SMALL_INT_VALUE ob) \<sigma>
      | Big z \<Rightarrow> Some (\<sigma>(temp := z)))"

definition mp_obj_int_pow3 :: "int_obj \<Rightarrow> int_obj \<Rightarrow> int_obj \<Rightarrow> int_obj option" where
  "mp_obj_int_pow3 base exponent modulus =
     do { \<sigma> \<leftarrow> mpz_set_from_ll (Ob 3) 0 False (\<lambda>_. mpz_zero);
          \<sigma>1 \<leftarrow> mp_mpz_for_int (Ob 0) base \<sigma>;
          \<sigma>2 \<leftarrow> mp_mpz_for_int (Ob 1) exponent \<sigma>1;
          \<sigma>3 \<leftarrow> mp_mpz_for_int (Ob 2) modulus \<sigma>2;
          \<sigma>4 \<leftarrow> mpz_pow3_inpl (Ob 3) (Ob 0) (Ob 1) (Ob 2) \<sigma>3;
          Some (Big (\<sigma>4 (Ob 3))) }"

section \<open>The runtime's dispatch\<close>

definition mp_unary_op :: "unary_op \<Rightarrow> int_obj \<Rightarrow> int_result option" where
  "mp_unary_op op arg =
     (case arg of
        Small ob \<Rightarrow>
          let val = MP_OBJ_SMALL_INT_VALUE ob
          in (case op of
                OP_NOT \<Rightarrow> Some (Res_Bool (val = 0))
              | OP_BOOL \<Rightarrow> Some (Res_Bool (val \<noteq> 0))
              | OP_HASH \<Rightarrow> Some (Res_Int arg)
              | OP_POSITIVE \<Rightarrow> Some (Res_Int arg)
              | OP_INT_MAYBE \<Rightarrow> Some (Res_Int arg)
              | OP_NEGATIVE \<Rightarrow>
                  if val = MP_SMALL_INT_MIN then map_option Res_Int (mp_obj_new_int (- val))
                  else Some (Res_Int (Small (MP_OBJ_NEW_SMALL_INT (- val))))
              | OP_ABS \<Rightarrow>
                  if 0 \<le>s val then Some (Res_Int arg)
                  else if val = MP_SMALL_INT_MIN then map_option Res_Int (mp_obj_new_int (- val))
                  else Some (Res_Int (Small (MP_OBJ_NEW_SMALL_INT (- val))))
              | OP_INVERT \<Rightarrow> Some (Res_Int (Small (MP_OBJ_NEW_SMALL_INT (NOT val)))))
      | Big z \<Rightarrow>
          if op = OP_NOT
          then (case mp_obj_int_unary_op OP_BOOL z of Some (Res_Bool b) \<Rightarrow> Some (Res_Bool (\<not> b)) | r \<Rightarrow> r)
          else mp_obj_int_unary_op op z)"

text \<open>From the label \<^verbatim>\<open>generic_binary_op\<close> on, with the fallbacks of an unsupported operator.\<close>

function generic_binary_op :: "binary_op \<Rightarrow> int_obj \<Rightarrow> int_obj \<Rightarrow> int_result option" where
  "generic_binary_op op lhs rhs =
     do { result \<leftarrow> mp_obj_int_binary_op op lhs rhs;
          if result \<noteq> Res_Null then Some result
          else case op of
                 Inplace a \<Rightarrow> generic_binary_op (Plain a) lhs rhs
               | Plain a \<Rightarrow> generic_binary_op (Reverse a) rhs lhs
               | _ \<Rightarrow> Some (Res_Raise TypeError) }"
  by pat_completeness auto

termination
  by (relation "measure (\<lambda>(op, _). case op of Inplace _ \<Rightarrow> 2 | Plain _ \<Rightarrow> 1 | _ \<Rightarrow> 0)") auto

declare generic_binary_op.simps [simp del]

lemma sint_half: "0 <s n \<Longrightarrow> sint (c_div n 2) = sint n div 2" for n :: u32
proof -
  assume "0 <s n"
  then have "0 < sint n"
    by (simp add: less_signed)
  moreover have "sint n div 2 \<le> sint n" "0 \<le> sint n div 2"
    using \<open>0 < sint n\<close> by simp_all
  ultimately show ?thesis
    using sint_range [of n] by (simp add: c_div_def signed_divide_int_def sint_word_of_int)
qed

text \<open>The loop of the power of small integers; \<open>None\<close> is the jump to \<^verbatim>\<open>power_overflow\<close>.\<close>

function small_pow_loop :: "u32 \<Rightarrow> u32 \<Rightarrow> u32 \<Rightarrow> u32 option" where
  "small_pow_loop ans lhs_val rhs_val =
     (if \<not> 0 <s rhs_val then Some ans
      else do { ans \<leftarrow> (if rhs_val AND 1 \<noteq> 0
                       then if mp_small_int_mul_overflow ans lhs_val then None else Some (ans * lhs_val)
                       else Some ans);
                if rhs_val = 1 then Some ans
                else if mp_small_int_mul_overflow lhs_val lhs_val then None
                else small_pow_loop ans (lhs_val * lhs_val) (c_div rhs_val 2) })"
  by pat_completeness auto

termination
  by (relation "measure (\<lambda>(_, _, n). nat (sint n))") (auto simp: sint_half less_signed)

declare small_pow_loop.simps [simp del]

text \<open>The switch for two small integers and the inlined \<^verbatim>\<open>mp_obj_new_int\<close> after it.\<close>

definition small_shl_overflow :: "u32 \<Rightarrow> u32 \<Rightarrow> bool" where
  "small_shl_overflow lhs_val rhs_val \<longleftrightarrow>
     32 \<le>s rhs_val \<or> signed_drop_bit (unat rhs_val) MP_SMALL_INT_MAX <s lhs_val \<or>
     lhs_val <s signed_drop_bit (unat rhs_val) MP_SMALL_INT_MIN"

definition small_int_result :: "u32 \<Rightarrow> int_result option" where
  "small_int_result val =
     (if MP_SMALL_INT_FITS val then Some (Res_Int (Small (MP_OBJ_NEW_SMALL_INT val)))
      else map_option Res_Int (mp_obj_new_int_from_ll (scast val)))"

definition small_overflow :: "binary_op \<Rightarrow> u32 \<Rightarrow> u32 \<Rightarrow> int_result option" where
  "small_overflow op lhs_val rhs =
     do { lhs \<leftarrow> mp_obj_new_int_from_ll (scast lhs_val); generic_binary_op op lhs (Small rhs) }"

definition small_arith :: "binary_op \<Rightarrow> arith_op \<Rightarrow> u32 \<Rightarrow> u32 \<Rightarrow> int_result option" where
  "small_arith op a lhs rhs =
     (let lhs_val = MP_OBJ_SMALL_INT_VALUE lhs; rhs_val = MP_OBJ_SMALL_INT_VALUE rhs
      in case a of
           OP_OR \<Rightarrow> small_int_result (lhs_val OR rhs_val)
         | OP_XOR \<Rightarrow> small_int_result (lhs_val XOR rhs_val)
         | OP_AND \<Rightarrow> small_int_result (lhs_val AND rhs_val)
         | OP_LSHIFT \<Rightarrow>
             if rhs_val <s 0 then Some (Res_Raise ValueError)
             else if small_shl_overflow lhs_val rhs_val then small_overflow op lhs_val rhs
             else small_int_result (push_bit (unat rhs_val) lhs_val)
         | OP_RSHIFT \<Rightarrow>
             if rhs_val <s 0 then Some (Res_Raise ValueError)
             else small_int_result (signed_drop_bit (unat (if 32 \<le>s rhs_val then 31 else rhs_val)) lhs_val)
         | OP_ADD \<Rightarrow> small_int_result (lhs_val + rhs_val)
         | OP_SUBTRACT \<Rightarrow> small_int_result (lhs_val - rhs_val)
         | OP_MULTIPLY \<Rightarrow>
             if mp_small_int_mul_overflow lhs_val rhs_val then small_overflow op lhs_val rhs
             else Some (Res_Int (Small (MP_OBJ_NEW_SMALL_INT (lhs_val * rhs_val))))
         | OP_FLOOR_DIVIDE \<Rightarrow>
             if rhs_val = 0 then Some (Res_Raise ZeroDivisionError)
             else small_int_result (mp_small_int_floor_divide lhs_val rhs_val)
         | OP_TRUE_DIVIDE \<Rightarrow>
             if rhs_val = 0 then Some (Res_Raise ZeroDivisionError) else Some (Res_Float a (Small lhs) (Small rhs))
         | OP_MODULO \<Rightarrow>
             if rhs_val = 0 then Some (Res_Raise ZeroDivisionError)
             else small_int_result (mp_small_int_modulo lhs_val rhs_val)
         | OP_POWER \<Rightarrow>
             if rhs_val <s 0 then Some (Res_Float a (Small lhs) (Small rhs))
             else (case small_pow_loop 1 lhs_val rhs_val of
                     Some ans \<Rightarrow> small_int_result ans
                   | None \<Rightarrow> small_overflow op (MP_OBJ_SMALL_INT_VALUE lhs) rhs)
         | OP_MAT_MULTIPLY \<Rightarrow> Some (Res_Raise TypeError))"

definition small_binary_op :: "binary_op \<Rightarrow> u32 \<Rightarrow> u32 \<Rightarrow> int_result option" where
  "small_binary_op op lhs rhs =
     (let lhs_val = MP_OBJ_SMALL_INT_VALUE lhs; rhs_val = MP_OBJ_SMALL_INT_VALUE rhs
      in case op of
           Plain a \<Rightarrow> small_arith op a lhs rhs
         | Inplace a \<Rightarrow> small_arith op a lhs rhs
         | OP_DIVMOD \<Rightarrow>
             if rhs_val = 0 then Some (Res_Raise ZeroDivisionError)
             else Some (Res_Pair (Small (MP_OBJ_NEW_SMALL_INT (mp_small_int_floor_divide lhs_val rhs_val)))
                                 (Small (MP_OBJ_NEW_SMALL_INT (mp_small_int_modulo lhs_val rhs_val))))
         | OP_LESS \<Rightarrow> Some (Res_Bool (lhs_val <s rhs_val))
         | OP_MORE \<Rightarrow> Some (Res_Bool (rhs_val <s lhs_val))
         | OP_LESS_EQUAL \<Rightarrow> Some (Res_Bool (lhs_val \<le>s rhs_val))
         | OP_MORE_EQUAL \<Rightarrow> Some (Res_Bool (rhs_val \<le>s lhs_val))
         | _ \<Rightarrow> Some (Res_Raise TypeError))"

text \<open>
  \<^verbatim>\<open>mp_obj_equal_not_equal\<close> for integers. The shortcut for two pointers to one object is left out:
  there the comparison of the digits gives the same result.
\<close>

definition int_equal_not_equal :: "binary_op \<Rightarrow> int_obj \<Rightarrow> int_obj \<Rightarrow> int_result option" where
  "int_equal_not_equal op o1 o2 =
     do { r \<leftarrow> (case (o1, o2) of
                  (Small a, Small b) \<Rightarrow> Some (Res_Bool (a = b))
                | (Small _, Big _) \<Rightarrow> mp_obj_int_binary_op OP_EQUAL o2 o1
                | (Big _, _) \<Rightarrow> mp_obj_int_binary_op OP_EQUAL o1 o2);
          Some (case r of Res_Bool b \<Rightarrow> Res_Bool (if op = OP_NOT_EQUAL then \<not> b else b) | _ \<Rightarrow> r) }"

definition mp_binary_op :: "binary_op \<Rightarrow> int_obj \<Rightarrow> int_obj \<Rightarrow> int_result option" where
  "mp_binary_op op lhs rhs =
     (if op = OP_EQUAL \<or> op = OP_NOT_EQUAL then int_equal_not_equal op lhs rhs
      else case (lhs, rhs) of
             (Small l, Small r) \<Rightarrow> small_binary_op op l r
           | _ \<Rightarrow> generic_binary_op op lhs rhs)"

end
