(* ===== verification/Py_Int_Correct.thy ===== *)
theory Py_Int_Correct
  imports Py_Int Mpz_Conv_Correct
begin

text \<open>
  What the operators of theory Py_Int compute: the values of Python's integers, as objects of the
  right shape. A well-formed object that is \<open>canonical\<close> has one representation: the integers
  that fit a small integer are never on the heap.
\<close>

definition int_val :: "int_obj \<Rightarrow> int" where
  "int_val x = (case x of Small ob \<Rightarrow> sint (MP_OBJ_SMALL_INT_VALUE ob) | Big z \<Rightarrow> mpz_val z)"

definition int_ok :: "int_obj \<Rightarrow> bool" where
  "int_ok x \<longleftrightarrow> (case x of Small ob \<Rightarrow> ob AND 1 = 1 | Big z \<Rightarrow> mpz_ok z \<and> \<not> z_fixed z)"

definition canonical :: "int_obj \<Rightarrow> bool" where
  "canonical x \<longleftrightarrow> (case x of Small ob \<Rightarrow> True | Big z \<Rightarrow> \<not> small_range (mpz_val z))"

definition is_small :: "int_obj \<Rightarrow> bool" where
  "is_small x \<longleftrightarrow> (case x of Small _ \<Rightarrow> True | Big _ \<Rightarrow> False)"

lemmas int_obj_defs = int_val_def int_ok_def canonical_def is_small_def

section \<open>Python's operators\<close>

datatype py_value = Py_Int int | Py_Bool bool | Py_Pair int int | Py_Float | Py_Raise int_error

definition py_shift :: "(nat \<Rightarrow> int) \<Rightarrow> int \<Rightarrow> py_value" where
  "py_shift f y = (if y < 0 then Py_Raise ValueError else Py_Int (f (nat y)))"

definition py_arith :: "arith_op \<Rightarrow> int \<Rightarrow> int \<Rightarrow> py_value" where
  "py_arith a x y =
     (case a of
        OP_OR \<Rightarrow> Py_Int (x OR y) | OP_XOR \<Rightarrow> Py_Int (x XOR y) | OP_AND \<Rightarrow> Py_Int (x AND y)
      | OP_LSHIFT \<Rightarrow> py_shift (\<lambda>n. push_bit n x) y
      | OP_RSHIFT \<Rightarrow> py_shift (\<lambda>n. drop_bit n x) y
      | OP_ADD \<Rightarrow> Py_Int (x + y) | OP_SUBTRACT \<Rightarrow> Py_Int (x - y) | OP_MULTIPLY \<Rightarrow> Py_Int (x * y)
      | OP_MAT_MULTIPLY \<Rightarrow> Py_Raise TypeError
      | OP_FLOOR_DIVIDE \<Rightarrow> if y = 0 then Py_Raise ZeroDivisionError else Py_Int (x div y)
      | OP_TRUE_DIVIDE \<Rightarrow> if y = 0 then Py_Raise ZeroDivisionError else Py_Float
      | OP_MODULO \<Rightarrow> if y = 0 then Py_Raise ZeroDivisionError else Py_Int (x mod y)
      | OP_POWER \<Rightarrow> if y < 0 then Py_Float else Py_Int (x ^ nat y))"

definition py_binary_op :: "binary_op \<Rightarrow> int \<Rightarrow> int \<Rightarrow> py_value" where
  "py_binary_op op x y =
     (case op of
        Plain a \<Rightarrow> py_arith a x y | Inplace a \<Rightarrow> py_arith a x y | Reverse _ \<Rightarrow> Py_Raise TypeError
      | OP_DIVMOD \<Rightarrow> if y = 0 then Py_Raise ZeroDivisionError else Py_Pair (x div y) (x mod y)
      | OP_LESS \<Rightarrow> Py_Bool (x < y) | OP_MORE \<Rightarrow> Py_Bool (y < x) | OP_LESS_EQUAL \<Rightarrow> Py_Bool (x \<le> y)
      | OP_MORE_EQUAL \<Rightarrow> Py_Bool (y \<le> x) | OP_EQUAL \<Rightarrow> Py_Bool (x = y) | OP_NOT_EQUAL \<Rightarrow> Py_Bool (x \<noteq> y))"

text \<open>
  The code has a limit that Python has not: a shift count must fit in the machine word, for either direction of
  the shift and whatever is shifted, and the check comes before that of the sign.
\<close>

definition lim_arith :: "arith_op \<Rightarrow> int \<Rightarrow> int \<Rightarrow> py_value" where
  "lim_arith a x y =
     (if (a = OP_LSHIFT \<or> a = OP_RSHIFT) \<and> 2 ^ 31 \<le> \<bar>y\<bar> then Py_Raise OverflowError else py_arith a x y)"

definition lim_binary_op :: "binary_op \<Rightarrow> int \<Rightarrow> int \<Rightarrow> py_value" where
  "lim_binary_op op x y =
     (case op of Plain a \<Rightarrow> lim_arith a x y | Inplace a \<Rightarrow> lim_arith a x y | _ \<Rightarrow> py_binary_op op x y)"

definition lim_shift :: "(nat \<Rightarrow> int) \<Rightarrow> int \<Rightarrow> py_value" where
  "lim_shift f y = (if 2 ^ 31 \<le> \<bar>y\<bar> then Py_Raise OverflowError else py_shift f y)"

lemma lim_arith_shift: "lim_arith OP_LSHIFT x y = lim_shift (\<lambda>n. push_bit n x) y" "lim_arith OP_RSHIFT x y = lim_shift (\<lambda>n. drop_bit n x) y"
  by (simp_all add: lim_arith_def lim_shift_def py_arith_def)

lemma lim_arith_other: "a \<noteq> OP_LSHIFT \<Longrightarrow> a \<noteq> OP_RSHIFT \<Longrightarrow> lim_arith a x y = py_arith a x y"
  by (simp add: lim_arith_def)

lemma lim_arith_small: "\<bar>y\<bar> < 2 ^ 31 \<Longrightarrow> lim_arith a x y = py_arith a x y"
  by (simp add: lim_arith_def)

lemmas lim_defs = lim_binary_op_def lim_arith_def py_binary_op_def

text \<open>A result is well-formed and has a value; with \<open>c\<close>, an integer that is not part of a pair is canonical.\<close>

fun res_is :: "bool \<Rightarrow> int_result \<Rightarrow> py_value \<Rightarrow> bool" where
  "res_is c (Res_Int x) v \<longleftrightarrow> int_ok x \<and> (c \<longrightarrow> canonical x) \<and> v = Py_Int (int_val x)"
| "res_is c (Res_Bool b) v \<longleftrightarrow> v = Py_Bool b"
| "res_is c (Res_Pair p q) v \<longleftrightarrow> int_ok p \<and> int_ok q \<and> v = Py_Pair (int_val p) (int_val q)"
| "res_is c (Res_Float _ _ _) v \<longleftrightarrow> v = Py_Float"
| "res_is c Res_Null v \<longleftrightarrow> False"
| "res_is c (Res_Raise e) v \<longleftrightarrow> v = Py_Raise e"

definition gives_any :: "bool \<Rightarrow> int_result option \<Rightarrow> py_value \<Rightarrow> bool" where
  "gives_any c m v \<longleftrightarrow> (\<exists>r. m = Some r \<and> res_is c r v)"

abbreviation gives :: "int_result option \<Rightarrow> py_value \<Rightarrow> bool" where
  "gives \<equiv> gives_any True"

lemma gives_simps [simp]:
  "gives_any c (Some (Res_Raise e)) v \<longleftrightarrow> v = Py_Raise e" "gives_any c (Some (Res_Bool b)) v \<longleftrightarrow> v = Py_Bool b"
  "gives_any c (Some (Res_Float a x y)) v \<longleftrightarrow> v = Py_Float"
  "gives_any c (Some (Res_Int x)) v \<longleftrightarrow> int_ok x \<and> (c \<longrightarrow> canonical x) \<and> v = Py_Int (int_val x)"
  "gives_any c (Some (Res_Pair x y)) v \<longleftrightarrow> int_ok x \<and> int_ok y \<and> v = Py_Pair (int_val x) (int_val y)"
  by (simp_all add: gives_any_def)

section \<open>Objects\<close>

lemma small_new_ok: "int_ok (Small (MP_OBJ_NEW_SMALL_INT v))"
proof -
  have "MP_OBJ_NEW_SMALL_INT v AND 1 = 1"
    unfolding MP_OBJ_NEW_SMALL_INT_def by (rule bit_word_eqI) (auto simp: bit_simps)
  then show ?thesis
    by (simp add: int_ok_def)
qed

lemma small_new:
  assumes "small_range (sint v)"
  shows "int_ok (Small (MP_OBJ_NEW_SMALL_INT v))" and "canonical (Small (MP_OBJ_NEW_SMALL_INT v))"
    and "int_val (Small (MP_OBJ_NEW_SMALL_INT v)) = sint v"
  using small_new_ok small_new_fits [OF assms] by (simp_all add: int_val_def canonical_def)

lemma small_val_range: "small_range (int_val (Small ob))"
  by (simp add: int_val_def small_value_range)

lemma small_tag_eq:
  assumes "a AND 1 = 1" and "b AND 1 = (1 :: u32)" and "sint (MP_OBJ_SMALL_INT_VALUE a) = sint (MP_OBJ_SMALL_INT_VALUE b)"
  shows "a = b"
proof (rule bit_word_eqI)
  fix n :: nat
  assume n: "n < LENGTH(32)"
  have v: "signed_drop_bit 1 a = signed_drop_bit 1 b"
    using assms(3) by (simp add: MP_OBJ_SMALL_INT_VALUE_def signed_word_eqI)
  have z: "bit a 0" "bit b 0"
    using assms(1,2) by (metis bit_and_iff bit_1_iff)+
  show "bit a n \<longleftrightarrow> bit b n"
  proof (cases n)
    case (Suc m)
    have "bit (signed_drop_bit 1 a) m = bit (signed_drop_bit 1 b) m"
      using v by simp
    then show ?thesis
      using n Suc by (simp add: bit_signed_drop_bit_iff split: if_splits)
  qed (use z in simp)
qed

lemma canonical_unique_small: "int_ok (Small a) \<Longrightarrow> int_ok (Small b) \<Longrightarrow> a = b \<longleftrightarrow> int_val (Small a) = int_val (Small b)"
  using small_tag_eq [of a b] by (auto simp: int_ok_def int_val_def)

lemma new_int_from_ll_ok:
  obtains z where "mp_obj_new_int_from_ll w = Some (Big z)" and "int_ok (Big z)" and "int_val (Big z) = sint w"
proof (rule mpz_set_from_ll_ok [where \<sigma> = "mpz_init_zero (Ob 0) (\<lambda>_. mpz_zero)" and d = "Ob 0" and w = w and s = True])
  show "\<not> z_fixed (mpz_init_zero (Ob 0) (\<lambda>_. mpz_zero) (Ob 0))"
    by (simp add: mpz_init_zero_def mpz_zero_def)
  fix \<sigma>'
  assume "mpz_set_from_ll (Ob 0) w True (mpz_init_zero (Ob 0) (\<lambda>_. mpz_zero)) = Some \<sigma>'"
    and "mpz_sets (Ob 0) (if True then sint w else int (unat w)) (mpz_init_zero (Ob 0) (\<lambda>_. mpz_zero)) \<sigma>'"
  then show ?thesis
    by (intro that [of "\<sigma>' (Ob 0)"]) (auto simp: mp_obj_new_int_from_ll_def mpz_sets_def int_obj_defs)
qed

lemma sint_scast_32_64: "sint (scast (w :: u32) :: 64 word) = sint w"
  by (simp add: sint_up_scast is_up)

lemma small_int_result_ok: "gives (small_int_result v) (Py_Int (sint v))"
proof (cases "MP_SMALL_INT_FITS v")
  case True
  then show ?thesis
    using small_new by (simp add: small_int_result_def fits_iff)
next
  case False
  obtain z where "mp_obj_new_int_from_ll (scast v) = Some (Big z)" "int_ok (Big z)" "int_val (Big z) = sint v"
    using new_int_from_ll_ok [of "scast v"] by (auto simp: sint_scast_32_64)
  then show ?thesis
    using False by (simp add: small_int_result_def fits_iff int_obj_defs)
qed

lemma new_int_ok:
  obtains x where "mp_obj_new_int v = Some x" and "int_ok x" and "canonical x" and "int_val x = sint v"
proof -
  have "small_int_result v = map_option Res_Int (mp_obj_new_int v)"
    by (simp add: small_int_result_def mp_obj_new_int_def)
  then show ?thesis
    using small_int_result_ok [of v] that by (auto simp: gives_any_def)
qed

lemma mpz_to_obj_ok:
  assumes "mpz_ok z" and "\<not> z_fixed z"
  shows "int_ok (mpz_to_obj z)" and "canonical (mpz_to_obj z)" and "int_val (mpz_to_obj z) = mpz_val z"
proof -
  have s: "sint (of_int (mpz_val z) :: u32) = mpz_val z" if "\<bar>mpz_val z\<bar> < 2 ^ 31"
    using that by (simp add: sint_word_of_int)
  have "int_ok (mpz_to_obj z) \<and> canonical (mpz_to_obj z) \<and> int_val (mpz_to_obj z) = mpz_val z"
  proof (cases "small_range (mpz_val z)")
    case True
    then have r: "\<bar>mpz_val z\<bar> < 2 ^ 31"
      unfolding small_range_def by simp linarith
    then have "mpz_to_obj z = Small (MP_OBJ_NEW_SMALL_INT (of_int (mpz_val z)))"
      using True s by (simp add: mpz_to_obj_def mpz_as_int_checked_val fits_iff)
    then show ?thesis
      using small_new [of "of_int (mpz_val z)"] s [OF r] True by simp
  next
    case False
    then have "mpz_to_obj z = Big z"
      using s by (auto simp: mpz_to_obj_def mpz_as_int_checked_val fits_iff)
    then show ?thesis
      using assms False by (simp add: int_obj_defs)
  qed
  then show "int_ok (mpz_to_obj z)" and "canonical (mpz_to_obj z)" and "int_val (mpz_to_obj z) = mpz_val z"
    by auto
qed

lemma int_result_ok:
  assumes "mpz_ok (\<sigma>' (Ob 2))" and "\<not> z_fixed (\<sigma>' (Ob 2))" and "mpz_val (\<sigma>' (Ob 2)) = v"
  shows "gives (int_result (Some \<sigma>')) (Py_Int v)"
  using mpz_to_obj_ok [OF assms(1,2)] assms(3) by (simp add: int_result_def)

lemma int_result_sets: "mpz_sets (Ob 2) v \<sigma> \<sigma>' \<Longrightarrow> gives (int_result (Some \<sigma>')) (Py_Int v)"
  by (rule int_result_ok) (simp_all add: mpz_sets_def)


lemma gives_sets: "\<exists>\<sigma>'. m = Some \<sigma>' \<and> mpz_sets (Ob 2) v \<sigma> \<sigma>' \<Longrightarrow> gives (int_result m) (Py_Int v)"
  using int_result_sets by blast

section \<open>The operands\<close>

lemma mpz_init_fixed_ok:
  obtains \<sigma>' where "mpz_init_fixed_from_int a [0, 0] w \<sigma> = Some \<sigma>'" and "mpz_ok (\<sigma>' a)" and "mpz_val (\<sigma>' a) = sint w"
    and "\<And>b. b \<noteq> a \<Longrightarrow> \<sigma>' b = \<sigma> b"
proof (cases "w = 0")
  case True
  then show ?thesis
    by (intro that [of "\<sigma>(a := \<lparr>z_neg = False, z_fixed = True, z_len = 0, z_dig = [0, 0]\<rparr>)"])
      (simp_all add: mpz_init_fixed_from_int_def mpz_set_from_int_def mpz_ok_def mpz_val_def sval_def digits_def normalised_def)
next
  case False
  define u where "u = (if sint w < 0 then - w else w)"
  note ds = uval_digs_val [of u]
  have u: "(if sint w < 0 then - int (unat u) else int (unat u)) = sint w"
    by (simp add: u_def unat_uminus_sint unat_nonneg_sint)
  then have pos: "0 < unat u" if "sint w < 0"
    using that by (auto split: if_splits)
  have len: "length (uval_digs u) \<le> 2"
    using ds(3) by simp
  define z where "z = \<lparr>z_neg = sint w < 0, z_fixed = True, z_len = length (uval_digs u),
    z_dig = uval_digs u @ drop (length (uval_digs u)) [0, 0]\<rparr>"
  have "mpz_init_fixed_from_int a [0, 0] w \<sigma> = Some (\<sigma>(a := z))"
    using False len by (simp add: mpz_init_fixed_from_int_def mpz_set_from_int_def mpz_need_dig_def MIN_ALLOC_def
        mpz_put_uval_def mpz_put_def mpz_put_neg_def u_def [symmetric] z_def)
  moreover have "digits z = uval_digs u" "z_len z \<le> length (z_dig z)"
    by (simp_all add: z_def digits_def)
  then have "mpz_ok z" "mpz_val z = sint w"
    using ds(1,2) u pos by (auto simp: mpz_ok_def mpz_val_def sval_def z_def)
  ultimately show ?thesis
    by (intro that [of "\<sigma>(a := z)"]) simp_all
qed

lemma mpz_operand_ok:
  assumes "int_ok x"
  obtains \<sigma>' where "mpz_operand a x \<sigma> = Some \<sigma>'" and "mpz_ok (\<sigma>' (zptr a x))" and "mpz_val (\<sigma>' (zptr a x)) = int_val x"
    and "\<And>b. b \<noteq> zptr a x \<Longrightarrow> \<sigma>' b = \<sigma> b"
proof (cases x)
  case (Small ob)
  obtain \<sigma>' where "mpz_init_fixed_from_int (zptr a x) [0, 0] (MP_OBJ_SMALL_INT_VALUE ob) \<sigma> = Some \<sigma>'"
    and "mpz_ok (\<sigma>' (zptr a x))" "mpz_val (\<sigma>' (zptr a x)) = sint (MP_OBJ_SMALL_INT_VALUE ob)"
    and "\<And>b. b \<noteq> zptr a x \<Longrightarrow> \<sigma>' b = \<sigma> b"
    by (rule mpz_init_fixed_ok [of "zptr a x" "MP_OBJ_SMALL_INT_VALUE ob" \<sigma>]) blast
  then show ?thesis
    using Small by (intro that [of \<sigma>']) (simp_all add: mpz_operand_def int_val_def)
next
  case (Big z)
  then show ?thesis
    using assms by (intro that [of "\<sigma>(zptr a x := z)"]) (simp_all add: mpz_operand_def int_val_def int_ok_def)
qed

definition operands_in :: "mpz_store \<Rightarrow> int_obj \<Rightarrow> int_obj \<Rightarrow> bool" where
  "operands_in \<sigma> lhs rhs \<longleftrightarrow>
     mpz_ok (\<sigma> (zptr (Ob 0) lhs)) \<and> mpz_val (\<sigma> (zptr (Ob 0) lhs)) = int_val lhs \<and>
     mpz_ok (\<sigma> (zptr (Ob 1) rhs)) \<and> mpz_val (\<sigma> (zptr (Ob 1) rhs)) = int_val rhs \<and>
     \<not> z_fixed (\<sigma> (Ob 2)) \<and> \<not> z_fixed (\<sigma> (Ob 3))"

lemma zptr_cases: "zptr (Ob n) x = Ob n \<or> zptr (Ob n) x = Tmp 4"
  by (cases x) (simp_all add: zptr_def)

lemma zptr_eq [simp]: "zptr (Ob n) x = Ob m \<longleftrightarrow> n = m \<and> \<not> is_small x" "zptr (Ob n) x = Tmp k \<longleftrightarrow> k = 4 \<and> is_small x"
  "Ob m = zptr (Ob n) x \<longleftrightarrow> n = m \<and> \<not> is_small x" "Tmp k = zptr (Ob n) x \<longleftrightarrow> k = 4 \<and> is_small x"
  by (cases x; auto simp: zptr_def is_small_def)+

lemma operands_ok:
  assumes "int_ok lhs" and "int_ok rhs" and "\<not> (is_small lhs \<and> is_small rhs)"
  obtains \<sigma>1 \<sigma> where "mpz_operand (Ob 0) lhs (\<lambda>_. mpz_zero) = Some \<sigma>1" and "mpz_operand (Ob 1) rhs \<sigma>1 = Some \<sigma>"
    and "operands_in \<sigma> lhs rhs"
proof -
  let ?l = "zptr (Ob 0) lhs" and ?r = "zptr (Ob 1) rhs"
  obtain \<sigma>1 where 1: "mpz_operand (Ob 0) lhs (\<lambda>_. mpz_zero) = Some \<sigma>1" "mpz_ok (\<sigma>1 ?l)" "mpz_val (\<sigma>1 ?l) = int_val lhs"
    and f1: "\<And>b. b \<noteq> ?l \<Longrightarrow> \<sigma>1 b = mpz_zero"
    by (rule mpz_operand_ok [OF assms(1), where a = "Ob 0" and \<sigma> = "\<lambda>_. mpz_zero"]) blast
  obtain \<sigma> where 2: "mpz_operand (Ob 1) rhs \<sigma>1 = Some \<sigma>" "mpz_ok (\<sigma> ?r)" "mpz_val (\<sigma> ?r) = int_val rhs"
    and f2: "\<And>b. b \<noteq> ?r \<Longrightarrow> \<sigma> b = \<sigma>1 b"
    by (rule mpz_operand_ok [OF assms(2), where a = "Ob 1" and \<sigma> = \<sigma>1]) blast
  have "?l \<noteq> ?r"
    using assms(3) by (cases lhs; cases rhs) (auto simp: zptr_def is_small_def)
  then have l: "\<sigma> ?l = \<sigma>1 ?l"
    using f2 by simp
  have d: "\<sigma> (Ob 2) = mpz_zero" "\<sigma> (Ob 3) = mpz_zero"
    using f1 f2 by simp_all
  have "operands_in \<sigma> lhs rhs"
    unfolding operands_in_def l using 1 2 d by (simp add: mpz_zero_def)
  then show ?thesis
    by (rule that [OF 1(1) 2(1)])
qed

section \<open>The operators of int objects\<close>

lemma get_checked_val:
  assumes "int_ok x"
  shows "mp_obj_int_get_checked x = (if \<bar>int_val x\<bar> < 2 ^ 31 then Inr (of_int (int_val x)) else Inl OverflowError)"
proof (cases x)
  case (Small ob)
  have "\<bar>int_val x\<bar> < 2 ^ 31"
    using small_val_range [of ob] unfolding Small small_range_def by simp linarith
  then show ?thesis
    using Small by (simp add: mp_obj_int_get_checked_def int_val_def)
next
  case (Big z)
  then show ?thesis
    by (simp add: mp_obj_int_get_checked_def int_val_def mpz_as_int_checked_val)
qed

lemma int_shift_ok:
  assumes "int_ok rhs"
    and "\<And>n. int n = int_val rhs \<Longrightarrow> n < 2 ^ 31 \<Longrightarrow> gives (int_result (shift n)) (Py_Int (f n))"
  shows "gives (int_shift shift rhs) (lim_shift f (int_val rhs))"
proof (cases "\<bar>int_val rhs\<bar> < 2 ^ 31")
  case True
  then have s: "sint (of_int (int_val rhs) :: u32) = int_val rhs"
    by (simp add: sint_word_of_int)
  show ?thesis
  proof (cases "int_val rhs < 0")
    case True
    then show ?thesis
      using \<open>\<bar>int_val rhs\<bar> < 2 ^ 31\<close> s by (simp add: int_shift_def lim_shift_def py_shift_def get_checked_val [OF assms(1)] less_signed)
  next
    case False
    define n where "n = nat (int_val rhs)"
    have n: "int n = int_val rhs" "n < 2 ^ 31"
      using True False by (simp_all add: n_def nat_less_iff)
    have "int (unat (of_int (int_val rhs) :: u32)) = int_val rhs"
      using unat_nonneg_sint [of "of_int (int_val rhs) :: u32"] s False by simp
    then have u: "unat (of_int (int_val rhs) :: u32) = n"
      using n by simp
    have "int_shift shift rhs = int_result (shift n)"
      using True False s u by (simp add: int_shift_def get_checked_val [OF assms(1)] less_signed)
    moreover have "lim_shift f (int_val rhs) = Py_Int (f n)"
      using True False by (simp add: lim_shift_def py_shift_def n_def)
    ultimately show ?thesis
      using assms(2) n by simp
  qed
qed (simp add: int_shift_def lim_shift_def py_shift_def get_checked_val [OF assms(1)])

definition pow_defined :: "int_obj \<Rightarrow> int_obj \<Rightarrow> bool" where
  "pow_defined lhs rhs \<longleftrightarrow> is_small lhs \<and> is_small rhs \<or> int_val lhs \<noteq> 0 \<or> int_val rhs \<noteq> 0"

lemma int_arith_ok:
  assumes s: "operands_in \<sigma> lhs rhs" and r: "int_ok rhs" and one: "\<not> (is_small lhs \<and> is_small rhs)"
    and p: "a = OP_POWER \<Longrightarrow> pow_defined lhs rhs" and m: "a \<noteq> OP_MAT_MULTIPLY"
  shows "gives (int_arith a lhs rhs \<sigma>) (lim_arith a (int_val lhs) (int_val rhs))"
proof -
  define l where "l = zptr (Ob 0) lhs"
  define q where "q = zptr (Ob 1) rhs"
  have ok: "mpz_ok (\<sigma> l)" "mpz_ok (\<sigma> q)" and v: "mpz_val (\<sigma> l) = int_val lhs" "mpz_val (\<sigma> q) = int_val rhs"
    and f: "\<not> z_fixed (\<sigma> (Ob 2))" "\<not> z_fixed (\<sigma> (Ob 3))"
    using s by (simp_all add: operands_in_def l_def q_def)
  have ne: "Ob 2 \<noteq> l" "Ob 3 \<noteq> l" "Ob 2 \<noteq> q" "Ob 3 \<noteq> q" "Tmp 3 \<notin> {Ob 2, Ob 3, l, q}" "Ob 2 \<notin> {Tmp 0, Tmp 1}"
    by (simp_all add: l_def q_def)
  have zero: "mpz_is_zero (\<sigma> q) \<longleftrightarrow> int_val rhs = 0" and neg: "mpz_is_neg (\<sigma> q) \<longleftrightarrow> int_val rhs < 0"
    using mpz_ok_zero [OF ok(2)] mpz_ok_neg [OF ok(2)] v by (simp_all add: mpz_is_zero_def mpz_is_neg_def)
  have add: "gives (int_result (mpz_add_inpl (Ob 2) l q \<sigma>)) (Py_Int (mpz_val (\<sigma> l) + mpz_val (\<sigma> q)))"
    by (rule mpz_add_inpl_ok [OF ok f(1)], rule gives_sets, blast)
  have sub: "gives (int_result (mpz_sub_inpl (Ob 2) l q \<sigma>)) (Py_Int (mpz_val (\<sigma> l) - mpz_val (\<sigma> q)))"
    by (rule mpz_sub_inpl_ok [OF ok f(1)], rule gives_sets, blast)
  have mul: "gives (int_result (mpz_mul_inpl (Ob 2) l q \<sigma>)) (Py_Int (mpz_val (\<sigma> l) * mpz_val (\<sigma> q)))"
    by (rule mpz_mul_inpl_ok [OF ok f(1)], rule gives_sets, blast)
  have band: "gives (int_result (mpz_and_inpl (Ob 2) l q \<sigma>)) (Py_Int (mpz_val (\<sigma> l) AND mpz_val (\<sigma> q)))"
    by (rule mpz_and_inpl_ok [OF ok f(1)], rule gives_sets, blast)
  have bor: "gives (int_result (mpz_or_inpl (Ob 2) l q \<sigma>)) (Py_Int (mpz_val (\<sigma> l) OR mpz_val (\<sigma> q)))"
    by (rule mpz_or_inpl_ok [OF ok f(1)], rule gives_sets, blast)
  have bxor: "gives (int_result (mpz_xor_inpl (Ob 2) l q \<sigma>)) (Py_Int (mpz_val (\<sigma> l) XOR mpz_val (\<sigma> q)))"
    by (rule mpz_xor_inpl_ok [OF ok f(1)], rule gives_sets, blast)
  have shl: "gives (int_shift (\<lambda>n. mpz_shl_inpl (Ob 2) l n \<sigma>) rhs)  (lim_shift (\<lambda>n. push_bit n (int_val lhs)) (int_val rhs))"
  proof (rule int_shift_ok [OF r])
    fix n :: nat
    assume "n < 2 ^ 31"
    then have n: "n + 15 < 2 ^ 32"
      by simp
    show "gives (int_result (mpz_shl_inpl (Ob 2) l n \<sigma>)) (Py_Int (push_bit n (int_val lhs)))"
      unfolding v [symmetric] by (rule mpz_shl_inpl_ok [OF ok(1) f(1) n], rule gives_sets, blast)
  qed
  have shr: "gives (int_shift (\<lambda>n. mpz_shr_inpl (Ob 2) l n \<sigma>) rhs)  (lim_shift (\<lambda>n. drop_bit n (int_val lhs)) (int_val rhs))"
  proof (rule int_shift_ok [OF r])
    fix n :: nat
    show "gives (int_result (mpz_shr_inpl (Ob 2) l n \<sigma>)) (Py_Int (drop_bit n (int_val lhs)))"
      unfolding v [symmetric] by (rule mpz_shr_inpl_ok [OF ok(1) f(1) disjI1 [OF ne(1)], where n = n], rule gives_sets, blast)
  qed
  have quo: "gives (int_result (mpz_divmod_inpl (Ob 2) (Ob 3) l q \<sigma>)) (Py_Int (int_val lhs div int_val rhs))"
    if "int_val rhs \<noteq> 0"
  proof -
    have t: "Tmp 3 \<notin> {Ob 2, Ob 3, l, q}" "Ob 2 \<noteq> Ob 3" and n: "mpz_val (\<sigma> q) \<noteq> 0"
      using ne that v by simp_all
    show ?thesis
    proof (rule mpz_divmod_inpl_ok [OF ok n f t(2) ne(1) ne(3) ne(4) t(1)])
      fix \<sigma>'
      assume "mpz_divmod_inpl (Ob 2) (Ob 3) l q \<sigma> = Some \<sigma>'" "mpz_ok (\<sigma>' (Ob 2))" "\<not> z_fixed (\<sigma>' (Ob 2))"
        "Ob 3 \<noteq> l \<Longrightarrow> mpz_val (\<sigma>' (Ob 2)) = mpz_val (\<sigma> l) div mpz_val (\<sigma> q)"
      then show ?thesis
        using int_result_ok [of \<sigma>'] ne(2) v by simp
    qed
  qed
  have rem: "gives (int_result (mpz_divmod_inpl (Ob 3) (Ob 2) l q \<sigma>)) (Py_Int (int_val lhs mod int_val rhs))"
    if "int_val rhs \<noteq> 0"
  proof -
    have t: "Tmp 3 \<notin> {Ob 3, Ob 2, l, q}" "Ob 3 \<noteq> Ob 2" and n: "mpz_val (\<sigma> q) \<noteq> 0"
      using ne that v by simp_all
    show ?thesis
    proof (rule mpz_divmod_inpl_ok [OF ok n f(2,1) t(2) ne(2) ne(4) ne(3) t(1)])
      fix \<sigma>'
      assume "mpz_divmod_inpl (Ob 3) (Ob 2) l q \<sigma> = Some \<sigma>'" "mpz_ok (\<sigma>' (Ob 2))" "\<not> z_fixed (\<sigma>' (Ob 2))"
        "mpz_val (\<sigma>' (Ob 2)) = mpz_val (\<sigma> l) mod mpz_val (\<sigma> q)"
      then show ?thesis
        using int_result_ok [of \<sigma>'] v by simp
    qed
  qed
  have pow: "gives (int_result (mpz_pow_inpl (Ob 2) l q \<sigma>)) (Py_Int (int_val lhs ^ nat (int_val rhs)))"
    if "pow_defined lhs rhs" "\<not> int_val rhs < 0"
  proof (rule mpz_pow_inpl_ok [OF ok f(1) ne(6)])
    fix \<sigma>'
    assume run: "mpz_pow_inpl (Ob 2) l q \<sigma> = Some \<sigma>'" and o: "mpz_ok (\<sigma>' (Ob 2))" "\<not> z_fixed (\<sigma>' (Ob 2))"
      and val: "mpz_val (\<sigma>' (Ob 2)) = (if mpz_val (\<sigma> l) = 0 \<or> mpz_val (\<sigma> q) < 0 then 0 else mpz_val (\<sigma> l) ^ nat (mpz_val (\<sigma> q)))"
    have "mpz_val (\<sigma>' (Ob 2)) = int_val lhs ^ nat (int_val rhs)"
      using val that one unfolding v pow_defined_def by (auto simp: zero_power)
    then show ?thesis
      unfolding run using o by (intro int_result_ok)
  qed
  note defs = int_arith_def lim_arith_shift lim_arith_other py_arith_def Let_def l_def [symmetric] q_def [symmetric] zero neg
  show ?thesis
    by (cases a)
      (use add sub mul band bor bxor m p in \<open>simp_all add: defs shl shr quo rem pow v del: One_nat_def\<close>)
qed

lemma int_binary_op_ok:
  assumes ok: "int_ok lhs" "int_ok rhs" and one: "\<not> (is_small lhs \<and> is_small rhs)"
  obtains \<sigma> where "operands_in \<sigma> lhs rhs" and "mp_obj_int_binary_op op lhs rhs =
    (let l = zptr (Ob 0) lhs; r = zptr (Ob 1) rhs; cmp = mpz_cmp (\<sigma> l) (\<sigma> r)
     in case op of
          Plain a \<Rightarrow> int_arith a lhs rhs \<sigma>
        | Inplace a \<Rightarrow> int_arith a lhs rhs \<sigma>
        | OP_DIVMOD \<Rightarrow>
            if mpz_is_zero (\<sigma> r) then Some (Res_Raise ZeroDivisionError)
            else do { \<sigma>' \<leftarrow> mpz_divmod_inpl (Ob 3) (Ob 2) l r \<sigma>;
                      Some (Res_Pair (Big (\<sigma>' (Ob 3))) (Big (\<sigma>' (Ob 2)))) }
        | OP_LESS \<Rightarrow> Some (Res_Bool (cmp < 0))
        | OP_MORE \<Rightarrow> Some (Res_Bool (0 < cmp))
        | OP_LESS_EQUAL \<Rightarrow> Some (Res_Bool (cmp \<le> 0))
        | OP_MORE_EQUAL \<Rightarrow> Some (Res_Bool (0 \<le> cmp))
        | OP_EQUAL \<Rightarrow> Some (Res_Bool (cmp = 0))
        | _ \<Rightarrow> Some Res_Null)"
proof -
  obtain \<sigma>1 \<sigma> where "mpz_operand (Ob 0) lhs (\<lambda>_. mpz_zero) = Some \<sigma>1" "mpz_operand (Ob 1) rhs \<sigma>1 = Some \<sigma>"
    and s: "operands_in \<sigma> lhs rhs"
    using operands_ok [OF assms] by blast
  then show ?thesis
    by (intro that [OF s]) (simp add: mp_obj_int_binary_op_def)
qed

lemma operands_cmp:
  assumes "operands_in \<sigma> lhs rhs"
  shows "mpz_cmp (\<sigma> (zptr (Ob 0) lhs)) (\<sigma> (zptr (Ob 1) rhs)) = sgn (int_val lhs - int_val rhs)"
    and "mpz_is_zero (\<sigma> (zptr (Ob 1) rhs)) \<longleftrightarrow> int_val rhs = 0"
  using assms mpz_cmp_ok mpz_ok_zero by (auto simp: operands_in_def mpz_is_zero_def)

lemma sgn_diff_simps: "sgn (x - y) < 0 \<longleftrightarrow> x < y" "0 < sgn (x - y) \<longleftrightarrow> y < x" "sgn (x - y) \<le> 0 \<longleftrightarrow> x \<le> y"
  "0 \<le> sgn (x - y) \<longleftrightarrow> y \<le> x" "sgn (x - y) = 0 \<longleftrightarrow> x = y" for x y :: int
  by (auto simp: sgn_if)

definition arith_of :: "binary_op \<Rightarrow> arith_op option" where
  "arith_of op = (case op of Plain a \<Rightarrow> Some a | Inplace a \<Rightarrow> Some a | _ \<Rightarrow> None)"

lemma divmod_pair_ok:
  assumes "operands_in \<sigma> lhs rhs" and "int_val rhs \<noteq> 0"
  shows "gives (do { \<sigma>' \<leftarrow> mpz_divmod_inpl (Ob 3) (Ob 2) (zptr (Ob 0) lhs) (zptr (Ob 1) rhs) \<sigma>;
      Some (Res_Pair (Big (\<sigma>' (Ob 3))) (Big (\<sigma>' (Ob 2)))) }) (Py_Pair (int_val lhs div int_val rhs) (int_val lhs mod int_val rhs))"
proof -
  define l where "l = zptr (Ob 0) lhs"
  define q where "q = zptr (Ob 1) rhs"
  have ok: "mpz_ok (\<sigma> l)" "mpz_ok (\<sigma> q)" "mpz_val (\<sigma> q) \<noteq> 0" "\<not> z_fixed (\<sigma> (Ob 3))" "\<not> z_fixed (\<sigma> (Ob 2))"
    and v: "mpz_val (\<sigma> l) = int_val lhs" "mpz_val (\<sigma> q) = int_val rhs"
    using assms by (simp_all add: operands_in_def l_def q_def)
  have ne: "Ob 3 \<noteq> Ob 2" "Ob 3 \<noteq> l" "Ob 3 \<noteq> q" "Ob 2 \<noteq> q" "Tmp 3 \<notin> {Ob 3, Ob 2, l, q}" and ne2: "Ob 2 \<noteq> l"
    by (simp_all add: l_def q_def)
  show ?thesis
    unfolding l_def [symmetric] q_def [symmetric]
  proof (rule mpz_divmod_inpl_ok [OF ok ne])
    fix \<sigma>'
    assume "mpz_divmod_inpl (Ob 3) (Ob 2) l q \<sigma> = Some \<sigma>'" "mpz_ok (\<sigma>' (Ob 2))" "\<not> z_fixed (\<sigma>' (Ob 2))"
      "mpz_val (\<sigma>' (Ob 2)) = mpz_val (\<sigma> l) mod mpz_val (\<sigma> q)" "mpz_ok (\<sigma>' (Ob 3))" "\<not> z_fixed (\<sigma>' (Ob 3))"
      "Ob 2 \<noteq> l \<Longrightarrow> mpz_val (\<sigma>' (Ob 3)) = mpz_val (\<sigma> l) div mpz_val (\<sigma> q)"
    then show "gives (do { \<sigma>' \<leftarrow> mpz_divmod_inpl (Ob 3) (Ob 2) l q \<sigma>;
      Some (Res_Pair (Big (\<sigma>' (Ob 3))) (Big (\<sigma>' (Ob 2)))) }) (Py_Pair (int_val lhs div int_val rhs) (int_val lhs mod int_val rhs))"
      using v ne2 by (simp add: int_ok_def) (simp add: int_val_def)
  qed
qed

lemma generic_ok:
  assumes ok: "int_ok lhs" "int_ok rhs" and one: "\<not> (is_small lhs \<and> is_small rhs)" and eq: "op \<noteq> OP_NOT_EQUAL"
    and p: "arith_of op = Some OP_POWER \<Longrightarrow> pow_defined lhs rhs" 
  shows "gives (generic_binary_op op lhs rhs) (lim_binary_op op (int_val lhs) (int_val rhs))"
proof -
  have step: "gives (generic_binary_op op lhs rhs) v" if "gives (mp_obj_int_binary_op op lhs rhs) v" for op lhs rhs v
    using that by (subst generic_binary_op.simps) (auto simp: gives_any_def)
  obtain \<sigma> where s: "operands_in \<sigma> lhs rhs" and run: "mp_obj_int_binary_op op lhs rhs =
      (let l = zptr (Ob 0) lhs; r = zptr (Ob 1) rhs; cmp = mpz_cmp (\<sigma> l) (\<sigma> r)
       in case op of
            Plain a \<Rightarrow> int_arith a lhs rhs \<sigma>
          | Inplace a \<Rightarrow> int_arith a lhs rhs \<sigma>
          | OP_DIVMOD \<Rightarrow>
              if mpz_is_zero (\<sigma> r) then Some (Res_Raise ZeroDivisionError)
              else do { \<sigma>' \<leftarrow> mpz_divmod_inpl (Ob 3) (Ob 2) l r \<sigma>;
                        Some (Res_Pair (Big (\<sigma>' (Ob 3))) (Big (\<sigma>' (Ob 2)))) }
          | OP_LESS \<Rightarrow> Some (Res_Bool (cmp < 0))
          | OP_MORE \<Rightarrow> Some (Res_Bool (0 < cmp))
          | OP_LESS_EQUAL \<Rightarrow> Some (Res_Bool (cmp \<le> 0))
          | OP_MORE_EQUAL \<Rightarrow> Some (Res_Bool (0 \<le> cmp))
          | OP_EQUAL \<Rightarrow> Some (Res_Bool (cmp = 0))
          | _ \<Rightarrow> Some Res_Null)"
    by (rule int_binary_op_ok [OF ok one, of op]) blast
  have other: "mp_obj_int_binary_op (Reverse a) x y = Some Res_Null"
    and mat: "mp_obj_int_binary_op (Plain OP_MAT_MULTIPLY) x y = Some Res_Null"
    if "int_ok x" "int_ok y" "\<not> (is_small x \<and> is_small y)" for a x y
    by (rule int_binary_op_ok [OF that, of "Reverse a"], simp add: Let_def,
        rule int_binary_op_ok [OF that, of "Plain OP_MAT_MULTIPLY"], simp add: Let_def int_arith_def)
  have rev: "generic_binary_op (Reverse a) x y = Some (Res_Raise TypeError)"
    if "int_ok x" "int_ok y" "\<not> (is_small x \<and> is_small y)" for a x y
    using other [OF that] by (subst generic_binary_op.simps) simp
  have swap: "\<not> (is_small rhs \<and> is_small lhs)"
    using one by blast
  have plain: "generic_binary_op (Plain OP_MAT_MULTIPLY) lhs rhs = Some (Res_Raise TypeError)"
    using mat [OF ok one] rev [OF ok(2,1) swap] by (subst generic_binary_op.simps) simp
  have arith: "gives (int_arith a lhs rhs \<sigma>) (lim_arith a (int_val lhs) (int_val rhs))"
    if "arith_of op = Some a" "a \<noteq> OP_MAT_MULTIPLY" for a
    using that p by (intro int_arith_ok [OF s ok(2) one]) auto
  have cmp: "mpz_cmp (\<sigma> (zptr (Ob 0) lhs)) (\<sigma> (zptr (Ob 1) rhs)) = sgn (int_val lhs - int_val rhs)"
    "mpz_is_zero (\<sigma> (zptr (Ob 1) rhs)) \<longleftrightarrow> int_val rhs = 0"
    using operands_cmp [OF s] by blast+
  show ?thesis
  proof (cases op)
    case (Plain a)
    show ?thesis
    proof (cases "a = OP_MAT_MULTIPLY")
      case True
      then show ?thesis
        using plain Plain by (simp add: lim_defs py_arith_def)
    next
      case False
      then show ?thesis
        using Plain arith [of a] run by (intro step) (simp add: lim_binary_op_def arith_of_def)
    qed
  next
    case (Inplace a)
    show ?thesis
    proof (cases "a = OP_MAT_MULTIPLY")
      case True
      then have "mp_obj_int_binary_op op lhs rhs = Some Res_Null"
        using Inplace run by (simp add: int_arith_def)
      then have "generic_binary_op op lhs rhs = generic_binary_op (Plain a) lhs rhs"
        using Inplace by (subst generic_binary_op.simps) simp
      then show ?thesis
        using plain Inplace True by (simp add: lim_defs py_arith_def)
    next
      case False
      then show ?thesis
        using Inplace arith [of a] run by (intro step) (simp add: lim_binary_op_def arith_of_def)
    qed
  next
    case (Reverse a)
    then show ?thesis
      using rev [OF ok one] by (simp add: lim_defs)
  next
    case OP_DIVMOD
    then show ?thesis
      using divmod_pair_ok [OF s] run cmp(2) by (intro step) (simp add: lim_defs Let_def del: One_nat_def)
  qed (use eq run cmp in \<open>auto intro!: step simp: lim_defs Let_def sgn_diff_simps simp del: One_nat_def\<close>)
qed

section \<open>Small integers\<close>

lemma sint_bit_ops: "sint (x OR y) = sint x OR sint y" "sint (x AND y) = sint x AND sint y"
  "sint (x XOR y) = sint x XOR sint y" for x y :: u32
  by (simp_all add: signed_or_eq signed_and_eq signed_xor_eq)

lemma small_overflow_ok:
  assumes "int_ok (Small rhs)" and "arith_of op = Some OP_POWER \<Longrightarrow> sint v \<noteq> 0 \<or> int_val (Small rhs) \<noteq> 0"
    and "op \<noteq> OP_NOT_EQUAL"
  shows "gives (small_overflow op v rhs) (lim_binary_op op (sint v) (int_val (Small rhs)))"
proof -
  obtain z where z: "mp_obj_new_int_from_ll (scast v) = Some (Big z)" "int_ok (Big z)" "int_val (Big z) = sint v"
    using new_int_from_ll_ok [of "scast v"] by (auto simp: sint_scast_32_64)
  have "gives (generic_binary_op op (Big z) (Small rhs)) (lim_binary_op op (int_val (Big z)) (int_val (Small rhs)))"
    using assms z by (intro generic_ok) (auto simp: pow_defined_def is_small_def)
  then show ?thesis
    using z by (simp add: small_overflow_def)
qed

lemma small_pow_ok:
  assumes "small_range (sint ans)" and "small_range (sint b)"
  shows "case small_pow_loop ans b n of
           Some r \<Rightarrow> sint r = sint ans * sint b ^ nat (sint n) | None \<Rightarrow> 0 < sint n"
  using assms
proof (induction ans b n rule: small_pow_loop.induct)
  case (1 ans b n)
  show ?case
  proof (cases "0 <s n")
    case False
    then have "small_pow_loop ans b n = Some ans" "nat (sint n) = 0"
      by (simp_all add: small_pow_loop.simps less_signed)
    then show ?thesis
      by simp
  next
    case True
    define k where "k = nat (sint n)"
    have k: "sint n = int k" "0 < k"
      using True by (simp_all add: k_def less_signed)
    have odd: "n AND 1 \<noteq> 0 \<longleftrightarrow> odd k"
    proof -
      have "n AND 1 \<noteq> 0 \<longleftrightarrow> odd n"
        by (simp add: and_one_eq mod_2_eq_odd)
      also have "\<dots> \<longleftrightarrow> odd (sint n)"
        by (simp only: bit_0 [symmetric]) (simp add: bit_sint_iff del: bit_0)
      finally show ?thesis
        by (simp add: k)
    qed
    have one: "n = 1 \<longleftrightarrow> k = 1"
    proof -
      have "n = 1 \<longleftrightarrow> sint n = sint (1 :: u32)"
        using signed_word_eqI [of n 1] by blast
      then show ?thesis
        using k by simp
    qed
    define ans' where "ans' = (if odd k then ans * b else ans)"
    define over where "over \<longleftrightarrow> odd k \<and> mp_small_int_mul_overflow ans b"
    have run: "small_pow_loop ans b n =
        (if over then None else if k = 1 then Some ans' else if mp_small_int_mul_overflow b b then None
         else small_pow_loop ans' (b * b) (c_div n 2))"
      using True by (subst small_pow_loop.simps) (auto simp: odd one over_def ans'_def)
    have a: "small_range (sint ans')" "sint ans' = sint ans * (if odd k then sint b else 1)" if "\<not> over"
      using that 1(2,3) mul_overflow_iff [OF 1(2,3)] sint_mul [of ans b] by (auto simp: ans'_def over_def small_range_def)
    have b: "small_range (sint (b * b))" "sint (b * b) = sint b * sint b" if "\<not> mp_small_int_mul_overflow b b"
      using that mul_overflow_iff [OF 1(3,3)] sint_mul [of b b] by (auto simp: small_range_def)
    show ?thesis
    proof (cases "over \<or> k = 1 \<or> mp_small_int_mul_overflow b b")
      case True
      then show ?thesis
        using run a k by (auto simp: k_def [symmetric])
    next
      case False
      have h: "sint (c_div n 2) = int (k div 2)"
        using sint_half [OF \<open>0 <s n\<close>] k by (simp add: zdiv_int)
      have "case small_pow_loop ans' (b * b) (c_div n 2) of
          Some r \<Rightarrow> sint r = sint ans' * sint (b * b) ^ nat (sint (c_div n 2)) | None \<Rightarrow> 0 < sint (c_div n 2)"
        using False \<open>0 <s n\<close> a b by (intro "1.IH" [where a = ans']) (auto simp: odd one over_def ans'_def)
      moreover have "sint ans' * (sint b * sint b) ^ (k div 2) = sint ans * sint b ^ k"
      proof -
        have "sint b ^ k = sint b ^ (k mod 2) * (sint b * sint b) ^ (k div 2)"
          by (metis power_add power_mult power2_eq_square mod_mult_div_eq)
        then show ?thesis
          using a False by (cases "odd k") (simp_all add: odd_iff_mod_2_eq_one even_iff_mod_2_eq_zero)
      qed
      ultimately show ?thesis
        using run False b h k by (auto simp: k_def [symmetric] split: option.splits)
    qed
  qed
qed

lemma small_shift_ok:
  assumes v: "small_range (sint v)" and n: "sint n = int k"
  shows "small_shl_overflow v n \<longleftrightarrow> 32 \<le> k \<or> 1073741823 div 2 ^ k < sint v \<or> sint v < - 1073741824 div 2 ^ k"
    and "\<not> small_shl_overflow v n \<Longrightarrow> sint (push_bit k v) = push_bit k (sint v)"
    and "sint (signed_drop_bit (unat (if 32 \<le>s n then 31 else n)) v) = drop_bit k (sint v)"
proof -
  have u: "unat n = k"
    using unat_nonneg_sint [of n] n by simp
  have s32: "sint (32 :: u32) = 32"
    by simp
  have shift: "sint (signed_drop_bit i w) = sint w div 2 ^ i" for i and w :: u32
    by (simp add: sint_signed_drop_bit_eq drop_bit_eq_div)
  show over: "small_shl_overflow v n \<longleftrightarrow> 32 \<le> k \<or> 1073741823 div 2 ^ k < sint v \<or> sint v < - 1073741824 div 2 ^ k"
    unfolding small_shl_overflow_def less_signed shift sint_bounds u n s32 by simp
  show "sint (push_bit k v) = push_bit k (sint v)" if "\<not> small_shl_overflow v n"
  proof -
    have k: "k < 32" "sint v \<le> 1073741823 div 2 ^ k" "- 1073741824 div 2 ^ k \<le> sint v"
      using that unfolding over by auto
    have "sint v * 2 ^ k \<le> 1073741823 div 2 ^ k * 2 ^ k"
      using k(2) by (rule mult_right_mono) simp
    also have "\<dots> \<le> 1073741823"
      using pos_mod_sign [of "2 ^ k" "1073741823 :: int"] by (simp add: minus_mod_eq_div_mult [symmetric])
    finally have hi: "sint v * 2 ^ k \<le> 1073741823" .
    have "- 1073741824 div 2 ^ k * 2 ^ k \<le> sint v * 2 ^ k"
      using k(3) by (rule mult_right_mono) simp
    moreover have "- 2147483648 \<le> - 1073741824 div (2 :: int) ^ k * 2 ^ k"
    proof (cases "k = 31")
      case False
      then have "k \<le> 30"
        using k(1) by simp
      then have "(2 :: int) ^ k dvd 2 ^ 30"
        by (rule le_imp_power_dvd)
      then have "(2 :: int) ^ k dvd - 1073741824"
        by simp
      then show ?thesis
        by (simp only: dvd_div_mult_self)
    qed simp
    ultimately have "sint (word_of_int (sint v * 2 ^ k) :: u32) = sint v * 2 ^ k"
      using hi by (intro sint_word_of_int; linarith)
    then show ?thesis
      by (simp add: push_bit_eq_mult)
  qed
  have big: "sint v div 2 ^ 31 = sint v div 2 ^ k" if "31 \<le> k"
  proof -
    have p: "(2 :: int) ^ 31 \<le> 2 ^ k"
      using that by (rule power_increasing) simp
    have eq: "sint v div d = (if sint v < 0 then - 1 else 0)" if "2147483648 \<le> d" for d
    proof (cases "sint v < 0")
      case True
      have "sint v div d = - 1"
        by (rule int_div_pos_eq [where r = "sint v + d"]) (use v True that in \<open>simp_all add: small_range_def\<close>)
      then show ?thesis
        using True by simp
    qed (use v that in \<open>simp add: small_range_def div_pos_pos_trivial\<close>)
    show ?thesis
      using p eq [of "2 ^ k"] eq [of "2 ^ 31"] by simp
  qed
  show "sint (signed_drop_bit (unat (if 32 \<le>s n then 31 else n)) v) = drop_bit k (sint v)"
    unfolding less_signed shift s32 drop_bit_eq_div using n u big by simp
qed

lemma small_div_range:
  assumes "small_range x" and "small_range y" and "y \<noteq> 0" and "\<not> (x = - 1073741824 \<and> y = - 1)"
  shows "small_range (x div y)"
proof -
  have pos: "a div b \<le> m \<and> - m \<le> a div b" if "0 < b" "a \<le> m" "- m \<le> a" for a b m :: int
  proof (cases "0 \<le> a")
    case True
    then have "0 \<le> a div b" "a div b \<le> a div 1"
      using that zdiv_mono2 [of a 1 b] by (simp_all add: pos_imp_zdiv_nonneg_iff)
    then show ?thesis
      using that True by simp
  next
    case False
    then have "a div b < 0" "a div 1 \<le> a div b"
      using that zdiv_mono2_neg [of a 1 b] by (simp_all add: pos_imp_zdiv_neg_iff)
    then show ?thesis
      using that by simp
  qed
  show ?thesis
  proof (cases "0 < y")
    case True
    show ?thesis
    proof (cases "x = - 1073741824")
      case False
      then show ?thesis
        using pos [of y x 1073741823] True assms by (simp add: small_range_def)
    next
      case min: True
      have "x div y < 0"
        using True min by (simp add: pos_imp_zdiv_neg_iff)
      then show ?thesis
        using pos [of y x 1073741824] True min by (simp add: small_range_def)
    qed
  next
    case False
    have eq: "x div y = (- x) div (- y)"
      by simp
    show ?thesis
    proof (cases "x = - 1073741824")
      case False
      then have "- x \<le> 1073741823" "- 1073741823 \<le> - x"
        using assms(1) by (simp_all add: small_range_def)
      then have "(- x) div (- y) \<le> 1073741823 \<and> - 1073741823 \<le> (- x) div (- y)"
        using \<open>\<not> 0 < y\<close> assms(3) by (intro pos) simp_all
      then show ?thesis
        unfolding eq small_range_def by linarith
    next
      case True
      then have "y \<le> - 2"
        using assms(3,4) False by simp
      then have "1073741824 div (- y) \<le> 1073741824 div 2"
        by (intro zdiv_mono2) simp_all
      moreover have "0 \<le> 1073741824 div (- y)"
        using \<open>y \<le> - 2\<close> by (subst pos_imp_zdiv_nonneg_iff) simp_all
      ultimately show ?thesis
        using div_minus_right [of 1073741824 y] unfolding True small_range_def by linarith
    qed
  qed
qed

lemma small_mod_range:
  assumes "small_range y" and "y \<noteq> 0"
  shows "small_range (x mod y)"
proof (cases "0 < y")
  case True
  then show ?thesis
    using assms(1) pos_mod_bound [OF True, of x] pos_mod_sign [OF True, of x] unfolding small_range_def by linarith
next
  case False
  then have "y < 0"
    using assms(2) by simp
  then show ?thesis
    using assms(1) neg_mod_bound [of y x] neg_mod_sign [of y x] unfolding small_range_def by linarith
qed

lemma small_arith_ok:
  assumes l: "int_ok (Small lhs)" and r: "int_ok (Small rhs)" and op: "arith_of op = Some a"
  shows "gives (small_arith op a lhs rhs) (lim_arith a (int_val (Small lhs)) (int_val (Small rhs)))"
proof -
  define u where "u = MP_OBJ_SMALL_INT_VALUE lhs"
  define w where "w = MP_OBJ_SMALL_INT_VALUE rhs"
  have v: "int_val (Small lhs) = sint u" "int_val (Small rhs) = sint w" and range: "small_range (sint u)" "small_range (sint w)"
    by (simp_all add: int_val_def u_def w_def small_value_range)
  have b: "- 1073741824 \<le> sint u" "sint u < 1073741824" "- 1073741824 \<le> sint w" "sint w < 1073741824"
    using range by (simp_all add: small_range_def)
  have zero: "w = 0 \<longleftrightarrow> sint w = 0"
    by (simp add: signed_eq_0_iff)
  have lim: "lim_arith a (sint u) (sint w) = py_arith a (sint u) (sint w)"
    using b by (intro lim_arith_small) simp
  have py: "lim_binary_op op x y = lim_arith a x y" and eq: "op \<noteq> OP_NOT_EQUAL" for x y
    using op by (auto simp: arith_of_def lim_binary_op_def split: binary_op.splits)
  have over: "gives (small_overflow op u rhs) (py_arith a (sint u) (sint w))" if "a = OP_POWER \<Longrightarrow> sint u \<noteq> 0 \<or> sint w \<noteq> 0"
    using small_overflow_ok [OF r _ eq, of u] that op py v lim by auto
  have res: "gives (small_int_result x) (Py_Int y)" if "sint x = y" for x y
    using small_int_result_ok [of x] that by simp
  note defs = small_arith_def py_arith_def Let_def u_def [symmetric] w_def [symmetric] v
  have "gives (small_arith op a lhs rhs) (py_arith a (sint u) (sint w))"
  proof (cases a)
    case OP_LSHIFT
    show ?thesis
    proof (cases "sint w < 0")
      case True
      then show ?thesis
        using OP_LSHIFT b by (simp add: defs less_signed py_shift_def)
    next
      case False
      define k where "k = nat (sint w)"
      have k: "sint w = int k"
        using False by (simp add: k_def)
      have "unat w = k"
        using unat_nonneg_sint [of w] k by simp
      moreover have "py_arith a (sint u) (sint w) = Py_Int (push_bit k (sint u))"
        using OP_LSHIFT False b by (simp add: py_arith_def py_shift_def k_def)
      ultimately show ?thesis
        using OP_LSHIFT False over small_shift_ok(2) [OF range(1) k] by (auto simp: small_arith_def Let_def u_def [symmetric] w_def [symmetric] less_signed intro: res)
    qed
  next
    case OP_RSHIFT
    show ?thesis
    proof (cases "sint w < 0")
      case True
      then show ?thesis
        using OP_RSHIFT b by (simp add: defs less_signed py_shift_def)
    next
      case False
      define k where "k = nat (sint w)"
      have k: "sint w = int k"
        using False by (simp add: k_def)
      have "py_arith a (sint u) (sint w) = Py_Int (drop_bit k (sint u))"
        using OP_RSHIFT False b by (simp add: py_arith_def py_shift_def k_def)
      then show ?thesis
        using OP_RSHIFT False res [OF small_shift_ok(3) [OF range(1) k]]
        by (simp add: small_arith_def Let_def u_def [symmetric] w_def [symmetric] less_signed)
    qed
  next
    case OP_MULTIPLY
    have "gives (Some (Res_Int (Small (MP_OBJ_NEW_SMALL_INT (u * w))))) (Py_Int (sint u * sint w))"
      if "\<not> mp_small_int_mul_overflow u w"
    proof -
      have p: "small_range (sint u * sint w)"
        using that mul_overflow_iff [OF range] by simp
      then have "sint (u * w) = sint u * sint w"
        by (intro sint_mul) (simp_all add: small_range_def)
      then show ?thesis
        using small_new [of "u * w"] p by simp
    qed
    then show ?thesis
      using OP_MULTIPLY over by (simp add: defs)
  next
    case OP_POWER
    have one: "small_range (sint (1 :: u32))"
      by (simp add: small_range_def)
    show ?thesis
      using OP_POWER over small_pow_ok [OF one range(1), of w]
      by (auto simp: defs less_signed intro!: res split: option.splits)
  qed (use b range sint_add [of u w] sint_sub [of u w] floor_divide_correct [of u w] modulo_correct [of w u]
       in \<open>auto simp: defs zero sint_bit_ops intro!: res\<close>)
  then show ?thesis
    unfolding v lim .
qed

lemma small_binary_ok:
  assumes l: "int_ok (Small lhs)" and r: "int_ok (Small rhs)" and op: "op \<noteq> OP_EQUAL" "op \<noteq> OP_NOT_EQUAL"
    and d: "op = OP_DIVMOD \<Longrightarrow> \<not> (int_val (Small lhs) = - 1073741824 \<and> int_val (Small rhs) = - 1)"
  shows "gives (small_binary_op op lhs rhs) (lim_binary_op op (int_val (Small lhs)) (int_val (Small rhs)))"
proof (cases "arith_of op")
  case (Some a)
  then have "small_binary_op op lhs rhs = small_arith op a lhs rhs" "\<And>x y. lim_binary_op op x y = lim_arith a x y"
    by (auto simp: arith_of_def small_binary_op_def lim_binary_op_def split: binary_op.splits)
  then show ?thesis
    using small_arith_ok [OF l r Some] by simp
next
  case None
  define u where "u = MP_OBJ_SMALL_INT_VALUE lhs"
  define w where "w = MP_OBJ_SMALL_INT_VALUE rhs"
  have v: "int_val (Small lhs) = sint u" "int_val (Small rhs) = sint w" and range: "small_range (sint u)" "small_range (sint w)"
    by (simp_all add: int_val_def u_def w_def small_value_range)
  have zero: "w = 0 \<longleftrightarrow> sint w = 0"
    by (simp add: signed_eq_0_iff)
  have "gives (Some (Res_Pair (Small (MP_OBJ_NEW_SMALL_INT (mp_small_int_floor_divide u w)))
        (Small (MP_OBJ_NEW_SMALL_INT (mp_small_int_modulo u w))))) (Py_Pair (sint u div sint w) (sint u mod sint w))"
    if "op = OP_DIVMOD" "sint w \<noteq> 0"
    using small_new [of "mp_small_int_floor_divide u w"] small_new [of "mp_small_int_modulo u w"] that d v
      small_div_range [OF range that(2)] small_mod_range [OF range(2) that(2)]
      floor_divide_correct [OF range that(2)] modulo_correct [OF range(2) that(2), of u]
    by simp
  then show ?thesis
    using None op unfolding v
    by (cases op) (auto simp: small_binary_op_def lim_defs arith_of_def less_signed zero u_def [symmetric] w_def [symmetric] Let_def)
qed

lemma int_equal_ok:
  assumes "int_ok x" and "int_ok y" and "op = OP_EQUAL \<or> op = OP_NOT_EQUAL"
  shows "gives (int_equal_not_equal op x y) (lim_binary_op op (int_val x) (int_val y))"
proof -
  have big: "mp_obj_int_binary_op OP_EQUAL a b = Some (Res_Bool (int_val a = int_val b))"
    if "int_ok a" "int_ok b" "\<not> (is_small a \<and> is_small b)" for a b
    by (rule int_binary_op_ok [OF that, of OP_EQUAL]) (simp add: Let_def operands_cmp(1) sgn_diff_simps del: One_nat_def)
  show ?thesis
  proof (cases x)
    case (Small a)
    then show ?thesis
      using assms big [of y x] canonical_unique_small [of a]
      by (cases y) (auto simp: int_equal_not_equal_def lim_defs is_small_def)
  next
    case (Big z)
    then show ?thesis
      using assms big [of x y] by (auto simp: int_equal_not_equal_def lim_defs is_small_def)
  qed
qed

lemma mp_binary_op_ok:
  assumes "int_ok x" and "int_ok y" and "arith_of op = Some OP_POWER \<Longrightarrow> pow_defined x y"
    and "op = OP_DIVMOD \<Longrightarrow> is_small x \<Longrightarrow> is_small y \<Longrightarrow> \<not> (int_val x = - 1073741824 \<and> int_val y = - 1)"
  shows "gives (mp_binary_op op x y) (lim_binary_op op (int_val x) (int_val y))"
proof (cases "op = OP_EQUAL \<or> op = OP_NOT_EQUAL")
  case True
  then show ?thesis
    using int_equal_ok [OF assms(1,2)] by (auto simp: mp_binary_op_def)
next
  case False
  then have gen: "gives (generic_binary_op op x y) (lim_binary_op op (int_val x) (int_val y))" if "\<not> (is_small x \<and> is_small y)"
    using generic_ok [OF assms(1,2) that] assms(3) by blast
  show ?thesis
  proof (cases x)
    case (Small l)
    show ?thesis
    proof (cases y)
      case (Small r)
      then show ?thesis
        using False assms \<open>x = Small l\<close> small_binary_ok [of l r op] by (simp add: mp_binary_op_def is_small_def)
    qed (use False gen Small in \<open>simp add: mp_binary_op_def is_small_def\<close>)
  qed (use False gen in \<open>simp add: mp_binary_op_def is_small_def\<close>)
qed

section \<open>Unary operators\<close>

text \<open>The hash of an integer is its value cut to the width of a small integer.\<close>

definition py_unary_op :: "unary_op \<Rightarrow> int \<Rightarrow> py_value" where
  "py_unary_op op x =
     (case op of
        OP_POSITIVE \<Rightarrow> Py_Int x | OP_INT_MAYBE \<Rightarrow> Py_Int x | OP_NEGATIVE \<Rightarrow> Py_Int (- x) | OP_INVERT \<Rightarrow> Py_Int (NOT x)
      | OP_ABS \<Rightarrow> Py_Int \<bar>x\<bar> | OP_NOT \<Rightarrow> Py_Bool (x = 0) | OP_BOOL \<Rightarrow> Py_Bool (x \<noteq> 0)
      | OP_HASH \<Rightarrow> Py_Int (signed_take_bit 30 x))"

lemma small_new_value: "int_val (Small (MP_OBJ_NEW_SMALL_INT v)) = signed_take_bit 30 (sint v)"
proof (rule bit_eqI)
  fix n
  have b: "bit (MP_OBJ_NEW_SMALL_INT v) (Suc m) \<longleftrightarrow> m < 31 \<and> bit v m" for m
    unfolding MP_OBJ_NEW_SMALL_INT_def by (simp only: bit_or_iff bit_push_bit_iff bit_1_iff) auto
  have "bit (int_val (Small (MP_OBJ_NEW_SMALL_INT v))) n \<longleftrightarrow> bit (MP_OBJ_NEW_SMALL_INT v) (Suc (min n 30))"
    using bit_imp_le_length [of "MP_OBJ_NEW_SMALL_INT v" "Suc n"]
    by (auto simp: int_val_def MP_OBJ_SMALL_INT_VALUE_def bit_sint_iff bit_signed_drop_bit_iff min_def)
  also have "\<dots> \<longleftrightarrow> bit v (min n 30)"
    by (auto simp: b)
  finally show "bit (int_val (Small (MP_OBJ_NEW_SMALL_INT v))) n \<longleftrightarrow> bit (signed_take_bit 30 (sint v)) n"
    by (auto simp: bit_signed_take_bit_iff bit_sint_iff min_def)
qed

lemma mp_unary_small_ok:
  assumes "int_ok (Small ob)"
  shows "gives_any False (mp_unary_op op (Small ob)) (py_unary_op op (int_val (Small ob)))"
proof -
  define u where "u = MP_OBJ_SMALL_INT_VALUE ob"
  have v: "int_val (Small ob) = sint u" and range: "small_range (sint u)"
    by (simp_all add: int_val_def u_def small_value_range)
  have b: "- 1073741824 \<le> sint u" "sint u < 1073741824"
    using range by (simp_all add: small_range_def)
  have zero: "u = 0 \<longleftrightarrow> sint u = 0"
    by (simp add: signed_eq_0_iff)
  have min: "u = MP_SMALL_INT_MIN \<longleftrightarrow> sint u = - 1073741824"
    unfolding sint_bounds(1) [symmetric] by (auto intro: signed_word_eqI)
  have neg: "sint (- u) = - sint u" and inv: "sint (NOT u) = NOT (sint u)"
    using sint_neg [of u] b
    by (simp_all add: signed_not_eq signed_take_bit_int_eq_self not_int_def)
  obtain x where new: "mp_obj_new_int (- u) = Some x" "int_ok x" "int_val x = - sint u"
    using new_int_ok [of "- u"] neg by auto
  have small: "int_ok (Small (MP_OBJ_NEW_SMALL_INT (- u)))" "int_val (Small (MP_OBJ_NEW_SMALL_INT (- u))) = - sint u"
    if "sint u \<noteq> - 1073741824"
    using small_new [of "- u"] that b neg by (simp_all add: small_range_def)
  have not: "int_ok (Small (MP_OBJ_NEW_SMALL_INT (NOT u)))" "int_val (Small (MP_OBJ_NEW_SMALL_INT (NOT u))) = NOT (sint u)"
    using small_new [of "NOT u"] inv b by (simp_all add: small_range_def not_int_def)
  have take: "signed_take_bit 30 (sint u) = sint u"
    using b by (simp add: signed_take_bit_int_eq_self)
  show ?thesis
    using assms unfolding v
    by (cases op) (auto simp: mp_unary_op_def py_unary_op_def Let_def u_def [symmetric] zero min new small not take v less_signed)
qed

lemma mp_unary_big_ok:
  assumes "int_ok (Big z)"
  shows "gives_any False (mp_unary_op op (Big z)) (py_unary_op op (int_val (Big z)))"
proof -
  have ok: "mpz_ok z" "\<not> z_fixed z" and v: "int_val (Big z) = mpz_val z"
    using assms by (simp_all add: int_ok_def int_val_def)
  define \<sigma> where "\<sigma> = mpz_init_zero (Ob 1) ((\<lambda>_. mpz_zero)(Ob 0 := z))"
  have s: "\<sigma> (Ob 0) = z" "\<not> z_fixed (\<sigma> (Ob 1))"
    by (simp_all add: \<sigma>_def mpz_init_zero_def mpz_zero_def)
  have ok0: "mpz_ok (\<sigma> (Ob 0))"
    using s ok by simp
  have sets: "gives_any False (do { \<sigma>' \<leftarrow> m; Some (Res_Int (Big (\<sigma>' (Ob 1)))) }) (Py_Int k)"
    if "\<exists>\<sigma>'. m = Some \<sigma>' \<and> mpz_sets (Ob 1) k \<sigma> \<sigma>'" for m k
    using that by (auto simp: mpz_sets_def int_ok_def int_val_def)
  have neg: "gives_any False (do { \<sigma>' \<leftarrow> mpz_neg_inpl (Ob 1) (Ob 0) \<sigma>; Some (Res_Int (Big (\<sigma>' (Ob 1)))) }) (Py_Int (- mpz_val z))"
    unfolding s(1) [symmetric] by (rule mpz_neg_inpl_ok [OF ok0 s(2)], rule sets, blast)
  have inv: "gives_any False (do { \<sigma>' \<leftarrow> mpz_not_inpl (Ob 1) (Ob 0) \<sigma>; Some (Res_Int (Big (\<sigma>' (Ob 1)))) }) (Py_Int (NOT (mpz_val z)))"
    unfolding s(1) [symmetric] by (rule mpz_not_inpl_ok [OF ok0 s(2)], rule sets, blast)
  have abs: "gives_any False (do { \<sigma>' \<leftarrow> mpz_abs_inpl (Ob 1) (Ob 0) \<sigma>; Some (Res_Int (Big (\<sigma>' (Ob 1)))) }) (Py_Int \<bar>mpz_val z\<bar>)"
    unfolding s(1) [symmetric] by (rule mpz_abs_inpl_ok [OF ok0 s(2)], rule sets, blast)
  have zero: "mpz_is_zero z \<longleftrightarrow> mpz_val z = 0" and n: "z_neg z \<longleftrightarrow> mpz_val z < 0"
    using mpz_ok_zero [OF ok(1)] mpz_ok_neg [OF ok(1)] by (simp_all add: mpz_is_zero_def)
  have hash: "signed_take_bit 30 (sint (of_int (mpz_val z) :: u32)) = signed_take_bit 30 (mpz_val z)"
    by (simp add: sint_sbintrunc' signed_take_bit_signed_take_bit)
  show ?thesis
    using assms neg inv abs unfolding v
    by (cases op) (auto simp: mp_unary_op_def mp_obj_int_unary_op_def py_unary_op_def Let_def \<sigma>_def [symmetric] zero n v small_new_ok
        small_new_value mpz_hash_val hash simp del: One_nat_def)
qed

lemma mp_unary_op_ok:
  assumes "int_ok x"
  shows "gives_any False (mp_unary_op op x) (py_unary_op op (int_val x))"
  using assms mp_unary_small_ok mp_unary_big_ok by (cases x) auto

lemma int_sign_ok: "int_ok x \<Longrightarrow> mp_obj_int_sign x = sgn (int_val x)"
  using mpz_ok_zero mpz_ok_neg
  by (cases x) (auto simp: mp_obj_int_sign_def int_ok_def int_val_def Let_def less_signed sgn_if)

section \<open>Where the operators depart from Python\<close>

text \<open>\<^verbatim>\<open>divmod\<close> tags the quotient of two small integers without a check, and the one quotient that does not fit wraps.\<close>

lemma divmod_smallest:
  assumes "int_ok (Small l)" and "int_ok (Small r)" and "int_val (Small l) = - 1073741824" and "int_val (Small r) = - 1"
  shows "gives (mp_binary_op OP_DIVMOD (Small l) (Small r)) (Py_Pair (- 1073741824) 0)"
proof -
  define u where "u = MP_OBJ_SMALL_INT_VALUE l"
  define w where "w = MP_OBJ_SMALL_INT_VALUE r"
  have v: "sint u = - 1073741824" "sint w = - 1"
    using assms(3,4) by (simp_all add: int_val_def u_def w_def)
  have range: "small_range (sint u)" "small_range (sint w)" "sint w \<noteq> 0"
    by (simp_all add: v small_range_def)
  have "w \<noteq> 0"
    using range(3) by auto
  moreover have "sint (mp_small_int_floor_divide u w) = 1073741824" "sint (mp_small_int_modulo u w) = 0"
    using floor_divide_correct [OF range] modulo_correct [OF range(2,3), of u] by (simp_all add: v)
  moreover have "signed_take_bit 30 (1073741824 :: int) = - 1073741824"
    by (simp add: signed_take_bit_eq_take_bit_shift take_bit_eq_mod)
  ultimately show ?thesis
    by (simp add: mp_binary_op_def small_binary_op_def u_def [symmetric] w_def [symmetric] Let_def small_new_ok small_new_value is_small_def
        canonical_def)
qed

text \<open>The members of the pair: small integers for small operands, heap objects otherwise, however small the numbers are.\<close>

lemma divmod_pair_kind:
  assumes "int_ok x" and "int_ok y" and "mp_binary_op OP_DIVMOD x y = Some (Res_Pair p q)"
  shows "if is_small x \<and> is_small y then is_small p \<and> is_small q else \<not> is_small p \<and> \<not> is_small q"
proof (cases "is_small x \<and> is_small y")
  case True
  then obtain l r where "x = Small l" "y = Small r"
    by (cases x; cases y) (auto simp: is_small_def)
  then show ?thesis
    using assms(3) by (auto simp: mp_binary_op_def small_binary_op_def Let_def is_small_def split: if_splits)
next
  case False
  obtain \<sigma> where run: "mp_obj_int_binary_op OP_DIVMOD x y =
      (if mpz_is_zero (\<sigma> (zptr (Ob 1) y)) then Some (Res_Raise ZeroDivisionError)
       else do { \<sigma>' \<leftarrow> mpz_divmod_inpl (Ob 3) (Ob 2) (zptr (Ob 0) x) (zptr (Ob 1) y) \<sigma>;
                 Some (Res_Pair (Big (\<sigma>' (Ob 3))) (Big (\<sigma>' (Ob 2)))) })"
    by (rule int_binary_op_ok [OF assms(1,2) False, of OP_DIVMOD], rule that, erule trans) (simp only: Let_def binary_op.case)
  have "mp_binary_op OP_DIVMOD x y = generic_binary_op OP_DIVMOD x y"
    using False by (cases x; cases y) (auto simp: mp_binary_op_def is_small_def)
  then have "generic_binary_op OP_DIVMOD x y = Some (Res_Pair p q)"
    using assms(3) by simp
  then have "mp_obj_int_binary_op OP_DIVMOD x y = Some (Res_Pair p q)"
    by (subst (asm) generic_binary_op.simps) (auto split: if_splits Option.bind_splits)
  then have "\<not> is_small p \<and> \<not> is_small q"
    unfolding run by (auto simp: is_small_def split: if_splits Option.bind_splits)
  with False show ?thesis
    by simp
qed

text \<open>A zero on the heap has the power \<open>0\<close> for the exponent zero.\<close>

lemma heap_zero_pow:
  assumes "int_ok p" and "\<not> is_small p" and "int_val p = 0" and "int_ok e" and "int_val e = 0"
  shows "gives (mp_binary_op (Plain OP_POWER) p e) (Py_Int 0)"
proof -
  have one: "\<not> (is_small p \<and> is_small e)"
    using assms(2) by simp
  obtain \<sigma> where s: "operands_in \<sigma> p e" and run: "mp_obj_int_binary_op (Plain OP_POWER) p e = int_arith OP_POWER p e \<sigma>"
    by (rule int_binary_op_ok [OF assms(1,4) one, of "Plain OP_POWER"], rule that, assumption, erule trans) (simp only: Let_def binary_op.case)
  define l where "l = zptr (Ob 0) p"
  define q where "q = zptr (Ob 1) e"
  have ok: "mpz_ok (\<sigma> l)" "mpz_ok (\<sigma> q)" "\<not> z_fixed (\<sigma> (Ob 2))" "Ob 2 \<notin> {Tmp 0, Tmp 1}" and v: "mpz_val (\<sigma> l) = 0" "mpz_val (\<sigma> q) = 0"
    using s assms(3,5) by (simp_all add: operands_in_def l_def q_def)
  have "gives (int_result (mpz_pow_inpl (Ob 2) l q \<sigma>)) (Py_Int 0)"
  proof (rule mpz_pow_inpl_ok [OF ok])
    fix \<sigma>'
    assume "mpz_pow_inpl (Ob 2) l q \<sigma> = Some \<sigma>'" "mpz_ok (\<sigma>' (Ob 2))" "\<not> z_fixed (\<sigma>' (Ob 2))"
      "mpz_val (\<sigma>' (Ob 2)) = (if mpz_val (\<sigma> l) = 0 \<or> mpz_val (\<sigma> q) < 0 then 0 else mpz_val (\<sigma> l) ^ nat (mpz_val (\<sigma> q)))"
    then show ?thesis
      using v by (simp add: int_result_ok)
  qed
  moreover have "\<not> mpz_is_neg (\<sigma> q)"
    using mpz_ok_neg [OF ok(2)] v by (simp add: mpz_is_neg_def)
  ultimately have "gives (mp_obj_int_binary_op (Plain OP_POWER) p e) (Py_Int 0)"
    unfolding run by (simp add: int_arith_def Let_def l_def q_def)
  then have "gives (generic_binary_op (Plain OP_POWER) p e) (Py_Int 0)"
    by (subst generic_binary_op.simps) (auto simp: gives_any_def)
  moreover have "mp_binary_op (Plain OP_POWER) p e = generic_binary_op (Plain OP_POWER) p e"
    using assms(2) by (cases p) (auto simp: mp_binary_op_def is_small_def)
  ultimately show ?thesis
    by simp
qed

text \<open>The value of every operator on canonical operands.\<close>

lemma mp_binary_op_exact:
  assumes "int_ok x" and "canonical x" and "int_ok y" and "canonical y"
  shows "gives (mp_binary_op op x y)
    (if op = OP_DIVMOD \<and> int_val x = - 1073741824 \<and> int_val y = - 1 then Py_Pair (- 1073741824) 0
     else lim_binary_op op (int_val x) (int_val y))"
proof (cases "op = OP_DIVMOD \<and> int_val x = - 1073741824 \<and> int_val y = - 1")
  case True
  then obtain l r where "x = Small l" "y = Small r"
    using assms(2,4) by (cases x; cases y) (auto simp: int_obj_defs small_range_def)
  then show ?thesis
    using True divmod_smallest [of l r] assms by simp
next
  case False
  have "pow_defined x y"
    using assms(2,4) by (cases x; cases y) (auto simp: pow_defined_def int_obj_defs small_range_def)
  then show ?thesis
    using False assms(1,3) by (simp only: if_False) (intro mp_binary_op_ok, auto)
qed

end
