(* ===== verification/Py_Int_Props.thy ===== *)
theory Py_Int_Props
  imports Py_Int_Correct
begin

text \<open>
  The properties of the operators of \<^verbatim>\<open>int\<close>, with a large example: \<open>2 ^ 32\<close> in three digits.
\<close>

definition two_32 :: int_obj where
  "two_32 = Big \<lparr>z_neg = False, z_fixed = False, z_len = 3, z_dig = [0, 0, 1]\<rparr>"

lemma two_32: "int_ok two_32" "canonical two_32" "int_val two_32 = 4294967296" "\<not> is_small two_32"
  by (simp_all add: two_32_def int_obj_defs mpz_ok_def digits_def normalised_def mpz_val_def sval_def small_range_def numeral_3_eq_3)

lemma minus_three: "int_ok (Small 0xFFFFFFFB)" "int_val (Small 0xFFFFFFFB) = - 3"
  by (simp_all add: int_ok_def int_val_def small_value)

text \<open>
  C29. \<^verbatim>\<open>mp_binary_op\<close> on two integers, small or large, in canonical form, always returns, and returns what Python's operator returns - the
  arithmetic, bitwise, shift and power operators, \<^verbatim>\<open>divmod\<close> and the comparisons, with the exceptions for a
  zero divisor and a negative shift count - but for two cases: a shift count of \<open>2 ^ 31\<close> or more in magnitude raises
  \<^verbatim>\<open>OverflowError\<close>, in both directions, and \<open>divmod(- 2 ** 30, - 1)\<close> has the quotient \<open>- 2 ** 30\<close>. An integer result
  is a well-formed object in its one canonical form, a small integer whenever it fits, whatever of
  the overflow paths computes it. The two members of a pair are small integers when both operands are, and heap objects otherwise, also when they would fit
  a small integer.
\<close>

theorem mp_binary_op_correct:
  assumes "int_ok x" and "canonical x" and "int_ok y" and "canonical y"
  shows "\<exists>r. mp_binary_op op x y = Some r \<and>
    res_is True r
      (if op \<in> {Plain OP_LSHIFT, Inplace OP_LSHIFT, Plain OP_RSHIFT, Inplace OP_RSHIFT} \<and> 2 ^ 31 \<le> \<bar>int_val y\<bar> then Py_Raise OverflowError
       else if op = OP_DIVMOD \<and> int_val x = - (2 ^ 30) \<and> int_val y = - 1 then Py_Pair (- (2 ^ 30)) 0
       else py_binary_op op (int_val x) (int_val y)) \<and>
    (\<forall>p q. op = OP_DIVMOD \<and> r = Res_Pair p q \<longrightarrow>
      (if is_small x \<and> is_small y then is_small p \<and> is_small q else \<not> is_small p \<and> \<not> is_small q))"
proof -
  define v where "v = (if op = OP_DIVMOD \<and> int_val x = - 1073741824 \<and> int_val y = - 1 then Py_Pair (- 1073741824) 0
     else lim_binary_op op (int_val x) (int_val y))"
  have "v = (if op \<in> {Plain OP_LSHIFT, Inplace OP_LSHIFT, Plain OP_RSHIFT, Inplace OP_RSHIFT} \<and> 2 ^ 31 \<le> \<bar>int_val y\<bar> then Py_Raise OverflowError
       else if op = OP_DIVMOD \<and> int_val x = - (2 ^ 30) \<and> int_val y = - 1 then Py_Pair (- (2 ^ 30)) 0
       else py_binary_op op (int_val x) (int_val y))"
    unfolding v_def by (cases op) (auto simp: lim_defs)
  note v = this [symmetric]
  obtain r where r: "mp_binary_op op x y = Some r" "res_is True r v"
    using mp_binary_op_exact [OF assms, of op] unfolding v_def [symmetric] gives_any_def by blast
  have "\<forall>p q. op = OP_DIVMOD \<and> r = Res_Pair p q \<longrightarrow>
      (if is_small x \<and> is_small y then is_small p \<and> is_small q else \<not> is_small p \<and> \<not> is_small q)"
    using r(1) divmod_pair_kind [OF assms(1,3)] by blast
  then show ?thesis
    unfolding v using r by blast
qed

theorem mp_binary_op_correct_witness:
  "\<exists>r. mp_binary_op (Inplace OP_FLOOR_DIVIDE) two_32 (Small 0xFFFFFFFB) = Some r \<and> res_is True r (Py_Int (- 1431655766))"
proof -
  have c: "canonical (Small 0xFFFFFFFB)"
    by (simp add: canonical_def)
  have "py_binary_op (Inplace OP_FLOOR_DIVIDE) (int_val two_32) (int_val (Small 0xFFFFFFFB)) = Py_Int (- 1431655766)"
    unfolding two_32(3) minus_three(2) by (simp add: py_binary_op_def py_arith_def)
  then show ?thesis
    using mp_binary_op_correct [OF two_32(1,2) minus_three(1) c, of "Inplace OP_FLOOR_DIVIDE"] by auto
qed

text \<open>
  C30. \<^verbatim>\<open>mp_unary_op\<close> on an integer returns a well-formed object of the right type with the value of
  Python's operator, the negation and absolute value of the smallest small integer included. The
  hash of an integer depends on its value only, so equal integers have equal hashes.
\<close>

theorem mp_unary_op_type:
  assumes "int_ok x"
  shows "\<exists>r. mp_unary_op op x = Some r \<and> res_is False r (py_unary_op op (int_val x))"
  using mp_unary_op_ok [OF assms, of op] by (simp add: gives_any_def)

theorem mp_unary_op_type_witness:
  "\<exists>r. mp_unary_op OP_ABS (Small 0x80000001) = Some r \<and> res_is False r (Py_Int 1073741824)"
proof -
  have "int_ok (Small 0x80000001)" "int_val (Small 0x80000001) = - 1073741824"
    by (simp_all add: int_ok_def int_val_def small_value)
  then show ?thesis
    using mp_unary_op_type [of "Small 0x80000001" OP_ABS] by (simp add: py_unary_op_def)
qed

text \<open>
  C31. Where the code departs from Python, for whole classes of operands. For \<open>0 \<le> x < y\<close> with one of them on the heap, \<^verbatim>\<open>divmod(x, y)\<close>
  has a quotient that is a zero on the heap, and the power of that zero to any zero exponent is \<open>0\<close>, where Python and the
  small integer zero have \<open>1\<close>. A right shift by any count from \<open>2 ^ 31\<close> raises \<^verbatim>\<open>OverflowError\<close>, where Python's result is
  the quotient by the power of two.
\<close>

theorem int_operators_wrong:
  assumes "int_ok x" and "int_ok y" and "\<not> (is_small x \<and> is_small y)" and "0 \<le> int_val x" and "int_val x < int_val y"
    and "int_ok e" and "int_val e = 0" and "int_ok c" and "2 ^ 31 \<le> int_val c"
  shows "(\<exists>p q r. mp_binary_op OP_DIVMOD x y = Some (Res_Pair p q) \<and> int_val p = 0 \<and>
      mp_binary_op (Plain OP_POWER) p e = Some (Res_Int r) \<and> int_val r = 0 \<and>
      py_binary_op (Plain OP_POWER) (int_val p) (int_val e) = Py_Int 1) \<and>
    mp_binary_op (Plain OP_RSHIFT) x c = Some (Res_Raise OverflowError) \<and>
    py_binary_op (Plain OP_RSHIFT) (int_val x) (int_val c) = Py_Int (int_val x div 2 ^ nat (int_val c))"
proof (intro conjI)
  have "gives (mp_binary_op OP_DIVMOD x y) (lim_binary_op OP_DIVMOD (int_val x) (int_val y))"
    using assms(3) by (intro mp_binary_op_ok [OF assms(1,2)]) (auto simp: arith_of_def)
  then obtain d where d: "mp_binary_op OP_DIVMOD x y = Some d" "res_is True d (Py_Pair 0 (int_val x))"
    using assms(4,5) by (auto simp: gives_any_def lim_defs)
  then obtain p q where p: "mp_binary_op OP_DIVMOD x y = Some (Res_Pair p q)" "int_ok p" "int_val p = 0"
    by (cases d) auto
  then have "\<not> is_small p"
    using divmod_pair_kind [OF assms(1,2) p(1)] assms(3) by auto
  from heap_zero_pow [OF p(2) this p(3) assms(6,7)] obtain b where
    b: "mp_binary_op (Plain OP_POWER) p e = Some b" "res_is True b (Py_Int 0)"
    by (auto simp: gives_any_def)
  then obtain r where "mp_binary_op (Plain OP_POWER) p e = Some (Res_Int r)" "int_val r = 0"
    by (cases b) auto
  moreover have "py_binary_op (Plain OP_POWER) (int_val p) (int_val e) = Py_Int 1"
    by (simp add: py_binary_op_def py_arith_def assms(7))
  ultimately show "\<exists>p q r. mp_binary_op OP_DIVMOD x y = Some (Res_Pair p q) \<and> int_val p = 0 \<and>
      mp_binary_op (Plain OP_POWER) p e = Some (Res_Int r) \<and> int_val r = 0 \<and>
      py_binary_op (Plain OP_POWER) (int_val p) (int_val e) = Py_Int 1"
    using p(1,3) by blast
  have "gives (mp_binary_op (Plain OP_RSHIFT) x c) (lim_binary_op (Plain OP_RSHIFT) (int_val x) (int_val c))"
    by (intro mp_binary_op_ok [OF assms(1,8)]) (simp_all add: arith_of_def)
  then obtain b where "mp_binary_op (Plain OP_RSHIFT) x c = Some b" "res_is True b (Py_Raise OverflowError)"
    using assms(9) by (auto simp: gives_any_def lim_defs)
  then show "mp_binary_op (Plain OP_RSHIFT) x c = Some (Res_Raise OverflowError)"
    by (cases b) auto
  show "py_binary_op (Plain OP_RSHIFT) (int_val x) (int_val c) = Py_Int (int_val x div 2 ^ nat (int_val c))"
    using assms(9) by (simp add: py_binary_op_def py_arith_def py_shift_def drop_bit_eq_div)
qed

theorem int_operators_wrong_witness:
  "\<exists>p q r. mp_binary_op OP_DIVMOD (Small 7) two_32 = Some (Res_Pair p q) \<and> int_val p = 0 \<and>
     mp_binary_op (Plain OP_POWER) p (Small 1) = Some (Res_Int r) \<and> int_val r = 0 \<and>
     mp_binary_op (Plain OP_RSHIFT) (Small 7) two_32 = Some (Res_Raise OverflowError)"
proof -
  have "int_ok (Small 7)" "int_val (Small 7) = 3" "int_ok (Small 1)" "int_val (Small 1) = 0"
    by (simp_all add: int_ok_def int_val_def small_value)
  note 7 = this
  have "\<not> (is_small (Small 7) \<and> is_small two_32)" "0 \<le> int_val (Small 7)" "int_val (Small 7) < int_val two_32" "2 ^ 31 \<le> int_val two_32"
    by (simp_all add: two_32 7(2))
  from int_operators_wrong [OF 7(1) two_32(1) this(1,2,3) 7(3,4) two_32(1) this(4)] show ?thesis
    by blast
qed

end
