(* ===== verification/Fifo.thy ===== *)
theory Fifo
  imports Prelude
begin

text \<open>
  The contract of a bounded first-in first-out queue, which the ring buffer of \<^verbatim>\<open>py/ringbuf.h\<close> and the
  queue of the scheduler (\<^verbatim>\<open>py/scheduler.c\<close>) provide, and what a client gets from it: whatever
  puts and gets are made, in whatever order, the items come out in the order they were accepted,
  each once.
\<close>

datatype 'a fifo_op = Put 'a | Get

text \<open>A run returns the items that were accepted, the items that were taken and the final queue.\<close>

fun fifo_run ::
    "('a \<Rightarrow> 's \<Rightarrow> 's option) \<Rightarrow> ('s \<Rightarrow> ('a \<times> 's) option) \<Rightarrow> 'a fifo_op list \<Rightarrow> 's \<Rightarrow> 'a list \<times> 'a list \<times> 's" where
  "fifo_run put get [] s = ([], [], s)"
| "fifo_run put get (Put x # ops) s =
     (case put x s of
        None \<Rightarrow> fifo_run put get ops s
      | Some s' \<Rightarrow> let (acc, out, t) = fifo_run put get ops s' in (x # acc, out, t))"
| "fifo_run put get (Get # ops) s =
     (case get s of
        None \<Rightarrow> fifo_run put get ops s
      | Some (x, s') \<Rightarrow> let (acc, out, t) = fifo_run put get ops s' in (acc, x # out, t))"

text \<open>An index of a ring after it wraps.\<close>

lemma wrap_mod: "a < 2 * n \<Longrightarrow> a mod n = (if a < n then a else a - n)" for a n :: nat
  by (simp add: le_mod_geq)

locale bounded_fifo =
  fixes ok :: "'s \<Rightarrow> bool"
    and items :: "'s \<Rightarrow> 'a list"
    and capacity :: "'s \<Rightarrow> nat"
    and put :: "'a \<Rightarrow> 's \<Rightarrow> 's option"
    and get :: "'s \<Rightarrow> ('a \<times> 's) option"
  assumes put_None: "ok s \<Longrightarrow> put x s = None \<longleftrightarrow> capacity s \<le> length (items s)"
    and put_Some: "ok s \<Longrightarrow> put x s = Some s' \<Longrightarrow> ok s' \<and> items s' = items s @ [x] \<and> capacity s' = capacity s"
    and get_None: "ok s \<Longrightarrow> get s = None \<longleftrightarrow> items s = []"
    and get_Some: "ok s \<Longrightarrow> get s = Some (x, s') \<Longrightarrow> ok s' \<and> items s = x # items s' \<and> capacity s' = capacity s"
    and bound: "ok s \<Longrightarrow> length (items s) \<le> capacity s"
begin

lemma run_in_order:
  assumes "ok s" and "fifo_run put get ops s = (acc, out, t)"
  shows "ok t \<and> capacity t = capacity s \<and> out @ items t = items s @ acc"
  using assms
proof (induction ops arbitrary: s acc out)
  case (Cons p ops)
  show ?case
  proof (cases p)
    case (Put x)
    show ?thesis
    proof (cases "put x s")
      case (Some s')
      then obtain acc' where "fifo_run put get ops s' = (acc', out, t)" "acc = x # acc'"
        using Cons.prems(2) Put by (auto split: prod.splits)
      then show ?thesis
        using Cons.IH [of s' acc' out] put_Some [OF Cons.prems(1) Some] by auto
    qed (use Cons Put in simp)
  next
    case Get
    show ?thesis
    proof (cases "get s")
      case (Some r)
      then obtain x s' where r: "get s = Some (x, s')"
        by (cases r) simp
      then obtain out' where "fifo_run put get ops s' = (acc, out', t)" "out = x # out'"
        using Cons.prems(2) Get by (auto split: prod.splits)
      then show ?thesis
        using Cons.IH [of s' acc out'] get_Some [OF Cons.prems(1) r] by auto
    qed (use Cons Get in simp)
  qed
qed simp

text \<open>A put is refused only when the queue holds as many items as it can.\<close>

lemma refused_full: "ok s \<Longrightarrow> put x s = None \<Longrightarrow> length (items s) = capacity s"
  using put_None bound by (metis le_antisym)

end

end
