(* ===== verification/Ringbuf.thy ===== *)
theory Ringbuf
  imports Fifo
begin

text \<open>
  The ring buffer of bytes of \<^verbatim>\<open>py/ringbuf.h\<close> and \<^verbatim>\<open>py/ringbuf.c\<close>. The fields are 16-bit numbers and
  the updates of a field wrap; local variables have 32 bits, which no index exceeds. One
  byte of the buffer stays unused, so a buffer of \<open>n\<close> bytes holds \<open>n - 1\<close>.
\<close>

record ringbuf =
  rb_buf :: "u8 list"
  rb_size :: nat
  rb_iget :: nat
  rb_iput :: nat

definition ringbuf_alloc :: "nat \<Rightarrow> ringbuf" where
  "ringbuf_alloc sz = \<lparr>rb_buf = replicate sz 0, rb_size = sz mod 65536, rb_iget = 0, rb_iput = 0\<rparr>"

definition ringbuf_get :: "ringbuf \<Rightarrow> int \<times> ringbuf" where
  "ringbuf_get r =
     (if rb_iget r = rb_iput r then (- 1, r)
      else let v = rb_buf r ! rb_iget r;
               r = r\<lparr>rb_iget := (rb_iget r + 1) mod 65536\<rparr>;
               r = (if rb_size r \<le> rb_iget r then r\<lparr>rb_iget := 0\<rparr> else r)
           in (uint v, r))"

definition ringbuf_peek :: "ringbuf \<Rightarrow> int" where
  "ringbuf_peek r = (if rb_iget r = rb_iput r then - 1 else uint (rb_buf r ! rb_iget r))"

definition ringbuf_put :: "ringbuf \<Rightarrow> u8 \<Rightarrow> int \<times> ringbuf" where
  "ringbuf_put r v =
     (let iput_new = rb_iput r + 1;
          iput_new = (if rb_size r \<le> iput_new then 0 else iput_new)
      in if iput_new = rb_iget r then (- 1, r)
         else (0, r\<lparr>rb_buf := (rb_buf r)[rb_iput r := v], rb_iput := iput_new\<rparr>))"

definition ringbuf_free :: "ringbuf \<Rightarrow> nat" where
  "ringbuf_free r = (rb_size r + rb_iget r - rb_iput r - 1) mod rb_size r"

definition ringbuf_avail :: "ringbuf \<Rightarrow> nat" where
  "ringbuf_avail r = (rb_size r + rb_iput r - rb_iget r) mod rb_size r"

text \<open>\<^verbatim>\<open>memcpy\<close> into the buffer.\<close>

definition copy_to :: "u8 list \<Rightarrow> nat \<Rightarrow> u8 list \<Rightarrow> u8 list" where
  "copy_to buf i data = take i buf @ data @ drop (i + length data) buf"

definition ringbuf_memcpy_get_internal :: "ringbuf \<Rightarrow> nat \<Rightarrow> u8 list \<times> ringbuf" where
  "ringbuf_memcpy_get_internal r data_len =
     (let iget = rb_iget r;
          iget_a = (iget + data_len) mod rb_size r;
          (datap, iget) = (if iget_a < iget then (take (rb_size r - iget) (drop iget (rb_buf r)), 0) else ([], iget))
      in (datap @ take (iget_a - iget) (drop iget (rb_buf r)), r\<lparr>rb_iget := iget_a\<rparr>))"

definition ringbuf_memcpy_put_internal :: "ringbuf \<Rightarrow> u8 list \<Rightarrow> ringbuf" where
  "ringbuf_memcpy_put_internal r data =
     (let iput = rb_iput r;
          iput_a = (iput + length data) mod rb_size r;
          (buf, datap, iput) =
            (if iput_a < iput
             then (copy_to (rb_buf r) iput (take (rb_size r - iput) data), drop (rb_size r - iput) data, 0)
             else (rb_buf r, data, iput))
      in r\<lparr>rb_buf := copy_to buf iput (take (iput_a - iput) datap), rb_iput := iput_a\<rparr>)"

definition ringbuf_peek16 :: "ringbuf \<Rightarrow> int" where
  "ringbuf_peek16 r =
     (if rb_iget r = rb_iput r then - 1
      else let iget_a = rb_iget r + 1;
               iget_a = (if iget_a = rb_size r then 0 else iget_a)
           in if iget_a = rb_iput r then - 1
              else uint (push_bit 8 (ucast (rb_buf r ! rb_iget r)) OR ucast (rb_buf r ! iget_a) :: u32))"

definition ringbuf_get16 :: "ringbuf \<Rightarrow> int \<times> ringbuf" where
  "ringbuf_get16 r =
     (let v = ringbuf_peek16 r
      in if v = - 1 then (v, r)
         else let r = r\<lparr>rb_iget := (rb_iget r + 2) mod 65536\<rparr>;
                  r = (if rb_size r \<le> rb_iget r then r\<lparr>rb_iget := rb_iget r - rb_size r\<rparr> else r)
              in (v, r))"

definition ringbuf_put16 :: "ringbuf \<Rightarrow> u16 \<Rightarrow> int \<times> ringbuf" where
  "ringbuf_put16 r v =
     (let iput_a = rb_iput r + 1;
          iput_a = (if iput_a = rb_size r then 0 else iput_a)
      in if iput_a = rb_iget r then (- 1, r)
         else let iput_b = iput_a + 1;
                  iput_b = (if iput_b = rb_size r then 0 else iput_b)
              in if iput_b = rb_iget r then (- 1, r)
                 else (0, r\<lparr>rb_buf := (rb_buf r)[rb_iput r := ucast (drop_bit 8 v AND 0xff), iput_a := ucast (v AND 0xff)],
                            rb_iput := iput_b\<rparr>))"

text \<open>The results are the error number and, for a get, the bytes that were copied.\<close>

definition ringbuf_get_bytes :: "ringbuf \<Rightarrow> nat \<Rightarrow> int \<times> u8 list \<times> ringbuf" where
  "ringbuf_get_bytes r data_len =
     (if ringbuf_avail r < data_len then (if rb_size r \<le> data_len then - 2 else - 1, [], r)
      else let (data, r) = ringbuf_memcpy_get_internal r data_len in (0, data, r))"

definition ringbuf_put_bytes :: "ringbuf \<Rightarrow> u8 list \<Rightarrow> int \<times> ringbuf" where
  "ringbuf_put_bytes r data =
     (if ringbuf_free r < length data then (if rb_size r \<le> length data then - 2 else - 1, r)
      else (0, ringbuf_memcpy_put_internal r data))"

section \<open>The queue of bytes\<close>

definition rb_ok :: "ringbuf \<Rightarrow> bool" where
  "rb_ok r \<longleftrightarrow> 0 < rb_size r \<and> rb_size r < 65536 \<and> length (rb_buf r) = rb_size r \<and> rb_iget r < rb_size r \<and> rb_iput r < rb_size r"

definition rb_items :: "ringbuf \<Rightarrow> u8 list" where
  "rb_items r = map (\<lambda>i. rb_buf r ! ((rb_iget r + i) mod rb_size r)) [0..<ringbuf_avail r]"

lemma rb_okD:
  assumes "rb_ok r"
  shows "0 < rb_size r" and "rb_size r < 65536" and "length (rb_buf r) = rb_size r" and "rb_iget r < rb_size r"
    and "rb_iput r < rb_size r"
  using assms by (auto simp: rb_ok_def)

lemma avail_eq:
  assumes "rb_ok r"
  shows "ringbuf_avail r = (if rb_iget r \<le> rb_iput r then rb_iput r - rb_iget r else rb_size r + rb_iput r - rb_iget r)"
  using rb_okD [OF assms] by (simp add: ringbuf_avail_def wrap_mod) 

lemma free_eq:
  assumes "rb_ok r"
  shows "ringbuf_free r = rb_size r - 1 - ringbuf_avail r" and "ringbuf_avail r < rb_size r"
  using rb_okD [OF assms] unfolding avail_eq [OF assms] by (auto simp: ringbuf_free_def wrap_mod)

lemma length_rb_items [simp]: "length (rb_items r) = ringbuf_avail r"
  by (simp add: rb_items_def)

lemma rb_items_nth: "i < ringbuf_avail r \<Longrightarrow> rb_items r ! i = rb_buf r ! ((rb_iget r + i) mod rb_size r)"
  by (simp add: rb_items_def)

lemma rb_index:
  assumes "rb_ok r" and "i \<le> ringbuf_avail r"
  shows "(rb_iget r + i) mod rb_size r = (if rb_iget r + i < rb_size r then rb_iget r + i else rb_iget r + i - rb_size r)"
    and "(rb_iget r + i) mod rb_size r = rb_iput r \<longleftrightarrow> i = ringbuf_avail r"
  using rb_okD [OF assms(1)] assms(2) free_eq(2) [OF assms(1)] unfolding avail_eq [OF assms(1)]
  by (auto simp: wrap_mod split: if_splits)

text \<open>The effect of storing \<open>data\<close> after the last byte, and of removing the first \<open>n\<close> bytes.\<close>

lemma rb_items_append:
  assumes ok: "rb_ok r" and room: "length data \<le> ringbuf_free r"
    and len: "length (rb_buf r') = rb_size r" and iput: "rb_iput r' = (rb_iput r + length data) mod rb_size r"
    and same: "rb_size r' = rb_size r" "rb_iget r' = rb_iget r"
    and new: "\<And>i. i < length data \<Longrightarrow> rb_buf r' ! ((rb_iput r + i) mod rb_size r) = data ! i"
    and old: "\<And>i. i < ringbuf_avail r \<Longrightarrow> rb_buf r' ! ((rb_iget r + i) mod rb_size r) = rb_buf r ! ((rb_iget r + i) mod rb_size r)"
  shows "rb_ok r' \<and> rb_items r' = rb_items r @ data"
proof
  note d = rb_okD [OF ok]
  show ok': "rb_ok r'"
    using d len iput same by (simp add: rb_ok_def)
  have room': "ringbuf_avail r + length data < rb_size r"
    using room free_eq [OF ok] by linarith
  have avail: "ringbuf_avail r' = ringbuf_avail r + length data"
    using d room' unfolding avail_eq [OF ok] avail_eq [OF ok'] same iput by (auto simp: wrap_mod split: if_splits)
  have idx: "(rb_iget r + (ringbuf_avail r + i)) mod rb_size r = (rb_iput r + i) mod rb_size r" for i
  proof -
    have "(rb_iget r + ringbuf_avail r) mod rb_size r = rb_iput r"
      using rb_index(2) [OF ok, of "ringbuf_avail r"] by simp
    then show ?thesis
      by (metis add.assoc mod_add_left_eq)
  qed
  show "rb_items r' = rb_items r @ data"
  proof (rule nth_equalityI)
    fix i
    assume "i < length (rb_items r')"
    then have i: "i < ringbuf_avail r + length data"
      by (simp add: avail)
    show "rb_items r' ! i = (rb_items r @ data) ! i"
    proof (cases "i < ringbuf_avail r")
      case False
      then obtain j where j: "i = ringbuf_avail r + j"
        using le_Suc_ex not_less by blast
      have "rb_buf r' ! ((rb_iget r + i) mod rb_size r) = data ! j"
        unfolding j idx using new i j by simp
      then show ?thesis
        using i j by (simp add: rb_items_nth avail same nth_append)
    qed (use i old in \<open>simp add: rb_items_nth avail same nth_append\<close>)
  qed (simp add: avail)
qed

lemma rb_items_drop:
  assumes ok: "rb_ok r" and n: "n \<le> ringbuf_avail r"
    and r': "rb_buf r' = rb_buf r" "rb_size r' = rb_size r" "rb_iput r' = rb_iput r" "rb_iget r' = (rb_iget r + n) mod rb_size r"
  shows "rb_ok r'" and "rb_items r' = drop n (rb_items r)"
proof -
  note d = rb_okD [OF ok]
  show ok': "rb_ok r'"
    using d r' by (simp add: rb_ok_def)
  have avail: "ringbuf_avail r' = ringbuf_avail r - n"
    using d n free_eq(2) [OF ok] unfolding avail_eq [OF ok] avail_eq [OF ok'] r' by (auto simp: wrap_mod split: if_splits)
  show "rb_items r' = drop n (rb_items r)"
  proof (rule nth_equalityI)
    fix i
    assume "i < length (rb_items r')"
    then have i: "i < ringbuf_avail r - n"
      by (simp add: avail)
    have "((rb_iget r + n) mod rb_size r + i) mod rb_size r = (rb_iget r + (n + i)) mod rb_size r"
      by (metis add.assoc mod_add_left_eq)
    then show "rb_items r' ! i = drop n (rb_items r) ! i"
      using i avail r' by (simp add: rb_items_nth)
  qed (simp add: avail)
qed

section \<open>The operations\<close>

lemma iput_next:
  assumes "rb_ok r"
  shows "(if rb_size r \<le> rb_iput r + 1 then 0 else rb_iput r + 1) = (rb_iput r + 1) mod rb_size r"
    and "(if rb_iput r + 1 = rb_size r then 0 else rb_iput r + 1) = (rb_iput r + 1) mod rb_size r"
    and "(rb_iput r + 1) mod rb_size r = rb_iget r \<longleftrightarrow> ringbuf_free r = 0"
  using rb_okD [OF assms] free_eq [OF assms] unfolding avail_eq [OF assms]
  by (auto simp: wrap_mod split: if_splits)

lemma ringbuf_put_ok:
  assumes ok: "rb_ok r"
  shows "ringbuf_free r = 0 \<Longrightarrow> ringbuf_put r v = (- 1, r)"
    and "ringbuf_free r \<noteq> 0 \<Longrightarrow> \<exists>r'. ringbuf_put r v = (0, r') \<and> rb_ok r' \<and> rb_items r' = rb_items r @ [v] \<and> rb_size r' = rb_size r"
proof -
  show "ringbuf_put r v = (- 1, r)" if "ringbuf_free r = 0"
    using that iput_next(3) [OF ok] unfolding ringbuf_put_def Let_def iput_next(1) [OF ok] by simp
  assume free: "ringbuf_free r \<noteq> 0"
  define r' where "r' = r\<lparr>rb_buf := (rb_buf r)[rb_iput r := v], rb_iput := (rb_iput r + 1) mod rb_size r\<rparr>"
  note d = rb_okD [OF ok]
  have run: "ringbuf_put r v = (0, r')"
    using free iput_next(3) [OF ok] unfolding ringbuf_put_def Let_def iput_next(1) [OF ok] r'_def by simp
  have "rb_ok r' \<and> rb_items r' = rb_items r @ [v]"
  proof (rule rb_items_append [OF ok])
    show "rb_buf r' ! ((rb_iput r + i) mod rb_size r) = [v] ! i" if "i < length [v]" for i
      using that d by (simp add: r'_def)
    show "rb_buf r' ! ((rb_iget r + i) mod rb_size r) = rb_buf r ! ((rb_iget r + i) mod rb_size r)"
      if "i < ringbuf_avail r" for i
      using that d rb_index(2) [OF ok, of i] by (simp add: r'_def)
  qed (use free d in \<open>simp_all add: r'_def\<close>)
  then show "\<exists>r'. ringbuf_put r v = (0, r') \<and> rb_ok r' \<and> rb_items r' = rb_items r @ [v] \<and> rb_size r' = rb_size r"
    using run by (auto simp: r'_def)
qed

lemma items_empty: "rb_ok r \<Longrightarrow> rb_iget r = rb_iput r \<longleftrightarrow> rb_items r = []"
  using rb_index(2) [of r 0] rb_okD [of r] by (simp add: rb_items_def)

lemma items_head: "rb_ok r \<Longrightarrow> rb_items r \<noteq> [] \<Longrightarrow> rb_items r = rb_buf r ! rb_iget r # drop 1 (rb_items r)"
proof -
  assume "rb_ok r" and "rb_items r \<noteq> []"
  then obtain x xs where items: "rb_items r = x # xs"
    by (cases "rb_items r") auto
  then have "0 < ringbuf_avail r"
    using length_rb_items [of r] by (simp del: length_rb_items)
  then show "rb_items r = rb_buf r ! rb_iget r # drop 1 (rb_items r)"
    using rb_items_nth [of 0 r] rb_okD [OF \<open>rb_ok r\<close>] items by simp
qed

lemma ringbuf_get_ok:
  assumes ok: "rb_ok r"
  shows "rb_items r = [] \<Longrightarrow> ringbuf_get r = (- 1, r)"
    and "rb_items r \<noteq> [] \<Longrightarrow> \<exists>v r'. ringbuf_get r = (uint v, r') \<and> rb_ok r' \<and> rb_items r = v # rb_items r' \<and> rb_size r' = rb_size r"
proof -
  show "ringbuf_get r = (- 1, r)" if "rb_items r = []"
    using that items_empty [OF ok] by (simp add: ringbuf_get_def)
  assume ne: "rb_items r \<noteq> []"
  define r' where "r' = r\<lparr>rb_iget := (rb_iget r + 1) mod rb_size r\<rparr>"
  note d = rb_okD [OF ok]
  have run: "ringbuf_get r = (uint (rb_buf r ! rb_iget r), r')"
    using ne items_empty [OF ok] d by (auto simp: ringbuf_get_def Let_def r'_def wrap_mod)
  have "1 \<le> ringbuf_avail r"
    using ne by (cases "ringbuf_avail r") (simp_all add: rb_items_def)
  then have "rb_ok r'" "rb_items r' = drop 1 (rb_items r)"
    by (rule rb_items_drop [OF ok]; simp add: r'_def)+
  then show "\<exists>v r'. ringbuf_get r = (uint v, r') \<and> rb_ok r' \<and> rb_items r = v # rb_items r' \<and> rb_size r' = rb_size r"
    using run items_head [OF ok ne] by (auto simp: r'_def)
qed

lemma ringbuf_peek_ok: "rb_ok r \<Longrightarrow> ringbuf_peek r = (case rb_items r of [] \<Rightarrow> - 1 | v # _ \<Rightarrow> uint v)"
  using items_empty [of r] items_head [of r] by (auto simp: ringbuf_peek_def split: list.splits)

lemma uint_nonneg_ne: "uint (v :: u8) \<noteq> - 1"
  using uint_ge_0 [of v] by linarith

text \<open>The single-byte operations are a bounded queue.\<close>

definition rb_put :: "u8 \<Rightarrow> ringbuf \<Rightarrow> ringbuf option" where
  "rb_put v r = (let (e, r') = ringbuf_put r v in if e = 0 then Some r' else None)"

definition rb_get :: "ringbuf \<Rightarrow> (u8 \<times> ringbuf) option" where
  "rb_get r = (let (v, r') = ringbuf_get r in if v = - 1 then None else Some (word_of_int v, r'))"

interpretation rb: bounded_fifo rb_ok rb_items "\<lambda>r. rb_size r - 1" rb_put rb_get
proof
  fix r x s'
  assume ok: "rb_ok r"
  note free = free_eq [OF ok]
  show "rb_put x r = None \<longleftrightarrow> rb_size r - 1 \<le> length (rb_items r)"
    using ringbuf_put_ok [OF ok, of x] free by (cases "ringbuf_free r = 0") (auto simp: rb_put_def)
  show "length (rb_items r) \<le> rb_size r - 1"
    using free by simp
  show "rb_ok s' \<and> rb_items s' = rb_items r @ [x] \<and> rb_size s' - 1 = rb_size r - 1" if "rb_put x r = Some s'"
    using that ringbuf_put_ok [OF ok, of x] by (cases "ringbuf_free r = 0") (auto simp: rb_put_def)
  show "rb_get r = None \<longleftrightarrow> rb_items r = []"
    using ringbuf_get_ok [OF ok] uint_nonneg_ne by (cases "rb_items r = []") (auto simp: rb_get_def)
  show "rb_ok s' \<and> rb_items r = x # rb_items s' \<and> rb_size s' - 1 = rb_size r - 1" if "rb_get r = Some (x, s')"
    using that ringbuf_get_ok [OF ok] uint_nonneg_ne by (cases "rb_items r = []") (auto simp: rb_get_def)
qed

section \<open>Blocks of bytes\<close>

lemma copy_to_nth:
  assumes "i + length data \<le> length buf"
  shows "length (copy_to buf i data) = length buf"
    and "j < length buf \<Longrightarrow> copy_to buf i data ! j = (if i \<le> j \<and> j < i + length data then data ! (j - i) else buf ! j)"
  using assms by (auto simp: copy_to_def nth_append min_def)

lemma get_internal_ok:
  assumes ok: "rb_ok r" and n: "n \<le> ringbuf_avail r"
  shows "\<exists>r'. ringbuf_memcpy_get_internal r n = (take n (rb_items r), r') \<and> rb_ok r' \<and> rb_items r' = drop n (rb_items r) \<and>
    rb_size r' = rb_size r"
proof -
  define iget_a where "iget_a = (rb_iget r + n) mod rb_size r"
  define r' where "r' = r\<lparr>rb_iget := iget_a\<rparr>"
  note d = rb_okD [OF ok]
  have less: "n < rb_size r"
    using n free_eq(2) [OF ok] by simp
  have a: "iget_a = (if rb_iget r + n < rb_size r then rb_iget r + n else rb_iget r + n - rb_size r)"
    unfolding iget_a_def using d less by (intro wrap_mod) simp
  then have wrap: "iget_a < rb_iget r \<longleftrightarrow> rb_size r \<le> rb_iget r + n"
    using d less by auto
  define data where "data =
    (if iget_a < rb_iget r then take (rb_size r - rb_iget r) (drop (rb_iget r) (rb_buf r)) @ take iget_a (rb_buf r)
     else take (iget_a - rb_iget r) (drop (rb_iget r) (rb_buf r)))"
  have run: "ringbuf_memcpy_get_internal r n = (data, r')"
    by (simp add: ringbuf_memcpy_get_internal_def Let_def iget_a_def [symmetric] data_def r'_def)
  have "data = take n (rb_items r)"
  proof (rule nth_equalityI)
    show len: "length data = length (take n (rb_items r))"
      using d less n a wrap by (auto simp: data_def)
    fix i
    assume "i < length data"
    then have i: "i < n"
      using len n by simp
    have idx: "(rb_iget r + i) mod rb_size r = (if rb_iget r + i < rb_size r then rb_iget r + i else rb_iget r + i - rb_size r)"
      using i n by (intro rb_index(1) [OF ok]) simp
    have "data ! i = rb_buf r ! ((rb_iget r + i) mod rb_size r)"
      unfolding idx using i d wrap a
      by (auto simp: data_def nth_append min_def intro!: arg_cong [where f = "nth (rb_buf r)"])
    then show "data ! i = take n (rb_items r) ! i"
      using i n by (simp add: rb_items_nth)
  qed
  moreover have "rb_ok r'" "rb_items r' = drop n (rb_items r)"
    by (intro rb_items_drop [OF ok n]; simp add: r'_def iget_a_def)+
  ultimately show ?thesis
    using run by (auto simp: r'_def)
qed

lemma put_internal_ok:
  assumes ok: "rb_ok r" and n: "length data \<le> ringbuf_free r"
  shows "\<exists>r'. ringbuf_memcpy_put_internal r data = r' \<and> rb_ok r' \<and> rb_items r' = rb_items r @ data \<and> rb_size r' = rb_size r"
proof -
  define n where "n = length data"
  define iput_a where "iput_a = (rb_iput r + n) mod rb_size r"
  note d = rb_okD [OF ok]
  have less: "n < rb_size r" "ringbuf_avail r + n < rb_size r"
    using n free_eq [OF ok] by (auto simp: n_def)
  have a: "iput_a = (if rb_iput r + n < rb_size r then rb_iput r + n else rb_iput r + n - rb_size r)"
    unfolding iput_a_def using d less by (intro wrap_mod) simp
  then have wrap: "iput_a < rb_iput r \<longleftrightarrow> rb_size r \<le> rb_iput r + n"
    using d less by auto
  define buf where "buf =
    (if iput_a < rb_iput r
     then copy_to (copy_to (rb_buf r) (rb_iput r) (take (rb_size r - rb_iput r) data)) 0 (take iput_a (drop (rb_size r - rb_iput r) data))
     else copy_to (rb_buf r) (rb_iput r) (take (iput_a - rb_iput r) data))"
  define r' where "r' = r\<lparr>rb_buf := buf, rb_iput := iput_a\<rparr>"
  have run: "ringbuf_memcpy_put_internal r data = r'"
    by (simp add: ringbuf_memcpy_put_internal_def Let_def n_def [symmetric] iput_a_def [symmetric] r'_def buf_def)
  have len: "length buf = rb_size r"
    using d a wrap less by (auto simp: buf_def copy_to_nth n_def)
  have nth: "buf ! j = (if iput_a < rb_iput r
      then if j < iput_a then data ! (rb_size r - rb_iput r + j) else if rb_iput r \<le> j then data ! (j - rb_iput r) else rb_buf r ! j
      else if rb_iput r \<le> j \<and> j < iput_a then data ! (j - rb_iput r) else rb_buf r ! j)" if "j < rb_size r" for j
    using d a wrap less that by (auto simp: buf_def copy_to_nth n_def)
  have eq: "rb_buf r' = buf"
    by (simp add: r'_def)
  have "rb_ok r' \<and> rb_items r' = rb_items r @ data"
  proof (rule rb_items_append [OF ok assms(2)])
    show "rb_buf r' ! ((rb_iput r + i) mod rb_size r) = data ! i" if "i < length data" for i
    proof -
      have i: "i < n"
        using that by (simp add: n_def)
      have idx: "(rb_iput r + i) mod rb_size r = (if rb_iput r + i < rb_size r then rb_iput r + i else rb_iput r + i - rb_size r)"
        using d i less by (intro wrap_mod) simp
      have "(rb_iput r + i) mod rb_size r < rb_size r"
        using d(1) by (rule mod_less_divisor)
      note at = nth [OF this]
      show ?thesis
        unfolding eq at unfolding idx using d wrap a i by auto
    qed
    show "rb_buf r' ! ((rb_iget r + i) mod rb_size r) = rb_buf r ! ((rb_iget r + i) mod rb_size r)" if i: "i < ringbuf_avail r" for i
    proof -
      have idx: "(rb_iget r + i) mod rb_size r = (if rb_iget r + i < rb_size r then rb_iget r + i else rb_iget r + i - rb_size r)"
        using i by (intro rb_index(1) [OF ok]) simp
      have "(rb_iget r + i) mod rb_size r < rb_size r"
        using d(1) by (rule mod_less_divisor)
      note at = nth [OF this]
      show ?thesis
        unfolding eq at unfolding idx using d wrap a i less unfolding avail_eq [OF ok] by (auto split: if_splits)
    qed
  qed (use len in \<open>simp_all add: r'_def iput_a_def n_def\<close>)
  then show ?thesis
    using run by (auto simp: r'_def)
qed

lemma get_bytes_ok:
  assumes "rb_ok r"
  shows "\<exists>r'. ringbuf_get_bytes r n =
      (if n \<le> length (rb_items r) then 0 else if rb_size r \<le> n then - 2 else - 1, if n \<le> length (rb_items r) then take n (rb_items r) else [], r') \<and>
    rb_ok r' \<and> rb_items r' = (if n \<le> length (rb_items r) then drop n (rb_items r) else rb_items r) \<and> rb_size r' = rb_size r"
  using get_internal_ok [OF assms, of n] assms by (auto simp: ringbuf_get_bytes_def)

lemma put_bytes_ok:
  assumes "rb_ok r"
  shows "\<exists>r'. ringbuf_put_bytes r data =
      (if length (rb_items r) + length data < rb_size r then 0 else if rb_size r \<le> length data then - 2 else - 1, r') \<and>
    rb_ok r' \<and> rb_items r' = (if length (rb_items r) + length data < rb_size r then rb_items r @ data else rb_items r) \<and> rb_size r' = rb_size r"
proof (cases "length data \<le> ringbuf_free r")
  case True
  then have "length (rb_items r) + length data < rb_size r"
    using free_eq [OF assms] by simp
  then show ?thesis
    using True put_internal_ok [OF assms True] by (simp add: ringbuf_put_bytes_def)
next
  case False
  then have "\<not> length (rb_items r) + length data < rb_size r"
    using free_eq [OF assms] by simp
  then show ?thesis
    using False assms by (simp add: ringbuf_put_bytes_def)
qed

section \<open>Numbers of 16 bits, in big-endian order\<close>

lemma ringbuf_put16_put:
  assumes "rb_ok r"
  shows "ringbuf_put16 r v =
    (case rb_put (ucast (drop_bit 8 v AND 0xff)) r of None \<Rightarrow> (- 1, r)
     | Some r1 \<Rightarrow> (case rb_put (ucast (v AND 0xff)) r1 of None \<Rightarrow> (- 1, r) | Some r2 \<Rightarrow> (0, r2)))"
proof -
  define a where "a = (if rb_iput r + 1 = rb_size r then 0 else rb_iput r + 1)"
  have a: "(if rb_size r \<le> rb_iput r + 1 then 0 else rb_iput r + 1) = a" "a < rb_size r"
    using rb_okD [OF assms] by (auto simp: a_def)
  have b: "rb_size r \<le> Suc a \<longleftrightarrow> Suc a = rb_size r"
    using a(2) by auto
  show ?thesis
    unfolding ringbuf_put16_def rb_put_def ringbuf_put_def Let_def a_def [symmetric] a(1)
    by (simp add: b)
qed

lemma ringbuf_put16_ok:
  assumes ok: "rb_ok r"
  shows "\<exists>r'. ringbuf_put16 r v = (if length (rb_items r) + 2 < rb_size r then 0 else - 1, r') \<and> rb_ok r' \<and> rb_size r' = rb_size r \<and>
    rb_items r' = rb_items r @ (if length (rb_items r) + 2 < rb_size r then [ucast (drop_bit 8 v AND 0xff), ucast (v AND 0xff)] else [])"
proof -
  have pos: "0 < rb_size r"
    using rb_okD [OF ok] by simp
  show ?thesis
  proof (cases "rb_put (ucast (drop_bit 8 v AND 0xff)) r")
    case None
    then show ?thesis
      using rb.put_None [OF ok] ok pos by (auto simp: ringbuf_put16_put [OF ok])
  next
    case (Some r1)
    then have 1: "rb_ok r1" "rb_items r1 = rb_items r @ [ucast (drop_bit 8 v AND 0xff)]" "rb_size r1 - 1 = rb_size r - 1"
      using rb.put_Some [OF ok Some] by auto
    have len: "length (rb_items r) < rb_size r - 1"
      using Some rb.put_None [OF ok, of "ucast (drop_bit 8 v AND 0xff)"] by (metis not_le option.distinct(1))
    have size: "rb_size r1 = rb_size r"
      using 1(3) len rb_okD(1) [OF 1(1)] by linarith
    show ?thesis
    proof (cases "rb_put (ucast (v AND 0xff)) r1")
      case None
      then have "rb_size r - 1 \<le> length (rb_items r) + 1"
        using rb.put_None [OF 1(1)] 1(2) size by auto
      then show ?thesis
        using Some None ok by (auto simp: ringbuf_put16_put [OF ok])
    next
      case 2: (Some r2)
      have "length (rb_items r1) < rb_size r1 - 1"
        using 2 rb.put_None [OF 1(1), of "ucast (v AND 0xff)"] by (metis not_le option.distinct(1))
      moreover have "rb_ok r2" "rb_items r2 = rb_items r1 @ [ucast (v AND 0xff)]" "rb_size r2 - 1 = rb_size r1 - 1"
        using rb.put_Some [OF 1(1) 2] by auto
      ultimately show ?thesis
        using Some 2 1 size rb_okD(1) [of r2] by (auto simp: ringbuf_put16_put [OF ok])
    qed
  qed
qed

definition be16 :: "u8 list \<Rightarrow> int" where
  "be16 bs = (case bs of a # b # _ \<Rightarrow> 256 * uint a + uint b | _ \<Rightarrow> - 1)"

lemma uint_be16: "uint (push_bit 8 (ucast a) OR ucast b :: u32) = 256 * uint (a :: u8) + uint (b :: u8)"
proof -
  have "unat (push_bit 8 (ucast a) OR ucast b :: u32) = unat a * 256 + unat b"
  proof -
    have "unat (push_bit 8 (ucast a) :: u32) = unat a * 256"
      using u8_less [of a] by (simp add: push_bit_eq_mult unat_mult_u32 unat_u32_of_u8)
    moreover have "unat (ucast b :: u32) = unat b"
      by (rule unat_u32_of_u8)
    ultimately show ?thesis
      unfolding unsigned_or_eq using or_low_bits [of "unat b" 8 "unat a"] u8_less [of b] by (simp add: mult.commute)
  qed
  then show ?thesis
    by (simp add: uint_nat)
qed

lemma ringbuf_peek16_ok:
  assumes ok: "rb_ok r"
  shows "ringbuf_peek16 r = be16 (rb_items r)"
proof -
  note d = rb_okD [OF ok]
  define a where "a = (if rb_iget r + 1 = rb_size r then 0 else rb_iget r + 1)"
  have a: "a = (rb_iget r + 1) mod rb_size r"
    using d by (auto simp: a_def)
  consider "rb_items r = []" | x where "rb_items r = [x]" | x y ys where "rb_items r = x # y # ys"
    by (metis list.exhaust)
  then show ?thesis
  proof cases
    case 1
    then show ?thesis
      using items_empty [OF ok] by (simp add: ringbuf_peek16_def be16_def)
  next
    case 2
    then have "ringbuf_avail r = 1"
      using length_rb_items [of r] by (simp del: length_rb_items)
    then have "a = rb_iput r"
      using rb_index(2) [OF ok, of 1] by (simp add: a)
    then show ?thesis
      using 2 unfolding ringbuf_peek16_def Let_def a_def [symmetric] by (simp add: be16_def)
  next
    case 3
    then have len: "ringbuf_avail r = length ys + 2"
      using length_rb_items [of r] by (simp del: length_rb_items)
    then have ne: "a \<noteq> rb_iput r" "rb_iget r \<noteq> rb_iput r"
      using rb_index(2) [OF ok, of 1] items_empty [OF ok] 3 by (simp_all add: a)
    have "rb_buf r ! rb_iget r = x" "rb_buf r ! a = y"
      using rb_items_nth [of 0 r] rb_items_nth [of 1 r] 3 len d a by auto
    then show ?thesis
      using 3 ne unfolding ringbuf_peek16_def Let_def a_def [symmetric] by (simp add: be16_def uint_be16)
  qed
qed

text \<open>The update of \<^verbatim>\<open>iget\<close> by two wraps at 16 bits, so the size must be below its largest value.\<close>

lemma ringbuf_get16_ok:
  assumes ok: "rb_ok r" and size: "rb_size r < 65535"
  shows "\<exists>r'. ringbuf_get16 r = (be16 (rb_items r), r') \<and> rb_ok r' \<and> rb_size r' = rb_size r \<and>
    rb_items r' = (if 2 \<le> length (rb_items r) then drop 2 (rb_items r) else rb_items r)"
proof (cases "2 \<le> length (rb_items r)")
  case True
  define r' where "r' = r\<lparr>rb_iget := (rb_iget r + 2) mod rb_size r\<rparr>"
  note d = rb_okD [OF ok]
  obtain x y ys where items: "rb_items r = x # y # ys"
    using True by (metis Suc_le_length_iff numeral_2_eq_2)
  have "0 \<le> be16 (rb_items r)"
    unfolding items be16_def by simp
  then have "be16 (rb_items r) \<noteq> - 1"
    by linarith
  moreover have "(rb_iget r + 2) mod 65536 = rb_iget r + 2"
    using d size by simp
  moreover have "2 < rb_size r"
    using True free_eq(2) [OF ok] by simp
  then have "(if rb_size r \<le> rb_iget r + 2 then rb_iget r + 2 - rb_size r else rb_iget r + 2) = (rb_iget r + 2) mod rb_size r"
    using d by (auto simp: wrap_mod)
  ultimately have run: "ringbuf_get16 r = (be16 (rb_items r), r')"
    unfolding ringbuf_get16_def ringbuf_peek16_ok [OF ok] r'_def by (auto simp: Let_def split: if_splits)
  have "rb_ok r'" "rb_items r' = drop 2 (rb_items r)"
    using True by (intro rb_items_drop [OF ok, of 2]; simp add: r'_def)+
  then show ?thesis
    using run True by (auto simp: r'_def)
next
  case False
  then have "be16 (rb_items r) = - 1"
    by (auto simp: be16_def simp del: length_rb_items split: list.splits)
  then show ?thesis
    using False ok by (simp add: ringbuf_get16_def ringbuf_peek16_ok [OF ok])
qed

section \<open>Programs on a ring buffer\<close>

text \<open>All operations, their results (error numbers and values as in the code, and the bytes of a block), and the specification on the bytes in the buffer.\<close>

datatype rb_op =
  Rb_Put u8 | Rb_Get | Rb_Peek | Rb_Put_Bytes "u8 list" | Rb_Get_Bytes nat | Rb_Put16 u16 | Rb_Get16 | Rb_Peek16 | Rb_Free | Rb_Avail

type_synonym rb_result = "int \<times> u8 list"

fun rb_exec :: "rb_op \<Rightarrow> ringbuf \<Rightarrow> rb_result \<times> ringbuf" where
  "rb_exec (Rb_Put v) r = (let (e, r) = ringbuf_put r v in ((e, []), r))"
| "rb_exec Rb_Get r = (let (v, r) = ringbuf_get r in ((v, []), r))"
| "rb_exec Rb_Peek r = ((ringbuf_peek r, []), r)"
| "rb_exec (Rb_Put_Bytes data) r = (let (e, r) = ringbuf_put_bytes r data in ((e, []), r))"
| "rb_exec (Rb_Get_Bytes k) r = (let (e, data, r) = ringbuf_get_bytes r k in ((e, data), r))"
| "rb_exec (Rb_Put16 v) r = (let (e, r) = ringbuf_put16 r v in ((e, []), r))"
| "rb_exec Rb_Get16 r = (let (v, r) = ringbuf_get16 r in ((v, []), r))"
| "rb_exec Rb_Peek16 r = ((ringbuf_peek16 r, []), r)"
| "rb_exec Rb_Free r = ((int (ringbuf_free r), []), r)"
| "rb_exec Rb_Avail r = ((int (ringbuf_avail r), []), r)"

fun rb_spec :: "nat \<Rightarrow> rb_op \<Rightarrow> u8 list \<Rightarrow> rb_result \<times> u8 list" where
  "rb_spec n (Rb_Put v) xs = (if length xs + 1 < n then ((0, []), xs @ [v]) else ((- 1, []), xs))"
| "rb_spec n Rb_Get xs = (case xs of [] \<Rightarrow> ((- 1, []), []) | v # ys \<Rightarrow> ((uint v, []), ys))"
| "rb_spec n Rb_Peek xs = ((case xs of [] \<Rightarrow> - 1 | v # _ \<Rightarrow> uint v, []), xs)"
| "rb_spec n (Rb_Put_Bytes data) xs =
     (if length xs + length data < n then ((0, []), xs @ data) else ((if n \<le> length data then - 2 else - 1, []), xs))"
| "rb_spec n (Rb_Get_Bytes k) xs =
     (if k \<le> length xs then ((0, take k xs), drop k xs) else ((if n \<le> k then - 2 else - 1, []), xs))"
| "rb_spec n (Rb_Put16 v) xs =
     (if length xs + 2 < n then ((0, []), xs @ [ucast (drop_bit 8 v), ucast v]) else ((- 1, []), xs))"
| "rb_spec n Rb_Get16 xs = (case xs of x # y # ys \<Rightarrow> ((256 * uint x + uint y, []), ys) | _ \<Rightarrow> ((- 1, []), xs))"
| "rb_spec n Rb_Peek16 xs = ((case xs of x # y # _ \<Rightarrow> 256 * uint x + uint y | _ \<Rightarrow> - 1, []), xs)"
| "rb_spec n Rb_Free xs = ((int (n - 1 - length xs), []), xs)"
| "rb_spec n Rb_Avail xs = ((int (length xs), []), xs)"

fun rb_run :: "rb_op list \<Rightarrow> ringbuf \<Rightarrow> rb_result list \<times> ringbuf" where
  "rb_run [] r = ([], r)"
| "rb_run (op # ops) r = (let (x, r) = rb_exec op r; (xs, r) = rb_run ops r in (x # xs, r))"

fun rb_spec_run :: "nat \<Rightarrow> rb_op list \<Rightarrow> u8 list \<Rightarrow> rb_result list \<times> u8 list" where
  "rb_spec_run n [] bytes = ([], bytes)"
| "rb_spec_run n (op # ops) bytes = (let (x, bytes) = rb_spec n op bytes; (xs, bytes) = rb_spec_run n ops bytes in (x # xs, bytes))"

lemma ucast_byte: "ucast (v AND 0xff :: u16) = (ucast v :: u8)"
proof -
  have "(0xff :: u16) = mask 8"
    by (simp add: mask_eq_exp_minus_1)
  then have "v AND 0xff = v AND mask 8"
    by (simp only:)
  then show ?thesis
    by (simp only:) (intro bit_word_eqI, auto simp: bit_and_iff bit_mask_iff bit_ucast_iff)
qed

lemma high_byte: "drop_bit 8 v AND 0xff = drop_bit 8 (v :: u16)"
proof -
  have "(0xff :: u16) = mask 8"
    by (simp add: mask_eq_exp_minus_1)
  then have "drop_bit 8 v AND 0xff = drop_bit 8 v AND mask 8"
    by (simp only:)
  then show ?thesis
    by (simp only:) (intro bit_word_eqI, auto simp: bit_and_iff bit_mask_iff bit_drop_bit_eq dest: bit_imp_le_length)
qed

lemma rb_exec_ok:
  assumes ok: "rb_ok r" and size: "rb_size r = n" "n < 65535"
  shows "\<exists>r'. rb_exec op r = (fst (rb_spec n op (rb_items r)), r') \<and> rb_ok r' \<and> rb_size r' = n \<and>
    rb_items r' = snd (rb_spec n op (rb_items r))"
proof (cases op)
  case (Rb_Put v)
  have "ringbuf_free r = 0 \<longleftrightarrow> \<not> length (rb_items r) + 1 < n"
    using free_eq [OF ok] rb_okD(1) [OF ok] size by auto
  then show ?thesis
    using ringbuf_put_ok [OF ok, of v] ok size by (cases "ringbuf_free r = 0") (auto simp: Rb_Put Let_def)
next
  case Rb_Get
  show ?thesis
  proof (cases "rb_items r")
    case Nil
    then show ?thesis
      using ringbuf_get_ok(1) [OF ok] ok size by (simp add: Rb_Get)
  next
    case (Cons v ys)
    then show ?thesis
      using ringbuf_get_ok(2) [OF ok] size by (auto simp: Rb_Get)
  qed
next
  case Rb_Peek
  then show ?thesis
    using ringbuf_peek_ok [OF ok] ok size by simp
next
  case (Rb_Put_Bytes data)
  then show ?thesis
    using put_bytes_ok [OF ok, of data] size by auto
next
  case (Rb_Get_Bytes k)
  then show ?thesis
    using get_bytes_ok [OF ok, of k] size by auto
next
  case (Rb_Put16 v)
  then show ?thesis
    using ringbuf_put16_ok [OF ok, of v] size by (auto simp: ucast_byte high_byte)
next
  case Rb_Get16
  have "be16 (rb_items r) = (case rb_items r of x # y # _ \<Rightarrow> 256 * uint x + uint y | _ \<Rightarrow> - 1)"
    by (simp add: be16_def split: list.split)
  then show ?thesis
    using ringbuf_get16_ok [OF ok] size by (auto simp: Rb_Get16 simp del: length_rb_items split: list.splits)
next
  case Rb_Peek16
  then show ?thesis
    using ringbuf_peek16_ok [OF ok] ok size by (simp add: be16_def split: list.split)
next
  case Rb_Free
  then show ?thesis
    using free_eq(1) [OF ok] ok size by simp
next
  case Rb_Avail
  then show ?thesis
    using ok size by simp
qed

lemma rb_run_ok:
  assumes "rb_ok r" and "rb_size r = n" and "n < 65535"
  shows "\<exists>r'. rb_run ops r = (fst (rb_spec_run n ops (rb_items r)), r') \<and> rb_ok r' \<and> rb_size r' = n \<and>
    rb_items r' = snd (rb_spec_run n ops (rb_items r))"
  using assms
proof (induction ops arbitrary: r)
  case (Cons op ops)
  obtain r1 where r1: "rb_exec op r = (fst (rb_spec n op (rb_items r)), r1)" "rb_ok r1" "rb_size r1 = n"
    "rb_items r1 = snd (rb_spec n op (rb_items r))"
    using rb_exec_ok [OF Cons.prems, of op] by blast
  show ?case
    using Cons.IH [OF r1(2,3) Cons.prems(3)] r1 by (auto simp: Let_def split_beta)
qed simp

section \<open>An interrupt between the two updates of \<^verbatim>\<open>iget\<close>\<close>

text \<open>
  \<^verbatim>\<open>ringbuf_get\<close> writes \<^verbatim>\<open>iget\<close> twice at the end of the buffer: first the index past the end, then
  zero. The producer is an interrupt handler (a driver of the port) that runs whole calls of
  \<^verbatim>\<open>ringbuf_put\<close> between any two steps of the consumer. The state has the byte that the consumer
  holds and the histories of both sides.
\<close>

record rb_world =
  rw_ring :: ringbuf
  rw_wrap :: "u8 option"
  rw_in :: "u8 list"
  rw_out :: "u8 list"

definition rb_get_take :: "ringbuf \<Rightarrow> u8 \<times> ringbuf" where
  "rb_get_take r = (rb_buf r ! rb_iget r, r\<lparr>rb_iget := (rb_iget r + 1) mod 65536\<rparr>)"

definition rb_get_wrap :: "ringbuf \<Rightarrow> ringbuf" where
  "rb_get_wrap r = (if rb_size r \<le> rb_iget r then r\<lparr>rb_iget := 0\<rparr> else r)"

lemma ringbuf_get_steps:
  "ringbuf_get r = (if rb_iget r = rb_iput r then (- 1, r) else let (v, r) = rb_get_take r in (uint v, rb_get_wrap r))"
  by (simp add: ringbuf_get_def rb_get_take_def rb_get_wrap_def Let_def)

inductive rb_step :: "rb_world \<Rightarrow> rb_world \<Rightarrow> bool" where
  Take: "rw_wrap w = None \<Longrightarrow> rb_iget (rw_ring w) \<noteq> rb_iput (rw_ring w) \<Longrightarrow> rb_get_take (rw_ring w) = (v, r) \<Longrightarrow>
    rb_step w (w\<lparr>rw_ring := r, rw_wrap := Some v\<rparr>)"
| Wrap: "rw_wrap w = Some v \<Longrightarrow> rb_step w (w\<lparr>rw_ring := rb_get_wrap (rw_ring w), rw_wrap := None, rw_out := rw_out w @ [v]\<rparr>)"
| Interrupt: "ringbuf_put (rw_ring w) v = (0, r) \<Longrightarrow> rb_step w (w\<lparr>rw_ring := r, rw_in := rw_in w @ [v]\<rparr>)"

text \<open>The hazard: a put that reaches the end of the buffer while \<^verbatim>\<open>iget\<close> is past the end.\<close>

definition rb_hazard :: "rb_world \<Rightarrow> bool" where
  "rb_hazard w \<longleftrightarrow> rw_wrap w \<noteq> None \<and> rb_iget (rw_ring w) = rb_size (rw_ring w) \<and> rb_iput (rw_ring w) + 1 = rb_size (rw_ring w)"

inductive rb_reach :: "rb_world \<Rightarrow> rb_world \<Rightarrow> bool" where
  Refl: "rb_reach w w"
| Step: "rb_reach w w' \<Longrightarrow> rb_step w' w'' \<Longrightarrow> rb_reach w w''"

inductive rb_safe :: "rb_world \<Rightarrow> rb_world \<Rightarrow> bool" where
  Safe_Refl: "rb_safe w w"
| Safe_Step: "rb_safe w w' \<Longrightarrow> rb_step w' w'' \<Longrightarrow> (rb_hazard w' \<longrightarrow> rw_in w'' = rw_in w') \<Longrightarrow> rb_safe w w''"

definition rb_start :: "nat \<Rightarrow> rb_world" where
  "rb_start n = \<lparr>rw_ring = ringbuf_alloc n, rw_wrap = None, rw_in = [], rw_out = []\<rparr>"

text \<open>The ring after the pending second update, if there is one, is well-formed and holds what is not taken yet.\<close>

definition rb_world_ok :: "rb_world \<Rightarrow> bool" where
  "rb_world_ok w \<longleftrightarrow>
     (case rw_wrap w of
        None \<Rightarrow> rb_ok (rw_ring w) \<and> rw_in w = rw_out w @ rb_items (rw_ring w)
      | Some v \<Rightarrow> rb_ok (rb_get_wrap (rw_ring w)) \<and> rb_iget (rw_ring w) \<le> rb_size (rw_ring w) \<and>
                  rw_in w = rw_out w @ [v] @ rb_items (rb_get_wrap (rw_ring w)))"

lemma get_wrap_simps [simp]:
  "rb_size (rb_get_wrap r) = rb_size r" "rb_buf (rb_get_wrap r) = rb_buf r" "rb_iput (rb_get_wrap r) = rb_iput r"
  by (simp_all add: rb_get_wrap_def)

lemma put_during_wrap:
  assumes ok: "rb_ok (rb_get_wrap r)" and le: "rb_iget r \<le> rb_size r"
    and safe: "\<not> (rb_iget r = rb_size r \<and> rb_iput r + 1 = rb_size r)" and put: "ringbuf_put r v = (0, r')"
  shows "ringbuf_put (rb_get_wrap r) v = (0, rb_get_wrap r') \<and> rb_iget r' \<le> rb_size r'"
proof (cases "rb_iget r = rb_size r")
  case True
  then have w: "rb_get_wrap r = r\<lparr>rb_iget := 0\<rparr>" "rb_iput r < rb_size r" "rb_iput r + 1 \<noteq> rb_size r"
    using safe rb_okD(5) [OF ok] by (auto simp: rb_get_wrap_def)
  then have r': "r' = r\<lparr>rb_buf := (rb_buf r)[rb_iput r := v], rb_iput := rb_iput r + 1\<rparr>"
    using put True by (auto simp: ringbuf_put_def Let_def split: if_splits)
  have "ringbuf_put (r\<lparr>rb_iget := 0\<rparr>) v = (0, r'\<lparr>rb_iget := 0\<rparr>)"
    using w by (simp add: ringbuf_put_def Let_def r')
  moreover have "rb_get_wrap r' = r'\<lparr>rb_iget := 0\<rparr>" "rb_iget r' \<le> rb_size r'"
    using True by (simp_all add: rb_get_wrap_def r')
  ultimately show ?thesis
    by (simp add: w(1))
next
  case False
  then have "rb_get_wrap r = r" "rb_iget r < rb_size r"
    using le by (simp_all add: rb_get_wrap_def)
  moreover have "rb_iget r' = rb_iget r" "rb_size r' = rb_size r"
    using put by (auto simp: ringbuf_put_def Let_def split: if_splits)
  ultimately show ?thesis
    using put by (simp add: rb_get_wrap_def)
qed

lemma rb_put_items: "rb_ok r \<Longrightarrow> ringbuf_put r v = (0, r') \<Longrightarrow> rb_ok r' \<and> rb_items r' = rb_items r @ [v]"
  using ringbuf_put_ok [of r v] by (cases "ringbuf_free r = 0") auto

lemma rb_step_ok:
  assumes step: "rb_step w w'" and ok: "rb_world_ok w" and safe: "rb_hazard w \<longrightarrow> rw_in w' = rw_in w"
  shows "rb_world_ok w'"
  using step
proof (cases rule: rb_step.cases)
  case (Take v r)
  then have ring: "rb_ok (rw_ring w)" "rw_in w = rw_out w @ rb_items (rw_ring w)"
    using ok by (simp_all add: rb_world_ok_def)
  have ne: "rb_items (rw_ring w) \<noteq> []"
    using Take items_empty [OF ring(1)] by simp
  have "ringbuf_get (rw_ring w) = (uint v, rb_get_wrap r)"
    using Take by (simp add: ringbuf_get_steps)
  then obtain u where "v = u" "rb_ok (rb_get_wrap r)" "rb_items (rw_ring w) = u # rb_items (rb_get_wrap r)"
    using ringbuf_get_ok(2) [OF ring(1) ne] by (auto simp: word_uint_eq_iff)
  moreover have "rb_iget r \<le> rb_size r"
    using Take(4) rb_okD(2,4) [OF ring(1)] by (auto simp: rb_get_take_def)
  ultimately show ?thesis
    using Take ring by (simp add: rb_world_ok_def)
next
  case (Wrap v)
  then show ?thesis
    using ok by (simp add: rb_world_ok_def)
next
  case (Interrupt v r)
  show ?thesis
  proof (cases "rw_wrap w")
    case None
    then show ?thesis
      using Interrupt ok rb_put_items [of "rw_ring w" v r] by (simp add: rb_world_ok_def)
  next
    case (Some u)
    have "\<not> (rb_iget (rw_ring w) = rb_size (rw_ring w) \<and> rb_iput (rw_ring w) + 1 = rb_size (rw_ring w))"
      using safe Some Interrupt(1) by (auto simp: rb_hazard_def)
    then have "ringbuf_put (rb_get_wrap (rw_ring w)) v = (0, rb_get_wrap r) \<and> rb_iget r \<le> rb_size r"
      using ok Some Interrupt by (intro put_during_wrap) (auto simp: rb_world_ok_def)
    then show ?thesis
      using Interrupt ok Some rb_put_items [of "rb_get_wrap (rw_ring w)" v "rb_get_wrap r"] by (simp add: rb_world_ok_def)
  qed
qed

text \<open>At the hazard the buffer reports no free space, so a producer that asks first does not put.\<close>

lemma hazard_no_free: "rb_hazard w \<Longrightarrow> ringbuf_free (rw_ring w) = 0"
  by (auto simp: rb_hazard_def ringbuf_free_def)

lemma rb_safe_ok: "rb_safe w w' \<Longrightarrow> rb_world_ok w \<Longrightarrow> rb_world_ok w'"
  by (induction rule: rb_safe.induct) (auto intro: rb_step_ok)

lemma rb_alloc_ok: "0 < n \<Longrightarrow> n < 65536 \<Longrightarrow> rb_ok (ringbuf_alloc n) \<and> rb_items (ringbuf_alloc n) = []"
  by (simp add: rb_ok_def ringbuf_alloc_def rb_items_def ringbuf_avail_def)

lemma rb_start_ok: "0 < n \<Longrightarrow> n < 65536 \<Longrightarrow> rb_world_ok (rb_start n)"
  using rb_alloc_ok by (simp add: rb_world_ok_def rb_start_def)

end
