(* ===== verification/Sched.thy ===== *)
theory Sched
  imports Fifo
begin

text \<open>
  The scheduler of \<^verbatim>\<open>py/scheduler.c\<close>: Python functions that interrupt handlers queue in a ring, nodes
  with C callbacks in a linked list, and the state that tells the virtual machine whether there
  is something to run. The configuration is that of the rp2 port: threads without a global lock,
  static nodes and a queue of eight entries. Objects, nodes and callbacks are numbers, a \<^verbatim>\<open>NULL\<close> pointer
  is \<open>None\<close>.
\<close>

section \<open>State\<close>

definition MP_SCHED_IDLE :: int where "MP_SCHED_IDLE = 1"
definition MP_SCHED_LOCKED :: int where "MP_SCHED_LOCKED = - 1"
definition MP_SCHED_PENDING :: int where "MP_SCHED_PENDING = 0"
definition MICROPY_SCHEDULER_DEPTH :: nat where "MICROPY_SCHEDULER_DEPTH = 8"

lemmas sched_consts = MP_SCHED_IDLE_def MP_SCHED_LOCKED_def MP_SCHED_PENDING_def MICROPY_SCHEDULER_DEPTH_def

record sched_node =
  nd_callback :: "nat option"
  nd_next :: "nat option"

type_synonym sched_item = "nat \<times> nat"

record sched =
  sched_state :: int
  sched_queue :: "sched_item list"
  sched_len :: nat
  sched_idx :: nat
  sched_head :: "nat option"
  sched_tail :: "nat option"
  sched_nodes :: "nat \<Rightarrow> sched_node"
  mp_pending_exception :: "nat option"

text \<open>The field \<^verbatim>\<open>sched_state\<close> has 16 bits.\<close>

definition s16 :: "int \<Rightarrow> int" where "s16 n = (n + 32768) mod 65536 - 32768"

definition IDX_MASK :: "nat \<Rightarrow> nat" where
  "IDX_MASK i = i AND (MICROPY_SCHEDULER_DEPTH - 1)"

definition mp_sched_num_pending :: "sched \<Rightarrow> nat" where "mp_sched_num_pending s = sched_len s"

definition mp_sched_full :: "sched \<Rightarrow> bool" where
  "mp_sched_full s \<longleftrightarrow> mp_sched_num_pending s = MICROPY_SCHEDULER_DEPTH"

definition mp_sched_empty :: "sched \<Rightarrow> bool" where "mp_sched_empty s \<longleftrightarrow> mp_sched_num_pending s = 0"

section \<open>Operations\<close>

definition mp_sched_exception :: "nat \<Rightarrow> sched \<Rightarrow> sched" where
  "mp_sched_exception exc s = s\<lparr>mp_pending_exception := Some exc\<rparr>"

definition mp_sched_lock :: "sched \<Rightarrow> sched" where
  "mp_sched_lock s =
     (if sched_state s < 0 then s\<lparr>sched_state := s16 (sched_state s - 1)\<rparr> else s\<lparr>sched_state := MP_SCHED_LOCKED\<rparr>)"

text \<open>The assertion of \<^verbatim>\<open>mp_sched_unlock\<close> makes it an option.\<close>

definition mp_sched_unlock :: "sched \<Rightarrow> sched option" where
  "mp_sched_unlock s =
     (if sched_state s < 0
      then let s = s\<lparr>sched_state := s16 (sched_state s + 1)\<rparr>
           in Some (if sched_state s = 0
                    then s\<lparr>sched_state := if sched_head s \<noteq> None \<or> mp_sched_num_pending s \<noteq> 0 then MP_SCHED_PENDING else MP_SCHED_IDLE\<rparr>
                    else s)
      else None)"

definition mp_sched_schedule :: "nat \<Rightarrow> nat \<Rightarrow> sched \<Rightarrow> bool \<times> sched" where
  "mp_sched_schedule func arg s =
     (if \<not> mp_sched_full s
      then let s = (if sched_state s = MP_SCHED_IDLE then s\<lparr>sched_state := MP_SCHED_PENDING\<rparr> else s);
               iput = IDX_MASK (sched_idx s + sched_len s);
               s = s\<lparr>sched_len := (sched_len s + 1) mod 256\<rparr>
           in (True, s\<lparr>sched_queue := (sched_queue s)[iput := (func, arg)]\<rparr>)
      else (False, s))"

definition mp_sched_schedule_node :: "nat \<Rightarrow> nat \<Rightarrow> sched \<Rightarrow> bool \<times> sched" where
  "mp_sched_schedule_node node callback s =
     (if nd_callback (sched_nodes s node) = None
      then let s = (if sched_state s = MP_SCHED_IDLE then s\<lparr>sched_state := MP_SCHED_PENDING\<rparr> else s);
               s = s\<lparr>sched_nodes := (sched_nodes s)(node := \<lparr>nd_callback = Some callback, nd_next = None\<rparr>)\<rparr>;
               s = (case sched_tail s of
                      None \<Rightarrow> s\<lparr>sched_head := Some node\<rparr>
                    | Some t \<Rightarrow> s\<lparr>sched_nodes := (sched_nodes s)(t := (sched_nodes s t)\<lparr>nd_next := Some node\<rparr>)\<rparr>)
           in (True, s\<lparr>sched_tail := Some node\<rparr>)
      else (False, s))"

text \<open>
  \<^verbatim>\<open>mp_sched_run_pending\<close> is cut where it leaves an atomic section: it then runs the callback of a node or a
  Python function, or calls \<^verbatim>\<open>mp_sched_unlock\<close>.
\<close>

datatype sched_pc = Not_Running | In_Callback nat "nat option" | In_Function sched_item | Before_Unlock

definition sched_pop_node :: "sched \<Rightarrow> ((nat \<times> nat option) \<times> sched) option" where
  "sched_pop_node s =
     (case sched_head s of
        None \<Rightarrow> None
      | Some node \<Rightarrow>
          let s = s\<lparr>sched_head := nd_next (sched_nodes s node)\<rparr>;
              s = (if sched_head s = None then s\<lparr>sched_tail := None\<rparr> else s);
              callback = nd_callback (sched_nodes s node)
          in Some ((node, callback), s\<lparr>sched_nodes := (sched_nodes s)(node := (sched_nodes s node)\<lparr>nd_callback := None\<rparr>)\<rparr>))"

definition sched_pop_item :: "sched \<Rightarrow> (sched_item \<times> sched) option" where
  "sched_pop_item s =
     (if mp_sched_empty s then None
      else Some (sched_queue s ! sched_idx s,
                 s\<lparr>sched_idx := IDX_MASK (sched_idx s + 1), sched_len := (sched_len s + 255) mod 256\<rparr>))"

definition sched_section :: "sched \<Rightarrow> sched_pc \<times> sched" where
  "sched_section s =
     (case sched_pop_node s of
        Some ((node, callback), s) \<Rightarrow> (In_Callback node callback, s)
      | None \<Rightarrow>
          (case sched_pop_item s of
             Some (item, s) \<Rightarrow> (In_Function item, s)
           | None \<Rightarrow> (Before_Unlock, s)))"

definition sched_run_begin :: "sched \<Rightarrow> (sched_pc \<times> sched) option" where
  "sched_run_begin s =
     (if sched_state s \<noteq> MP_SCHED_PENDING then None else Some (sched_section (s\<lparr>sched_state := MP_SCHED_LOCKED\<rparr>)))"

text \<open>The first part of \<^verbatim>\<open>mp_handle_pending\<close> gives the exception to raise; the second calls \<^verbatim>\<open>mp_sched_run_pending\<close>.\<close>

definition handle_pending_exception :: "bool \<Rightarrow> sched \<Rightarrow> nat option \<times> sched" where
  "handle_pending_exception raise_exc s =
     (case mp_pending_exception s of
        None \<Rightarrow> (None, s)
      | Some obj \<Rightarrow> (if raise_exc then Some obj else None, s\<lparr>mp_pending_exception := None\<rparr>))"

definition mp_handle_pending :: "bool \<Rightarrow> sched \<Rightarrow> nat option \<times> sched_pc \<times> sched" where
  "mp_handle_pending raise_exc s =
     (case handle_pending_exception raise_exc s of
        (Some obj, s) \<Rightarrow> (Some obj, Not_Running, s)
      | (None, s) \<Rightarrow> (None, case sched_run_begin s of None \<Rightarrow> (Not_Running, s) | Some r \<Rightarrow> r))"

section \<open>The queue of functions\<close>

definition sched_queue_ok :: "sched \<Rightarrow> bool" where
  "sched_queue_ok s \<longleftrightarrow> length (sched_queue s) = 8 \<and> sched_len s \<le> 8 \<and> sched_idx s < 8"

definition sched_items :: "sched \<Rightarrow> sched_item list" where
  "sched_items s = map (\<lambda>i. sched_queue s ! ((sched_idx s + i) mod 8)) [0..<sched_len s]"

lemma IDX_MASK_mod: "IDX_MASK i = i mod 8"
  using take_bit_eq_mask [of 3 i] by (simp add: IDX_MASK_def MICROPY_SCHEDULER_DEPTH_def take_bit_eq_mod mask_eq_exp_minus_1)

lemma sched_items_simps [simp]:
  "sched_items (s\<lparr>sched_state := x\<rparr>) = sched_items s" "sched_items (s\<lparr>sched_head := h\<rparr>) = sched_items s"
  "sched_items (s\<lparr>sched_tail := h\<rparr>) = sched_items s" "sched_items (s\<lparr>sched_nodes := n\<rparr>) = sched_items s"
  "sched_items (s\<lparr>mp_pending_exception := e\<rparr>) = sched_items s" "length (sched_items s) = sched_len s"
  by (simp_all add: sched_items_def)

lemma schedule_items:
  assumes "sched_queue_ok s" and "mp_sched_schedule f a s = (True, s')"
  shows "sched_queue_ok s' \<and> sched_items s' = sched_items s @ [(f, a)]"
proof -
  have q: "length (sched_queue s) = 8" "sched_len s < 8" "sched_idx s < 8"
    using assms by (auto simp: sched_queue_ok_def mp_sched_schedule_def mp_sched_full_def mp_sched_num_pending_def sched_consts split: if_splits)
  have s': "sched_queue s' = (sched_queue s)[(sched_idx s + sched_len s) mod 8 := (f, a)]" "sched_len s' = sched_len s + 1" "sched_idx s' = sched_idx s"
    using assms(2) q by (auto simp: mp_sched_schedule_def Let_def IDX_MASK_mod split: if_splits)
  have ne: "(sched_idx s + sched_len s) mod 8 \<noteq> (sched_idx s + i) mod 8" if "i < sched_len s" for i
    using that q(2,3) by (auto simp: wrap_mod split: if_splits)
  show ?thesis
    using q by (auto simp: sched_queue_ok_def sched_items_def s' ne)
qed

lemma schedule_full: "mp_sched_schedule f a s = (False, s') \<longleftrightarrow> s' = s \<and> mp_sched_full s"
  by (auto simp: mp_sched_schedule_def Let_def)

lemma pop_item_items:
  assumes "sched_queue_ok s" and "sched_pop_item s = Some (x, s')"
  shows "sched_queue_ok s' \<and> sched_items s = x # sched_items s'"
proof -
  have q: "length (sched_queue s) = 8" "0 < sched_len s" "sched_len s \<le> 8" "sched_idx s < 8"
    using assms by (auto simp: sched_queue_ok_def sched_pop_item_def mp_sched_empty_def mp_sched_num_pending_def split: if_splits)
  have s': "x = sched_queue s ! sched_idx s" "sched_queue s' = sched_queue s" "sched_idx s' = (sched_idx s + 1) mod 8"
    "sched_len s' = (sched_len s + 255) mod 256"
    using assms(2) by (auto simp: sched_pop_item_def IDX_MASK_mod split: if_splits)
  have len: "sched_len s' = sched_len s - 1"
    using q unfolding s' by (cases "sched_len s") simp_all
  have "[0..<sched_len s] = 0 # map Suc [0..<sched_len s - 1]"
    using q by (simp add: map_Suc_upt upt_conv_Cons)
  moreover have "((sched_idx s + 1) mod 8 + i) mod 8 = (sched_idx s + Suc i) mod 8" for i
    by (metis add.assoc mod_add_left_eq plus_1_eq_Suc)
  ultimately show ?thesis
    using q by (simp add: sched_queue_ok_def sched_items_def len) (simp add: s' sched_items_def)
qed

definition sched_put :: "sched_item \<Rightarrow> sched \<Rightarrow> sched option" where
  "sched_put x s = (let (r, s') = mp_sched_schedule (fst x) (snd x) s in if r then Some s' else None)"

interpretation sq: bounded_fifo sched_queue_ok sched_items "\<lambda>_. MICROPY_SCHEDULER_DEPTH" sched_put sched_pop_item
proof
  fix s x s'
  assume ok: "sched_queue_ok s"
  show "sched_put x s = None \<longleftrightarrow> MICROPY_SCHEDULER_DEPTH \<le> length (sched_items s)"
    using ok by (auto simp: sched_put_def mp_sched_schedule_def mp_sched_full_def mp_sched_num_pending_def sched_queue_ok_def sched_consts Let_def)
  show "length (sched_items s) \<le> MICROPY_SCHEDULER_DEPTH"
    using ok by (simp add: sched_queue_ok_def sched_consts)
  show "sched_queue_ok s' \<and> sched_items s' = sched_items s @ [x] \<and> MICROPY_SCHEDULER_DEPTH = MICROPY_SCHEDULER_DEPTH" if "sched_put x s = Some s'"
    using that schedule_items [OF ok, of "fst x" "snd x" s'] by (auto simp: sched_put_def split: prod.splits if_splits)
  show "sched_pop_item s = None \<longleftrightarrow> sched_items s = []"
    by (auto simp: sched_pop_item_def mp_sched_empty_def mp_sched_num_pending_def sched_items_def)
  show "sched_queue_ok s' \<and> sched_items s = x # sched_items s' \<and> MICROPY_SCHEDULER_DEPTH = MICROPY_SCHEDULER_DEPTH"
    if "sched_pop_item s = Some (x, s')"
    using pop_item_items [OF ok that] by simp
qed

section \<open>The list of nodes\<close>

fun node_path :: "(nat \<Rightarrow> sched_node) \<Rightarrow> nat option \<Rightarrow> nat list \<Rightarrow> bool" where
  "node_path nd h [] \<longleftrightarrow> h = None"
| "node_path nd h (n # ns) \<longleftrightarrow> h = Some n \<and> node_path nd (nd_next (nd n)) ns"

definition nodes_ok :: "sched \<Rightarrow> nat list \<Rightarrow> bool" where
  "nodes_ok s ns \<longleftrightarrow>
     distinct ns \<and> node_path (sched_nodes s) (sched_head s) ns \<and>
     sched_tail s = (if ns = [] then None else Some (last ns)) \<and>
     (\<forall>n. nd_callback (sched_nodes s n) \<noteq> None \<longleftrightarrow> n \<in> set ns)"

definition sched_calls :: "sched \<Rightarrow> nat list \<Rightarrow> (nat \<times> nat option) list" where
  "sched_calls s ns = map (\<lambda>n. (n, nd_callback (sched_nodes s n))) ns"

lemma node_path_cong: "(\<And>n. n \<in> set ns \<Longrightarrow> nd_next (nd n) = nd_next (nd' n)) \<Longrightarrow> node_path nd h ns = node_path nd' h ns"
  by (induction ns arbitrary: h) auto

lemma node_path_snoc:
  assumes "node_path nd h ns" and "ns \<noteq> []" and "distinct ns" and "m \<notin> set ns" and "nd_next (nd m) = None"
  shows "node_path (nd(last ns := (nd (last ns))\<lparr>nd_next := Some m\<rparr>)) h (ns @ [m])"
  using assms
proof (induction ns arbitrary: h)
  case (Cons n ns)
  show ?case
  proof (cases "ns = []")
    case False
    then have "last ns \<noteq> n"
      using Cons.prems(3) last_in_set by auto
    then show ?thesis
      using Cons.IH [of "nd_next (nd n)"] Cons.prems False by auto
  qed (use Cons.prems in auto)
qed simp

lemma nodes_okD:
  assumes "nodes_ok s ns"
  shows "distinct ns" and "node_path (sched_nodes s) (sched_head s) ns"
    and "sched_tail s = (if ns = [] then None else Some (last ns))"
    and "nd_callback (sched_nodes s m) \<noteq> None \<longleftrightarrow> m \<in> set ns"
  using assms unfolding nodes_ok_def by blast+

lemma schedule_node_ok:
  assumes ok: "nodes_ok s ns" and run: "mp_sched_schedule_node n cb s = (True, s')"
  shows "nodes_ok s' (ns @ [n]) \<and> sched_calls s' (ns @ [n]) = sched_calls s ns @ [(n, Some cb)] \<and> n \<notin> set ns"
proof -
  have none: "nd_callback (sched_nodes s n) = None"
    using run by (simp add: mp_sched_schedule_node_def split: if_splits)
  note cbs = nodes_okD(4) [OF ok] and tail = nodes_okD(3) [OF ok]
  have free: "n \<notin> set ns" "distinct ns" "node_path (sched_nodes s) (sched_head s) ns"
    using nodes_okD(1,2) [OF ok] cbs [of n] none by auto
  define nd where "nd = (sched_nodes s)(n := \<lparr>nd_callback = Some cb, nd_next = None\<rparr>)"
  have path: "node_path nd (sched_head s) ns"
    using free by (subst node_path_cong [of _ nd "sched_nodes s"]) (auto simp: nd_def)
  show ?thesis
  proof (cases "ns = []")
    case True
    then have "sched_nodes s' = nd" "sched_head s' = Some n" "sched_tail s' = Some n"
      using run tail by (auto simp: mp_sched_schedule_node_def Let_def nd_def split: if_splits)
    then show ?thesis
      using True cbs by (auto simp: nodes_ok_def sched_calls_def nd_def)
  next
    case False
    then have s': "sched_nodes s' = nd(last ns := (nd (last ns))\<lparr>nd_next := Some n\<rparr>)" "sched_head s' = sched_head s" "sched_tail s' = Some n"
      using run tail by (auto simp: mp_sched_schedule_node_def Let_def nd_def split: if_splits)
    have "node_path (sched_nodes s') (sched_head s') (ns @ [n])"
      unfolding s' by (rule node_path_snoc [OF path False free(2) free(1)]) (simp add: nd_def)
    moreover have "last ns \<noteq> n"
      using free(1) False last_in_set by metis
    then have "nd_callback (sched_nodes s' m) = (if m = n then Some cb else nd_callback (sched_nodes s m))" for m
      by (simp add: s'(1) nd_def)
    ultimately show ?thesis
      using free cbs s'(3) by (auto simp: nodes_ok_def sched_calls_def)
  qed
qed

lemma pop_node_ok:
  assumes ok: "nodes_ok s ns" and run: "sched_pop_node s = Some ((n, cb), s')"
  shows "\<exists>ms. ns = n # ms \<and> nodes_ok s' ms \<and> sched_calls s ns = (n, cb) # sched_calls s' ms"
proof -
  note free = nodes_okD(1,2) [OF ok] and tail = nodes_okD(3) [OF ok] and cbs = nodes_okD(4) [OF ok]
  obtain ms where ns: "ns = n # ms"
    using free(2) run by (cases ns) (auto simp: sched_pop_node_def Let_def)
  have s': "sched_nodes s' = (sched_nodes s)(n := (sched_nodes s n)\<lparr>nd_callback := None\<rparr>)" "sched_head s' = nd_next (sched_nodes s n)"
    "sched_tail s' = (if nd_next (sched_nodes s n) = None then None else sched_tail s)" "cb = nd_callback (sched_nodes s n)"
    using run free(2) by (auto simp: ns sched_pop_node_def Let_def)
  have path: "node_path (sched_nodes s) (sched_head s') ms"
    using free(2) by (simp add: ns s')
  then have "nd_next (sched_nodes s n) = None \<longleftrightarrow> ms = []"
    by (cases ms) (auto simp: s')
  then have tail': "sched_tail s' = (if ms = [] then None else Some (last ms))"
    using tail by (simp add: s' ns)
  have path': "node_path (sched_nodes s') (sched_head s') ms"
    using path by (subst node_path_cong [of _ _ "sched_nodes s"]) (auto simp: s')
  have cbs': "nd_callback (sched_nodes s' m) \<noteq> None \<longleftrightarrow> m \<in> set ms" for m
    using cbs [of m] free(1) by (auto simp: s'(1) ns)
  have "nodes_ok s' ms"
    unfolding nodes_ok_def using free(1) tail' path' cbs' by (simp add: ns)
  moreover have "sched_calls s ns = (n, cb) # sched_calls s' ms"
    using free(1) by (auto simp: sched_calls_def s' ns)
  ultimately show ?thesis
    using ns by blast
qed

lemma pop_node_None: "nodes_ok s ns \<Longrightarrow> sched_pop_node s = None \<longleftrightarrow> ns = []"
  by (cases ns) (auto simp: nodes_ok_def sched_pop_node_def Let_def)

lemma head_None: "nodes_ok s ns \<Longrightarrow> sched_head s = None \<longleftrightarrow> ns = []"
  by (cases ns) (auto simp: nodes_ok_def)

section \<open>Runs\<close>

text \<open>
  The main thread polls and runs what it takes; interrupt handlers, the other core and the callbacks
  themselves schedule, lock, unlock and raise between any two atomic sections. The state has the
  number of locks that are held outside \<^verbatim>\<open>mp_sched_run_pending\<close> and, for functions and for nodes,
  what was accepted and what was called. The nesting of locks stays below the range of
  \<^verbatim>\<open>sched_state\<close>.
\<close>

record sched_world =
  sw_sched :: sched
  sw_pc :: sched_pc
  sw_locks :: nat
  sw_accepted :: "sched_item list"
  sw_called :: "sched_item list"
  sw_nodes_accepted :: "(nat \<times> nat option) list"
  sw_nodes_called :: "(nat \<times> nat option) list"

text \<open>What a run takes at the end of an atomic section is called next.\<close>

definition sched_continue :: "sched_pc \<times> sched \<Rightarrow> sched_world \<Rightarrow> sched_world" where
  "sched_continue r w =
     w\<lparr>sw_sched := snd r, sw_pc := fst r,
       sw_called := sw_called w @ (case fst r of In_Function item \<Rightarrow> [item] | _ \<Rightarrow> []),
       sw_nodes_called := sw_nodes_called w @ (case fst r of In_Callback n cb \<Rightarrow> [(n, cb)] | _ \<Rightarrow> [])\<rparr>"

inductive sched_step :: "sched_world \<Rightarrow> sched_world \<Rightarrow> bool" where
  Schedule: "mp_sched_schedule f a (sw_sched w) = (True, s) \<Longrightarrow>
    sched_step w (w\<lparr>sw_sched := s, sw_accepted := sw_accepted w @ [(f, a)]\<rparr>)"
| Schedule_Node: "mp_sched_schedule_node n cb (sw_sched w) = (True, s) \<Longrightarrow>
    sched_step w (w\<lparr>sw_sched := s, sw_nodes_accepted := sw_nodes_accepted w @ [(n, Some cb)]\<rparr>)"
| Exception: "sched_step w (w\<lparr>sw_sched := mp_sched_exception e (sw_sched w)\<rparr>)"
| Handle: "sched_step w (w\<lparr>sw_sched := snd (handle_pending_exception b (sw_sched w))\<rparr>)"
| Lock: "sw_locks w < 32766 \<Longrightarrow> sched_step w (w\<lparr>sw_sched := mp_sched_lock (sw_sched w), sw_locks := sw_locks w + 1\<rparr>)"
| Unlock: "0 < sw_locks w \<Longrightarrow> mp_sched_unlock (sw_sched w) = Some s \<Longrightarrow> sched_step w (w\<lparr>sw_sched := s, sw_locks := sw_locks w - 1\<rparr>)"
| Begin: "sched_run_begin (sw_sched w) = Some r \<Longrightarrow> sched_step w (sched_continue r w)"
| Callback_Done: "sw_pc w = In_Callback n cb \<Longrightarrow> sched_step w (sched_continue (sched_section (sw_sched w)) w)"
| Function_Done: "sw_pc w = In_Function item \<Longrightarrow> sched_step w (w\<lparr>sw_pc := Before_Unlock\<rparr>)"
| Finish: "sw_pc w = Before_Unlock \<Longrightarrow> mp_sched_unlock (sw_sched w) = Some s \<Longrightarrow> sched_step w (w\<lparr>sw_sched := s, sw_pc := Not_Running\<rparr>)"

inductive sched_reach :: "sched_world \<Rightarrow> sched_world \<Rightarrow> bool" where
  Reach_Refl: "sched_reach w w"
| Reach_Step: "sched_reach w w' \<Longrightarrow> sched_step w' w'' \<Longrightarrow> sched_reach w w''"

lemma sched_reach_trans: "sched_reach v w \<Longrightarrow> sched_reach u v \<Longrightarrow> sched_reach u w"
  by (induction rule: sched_reach.induct) (auto intro: Reach_Step)

text \<open>\<^verbatim>\<open>mp_init\<close>: idle and empty.\<close>

definition sched_init :: sched where
  "sched_init = \<lparr>sched_state = MP_SCHED_IDLE, sched_queue = replicate 8 (0, 0), sched_len = 0, sched_idx = 0,
     sched_head = None, sched_tail = None, sched_nodes = (\<lambda>_. \<lparr>nd_callback = None, nd_next = None\<rparr>), mp_pending_exception = None\<rparr>"

definition sched_boot :: sched_world where
  "sched_boot = \<lparr>sw_sched = sched_init, sw_pc = Not_Running, sw_locks = 0, sw_accepted = [], sw_called = [],
     sw_nodes_accepted = [], sw_nodes_called = []\<rparr>"

text \<open>The number of locks that are held, that of a run included.\<close>

definition sched_depth :: "sched_world \<Rightarrow> nat" where
  "sched_depth w = sw_locks w + (if sw_pc w = Not_Running then 0 else 1)"

definition sched_state_ok :: "nat \<Rightarrow> sched \<Rightarrow> bool" where
  "sched_state_ok depth s \<longleftrightarrow>
     sched_state s = (if 0 < depth then - int depth
                      else if sched_head s \<noteq> None \<or> sched_items s \<noteq> [] then MP_SCHED_PENDING else MP_SCHED_IDLE)"

definition sched_inv :: "sched_world \<Rightarrow> nat list \<Rightarrow> bool" where
  "sched_inv w ns \<longleftrightarrow>
     sched_queue_ok (sw_sched w) \<and> nodes_ok (sw_sched w) ns \<and> sw_locks w < 32767 \<and>
     sched_state_ok (sched_depth w) (sw_sched w) \<and>
     sw_accepted w = sw_called w @ sched_items (sw_sched w) \<and>
     sw_nodes_accepted w = sw_nodes_called w @ sched_calls (sw_sched w) ns"

lemma s16_id: "- 32768 \<le> n \<Longrightarrow> n < 32768 \<Longrightarrow> s16 n = n"
  by (simp add: s16_def)

lemma items_nonempty: "sched_items s \<noteq> [] \<longleftrightarrow> mp_sched_num_pending s \<noteq> 0"
  by (simp add: mp_sched_num_pending_def sched_items_def)

lemma lock_state:
  assumes "sched_state_ok d s" and "d < 32767"
  shows "sched_state_ok (Suc d) (mp_sched_lock s)"
  using assms by (auto simp: sched_state_ok_def mp_sched_lock_def sched_consts s16_id)

lemma unlock_state:
  assumes "sched_state_ok (Suc d) s" and "d < 32767" and "mp_sched_unlock s = Some s'"
  shows "sched_state_ok d s'"
proof -
  have st: "sched_state s = - int (Suc d)"
    using assms(1) by (simp add: sched_state_ok_def)
  then have "s16 (sched_state s + 1) = - int d"
    using assms(2) by (simp add: s16_id)
  then show ?thesis
    using assms(3) st
    by (auto simp: mp_sched_unlock_def Let_def sched_state_ok_def items_nonempty mp_sched_num_pending_def split: if_splits)
qed

lemma unlock_some: "sched_state_ok (Suc d) s \<Longrightarrow> mp_sched_unlock s \<noteq> None"
  by (simp add: mp_sched_unlock_def sched_state_ok_def Let_def)

text \<open>The other fields that the locks leave alone.\<close>

lemma nodes_ok_frame: "nodes_ok s ns \<Longrightarrow> sched_nodes s' = sched_nodes s \<Longrightarrow> sched_head s' = sched_head s \<Longrightarrow> sched_tail s' = sched_tail s \<Longrightarrow> nodes_ok s' ns"
  by (simp add: nodes_ok_def)

definition same_work :: "sched \<Rightarrow> sched \<Rightarrow> bool" where
  "same_work s s' \<longleftrightarrow>
     sched_nodes s' = sched_nodes s \<and> sched_head s' = sched_head s \<and> sched_tail s' = sched_tail s \<and>
     sched_queue s' = sched_queue s \<and> sched_len s' = sched_len s \<and> sched_idx s' = sched_idx s"

lemma same_workD:
  assumes "same_work s s'"
  shows "nodes_ok s ns \<Longrightarrow> nodes_ok s' ns" and "sched_queue_ok s \<Longrightarrow> sched_queue_ok s'" and "sched_items s' = sched_items s"
    and "sched_calls s' ns = sched_calls s ns" and "sched_head s' = sched_head s"
  using assms by (auto simp: same_work_def nodes_ok_def sched_queue_ok_def sched_items_def sched_calls_def)

lemma same_work_ops:
  "same_work s (mp_sched_lock s)" "mp_sched_unlock s = Some s' \<Longrightarrow> same_work s s'"
  "same_work s (mp_sched_exception e s)" "same_work s (snd (handle_pending_exception b s))" "same_work s (s\<lparr>sched_state := x\<rparr>)"
  by (auto simp: same_work_def mp_sched_lock_def mp_sched_unlock_def mp_sched_exception_def handle_pending_exception_def Let_def
      split: if_splits option.splits)

definition pc_item :: "sched_pc \<Rightarrow> sched_item list" where
  "pc_item pc = (case pc of In_Function item \<Rightarrow> [item] | _ \<Rightarrow> [])"

definition pc_node :: "sched_pc \<Rightarrow> (nat \<times> nat option) list" where
  "pc_node pc = (case pc of In_Callback n cb \<Rightarrow> [(n, cb)] | _ \<Rightarrow> [])"

lemma section_state: "sched_section s = (pc, s') \<Longrightarrow> sched_state s' = sched_state s \<and> pc \<noteq> Not_Running"
  by (auto simp: sched_section_def sched_pop_node_def sched_pop_item_def Let_def split: option.splits if_splits)

lemma pop_node_frame:
  "sched_pop_node s = Some (x, s') \<Longrightarrow> sched_queue s' = sched_queue s \<and> sched_len s' = sched_len s \<and> sched_idx s' = sched_idx s"
  by (auto simp: sched_pop_node_def Let_def split: option.splits if_splits)

lemma pop_item_frame:
  "sched_pop_item s = Some (x, s') \<Longrightarrow> sched_nodes s' = sched_nodes s \<and> sched_head s' = sched_head s \<and> sched_tail s' = sched_tail s"
  by (auto simp: sched_pop_item_def split: if_splits)

lemma section_ok:
  assumes q: "sched_queue_ok s" and n: "nodes_ok s ns" and run: "sched_section s = (pc, s')"
  shows "\<exists>ms. sched_queue_ok s' \<and> nodes_ok s' ms \<and> sched_items s = pc_item pc @ sched_items s' \<and>
    sched_calls s ns = pc_node pc @ sched_calls s' ms"
proof (cases "sched_pop_node s")
  case (Some r)
  then obtain node cb t where r: "sched_pop_node s = Some ((node, cb), t)"
    by (metis prod.exhaust)
  then have eq: "pc = In_Callback node cb" "s' = t"
    using run by (auto simp: sched_section_def)
  obtain ms where ms: "nodes_ok t ms" "sched_calls s ns = (node, cb) # sched_calls t ms"
    using pop_node_ok [OF n r] by blast
  have f: "sched_queue t = sched_queue s" "sched_len t = sched_len s" "sched_idx t = sched_idx s"
    using pop_node_frame [OF r] by auto
  show ?thesis
    using ms q by (intro exI [of _ ms]) (simp add: eq pc_item_def pc_node_def sched_queue_ok_def sched_items_def f)
next
  case None
  show ?thesis
  proof (cases "sched_pop_item s")
    case None2: None
    then have "pc = Before_Unlock" "s' = s"
      using run None by (auto simp: sched_section_def)
    then show ?thesis
      using q n by (intro exI [of _ ns]) (simp add: pc_item_def pc_node_def)
  next
    case (Some r)
    then obtain item t where r: "sched_pop_item s = Some (item, t)"
      by (metis prod.exhaust)
    then have eq: "pc = In_Function item" "s' = t"
      using run None by (auto simp: sched_section_def)
    have f: "sched_nodes t = sched_nodes s" "sched_head t = sched_head s" "sched_tail t = sched_tail s"
      using pop_item_frame [OF r] by auto
    have "nodes_ok t ns"
      by (rule nodes_ok_frame [OF n f])
    then show ?thesis
      using pop_item_items [OF q r] f by (intro exI [of _ ns]) (simp add: eq pc_item_def pc_node_def sched_calls_def)
  qed
qed

lemma schedule_frame:
  assumes "mp_sched_schedule f a s = (True, s')"
  shows "sched_nodes s' = sched_nodes s" and "sched_head s' = sched_head s" and "sched_tail s' = sched_tail s"
    and "sched_state s' = (if sched_state s = MP_SCHED_IDLE then MP_SCHED_PENDING else sched_state s)"
  using assms by (auto simp: mp_sched_schedule_def Let_def split: if_splits)

lemma schedule_node_frame:
  assumes "mp_sched_schedule_node n cb s = (True, s')"
  shows "sched_queue s' = sched_queue s" and "sched_len s' = sched_len s" and "sched_idx s' = sched_idx s"
    and "sched_state s' = (if sched_state s = MP_SCHED_IDLE then MP_SCHED_PENDING else sched_state s)"
  using assms by (auto simp: mp_sched_schedule_node_def Let_def split: if_splits option.splits)

lemma sched_inv_same_work:
  assumes "sched_inv w ns" and "same_work (sw_sched w) s" and "sched_state_ok (sched_depth w') s"
    and "w' = w\<lparr>sw_sched := s, sw_pc := pc, sw_locks := l\<rparr>" and "l < 32767"
  shows "sched_inv w' ns"
  using assms(1,3,5) same_workD [OF assms(2)] unfolding assms(4) by (simp add: sched_inv_def)

lemma sched_depth_update:
  "sched_depth (w\<lparr>sw_sched := s, sw_pc := pc, sw_locks := l\<rparr>) = l + (if pc = Not_Running then 0 else 1)"
  by (simp add: sched_depth_def)

lemma sched_inv_continue:
  assumes "sched_queue_ok s" and "nodes_ok s ns" and "sched_section s = (pc, s')" and "sw_locks w < 32767"
    and "sched_state s = - int (sw_locks w + 1)"
    and "sw_accepted w = sw_called w @ sched_items s" and "sw_nodes_accepted w = sw_nodes_called w @ sched_calls s ns"
  shows "\<exists>ms. sched_inv (sched_continue (pc, s') w) ms"
proof -
  obtain ms where ms: "sched_queue_ok s'" "nodes_ok s' ms" "sched_items s = pc_item pc @ sched_items s'"
    "sched_calls s ns = pc_node pc @ sched_calls s' ms"
    using section_ok [OF assms(1-3)] by blast
  have st: "sched_state s' = - int (sw_locks w + 1)" "pc \<noteq> Not_Running"
    using section_state [OF assms(3)] assms(5) by auto
  have "sched_inv (sched_continue (pc, s') w) ms"
    using ms st assms(4,6,7)
    by (simp add: sched_inv_def sched_continue_def sched_state_ok_def sched_depth_def pc_item_def [symmetric] pc_node_def [symmetric])
  then show ?thesis ..
qed

lemma begin_unlocked:
  assumes "sched_inv w ns" and "sched_run_begin (sw_sched w) = Some r"
  shows "sw_pc w = Not_Running" and "sw_locks w = 0"
    and "r = sched_section ((sw_sched w)\<lparr>sched_state := MP_SCHED_LOCKED\<rparr>)"
  using assms by (auto simp: sched_inv_def sched_run_begin_def sched_state_ok_def sched_depth_def sched_consts split: if_splits)

lemma sched_step_inv:
  assumes step: "sched_step w w'" and inv: "sched_inv w ns"
  shows "\<exists>ms. sched_inv w' ms"
proof -
  have i: "sched_queue_ok (sw_sched w)" "nodes_ok (sw_sched w) ns" "sw_locks w < 32767"
    "sched_state_ok (sched_depth w) (sw_sched w)" "sw_accepted w = sw_called w @ sched_items (sw_sched w)"
    "sw_nodes_accepted w = sw_nodes_called w @ sched_calls (sw_sched w) ns"
    using inv by (auto simp: sched_inv_def)
  show ?thesis
    using step
  proof (cases rule: sched_step.cases)
    case (Schedule f a s)
    note f = schedule_frame [OF Schedule(2)]
    have it: "sched_queue_ok s" "sched_items s = sched_items (sw_sched w) @ [(f, a)]"
      using schedule_items [OF i(1) Schedule(2)] by auto
    have "nodes_ok s ns"
      by (rule nodes_ok_frame [OF i(2) f(1-3)])
    moreover have "sched_state_ok (sched_depth w) s"
      using i(4) it f by (auto simp: sched_state_ok_def sched_consts)
    ultimately have "sched_inv w' ns"
      using i it f by (simp add: Schedule(1) sched_inv_def sched_depth_def sched_calls_def)
    then show ?thesis ..
  next
    case (Schedule_Node n cb s)
    note f = schedule_node_frame [OF Schedule_Node(2)]
    have nd: "nodes_ok s (ns @ [n])" "sched_calls s (ns @ [n]) = sched_calls (sw_sched w) ns @ [(n, Some cb)]"
      using schedule_node_ok [OF i(2) Schedule_Node(2)] by auto
    have it: "sched_queue_ok s" "sched_items s = sched_items (sw_sched w)"
      using i(1) f by (simp_all add: sched_queue_ok_def sched_items_def)
    have "sched_state_ok (sched_depth w) s"
      using i(4) it f head_None [OF nd(1)] by (auto simp: sched_state_ok_def sched_consts)
    then have "sched_inv w' (ns @ [n])"
      using i it nd by (simp add: Schedule_Node(1) sched_inv_def sched_depth_def)
    then show ?thesis ..
  next
    case (Exception e)
    have "sched_state_ok (sched_depth w) (mp_sched_exception e (sw_sched w))"
      using i(4) by (simp add: sched_state_ok_def mp_sched_exception_def)
    then have "sched_inv w' ns"
      using i(3) by (intro sched_inv_same_work [OF inv same_work_ops(3), where pc = "sw_pc w" and l = "sw_locks w"]) (simp_all add: Exception sched_depth_def)
    then show ?thesis ..
  next
    case (Handle b)
    have "sched_state_ok (sched_depth w) (snd (handle_pending_exception b (sw_sched w)))"
      using i(4) by (simp add: sched_state_ok_def handle_pending_exception_def split: option.splits)
    then have "sched_inv w' ns"
      using i(3) by (intro sched_inv_same_work [OF inv same_work_ops(4), where pc = "sw_pc w" and l = "sw_locks w"]) (simp_all add: Handle sched_depth_def)
    then show ?thesis ..
  next
    case Lock
    have "sched_state_ok (Suc (sched_depth w)) (mp_sched_lock (sw_sched w))"
      using i(4) Lock by (intro lock_state) (auto simp: sched_depth_def)
    then have "sched_inv w' ns"
      using Lock by (intro sched_inv_same_work [OF inv same_work_ops(1), where pc = "sw_pc w" and l = "sw_locks w + 1"]) (auto simp: sched_depth_def)
    then show ?thesis ..
  next
    case (Unlock s)
    then obtain d where d: "sched_depth w = Suc d" "sw_locks w = Suc (sw_locks w - 1)"
      by (cases "sw_locks w") (auto simp: sched_depth_def)
    have "sched_state_ok d s"
      using i(3,4) Unlock d by (intro unlock_state [of d "sw_sched w"]) (auto simp: sched_depth_def split: if_splits)
    then have "sched_inv w' ns"
      using Unlock i(3) d by (intro sched_inv_same_work [OF inv same_work_ops(2) [OF Unlock(3)], where pc = "sw_pc w" and l = "sw_locks w - 1"]) (auto simp: sched_depth_def)
    then show ?thesis ..
  next
    case (Begin r)
    note b = begin_unlocked [OF inv Begin(2)]
    obtain pc s' where r: "sched_section ((sw_sched w)\<lparr>sched_state := MP_SCHED_LOCKED\<rparr>) = (pc, s')"
      by fastforce
    have sw: "same_work (sw_sched w) ((sw_sched w)\<lparr>sched_state := MP_SCHED_LOCKED\<rparr>)"
      by (rule same_work_ops(5))
    have "\<exists>ms. sched_inv (sched_continue (pc, s') w) ms"
      using i b same_workD [OF sw] by (intro sched_inv_continue [OF _ _ r]) (auto simp: sched_consts)
    then show ?thesis
      using Begin b r by simp
  next
    case (Callback_Done n cb)
    obtain pc s' where r: "sched_section (sw_sched w) = (pc, s')"
      by fastforce
    have "\<exists>ms. sched_inv (sched_continue (pc, s') w) ms"
      using i Callback_Done by (intro sched_inv_continue [OF _ _ r]) (auto simp: sched_state_ok_def sched_depth_def)
    then show ?thesis
      using Callback_Done r by simp
  next
    case (Function_Done item)
    then have "sched_inv w' ns"
      using i by (simp add: sched_inv_def sched_depth_def)
    then show ?thesis ..
  next
    case (Finish s)
    have "sched_depth w = Suc (sw_locks w)"
      using Finish(2) by (simp add: sched_depth_def)
    then have "sched_state_ok (sw_locks w) s"
      using i(3,4) by (intro unlock_state [OF _ _ Finish(3)]) simp_all
    then have "sched_inv w' ns"
      using Finish i(3) by (intro sched_inv_same_work [OF inv same_work_ops(2) [OF Finish(3)], where pc = Not_Running and l = "sw_locks w"]) (auto simp: sched_depth_def)
    then show ?thesis ..
  qed
qed

lemma sched_boot_inv: "sched_inv sched_boot []"
  by (simp add: sched_inv_def sched_boot_def sched_init_def sched_queue_ok_def nodes_ok_def sched_state_ok_def sched_depth_def
      sched_items_def sched_calls_def)

lemma sched_reach_inv: "sched_reach w w' \<Longrightarrow> sched_inv w ns \<Longrightarrow> \<exists>ms. sched_inv w' ms"
proof (induction rule: sched_reach.induct)
  case (Reach_Step w w' w'')
  then show ?case
    using sched_step_inv by blast
qed blast

text \<open>\<^verbatim>\<open>mp_handle_pending\<close> is the step \<open>Handle\<close> and then, unless it raises, the step \<open>Begin\<close>.\<close>

lemma handle_pending_steps:
  assumes "mp_handle_pending b s = (e, pc, s')"
  shows "e = fst (handle_pending_exception b s)"
    and "pc \<noteq> Not_Running \<Longrightarrow> sched_run_begin (snd (handle_pending_exception b s)) = Some (pc, s')"
    and "pc = Not_Running \<Longrightarrow> s' = snd (handle_pending_exception b s)"
  using assms section_state [of "(snd (handle_pending_exception b s))\<lparr>sched_state := MP_SCHED_LOCKED\<rparr>" pc s']
  by (auto simp: mp_handle_pending_def sched_run_begin_def split: prod.splits option.splits if_splits)

section \<open>The main thread on its own\<close>

text \<open>
  What the main thread does next: between runs it polls \<^verbatim>\<open>mp_handle_pending\<close>, which raises the pending exception or begins a
  run; inside a run it goes on. \<open>None\<close>: the poll finds nothing to do.
\<close>

definition sched_main :: "sched_world \<Rightarrow> sched_world option" where
  "sched_main w =
     (case sw_pc w of
        Not_Running \<Rightarrow>
          (case mp_handle_pending True (sw_sched w) of
             (Some e, _, s) \<Rightarrow> Some (w\<lparr>sw_sched := s\<rparr>)
           | (None, Not_Running, s) \<Rightarrow> None
           | (None, pc, s) \<Rightarrow> Some (sched_continue (pc, s) w))
      | In_Callback n cb \<Rightarrow> Some (sched_continue (sched_section (sw_sched w)) w)
      | In_Function item \<Rightarrow> Some (w\<lparr>sw_pc := Before_Unlock\<rparr>)
      | Before_Unlock \<Rightarrow> map_option (\<lambda>s. w\<lparr>sw_sched := s, sw_pc := Not_Running\<rparr>) (mp_sched_unlock (sw_sched w)))"

text \<open>At most \<open>n\<close> steps of the main thread, and nobody else makes one.\<close>

fun sched_main_run :: "nat \<Rightarrow> sched_world \<Rightarrow> sched_world" where
  "sched_main_run 0 w = w"
| "sched_main_run (Suc n) w = (case sched_main w of None \<Rightarrow> w | Some w' \<Rightarrow> sched_main_run n w')"

text \<open>The others release the locks that they hold.\<close>

fun sched_release :: "nat \<Rightarrow> sched_world \<Rightarrow> sched_world option" where
  "sched_release 0 w = Some w"
| "sched_release (Suc k) w =
     (case mp_sched_unlock (sw_sched w) of
        None \<Rightarrow> None
      | Some s \<Rightarrow> sched_release k (w\<lparr>sw_sched := s, sw_locks := sw_locks w - 1\<rparr>))"

lemma sched_main_steps:
  assumes "sched_main w = Some w'"
  shows "sched_step w w'"
proof (cases "sw_pc w")
  case Not_Running
  obtain e pc s where m: "mp_handle_pending True (sw_sched w) = (e, pc, s)"
    using prod_cases3 by blast
  note h = handle_pending_steps [OF m]
  show ?thesis
  proof (cases e)
    case (Some x)
    have pc: "pc = Not_Running"
      using m Some by (auto simp: mp_handle_pending_def split: prod.splits option.splits)
    then have "w' = w\<lparr>sw_sched := snd (handle_pending_exception True (sw_sched w))\<rparr>"
      using assms h(3) by (simp add: sched_main_def Not_Running m Some)
    then show ?thesis
      by (simp add: Handle)
  next
    case None
    then have "snd (handle_pending_exception True (sw_sched w)) = sw_sched w"
      using h(1) by (auto simp: handle_pending_exception_def split: option.splits)
    moreover have "pc \<noteq> Not_Running" "w' = sched_continue (pc, s) w"
      using assms by (auto simp: sched_main_def Not_Running m None split: sched_pc.splits)
    ultimately show ?thesis
      using h(2) Begin by simp
  qed
next
  case (In_Callback n cb)
  then show ?thesis
    using assms Callback_Done by (auto simp: sched_main_def)
next
  case (In_Function item)
  then show ?thesis
    using assms Function_Done [OF In_Function] by (simp add: sched_main_def)
next
  case Before_Unlock
  then show ?thesis
    using assms Finish by (auto simp: sched_main_def)
qed

text \<open>What is left to do, as a bound on the number of steps.\<close>

definition sched_left :: "sched_world \<Rightarrow> nat" where
  "sched_left w =
     4 * (length (sw_accepted w) - length (sw_called w)) + 4 * (length (sw_nodes_accepted w) - length (sw_nodes_called w)) +
     (case sw_pc w of Not_Running \<Rightarrow> 0 | Before_Unlock \<Rightarrow> 1 | In_Function _ \<Rightarrow> 2 | In_Callback _ _ \<Rightarrow> 3) +
     (if mp_pending_exception (sw_sched w) = None then 0 else 1)"

lemma continue_simps [simp]:
  "sw_sched (sched_continue r w) = snd r" "sw_pc (sched_continue r w) = fst r" "sw_locks (sched_continue r w) = sw_locks w"
  "sw_accepted (sched_continue r w) = sw_accepted w" "sw_nodes_accepted (sched_continue r w) = sw_nodes_accepted w"
  by (simp_all add: sched_continue_def)

lemma inv_calls_length:
  assumes "sched_inv w ns"
  shows "length (sw_nodes_accepted w) = length (sw_nodes_called w) + length ns"
    and "length (sw_accepted w) = length (sw_called w) + length (sched_items (sw_sched w))"
  using assms by (simp_all add: sched_inv_def sched_calls_def)

lemma section_exception: "mp_pending_exception (snd (sched_section s)) = mp_pending_exception s"
  by (auto simp: sched_section_def sched_pop_node_def sched_pop_item_def Let_def split: option.splits)

text \<open>A section calls something, unless there is nothing to call.\<close>

lemma section_calls:
  assumes "sched_section s = (pc, s')" and "nodes_ok s ns"
  shows "pc = Before_Unlock \<longleftrightarrow> ns = [] \<and> sched_items s = []"
  using assms pop_node_None [OF assms(2)]
  by (auto simp: sched_section_def sched_pop_item_def mp_sched_empty_def mp_sched_num_pending_def sched_items_def split: option.splits if_splits)

lemma left_continue:
  assumes inv: "sched_inv w ns" and ms: "sched_inv (sched_continue (pc, s') w) ms" and pc: "pc \<noteq> Not_Running"
    and exc: "mp_pending_exception s' = mp_pending_exception (sw_sched w)"
    and work: "pc = Before_Unlock \<Longrightarrow> \<exists>n cb. sw_pc w = In_Callback n cb"
  shows "sched_left (sched_continue (pc, s') w) < sched_left w"
proof -
  have le: "length (sw_called w) \<le> length (sw_accepted w)" "length (sw_nodes_called w) \<le> length (sw_nodes_accepted w)"
    "length (sw_called (sched_continue (pc, s') w)) \<le> length (sw_accepted w)"
    "length (sw_nodes_called (sched_continue (pc, s') w)) \<le> length (sw_nodes_accepted w)"
    using inv_calls_length [OF inv] inv_calls_length [OF ms] by simp_all
  show ?thesis
    using le pc work by (cases pc) (auto simp: sched_left_def exc sched_continue_def)
qed

lemma sched_main_progress:
  assumes inv: "sched_inv w ns" and locks: "sw_locks w = 0"
  shows "case sched_main w of
      None \<Rightarrow> sw_pc w = Not_Running \<and> sched_state (sw_sched w) = MP_SCHED_IDLE \<and> sw_called w = sw_accepted w \<and>
        sw_nodes_called w = sw_nodes_accepted w
    | Some w' \<Rightarrow> (\<exists>ms. sched_inv w' ms) \<and> sw_locks w' = 0 \<and> sw_accepted w' = sw_accepted w \<and>
        sw_nodes_accepted w' = sw_nodes_accepted w \<and> sched_left w' < sched_left w"
proof (cases "sched_main w")
  case None
  have pc: "sw_pc w = Not_Running"
  proof (cases "sw_pc w")
    case Before_Unlock
    then have "sched_state_ok (Suc 0) (sw_sched w)"
      using inv locks by (simp add: sched_inv_def sched_depth_def)
    then show ?thesis
      using None unlock_some by (auto simp: sched_main_def Before_Unlock)
  qed (use None in \<open>simp_all add: sched_main_def\<close>)
  have st: "sched_state_ok 0 (sw_sched w)" and n: "nodes_ok (sw_sched w) ns"
    using inv pc locks by (simp_all add: sched_inv_def sched_depth_def)
  obtain e q s where m: "mp_handle_pending True (sw_sched w) = (e, q, s)"
    using prod_cases3 by blast
  have e: "e = None" "q = Not_Running"
    using None m by (auto simp: sched_main_def pc split: option.splits sched_pc.splits)
  have "sched_run_begin (sw_sched w) = None"
  proof (rule ccontr)
    assume "sched_run_begin (sw_sched w) \<noteq> None"
    then obtain q' s' where b: "sched_run_begin (sw_sched w) = Some (q', s')"
      by auto
    have "q' \<noteq> Not_Running"
      using section_state begin_unlocked(3) [OF inv b] by metis
    moreover have "mp_pending_exception (sw_sched w) = None"
      using m e(1) by (auto simp: mp_handle_pending_def handle_pending_exception_def split: option.splits prod.splits)
    ultimately show False
      using m e b by (simp add: mp_handle_pending_def handle_pending_exception_def)
  qed
  then have "sched_state (sw_sched w) \<noteq> MP_SCHED_PENDING"
    by (simp add: sched_run_begin_def split: if_splits)
  then have idle: "sched_state (sw_sched w) = MP_SCHED_IDLE" "sched_head (sw_sched w) = None" "sched_items (sw_sched w) = []"
    using st by (auto simp: sched_state_ok_def split: if_splits)
  then have "ns = []"
    using head_None [OF n] by simp
  then show ?thesis
    using inv pc idle None by (simp add: sched_inv_def sched_calls_def)
next
  case (Some w')
  note step = sched_main_steps [OF Some]
  obtain ms where ms: "sched_inv w' ms"
    using sched_step_inv [OF step inv] by blast
  have q: "sched_queue_ok (sw_sched w)" and n: "nodes_ok (sw_sched w) ns"
    using inv by (simp_all add: sched_inv_def)
  have "sw_locks w' = 0 \<and> sw_accepted w' = sw_accepted w \<and> sw_nodes_accepted w' = sw_nodes_accepted w \<and> sched_left w' < sched_left w"
  proof (cases "sw_pc w")
    case Not_Running
    obtain e pc s where m: "mp_handle_pending True (sw_sched w) = (e, pc, s)"
      using prod_cases3 by blast
    show ?thesis
    proof (cases e)
      case (Some x)
      have "w' = w\<lparr>sw_sched := s\<rparr>" "mp_pending_exception (sw_sched w) \<noteq> None" "mp_pending_exception s = None"
        using \<open>sched_main w = Some w'\<close> m Some
        by (auto simp: sched_main_def Not_Running mp_handle_pending_def handle_pending_exception_def split: option.splits prod.splits)
      then show ?thesis
        using locks by (simp add: sched_left_def Not_Running)
    next
      case None
      have w': "w' = sched_continue (pc, s) w" "pc \<noteq> Not_Running"
        using \<open>sched_main w = Some w'\<close> m None by (auto simp: sched_main_def Not_Running split: sched_pc.splits)
      have exc: "mp_pending_exception (sw_sched w) = None"
        using m None by (auto simp: mp_handle_pending_def handle_pending_exception_def split: option.splits prod.splits)
      have b: "sched_run_begin (sw_sched w) = Some (pc, s)"
        using m exc w'(2) by (auto simp: mp_handle_pending_def handle_pending_exception_def split: option.splits)
      let ?t = "(sw_sched w)\<lparr>sched_state := MP_SCHED_LOCKED\<rparr>"
      have r: "sched_section ?t = (pc, s)"
        using begin_unlocked(3) [OF inv b] by simp
      have "sched_state (sw_sched w) = MP_SCHED_PENDING" "sched_state_ok 0 (sw_sched w)"
        using b inv Not_Running locks by (simp_all add: sched_run_begin_def sched_inv_def sched_depth_def split: if_splits)
      then have "\<not> (ns = [] \<and> sched_items (sw_sched w) = [])"
        using head_None [OF n] by (auto simp: sched_state_ok_def sched_consts split: if_splits)
      moreover have "nodes_ok ?t ns" "sched_items ?t = sched_items (sw_sched w)"
        using same_workD(1,3) [OF same_work_ops(5)] n by simp_all
      ultimately have "pc \<noteq> Before_Unlock"
        using section_calls [OF r] by simp
      then have "sched_left w' < sched_left w"
        unfolding w'(1) using section_exception [of ?t] r
        by (intro left_continue [OF inv ms [unfolded w'(1)] w'(2)]) simp_all
      then show ?thesis
        using locks by (simp add: w'(1))
    qed
  next
    case (In_Callback k cb)
    obtain pc s where r: "sched_section (sw_sched w) = (pc, s)"
      by fastforce
    have w': "w' = sched_continue (pc, s) w"
      using Some r by (simp add: sched_main_def In_Callback)
    have "sched_left w' < sched_left w"
      unfolding w' using section_state [OF r] section_exception [of "sw_sched w"] r In_Callback
      by (intro left_continue [OF inv ms [unfolded w']]) simp_all
    then show ?thesis
      using locks by (simp add: w')
  next
    case (In_Function x)
    then show ?thesis
      using Some locks by (auto simp: sched_main_def sched_left_def)
  next
    case Before_Unlock
    obtain s where s: "mp_sched_unlock (sw_sched w) = Some s" "w' = w\<lparr>sw_sched := s, sw_pc := Not_Running\<rparr>"
      using Some by (auto simp: sched_main_def Before_Unlock)
    have "mp_pending_exception s = mp_pending_exception (sw_sched w)"
      using s(1) by (auto simp: mp_sched_unlock_def Let_def split: if_splits)
    then show ?thesis
      using locks by (simp add: s(2) sched_left_def Before_Unlock)
  qed
  then show ?thesis
    using Some ms by auto
qed

lemma sched_main_drains:
  assumes "sched_inv w ns" and "sw_locks w = 0" and "sched_left w \<le> n"
  shows "let w' = sched_main_run n w in
    sw_pc w' = Not_Running \<and> sched_state (sw_sched w') = MP_SCHED_IDLE \<and> sched_main w' = None \<and> sw_called w' = sw_accepted w \<and> sw_nodes_called w' = sw_nodes_accepted w"
  using assms
proof (induction n arbitrary: w ns)
  case 0
  then show ?case
    using sched_main_progress [OF 0(1,2)] by (auto simp: Let_def split: option.splits)
next
  case (Suc n)
  show ?case
  proof (cases "sched_main w")
    case None
    then show ?thesis
      using sched_main_progress [OF Suc.prems(1,2)] by simp
  next
    case (Some w')
    then obtain ms where "sched_inv w' ms" "sw_locks w' = 0" "sw_accepted w' = sw_accepted w" "sw_nodes_accepted w' = sw_nodes_accepted w"
      "sched_left w' < sched_left w"
      using sched_main_progress [OF Suc.prems(1,2)] by auto
    then show ?thesis
      using Suc.IH [of w' ms] Suc.prems(3) Some by (simp add: Let_def)
  qed
qed

text \<open>The release of the locks of others, a step each, leaves the work as it is and wakes the main thread if there is some.\<close>

lemma sched_release_ok:
  assumes "sched_inv w ns"
  shows "\<exists>w'. sched_release (sw_locks w) w = Some w' \<and> (\<exists>ms. sched_inv w' ms) \<and> sw_locks w' = 0 \<and>
    sw_accepted w' = sw_accepted w \<and> sw_nodes_accepted w' = sw_nodes_accepted w \<and> sched_left w' = sched_left w"
  using assms
proof (induction "sw_locks w" arbitrary: w ns)
  case (Suc k)
  obtain d where "sched_depth w = Suc d"
    using Suc(2) by (cases "sched_depth w") (simp_all add: sched_depth_def)
  then have "sched_state_ok (Suc d) (sw_sched w)"
    using Suc.prems by (simp add: sched_inv_def)
  then obtain s where s: "mp_sched_unlock (sw_sched w) = Some s"
    using unlock_some by blast
  have sw: "sw_locks w = Suc k"
    using Suc(2) by simp
  let ?w = "w\<lparr>sw_sched := s, sw_locks := k\<rparr>"
  have "sched_step w ?w"
    using Unlock [OF _ s] sw by simp
  then obtain ms where ms: "sched_inv ?w ms"
    using sched_step_inv [OF _ Suc.prems] by blast
  have "mp_pending_exception s = mp_pending_exception (sw_sched w)"
    using s by (auto simp: mp_sched_unlock_def Let_def split: if_splits)
  then have "sched_left ?w = sched_left w"
    by (simp add: sched_left_def)
  moreover have "k = sw_locks ?w"
    by simp
  ultimately show ?case
    using Suc(1) [OF _ ms] by (simp add: s sw)
qed auto

end
