(* ===== verification/Sched_Props.thy ===== *)
theory Sched_Props
  imports Ringbuf Sched
begin

text \<open>
  The properties of the ring buffer and of the scheduler, with small runs as examples.
\<close>

text \<open>
  C32. A program of any operations of the ring buffer - single bytes, blocks, 16-bit numbers, peeks and the two
  counts, in any order - returns the results of the same program on a list of bytes with room for \<open>n - 1\<close> of them and leaves the
  buffer well formed, its indices in range, with the bytes of that list: a put appends or is
  refused with no change, a get takes from the front. So the single bytes that are put and taken after it come
  out in the order they went in, behind those that are there.
\<close>

theorem ringbuf_fifo:
  assumes "0 < n" and "n < 65535"
  shows "\<exists>r. rb_run ops (ringbuf_alloc n) = (fst (rb_spec_run n ops []), r) \<and> rb_ok r \<and>
    rb_items r = snd (rb_spec_run n ops []) \<and>
    (\<forall>singles acc out t. fifo_run rb_put rb_get singles r = (acc, out, t) \<longrightarrow> rb_ok t \<and> out @ rb_items t = rb_items r @ acc)"
proof -
  have "rb_ok (ringbuf_alloc n)" "rb_items (ringbuf_alloc n) = []" "rb_size (ringbuf_alloc n) = n"
    using assms rb_alloc_ok [of n] by (auto simp: ringbuf_alloc_def)
  then obtain r where "rb_run ops (ringbuf_alloc n) = (fst (rb_spec_run n ops []), r)" "rb_ok r" "rb_items r = snd (rb_spec_run n ops [])"
    using rb_run_ok [of "ringbuf_alloc n" n ops] assms(2) by auto
  then show ?thesis
    using rb.run_in_order by blast
qed

theorem ringbuf_fifo_witness:
  "\<exists>r. rb_run [Rb_Put16 0x1234, Rb_Get, Rb_Put_Bytes [5, 6], Rb_Put 7, Rb_Get16, Rb_Get_Bytes 2, Rb_Avail] (ringbuf_alloc 4) =
       ([(0, []), (0x12, []), (0, []), (- 1, []), (0x3405, []), (- 1, []), (1, [])], r) \<and> rb_items r = [6]"
proof -
  have "ucast (drop_bit 8 (0x1234 :: u16)) = (0x12 :: u8)" "ucast (0x1234 :: u16) = (0x34 :: u8)"
    by (simp_all add: drop_bit_eq_div)
  then show ?thesis
    using ringbuf_fifo [of 4 "[Rb_Put16 0x1234, Rb_Get, Rb_Put_Bytes [5, 6], Rb_Put 7, Rb_Get16, Rb_Get_Bytes 2, Rb_Avail]"] by auto
qed

section \<open>Interrupts during \<^verbatim>\<open>ringbuf_get\<close>\<close>

text \<open>A run as a list of choices, to exhibit one.\<close>

datatype rb_choice = Do_Take | Do_Wrap | Do_Put u8

fun rb_do :: "rb_choice \<Rightarrow> rb_world \<Rightarrow> rb_world option" where
  "rb_do Do_Take w =
     (if rw_wrap w = None \<and> rb_iget (rw_ring w) \<noteq> rb_iput (rw_ring w)
      then let (v, r) = rb_get_take (rw_ring w) in Some (w\<lparr>rw_ring := r, rw_wrap := Some v\<rparr>) else None)"
| "rb_do Do_Wrap w =
     (case rw_wrap w of None \<Rightarrow> None
      | Some v \<Rightarrow> Some (w\<lparr>rw_ring := rb_get_wrap (rw_ring w), rw_wrap := None, rw_out := rw_out w @ [v]\<rparr>))"
| "rb_do (Do_Put v) w =
     (let (e, r) = ringbuf_put (rw_ring w) v in if e = 0 then Some (w\<lparr>rw_ring := r, rw_in := rw_in w @ [v]\<rparr>) else None)"

text \<open>With \<open>check\<close> a run refuses a put at the hazard.\<close>

fun rb_play :: "bool \<Rightarrow> rb_choice list \<Rightarrow> rb_world \<Rightarrow> rb_world option" where
  "rb_play check [] w = Some w"
| "rb_play check (c # cs) w =
     (case rb_do c w of
        None \<Rightarrow> None
      | Some w' \<Rightarrow> if check \<and> rb_hazard w \<and> rw_in w' \<noteq> rw_in w then None else rb_play check cs w')"

lemma rb_do_step: "rb_do c w = Some w' \<Longrightarrow> rb_step w w'"
  by (cases c) (auto simp: Let_def intro: rb_step.intros split: if_splits option.splits prod.splits)

lemma rb_play_reach: "rb_play check cs v = Some w \<Longrightarrow> rb_reach u v \<Longrightarrow> rb_reach u w"
proof (induction cs arbitrary: v)
  case (Cons c cs)
  then obtain v' where "rb_do c v = Some v'" "rb_play check cs v' = Some w"
    by (auto split: option.splits if_splits)
  then show ?case
    using Cons.IH Cons.prems(2) rb_do_step Step by blast
qed simp

lemma rb_play_safe: "rb_play True cs v = Some w \<Longrightarrow> rb_safe u v \<Longrightarrow> rb_safe u w"
proof (induction cs arbitrary: v)
  case (Cons c cs)
  then obtain v' where "rb_do c v = Some v'" "rb_hazard v \<longrightarrow> rw_in v' = rw_in v" "rb_play True cs v' = Some w"
    by (auto split: option.splits if_splits)
  then show ?case
    using Cons.IH Cons.prems(2) rb_do_step Safe_Step by blast
qed simp

lemma replicate_3: "replicate 3 x = [x, x, x]"
  by (simp add: numeral_eq_Suc)

lemma rb_lost_run:
  "rb_play False [Do_Put 1, Do_Put 2, Do_Take, Do_Wrap, Do_Take, Do_Wrap, Do_Put 3, Do_Put 4, Do_Take, Do_Put 5, Do_Put 6, Do_Wrap]
     (rb_start 3) =
   Some \<lparr>rw_ring = \<lparr>rb_buf = [4, 5, 6], rb_size = 3, rb_iget = 0, rb_iput = 0\<rparr>, rw_wrap = None,
     rw_in = [1, 2, 3, 4, 5, 6], rw_out = [1, 2, 3]\<rparr>"
  by (simp add: rb_start_def ringbuf_alloc_def replicate_3 ringbuf_put_def rb_get_take_def rb_get_wrap_def Let_def)

text \<open>
  C33. With interrupt handlers that put bytes between any two steps of \<^verbatim>\<open>ringbuf_get\<close>, no byte is lost or
  reordered as long as no put reaches the end of the buffer while \<^verbatim>\<open>iget\<close> is past the end: what went
  in is what came out, the byte in the hands of the consumer, and what the buffer holds. A handler
  that asks \<^verbatim>\<open>ringbuf_free\<close> first never makes such a put. Without that proviso bytes are lost: in a
  buffer of three bytes, two puts at that moment are both accepted, the second makes the buffer
  look empty, and three bytes never come out.
\<close>

theorem ringbuf_interrupts:
  assumes "0 < n" and "n < 65536" and "rb_safe (rb_start n) w"
  shows "rw_in w = rw_out w @ (case rw_wrap w of None \<Rightarrow> [] | Some v \<Rightarrow> [v]) @
      rb_items (case rw_wrap w of None \<Rightarrow> rw_ring w | Some _ \<Rightarrow> rb_get_wrap (rw_ring w)) \<and>
    (rb_hazard w \<longrightarrow> ringbuf_free (rw_ring w) = 0) \<and>
    (\<exists>v. rb_reach (rb_start 3) v \<and> rw_wrap v = None \<and> rb_ok (rw_ring v) \<and> rb_items (rw_ring v) = [] \<and>
      rw_in v = [1, 2, 3, 4, 5, 6] \<and> rw_out v = [1, 2, 3])"
proof (intro conjI)
  show "rb_hazard w \<longrightarrow> ringbuf_free (rw_ring w) = 0"
    using hazard_no_free by blast
  show "rw_in w = rw_out w @ (case rw_wrap w of None \<Rightarrow> [] | Some v \<Rightarrow> [v]) @
      rb_items (case rw_wrap w of None \<Rightarrow> rw_ring w | Some _ \<Rightarrow> rb_get_wrap (rw_ring w))"
    using rb_safe_ok [OF assms(3) rb_start_ok [OF assms(1,2)]] by (auto simp: rb_world_ok_def split: option.splits)
  show "\<exists>v. rb_reach (rb_start 3) v \<and> rw_wrap v = None \<and> rb_ok (rw_ring v) \<and> rb_items (rw_ring v) = [] \<and>
      rw_in v = [1, 2, 3, 4, 5, 6] \<and> rw_out v = [1, 2, 3]"
    by (rule exI, rule conjI, rule rb_play_reach [OF rb_lost_run Refl]) (simp add: rb_ok_def rb_items_def ringbuf_avail_def)
qed

theorem ringbuf_interrupts_witness:
  "\<exists>w. rb_safe (rb_start 3) w \<and> rw_in w = [1, 2] \<and> rw_wrap w = Some 1 \<and>
     [1, 2] = rw_out w @ [1] @ rb_items (rb_get_wrap (rw_ring w))"
proof -
  define w where "w = \<lparr>rw_ring = \<lparr>rb_buf = [1, 2, 0 :: u8], rb_size = 3, rb_iget = 1, rb_iput = 2\<rparr>, rw_wrap = Some (1 :: u8),
    rw_in = [1, 2], rw_out = []\<rparr>"
  have "rb_play True [Do_Put 1, Do_Take, Do_Put 2] (rb_start 3) = Some w"
    by (simp add: w_def rb_start_def ringbuf_alloc_def replicate_3 ringbuf_put_def rb_get_take_def rb_hazard_def Let_def)
  then have safe: "rb_safe (rb_start 3) w"
    by (rule rb_play_safe) (rule Safe_Refl)
  have "rw_in w = [1, 2]" "rw_wrap w = Some 1"
    by (simp_all add: w_def)
  then show ?thesis
    using ringbuf_interrupts [OF _ _ safe] safe by (intro exI [of _ w]) simp
qed

section \<open>The scheduler\<close>

text \<open>
  C34. In every state that the scheduler reaches, with interrupts, callbacks and other locks between any
  two atomic sections: the functions that were accepted are those called, in that order, followed by
  those in the queue, of which there are at most eight; the same holds of the nodes, which are linked
  without repetition; no wake-up is lost, as an unlocked scheduler is pending exactly when there is
  work; and no run starts inside another or under a lock.
\<close>

theorem sched_invariant:
  assumes "sched_reach sched_boot w"
  shows "\<exists>ns. distinct ns \<and> node_path (sched_nodes (sw_sched w)) (sched_head (sw_sched w)) ns \<and>
    sw_accepted w = sw_called w @ sched_items (sw_sched w) \<and> length (sched_items (sw_sched w)) \<le> MICROPY_SCHEDULER_DEPTH \<and>
    sw_nodes_accepted w = sw_nodes_called w @ sched_calls (sw_sched w) ns \<and>
    (sched_depth w = 0 \<longrightarrow>
       (sched_state (sw_sched w) = MP_SCHED_PENDING \<longleftrightarrow> ns \<noteq> [] \<or> sched_items (sw_sched w) \<noteq> [])) \<and>
    (0 < sched_depth w \<longrightarrow> sched_run_begin (sw_sched w) = None)"
proof -
  obtain ns where inv: "sched_inv w ns"
    using sched_reach_inv [OF assms sched_boot_inv] by blast
  then have q: "sched_queue_ok (sw_sched w)" and n: "nodes_ok (sw_sched w) ns" and st: "sched_state_ok (sched_depth w) (sw_sched w)"
    by (simp_all add: sched_inv_def)
  have "sched_depth w = 0 \<longrightarrow> (sched_state (sw_sched w) = MP_SCHED_PENDING \<longleftrightarrow> ns \<noteq> [] \<or> sched_items (sw_sched w) \<noteq> [])"
    using st head_None [OF n] by (auto simp: sched_state_ok_def sched_consts)
  moreover have "0 < sched_depth w \<longrightarrow> sched_run_begin (sw_sched w) = None"
    using st by (auto simp: sched_state_ok_def sched_run_begin_def sched_consts)
  ultimately show ?thesis
    using inv nodes_okD [OF n] sq.bound [OF q] by (intro exI [of _ ns]) (simp add: sched_inv_def)
qed

definition sched_example :: sched_world where
  "sched_example = sched_boot\<lparr>sw_sched := snd (mp_sched_schedule 7 9 sched_init), sw_accepted := [(7, 9)]\<rparr>"

lemma sched_example_reach: "sched_reach sched_boot sched_example"
proof -
  have "mp_sched_schedule 7 9 (sw_sched sched_boot) = (True, snd (mp_sched_schedule 7 9 sched_init))"
    by (simp add: mp_sched_schedule_def mp_sched_full_def mp_sched_num_pending_def sched_boot_def sched_init_def sched_consts Let_def)
  then have "sched_step sched_boot (sched_boot\<lparr>sw_sched := snd (mp_sched_schedule 7 9 sched_init), sw_accepted := sw_accepted sched_boot @ [(7, 9)]\<rparr>)"
    by (rule Schedule)
  then have "sched_step sched_boot sched_example"
    by (simp add: sched_example_def sched_boot_def)
  then show ?thesis
    by (rule Reach_Step [OF Reach_Refl])
qed

lemma sched_example_simps [simp]:
  "sw_locks sched_example = 0" "sw_pc sched_example = Not_Running" "sw_accepted sched_example = [(7, 9)]"
  "sw_called sched_example = []" "sw_nodes_accepted sched_example = []"
  by (simp_all add: sched_example_def sched_boot_def)

theorem sched_invariant_witness:
  "sched_items (sw_sched sched_example) = [(7, 9)] \<and> sched_state (sw_sched sched_example) = MP_SCHED_PENDING"
  using sched_invariant [OF sched_example_reach] by (auto simp: sched_depth_def)

text \<open>
  C35. Work that was accepted gets done by the main thread alone: take any state that the scheduler reaches. Once the others have released
  the locks that they hold, if any, and make no further step, the main thread - which polls \<^verbatim>\<open>mp_handle_pending\<close> and goes on with a run that it has begun - comes to
  rest after at most \<open>sched_left w\<close> of its own steps; the scheduler is idle then and every function and every node that was accepted has been called,
  each once and in order. A wake-up that is lost would leave the main thread at rest before.
\<close>

theorem sched_drains:
  assumes "sched_reach sched_boot w" and "sched_left w \<le> n"
  shows "\<exists>w1. sched_release (sw_locks w) w = Some w1 \<and>
    (let w' = sched_main_run n w1 in
       sw_pc w' = Not_Running \<and> sched_state (sw_sched w') = MP_SCHED_IDLE \<and> sched_main w' = None \<and>
       sw_called w' = sw_accepted w \<and> sw_nodes_called w' = sw_nodes_accepted w)"
proof -
  obtain ns where inv: "sched_inv w ns"
    using sched_reach_inv [OF assms(1) sched_boot_inv] by blast
  then obtain w1 ms where w1: "sched_release (sw_locks w) w = Some w1" "sched_inv w1 ms" "sw_locks w1 = 0" "sw_accepted w1 = sw_accepted w"
    "sw_nodes_accepted w1 = sw_nodes_accepted w" "sched_left w1 = sched_left w"
    using sched_release_ok by blast
  then have "sched_left w1 \<le> n"
    using assms(2) by simp
  from sched_main_drains [OF w1(2,3) this] show ?thesis
    using w1 by (auto simp: Let_def)
qed

theorem sched_drains_witness:
  "\<exists>w1. sched_release (sw_locks sched_example) sched_example = Some w1 \<and> sw_called (sched_main_run 4 w1) = [(7, 9)]"
proof -
  have "sched_left sched_example \<le> 4"
    by (simp add: sched_left_def sched_example_def sched_boot_def sched_init_def mp_sched_schedule_def Let_def)
  from sched_drains [OF sched_example_reach this] show ?thesis
    by (auto simp: Let_def)
qed

end
