(* ===== verification/Py_Seq.thy ===== *)
theory Py_Seq
  imports Py_Int
begin

text \<open>
  What the sequence types share: the cells of an item buffer and the accesses to it, the objects
  that are indices and slices, the conversion of an index (\<^verbatim>\<open>mp_obj_get_int_maybe\<close> and \<^verbatim>\<open>mp_get_index\<close>
  of \<^verbatim>\<open>py/obj.c\<close>), slice objects (\<^verbatim>\<open>py/objslice.c\<close>) and the helpers of \<^verbatim>\<open>py/sequence.c\<close>.
\<close>

section \<open>Errors and item buffers\<close>

text \<open>
  The outcomes that are not a result: an exception, \<^verbatim>\<open>NotImplementedError\<close>, the \<^verbatim>\<open>RuntimeError\<close> of
  \<^verbatim>\<open>mp_cstack_check\<close>, and \<open>Fault\<close>, which is no exception but undefined behaviour of C: an access
  outside a buffer, the use of a cell that holds no object, or the overflow of a signed number.
\<close>

datatype py_error = Exc mp_error | NotImplementedError | RecursionDepth | Fault

text \<open>
  A word of an item buffer: \<^verbatim>\<open>MP_OBJ_NULL\<close>, what the allocator left there, or an object.
\<close>

datatype 'a cell = Null | Junk | Val 'a

definition rd :: "'a list \<Rightarrow> nat \<Rightarrow> py_error + 'a" where
  "rd xs i = (if i < length xs then Inr (xs ! i) else Inl Fault)"

definition rd_obj :: "'a cell list \<Rightarrow> nat \<Rightarrow> py_error + 'a" where
  "rd_obj cs i = (case rd cs i of Inr (Val x) \<Rightarrow> Inr x | _ \<Rightarrow> Inl Fault)"

definition wr :: "'a list \<Rightarrow> nat \<Rightarrow> 'a \<Rightarrow> py_error + 'a list" where
  "wr xs i x = (if i < length xs then Inr (xs[i := x]) else Inl Fault)"

text \<open>\<^verbatim>\<open>memcpy\<close> and \<^verbatim>\<open>memmove\<close>: a block is read as a whole and then written.\<close>

definition rd_block :: "'a list \<Rightarrow> nat \<Rightarrow> nat \<Rightarrow> py_error + 'a list" where
  "rd_block xs i n = (if n = 0 then Inr [] else if i + n \<le> length xs then Inr (take n (drop i xs)) else Inl Fault)"

definition wr_block :: "'a list \<Rightarrow> nat \<Rightarrow> 'a list \<Rightarrow> py_error + 'a list" where
  "wr_block xs i ys =
     (if ys = [] then Inr xs
      else if i + length ys \<le> length xs then Inr (take i xs @ ys @ drop (i + length ys) xs) else Inl Fault)"

text \<open>\<^verbatim>\<open>mp_seq_clear\<close>: null words from \<open>len\<close> to \<open>alloc_len\<close>.\<close>

definition mp_seq_clear :: "'a cell list \<Rightarrow> nat \<Rightarrow> nat \<Rightarrow> py_error + 'a cell list" where
  "mp_seq_clear cs len alloc_len = wr_block cs len (replicate (alloc_len - len) Null)"

definition bnd :: "'e + 'a \<Rightarrow> ('a \<Rightarrow> 'e + 'b) \<Rightarrow> 'e + 'b" where
  "bnd m f = (case m of Inl e \<Rightarrow> Inl e | Inr x \<Rightarrow> f x)"

lemma bnd_simps [simp]: "bnd (Inl e) f = Inl e" "bnd (Inr x) f = f x"
  by (simp_all add: bnd_def)

lemma bnd_assoc: "bnd (bnd m f) g = bnd m (\<lambda>x. bnd (f x) g)"
  by (cases m) simp_all

lemma bnd_Inr: "bnd m f = Inr y \<longleftrightarrow> (\<exists>x. m = Inr x \<and> f x = Inr y)"
  by (cases m) simp_all

section \<open>Objects and the environment\<close>

text \<open>
  The objects that the code tells apart: \<^verbatim>\<open>None\<close>, the two truth values, integers, slices, and all
  others, which are known by an identity.
\<close>

datatype 'x obj = O_None | O_Bool bool | O_Int int_obj | O_Slice "'x obj" "'x obj" "'x obj" | O_Other 'x

text \<open>
  What the operations of other types do: the integer that \<^verbatim>\<open>mp_unary_op(MP_UNARY_OP_INT_MAYBE, _)\<close>
  finds in another object, unless it raises, \<^verbatim>\<open>mp_obj_equal\<close>, \<^verbatim>\<open>mp_binary_op\<close> for the comparisons, the
  call of a function with one argument, the machine word of an object that is not a small integer,
  whether the heap has room for a block of that many bytes, and whether a block that is resized to
  that many bytes stays where it is.
\<close>

record 'x py_env =
  env_int_maybe :: "'x \<Rightarrow> py_error + int_obj option"
  env_equal :: "'x obj \<Rightarrow> 'x obj \<Rightarrow> py_error + bool"
  env_binary :: "binary_op \<Rightarrow> 'x obj \<Rightarrow> 'x obj \<Rightarrow> py_error + 'x obj"
  env_call :: "'x obj \<Rightarrow> 'x obj \<Rightarrow> py_error + 'x obj"
  env_word :: "'x obj \<Rightarrow> u32"
  env_heap :: "nat \<Rightarrow> bool"
  env_stays :: "nat \<Rightarrow> bool"

definition obj_word :: "'x py_env \<Rightarrow> 'x obj \<Rightarrow> u32" where
  "obj_word env x = (case x of O_Int (Small ob) \<Rightarrow> ob | _ \<Rightarrow> env_word env x)"

definition checked_int :: "int_obj \<Rightarrow> py_error + int option" where
  "checked_int z = (case mp_obj_int_get_checked z of Inl _ \<Rightarrow> Inl (Exc mp_error.OverflowError) | Inr w \<Rightarrow> Inr (Some (sint w)))"

definition mp_obj_get_int_maybe :: "'x py_env \<Rightarrow> 'x obj \<Rightarrow> py_error + int option" where
  "mp_obj_get_int_maybe env arg =
     (case arg of
        O_Bool False \<Rightarrow> Inr (Some 0)
      | O_Bool True \<Rightarrow> Inr (Some 1)
      | O_Int z \<Rightarrow> checked_int z
      | O_Other x \<Rightarrow> bnd (env_int_maybe env x) (\<lambda>r. case r of Some z \<Rightarrow> checked_int z | None \<Rightarrow> Inr None)
      | _ \<Rightarrow> Inr None)"

definition mp_obj_get_int :: "'x py_env \<Rightarrow> 'x obj \<Rightarrow> py_error + int" where
  "mp_obj_get_int env arg =
     bnd (mp_obj_get_int_maybe env arg) (\<lambda>r. case r of None \<Rightarrow> Inl (Exc mp_error.TypeError) | Some v \<Rightarrow> Inr v)"

definition mp_get_index :: "'x py_env \<Rightarrow> nat \<Rightarrow> 'x obj \<Rightarrow> bool \<Rightarrow> py_error + nat" where
  "mp_get_index env len index is_slice =
     bnd (mp_obj_get_int_maybe env index)
       (\<lambda>r. case r of
          None \<Rightarrow> Inl (Exc mp_error.TypeError)
        | Some i \<Rightarrow>
            let i = (if i < 0 then i + int len else i)
            in if is_slice then Inr (if i < 0 then 0 else if int len < i then len else nat i)
               else if i < 0 \<or> int len \<le> i then Inl (Exc IndexError) else Inr (nat i))"

section \<open>Slices\<close>

text \<open>\<^verbatim>\<open>mp_bound_slice_t\<close>.\<close>

record bound_slice =
  sl_start :: int
  sl_stop :: int
  sl_step :: int

text \<open>A bound of a slice: a default for \<^verbatim>\<open>None\<close>, otherwise an index that is clipped to \<open>lo .. hi\<close>.\<close>

definition slice_bound :: "'x py_env \<Rightarrow> int \<Rightarrow> int \<Rightarrow> int \<Rightarrow> int \<Rightarrow> 'x obj \<Rightarrow> py_error + int" where
  "slice_bound env len dflt lo hi ob =
     (if ob = O_None then Inr dflt
      else bnd (mp_obj_get_int env ob)
             (\<lambda>i. Inr (min hi (max (if i < 0 then i + len else i) lo))))"

definition slice_step :: "'x py_env \<Rightarrow> 'x obj \<Rightarrow> py_error + int" where
  "slice_step env ob =
     (if ob = O_None then Inr 1
      else bnd (mp_obj_get_int env ob)
             (\<lambda>s. if s = 0 then Inl (Exc mp_error.ValueError) else Inr s))"

definition mp_obj_slice_indices ::
    "'x py_env \<Rightarrow> 'x obj \<Rightarrow> 'x obj \<Rightarrow> 'x obj \<Rightarrow> int \<Rightarrow> py_error + bound_slice" where
  "mp_obj_slice_indices env ostart ostop ostep len =
     bnd (slice_step env ostep) (\<lambda>step.
       if 0 < step then
         bnd (slice_bound env len 0 0 len ostart) (\<lambda>start.
         bnd (slice_bound env len len 0 len ostop) (\<lambda>stop.
           Inr \<lparr>sl_start = start, sl_stop = stop, sl_step = step\<rparr>))
       else
         bnd (slice_bound env len (len - 1) (- 1) (len - 1) ostart) (\<lambda>start.
         bnd (slice_bound env len (- 1) (- 1) (len - 1) ostop) (\<lambda>stop.
           Inr \<lparr>sl_start = start, sl_stop = stop, sl_step = step\<rparr>)))"

text \<open>The bounds and whether the slice is a plain range, which is a slice of step 1.\<close>

definition mp_seq_get_fast_slice_indexes ::
    "'x py_env \<Rightarrow> nat \<Rightarrow> 'x obj \<Rightarrow> 'x obj \<Rightarrow> 'x obj \<Rightarrow> py_error + bool \<times> bound_slice" where
  "mp_seq_get_fast_slice_indexes env len ostart ostop ostep =
     bnd (mp_obj_slice_indices env ostart ostop ostep (int len)) (\<lambda>ix.
       let ix = (if sl_step ix < 0 then ix\<lparr>sl_stop := sl_stop ix + 1\<rparr> else ix);
           ix = (if 0 < sl_step ix \<and> sl_stop ix < sl_start ix then ix\<lparr>sl_stop := sl_start ix\<rparr>
                 else if sl_step ix < 0 \<and> sl_start ix < sl_stop ix then ix\<lparr>sl_stop := sl_start ix + 1\<rparr>
                 else ix)
       in Inr (sl_step ix = 1, ix))"

section \<open>Comparison and search\<close>

text \<open>
  The loop of \<^verbatim>\<open>mp_seq_cmp_objs\<close> over the \<open>n\<close> items from index \<open>i\<close>: \<open>None\<close> when all are equal.
\<close>

fun seq_cmp_loop ::
    "'x py_env \<Rightarrow> binary_op \<Rightarrow> 'x obj cell list \<Rightarrow> 'x obj cell list \<Rightarrow> nat \<Rightarrow> nat \<Rightarrow> py_error + bool option" where
  "seq_cmp_loop env op items1 items2 i 0 = Inr None"
| "seq_cmp_loop env op items1 items2 i (Suc n) =
     bnd (rd_obj items1 i) (\<lambda>x. bnd (rd_obj items2 i) (\<lambda>y.
       bnd (env_equal env x y) (\<lambda>eq.
         if eq then seq_cmp_loop env op items1 items2 (i + 1) n
         else if op = OP_EQUAL then Inr (Some False)
         else bnd (env_binary env op x y) (\<lambda>r. Inr (Some (r = O_Bool True))))))"

text \<open>The answer when no pair decides.\<close>

definition seq_cmp_tie :: "binary_op \<Rightarrow> nat \<Rightarrow> nat \<Rightarrow> bool" where
  "seq_cmp_tie op len1 len2 = (if len1 \<noteq> len2 then \<not> len1 < len2 else op \<noteq> OP_MORE)"

definition mp_seq_cmp_objs ::
    "'x py_env \<Rightarrow> binary_op \<Rightarrow> 'x obj cell list \<Rightarrow> nat \<Rightarrow> 'x obj cell list \<Rightarrow> nat \<Rightarrow> py_error + bool" where
  "mp_seq_cmp_objs env op items1 len1 items2 len2 =
     (if op = OP_EQUAL \<and> len1 \<noteq> len2 then Inr False
      else
        let swap = (op = OP_LESS \<or> op = OP_LESS_EQUAL);
            (items1, len1, items2, len2) = (if swap then (items2, len2, items1, len1) else (items1, len1, items2, len2));
            op = (if op = OP_LESS then OP_MORE else if op = OP_LESS_EQUAL then OP_MORE_EQUAL else op)
        in bnd (seq_cmp_loop env op items1 items2 0 (if len1 < len2 then len1 else len2)) (\<lambda>r.
             case r of
               Some b \<Rightarrow> Inr b
             | None \<Rightarrow> Inr (seq_cmp_tie op len1 len2)))"

fun seq_index_loop :: "'x py_env \<Rightarrow> 'x obj cell list \<Rightarrow> 'x obj \<Rightarrow> nat \<Rightarrow> nat \<Rightarrow> py_error + nat" where
  "seq_index_loop env items x i 0 = Inl (Exc mp_error.ValueError)"
| "seq_index_loop env items x i (Suc n) =
     bnd (rd_obj items i) (\<lambda>y. bnd (env_equal env y x) (\<lambda>eq.
       if eq then Inr i else seq_index_loop env items x (i + 1) n))"

text \<open>\<open>mp_seq_index_obj\<close> with the optional arguments \<open>start\<close> and \<open>stop\<close>.\<close>

definition optional_index :: "'x py_env \<Rightarrow> nat \<Rightarrow> nat \<Rightarrow> 'x obj option \<Rightarrow> py_error + nat" where
  "optional_index env len dflt arg = (case arg of None \<Rightarrow> Inr dflt | Some ix \<Rightarrow> mp_get_index env len ix True)"

definition small_int_obj :: "nat \<Rightarrow> 'x obj" where
  "small_int_obj n = O_Int (Small (MP_OBJ_NEW_SMALL_INT (of_nat n)))"

definition mp_seq_index_obj ::
    "'x py_env \<Rightarrow> 'x obj cell list \<Rightarrow> nat \<Rightarrow> 'x obj \<Rightarrow> 'x obj option \<Rightarrow> 'x obj option \<Rightarrow> py_error + 'x obj" where
  "mp_seq_index_obj env items len x arg_start arg_stop =
     bnd (optional_index env len 0 arg_start) (\<lambda>first.
     bnd (optional_index env len len arg_stop) (\<lambda>last.
     bnd (seq_index_loop env items x first (last - first)) (\<lambda>i. Inr (small_int_obj i))))"

fun seq_count_loop :: "'x py_env \<Rightarrow> 'x obj cell list \<Rightarrow> 'x obj \<Rightarrow> nat \<Rightarrow> nat \<Rightarrow> nat \<Rightarrow> py_error + nat" where
  "seq_count_loop env items x i count 0 = Inr count"
| "seq_count_loop env items x i count (Suc n) =
     bnd (rd_obj items i) (\<lambda>y. bnd (env_equal env y x) (\<lambda>eq.
       seq_count_loop env items x (i + 1) (if eq then count + 1 else count) n))"

definition mp_seq_count_obj :: "'x py_env \<Rightarrow> 'x obj cell list \<Rightarrow> nat \<Rightarrow> 'x obj \<Rightarrow> py_error + 'x obj" where
  "mp_seq_count_obj env items len x = bnd (seq_count_loop env items x 0 0 len) (\<lambda>n. Inr (small_int_obj n))"

section \<open>Block operations\<close>

fun seq_multiply_loop :: "'a list \<Rightarrow> nat \<Rightarrow> nat \<Rightarrow> 'a list \<Rightarrow> nat \<Rightarrow> py_error + 'a list" where
  "seq_multiply_loop items len 0 dest pos = Inr dest"
| "seq_multiply_loop items len (Suc n) dest pos =
     bnd (rd_block items 0 len) (\<lambda>block. bnd (wr_block dest pos block) (\<lambda>dest.
       seq_multiply_loop items len n dest (pos + len)))"

definition mp_seq_multiply :: "'a list \<Rightarrow> nat \<Rightarrow> nat \<Rightarrow> 'a list \<Rightarrow> py_error + 'a list" where
  "mp_seq_multiply items len n dest = seq_multiply_loop items len n dest 0"

definition mp_seq_cat :: "'a list \<Rightarrow> 'a list \<Rightarrow> nat \<Rightarrow> 'a list \<Rightarrow> nat \<Rightarrow> py_error + 'a list" where
  "mp_seq_cat dest src1 len1 src2 len2 =
     bnd (rd_block src1 0 len1) (\<lambda>b1. bnd (wr_block dest 0 b1) (\<lambda>dest.
     bnd (rd_block src2 0 len2) (\<lambda>b2. wr_block dest len1 b2)))"

text \<open>
  The replacement of the items from \<open>beg\<close> to \<open>fin\<close> by a block, in place. The source of the block
  is read from the buffer as it is at that moment, since it may lie in the buffer itself.
\<close>

definition mp_seq_replace_slice_no_grow ::
    "'a list \<Rightarrow> nat \<Rightarrow> nat \<Rightarrow> nat \<Rightarrow> ('a list \<Rightarrow> py_error + 'a list) \<Rightarrow> nat \<Rightarrow> py_error + 'a list" where
  "mp_seq_replace_slice_no_grow dest dest_len beg fin src slice_len =
     bnd (src dest) (\<lambda>slice. bnd (wr_block dest beg slice) (\<lambda>dest.
     bnd (rd_block dest fin (dest_len - fin)) (\<lambda>rest. wr_block dest (beg + slice_len) rest)))"

definition mp_seq_replace_slice_grow_inplace ::
    "'a list \<Rightarrow> nat \<Rightarrow> nat \<Rightarrow> nat \<Rightarrow> ('a list \<Rightarrow> py_error + 'a list) \<Rightarrow> nat \<Rightarrow> nat \<Rightarrow> py_error + 'a list" where
  "mp_seq_replace_slice_grow_inplace dest dest_len beg fin src slice_len len_adj =
     bnd (rd_block dest fin (dest_len + len_adj - (beg + slice_len))) (\<lambda>rest.
     bnd (wr_block dest (beg + slice_len) rest) (\<lambda>dest.
     bnd (src dest) (\<lambda>slice. wr_block dest beg slice)))"

end
