(* ===== verification/List_Sort.thy ===== *)
theory List_Sort
  imports Py_Seq "HOL-Library.Multiset" "HOL-Library.Log_Nat"
begin

text \<open>
  \<^verbatim>\<open>mp_quicksort\<close> of \<^verbatim>\<open>py/objlist.c\<close> on an array. \<open>key\<close> gives the key of an element and
  \<open>stay a b\<close> is the comparison \<^verbatim>\<open>mp_binary_op(MP_BINARY_OP_LESS, a, b) == binop_less_result\<close>; both
  may raise. A pointer into the array is its index. The array that an error leaves is returned with
  the error, since the list keeps it.
\<close>

definition stay_up :: "('a \<Rightarrow> py_error + 'k) \<Rightarrow> ('k \<Rightarrow> 'k \<Rightarrow> py_error + bool) \<Rightarrow> 'k \<Rightarrow> 'a \<Rightarrow> py_error + bool" where
  "stay_up key stay v x = bnd (key x) (\<lambda>k. stay k v)"

definition stay_down :: "('a \<Rightarrow> py_error + 'k) \<Rightarrow> ('k \<Rightarrow> 'k \<Rightarrow> py_error + bool) \<Rightarrow> 'k \<Rightarrow> 'a \<Rightarrow> py_error + bool" where
  "stay_down key stay v x = bnd (key x) (\<lambda>k. stay v k)"

text \<open>
  The loop \<^verbatim>\<open>do {++h;} while (h < t && ...)\<close> after its first increment, and the loop
  \<^verbatim>\<open>do {--t;} while (h < t && ...)\<close> after its first decrement.
\<close>

function scan_up :: "('a \<Rightarrow> py_error + bool) \<Rightarrow> 'a list \<Rightarrow> nat \<Rightarrow> nat \<Rightarrow> py_error + nat" where
  "scan_up p xs h t =
     (if h < t then bnd (bnd (rd xs h) p) (\<lambda>c. if c then scan_up p xs (h + 1) t else Inr h) else Inr h)"
  by pat_completeness auto
termination by (relation "measure (\<lambda>(p, xs, h, t). t - h)") auto

function scan_down :: "('a \<Rightarrow> py_error + bool) \<Rightarrow> 'a list \<Rightarrow> nat \<Rightarrow> nat \<Rightarrow> py_error + nat" where
  "scan_down p xs h t =
     (if h < t then bnd (bnd (rd xs t) p) (\<lambda>c. if c then scan_down p xs h (t - 1) else Inr t) else Inr t)"
  by pat_completeness auto
termination by (relation "measure (\<lambda>(p, xs, h, t). t - h)") auto

declare scan_up.simps [simp del] scan_down.simps [simp del]

definition swap_cells :: "'a list \<Rightarrow> nat \<Rightarrow> nat \<Rightarrow> py_error + 'a list" where
  "swap_cells xs i j =
     bnd (rd xs i) (\<lambda>x. bnd (rd xs j) (\<lambda>y. bnd (wr xs i y) (\<lambda>ys. wr ys j x)))"

lemma scan_up_le: "scan_up p xs h t = Inr h' \<Longrightarrow> h \<le> h' \<and> (h \<le> t \<longrightarrow> h' \<le> t)"
proof (induction p xs h t rule: scan_up.induct)
  case (1 p xs h t)
  show ?case
  proof (cases "h < t")
    case True
    then obtain c where c: "bnd (rd xs h) p = Inr c" "(if c then scan_up p xs (h + 1) t else Inr h) = Inr h'"
      using 1(2) by (subst (asm) scan_up.simps) (auto simp: bnd_Inr)
    show ?thesis
      using c 1(1) [OF True, of c] True by (cases c) auto
  next
    case False
    then show ?thesis
      using 1(2) by (subst (asm) scan_up.simps) auto
  qed
qed

lemma scan_down_le: "scan_down p xs h t = Inr t' \<Longrightarrow> t' \<le> t \<and> (h \<le> t \<longrightarrow> h \<le> t') \<and> (t \<le> h \<longrightarrow> t' = t)"
proof (induction p xs h t rule: scan_down.induct)
  case (1 p xs h t)
  show ?case
  proof (cases "h < t")
    case True
    then obtain c where c: "bnd (rd xs t) p = Inr c" "(if c then scan_down p xs h (t - 1) else Inr t) = Inr t'"
      using 1(2) by (subst (asm) scan_down.simps) (auto simp: bnd_Inr)
    show ?thesis
      using c 1(1) [OF True, of c] True by (cases c) auto
  next
    case False
    then show ?thesis
      using 1(2) by (subst (asm) scan_down.simps) auto
  qed
qed

text \<open>
  The loop \<^verbatim>\<open>for (;;)\<close>: \<open>h\<close> is the next index that the upward scan looks at, \<open>t\<close> the last one of
  the downward scan. The result is the array with the final indices.
\<close>

function partition_loop ::
    "('a \<Rightarrow> py_error + bool) \<Rightarrow> ('a \<Rightarrow> py_error + bool) \<Rightarrow> 'a list \<Rightarrow> nat \<Rightarrow> nat \<Rightarrow> 'a list \<times> (py_error + nat \<times> nat)" where
  "partition_loop up down xs h t =
     (case scan_up up xs h t of
        Inl e \<Rightarrow> (xs, Inl e)
      | Inr h' \<Rightarrow>
          (case scan_down down xs h' (t - 1) of
             Inl e \<Rightarrow> (xs, Inl e)
           | Inr t' \<Rightarrow>
               if t' \<le> h' then (xs, Inr (h', t'))
               else (case swap_cells xs h' t' of
                       Inl e \<Rightarrow> (xs, Inl e)
                     | Inr ys \<Rightarrow> partition_loop up down ys (h' + 1) t')))"
  by pat_completeness auto
termination
  by (relation "measure (\<lambda>(u, d, xs, h, t). t - h)") (auto dest!: scan_up_le scan_down_le)

declare partition_loop.simps [simp del]

lemma partition_loop_bounds:
  "partition_loop up down xs h t = (ys, Inr (h', t')) \<Longrightarrow> 0 < t \<Longrightarrow> h \<le> t \<Longrightarrow>
   h \<le> h' \<and> h' \<le> t \<and> t' < t \<and> t' \<le> h' \<and> h' \<le> t' + 1 \<and> (h < t \<longrightarrow> h \<le> t')"
proof (induction up down xs h t rule: partition_loop.induct)
  case (1 up down xs h t)
  obtain h1 where h1: "scan_up up xs h t = Inr h1"
    using 1(2) by (subst (asm) partition_loop.simps) (auto split: sum.splits)
  obtain t1 where t1: "scan_down down xs h1 (t - 1) = Inr t1"
    using 1(2) h1 by (subst (asm) partition_loop.simps) (auto split: sum.splits)
  note b = scan_up_le [OF h1] scan_down_le [OF t1]
  show ?case
  proof (cases "t1 \<le> h1")
    case True
    then have e: "h' = h1" "t' = t1"
      using 1(2) h1 t1 by (subst (asm) partition_loop.simps, simp)+
    show ?thesis
      using b True 1(3,4) e by linarith
  next
    case False
    then obtain zs where zs: "swap_cells xs h1 t1 = Inr zs" "partition_loop up down zs (h1 + 1) t1 = (ys, Inr (h', t'))"
      using 1(2) h1 t1 by (subst (asm) partition_loop.simps) (auto split: sum.splits)
    have "h1 + 1 \<le> h' \<and> h' \<le> t1 \<and> t' < t1 \<and> t' \<le> h' \<and> h' \<le> t' + 1 \<and> (h1 + 1 < t1 \<longrightarrow> h1 + 1 \<le> t')"
      using 1(1) [OF h1 t1 False zs(1) zs(2)] False by linarith
    then show ?thesis
      using b 1(3,4) False by linarith
  qed
qed

text \<open>
  The loop \<^verbatim>\<open>while (head < tail)\<close>. \<open>frames\<close> is the number of calls of \<^verbatim>\<open>mp_quicksort\<close> that
  \<^verbatim>\<open>mp_cstack_check\<close> still lets pass; a call of it is the check, then the loop.
\<close>

function quicksort_loop ::
    "('a \<Rightarrow> py_error + 'k) \<Rightarrow> ('k \<Rightarrow> 'k \<Rightarrow> py_error + bool) \<Rightarrow> nat \<Rightarrow> 'a list \<Rightarrow> nat \<Rightarrow> nat \<Rightarrow> 'a list \<times> py_error option" where
  "quicksort_loop key stay frames xs head tail =
     (if head < tail then
        case bnd (rd xs tail) key of
          Inl e \<Rightarrow> (xs, Some e)
        | Inr v \<Rightarrow>
            (case partition_loop (stay_up key stay v) (stay_down key stay v) xs head tail of
               (ys, Inl e) \<Rightarrow> (ys, Some e)
             | (ys, Inr (h, t)) \<Rightarrow>
                 (case swap_cells ys h tail of
                    Inl e \<Rightarrow> (ys, Some e)
                  | Inr zs \<Rightarrow>
                      if int t - int head < int tail - int h - 1 then
                        (case (if frames = 0 then (zs, Some RecursionDepth)
                               else quicksort_loop key stay (frames - 1) zs head t) of
                           (ws, Some e) \<Rightarrow> (ws, Some e)
                         | (ws, None) \<Rightarrow> quicksort_loop key stay frames ws (h + 1) tail)
                      else
                        (case (if frames = 0 then (zs, Some RecursionDepth)
                               else quicksort_loop key stay (frames - 1) zs (h + 1) tail) of
                           (ws, Some e) \<Rightarrow> (ws, Some e)
                         | (ws, None) \<Rightarrow> quicksort_loop key stay frames ws head t)))
      else (xs, None))"
  by pat_completeness auto
termination
  by (relation "measure (\<lambda>(k, s, n, xs, head, tail). tail + 1 - head)") (auto dest!: partition_loop_bounds [OF sym])

declare quicksort_loop.simps [simp del]

definition mp_quicksort ::
    "('a \<Rightarrow> py_error + 'k) \<Rightarrow> ('k \<Rightarrow> 'k \<Rightarrow> py_error + bool) \<Rightarrow> nat \<Rightarrow> 'a list \<Rightarrow> nat \<Rightarrow> nat \<Rightarrow> 'a list \<times> py_error option" where
  "mp_quicksort key stay frames xs head tail =
     (if frames = 0 then (xs, Some RecursionDepth) else quicksort_loop key stay (frames - 1) xs head tail)"

end
