(* ===== verification/Py_List.thy ===== *)
theory Py_List
  imports List_Sort
begin

text \<open>
  The list type of \<^verbatim>\<open>py/objlist.c\<close>. A list is its buffer of cells, the number \<open>l_alloc\<close> of cells that
  it believes to have, and the number \<open>l_len\<close> of cells in use. An operation that changes the list
  returns the list and either its result or the error, since a list keeps what was done to it
  before an exception. Sizes are computed in \<^verbatim>\<open>size_t\<close>: the wrap-around is written where a size can
  be as large as the caller likes (\<^verbatim>\<open>m_new\<close>, \<^verbatim>\<open>m_renew\<close> and \<^verbatim>\<open>list * n\<close>); the other sums are of lengths of
  buffers that exist, which are below \<open>2 ^ 30\<close> words.
\<close>

record 'a mp_list =
  l_alloc :: nat
  l_len :: nat
  l_items :: "'a cell list"

definition LIST_MIN_ALLOC :: nat where "LIST_MIN_ALLOC = 4"

section \<open>Memory\<close>

text \<open>\<^verbatim>\<open>m_new(mp_obj_t, n)\<close> and \<^verbatim>\<open>m_renew(mp_obj_t, items, _, n)\<close>.\<close>

definition items_bytes :: "nat \<Rightarrow> nat" where
  "items_bytes n = 4 * n mod 2 ^ 32"

definition m_new_items :: "'x py_env \<Rightarrow> nat \<Rightarrow> py_error + 'a cell list" where
  "m_new_items env n =
     (if items_bytes n = 0 \<or> env_heap env (items_bytes n) then Inr (replicate (items_bytes n div 4) Junk)
      else Inl (Exc MemoryError))"

definition m_renew_items :: "'x py_env \<Rightarrow> 'a cell list \<Rightarrow> nat \<Rightarrow> py_error + 'a cell list" where
  "m_renew_items env items n =
     (if items_bytes n = 0 \<or> env_heap env (items_bytes n)
      then Inr (take (items_bytes n div 4) items @ replicate (items_bytes n div 4 - length items) Junk)
      else Inl (Exc MemoryError))"

definition mp_obj_list_init :: "'x py_env \<Rightarrow> nat \<Rightarrow> py_error + 'a mp_list" where
  "mp_obj_list_init env n =
     (let alloc = (if n < LIST_MIN_ALLOC then LIST_MIN_ALLOC else n)
      in bnd (m_new_items env alloc) (\<lambda>items. bnd (mp_seq_clear items n alloc) (\<lambda>items.
           Inr \<lparr>l_alloc = alloc, l_len = n, l_items = items\<rparr>)))"

text \<open>The header of a list is a block of four words.\<close>

definition list_new :: "'x py_env \<Rightarrow> nat \<Rightarrow> py_error + 'a mp_list" where
  "list_new env n = (if env_heap env 16 then mp_obj_list_init env n else Inl (Exc MemoryError))"

fun copy_items :: "'a cell list \<Rightarrow> nat \<Rightarrow> nat \<Rightarrow> 'a cell list \<Rightarrow> py_error + 'a cell list" where
  "copy_items src i 0 dest = Inr dest"
| "copy_items src i (Suc n) dest = bnd (rd src i) (\<lambda>c. bnd (wr dest i c) (copy_items src (i + 1) n))"

definition mp_obj_new_list :: "'x py_env \<Rightarrow> nat \<Rightarrow> 'a cell list option \<Rightarrow> py_error + 'a mp_list" where
  "mp_obj_new_list env n items =
     bnd (list_new env n) (\<lambda>ob.
       case items of
         None \<Rightarrow> Inr ob
       | Some src \<Rightarrow> bnd (copy_items src 0 n (l_items ob)) (\<lambda>cs. Inr (ob\<lparr>l_items := cs\<rparr>)))"

definition mp_obj_list_get :: "'a mp_list \<Rightarrow> nat \<times> 'a cell list" where
  "mp_obj_list_get self = (l_len self, l_items self)"

definition mp_obj_list_set_len :: "'a mp_list \<Rightarrow> nat \<Rightarrow> 'a mp_list" where
  "mp_obj_list_set_len self n = self\<lparr>l_len := n\<rparr>"

section \<open>Growing and shrinking\<close>

text \<open>The list stays as it was when the step that computes its new contents raises.\<close>

definition commit :: "'s \<Rightarrow> py_error + 's \<times> 'r \<Rightarrow> 's \<times> (py_error + 'r)" where
  "commit s m = (case m of Inl e \<Rightarrow> (s, Inl e) | Inr (s', r) \<Rightarrow> (s', Inr r))"

definition mp_obj_list_append :: "'x py_env \<Rightarrow> 'a mp_list \<Rightarrow> 'a \<Rightarrow> 'a mp_list \<times> (py_error + unit)" where
  "mp_obj_list_append env self arg =
     commit self
       (bnd (if l_alloc self \<le> l_len self
             then bnd (m_renew_items env (l_items self) (l_alloc self * 2)) (\<lambda>items.
                  bnd (mp_seq_clear items (l_len self + 1) (l_alloc self * 2)) (\<lambda>items.
                    Inr (self\<lparr>l_items := items, l_alloc := l_alloc self * 2\<rparr>)))
             else Inr self) (\<lambda>self.
        bnd (wr (l_items self) (l_len self) (Val arg)) (\<lambda>items.
          Inr (self\<lparr>l_items := items, l_len := l_len self + 1\<rparr>, ()))))"

text \<open>
  An argument that is a sequence: the list itself, another list, a tuple, or another iterable,
  which yields some objects and then stops or raises.
\<close>

datatype 'a seq_arg = Arg_Self | Arg_List "'a mp_list" | Arg_Tuple "'a list" | Arg_Iter "'a list" "py_error option"

fun list_extend_from_iter ::
    "'x py_env \<Rightarrow> 'a mp_list \<Rightarrow> 'a list \<Rightarrow> py_error option \<Rightarrow> 'a mp_list \<times> (py_error + unit)" where
  "list_extend_from_iter env self [] e = (self, case e of None \<Rightarrow> Inr () | Some e \<Rightarrow> Inl e)"
| "list_extend_from_iter env self (x # xs) e =
     (case mp_obj_list_append env self x of
        (self, Inl e) \<Rightarrow> (self, Inl e)
      | (self, Inr _) \<Rightarrow> list_extend_from_iter env self xs e)"

definition list_extend_list ::
    "'x py_env \<Rightarrow> 'a mp_list \<Rightarrow> nat \<Rightarrow> ('a cell list \<Rightarrow> 'a cell list) \<Rightarrow> 'a mp_list \<times> (py_error + unit)" where
  "list_extend_list env self arg_len arg_items =
     commit self
       (bnd (if l_alloc self < l_len self + arg_len
             then bnd (m_renew_items env (l_items self) (l_len self + arg_len + 4)) (\<lambda>items.
                  bnd (mp_seq_clear items (l_len self + arg_len) (l_len self + arg_len + 4)) (\<lambda>items.
                    Inr (self\<lparr>l_items := items, l_alloc := l_len self + arg_len + 4\<rparr>)))
             else Inr self) (\<lambda>self.
        bnd (rd_block (arg_items (l_items self)) 0 arg_len) (\<lambda>block.
        bnd (wr_block (l_items self) (l_len self) block) (\<lambda>items.
          Inr (self\<lparr>l_items := items, l_len := l_len self + arg_len\<rparr>, ())))))"

definition list_extend :: "'x py_env \<Rightarrow> 'a mp_list \<Rightarrow> 'a seq_arg \<Rightarrow> 'a mp_list \<times> (py_error + unit)" where
  "list_extend env self arg =
     (case arg of
        Arg_Self \<Rightarrow> list_extend_list env self (l_len self) (\<lambda>own. own)
      | Arg_List l \<Rightarrow> list_extend_list env self (l_len l) (\<lambda>own. l_items l)
      | Arg_Tuple xs \<Rightarrow> list_extend_from_iter env self xs None
      | Arg_Iter xs e \<Rightarrow> list_extend_from_iter env self xs e)"

text \<open>\<^verbatim>\<open>list()\<close> and \<^verbatim>\<open>list(iterable)\<close>.\<close>

definition mp_obj_list_make_new :: "'x py_env \<Rightarrow> ('a list \<times> py_error option) option \<Rightarrow> py_error + 'a mp_list" where
  "mp_obj_list_make_new env arg =
     bnd (mp_obj_new_list env 0 None) (\<lambda>ob.
       case arg of
         None \<Rightarrow> Inr ob
       | Some (xs, e) \<Rightarrow> (case list_extend_from_iter env ob xs e of (ob, Inl e) \<Rightarrow> Inl e | (ob, Inr _) \<Rightarrow> Inr ob))"

definition list_pop :: "'x py_env \<Rightarrow> 'x obj mp_list \<Rightarrow> 'x obj option \<Rightarrow> 'x obj mp_list \<times> (py_error + 'x obj)" where
  "list_pop env self arg =
     (if l_len self = 0 then (self, Inl (Exc IndexError))
      else
        case bnd (mp_get_index env (l_len self)
                    (case arg of None \<Rightarrow> O_Int (Small (MP_OBJ_NEW_SMALL_INT (- 1))) | Some ix \<Rightarrow> ix) False) (\<lambda>index.
             bnd (rd_obj (l_items self) index) (\<lambda>ret.
             bnd (rd_block (l_items self) (index + 1) (l_len self - 1 - index)) (\<lambda>rest.
             bnd (wr_block (l_items self) index rest) (\<lambda>items.
             bnd (wr items (l_len self - 1) Null) (\<lambda>items. Inr (items, ret)))))) of
          Inl e \<Rightarrow> (self, Inl e)
        | Inr (items, ret) \<Rightarrow>
            let self = self\<lparr>l_items := items, l_len := l_len self - 1\<rparr>
            in if LIST_MIN_ALLOC < l_alloc self \<and> 2 * l_len self < l_alloc self
               then commit self
                      (bnd (m_renew_items env (l_items self) (l_alloc self div 2)) (\<lambda>items.
                         Inr (self\<lparr>l_items := items, l_alloc := l_alloc self div 2\<rparr>, ret)))
               else (self, Inr ret))"

definition list_clear :: "'x py_env \<Rightarrow> 'a mp_list \<Rightarrow> 'a mp_list \<times> (py_error + unit)" where
  "list_clear env self =
     (let self = self\<lparr>l_len := 0\<rparr>
      in commit self
           (bnd (m_renew_items env (l_items self) LIST_MIN_ALLOC) (\<lambda>items.
            bnd (mp_seq_clear items 0 LIST_MIN_ALLOC) (\<lambda>items.
              Inr (self\<lparr>l_items := items, l_alloc := LIST_MIN_ALLOC\<rparr>, ())))))"

text \<open>
  The index of \<^verbatim>\<open>insert\<close> is the word of the object shifted by one, whatever the object is.
\<close>

fun insert_shift :: "'a list \<Rightarrow> nat \<Rightarrow> nat \<Rightarrow> py_error + 'a list" where
  "insert_shift items index 0 = Inr items"
| "insert_shift items index (Suc i) =
     (if index < Suc i
      then bnd (rd items i) (\<lambda>c. bnd (wr items (Suc i) c) (\<lambda>items. insert_shift items index i))
      else Inr items)"

definition list_insert ::
    "'x py_env \<Rightarrow> 'x obj mp_list \<Rightarrow> 'x obj \<Rightarrow> 'x obj \<Rightarrow> 'x obj mp_list \<times> (py_error + unit)" where
  "list_insert env self idx ob =
     (let index = sint (MP_OBJ_SMALL_INT_VALUE (obj_word env idx));
          index = (if index < 0 then index + int (l_len self) else index);
          index = (if index < 0 then 0 else index);
          index = (if int (l_len self) < index then l_len self else nat index)
      in case mp_obj_list_append env self O_None of
           (self, Inl e) \<Rightarrow> (self, Inl e)
         | (self, Inr _) \<Rightarrow>
             commit self
               (bnd (insert_shift (l_items self) index (l_len self - 1)) (\<lambda>items.
                bnd (wr items index (Val ob)) (\<lambda>items. Inr (self\<lparr>l_items := items\<rparr>, ())))))"

section \<open>Search and order\<close>

definition list_index ::
    "'x py_env \<Rightarrow> 'x obj mp_list \<Rightarrow> 'x obj \<Rightarrow> 'x obj option \<Rightarrow> 'x obj option \<Rightarrow> py_error + 'x obj" where
  "list_index env self x arg_start arg_stop = mp_seq_index_obj env (l_items self) (l_len self) x arg_start arg_stop"

definition list_count :: "'x py_env \<Rightarrow> 'x obj mp_list \<Rightarrow> 'x obj \<Rightarrow> py_error + 'x obj" where
  "list_count env self x = mp_seq_count_obj env (l_items self) (l_len self) x"

definition mp_obj_list_remove :: "'x py_env \<Rightarrow> 'x obj mp_list \<Rightarrow> 'x obj \<Rightarrow> 'x obj mp_list \<times> (py_error + unit)" where
  "mp_obj_list_remove env self x =
     (case list_index env self x None None of
        Inl e \<Rightarrow> (self, Inl e)
      | Inr ix \<Rightarrow> (case list_pop env self (Some ix) of (self, r) \<Rightarrow> (self, bnd r (\<lambda>_. Inr ()))))"

fun reverse_loop :: "'a list \<Rightarrow> nat \<Rightarrow> nat \<Rightarrow> nat \<Rightarrow> py_error + 'a list" where
  "reverse_loop items len i 0 = Inr items"
| "reverse_loop items len i (Suc n) =
     bnd (swap_cells items i (len - i - 1)) (\<lambda>items. reverse_loop items len (i + 1) n)"

definition list_reverse :: "'a mp_list \<Rightarrow> 'a mp_list \<times> (py_error + unit)" where
  "list_reverse self =
     commit self (bnd (reverse_loop (l_items self) (l_len self) 0 (l_len self div 2)) (\<lambda>items.
       Inr (self\<lparr>l_items := items\<rparr>, ())))"

definition list_copy :: "'x py_env \<Rightarrow> 'a mp_list \<Rightarrow> py_error + 'a mp_list" where
  "list_copy env self = mp_obj_new_list env (l_len self) (Some (l_items self))"

text \<open>The key of an item and the comparison that the sort makes.\<close>

definition sort_key :: "'x py_env \<Rightarrow> 'x obj option \<Rightarrow> 'x obj cell \<Rightarrow> py_error + 'x obj" where
  "sort_key env key_fn c =
     (case c of
        Val x \<Rightarrow> (case key_fn of None \<Rightarrow> Inr x | Some f \<Rightarrow> env_call env f x)
      | _ \<Rightarrow> Inl Fault)"

definition sort_stay :: "'x py_env \<Rightarrow> 'x obj \<Rightarrow> 'x obj \<Rightarrow> 'x obj \<Rightarrow> py_error + bool" where
  "sort_stay env binop_less_result a b = bnd (env_binary env OP_LESS a b) (\<lambda>r. Inr (r = binop_less_result))"

definition mp_obj_list_sort ::
    "'x py_env \<Rightarrow> nat \<Rightarrow> 'x obj mp_list \<Rightarrow> 'x obj option \<Rightarrow> bool \<Rightarrow> 'x obj mp_list \<times> (py_error + unit)" where
  "mp_obj_list_sort env frames self key reverse =
     (if 1 < l_len self then
        case mp_quicksort (sort_key env key) (sort_stay env (if reverse then O_Bool False else O_Bool True)) frames
               (l_items self) 0 (l_len self - 1) of
          (items, r) \<Rightarrow> (self\<lparr>l_items := items\<rparr>, case r of None \<Rightarrow> Inr () | Some e \<Rightarrow> Inl e)
      else (self, Inr ()))"

section \<open>Operators\<close>

datatype list_unop = LU_BOOL | LU_LEN | LU_OTHER

definition list_unary_op :: "list_unop \<Rightarrow> 'x obj mp_list \<Rightarrow> 'x obj option" where
  "list_unary_op op self =
     (case op of
        LU_BOOL \<Rightarrow> Some (O_Bool (l_len self \<noteq> 0))
      | LU_LEN \<Rightarrow> Some (small_int_obj (l_len self))
      | LU_OTHER \<Rightarrow> None)"

text \<open>The new list of \<^verbatim>\<open>+\<close>, the new list of \<^verbatim>\<open>*\<close> (\<open>None\<close> is \<^verbatim>\<open>MP_OBJ_NULL\<close>) and the comparisons.\<close>

definition list_add :: "'x py_env \<Rightarrow> 'a mp_list \<Rightarrow> 'a mp_list \<Rightarrow> py_error + 'a mp_list" where
  "list_add env self p =
     bnd (list_new env (l_len self + l_len p)) (\<lambda>s.
     bnd (mp_seq_cat (l_items s) (l_items self) (l_len self) (l_items p) (l_len p)) (\<lambda>items.
       Inr (s\<lparr>l_items := items\<rparr>)))"

definition list_multiply :: "'x py_env \<Rightarrow> 'x obj mp_list \<Rightarrow> 'x obj \<Rightarrow> py_error + 'x obj mp_list option" where
  "list_multiply env self rhs =
     bnd (mp_obj_get_int_maybe env rhs) (\<lambda>r.
       case r of
         None \<Rightarrow> Inr None
       | Some n \<Rightarrow>
           let n = nat (if n < 0 then 0 else n)
           in bnd (list_new env (l_len self * n mod 2 ^ 32)) (\<lambda>s.
              bnd (mp_seq_multiply (l_items self) (l_len self) n (l_items s)) (\<lambda>items.
                Inr (Some (s\<lparr>l_items := items\<rparr>)))))"

definition list_compare ::
    "'x py_env \<Rightarrow> binary_op \<Rightarrow> 'x obj mp_list \<Rightarrow> 'x obj mp_list option \<Rightarrow> py_error + bool option" where
  "list_compare env op self rhs =
     (case rhs of
        None \<Rightarrow> if op = OP_EQUAL then Inr (Some False) else Inr None
      | Some another \<Rightarrow>
          bnd (mp_seq_cmp_objs env op (l_items self) (l_len self) (l_items another) (l_len another)) (\<lambda>b. Inr (Some b)))"

text \<open>
  \<^verbatim>\<open>list_binary_op\<close>: the list after it and its result, which is \<^verbatim>\<open>MP_OBJ_NULL\<close>, a bool, a new list or
  the list itself. The right operand is an object and, if it can be iterated, a sequence.
\<close>

datatype 'x list_op_result = Op_Null | Op_Bool bool | Op_New "'x obj mp_list" | Op_Self

definition rhs_list :: "'a mp_list \<Rightarrow> 'a seq_arg option \<Rightarrow> 'a mp_list option" where
  "rhs_list self seq =
     (case seq of
        Some Arg_Self \<Rightarrow> Some self
      | Some (Arg_List p) \<Rightarrow> Some p
      | _ \<Rightarrow> None)"

definition list_binary_op ::
    "'x py_env \<Rightarrow> binary_op \<Rightarrow> 'x obj mp_list \<Rightarrow> 'x obj \<Rightarrow> 'x obj seq_arg option \<Rightarrow>
     'x obj mp_list \<times> (py_error + 'x list_op_result)" where
  "list_binary_op env op self rhs seq =
     (case op of
        Plain OP_ADD \<Rightarrow>
          (self, case rhs_list self seq of
                   None \<Rightarrow> Inr Op_Null
                 | Some p \<Rightarrow> bnd (list_add env self p) (\<lambda>s. Inr (Op_New s)))
      | Inplace OP_ADD \<Rightarrow>
          (case seq of
             None \<Rightarrow> (self, Inl (Exc mp_error.TypeError))
           | Some arg \<Rightarrow> (case list_extend env self arg of (self, r) \<Rightarrow> (self, bnd r (\<lambda>_. Inr Op_Self))))
      | Plain OP_MULTIPLY \<Rightarrow>
          (self, bnd (list_multiply env self rhs) (\<lambda>r. Inr (case r of None \<Rightarrow> Op_Null | Some s \<Rightarrow> Op_New s)))
      | _ \<Rightarrow>
          if op \<in> {OP_EQUAL, OP_LESS, OP_LESS_EQUAL, OP_MORE, OP_MORE_EQUAL}
          then (self, bnd (list_compare env op self (rhs_list self seq)) (\<lambda>r.
                        Inr (case r of None \<Rightarrow> Op_Null | Some b \<Rightarrow> Op_Bool b)))
          else (self, Inr Op_Null))"

section \<open>Subscripts\<close>

definition mp_obj_list_store ::
    "'x py_env \<Rightarrow> 'x obj mp_list \<Rightarrow> 'x obj \<Rightarrow> 'x obj \<Rightarrow> 'x obj mp_list \<times> (py_error + unit)" where
  "mp_obj_list_store env self index x =
     commit self
       (bnd (mp_get_index env (l_len self) index False) (\<lambda>i.
        bnd (wr (l_items self) i (Val x)) (\<lambda>items. Inr (self\<lparr>l_items := items\<rparr>, ()))))"

text \<open>
  The loops of \<^verbatim>\<open>mp_seq_extract_slice\<close>, which append to the result while they have an item. The sum
  \<^verbatim>\<open>start += step\<close> is signed. The step of the first loop is positive and the one of the second is
  negative, so the tests of the step only make the functions total.
\<close>

definition rd_obj_at :: "'a cell list \<Rightarrow> int \<Rightarrow> py_error + 'a" where
  "rd_obj_at items i = (if 0 \<le> i then rd_obj items (nat i) else Inl Fault)"

definition signed_sum :: "int \<Rightarrow> int \<Rightarrow> py_error + int" where
  "signed_sum a b = (if - (2 ^ 31) \<le> a + b \<and> a + b < 2 ^ 31 then Inr (a + b) else Inl Fault)"

lemma signed_sum_Inr: "signed_sum a b = Inr c \<Longrightarrow> c = a + b"
  by (simp add: signed_sum_def split: if_splits)

function extract_up :: "'x py_env \<Rightarrow> 'x obj cell list \<Rightarrow> int \<Rightarrow> int \<Rightarrow> int \<Rightarrow> 'x obj mp_list \<Rightarrow> py_error + 'x obj mp_list" where
  "extract_up env items start stop step res =
     (if start < stop \<and> 0 < step then
        case rd_obj_at items start of
          Inl e \<Rightarrow> Inl e
        | Inr x \<Rightarrow>
            (case mp_obj_list_append env res x of
               (_, Inl e) \<Rightarrow> Inl e
             | (res, Inr _) \<Rightarrow>
                 (case signed_sum start step of
                    Inl e \<Rightarrow> Inl e
                  | Inr nxt \<Rightarrow> extract_up env items nxt stop step res))
      else Inr res)"
  by pat_completeness auto
termination
  by (relation "measure (\<lambda>(env, items, start, stop, step, res). nat (stop - start))") (auto dest: signed_sum_Inr)

function extract_down :: "'x py_env \<Rightarrow> 'x obj cell list \<Rightarrow> int \<Rightarrow> int \<Rightarrow> int \<Rightarrow> 'x obj mp_list \<Rightarrow> py_error + 'x obj mp_list" where
  "extract_down env items start stop step res =
     (if stop \<le> start \<and> step < 0 then
        case rd_obj_at items start of
          Inl e \<Rightarrow> Inl e
        | Inr x \<Rightarrow>
            (case mp_obj_list_append env res x of
               (_, Inl e) \<Rightarrow> Inl e
             | (res, Inr _) \<Rightarrow>
                 (case signed_sum start step of
                    Inl e \<Rightarrow> Inl e
                  | Inr nxt \<Rightarrow> extract_down env items nxt stop step res))
      else Inr res)"
  by pat_completeness auto
termination
  by (relation "measure (\<lambda>(env, items, start, stop, step, res). nat (start + 1 - stop))") (auto dest: signed_sum_Inr)

declare extract_up.simps [simp del] extract_down.simps [simp del]

definition mp_seq_extract_slice :: "'x py_env \<Rightarrow> 'x obj cell list \<Rightarrow> bound_slice \<Rightarrow> py_error + 'x obj mp_list" where
  "mp_seq_extract_slice env items ix =
     bnd (mp_obj_new_list env 0 None) (\<lambda>res.
       if sl_step ix < 0 then extract_down env items (sl_start ix) (sl_stop ix) (sl_step ix) res
       else extract_up env items (sl_start ix) (sl_stop ix) (sl_step ix) res)"

text \<open>\<^verbatim>\<open>list_subscr\<close>: deletion, load and store. A load gives an object or a new list.\<close>

definition list_subscr_delete :: "'x py_env \<Rightarrow> 'x obj mp_list \<Rightarrow> 'x obj \<Rightarrow> 'x obj mp_list \<times> (py_error + unit)" where
  "list_subscr_delete env self index =
     (case index of
        O_Slice a b c \<Rightarrow>
          commit self
            (bnd (mp_seq_get_fast_slice_indexes env (l_len self) a b c) (\<lambda>(fast, ix).
               if \<not> fast then Inl NotImplementedError
               else
                 let len = nat (int (l_len self) + (sl_start ix - sl_stop ix))
                 in bnd (mp_seq_replace_slice_no_grow (l_items self) (l_len self) (nat (sl_start ix)) (nat (sl_stop ix)) (\<lambda>_. Inr []) 0)
                     (\<lambda>items. bnd (mp_seq_clear items len (l_len self)) (\<lambda>items.
                        Inr (self\<lparr>l_items := items, l_len := len\<rparr>, ())))))
      | _ \<Rightarrow> (case list_pop env self (Some index) of (self, r) \<Rightarrow> (self, bnd r (\<lambda>_. Inr ()))))"

definition list_subscr_load :: "'x py_env \<Rightarrow> 'x obj mp_list \<Rightarrow> 'x obj \<Rightarrow> py_error + ('x obj + 'x obj mp_list)" where
  "list_subscr_load env self index =
     (case index of
        O_Slice a b c \<Rightarrow>
          bnd (mp_seq_get_fast_slice_indexes env (l_len self) a b c) (\<lambda>(fast, ix).
            if \<not> fast then bnd (mp_seq_extract_slice env (l_items self) ix) (\<lambda>res. Inr (Inr res))
            else
              bnd (list_new env (nat (sl_stop ix - sl_start ix))) (\<lambda>res.
              bnd (rd_block (l_items self) (nat (sl_start ix)) (l_len res)) (\<lambda>block.
              bnd (wr_block (l_items res) 0 block) (\<lambda>items. Inr (Inr (res\<lparr>l_items := items\<rparr>))))))
      | _ \<Rightarrow> bnd (mp_get_index env (l_len self) index False) (\<lambda>i. bnd (rd_obj (l_items self) i) (\<lambda>x. Inr (Inl x))))"

text \<open>
  \<^verbatim>\<open>mp_obj_get_array\<close>: the length of a list or tuple and the pointer \<^verbatim>\<open>value_items\<close> to its items, which is
  what a read through it gives. The pointer is taken before the list that is stored to is resized:
  when it points to the items of that list and the block has moved since, the read is one of a
  block that was freed. Otherwise such a pointer reads the cells that the list has at that moment.
\<close>

definition mp_obj_get_array ::
    "'x obj mp_list \<Rightarrow> 'x obj seq_arg \<Rightarrow> py_error + nat \<times> (bool \<Rightarrow> 'x obj cell list \<Rightarrow> py_error + 'x obj cell list)" where
  "mp_obj_get_array self arg =
     (case arg of
        Arg_Self \<Rightarrow> Inr (l_len self, \<lambda>moved own. if moved then Inl Fault else rd_block own 0 (l_len self))
      | Arg_List l \<Rightarrow> Inr (l_len l, \<lambda>moved own. rd_block (l_items l) 0 (l_len l))
      | Arg_Tuple xs \<Rightarrow> Inr (length xs, \<lambda>moved own. Inr (map Val xs))
      | Arg_Iter xs e \<Rightarrow> Inl (Exc mp_error.TypeError))"

definition list_store_slice ::
    "'x py_env \<Rightarrow> 'x obj mp_list \<Rightarrow> 'x obj \<Rightarrow> 'x obj \<Rightarrow> 'x obj \<Rightarrow> 'x obj seq_arg \<Rightarrow> 'x obj mp_list \<times> (py_error + unit)" where
  "list_store_slice env self a b c arg =
     commit self
       (bnd (mp_obj_get_array self arg) (\<lambda>(value_len, src).
        bnd (mp_seq_get_fast_slice_indexes env (l_len self) a b c) (\<lambda>(fast, ix).
          if \<not> fast then Inl NotImplementedError
          else
            let len_adj = int value_len - (sl_stop ix - sl_start ix)
            in if 0 < len_adj then
                 bnd (if int (l_alloc self) < int (l_len self) + len_adj
                      then bnd (m_renew_items env (l_items self) (l_len self + nat len_adj)) (\<lambda>items.
                             Inr (self\<lparr>l_items := items, l_alloc := l_len self + nat len_adj\<rparr>,
                                  \<not> env_stays env (items_bytes (l_len self + nat len_adj))))
                      else Inr (self, False)) (\<lambda>(self, moved).
                 bnd (mp_seq_replace_slice_grow_inplace (l_items self) (l_len self) (nat (sl_start ix)) (nat (sl_stop ix))
                        (src moved) value_len (nat len_adj)) (\<lambda>items.
                   Inr (self\<lparr>l_items := items, l_len := l_len self + nat len_adj\<rparr>, ())))
               else
                 let len = nat (int (l_len self) + len_adj)
                 in bnd (mp_seq_replace_slice_no_grow (l_items self) (l_len self) (nat (sl_start ix)) (nat (sl_stop ix))
                           (src False) value_len) (\<lambda>items.
                    bnd (mp_seq_clear items len (l_len self)) (\<lambda>items.
                      Inr (self\<lparr>l_items := items, l_len := len\<rparr>, ()))))))"

section \<open>Iteration\<close>

text \<open>\<^verbatim>\<open>mp_obj_list_it_t\<close> holds the list and a position; \<open>None\<close> is \<^verbatim>\<open>MP_OBJ_STOP_ITERATION\<close>.\<close>

definition list_it_iternext :: "'a mp_list \<Rightarrow> nat \<Rightarrow> py_error + ('a \<times> nat) option" where
  "list_it_iternext self cur =
     (if cur < l_len self then bnd (rd_obj (l_items self) cur) (\<lambda>x. Inr (Some (x, cur + 1))) else Inr None)"

end
