(* ===== verification/List_Sort_Correct.thy ===== *)
theory List_Sort_Correct
  imports List_Sort
begin

text \<open>
  Correctness of \<^verbatim>\<open>mp_quicksort\<close>: whatever the key and the comparison do, every access is inside the
  array, the array is permuted and nothing outside the segment changes, and the depth of the
  recursion is logarithmic. When the comparison is consistent with an order, the segment is sorted.
\<close>

section \<open>Scans and swaps\<close>

lemma scan_up_spec:
  "scan_up p xs h t = Inr h' \<Longrightarrow> t \<le> length xs \<Longrightarrow>
   (\<forall>i. h \<le> i \<and> i < h' \<longrightarrow> p (xs ! i) = Inr True) \<and> (h' < t \<longrightarrow> p (xs ! h') = Inr False)"
proof (induction p xs h t rule: scan_up.induct)
  case (1 p xs h t)
  show ?case
  proof (cases "h < t")
    case True
    then obtain c where c: "p (xs ! h) = Inr c" "(if c then scan_up p xs (h + 1) t else Inr h) = Inr h'"
      using 1(2,3) by (subst (asm) scan_up.simps) (auto simp: bnd_Inr rd_def)
    then have r: "bnd (rd xs h) p = Inr c"
      using True 1(3) by (simp add: rd_def)
    show ?thesis
    proof (cases c)
      case True
      then have "\<forall>i. h + 1 \<le> i \<and> i < h' \<longrightarrow> p (xs ! i) = Inr True" "h' < t \<longrightarrow> p (xs ! h') = Inr False"
        using 1(1) [OF \<open>h < t\<close> r] c(2) 1(3) by simp_all
      moreover have "h \<le> i \<and> i < h' \<longrightarrow> i = h \<or> h + 1 \<le> i \<and> i < h'" for i
        by auto
      ultimately show ?thesis
        using c(1) True by metis
    qed (use c in auto)
  next
    case False
    then show ?thesis
      using 1(2) by (subst (asm) scan_up.simps) auto
  qed
qed

lemma scan_up_error:
  "scan_up p xs h t = Inl e \<Longrightarrow> t \<le> length xs \<Longrightarrow> \<exists>i. h \<le> i \<and> i < t \<and> p (xs ! i) = Inl e"
proof (induction p xs h t rule: scan_up.induct)
  case (1 p xs h t)
  have ht: "h < t"
    using 1(2) by (subst (asm) scan_up.simps) (auto split: if_splits)
  show ?case
  proof (cases "p (xs ! h)")
    case (Inl d)
    then have "d = e"
      using 1(2,3) ht by (subst (asm) scan_up.simps) (simp add: rd_def)
    then show ?thesis
      using Inl ht by blast
  next
    case (Inr c)
    then have r: "bnd (rd xs h) p = Inr c"
      using ht 1(3) by (simp add: rd_def)
    then have c: "c" and s: "scan_up p xs (h + 1) t = Inl e"
      using 1(2) ht by (subst (asm) scan_up.simps, simp split: if_splits)+
    obtain i where "h + 1 \<le> i" "i < t" "p (xs ! i) = Inl e"
      using 1(1) [OF ht c s] 1(3) by blast
    then show ?thesis
      by (intro exI [of _ i]) simp
  qed
qed

lemma scan_down_spec:
  "scan_down p xs h t = Inr t' \<Longrightarrow> t < length xs \<Longrightarrow>
   (\<forall>i. t' < i \<and> i \<le> t \<longrightarrow> p (xs ! i) = Inr True) \<and> (h < t' \<longrightarrow> p (xs ! t') = Inr False)"
proof (induction p xs h t rule: scan_down.induct)
  case (1 p xs h t)
  show ?case
  proof (cases "h < t")
    case True
    then obtain c where c: "p (xs ! t) = Inr c" "(if c then scan_down p xs h (t - 1) else Inr t) = Inr t'"
      using 1(2,3) by (subst (asm) scan_down.simps) (auto simp: bnd_Inr rd_def)
    then have r: "bnd (rd xs t) p = Inr c"
      using True 1(3) by (simp add: rd_def)
    show ?thesis
    proof (cases c)
      case True
      then have "\<forall>i. t' < i \<and> i \<le> t - 1 \<longrightarrow> p (xs ! i) = Inr True" "h < t' \<longrightarrow> p (xs ! t') = Inr False"
        using 1(1) [OF \<open>h < t\<close> r] c(2) 1(3) by simp_all
      moreover have "t' < i \<and> i \<le> t \<longrightarrow> i = t \<or> t' < i \<and> i \<le> t - 1" for i
        by auto
      ultimately show ?thesis
        using c(1) True by metis
    qed (use c in auto)
  next
    case False
    then show ?thesis
      using 1(2) by (subst (asm) scan_down.simps) auto
  qed
qed

lemma scan_down_error:
  "scan_down p xs h t = Inl e \<Longrightarrow> t < length xs \<Longrightarrow> \<exists>i. h < i \<and> i \<le> t \<and> p (xs ! i) = Inl e"
proof (induction p xs h t rule: scan_down.induct)
  case (1 p xs h t)
  have ht: "h < t"
    using 1(2) by (subst (asm) scan_down.simps) (auto split: if_splits)
  show ?case
  proof (cases "p (xs ! t)")
    case (Inl d)
    then have "d = e"
      using 1(2,3) ht by (subst (asm) scan_down.simps) (simp add: rd_def)
    then show ?thesis
      using Inl ht by blast
  next
    case (Inr c)
    then have r: "bnd (rd xs t) p = Inr c"
      using ht 1(3) by (simp add: rd_def)
    then have c: "c" and s: "scan_down p xs h (t - 1) = Inl e"
      using 1(2) ht by (subst (asm) scan_down.simps, simp split: if_splits)+
    have "t - 1 < length xs"
      using 1(3) by simp
    from 1(1) [OF ht c s this] obtain i where "h < i" "i \<le> t - 1" "p (xs ! i) = Inl e"
      by blast
    then show ?thesis
      by (intro exI [of _ i]) simp
  qed
qed

lemma swap_cells_Inr:
  "i < length xs \<Longrightarrow> j < length xs \<Longrightarrow> swap_cells xs i j = Inr (xs[i := xs ! j, j := xs ! i])"
  by (simp add: swap_cells_def rd_def wr_def)

text \<open>A permutation of the segment from \<open>h\<close> to \<open>t\<close>, its end excluded.\<close>

definition permuted :: "'a list \<Rightarrow> 'a list \<Rightarrow> nat \<Rightarrow> nat \<Rightarrow> bool" where
  "permuted xs ys h t \<longleftrightarrow> mset ys = mset xs \<and> (\<forall>i. i < h \<or> t \<le> i \<longrightarrow> ys ! i = xs ! i)"

lemma permuted_refl [simp]: "permuted xs xs h t"
  by (simp add: permuted_def)

lemma permuted_trans:
  "permuted xs ys h t \<Longrightarrow> permuted ys zs h' t' \<Longrightarrow> h \<le> h' \<Longrightarrow> t' \<le> t \<Longrightarrow> permuted xs zs h t"
  by (simp add: permuted_def)

lemma permuted_mono: "permuted xs ys h t \<Longrightarrow> h' \<le> h \<Longrightarrow> t \<le> t' \<Longrightarrow> permuted xs ys h' t'"
  by (simp add: permuted_def)

lemma permuted_length: "permuted xs ys h t \<Longrightarrow> length ys = length xs"
  unfolding permuted_def by (metis size_mset)

lemma permuted_set: "permuted xs ys h t \<Longrightarrow> set ys = set xs"
  unfolding permuted_def by (metis set_mset_mset)

lemma permuted_swap:
  "i < length xs \<Longrightarrow> j < length xs \<Longrightarrow> h \<le> i \<Longrightarrow> h \<le> j \<Longrightarrow> i < t \<Longrightarrow> j < t \<Longrightarrow>
   permuted xs (xs[i := xs ! j, j := xs ! i]) h t"
  by (auto simp: permuted_def mset_swap)

text \<open>The elements of the segment are permuted among themselves.\<close>

lemma permuted_segment:
  assumes p: "permuted xs ys h t" and b: "h \<le> t" "t \<le> length xs"
  shows "mset (take (t - h) (drop h ys)) = mset (take (t - h) (drop h xs))"
proof -
  have l: "length ys = length xs"
    using p by (rule permuted_length)
  have split: "zs = take h zs @ take (t - h) (drop h zs) @ drop t zs" if "length zs = length xs" for zs :: "'a list"
    using b that by (metis append_take_drop_id drop_drop le_add_diff_inverse2)
  have "take h ys = take h xs" "drop t ys = drop t xs"
    using p l b by (auto simp: permuted_def intro!: nth_equalityI)
  moreover have "mset ys = mset xs"
    using p by (simp add: permuted_def)
  ultimately show ?thesis
    using split [OF l] split [OF refl] by (metis add_left_cancel add_right_cancel mset_append)
qed

lemma permuted_ball:
  assumes p: "permuted xs ys h t" and b: "t \<le> length xs" and P: "\<forall>i. h \<le> i \<and> i < t \<longrightarrow> P (xs ! i)"
  shows "\<forall>i. h \<le> i \<and> i < t \<longrightarrow> P (ys ! i)"
proof (intro allI impI)
  fix i assume i: "h \<le> i \<and> i < t"
  have l: "length ys = length xs"
    using p by (rule permuted_length)
  have "ys ! i \<in> set (take (t - h) (drop h ys))"
    using i b l by (auto simp: in_set_conv_nth intro!: exI [of _ "i - h"])
  also have "set (take (t - h) (drop h ys)) = set (take (t - h) (drop h xs))"
    using permuted_segment [OF p _ b] i by (metis le_less_trans less_imp_le_nat mset_eq_setD)
  finally obtain k where "k < t - h" "ys ! i = xs ! (h + k)"
    using b by (auto simp: in_set_conv_nth)
  then show "P (ys ! i)"
    using P by simp
qed

lemma permuted_outside: "permuted xs ys h t \<Longrightarrow> i < h \<or> t \<le> i \<Longrightarrow> ys ! i = xs ! i"
  unfolding permuted_def by blast

section \<open>The partition\<close>

text \<open>
  Below the final \<open>h'\<close> stand elements that may stay left of the pivot, from there on elements that
  may stay right of it.
\<close>

definition may_left :: "('a \<Rightarrow> py_error + bool) \<Rightarrow> ('a \<Rightarrow> py_error + bool) \<Rightarrow> 'a \<Rightarrow> bool" where
  "may_left up down x \<longleftrightarrow> up x = Inr True \<or> down x = Inr False"

definition may_right :: "('a \<Rightarrow> py_error + bool) \<Rightarrow> ('a \<Rightarrow> py_error + bool) \<Rightarrow> 'a \<Rightarrow> bool" where
  "may_right up down x \<longleftrightarrow> down x = Inr True \<or> up x = Inr False"

lemma partition_loop_cases:
  assumes "partition_loop up down xs h t = (ys, r)" and "0 < t" and "h \<le> t" and "t \<le> length xs"
  obtains (error) e where "ys = xs" "r = Inl e" "\<exists>i. h \<le> i \<and> i < t \<and> (up (xs ! i) = Inl e \<or> down (xs ! i) = Inl e)"
  | (finish) h1 t1 where "scan_up up xs h t = Inr h1" "scan_down down xs h1 (t - 1) = Inr t1" "t1 \<le> h1"
      "ys = xs" "r = Inr (h1, t1)"
  | (round) h1 t1 where "scan_up up xs h t = Inr h1" "scan_down down xs h1 (t - 1) = Inr t1" "h \<le> h1" "h1 < t1" "t1 < t"
      "partition_loop up down (xs[h1 := xs ! t1, t1 := xs ! h1]) (h1 + 1) t1 = (ys, r)"
proof (cases "scan_up up xs h t")
  case (Inl e)
  then have "ys = xs" "r = Inl e"
    using assms(1) by (subst (asm) partition_loop.simps, simp)+
  then show thesis
    using error scan_up_error [OF Inl assms(4)] by blast
next
  case h1: (Inr h1)
  show thesis
  proof (cases "scan_down down xs h1 (t - 1)")
    case (Inl e)
    then have "ys = xs" "r = Inl e"
      using assms(1) h1 by (subst (asm) partition_loop.simps, simp)+
    moreover have "t - 1 < length xs"
      using assms(2,4) by simp
    then obtain i where "h1 < i" "i \<le> t - 1" "down (xs ! i) = Inl e"
      using scan_down_error [OF Inl] by blast
    then have "h \<le> i \<and> i < t \<and> (up (xs ! i) = Inl e \<or> down (xs ! i) = Inl e)"
      using scan_up_le [OF h1] assms(2) by auto
    ultimately show thesis
      using error by blast
  next
    case t1: (Inr t1)
    show thesis
    proof (cases "t1 \<le> h1")
      case True
      then have "ys = xs" "r = Inr (h1, t1)"
        using assms(1) h1 t1 by (subst (asm) partition_loop.simps, simp)+
      then show thesis
        using finish h1 t1 True by blast
    next
      case False
      have b: "h \<le> h1" "t1 \<le> t - 1"
        using scan_up_le [OF h1] scan_down_le [OF t1] by blast+
      then have "swap_cells xs h1 t1 = Inr (xs[h1 := xs ! t1, t1 := xs ! h1])"
        using False assms(2,4) by (intro swap_cells_Inr) linarith+
      then have "partition_loop up down (xs[h1 := xs ! t1, t1 := xs ! h1]) (h1 + 1) t1 = (ys, r)"
        using assms(1) h1 t1 False by (subst (asm) partition_loop.simps) simp
      then show thesis
        using round [OF h1 t1] b False assms(2) by simp
    qed
  qed
qed

lemma partition_loop_frame:
  "partition_loop up down xs h t = (ys, r) \<Longrightarrow> 0 < t \<Longrightarrow> h \<le> t \<Longrightarrow> t \<le> length xs \<Longrightarrow>
   permuted xs ys h t \<and>
   (\<forall>e. r = Inl e \<longrightarrow> (\<exists>i. h \<le> i \<and> i < t \<and> (up (xs ! i) = Inl e \<or> down (xs ! i) = Inl e)))"
proof (induction "t - h" arbitrary: xs h t rule: less_induct)
  case less
  from less.prems show ?case
  proof (cases rule: partition_loop_cases)
    case (round h1 t1)
    let ?zs = "xs[h1 := xs ! t1, t1 := xs ! h1]"
    have sw: "permuted xs ?zs h t"
      using round less.prems(4) by (intro permuted_swap) linarith+
    have ih: "permuted ?zs ys (h1 + 1) t1 \<and>
      (\<forall>e. r = Inl e \<longrightarrow> (\<exists>i. h1 + 1 \<le> i \<and> i < t1 \<and> (up (?zs ! i) = Inl e \<or> down (?zs ! i) = Inl e)))"
    proof (rule less.hyps [OF _ round(6)])
      show "t1 - (h1 + 1) < t - h" "0 < t1" "h1 + 1 \<le> t1" "t1 \<le> length ?zs"
        using round less.prems(4) by simp_all
    qed
    have "permuted xs ys h t"
      using permuted_trans [OF sw conjunct1 [OF ih]] round(3,5) by simp
    moreover have "\<exists>i. h \<le> i \<and> i < t \<and> (up (xs ! i) = Inl e \<or> down (xs ! i) = Inl e)" if "r = Inl e" for e
    proof -
      obtain i where "h1 + 1 \<le> i" "i < t1" "up (?zs ! i) = Inl e \<or> down (?zs ! i) = Inl e"
        using ih \<open>r = Inl e\<close> by blast
      then show ?thesis
        using round(3,5) by (intro exI [of _ i]) simp
    qed
    ultimately show ?thesis
      by blast
  qed simp_all
qed

lemma partition_loop_order:
  "partition_loop up down xs h t = (ys, Inr (h', t')) \<Longrightarrow> 0 < t \<Longrightarrow> h \<le> t \<Longrightarrow> t \<le> length xs \<Longrightarrow>
   (\<forall>i. h \<le> i \<and> i < h' \<longrightarrow> may_left up down (ys ! i)) \<and> (\<forall>i. h' \<le> i \<and> i < t \<longrightarrow> may_right up down (ys ! i))"
proof (induction "t - h" arbitrary: xs h t rule: less_induct)
  case less
  have t1len: "t - 1 < length xs"
    using less.prems(2,4) by simp
  from less.prems show ?case
  proof (cases rule: partition_loop_cases)
    case (finish h1 t1)
    note s = scan_up_spec [OF finish(1) less.prems(4)] scan_down_spec [OF finish(2) t1len]
    have e: "ys = xs" "h' = h1"
      using finish by simp_all
    have "may_right up down (xs ! i)" if "h1 \<le> i" "i < t" for i
    proof (cases "i = h1")
      case False
      then have "t1 < i \<and> i \<le> t - 1"
        using finish(3) that by simp
      then show ?thesis
        using s(2) by (simp add: may_right_def)
    qed (use s(1) that in \<open>simp add: may_right_def\<close>)
    then show ?thesis
      using s(1) by (simp add: e may_left_def)
  next
    case (round h1 t1)
    let ?zs = "xs[h1 := xs ! t1, t1 := xs ! h1]"
    note s = scan_up_spec [OF round(1) less.prems(4)] scan_down_spec [OF round(2) t1len]
    have b: "0 < t1" "h1 + 1 \<le> t1" "t1 \<le> length ?zs"
      using round less.prems(4) by simp_all
    have ih: "(\<forall>i. h1 + 1 \<le> i \<and> i < h' \<longrightarrow> may_left up down (ys ! i)) \<and> (\<forall>i. h' \<le> i \<and> i < t1 \<longrightarrow> may_right up down (ys ! i))"
      by (rule less.hyps [OF _ round(6) b]) (use round in simp)
    have h': "h1 + 1 \<le> h'" "h' \<le> t1"
      using partition_loop_bounds [OF round(6) b(1,2)] by simp_all
    have fr: "ys ! i = ?zs ! i" if "i < h1 + 1 \<or> t1 \<le> i" for i
      using partition_loop_frame [OF round(6) b] that by (blast intro: permuted_outside)
    have left: "may_left up down (ys ! i)" if "h \<le> i" "i \<le> h1" for i
    proof (cases "i = h1")
      case True
      then show ?thesis
        using s(2) round less.prems(4) fr [of h1] by (simp add: may_left_def)
    next
      case False
      then show ?thesis
        using s(1) round that fr [of i] by (simp add: may_left_def)
    qed
    have right: "may_right up down (ys ! i)" if "t1 \<le> i" "i < t" for i
    proof (cases "i = t1")
      case True
      then show ?thesis
        using s(1) round less.prems(4) fr [of t1] by (simp add: may_right_def)
    next
      case False
      then have "t1 < i \<and> i \<le> t - 1"
        using that by simp
      then show ?thesis
        using s(2) round fr [of i] by (simp add: may_right_def)
    qed
    show ?thesis
    proof (intro conjI allI impI)
      fix i assume "h \<le> i \<and> i < h'"
      then show "may_left up down (ys ! i)"
        using left ih by (cases "i \<le> h1") simp_all
    next
      fix i assume "h' \<le> i \<and> i < t"
      then show "may_right up down (ys ! i)"
        using right ih by (cases "t1 \<le> i") simp_all
    qed
  qed simp
qed

section \<open>The recursion\<close>

definition segment :: "'a list \<Rightarrow> nat \<Rightarrow> nat \<Rightarrow> 'a set" where
  "segment xs h t = (\<lambda>i. xs ! i) ` {h..<t}"

lemma segment_mono: "h' \<le> h \<Longrightarrow> t \<le> t' \<Longrightarrow> segment xs h t \<subseteq> segment xs h' t'"
  by (auto simp: segment_def)

lemma permuted_segment_set:
  assumes "permuted xs ys h t" "t \<le> length xs"
  shows "segment ys h t \<subseteq> segment xs h t"
  using permuted_ball [OF assms, of "\<lambda>x. x \<in> segment xs h t"] by (auto simp: segment_def)

text \<open>The errors that the key function or the comparison raises on elements of \<open>X\<close>.\<close>

definition sort_raises ::
    "('a \<Rightarrow> py_error + 'k) \<Rightarrow> ('k \<Rightarrow> 'k \<Rightarrow> py_error + bool) \<Rightarrow> 'a set \<Rightarrow> py_error \<Rightarrow> bool" where
  "sort_raises key stay X e \<longleftrightarrow>
     (\<exists>x\<in>X. key x = Inl e \<or> (\<exists>y\<in>X. \<exists>k l. key x = Inr k \<and> key y = Inr l \<and> stay k l = Inl e))"

lemma stay_raises:
  assumes "x \<in> X" "y \<in> X" "key y = Inr v" "stay_up key stay v x = Inl e \<or> stay_down key stay v x = Inl e"
  shows "sort_raises key stay X e"
  using assms unfolding sort_raises_def stay_up_def stay_down_def by (cases "key x") fastforce+

lemma sort_raises_mono: "sort_raises key stay X e \<Longrightarrow> X \<subseteq> Y \<Longrightarrow> sort_raises key stay Y e"
  unfolding sort_raises_def by blast

lemma quicksort_loop_cases:
  assumes q: "quicksort_loop key stay frames xs head tail = (ys, r)" and b: "head < tail" "tail < length xs"
  obtains (error) e where "r = Some e" "permuted xs ys head (tail + 1)" "sort_raises key stay (segment xs head (tail + 1)) e"
  | (split) v zs h t a1 b1 a2 b2 where
      "key (xs ! tail) = Inr v" "permuted xs zs head (tail + 1)" "head \<le> t" "t < tail" "t \<le> h" "h \<le> t + 1" "zs ! h = xs ! tail"
      "\<forall>i. head \<le> i \<and> i < h \<longrightarrow> may_left (stay_up key stay v) (stay_down key stay v) (zs ! i)"
      "\<forall>i. h < i \<and> i \<le> tail \<longrightarrow> may_right (stay_up key stay v) (stay_down key stay v) (zs ! i)"
      "(a1, b1) = (head, t) \<and> (a2, b2) = (h + 1, tail) \<or> (a1, b1) = (h + 1, tail) \<and> (a2, b2) = (head, t)"
      "2 * (b1 + 1 - a1) \<le> tail + 1 - head"
      "(case (if frames = 0 then (zs, Some RecursionDepth) else quicksort_loop key stay (frames - 1) zs a1 b1) of
          (ws, Some e) \<Rightarrow> (ws, Some e) | (ws, None) \<Rightarrow> quicksort_loop key stay frames ws a2 b2) = (ys, r)"
proof (cases "key (xs ! tail)")
  case (Inl e)
  then have "bnd (rd xs tail) key = Inl e"
    using b by (simp add: rd_def)
  then have "ys = xs" "r = Some e"
    using q b by (subst (asm) quicksort_loop.simps, simp)+
  then show thesis
    using error [of e] Inl b unfolding sort_raises_def segment_def by fastforce
next
  case v: (Inr v)
  let ?u = "stay_up key stay v" and ?d = "stay_down key stay v"
  have bv: "bnd (rd xs tail) key = Inr v"
    using b v by (simp add: rd_def)
  obtain ps p where p: "partition_loop ?u ?d xs head tail = (ps, p)"
    by fastforce
  have pb: "0 < tail" "head \<le> tail" "tail \<le> length xs"
    using b by simp_all
  note fr = partition_loop_frame [OF p pb]
  then have pm: "permuted xs ps head tail"
    by blast
  show thesis
  proof (cases p)
    case (Inl e)
    then have "ys = ps" "r = Some e"
      using q b bv p by (subst (asm) quicksort_loop.simps, simp)+
    moreover obtain i where "head \<le> i" "i < tail" "?u (xs ! i) = Inl e \<or> ?d (xs ! i) = Inl e"
      using fr Inl by blast
    moreover have "xs ! i \<in> segment xs head (tail + 1)" if "head \<le> i" "i \<le> tail" for i
      using that by (simp add: segment_def)
    ultimately have "sort_raises key stay (segment xs head (tail + 1)) e"
      using v b by (intro stay_raises [of "xs ! i" _ "xs ! tail"]) simp_all
    then show thesis
      using error [of e] permuted_mono [OF pm] \<open>ys = ps\<close> \<open>r = Some e\<close> by simp
  next
    case (Inr ht)
    then obtain h t where ht: "p = Inr (h, t)"
      by (cases ht) blast
    note bo = partition_loop_bounds [OF p [unfolded ht] pb(1,2)]
    note od = partition_loop_order [OF p [unfolded ht] pb]
    have len: "length ps = length xs"
      by (rule permuted_length [OF pm])
    define zs where "zs = ps[h := ps ! tail, tail := ps ! h]"
    have sw: "swap_cells ps h tail = Inr zs"
      unfolding zs_def using bo b len by (intro swap_cells_Inr) linarith+
    have pz: "permuted ps zs head (tail + 1)"
      unfolding zs_def using bo b len by (intro permuted_swap) linarith+
    have tl: "ps ! tail = xs ! tail"
      using pm by (rule permuted_outside) simp
    have at_h: "zs ! h = xs ! tail"
      using bo b len tl by (cases "h = tail") (simp_all add: zs_def)
    have left: "\<forall>i. head \<le> i \<and> i < h \<longrightarrow> may_left ?u ?d (zs ! i)"
      using od bo by (auto simp: zs_def)
    have right: "\<forall>i. h < i \<and> i \<le> tail \<longrightarrow> may_right ?u ?d (zs ! i)"
    proof (intro allI impI)
      fix i assume i: "h < i \<and> i \<le> tail"
      show "may_right ?u ?d (zs ! i)"
      proof (cases "i = tail")
        case True
        then have "may_right ?u ?d (ps ! h)"
          using od i by blast
        then show ?thesis
          using True b len by (simp add: zs_def)
      next
        case False
        then have "may_right ?u ?d (ps ! i)"
          using od i by simp
        then show ?thesis
          using False i by (simp add: zs_def)
      qed
    qed
    have rest: "(if int t - int head < int tail - int h - 1 then
        (case (if frames = 0 then (zs, Some RecursionDepth) else quicksort_loop key stay (frames - 1) zs head t) of
           (ws, Some e) \<Rightarrow> (ws, Some e) | (ws, None) \<Rightarrow> quicksort_loop key stay frames ws (h + 1) tail)
      else (case (if frames = 0 then (zs, Some RecursionDepth) else quicksort_loop key stay (frames - 1) zs (h + 1) tail) of
           (ws, Some e) \<Rightarrow> (ws, Some e) | (ws, None) \<Rightarrow> quicksort_loop key stay frames ws head t)) = (ys, r)"
      using q by (subst (asm) quicksort_loop.simps) (simp only: b bv p ht sw if_True sum.case prod.case)
    have all: "permuted xs zs head (tail + 1)" "head \<le> t" "t < tail" "t \<le> h" "h \<le> t + 1"
      using permuted_trans [OF permuted_mono [OF pm] pz] bo b by simp_all
    show thesis
    proof (cases "int t - int head < int tail - int h - 1")
      case True
      have "2 * (t + 1 - head) \<le> tail + 1 - head"
        using True all by linarith
      then show thesis
        using split [OF v all at_h left right, of head t "h + 1" tail] rest True by simp
    next
      case False
      have "2 * (tail + 1 - (h + 1)) \<le> tail + 1 - head"
        using False all by linarith
      then show thesis
        using split [OF v all at_h left right, of "h + 1" tail head t] rest False by simp
    qed
  qed
qed

lemma quicksort_loop_frame:
  "quicksort_loop key stay frames xs head tail = (ys, r) \<Longrightarrow> tail < length xs \<Longrightarrow>
   permuted xs ys head (tail + 1) \<and>
   (\<forall>e. r = Some e \<longrightarrow> sort_raises key stay (segment xs head (tail + 1)) e \<or> e = RecursionDepth \<and> 2 ^ (frames + 1) \<le> tail + 1 - head)"
proof (induction "tail + 1 - head" arbitrary: frames xs head tail ys r rule: less_induct)
  case less
  show ?case
  proof (cases "head < tail")
    case False
    then show ?thesis
      using less.prems(1) by (subst (asm) quicksort_loop.simps) simp
  next
    case True
    from less.prems(1) True less.prems(2) show ?thesis
    proof (cases rule: quicksort_loop_cases)
      case (error e)
      then show ?thesis
        by simp
    next
      case (split v zs h t a1 b1 a2 b2)
      have seg: "head \<le> a1" "b1 \<le> tail" "head \<le> a2" "b2 \<le> tail" "b1 + 1 - a1 < tail + 1 - head" "b2 + 1 - a2 < tail + 1 - head"
        using split(3,4,5,6,10) True by auto
      have lz: "length zs = length xs" "set zs = set xs"
        using permuted_length permuted_set split(2) by blast+
      show ?thesis
      proof (cases "frames = 0")
        case True
        then have "ys = zs" "r = Some RecursionDepth"
          using split(12) by simp_all
        moreover have "2 ^ (frames + 1) \<le> tail + 1 - head"
          using True \<open>head < tail\<close> by simp
        ultimately show ?thesis
          using split(2) by simp
      next
        case False
        obtain ws q where ws: "quicksort_loop key stay (frames - 1) zs a1 b1 = (ws, q)"
          by fastforce
        have ih1: "permuted zs ws a1 (b1 + 1) \<and>
          (\<forall>e. q = Some e \<longrightarrow> sort_raises key stay (segment zs a1 (b1 + 1)) e \<or> e = RecursionDepth \<and> 2 ^ (frames - 1 + 1) \<le> b1 + 1 - a1)"
          by (rule less.hyps [OF seg(5) ws]) (use lz seg(2) less.prems(2) in simp)
        have pw: "permuted xs ws head (tail + 1)"
          using permuted_trans [OF split(2) conjunct1 [OF ih1]] seg by simp
        have lw: "length ws = length xs" "set ws = set xs"
          using permuted_length permuted_set pw by blast+
        show ?thesis
        proof (cases q)
          case (Some e)
          then have "ys = ws" "r = Some e"
            using split(12) ws False by simp_all
          moreover have "2 ^ (frames + 1) \<le> tail + 1 - head" if "(2::nat) ^ (frames - 1 + 1) \<le> b1 + 1 - a1"
          proof -
            have "(2::nat) ^ (frames + 1) = 2 * 2 ^ (frames - 1 + 1)"
              using False by (cases frames) simp_all
            then show ?thesis
              using that split(11) by linarith
          qed
          moreover have "segment zs a1 (b1 + 1) \<subseteq> segment xs head (tail + 1)"
            using segment_mono [of head a1 "b1 + 1" "tail + 1" zs] permuted_segment_set [OF split(2)] seg(1,2) less.prems(2) by auto
          ultimately show ?thesis
            using pw ih1 Some sort_raises_mono by blast
        next
          case None
          then have "quicksort_loop key stay frames ws a2 b2 = (ys, r)"
            using split(12) ws False by simp
          then have ih2: "permuted ws ys a2 (b2 + 1) \<and>
            (\<forall>e. r = Some e \<longrightarrow> sort_raises key stay (segment ws a2 (b2 + 1)) e \<or> e = RecursionDepth \<and> 2 ^ (frames + 1) \<le> b2 + 1 - a2)"
            by (rule less.hyps [OF seg(6)]) (use lw seg(4) less.prems(2) in simp)
          have "permuted xs ys head (tail + 1)"
            using permuted_trans [OF pw conjunct1 [OF ih2]] seg by simp
          moreover have "segment ws a2 (b2 + 1) \<subseteq> segment xs head (tail + 1)"
            using segment_mono [of head a2 "b2 + 1" "tail + 1" ws] permuted_segment_set [OF pw] seg(3,4) less.prems(2) by auto
          moreover have "b2 + 1 - a2 \<le> tail + 1 - head"
            using seg(6) by simp
          ultimately show ?thesis
            using ih2 sort_raises_mono le_trans by blast
        qed
      qed
    qed
  qed
qed

section \<open>Sortedness\<close>

text \<open>
  The contract between the sort and the comparison: where the scans pass over a pair of keys, and
  where they stop at one, the pair is in the order \<open>R\<close>. Both hold of \<^verbatim>\<open><\<close> with the result \<^verbatim>\<open>True\<close> and
  of \<^verbatim>\<open><\<close> with the result \<^verbatim>\<open>False\<close>, which is the reversed sort.
\<close>

locale sort_order =
  fixes stay :: "'k \<Rightarrow> 'k \<Rightarrow> py_error + bool"
    and K :: "'k set"
    and R :: "'k \<Rightarrow> 'k \<Rightarrow> bool"
  assumes stays: "k \<in> K \<Longrightarrow> l \<in> K \<Longrightarrow> stay k l = Inr True \<Longrightarrow> R k l"
    and stops: "k \<in> K \<Longrightarrow> l \<in> K \<Longrightarrow> stay l k = Inr False \<Longrightarrow> R k l"
    and trans: "k \<in> K \<Longrightarrow> l \<in> K \<Longrightarrow> m \<in> K \<Longrightarrow> R k l \<Longrightarrow> R l m \<Longrightarrow> R k m"
begin

definition ordered :: "('a \<Rightarrow> py_error + 'k) \<Rightarrow> 'a \<Rightarrow> 'a \<Rightarrow> bool" where
  "ordered key x y \<longleftrightarrow> (\<exists>k\<in>K. \<exists>l\<in>K. key x = Inr k \<and> key y = Inr l \<and> R k l)"

lemma ordered_trans: "ordered key x y \<Longrightarrow> ordered key y z \<Longrightarrow> ordered key x z"
  unfolding ordered_def using trans by (metis sum.inject(2))

lemma may_left_ordered:
  "may_left (stay_up key stay v) (stay_down key stay v) x \<Longrightarrow> key p = Inr v \<Longrightarrow> v \<in> K \<Longrightarrow>
   \<forall>k. key x = Inr k \<longrightarrow> k \<in> K \<Longrightarrow> ordered key x p"
  unfolding may_left_def stay_up_def stay_down_def ordered_def by (auto simp: bnd_Inr intro: stays stops)

lemma may_right_ordered:
  "may_right (stay_up key stay v) (stay_down key stay v) x \<Longrightarrow> key p = Inr v \<Longrightarrow> v \<in> K \<Longrightarrow>
   \<forall>k. key x = Inr k \<longrightarrow> k \<in> K \<Longrightarrow> ordered key p x"
  unfolding may_right_def stay_up_def stay_down_def ordered_def by (auto simp: bnd_Inr intro: stays stops)

definition sorted_segment :: "('a \<Rightarrow> py_error + 'k) \<Rightarrow> 'a list \<Rightarrow> nat \<Rightarrow> nat \<Rightarrow> bool" where
  "sorted_segment key xs h t \<longleftrightarrow> (\<forall>i j. h \<le> i \<and> i < j \<and> j \<le> t \<longrightarrow> ordered key (xs ! i) (xs ! j))"

lemma sorted_segment_outside:
  "permuted xs ys a b \<Longrightarrow> sorted_segment key xs h t \<Longrightarrow> t < a \<or> b \<le> h \<Longrightarrow> sorted_segment key ys h t"
  unfolding sorted_segment_def by (intro allI impI) (auto simp: permuted_outside [of xs ys a b])

text \<open>
  Two sorted segments around a pivot are one sorted segment: \<open>t\<close> is the end of the left one, which
  may hold the pivot itself, and the right one starts after \<open>h\<close>.
\<close>

lemma sorted_join:
  assumes left: "sorted_segment key ys head t" and right: "sorted_segment key ys (h + 1) tail"
    and b: "t \<le> h" "h \<le> t + 1"
    and A: "\<forall>i. head \<le> i \<and> i < t + 1 \<longrightarrow> ordered key (ys ! i) p \<or> t = h \<and> ys ! i = p"
    and B: "t < h \<longrightarrow> ys ! h = p"
    and C: "\<forall>i. h + 1 \<le> i \<and> i < tail + 1 \<longrightarrow> ordered key p (ys ! i)"
  shows "sorted_segment key ys head tail"
  unfolding sorted_segment_def
proof (intro allI impI)
  fix i j assume ij: "head \<le> i \<and> i < j \<and> j \<le> tail"
  consider "j \<le> t" | "h < i" | "j = h" "t < h" | "i \<le> t" "h < j" | "i = h" "t < h" "h < j"
    using b ij by linarith
  then show "ordered key (ys ! i) (ys ! j)"
  proof cases
    case 1
    then show ?thesis
      using left ij by (simp add: sorted_segment_def)
  next
    case 2
    then show ?thesis
      using right ij by (simp add: sorted_segment_def)
  next
    case 3
    then have "ordered key (ys ! i) p" "ys ! j = p"
      using A B ij b by auto
    then show ?thesis
      by simp
  next
    case 4
    then have "ordered key p (ys ! j)" "ordered key (ys ! i) p \<or> ys ! i = p"
      using A C ij by auto
    then show ?thesis
      using ordered_trans by metis
  next
    case 5
    then have "ordered key p (ys ! j)" "ys ! i = p"
      using B C ij by auto
    then show ?thesis
      by simp
  qed
qed

text \<open>A sort of one of the two segments keeps what the partition has established.\<close>

lemma split_kept:
  assumes p: "permuted us ws a (b + 1)" and ab: "(a, b) = (head, t) \<or> (a, b) = (h + 1, tail)"
    and b: "t \<le> h" "h \<le> tail" "tail < length us"
    and A: "\<forall>i. head \<le> i \<and> i < t + 1 \<longrightarrow> P (us ! i)"
    and B: "t < h \<longrightarrow> us ! h = x"
    and C: "\<forall>i. h + 1 \<le> i \<and> i < tail + 1 \<longrightarrow> Q (us ! i)"
  shows "(\<forall>i. head \<le> i \<and> i < t + 1 \<longrightarrow> P (ws ! i)) \<and> (t < h \<longrightarrow> ws ! h = x) \<and>
    (\<forall>i. h + 1 \<le> i \<and> i < tail + 1 \<longrightarrow> Q (ws ! i))"
  using ab
proof
  assume e: "(a, b) = (head, t)"
  then have "\<forall>i. head \<le> i \<and> i < t + 1 \<longrightarrow> P (ws ! i)"
    using permuted_ball [of us ws head "t + 1"] p A b by simp
  moreover have "ws ! i = us ! i" if "t < i" for i
    using permuted_outside [OF p] e that by simp
  ultimately show ?thesis
    using B C b by simp
next
  assume e: "(a, b) = (h + 1, tail)"
  then have "\<forall>i. h + 1 \<le> i \<and> i < tail + 1 \<longrightarrow> Q (ws ! i)"
    using permuted_ball [of us ws "h + 1" "tail + 1"] p C b by simp
  moreover have "ws ! i = us ! i" if "i \<le> h" for i
    using permuted_outside [OF p] e that by simp
  ultimately show ?thesis
    using A B b by simp
qed

lemma quicksort_loop_sorts:
  "quicksort_loop key stay frames xs head tail = (ys, None) \<Longrightarrow> tail < length xs \<Longrightarrow>
   \<forall>x\<in>set xs. \<forall>k. key x = Inr k \<longrightarrow> k \<in> K \<Longrightarrow> sorted_segment key ys head tail"
proof (induction "tail + 1 - head" arbitrary: frames xs head tail ys rule: less_induct)
  case less
  show ?case
  proof (cases "head < tail")
    case False
    then show ?thesis
      by (auto simp: sorted_segment_def)
  next
    case True
    from less.prems(1) True less.prems(2) show ?thesis
    proof (cases rule: quicksort_loop_cases)
      case (split v zs h t a1 b1 a2 b2)
      let ?p = "xs ! tail"
      have ab1: "(a1, b1) = (head, t) \<or> (a1, b1) = (h + 1, tail)" and ab2: "(a2, b2) = (head, t) \<or> (a2, b2) = (h + 1, tail)"
        using split(10) by auto
      have seg: "b1 \<le> tail" "b2 \<le> tail" "b1 + 1 - a1 < tail + 1 - head" "b2 + 1 - a2 < tail + 1 - head" "h \<le> tail"
        using split(3,4,5,6,10) True by auto
      have K: "\<forall>k. key x = Inr k \<longrightarrow> k \<in> K" if "x \<in> set zs" for x
        using less.prems(3) permuted_set [OF split(2)] that by simp
      have "xs ! tail \<in> set xs"
        using less.prems(2) by simp
      then have vK: "v \<in> K"
        using less.prems(3) split(1) by blast
      have lz: "length zs = length xs"
        by (rule permuted_length [OF split(2)])
      have zA: "\<forall>i. head \<le> i \<and> i < t + 1 \<longrightarrow> ordered key (zs ! i) ?p \<or> t = h \<and> zs ! i = ?p"
      proof (intro allI impI)
        fix i assume i: "head \<le> i \<and> i < t + 1"
        show "ordered key (zs ! i) ?p \<or> t = h \<and> zs ! i = ?p"
        proof (cases "i < h")
          case True
          then have "zs ! i \<in> set zs"
            using seg less.prems(2) lz by simp
          then show ?thesis
            using may_left_ordered [where key = key and p = ?p, OF _ split(1) vK K] split(8) i True by blast
        next
          case False
          then have "i = h" "t = h"
            using i split(5) by simp_all
          then show ?thesis
            using split(7) by simp
        qed
      qed
      have zC: "\<forall>i. h + 1 \<le> i \<and> i < tail + 1 \<longrightarrow> ordered key ?p (zs ! i)"
      proof (intro allI impI)
        fix i assume i: "h + 1 \<le> i \<and> i < tail + 1"
        then have "zs ! i \<in> set zs" "h < i \<and> i \<le> tail"
          using less.prems(2) lz by simp_all
        then show "ordered key ?p (zs ! i)"
          using may_right_ordered [where key = key and p = ?p, OF _ split(1) vK K] split(9) by blast
      qed
      obtain ws q where ws: "(if frames = 0 then (zs, Some RecursionDepth) else quicksort_loop key stay (frames - 1) zs a1 b1) = (ws, q)"
        by fastforce
      have q: "q = None"
        using split(12) ws by (cases q) simp_all
      then have f: "quicksort_loop key stay (frames - 1) zs a1 b1 = (ws, None)"
        using ws by (simp split: if_splits)
      have g: "quicksort_loop key stay frames ws a2 b2 = (ys, None)"
        using split(12) ws q by simp
      have pw: "permuted zs ws a1 (b1 + 1)"
        using quicksort_loop_frame [OF f] seg(1) less.prems(2) lz by simp
      have lw: "length ws = length xs" "set ws = set zs"
        using permuted_length [OF pw] permuted_set [OF pw] lz by simp_all
      have py: "permuted ws ys a2 (b2 + 1)"
        using quicksort_loop_frame [OF g] seg(2) less.prems(2) lw by simp
      have s1: "sorted_segment key ws a1 b1"
        by (rule less.hyps [OF seg(3) f]) (use seg(1) less.prems(2) lz K in auto)
      have s2: "sorted_segment key ys a2 b2"
        by (rule less.hyps [OF seg(4) g]) (use seg(2) less.prems(2) lw K in auto)
      have s1': "sorted_segment key ys a1 b1"
        using sorted_segment_outside [OF py s1] split(5,10) by auto
      have tlz: "tail < length zs" "tail < length ws"
        using less.prems(2) lz lw by simp_all
      have zB: "t < h \<longrightarrow> zs ! h = ?p"
        using split(7) by simp
      note w = split_kept [OF pw ab1 split(5) seg(5) tlz(1) zA zB zC]
      note y = split_kept [OF py ab2 split(5) seg(5) tlz(2) conjunct1 [OF w] conjunct1 [OF conjunct2 [OF w]] conjunct2 [OF conjunct2 [OF w]]]
      have halves: "sorted_segment key ys head t" "sorted_segment key ys (h + 1) tail"
        using s1' s2 split(10) by auto
      show ?thesis
        by (rule sorted_join [OF halves split(5,6) conjunct1 [OF y] conjunct1 [OF conjunct2 [OF y]] conjunct2 [OF conjunct2 [OF y]]])
    qed simp
  qed
qed

end

end
