(* ===== verification/Py_List_Correct.thy ===== *)
theory Py_List_Correct
  imports Py_List List_Sort_Correct Py_Int_Correct "HOL-Library.Sublist"
begin

text \<open>
  A list object stands for the sequence of the objects in its first \<open>l_len\<close> cells; all cells after
  them are null, so that the collector finds no stale pointer there. Every operation refines the
  operation on sequences that its name says, or raises \<^verbatim>\<open>MemoryError\<close> and leaves a well-formed list.
\<close>

section \<open>Representation\<close>

definition is_list :: "'a mp_list \<Rightarrow> 'a list \<Rightarrow> bool" where
  "is_list s xs \<longleftrightarrow>
     l_len s = length xs \<and> length xs \<le> l_alloc s \<and> 0 < l_alloc s \<and> l_alloc s < 2 ^ 28 \<and>
     l_items s = map Val xs @ replicate (l_alloc s - length xs) Null"

definition list_of :: "'a mp_list \<Rightarrow> 'a list" where
  "list_of s = List.map_filter (\<lambda>c. case c of Val x \<Rightarrow> Some x | _ \<Rightarrow> None) (take (l_len s) (l_items s))"

text \<open>The allocator gives no block of a gigabyte: the memory of the target is smaller.\<close>

definition small_heap :: "'x py_env \<Rightarrow> bool" where
  "small_heap env \<longleftrightarrow> (\<forall>b. env_heap env b \<longrightarrow> b < 2 ^ 30)"

lemma is_listI:
  "l_items s = map Val xs @ replicate k Null \<Longrightarrow> l_len s = length xs \<Longrightarrow> l_alloc s = length xs + k \<Longrightarrow>
   0 < l_alloc s \<Longrightarrow> l_alloc s < 2 ^ 28 \<Longrightarrow> is_list s xs"
  by (simp add: is_list_def)

lemma is_listE:
  assumes "is_list s xs"
  obtains k where "l_items s = map Val xs @ replicate k Null" "l_len s = length xs" "l_alloc s = length xs + k"
    "0 < l_alloc s" "l_alloc s < 2 ^ 28"
  using assms that [of "l_alloc s - length xs"] by (simp add: is_list_def)

lemma list_of_is_list: "is_list s xs \<Longrightarrow> list_of s = xs"
  by (auto simp: is_list_def list_of_def map_filter_def comp_def)

lemma is_list_unique: "is_list s xs \<Longrightarrow> is_list s ys \<Longrightarrow> xs = ys"
  using list_of_is_list by metis

section \<open>Cells\<close>

named_theorems cell_simps "accesses to a buffer inside its bounds"

lemma rd_in [cell_simps]: "i < length xs \<Longrightarrow> rd xs i = Inr (xs ! i)"
  by (simp add: rd_def)

lemma wr_in [cell_simps]: "i < length xs \<Longrightarrow> wr xs i x = Inr (xs[i := x])"
  by (simp add: wr_def)

lemma rd_obj_Val [cell_simps]: "i < length xs \<Longrightarrow> rd_obj (map Val xs @ cs) i = Inr (xs ! i)"
  by (simp add: rd_obj_def rd_def nth_append)

lemma rd_block_in [cell_simps]: "i + n \<le> length xs \<Longrightarrow> rd_block xs i n = Inr (take n (drop i xs))"
  by (simp add: rd_block_def)

lemma wr_block_in [cell_simps]:
  "i + length ys \<le> length xs \<Longrightarrow> wr_block xs i ys = Inr (take i xs @ ys @ drop (i + length ys) xs)"
  by (simp add: wr_block_def)

lemma mp_seq_clear_in [cell_simps]:
  "n \<le> m \<Longrightarrow> m = length cs \<Longrightarrow> mp_seq_clear cs n m = Inr (take n cs @ replicate (m - n) Null)"
  by (simp add: mp_seq_clear_def wr_block_def)

lemma items_bytes_small: "n < 2 ^ 30 \<Longrightarrow> items_bytes n = 4 * n"
  by (simp add: items_bytes_def)

lemma m_renew_items_result:
  assumes "m_renew_items env cs n = m" "small_heap env" "0 < n" "n < 2 ^ 30"
  shows "m = Inl (Exc MemoryError) \<or> n < 2 ^ 28 \<and> m = Inr (take n cs @ replicate (n - length cs) Junk)"
proof (cases "env_heap env (4 * n)")
  case True
  then have "4 * n < 2 ^ 30"
    using assms(2) by (simp add: small_heap_def)
  then show ?thesis
    using True assms(1,3,4) by (simp add: m_renew_items_def items_bytes_small)
qed (use assms(1,3,4) in \<open>simp add: m_renew_items_def items_bytes_small\<close>)

lemma m_new_items_result:
  assumes "m_new_items env n = m" "small_heap env" "0 < n" "n < 2 ^ 30"
  shows "m = Inl (Exc MemoryError) \<or> n < 2 ^ 28 \<and> m = Inr (replicate n Junk)"
proof (cases "env_heap env (4 * n)")
  case True
  then have "4 * n < 2 ^ 30"
    using assms(2) by (simp add: small_heap_def)
  then show ?thesis
    using True assms(1,3,4) by (simp add: m_new_items_def items_bytes_small)
qed (use assms(1,3,4) in \<open>simp add: m_new_items_def items_bytes_small\<close>)

section \<open>New lists\<close>

text \<open>A new list of these objects, or \<^verbatim>\<open>MemoryError\<close>.\<close>

definition new_list_of :: "py_error + 'a mp_list \<Rightarrow> 'a list \<Rightarrow> bool" where
  "new_list_of m xs \<longleftrightarrow> m = Inl (Exc MemoryError) \<or> (\<exists>s. m = Inr s \<and> is_list s xs)"

lemma list_new_result:
  fixes m :: "py_error + 'a mp_list"
  assumes "list_new env n = m" "small_heap env" "n < 2 ^ 30"
  shows "m = Inl (Exc MemoryError) \<or>
    (\<exists>s k. m = Inr s \<and> l_len s = n \<and> l_alloc s = n + k \<and> 0 < l_alloc s \<and> l_alloc s < 2 ^ 28 \<and>
      l_items s = replicate n Junk @ replicate k Null)"
proof -
  define a where "a = (if n < LIST_MIN_ALLOC then LIST_MIN_ALLOC else n)"
  have a: "0 < a" "a < 2 ^ 30" "n \<le> a"
    using assms(3) by (simp_all add: LIST_MIN_ALLOC_def a_def)
  obtain q :: "py_error + 'a cell list" where q: "m_new_items env a = q"
    by blast
  have m: "m = (if env_heap env 16 then bnd q (\<lambda>items. bnd (mp_seq_clear items n a) (\<lambda>items.
           Inr \<lparr>l_alloc = a, l_len = n, l_items = items\<rparr>)) else Inl (Exc MemoryError))"
    by (simp only: assms(1) [symmetric] list_new_def mp_obj_list_init_def Let_def a_def [symmetric] q)
  show ?thesis
  proof (cases "env_heap env 16 \<and> q \<noteq> Inl (Exc MemoryError)")
    case True
    then have q': "a < 2 ^ 28" "q = Inr (replicate a Junk)"
      using m_new_items_result [OF q assms(2) a(1,2)] by simp_all
    then have "m = Inr \<lparr>l_alloc = a, l_len = n, l_items = replicate n Junk @ replicate (a - n) Null\<rparr>"
      using True m a(3) by (simp add: mp_seq_clear_in min_absorb1)
    then show ?thesis
      using a q'(1) by (intro disjI2 exI [of _ "\<lparr>l_alloc = a, l_len = n, l_items = replicate n Junk @ replicate (a - n) Null\<rparr>"]
        exI [of _ "a - n"]) simp
  qed (use m in auto)
qed

lemma new_list_of_bnd:
  assumes "small_heap env" "n < 2 ^ 30"
    and "\<And>s :: 'a mp_list. \<And>k. l_len s = n \<Longrightarrow> l_alloc s = n + k \<Longrightarrow> 0 < l_alloc s \<Longrightarrow> l_alloc s < 2 ^ 28 \<Longrightarrow>
      l_items s = replicate n Junk @ replicate k Null \<Longrightarrow> new_list_of (f s) xs"
  shows "new_list_of (bnd (list_new env n) f) xs"
proof (cases "list_new env n :: py_error + 'a mp_list")
  case (Inl e)
  then show ?thesis
    using list_new_result [OF Inl assms(1,2)] by (simp add: new_list_of_def)
next
  case (Inr s)
  then show ?thesis
    using list_new_result [OF Inr assms(1,2)] assms(3) by auto
qed

lemma copy_items_in:
  "i + n \<le> length src \<Longrightarrow> i + n \<le> length dest \<Longrightarrow>
   copy_items src i n dest = Inr (take i dest @ take n (drop i src) @ drop (i + n) dest)"
proof (induction n arbitrary: i dest)
  case (Suc n)
  have "copy_items src i (Suc n) dest = copy_items src (i + 1) n (dest[i := src ! i])"
    using Suc.prems by (simp add: cell_simps)
  also have "\<dots> = Inr (take (i + 1) (dest[i := src ! i]) @ take n (drop (i + 1) src) @ drop (i + 1 + n) (dest[i := src ! i]))"
    using Suc.prems by (intro Suc.IH) simp_all
  also have "take (i + 1) (dest[i := src ! i]) = take i dest @ [src ! i]"
    using Suc.prems by (simp add: take_Suc_conv_app_nth)
  also have "drop (i + 1 + n) (dest[i := src ! i]) = drop (i + Suc n) dest"
    by simp
  also have "take (Suc n) (drop i src) = src ! i # take n (drop (i + 1) src)"
    using Suc.prems by (simp add: Cons_nth_drop_Suc [symmetric])
  ultimately show ?case
    by simp
qed simp

lemma mp_obj_new_list_empty: "small_heap env \<Longrightarrow> new_list_of (mp_obj_new_list env 0 None) []"
  unfolding mp_obj_new_list_def by (rule new_list_of_bnd) (auto simp: new_list_of_def intro: is_listI)

lemma list_copy_correct:
  assumes "small_heap env" and "is_list s xs"
  shows "new_list_of (list_copy env s) xs"
  using assms(2)
proof (rule is_listE)
  fix k assume s: "l_items s = map Val xs @ replicate k Null" "l_len s = length xs" "l_alloc s = length xs + k"
    "0 < l_alloc s" "l_alloc s < 2 ^ 28"
  then have "l_len s < 2 ^ 30"
    by simp
  then show ?thesis
    unfolding list_copy_def mp_obj_new_list_def
  proof (rule new_list_of_bnd [OF assms(1)])
    fix t :: "'b mp_list" and j
    assume t: "l_len t = l_len s" "l_alloc t = l_len s + j" "0 < l_alloc t"
      "l_alloc t < 2 ^ 28" "l_items t = replicate (l_len s) Junk @ replicate j Null"
    have "copy_items (l_items s) 0 (l_len s) (l_items t) = Inr (map Val xs @ replicate j Null)"
      using s(1,2) t(5) by (simp add: copy_items_in)
    then show "new_list_of (case Some (l_items s) of None \<Rightarrow> Inr t
      | Some src \<Rightarrow> bnd (copy_items src 0 (l_len s) (l_items t)) (\<lambda>cs. Inr (t\<lparr>l_items := cs\<rparr>))) xs"
      using s(2) t by (auto simp: new_list_of_def intro!: is_listI)
  qed
qed

section \<open>Growing and shrinking\<close>

text \<open>
  The outcome of an operation against the sequence and the result of the specification: both are
  met, or \<^verbatim>\<open>MemoryError\<close> is raised and the list holds the old sequence, the new one, or the old one
  with a part of what was to be appended. (A list that fails to shrink in \<^verbatim>\<open>clear\<close> keeps its objects
  in the cells after its length, so only this weaker form holds.)
\<close>

definition holds :: "'a mp_list \<Rightarrow> 'a list \<Rightarrow> bool" where
  "holds s xs \<longleftrightarrow> l_len s = length xs \<and> length xs \<le> l_alloc s \<and> length (l_items s) = l_alloc s \<and>
     take (length xs) (l_items s) = map Val xs"

lemma is_list_holds: "is_list s xs \<Longrightarrow> holds s xs"
  by (simp add: is_list_def holds_def)

definition refines :: "'a mp_list \<times> (py_error + 'r) \<Rightarrow> 'a list \<Rightarrow> 'a list \<times> (py_error + 'r) \<Rightarrow> bool" where
  "refines m xs spec \<longleftrightarrow>
     is_list (fst m) (fst spec) \<and> snd m = snd spec \<or>
     snd m = Inl (Exc MemoryError) \<and>
       (\<exists>zs. holds (fst m) zs \<and> (zs = xs \<or> zs = fst spec \<or> prefix xs zs \<and> prefix zs (fst spec)))"

lemma refinesI: "is_list s' ys \<Longrightarrow> refines (s', r) xs (ys, r)"
  by (simp add: refines_def)

lemma refines_commit:
  assumes "is_list s xs"
    and "m = Inl (Exc MemoryError) \<or> (\<exists>s' r. m = Inr (s', r) \<and> is_list s' ys \<and> spec = (ys, Inr r)) \<or>
      (\<exists>e. m = Inl e \<and> spec = (xs, Inl e))"
  shows "refines (commit s m) xs spec"
  using assms is_list_holds [OF assms(1)] by (auto simp: refines_def commit_def)

lemma refines_prefix:
  assumes "refines m xs' (ys, r)" "prefix xs xs'" "prefix xs' ys"
  shows "refines m xs (ys, r)"
proof -
  have "prefix xs ys"
    using assms(2,3) by (rule prefix_order.trans)
  then show ?thesis
    using assms prefix_order.trans [OF assms(2)] unfolding refines_def fst_conv snd_conv by blast
qed

lemma wr_next [cell_simps]: "n = length xs \<Longrightarrow> wr (map Val xs @ c # cs) n (Val x) = Inr (map Val (xs @ [x]) @ cs)"
  by (simp add: wr_def list_update_append)

lemma mp_obj_list_append_result:
  assumes m: "mp_obj_list_append env s x = (s', r)" and heap: "small_heap env" and s: "is_list s xs"
  shows "r = Inl (Exc MemoryError) \<and> s' = s \<or> r = Inr () \<and> is_list s' (xs @ [x])"
  using s
proof (rule is_listE)
  fix k assume k: "l_items s = map Val xs @ replicate k Null" "l_len s = length xs" "l_alloc s = length xs + k"
    "0 < l_alloc s" "l_alloc s < 2 ^ 28"
  show ?thesis
  proof (cases k)
    case 0
    obtain q where q: "m_renew_items env (l_items s) (l_alloc s * 2) = q"
      by blast
    have "q = Inl (Exc MemoryError) \<or> l_alloc s * 2 < 2 ^ 28 \<and>
        q = Inr (take (l_alloc s * 2) (l_items s) @ replicate (l_alloc s * 2 - length (l_items s)) Junk)"
      using k(4,5) by (intro m_renew_items_result [OF q heap]) simp_all
    then show ?thesis
    proof
      assume "q = Inl (Exc MemoryError)"
      then show ?thesis
        using m q k(2,3) 0 by (simp add: mp_obj_list_append_def commit_def)
    next
      assume *: "l_alloc s * 2 < 2 ^ 28 \<and> q = Inr (take (l_alloc s * 2) (l_items s) @ replicate (l_alloc s * 2 - length (l_items s)) Junk)"
      have "q = Inr (map Val xs @ replicate (length xs) Junk)"
        using * k 0 by simp
      moreover obtain n where n: "length xs = Suc n"
        using k 0 by (cases xs) simp_all
      ultimately have "mp_obj_list_append env s x =
          (s\<lparr>l_items := map Val (xs @ [x]) @ replicate n Null, l_alloc := l_alloc s * 2, l_len := length xs + 1\<rparr>, Inr ())"
        using q k 0 by (simp add: mp_obj_list_append_def commit_def mp_seq_clear_in wr_next)
      then have e: "s' = s\<lparr>l_items := map Val (xs @ [x]) @ replicate n Null, l_alloc := l_alloc s * 2, l_len := length xs + 1\<rparr>" "r = Inr ()"
        using m by simp_all
      have "is_list s' (xs @ [x])"
        unfolding e(1) by (rule is_listI [of _ _ n]) (use * k 0 n in simp_all)
      then show ?thesis
        using e(2) by blast
    qed
  next
    case (Suc n)
    then have "mp_obj_list_append env s x = (s\<lparr>l_items := map Val (xs @ [x]) @ replicate n Null, l_len := length xs + 1\<rparr>, Inr ())"
      using k by (simp add: mp_obj_list_append_def commit_def wr_next)
    then have e: "s' = s\<lparr>l_items := map Val (xs @ [x]) @ replicate n Null, l_len := length xs + 1\<rparr>" "r = Inr ()"
      using m by simp_all
    have "is_list s' (xs @ [x])"
      unfolding e(1) by (rule is_listI [of _ _ n]) (use k Suc in simp_all)
    then show ?thesis
      using e(2) by blast
  qed
qed

lemma mp_obj_list_append_correct:
  assumes "small_heap env" and "is_list s xs"
  shows "refines (mp_obj_list_append env s x) xs (xs @ [x], Inr ())"
  using mp_obj_list_append_result [OF _ assms, of x "fst (mp_obj_list_append env s x)" "snd (mp_obj_list_append env s x)"] is_list_holds [OF assms(2)]
  by (auto simp: refines_def)

lemma list_extend_from_iter_correct:
  "small_heap env \<Longrightarrow> is_list s xs \<Longrightarrow>
   refines (list_extend_from_iter env s ys e) xs (xs @ ys, case e of None \<Rightarrow> Inr () | Some e \<Rightarrow> Inl e)"
proof (induction ys arbitrary: s xs)
  case (Cons y ys)
  obtain s' r where a: "mp_obj_list_append env s y = (s', r)"
    by fastforce
  from mp_obj_list_append_result [OF a Cons.prems] show ?case
  proof
    assume "r = Inl (Exc MemoryError) \<and> s' = s"
    then show ?thesis
      using a is_list_holds [OF Cons.prems(2)] by (auto simp: refines_def)
  next
    assume r: "r = Inr () \<and> is_list s' (xs @ [y])"
    then have "refines (list_extend_from_iter env s' ys e) (xs @ [y]) (xs @ y # ys, case e of None \<Rightarrow> Inr () | Some e \<Rightarrow> Inl e)"
      using Cons.IH [OF Cons.prems(1), of s' "xs @ [y]"] by simp
    then have "refines (list_extend_from_iter env s' ys e) xs (xs @ y # ys, case e of None \<Rightarrow> Inr () | Some e \<Rightarrow> Inl e)"
      by (rule refines_prefix) simp_all
    then show ?thesis
      using a r by simp
  qed
qed (auto simp: refines_def dest: is_list_holds)

lemma list_extend_list_correct:
  assumes heap: "small_heap env" and s: "is_list s xs" and n: "length ys < 2 ^ 28"
    and arg: "\<And>cs. take (length xs) cs = map Val xs \<Longrightarrow> rd_block (arg_items cs) 0 (length ys) = Inr (map Val ys)"
  shows "refines (list_extend_list env s (length ys) arg_items) xs (xs @ ys, Inr ())"
  using s
proof (rule is_listE)
  fix k assume k: "l_items s = map Val xs @ replicate k Null" "l_len s = length xs" "l_alloc s = length xs + k"
    "0 < l_alloc s" "l_alloc s < 2 ^ 28"
  show ?thesis
  proof (cases "k < length ys")
    case True
    let ?n = "l_len s + length ys + 4"
    obtain q where q: "m_renew_items env (l_items s) ?n = q"
      by blast
    have "q = Inl (Exc MemoryError) \<or> ?n < 2 ^ 28 \<and> q = Inr (take ?n (l_items s) @ replicate (?n - length (l_items s)) Junk)"
      using k n by (intro m_renew_items_result [OF q heap]) simp_all
    then show ?thesis
    proof
      assume "q = Inl (Exc MemoryError)"
      then show ?thesis
        unfolding list_extend_list_def using q k True by (intro refines_commit [OF s] disjI1) simp
    next
      assume *: "?n < 2 ^ 28 \<and> q = Inr (take ?n (l_items s) @ replicate (?n - length (l_items s)) Junk)"
      have "q = Inr (map Val xs @ replicate k Null @ replicate (length ys + 4 - k) Junk)"
        using * k True by simp
      then have c: "bnd q (\<lambda>items. mp_seq_clear items (l_len s + length ys) ?n) =
          Inr (map Val xs @ replicate k Null @ replicate (length ys - k) Junk @ replicate 4 Null)"
        using k True by (simp add: mp_seq_clear_in min_absorb1)
      let ?cs = "map Val xs @ replicate k Null @ replicate (length ys - k) Junk @ replicate 4 Null"
      have b: "rd_block (arg_items ?cs) 0 (length ys) = Inr (map Val ys)"
        by (rule arg) simp
      have w: "wr_block ?cs (length xs) (map Val ys) = Inr (map Val xs @ map Val ys @ replicate 4 Null)"
        using True by (simp add: wr_block_in)
      let ?t = "s\<lparr>l_items := map Val (xs @ ys) @ replicate 4 Null, l_alloc := ?n, l_len := length xs + length ys\<rparr>"
      have t: "is_list ?t (xs @ ys)"
        by (rule is_listI [of _ _ 4]) (use * k in simp_all)
      show ?thesis
        unfolding list_extend_list_def
        by (intro refines_commit [OF s] disjI2 disjI1 exI [of _ ?t] exI [of _ "()"])
          (use t q c b w k True in \<open>auto simp: bnd_Inr\<close>)
    qed
  next
    case False
    have b: "rd_block (arg_items (l_items s)) 0 (length ys) = Inr (map Val ys)"
      by (rule arg) (use k in simp)
    have w: "wr_block (l_items s) (length xs) (map Val ys) = Inr (map Val xs @ map Val ys @ replicate (k - length ys) Null)"
      using False k(1) by (simp add: wr_block_in)
    let ?t = "s\<lparr>l_items := map Val (xs @ ys) @ replicate (k - length ys) Null, l_len := length xs + length ys\<rparr>"
    have t: "is_list ?t (xs @ ys)"
      by (rule is_listI [of _ _ "k - length ys"]) (use k False in simp_all)
    show ?thesis
      unfolding list_extend_list_def
      by (intro refines_commit [OF s] disjI2 disjI1 exI [of _ ?t] exI [of _ "()"])
        (use t b w k False in simp_all)
  qed
qed

section \<open>Indices\<close>

lemma checked_int_val:
  "checked_int z = (if \<bar>int_val z\<bar> < 2 ^ 31 then Inr (Some (int_val z)) else Inl (Exc mp_error.OverflowError))"
proof (cases z)
  case (Small ob)
  have "\<bar>int_val z\<bar> < 2 ^ 31"
    using small_val_range [of ob] Small by (simp add: small_range_def abs_less_iff)
  then show ?thesis
    using Small by (simp add: checked_int_def mp_obj_int_get_checked_def int_val_def)
next
  case (Big m)
  show ?thesis
    by (cases "\<bar>mpz_val m\<bar> < 2 ^ 31")
      (simp_all add: Big checked_int_def mp_obj_int_get_checked_def int_val_def mpz_as_int_checked_val sint_word_of_int)
qed

lemma mp_obj_get_int_val:
  "mp_obj_get_int env (O_Int z) = (if \<bar>int_val z\<bar> < 2 ^ 31 then Inr (int_val z) else Inl (Exc mp_error.OverflowError))"
  by (simp add: mp_obj_get_int_def mp_obj_get_int_maybe_def checked_int_val)

text \<open>
  The number that an object is when it stands for an integer: a number of at most 31 bits of
  magnitude, or \<^verbatim>\<open>OverflowError\<close>.
\<close>

definition py_word :: "int \<Rightarrow> py_error + int option" where
  "py_word v = (if \<bar>v\<bar> < 2 ^ 31 then Inr (Some v) else Inl (Exc mp_error.OverflowError))"

definition py_int :: "'x py_env \<Rightarrow> 'x obj \<Rightarrow> py_error + int option" where
  "py_int env ob =
     (case ob of
        O_Int z \<Rightarrow> py_word (int_val z)
      | O_Bool b \<Rightarrow> Inr (Some (of_bool b))
      | O_Other x \<Rightarrow> bnd (env_int_maybe env x) (\<lambda>r. case r of Some z \<Rightarrow> py_word (int_val z) | None \<Rightarrow> Inr None)
      | _ \<Rightarrow> Inr None)"

definition py_the_int :: "'x py_env \<Rightarrow> 'x obj \<Rightarrow> py_error + int" where
  "py_the_int env ob =
     (case py_int env ob of Inl e \<Rightarrow> Inl e | Inr None \<Rightarrow> Inl (Exc mp_error.TypeError) | Inr (Some v) \<Rightarrow> Inr v)"

lemma mp_obj_get_int_maybe_eq: "mp_obj_get_int_maybe env ob = py_int env ob"
proof -
  have checked: "checked_int = (\<lambda>z. py_word (int_val z))"
    by (simp add: fun_eq_iff checked_int_val py_word_def)
  show ?thesis
    by (auto simp: mp_obj_get_int_maybe_def py_int_def checked split: obj.split)
qed

lemma mp_obj_get_int_eq: "mp_obj_get_int env ob = py_the_int env ob"
  unfolding mp_obj_get_int_def py_the_int_def mp_obj_get_int_maybe_eq
  by (auto simp: bnd_def split: sum.split option.split)

text \<open>
  The position that an index means in a sequence of \<open>n\<close> items, and the one that a bound means.
\<close>

definition py_index :: "'x py_env \<Rightarrow> nat \<Rightarrow> 'x obj \<Rightarrow> py_error + nat" where
  "py_index env n ob =
     bnd (py_the_int env ob) (\<lambda>i.
       if 0 \<le> i \<and> i < int n then Inr (nat i)
       else if - int n \<le> i \<and> i < 0 then Inr (nat (int n + i))
       else Inl (Exc IndexError))"

definition py_bound :: "'x py_env \<Rightarrow> nat \<Rightarrow> 'x obj \<Rightarrow> py_error + nat" where
  "py_bound env n ob =
     bnd (py_the_int env ob) (\<lambda>i. Inr (nat (min (int n) (if i < 0 then int n + i else i))))"

lemma mp_get_index_eq: "mp_get_index env n ob False = py_index env n ob"
  unfolding mp_get_index_def py_index_def mp_obj_get_int_eq [symmetric] mp_obj_get_int_def
  by (cases "mp_obj_get_int_maybe env ob") (auto split: option.splits simp: Let_def)

lemma mp_get_index_bound: "mp_get_index env n ob True = py_bound env n ob"
  unfolding mp_get_index_def py_bound_def mp_obj_get_int_eq [symmetric] mp_obj_get_int_def
  by (cases "mp_obj_get_int_maybe env ob") (auto split: option.splits simp: Let_def)

lemma py_index_less: "py_index env n ob = Inr i \<Longrightarrow> i < n"
  unfolding py_index_def by (auto simp: bnd_Inr split: if_splits)

lemma py_bound_le: "py_bound env n ob = Inr i \<Longrightarrow> i \<le> n"
  unfolding py_bound_def by (auto simp: bnd_Inr)

lemma py_index_minus_one: "0 < n \<Longrightarrow> py_index env n (O_Int (Small (MP_OBJ_NEW_SMALL_INT (- 1)))) = Inr (n - 1)"
proof -
  have "int_val (Small (MP_OBJ_NEW_SMALL_INT (- 1))) = - 1"
    by (subst small_new) (simp_all add: small_range_def)
  then show "0 < n \<Longrightarrow> py_index env n (O_Int (Small (MP_OBJ_NEW_SMALL_INT (- 1)))) = Inr (n - 1)"
    by (simp add: py_index_def mp_obj_get_int_eq [symmetric] mp_obj_get_int_val nat_diff_distrib')
qed

lemma py_index_small: "i < n \<Longrightarrow> n < 2 ^ 28 \<Longrightarrow> py_index env n (small_int_obj i) = Inr i"
proof -
  assume i: "i < n" "n < 2 ^ 28"
  then have s: "sint (of_nat i :: u32) = int i"
    using sint_word_of_int [of "int i"] by simp
  then have "int_val (Small (MP_OBJ_NEW_SMALL_INT (of_nat i))) = int i"
    using i by (subst small_new) (simp_all add: small_range_def)
  then show ?thesis
    using i by (simp add: py_index_def small_int_obj_def mp_obj_get_int_eq [symmetric] mp_obj_get_int_val)
qed

lemma refines_new: "is_list s ys \<Longrightarrow> refines (s, Inl (Exc MemoryError)) xs (ys, r)"
  using is_list_holds [of s] by (auto simp: refines_def)

lemma refines_old: "is_list s xs \<Longrightarrow> refines (s, Inl (Exc MemoryError)) xs (ys, r)"
  using is_list_holds [of s] by (auto simp: refines_def)

section \<open>Removal\<close>

definition spec_pop :: "'x py_env \<Rightarrow> 'x obj list \<Rightarrow> 'x obj option \<Rightarrow> 'x obj list \<times> (py_error + 'x obj)" where
  "spec_pop env xs arg =
     (if xs = [] then (xs, Inl (Exc IndexError))
      else case (case arg of None \<Rightarrow> Inr (length xs - 1) | Some ix \<Rightarrow> py_index env (length xs) ix) of
             Inl e \<Rightarrow> (xs, Inl e)
           | Inr i \<Rightarrow> (take i xs @ drop (i + 1) xs, Inr (xs ! i)))"

lemma wr_at: "n = length us \<Longrightarrow> wr (us @ v # cs) n x = Inr (us @ x # cs)"
  by (simp add: wr_def)

text \<open>The move of the items after a removed one, and the null word that takes the last place.\<close>

lemma remove_cells:
  assumes "i < length xs"
  shows "bnd (rd_obj (map Val xs @ cs) i) (\<lambda>ret.
     bnd (rd_block (map Val xs @ cs) (i + 1) (length xs - 1 - i)) (\<lambda>rest.
     bnd (wr_block (map Val xs @ cs) i rest) (\<lambda>items.
     bnd (wr items (length xs - 1) Null) (\<lambda>items. Inr (items, ret))))) =
    Inr (map Val (take i xs @ drop (i + 1) xs) @ Null # cs, xs ! i)"
proof -
  let ?ys = "take i xs @ drop (i + 1) xs"
  have b: "rd_block (map Val xs @ cs) (i + 1) (length xs - 1 - i) = Inr (map Val (drop (i + 1) xs))"
    using assms by (simp add: rd_block_in drop_map)
  obtain z where z: "drop (length xs - 1) xs = [z]"
    using assms by (metis Cons_nth_drop_Suc One_nat_def Suc_pred diff_less drop_all le_refl length_greater_0_conv list.size(3) not_less_zero zero_less_one)
  have "wr_block (map Val xs @ cs) i (map Val (drop (i + 1) xs)) =
      Inr (take i (map Val xs) @ map Val (drop (i + 1) xs) @ drop (length xs - 1) (map Val xs @ cs))"
    using assms by (simp add: wr_block_in)
  also have "drop (length xs - 1) (map Val xs @ cs) = Val z # cs"
    using z assms by (simp add: drop_map)
  finally have w: "wr_block (map Val xs @ cs) i (map Val (drop (i + 1) xs)) = Inr (map Val ?ys @ Val z # cs)"
    by (simp add: take_map)
  have "length ?ys = length xs - 1"
    using assms by simp
  then have v: "wr (map Val ?ys @ Val z # cs) (length xs - 1) Null = Inr (map Val ?ys @ Null # cs)"
    by (intro wr_at) simp
  show ?thesis
    by (simp only: rd_obj_Val [OF assms] bnd_simps b w v)
qed

lemma list_pop_correct:
  assumes heap: "small_heap env" and s: "is_list s xs"
  shows "refines (list_pop env s arg) xs (spec_pop env xs arg)"
  using s
proof (rule is_listE)
  fix k assume k: "l_items s = map Val xs @ replicate k Null" "l_len s = length xs" "l_alloc s = length xs + k"
    "0 < l_alloc s" "l_alloc s < 2 ^ 28"
  show ?thesis
  proof (cases "xs = []")
    case True
    then show ?thesis
      using s k(2) by (simp add: list_pop_def spec_pop_def refinesI)
  next
    case False
    then have ne: "l_len s \<noteq> 0"
      using k(2) by simp
    obtain ix where ix: "mp_get_index env (l_len s)
        (case arg of None \<Rightarrow> O_Int (Small (MP_OBJ_NEW_SMALL_INT (- 1))) | Some ix \<Rightarrow> ix) False = ix"
      by blast
    have ix': "ix = (case arg of None \<Rightarrow> Inr (length xs - 1) | Some ix \<Rightarrow> py_index env (length xs) ix)"
      using ix k(2) False py_index_minus_one [of "length xs" env] by (cases arg) (simp_all add: mp_get_index_eq)
    show ?thesis
    proof (cases ix)
      case (Inl e)
      then show ?thesis
        using ix ix' ne s False by (simp add: list_pop_def spec_pop_def refinesI)
    next
      case (Inr i)
      let ?ys = "take i xs @ drop (i + 1) xs"
      let ?t = "s\<lparr>l_items := map Val ?ys @ Null # replicate k Null, l_len := length xs - 1\<rparr>"
      have i: "i < length xs"
        using Inr ix' False py_index_less by (cases arg) auto
      have spec: "spec_pop env xs arg = (?ys, Inr (xs ! i))"
        using Inr ix' False by (simp add: spec_pop_def)
      have t: "is_list ?t ?ys"
        by (rule is_listI [of _ _ "Suc k"]) (use k i in simp_all)
      have pop: "list_pop env s arg = (let self = ?t in if LIST_MIN_ALLOC < l_alloc self \<and> 2 * l_len self < l_alloc self
               then commit self
                      (bnd (m_renew_items env (l_items self) (l_alloc self div 2)) (\<lambda>items.
                         Inr (self\<lparr>l_items := items, l_alloc := l_alloc self div 2\<rparr>, xs ! i)))
               else (self, Inr (xs ! i)))"
        unfolding list_pop_def ix Inr bnd_simps unfolding k(1,2) remove_cells [OF i] using False by simp
      show ?thesis
      proof (cases "LIST_MIN_ALLOC < l_alloc ?t \<and> 2 * l_len ?t < l_alloc ?t")
        case False
        then show ?thesis
          unfolding pop Let_def spec if_not_P [OF False] by (intro refinesI t)
      next
        case True
        obtain q where q: "m_renew_items env (l_items ?t) (l_alloc ?t div 2) = q"
          by blast
        have "q = Inl (Exc MemoryError) \<or> l_alloc ?t div 2 < 2 ^ 28 \<and>
            q = Inr (take (l_alloc ?t div 2) (l_items ?t) @ replicate (l_alloc ?t div 2 - length (l_items ?t)) Junk)"
          using k(5) True by (intro m_renew_items_result [OF q heap]) (simp_all add: LIST_MIN_ALLOC_def)
        then show ?thesis
        proof
          assume e: "q = Inl (Exc MemoryError)"
          show ?thesis
            unfolding pop Let_def spec if_P [OF True] q e bnd_simps commit_def sum.case by (rule refines_new [OF t])
        next
          assume *: "l_alloc ?t div 2 < 2 ^ 28 \<and>
            q = Inr (take (l_alloc ?t div 2) (l_items ?t) @ replicate (l_alloc ?t div 2 - length (l_items ?t)) Junk)"
          let ?n = "l_alloc s div 2 - length ?ys"
          have ly: "length ?ys = length xs - 1"
            using i by simp
          have "2 * (length xs - 1) < l_alloc s"
            using True by simp
          then have le: "length ?ys \<le> l_alloc s div 2" "l_alloc s div 2 \<le> length xs + k"
            using k(3) unfolding ly by linarith+
          then have "q = Inr (map Val ?ys @ replicate ?n Null)"
            using * i by (simp add: min_absorb2 replicate_Suc [symmetric] del: replicate_Suc)
          moreover have "is_list (?t\<lparr>l_items := map Val ?ys @ replicate ?n Null, l_alloc := l_alloc s div 2\<rparr>) ?ys"
            by (rule is_listI [of _ _ ?n]) (use le True k i in \<open>simp_all add: LIST_MIN_ALLOC_def\<close>)
          ultimately show ?thesis
            unfolding pop Let_def spec if_P [OF True] q by (simp add: commit_def refinesI)
        qed
      qed
    qed
  qed
qed

section \<open>Clearing and insertion\<close>

lemma list_clear_correct:
  assumes heap: "small_heap env" and s: "is_list s xs"
  shows "refines (list_clear env s) xs ([], Inr ())"
  using s
proof (rule is_listE)
  fix k assume k: "l_items s = map Val xs @ replicate k Null" "l_len s = length xs" "l_alloc s = length xs + k"
    "0 < l_alloc s" "l_alloc s < 2 ^ 28"
  obtain q where q: "m_renew_items env (l_items s) LIST_MIN_ALLOC = q"
    by blast
  have clear: "list_clear env s = commit (s\<lparr>l_len := 0\<rparr>)
      (bnd q (\<lambda>items. bnd (mp_seq_clear items 0 LIST_MIN_ALLOC) (\<lambda>items.
         Inr (s\<lparr>l_len := 0, l_items := items, l_alloc := LIST_MIN_ALLOC\<rparr>, ()))))"
    using q by (simp add: list_clear_def Let_def)
  have "q = Inl (Exc MemoryError) \<or> LIST_MIN_ALLOC < 2 ^ 28 \<and>
      q = Inr (take LIST_MIN_ALLOC (l_items s) @ replicate (LIST_MIN_ALLOC - length (l_items s)) Junk)"
    by (rule m_renew_items_result [OF q heap]) (simp_all add: LIST_MIN_ALLOC_def)
  then show ?thesis
  proof
    assume "q = Inl (Exc MemoryError)"
    moreover have "holds (s\<lparr>l_len := 0\<rparr>) []"
      using k by (simp add: holds_def)
    ultimately show ?thesis
      unfolding clear by (auto simp: commit_def refines_def)
  next
    assume *: "LIST_MIN_ALLOC < 2 ^ 28 \<and> q = Inr (take LIST_MIN_ALLOC (l_items s) @ replicate (LIST_MIN_ALLOC - length (l_items s)) Junk)"
    obtain ds where ds: "q = Inr ds" "length ds = LIST_MIN_ALLOC"
      using * by simp
    then have "list_clear env s = (s\<lparr>l_len := 0, l_items := replicate LIST_MIN_ALLOC Null, l_alloc := LIST_MIN_ALLOC\<rparr>, Inr ())"
      unfolding clear by (simp add: mp_seq_clear_in commit_def)
    moreover have "is_list (s\<lparr>l_len := 0, l_items := replicate LIST_MIN_ALLOC Null, l_alloc := LIST_MIN_ALLOC\<rparr>) []"
      by (rule is_listI [of _ _ LIST_MIN_ALLOC]) (simp_all add: LIST_MIN_ALLOC_def)
    ultimately show ?thesis
      by (simp add: refinesI)
  qed
qed

text \<open>
  The position of an insertion is clipped to the sequence. It is the value of a small integer; of
  any other object it is half of the machine word, since the code does not check the type.
\<close>

definition insert_index :: "'x py_env \<Rightarrow> 'x obj \<Rightarrow> int" where
  "insert_index env idx =
     (case idx of O_Int (Small ob) \<Rightarrow> int_val (Small ob) | _ \<Rightarrow> sint (env_word env idx) div 2)"

lemma insert_index_eq: "sint (MP_OBJ_SMALL_INT_VALUE (obj_word env idx)) = insert_index env idx"
  by (auto simp: insert_index_def obj_word_def int_val_def small_value split: obj.split int_obj.split)

definition insert_position :: "'x py_env \<Rightarrow> nat \<Rightarrow> 'x obj \<Rightarrow> nat" where
  "insert_position env n idx =
     (let i = insert_index env idx
      in nat (min (int n) (if i < 0 then int n + i else i)))"

definition spec_insert :: "'x py_env \<Rightarrow> 'x obj list \<Rightarrow> 'x obj \<Rightarrow> 'x obj \<Rightarrow> 'x obj list \<times> (py_error + unit)" where
  "spec_insert env xs idx x =
     (let i = insert_position env (length xs) idx in (take i xs @ [x] @ drop i xs, Inr ()))"

text \<open>The loop moves the cells from \<open>index\<close> on by one place.\<close>

lemma insert_shift_result:
  "index \<le> i \<Longrightarrow> i < length cs \<Longrightarrow>
   insert_shift cs index i = Inr (take (index + 1) cs @ take (i - index) (drop index cs) @ drop (i + 1) cs)"
proof (induction i arbitrary: cs)
  case 0
  then show ?case
    by (simp add: append_take_drop_id [of 1 cs, simplified])
next
  case (Suc i)
  show ?case
  proof (cases "index = Suc i")
    case True
    then show ?thesis
      by simp
  next
    case False
    then have le: "index \<le> i"
      using Suc.prems(1) by simp
    let ?ds = "cs[Suc i := cs ! i]"
    have "insert_shift cs index (Suc i) = insert_shift ?ds index i"
      using le Suc.prems(2) by (simp add: rd_in wr_in)
    also have "\<dots> = Inr (take (index + 1) ?ds @ take (i - index) (drop index ?ds) @ drop (i + 1) ?ds)"
      by (rule Suc.IH) (use le Suc.prems(2) in simp_all)
    also have "take (index + 1) ?ds = take (index + 1) cs"
      using le by simp
    also have "take (i - index) (drop index ?ds) = take (i - index) (drop index cs)"
      using le by (simp add: drop_update_swap)
    also have "drop (i + 1) ?ds = cs ! i # drop (Suc (Suc i)) cs"
      using Suc.prems(2) by (simp add: drop_update_swap Cons_nth_drop_Suc [symmetric])
    also have "take (i - index) (drop index cs) @ cs ! i # drop (Suc (Suc i)) cs =
        take (Suc i - index) (drop index cs) @ drop (Suc i + 1) cs"
      using le Suc.prems(2) by (simp add: Suc_diff_le take_Suc_conv_app_nth)
    finally show ?thesis .
  qed
qed

lemma list_insert_correct:
  assumes heap: "small_heap env" and s: "is_list s xs"
  shows "refines (list_insert env s idx x) xs (spec_insert env xs idx x)"
proof -
  define i where "i = insert_position env (length xs) idx"
  have i: "i \<le> length xs"
    unfolding i_def insert_position_def Let_def by linarith
  have spec: "spec_insert env xs idx x = (take i xs @ [x] @ drop i xs, Inr ())"
    by (simp add: spec_insert_def i_def Let_def)
  obtain s' r where a: "mp_obj_list_append env s O_None = (s', r)"
    by fastforce
  have len: "l_len s = length xs"
    using s by (simp add: is_list_def)
  have pos: "(let index = sint (MP_OBJ_SMALL_INT_VALUE (obj_word env idx));
          index = (if index < 0 then index + int (l_len s) else index);
          index = (if index < 0 then 0 else index)
      in (if int (l_len s) < index then l_len s else nat index)) = i"
    unfolding i_def insert_position_def len Let_def insert_index_eq by auto
  have ins: "list_insert env s idx x = (case (s', r) of
           (self, Inl e) \<Rightarrow> (self, Inl e)
         | (self, Inr _) \<Rightarrow>
             commit self
               (bnd (insert_shift (l_items self) i (l_len self - 1)) (\<lambda>items.
                bnd (wr items i (Val x)) (\<lambda>items. Inr (self\<lparr>l_items := items\<rparr>, ())))))"
    unfolding list_insert_def a pos [symmetric] Let_def by (rule refl)
  from mp_obj_list_append_result [OF a heap s] show ?thesis
  proof
    assume "r = Inl (Exc MemoryError) \<and> s' = s"
    then show ?thesis
      unfolding ins spec using s by (simp add: refines_old)
  next
    assume r: "r = Inr () \<and> is_list s' (xs @ [O_None])"
    from r have "is_list s' (xs @ [O_None])"
      by blast
    then obtain k where k: "l_items s' = map Val (xs @ [O_None]) @ replicate k Null" "l_len s' = length (xs @ [O_None])"
      "l_alloc s' = length (xs @ [O_None]) + k" "0 < l_alloc s'" "l_alloc s' < 2 ^ 28"
      by (rule is_listE)
    let ?us = "xs @ [O_None]"
    have "insert_shift (l_items s') i (l_len s' - 1) =
        Inr (take (i + 1) (l_items s') @ take (length xs - i) (drop i (l_items s')) @ drop (length xs + 1) (l_items s'))"
      using i k(1,2) by (subst insert_shift_result) simp_all
    moreover have "take (i + 1) (l_items s') = map Val (take i xs) @ [Val (?us ! i)]"
      using i k(1) by (simp add: take_Suc_conv_app_nth nth_append take_map del: map_append) (cases "i < length xs"; simp add: nth_append take_map)
    moreover have "take (length xs - i) (drop i (l_items s')) = map Val (drop i xs)"
      using i k(1) by (simp add: drop_map)
    moreover have "drop (length xs + 1) (l_items s') = replicate k Null"
      using k(1) by simp
    ultimately have sh: "insert_shift (l_items s') i (l_len s' - 1) =
        Inr (map Val (take i xs) @ Val (?us ! i) # map Val (drop i xs) @ replicate k Null)"
      by simp
    have w: "wr (map Val (take i xs) @ Val (?us ! i) # map Val (drop i xs) @ replicate k Null) i (Val x) =
        Inr (map Val (take i xs) @ Val x # map Val (drop i xs) @ replicate k Null)"
      using i by (intro wr_at) simp
    have "is_list (s'\<lparr>l_items := map Val (take i xs) @ Val x # map Val (drop i xs) @ replicate k Null\<rparr>) (take i xs @ [x] @ drop i xs)"
      by (rule is_listI [of _ _ k]) (use k i in simp_all)
    then show ?thesis
      unfolding ins spec using r by (simp add: sh w commit_def refinesI del: One_nat_def)
  qed
qed

section \<open>Reversal\<close>

lemma reverse_loop_result:
  "2 * (i + n) \<le> len \<Longrightarrow> len \<le> length cs \<Longrightarrow>
   \<exists>ds. reverse_loop cs len i n = Inr ds \<and> length ds = length cs \<and>
     (\<forall>j<length cs. ds ! j = (if i \<le> j \<and> j < i + n \<or> len - i - n \<le> j \<and> j < len - i then cs ! (len - 1 - j) else cs ! j))"
proof (induction n arbitrary: i cs)
  case (Suc n)
  let ?ds = "cs[i := cs ! (len - i - 1), len - i - 1 := cs ! i]"
  have b: "i < length cs" "len - i - 1 < length cs" "i < len - i - 1 \<or> i = len - i - 1"
    using Suc.prems by auto
  have sw: "swap_cells cs i (len - i - 1) = Inr ?ds"
    by (rule swap_cells_Inr [OF b(1,2)])
  obtain es where es: "reverse_loop ?ds len (i + 1) n = Inr es" "length es = length ?ds"
    "\<forall>j<length ?ds. es ! j = (if i + 1 \<le> j \<and> j < i + 1 + n \<or> len - (i + 1) - n \<le> j \<and> j < len - (i + 1)
      then ?ds ! (len - 1 - j) else ?ds ! j)"
    using Suc.IH [of "i + 1" ?ds] Suc.prems by auto
  have "es ! j = (if i \<le> j \<and> j < i + Suc n \<or> len - i - Suc n \<le> j \<and> j < len - i then cs ! (len - 1 - j) else cs ! j)"
    if j: "j < length cs" for j
  proof -
    let ?A = "i + 1 \<le> j \<and> j < i + 1 + n \<or> len - (i + 1) - n \<le> j \<and> j < len - (i + 1)"
    have e: "es ! j = (if ?A then ?ds ! (len - 1 - j) else ?ds ! j)"
      using es(3) j by (simp only: length_list_update)
    consider "j = i" | "j = len - i - 1" "j \<noteq> i" | "j \<noteq> i" "j \<noteq> len - i - 1"
      by blast
    then show ?thesis
    proof cases
      case 1
      have "\<not> (i + 1 \<le> j \<and> j < i + 1 + n \<or> len - (i + 1) - n \<le> j \<and> j < len - (i + 1))"
        using 1 Suc.prems(1) by auto
      then have "es ! j = ?ds ! j"
        unfolding e by (rule if_not_P)
      also have "\<dots> = cs ! (len - 1 - j)"
        using 1 b by (auto simp: nth_list_update)
      finally show ?thesis
        using 1 by simp
    next
      case 2
      have "\<not> (i + 1 \<le> j \<and> j < i + 1 + n \<or> len - (i + 1) - n \<le> j \<and> j < len - (i + 1))"
        using 2 Suc.prems(1) by auto
      then have "es ! j = ?ds ! j"
        unfolding e by (rule if_not_P)
      also have "\<dots> = cs ! i"
        using 2 b by simp
      also have "i = len - 1 - j"
        using 2 Suc.prems(1) by simp
      finally have "es ! j = cs ! (len - 1 - j)" .
      moreover have "len - i - Suc n \<le> j \<and> j < len - i"
        using 2(1) Suc.prems(1) by auto
      ultimately show ?thesis
        by simp
    next
      case 3
      have c: "(i + 1 \<le> j \<and> j < i + 1 + n \<or> len - (i + 1) - n \<le> j \<and> j < len - (i + 1)) =
          (i \<le> j \<and> j < i + Suc n \<or> len - i - Suc n \<le> j \<and> j < len - i)"
        using 3 Suc.prems(1) by auto
      have u: "?ds ! k = cs ! k" if "k \<noteq> i" "k \<noteq> len - i - 1" for k
        using that by simp
      have "es ! j = (if i \<le> j \<and> j < i + Suc n \<or> len - i - Suc n \<le> j \<and> j < len - i then ?ds ! (len - 1 - j) else ?ds ! j)"
        using e unfolding c .
      also have "?ds ! (len - 1 - j) = cs ! (len - 1 - j)" if "i \<le> j \<and> j < i + Suc n \<or> len - i - Suc n \<le> j \<and> j < len - i"
        using that 3 Suc.prems(1) by (intro u) auto
      then have "(if i \<le> j \<and> j < i + Suc n \<or> len - i - Suc n \<le> j \<and> j < len - i then ?ds ! (len - 1 - j) else ?ds ! j) =
          (if i \<le> j \<and> j < i + Suc n \<or> len - i - Suc n \<le> j \<and> j < len - i then cs ! (len - 1 - j) else cs ! j)"
        using u [OF 3] by simp
      finally show ?thesis .
    qed
  qed
  then show ?case
    using sw es by simp
qed auto

lemma list_reverse_correct:
  assumes "is_list s xs"
  shows "refines (list_reverse s) xs (rev xs, Inr ())"
  using assms
proof (rule is_listE)
  fix k assume k: "l_items s = map Val xs @ replicate k Null" "l_len s = length xs" "l_alloc s = length xs + k"
    "0 < l_alloc s" "l_alloc s < 2 ^ 28"
  obtain ds where ds: "reverse_loop (l_items s) (l_len s) 0 (l_len s div 2) = Inr ds" "length ds = length (l_items s)"
    "\<forall>j<length (l_items s). ds ! j = (if 0 \<le> j \<and> j < 0 + l_len s div 2 \<or> l_len s - 0 - l_len s div 2 \<le> j \<and> j < l_len s - 0
      then l_items s ! (l_len s - 1 - j) else l_items s ! j)"
    using reverse_loop_result [of 0 "l_len s div 2" "l_len s" "l_items s"] k(1,2) by auto
  have "ds = map Val (rev xs) @ replicate k Null"
  proof (rule nth_equalityI)
    fix j assume j: "j < length ds"
    show "ds ! j = (map Val (rev xs) @ replicate k Null) ! j"
    proof (cases "j < length xs")
      case True
      have "j < length xs div 2 \<or> length xs - length xs div 2 \<le> j \<or> length xs - 1 - j = j"
        using True by linarith
      then have "ds ! j = l_items s ! (length xs - 1 - j)"
        using ds(2,3) j k(2) True by auto
      then show ?thesis
        using True k(1) by (simp add: nth_append rev_nth)
    next
      case False
      then show ?thesis
        using ds(2,3) j k(1,2) by (simp add: nth_append)
    qed
  qed (use ds(2) k(1) in simp)
  then have "list_reverse s = (s\<lparr>l_items := map Val (rev xs) @ replicate k Null\<rparr>, Inr ())"
    using ds(1) by (simp add: list_reverse_def commit_def)
  moreover have "is_list (s\<lparr>l_items := map Val (rev xs) @ replicate k Null\<rparr>) (rev xs)"
    by (rule is_listI [of _ _ k]) (use k in simp_all)
  ultimately show ?thesis
    by (simp add: refinesI)
qed

section \<open>Search, comparison and items\<close>

fun spec_find :: "'x py_env \<Rightarrow> 'x obj \<Rightarrow> 'x obj list \<Rightarrow> py_error + nat" where
  "spec_find env x [] = Inl (Exc mp_error.ValueError)"
| "spec_find env x (y # ys) =
     bnd (env_equal env y x) (\<lambda>eq. if eq then Inr 0 else bnd (spec_find env x ys) (\<lambda>i. Inr (i + 1)))"

fun spec_count :: "'x py_env \<Rightarrow> 'x obj \<Rightarrow> 'x obj list \<Rightarrow> py_error + nat" where
  "spec_count env x [] = Inr 0"
| "spec_count env x (y # ys) =
     bnd (env_equal env y x) (\<lambda>eq. bnd (spec_count env x ys) (\<lambda>n. Inr (if eq then n + 1 else n)))"

definition spec_bound :: "'x py_env \<Rightarrow> nat \<Rightarrow> nat \<Rightarrow> 'x obj option \<Rightarrow> py_error + nat" where
  "spec_bound env n dflt arg = (case arg of None \<Rightarrow> Inr dflt | Some ob \<Rightarrow> py_bound env n ob)"

definition spec_index ::
    "'x py_env \<Rightarrow> 'x obj list \<Rightarrow> 'x obj \<Rightarrow> 'x obj option \<Rightarrow> 'x obj option \<Rightarrow> py_error + 'x obj" where
  "spec_index env xs x a b =
     bnd (spec_bound env (length xs) 0 a) (\<lambda>i. bnd (spec_bound env (length xs) (length xs) b) (\<lambda>j.
       bnd (spec_find env x (take (j - i) (drop i xs))) (\<lambda>k. Inr (small_int_obj (i + k)))))"

lemma spec_find_less: "spec_find env x ys = Inr i \<Longrightarrow> i < length ys"
  by (induction ys arbitrary: i) (auto simp: bnd_Inr split: if_splits)

lemma seq_index_loop_spec:
  "i + n \<le> length xs \<Longrightarrow> seq_index_loop env (map Val xs @ cs) x i n =
     bnd (spec_find env x (take n (drop i xs))) (\<lambda>k. Inr (i + k))"
proof (induction n arbitrary: i)
  case (Suc n)
  have "take (Suc n) (drop i xs) = xs ! i # take n (drop (i + 1) xs)"
    using Suc.prems by (simp add: Cons_nth_drop_Suc [symmetric])
  then show ?case
    using Suc by (cases "env_equal env (xs ! i) x"; cases "spec_find env x (take n (drop (Suc i) xs))")
      (simp_all add: rd_obj_Val)
qed simp

lemma seq_count_loop_spec:
  "i + n \<le> length xs \<Longrightarrow> seq_count_loop env (map Val xs @ cs) x i c n =
     bnd (spec_count env x (take n (drop i xs))) (\<lambda>k. Inr (c + k))"
proof (induction n arbitrary: i c)
  case (Suc n)
  have "take (Suc n) (drop i xs) = xs ! i # take n (drop (i + 1) xs)"
    using Suc.prems by (simp add: Cons_nth_drop_Suc [symmetric])
  then show ?case
    using Suc by (cases "env_equal env (xs ! i) x"; cases "spec_count env x (take n (drop (Suc i) xs))")
      (simp_all add: rd_obj_Val)
qed simp

lemma list_index_correct:
  assumes "is_list s xs"
  shows "list_index env s x a b = spec_index env xs x a b"
proof -
  have e: "optional_index env n d arg = spec_bound env n d arg" for n d arg
    by (cases arg) (simp_all add: optional_index_def spec_bound_def mp_get_index_bound)
  have le: "spec_bound env n d arg = Inr j \<Longrightarrow> d \<le> n \<Longrightarrow> j \<le> n" for n d arg j
    by (cases arg) (auto simp: spec_bound_def dest: py_bound_le)
  have loop: "seq_index_loop env (l_items s) x i (j - i) =
      bnd (spec_find env x (take (j - i) (drop i xs))) (\<lambda>k. Inr (i + k))" if "i \<le> length xs" "j \<le> length xs" for i j
    using that seq_index_loop_spec [of i "j - i" xs env "replicate (l_alloc s - length xs) Null" x] assms
    by (auto simp: is_list_def)
  have len: "l_len s = length xs"
    using assms by (simp add: is_list_def)
  show ?thesis
  proof (cases "spec_bound env (length xs) 0 a")
    case (Inr i)
    show ?thesis
    proof (cases "spec_bound env (length xs) (length xs) b")
      case j: (Inr j)
      then show ?thesis
        using Inr loop le [OF Inr] le [OF j]
        by (cases "spec_find env x (take (j - i) (drop i xs))")
          (simp_all add: list_index_def mp_seq_index_obj_def spec_index_def e len)
    qed (use Inr in \<open>simp add: list_index_def mp_seq_index_obj_def spec_index_def e len\<close>)
  qed (simp add: list_index_def mp_seq_index_obj_def spec_index_def e len)
qed

lemma list_count_correct:
  assumes "is_list s xs"
  shows "list_count env s x = bnd (spec_count env x xs) (\<lambda>n. Inr (small_int_obj n))"
proof -
  have "seq_count_loop env (l_items s) x 0 0 (l_len s) = bnd (spec_count env x xs) (\<lambda>k. Inr k)"
    using assms seq_count_loop_spec [of 0 "length xs" xs env "replicate (l_alloc s - length xs) Null" x 0]
    by (simp add: is_list_def)
  then show ?thesis
    by (cases "spec_count env x xs") (simp_all add: list_count_def mp_seq_count_obj_def)
qed

definition spec_remove :: "'x py_env \<Rightarrow> 'x obj list \<Rightarrow> 'x obj \<Rightarrow> 'x obj list \<times> (py_error + unit)" where
  "spec_remove env xs x =
     (case spec_find env x xs of Inl e \<Rightarrow> (xs, Inl e) | Inr i \<Rightarrow> (take i xs @ drop (i + 1) xs, Inr ()))"

lemma refines_unit:
  "refines (s', r) xs (ys, q) \<Longrightarrow> refines (s', bnd r (\<lambda>_. Inr ())) xs (ys, bnd q (\<lambda>_. Inr ()))"
  by (auto simp: refines_def)

lemma mp_obj_list_remove_correct:
  assumes heap: "small_heap env" and s: "is_list s xs"
  shows "refines (mp_obj_list_remove env s x) xs (spec_remove env xs x)"
proof -
  have ix: "list_index env s x None None = bnd (spec_find env x xs) (\<lambda>k. Inr (small_int_obj k))"
    unfolding list_index_correct [OF s] spec_index_def spec_bound_def by simp
  show ?thesis
  proof (cases "spec_find env x xs")
    case (Inl e)
    then show ?thesis
      using ix s by (simp add: mp_obj_list_remove_def spec_remove_def refinesI)
  next
    case (Inr i)
    have "length xs < 2 ^ 28"
      using s by (simp add: is_list_def)
    then have "spec_pop env xs (Some (small_int_obj i)) = (take i xs @ drop (i + 1) xs, Inr (xs ! i))"
      using spec_find_less [OF Inr] py_index_small [of i "length xs" env] by (auto simp: spec_pop_def)
    moreover obtain s' r where pop: "list_pop env s (Some (small_int_obj i)) = (s', r)"
      by fastforce
    ultimately have "refines (s', r) xs (take i xs @ drop (i + 1) xs, Inr (xs ! i))"
      using list_pop_correct [OF heap s, of "Some (small_int_obj i)"] by simp
    from refines_unit [OF this] show ?thesis
      using ix Inr pop by (simp add: mp_obj_list_remove_def spec_remove_def)
  qed
qed

definition spec_store :: "'x py_env \<Rightarrow> 'x obj list \<Rightarrow> 'x obj \<Rightarrow> 'x obj \<Rightarrow> 'x obj list \<times> (py_error + unit)" where
  "spec_store env xs ix x =
     (case py_index env (length xs) ix of Inl e \<Rightarrow> (xs, Inl e) | Inr i \<Rightarrow> (xs[i := x], Inr ()))"

lemma mp_obj_list_store_correct:
  assumes s: "is_list s xs"
  shows "refines (mp_obj_list_store env s ix x) xs (spec_store env xs ix x)"
  using s
proof (rule is_listE)
  fix k assume k: "l_items s = map Val xs @ replicate k Null" "l_len s = length xs" "l_alloc s = length xs + k"
    "0 < l_alloc s" "l_alloc s < 2 ^ 28"
  show ?thesis
  proof (cases "py_index env (length xs) ix")
    case (Inl e)
    then show ?thesis
      using k(2) s by (simp add: mp_obj_list_store_def spec_store_def mp_get_index_eq commit_def refinesI)
  next
    case (Inr i)
    then have i: "i < length xs"
      by (rule py_index_less)
    then have "wr (l_items s) i (Val x) = Inr (map Val (xs[i := x]) @ replicate k Null)"
      using k(1) by (simp add: wr_def list_update_append map_update)
    moreover have "is_list (s\<lparr>l_items := map Val (xs[i := x]) @ replicate k Null\<rparr>) (xs[i := x])"
      by (rule is_listI [of _ _ k]) (use k in simp_all)
    ultimately show ?thesis
      using Inr k(2) by (simp add: mp_obj_list_store_def spec_store_def mp_get_index_eq commit_def refinesI)
  qed
qed

lemma list_it_iternext_correct:
  "is_list s xs \<Longrightarrow> list_it_iternext s cur = Inr (if cur < length xs then Some (xs ! cur, cur + 1) else None)"
  by (auto simp: is_list_def list_it_iternext_def rd_obj_Val)

text \<open>Comparison: \<^verbatim>\<open>>\<close> and \<^verbatim>\<open>>=\<close> are decided by the first pair that is not equal, then by the lengths.\<close>

fun spec_more :: "'x py_env \<Rightarrow> binary_op \<Rightarrow> 'x obj list \<Rightarrow> 'x obj list \<Rightarrow> py_error + bool" where
  "spec_more env op [] [] = Inr (op \<noteq> OP_MORE)"
| "spec_more env op [] (y # ys) = Inr False"
| "spec_more env op (x # xs) [] = Inr True"
| "spec_more env op (x # xs) (y # ys) =
     bnd (env_equal env x y) (\<lambda>eq.
       if eq then spec_more env op xs ys
       else if op = OP_EQUAL then Inr False
       else bnd (env_binary env op x y) (\<lambda>r. Inr (r = O_Bool True)))"

definition spec_compare :: "'x py_env \<Rightarrow> binary_op \<Rightarrow> 'x obj list \<Rightarrow> 'x obj list \<Rightarrow> py_error + bool" where
  "spec_compare env op xs ys =
     (if op = OP_EQUAL \<and> length xs \<noteq> length ys then Inr False
      else if op = OP_LESS then spec_more env OP_MORE ys xs
      else if op = OP_LESS_EQUAL then spec_more env OP_MORE_EQUAL ys xs
      else spec_more env op xs ys)"

lemma rd_obj_Cons: "rd_obj (a # xs) (Suc i) = rd_obj xs i"
  by (simp add: rd_obj_def rd_def)

lemma seq_cmp_loop_shift:
  "seq_cmp_loop env op (a # xs) (b # ys) (Suc i) n = seq_cmp_loop env op xs ys i n"
proof (induction n arbitrary: i)
  case (Suc n)
  show ?case
  proof (cases "rd_obj xs i")
    case x: (Inr x)
    show ?thesis
    proof (cases "rd_obj ys i")
      case y: (Inr y)
      then show ?thesis
        using x Suc by (cases "env_equal env x y") (auto simp: rd_obj_Cons)
    qed (use x in \<open>simp add: rd_obj_Cons\<close>)
  qed (simp add: rd_obj_Cons)
qed simp

lemma seq_cmp_loop_spec:
  "bnd (seq_cmp_loop env op (map Val xs @ cs) (map Val ys @ ds) 0 (min (length xs) (length ys))) (\<lambda>r.
     case r of Some b \<Rightarrow> Inr b | None \<Rightarrow> Inr (seq_cmp_tie op (length xs) (length ys))) =
   spec_more env op xs ys"
proof (induction env op xs ys rule: spec_more.induct)
  case (4 env op x xs y ys)
  have rd: "rd_obj (Val x # map Val xs @ cs) 0 = Inr x" "rd_obj (Val y # map Val ys @ ds) 0 = Inr y"
    by (simp_all add: rd_obj_def rd_def)
  have tie: "seq_cmp_tie op (length (x # xs)) (length (y # ys)) = seq_cmp_tie op (length xs) (length ys)"
    by (simp add: seq_cmp_tie_def)
  show ?case
  proof (cases "env_equal env x y")
    case (Inr eq)
    show ?thesis
    proof (cases eq)
      case True
      then show ?thesis
        using 4 [OF True] Inr unfolding tie by (simp add: seq_cmp_loop_shift rd)
    next
      case False
      then show ?thesis
        using Inr rd by (cases "env_binary env op x y") simp_all
    qed
  qed (use rd in simp)
qed (simp_all add: seq_cmp_tie_def)

lemma list_compare_correct:
  assumes "is_list s xs" and "is_list p ys"
  shows "list_compare env op s (Some p) = bnd (spec_compare env op xs ys) (\<lambda>b. Inr (Some b))"
proof -
  have mn: "(if a < b then a else b) = min a b" for a b :: nat
    by simp
  have f: "l_len s = length xs" "l_items s = map Val xs @ replicate (l_alloc s - length xs) Null"
    "l_len p = length ys" "l_items p = map Val ys @ replicate (l_alloc p - length ys) Null"
    using assms by (simp_all add: is_list_def)
  have "mp_seq_cmp_objs env op (l_items s) (l_len s) (l_items p) (l_len p) = spec_compare env op xs ys"
    unfolding mp_seq_cmp_objs_def spec_compare_def f Let_def mn
    by (cases "op = OP_LESS"; cases "op = OP_LESS_EQUAL") (simp_all add: seq_cmp_loop_spec)
  then show ?thesis
    by (simp add: list_compare_def)
qed

end
