(* ===== verification/Py_List_Slice.thy ===== *)
theory Py_List_Slice
  imports Py_List_Correct
begin

text \<open>
  The operations of a list that make a new list or move a block of items: concatenation,
  repetition, and the load, deletion and assignment of slices. A slice means the items at the
  positions of Python's \<^verbatim>\<open>range(start, stop, step)\<close>.
\<close>

section \<open>Extension and concatenation\<close>

definition arg_items :: "'a seq_arg \<Rightarrow> 'a list \<Rightarrow> 'a list \<times> py_error option" where
  "arg_items arg own =
     (case arg of
        Arg_Self \<Rightarrow> (own, None) | Arg_List l \<Rightarrow> (list_of l, None) | Arg_Tuple xs \<Rightarrow> (xs, None) | Arg_Iter xs e \<Rightarrow> (xs, e))"

definition arg_ok :: "'a seq_arg \<Rightarrow> bool" where
  "arg_ok arg \<longleftrightarrow> (case arg of Arg_List l \<Rightarrow> is_list l (list_of l) | Arg_Tuple xs \<Rightarrow> length xs < 2 ^ 28 | _ \<Rightarrow> True)"

lemma is_list_length: "is_list s xs \<Longrightarrow> length xs < 2 ^ 28"
  by (simp add: is_list_def)

lemma rd_block_take:
  assumes "take (length xs) cs = map Val xs"
  shows "rd_block cs 0 (length xs) = Inr (map Val xs)"
proof -
  have "length (take (length xs) cs) = length xs"
    unfolding assms by simp
  then have "length xs \<le> length cs"
    by simp
  then show ?thesis
    using assms by (simp add: rd_block_in)
qed

lemma list_extend_correct:
  assumes heap: "small_heap env" and s: "is_list s xs" and arg: "arg_ok arg"
  shows "refines (list_extend env s arg) xs
    (xs @ fst (arg_items arg xs), case snd (arg_items arg xs) of None \<Rightarrow> Inr () | Some e \<Rightarrow> Inl e)"
proof (cases arg)
  case Arg_Self
  have "l_len s = length xs"
    using s by (simp add: is_list_def)
  then show ?thesis
    using list_extend_list_correct [OF heap s is_list_length [OF s], of "\<lambda>own. own", OF rd_block_take] Arg_Self
    by (simp add: list_extend_def arg_items_def)
next
  case (Arg_List l)
  then have l: "is_list l (list_of l)"
    using arg by (simp add: arg_ok_def)
  then have "l_len l = length (list_of l)" "rd_block (l_items l) 0 (length (list_of l)) = Inr (map Val (list_of l))"
    by (simp_all add: is_list_def rd_block_in)
  then show ?thesis
    using list_extend_list_correct [OF heap s is_list_length [OF l], of "\<lambda>own. l_items l"] Arg_List
    by (simp add: list_extend_def arg_items_def)
next
  case (Arg_Tuple ys)
  then show ?thesis
    using list_extend_from_iter_correct [OF heap s, of ys None] by (simp add: list_extend_def arg_items_def)
next
  case (Arg_Iter ys e)
  then show ?thesis
    using list_extend_from_iter_correct [OF heap s, of ys e] by (simp add: list_extend_def arg_items_def)
qed

text \<open>The items of a new list are written over the whole of its length.\<close>

lemma new_list_filled:
  assumes "l_len t = length xs" "l_alloc t = length xs + k" "0 < l_alloc t" "l_alloc t < 2 ^ 28"
  shows "new_list_of (Inr (t\<lparr>l_items := map Val xs @ replicate k Null\<rparr>)) xs"
  unfolding new_list_of_def using assms by (auto intro!: is_listI)

lemma list_add_correct:
  assumes heap: "small_heap env" and s: "is_list s xs" and p: "is_list p ys"
  shows "new_list_of (list_add env s p) (xs @ ys)"
proof -
  have f: "l_len s = length xs" "l_items s = map Val xs @ replicate (l_alloc s - length xs) Null"
    "l_len p = length ys" "l_items p = map Val ys @ replicate (l_alloc p - length ys) Null"
    using s p by (simp_all add: is_list_def)
  have n: "l_len s + l_len p < 2 ^ 30"
    using is_list_length [OF s] is_list_length [OF p] f by simp
  show ?thesis
    unfolding list_add_def
  proof (rule new_list_of_bnd [OF heap n])
    fix t :: "'b mp_list" and k
    assume t: "l_len t = l_len s + l_len p" "l_alloc t = l_len s + l_len p + k" "0 < l_alloc t"
      "l_alloc t < 2 ^ 28" "l_items t = replicate (l_len s + l_len p) Junk @ replicate k Null"
    have "mp_seq_cat (l_items t) (l_items s) (l_len s) (l_items p) (l_len p) = Inr (map Val (xs @ ys) @ replicate k Null)"
      unfolding mp_seq_cat_def f t(5) by (simp add: rd_block_in wr_block_in)
    then show "new_list_of (bnd (mp_seq_cat (l_items t) (l_items s) (l_len s) (l_items p) (l_len p))
        (\<lambda>items. Inr (t\<lparr>l_items := items\<rparr>))) (xs @ ys)"
      using new_list_filled [of t "xs @ ys" k] t f by simp
  qed
qed

section \<open>Repetition\<close>

lemma seq_multiply_loop_in:
  "length xs \<le> length cs \<Longrightarrow> take (length xs) cs = xs \<Longrightarrow> pos + n * length xs \<le> length dest \<Longrightarrow>
   seq_multiply_loop cs (length xs) n dest pos =
     Inr (take pos dest @ concat (replicate n xs) @ drop (pos + n * length xs) dest)"
proof (induction n arbitrary: pos dest)
  case (Suc n)
  have rd: "rd_block cs 0 (length xs) = Inr xs"
    using Suc.prems(1,2) by (simp add: rd_block_in)
  have wr: "wr_block dest pos xs = Inr (take pos dest @ xs @ drop (pos + length xs) dest)"
    using Suc.prems(3) by (simp add: wr_block_in)
  have "seq_multiply_loop cs (length xs) n (take pos dest @ xs @ drop (pos + length xs) dest) (pos + length xs) =
      Inr (take (pos + length xs) (take pos dest @ xs @ drop (pos + length xs) dest) @ concat (replicate n xs) @
        drop (pos + length xs + n * length xs) (take pos dest @ xs @ drop (pos + length xs) dest))"
    using Suc.prems by (intro Suc.IH) simp_all
  then show ?case
    using Suc.prems(3) by (simp add: rd wr ac_simps)
qed simp

text \<open>With more items than the buffer has cells the copy leaves the buffer, whatever it holds.\<close>

lemma seq_multiply_loop_out:
  "0 < len \<Longrightarrow> pos \<le> length dest \<Longrightarrow> length dest < pos + n * len \<Longrightarrow> seq_multiply_loop cs len n dest pos = Inl Fault"
proof (induction n arbitrary: pos dest)
  case (Suc n)
  show ?case
  proof (cases "rd_block cs 0 len")
    case (Inl e)
    then show ?thesis
      by (simp add: rd_block_def split: if_splits)
  next
    case (Inr block)
    then have b: "length block = len" "block \<noteq> []"
      using Suc.prems(1) by (auto simp: rd_block_def split: if_splits)
    show ?thesis
    proof (cases "pos + len \<le> length dest")
      case True
      let ?d = "take pos dest @ block @ drop (pos + len) dest"
      have "wr_block dest pos block = Inr ?d"
        using True b by (simp add: wr_block_def)
      moreover have "seq_multiply_loop cs len n ?d (pos + len) = Inl Fault"
        by (rule Suc.IH) (use Suc.prems True b in \<open>simp_all add: add.assoc\<close>)
      ultimately show ?thesis
        using Inr by simp
    next
      case False
      then have "wr_block dest pos block = Inl Fault"
        using b by (simp add: wr_block_def)
      then show ?thesis
        using Inr by simp
    qed
  qed
qed simp

definition repeat_count :: "int \<Rightarrow> nat" where
  "repeat_count n = nat (if n < 0 then 0 else n)"

lemma list_multiply_unfold:
  "mp_obj_get_int_maybe env rhs = Inr (Some n) \<Longrightarrow>
   list_multiply env s rhs = bnd (list_new env (l_len s * repeat_count n mod 2 ^ 32)) (\<lambda>t.
     bnd (mp_seq_multiply (l_items s) (l_len s) (repeat_count n) (l_items t)) (\<lambda>items. Inr (Some (t\<lparr>l_items := items\<rparr>))))"
  by (simp add: list_multiply_def repeat_count_def Let_def)

lemma list_multiply_fits:
  fixes env :: "'x py_env" and s :: "'x obj mp_list"
  assumes heap: "small_heap env" and s: "is_list s xs" and n: "mp_obj_get_int_maybe env rhs = Inr (Some n)"
    and fits: "length xs * repeat_count n < 2 ^ 30"
  shows "list_multiply env s rhs = Inl (Exc MemoryError) \<or>
    (\<exists>t. list_multiply env s rhs = Inr (Some t) \<and> is_list t (concat (replicate (repeat_count n) xs)))"
proof -
  let ?n = "repeat_count n" and ?ys = "concat (replicate (repeat_count n) xs)"
  have ys: "length ?ys = length xs * ?n"
    by (simp add: length_concat sum_list_replicate)
  have len: "l_len s = length xs"
    using s by (simp add: is_list_def)
  have m: "l_len s * ?n mod 2 ^ 32 = length ?ys"
    using fits by (simp add: len ys)
  obtain r :: "py_error + 'x obj mp_list" where r: "list_new env (length ?ys) = r"
    by blast
  have "length ?ys < 2 ^ 30"
    using fits ys by simp
  from list_new_result [OF r heap this] show ?thesis
  proof
    assume "r = Inl (Exc MemoryError)"
    then show ?thesis
      using list_multiply_unfold [OF n, of s] r m by simp
  next
    assume "\<exists>t k. r = Inr t \<and> l_len t = length ?ys \<and> l_alloc t = length ?ys + k \<and> 0 < l_alloc t \<and> l_alloc t < 2 ^ 28 \<and>
      l_items t = replicate (length ?ys) Junk @ replicate k Null"
    then obtain t k where t: "r = Inr t" "l_len t = length ?ys" "l_alloc t = length ?ys + k" "0 < l_alloc t" "l_alloc t < 2 ^ 28"
      "l_items t = replicate (length ?ys) Junk @ replicate k Null"
      by blast
    have "mp_seq_multiply (l_items s) (length (map Val xs)) ?n (l_items t) =
        Inr (take 0 (l_items t) @ concat (replicate ?n (map Val xs)) @ drop (0 + ?n * length (map Val xs)) (l_items t))"
      unfolding mp_seq_multiply_def using s t(6) ys by (intro seq_multiply_loop_in) (simp_all add: is_list_def)
    also have "concat (replicate ?n (map Val xs)) = map Val ?ys"
      by (simp add: map_concat)
    also have "drop (0 + ?n * length (map Val xs)) (l_items t) = replicate k Null"
      using t(6) ys by (simp add: mult.commute)
    finally have "list_multiply env s rhs = Inr (Some (t\<lparr>l_items := map Val ?ys @ replicate k Null\<rparr>))"
      using list_multiply_unfold [OF n, of s] r t(1) m len by simp
    moreover have "is_list (t\<lparr>l_items := map Val ?ys @ replicate k Null\<rparr>) ?ys"
      by (rule is_listI [of _ _ k]) (use t in simp_all)
    ultimately show ?thesis
      by blast
  qed
qed

lemma list_new_size: "list_new env n = Inr t \<Longrightarrow> length (l_items t) < 2 ^ 30"
proof -
  assume t: "list_new env n = Inr t"
  define a where "a = (if n < LIST_MIN_ALLOC then LIST_MIN_ALLOC else n)"
  obtain items items' where *: "m_new_items env a = Inr items" "mp_seq_clear items n a = Inr items'" "l_items t = items'"
    using t by (auto simp: list_new_def mp_obj_list_init_def Let_def a_def bnd_Inr split: if_splits)
  have "length items = items_bytes a div 4"
    using *(1) by (auto simp: m_new_items_def split: if_splits)
  moreover have "length items' = length items"
    using *(2) by (auto simp: mp_seq_clear_def wr_block_def split: if_splits)
  moreover have "items_bytes a < 2 ^ 32"
    by (simp add: items_bytes_def)
  ultimately show ?thesis
    using *(3) by simp
qed

lemma list_multiply_overflows:
  assumes s: "is_list s xs" and n: "mp_obj_get_int_maybe env rhs = Inr (Some n)"
    and over: "2 ^ 30 \<le> length xs * repeat_count n"
    and new: "list_new env (l_len s * repeat_count n mod 2 ^ 32) = Inr (t :: 'x obj mp_list)"
  shows "list_multiply env (s :: 'x obj mp_list) rhs = Inl Fault"
proof -
  have len: "l_len s = length xs" "0 < length xs"
    using s over by (auto simp: is_list_def)
  have "length (l_items t) < 0 + repeat_count n * length xs"
    using list_new_size [OF new] over by (simp add: mult.commute)
  then have "mp_seq_multiply (l_items s) (length xs) (repeat_count n) (l_items t) = Inl Fault"
    unfolding mp_seq_multiply_def using len(2) by (intro seq_multiply_loop_out) simp_all
  then show ?thesis
    using list_multiply_unfold [OF n, of s] new len(1) by simp
qed

section \<open>Slices\<close>

text \<open>The positions of Python's \<^verbatim>\<open>range(start, stop, step)\<close>.\<close>

definition py_range :: "int \<Rightarrow> int \<Rightarrow> int \<Rightarrow> int list" where
  "py_range start stop step =
     map (\<lambda>k. start + int k * step)
       [0..<nat (if 0 < step then (stop - start + step - 1) div step else (start - stop - step - 1) div (- step))]"

lemma py_range_up:
  assumes "0 < step"
  shows "py_range start stop step = (if start < stop then start # py_range (start + step) stop step else [])"
proof (cases "start < stop")
  case True
  let ?y = "stop - start - 1"
  have "nat ((?y + step) div step) = Suc (nat (?y div step))"
    using True assms by (simp add: pos_imp_zdiv_nonneg_iff nat_add_distrib)
  moreover have "stop - start + step - 1 = ?y + step" "stop - (start + step) + step - 1 = ?y"
    by simp_all
  ultimately show ?thesis
    using True assms unfolding py_range_def
    by (simp only: if_True upt_conv_Cons [of 0 "Suc _"] map_Suc_upt [symmetric] zero_less_Suc list.map list.map_comp comp_def)
      (simp add: algebra_simps)
next
  case False
  then have "(stop - start + step - 1) div step < 1"
    using assms by (simp add: int_div_less)
  then show ?thesis
    using False assms by (simp add: py_range_def)
qed

lemma py_range_neg: "step < 0 \<Longrightarrow> py_range start stop step = map uminus (py_range (- start) (- stop) (- step))"
  by (simp add: py_range_def algebra_simps)

lemma py_range_down:
  assumes "step < 0"
  shows "py_range start stop step = (if stop < start then start # py_range (start + step) stop step else [])"
  using assms py_range_up [of "- step" "- start" "- stop"] by (simp add: py_range_neg)

lemma py_range_one: "py_range start stop 1 = map int [nat start..<nat stop]" if "0 \<le> start"
proof (cases "start \<le> stop")
  case True
  then have "[nat start..<nat stop] = map (\<lambda>k. nat start + k) [0..<nat (stop - start)]"
    using that by (simp add: nat_diff_distrib add.commute map_add_upt)
  then show ?thesis
    using that by (simp add: py_range_def comp_def)
qed (simp add: py_range_def)

text \<open>
  Python's bounds of a slice of \<open>n\<close> items: the step, which is 1 unless it is given and must not be
  zero, then the start and the stop. A negative bound counts from the end. A bound before the first
  item is the first item or, downwards, the place before it; a bound behind the last item is the
  place behind it or, downwards, the last item. A bound that is not given is the end that the step
  comes from or goes to.
\<close>

definition py_clip :: "int \<Rightarrow> bool \<Rightarrow> int \<Rightarrow> int" where
  "py_clip n down v =
     (if v < - n then (if down then - 1 else 0)
      else if v < 0 then n + v
      else if v < n then v
      else if down then n - 1 else n)"

definition py_slice_end :: "'x py_env \<Rightarrow> int \<Rightarrow> bool \<Rightarrow> int \<Rightarrow> 'x obj \<Rightarrow> py_error + int" where
  "py_slice_end env n down dflt ob =
     (if ob = O_None then Inr dflt else bnd (py_the_int env ob) (\<lambda>v. Inr (py_clip n down v)))"

definition py_step :: "'x py_env \<Rightarrow> 'x obj \<Rightarrow> py_error + int" where
  "py_step env ob =
     (if ob = O_None then Inr 1
      else case py_the_int env ob of
             Inl e \<Rightarrow> Inl e
           | Inr v \<Rightarrow> if v = 0 then Inl (Exc mp_error.ValueError) else Inr v)"

definition py_slice :: "'x py_env \<Rightarrow> nat \<Rightarrow> 'x obj \<Rightarrow> 'x obj \<Rightarrow> 'x obj \<Rightarrow> py_error + int \<times> int \<times> int" where
  "py_slice env n a b c =
     bnd (py_step env c) (\<lambda>step.
       bnd (py_slice_end env (int n) (step < 0) (if step < 0 then int n - 1 else 0) a) (\<lambda>start.
       bnd (py_slice_end env (int n) (step < 0) (if step < 0 then - 1 else int n) b) (\<lambda>stop.
         Inr (start, stop, step))))"

text \<open>The bounds that the code computes are these, and the range they stand for.\<close>

lemma slice_step_eq: "slice_step env ob = py_step env ob"
  by (cases "py_the_int env ob") (simp_all add: slice_step_def py_step_def mp_obj_get_int_eq)

lemma slice_bound_eq:
  "slice_bound env (int n) dflt (if down then - 1 else 0) (if down then int n - 1 else int n) ob = py_slice_end env (int n) down dflt ob"
proof -
  have "min (if down then int n - 1 else int n) (max (if v < 0 then v + int n else v) (if down then - 1 else 0)) = py_clip (int n) down v" for v
    by (auto simp: py_clip_def)
  then show ?thesis
    by (simp add: slice_bound_def py_slice_end_def mp_obj_get_int_eq)
qed

lemma mp_obj_slice_indices_eq:
  "bnd (mp_obj_slice_indices env a b c (int n)) (\<lambda>ix. f (sl_start ix) (sl_stop ix) (sl_step ix)) =
   bnd (py_slice env n a b c) (\<lambda>(start, stop, step). f start stop step)"
proof (cases "py_step env c")
  case (Inl e)
  then show ?thesis
    by (simp add: mp_obj_slice_indices_def py_slice_def slice_step_eq)
next
  case (Inr step)
  note bound = slice_bound_eq [of env n _ "step < 0"]
  have "step \<noteq> 0"
    using Inr by (auto simp: py_step_def split: if_splits sum.splits)
  then consider "0 < step" | "step < 0"
    by linarith
  then show ?thesis
  proof cases
    case 1
    then show ?thesis
      using bound [of 0 a] bound [of "int n" b] Inr
      by (cases "py_slice_end env (int n) False 0 a"; cases "py_slice_end env (int n) False (int n) b")
        (simp_all add: mp_obj_slice_indices_def py_slice_def slice_step_eq)
  next
    case 2
    then show ?thesis
      using bound [of "int n - 1" a] bound [of "- 1" b] Inr
      by (cases "py_slice_end env (int n) True (int n - 1) a"; cases "py_slice_end env (int n) True (- 1) b")
        (simp_all add: mp_obj_slice_indices_def py_slice_def slice_step_eq)
  qed
qed

lemma slice_bound_range:
  "slice_bound env len dflt lo hi ob = Inr b \<Longrightarrow> lo \<le> hi \<Longrightarrow> lo \<le> dflt \<Longrightarrow> dflt \<le> hi \<Longrightarrow> lo \<le> b \<and> b \<le> hi"
  unfolding slice_bound_def by (auto simp: bnd_Inr split: if_splits)

lemma slice_step_range: "slice_step env ob = Inr step \<Longrightarrow> step \<noteq> 0"
  unfolding slice_step_def by (auto simp: bnd_Inr split: if_splits)

lemma mp_obj_slice_indices_range:
  assumes "mp_obj_slice_indices env a b c (int n) = Inr ix"
  shows "sl_step ix \<noteq> 0"
    and "0 < sl_step ix \<Longrightarrow> 0 \<le> sl_start ix \<and> sl_start ix \<le> int n \<and> 0 \<le> sl_stop ix \<and> sl_stop ix \<le> int n"
    and "sl_step ix < 0 \<Longrightarrow> - 1 \<le> sl_start ix \<and> sl_start ix < int n \<and> - 1 \<le> sl_stop ix \<and> sl_stop ix < int n"
proof -
  obtain step where step: "slice_step env c = Inr step"
    using assms by (auto simp: mp_obj_slice_indices_def bnd_Inr)
  have "sl_step ix = step \<and> (0 < step \<longrightarrow> 0 \<le> sl_start ix \<and> sl_start ix \<le> int n \<and> 0 \<le> sl_stop ix \<and> sl_stop ix \<le> int n) \<and>
      (\<not> 0 < step \<longrightarrow> - 1 \<le> sl_start ix \<and> sl_start ix < int n \<and> - 1 \<le> sl_stop ix \<and> sl_stop ix < int n)"
  proof (cases "0 < step")
    case True
    then show ?thesis
      using assms step by (auto simp: mp_obj_slice_indices_def bnd_Inr dest!: slice_bound_range)
  next
    case False
    then show ?thesis
      using assms step by (auto simp: mp_obj_slice_indices_def bnd_Inr dest!: slice_bound_range)
  qed
  then show "sl_step ix \<noteq> 0"
    and "0 < sl_step ix \<Longrightarrow> 0 \<le> sl_start ix \<and> sl_start ix \<le> int n \<and> 0 \<le> sl_stop ix \<and> sl_stop ix \<le> int n"
    and "sl_step ix < 0 \<Longrightarrow> - 1 \<le> sl_start ix \<and> sl_start ix < int n \<and> - 1 \<le> sl_stop ix \<and> sl_stop ix < int n"
    using slice_step_range [OF step] by auto
qed

text \<open>The end of the loop over a slice, after the adjustments of \<^verbatim>\<open>mp_seq_get_fast_slice_indexes\<close>.\<close>

definition loop_stop :: "bound_slice \<Rightarrow> int" where
  "loop_stop ix = (if 0 < sl_step ix then max (sl_start ix) (sl_stop ix) else min (sl_stop ix) (sl_start ix) + 1)"

lemma mp_seq_get_fast_slice_indexes_eq:
  "mp_seq_get_fast_slice_indexes env n a b c =
     bnd (mp_obj_slice_indices env a b c (int n)) (\<lambda>ix. Inr (sl_step ix = 1, ix\<lparr>sl_stop := loop_stop ix\<rparr>))"
proof (cases "mp_obj_slice_indices env a b c (int n)")
  case (Inr ix)
  have "sl_step ix \<noteq> 0"
    by (rule mp_obj_slice_indices_range(1) [OF Inr])
  then consider "0 < sl_step ix" | "sl_step ix < 0"
    by linarith
  then show ?thesis
  proof cases
    case 1
    then show ?thesis
      using Inr by (simp add: mp_seq_get_fast_slice_indexes_def loop_stop_def max_def)
  next
    case 2
    then show ?thesis
      using Inr by (simp add: mp_seq_get_fast_slice_indexes_def loop_stop_def min_def Let_def)
  qed
qed (simp add: mp_seq_get_fast_slice_indexes_def)

lemma checked_int_range: "checked_int z = Inr (Some i) \<Longrightarrow> \<bar>i\<bar> < 2 ^ 31"
  by (simp add: checked_int_val split: if_splits)

lemma mp_obj_get_int_range:
  assumes "mp_obj_get_int env ob = Inr i"
  shows "\<bar>i\<bar> < 2 ^ 31"
proof -
  have m: "mp_obj_get_int_maybe env ob = Inr (Some i)"
    using assms unfolding mp_obj_get_int_def bnd_Inr by (auto split: option.splits)
  show ?thesis
  proof (cases ob)
    case (O_Bool b)
    then show ?thesis
      using m by (cases b) (auto simp: mp_obj_get_int_maybe_def)
  next
    case (O_Int z)
    then show ?thesis
      using m checked_int_range [of z i] by (simp add: mp_obj_get_int_maybe_def)
  next
    case (O_Other x)
    then obtain z where "env_int_maybe env x = Inr (Some z)"
      using m by (auto simp: mp_obj_get_int_maybe_def bnd_Inr split: option.splits)
    then show ?thesis
      using m checked_int_range [of z i] O_Other by (simp add: mp_obj_get_int_maybe_def)
  qed (use m in \<open>simp_all add: mp_obj_get_int_maybe_def\<close>)
qed

lemma extract_up_correct:
  "small_heap env \<Longrightarrow> is_list res ys \<Longrightarrow> 0 \<le> start \<Longrightarrow> stop \<le> int (length xs) \<Longrightarrow> 0 < step \<Longrightarrow> stop + step \<le> 2 ^ 31 \<Longrightarrow>
   new_list_of (extract_up env (map Val xs @ cs) start stop step res) (ys @ map (\<lambda>i. xs ! nat i) (py_range start stop step))"
proof (induction "nat (stop - start)" arbitrary: start res ys rule: less_induct)
  case less
  show ?case
  proof (cases "start < stop")
    case False
    then have "extract_up env (map Val xs @ cs) start stop step res = Inr res"
      by (subst extract_up.simps) simp
    then show ?thesis
      using False less.prems(2,5) by (simp add: new_list_of_def py_range_up)
  next
    case True
    have i: "nat start < length xs"
      using True less.prems(3,4) by linarith
    then have rd: "rd_obj_at (map Val xs @ cs) start = Inr (xs ! nat start)"
      using less.prems(3) by (simp add: rd_obj_at_def rd_obj_Val)
    have sum: "signed_sum start step = Inr (start + step)"
      using True less.prems(3,5,6) by (simp add: signed_sum_def)
    obtain t r where a: "mp_obj_list_append env res (xs ! nat start) = (t, r)"
      by fastforce
    from mp_obj_list_append_result [OF a less.prems(1,2)] show ?thesis
    proof
      assume "r = Inl (Exc MemoryError) \<and> t = res"
      then have "extract_up env (map Val xs @ cs) start stop step res = Inl (Exc MemoryError)"
        using True less.prems(5) rd a by (subst extract_up.simps) simp
      then show ?thesis
        by (simp add: new_list_of_def)
    next
      assume r: "r = Inr () \<and> is_list t (ys @ [xs ! nat start])"
      then have "extract_up env (map Val xs @ cs) start stop step res = extract_up env (map Val xs @ cs) (start + step) stop step t"
        using True less.prems(5) rd a sum by (subst extract_up.simps) simp
      moreover have "new_list_of (extract_up env (map Val xs @ cs) (start + step) stop step t)
          ((ys @ [xs ! nat start]) @ map (\<lambda>i. xs ! nat i) (py_range (start + step) stop step))"
        using r less.prems True by (intro less.hyps) simp_all
      ultimately show ?thesis
        using True less.prems(5) by (simp add: py_range_up [of step start])
    qed
  qed
qed

lemma extract_down_correct:
  "small_heap env \<Longrightarrow> is_list res ys \<Longrightarrow> start < int (length xs) \<Longrightarrow> length xs < 2 ^ 28 \<Longrightarrow> 0 \<le> stop \<Longrightarrow> step < 0 \<Longrightarrow> - (2 ^ 31) \<le> step \<Longrightarrow>
   new_list_of (extract_down env (map Val xs @ cs) start stop step res) (ys @ map (\<lambda>i. xs ! nat i) (py_range start (stop - 1) step))"
proof (induction "nat (start + 1 - stop)" arbitrary: start res ys rule: less_induct)
  case less
  show ?case
  proof (cases "stop \<le> start")
    case False
    then have "extract_down env (map Val xs @ cs) start stop step res = Inr res"
      by (subst extract_down.simps) simp
    then show ?thesis
      using False less.prems(2,6) by (simp add: new_list_of_def py_range_down)
  next
    case True
    have i: "nat start < length xs"
      using True less.prems(3,5) by linarith
    then have rd: "rd_obj_at (map Val xs @ cs) start = Inr (xs ! nat start)"
      using True i less.prems(5) by (simp add: rd_obj_at_def rd_obj_Val)
    obtain t r where a: "mp_obj_list_append env res (xs ! nat start) = (t, r)"
      by fastforce
    from mp_obj_list_append_result [OF a less.prems(1,2)] show ?thesis
    proof
      assume "r = Inl (Exc MemoryError) \<and> t = res"
      then have "extract_down env (map Val xs @ cs) start stop step res = Inl (Exc MemoryError)"
        using True less.prems(6) rd a by (subst extract_down.simps) simp
      then show ?thesis
        by (simp add: new_list_of_def)
    next
      assume r: "r = Inr () \<and> is_list t (ys @ [xs ! nat start])"
      have sum: "signed_sum start step = Inr (start + step)"
        using True less.prems(3,4,5,6,7) by (auto simp: signed_sum_def)
      have "extract_down env (map Val xs @ cs) start stop step res = extract_down env (map Val xs @ cs) (start + step) stop step t"
        using True less.prems(6) rd a sum r by (subst extract_down.simps) simp
      moreover have "new_list_of (extract_down env (map Val xs @ cs) (start + step) stop step t)
          ((ys @ [xs ! nat start]) @ map (\<lambda>i. xs ! nat i) (py_range (start + step) (stop - 1) step))"
        using r less.prems True by (intro less.hyps) simp_all
      ultimately show ?thesis
        using True less.prems(6) by (simp add: py_range_down [of step start])
    qed
  qed
qed

text \<open>The items that a slice means, and the error of its bounds.\<close>

definition spec_slice :: "'x py_env \<Rightarrow> 'x obj list \<Rightarrow> 'x obj \<Rightarrow> 'x obj \<Rightarrow> 'x obj \<Rightarrow> py_error + 'x obj list" where
  "spec_slice env xs a b c =
     bnd (py_slice env (length xs) a b c) (\<lambda>(start, stop, step).
       Inr (map (\<lambda>i. xs ! nat i) (py_range start stop step)))"

lemma spec_slice_eq:
  "spec_slice env xs a b c =
     bnd (mp_obj_slice_indices env a b c (int (length xs))) (\<lambda>ix.
       Inr (map (\<lambda>i. xs ! nat i) (py_range (sl_start ix) (sl_stop ix) (sl_step ix))))"
  unfolding spec_slice_def by (rule mp_obj_slice_indices_eq [symmetric])

text \<open>No position of the loop overflows a signed word.\<close>

definition step_fits :: "'x py_env \<Rightarrow> nat \<Rightarrow> 'x obj \<Rightarrow> bool" where
  "step_fits env n c \<longleftrightarrow> (case py_step env c of Inr step \<Rightarrow> int n + step \<le> 2 ^ 31 | Inl _ \<Rightarrow> True)"

lemma loop_stop_range:
  assumes "mp_obj_slice_indices env a b c (int n) = Inr ix"
  shows "0 < sl_step ix \<Longrightarrow> py_range (sl_start ix) (loop_stop ix) (sl_step ix) = py_range (sl_start ix) (sl_stop ix) (sl_step ix)"
    and "sl_step ix < 0 \<Longrightarrow> py_range (sl_start ix) (loop_stop ix - 1) (sl_step ix) = py_range (sl_start ix) (sl_stop ix) (sl_step ix)"
    and "0 < sl_step ix \<Longrightarrow> sl_start ix \<le> loop_stop ix \<and> loop_stop ix \<le> int n"
    and "sl_step ix < 0 \<Longrightarrow> 0 \<le> loop_stop ix"
  using mp_obj_slice_indices_range [OF assms]
  by (auto simp: loop_stop_def py_range_up py_range_down max_def min_def)

lemma slice_indices_step: "mp_obj_slice_indices env a b c n = Inr ix \<Longrightarrow> slice_step env c = Inr (sl_step ix)"
  by (auto simp: mp_obj_slice_indices_def bnd_Inr split: if_splits)

lemma slice_step_bounds: "slice_step env c = Inr step \<Longrightarrow> \<bar>step\<bar> < 2 ^ 31"
  by (auto simp: slice_step_def bnd_Inr dest: mp_obj_get_int_range split: if_splits)

lemma fill_items: "length ys = n \<Longrightarrow> wr_block (replicate n Junk @ cs) 0 (map Val ys) = Inr (map Val ys @ cs)"
  by (simp add: wr_block_in)

definition slice_result :: "py_error + ('x obj + 'x obj mp_list) \<Rightarrow> py_error + 'x obj list \<Rightarrow> bool" where
  "slice_result r spec \<longleftrightarrow>
     r = Inl (Exc MemoryError) \<or> (\<exists>e. r = Inl e \<and> spec = Inl e) \<or> (\<exists>t ys. r = Inr (Inr t) \<and> is_list t ys \<and> spec = Inr ys)"

lemma slice_result_new: "new_list_of m ys \<Longrightarrow> slice_result (bnd m (\<lambda>t. Inr (Inr t))) (Inr ys)"
  by (auto simp: slice_result_def new_list_of_def)

lemma list_load_slice_correct:
  assumes heap: "small_heap env" and s: "is_list s xs" and fits: "step_fits env (length xs) c"
  shows "slice_result (list_subscr_load env s (O_Slice a b c)) (spec_slice env xs a b c)"
proof -
  have f: "l_len s = length xs" "l_items s = map Val xs @ replicate (l_alloc s - length xs) Null"
    using s by (simp_all add: is_list_def)
  show ?thesis
  proof (cases "mp_obj_slice_indices env a b c (int (length xs))")
    case (Inl e)
    then show ?thesis
      by (simp add: list_subscr_load_def mp_seq_get_fast_slice_indexes_eq f spec_slice_eq slice_result_def)
  next
    case (Inr ix)
    let ?st = "sl_start ix" and ?lp = "loop_stop ix" and ?step = "sl_step ix"
    let ?ys = "map (\<lambda>i. xs ! nat i) (py_range ?st (sl_stop ix) ?step)"
    note rng = mp_obj_slice_indices_range [OF Inr] and lp = loop_stop_range [OF Inr]
    have step: "slice_step env c = Inr ?step" "\<bar>?step\<bar> < 2 ^ 31"
      using slice_indices_step [OF Inr] slice_step_bounds by blast+
    have spec: "spec_slice env xs a b c = Inr ?ys"
      by (simp add: spec_slice_eq Inr)
    show ?thesis
    proof (cases "?step = 1")
      case True
      have n: "nat (?lp - ?st) < 2 ^ 30"
        using lp(3) rng(2) True is_list_length [OF s] by auto
      have "new_list_of (bnd (list_new env (nat (?lp - ?st))) (\<lambda>res.
              bnd (rd_block (l_items s) (nat ?st) (l_len res)) (\<lambda>block.
              bnd (wr_block (l_items res) 0 block) (\<lambda>items. Inr (res\<lparr>l_items := items\<rparr>))))) ?ys"
      proof (rule new_list_of_bnd [OF heap n])
        fix t :: "'a obj mp_list" and k
        assume t: "l_len t = nat (?lp - ?st)" "l_alloc t = nat (?lp - ?st) + k" "0 < l_alloc t" "l_alloc t < 2 ^ 28"
          "l_items t = replicate (nat (?lp - ?st)) Junk @ replicate k Null"
        have b: "nat ?st + nat (?lp - ?st) \<le> length xs" "0 \<le> ?st" "?st \<le> ?lp"
          using lp(3) rng(2) True by auto
        have ys: "?ys = take (nat (?lp - ?st)) (drop (nat ?st) xs)"
        proof (rule nth_equalityI)
          have r: "py_range ?st (sl_stop ix) ?step = map int [nat ?st..<nat ?lp]"
            using lp(1) True py_range_one [OF b(2), of ?lp] by simp
          show "length ?ys = length (take (nat (?lp - ?st)) (drop (nat ?st) xs))"
            unfolding r using b by (simp add: nat_diff_distrib)
          fix i assume "i < length ?ys"
          then show "?ys ! i = take (nat (?lp - ?st)) (drop (nat ?st) xs) ! i"
            unfolding r using b by (simp add: nat_diff_distrib nat_add_distrib)
        qed
        have rd: "rd_block (l_items s) (nat ?st) (l_len t) = Inr (map Val ?ys)"
          unfolding ys f t(1) using b(1) by (simp add: rd_block_in drop_map take_map)
        have len: "length ?ys = nat (?lp - ?st)"
          unfolding ys using b by simp
        have wr: "wr_block (l_items t) 0 (map Val ?ys) = Inr (map Val ?ys @ replicate k Null)"
          unfolding t(5) by (rule fill_items [OF len])
        show "new_list_of (bnd (rd_block (l_items s) (nat ?st) (l_len t)) (\<lambda>block.
              bnd (wr_block (l_items t) 0 block) (\<lambda>items. Inr (t\<lparr>l_items := items\<rparr>)))) ?ys"
          unfolding rd wr bnd_simps by (rule new_list_filled) (use t len in simp_all)
      qed
      from slice_result_new [OF this] show ?thesis
        unfolding spec by (simp add: list_subscr_load_def mp_seq_get_fast_slice_indexes_eq f(1) Inr True bnd_assoc)
    next
      case False
      have new: "new_list_of (mp_obj_new_list env 0 None :: py_error + 'a obj mp_list) []"
        by (rule mp_obj_new_list_empty [OF heap])
      have "new_list_of (mp_seq_extract_slice env (l_items s) (ix\<lparr>sl_stop := ?lp\<rparr>)) ?ys"
      proof (cases "mp_obj_new_list env 0 None :: py_error + 'a obj mp_list")
        case (Inl e)
        then show ?thesis
          using new by (simp add: new_list_of_def mp_seq_extract_slice_def)
      next
        case res: (Inr res)
        then have r: "is_list res []"
          using new by (simp add: new_list_of_def)
        show ?thesis
        proof (cases "?step < 0")
          case True
          have "new_list_of (extract_down env (l_items s) ?st ?lp ?step res) ([] @ map (\<lambda>i. xs ! nat i) (py_range ?st (?lp - 1) ?step))"
            unfolding f using rng(3) lp(4) True step(2) is_list_length [OF s]
            by (intro extract_down_correct [OF heap r]) auto
          then show ?thesis
            using res True lp(2) by (simp add: mp_seq_extract_slice_def)
        next
          case False
          then have pos: "0 < ?step"
            using rng(1) by simp
          have "int (length xs) + ?step \<le> 2 ^ 31"
            using fits step(1) by (simp add: step_fits_def slice_step_eq)
          then have "new_list_of (extract_up env (l_items s) ?st ?lp ?step res) ([] @ map (\<lambda>i. xs ! nat i) (py_range ?st ?lp ?step))"
            unfolding f using rng(2) lp(3) pos by (intro extract_up_correct [OF heap r]) auto
          then show ?thesis
            using res False lp(1) pos by (simp add: mp_seq_extract_slice_def)
        qed
      qed
      from slice_result_new [OF this] show ?thesis
        unfolding spec by (simp add: list_subscr_load_def mp_seq_get_fast_slice_indexes_eq f(1) Inr False)
    qed
  qed
qed

text \<open>Deletion and assignment, which accept slices of step 1 only.\<close>

definition spec_delete_slice ::
    "'x py_env \<Rightarrow> 'x obj list \<Rightarrow> 'x obj \<Rightarrow> 'x obj \<Rightarrow> 'x obj \<Rightarrow> 'x obj list \<times> (py_error + unit)" where
  "spec_delete_slice env xs a b c =
     (case py_slice env (length xs) a b c of
        Inl e \<Rightarrow> (xs, Inl e)
      | Inr (start, stop, step) \<Rightarrow>
          if step \<noteq> 1 then (xs, Inl NotImplementedError)
          else (take (nat start) xs @ drop (nat (max start stop)) xs, Inr ()))"

definition spec_store_slice ::
    "'x py_env \<Rightarrow> 'x obj list \<Rightarrow> 'x obj \<Rightarrow> 'x obj \<Rightarrow> 'x obj \<Rightarrow> 'x obj seq_arg \<Rightarrow> 'x obj list \<times> (py_error + unit)" where
  "spec_store_slice env xs a b c arg =
     (case arg of
        Arg_Iter _ _ \<Rightarrow> (xs, Inl (Exc mp_error.TypeError))
      | _ \<Rightarrow>
          (case py_slice env (length xs) a b c of
             Inl e \<Rightarrow> (xs, Inl e)
           | Inr (start, stop, step) \<Rightarrow>
               if step \<noteq> 1 then (xs, Inl NotImplementedError)
               else (take (nat start) xs @ fst (arg_items arg xs) @ drop (nat (max start stop)) xs, Inr ())))"

lemma py_slice_eq:
  "py_slice env n a b c =
     (case mp_obj_slice_indices env a b c (int n) of Inl e \<Rightarrow> Inl e | Inr ix \<Rightarrow> Inr (sl_start ix, sl_stop ix, sl_step ix))"
  using mp_obj_slice_indices_eq [of env a b c n "\<lambda>start stop step. Inr (start, stop, step)"]
  by (cases "py_slice env n a b c") (auto simp: bnd_def split: sum.splits)

lemma replace_no_grow:
  assumes "i \<le> j" "j \<le> length xs" "length ys \<le> j - i" "src (map Val xs @ replicate k Null) = Inr (map Val ys)"
  shows "bnd (mp_seq_replace_slice_no_grow (map Val xs @ replicate k Null) (length xs) i j src (length ys)) (\<lambda>items.
      mp_seq_clear items (length xs + length ys - (j - i)) (length xs)) =
    Inr (map Val (take i xs @ ys @ drop j xs) @ replicate (j - i - length ys + k) Null)"
proof -
  let ?cs = "map Val xs @ replicate k Null"
  let ?ds = "map Val (take i xs) @ map Val ys @ drop (i + length ys) ?cs"
  have w: "wr_block ?cs i (map Val ys) = Inr ?ds"
    using assms(1-3) by (simp add: wr_block_in take_map)
  have l: "length ?ds = length xs + k"
    using assms(1-3) by simp
  have "drop j ?ds = drop (j - (i + length ys)) (drop (i + length ys) ?cs)"
    using assms(1-3) by simp
  also have "\<dots> = map Val (drop j xs) @ replicate k Null"
    using assms(1-3) by (simp add: drop_map)
  finally have dj: "drop j ?ds = map Val (drop j xs) @ replicate k Null" .
  have r: "rd_block ?ds j (length xs - j) = Inr (map Val (drop j xs))"
    using assms(1-3) l dj by (simp add: rd_block_in)
  have ti: "take (i + length ys) ?ds = map Val (take i xs) @ map Val ys"
    using assms(1-3) by simp
  have w2: "wr_block ?ds (i + length ys) (map Val (drop j xs)) =
      Inr (map Val (take i xs) @ map Val ys @ map Val (drop j xs) @ drop (i + length ys + (length xs - j)) ?ds)"
    using assms(1-3) l ti by (simp add: wr_block_in)
  let ?es = "map Val (take i xs) @ map Val ys @ map Val (drop j xs) @ drop (i + length ys + (length xs - j)) ?ds"
  have n: "length xs + length ys - (j - i) = length (map Val (take i xs @ ys @ drop j xs))"
    using assms(1-3) by simp
  have le: "length ?es = length xs + k"
    using assms(1-3) l by simp
  have clear: "mp_seq_clear ?es (length xs + length ys - (j - i)) (length xs) =
      Inr (map Val (take i xs @ ys @ drop j xs) @ replicate (j - i - length ys) Null @ replicate k Null)"
  proof -
    have d: "drop (length xs) ?es = replicate k Null"
    proof -
      have "drop (length xs) ?es = drop (length xs) ?ds"
        using assms(1-3) by simp
      also have "\<dots> = drop (length xs - j) (drop j ?ds)"
        using assms(1-3) by simp
      finally show ?thesis
        unfolding dj by simp
    qed
    have "take (length xs + length ys - (j - i)) ?es = map Val (take i xs @ ys @ drop j xs)"
      using assms(1-3) by simp
    then show ?thesis
      using assms(1-3) d le by (auto simp: mp_seq_clear_def wr_block_def add.commute)
  qed
  show ?thesis
    unfolding mp_seq_replace_slice_no_grow_def assms(4) bnd_simps w r w2 by (simp only: clear replicate_add)
qed

lemma replace_grow:
  assumes "i \<le> j" "j \<le> length xs" "j - i \<le> length ys" "length ys - (j - i) \<le> length cs"
    and src: "\<And>ds. take (min (length xs) (i + length ys)) ds = take (min (length xs) (i + length ys)) (map Val xs @ cs) \<Longrightarrow> src ds = Inr (map Val ys)"
  shows "mp_seq_replace_slice_grow_inplace (map Val xs @ cs) (length xs) i j src (length ys) (length ys - (j - i)) =
    Inr (map Val (take i xs @ ys @ drop j xs) @ drop (length ys - (j - i)) cs)"
proof -
  let ?cs = "map Val xs @ cs"
  have n: "length xs + (length ys - (j - i)) - (i + length ys) = length xs - j"
    using assms(1-3) by simp
  have r: "rd_block ?cs j (length xs - j) = Inr (map Val (drop j xs))"
    using assms(2) by (simp add: rd_block_in drop_map)
  let ?ds = "take (i + length ys) ?cs @ map Val (drop j xs) @ drop (i + length ys + (length xs - j)) ?cs"
  have w: "wr_block ?cs (i + length ys) (map Val (drop j xs)) = Inr ?ds"
    using assms(1-4) by (simp add: wr_block_in)
  have s: "src ?ds = Inr (map Val ys)"
  proof (rule src)
    have "take (min (length xs) (i + length ys)) ?ds = take (min (length xs) (i + length ys)) (take (i + length ys) ?cs)"
      using assms(1-4) by (simp add: min_def)
    then show "take (min (length xs) (i + length ys)) ?ds = take (min (length xs) (i + length ys)) ?cs"
      by (simp add: min_def)
  qed
  have li: "i + length ys \<le> length ?cs"
    using assms(1-4) by simp
  then have di: "drop (i + length ys) ?ds = map Val (drop j xs) @ drop (i + length ys + (length xs - j)) ?cs"
    by simp
  have ti: "take i ?ds = map Val (take i xs)"
    using assms(1,2) li by (simp add: take_map min_absorb1)
  have rest: "drop (i + length ys + (length xs - j)) ?cs = drop (length ys - (j - i)) cs"
    using assms(1-3) by (simp add: add.commute)
  have "wr_block ?ds i (map Val ys) = Inr (take i ?ds @ map Val ys @ drop (i + length ys) ?ds)"
    using li by (simp add: wr_block_in)
  then have w2: "wr_block ?ds i (map Val ys) =
      Inr (map Val (take i xs) @ map Val ys @ map Val (drop j xs) @ drop (i + length ys + (length xs - j)) ?cs)"
    unfolding ti di .
  show ?thesis
    unfolding mp_seq_replace_slice_grow_inplace_def n r bnd_simps w s w2 unfolding rest by simp
qed

lemma list_delete_slice_correct:
  assumes s: "is_list s xs"
  shows "refines (list_subscr_delete env s (O_Slice a b c)) xs (spec_delete_slice env xs a b c)"
  using s
proof (rule is_listE)
  fix k assume k: "l_items s = map Val xs @ replicate k Null" "l_len s = length xs" "l_alloc s = length xs + k"
    "0 < l_alloc s" "l_alloc s < 2 ^ 28"
  show ?thesis
  proof (cases "mp_obj_slice_indices env a b c (int (length xs))")
    case (Inl e)
    then show ?thesis
      using s by (simp add: list_subscr_delete_def spec_delete_slice_def py_slice_eq mp_seq_get_fast_slice_indexes_eq k(2) commit_def refinesI)
  next
    case (Inr ix)
    show ?thesis
    proof (cases "sl_step ix = 1")
      case False
      then show ?thesis
        using s Inr by (simp add: list_subscr_delete_def spec_delete_slice_def py_slice_eq mp_seq_get_fast_slice_indexes_eq k(2) commit_def refinesI)
    next
      case True
      define i j where ij: "i = nat (sl_start ix)" "j = nat (loop_stop ix)"
      have b: "0 \<le> sl_start ix" "sl_start ix \<le> loop_stop ix" "loop_stop ix \<le> int (length xs)"
        and max: "loop_stop ix = max (sl_start ix) (sl_stop ix)"
        using mp_obj_slice_indices_range [OF Inr] loop_stop_range [OF Inr] True by (simp_all add: loop_stop_def)
      have le: "i \<le> j" "j \<le> length xs"
        using b by (simp_all add: ij)
      have len: "nat (int (length xs) + (sl_start ix - loop_stop ix)) = length xs - (j - i)"
        using b by (simp add: ij)
      let ?t = "s\<lparr>l_items := map Val (take i xs @ drop j xs) @ replicate (j - i + k) Null, l_len := length xs - (j - i)\<rparr>"
      have r: "bnd (mp_seq_replace_slice_no_grow (l_items s) (length xs) i j (\<lambda>_. Inr []) 0) (\<lambda>items.
          mp_seq_clear items (length xs - (j - i)) (length xs)) = Inr (map Val (take i xs @ drop j xs) @ replicate (j - i + k) Null)"
        using replace_no_grow [OF le, of "[]" "\<lambda>_. Inr []" k] by (simp add: k(1))
      have "list_subscr_delete env s (O_Slice a b c) =
          commit s (bnd (bnd (mp_seq_replace_slice_no_grow (l_items s) (length xs) i j (\<lambda>_. Inr []) 0) (\<lambda>items.
            mp_seq_clear items (length xs - (j - i)) (length xs))) (\<lambda>items. Inr (s\<lparr>l_items := items, l_len := length xs - (j - i)\<rparr>, ())))"
        using True by (simp add: list_subscr_delete_def mp_seq_get_fast_slice_indexes_eq k(2) Inr Let_def len ij [symmetric] bnd_assoc)
      then have "list_subscr_delete env s (O_Slice a b c) = (?t, Inr ())"
        unfolding r by (simp add: commit_def)
      moreover have "is_list ?t (take i xs @ drop j xs)"
        by (rule is_listI [of _ _ "j - i + k"]) (use k le in simp_all)
      ultimately show ?thesis
        using True Inr by (simp add: spec_delete_slice_def py_slice_eq ij max refinesI)
    qed
  qed
qed

lemma with_stop: "sl_start (ix\<lparr>sl_stop := v\<rparr>) = sl_start ix" "sl_stop (ix\<lparr>sl_stop := v\<rparr>) = v" "sl_step (ix\<lparr>sl_stop := v\<rparr>) = sl_step ix"
  by simp_all

lemma mp_obj_get_array_items:
  assumes s: "is_list s xs" and ok: "arg_ok arg" and m: "mp_obj_get_array s arg = Inr (n, src)"
  shows "n = length (fst (arg_items arg xs))" and "n < 2 ^ 28"
    and "take (min (length xs) (i + n)) cs = take (min (length xs) (i + n)) (map Val xs @ ds) \<Longrightarrow>
      (moved \<longrightarrow> arg \<noteq> Arg_Self) \<Longrightarrow> src moved cs = Inr (map Val (fst (arg_items arg xs)))"
proof -
  have len: "l_len s = length xs"
    using s by (simp add: is_list_def)
  have *: "n = length (fst (arg_items arg xs)) \<and> n < 2 ^ 28 \<and>
    (take (min (length xs) (i + n)) cs = take (min (length xs) (i + n)) (map Val xs @ ds) \<longrightarrow> (moved \<longrightarrow> arg \<noteq> Arg_Self) \<longrightarrow>
      src moved cs = Inr (map Val (fst (arg_items arg xs))))"
  proof (cases arg)
    case Arg_Self
    then have "n = length xs" "src = (\<lambda>moved own. if moved then Inl Fault else rd_block own 0 (length xs))"
      using m unfolding len [symmetric] by (auto simp: mp_obj_get_array_def)
    then show ?thesis
      using Arg_Self is_list_length [OF s] rd_block_take [of xs cs] by (simp add: arg_items_def)
  next
    case (Arg_List l)
    then have l: "is_list l (list_of l)"
      using ok by (simp add: arg_ok_def)
    then have "l_len l = length (list_of l)"
      by (simp add: is_list_def)
    then have "n = length (list_of l)" "src = (\<lambda>moved own. rd_block (l_items l) 0 (length (list_of l)))"
      using m Arg_List by (auto simp: mp_obj_get_array_def)
    moreover have "rd_block (l_items l) 0 (length (list_of l)) = Inr (map Val (list_of l))"
      using l by (intro rd_block_take) (simp add: is_list_def)
    ultimately show ?thesis
      using Arg_List is_list_length [OF l] by (simp add: arg_items_def)
  next
    case (Arg_Tuple ys)
    then show ?thesis
      using m ok by (auto simp: mp_obj_get_array_def arg_items_def arg_ok_def)
  next
    case (Arg_Iter ys e)
    then show ?thesis
      using m by (simp add: mp_obj_get_array_def)
  qed
  then show "n = length (fst (arg_items arg xs))" and "n < 2 ^ 28"
    and "take (min (length xs) (i + n)) cs = take (min (length xs) (i + n)) (map Val xs @ ds) \<Longrightarrow>
      (moved \<longrightarrow> arg \<noteq> Arg_Self) \<Longrightarrow> src moved cs = Inr (map Val (fst (arg_items arg xs)))"
    by blast+
qed

lemma mp_obj_get_array_cases:
  "mp_obj_get_array s arg = Inl e \<longleftrightarrow> e = Exc mp_error.TypeError \<and> (\<exists>xs r. arg = Arg_Iter xs r)"
  by (cases arg) (auto simp: mp_obj_get_array_def)

lemma spec_store_slice_eq:
  "mp_obj_get_array s arg = Inr m \<Longrightarrow> spec_store_slice env xs a b c arg =
     (case mp_obj_slice_indices env a b c (int (length xs)) of
        Inl e \<Rightarrow> (xs, Inl e)
      | Inr ix \<Rightarrow>
          if sl_step ix \<noteq> 1 then (xs, Inl NotImplementedError)
          else (take (nat (sl_start ix)) xs @ fst (arg_items arg xs) @ drop (nat (max (sl_start ix) (sl_stop ix))) xs, Inr ()))"
  by (cases arg; cases "mp_obj_slice_indices env a b c (int (length xs))")
    (auto simp: spec_store_slice_def py_slice_eq mp_obj_get_array_def)

lemma replace_grow_fault: "mp_seq_replace_slice_grow_inplace cs n i j (\<lambda>_. Inl Fault) m d = Inl Fault"
  by (cases "rd_block cs j (n + d - (i + m))")
    (auto simp: mp_seq_replace_slice_grow_inplace_def rd_block_def wr_block_def split: if_splits)

text \<open>
  A list that is assigned to a slice of itself reads its old block when the block moves as it grows.
\<close>

definition self_store_fault ::
    "'x py_env \<Rightarrow> 'x obj seq_arg \<Rightarrow> nat \<Rightarrow> nat \<Rightarrow> nat \<Rightarrow> py_error + 'r \<Rightarrow> bool" where
  "self_store_fault env arg old alloc new r \<longleftrightarrow>
     arg = Arg_Self \<and> r = Inl Fault \<and> old < new \<and> alloc < new \<and> \<not> env_stays env (4 * new)"

lemma list_store_slice_correct:
  assumes heap: "small_heap env" and s: "is_list s xs" and ok: "arg_ok arg"
  shows "refines (list_store_slice env s a b c arg) xs (spec_store_slice env xs a b c arg) \<or>
    self_store_fault env arg (length xs) (l_alloc s) (length (fst (spec_store_slice env xs a b c arg))) (snd (list_store_slice env s a b c arg))"
  using s
proof (rule is_listE)
  fix k assume k: "l_items s = map Val xs @ replicate k Null" "l_len s = length xs" "l_alloc s = length xs + k"
    "0 < l_alloc s" "l_alloc s < 2 ^ 28"
  show ?thesis
  proof (cases "mp_obj_get_array s arg")
    case (Inl e)
    then obtain ys r where "arg = Arg_Iter ys r" "e = Exc mp_error.TypeError"
      unfolding mp_obj_get_array_cases by blast
    then show ?thesis
      using s Inl by (simp add: list_store_slice_def spec_store_slice_def commit_def refinesI)
  next
    case arr: (Inr m)
    obtain n src where m: "m = (n, src)"
      by fastforce
    note arr = arr [unfolded m]
    note items = mp_obj_get_array_items [OF s ok arr]
    note spec = spec_store_slice_eq [OF arr, of env xs a b c]
    let ?ys = "fst (arg_items arg xs)"
    show ?thesis
    proof (cases "mp_obj_slice_indices env a b c (int (length xs))")
      case (Inl e)
      then show ?thesis
        using s unfolding spec
        by (simp add: list_store_slice_def mp_seq_get_fast_slice_indexes_eq k(2) arr commit_def refinesI)
    next
      case (Inr ix)
      show ?thesis
      proof (cases "sl_step ix = 1")
        case False
        then show ?thesis
          using s Inr unfolding spec
          by (simp add: list_store_slice_def mp_seq_get_fast_slice_indexes_eq k(2) arr commit_def refinesI)
      next
        case True
        define i j where ij: "i = nat (sl_start ix)" "j = nat (loop_stop ix)"
        have b: "0 \<le> sl_start ix" "sl_start ix \<le> loop_stop ix" "loop_stop ix \<le> int (length xs)"
          and max: "loop_stop ix = max (sl_start ix) (sl_stop ix)"
          using mp_obj_slice_indices_range [OF Inr] loop_stop_range [OF Inr] True by (simp_all add: loop_stop_def)
        have le: "i \<le> j" "j \<le> length xs"
          using b by (simp_all add: ij)
        have adj: "int n - (loop_stop ix - sl_start ix) = int n - int (j - i)"
          using b by (simp add: ij)
        have sp: "spec_store_slice env xs a b c arg = (take i xs @ ?ys @ drop j xs, Inr ())"
          unfolding spec using Inr True by (simp add: ij max)
        have store: "list_store_slice env s a b c arg = commit s
          (if 0 < int n - int (j - i) then
             bnd (if int (l_alloc s) < int (length xs) + (int n - int (j - i))
                  then bnd (m_renew_items env (l_items s) (length xs + nat (int n - int (j - i)))) (\<lambda>items.
                         Inr (s\<lparr>l_items := items, l_alloc := length xs + nat (int n - int (j - i))\<rparr>,
                           \<not> env_stays env (items_bytes (length xs + nat (int n - int (j - i))))))
                  else Inr (s, False)) (\<lambda>(self, moved).
             bnd (mp_seq_replace_slice_grow_inplace (l_items self) (l_len self) i j (src moved) n (nat (int n - int (j - i)))) (\<lambda>items.
               Inr (self\<lparr>l_items := items, l_len := l_len self + nat (int n - int (j - i))\<rparr>, ())))
           else
             bnd (bnd (mp_seq_replace_slice_no_grow (l_items s) (length xs) i j (src False) n) (\<lambda>items.
               mp_seq_clear items (nat (int (length xs) + (int n - int (j - i)))) (length xs))) (\<lambda>items.
               Inr (s\<lparr>l_items := items, l_len := nat (int (length xs) + (int n - int (j - i)))\<rparr>, ())))"
          by (simp only: list_store_slice_def arr bnd_simps mp_seq_get_fast_slice_indexes_eq k(2) Inr prod.case Let_def
            with_stop adj ij [symmetric] bnd_assoc True simp_thms if_False)
        show ?thesis
        proof (cases "j - i < n")
          case False
          have "nat (int (length xs) + (int n - int (j - i))) = length xs + length ?ys - (j - i)"
            using False le items(1) by simp
          moreover have "src False (map Val xs @ replicate k Null) = Inr (map Val ?ys)"
            by (rule items(3) [of 0 _ "replicate k Null"]) simp_all
          ultimately have r: "bnd (mp_seq_replace_slice_no_grow (l_items s) (length xs) i j (src False) n) (\<lambda>items.
               mp_seq_clear items (nat (int (length xs) + (int n - int (j - i)))) (length xs)) =
             Inr (map Val (take i xs @ ?ys @ drop j xs) @ replicate (j - i - n + k) Null)"
            using replace_no_grow [OF le, of ?ys "src False" k] False items(1) by (simp add: k(1))
          let ?t = "s\<lparr>l_items := map Val (take i xs @ ?ys @ drop j xs) @ replicate (j - i - n + k) Null,
              l_len := nat (int (length xs) + (int n - int (j - i)))\<rparr>"
          have "is_list ?t (take i xs @ ?ys @ drop j xs)"
            by (rule is_listI [of _ _ "j - i - n + k"]) (use k le False items(1) in simp_all)
          moreover have "list_store_slice env s a b c arg = (?t, Inr ())"
            unfolding store r using False by (simp add: commit_def)
          ultimately show ?thesis
            unfolding sp by (simp add: refinesI)
        next
          case True
          define d where "d = n - (j - i)"
          have d: "0 < d" "nat (int n - int (j - i)) = d" "int n - int (j - i) = int d"
            using True by (simp_all add: d_def)
          have grow: "mp_seq_replace_slice_grow_inplace (map Val xs @ cs) (length xs) i j (src moved) n d =
              Inr (map Val (take i xs @ ?ys @ drop j xs) @ drop d cs)" if "d \<le> length cs" "moved \<longrightarrow> arg \<noteq> Arg_Self" for cs moved
            using replace_grow [OF le, of ?ys cs "src moved"] items(3) [of i _ cs moved] True that unfolding items(1) [symmetric] d_def by simp
          have len: "length (take i xs @ ?ys @ drop j xs) = length xs + d"
            using le items(1) True by (simp add: d_def)
          show ?thesis
          proof (cases "k < d")
            case False
            let ?t = "s\<lparr>l_items := map Val (take i xs @ ?ys @ drop j xs) @ replicate (k - d) Null, l_len := length xs + d\<rparr>"
            have "list_store_slice env s a b c arg = (?t, Inr ())"
              unfolding store d using d(1) False k grow [of "replicate k Null" False] by (simp add: commit_def)
            moreover have "is_list ?t (take i xs @ ?ys @ drop j xs)"
              by (rule is_listI [of _ _ "k - d"]) (use k len False in simp_all)
            ultimately show ?thesis
              unfolding sp by (simp add: refinesI)
          next
            case True
            obtain q where q: "m_renew_items env (l_items s) (length xs + d) = q"
              by blast
            have "q = Inl (Exc MemoryError) \<or> length xs + d < 2 ^ 28 \<and>
                q = Inr (take (length xs + d) (l_items s) @ replicate (length xs + d - length (l_items s)) Junk)"
              by (rule m_renew_items_result [OF q heap]) (use d(1) items(2) is_list_length [OF s] in \<open>simp_all add: d_def\<close>)
            then show ?thesis
            proof
              assume "q = Inl (Exc MemoryError)"
              then have "list_store_slice env s a b c arg = (s, Inl (Exc MemoryError))"
                unfolding store d using d(1) True k q by (simp add: commit_def)
              then show ?thesis
                unfolding sp using s by (simp add: refines_old)
            next
              assume *: "length xs + d < 2 ^ 28 \<and>
                q = Inr (take (length xs + d) (l_items s) @ replicate (length xs + d - length (l_items s)) Junk)"
              let ?cs = "replicate k Null @ replicate (d - k) Junk"
              let ?t = "s\<lparr>l_items := map Val (take i xs @ ?ys @ drop j xs) @ replicate 0 Null, l_alloc := length xs + d, l_len := length xs + d\<rparr>"
              have q': "q = Inr (map Val xs @ ?cs)"
                using * k True by simp
              define moved where "moved = (\<not> env_stays env (items_bytes (length xs + d)))"
              show ?thesis
              proof (cases "moved \<and> arg = Arg_Self")
                case False
                then have m: "moved \<longrightarrow> arg \<noteq> Arg_Self"
                  by blast
                have "list_store_slice env s a b c arg = (?t, Inr ())"
                  unfolding store d using d(1) True k q q' grow [OF _ m, of ?cs] by (simp add: commit_def moved_def [symmetric])
                moreover have "is_list ?t (take i xs @ ?ys @ drop j xs)"
                  by (rule is_listI [of _ _ 0]) (use * k len d(1) in simp_all)
                ultimately show ?thesis
                  unfolding sp by (simp add: refinesI)
              next
                case fault: True
                then have "src moved = (\<lambda>own. Inl Fault)"
                  using arr by (auto simp: mp_obj_get_array_def)
                then have "snd (list_store_slice env s a b c arg) = Inl Fault"
                  unfolding store d using d(1) True k q q' by (simp add: commit_def moved_def [symmetric] replace_grow_fault)
                moreover have "\<not> env_stays env (4 * (length xs + d))"
                  using fault * by (simp add: moved_def items_bytes_small)
                moreover have "length (fst (spec_store_slice env xs a b c arg)) = length xs + d"
                  unfolding sp fst_conv by (rule len)
                ultimately show ?thesis
                  using fault True d(1) k(3) unfolding self_store_fault_def by simp
              qed
            qed
          qed
        qed
      qed
    qed
  qed
qed

end
