(* ===== verification/Py_List_Sort.thy ===== *)
theory Py_List_Sort
  imports Py_List_Slice
begin

text \<open>
  \<^verbatim>\<open>list.sort\<close> on a list object: the sort of theory List_Sort_Correct on the cells in use, and its order when
  the comparison of the keys is a strict weak order. Integers, compared by \<^verbatim>\<open>mp_binary_op\<close>, are an
  instance for both directions.
\<close>

section \<open>The cells of a list\<close>

lemma segment_cells: "n = length xs \<Longrightarrow> segment (map Val xs @ cs) 0 n = Val ` set xs"
  by (auto simp: segment_def nth_append image_iff in_set_conv_nth) (metis atLeastLessThan_iff imageI nth_map zero_le)

text \<open>A permutation of the first cells of the buffer is one of the list.\<close>

lemma permuted_cells:
  assumes p: "permuted (map Val xs @ cs) ds 0 (length xs)"
  obtains ys where "ds = map Val ys @ cs" "mset ys = mset xs"
proof -
  let ?us = "map Val xs @ cs"
  have len: "length ds = length ?us"
    by (rule permuted_length [OF p])
  have "mset (take (length xs) ds) = mset (map Val xs)"
    using permuted_segment [OF p] by simp
  then have m: "mset (take (length xs) ds) = image_mset Val (mset xs)"
    by simp
  define f where "f = (\<lambda>c. case c of Val x \<Rightarrow> (x :: 'a) | _ \<Rightarrow> undefined)"
  define ys where "ys = map f (take (length xs) ds)"
  have "set (take (length xs) ds) = Val ` set xs"
    using arg_cong [OF m, of set_mset] by simp
  then have ys: "take (length xs) ds = map Val ys"
    unfolding ys_def map_map by (intro map_idI [symmetric]) (auto simp: f_def)
  have "mset ys = image_mset f (mset (take (length xs) ds))"
    by (simp add: ys_def)
  also have "\<dots> = mset xs"
    unfolding m by (simp add: f_def multiset.map_comp comp_def)
  finally have my: "mset ys = mset xs" .
  have "drop (length xs) ds = cs"
  proof (rule nth_equalityI)
    show "length (drop (length xs) ds) = length cs"
      using len by simp
    fix i assume "i < length (drop (length xs) ds)"
    then show "drop (length xs) ds ! i = cs ! i"
      using permuted_outside [OF p, of "length xs + i"] len by (simp add: nth_append)
  qed
  then have "ds = map Val ys @ cs"
    using ys append_take_drop_id [of "length xs" ds] by simp
  then show thesis
    using that my by blast
qed

text \<open>The errors that a sort of these objects may raise: those of the key function and of the comparison.\<close>

definition list_sort_raises :: "'x py_env \<Rightarrow> 'x obj option \<Rightarrow> bool \<Rightarrow> 'x obj list \<Rightarrow> py_error \<Rightarrow> bool" where
  "list_sort_raises env key reverse xs e \<longleftrightarrow>
     sort_raises (sort_key env key) (sort_stay env (if reverse then O_Bool False else O_Bool True)) (Val ` set xs) e"

lemma mp_obj_list_sort_frame:
  assumes s: "is_list s xs" and deep: "length xs < 2 ^ frames"
  obtains s' ys r where "mp_obj_list_sort env frames s key reverse = (s', r)" "is_list s' ys" "mset ys = mset xs"
    "\<And>e. r = Inl e \<Longrightarrow> list_sort_raises env key reverse xs e"
    "length xs \<le> 1 \<and> ys = xs \<or> r \<noteq> Inr () \<or>
      quicksort_loop (sort_key env key) (sort_stay env (if reverse then O_Bool False else O_Bool True)) (frames - 1)
        (map Val xs @ replicate (l_alloc s - length xs) Null) 0 (length xs - 1) = (map Val ys @ replicate (l_alloc s - length xs) Null, None)"
  using s
proof (rule is_listE)
  fix k assume k: "l_items s = map Val xs @ replicate k Null" "l_len s = length xs" "l_alloc s = length xs + k"
    "0 < l_alloc s" "l_alloc s < 2 ^ 28"
  let ?key = "sort_key env key" and ?stay = "sort_stay env (if reverse then O_Bool False else O_Bool True)"
  show thesis
  proof (cases "1 < length xs")
    case False
    then have "mp_obj_list_sort env frames s key reverse = (s, Inr ())"
      using k(2) by (simp add: mp_obj_list_sort_def)
    then show thesis
      using that [OF _ s] False by simp
  next
    case True
    then have f: "frames \<noteq> 0"
      using deep by (cases frames) simp_all
    obtain ds q where q: "quicksort_loop ?key ?stay (frames - 1) (map Val xs @ replicate k Null) 0 (length xs - 1) = (ds, q)"
      by fastforce
    have e: "length xs - 1 + 1 = length xs" "length xs - 1 + 1 - 0 = length xs"
      using True by simp_all
    have fr: "permuted (map Val xs @ replicate k Null) ds 0 (length xs) \<and>
        (\<forall>e. q = Some e \<longrightarrow> sort_raises ?key ?stay (Val ` set xs) e \<or> e = RecursionDepth \<and> 2 ^ (frames - 1 + 1) \<le> length xs)"
      using quicksort_loop_frame [OF q] True unfolding e segment_cells [OF refl] by simp
    from fr obtain ys where ys: "ds = map Val ys @ replicate k Null" "mset ys = mset xs"
      using permuted_cells by blast
    let ?t = "s\<lparr>l_items := ds\<rparr>" and ?r = "(case q of None \<Rightarrow> Inr () | Some e \<Rightarrow> Inl e) :: py_error + unit"
    have run: "mp_obj_list_sort env frames s key reverse = (?t, ?r)"
      unfolding mp_obj_list_sort_def mp_quicksort_def k(1,2) using True f q by simp
    have "length ys = length xs"
      using ys(2) by (rule mset_eq_length)
    then have t: "is_list ?t ys"
      by (intro is_listI [of _ _ k]) (use k ys in simp_all)
    have "\<not> 2 ^ (frames - 1 + 1) \<le> length xs"
      using deep f by simp
    then have er: "list_sort_raises env key reverse xs e" if "?r = Inl e" for e
      using fr that unfolding list_sort_raises_def by (auto split: option.splits)
    have "?r \<noteq> Inr () \<or> quicksort_loop ?key ?stay (frames - 1) (map Val xs @ replicate (l_alloc s - length xs) Null) 0 (length xs - 1) =
        (map Val ys @ replicate (l_alloc s - length xs) Null, None)"
      using q ys(1) k(3) by (auto split: option.splits)
    then show thesis
      using that [OF run t ys(2) er] by blast
  qed
qed

section \<open>Strict weak orders\<close>

definition strict_weak_order :: "'k set \<Rightarrow> ('k \<Rightarrow> 'k \<Rightarrow> bool) \<Rightarrow> bool" where
  "strict_weak_order K lt \<longleftrightarrow>
     (\<forall>k\<in>K. \<forall>l\<in>K. lt k l \<longrightarrow> \<not> lt l k) \<and>
     (\<forall>k\<in>K. \<forall>l\<in>K. \<forall>m\<in>K. \<not> lt k l \<longrightarrow> \<not> lt l m \<longrightarrow> \<not> lt k m)"

text \<open>The result of \<^verbatim>\<open>a < b\<close> on these keys.\<close>

definition compares :: "'x py_env \<Rightarrow> 'x obj set \<Rightarrow> ('x obj \<Rightarrow> 'x obj \<Rightarrow> bool) \<Rightarrow> bool" where
  "compares env K lt \<longleftrightarrow> (\<forall>k\<in>K. \<forall>l\<in>K. env_binary env OP_LESS k l = Inr (O_Bool (lt k l)))"

lemma sort_stay_result:
  "compares env K lt \<Longrightarrow> k \<in> K \<Longrightarrow> l \<in> K \<Longrightarrow> sort_stay env (O_Bool b) k l = Inr (lt k l = b)"
  by (simp add: compares_def sort_stay_def)

lemma strict_weak_orderD:
  assumes "strict_weak_order K lt"
  shows "k \<in> K \<Longrightarrow> l \<in> K \<Longrightarrow> lt k l \<Longrightarrow> \<not> lt l k"
    and "k \<in> K \<Longrightarrow> l \<in> K \<Longrightarrow> m \<in> K \<Longrightarrow> \<not> lt k l \<Longrightarrow> \<not> lt l m \<Longrightarrow> \<not> lt k m"
  using assms unfolding strict_weak_order_def by blast+

lemma ascending_order:
  assumes "compares env K lt" "strict_weak_order K lt"
  shows "sort_order (sort_stay env (O_Bool True)) K (\<lambda>k l. \<not> lt l k)"
proof unfold_locales
  fix k l m assume k: "k \<in> K" and l: "l \<in> K"
  show "sort_stay env (O_Bool True) k l = Inr True \<Longrightarrow> \<not> lt l k"
    using sort_stay_result [OF assms(1) k l] strict_weak_orderD(1) [OF assms(2) k l] by simp
  show "sort_stay env (O_Bool True) l k = Inr False \<Longrightarrow> \<not> lt l k"
    using sort_stay_result [OF assms(1) l k] by simp
  show "m \<in> K \<Longrightarrow> \<not> lt l k \<Longrightarrow> \<not> lt m l \<Longrightarrow> \<not> lt m k"
    using strict_weak_orderD(2) [OF assms(2)] k l by blast
qed

lemma descending_order:
  assumes "compares env K lt" "strict_weak_order K lt"
  shows "sort_order (sort_stay env (O_Bool False)) K (\<lambda>k l. \<not> lt k l)"
proof unfold_locales
  fix k l m assume k: "k \<in> K" and l: "l \<in> K"
  show "sort_stay env (O_Bool False) k l = Inr True \<Longrightarrow> \<not> lt k l"
    using sort_stay_result [OF assms(1) k l] by simp
  show "sort_stay env (O_Bool False) l k = Inr False \<Longrightarrow> \<not> lt k l"
    using sort_stay_result [OF assms(1) l k] strict_weak_orderD(1) [OF assms(2) l k] by simp
  show "m \<in> K \<Longrightarrow> \<not> lt k l \<Longrightarrow> \<not> lt l m \<Longrightarrow> \<not> lt k m"
    using strict_weak_orderD(2) [OF assms(2)] k l by blast
qed

text \<open>The keys of the items stand in the order \<open>R\<close>, pair by pair.\<close>

definition sorted_by :: "('a \<Rightarrow> py_error + 'k) \<Rightarrow> ('k \<Rightarrow> 'k \<Rightarrow> bool) \<Rightarrow> 'a list \<Rightarrow> bool" where
  "sorted_by key R xs \<longleftrightarrow> sorted_wrt (\<lambda>x y. \<exists>k l. key x = Inr k \<and> key y = Inr l \<and> R k l) xs"

definition item_key :: "'x py_env \<Rightarrow> 'x obj option \<Rightarrow> 'x obj \<Rightarrow> py_error + 'x obj" where
  "item_key env key x = (case key of None \<Rightarrow> Inr x | Some f \<Rightarrow> env_call env f x)"

lemma sort_key_Val: "sort_key env key (Val x) = item_key env key x"
  by (simp add: sort_key_def item_key_def)

lemma sorted_segment_cells:
  assumes o: "sort_order stay K R" and s: "sort_order.sorted_segment K R (sort_key env key) (map Val ys @ cs) 0 (length ys - 1)"
  shows "sorted_by (item_key env key) R ys"
  unfolding sorted_by_def sorted_wrt_iff_nth_less
proof (intro allI impI)
  fix i j assume ij: "i < j" "j < length ys"
  then have "sort_order.ordered K R (sort_key env key) ((map Val ys @ cs) ! i) ((map Val ys @ cs) ! j)"
    using s unfolding sort_order.sorted_segment_def [OF o] by auto
  then show "\<exists>k l. item_key env key (ys ! i) = Inr k \<and> item_key env key (ys ! j) = Inr l \<and> R k l"
    using ij unfolding sort_order.ordered_def [OF o] by (auto simp: nth_append sort_key_Val)
qed

lemma list_sort_raises_none:
  assumes keys: "\<forall>x\<in>set xs. \<exists>k\<in>K. item_key env key x = Inr k" and cmp: "compares env K lt"
  shows "\<not> list_sort_raises env key reverse xs e"
proof
  assume "list_sort_raises env key reverse xs e"
  then obtain x where x: "x \<in> set xs" "item_key env key x = Inl e \<or>
      (\<exists>y\<in>set xs. \<exists>k l. item_key env key x = Inr k \<and> item_key env key y = Inr l \<and>
        sort_stay env (if reverse then O_Bool False else O_Bool True) k l = Inl e)"
    unfolding list_sort_raises_def sort_raises_def by (auto simp: sort_key_Val)
  from x(2) show False
  proof
    assume "item_key env key x = Inl e"
    then show False
      using keys x(1) by fastforce
  next
    assume "\<exists>y\<in>set xs. \<exists>k l. item_key env key x = Inr k \<and> item_key env key y = Inr l \<and>
        sort_stay env (if reverse then O_Bool False else O_Bool True) k l = Inl e"
    then obtain y k l where y: "y \<in> set xs" "item_key env key x = Inr k" "item_key env key y = Inr l"
      "sort_stay env (if reverse then O_Bool False else O_Bool True) k l = Inl e"
      by blast
    have "k \<in> K" "l \<in> K"
      using keys x(1) y(1-3) by fastforce+
    then show False
      using y(4) cmp by (auto simp: sort_stay_def compares_def)
  qed
qed

lemma mp_obj_list_sort_sorted:
  assumes s: "is_list s xs" and deep: "length xs < 2 ^ frames"
    and keys: "\<forall>x\<in>set xs. \<exists>k\<in>K. item_key env key x = Inr k"
    and cmp: "compares env K lt" and ord: "strict_weak_order K lt"
    and run: "mp_obj_list_sort env frames s key reverse = (s', r)" and ys: "is_list s' ys"
  shows "r = Inr () \<and> sorted_by (item_key env key) (if reverse then (\<lambda>k l. \<not> lt k l) else (\<lambda>k l. \<not> lt l k)) ys"
proof (rule mp_obj_list_sort_frame [OF s deep, of env key reverse])
  let ?stay = "sort_stay env (if reverse then O_Bool False else O_Bool True)"
  let ?R = "if reverse then (\<lambda>k l. \<not> lt k l) else (\<lambda>k l. \<not> lt l k)"
  let ?cs = "replicate (l_alloc s - length xs) Null :: 'a obj cell list"
  fix t zs q
  assume *: "mp_obj_list_sort env frames s key reverse = (t, q)" "is_list t zs" "mset zs = mset xs"
    "\<And>e. q = Inl e \<Longrightarrow> list_sort_raises env key reverse xs e"
    "length xs \<le> 1 \<and> zs = xs \<or> q \<noteq> Inr () \<or>
      quicksort_loop (sort_key env key) ?stay (frames - 1) (map Val xs @ ?cs) 0 (length xs - 1) = (map Val zs @ ?cs, None)"
  have e: "t = s'" "q = r" "zs = ys"
    using run * ys is_list_unique by auto
  have r: "r = Inr ()"
    using *(4) list_sort_raises_none [OF keys cmp] e(2) by (cases r) auto
  have len: "length ys = length xs"
    using *(3) e(3) mset_eq_length by blast
  show ?thesis
  proof (cases "length xs \<le> 1")
    case True
    then have "length ys \<le> 1"
      using len by simp
    then show ?thesis
      using r unfolding sorted_by_def sorted_wrt_iff_nth_less by auto
  next
    case False
    have o: "sort_order ?stay K ?R"
      using ascending_order [OF cmp ord] descending_order [OF cmp ord] by simp
    have q: "quicksort_loop (sort_key env key) ?stay (frames - 1) (map Val xs @ ?cs) 0 (length xs - 1) = (map Val ys @ ?cs, None)"
      using *(5) False r e by auto
    have "\<forall>c\<in>set (map Val xs @ ?cs). \<forall>k. sort_key env key c = Inr k \<longrightarrow> k \<in> K"
    proof (intro ballI allI impI)
      fix c k assume c: "c \<in> set (map Val xs @ ?cs)" "sort_key env key c = Inr k"
      then obtain x where "x \<in> set xs" "c = Val x"
        by (auto simp: sort_key_def)
      then show "k \<in> K"
        using c(2) keys by (fastforce simp: sort_key_Val)
    qed
    then have "sort_order.sorted_segment K ?R (sort_key env key) (map Val ys @ ?cs) 0 (length xs - 1)"
      using sort_order.quicksort_loop_sorts [OF o q] False by simp
    then show ?thesis
      using sorted_segment_cells [OF o] r len by simp
  qed
qed

section \<open>Integers\<close>

text \<open>
  Objects of which only integers compare, by the operators of theory Py_Int, and a heap of \<open>limit\<close> bytes.
\<close>

definition int_env :: "nat \<Rightarrow> 'x py_env" where
  "int_env limit =
     \<lparr>env_int_maybe = (\<lambda>_. Inr None),
      env_equal = (\<lambda>a b. case (a, b) of (O_Int x, O_Int y) \<Rightarrow> Inr (mp_binary_op OP_EQUAL x y = Some (Res_Bool True)) | _ \<Rightarrow> Inr (a = b)),
      env_binary = (\<lambda>op a b. case (a, b) of
         (O_Int x, O_Int y) \<Rightarrow> (case mp_binary_op op x y of Some (Res_Bool r) \<Rightarrow> Inr (O_Bool r) | _ \<Rightarrow> Inl (Exc mp_error.TypeError))
       | _ \<Rightarrow> Inl (Exc mp_error.TypeError)),
      env_call = (\<lambda>f x. Inl (Exc mp_error.TypeError)), env_word = (\<lambda>_. 0), env_heap = (\<lambda>b. b \<le> limit),
      env_stays = (\<lambda>_. False)\<rparr>"

definition int_keys :: "'x obj set" where
  "int_keys = {ob. \<exists>z. ob = O_Int z \<and> int_ok z \<and> canonical z}"

definition key_val :: "'x obj \<Rightarrow> int" where
  "key_val ob = (case ob of O_Int z \<Rightarrow> int_val z | _ \<Rightarrow> 0)"

lemma int_less:
  assumes "int_ok x" "canonical x" "int_ok y" "canonical y"
  shows "mp_binary_op OP_LESS x y = Some (Res_Bool (int_val x < int_val y))"
proof -
  have "pow_defined x y"
    using assms(2,4) by (cases x; cases y) (auto simp: pow_defined_def int_obj_defs small_range_def)
  then have "gives (mp_binary_op OP_LESS x y) (lim_binary_op OP_LESS (int_val x) (int_val y))"
    using assms by (intro mp_binary_op_ok) auto
  then obtain r where r: "mp_binary_op OP_LESS x y = Some r" "res_is True r (py_value.Py_Bool (int_val x < int_val y))"
    by (auto simp: gives_any_def lim_defs)
  then show ?thesis
    by (cases r) auto
qed

lemma int_compares: "compares (int_env limit) int_keys (\<lambda>a b. key_val a < key_val b)"
  by (auto simp: compares_def int_keys_def int_env_def key_val_def int_less)

lemma int_strict_weak_order: "strict_weak_order int_keys (\<lambda>a b. key_val a < key_val b)"
  by (auto simp: strict_weak_order_def)

interpretation ints_ascending: sort_order "sort_stay (int_env limit) (O_Bool True)" int_keys "\<lambda>a b. \<not> key_val b < key_val a" for limit
  by (rule ascending_order [OF int_compares int_strict_weak_order])

interpretation ints_descending: sort_order "sort_stay (int_env limit) (O_Bool False)" int_keys "\<lambda>a b. \<not> key_val a < key_val b" for limit
  by (rule descending_order [OF int_compares int_strict_weak_order])

end
