(* ===== verification/List_Props.thy ===== *)
theory List_Props
  imports Py_List_Sort
begin

text \<open>
  The properties of the list type. Programs of list operations run on a list object and, as the
  specification, on a sequence.
\<close>

section \<open>Programs on a list\<close>

datatype 'x list_op =
  Do_Append "'x obj" | Do_Extend "'x obj seq_arg" | Do_Insert "'x obj" "'x obj" | Do_Pop "'x obj option"
| Do_Remove "'x obj" | Do_Clear | Do_Reverse | Do_Copy | Do_Index "'x obj" "'x obj option" "'x obj option"
| Do_Count "'x obj" | Do_Load "'x obj" | Do_Store "'x obj" "'x obj"
| Do_Store_Slice "'x obj" "'x obj" "'x obj" "'x obj seq_arg" | Do_Delete "'x obj"
| Do_Binary binary_op "'x obj" "'x obj seq_arg option" | Do_Next nat

text \<open>The results of the code, whose new lists are objects, and those of the specification.\<close>

datatype 'x list_value = V_None | V_Null | V_Self | V_Obj "'x obj" | V_Bool bool | V_List "'x obj mp_list" | V_Next "('x obj \<times> nat) option"

datatype 'x spec_value = S_None | S_Null | S_Self | S_Obj "'x obj" | S_Bool bool | S_List "'x obj list" | S_Next "('x obj \<times> nat) option"

definition pure_op :: "'s \<Rightarrow> py_error + 'r \<Rightarrow> ('r \<Rightarrow> 'v) \<Rightarrow> 's \<times> (py_error + 'v)" where
  "pure_op s r f = (s, bnd r (\<lambda>x. Inr (f x)))"

definition map_result :: "'s \<times> (py_error + 'r) \<Rightarrow> ('r \<Rightarrow> 'v) \<Rightarrow> 's \<times> (py_error + 'v)" where
  "map_result m f = (fst m, bnd (snd m) (\<lambda>x. Inr (f x)))"

fun op_value :: "'x list_op_result \<Rightarrow> 'x list_value" where
  "op_value Op_Null = V_Null"
| "op_value (Op_Bool b) = V_Bool b"
| "op_value (Op_New t) = V_List t"
| "op_value Op_Self = V_Self"

fun list_step :: "'x py_env \<Rightarrow> 'x list_op \<Rightarrow> 'x obj mp_list \<Rightarrow> 'x obj mp_list \<times> (py_error + 'x list_value)" where
  "list_step env (Do_Append x) s = map_result (mp_obj_list_append env s x) (\<lambda>_. V_None)"
| "list_step env (Do_Extend arg) s = map_result (list_extend env s arg) (\<lambda>_. V_None)"
| "list_step env (Do_Insert ix x) s = map_result (list_insert env s ix x) (\<lambda>_. V_None)"
| "list_step env (Do_Pop arg) s = map_result (list_pop env s arg) V_Obj"
| "list_step env (Do_Remove x) s = map_result (mp_obj_list_remove env s x) (\<lambda>_. V_None)"
| "list_step env Do_Clear s = map_result (list_clear env s) (\<lambda>_. V_None)"
| "list_step env Do_Reverse s = map_result (list_reverse s) (\<lambda>_. V_None)"
| "list_step env Do_Copy s = pure_op s (list_copy env s) V_List"
| "list_step env (Do_Index x a b) s = pure_op s (list_index env s x a b) V_Obj"
| "list_step env (Do_Count x) s = pure_op s (list_count env s x) V_Obj"
| "list_step env (Do_Load ix) s = pure_op s (list_subscr_load env s ix) (case_sum V_Obj V_List)"
| "list_step env (Do_Store ix x) s = map_result (mp_obj_list_store env s ix x) (\<lambda>_. V_None)"
| "list_step env (Do_Store_Slice a b c arg) s = map_result (list_store_slice env s a b c arg) (\<lambda>_. V_None)"
| "list_step env (Do_Delete ix) s = map_result (list_subscr_delete env s ix) (\<lambda>_. V_None)"
| "list_step env (Do_Binary op rhs seq) s = map_result (list_binary_op env op s rhs seq) op_value"
| "list_step env (Do_Next cur) s = pure_op s (list_it_iternext s cur) V_Next"

definition spec_delete :: "'x py_env \<Rightarrow> 'x obj list \<Rightarrow> 'x obj \<Rightarrow> 'x obj list \<times> (py_error + unit)" where
  "spec_delete env xs ix =
     (case ix of
        O_Slice a b c \<Rightarrow> spec_delete_slice env xs a b c
      | _ \<Rightarrow> map_result (spec_pop env xs (Some ix)) (\<lambda>_. ()))"

definition spec_load :: "'x py_env \<Rightarrow> 'x obj list \<Rightarrow> 'x obj \<Rightarrow> py_error + ('x obj + 'x obj list)" where
  "spec_load env xs ix =
     (case ix of
        O_Slice a b c \<Rightarrow> bnd (spec_slice env xs a b c) (\<lambda>ys. Inr (Inr ys))
      | _ \<Rightarrow> bnd (py_index env (length xs) ix) (\<lambda>i. Inr (Inl (xs ! i))))"

text \<open>
  The operators: \<^verbatim>\<open>+\<close> and the comparisons with a list, \<^verbatim>\<open>+=\<close> with an iterable, \<^verbatim>\<open>*\<close> with an integer as long as the
  result has less than \<open>2 ^ 30\<close> items; nothing else is supported.
\<close>

definition spec_rhs_list :: "'x obj list \<Rightarrow> 'x obj seq_arg option \<Rightarrow> 'x obj list option" where
  "spec_rhs_list xs seq =
     (case seq of Some Arg_Self \<Rightarrow> Some xs | Some (Arg_List p) \<Rightarrow> Some (list_of p) | _ \<Rightarrow> None)"

definition spec_binary ::
    "'x py_env \<Rightarrow> binary_op \<Rightarrow> 'x obj list \<Rightarrow> 'x obj \<Rightarrow> 'x obj seq_arg option \<Rightarrow> 'x obj list \<times> (py_error + 'x spec_value)" where
  "spec_binary env op xs rhs seq =
     (if op = Plain OP_ADD then
        (xs, Inr (case spec_rhs_list xs seq of None \<Rightarrow> S_Null | Some ys \<Rightarrow> S_List (xs @ ys)))
      else if op = Inplace OP_ADD then
        (case seq of
           None \<Rightarrow> (xs, Inl (Exc mp_error.TypeError))
         | Some arg \<Rightarrow> (xs @ fst (arg_items arg xs), case snd (arg_items arg xs) of None \<Rightarrow> Inr S_Self | Some e \<Rightarrow> Inl e))
      else if op = Plain OP_MULTIPLY then
        (xs, bnd (py_int env rhs) (\<lambda>r.
           case r of
             None \<Rightarrow> Inr S_Null
           | Some n \<Rightarrow>
               if length xs * repeat_count n < 2 ^ 30 then Inr (S_List (concat (replicate (repeat_count n) xs)))
               else Inl Fault))
      else if op \<in> {OP_EQUAL, OP_LESS, OP_LESS_EQUAL, OP_MORE, OP_MORE_EQUAL} then
        (xs, case spec_rhs_list xs seq of
               None \<Rightarrow> Inr (if op = OP_EQUAL then S_Bool False else S_Null)
             | Some ys \<Rightarrow> bnd (spec_compare env op xs ys) (\<lambda>b. Inr (S_Bool b)))
      else (xs, Inr S_Null))"

fun list_spec_step :: "'x py_env \<Rightarrow> 'x list_op \<Rightarrow> 'x obj list \<Rightarrow> 'x obj list \<times> (py_error + 'x spec_value)" where
  "list_spec_step env (Do_Append x) xs = (xs @ [x], Inr S_None)"
| "list_spec_step env (Do_Extend arg) xs =
     (xs @ fst (arg_items arg xs), case snd (arg_items arg xs) of None \<Rightarrow> Inr S_None | Some e \<Rightarrow> Inl e)"
| "list_spec_step env (Do_Insert ix x) xs = map_result (spec_insert env xs ix x) (\<lambda>_. S_None)"
| "list_spec_step env (Do_Pop arg) xs = map_result (spec_pop env xs arg) S_Obj"
| "list_spec_step env (Do_Remove x) xs = map_result (spec_remove env xs x) (\<lambda>_. S_None)"
| "list_spec_step env Do_Clear xs = ([], Inr S_None)"
| "list_spec_step env Do_Reverse xs = (rev xs, Inr S_None)"
| "list_spec_step env Do_Copy xs = (xs, Inr (S_List xs))"
| "list_spec_step env (Do_Index x a b) xs = pure_op xs (spec_index env xs x a b) S_Obj"
| "list_spec_step env (Do_Count x) xs = pure_op xs (spec_count env x xs) (\<lambda>n. S_Obj (small_int_obj n))"
| "list_spec_step env (Do_Load ix) xs = pure_op xs (spec_load env xs ix) (case_sum S_Obj S_List)"
| "list_spec_step env (Do_Store ix x) xs = map_result (spec_store env xs ix x) (\<lambda>_. S_None)"
| "list_spec_step env (Do_Store_Slice a b c arg) xs = map_result (spec_store_slice env xs a b c arg) (\<lambda>_. S_None)"
| "list_spec_step env (Do_Delete ix) xs = map_result (spec_delete env xs ix) (\<lambda>_. S_None)"
| "list_spec_step env (Do_Binary op rhs seq) xs = spec_binary env op xs rhs seq"
| "list_spec_step env (Do_Next cur) xs = (xs, Inr (S_Next (if cur < length xs then Some (xs ! cur, cur + 1) else None)))"

text \<open>
  The arguments: lists that are well formed, and slices whose step is at most \<open>2 ^ 31 - 2 ^ 28\<close>, so that no
  position of a list overflows.
\<close>

definition list_op_ok :: "'x py_env \<Rightarrow> 'x list_op \<Rightarrow> bool" where
  "list_op_ok env op \<longleftrightarrow>
     (case op of
        Do_Extend arg \<Rightarrow> arg_ok arg
      | Do_Store_Slice _ _ _ arg \<Rightarrow> arg_ok arg
      | Do_Binary _ _ (Some arg) \<Rightarrow> arg_ok arg
      | Do_Load (O_Slice a b c) \<Rightarrow> step_fits env (2 ^ 28) c
      | _ \<Rightarrow> True)"

fun same_value :: "'x list_value \<Rightarrow> 'x spec_value \<Rightarrow> bool" where
  "same_value V_None S_None = True"
| "same_value V_Null S_Null = True"
| "same_value V_Self S_Self = True"
| "same_value (V_Obj x) (S_Obj y) = (x = y)"
| "same_value (V_Bool x) (S_Bool y) = (x = y)"
| "same_value (V_List t) (S_List ys) = is_list t ys"
| "same_value (V_Next x) (S_Next y) = (x = y)"
| "same_value _ _ = False"

definition same_result :: "py_error + 'x list_value \<Rightarrow> py_error + 'x spec_value \<Rightarrow> bool" where
  "same_result r q \<longleftrightarrow> (case (r, q) of (Inl e, Inl f) \<Rightarrow> e = f | (Inr v, Inr w) \<Rightarrow> same_value v w | _ \<Rightarrow> False)"

section \<open>One operation\<close>

definition step_refines :: "'x obj mp_list \<times> (py_error + 'x list_value) \<Rightarrow> 'x obj list \<times> (py_error + 'x spec_value) \<Rightarrow> bool" where
  "step_refines m spec \<longleftrightarrow>
     is_list (fst m) (fst spec) \<and> same_result (snd m) (snd spec) \<or> snd m = Inl (Exc MemoryError) \<and> (\<exists>zs. holds (fst m) zs)"

lemma step_refines_map:
  "refines m xs spec \<Longrightarrow> (\<And>x. same_value (f x) (g x)) \<Longrightarrow> step_refines (map_result m f) (map_result spec g)"
  by (cases "snd spec") (auto simp: refines_def step_refines_def map_result_def same_result_def)

lemma step_refines_new:
  "is_list s xs \<Longrightarrow> new_list_of m ys \<Longrightarrow> step_refines (pure_op s m V_List) (xs, Inr (S_List ys))"
  by (auto simp: step_refines_def pure_op_def new_list_of_def same_result_def intro: is_list_holds)

lemma step_refines_eq:
  "is_list s xs \<Longrightarrow> r = q \<Longrightarrow> (\<And>x. same_value (f x) (g x)) \<Longrightarrow> step_refines (pure_op s r f) (pure_op xs q g)"
  by (cases q) (auto simp: step_refines_def pure_op_def same_result_def)

lemma refines_unit_map: "map_result (ys, Inr ()) (\<lambda>_. S_None) = (ys, Inr S_None)"
  by (simp add: map_result_def)

lemma list_subscr_load_refines:
  assumes heap: "small_heap env" and s: "is_list s xs" and ok: "list_op_ok env (Do_Load ix)"
  shows "step_refines (pure_op s (list_subscr_load env s ix) (case_sum V_Obj V_List)) (pure_op xs (spec_load env xs ix) (case_sum S_Obj S_List))"
proof (cases "\<exists>a b c. ix = O_Slice a b c")
  case True
  then obtain a b c where ix: "ix = O_Slice a b c"
    by blast
  have "step_fits env (length xs) c"
    using ok is_list_length [OF s] by (auto simp: list_op_ok_def ix step_fits_def split: sum.splits)
  from list_load_slice_correct [OF heap s this, of a b] show ?thesis
    using s is_list_holds [OF s]
    by (auto simp: slice_result_def ix spec_load_def step_refines_def pure_op_def same_result_def)
next
  case False
  have "rd_obj (l_items s) i = Inr (xs ! i)" if "i < length xs" for i
    using s that by (auto simp: is_list_def rd_obj_Val)
  then have "list_subscr_load env s ix = bnd (py_index env (length xs) ix) (\<lambda>i. Inr (Inl (xs ! i)))"
    using s False py_index_less [of env "length xs" ix]
    by (cases "py_index env (length xs) ix"; cases ix) (auto simp: list_subscr_load_def mp_get_index_eq is_list_def)
  moreover have "spec_load env xs ix = bnd (py_index env (length xs) ix) (\<lambda>i. Inr (Inl (xs ! i)))"
    using False by (cases ix) (auto simp: spec_load_def)
  ultimately show ?thesis
    using s by (cases "py_index env (length xs) ix") (simp_all add: step_refines_def pure_op_def same_result_def)
qed

lemma list_subscr_delete_refines:
  assumes heap: "small_heap env" and s: "is_list s xs"
  shows "refines (list_subscr_delete env s ix) xs (spec_delete env xs ix)"
proof (cases "\<exists>a b c. ix = O_Slice a b c")
  case True
  then show ?thesis
    using list_delete_slice_correct [OF s] by (auto simp: spec_delete_def)
next
  case False
  obtain s' r where pop: "list_pop env s (Some ix) = (s', r)"
    by fastforce
  obtain ys q where sp: "spec_pop env xs (Some ix) = (ys, q)"
    by fastforce
  have "refines (s', bnd r (\<lambda>_. Inr ())) xs (ys, bnd q (\<lambda>_. Inr ()))"
    using list_pop_correct [OF heap s, of "Some ix"] unfolding pop sp by (rule refines_unit)
  moreover have "list_subscr_delete env s ix = (s', bnd r (\<lambda>_. Inr ()))"
    using False pop by (cases ix) (auto simp: list_subscr_delete_def)
  moreover have "spec_delete env xs ix = (ys, bnd q (\<lambda>_. Inr ()))"
    using False sp by (cases ix) (auto simp: spec_delete_def map_result_def)
  ultimately show ?thesis
    by simp
qed

lemma rhs_list_spec:
  assumes "is_list s xs" and "case seq of None \<Rightarrow> True | Some arg \<Rightarrow> arg_ok arg"
  shows "(rhs_list s seq = None \<longrightarrow> spec_rhs_list xs seq = None) \<and>
    (\<forall>p. rhs_list s seq = Some p \<longrightarrow> (\<exists>ys. spec_rhs_list xs seq = Some ys \<and> is_list p ys))"
  using assms list_of_is_list [OF assms(1)]
  by (auto simp: rhs_list_def spec_rhs_list_def arg_ok_def split: option.splits seq_arg.splits)

lemma list_new_error: "list_new env n = Inl e \<Longrightarrow> e = Exc MemoryError"
  by (auto simp: list_new_def mp_obj_list_init_def m_new_items_def Let_def LIST_MIN_ALLOC_def items_bytes_def mp_seq_clear_def wr_block_def
      split: if_splits)

lemma list_multiply_refines:
  fixes env :: "'x py_env"
  assumes heap: "small_heap env" and s: "is_list s xs" and n: "mp_obj_get_int_maybe env rhs = Inr (Some n)"
  shows "list_multiply env s rhs = Inl (Exc MemoryError) \<or>
    (if length xs * repeat_count n < 2 ^ 30
     then \<exists>t. list_multiply env s rhs = Inr (Some t) \<and> is_list t (concat (replicate (repeat_count n) xs))
     else list_multiply env s rhs = Inl Fault)"
proof (cases "length xs * repeat_count n < 2 ^ 30")
  case True
  then show ?thesis
    using list_multiply_fits [OF heap s n] by simp
next
  case False
  then have over: "2 ^ 30 \<le> length xs * repeat_count n"
    by linarith
  show ?thesis
  proof (cases "list_new env (l_len s * repeat_count n mod 2 ^ 32) :: py_error + 'x obj mp_list")
    case (Inl e)
    then show ?thesis
      using list_new_error [OF Inl] by (simp add: list_multiply_unfold [OF n])
  next
    case (Inr t)
    then show ?thesis
      using False by (simp add: list_multiply_overflows [OF s n over Inr])
  qed
qed

lemma step_refines_pure:
  "is_list s xs \<Longrightarrow> r = Inl (Exc MemoryError) \<or> same_result r q \<Longrightarrow> step_refines (s, r) (xs, q)"
  by (auto simp: step_refines_def intro: is_list_holds)

lemma list_binary_op_refines:
  assumes heap: "small_heap env" and s: "is_list s xs" and ok: "case seq of None \<Rightarrow> True | Some arg \<Rightarrow> arg_ok arg"
  shows "step_refines (map_result (list_binary_op env op s rhs seq) op_value) (spec_binary env op xs rhs seq)"
proof -
  note rhs = rhs_list_spec [OF s ok]
  consider "op = Plain OP_ADD" | "op = Inplace OP_ADD" | "op = Plain OP_MULTIPLY"
    | "op \<in> {OP_EQUAL, OP_LESS, OP_LESS_EQUAL, OP_MORE, OP_MORE_EQUAL}"
    | "op \<notin> {Plain OP_ADD, Inplace OP_ADD, Plain OP_MULTIPLY, OP_EQUAL, OP_LESS, OP_LESS_EQUAL, OP_MORE, OP_MORE_EQUAL}"
    by blast
  then show ?thesis
  proof cases
    case 1
    show ?thesis
    proof (cases "rhs_list s seq")
      case None
      then show ?thesis
        using 1 rhs s by (simp add: list_binary_op_def spec_binary_def map_result_def step_refines_pure same_result_def)
    next
      case (Some p)
      then obtain ys where ys: "spec_rhs_list xs seq = Some ys" "is_list p ys"
        using rhs by blast
      from list_add_correct [OF heap s ys(2)] show ?thesis
        using 1 Some ys(1) s
        by (auto simp: list_binary_op_def spec_binary_def map_result_def new_list_of_def same_result_def intro!: step_refines_pure)
    qed
  next
    case 2
    show ?thesis
    proof (cases seq)
      case None
      then show ?thesis
        using 2 s by (simp add: list_binary_op_def spec_binary_def map_result_def step_refines_pure same_result_def)
    next
      case (Some arg)
      then have "arg_ok arg"
        using ok by simp
      from step_refines_map [OF list_extend_correct [OF heap s this], of "\<lambda>_. V_Self" "\<lambda>_. S_Self"] show ?thesis
        using 2 Some
        by (cases "list_extend env s arg"; cases "snd (list_extend env s arg)"; cases "snd (arg_items arg xs)")
          (simp_all add: list_binary_op_def spec_binary_def map_result_def)
    qed
  next
    case 3
    show ?thesis
    proof (cases "mp_obj_get_int_maybe env rhs")
      case (Inl e)
      then show ?thesis
        using 3 s by (simp add: mp_obj_get_int_maybe_eq [symmetric] list_binary_op_def spec_binary_def list_multiply_def map_result_def step_refines_pure same_result_def)
    next
      case (Inr r)
      show ?thesis
      proof (cases r)
        case None
        then show ?thesis
          using 3 Inr s by (simp add: mp_obj_get_int_maybe_eq [symmetric] list_binary_op_def spec_binary_def list_multiply_def map_result_def step_refines_pure same_result_def)
      next
        case (Some n)
        from list_multiply_refines [OF heap s Inr [unfolded Some]] show ?thesis
          using 3 Inr Some s
          by (auto simp: mp_obj_get_int_maybe_eq [symmetric] list_binary_op_def spec_binary_def map_result_def same_result_def intro!: step_refines_pure split: if_splits)
      qed
    qed
  next
    case 4
    then have d: "list_binary_op env op s rhs seq = (s, bnd (list_compare env op s (rhs_list s seq)) (\<lambda>r.
                        Inr (case r of None \<Rightarrow> Op_Null | Some b \<Rightarrow> Op_Bool b)))"
      and e: "spec_binary env op xs rhs seq = (xs, case spec_rhs_list xs seq of
               None \<Rightarrow> Inr (if op = OP_EQUAL then S_Bool False else S_Null)
             | Some ys \<Rightarrow> bnd (spec_compare env op xs ys) (\<lambda>b. Inr (S_Bool b)))"
      by (auto simp: list_binary_op_def spec_binary_def)
    show ?thesis
    proof (cases "rhs_list s seq")
      case None
      then show ?thesis
        using rhs s by (simp add: d e list_compare_def map_result_def step_refines_pure same_result_def)
    next
      case (Some p)
      then obtain ys where ys: "spec_rhs_list xs seq = Some ys" "is_list p ys"
        using rhs by blast
      show ?thesis
        using Some ys(1) s
        by (cases "spec_compare env op xs ys") (simp_all add: d e list_compare_correct [OF s ys(2)] map_result_def step_refines_pure same_result_def)
    qed
  next
    case 5
    then have "list_binary_op env op s rhs seq = (s, Inr Op_Null)"
      by (cases op) (auto simp: list_binary_op_def split: arith_op.splits)
    then show ?thesis
      using 5 s by (simp add: spec_binary_def map_result_def step_refines_pure same_result_def)
  qed
qed

text \<open>
  A slice of a list is assigned the list itself, the list grows, and the allocator does not extend
  its block in place.
\<close>

definition self_store_grows :: "'x py_env \<Rightarrow> 'x obj list \<Rightarrow> 'x list_op \<Rightarrow> bool" where
  "self_store_grows env xs op \<longleftrightarrow>
     (\<exists>a b c. op = Do_Store_Slice a b c Arg_Self) \<and>
     (let new = length (fst (list_spec_step env op xs)) in length xs < new \<and> \<not> env_stays env (4 * new))"

lemma list_step_refines:
  assumes heap: "small_heap env" and s: "is_list s xs" and ok: "list_op_ok env op"
  shows "step_refines (list_step env op s) (list_spec_step env op xs) \<or>
    snd (list_step env op s) = Inl Fault \<and> self_store_grows env xs op"
proof (cases op)
  case (Do_Append x)
  then show ?thesis
    using step_refines_map [OF mp_obj_list_append_correct [OF heap s, of x], of "\<lambda>_. V_None" "\<lambda>_. S_None"]
    by (simp add: refines_unit_map)
next
  case (Do_Extend arg)
  then have "arg_ok arg"
    using ok by (simp add: list_op_ok_def)
  from step_refines_map [OF list_extend_correct [OF heap s this], of "\<lambda>_. V_None" "\<lambda>_. S_None"] show ?thesis
    using Do_Extend by (cases "snd (arg_items arg xs)") (simp_all add: map_result_def)
next
  case (Do_Insert ix x)
  then show ?thesis
    using step_refines_map [OF list_insert_correct [OF heap s]] by simp
next
  case (Do_Pop arg)
  then show ?thesis
    using step_refines_map [OF list_pop_correct [OF heap s]] by simp
next
  case (Do_Remove x)
  then show ?thesis
    using step_refines_map [OF mp_obj_list_remove_correct [OF heap s]] by simp
next
  case Do_Clear
  then show ?thesis
    using step_refines_map [OF list_clear_correct [OF heap s], of "\<lambda>_. V_None" "\<lambda>_. S_None"] by (simp add: refines_unit_map)
next
  case Do_Reverse
  then show ?thesis
    using step_refines_map [OF list_reverse_correct [OF s], of "\<lambda>_. V_None" "\<lambda>_. S_None"] by (simp add: refines_unit_map)
next
  case Do_Copy
  then show ?thesis
    using step_refines_new [OF s list_copy_correct [OF heap s]] by simp
next
  case (Do_Index x a b)
  then show ?thesis
    using step_refines_eq [OF s list_index_correct [OF s]] by simp
next
  case (Do_Count x)
  show ?thesis
    unfolding Do_Count list_step.simps list_spec_step.simps list_count_correct [OF s]
    using s by (cases "spec_count env x xs") (simp_all add: step_refines_def pure_op_def same_result_def)
next
  case (Do_Load ix)
  then show ?thesis
    using list_subscr_load_refines [OF heap s] ok by simp
next
  case (Do_Store ix x)
  then show ?thesis
    using step_refines_map [OF mp_obj_list_store_correct [OF s]] by simp
next
  case (Do_Store_Slice a b c arg)
  then have "arg_ok arg"
    using ok by (simp add: list_op_ok_def)
  from list_store_slice_correct [OF heap s this, of a b c] show ?thesis
  proof
    assume "refines (list_store_slice env s a b c arg) xs (spec_store_slice env xs a b c arg)"
    from step_refines_map [OF this, of "\<lambda>_. V_None" "\<lambda>_. S_None"] show ?thesis
      using Do_Store_Slice by simp
  next
    assume "self_store_fault env arg (length xs) (l_alloc s) (length (fst (spec_store_slice env xs a b c arg)))
      (snd (list_store_slice env s a b c arg))"
    then show ?thesis
      using Do_Store_Slice by (auto simp: self_store_fault_def self_store_grows_def map_result_def Let_def)
  qed
next
  case (Do_Delete ix)
  then show ?thesis
    using step_refines_map [OF list_subscr_delete_refines [OF heap s]] by simp
next
  case (Do_Binary bop rhs seq)
  then have "case seq of None \<Rightarrow> True | Some arg \<Rightarrow> arg_ok arg"
    using ok by (cases seq) (simp_all add: list_op_ok_def)
  then show ?thesis
    using list_binary_op_refines [OF heap s] Do_Binary by simp
next
  case (Do_Next cur)
  show ?thesis
    unfolding Do_Next list_step.simps list_spec_step.simps list_it_iternext_correct [OF s]
    using s by (simp add: step_refines_def pure_op_def same_result_def)
qed

section \<open>The properties\<close>

definition int_ob :: "int \<Rightarrow> 'x obj" where
  "int_ob i = O_Int (Small (MP_OBJ_NEW_SMALL_INT (word_of_int i)))"

lemma int_ob_val: "small_range i \<Longrightarrow> int_val (Small (MP_OBJ_NEW_SMALL_INT (word_of_int i))) = i"
  by (subst small_new) (simp_all add: small_range_def sint_word_of_int)

lemma int_ob_key: "small_range i \<Longrightarrow> int_ob i \<in> int_keys"
  using int_ob_val [of i] small_new_ok [of "word_of_int i"]
  by (simp add: int_ob_def int_keys_def canonical_def)

lemma int_ob_index: "small_range i \<Longrightarrow> mp_obj_get_int env (int_ob i) = Inr i"
  using int_ob_val [of i] by (auto simp: int_ob_def mp_obj_get_int_val small_range_def)

text \<open>The list \<^verbatim>\<open>[3, 1, 2]\<close>.\<close>

definition list_312 :: "unit obj mp_list" where
  "list_312 = \<lparr>l_alloc = 4, l_len = 3, l_items = [Val (int_ob 3), Val (int_ob 1), Val (int_ob 2), Null]\<rparr>"

lemma list_312: "is_list list_312 [int_ob 3, int_ob 1, int_ob 2]"
  by (simp add: is_list_def list_312_def)

text \<open>
  C36. \<^verbatim>\<open>list.sort\<close> ends, whatever the key function and the comparison return or raise: no access leaves
  the items in use, the list keeps the same objects in some order, and the only errors are those
  that the key function or the comparison raises. In particular the recursion of the quicksort is
  never too deep for a stack with room for more than \<open>log2 n\<close> calls, since the smaller part is
  sorted by the recursive call. When \<^verbatim>\<open><\<close> is a strict weak order on the keys, the result is sorted,
  from the smallest key up or, with \<^verbatim>\<open>reverse\<close>, from the largest down.
\<close>

theorem list_sort_terminates:
  assumes "is_list s xs" and "length xs < 2 ^ frames"
  shows "\<exists>s' ys r. mp_obj_list_sort env frames s key reverse = (s', r) \<and> is_list s' ys \<and> mset ys = mset xs \<and>
    (\<forall>e. r = Inl e \<longrightarrow> list_sort_raises env key reverse xs e) \<and>
    (\<forall>K lt. compares env K lt \<and> strict_weak_order K lt \<and> (\<forall>x\<in>set xs. \<exists>k\<in>K. item_key env key x = Inr k) \<longrightarrow>
       r = Inr () \<and> sorted_by (item_key env key) (if reverse then (\<lambda>k l. \<not> lt k l) else (\<lambda>k l. \<not> lt l k)) ys)"
proof (rule mp_obj_list_sort_frame [OF assms, of env key reverse])
  fix s' ys r
  assume run: "mp_obj_list_sort env frames s key reverse = (s', r)" "is_list s' ys" "mset ys = mset xs"
    "\<And>e. r = Inl e \<Longrightarrow> list_sort_raises env key reverse xs e"
  then show ?thesis
    using mp_obj_list_sort_sorted [OF assms _ _ _ run(1,2)] by blast
qed

theorem list_sort_terminates_witness:
  "\<exists>s' ys. mp_obj_list_sort (int_env 1000) 2 list_312 None True = (s', Inr ()) \<and> is_list s' ys \<and>
     mset ys = {#int_ob 3, int_ob 1, int_ob 2#} \<and> sorted_by Inr (\<lambda>k l. key_val l \<le> key_val k) ys"
proof -
  have deep: "length [int_ob 3, int_ob 1, int_ob 2 :: unit obj] < 2 ^ 2"
    by simp
  have keys: "\<forall>x\<in>set [int_ob 3, int_ob 1, int_ob 2 :: unit obj]. \<exists>k\<in>int_keys. item_key (int_env 1000) None x = Inr k"
    by (simp add: item_key_def int_ob_key small_range_def)
  have k: "item_key (int_env 1000 :: unit py_env) None = Inr"
    by (simp add: item_key_def fun_eq_iff)
  let ?lt = "\<lambda>a b :: unit obj. key_val a < key_val b"
  have cmp: "compares (int_env 1000) int_keys ?lt" and ord: "strict_weak_order int_keys ?lt"
    by (rule int_compares, rule int_strict_weak_order)
  show ?thesis
    using list_sort_terminates [OF list_312 deep, of "int_env 1000" None True]
  proof (elim exE conjE)
    fix s' ys r
    assume res: "mp_obj_list_sort (int_env 1000) 2 list_312 None True = (s', r)" "is_list s' ys"
      "mset ys = mset [int_ob 3, int_ob 1, int_ob 2]"
    assume sorted: "\<forall>K lt. compares (int_env 1000) K lt \<and> strict_weak_order K lt \<and>
         (\<forall>x\<in>set [int_ob 3, int_ob 1, int_ob 2]. \<exists>k\<in>K. item_key (int_env 1000) None x = Inr k) \<longrightarrow>
       r = Inr () \<and> sorted_by (item_key (int_env 1000) None) (if True then (\<lambda>k l. \<not> lt k l) else (\<lambda>k l. \<not> lt l k)) ys"
    have "r = Inr () \<and> sorted_by Inr (\<lambda>k l. \<not> ?lt k l) ys"
      using sorted [THEN spec, THEN spec, THEN mp, OF conjI [OF cmp conjI [OF ord keys]]] unfolding k if_True .
    then show ?thesis
      using res by (intro exI [of _ s'] exI [of _ ys]) (simp add: not_less)
  qed
qed

fun list_run :: "'x py_env \<Rightarrow> 'x list_op list \<Rightarrow> 'x obj mp_list \<Rightarrow> (py_error + 'x list_value) list \<times> 'x obj mp_list" where
  "list_run env [] s = ([], s)"
| "list_run env (op # ops) s =
     (case list_step env op s of
        (s', r) \<Rightarrow>
          if r = Inl (Exc MemoryError) \<or> r = Inl Fault then ([r], s')
          else (case list_run env ops s' of (rs, t) \<Rightarrow> (r # rs, t)))"

fun list_spec_run :: "'x py_env \<Rightarrow> 'x list_op list \<Rightarrow> 'x obj list \<Rightarrow> (py_error + 'x spec_value) list \<times> 'x obj list" where
  "list_spec_run env [] xs = ([], xs)"
| "list_spec_run env (op # ops) xs =
     (case list_spec_step env op xs of
        (ys, q) \<Rightarrow> if q = Inl Fault then ([q], ys) else (case list_spec_run env ops ys of (qs, zs) \<Rightarrow> (q # qs, zs)))"

lemma list_run_refines:
  assumes "small_heap env"
  shows "is_list s xs \<Longrightarrow> \<forall>op\<in>set ops. list_op_ok env op \<Longrightarrow> list_run env ops s = (rs, t) \<Longrightarrow> list_spec_run env ops xs = (qs, ys) \<Longrightarrow>
    list_all2 same_result rs qs \<and> (is_list t ys \<or> Inl Fault \<in> set rs) \<or>
    (\<exists>rs' zs. rs = rs' @ [Inl (Exc MemoryError)] \<and> list_all2 same_result rs' (take (length rs') qs) \<and> holds t zs) \<or>
    (\<exists>rs'. rs = rs' @ [Inl Fault] \<and> list_all2 same_result rs' (take (length rs') qs) \<and> length rs' < length ops \<and>
      self_store_grows env (snd (list_spec_run env (take (length rs') ops) xs)) (ops ! length rs'))"
proof (induction ops arbitrary: s xs rs t qs ys)
  case (Cons op ops)
  obtain s' r where m: "list_step env op s = (s', r)"
    by fastforce
  obtain xs' q where sp: "list_spec_step env op xs = (xs', q)"
    by fastforce
  have "is_list s' xs' \<and> same_result r q \<or> r = Inl (Exc MemoryError) \<and> (\<exists>zs. holds s' zs) \<or>
      r = Inl Fault \<and> self_store_grows env xs op"
    using list_step_refines [OF assms Cons.prems(1), of op] Cons.prems(2) m sp by (simp add: step_refines_def)
  then consider "r = Inl (Exc MemoryError)" "\<exists>zs. holds s' zs"
    | "r = Inl Fault" "same_result r q"
    | "r = Inl Fault" "self_store_grows env xs op"
    | "r \<noteq> Inl (Exc MemoryError)" "r \<noteq> Inl Fault" "is_list s' xs'" "same_result r q"
    using is_list_holds by blast
  then show ?case
  proof cases
    case 1
    then have "rs = [] @ [Inl (Exc MemoryError)]" "t = s'"
      using Cons.prems(3) m by simp_all
    moreover obtain zs where "holds s' zs"
      using 1(2) by blast
    ultimately show ?thesis
      by (intro disjI2 disjI1 exI [of _ "[]"] exI [of _ zs]) auto
  next
    case 2
    then have "q = Inl Fault"
      by (auto simp: same_result_def split: sum.splits)
    then show ?thesis
      using 2 Cons.prems(3,4) m sp by auto
  next
    case 3
    then have "rs = [] @ [Inl Fault]"
      using Cons.prems(3) m by simp
    then show ?thesis
      using 3(2) by (intro disjI2 exI [of _ "[]"]) (simp del: append_Nil)
  next
    case 4
    have q: "q \<noteq> Inl Fault"
      using 4(2,4) by (auto simp: same_result_def split: sum.splits)
    obtain rs1 where rs1: "list_run env ops s' = (rs1, t)" "rs = r # rs1"
      using Cons.prems(3) m 4(1,2) by (auto split: prod.splits)
    obtain qs1 where qs1: "list_spec_run env ops xs' = (qs1, ys)" "qs = q # qs1"
      using Cons.prems(4) sp q by (auto split: prod.splits)
    have run: "snd (list_spec_run env (op # us) xs) = snd (list_spec_run env us xs')" for us
      using sp q by (simp split: prod.split)
    have "\<forall>op\<in>set ops. list_op_ok env op"
      using Cons.prems(2) by simp
    note IH = Cons.IH [OF 4(3) this rs1(1) qs1(1)]
    then show ?thesis
    proof (elim disjE exE conjE)
      fix rs' zs assume "rs1 = rs' @ [Inl (Exc MemoryError)]" "list_all2 same_result rs' (take (length rs') qs1)" "holds t zs"
      then show ?thesis
        using 4(4) rs1(2) qs1(2) by (intro disjI2 disjI1 exI [of _ "r # rs'"] exI [of _ zs]) simp
    next
      fix rs' assume "rs1 = rs' @ [Inl Fault]" "list_all2 same_result rs' (take (length rs') qs1)" "length rs' < length ops"
        "self_store_grows env (snd (list_spec_run env (take (length rs') ops) xs')) (ops ! length rs')"
      then show ?thesis
        using 4(4) rs1(2) qs1(2) run by (intro disjI2 exI [of _ "r # rs'"]) simp
    qed (use 4(4) rs1(2) qs1(2) in simp_all)
  qed
qed simp

text \<open>
  C37. A program of list operations - \<^verbatim>\<open>append\<close>, \<^verbatim>\<open>extend\<close> (also by the list itself), \<^verbatim>\<open>insert\<close>, \<^verbatim>\<open>pop\<close>,
  \<^verbatim>\<open>remove\<close>, \<^verbatim>\<open>clear\<close>, \<^verbatim>\<open>reverse\<close>, \<^verbatim>\<open>copy\<close>, \<^verbatim>\<open>index\<close>, \<^verbatim>\<open>count\<close>, loads, stores and deletions by index and by
  slice, the operators and the iterator - returns the results and errors of the same program on
  the sequence of the objects, and leaves the list for the final sequence with every cell after its
  length null. The bounds of slices are Python's, with negative bounds counted from the end. The first
  \<^verbatim>\<open>MemoryError\<close> ends the run with a list that still holds a sequence. The first \<open>Fault\<close> ends it as
  well; unless a parameter (the equality or the order of other objects) answers so, there are two of them: \<^verbatim>\<open>list * n\<close> with a result of
  \<open>2 ^ 30\<close> items or more, which is a \<open>Fault\<close> of the specification too, and the assignment of a list to
  a slice of itself that makes it grow, when the allocator moves the block.
\<close>

theorem list_program_refines:
  assumes "small_heap env" and "is_list s xs" and "\<forall>op\<in>set ops. list_op_ok env op"
    and "list_run env ops s = (rs, t)" and "list_spec_run env ops xs = (qs, ys)"
  shows "list_all2 same_result rs qs \<and> (is_list t ys \<or> Inl Fault \<in> set rs) \<or>
    (\<exists>rs' zs. rs = rs' @ [Inl (Exc MemoryError)] \<and> list_all2 same_result rs' (take (length rs') qs) \<and> holds t zs) \<or>
    (\<exists>rs'. rs = rs' @ [Inl Fault] \<and> list_all2 same_result rs' (take (length rs') qs) \<and> length rs' < length ops \<and>
      self_store_grows env (snd (list_spec_run env (take (length rs') ops) xs)) (ops ! length rs'))"
  by (rule list_run_refines [OF assms])

definition list_example :: "unit list_op list" where
  "list_example =
     [Do_Append (int_ob 5), Do_Reverse, Do_Load (O_Slice O_None O_None (int_ob (- 2))),
      Do_Store_Slice (int_ob (- 3)) (int_ob (- 1)) O_None (Arg_Tuple [int_ob 8]), Do_Load (int_ob 9)]"

lemma small_heap_int_env: "limit < 2 ^ 30 \<Longrightarrow> small_heap (int_env limit)"
  by (simp add: small_heap_def int_env_def)

lemma int_ob_not_None: "int_ob i \<noteq> O_None"
  by (simp add: int_ob_def)

lemma int_ob_py: "small_range i \<Longrightarrow> py_the_int env (int_ob i) = Inr i"
  using int_ob_index [of i env] by (simp add: mp_obj_get_int_eq)

lemmas slice_spec_simps = py_slice_def py_step_def py_slice_end_def py_clip_def int_ob_not_None int_ob_py small_range_def

lemma list_example_spec:
  "list_spec_run (int_env 1000) list_example [int_ob 3, int_ob 1, int_ob 2] =
     ([Inr S_None, Inr S_None, Inr (S_List [int_ob 3, int_ob 2]), Inr S_None, Inl (Exc IndexError)],
      [int_ob 5, int_ob 8, int_ob 3])"
proof -
  have r: "py_range 3 (- 1) (- 2) = [3, 1]"
    by (simp add: py_range_def upt_rec)
  have load: "spec_load env xs (int_ob 9) = Inl (Exc IndexError)" if "length xs = 3" for env xs
    using that int_ob_py [of 9 env] by (simp add: spec_load_def int_ob_def py_index_def small_range_def)
  have slice: "spec_load env xs (O_Slice a b c) = bnd (spec_slice env xs a b c) (\<lambda>ys. Inr (Inr ys))" for env xs a b c
    by (simp add: spec_load_def)
  show ?thesis
    by (simp add: list_example_def map_result_def pure_op_def load slice spec_slice_def slice_spec_simps r
        spec_store_slice_def arg_items_def)
qed

theorem list_program_refines_witness:
  "\<exists>rs t. list_run (int_env 1000) list_example list_312 = (rs, t) \<and>
     (list_all2 same_result rs [Inr S_None, Inr S_None, Inr (S_List [int_ob 3, int_ob 2]), Inr S_None, Inl (Exc IndexError)] \<and>
       (is_list t [int_ob 5, int_ob 8, int_ob 3] \<or> Inl Fault \<in> set rs) \<or>
      (\<exists>rs' zs. rs = rs' @ [Inl (Exc MemoryError)] \<and>
        list_all2 same_result rs' (take (length rs') [Inr S_None, Inr S_None, Inr (S_List [int_ob 3, int_ob 2]), Inr S_None, Inl (Exc IndexError)]) \<and>
        holds t zs))"
proof -
  have heap: "small_heap (int_env 1000 :: unit py_env)"
    by (rule small_heap_int_env) simp
  have "step_fits (int_env 1000) (2 ^ 28) (int_ob (- 2) :: unit obj)"
    by (simp add: step_fits_def slice_spec_simps)
  then have ok: "\<forall>op\<in>set list_example. list_op_ok (int_env 1000) op"
    by (simp add: list_example_def list_op_ok_def arg_ok_def) (simp add: int_ob_def)
  have self: "\<not> self_store_grows (int_env 1000) ys (list_example ! n)" if "n < length list_example" for ys n
  proof -
    have "list_example ! n \<in> set list_example"
      using that by (rule nth_mem)
    then show ?thesis
      by (auto simp: list_example_def self_store_grows_def)
  qed
  obtain rs t where run: "list_run (int_env 1000) list_example list_312 = (rs, t)"
    by fastforce
  have none: "\<not> (\<exists>rs'. rs = rs' @ [Inl Fault] \<and> list_all2 same_result rs' (take (length rs')
          [Inr S_None, Inr S_None, Inr (S_List [int_ob 3, int_ob 2]), Inr S_None, Inl (Exc IndexError)]) \<and>
        length rs' < length list_example \<and>
        self_store_grows (int_env 1000) (snd (list_spec_run (int_env 1000) (take (length rs') list_example) [int_ob 3, int_ob 1, int_ob 2]))
          (list_example ! length rs'))"
    using self by blast
  show ?thesis
    using list_program_refines [OF heap list_312 ok run list_example_spec]
    unfolding Eq_FalseI [OF none] simp_thms
    by - (rule exI [of _ rs], rule exI [of _ t], rule conjI [OF run])
qed

text \<open>The \<open>Fault\<close> of a self-assignment does happen: \<^verbatim>\<open>a[1:1] = a\<close> for \<^verbatim>\<open>a = [3, 1, 2]\<close>.\<close>

lemma list_store_self_moves:
  "snd (list_store_slice (int_env 1000) list_312 (int_ob 1) (int_ob 1) O_None Arg_Self) = Inl Fault"
proof -
  have ix: "mp_obj_slice_indices env (int_ob 1) (int_ob 1) O_None 3 = Inr \<lparr>sl_start = 1, sl_stop = 1, sl_step = 1\<rparr>" for env :: "unit py_env"
    by (simp add: mp_obj_slice_indices_def slice_step_def slice_bound_def int_ob_not_None int_ob_index small_range_def)
  show ?thesis
    by (simp add: list_store_slice_def mp_obj_get_array_def mp_seq_get_fast_slice_indexes_def ix list_312_def commit_def m_renew_items_def
        items_bytes_def int_env_def replace_grow_fault)
qed

lemma list_load_slice_overflows:
  assumes heap: "small_heap env" and s: "is_list s xs"
    and ix: "mp_obj_slice_indices env a b c (int (length xs)) = Inr ix"
    and step: "1 < sl_step ix" "sl_start ix < sl_stop ix" "2 ^ 31 \<le> sl_start ix + sl_step ix"
  shows "list_subscr_load env s (O_Slice a b c) \<in> {Inl (Exc MemoryError), Inl Fault}"
proof -
  let ?cs = "replicate (l_alloc s - length xs) Null"
  have f: "l_len s = length xs" "l_items s = map Val xs @ ?cs"
    using s by (simp_all add: is_list_def)
  have rng: "0 \<le> sl_start ix" "sl_start ix < int (length xs)" "sl_start ix < loop_stop ix"
    using mp_obj_slice_indices_range [OF ix] step by (auto simp: loop_stop_def)
  have load: "list_subscr_load env s (O_Slice a b c) =
      bnd (mp_seq_extract_slice env (map Val xs @ ?cs) (ix\<lparr>sl_stop := loop_stop ix\<rparr>)) (\<lambda>res. Inr (Inr res))"
    using step by (simp add: list_subscr_load_def mp_seq_get_fast_slice_indexes_eq f ix)
  have new: "new_list_of (mp_obj_new_list env 0 None :: py_error + 'a obj mp_list) []"
    by (rule mp_obj_new_list_empty [OF heap])
  show ?thesis
  proof (cases "mp_obj_new_list env 0 None :: py_error + 'a obj mp_list")
    case (Inl e)
    then show ?thesis
      using new by (simp add: load mp_seq_extract_slice_def new_list_of_def)
  next
    case (Inr res)
    obtain t r where app: "mp_obj_list_append env res (xs ! nat (sl_start ix)) = (t, r)"
      by fastforce
    have "is_list res []"
      using new Inr by (simp add: new_list_of_def)
    then have "r = Inl (Exc MemoryError) \<or> r = Inr ()"
      using mp_obj_list_append_result [OF app heap] by blast
    moreover have "rd_obj_at (map Val xs @ ?cs) (sl_start ix) = Inr (xs ! nat (sl_start ix))"
      using rng by (simp add: rd_obj_at_def rd_obj_Val)
    moreover have "signed_sum (sl_start ix) (sl_step ix) = Inl Fault"
      using step by (simp add: signed_sum_def)
    ultimately show ?thesis
      using Inr app rng step by (auto simp: load mp_seq_extract_slice_def extract_up.simps [of _ _ "sl_start ix"])
  qed
qed

text \<open>
  C38. The sizes that overflow. \<^verbatim>\<open>list * n\<close> repeats the items or raises \<^verbatim>\<open>MemoryError\<close> as long as the
  result has less than \<open>2 ^ 30\<close> items; from there on the size of the buffer wraps around, and when the
  allocator has room for what is left, the copy writes outside the buffer. A slice with a step that
  takes the second position beyond \<open>2 ^ 31\<close> overflows the signed position of the loop in
  \<^verbatim>\<open>mp_seq_extract_slice\<close> (Python: a list of one item).
\<close>

theorem list_sizes_overflow:
  fixes env :: "'x py_env"
  assumes "small_heap env" and "is_list s xs" and "mp_obj_get_int_maybe env rhs = Inr (Some n)"
    and "mp_obj_slice_indices env a b c (int (length xs)) = Inr ix"
  shows "(length xs * repeat_count n < 2 ^ 30 \<longrightarrow>
      list_multiply env s rhs = Inl (Exc MemoryError) \<or>
      (\<exists>t. list_multiply env s rhs = Inr (Some t) \<and> is_list t (concat (replicate (repeat_count n) xs)))) \<and>
    (2 ^ 30 \<le> length xs * repeat_count n \<longrightarrow>
      list_multiply env s rhs =
        bnd (list_new env (l_len s * repeat_count n mod 2 ^ 32)) (\<lambda>t :: 'x obj mp_list. Inl Fault)) \<and>
    (1 < sl_step ix \<and> sl_start ix < sl_stop ix \<and> 2 ^ 31 \<le> sl_start ix + sl_step ix \<longrightarrow>
      list_subscr_load env s (O_Slice a b c) \<in> {Inl (Exc MemoryError), Inl Fault})"
proof (intro conjI impI)
  assume "length xs * repeat_count n < 2 ^ 30"
  then show "list_multiply env s rhs = Inl (Exc MemoryError) \<or>
      (\<exists>t. list_multiply env s rhs = Inr (Some t) \<and> is_list t (concat (replicate (repeat_count n) xs)))"
    by (rule list_multiply_fits [OF assms(1-3)])
next
  assume over: "2 ^ 30 \<le> length xs * repeat_count n"
  show "list_multiply env s rhs = bnd (list_new env (l_len s * repeat_count n mod 2 ^ 32)) (\<lambda>t :: 'x obj mp_list. Inl Fault)"
  proof (cases "list_new env (l_len s * repeat_count n mod 2 ^ 32) :: py_error + 'x obj mp_list")
    case (Inl e)
    then show ?thesis
      by (simp add: list_multiply_unfold [OF assms(3)])
  next
    case (Inr t)
    then show ?thesis
      by (simp add: list_multiply_overflows [OF assms(2,3) over Inr])
  qed
next
  assume "1 < sl_step ix \<and> sl_start ix < sl_stop ix \<and> 2 ^ 31 \<le> sl_start ix + sl_step ix"
  then show "list_subscr_load env s (O_Slice a b c) \<in> {Inl (Exc MemoryError), Inl Fault}"
    by (intro list_load_slice_overflows [OF assms(1,2,4)]) simp_all
qed

definition two_30 :: int_obj where
  "two_30 = Big \<lparr>z_neg = False, z_fixed = False, z_len = 2, z_dig = [0, 0x4000]\<rparr>"

definition max_31 :: int_obj where
  "max_31 = Big \<lparr>z_neg = False, z_fixed = False, z_len = 2, z_dig = [0xFFFF, 0x7FFF]\<rparr>"

lemma large_vals: "int_val two_30 = 1073741824" "int_val max_31 = 2147483647"
  by (simp_all add: two_30_def max_31_def int_val_def mpz_val_def sval_def digits_def take_Cons')

lemma list_312_slice:
  fixes env :: "'x py_env"
  shows "mp_obj_slice_indices env (int_ob 1) O_None (O_Int max_31) 3 = Inr \<lparr>sl_start = 1, sl_stop = 3, sl_step = 2147483647\<rparr>"
  using int_ob_index [of 1 env]
  by (simp add: mp_obj_slice_indices_def slice_step_def slice_bound_def mp_obj_get_int_val large_vals int_ob_not_None small_range_def)

theorem list_sizes_overflow_witness:
  "list_multiply (int_env 1000) list_312 (O_Int two_30) = Inl Fault \<and>
   list_subscr_load (int_env 1000) list_312 (O_Slice (int_ob 1) O_None (O_Int max_31)) \<in> {Inl (Exc MemoryError), Inl Fault}"
proof -
  have heap: "small_heap (int_env 1000 :: unit py_env)"
    by (rule small_heap_int_env) simp
  have n: "mp_obj_get_int_maybe (int_env 1000) (O_Int two_30 :: unit obj) = Inr (Some 1073741824)"
    by (simp add: mp_obj_get_int_maybe_def checked_int_val large_vals)
  have ix: "mp_obj_slice_indices (int_env 1000) (int_ob 1) O_None (O_Int max_31) (int (length [int_ob 3, int_ob 1, int_ob 2 :: unit obj])) =
      Inr \<lparr>sl_start = 1, sl_stop = 3, sl_step = 2147483647\<rparr>"
    using list_312_slice by simp
  have "\<exists>t :: unit obj mp_list. list_new (int_env 1000 :: unit py_env) (l_len list_312 * repeat_count 1073741824 mod 2 ^ 32) = Inr t"
    by (simp add: list_new_def mp_obj_list_init_def Let_def list_312_def repeat_count_def m_new_items_def items_bytes_def int_env_def
        LIST_MIN_ALLOC_def mp_seq_clear_def wr_block_def)
  then show ?thesis
    using list_sizes_overflow [OF heap list_312 n ix] by (auto simp: repeat_count_def)
qed

end
