(* ===== verification/Pairheap.thy ===== *)
theory Pairheap
  imports Prelude "HOL-Library.Monad_Syntax"
begin

text \<open>
  The pairing heap of \<^verbatim>\<open>py/pairheap.c\<close> and \<^verbatim>\<open>py/pairheap.h\<close>, on which asyncio keeps its tasks. The nodes
  are in a memory that maps addresses to the three pointers of a node; an access to an address
  without a node is the result \<open>None\<close>, and so is a loop that does not end. The order of the
  elements is a parameter, as in the code.
\<close>

section \<open>Nodes\<close>

record ph_node =
  ph_child :: u32
  ph_child_last :: u32
  ph_next :: u32

type_synonym ph_mem = "u32 \<Rightarrow> ph_node option"

definition NEXT_MAKE_RIGHTMOST_PARENT :: "u32 \<Rightarrow> u32" where
  "NEXT_MAKE_RIGHTMOST_PARENT parent = parent OR 1"

definition NEXT_IS_RIGHTMOST_PARENT :: "u32 \<Rightarrow> bool" where
  "NEXT_IS_RIGHTMOST_PARENT next \<longleftrightarrow> next AND 1 \<noteq> 0"

definition NEXT_GET_RIGHTMOST_PARENT :: "u32 \<Rightarrow> u32" where
  "NEXT_GET_RIGHTMOST_PARENT next = next AND NOT 1"

definition ph_set :: "(ph_node \<Rightarrow> ph_node) \<Rightarrow> u32 \<Rightarrow> ph_mem \<Rightarrow> ph_mem option" where
  "ph_set f p \<sigma> = map_option (\<lambda>n. \<sigma>(p \<mapsto> f n)) (\<sigma> p)"

definition set_child :: "u32 \<Rightarrow> u32 \<Rightarrow> ph_mem \<Rightarrow> ph_mem option" where
  "set_child p v = ph_set (\<lambda>n. n\<lparr>ph_child := v\<rparr>) p"

definition set_child_last :: "u32 \<Rightarrow> u32 \<Rightarrow> ph_mem \<Rightarrow> ph_mem option" where
  "set_child_last p v = ph_set (\<lambda>n. n\<lparr>ph_child_last := v\<rparr>) p"

definition set_next :: "u32 \<Rightarrow> u32 \<Rightarrow> ph_mem \<Rightarrow> ph_mem option" where
  "set_next p v = ph_set (\<lambda>n. n\<lparr>ph_next := v\<rparr>) p"

section \<open>Operations\<close>

definition mp_pairheap_new :: u32 where
  "mp_pairheap_new = 0"

definition mp_pairheap_init_node :: "u32 \<Rightarrow> ph_mem \<Rightarrow> ph_mem option" where
  "mp_pairheap_init_node node \<sigma> = do { \<sigma> \<leftarrow> set_child node 0 \<sigma>; set_next node 0 \<sigma> }"

definition mp_pairheap_is_empty :: "u32 \<Rightarrow> bool" where
  "mp_pairheap_is_empty heap \<longleftrightarrow> heap = 0"

definition mp_pairheap_peek :: "u32 \<Rightarrow> u32" where
  "mp_pairheap_peek heap = heap"

definition mp_pairheap_meld :: "(u32 \<Rightarrow> u32 \<Rightarrow> bool) \<Rightarrow> u32 \<Rightarrow> u32 \<Rightarrow> ph_mem \<Rightarrow> (u32 \<times> ph_mem) option" where
  "mp_pairheap_meld lt heap1 heap2 \<sigma> =
     (if heap1 = 0 then Some (heap2, \<sigma>)
      else if heap2 = 0 then Some (heap1, \<sigma>)
      else if lt heap1 heap2 then do {
        n \<leftarrow> \<sigma> heap1;
        \<sigma> \<leftarrow> (if ph_child n = 0 then set_child heap1 heap2 \<sigma> else set_next (ph_child_last n) heap2 \<sigma>);
        \<sigma> \<leftarrow> set_child_last heap1 heap2 \<sigma>;
        \<sigma> \<leftarrow> set_next heap2 (NEXT_MAKE_RIGHTMOST_PARENT heap1) \<sigma>;
        Some (heap1, \<sigma>) }
      else do {
        n2 \<leftarrow> \<sigma> heap2;
        \<sigma> \<leftarrow> set_next heap1 (ph_child n2) \<sigma>;
        \<sigma> \<leftarrow> set_child heap2 heap1 \<sigma>;
        n1 \<leftarrow> \<sigma> heap1;
        if ph_next n1 = 0 then do {
          \<sigma> \<leftarrow> set_child_last heap2 heap1 \<sigma>;
          \<sigma> \<leftarrow> set_next heap1 (NEXT_MAKE_RIGHTMOST_PARENT heap2) \<sigma>;
          Some (heap2, \<sigma>) }
        else Some (heap2, \<sigma>) })"

text \<open>The second node of a pair is taken off the list and melded with the first one, if there is a second.\<close>

definition pairing_second ::
    "(u32 \<Rightarrow> u32 \<Rightarrow> bool) \<Rightarrow> u32 \<Rightarrow> u32 \<Rightarrow> ph_mem \<Rightarrow> (u32 \<times> u32 \<times> ph_mem) option" where
  "pairing_second lt n1 child \<sigma> =
     (if NEXT_IS_RIGHTMOST_PARENT child then Some (child, n1, \<sigma>)
      else do {
        c \<leftarrow> \<sigma> child;
        \<sigma> \<leftarrow> set_next child 0 \<sigma>;
        (n1, \<sigma>) \<leftarrow> mp_pairheap_meld lt n1 child \<sigma>;
        Some (ph_next c, n1, \<sigma>) })"

partial_function (option) pairing_loop ::
    "(u32 \<Rightarrow> u32 \<Rightarrow> bool) \<Rightarrow> u32 \<Rightarrow> u32 \<Rightarrow> ph_mem \<Rightarrow> (u32 \<times> ph_mem) option" where
  [code]: "pairing_loop lt child heap \<sigma> =
     (if NEXT_IS_RIGHTMOST_PARENT child then Some (heap, \<sigma>)
      else do {
        c \<leftarrow> \<sigma> child;
        \<sigma> \<leftarrow> set_next child 0 \<sigma>;
        (child, n1, \<sigma>) \<leftarrow> pairing_second lt child (ph_next c) \<sigma>;
        (heap, \<sigma>) \<leftarrow> mp_pairheap_meld lt heap n1 \<sigma>;
        pairing_loop lt child heap \<sigma> })"

definition mp_pairheap_pairing :: "(u32 \<Rightarrow> u32 \<Rightarrow> bool) \<Rightarrow> u32 \<Rightarrow> ph_mem \<Rightarrow> (u32 \<times> ph_mem) option" where
  "mp_pairheap_pairing lt child \<sigma> =
     (if child = 0 then Some (0, \<sigma>)
      else do {
        (heap, \<sigma>) \<leftarrow> pairing_loop lt child 0 \<sigma>;
        \<sigma> \<leftarrow> set_next heap 0 \<sigma>;
        Some (heap, \<sigma>) })"

definition mp_pairheap_push :: "(u32 \<Rightarrow> u32 \<Rightarrow> bool) \<Rightarrow> u32 \<Rightarrow> u32 \<Rightarrow> ph_mem \<Rightarrow> (u32 \<times> ph_mem) option" where
  "mp_pairheap_push lt heap node \<sigma> = mp_pairheap_meld lt node heap \<sigma>"

definition mp_pairheap_pop :: "(u32 \<Rightarrow> u32 \<Rightarrow> bool) \<Rightarrow> u32 \<Rightarrow> ph_mem \<Rightarrow> (u32 \<times> ph_mem) option" where
  "mp_pairheap_pop lt heap \<sigma> = do {
     n \<leftarrow> \<sigma> heap;
     \<sigma> \<leftarrow> set_child heap 0 \<sigma>;
     mp_pairheap_pairing lt (ph_child n) \<sigma> }"

text \<open>The two searches of the deletion: the parent of a node, and the sibling before it.\<close>

partial_function (option) find_parent :: "u32 \<Rightarrow> ph_mem \<Rightarrow> u32 option" where
  [code]: "find_parent p \<sigma> = do {
     n \<leftarrow> \<sigma> p;
     if NEXT_IS_RIGHTMOST_PARENT (ph_next n) then Some (NEXT_GET_RIGHTMOST_PARENT (ph_next n))
     else find_parent (ph_next n) \<sigma> }"

partial_function (option) find_previous :: "u32 \<Rightarrow> u32 \<Rightarrow> ph_mem \<Rightarrow> u32 option" where
  [code]: "find_previous node n \<sigma> = do {
     m \<leftarrow> \<sigma> n;
     if node = ph_next m then Some n else find_previous node (ph_next m) \<sigma> }"

text \<open>
  The node is taken out and its children are paired; the result is the node whose \<open>next\<close> pointer takes
  over the one of the deleted node.
\<close>

definition replace_first :: "(u32 \<Rightarrow> u32 \<Rightarrow> bool) \<Rightarrow> u32 \<Rightarrow> u32 \<Rightarrow> ph_mem \<Rightarrow> (u32 \<times> ph_mem) option" where
  "replace_first lt parent node \<sigma> = do {
     n \<leftarrow> \<sigma> node;
     \<sigma> \<leftarrow> set_child node 0 \<sigma>;
     \<sigma> \<leftarrow> set_next node 0 \<sigma>;
     (r, \<sigma>) \<leftarrow> mp_pairheap_pairing lt (ph_child n) \<sigma>;
     \<sigma> \<leftarrow> set_child parent r \<sigma>;
     Some (r, \<sigma>) }"

definition replace_later :: "(u32 \<Rightarrow> u32 \<Rightarrow> bool) \<Rightarrow> u32 \<Rightarrow> u32 \<Rightarrow> ph_mem \<Rightarrow> (u32 \<times> ph_mem) option" where
  "replace_later lt first node \<sigma> = do {
     prev \<leftarrow> find_previous node first \<sigma>;
     n \<leftarrow> \<sigma> node;
     \<sigma> \<leftarrow> set_child node 0 \<sigma>;
     \<sigma> \<leftarrow> set_next node 0 \<sigma>;
     (r, \<sigma>) \<leftarrow> mp_pairheap_pairing lt (ph_child n) \<sigma>;
     if r = 0 then Some (prev, \<sigma>)
     else do { \<sigma> \<leftarrow> set_next prev r \<sigma>; Some (r, \<sigma>) } }"

definition mp_pairheap_delete :: "(u32 \<Rightarrow> u32 \<Rightarrow> bool) \<Rightarrow> u32 \<Rightarrow> u32 \<Rightarrow> ph_mem \<Rightarrow> (u32 \<times> ph_mem) option" where
  "mp_pairheap_delete lt heap node \<sigma> =
     (if node = heap then do {
        h \<leftarrow> \<sigma> heap;
        \<sigma> \<leftarrow> set_child node 0 \<sigma>;
        mp_pairheap_pairing lt (ph_child h) \<sigma> }
      else do {
        n \<leftarrow> \<sigma> node;
        if ph_next n = 0 then Some (heap, \<sigma>)
        else do {
          parent \<leftarrow> find_parent node \<sigma>;
          par \<leftarrow> \<sigma> parent;
          if node = ph_child par \<and> ph_child n = 0 then do {
            \<sigma> \<leftarrow> set_child parent (if NEXT_IS_RIGHTMOST_PARENT (ph_next n) then 0 else ph_next n) \<sigma>;
            \<sigma> \<leftarrow> set_next node 0 \<sigma>;
            Some (heap, \<sigma>) }
          else do {
            (r, \<sigma>) \<leftarrow> (if node = ph_child par then replace_first lt parent node \<sigma>
                      else replace_later lt (ph_child par) node \<sigma>);
            \<sigma> \<leftarrow> set_next r (ph_next n) \<sigma>;
            \<sigma> \<leftarrow> (if NEXT_IS_RIGHTMOST_PARENT (ph_next n) then set_child_last parent r \<sigma> else Some \<sigma>);
            Some (heap, \<sigma>) } } })"

end
