(* ===== verification/Pairheap_Correct.thy ===== *)
theory Pairheap_Correct
  imports Pairheap
begin

text \<open>
  The pairing heap in memory as a tree: every operation of theory Pairheap ends, touches the nodes of its
  heap only, and leaves the tree that the same operation on trees gives. The order of the elements
  is in theory Pairheap_Order.
\<close>

section \<open>Trees\<close>

datatype ph_tree = PH u32 "ph_tree list"

fun ph_root :: "ph_tree \<Rightarrow> u32" where
  "ph_root (PH x cs) = x"

fun nodes :: "ph_tree list \<Rightarrow> u32 list" where
  "nodes [] = []"
| "nodes (PH x cs # ts) = x # nodes cs @ nodes ts"

definition link :: "(u32 \<Rightarrow> u32 \<Rightarrow> bool) \<Rightarrow> ph_tree \<Rightarrow> ph_tree \<Rightarrow> ph_tree" where
  "link lt t u =
     (case (t, u) of (PH x cs, PH y ds) \<Rightarrow> if lt x y then PH x (cs @ [u]) else PH y (t # ds))"

definition link_opt :: "(u32 \<Rightarrow> u32 \<Rightarrow> bool) \<Rightarrow> ph_tree option \<Rightarrow> ph_tree \<Rightarrow> ph_tree" where
  "link_opt lt acc t = (case acc of None \<Rightarrow> t | Some u \<Rightarrow> link lt u t)"

fun pair_up :: "(u32 \<Rightarrow> u32 \<Rightarrow> bool) \<Rightarrow> ph_tree option \<Rightarrow> ph_tree list \<Rightarrow> ph_tree option" where
  "pair_up lt acc [] = acc"
| "pair_up lt acc [t] = Some (link_opt lt acc t)"
| "pair_up lt acc (t # u # ts) = pair_up lt (Some (link_opt lt acc (link lt t u))) ts"

definition opt_list :: "'a option \<Rightarrow> 'a list" where
  "opt_list z = (case z of None \<Rightarrow> [] | Some x \<Rightarrow> [x])"

lemma opt_list_simps [simp]: "opt_list None = []" "opt_list (Some x) = [x]"
  by (simp_all add: opt_list_def)

text \<open>The children of a node, and the trees with other children at a node.\<close>

fun kids :: "u32 \<Rightarrow> ph_tree list \<Rightarrow> ph_tree list option" where
  "kids p [] = None"
| "kids p (PH x cs # ts) =
     (if x = p then Some cs else case kids p cs of Some ds \<Rightarrow> Some ds | None \<Rightarrow> kids p ts)"

fun set_kids :: "u32 \<Rightarrow> ph_tree list \<Rightarrow> ph_tree list \<Rightarrow> ph_tree list" where
  "set_kids p new [] = []"
| "set_kids p new (PH x cs # ts) = PH x (if x = p then new else set_kids p new cs) # set_kids p new ts"

lemma nodes_append [simp]: "nodes (ts @ us) = nodes ts @ nodes us"
  by (induction ts rule: nodes.induct) simp_all

lemma ph_root_in: "t \<in> set ts \<Longrightarrow> ph_root t \<in> set (nodes ts)"
  by (induction ts rule: nodes.induct) auto

lemma nodes_Cons: "nodes (t # ts) = nodes [t] @ nodes ts"
  by (cases t) simp

lemma nodes_hd: "ts \<noteq> [] \<Longrightarrow> ph_root (hd ts) \<in> set (nodes ts)"
  by (rule ph_root_in) simp

lemma nodes_Nil: "nodes ts = [] \<longleftrightarrow> ts = []"
  by (cases ts rule: nodes.cases) simp_all

lemma distinct_roots: "distinct (nodes ts) \<Longrightarrow> distinct (map ph_root ts)"
  by (induction ts rule: nodes.induct) (auto dest: ph_root_in)

lemma nodes_link: "set (nodes [link lt t u]) = set (nodes [t]) \<union> set (nodes [u])"
  by (cases t; cases u) (auto simp: link_def)

lemma distinct_nodes_link: "distinct (nodes [t] @ nodes [u]) \<Longrightarrow> distinct (nodes [link lt t u])"
  by (cases t; cases u) (auto simp: link_def)

lemma nodes_link_opt: "set (nodes [link_opt lt acc t]) = set (nodes (opt_list acc)) \<union> set (nodes [t])"
  by (cases acc) (simp_all add: link_opt_def nodes_link)

lemma distinct_nodes_link_opt:
  "distinct (nodes (opt_list acc) @ nodes [t]) \<Longrightarrow> distinct (nodes [link_opt lt acc t])"
  by (cases acc) (simp_all add: link_opt_def distinct_nodes_link)

lemma nodes_pair_up: "set (nodes (opt_list (pair_up lt acc ts))) = set (nodes (opt_list acc)) \<union> set (nodes ts)"
proof (induction lt acc ts rule: pair_up.induct)
  case (2 lt acc t)
  show ?case
    by (simp only: pair_up.simps opt_list_simps nodes_link_opt)
next
  case (3 lt acc t u ts)
  have "set (nodes (t # u # ts)) = set (nodes [t]) \<union> set (nodes [u]) \<union> set (nodes ts)"
    by (simp only: nodes_Cons [of t "u # ts"] nodes_Cons [of u ts] set_append Un_assoc)
  then show ?case
    by (simp only: pair_up.simps 3 opt_list_simps nodes_link_opt nodes_link Un_assoc)
qed simp

lemma distinct_nodes_pair_up:
  "distinct (nodes (opt_list acc) @ nodes ts) \<Longrightarrow> distinct (nodes (opt_list (pair_up lt acc ts)))"
proof (induction lt acc ts rule: pair_up.induct)
  case (3 lt acc t u ts)
  have d: "distinct (nodes (opt_list acc) @ nodes [t] @ nodes [u] @ nodes ts)"
    using 3(2) by (metis nodes_Cons nodes_append append_assoc)
  then have "distinct (nodes [link lt t u])" "distinct (nodes [link_opt lt acc (link lt t u)])"
    by (fastforce intro!: distinct_nodes_link_opt distinct_nodes_link simp: nodes_link simp del: nodes.simps)+
  then show ?case
    using d 3(1) by (fastforce simp: nodes_link_opt nodes_link simp del: nodes.simps)
qed (simp_all add: distinct_nodes_link_opt)

lemma pair_up_None: "pair_up lt None ts = None \<longleftrightarrow> ts = []"
proof -
  have "pair_up lt (Some t) us \<noteq> None" for t us
    by (induction lt "Some t" us arbitrary: t rule: pair_up.induct) simp_all
  then show ?thesis
    by (cases "(lt, None :: ph_tree option, ts)" rule: pair_up.cases) auto
qed

lemma kids_nodes: "kids p ts = Some ds \<Longrightarrow> p \<in> set (nodes ts) \<and> set (nodes ds) \<subseteq> set (nodes ts)"
  by (induction p ts rule: kids.induct) (auto split: if_splits option.splits)

lemma kids_distinct: "kids p ts = Some ds \<Longrightarrow> distinct (nodes ts) \<Longrightarrow> distinct (p # nodes ds)"
  by (induction p ts rule: kids.induct) (auto split: if_splits option.splits)

lemma kids_None: "kids p ts = None \<longleftrightarrow> p \<notin> set (nodes ts)"
  by (induction p ts rule: kids.induct) (auto split: option.splits)

lemma set_kids_other: "p \<notin> set (nodes ts) \<Longrightarrow> set_kids p new ts = ts"
  by (induction p new ts rule: set_kids.induct) auto

lemma set_kids_root: "map ph_root (set_kids p new ts) = map ph_root ts"
  by (induction p new ts rule: set_kids.induct) simp_all

lemma set_kids_Nil [simp]: "set_kids p new ts = [] \<longleftrightarrow> ts = []"
  by (cases ts rule: nodes.cases) simp_all

lemma set_kids_last: "ts \<noteq> [] \<Longrightarrow> ph_root (last (set_kids p new ts)) = ph_root (last ts)"
  using set_kids_root [of p new ts] by (metis last_map set_kids_Nil)

lemma nodes_set_kids:
  "kids p ts = Some ds \<Longrightarrow> distinct (nodes ts) \<Longrightarrow>
   set (nodes (set_kids p new ts)) = set (nodes ts) - set (nodes ds) \<union> set (nodes new)"
proof (induction p new ts rule: set_kids.induct)
  case (2 p new x cs ts)
  show ?case
  proof (cases "x = p")
    case True
    then show ?thesis
      using 2(3,4) by (auto simp: set_kids_other)
  next
    case False
    show ?thesis
    proof (cases "kids p cs")
      case None
      then have "kids p ts = Some ds"
        using 2(3) False by simp
      then show ?thesis
        using 2 False None kids_nodes [of p ts ds] by (auto simp: set_kids_other kids_None)
    next
      case (Some es)
      then have "es = ds"
        using 2(3) False by simp
      moreover have "p \<notin> set (nodes ts)"
        using kids_nodes [OF Some] 2(4) by auto
      ultimately show ?thesis
        using 2 False Some kids_nodes [OF Some] by (auto simp: set_kids_other)
    qed
  qed
qed simp

text \<open>Every node but a root is a child of some node.\<close>

lemma find_kids:
  "x \<in> set (nodes ts) \<Longrightarrow> x \<notin> ph_root ` set ts \<Longrightarrow> distinct (nodes ts) \<Longrightarrow>
   \<exists>p ls cs rs. kids p ts = Some (ls @ PH x cs # rs)"
proof (induction ts rule: nodes.induct)
  case (2 y cs ts)
  then have x: "x \<noteq> y" "x \<in> set (nodes cs) \<or> x \<in> set (nodes ts)"
    by auto
  show ?case
  proof (cases "x \<in> set (nodes cs)")
    case True
    show ?thesis
    proof (cases "x \<in> ph_root ` set cs")
      case True
      then obtain t where "t \<in> set cs" "ph_root t = x"
        by blast
      then obtain ls rs ds where "cs = ls @ PH x ds # rs"
        by (metis ph_root.cases ph_root.simps split_list)
      then show ?thesis
        by (intro exI [of _ y] exI [of _ ls] exI [of _ ds] exI [of _ rs]) simp
    next
      case False
      then obtain p ls ds rs where "kids p cs = Some (ls @ PH x ds # rs)"
        using 2(1) \<open>x \<in> set (nodes cs)\<close> 2(5) by auto
      moreover from this have "p \<noteq> y"
        using kids_nodes 2(5) by fastforce
      ultimately show ?thesis
        by (intro exI [of _ p] exI [of _ ls] exI [of _ ds] exI [of _ rs]) simp
    qed
  next
    case False
    then obtain p ls ds rs where k: "kids p ts = Some (ls @ PH x ds # rs)"
      using 2(2) x 2(4,5) by auto
    then have "p \<in> set (nodes ts)"
      using kids_nodes by blast
    then have "p \<noteq> y" "kids p cs = None"
      using 2(5) by (auto simp: kids_None)
    then show ?thesis
      using k by (intro exI [of _ p] exI [of _ ls] exI [of _ ds] exI [of _ rs]) simp
  qed
qed simp

section \<open>Trees in memory\<close>

text \<open>The address of a node is not null and its last bit is clear, since nodes are aligned.\<close>

definition node_addr :: "u32 \<Rightarrow> bool" where
  "node_addr x \<longleftrightarrow> x \<noteq> 0 \<and> x AND 1 = 0"

lemma node_addr_parent [simp]:
  assumes "node_addr x"
  shows "NEXT_IS_RIGHTMOST_PARENT (NEXT_MAKE_RIGHTMOST_PARENT x)" "NEXT_GET_RIGHTMOST_PARENT (NEXT_MAKE_RIGHTMOST_PARENT x) = x"
    "NEXT_MAKE_RIGHTMOST_PARENT x \<noteq> 0" "\<not> NEXT_IS_RIGHTMOST_PARENT x" "x \<noteq> 0"
proof -
  have x: "\<not> bit x 0"
    using assms by (simp add: node_addr_def and_one_eq bit_0 even_iff_mod_2_eq_zero)
  have "bit (x OR 1) 0"
    by (simp add: bit_or_iff)
  then show "NEXT_IS_RIGHTMOST_PARENT (NEXT_MAKE_RIGHTMOST_PARENT x)" "NEXT_MAKE_RIGHTMOST_PARENT x \<noteq> 0"
    by (auto simp: NEXT_IS_RIGHTMOST_PARENT_def NEXT_MAKE_RIGHTMOST_PARENT_def and_one_eq bit_0 odd_iff_mod_2_eq_one)
  show "NEXT_GET_RIGHTMOST_PARENT (NEXT_MAKE_RIGHTMOST_PARENT x) = x"
  proof (rule bit_word_eqI)
    fix n
    assume "n < LENGTH(32)"
    then show "bit (NEXT_GET_RIGHTMOST_PARENT (NEXT_MAKE_RIGHTMOST_PARENT x)) n = bit x n"
      using x by (cases n) (auto simp: NEXT_GET_RIGHTMOST_PARENT_def NEXT_MAKE_RIGHTMOST_PARENT_def bit_and_iff bit_or_iff bit_not_iff bit_1_iff)
  qed
  show "\<not> NEXT_IS_RIGHTMOST_PARENT x" "x \<noteq> 0"
    using assms by (simp_all add: node_addr_def NEXT_IS_RIGHTMOST_PARENT_def)
qed

lemma not_node_addr_0 [simp]: "\<not> node_addr 0"
  by (simp add: node_addr_def)

text \<open>
  The siblings \<open>ts\<close> start at address \<open>p\<close>, and the \<open>next\<close> pointer of the last one is \<open>e\<close>: null for the top of a
  heap, the marked address of the parent for children.
\<close>

fun forest :: "ph_mem \<Rightarrow> u32 \<Rightarrow> ph_tree list \<Rightarrow> u32 \<Rightarrow> bool" where
  "forest \<sigma> p [] e \<longleftrightarrow> p = e"
| "forest \<sigma> p (PH x cs # ts) e \<longleftrightarrow>
     p = x \<and> node_addr x \<and>
     (\<exists>n. \<sigma> x = Some n \<and>
        (if cs = [] then ph_child n = 0
         else forest \<sigma> (ph_child n) cs (NEXT_MAKE_RIGHTMOST_PARENT x) \<and> ph_child_last n = ph_root (last cs)) \<and>
        forest \<sigma> (ph_next n) ts e)"

definition heap_at :: "ph_mem \<Rightarrow> u32 \<Rightarrow> ph_tree option \<Rightarrow> bool" where
  "heap_at \<sigma> p h \<longleftrightarrow> forest \<sigma> p (opt_list h) 0"

lemma forest_frame: "(\<And>x. x \<in> set (nodes ts) \<Longrightarrow> \<sigma>' x = \<sigma> x) \<Longrightarrow> forest \<sigma>' p ts e = forest \<sigma> p ts e"
proof (induction \<sigma> p ts e rule: forest.induct)
  case (2 \<sigma> p x cs ts e)
  have "forest \<sigma>' (ph_child n) cs (NEXT_MAKE_RIGHTMOST_PARENT x) = forest \<sigma> (ph_child n) cs (NEXT_MAKE_RIGHTMOST_PARENT x)" if "cs \<noteq> []" for n :: ph_node
    using 2(1) [OF that, of n] 2(3) by simp
  moreover have "forest \<sigma>' (ph_next n) ts e = forest \<sigma> (ph_next n) ts e" for n :: ph_node
    using 2(2) [of n] 2(3) by simp
  moreover have "\<sigma>' x = \<sigma> x"
    using 2(3) by simp
  ultimately show ?case
    by (simp cong: if_cong)
qed simp

lemma forest_append: "forest \<sigma> p (ts @ us) e \<longleftrightarrow> (\<exists>m. forest \<sigma> p ts m \<and> forest \<sigma> m us e)"
proof (induction ts arbitrary: p)
  case (Cons t ts)
  then show ?case
    by (cases t) auto
qed simp

lemma forest_hd: "forest \<sigma> p ts e \<Longrightarrow> ts \<noteq> [] \<Longrightarrow> p = ph_root (hd ts) \<and> node_addr p"
  by (cases ts rule: nodes.cases) auto

lemma forest_nodes: "forest \<sigma> p ts e \<Longrightarrow> x \<in> set (nodes ts) \<Longrightarrow> node_addr x \<and> (\<exists>n. \<sigma> x = Some n)"
proof (induction \<sigma> p ts e rule: forest.induct)
  case (2 \<sigma> p y cs ts e)
  obtain n where n: "node_addr y" "\<sigma> y = Some n" "cs \<noteq> [] \<Longrightarrow> forest \<sigma> (ph_child n) cs (NEXT_MAKE_RIGHTMOST_PARENT y)"
      "forest \<sigma> (ph_next n) ts e"
    using 2(3) by (auto split: if_splits)
  consider "x = y" | "x \<in> set (nodes cs)" "cs \<noteq> []" | "x \<in> set (nodes ts)"
    using 2(4) by fastforce
  then show ?case
    by cases (use n 2(1,2) in auto)
qed simp

lemma forest_one:
  "forest \<sigma> p [PH x cs] e \<longleftrightarrow>
     p = x \<and> node_addr x \<and>
     (\<exists>n. \<sigma> x = Some n \<and>
        (if cs = [] then ph_child n = 0
         else forest \<sigma> (ph_child n) cs (NEXT_MAKE_RIGHTMOST_PARENT x) \<and> ph_child_last n = ph_root (last cs)) \<and>
        ph_next n = e)"
  by simp

lemma forest_set_next:
  assumes "forest \<sigma> p [t] e" and "distinct (nodes [t])"
  shows "\<exists>n. \<sigma> p = Some n \<and> forest (\<sigma>(p \<mapsto> n\<lparr>ph_next := e'\<rparr>)) p [t] e'"
proof (cases t)
  case (PH x cs)
  then obtain n where n: "p = x" "node_addr x" "\<sigma> x = Some n"
      "if cs = [] then ph_child n = 0
       else forest \<sigma> (ph_child n) cs (NEXT_MAKE_RIGHTMOST_PARENT x) \<and> ph_child_last n = ph_root (last cs)"
    using assms(1) unfolding PH forest_one by blast
  let ?s = "\<sigma>(x \<mapsto> n\<lparr>ph_next := e'\<rparr>)"
  have "forest ?s q cs f = forest \<sigma> q cs f" for q f
    using assms(2) PH by (intro forest_frame) auto
  then have "forest ?s x [PH x cs] e'"
    using n by (simp cong: if_cong)
  then show ?thesis
    using n by (simp add: PH del: forest.simps)
qed

text \<open>The last sibling gets a new \<open>next\<close> pointer.\<close>

lemma forest_set_last:
  assumes "forest \<sigma> p (ts @ [t]) e" and "distinct (nodes (ts @ [t]))"
  shows "\<exists>n. \<sigma> (ph_root t) = Some n \<and> forest (\<sigma>(ph_root t \<mapsto> n\<lparr>ph_next := e'\<rparr>)) p (ts @ [t]) e'"
proof -
  obtain m where m: "forest \<sigma> p ts m" "forest \<sigma> m [t] e"
    using assms(1) forest_append by blast
  then have r: "m = ph_root t"
    using forest_hd by fastforce
  obtain n where n: "\<sigma> m = Some n" "forest (\<sigma>(m \<mapsto> n\<lparr>ph_next := e'\<rparr>)) m [t] e'"
    using forest_set_next [OF m(2), of e'] assms(2) by auto
  have "m \<notin> set (nodes ts)"
    using assms(2) ph_root_in [of t "[t]"] by (auto simp: r)
  then have "forest (\<sigma>(m \<mapsto> n\<lparr>ph_next := e'\<rparr>)) p ts m"
    using m(1) by (subst forest_frame [of ts _ \<sigma>]) auto
  then show ?thesis
    using n by (auto simp: forest_append r)
qed

section \<open>Melding and pairing\<close>

lemma set_field_simps [simp]:
  "\<sigma> p = Some n \<Longrightarrow> set_child p v \<sigma> = Some (\<sigma>(p \<mapsto> n\<lparr>ph_child := v\<rparr>))"
  "\<sigma> p = Some n \<Longrightarrow> set_child_last p v \<sigma> = Some (\<sigma>(p \<mapsto> n\<lparr>ph_child_last := v\<rparr>))"
  "\<sigma> p = Some n \<Longrightarrow> set_next p v \<sigma> = Some (\<sigma>(p \<mapsto> n\<lparr>ph_next := v\<rparr>))"
  by (simp_all add: set_child_def set_child_last_def set_next_def ph_set_def)

lemma forest_top:
  assumes "forest \<sigma> p [PH x cs] e"
  obtains n where "p = x" "node_addr x" "\<sigma> x = Some n" "ph_next n = e" "cs = [] \<Longrightarrow> ph_child n = 0"
    "cs \<noteq> [] \<Longrightarrow> forest \<sigma> (ph_child n) cs (NEXT_MAKE_RIGHTMOST_PARENT x)" "cs \<noteq> [] \<Longrightarrow> ph_child_last n = ph_root (last cs)"
    "ph_child n = 0 \<longleftrightarrow> cs = []"
proof -
  obtain n where n: "p = x" "node_addr x" "\<sigma> x = Some n" "ph_next n = e"
      "if cs = [] then ph_child n = 0
       else forest \<sigma> (ph_child n) cs (NEXT_MAKE_RIGHTMOST_PARENT x) \<and> ph_child_last n = ph_root (last cs)"
    using assms unfolding forest_one by blast
  have c: "cs = [] \<Longrightarrow> ph_child n = 0" "cs \<noteq> [] \<Longrightarrow> forest \<sigma> (ph_child n) cs (NEXT_MAKE_RIGHTMOST_PARENT x)"
    "cs \<noteq> [] \<Longrightarrow> ph_child_last n = ph_root (last cs)"
    using n(5) by simp_all
  have "ph_child n = 0 \<longleftrightarrow> cs = []"
  proof (cases "cs = []")
    case False
    then show ?thesis
      using forest_hd [OF c(2)] by auto
  qed (use c(1) in simp)
  from that [OF n(1-4) c this] show ?thesis .
qed

lemma meld_append:
  assumes t: "forest \<sigma> p [PH p cs] 0" and u: "forest \<sigma> q [u] 0" and d: "distinct (nodes [PH p cs] @ nodes [u])" and lt: "lt p q"
  shows "\<exists>\<sigma>'. mp_pairheap_meld lt p q \<sigma> = Some (p, \<sigma>') \<and> forest \<sigma>' p [PH p (cs @ [u])] 0 \<and>
    (\<forall>x. x \<notin> set (nodes [PH p cs] @ nodes [u]) \<longrightarrow> \<sigma>' x = \<sigma> x)"
proof -
  let ?e = "NEXT_MAKE_RIGHTMOST_PARENT p"
  obtain n where n: "node_addr p" "\<sigma> p = Some n" "ph_next n = 0" "cs \<noteq> [] \<Longrightarrow> forest \<sigma> (ph_child n) cs ?e"
      "cs \<noteq> [] \<Longrightarrow> ph_child_last n = ph_root (last cs)" "ph_child n = 0 \<longleftrightarrow> cs = []"
    by (rule forest_top [OF t]) blast
  obtain m where m: "\<sigma> q = Some m" "forest (\<sigma>(q \<mapsto> m\<lparr>ph_next := ?e\<rparr>)) q [u] ?e"
    using forest_set_next [OF u, of ?e] d by auto
  have q: "q = ph_root u" "node_addr q" "q \<in> set (nodes [u])"
    using forest_hd [OF u] ph_root_in [of u "[u]"] by auto
  have pq: "p \<noteq> q" "p \<notin> set (nodes [u])" "p \<notin> set (nodes cs)" "q \<notin> set (nodes cs)"
    using d q(3) by auto
  show ?thesis
  proof (cases "cs = []")
    case True
    let ?s = "\<sigma>(q \<mapsto> m\<lparr>ph_next := ?e\<rparr>, p \<mapsto> n\<lparr>ph_child := q, ph_child_last := q\<rparr>)"
    have "forest ?s q [u] ?e"
      using m(2) pq by (subst forest_frame [of _ _ "\<sigma>(q \<mapsto> m\<lparr>ph_next := ?e\<rparr>)"]) auto
    moreover have "mp_pairheap_meld lt p q \<sigma> = Some (p, ?s)"
      using n q(2) m(1) pq(1) True lt by (simp add: mp_pairheap_meld_def fun_upd_twist)
    ultimately show ?thesis
      using True n q by auto
  next
    case False
    then obtain bs c where cs: "cs = bs @ [c]"
      by (metis rev_exhaust)
    then have "forest \<sigma> (ph_child n) (bs @ [c]) ?e" "distinct (nodes (bs @ [c]))"
      using n(4) d by auto
    from forest_set_last [OF this, of q] obtain l where l: "\<sigma> (ph_root c) = Some l"
        "forest (\<sigma>(ph_root c \<mapsto> l\<lparr>ph_next := q\<rparr>)) (ph_child n) cs q"
      by (auto simp: cs)
    have c: "ph_root c \<in> set (nodes cs)" "ph_child_last n = ph_root c"
      using ph_root_in [of c cs] n(5) by (simp_all add: cs)
    then have ne: "ph_root c \<noteq> p" "ph_root c \<noteq> q" "ph_root c \<notin> set (nodes [u])"
      using pq d by auto
    let ?s = "\<sigma>(ph_root c \<mapsto> l\<lparr>ph_next := q\<rparr>, p \<mapsto> n\<lparr>ph_child_last := q\<rparr>, q \<mapsto> m\<lparr>ph_next := ?e\<rparr>)"
    have "forest ?s (ph_child n) cs q"
      using l(2) pq by (subst forest_frame [of _ _ "\<sigma>(ph_root c \<mapsto> l\<lparr>ph_next := q\<rparr>)"]) auto
    moreover have "forest ?s q [u] ?e"
      using m(2) pq ne by (subst forest_frame [of _ _ "\<sigma>(q \<mapsto> m\<lparr>ph_next := ?e\<rparr>)"]) auto
    ultimately have "forest ?s (ph_child n) (cs @ [u]) ?e"
      by (auto simp: forest_append)
    moreover have "mp_pairheap_meld lt p q \<sigma> = Some (p, ?s)"
      using n q(2) m(1) pq(1) False lt c(2) l(1) ne by (simp add: mp_pairheap_meld_def)
    ultimately show ?thesis
      using n q c(1) pq by auto
  qed
qed

lemma meld_prepend:
  assumes t: "forest \<sigma> p [t] 0" and u: "forest \<sigma> q [PH q cs] 0" and d: "distinct (nodes [t] @ nodes [PH q cs])" and lt: "\<not> lt p q"
  shows "\<exists>\<sigma>'. mp_pairheap_meld lt p q \<sigma> = Some (q, \<sigma>') \<and> forest \<sigma>' q [PH q (t # cs)] 0 \<and>
    (\<forall>x. x \<notin> set (nodes [t] @ nodes [PH q cs]) \<longrightarrow> \<sigma>' x = \<sigma> x)"
proof -
  let ?e = "NEXT_MAKE_RIGHTMOST_PARENT q"
  obtain n where n: "node_addr q" "\<sigma> q = Some n" "ph_next n = 0" "cs \<noteq> [] \<Longrightarrow> forest \<sigma> (ph_child n) cs ?e"
      "cs \<noteq> [] \<Longrightarrow> ph_child_last n = ph_root (last cs)" "ph_child n = 0 \<longleftrightarrow> cs = []"
    by (rule forest_top [OF u]) blast
  define f where "f = (if cs = [] then ?e else ph_child n)"
  obtain m where m: "\<sigma> p = Some m" "forest (\<sigma>(p \<mapsto> m\<lparr>ph_next := f\<rparr>)) p [t] f"
    using forest_set_next [OF t, of f] d by auto
  have p: "p = ph_root t" "node_addr p" "p \<in> set (nodes [t])"
    using forest_hd [OF t] ph_root_in [of t "[t]"] by auto
  have pq: "p \<noteq> q" "q \<notin> set (nodes [t])" "q \<notin> set (nodes cs)" "p \<notin> set (nodes cs)"
    using d p(3) by auto
  let ?s = "\<sigma>(p \<mapsto> m\<lparr>ph_next := f\<rparr>, q \<mapsto> n\<lparr>ph_child := p, ph_child_last := ph_root (last (t # cs))\<rparr>)"
  have 1: "forest ?s p [t] f"
    using m(2) pq by (subst forest_frame [of _ _ "\<sigma>(p \<mapsto> m\<lparr>ph_next := f\<rparr>)"]) auto
  have "forest ?s f cs ?e"
  proof (cases "cs = []")
    case False
    then show ?thesis
      using n(4) pq by (subst forest_frame [of _ _ \<sigma>]) (auto simp: f_def)
  qed (simp add: f_def)
  with 1 have "forest ?s p ([t] @ cs) ?e"
    unfolding forest_append by blast
  moreover have "mp_pairheap_meld lt p q \<sigma> = Some (q, ?s)"
    using n p m(1) pq(1) lt by (cases "cs = []") (auto simp: mp_pairheap_meld_def f_def fun_upd_twist)
  ultimately show ?thesis
    using n p pq by auto
qed

lemma mp_pairheap_meld_link:
  assumes t: "forest \<sigma> p [t] 0" and u: "forest \<sigma> q [u] 0" and d: "distinct (nodes [t] @ nodes [u])"
  shows "\<exists>r \<sigma>'. mp_pairheap_meld lt p q \<sigma> = Some (r, \<sigma>') \<and> forest \<sigma>' r [link lt t u] 0 \<and>
    (\<forall>x. x \<notin> set (nodes [t] @ nodes [u]) \<longrightarrow> \<sigma>' x = \<sigma> x)"
proof -
  obtain cs ds where e: "t = PH p cs" "u = PH q ds"
    using forest_hd [OF t] forest_hd [OF u] by (cases t; cases u) auto
  show ?thesis
  proof (cases "lt p q")
    case True
    then show ?thesis
      using meld_append [of \<sigma> p cs q u lt] assms by (auto simp: e link_def)
  next
    case False
    then show ?thesis
      using meld_prepend [of \<sigma> p t q ds lt] assms by (auto simp: e link_def)
  qed
qed

lemma mp_pairheap_meld_opt:
  assumes t: "heap_at \<sigma> p acc" and u: "forest \<sigma> q [u] 0" and d: "distinct (nodes (opt_list acc) @ nodes [u])"
  shows "\<exists>r \<sigma>'. mp_pairheap_meld lt p q \<sigma> = Some (r, \<sigma>') \<and> forest \<sigma>' r [link_opt lt acc u] 0 \<and>
    (\<forall>x. x \<notin> set (nodes (opt_list acc) @ nodes [u]) \<longrightarrow> \<sigma>' x = \<sigma> x)"
proof (cases acc)
  case None
  then show ?thesis
    using assms by (simp add: heap_at_def mp_pairheap_meld_def link_opt_def)
next
  case (Some t)
  then show ?thesis
    using mp_pairheap_meld_link [of \<sigma> p t q u lt] assms by (simp add: heap_at_def link_opt_def)
qed

text \<open>The first sibling is taken off a list.\<close>

lemma forest_take:
  assumes "forest \<sigma> c (t # ts) e" and d: "distinct (nodes [t] @ nodes ts)"
  obtains n where "\<sigma> c = Some n" "node_addr c" "c \<in> set (nodes [t])" "forest (\<sigma>(c \<mapsto> n\<lparr>ph_next := 0\<rparr>)) c [t] 0"
    "forest (\<sigma>(c \<mapsto> n\<lparr>ph_next := 0\<rparr>)) (ph_next n) ts e"
proof -
  obtain m where m: "forest \<sigma> c [t] m" "forest \<sigma> m ts e"
    using assms(1) forest_append [of \<sigma> c "[t]" ts e] by auto
  have c: "c = ph_root t" "node_addr c" "c \<in> set (nodes [t])"
    using forest_hd [OF m(1)] ph_root_in [of t "[t]"] by auto
  obtain n where n: "\<sigma> c = Some n" "forest (\<sigma>(c \<mapsto> n\<lparr>ph_next := 0\<rparr>)) c [t] 0"
    using forest_set_next [OF m(1), of 0] d by auto
  have "ph_next n = m"
    using m(1) n(1) c(1) by (cases t) simp
  moreover have "forest (\<sigma>(c \<mapsto> n\<lparr>ph_next := 0\<rparr>)) m ts e"
    using m(2) d c(3) by (subst forest_frame [of ts _ \<sigma>]) auto
  ultimately show ?thesis
    using that n c by blast
qed

lemma pairing_second_link:
  assumes t: "forest \<sigma> p [t] 0" and ts: "forest \<sigma> c (u # ts) e" and d: "distinct (nodes [t] @ nodes [u] @ nodes ts)"
  shows "\<exists>c' r \<sigma>'. pairing_second lt p c \<sigma> = Some (c', r, \<sigma>') \<and> forest \<sigma>' r [link lt t u] 0 \<and> forest \<sigma>' c' ts e \<and>
    (\<forall>x. x \<notin> set (nodes [t] @ nodes [u]) \<longrightarrow> \<sigma>' x = \<sigma> x)"
proof -
  have "distinct (nodes [u] @ nodes ts)"
    using d by simp
  from forest_take [OF ts this] obtain n where n: "\<sigma> c = Some n" "node_addr c" "c \<in> set (nodes [u])"
    "forest (\<sigma>(c \<mapsto> n\<lparr>ph_next := 0\<rparr>)) c [u] 0" "forest (\<sigma>(c \<mapsto> n\<lparr>ph_next := 0\<rparr>)) (ph_next n) ts e" .
  let ?s = "\<sigma>(c \<mapsto> n\<lparr>ph_next := 0\<rparr>)"
  have "forest ?s p [t] 0"
    using t d n(3) by (subst forest_frame [of _ _ \<sigma>]) auto
  moreover have d2: "distinct (nodes [t] @ nodes [u])"
    using d by (simp add: Int_Un_distrib del: nodes.simps)
  ultimately obtain r \<sigma>' where r: "mp_pairheap_meld lt p c ?s = Some (r, \<sigma>')" "forest \<sigma>' r [link lt t u] 0"
      "\<forall>x. x \<notin> set (nodes [t] @ nodes [u]) \<longrightarrow> \<sigma>' x = ?s x"
    using mp_pairheap_meld_link [of ?s p t c u lt] n(4) by blast
  have "forest \<sigma>' (ph_next n) ts e"
    using n(5) r(3) d by (subst forest_frame [of _ _ ?s]) auto
  moreover have "pairing_second lt p c \<sigma> = Some (ph_next n, r, \<sigma>')"
    using n(1,2) r(1) by (simp add: pairing_second_def)
  ultimately show ?thesis
    using r n(3) by auto
qed

lemma pairing_loop_correct:
  "heap_at \<sigma> p acc \<Longrightarrow> forest \<sigma> c ts e \<Longrightarrow> NEXT_IS_RIGHTMOST_PARENT e \<Longrightarrow> distinct (nodes (opt_list acc) @ nodes ts) \<Longrightarrow>
   \<exists>r \<sigma>'. pairing_loop lt c p \<sigma> = Some (r, \<sigma>') \<and> heap_at \<sigma>' r (pair_up lt acc ts) \<and>
     (\<forall>x. x \<notin> set (nodes (opt_list acc) @ nodes ts) \<longrightarrow> \<sigma>' x = \<sigma> x)"
proof (induction lt acc ts arbitrary: \<sigma> p c rule: pair_up.induct)
  case (1 lt acc)
  then show ?case
    by (subst pairing_loop.simps) simp
next
  case (2 lt acc t)
  have "distinct (nodes [t] @ nodes [])"
    using 2(4) by simp
  from forest_take [OF 2(2) this] obtain n where n: "\<sigma> c = Some n" "node_addr c" "c \<in> set (nodes [t])"
    "forest (\<sigma>(c \<mapsto> n\<lparr>ph_next := 0\<rparr>)) c [t] 0" "forest (\<sigma>(c \<mapsto> n\<lparr>ph_next := 0\<rparr>)) (ph_next n) [] e" .
  let ?s = "\<sigma>(c \<mapsto> n\<lparr>ph_next := 0\<rparr>)"
  have "heap_at ?s p acc"
    using 2(1,4) n(3) unfolding heap_at_def by (subst forest_frame [of _ _ \<sigma>]) auto
  then obtain r \<sigma>' where r: "mp_pairheap_meld lt p c ?s = Some (r, \<sigma>')" "forest \<sigma>' r [link_opt lt acc t] 0"
      "\<forall>x. x \<notin> set (nodes (opt_list acc) @ nodes [t]) \<longrightarrow> \<sigma>' x = ?s x"
    using mp_pairheap_meld_opt [of ?s p acc c t lt] n(4) 2(4) by blast
  have "ph_next n = e"
    using n(5) by simp
  then have "pairing_loop lt c p \<sigma> = Some (r, \<sigma>')"
    using n(1,2) r(1) 2(3) by (subst pairing_loop.simps, simp add: pairing_second_def) (subst pairing_loop.simps, simp)
  then show ?case
    using r n(3) by (auto simp: heap_at_def)
next
  case (3 lt acc t u ts)
  have d: "distinct (nodes (opt_list acc) @ nodes [t] @ nodes [u] @ nodes ts)"
    using 3(5) by (simp only: nodes_Cons [of t "u # ts"] nodes_Cons [of u ts])
  then have "distinct (nodes [t] @ nodes (u # ts))"
    by (simp add: nodes_Cons [of u ts])
  from forest_take [OF 3(3) this] obtain n where n: "\<sigma> c = Some n" "node_addr c" "c \<in> set (nodes [t])"
    "forest (\<sigma>(c \<mapsto> n\<lparr>ph_next := 0\<rparr>)) c [t] 0" "forest (\<sigma>(c \<mapsto> n\<lparr>ph_next := 0\<rparr>)) (ph_next n) (u # ts) e" .
  let ?s = "\<sigma>(c \<mapsto> n\<lparr>ph_next := 0\<rparr>)"
  have "distinct (nodes [t] @ nodes [u] @ nodes ts)"
    using d by simp
  from pairing_second_link [OF n(4,5) this, of lt] obtain c' q \<sigma>1 where q: "pairing_second lt c (ph_next n) ?s = Some (c', q, \<sigma>1)"
      "forest \<sigma>1 q [link lt t u] 0" "forest \<sigma>1 c' ts e" "\<And>x. x \<notin> set (nodes [t] @ nodes [u]) \<Longrightarrow> \<sigma>1 x = ?s x"
    by blast
  have s1: "\<sigma>1 x = \<sigma> x" if "x \<notin> set (nodes [t]) \<union> set (nodes [u])" for x
    using q(4) [of x] that n(3) by auto
  have "heap_at \<sigma>1 p acc"
    using 3(2) d unfolding heap_at_def by (subst forest_frame [of _ _ \<sigma>]) (auto intro!: s1)
  moreover have dl: "distinct (nodes (opt_list acc) @ nodes [link lt t u])"
    using d distinct_nodes_link [of t u lt] by (auto simp: nodes_link simp del: nodes.simps)
  ultimately obtain r \<sigma>2 where r: "mp_pairheap_meld lt p q \<sigma>1 = Some (r, \<sigma>2)" "forest \<sigma>2 r [link_opt lt acc (link lt t u)] 0"
      "\<And>x. x \<notin> set (nodes (opt_list acc) @ nodes [link lt t u]) \<Longrightarrow> \<sigma>2 x = \<sigma>1 x"
    using mp_pairheap_meld_opt [of \<sigma>1 p acc q "link lt t u" lt] q(2) by blast
  have s2: "\<sigma>2 x = \<sigma> x" if "x \<notin> set (nodes (opt_list acc)) \<union> set (nodes [t]) \<union> set (nodes [u])" for x
    using r(3) [of x] s1 [of x] that by (simp add: nodes_link del: nodes.simps)
  have "forest \<sigma>2 c' ts e"
    using q(3) d r(3) by (subst forest_frame [of _ _ \<sigma>1]) (auto simp: nodes_link simp del: nodes.simps)
  moreover have "heap_at \<sigma>2 r (Some (link_opt lt acc (link lt t u)))"
    using r(2) by (simp add: heap_at_def)
  moreover have "distinct (nodes (opt_list (Some (link_opt lt acc (link lt t u)))) @ nodes ts)"
    using d distinct_nodes_link_opt [OF dl, of lt] by (auto simp: nodes_link_opt nodes_link simp del: nodes.simps)
  ultimately obtain z \<sigma>3 where z: "pairing_loop lt c' r \<sigma>2 = Some (z, \<sigma>3)"
      "heap_at \<sigma>3 z (pair_up lt (Some (link_opt lt acc (link lt t u))) ts)"
      "\<And>x. x \<notin> set (nodes (opt_list (Some (link_opt lt acc (link lt t u)))) @ nodes ts) \<Longrightarrow> \<sigma>3 x = \<sigma>2 x"
    using 3(1) [of \<sigma>2 r c'] 3(4) by blast
  have "pairing_loop lt c p \<sigma> = Some (z, \<sigma>3)"
    using n(1,2) q(1) r(1) z(1) by (subst pairing_loop.simps) simp
  moreover have "\<sigma>3 x = \<sigma> x" if "x \<notin> set (nodes (opt_list acc) @ nodes (t # u # ts))" for x
  proof -
    have "x \<notin> set (nodes (opt_list acc)) \<union> set (nodes [t]) \<union> set (nodes [u]) \<union> set (nodes ts)"
      using that by (simp add: nodes_Cons [of t "u # ts"] nodes_Cons [of u ts] del: nodes.simps)
    then show ?thesis
      using z(3) [of x] s2 [of x] by (simp add: nodes_link_opt nodes_link del: nodes.simps)
  qed
  ultimately show ?case
    using z(2) by simp
qed

lemma mp_pairheap_pairing_correct:
  assumes "if cs = [] then c = 0 else forest \<sigma> c cs e" and "NEXT_IS_RIGHTMOST_PARENT e" and "distinct (nodes cs)"
  shows "\<exists>r \<sigma>'. mp_pairheap_pairing lt c \<sigma> = Some (r, \<sigma>') \<and> heap_at \<sigma>' r (pair_up lt None cs) \<and>
     (\<forall>x. x \<notin> set (nodes cs) \<longrightarrow> \<sigma>' x = \<sigma> x)"
proof (cases "cs = []")
  case True
  then show ?thesis
    using assms(1) by (simp add: mp_pairheap_pairing_def heap_at_def)
next
  case False
  then have f: "forest \<sigma> c cs e" "c \<noteq> 0"
    using assms(1) forest_hd [of \<sigma> c cs e] by auto
  obtain r \<sigma>' where r: "pairing_loop lt c 0 \<sigma> = Some (r, \<sigma>')" "heap_at \<sigma>' r (pair_up lt None cs)"
      "\<forall>x. x \<notin> set (nodes cs) \<longrightarrow> \<sigma>' x = \<sigma> x"
    using pairing_loop_correct [of \<sigma> 0 None c cs e lt] f(1) assms(2,3) by (auto simp: heap_at_def)
  obtain t where t: "pair_up lt None cs = Some t"
    using False pair_up_None [of lt cs] by blast
  obtain x ds where x: "t = PH x ds"
    by (cases t)
  obtain n where n: "r = x" "\<sigma>' x = Some n" "ph_next n = 0"
    using r(2) unfolding heap_at_def t x opt_list_simps by (auto simp: forest_one simp del: forest.simps)
  have "\<sigma>'(x \<mapsto> n\<lparr>ph_next := 0\<rparr>) = \<sigma>'"
    using n by (auto simp: fun_eq_iff)
  then show ?thesis
    using f(2) r n by (simp add: mp_pairheap_pairing_def)
qed

section \<open>Deletion\<close>

lemma kids_cases:
  assumes "kids q (PH x cs # ts) = Some ds"
  obtains "x = q" "ds = cs" | "x \<noteq> q" "kids q cs = Some ds" | "x \<noteq> q" "kids q cs = None" "kids q ts = Some ds"
  using assms by (cases "x = q"; cases "kids q cs") simp_all

definition kids_at :: "ph_mem \<Rightarrow> u32 \<Rightarrow> ph_node \<Rightarrow> ph_tree list \<Rightarrow> bool" where
  "kids_at \<sigma> x n cs \<longleftrightarrow>
     (if cs = [] then ph_child n = 0
      else forest \<sigma> (ph_child n) cs (NEXT_MAKE_RIGHTMOST_PARENT x) \<and> ph_child_last n = ph_root (last cs))"

lemma forest_Cons:
  "forest \<sigma> p (PH x cs # ts) e \<longleftrightarrow>
     p = x \<and> node_addr x \<and> (\<exists>n. \<sigma> x = Some n \<and> kids_at \<sigma> x n cs \<and> forest \<sigma> (ph_next n) ts e)"
  unfolding kids_at_def by (rule forest.simps(2))

lemma kids_at_forest: "kids_at \<sigma> x n cs \<Longrightarrow> cs \<noteq> [] \<Longrightarrow> forest \<sigma> (ph_child n) cs (NEXT_MAKE_RIGHTMOST_PARENT x)"
  by (simp add: kids_at_def)

lemma kids_body:
  "forest \<sigma> p ts e \<Longrightarrow> kids q ts = Some ds \<Longrightarrow> node_addr q \<and> (\<exists>n. \<sigma> q = Some n \<and> kids_at \<sigma> q n ds)"
proof (induction ts arbitrary: p e rule: nodes.induct)
  case (2 x cs ts)
  obtain n where n: "node_addr x" "\<sigma> x = Some n" "kids_at \<sigma> x n cs" "forest \<sigma> (ph_next n) ts e"
    using 2(3) unfolding forest_Cons by blast
  from 2(4) show ?case
  proof (cases rule: kids_cases)
    case 1
    then show ?thesis
      using n by blast
  next
    case 2
    then have "cs \<noteq> []"
      by auto
    from "2.IH"(1) [OF kids_at_forest [OF n(3) this] 2(2)] show ?thesis .
  next
    case 3
    from "2.IH"(2) [OF n(4) 3(3)] show ?thesis .
  qed
qed simp

lemma forest_set_kids:
  assumes "forest \<sigma> p ts e" and "kids q ts = Some ds" and "distinct (nodes ts)"
    and n: "\<sigma> q = Some n" "\<sigma>' q = Some n'" "ph_next n' = ph_next n" "kids_at \<sigma>' q n' new"
    and same: "\<And>x. x \<notin> insert q (set (nodes ds)) \<Longrightarrow> \<sigma>' x = \<sigma> x"
  shows "forest \<sigma>' p (set_kids q new ts) e"
  using assms(1-3)
proof (induction ts arbitrary: p e rule: nodes.induct)
  case (2 x cs ts)
  obtain m where m: "p = x" "node_addr x" "\<sigma> x = Some m" "kids_at \<sigma> x m cs" "forest \<sigma> (ph_next m) ts e"
    using "2.prems"(1) unfolding forest_Cons by blast
  have frame: "forest \<sigma>' r us f = forest \<sigma> r us f" if "q \<notin> set (nodes us)" "set (nodes us) \<inter> set (nodes ds) = {}" for r us f
  proof (rule forest_frame)
    fix y
    assume "y \<in> set (nodes us)"
    then have "y \<notin> insert q (set (nodes ds))"
      using that by auto
    then show "\<sigma>' y = \<sigma> y"
      by (rule same)
  qed
  have d: "distinct (nodes cs)" "distinct (nodes ts)" "x \<notin> set (nodes cs)" "x \<notin> set (nodes ts)" "set (nodes cs) \<inter> set (nodes ts) = {}"
    using "2.prems"(3) by auto
  from "2.prems"(2) show ?case
  proof (cases rule: kids_cases)
    case 1
    then have t: "q \<notin> set (nodes ts)" "set (nodes ts) \<inter> set (nodes ds) = {}"
      using d by auto
    have "forest \<sigma>' (ph_next n') (set_kids q new ts) e"
      using m(3,5) n(1,3) 1 frame [OF t] t(1) by (simp add: set_kids_other)
    then show ?thesis
      using m(1,2) n(2,4) 1(1) by (simp add: forest_Cons del: forest.simps)
  next
    case 2
    then have k: "q \<in> set (nodes cs)" "set (nodes ds) \<subseteq> set (nodes cs)" "cs \<noteq> []"
      using kids_nodes [of q cs ds] by auto
    then have t: "q \<notin> set (nodes ts)" "set (nodes ts) \<inter> set (nodes ds) = {}" "x \<notin> insert q (set (nodes ds))"
      using d by auto
    have "forest \<sigma>' (ph_child m) (set_kids q new cs) (NEXT_MAKE_RIGHTMOST_PARENT x)"
      by (rule "2.IH"(1) [OF kids_at_forest [OF m(4) k(3)] 2(2) d(1)])
    then have "kids_at \<sigma>' x m (set_kids q new cs)"
      using m(4) k(3) by (simp add: kids_at_def set_kids_last)
    moreover have "forest \<sigma>' (ph_next m) (set_kids q new ts) e"
      using m(5) frame [OF t(1,2)] t(1) by (simp add: set_kids_other)
    ultimately show ?thesis
      using 2(1) m(1-3) same [OF t(3)] by (simp add: forest_Cons del: forest.simps)
  next
    case 3
    then have k: "q \<in> set (nodes ts)" "set (nodes ds) \<subseteq> set (nodes ts)"
      using kids_nodes [of q ts ds] by auto
    then have t: "q \<notin> set (nodes cs)" "set (nodes cs) \<inter> set (nodes ds) = {}" "x \<notin> insert q (set (nodes ds))"
      using d by auto
    have "forest \<sigma>' (ph_next m) (set_kids q new ts) e"
      by (rule "2.IH"(2) [OF m(5) 3(3) d(2)])
    moreover have "kids_at \<sigma>' x m (set_kids q new cs)"
      using m(4) frame [OF t(1,2)] t(1) by (simp add: kids_at_def set_kids_other)
    ultimately show ?thesis
      using 3(1) m(1-3) same [OF t(3)] by (simp add: forest_Cons del: forest.simps)
  qed
qed simp

lemma find_parent_correct:
  "forest \<sigma> p (t # ts) (NEXT_MAKE_RIGHTMOST_PARENT q) \<Longrightarrow> node_addr q \<Longrightarrow> find_parent p \<sigma> = Some q"
proof (induction ts arbitrary: p t)
  case Nil
  obtain x cs where "t = PH x cs"
    by (cases t)
  then show ?case
    using Nil by (subst find_parent.simps) auto
next
  case (Cons u us)
  obtain x cs where t: "t = PH x cs"
    by (cases t)
  obtain n where n: "p = x" "\<sigma> x = Some n" "forest \<sigma> (ph_next n) (u # us) (NEXT_MAKE_RIGHTMOST_PARENT q)"
    using Cons(2) unfolding t by auto
  have "node_addr (ph_next n)"
    using forest_hd [OF n(3)] by blast
  then show ?case
    using n Cons(1) [OF n(3) Cons(3)] by (subst find_parent.simps) simp
qed

lemma find_previous_correct:
  "forest \<sigma> p (ls @ [l] @ [t]) e \<Longrightarrow> distinct (map ph_root (ls @ [l] @ [t])) \<Longrightarrow> find_previous (ph_root t) p \<sigma> = Some (ph_root l)"
proof (induction ls arbitrary: p)
  case Nil
  obtain x cs y ds where "l = PH x cs" "t = PH y ds"
    by (cases l; cases t)
  then show ?case
    using Nil by (subst find_previous.simps) auto
next
  case (Cons k ks)
  obtain x cs where k: "k = PH x cs"
    by (cases k)
  obtain n where n: "p = x" "\<sigma> x = Some n" "forest \<sigma> (ph_next n) (ks @ [l] @ [t]) e"
    using Cons(2) unfolding k by auto
  have "ph_next n = ph_root (hd (ks @ [l] @ [t]))"
    using forest_hd [OF n(3)] by simp
  then have "ph_root t \<noteq> ph_next n"
    using Cons(3) by (cases ks) auto
  then show ?case
    using n Cons(1) [OF n(3)] Cons(3) by (subst find_previous.simps) simp
qed

text \<open>A node that is in no heap has no children and no \<open>next\<close> pointer.\<close>

definition idle :: "ph_mem \<Rightarrow> u32 \<Rightarrow> bool" where
  "idle \<sigma> x \<longleftrightarrow> (\<exists>n. \<sigma> x = Some n \<and> ph_child n = 0 \<and> ph_next n = 0)"

text \<open>The children of the deleted node \<open>x\<close> are paired in a memory in which \<open>x\<close> is idle.\<close>

lemma pairing_of_node:
  assumes x: "forest \<sigma> x [PH x cs] f" and d: "distinct (nodes [PH x cs])" and m: "\<sigma> x = Some m"
  shows "\<exists>r \<sigma>'. mp_pairheap_pairing lt (ph_child m) (\<sigma>(x \<mapsto> m\<lparr>ph_child := 0, ph_next := 0\<rparr>)) = Some (r, \<sigma>') \<and>
    heap_at \<sigma>' r (pair_up lt None cs) \<and> idle \<sigma>' x \<and> (r = 0 \<longleftrightarrow> cs = []) \<and>
    (\<forall>y. y \<notin> set (nodes [PH x cs]) \<longrightarrow> \<sigma>' y = \<sigma> y)"
proof -
  let ?s = "\<sigma>(x \<mapsto> m\<lparr>ph_child := 0, ph_next := 0\<rparr>)"
  have x': "x \<notin> set (nodes cs)" "distinct (nodes cs)" "node_addr x" "kids_at \<sigma> x m cs"
    using x d m unfolding forest_Cons by auto
  have "forest ?s (ph_child m) cs (NEXT_MAKE_RIGHTMOST_PARENT x) = forest \<sigma> (ph_child m) cs (NEXT_MAKE_RIGHTMOST_PARENT x)"
    using x'(1) by (intro forest_frame) auto
  then have "if cs = [] then ph_child m = 0 else forest ?s (ph_child m) cs (NEXT_MAKE_RIGHTMOST_PARENT x)"
    using x'(4) by (simp add: kids_at_def split: if_splits)
  from mp_pairheap_pairing_correct [OF this node_addr_parent(1) [OF x'(3)] x'(2), of lt]
  obtain r \<sigma>' where r: "mp_pairheap_pairing lt (ph_child m) ?s = Some (r, \<sigma>')" "heap_at \<sigma>' r (pair_up lt None cs)"
      "\<And>y. y \<notin> set (nodes cs) \<Longrightarrow> \<sigma>' y = ?s y"
    by blast
  have "r = 0 \<longleftrightarrow> cs = []"
  proof (cases "cs = []")
    case False
    then obtain t where "pair_up lt None cs = Some t"
      using pair_up_None [of lt cs] by blast
    then have "node_addr r"
      using r(2) forest_hd [of \<sigma>' r "[t]" 0] by (auto simp: heap_at_def)
    then show ?thesis
      using False by auto
  qed (use r(2) in \<open>simp add: heap_at_def\<close>)
  moreover have "idle \<sigma>' x"
    using r(3) [OF x'(1)] by (simp add: idle_def)
  moreover have "\<sigma>' y = \<sigma> y" if "y \<notin> set (nodes [PH x cs])" for y
    using r(3) [of y] that by auto
  ultimately show ?thesis
    using r by blast
qed

text \<open>
  The parts of a list of children around a node, and the memory in which the node is idle and its
  children are paired.
\<close>

lemma kids_parts:
  assumes k: "kids_at \<sigma> q n (ls @ PH x cs # rs)" and q: "node_addr q"
  obtains m where "\<sigma> x = Some m" "node_addr x" "forest \<sigma> (ph_child n) ls x" "forest \<sigma> x [PH x cs] (ph_next m)"
    "forest \<sigma> (ph_next m) rs (NEXT_MAKE_RIGHTMOST_PARENT q)" "NEXT_IS_RIGHTMOST_PARENT (ph_next m) \<longleftrightarrow> rs = []"
    "ph_next m \<noteq> 0" "x = ph_child n \<longleftrightarrow> ls = [] \<or> x = ph_root (hd ls)" "ph_child m = 0 \<longleftrightarrow> cs = []"
    "ph_child_last n = ph_root (last (PH x cs # rs))"
proof -
  let ?e = "NEXT_MAKE_RIGHTMOST_PARENT q"
  have f: "forest \<sigma> (ph_child n) (ls @ PH x cs # rs) ?e" "ph_child_last n = ph_root (last (PH x cs # rs))"
    using k by (simp_all add: kids_at_def)
  obtain z where z: "forest \<sigma> (ph_child n) ls z" "forest \<sigma> z (PH x cs # rs) ?e"
    using f(1) forest_append by blast
  obtain m where m: "z = x" "node_addr x" "\<sigma> x = Some m" "kids_at \<sigma> x m cs" "forest \<sigma> (ph_next m) rs ?e"
    using z(2) unfolding forest_Cons by blast
  have "forest \<sigma> x [PH x cs] (ph_next m)"
    using m by (simp add: forest_Cons del: forest.simps(2))
  moreover have "NEXT_IS_RIGHTMOST_PARENT (ph_next m) \<longleftrightarrow> rs = []" "ph_next m \<noteq> 0"
    using m(5) forest_hd [OF m(5)] q by (cases "rs = []"; auto)+
  moreover have "x = ph_child n \<longleftrightarrow> ls = [] \<or> x = ph_root (hd ls)"
    using z(1) m(1) forest_hd [OF z(1)] by (cases "ls = []") auto
  moreover have "ph_child m = 0 \<longleftrightarrow> cs = []"
    using m(4) forest_hd [OF kids_at_forest [OF m(4)]] by (cases "cs = []") (auto simp: kids_at_def)
  ultimately show ?thesis
    using that m z(1) f(2) by blast
qed

text \<open>A heap is put between two lists of siblings.\<close>

lemma forest_insert_heap:
  assumes h: "heap_at \<sigma> r (Some t)" and rs: "forest \<sigma> f rs e" and d: "distinct (nodes [t] @ nodes rs)"
  shows "\<exists>k. \<sigma> r = Some k \<and> r = ph_root t \<and> forest (\<sigma>(r \<mapsto> k\<lparr>ph_next := f\<rparr>)) r (t # rs) e"
proof -
  have t: "forest \<sigma> r [t] 0"
    using h by (simp add: heap_at_def)
  then have r: "r = ph_root t" "r \<in> set (nodes [t])"
    using forest_hd [OF t] ph_root_in [of t "[t]"] by auto
  have dt: "distinct (nodes [t])"
    using d by simp
  obtain k where k: "\<sigma> r = Some k" "forest (\<sigma>(r \<mapsto> k\<lparr>ph_next := f\<rparr>)) r [t] f"
    using forest_set_next [OF t dt, of f] by blast
  have "forest (\<sigma>(r \<mapsto> k\<lparr>ph_next := f\<rparr>)) f rs e"
    using rs d r(2) by (subst forest_frame [of rs _ \<sigma>]) auto
  with k(2) have "forest (\<sigma>(r \<mapsto> k\<lparr>ph_next := f\<rparr>)) r ([t] @ rs) e"
    unfolding forest_append by blast
  then show ?thesis
    using k(1) r(1) by auto
qed

text \<open>
  What the surgery on the children of \<open>q\<close> achieves: \<open>x\<close> is idle, \<open>q\<close> has the new children, and the rest of the
  memory is as it was.
\<close>

definition surgery :: "ph_mem \<Rightarrow> u32 \<Rightarrow> u32 \<Rightarrow> ph_tree list \<Rightarrow> ph_tree list \<Rightarrow> ph_mem \<Rightarrow> bool" where
  "surgery \<sigma> q x ds new \<sigma>' \<longleftrightarrow>
     (\<exists>n n'. \<sigma> q = Some n \<and> \<sigma>' q = Some n' \<and> ph_next n' = ph_next n \<and> kids_at \<sigma>' q n' new) \<and> idle \<sigma>' x \<and>
     (\<forall>y. y \<notin> insert q (set (nodes ds)) \<longrightarrow> \<sigma>' y = \<sigma> y)"

lemma surgery_finish:
  assumes "forest \<sigma>' c (us @ a # rs) (NEXT_MAKE_RIGHTMOST_PARENT q)" and "\<sigma> q = Some n" and "\<sigma>' q = Some n'"
    and "ph_next n' = ph_next n" and "ph_child n' = c" and "rs \<noteq> [] \<Longrightarrow> ph_child_last n' = ph_root (last rs)"
    and "idle \<sigma>' x" and "x \<noteq> q" and "q \<notin> set (nodes (us @ a # rs))" and "r = ph_root a"
    and "NEXT_IS_RIGHTMOST_PARENT f \<longleftrightarrow> rs = []" and "\<And>y. y \<notin> insert q (set (nodes ds)) \<Longrightarrow> \<sigma>' y = \<sigma> y"
  shows "\<exists>\<sigma>''. (if NEXT_IS_RIGHTMOST_PARENT f then set_child_last q r \<sigma>' else Some \<sigma>') = Some \<sigma>'' \<and>
    surgery \<sigma> q x ds (us @ a # rs) \<sigma>''"
proof (cases "rs = []")
  case True
  let ?s = "\<sigma>'(q \<mapsto> n'\<lparr>ph_child_last := r\<rparr>)"
  have "forest ?s c (us @ [a]) (NEXT_MAKE_RIGHTMOST_PARENT q)"
    using assms(1,9) True by (subst forest_frame [of _ _ \<sigma>']) auto
  then show ?thesis
    using True assms by (auto simp: surgery_def kids_at_def idle_def)
next
  case False
  then show ?thesis
    using assms by (auto simp: surgery_def kids_at_def)
qed

lemma surgery_leaf:
  assumes k: "kids_at \<sigma> q n (PH x [] # rs)" and n: "\<sigma> q = Some n" "node_addr q" and d: "distinct (q # nodes (PH x [] # rs))"
    and m: "\<sigma> x = Some m"
  shows "\<exists>\<sigma>'. do { \<sigma> \<leftarrow> set_child q (if NEXT_IS_RIGHTMOST_PARENT (ph_next m) then 0 else ph_next m) \<sigma>; set_next x 0 \<sigma> } = Some \<sigma>' \<and>
    surgery \<sigma> q x (PH x [] # rs) rs \<sigma>'"
proof -
  have k': "kids_at \<sigma> q n ([] @ PH x [] # rs)"
    using k by simp
  obtain m' where m': "\<sigma> x = Some m'" "forest \<sigma> (ph_next m') rs (NEXT_MAKE_RIGHTMOST_PARENT q)"
      "NEXT_IS_RIGHTMOST_PARENT (ph_next m') \<longleftrightarrow> rs = []" "ph_child m' = 0" "ph_child_last n = ph_root (last (PH x [] # rs))"
    by (rule kids_parts [OF k' n(2)]) blast
  have e: "m' = m"
    using m m'(1) by simp
  have x: "x \<noteq> q" "x \<notin> set (nodes rs)" "q \<notin> set (nodes rs)"
    using d by auto
  let ?v = "if rs = [] then 0 else ph_next m"
  let ?s = "\<sigma>(q \<mapsto> n\<lparr>ph_child := ?v\<rparr>, x \<mapsto> m\<lparr>ph_next := 0\<rparr>)"
  have "forest ?s (ph_next m) rs (NEXT_MAKE_RIGHTMOST_PARENT q)"
    using m'(2) x by (subst forest_frame [of _ _ \<sigma>]) (auto simp: e)
  then have "kids_at ?s q (n\<lparr>ph_child := ?v\<rparr>) rs"
    using m'(5) by (cases "rs = []") (simp_all add: kids_at_def)
  then have "surgery \<sigma> q x (PH x [] # rs) rs ?s"
    using n x m' by (auto simp: surgery_def idle_def e)
  moreover have "do { \<sigma> \<leftarrow> set_child q (if NEXT_IS_RIGHTMOST_PARENT (ph_next m) then 0 else ph_next m) \<sigma>; set_next x 0 \<sigma> } = Some ?s"
    using m n(1) x(1) m'(3) by (simp add: e)
  ultimately show ?thesis
    by blast
qed

lemma surgery_first:
  assumes k: "kids_at \<sigma> q n (PH x cs # rs)" and n: "\<sigma> q = Some n" "node_addr q" and d: "distinct (q # nodes (PH x cs # rs))"
    and m: "\<sigma> x = Some m" and cs: "cs \<noteq> []"
  shows "\<exists>r \<sigma>1 \<sigma>2 \<sigma>'. replace_first lt q x \<sigma> = Some (r, \<sigma>1) \<and> set_next r (ph_next m) \<sigma>1 = Some \<sigma>2 \<and>
    (if NEXT_IS_RIGHTMOST_PARENT (ph_next m) then set_child_last q r \<sigma>2 else Some \<sigma>2) = Some \<sigma>' \<and>
    surgery \<sigma> q x (PH x cs # rs) (opt_list (pair_up lt None cs) @ rs) \<sigma>'"
proof -
  have k': "kids_at \<sigma> q n ([] @ PH x cs # rs)"
    using k by simp
  obtain m' where m': "\<sigma> x = Some m'" "forest \<sigma> x [PH x cs] (ph_next m')" "forest \<sigma> (ph_next m') rs (NEXT_MAKE_RIGHTMOST_PARENT q)"
      "NEXT_IS_RIGHTMOST_PARENT (ph_next m') \<longleftrightarrow> rs = []" "ph_child_last n = ph_root (last (PH x cs # rs))"
    by (rule kids_parts [OF k' n(2)]) blast
  have e: "m' = m"
    using m m'(1) by simp
  have x: "x \<noteq> q" "x \<notin> set (nodes rs)" "q \<notin> set (nodes rs)" "q \<notin> set (nodes cs)" "x \<notin> set (nodes cs)" "distinct (nodes [PH x cs])"
    using d by auto
  obtain t where t: "pair_up lt None cs = Some t"
    using cs pair_up_None [of lt cs] by blast
  have nt: "set (nodes [t]) = set (nodes cs)" "distinct (nodes [t])"
    using nodes_pair_up [of lt None cs] distinct_nodes_pair_up [of None cs lt] d by (auto simp: t)
  let ?s = "\<sigma>(x \<mapsto> m\<lparr>ph_child := 0, ph_next := 0\<rparr>)"
  obtain r \<sigma>1 where r: "mp_pairheap_pairing lt (ph_child m) ?s = Some (r, \<sigma>1)" "heap_at \<sigma>1 r (Some t)" "idle \<sigma>1 x" "r \<noteq> 0"
      "\<And>y. y \<notin> set (nodes [PH x cs]) \<Longrightarrow> \<sigma>1 y = \<sigma> y"
    using pairing_of_node [OF m'(2) x(6) m, of lt] cs t by auto
  let ?s1 = "\<sigma>1(q \<mapsto> n\<lparr>ph_child := r\<rparr>)"
  have q1: "\<sigma>1 q = Some n"
    using r(5) [of q] x n(1) by simp
  have rep: "replace_first lt q x \<sigma> = Some (r, ?s1)"
    using m r(1) q1 by (simp add: replace_first_def)
  have "heap_at ?s1 r (Some t)"
    using r(2) x(4) nt unfolding heap_at_def by (subst forest_frame [of _ _ \<sigma>1]) auto
  moreover have "forest ?s1 (ph_next m) rs (NEXT_MAKE_RIGHTMOST_PARENT q)"
    using m'(3) x d by (subst forest_frame [of _ _ \<sigma>]) (auto simp: e intro!: r(5))
  moreover have "distinct (nodes [t] @ nodes rs)"
    using nt d by auto
  ultimately obtain k where k: "?s1 r = Some k" "r = ph_root t"
      "forest (?s1(r \<mapsto> k\<lparr>ph_next := ph_next m\<rparr>)) r (t # rs) (NEXT_MAKE_RIGHTMOST_PARENT q)"
    using forest_insert_heap [of ?s1 r t "ph_next m" rs] by blast
  let ?s2 = "?s1(r \<mapsto> k\<lparr>ph_next := ph_next m\<rparr>)"
  have rx: "r \<in> set (nodes cs)" "r \<noteq> q" "r \<noteq> x"
    using k(2) nt(1) ph_root_in [of t "[t]"] x by auto
  have "\<exists>\<sigma>'. (if NEXT_IS_RIGHTMOST_PARENT (ph_next m) then set_child_last q r ?s2 else Some ?s2) = Some \<sigma>' \<and>
      surgery \<sigma> q x (PH x cs # rs) ([] @ t # rs) \<sigma>'"
  proof (rule surgery_finish)
    show "forest ?s2 r ([] @ t # rs) (NEXT_MAKE_RIGHTMOST_PARENT q)"
      using k(3) by simp
    show "idle ?s2 x"
      using r(3) rx x(1) by (simp add: idle_def)
    show "q \<notin> set (nodes ([] @ t # rs))"
      using nt(1) x by (simp add: nodes_Cons [of t rs] del: nodes.simps)
    show "?s2 y = \<sigma> y" if "y \<notin> insert q (set (nodes (PH x cs # rs)))" for y
      using that r(5) [of y] rx by auto
    show "NEXT_IS_RIGHTMOST_PARENT (ph_next m) \<longleftrightarrow> rs = []"
      using m'(4) e by simp
    show "ph_child_last (n\<lparr>ph_child := r\<rparr>) = ph_root (last rs)" if "rs \<noteq> []"
      using m'(5) that by simp
  qed (use n(1) rx x(1) k(2) in simp_all)
  then show ?thesis
    using rep k(1) by (auto simp: t)
qed

lemma surgery_later:
  assumes k: "kids_at \<sigma> q n (ls @ PH x cs # rs)" and n: "\<sigma> q = Some n" "node_addr q" and d: "distinct (q # nodes (ls @ PH x cs # rs))"
    and m: "\<sigma> x = Some m" and ls: "ls \<noteq> []"
  shows "\<exists>r \<sigma>1 \<sigma>2 \<sigma>'. replace_later lt (ph_child n) x \<sigma> = Some (r, \<sigma>1) \<and> set_next r (ph_next m) \<sigma>1 = Some \<sigma>2 \<and>
    (if NEXT_IS_RIGHTMOST_PARENT (ph_next m) then set_child_last q r \<sigma>2 else Some \<sigma>2) = Some \<sigma>' \<and>
    surgery \<sigma> q x (ls @ PH x cs # rs) (ls @ opt_list (pair_up lt None cs) @ rs) \<sigma>'"
proof -
  let ?e = "NEXT_MAKE_RIGHTMOST_PARENT q"
  let ?ds = "ls @ PH x cs # rs"
  obtain m' where m': "\<sigma> x = Some m'" "forest \<sigma> (ph_child n) ls x" "forest \<sigma> x [PH x cs] (ph_next m')" "forest \<sigma> (ph_next m') rs ?e"
      "NEXT_IS_RIGHTMOST_PARENT (ph_next m') \<longleftrightarrow> rs = []" "ph_child_last n = ph_root (last (PH x cs # rs))"
    by (rule kids_parts [OF k n(2)]) blast
  have e: "m' = m"
    using m m'(1) by simp
  obtain us l where us: "ls = us @ [l]"
    using ls by (metis rev_exhaust)
  have x: "x \<noteq> q" "x \<notin> set (nodes rs)" "x \<notin> set (nodes ls)" "q \<notin> set (nodes ls)" "q \<notin> set (nodes rs)" "q \<notin> set (nodes cs)" "distinct (nodes [PH x cs])"
      "distinct (nodes ls)" "distinct (nodes rs)" "set (nodes ls) \<inter> set (nodes cs) = {}" "set (nodes ls) \<inter> set (nodes rs) = {}" "set (nodes cs) \<inter> set (nodes rs) = {}"
    using d by auto
  have l: "ph_root l \<in> set (nodes ls)"
    by (rule ph_root_in) (simp add: us)
  then have lne: "ph_root l \<noteq> x" "ph_root l \<noteq> q"
    using x by auto
  have "find_previous (ph_root (PH x cs)) (ph_child n) \<sigma> = Some (ph_root l)"
  proof (rule find_previous_correct)
    have "forest \<sigma> (ph_child n) (ls @ [PH x cs]) (ph_next m)"
      using m'(2,3) unfolding forest_append e by blast
    then show "forest \<sigma> (ph_child n) (us @ [l] @ [PH x cs]) (ph_next m)"
      by (simp add: us)
    have "x \<notin> ph_root ` set (us @ [l])"
      using ph_root_in x(3) by (auto simp: us)
    moreover have "distinct (map ph_root (us @ [l]))"
      using distinct_roots [OF x(8)] by (simp add: us)
    ultimately show "distinct (map ph_root (us @ [l] @ [PH x cs]))"
      by auto
  qed
  then have prev: "find_previous x (ph_child n) \<sigma> = Some (ph_root l)"
    by simp
  let ?s = "\<sigma>(x \<mapsto> m\<lparr>ph_child := 0, ph_next := 0\<rparr>)"
  obtain r \<sigma>1 where r: "mp_pairheap_pairing lt (ph_child m) ?s = Some (r, \<sigma>1)" "heap_at \<sigma>1 r (pair_up lt None cs)" "idle \<sigma>1 x"
      "r = 0 \<longleftrightarrow> cs = []" "\<And>y. y \<notin> set (nodes [PH x cs]) \<Longrightarrow> \<sigma>1 y = \<sigma> y"
    using pairing_of_node [OF m'(3) [unfolded e] x(7) m, of lt] by auto
  have q1: "\<sigma>1 q = Some n"
    using r(5) [of q] x n(1) by simp
  have ls1: "forest \<sigma>1 (ph_child n) ls x"
    using m'(2) x by (subst forest_frame [of _ _ \<sigma>]) (auto intro!: r(5))
  have rs1: "forest \<sigma>1 (ph_next m) rs ?e"
    using m'(4) x by (subst forest_frame [of _ _ \<sigma>]) (auto simp: e intro!: r(5))
  have same: "\<sigma>1 y = \<sigma> y" if "y \<notin> insert q (set (nodes ?ds))" for y
    using that r(5) [of y] by auto
  have last: "ph_child_last n = ph_root (last rs)" if "rs \<noteq> []"
    using m'(6) that by simp
  have rm: "NEXT_IS_RIGHTMOST_PARENT (ph_next m) \<longleftrightarrow> rs = []"
    using m'(5) e by simp
  show ?thesis
  proof (cases "cs = []")
    case True
    then have r0: "r = 0" "pair_up lt None cs = None"
      using r(4) by simp_all
    obtain k where k: "\<sigma>1 (ph_root l) = Some k" "forest (\<sigma>1(ph_root l \<mapsto> k\<lparr>ph_next := ph_next m\<rparr>)) (ph_child n) ls (ph_next m)"
      using forest_set_last [of \<sigma>1 "ph_child n" us l x "ph_next m"] ls1 x(8) by (auto simp: us)
    let ?s2 = "\<sigma>1(ph_root l \<mapsto> k\<lparr>ph_next := ph_next m\<rparr>)"
    have "forest ?s2 (ph_next m) rs ?e"
      using rs1 l x by (subst forest_frame [of _ _ \<sigma>1]) auto
    with k(2) have f: "forest ?s2 (ph_child n) (ls @ rs) ?e"
      unfolding forest_append by blast
    have rep: "replace_later lt (ph_child n) x \<sigma> = Some (ph_root l, \<sigma>1)"
      using m prev r(1) r0(1) by (simp add: replace_later_def)
    have "\<exists>\<sigma>'. (if NEXT_IS_RIGHTMOST_PARENT (ph_next m) then set_child_last q (ph_root l) ?s2 else Some ?s2) = Some \<sigma>' \<and>
        surgery \<sigma> q x ?ds (us @ l # rs) \<sigma>'"
    proof (rule surgery_finish)
      show "forest ?s2 (ph_child n) (us @ l # rs) ?e"
        using f by (simp add: us)
      show "idle ?s2 x"
        using r(3) lne by (simp add: idle_def)
      show "?s2 y = \<sigma> y" if "y \<notin> insert q (set (nodes ?ds))" for y
        using that same [of y] l by auto
      show "q \<notin> set (nodes (us @ l # rs))"
        using x(4,5) by (simp add: us nodes_Cons [of l rs] del: nodes.simps)
    qed (use n(1) q1 lne x(1) last rm in simp_all)
    then show ?thesis
      using rep k(1) r0(2) by (auto simp: us)
  next
    case False
    then obtain t where t: "pair_up lt None cs = Some t"
      using pair_up_None [of lt cs] by blast
    have dcs: "distinct (nodes cs)"
      using x(7) by simp
    have nt: "set (nodes [t]) = set (nodes cs)" "distinct (nodes [t])"
      using nodes_pair_up [of lt None cs] distinct_nodes_pair_up [of None cs lt] dcs by (simp_all add: t)
    obtain k where k: "\<sigma>1 (ph_root l) = Some k" "forest (\<sigma>1(ph_root l \<mapsto> k\<lparr>ph_next := r\<rparr>)) (ph_child n) ls r"
      using forest_set_last [of \<sigma>1 "ph_child n" us l x r] ls1 x(8) by (auto simp: us)
    let ?s2 = "\<sigma>1(ph_root l \<mapsto> k\<lparr>ph_next := r\<rparr>)"
    have lt': "ph_root l \<notin> set (nodes [t])" "ph_root l \<notin> set (nodes rs)"
      using l x nt(1) by auto
    have "heap_at ?s2 r (Some t)"
      using r(2) lt'(1) unfolding heap_at_def t by (subst forest_frame [of _ _ \<sigma>1]) auto
    moreover have "forest ?s2 (ph_next m) rs ?e"
      using rs1 lt'(2) by (subst forest_frame [of _ _ \<sigma>1]) auto
    moreover have "distinct (nodes [t] @ nodes rs)"
      using nt x by auto
    ultimately obtain j where j: "?s2 r = Some j" "r = ph_root t" "forest (?s2(r \<mapsto> j\<lparr>ph_next := ph_next m\<rparr>)) r (t # rs) ?e"
      using forest_insert_heap [of ?s2 r t "ph_next m" rs] by blast
    let ?s3 = "?s2(r \<mapsto> j\<lparr>ph_next := ph_next m\<rparr>)"
    have rx: "r \<in> set (nodes cs)"
      using j(2) nt(1) ph_root_in [of t "[t]"] by auto
    then have rne: "r \<noteq> q" "r \<noteq> x" "r \<notin> set (nodes ls)"
      using x by auto
    have "forest ?s3 (ph_child n) ls r"
      using k(2) rne(3) by (subst forest_frame [of _ _ ?s2]) auto
    with j(3) have f: "forest ?s3 (ph_child n) (ls @ t # rs) ?e"
      unfolding forest_append by blast
    have rep: "replace_later lt (ph_child n) x \<sigma> = Some (r, ?s2)"
      using m prev r(1,4) False k(1) by (simp add: replace_later_def)
    have "\<exists>\<sigma>'. (if NEXT_IS_RIGHTMOST_PARENT (ph_next m) then set_child_last q r ?s3 else Some ?s3) = Some \<sigma>' \<and>
        surgery \<sigma> q x ?ds (ls @ t # rs) \<sigma>'"
    proof (rule surgery_finish)
      show "forest ?s3 (ph_child n) (ls @ t # rs) ?e"
        by (rule f)
      show "idle ?s3 x"
        using r(3) lne rne by (simp add: idle_def)
      show "?s3 y = \<sigma> y" if "y \<notin> insert q (set (nodes ?ds))" for y
        using that same [of y] l rx by auto
      show "q \<notin> set (nodes (ls @ t # rs))"
        using x(4-6) nt(1) by (simp add: nodes_Cons [of t rs] del: nodes.simps)
    qed (use n(1) q1 lne rne x(1) last rm j(2) in simp_all)
    then show ?thesis
      using rep j(1) by (auto simp: t)
  qed
qed

text \<open>The trees that a deletion may leave.\<close>

definition deleted :: "(u32 \<Rightarrow> u32 \<Rightarrow> bool) \<Rightarrow> u32 \<Rightarrow> ph_tree \<Rightarrow> ph_tree option \<Rightarrow> bool" where
  "deleted lt x t h \<longleftrightarrow>
     (\<exists>cs. t = PH x cs \<and> h = pair_up lt None cs) \<or>
     (\<exists>q ls cs rs t'. x \<noteq> ph_root t \<and> kids q [t] = Some (ls @ PH x cs # rs) \<and> h = Some t' \<and>
        [t'] = set_kids q (ls @ opt_list (pair_up lt None cs) @ rs) [t])"

lemma pairing_of_top:
  assumes h: "forest \<sigma> x [PH x cs] 0" and d: "distinct (nodes [PH x cs])" and n: "\<sigma> x = Some n"
  shows "\<exists>r \<sigma>'. mp_pairheap_pairing lt (ph_child n) (\<sigma>(x \<mapsto> n\<lparr>ph_child := 0\<rparr>)) = Some (r, \<sigma>') \<and>
    heap_at \<sigma>' r (pair_up lt None cs) \<and> idle \<sigma>' x \<and> (\<forall>y. y \<notin> set (nodes [PH x cs]) \<longrightarrow> \<sigma>' y = \<sigma> y)"
proof -
  have "ph_next n = 0"
    using h n by (auto simp: forest_Cons simp del: forest.simps(2))
  then have "n\<lparr>ph_child := 0\<rparr> = n\<lparr>ph_child := 0, ph_next := 0\<rparr>"
    by (cases n) simp
  then show ?thesis
    using pairing_of_node [OF h d n, of lt] by auto
qed

lemma mp_pairheap_pop_correct:
  assumes "heap_at \<sigma> p (Some (PH x cs))" and "distinct (nodes [PH x cs])"
  shows "p = x \<and> (\<exists>r \<sigma>'. mp_pairheap_pop lt p \<sigma> = Some (r, \<sigma>') \<and> heap_at \<sigma>' r (pair_up lt None cs) \<and> idle \<sigma>' x \<and>
    (\<forall>y. y \<notin> set (nodes [PH x cs]) \<longrightarrow> \<sigma>' y = \<sigma> y))"
proof -
  obtain n where n: "p = x" "\<sigma> x = Some n" "forest \<sigma> x [PH x cs] 0"
    using assms(1) by (auto simp: heap_at_def forest_Cons simp del: forest.simps(2))
  then show ?thesis
    using pairing_of_top [OF n(3) assms(2) n(2), of lt] by (auto simp: mp_pairheap_pop_def)
qed

lemma mp_pairheap_push_correct:
  assumes h: "heap_at \<sigma> p h" and x: "idle \<sigma> x" "node_addr x" and d: "distinct (x # nodes (opt_list h))"
  shows "\<exists>r \<sigma>' t. mp_pairheap_push lt p x \<sigma> = Some (r, \<sigma>') \<and> heap_at \<sigma>' r (Some t) \<and>
    t = (case h of None \<Rightarrow> PH x [] | Some u \<Rightarrow> link lt (PH x []) u) \<and>
    (\<forall>y. y \<notin> insert x (set (nodes (opt_list h))) \<longrightarrow> \<sigma>' y = \<sigma> y)"
proof -
  have f: "forest \<sigma> x [PH x []] 0"
    using x by (auto simp: idle_def)
  show ?thesis
  proof (cases h)
    case None
    then show ?thesis
      using h f x(2) by (simp add: heap_at_def mp_pairheap_push_def mp_pairheap_meld_def)
  next
    case (Some u)
    then show ?thesis
      using mp_pairheap_meld_link [OF f, of p u lt] h d by (simp add: heap_at_def mp_pairheap_push_def)
  qed
qed

lemma mp_pairheap_delete_idle:
  assumes "heap_at \<sigma> p h" and "idle \<sigma> x" and "x \<notin> set (nodes (opt_list h))" and "x \<noteq> 0"
  shows "mp_pairheap_delete lt p x \<sigma> = Some (p, \<sigma>)"
proof -
  have "x \<noteq> p"
  proof (cases h)
    case (Some t)
    then show ?thesis
      using assms(1,3) forest_hd [of \<sigma> p "[t]" 0] ph_root_in [of t "[t]"] by (auto simp: heap_at_def)
  qed (use assms in \<open>simp add: heap_at_def\<close>)
  then show ?thesis
    using assms(2) by (auto simp: mp_pairheap_delete_def idle_def)
qed

lemma mp_pairheap_delete_correct:
  assumes h: "heap_at \<sigma> p (Some t)" and d: "distinct (nodes [t])" and x: "x \<in> set (nodes [t])"
  shows "\<exists>r \<sigma>' h'. mp_pairheap_delete lt p x \<sigma> = Some (r, \<sigma>') \<and> heap_at \<sigma>' r h' \<and> deleted lt x t h' \<and> idle \<sigma>' x \<and>
    (\<forall>y. y \<notin> set (nodes [t]) \<longrightarrow> \<sigma>' y = \<sigma> y)"
proof -
  have f: "forest \<sigma> p [t] 0"
    using h by (simp add: heap_at_def)
  then have p: "p = ph_root t"
    using forest_hd [OF f] by simp
  show ?thesis
  proof (cases "x = p")
    case True
    then obtain cs where t: "t = PH x cs"
      using p by (cases t) simp
    obtain n where n: "\<sigma> x = Some n"
      using forest_nodes [OF f x] by blast
    then show ?thesis
      using pairing_of_top [of \<sigma> x cs n lt] f d True by (auto simp: t mp_pairheap_delete_def deleted_def)
  next
    case False
    then obtain q ls cs rs where k: "kids q [t] = Some (ls @ PH x cs # rs)"
      using find_kids [OF x _ d] p by auto
    let ?ds = "ls @ PH x cs # rs" and ?new = "ls @ opt_list (pair_up lt None cs) @ rs"
    have dk: "distinct (q # nodes ?ds)" "q \<in> set (nodes [t])" "set (nodes ?ds) \<subseteq> set (nodes [t])"
      using kids_distinct [OF k d] kids_nodes [OF k] by auto
    obtain n where n: "node_addr q" "\<sigma> q = Some n" "kids_at \<sigma> q n ?ds"
      using kids_body [OF f k] by blast
    obtain m where m: "\<sigma> x = Some m" "node_addr x" "forest \<sigma> x [PH x cs] (ph_next m)" "forest \<sigma> (ph_next m) rs (NEXT_MAKE_RIGHTMOST_PARENT q)"
        "ph_next m \<noteq> 0" "x = ph_child n \<longleftrightarrow> ls = [] \<or> x = ph_root (hd ls)" "ph_child m = 0 \<longleftrightarrow> cs = []"
      by (rule kids_parts [OF n(3,1)]) blast
    have "forest \<sigma> x ([PH x cs] @ rs) (NEXT_MAKE_RIGHTMOST_PARENT q)"
      using m(3,4) unfolding forest_append by blast
    then have parent: "find_parent x \<sigma> = Some q"
      using find_parent_correct [of \<sigma> x "PH x cs" rs q] n(1) by simp
    have first: "x = ph_child n \<longleftrightarrow> ls = []"
      using m(6) dk(1) nodes_hd [of ls] by auto
    have "\<exists>\<sigma>'. mp_pairheap_delete lt p x \<sigma> = Some (p, \<sigma>') \<and> surgery \<sigma> q x ?ds ?new \<sigma>'"
    proof (cases "ls = []")
      case ls: True
      show ?thesis
      proof (cases "cs = []")
        case cs: True
        then show ?thesis
          using surgery_leaf [of \<sigma> q n x rs m] n m(1) dk(1) ls False parent m(5,7) first
          by (auto simp: mp_pairheap_delete_def)
      next
        case cs: False
        then show ?thesis
          using surgery_first [of \<sigma> q n x cs rs m lt] n m(1) dk(1) ls False parent m(5,7) first
          by (auto simp: mp_pairheap_delete_def)
      qed
    next
      case ls: False
      then show ?thesis
        using surgery_later [OF n(3,2,1) dk(1) m(1) ls, of lt] False parent m(1,5) n(2) first
        by (auto simp: mp_pairheap_delete_def)
    qed
    then obtain \<sigma>' n' where r: "mp_pairheap_delete lt p x \<sigma> = Some (p, \<sigma>')" "\<sigma>' q = Some n'" "ph_next n' = ph_next n" "kids_at \<sigma>' q n' ?new"
        "idle \<sigma>' x" "\<And>y. y \<notin> insert q (set (nodes ?ds)) \<Longrightarrow> \<sigma>' y = \<sigma> y"
      using n(2) unfolding surgery_def by auto
    have fin: "forest \<sigma>' p (set_kids q ?new [t]) 0"
      by (rule forest_set_kids [OF f k d n(2) r(2-4) r(6)])
    obtain t' where t': "set_kids q ?new [t] = [t']"
      by (cases t) simp
    have "heap_at \<sigma>' p (Some t')"
      using fin by (simp add: heap_at_def t')
    moreover have "deleted lt x t (Some t')"
      using False p k t' unfolding deleted_def by metis
    moreover have "\<sigma>' y = \<sigma> y" if "y \<notin> set (nodes [t])" for y
    proof (rule r(6))
      show "y \<notin> insert q (set (nodes ?ds))"
        using that dk(2,3) by blast
    qed
    ultimately show ?thesis
      using r(1,5) by blast
  qed
qed

end
