(* ===== verification/Pairheap_Order.thy ===== *)
theory Pairheap_Order
  imports Pairheap_Correct
begin

text \<open>
  The pairing heap as a queue in which elements with equal keys keep the order in which they were
  pushed. The heap stands for the list of its nodes in the order in which they leave it: a new node
  goes behind the nodes with smaller or equal keys.
\<close>

section \<open>The order in a list\<close>

fun prec :: "'a list \<Rightarrow> 'a \<Rightarrow> 'a \<Rightarrow> bool" where
  "prec [] a b \<longleftrightarrow> False"
| "prec (x # xs) a b \<longleftrightarrow> x = a \<and> b \<in> set xs \<or> prec xs a b"

lemma prec_in: "prec xs a b \<Longrightarrow> a \<in> set xs \<and> b \<in> set xs"
  by (induction xs) auto

lemma prec_trans: "distinct xs \<Longrightarrow> prec xs a b \<Longrightarrow> prec xs b c \<Longrightarrow> prec xs a c"
  by (induction xs) (auto dest: prec_in)

lemma prec_total: "a \<in> set xs \<Longrightarrow> b \<in> set xs \<Longrightarrow> a \<noteq> b \<Longrightarrow> prec xs a b \<or> prec xs b a"
  by (induction xs) auto

lemma prec_irrefl: "distinct xs \<Longrightarrow> \<not> prec xs a a"
  by (induction xs) (auto dest: prec_in)

lemma prec_append: "prec (xs @ ys) a b \<longleftrightarrow> prec xs a b \<or> prec ys a b \<or> a \<in> set xs \<and> b \<in> set ys"
  by (induction xs) auto

lemma prec_filter: "prec xs a b \<Longrightarrow> P a \<Longrightarrow> P b \<Longrightarrow> prec (filter P xs) a b"
  by (induction xs) auto

lemma remove1_filter: "distinct xs \<Longrightarrow> remove1 x xs = filter (\<lambda>y. y \<noteq> x) xs"
  by (induction xs) (auto intro!: filter_True [symmetric])

lemma prec_sorted: "sorted_wrt R xs \<Longrightarrow> prec xs a b \<Longrightarrow> R a b"
  by (induction xs) auto

text \<open>The place of a new element is behind the elements whose keys are not greater.\<close>

definition enqueue :: "('a \<Rightarrow> nat) \<Rightarrow> 'a \<Rightarrow> 'a list \<Rightarrow> 'a list" where
  "enqueue k x xs = takeWhile (\<lambda>y. k y \<le> k x) xs @ x # dropWhile (\<lambda>y. k y \<le> k x) xs"

lemma set_enqueue: "set (enqueue k x xs) = insert x (set xs)"
proof -
  have "set xs = set (takeWhile (\<lambda>y. k y \<le> k x) xs) \<union> set (dropWhile (\<lambda>y. k y \<le> k x) xs)"
    by (metis set_append takeWhile_dropWhile_id)
  then show ?thesis
    by (auto simp: enqueue_def)
qed

lemma distinct_enqueue:
  assumes "distinct xs" and "x \<notin> set xs"
  shows "distinct (enqueue k x xs)"
proof -
  have "distinct (takeWhile (\<lambda>y. k y \<le> k x) xs @ dropWhile (\<lambda>y. k y \<le> k x) xs)"
    using assms(1) by simp
  moreover have "x \<notin> set (takeWhile (\<lambda>y. k y \<le> k x) xs @ dropWhile (\<lambda>y. k y \<le> k x) xs)"
    using assms(2) by simp
  ultimately show ?thesis
    by (simp add: enqueue_def del: takeWhile_dropWhile_id)
qed

lemma prec_enqueue: "prec xs a b \<Longrightarrow> prec (enqueue k x xs) a b"
proof -
  assume "prec xs a b"
  then have "prec (takeWhile (\<lambda>y. k y \<le> k x) xs @ dropWhile (\<lambda>y. k y \<le> k x) xs) a b"
    by simp
  then show ?thesis
    by (auto simp: enqueue_def prec_append simp del: takeWhile_dropWhile_id)
qed

lemma enqueue_after:
  fixes k :: "'a \<Rightarrow> nat"
  assumes "sorted_wrt (\<lambda>a b. k a \<le> k b) xs" and "y \<in> set (dropWhile (\<lambda>y. k y \<le> k x) xs)"
  shows "k x < k y"
  using assms
proof (induction xs)
  case (Cons a xs)
  show ?case
  proof (cases "k a \<le> k x")
    case False
    then have "y = a \<or> y \<in> set xs"
      using Cons.prems(2) by simp
    then have "k a \<le> k y"
      using Cons.prems(1) by (elim disjE) simp_all
    then show ?thesis
      using False by linarith
  qed (use Cons in simp)
qed simp

lemma sorted_enqueue:
  assumes "sorted_wrt (\<lambda>a b. k a \<le> k b) xs"
  shows "sorted_wrt (\<lambda>a b. k a \<le> k b) (enqueue k x xs)"
proof -
  have "sorted_wrt (\<lambda>a b. k a \<le> k b) (takeWhile (\<lambda>y. k y \<le> k x) xs @ dropWhile (\<lambda>y. k y \<le> k x) xs)"
    using assms by simp
  then show ?thesis
    using enqueue_after [OF assms, of _ x]
    by (auto simp: enqueue_def sorted_wrt_append simp del: takeWhile_dropWhile_id dest: set_takeWhileD intro: less_imp_le)
qed

lemma enqueue_position:
  assumes "sorted_wrt (\<lambda>a b. k a \<le> k b) xs" and "y \<in> set xs"
  shows "k x < k y \<or> prec (enqueue k x xs) y x"
proof -
  have "y \<in> set (takeWhile (\<lambda>y. k y \<le> k x) xs @ dropWhile (\<lambda>y. k y \<le> k x) xs)"
    using assms(2) by simp
  then show ?thesis
    using enqueue_after [OF assms(1), of y x] by (auto simp: enqueue_def prec_append simp del: takeWhile_dropWhile_id)
qed

section \<open>Heap order\<close>

text \<open>
  \<open>bef\<close> is the order in which the nodes leave the queue. A node leaves before its descendants; of two
  siblings, the left one is younger: its nodes leave before those of the right one only if their keys
  are smaller.
\<close>

definition younger :: "('a \<Rightarrow> 'a \<Rightarrow> bool) \<Rightarrow> ('a \<Rightarrow> 'a \<Rightarrow> bool) \<Rightarrow> 'a set \<Rightarrow> 'a set \<Rightarrow> bool" where
  "younger lt bef A B \<longleftrightarrow> (\<forall>a\<in>A. \<forall>b\<in>B. lt a b \<or> bef b a)"

fun heap_ordered :: "(u32 \<Rightarrow> u32 \<Rightarrow> bool) \<Rightarrow> (u32 \<Rightarrow> u32 \<Rightarrow> bool) \<Rightarrow> ph_tree list \<Rightarrow> bool" where
  "heap_ordered lt bef [] \<longleftrightarrow> True"
| "heap_ordered lt bef (PH x cs # ts) \<longleftrightarrow>
     (\<forall>y\<in>set (nodes cs). bef x y) \<and> heap_ordered lt bef cs \<and> heap_ordered lt bef ts \<and>
     younger lt bef (insert x (set (nodes cs))) (set (nodes ts))"

lemma younger_Un: "younger lt bef (A \<union> B) C \<longleftrightarrow> younger lt bef A C \<and> younger lt bef B C"
  "younger lt bef A (B \<union> C) \<longleftrightarrow> younger lt bef A B \<and> younger lt bef A C"
  by (auto simp: younger_def)

lemma younger_empty [simp]: "younger lt bef {} B" "younger lt bef A {}"
  by (simp_all add: younger_def)

lemma younger_mono: "younger lt bef A B \<Longrightarrow> A' \<subseteq> A \<Longrightarrow> B' \<subseteq> B \<Longrightarrow> younger lt bef A' B'"
  by (auto simp: younger_def)

lemma heap_ordered_Cons:
  "heap_ordered lt bef (t # ts) \<longleftrightarrow> heap_ordered lt bef [t] \<and> heap_ordered lt bef ts \<and> younger lt bef (set (nodes [t])) (set (nodes ts))"
  by (cases t) auto

lemma heap_ordered_append:
  "heap_ordered lt bef (ts @ us) \<longleftrightarrow> heap_ordered lt bef ts \<and> heap_ordered lt bef us \<and> younger lt bef (set (nodes ts)) (set (nodes us))"
proof (induction ts)
  case (Cons t ts)
  show ?case
    using Cons by (auto simp: heap_ordered_Cons [of _ _ t "ts @ us"] heap_ordered_Cons [of _ _ t ts] nodes_Cons [of t ts] younger_Un simp del: heap_ordered.simps(2) nodes.simps(2))
qed simp

lemma heap_ordered_cong:
  "(\<And>a b. a \<in> set (nodes ts) \<Longrightarrow> b \<in> set (nodes ts) \<Longrightarrow> (lt a b \<longrightarrow> lt' a b) \<and> (bef a b \<longrightarrow> bef' a b)) \<Longrightarrow>
   heap_ordered lt bef ts \<Longrightarrow> heap_ordered lt' bef' ts"
proof (induction lt bef ts rule: heap_ordered.induct)
  case (2 lt bef x cs ts)
  have "heap_ordered lt' bef' cs" "heap_ordered lt' bef' ts"
    using 2 by (simp_all)
  moreover have "younger lt' bef' (insert x (set (nodes cs))) (set (nodes ts))"
    using 2(3,4) unfolding younger_def heap_ordered.simps nodes.simps set_append list.set by blast
  moreover have "\<forall>y\<in>set (nodes cs). bef' x y"
    using 2(3,4) by simp
  ultimately show ?case
    by simp
qed simp

text \<open>The order of the keys decides the order of the queue among the nodes in \<open>S\<close>.\<close>

definition decides :: "('a \<Rightarrow> 'a \<Rightarrow> bool) \<Rightarrow> ('a \<Rightarrow> 'a \<Rightarrow> bool) \<Rightarrow> 'a set \<Rightarrow> bool" where
  "decides lt bef S \<longleftrightarrow>
     (\<forall>a\<in>S. \<forall>b\<in>S. lt a b \<longrightarrow> bef a b) \<and> (\<forall>a b c. bef a b \<longrightarrow> bef b c \<longrightarrow> bef a c)"

lemma decides_mono: "decides lt bef S \<Longrightarrow> T \<subseteq> S \<Longrightarrow> decides lt bef T"
  unfolding decides_def by blast

lemma decides_trans: "decides lt bef S \<Longrightarrow> bef a b \<Longrightarrow> bef b c \<Longrightarrow> bef a c"
  unfolding decides_def by blast

lemma heap_ordered_link:
  assumes o: "heap_ordered lt bef [t]" "heap_ordered lt bef [u]" "younger lt bef (set (nodes [t])) (set (nodes [u]))"
    and dec: "decides lt bef (set (nodes [t]) \<union> set (nodes [u]))"
  shows "heap_ordered lt bef [link lt t u]"
proof -
  obtain x cs y ds where e: "t = PH x cs" "u = PH y ds"
    by (cases t; cases u)
  show ?thesis
  proof (cases "lt x y")
    case True
    then have xy: "bef x y"
      using dec by (simp add: e decides_def)
    then have "\<forall>z\<in>set (nodes (cs @ [u])). bef x z"
      using o(1,2) decides_trans [OF dec xy] by (auto simp: e)
    moreover have "heap_ordered lt bef (cs @ [u])"
      using o by (auto simp: heap_ordered_append e elim: younger_mono)
    ultimately show ?thesis
      using True by (simp add: link_def e)
  next
    case False
    then have yx: "bef y x"
      using o(3) by (simp add: younger_def e)
    then have "\<forall>z\<in>set (nodes (t # ds)). bef y z"
      using o(1,2) decides_trans [OF dec yx] by (auto simp: e)
    moreover have "heap_ordered lt bef (t # ds)"
      using o by (auto simp: heap_ordered_Cons [of _ _ t ds] e elim: younger_mono)
    ultimately show ?thesis
      using False by (simp add: link_def e)
  qed
qed

lemma heap_ordered_link_opt:
  assumes "heap_ordered lt bef (opt_list acc @ [t])" and "decides lt bef (set (nodes (opt_list acc @ [t])))"
  shows "heap_ordered lt bef [link_opt lt acc t]"
proof (cases acc)
  case (Some u)
  have "heap_ordered lt bef [u]" "heap_ordered lt bef [t]" "younger lt bef (set (nodes [u])) (set (nodes [t]))"
    using assms(1) by (simp_all add: Some heap_ordered_Cons [of _ _ u "[t]"] del: heap_ordered.simps nodes.simps)
  moreover have "decides lt bef (set (nodes [u]) \<union> set (nodes [t]))"
    using assms(2) by (simp add: Some nodes_Cons [of u "[t]"] del: nodes.simps)
  ultimately show ?thesis
    by (simp add: link_opt_def Some heap_ordered_link)
qed (use assms in \<open>simp add: link_opt_def\<close>)

lemma heap_ordered_pair_up:
  "heap_ordered lt bef (opt_list acc @ ts) \<Longrightarrow> decides lt bef (set (nodes (opt_list acc @ ts))) \<Longrightarrow>
   heap_ordered lt bef (opt_list (pair_up lt acc ts))"
proof (induction lt acc ts rule: pair_up.induct)
  case (2 lt acc t)
  show ?case
    using heap_ordered_link_opt [OF 2] by simp
next
  case (3 lt acc t u ts)
  let ?A = "set (nodes (opt_list acc))" and ?T = "set (nodes [t])" and ?U = "set (nodes [u])" and ?R = "set (nodes ts)"
  have n: "set (nodes (opt_list acc @ t # u # ts)) = ?A \<union> ?T \<union> ?U \<union> ?R"
    by (simp only: nodes_append nodes_Cons [of t "u # ts"] nodes_Cons [of u ts] set_append Un_assoc)
  have o: "heap_ordered lt bef (opt_list acc)" "heap_ordered lt bef [t]" "heap_ordered lt bef [u]" "heap_ordered lt bef ts"
      "younger lt bef ?A ?T" "younger lt bef ?A ?U" "younger lt bef ?A ?R" "younger lt bef ?T ?U" "younger lt bef ?T ?R" "younger lt bef ?U ?R"
    using 3(2) by (simp_all add: heap_ordered_append heap_ordered_Cons [of _ _ t "u # ts"] heap_ordered_Cons [of _ _ u ts] nodes_Cons [of t "u # ts"] nodes_Cons [of u ts]
        younger_Un del: heap_ordered.simps nodes.simps)
  note dec = decides_mono [OF 3(3) [unfolded n]]
  let ?l = "link lt t u"
  have "decides lt bef (?T \<union> ?U)"
    by (rule dec) blast
  from heap_ordered_link [OF o(2,3,8) this] have l: "heap_ordered lt bef [?l]" .
  have "heap_ordered lt bef (opt_list acc @ [?l])"
    using o l by (simp add: heap_ordered_append nodes_link younger_Un del: heap_ordered.simps nodes.simps)
  moreover have "decides lt bef (set (nodes (opt_list acc @ [?l])))"
    by (rule dec) (simp add: nodes_link del: nodes.simps, blast)
  ultimately have a: "heap_ordered lt bef [link_opt lt acc ?l]"
    by (rule heap_ordered_link_opt)
  show ?case
    unfolding pair_up.simps
  proof (rule 3(1))
    show "heap_ordered lt bef (opt_list (Some (link_opt lt acc ?l)) @ ts)"
      using a o by (simp add: heap_ordered_Cons [of _ _ "link_opt lt acc ?l" ts] nodes_link_opt nodes_link younger_Un del: heap_ordered.simps nodes.simps)
    show "decides lt bef (set (nodes (opt_list (Some (link_opt lt acc ?l)) @ ts)))"
      by (rule dec) (simp add: nodes_Cons [of _ ts] nodes_link_opt nodes_link Un_assoc del: nodes.simps)
  qed
qed simp

lemma heap_ordered_kids: "kids q ts = Some ds \<Longrightarrow> heap_ordered lt bef ts \<Longrightarrow> heap_ordered lt bef ds"
proof (induction ts rule: nodes.induct)
  case (2 x cs ts)
  from 2(3) show ?case
    by (cases rule: kids_cases) (use 2 in auto)
qed simp

lemma heap_ordered_set_kids:
  assumes "heap_ordered lt bef new" and "set (nodes new) \<subseteq> set (nodes ds)"
  shows "kids q ts = Some ds \<Longrightarrow> distinct (nodes ts) \<Longrightarrow> heap_ordered lt bef ts \<Longrightarrow> heap_ordered lt bef (set_kids q new ts)"
proof (induction ts rule: nodes.induct)
  case (2 x cs ts)
  have sub: "set (nodes (set_kids q new us)) \<subseteq> set (nodes us)" if "distinct (nodes us)" "q \<in> set (nodes us) \<longrightarrow> kids q us = Some ds" for us
    using nodes_set_kids [of q us ds new] set_kids_other [of q us new] kids_nodes [of q us ds] that assms(2) by (cases "q \<in> set (nodes us)") auto
  have d: "distinct (nodes cs)" "distinct (nodes ts)" "x \<notin> set (nodes cs)" "x \<notin> set (nodes ts)" "set (nodes cs) \<inter> set (nodes ts) = {}"
    using 2(4) by auto
  have o: "\<forall>y\<in>set (nodes cs). bef x y" "heap_ordered lt bef cs" "heap_ordered lt bef ts" "younger lt bef (insert x (set (nodes cs))) (set (nodes ts))"
    using 2(5) by simp_all
  from 2(3) show ?case
  proof (cases rule: kids_cases)
    case 1
    then have "set_kids q new ts = ts"
      using d by (simp add: set_kids_other)
    moreover have "younger lt bef (insert x (set (nodes new))) (set (nodes ts))"
      using o(4) assms(2) 1 by (intro younger_mono [OF o(4)]) auto
    ultimately show ?thesis
      using 1 o assms by auto
  next
    case 2
    then have q: "q \<notin> set (nodes ts)"
      using kids_nodes [of q cs ds] d by auto
    have c: "set (nodes (set_kids q new cs)) \<subseteq> set (nodes cs)"
      using sub [of cs] 2 d by simp
    have "younger lt bef (insert x (set (nodes (set_kids q new cs)))) (set (nodes ts))"
      using c by (intro younger_mono [OF o(4)]) auto
    then show ?thesis
      using "2.IH"(1) [OF 2(2) d(1) o(2)] 2 o c q by (auto simp: set_kids_other)
  next
    case 3
    then have q: "q \<notin> set (nodes cs)"
      using kids_nodes [of q ts ds] d by auto
    have c: "set (nodes (set_kids q new ts)) \<subseteq> set (nodes ts)"
      using sub [of ts] 3 d by simp
    have "younger lt bef (insert x (set (nodes cs))) (set (nodes (set_kids q new ts)))"
      using c by (intro younger_mono [OF o(4)]) auto
    then show ?thesis
      using "2.IH"(2) [OF 3(3) d(2) o(3)] 3 o q by (auto simp: set_kids_other)
  qed
qed simp

lemma distinct_set_kids:
  assumes "distinct (nodes new)" and "set (nodes new) \<subseteq> set (nodes ds)"
  shows "kids q ts = Some ds \<Longrightarrow> distinct (nodes ts) \<Longrightarrow> distinct (nodes (set_kids q new ts))"
proof (induction ts rule: nodes.induct)
  case (2 x cs ts)
  have d: "distinct (nodes cs)" "distinct (nodes ts)" "x \<notin> set (nodes cs)" "x \<notin> set (nodes ts)" "set (nodes cs) \<inter> set (nodes ts) = {}"
    using 2(4) by auto
  from 2(3) show ?case
  proof (cases rule: kids_cases)
    case 1
    then show ?thesis
      using d assms by (auto simp: set_kids_other)
  next
    case 2
    have "set (nodes (set_kids q new cs)) \<subseteq> set (nodes cs)"
      using nodes_set_kids [OF 2(2) d(1), of new] kids_nodes [OF 2(2)] assms(2) by auto
    moreover have "q \<notin> set (nodes ts)"
      using kids_nodes [OF 2(2)] d by auto
    ultimately show ?thesis
      using "2.IH"(1) [OF 2(2) d(1)] 2(1) d by (auto simp: set_kids_other)
  next
    case 3
    have "set (nodes (set_kids q new ts)) \<subseteq> set (nodes ts)"
      using nodes_set_kids [OF 3(3) d(2), of new] kids_nodes [OF 3(3)] assms(2) by auto
    moreover have "q \<notin> set (nodes cs)"
      using kids_nodes [OF 3(3)] d by auto
    ultimately show ?thesis
      using "2.IH"(2) [OF 3(3) d(2)] 3(1) d by (auto simp: set_kids_other)
  qed
qed simp

section \<open>The heap as a queue\<close>

definition queue_at :: "(u32 \<Rightarrow> u32 \<Rightarrow> bool) \<Rightarrow> (u32 \<Rightarrow> nat) \<Rightarrow> ph_mem \<Rightarrow> u32 \<Rightarrow> u32 list \<Rightarrow> bool" where
  "queue_at lt k \<sigma> p xs \<longleftrightarrow>
     distinct xs \<and> sorted_wrt (\<lambda>a b. k a \<le> k b) xs \<and> (\<forall>a\<in>set xs. \<forall>b\<in>set xs. lt a b \<longleftrightarrow> k a < k b) \<and>
     (\<exists>h. heap_at \<sigma> p h \<and> distinct (nodes (opt_list h)) \<and> set (nodes (opt_list h)) = set xs \<and> heap_ordered lt (prec xs) (opt_list h))"

lemma decides_prec:
  fixes k :: "'a \<Rightarrow> nat"
  assumes "distinct xs" and "sorted_wrt (\<lambda>a b. k a \<le> k b) xs" and "\<forall>a\<in>S. \<forall>b\<in>S. lt a b \<longleftrightarrow> k a < k b" and "S \<subseteq> set xs"
  shows "decides lt (prec xs) S"
  unfolding decides_def
proof (intro conjI ballI allI impI)
  fix a b
  assume ab: "a \<in> S" "b \<in> S" "lt a b"
  then have k: "k a < k b"
    using assms(3) by simp
  have "a \<noteq> b" "\<not> prec xs b a"
    using k prec_sorted [OF assms(2), of b a] by auto
  then show "prec xs a b"
    using prec_total [of a xs b] ab assms(4) by blast
next
  fix a b c
  assume "prec xs a b" "prec xs b c"
  then show "prec xs a c"
    by (rule prec_trans [OF assms(1)])
qed

lemma queue_at_Nil: "queue_at lt k \<sigma> p [] \<longleftrightarrow> p = 0"
proof -
  have "h = None" if "set (nodes (opt_list h)) = {}" for h
    using that nodes_Nil [of "opt_list h"] by (cases h) auto
  then have "(\<exists>h. heap_at \<sigma> p h \<and> set (nodes (opt_list h)) = {} \<and> P h) \<longleftrightarrow> heap_at \<sigma> p None \<and> P None" for P
    by (metis empty_set nodes.simps(1) opt_list_simps(1))
  note n = this [of "\<lambda>h. distinct (nodes (opt_list h)) \<and> heap_ordered lt (prec []) (opt_list h)"]
  show ?thesis
    unfolding queue_at_def using n by (simp add: heap_at_def conj_ac)
qed

lemma queue_at_Cons:
  assumes "queue_at lt k \<sigma> p (x # xs)"
  obtains cs where "heap_at \<sigma> p (Some (PH x cs))" "p = x" "distinct (nodes [PH x cs])" "set (nodes cs) = set xs" "heap_ordered lt (prec (x # xs)) cs"
proof -
  obtain h where h: "heap_at \<sigma> p h" "distinct (nodes (opt_list h))" "set (nodes (opt_list h)) = set (x # xs)" "heap_ordered lt (prec (x # xs)) (opt_list h)"
      "distinct (x # xs)"
    using assms unfolding queue_at_def by blast
  then obtain t where t: "h = Some t"
    by (cases h) auto
  obtain y cs where y: "t = PH y cs"
    by (cases t)
  have "y = x"
  proof (rule ccontr)
    assume "y \<noteq> x"
    then have "x \<in> set (nodes cs)"
      using h(3) by (auto simp: t y)
    then have "prec (x # xs) y x"
      using h(4) by (auto simp: t y)
    then show False
      using h(5) \<open>y \<noteq> x\<close> by (auto dest: prec_in)
  qed
  moreover have "set (nodes cs) = set xs"
    using h(2,3,5) \<open>y = x\<close> by (auto simp: t y)
  moreover have "p = x"
    using h(1) \<open>y = x\<close> by (auto simp: t y heap_at_def)
  ultimately show ?thesis
    using that [of cs] h by (simp add: t y)
qed

text \<open>The order of the nodes that remain does not change when others leave.\<close>

lemma heap_ordered_remove:
  assumes "heap_ordered lt (prec xs) ts" and "x \<notin> set (nodes ts)" and "distinct xs"
  shows "heap_ordered lt (prec (remove1 x xs)) ts"
proof -
  have "remove1 x xs = filter (\<lambda>y. y \<noteq> x) xs"
    by (rule remove1_filter [OF assms(3)])
  note r = this
  show ?thesis
  proof (rule heap_ordered_cong [OF _ assms(1)])
    fix a b
    assume "a \<in> set (nodes ts)" "b \<in> set (nodes ts)"
    then have "a \<noteq> x" "b \<noteq> x"
      using assms(2) by blast+
    then show "(lt a b \<longrightarrow> lt a b) \<and> (prec xs a b \<longrightarrow> prec (remove1 x xs) a b)"
      unfolding r using prec_filter [of xs a b "\<lambda>y. y \<noteq> x"] by blast
  qed
qed

lemma queue_at_remove:
  assumes q: "queue_at lt k \<sigma> p xs" and h: "heap_at \<sigma>' r h" "distinct (nodes (opt_list h))"
    "set (nodes (opt_list h)) = set xs - {x}" "heap_ordered lt (prec xs) (opt_list h)"
  shows "queue_at lt k \<sigma>' r (remove1 x xs)"
proof -
  have d: "distinct xs"
    using q by (simp add: queue_at_def)
  then have r: "remove1 x xs = filter (\<lambda>y. y \<noteq> x) xs"
    by (rule remove1_filter)
  have "heap_ordered lt (prec (remove1 x xs)) (opt_list h)"
    using h(3,4) d by (intro heap_ordered_remove) auto
  moreover have "sorted_wrt (\<lambda>a b. k a \<le> k b) (remove1 x xs)"
    using q by (simp add: queue_at_def r sorted_wrt_filter)
  ultimately show ?thesis
    using q h d unfolding queue_at_def by (auto simp: r)
qed

lemma deleted_correct:
  assumes del: "deleted lt x t h" and d: "distinct (nodes [t])" and o: "heap_ordered lt bef [t]" and dec: "decides lt bef (set (nodes [t]))"
  shows "distinct (nodes (opt_list h)) \<and> set (nodes (opt_list h)) = set (nodes [t]) - {x} \<and> heap_ordered lt bef (opt_list h)"
  using del unfolding deleted_def
proof (elim disjE exE conjE)
  fix cs
  assume t: "t = PH x cs" and h: "h = pair_up lt None cs"
  have "decides lt bef (set (nodes (opt_list None @ cs)))"
    by (rule decides_mono [OF dec]) (auto simp: t)
  then show ?thesis
    using d o nodes_pair_up [of lt None cs] distinct_nodes_pair_up [of None cs lt] heap_ordered_pair_up [of lt bef None cs]
    by (auto simp: t h)
next
  fix q ls cs rs t'
  let ?ds = "ls @ PH x cs # rs" and ?new = "ls @ opt_list (pair_up lt None cs) @ rs"
  assume k: "kids q [t] = Some ?ds" and h: "h = Some t'" and t': "[t'] = set_kids q ?new [t]"
  have sub: "set (nodes ?ds) \<subseteq> set (nodes [t])" and dd: "distinct (nodes ?ds)"
    using kids_nodes [OF k] kids_distinct [OF k d] by auto
  have p: "set (nodes (opt_list (pair_up lt None cs))) = set (nodes cs)" "distinct (nodes (opt_list (pair_up lt None cs)))"
    using nodes_pair_up [of lt None cs] distinct_nodes_pair_up [of None cs lt] dd by auto
  have n: "set (nodes ?new) = set (nodes ?ds) - {x}" "distinct (nodes ?new)"
    using dd p by auto
  have od: "heap_ordered lt bef ?ds"
    by (rule heap_ordered_kids [OF k o])
  have "decides lt bef (set (nodes (opt_list None @ cs)))"
    using sub by (intro decides_mono [OF dec]) auto
  moreover have "heap_ordered lt bef cs"
    using od by (simp add: heap_ordered_append)
  ultimately have "heap_ordered lt bef (opt_list (pair_up lt None cs))"
    using heap_ordered_pair_up [of lt bef None cs] by simp
  then have on: "heap_ordered lt bef ?new"
    using od p by (auto simp: heap_ordered_append younger_Un elim: younger_mono)
  have "set (nodes (set_kids q ?new [t])) = set (nodes [t]) - {x}"
    using nodes_set_kids [OF k d, of ?new] n(1) sub by auto
  moreover have "distinct (nodes (set_kids q ?new [t]))"
    by (rule distinct_set_kids [OF n(2) _ k d]) (use n(1) in blast)
  moreover have "heap_ordered lt bef (set_kids q ?new [t])"
    by (rule heap_ordered_set_kids [OF on _ k d o]) (use n(1) in blast)
  ultimately show ?thesis
    by (simp add: h t')
qed

lemma queue_at_cong:
  assumes q: "queue_at lt k \<sigma> p xs" and s: "\<And>a. a \<in> set xs \<Longrightarrow> \<sigma>' a = \<sigma> a" and k: "\<And>a. a \<in> set xs \<Longrightarrow> k' a = k a"
    and lt: "\<And>a b. a \<in> set xs \<Longrightarrow> b \<in> set xs \<Longrightarrow> lt' a b = lt a b"
  shows "queue_at lt' k' \<sigma>' p xs"
proof -
  obtain h where h: "heap_at \<sigma> p h" "distinct (nodes (opt_list h))" "set (nodes (opt_list h)) = set xs" "heap_ordered lt (prec xs) (opt_list h)"
    using q unfolding queue_at_def by blast
  have "heap_at \<sigma>' p h"
    using h(1) s h(3) unfolding heap_at_def by (subst forest_frame [of _ _ \<sigma>]) auto
  moreover have "heap_ordered lt' (prec xs) (opt_list h)"
  proof (rule heap_ordered_cong [OF _ h(4)])
    fix a b
    assume "a \<in> set (nodes (opt_list h))" "b \<in> set (nodes (opt_list h))"
    then show "(lt a b \<longrightarrow> lt' a b) \<and> (prec xs a b \<longrightarrow> prec xs a b)"
      using h(3) lt [of a b] by blast
  qed
  moreover have "sorted_wrt (\<lambda>a b. k' a \<le> k' b) xs"
    using q k unfolding queue_at_def by (auto intro: sorted_wrt_mono_rel [of xs "\<lambda>a b. k a \<le> k b"])
  ultimately show ?thesis
    using q h k lt unfolding queue_at_def by auto
qed

lemma queue_push:
  assumes q: "queue_at lt k \<sigma> p xs" and x: "idle \<sigma> x" "node_addr x" "x \<notin> set xs"
    and lt: "\<forall>a\<in>insert x (set xs). \<forall>b\<in>insert x (set xs). lt a b \<longleftrightarrow> k a < k b"
  shows "\<exists>r \<sigma>'. mp_pairheap_push lt p x \<sigma> = Some (r, \<sigma>') \<and> queue_at lt k \<sigma>' r (enqueue k x xs) \<and>
    (\<forall>y. y \<notin> insert x (set xs) \<longrightarrow> \<sigma>' y = \<sigma> y)"
proof -
  let ?ys = "enqueue k x xs"
  obtain h where h: "heap_at \<sigma> p h" "distinct (nodes (opt_list h))" "set (nodes (opt_list h)) = set xs" "heap_ordered lt (prec xs) (opt_list h)"
      and s: "distinct xs" "sorted_wrt (\<lambda>a b. k a \<le> k b) xs"
    using q unfolding queue_at_def by blast
  have d: "distinct (x # nodes (opt_list h))"
    using h(2,3) x(3) by simp
  obtain r \<sigma>' t where r: "mp_pairheap_push lt p x \<sigma> = Some (r, \<sigma>')" "heap_at \<sigma>' r (Some t)"
      "t = (case h of None \<Rightarrow> PH x [] | Some u \<Rightarrow> link lt (PH x []) u)" "\<And>y. y \<notin> insert x (set xs) \<Longrightarrow> \<sigma>' y = \<sigma> y"
    using mp_pairheap_push_correct [OF h(1) x(1,2) d, of lt] h(3) by auto
  have ys: "distinct ?ys" "sorted_wrt (\<lambda>a b. k a \<le> k b) ?ys" "set ?ys = insert x (set xs)"
    using s x(3) by (simp_all add: distinct_enqueue sorted_enqueue set_enqueue)
  have o: "heap_ordered lt (prec ?ys) (opt_list h)"
    by (rule heap_ordered_cong [OF _ h(4)]) (simp add: prec_enqueue)
  have "distinct (nodes [t]) \<and> set (nodes [t]) = set ?ys \<and> heap_ordered lt (prec ?ys) [t]"
  proof (cases h)
    case None
    then show ?thesis
      using h(3) r(3) ys(3) by simp
  next
    case (Some u)
    then have t: "t = link lt (PH x []) u"
      using r(3) by simp
    have "younger lt (prec ?ys) (set (nodes [PH x []])) (set (nodes [u]))"
      using h(3) Some lt enqueue_position [OF s(2), of _ x] by (auto simp: younger_def)
    moreover have "decides lt (prec ?ys) (set (nodes [PH x []]) \<union> set (nodes [u]))"
      using h(3) Some lt ys by (intro decides_prec [of _ k]) auto
    ultimately have "heap_ordered lt (prec ?ys) [t]"
      unfolding t using o Some by (intro heap_ordered_link) auto
    then show ?thesis
      using d h(3) Some ys(3) distinct_nodes_link [of "PH x []" u lt] nodes_link [of lt "PH x []" u] by (auto simp: t)
  qed
  then have "queue_at lt k \<sigma>' r ?ys"
    unfolding queue_at_def using r(2) ys lt by (intro conjI exI [of _ "Some t"]) auto
  then show ?thesis
    using r by blast
qed

lemma queue_delete:
  assumes q: "queue_at lt k \<sigma> p xs" and x: "x \<in> set xs"
  shows "\<exists>r \<sigma>'. mp_pairheap_delete lt p x \<sigma> = Some (r, \<sigma>') \<and> queue_at lt k \<sigma>' r (remove1 x xs) \<and> idle \<sigma>' x \<and>
    (\<forall>y. y \<notin> set xs \<longrightarrow> \<sigma>' y = \<sigma> y)"
proof -
  obtain h where h: "heap_at \<sigma> p h" "distinct (nodes (opt_list h))" "set (nodes (opt_list h)) = set xs" "heap_ordered lt (prec xs) (opt_list h)"
      and s: "distinct xs" "sorted_wrt (\<lambda>a b. k a \<le> k b) xs" "\<forall>a\<in>set xs. \<forall>b\<in>set xs. lt a b \<longleftrightarrow> k a < k b"
    using q unfolding queue_at_def by blast
  then obtain t where t: "h = Some t"
    using x by (cases h) auto
  have n: "set (nodes [t]) = set xs" "distinct (nodes [t])" "heap_ordered lt (prec xs) [t]"
    using h t by simp_all
  obtain r \<sigma>' h' where r: "mp_pairheap_delete lt p x \<sigma> = Some (r, \<sigma>')" "heap_at \<sigma>' r h'" "deleted lt x t h'" "idle \<sigma>' x"
      "\<And>y. y \<notin> set xs \<Longrightarrow> \<sigma>' y = \<sigma> y"
    using mp_pairheap_delete_correct [of \<sigma> p t x lt] h(1) n(1,2) x t by auto
  have "decides lt (prec xs) (set (nodes [t]))"
    unfolding n(1) by (rule decides_prec [OF s order_refl])
  from deleted_correct [OF r(3) n(2,3) this] have "queue_at lt k \<sigma>' r (remove1 x xs)"
    using queue_at_remove [OF q r(2)] n(1) by simp
  then show ?thesis
    using r by blast
qed

lemma queue_delete_idle:
  assumes "queue_at lt k \<sigma> p xs" and "idle \<sigma> x" and "x \<notin> set xs" and "x \<noteq> 0"
  shows "mp_pairheap_delete lt p x \<sigma> = Some (p, \<sigma>)"
  using assms mp_pairheap_delete_idle [of \<sigma> p _ x lt] unfolding queue_at_def by blast

lemma queue_pop:
  assumes q: "queue_at lt k \<sigma> p (x # xs)"
  shows "p = x \<and> (\<exists>r \<sigma>'. mp_pairheap_pop lt p \<sigma> = Some (r, \<sigma>') \<and> queue_at lt k \<sigma>' r xs \<and> idle \<sigma>' x \<and>
    (\<forall>y. y \<notin> set (x # xs) \<longrightarrow> \<sigma>' y = \<sigma> y))"
proof -
  obtain cs where c: "heap_at \<sigma> p (Some (PH x cs))" "p = x" "distinct (nodes [PH x cs])" "set (nodes cs) = set xs" "heap_ordered lt (prec (x # xs)) cs"
    by (rule queue_at_Cons [OF q])
  have s: "distinct (x # xs)" "sorted_wrt (\<lambda>a b. k a \<le> k b) (x # xs)" "\<forall>a\<in>set (x # xs). \<forall>b\<in>set (x # xs). lt a b \<longleftrightarrow> k a < k b"
    using q unfolding queue_at_def by blast+
  obtain r \<sigma>' where r: "mp_pairheap_pop lt p \<sigma> = Some (r, \<sigma>')" "heap_at \<sigma>' r (pair_up lt None cs)" "idle \<sigma>' x"
      "\<And>y. y \<notin> set (x # xs) \<Longrightarrow> \<sigma>' y = \<sigma> y"
    using mp_pairheap_pop_correct [OF c(1,3), of lt] c(4) by auto
  have "decides lt (prec (x # xs)) (set (nodes (opt_list None @ cs)))"
    using c(4) s(3) by (intro decides_prec [OF s(1,2)]) auto
  then have "heap_ordered lt (prec (x # xs)) (opt_list (pair_up lt None cs))"
    using c(5) heap_ordered_pair_up [of lt "prec (x # xs)" None cs] by simp
  then have "queue_at lt k \<sigma>' r (remove1 x (x # xs))"
    using c(3,4) s(1) nodes_pair_up [of lt None cs] distinct_nodes_pair_up [of None cs lt] by (intro queue_at_remove [OF q r(2)]) auto
  then show ?thesis
    using c(2) r by auto
qed

end
