(* ===== verification/Task_Queue.thy ===== *)
theory Task_Queue
  imports Pairheap_Order Small_Int
begin

text \<open>
  The tasks and task queues of asyncio, \<^verbatim>\<open>extmod/modasyncio.c\<close>. A task is a node of theory Pairheap with
  some fields; its key is the tick at which it is due. The operations return \<open>None\<close> for an access to
  something that is not a task or a queue and for a loop that does not end. What the objects outside
  this file do (the coroutine of a task, the event loop, the queue of the poller) is not in the model.
\<close>

section \<open>State\<close>

text \<open>The objects that the code tells apart: the singletons, small integers (as tagged words), tasks, task queues, others.\<close>

datatype 'x async_obj = V_None | V_True | V_False | V_Small u32 | V_Task u32 | V_Queue nat | V_Object 'x

record 'x task =
  t_coro :: "'x async_obj"
  t_data :: "'x async_obj"
  t_state :: "'x async_obj"
  t_key :: u32

text \<open>
  The nodes, the fields of the tasks, the heap of each queue, and the entries \<^verbatim>\<open>cur_task\<close> and
  \<^verbatim>\<open>_task_queue\<close> of the dict \<^verbatim>\<open>mp_asyncio_context\<close>.
\<close>

record 'x async =
  a_links :: ph_mem
  a_tasks :: "u32 \<Rightarrow> 'x task option"
  a_queues :: "u32 list"
  a_cur :: u32
  a_main :: nat

datatype 'x async_error = A_Error mp_error | A_Raise "'x async_obj"

definition queue_heap :: "'x async \<Rightarrow> nat \<Rightarrow> u32 option" where
  "queue_heap s q = (if q < length (a_queues s) then Some (a_queues s ! q) else None)"

section \<open>Ticks\<close>

definition MICROPY_PY_TIME_TICKS_PERIOD :: u32 where
  "MICROPY_PY_TIME_TICKS_PERIOD = MP_SMALL_INT_POSITIVE_MASK + 1"

text \<open>The argument is the result of \<^verbatim>\<open>mp_hal_ticks_ms\<close>.\<close>

definition ticks :: "u32 \<Rightarrow> u32" where
  "ticks ms = MP_OBJ_NEW_SMALL_INT (ms AND (MICROPY_PY_TIME_TICKS_PERIOD - 1))"

definition ticks_diff :: "u32 \<Rightarrow> u32 \<Rightarrow> u32" where
  "ticks_diff t1_in t0_in =
     (let t0 = MP_OBJ_SMALL_INT_VALUE t0_in;
          t1 = MP_OBJ_SMALL_INT_VALUE t1_in
      in ((t1 - t0 + drop_bit 1 MICROPY_PY_TIME_TICKS_PERIOD) AND (MICROPY_PY_TIME_TICKS_PERIOD - 1))
         - drop_bit 1 MICROPY_PY_TIME_TICKS_PERIOD)"

text \<open>Every node that the heap compares is a task.\<close>

definition task_key :: "(u32 \<Rightarrow> 'x task option) \<Rightarrow> u32 \<Rightarrow> u32" where
  "task_key ts p = (case ts p of Some t \<Rightarrow> t_key t | None \<Rightarrow> 0)"

definition task_lt :: "(u32 \<Rightarrow> 'x task option) \<Rightarrow> u32 \<Rightarrow> u32 \<Rightarrow> bool" where
  "task_lt ts n1 n2 \<longleftrightarrow> MP_OBJ_SMALL_INT_VALUE (ticks_diff (task_key ts n1) (task_key ts n2)) <s 0"

section \<open>Queues\<close>

definition task_queue_make_new :: "'x async \<Rightarrow> 'x async \<times> nat" where
  "task_queue_make_new s = (s\<lparr>a_queues := a_queues s @ [mp_pairheap_new]\<rparr>, length (a_queues s))"

text \<open>\<open>Some None\<close> is \<^verbatim>\<open>None\<close>.\<close>

definition task_queue_peek :: "'x async \<Rightarrow> nat \<Rightarrow> u32 option option" where
  "task_queue_peek s q = do {
     h \<leftarrow> queue_heap s q;
     Some (if h = 0 then None else Some h) }"

definition task_queue_push :: "u32 \<Rightarrow> 'x async \<Rightarrow> nat \<Rightarrow> u32 \<Rightarrow> u32 option \<Rightarrow> 'x async option" where
  "task_queue_push ms s q task key = do {
     t \<leftarrow> a_tasks s task;
     let ts = (a_tasks s)(task \<mapsto> t\<lparr>t_data := V_None, t_key := (case key of None \<Rightarrow> ticks ms | Some k \<Rightarrow> k)\<rparr>);
     h \<leftarrow> queue_heap s q;
     (h, \<sigma>) \<leftarrow> mp_pairheap_push (task_lt ts) h task (a_links s);
     Some (s\<lparr>a_tasks := ts, a_links := \<sigma>, a_queues := (a_queues s)[q := h]\<rparr>) }"

definition task_queue_pop :: "'x async \<Rightarrow> nat \<Rightarrow> ('x async \<times> ('x async_error + u32)) option" where
  "task_queue_pop s q = do {
     h \<leftarrow> queue_heap s q;
     let head = mp_pairheap_peek h;
     if head = 0 then Some (s, Inl (A_Error IndexError))
     else do {
       (h, \<sigma>) \<leftarrow> mp_pairheap_pop (task_lt (a_tasks s)) h (a_links s);
       Some (s\<lparr>a_links := \<sigma>, a_queues := (a_queues s)[q := h]\<rparr>, Inr head) } }"

definition task_queue_remove :: "'x async \<Rightarrow> nat \<Rightarrow> u32 \<Rightarrow> 'x async option" where
  "task_queue_remove s q task = do {
     h \<leftarrow> queue_heap s q;
     (h, \<sigma>) \<leftarrow> mp_pairheap_delete (task_lt (a_tasks s)) h task (a_links s);
     Some (s\<lparr>a_links := \<sigma>, a_queues := (a_queues s)[q := h]\<rparr>) }"

section \<open>Tasks\<close>

text \<open>
  The block of the new task is at \<open>p\<close>; the allocator leaves the field \<open>child_last\<close> as it was. \<open>context\<close> is the
  second argument, if there is one: the entries of the new context.
\<close>

definition task_make_new :: "'x async \<Rightarrow> u32 \<Rightarrow> u32 \<Rightarrow> 'x async_obj \<Rightarrow> (u32 \<times> nat) option \<Rightarrow> 'x async option" where
  "task_make_new s p junk coro context = do {
     \<sigma> \<leftarrow> mp_pairheap_init_node p ((a_links s)(p \<mapsto> \<lparr>ph_child = junk, ph_child_last = junk, ph_next = junk\<rparr>));
     let t = \<lparr>t_coro = coro, t_data = V_None, t_state = V_True, t_key = MP_OBJ_NEW_SMALL_INT 0\<rparr>;
     let s = s\<lparr>a_links := \<sigma>, a_tasks := (a_tasks s)(p \<mapsto> t)\<rparr>;
     Some (case context of None \<Rightarrow> s | Some (cur, main) \<Rightarrow> s\<lparr>a_cur := cur, a_main := main\<rparr>) }"

definition TASK_IS_DONE :: "'x task \<Rightarrow> bool" where
  "TASK_IS_DONE t \<longleftrightarrow> t_state t = V_None \<or> t_state t = V_False"

definition task_done :: "'x async \<Rightarrow> u32 \<Rightarrow> bool option" where
  "task_done s p = map_option TASK_IS_DONE (a_tasks s p)"

text \<open>The task at the end of the chain of tasks that wait for each other.\<close>

partial_function (option) cancel_target :: "(u32 \<Rightarrow> 'x task option) \<Rightarrow> u32 \<Rightarrow> u32 option" where
  [code]: "cancel_target ts p = do {
     t \<leftarrow> ts p;
     case t_data t of V_Task p' \<Rightarrow> cancel_target ts p' | _ \<Rightarrow> Some p }"

text \<open>
  The rescheduling of a cancelled task. \<open>remove\<close> is the method of that name of another object, if it has
  one: it returns or raises.
\<close>

definition cancel_reschedule ::
    "u32 \<Rightarrow> ('x \<Rightarrow> (u32 \<Rightarrow> mp_error option) option) \<Rightarrow> 'x async \<Rightarrow> u32 \<Rightarrow> ('x async \<times> mp_error option) option" where
  "cancel_reschedule ms remove s self = do {
     t \<leftarrow> a_tasks s self;
     case (case t_data t of V_Object x \<Rightarrow> remove x | _ \<Rightarrow> None) of
       Some f \<Rightarrow>
         (case f self of
            Some e \<Rightarrow> Some (s, Some e)
          | None \<Rightarrow> do { s \<leftarrow> task_queue_push ms s (a_main s) self None; Some (s, None) })
     | None \<Rightarrow>
         (case t_data t of
            V_Queue q \<Rightarrow> do {
              s \<leftarrow> task_queue_remove s q self;
              s \<leftarrow> task_queue_push ms s (a_main s) self None;
              Some (s, None) }
          | _ \<Rightarrow>
              if 0 <s ticks_diff (t_key t) (ticks ms) then do {
                s \<leftarrow> task_queue_remove s (a_main s) self;
                s \<leftarrow> task_queue_push ms s (a_main s) self None;
                Some (s, None) }
              else Some (s, None)) }"

definition task_cancel ::
    "u32 \<Rightarrow> ('x \<Rightarrow> (u32 \<Rightarrow> mp_error option) option) \<Rightarrow> 'x \<Rightarrow> 'x async \<Rightarrow> u32 \<Rightarrow> ('x async \<times> ('x async_error + bool)) option" where
  "task_cancel ms remove cancelled_error s self = do {
     t \<leftarrow> a_tasks s self;
     if TASK_IS_DONE t then Some (s, Inr False)
     else if self = a_cur s then Some (s, Inl (A_Error RuntimeError))
     else do {
       self \<leftarrow> cancel_target (a_tasks s) self;
       (s, e) \<leftarrow> cancel_reschedule ms remove s self;
       case e of
         Some e \<Rightarrow> Some (s, Inl (A_Error e))
       | None \<Rightarrow> do {
           t \<leftarrow> a_tasks s self;
           Some (s\<lparr>a_tasks := (a_tasks s)(self \<mapsto> t\<lparr>t_data := V_Object cancelled_error\<rparr>)\<rparr>, Inr True) } } }"

text \<open>The array \<^verbatim>\<open>dest\<close> asks for the value of an attribute, for a store or for a deletion, and receives the answer.\<close>

datatype 'x attr_request = Attr_Load | Attr_Store "'x async_obj" | Attr_Delete

datatype 'x attr_answer = Attr_Value "'x async_obj" | Attr_Method string u32 | Attr_Stored | Attr_Missing

definition task_attr :: "'x async \<Rightarrow> u32 \<Rightarrow> string \<Rightarrow> 'x attr_request \<Rightarrow> ('x async \<times> 'x attr_answer) option" where
  "task_attr s self attr dest = do {
     t \<leftarrow> a_tasks s self;
     case dest of
       Attr_Load \<Rightarrow>
         Some (s,
           if attr = ''coro'' then Attr_Value (t_coro t)
           else if attr = ''data'' then Attr_Value (t_data t)
           else if attr = ''state'' then Attr_Value (t_state t)
           else if attr = ''done'' then Attr_Method ''done'' self
           else if attr = ''cancel'' then Attr_Method ''cancel'' self
           else if attr = ''ph_key'' then Attr_Value (V_Small (t_key t))
           else Attr_Missing)
     | Attr_Store v \<Rightarrow>
         if attr = ''data'' then Some (s\<lparr>a_tasks := (a_tasks s)(self \<mapsto> t\<lparr>t_data := v\<rparr>)\<rparr>, Attr_Stored)
         else if attr = ''state'' then Some (s\<lparr>a_tasks := (a_tasks s)(self \<mapsto> t\<lparr>t_state := v\<rparr>)\<rparr>, Attr_Stored)
         else Some (s, Attr_Missing)
     | Attr_Delete \<Rightarrow> Some (s, Attr_Missing) }"

definition task_getiter :: "'x async \<Rightarrow> u32 \<Rightarrow> ('x async \<times> ('x async_error + u32)) option" where
  "task_getiter s self = do {
     t \<leftarrow> a_tasks s self;
     if TASK_IS_DONE t then Some (s\<lparr>a_tasks := (a_tasks s)(self \<mapsto> t\<lparr>t_state := V_False\<rparr>)\<rparr>, Inr self)
     else case t_state t of
       V_True \<Rightarrow>
         (case task_queue_make_new s of
            (s, q) \<Rightarrow> Some (s\<lparr>a_tasks := (a_tasks s)(self \<mapsto> t\<lparr>t_state := V_Queue q\<rparr>)\<rparr>, Inr self))
     | V_Queue q \<Rightarrow> Some (s, Inr self)
     | _ \<Rightarrow> Some (s, Inl (A_Error RuntimeError)) }"

definition task_iternext :: "u32 \<Rightarrow> 'x async \<Rightarrow> u32 \<Rightarrow> ('x async \<times> ('x async_error + unit)) option" where
  "task_iternext ms s self = do {
     t \<leftarrow> a_tasks s self;
     if TASK_IS_DONE t then Some (s, Inl (A_Raise (t_data t)))
     else case t_state t of
       V_Queue q \<Rightarrow> do {
         s \<leftarrow> task_queue_push ms s q (a_cur s) None;
         c \<leftarrow> a_tasks s (a_cur s);
         Some (s\<lparr>a_tasks := (a_tasks s)(a_cur s \<mapsto> c\<lparr>t_data := V_Task self\<rparr>)\<rparr>, Inr ()) }
     | _ \<Rightarrow> None }"

end
