(* ===== verification/Task_Queue_Props.thy ===== *)
theory Task_Queue_Props
  imports Task_Queue
begin

text \<open>
  The task queues of asyncio: the comparison of ticks in a window of half the period is the order of the
  ticks from the start of the window, and the queues refine lists of tasks with their due times.
\<close>

section \<open>Ticks in a window\<close>

lemma ticks_period: "MICROPY_PY_TIME_TICKS_PERIOD = 0x40000000"
  by (simp add: MICROPY_PY_TIME_TICKS_PERIOD_def MP_SMALL_INT_POSITIVE_MASK_def MSBIT_HIGH_def)

text \<open>The distance of a key from the start of the window, which is a tick.\<close>

definition tick_offset :: "int \<Rightarrow> u32 \<Rightarrow> nat" where
  "tick_offset base key = nat ((sint (MP_OBJ_SMALL_INT_VALUE key) - base) mod 2 ^ 30)"

lemma sint_ticks_diff:
  "sint (ticks_diff a b) = (sint (MP_OBJ_SMALL_INT_VALUE a) - sint (MP_OBJ_SMALL_INT_VALUE b) + 2 ^ 29) mod 2 ^ 30 - 2 ^ 29"
proof -
  let ?w = "MP_OBJ_SMALL_INT_VALUE a - MP_OBJ_SMALL_INT_VALUE b + 0x20000000"
  let ?d = "sint (MP_OBJ_SMALL_INT_VALUE a) - sint (MP_OBJ_SMALL_INT_VALUE b) + 2 ^ 29"
  have m: "1073741823 = (mask 30 :: u32)"
    by (simp add: mask_eq_exp_minus_1)
  have w: "?w = word_of_int ?d"
    by simp
  have "int (unat (?w AND mask 30)) = int (unat ?w) mod 2 ^ 30"
    by (simp only: unat_and_mask zmod_int of_nat_power of_nat_numeral)
  then have "uint (?w AND mask 30) = uint ?w mod 2 ^ 30"
    by (simp only: of_nat_unat)
  also have "uint ?w = ?d mod 2 ^ 32"
    using uint_word_of_int_eq [of ?d, where 'a = 32] unfolding w take_bit_eq_mod len_bit0 len_num1 by simp
  also have "?d mod 2 ^ 32 mod 2 ^ 30 = ?d mod 2 ^ 30"
    by (rule mod_mod_cancel) simp
  finally have u: "uint (?w AND mask 30) = ?d mod 2 ^ 30" .
  let ?r = "?d mod 2 ^ 30"
  have r: "sint (word_of_int (k - 2 ^ 29) :: u32) = k - 2 ^ 29" if "0 \<le> k" "k < 2 ^ 30" for k :: int
    by (rule sint_word_of_int) (use that in simp_all)
  have "ticks_diff a b = (?w AND mask 30) - 0x20000000"
    by (simp add: ticks_diff_def ticks_period m drop_bit_eq_div Let_def)
  also have "\<dots> = word_of_int (?r - 2 ^ 29)"
    using arg_cong [OF u, of "word_of_int :: int \<Rightarrow> u32"] by simp
  finally have "sint (ticks_diff a b) = sint (word_of_int (?r - 2 ^ 29) :: u32)"
    by simp
  also have "\<dots> = ?r - 2 ^ 29"
    by (rule r) simp_all
  finally show ?thesis .
qed

lemma tick_distance:
  assumes "tick_offset base a < 2 ^ 29" and "tick_offset base b < 2 ^ 29"
  shows "sint (ticks_diff a b) = int (tick_offset base a) - int (tick_offset base b)"
proof -
  let ?a = "sint (MP_OBJ_SMALL_INT_VALUE a) - base" and ?b = "sint (MP_OBJ_SMALL_INT_VALUE b) - base"
  have o: "int (tick_offset base a) = ?a mod 2 ^ 30" "int (tick_offset base b) = ?b mod 2 ^ 30"
    by (simp_all add: tick_offset_def)
  have "int (tick_offset base a) < int (2 ^ 29)" "int (tick_offset base b) < int (2 ^ 29)"
    using assms by (simp_all only: of_nat_less_iff)
  then have ab: "?a mod 2 ^ 30 < 536870912" "?b mod 2 ^ 30 < 536870912" "0 \<le> ?a mod 2 ^ 30" "0 \<le> ?b mod 2 ^ 30"
    by (simp_all only: o) simp_all
  have "(?a - ?b + 2 ^ 29) mod 2 ^ 30 = (?a mod 2 ^ 30 - ?b mod 2 ^ 30 + 2 ^ 29) mod 2 ^ 30"
    by (metis mod_add_left_eq mod_diff_eq)
  also have "\<dots> = ?a mod 2 ^ 30 - ?b mod 2 ^ 30 + 2 ^ 29"
    using ab by (intro mod_pos_pos_trivial) simp_all
  finally show ?thesis
    by (simp add: sint_ticks_diff o)
qed

lemma task_lt_offset:
  assumes "tick_offset base (task_key ts a) < 2 ^ 29" and "tick_offset base (task_key ts b) < 2 ^ 29"
  shows "task_lt ts a b \<longleftrightarrow> tick_offset base (task_key ts a) < tick_offset base (task_key ts b)"
proof -
  have "task_lt ts a b \<longleftrightarrow> sint (ticks_diff (task_key ts a) (task_key ts b)) < 0"
    by (simp add: task_lt_def word_sless_alt small_value)
  then show ?thesis
    using tick_distance [OF assms] by simp
qed

section \<open>Programs on task queues\<close>

text \<open>The operations, with the key and the time of a push, and their results.\<close>

datatype queue_op = Q_New | Q_Push nat u32 "u32 option" u32 | Q_Pop nat | Q_Remove nat u32 | Q_Peek nat

datatype queue_result = QR_None | QR_Queue nat | QR_Task u32 | QR_Error mp_error

fun queue_step :: "queue_op \<Rightarrow> 'x async \<Rightarrow> ('x async \<times> queue_result) option" where
  "queue_step Q_New s = (case task_queue_make_new s of (s, q) \<Rightarrow> Some (s, QR_Queue q))"
| "queue_step (Q_Push q task key ms) s = do { s \<leftarrow> task_queue_push ms s q task key; Some (s, QR_None) }"
| "queue_step (Q_Pop q) s = do {
     (s, r) \<leftarrow> task_queue_pop s q;
     case r of Inl (A_Error e) \<Rightarrow> Some (s, QR_Error e) | Inl (A_Raise d) \<Rightarrow> None | Inr t \<Rightarrow> Some (s, QR_Task t) }"
| "queue_step (Q_Remove q task) s = do { s \<leftarrow> task_queue_remove s q task; Some (s, QR_None) }"
| "queue_step (Q_Peek q) s = do { r \<leftarrow> task_queue_peek s q; Some (s, case r of None \<Rightarrow> QR_None | Some t \<Rightarrow> QR_Task t) }"

fun queue_run :: "queue_op list \<Rightarrow> 'x async \<Rightarrow> ('x async \<times> queue_result list) option" where
  "queue_run [] s = Some (s, [])"
| "queue_run (op # ops) s = do {
     (s, r) \<leftarrow> queue_step op s;
     (s, rs) \<leftarrow> queue_run ops s;
     Some (s, r # rs) }"

text \<open>
  The specification: each queue is a list of tasks with the distances of their due times from the
  start of the window.
\<close>

definition push_offset :: "int \<Rightarrow> u32 option \<Rightarrow> u32 \<Rightarrow> nat" where
  "push_offset base key ms = tick_offset base (case key of None \<Rightarrow> ticks ms | Some k \<Rightarrow> k)"

fun queue_spec :: "int \<Rightarrow> queue_op \<Rightarrow> (u32 \<times> nat) list list \<Rightarrow> (u32 \<times> nat) list list \<times> queue_result" where
  "queue_spec base Q_New qs = (qs @ [[]], QR_Queue (length qs))"
| "queue_spec base (Q_Push q task key ms) qs = (qs[q := enqueue snd (task, push_offset base key ms) (qs ! q)], QR_None)"
| "queue_spec base (Q_Pop q) qs =
     (case qs ! q of [] \<Rightarrow> (qs, QR_Error IndexError) | (t, d) # r \<Rightarrow> (qs[q := r], QR_Task t))"
| "queue_spec base (Q_Remove q task) qs = (qs[q := filter (\<lambda>e. fst e \<noteq> task) (qs ! q)], QR_None)"
| "queue_spec base (Q_Peek q) qs = (qs, case qs ! q of [] \<Rightarrow> QR_None | (t, d) # r \<Rightarrow> QR_Task t)"

fun queue_spec_run :: "int \<Rightarrow> queue_op list \<Rightarrow> (u32 \<times> nat) list list \<Rightarrow> (u32 \<times> nat) list list \<times> queue_result list" where
  "queue_spec_run base [] qs = (qs, [])"
| "queue_spec_run base (op # ops) qs =
     (case queue_spec base op qs of (qs, r) \<Rightarrow> (case queue_spec_run base ops qs of (qs, rs) \<Rightarrow> (qs, r # rs)))"

definition members :: "(u32 \<times> nat) list \<Rightarrow> u32 set" where
  "members xs = fst ` set xs"

definition queued :: "(u32 \<times> nat) list list \<Rightarrow> u32 set" where
  "queued qs = (\<Union>xs\<in>set qs. members xs)"

text \<open>
  What a caller has to keep: a task is pushed only when it is in no queue, its due time is in the
  window, and it is not removed from a queue while it is in another one.
\<close>

fun queue_op_ok :: "int \<Rightarrow> u32 set \<Rightarrow> queue_op \<Rightarrow> (u32 \<times> nat) list list \<Rightarrow> bool" where
  "queue_op_ok base ts Q_New qs \<longleftrightarrow> True"
| "queue_op_ok base ts (Q_Push q task key ms) qs \<longleftrightarrow>
     q < length qs \<and> task \<in> ts \<and> task \<notin> queued qs \<and> push_offset base key ms < 2 ^ 29"
| "queue_op_ok base ts (Q_Pop q) qs \<longleftrightarrow> q < length qs"
| "queue_op_ok base ts (Q_Remove q task) qs \<longleftrightarrow>
     q < length qs \<and> task \<in> ts \<and> (task \<in> queued qs \<longrightarrow> task \<in> members (qs ! q))"
| "queue_op_ok base ts (Q_Peek q) qs \<longleftrightarrow> q < length qs"

fun queue_ops_ok :: "int \<Rightarrow> u32 set \<Rightarrow> queue_op list \<Rightarrow> (u32 \<times> nat) list list \<Rightarrow> bool" where
  "queue_ops_ok base ts [] qs \<longleftrightarrow> True"
| "queue_ops_ok base ts (op # ops) qs \<longleftrightarrow>
     queue_op_ok base ts op qs \<and> queue_ops_ok base ts ops (fst (queue_spec base op qs))"

section \<open>The invariant\<close>

definition due :: "int \<Rightarrow> (u32 \<Rightarrow> 'x task option) \<Rightarrow> u32 \<Rightarrow> nat" where
  "due base ts p = tick_offset base (task_key ts p)"

definition entry_ok :: "int \<Rightarrow> (u32 \<Rightarrow> 'x task option) \<Rightarrow> u32 \<times> nat \<Rightarrow> bool" where
  "entry_ok base ts e \<longleftrightarrow> fst e \<in> dom ts \<and> due base ts (fst e) = snd e \<and> snd e < 2 ^ 29"

definition queue_ok :: "int \<Rightarrow> 'x async \<Rightarrow> u32 \<Rightarrow> (u32 \<times> nat) list \<Rightarrow> bool" where
  "queue_ok base s h xs \<longleftrightarrow>
     queue_at (task_lt (a_tasks s)) (due base (a_tasks s)) (a_links s) h (map fst xs) \<and> (\<forall>e\<in>set xs. entry_ok base (a_tasks s) e)"

definition queues_ok :: "int \<Rightarrow> 'x async \<Rightarrow> (u32 \<times> nat) list list \<Rightarrow> bool" where
  "queues_ok base s qs \<longleftrightarrow>
     length (a_queues s) = length qs \<and>
     (\<forall>i<length qs. \<forall>j<length qs. i \<noteq> j \<longrightarrow> members (qs ! i) \<inter> members (qs ! j) = {}) \<and>
     (\<forall>i<length qs. queue_ok base s (a_queues s ! i) (qs ! i)) \<and>
     (\<forall>p\<in>dom (a_tasks s). node_addr p \<and> (p \<notin> queued qs \<longrightarrow> idle (a_links s) p))"

lemma members_queued: "i < length qs \<Longrightarrow> members (qs ! i) \<subseteq> queued qs"
  unfolding queued_def by (auto intro: nth_mem)

lemma queued_nth: "p \<in> queued qs \<longleftrightarrow> (\<exists>i<length qs. p \<in> members (qs ! i))"
  unfolding queued_def by (auto simp: set_conv_nth)

lemma set_map_members: "set (map fst xs) = members xs"
  by (simp add: members_def)

lemma queue_ok_cong:
  assumes q: "queue_ok base s h xs" and same: "\<And>p. p \<in> members xs \<Longrightarrow> a_links s' p = a_links s p \<and> a_tasks s' p = a_tasks s p"
  shows "queue_ok base s' h xs"
proof -
  have k: "task_key (a_tasks s') p = task_key (a_tasks s) p" if "p \<in> members xs" for p
    using same [OF that] by (simp add: task_key_def)
  have "queue_at (task_lt (a_tasks s')) (due base (a_tasks s')) (a_links s') h (map fst xs)"
  proof (rule queue_at_cong)
    show "queue_at (task_lt (a_tasks s)) (due base (a_tasks s)) (a_links s) h (map fst xs)"
      using q by (simp add: queue_ok_def)
  qed (unfold set_map_members, use same k in \<open>simp_all add: due_def task_lt_def\<close>)
  moreover have "entry_ok base (a_tasks s') e" if "e \<in> set xs" for e
  proof -
    have m: "fst e \<in> members xs"
      using that by (simp add: members_def)
    have "entry_ok base (a_tasks s) e"
      using q that by (simp add: queue_ok_def)
    then show ?thesis
      using same [OF m] k [OF m] by (auto simp: entry_ok_def due_def)
  qed
  ultimately show ?thesis
    by (simp add: queue_ok_def)
qed

text \<open>One queue changes, with the tasks in \<open>X\<close> that were in no queue.\<close>

lemma queues_ok_update:
  assumes inv: "queues_ok base s qs" and q: "q < length qs" and h: "a_queues s' = (a_queues s)[q := h]" and dom: "dom (a_tasks s') = dom (a_tasks s)"
    and new: "queue_ok base s' h ys" "members ys \<subseteq> members (qs ! q) \<union> X" and X: "X \<inter> queued qs = {}"
    and same: "\<And>p. p \<notin> members (qs ! q) \<union> X \<Longrightarrow> a_links s' p = a_links s p \<and> a_tasks s' p = a_tasks s p"
    and idle: "\<And>p. p \<in> dom (a_tasks s) \<Longrightarrow> p \<in> members (qs ! q) \<union> X \<Longrightarrow> p \<notin> members ys \<Longrightarrow> idle (a_links s') p"
  shows "queues_ok base s' (qs[q := ys])"
proof -
  have len: "length (a_queues s) = length qs" and dis: "\<And>i j. i < length qs \<Longrightarrow> j < length qs \<Longrightarrow> i \<noteq> j \<Longrightarrow> members (qs ! i) \<inter> members (qs ! j) = {}"
    and ok: "\<And>i. i < length qs \<Longrightarrow> queue_ok base s (a_queues s ! i) (qs ! i)"
    and nodes: "\<And>p. p \<in> dom (a_tasks s) \<Longrightarrow> node_addr p \<and> (p \<notin> queued qs \<longrightarrow> idle (a_links s) p)"
    using inv unfolding queues_ok_def by auto
  have other: "members (qs ! i) \<inter> (members (qs ! q) \<union> X) = {}" if "i < length qs" "i \<noteq> q" for i
    using dis [OF that(1) q that(2)] X members_queued [OF that(1)] by blast
  have "queue_ok base s' (a_queues s' ! i) (qs[q := ys] ! i)" if i: "i < length qs" for i
  proof (cases "i = q")
    case False
    have "queue_ok base s' (a_queues s ! i) (qs ! i)"
      by (rule queue_ok_cong [OF ok [OF i]]) (use same other [OF i False] in blast)
    then show ?thesis
      using False by (simp add: h)
  qed (use new(1) q len h in simp)
  moreover have "members (qs[q := ys] ! i) \<inter> members (qs[q := ys] ! j) = {}" if "i < length qs" "j < length qs" "i \<noteq> j" for i j
  proof -
    have "members ys \<inter> members (qs ! k) = {}" if "k < length qs" "k \<noteq> q" for k
      using other [OF that] new(2) by blast
    then show ?thesis
      using dis [OF that] that q by (cases "i = q"; cases "j = q") (simp_all add: Int_commute)
  qed
  moreover have "idle (a_links s') p" if p: "p \<in> dom (a_tasks s)" "p \<notin> queued (qs[q := ys])" for p
  proof (cases "p \<in> members (qs ! q) \<union> X")
    case True
    have "p \<notin> members ys"
      using p(2) q members_queued [of q "qs[q := ys]"] by auto
    then show ?thesis
      by (rule idle [OF p(1) True])
  next
    case False
    have "p \<notin> queued qs"
    proof
      assume "p \<in> queued qs"
      then obtain i where "i < length qs" "p \<in> members (qs ! i)"
        by (auto simp: queued_nth)
      moreover from this have "i \<noteq> q"
        using False by auto
      ultimately have "p \<in> queued (qs[q := ys])"
        unfolding queued_nth by (intro exI [of _ i]) simp
      then show False
        using p(2) by simp
    qed
    then have "idle (a_links s) p"
      using nodes [OF p(1)] by simp
    then show ?thesis
      using same [OF False] by (simp add: idle_def)
  qed
  ultimately show ?thesis
    using len nodes dom by (auto simp: queues_ok_def h)
qed

section \<open>One operation\<close>

lemma queue_heap_ok: "queues_ok base s qs \<Longrightarrow> q < length qs \<Longrightarrow> queue_heap s q = Some (a_queues s ! q)"
  by (simp add: queue_heap_def queues_ok_def)

lemma queues_ok_queue:
  assumes "queues_ok base s qs" and "q < length qs"
  shows "queue_at (task_lt (a_tasks s)) (due base (a_tasks s)) (a_links s) (a_queues s ! q) (map fst (qs ! q))"
    "e \<in> set (qs ! q) \<Longrightarrow> entry_ok base (a_tasks s) e" "distinct (map fst (qs ! q))"
  using assms by (auto simp: queues_ok_def queue_ok_def queue_at_def)

lemma queues_ok_node: "queues_ok base s qs \<Longrightarrow> p \<in> dom (a_tasks s) \<Longrightarrow> node_addr p \<and> (p \<notin> queued qs \<longrightarrow> idle (a_links s) p)"
  by (simp add: queues_ok_def)

lemma map_enqueue:
  assumes "\<And>y. y \<in> insert x (set xs) \<Longrightarrow> k (f y) = l y"
  shows "map f (enqueue l x xs) = enqueue k (f x) (map f xs)"
proof -
  have "takeWhile (\<lambda>y. l y \<le> l x) xs = takeWhile ((\<lambda>y. k y \<le> k (f x)) \<circ> f) xs"
    "dropWhile (\<lambda>y. l y \<le> l x) xs = dropWhile ((\<lambda>y. k y \<le> k (f x)) \<circ> f) xs"
    using assms by (auto intro: takeWhile_cong dropWhile_cong)
  then show ?thesis
    by (simp add: enqueue_def takeWhile_map dropWhile_map)
qed

lemma remove1_members:
  "distinct (map fst xs) \<Longrightarrow> map fst (filter (\<lambda>e. fst e \<noteq> t) xs) = remove1 t (map fst xs)"
  by (simp add: remove1_filter filter_map comp_def)

lemma queue_new_step:
  assumes "queues_ok base s qs"
  shows "queues_ok base (s\<lparr>a_queues := a_queues s @ [mp_pairheap_new]\<rparr>) (qs @ [[]])"
proof -
  have "queue_ok base (s\<lparr>a_queues := a_queues s @ [mp_pairheap_new]\<rparr>) h xs \<longleftrightarrow> queue_ok base s h xs" for h xs
    by (simp add: queue_ok_def)
  moreover have "queue_ok base s 0 []"
    by (simp add: queue_ok_def queue_at_Nil)
  moreover have "queued (qs @ [[]]) = queued qs"
    by (simp add: queued_def members_def)
  ultimately show ?thesis
    using assms by (auto simp: queues_ok_def nth_append mp_pairheap_new_def less_Suc_eq members_def)
qed

lemma task_queue_push_step:
  assumes inv: "queues_ok base s qs" and ok: "queue_op_ok base (dom (a_tasks s)) (Q_Push q task key ms) qs"
  shows "\<exists>s'. task_queue_push ms s q task key = Some s' \<and> dom (a_tasks s') = dom (a_tasks s) \<and>
    queues_ok base s' (fst (queue_spec base (Q_Push q task key ms) qs))"
proof -
  have o: "q < length qs" "task \<in> dom (a_tasks s)" "task \<notin> queued qs" "push_offset base key ms < 2 ^ 29"
    using ok by simp_all
  obtain t where t: "a_tasks s task = Some t"
    using o(2) by blast
  define kv where "kv = (case key of None \<Rightarrow> ticks ms | Some k \<Rightarrow> k)"
  define ts where "ts = (a_tasks s)(task \<mapsto> t\<lparr>t_data := V_None, t_key := kv\<rparr>)"
  let ?xs = "qs ! q" and ?h = "a_queues s ! q"
  let ?ys = "enqueue snd (task, push_offset base key ms) ?xs"
  note qq = queues_ok_queue [OF inv o(1)]
  have nt: "task \<notin> members ?xs"
    using o(3) members_queued [OF o(1)] by blast
  have key: "task_key ts p = (if p = task then kv else task_key (a_tasks s) p)" for p
    by (simp add: ts_def task_key_def)
  have due: "due base ts p = (if p = task then push_offset base key ms else due base (a_tasks s) p)" for p
    by (simp add: due_def key push_offset_def kv_def)
  have dom: "dom ts = insert task (dom (a_tasks s))"
    by (simp add: ts_def)
  have small: "due base ts p < 2 ^ 29" if "p \<in> insert task (members ?xs)" for p
  proof (cases "p = task")
    case False
    then have "p \<in> members ?xs"
      using that by simp
    then obtain e where "e \<in> set ?xs" "p = fst e"
      by (auto simp: members_def)
    then show ?thesis
      using qq(2) [of e] False by (auto simp: due entry_ok_def)
  qed (use o(4) in \<open>simp add: due\<close>)
  have q0: "queue_at (task_lt ts) (due base ts) (a_links s) ?h (map fst ?xs)"
  proof (rule queue_at_cong [OF qq(1)])
    fix a b
    assume "a \<in> set (map fst ?xs)" "b \<in> set (map fst ?xs)"
    then have "a \<noteq> task" "b \<noteq> task"
      using nt unfolding set_map_members by blast+
    then show "due base ts a = due base (a_tasks s) a" "task_lt ts a b = task_lt (a_tasks s) a b"
      by (simp_all add: due task_lt_def key)
  qed simp
  have lt: "\<forall>a\<in>insert task (set (map fst ?xs)). \<forall>b\<in>insert task (set (map fst ?xs)). task_lt ts a b \<longleftrightarrow> due base ts a < due base ts b"
    unfolding set_map_members due_def using small unfolding due_def by (intro ballI task_lt_offset) blast+
  have "idle (a_links s) task" "node_addr task" "task \<notin> set (map fst ?xs)"
    using queues_ok_node [OF inv o(2)] o(3) nt unfolding set_map_members by blast+
  from queue_push [OF q0 this lt] obtain r \<sigma>' where r: "mp_pairheap_push (task_lt ts) ?h task (a_links s) = Some (r, \<sigma>')"
      "queue_at (task_lt ts) (due base ts) \<sigma>' r (enqueue (due base ts) task (map fst ?xs))"
      "\<And>y. y \<notin> insert task (set (map fst ?xs)) \<Longrightarrow> \<sigma>' y = a_links s y"
    by blast
  let ?s = "s\<lparr>a_tasks := ts, a_links := \<sigma>', a_queues := (a_queues s)[q := r]\<rparr>"
  have entries: "entry_ok base ts e" if "e \<in> insert (task, push_offset base key ms) (set ?xs)" for e
  proof (cases "e \<in> set ?xs")
    case True
    then have "fst e \<noteq> task"
      using nt by (auto simp: members_def)
    then show ?thesis
      using qq(2) [OF True] by (simp add: entry_ok_def due dom)
  next
    case False
    then show ?thesis
      using that o(4) by (auto simp: entry_ok_def due dom)
  qed
  have "map fst ?ys = enqueue (due base ts) (fst (task, push_offset base key ms)) (map fst ?xs)"
    by (rule map_enqueue) (use entries in \<open>auto simp: entry_ok_def\<close>)
  then have "queue_ok base ?s r ?ys"
    using r(2) entries by (auto simp: queue_ok_def set_enqueue)
  moreover have "task_queue_push ms s q task key = Some ?s"
    using t r(1) by (simp add: task_queue_push_def queue_heap_ok [OF inv o(1)] ts_def kv_def Let_def)
  moreover have "queues_ok base ?s (qs[q := ?ys])"
  proof (rule queues_ok_update [OF inv o(1)])
    show "queue_ok base ?s r ?ys"
      by fact
    show "members ?ys \<subseteq> members ?xs \<union> {task}"
      by (auto simp: members_def set_enqueue)
    show "{task} \<inter> queued qs = {}"
      using o(3) by simp
    show "dom (a_tasks ?s) = dom (a_tasks s)"
      using o(2) by (auto simp: ts_def)
    show "a_links ?s p = a_links s p \<and> a_tasks ?s p = a_tasks s p" if "p \<notin> members ?xs \<union> {task}" for p
      using that r(3) [of p] unfolding set_map_members by (simp add: ts_def)
    show "idle (a_links ?s) p" if "p \<in> members ?xs \<union> {task}" "p \<notin> members ?ys" for p
      using that by (auto simp: members_def set_enqueue)
  qed simp_all
  ultimately show ?thesis
    using o(2) by (auto simp: ts_def)
qed

lemma task_queue_remove_step:
  assumes inv: "queues_ok base s qs" and ok: "queue_op_ok base (dom (a_tasks s)) (Q_Remove q task) qs"
  shows "\<exists>s'. task_queue_remove s q task = Some s' \<and> dom (a_tasks s') = dom (a_tasks s) \<and>
    queues_ok base s' (fst (queue_spec base (Q_Remove q task) qs))"
proof -
  have o: "q < length qs" "task \<in> dom (a_tasks s)" "task \<in> queued qs \<longrightarrow> task \<in> members (qs ! q)"
    using ok by simp_all
  let ?xs = "qs ! q" and ?h = "a_queues s ! q"
  let ?ys = "filter (\<lambda>e. fst e \<noteq> task) ?xs"
  note qq = queues_ok_queue [OF inv o(1)]
  show ?thesis
  proof (cases "task \<in> members ?xs")
    case True
    then have "task \<in> set (map fst ?xs)"
      by (simp only: set_map_members)
    from queue_delete [OF qq(1) this] obtain r \<sigma>' where r: "mp_pairheap_delete (task_lt (a_tasks s)) ?h task (a_links s) = Some (r, \<sigma>')"
        "queue_at (task_lt (a_tasks s)) (due base (a_tasks s)) \<sigma>' r (map fst ?ys)" "idle \<sigma>' task"
        "\<And>y. y \<notin> members ?xs \<Longrightarrow> \<sigma>' y = a_links s y"
      unfolding remove1_members [OF qq(3)] set_map_members by blast
    let ?s = "s\<lparr>a_links := \<sigma>', a_queues := (a_queues s)[q := r]\<rparr>"
    have "queues_ok base ?s (qs[q := ?ys])"
    proof (rule queues_ok_update [OF inv o(1)])
      show "queue_ok base ?s r ?ys"
        using r(2) qq(2) by (simp add: queue_ok_def)
      show "members ?ys \<subseteq> members ?xs \<union> {}"
        by (auto simp: members_def)
      show "a_links ?s p = a_links s p \<and> a_tasks ?s p = a_tasks s p" if "p \<notin> members ?xs \<union> {}" for p
        using that r(4) [of p] by simp
      show "idle (a_links ?s) p" if "p \<in> members ?xs \<union> {}" "p \<notin> members ?ys" for p
        using that r(3) by (auto simp: members_def image_iff)
    qed simp_all
    then show ?thesis
      using r(1) by (simp add: task_queue_remove_def queue_heap_ok [OF inv o(1)])
  next
    case False
    then have n: "task \<notin> queued qs"
      using o(3) by blast
    have "task \<notin> set (map fst ?xs)" "idle (a_links s) task" "task \<noteq> 0"
      using False queues_ok_node [OF inv o(2)] n unfolding set_map_members by auto
    then have "mp_pairheap_delete (task_lt (a_tasks s)) ?h task (a_links s) = Some (?h, a_links s)"
      using queue_delete_idle [OF qq(1)] by blast
    moreover have "?ys = ?xs"
      using False by (auto simp: members_def intro!: filter_True)
    ultimately show ?thesis
      using inv by (simp add: task_queue_remove_def queue_heap_ok [OF inv o(1)])
  qed
qed

lemma task_queue_pop_step:
  assumes inv: "queues_ok base s qs" and q: "q < length qs"
  shows "case qs ! q of
      [] \<Rightarrow> task_queue_pop s q = Some (s, Inl (A_Error IndexError))
    | (t, d) # r \<Rightarrow> \<exists>s'. task_queue_pop s q = Some (s', Inr t) \<and> dom (a_tasks s') = dom (a_tasks s) \<and> queues_ok base s' (qs[q := r])"
proof (cases "qs ! q")
  case Nil
  then have "a_queues s ! q = 0"
    using queues_ok_queue(1) [OF inv q] by (simp add: queue_at_Nil)
  then show ?thesis
    using Nil by (simp add: task_queue_pop_def queue_heap_ok [OF inv q] mp_pairheap_peek_def)
next
  case (Cons e r)
  obtain t d where e: "e = (t, d)"
    by (cases e)
  note qq = queues_ok_queue [OF inv q]
  have "queue_at (task_lt (a_tasks s)) (due base (a_tasks s)) (a_links s) (a_queues s ! q) (t # map fst r)"
    using qq(1) by (simp add: Cons e)
  from queue_pop [OF this] obtain h \<sigma>' where h: "a_queues s ! q = t"
      "mp_pairheap_pop (task_lt (a_tasks s)) (a_queues s ! q) (a_links s) = Some (h, \<sigma>')"
      "queue_at (task_lt (a_tasks s)) (due base (a_tasks s)) \<sigma>' h (map fst r)" "idle \<sigma>' t"
      "\<And>y. y \<notin> set (t # map fst r) \<Longrightarrow> \<sigma>' y = a_links s y"
    by blast
  have t: "t \<in> dom (a_tasks s)"
    using qq(2) [of e] by (simp add: Cons e entry_ok_def)
  have m: "members (qs ! q) = set (t # map fst r)"
    by (simp add: members_def Cons e)
  let ?s = "s\<lparr>a_links := \<sigma>', a_queues := (a_queues s)[q := h]\<rparr>"
  have "queues_ok base ?s (qs[q := r])"
  proof (rule queues_ok_update [OF inv q])
    show "queue_ok base ?s h r"
      using h(3) qq(2) by (simp add: queue_ok_def Cons)
    show "members r \<subseteq> members (qs ! q) \<union> {}"
      by (auto simp: members_def Cons)
    show "a_links ?s p = a_links s p \<and> a_tasks ?s p = a_tasks s p" if "p \<notin> members (qs ! q) \<union> {}" for p
      using that h(5) [of p] unfolding m by simp
    show "idle (a_links ?s) p" if "p \<in> members (qs ! q) \<union> {}" "p \<notin> members r" for p
      using that h(4) unfolding m by (auto simp: members_def)
  qed simp_all
  moreover have "t \<noteq> 0"
    using queues_ok_node [OF inv t] by auto
  ultimately show ?thesis
    using h(1,2) by (simp add: Cons e task_queue_pop_def queue_heap_ok [OF inv q] mp_pairheap_peek_def)
qed

lemma task_queue_peek_step:
  assumes inv: "queues_ok base s qs" and q: "q < length qs"
  shows "task_queue_peek s q = Some (case qs ! q of [] \<Rightarrow> None | (t, d) # r \<Rightarrow> Some t)"
proof (cases "qs ! q")
  case Nil
  then show ?thesis
    using queues_ok_queue(1) [OF inv q] by (simp add: queue_at_Nil task_queue_peek_def queue_heap_ok [OF inv q])
next
  case (Cons e r)
  obtain t d where e: "e = (t, d)"
    by (cases e)
  have "queue_at (task_lt (a_tasks s)) (due base (a_tasks s)) (a_links s) (a_queues s ! q) (t # map fst r)"
    using queues_ok_queue(1) [OF inv q] by (simp add: Cons e)
  then have "a_queues s ! q = t"
    by (elim queue_at_Cons)
  moreover have "t \<in> dom (a_tasks s)"
    using queues_ok_queue(2) [OF inv q, of e] by (simp add: Cons e entry_ok_def)
  ultimately show ?thesis
    using queues_ok_node [OF inv, of t] by (auto simp: Cons e task_queue_peek_def queue_heap_ok [OF inv q])
qed

lemma queue_step_refines:
  assumes inv: "queues_ok base s qs" and ok: "queue_op_ok base (dom (a_tasks s)) op qs"
  shows "\<exists>s'. queue_step op s = Some (s', snd (queue_spec base op qs)) \<and> dom (a_tasks s') = dom (a_tasks s) \<and>
    queues_ok base s' (fst (queue_spec base op qs))"
proof (cases op)
  case Q_New
  have "length (a_queues s) = length qs"
    using inv by (simp add: queues_ok_def)
  then show ?thesis
    using queue_new_step [OF inv] by (simp add: Q_New task_queue_make_new_def)
next
  case (Q_Push q task key ms)
  then show ?thesis
    using task_queue_push_step [OF inv, of q task key ms] ok by auto
next
  case (Q_Pop q)
  then have q: "q < length qs"
    using ok by simp
  show ?thesis
    using task_queue_pop_step [OF inv q] inv Q_Pop by (cases "qs ! q") auto
next
  case (Q_Remove q task)
  then show ?thesis
    using task_queue_remove_step [OF inv, of q task] ok by auto
next
  case (Q_Peek q)
  then show ?thesis
    using task_queue_peek_step [OF inv, of q] ok inv by (cases "qs ! q") auto
qed

lemma queue_run_refines:
  "queues_ok base s qs \<Longrightarrow> queue_ops_ok base (dom (a_tasks s)) ops qs \<Longrightarrow>
   \<exists>s'. queue_run ops s = Some (s', snd (queue_spec_run base ops qs)) \<and> queues_ok base s' (fst (queue_spec_run base ops qs))"
proof (induction ops arbitrary: s qs)
  case (Cons op ops)
  obtain s1 where s1: "queue_step op s = Some (s1, snd (queue_spec base op qs))" "dom (a_tasks s1) = dom (a_tasks s)"
      "queues_ok base s1 (fst (queue_spec base op qs))"
    using queue_step_refines [OF Cons.prems(1), of op] Cons.prems(2) by auto
  have "queue_ops_ok base (dom (a_tasks s1)) ops (fst (queue_spec base op qs))"
    using Cons.prems(2) by (simp add: s1(2))
  from Cons.IH [OF s1(3) this] show ?case
    using s1(1) by (auto simp: split_beta)
qed simp

text \<open>A new task is in no queue.\<close>

lemma task_make_new_ok:
  assumes inv: "queues_ok base s qs" and p: "node_addr p" "p \<notin> queued qs"
  shows "\<exists>s'. task_make_new s p junk coro None = Some s' \<and> dom (a_tasks s') = insert p (dom (a_tasks s)) \<and> queues_ok base s' qs"
proof -
  let ?n = "\<lparr>ph_child = 0, ph_child_last = junk, ph_next = 0\<rparr>"
  let ?s = "s\<lparr>a_links := (a_links s)(p \<mapsto> ?n), a_tasks := (a_tasks s)(p \<mapsto> \<lparr>t_coro = coro, t_data = V_None, t_state = V_True, t_key = MP_OBJ_NEW_SMALL_INT 0\<rparr>)\<rparr>"
  have new: "task_make_new s p junk coro None = Some ?s"
    by (simp add: task_make_new_def mp_pairheap_init_node_def)
  have "queue_ok base ?s h (qs ! i)" if "i < length qs" "queue_ok base s h (qs ! i)" for h i
  proof (rule queue_ok_cong [OF that(2)])
    fix y
    assume "y \<in> members (qs ! i)"
    then have "y \<noteq> p"
      using members_queued [OF that(1)] p(2) by blast
    then show "a_links ?s y = a_links s y \<and> a_tasks ?s y = a_tasks s y"
      by simp
  qed
  then have "queues_ok base ?s qs"
    using inv p by (auto simp: queues_ok_def idle_def)
  then show ?thesis
    using new by auto
qed

section \<open>Attributes and cancellation\<close>

text \<open>The fields of a task other than its key do not matter to the queues.\<close>

lemma queues_ok_tasks:
  assumes inv: "queues_ok base s qs" and "dom ts = dom (a_tasks s)" and "\<And>p. task_key ts p = task_key (a_tasks s) p"
  shows "queues_ok base (s\<lparr>a_tasks := ts\<rparr>) qs"
proof -
  have "task_lt ts = task_lt (a_tasks s)" "due base ts = due base (a_tasks s)"
    using assms(3) by (auto simp: fun_eq_iff task_lt_def due_def)
  then show ?thesis
    using inv assms(2) by (simp add: queues_ok_def queue_ok_def entry_ok_def)
qed

lemma queues_ok_field:
  assumes "queues_ok base s qs" and "a_tasks s p = Some t" and "t_key t' = t_key t"
  shows "queues_ok base (s\<lparr>a_tasks := (a_tasks s)(p \<mapsto> t')\<rparr>) qs"
  by (rule queues_ok_tasks [OF assms(1)]) (use assms(2,3) in \<open>auto simp: task_key_def\<close>)

lemma task_attr_ok:
  assumes "queues_ok base s qs" and "task_attr s p attr dest = Some (s', r)"
  shows "queues_ok base s' qs \<and> dom (a_tasks s') = dom (a_tasks s)"
proof -
  obtain t where t: "a_tasks s p = Some t"
    using assms(2) by (cases "a_tasks s p") (auto simp: task_attr_def)
  show ?thesis
    using assms queues_ok_field [OF assms(1) t]
    by (auto simp: task_attr_def t split: attr_request.splits if_splits)
qed

text \<open>The operations on the queues that the cancellation of a task comes to, which depend on what the task waits for.\<close>

definition cancel_ops :: "int \<Rightarrow> u32 \<Rightarrow> ('x \<Rightarrow> (u32 \<Rightarrow> mp_error option) option) \<Rightarrow> 'x async \<Rightarrow> u32 \<Rightarrow> queue_op list" where
  "cancel_ops base ms remove s u =
     (let push = Q_Push (a_main s) u None ms;
          bring = (if tick_offset base (ticks ms) < due base (a_tasks s) u then [Q_Remove (a_main s) u, push] else [])
      in case map_option t_data (a_tasks s u) of
           Some (V_Queue q) \<Rightarrow> [Q_Remove q u, push]
         | Some (V_Object x) \<Rightarrow> if remove x = None then bring else [push]
         | _ \<Rightarrow> bring)"

lemma remove_push_step:
  assumes inv: "queues_ok base s qs" and ok: "queue_ops_ok base (dom (a_tasks s)) [Q_Remove q u, Q_Push m u None ms] qs"
  shows "\<exists>s1 s2. task_queue_remove s q u = Some s1 \<and> a_main s1 = a_main s \<and> task_queue_push ms s1 m u None = Some s2 \<and>
    dom (a_tasks s2) = dom (a_tasks s) \<and>
    queues_ok base s2 (fst (queue_spec_run base [Q_Remove q u, Q_Push m u None ms] qs))"
proof -
  obtain s1 where s1: "task_queue_remove s q u = Some s1" "dom (a_tasks s1) = dom (a_tasks s)"
      "queues_ok base s1 (fst (queue_spec base (Q_Remove q u) qs))"
    using task_queue_remove_step [OF inv, of q u] ok by auto
  moreover have "a_main s1 = a_main s"
    using s1(1) by (auto simp: task_queue_remove_def split: bind_splits)
  moreover obtain s2 where "task_queue_push ms s1 m u None = Some s2" "dom (a_tasks s2) = dom (a_tasks s1)"
      "queues_ok base s2 (fst (queue_spec base (Q_Push m u None ms) (fst (queue_spec base (Q_Remove q u) qs))))"
    using task_queue_push_step [OF s1(3), of m u None ms] ok s1(2) by auto
  ultimately show ?thesis
    by auto
qed

lemma cancel_target_end:
  assumes "cancel_target ts p = Some u"
  shows "\<exists>t. ts u = Some t \<and> (\<forall>q. t_data t \<noteq> V_Task q)"
  using _ assms
proof (rule cancel_target.raw_induct)
  fix f :: "(u32 \<Rightarrow> 'a task option) \<Rightarrow> u32 \<Rightarrow> u32 option" and ts p u
  assume "\<And>ts p u. f ts p = Some u \<Longrightarrow> \<exists>t. ts u = Some t \<and> (\<forall>q. t_data t \<noteq> V_Task q)"
    and "do { t \<leftarrow> ts p; case t_data t of V_Task p' \<Rightarrow> f ts p' | _ \<Rightarrow> Some p } = Some u"
  then show "\<exists>t. ts u = Some t \<and> (\<forall>q. t_data t \<noteq> V_Task q)"
    by (auto split: bind_splits async_obj.splits)
qed

lemma cancel_reschedule_ok:
  assumes inv: "queues_ok base s qs" and t: "a_tasks s u = Some t"
    and rem: "\<forall>x f. remove x = Some f \<longrightarrow> f u = None"
    and ok: "queue_ops_ok base (dom (a_tasks s)) (cancel_ops base ms remove s u) qs"
    and now: "tick_offset base (ticks ms) < 2 ^ 29" and win: "due base (a_tasks s) u < 2 ^ 29"
  shows "\<exists>s'. cancel_reschedule ms remove s u = Some (s', None) \<and> dom (a_tasks s') = dom (a_tasks s) \<and>
    queues_ok base s' (fst (queue_spec_run base (cancel_ops base ms remove s u) qs))"
proof -
  have k: "task_key (a_tasks s) u = t_key t"
    by (simp add: task_key_def t)
  have later: "0 <s ticks_diff (t_key t) (ticks ms) \<longleftrightarrow> tick_offset base (ticks ms) < due base (a_tasks s) u"
    using tick_distance [OF win [unfolded due_def k] now] by (simp add: word_sless_alt due_def k)
  have bring: "\<exists>s'. (if 0 <s ticks_diff (t_key t) (ticks ms) then do {
             s \<leftarrow> task_queue_remove s (a_main s) u;
             s \<leftarrow> task_queue_push ms s (a_main s) u None;
             Some (s, None) } else Some (s, None)) = Some (s', None :: mp_error option) \<and> dom (a_tasks s') = dom (a_tasks s) \<and>
       queues_ok base s' (fst (queue_spec_run base ops qs))"
    if "queue_ops_ok base (dom (a_tasks s)) ops qs"
      "ops = (if tick_offset base (ticks ms) < due base (a_tasks s) u then [Q_Remove (a_main s) u, Q_Push (a_main s) u None ms] else [])" for ops
    using remove_push_step [OF inv, of "a_main s" u "a_main s" ms] that inv by (fastforce simp: later)
  show ?thesis
  proof (cases "t_data t")
    case (V_Queue q)
    have ops: "cancel_ops base ms remove s u = [Q_Remove q u, Q_Push (a_main s) u None ms]"
      by (simp add: cancel_ops_def t V_Queue)
    show ?thesis
      using remove_push_step [OF inv ok [unfolded ops]] by (auto simp: cancel_reschedule_def t V_Queue ops)
  next
    case (V_Object x)
    show ?thesis
    proof (cases "remove x")
      case None
      then show ?thesis
        using bring [OF ok] by (simp add: cancel_reschedule_def t V_Object cancel_ops_def Let_def)
    next
      case (Some f)
      have ops: "cancel_ops base ms remove s u = [Q_Push (a_main s) u None ms]"
        by (simp add: cancel_ops_def t V_Object Some)
      show ?thesis
        using task_queue_push_step [OF inv, of "a_main s" u None ms] ok [unfolded ops] rem [rule_format, OF Some]
        by (auto simp: cancel_reschedule_def t V_Object Some ops)
    qed
  qed (use bring [OF ok] in \<open>simp_all add: cancel_reschedule_def t cancel_ops_def Let_def\<close>)
qed

text \<open>Tasks that wait for each other in a cycle: the loop over the chain does not end.\<close>

lemma cancel_target_cycle:
  assumes "p \<in> C" and "\<And>q. q \<in> C \<Longrightarrow> \<exists>t q'. ts q = Some t \<and> t_data t = V_Task q' \<and> q' \<in> C"
  shows "cancel_target ts p = None"
proof (rule ccontr)
  assume "cancel_target ts p \<noteq> None"
  then obtain u where "cancel_target ts p = Some u"
    by blast
  moreover have "ts' = ts \<longrightarrow> p \<notin> C" if "cancel_target ts' p = Some u" for ts' p u
  proof (rule cancel_target.raw_induct [where P = "\<lambda>ts' p u. ts' = ts \<longrightarrow> p \<notin> C", OF _ that], intro impI notI)
    fix f ts' p u
    assume f: "\<And>ts' p u. f ts' p = Some u \<Longrightarrow> ts' = ts \<longrightarrow> p \<notin> C"
      and b: "do { t \<leftarrow> ts' p; case t_data t of V_Task p' \<Rightarrow> f ts' p' | _ \<Rightarrow> Some p } = Some u"
      and e: "ts' = ts" "p \<in> C"
    obtain t q' where "ts p = Some t" "t_data t = V_Task q'" "q' \<in> C"
      using assms(2) [OF e(2)] by blast
    then have "f ts q' = Some u"
      using b by (simp add: e)
    then show False
      using f \<open>q' \<in> C\<close> by blast
  qed
  ultimately show False
    using assms(1) by blast
qed

lemma task_cancel_cycle:
  assumes "a_tasks s p = Some t" and "\<not> TASK_IS_DONE t" and "p \<noteq> a_cur s" and "p \<in> C"
    and "\<And>q. q \<in> C \<Longrightarrow> \<exists>t q'. a_tasks s q = Some t \<and> t_data t = V_Task q' \<and> q' \<in> C"
  shows "task_cancel ms remove e s p = None"
  using cancel_target_cycle [OF assms(4,5)] assms(1-3) by (simp add: task_cancel_def)

lemma task_cancel_ok:
  assumes inv: "queues_ok base s qs" and p: "a_tasks s p = Some t0" "\<not> TASK_IS_DONE t0" "p \<noteq> a_cur s"
    and u: "cancel_target (a_tasks s) p = Some u" "due base (a_tasks s) u < 2 ^ 29"
    and rem: "\<forall>x f. remove x = Some f \<longrightarrow> f u = None"
    and ok: "queue_ops_ok base (dom (a_tasks s)) (cancel_ops base ms remove s u) qs"
    and now: "tick_offset base (ticks ms) < 2 ^ 29"
  shows "\<exists>s' t. task_cancel ms remove e s p = Some (s', Inr True) \<and>
    queues_ok base s' (fst (queue_spec_run base (cancel_ops base ms remove s u) qs)) \<and>
    a_tasks s' u = Some t \<and> t_data t = V_Object e"
proof -
  obtain t where t: "a_tasks s u = Some t"
    using cancel_target_end [OF u(1)] by blast
  obtain s' where s': "cancel_reschedule ms remove s u = Some (s', None)" "dom (a_tasks s') = dom (a_tasks s)"
      "queues_ok base s' (fst (queue_spec_run base (cancel_ops base ms remove s u) qs))"
    using cancel_reschedule_ok [OF inv t rem ok now u(2)] by blast
  obtain t' where t': "a_tasks s' u = Some t'"
    using t s'(2) by blast
  have "queues_ok base (s'\<lparr>a_tasks := (a_tasks s')(u \<mapsto> t'\<lparr>t_data := V_Object e\<rparr>)\<rparr>)
      (fst (queue_spec_run base (cancel_ops base ms remove s u) qs))"
    by (rule queues_ok_field [OF s'(3) t']) simp
  then show ?thesis
    using p u(1) s'(1) t' by (simp add: task_cancel_def)
qed

section \<open>The properties\<close>

text \<open>
  C39. The task queues of asyncio. As long as the due times of the queued tasks lie in a window of half the
  tick period, which may include the wrap of the ticks, a program of pushes, pops, removals and
  peeks on any number of queues ends and accesses nodes of tasks only; each queue gives its tasks in
  the order of their due times, tasks with the same due time in the order they were pushed, an empty
  queue raises \<^verbatim>\<open>IndexError\<close>, and a task that leaves a queue can be pushed again.
\<close>

theorem task_queues_refine:
  assumes "queues_ok base s qs" and "queue_ops_ok base (dom (a_tasks s)) ops qs"
  shows "\<exists>s'. queue_run ops s = Some (s', snd (queue_spec_run base ops qs)) \<and>
    queues_ok base s' (fst (queue_spec_run base ops qs))"
  by (rule queue_run_refines [OF assms])

text \<open>Three tasks that are due around the wrap of the ticks.\<close>

definition async_start :: "unit async" where
  "async_start = \<lparr>a_links = Map.empty, a_tasks = Map.empty, a_queues = [], a_cur = 0, a_main = 0\<rparr>"

lemma async_start_ok: "queues_ok base async_start []"
  by (simp add: queues_ok_def async_start_def)

definition wrap_ops :: "queue_op list" where
  "wrap_ops =
     [Q_New, Q_Push 0 16 (Some (MP_OBJ_NEW_SMALL_INT 2)) 0, Q_Push 0 32 (Some (MP_OBJ_NEW_SMALL_INT 0x3FFFFFFD)) 0,
      Q_Push 0 48 (Some (MP_OBJ_NEW_SMALL_INT 2)) 0, Q_Remove 0 16, Q_Push 0 16 (Some (MP_OBJ_NEW_SMALL_INT 2)) 0,
      Q_Pop 0, Q_Pop 0, Q_Peek 0, Q_Pop 0, Q_Pop 0]"

lemma small_tick: "small_range (sint v) \<Longrightarrow> tick_offset base (MP_OBJ_NEW_SMALL_INT v) = nat ((sint v - base) mod 2 ^ 30)"
  by (simp add: tick_offset_def small_new_fits)

lemma wrap_offsets:
  "push_offset 1073741800 (Some (MP_OBJ_NEW_SMALL_INT 2)) ms = 26"
  "push_offset 1073741800 (Some (MP_OBJ_NEW_SMALL_INT 0x3FFFFFFD)) ms = 21"
  by (simp_all add: push_offset_def small_tick small_range_def)

lemma wrap_ops_spec:
  "queue_spec_run 1073741800 wrap_ops [] =
     ([[]], [QR_Queue 0, QR_None, QR_None, QR_None, QR_None, QR_None, QR_Task 32, QR_Task 48, QR_Task 16, QR_Task 16, QR_Error IndexError])"
  by (simp add: wrap_ops_def wrap_offsets enqueue_def)

lemma wrap_ops_ok: "queue_ops_ok 1073741800 {16, 32, 48} wrap_ops []"
  by (simp add: wrap_ops_def wrap_offsets enqueue_def queued_def members_def)

theorem task_queues_refine_witness:
  "\<exists>s s'. queues_ok 1073741800 s [] \<and>
     queue_run wrap_ops (s :: unit async) =
       Some (s', [QR_Queue 0, QR_None, QR_None, QR_None, QR_None, QR_None, QR_Task 32, QR_Task 48, QR_Task 16, QR_Task 16, QR_Error IndexError]) \<and>
     queues_ok 1073741800 s' [[]]"
proof -
  have q: "queued [] = {}"
    by (simp add: queued_def)
  have a: "node_addr 16" "node_addr 32" "node_addr 48"
    by (simp_all add: node_addr_def)
  obtain s1 :: "unit async" where s1: "queues_ok 1073741800 s1 []" "dom (a_tasks s1) = {16}"
    using task_make_new_ok [OF async_start_ok [of 1073741800] a(1), of 0 V_None] q by (auto simp: async_start_def)
  obtain s2 :: "unit async" where s2: "queues_ok 1073741800 s2 []" "dom (a_tasks s2) = {32, 16}"
    using task_make_new_ok [OF s1(1) a(2), of 0 V_None] q s1(2) by auto
  obtain s3 :: "unit async" where s3: "queues_ok 1073741800 s3 []" "dom (a_tasks s3) = {48, 32, 16}"
    using task_make_new_ok [OF s2(1) a(3), of 0 V_None] q s2(2) by auto
  have "queue_ops_ok 1073741800 (dom (a_tasks s3)) wrap_ops []"
    using wrap_ops_ok s3(2) by (simp add: insert_commute)
  from task_queues_refine [OF s3(1) this] show ?thesis
    unfolding wrap_ops_spec using s3(1) by auto
qed

text \<open>
  C40. The cancellation of a task. A task that is done answers \<^verbatim>\<open>False\<close>, the current task raises
  \<^verbatim>\<open>RuntimeError\<close>; neither changes anything. For another task the end of the chain of tasks that it
  waits for is cancelled: it leaves the queue that it waits in (of a lock, or by the \<^verbatim>\<open>remove\<close> method of its
  object) or its later place in the main queue, is due now in the main queue behind the tasks that are due already, and
  receives \<^verbatim>\<open>CancelledError\<close>; all other tasks keep their places. When the chain is a cycle, of tasks
  that wait for each other, the cancellation does not return.
\<close>

theorem task_cancel_correct:
  assumes "queues_ok base s qs" and "a_tasks s p = Some t0" and "\<forall>x f u. remove x = Some f \<longrightarrow> f u = None"
    and "tick_offset base (ticks ms) < 2 ^ 29"
  shows "(TASK_IS_DONE t0 \<longrightarrow> task_cancel ms remove e s p = Some (s, Inr False)) \<and>
    (\<not> TASK_IS_DONE t0 \<and> p = a_cur s \<longrightarrow> task_cancel ms remove e s p = Some (s, Inl (A_Error RuntimeError))) \<and>
    (\<forall>u. \<not> TASK_IS_DONE t0 \<and> p \<noteq> a_cur s \<and> cancel_target (a_tasks s) p = Some u \<and> due base (a_tasks s) u < 2 ^ 29 \<and>
       queue_ops_ok base (dom (a_tasks s)) (cancel_ops base ms remove s u) qs \<longrightarrow>
       (\<exists>s' t. task_cancel ms remove e s p = Some (s', Inr True) \<and>
         queues_ok base s' (fst (queue_spec_run base (cancel_ops base ms remove s u) qs)) \<and>
         a_tasks s' u = Some t \<and> t_data t = V_Object e)) \<and>
    (\<forall>C. \<not> TASK_IS_DONE t0 \<and> p \<noteq> a_cur s \<and> p \<in> C \<and>
       (\<forall>q\<in>C. \<exists>t q'. a_tasks s q = Some t \<and> t_data t = V_Task q' \<and> q' \<in> C) \<longrightarrow>
       task_cancel ms remove e s p = None)"
proof (intro conjI allI impI)
  fix u
  assume u: "\<not> TASK_IS_DONE t0 \<and> p \<noteq> a_cur s \<and> cancel_target (a_tasks s) p = Some u \<and> due base (a_tasks s) u < 2 ^ 29 \<and>
       queue_ops_ok base (dom (a_tasks s)) (cancel_ops base ms remove s u) qs"
  show "\<exists>s' t. task_cancel ms remove e s p = Some (s', Inr True) \<and>
         queues_ok base s' (fst (queue_spec_run base (cancel_ops base ms remove s u) qs)) \<and>
         a_tasks s' u = Some t \<and> t_data t = V_Object e"
    by (rule task_cancel_ok [OF assms(1,2)]) (use u assms(3,4) in blast)+
next
  fix C
  assume "\<not> TASK_IS_DONE t0 \<and> p \<noteq> a_cur s \<and> p \<in> C \<and>
       (\<forall>q\<in>C. \<exists>t q'. a_tasks s q = Some t \<and> t_data t = V_Task q' \<and> q' \<in> C)"
  then show "task_cancel ms remove e s p = None"
    using assms(2) by (intro task_cancel_cycle [of s p t0 C]) blast+
qed (use assms(2) in \<open>simp_all add: task_cancel_def\<close>)

text \<open>Task 32 waits for task 16, which waits in queue 1, of a lock.\<close>

definition cancel_start :: "unit async" where
  "cancel_start =
     \<lparr>a_links = [16 \<mapsto> \<lparr>ph_child = 0, ph_child_last = 0, ph_next = 0\<rparr>, 32 \<mapsto> \<lparr>ph_child = 0, ph_child_last = 0, ph_next = 0\<rparr>],
      a_tasks = [16 \<mapsto> \<lparr>t_coro = V_None, t_data = V_Queue 1, t_state = V_Queue 2, t_key = MP_OBJ_NEW_SMALL_INT 100\<rparr>,
                 32 \<mapsto> \<lparr>t_coro = V_None, t_data = V_Task 16, t_state = V_True, t_key = MP_OBJ_NEW_SMALL_INT 0\<rparr>],
      a_queues = [0, 16, 0], a_cur = 48, a_main = 0\<rparr>"

lemma cancel_start_ok: "queues_ok 0 cancel_start [[], [(16, 100)], []]"
proof -
  have d: "due 0 (a_tasks cancel_start) 16 = 100"
    by (simp add: due_def task_key_def cancel_start_def small_tick small_range_def)
  have n: "node_addr 16" "node_addr 32"
    by (simp_all add: node_addr_def)
  have "a_links cancel_start 16 = Some \<lparr>ph_child = 0, ph_child_last = 0, ph_next = 0\<rparr>"
    by (simp add: cancel_start_def)
  then have "heap_at (a_links cancel_start) 16 (Some (PH 16 []))"
    using n by (simp add: heap_at_def)
  moreover have "\<not> task_lt (a_tasks cancel_start) 16 16"
    using task_lt_offset [of 0 "a_tasks cancel_start" 16 16] d by (simp add: due_def)
  ultimately have "queue_at (task_lt (a_tasks cancel_start)) (due 0 (a_tasks cancel_start)) (a_links cancel_start) 16 [16]"
    unfolding queue_at_def by (intro conjI exI [of _ "Some (PH 16 [])"]) (simp_all add: younger_def)
  then have "queue_ok 0 cancel_start 16 [(16, 100)]"
    by (simp add: queue_ok_def entry_ok_def d) (simp add: cancel_start_def)
  moreover have "queue_ok 0 cancel_start 0 []"
    by (simp add: queue_ok_def queue_at_Nil)
  moreover have qs: "a_queues cancel_start = [0, 16, 0]"
    by (simp add: cancel_start_def)
  ultimately have ok: "queue_ok 0 cancel_start (a_queues cancel_start ! i) ([[], [(16, 100)], []] ! i)" if "i < 3" for i
    using that by (auto simp: numeral_3_eq_3 less_Suc_eq)
  have "members ([[], [(16, 100)], []] ! i) = (if i = 1 then {16} else {})" if "i < 3" for i :: nat
    using that by (auto simp: numeral_3_eq_3 less_Suc_eq members_def)
  moreover have "queued [[], [(16, 100)], []] = {16}" "dom (a_tasks cancel_start) = {16, 32}"
    by (auto simp: cancel_start_def queued_def members_def)
  moreover have "idle (a_links cancel_start) 32"
    by (simp add: cancel_start_def idle_def)
  ultimately show ?thesis
    unfolding queues_ok_def using ok qs n by simp
qed

theorem task_cancel_correct_witness:
  "\<exists>s' t. task_cancel 5 (\<lambda>_. None) () cancel_start 32 = Some (s', Inr True) \<and> queues_ok 0 s' [[(16, 5)], [], []] \<and>
     a_tasks s' 16 = Some t \<and> t_data t = V_Object ()"
proof -
  have o: "tick_offset 0 (ticks 5) = 5"
    by (simp add: ticks_def ticks_period small_tick small_range_def)
  have u: "cancel_target (a_tasks cancel_start) 32 = Some 16"
    by (simp add: cancel_target.simps cancel_start_def)
  have d: "due 0 (a_tasks cancel_start) 16 = 100"
    by (simp add: due_def task_key_def cancel_start_def small_tick small_range_def)
  have ops: "cancel_ops 0 5 (\<lambda>_. None) cancel_start 16 = [Q_Remove 1 16, Q_Push 0 16 None 5]"
    by (simp add: cancel_ops_def cancel_start_def)
  have ok: "queue_ops_ok 0 (dom (a_tasks cancel_start)) (cancel_ops 0 5 (\<lambda>_. None) cancel_start 16) [[], [(16, 100)], []]"
    unfolding ops by (simp add: push_offset_def o queued_def members_def) (simp add: cancel_start_def)
  have spec: "fst (queue_spec_run 0 (cancel_ops 0 5 (\<lambda>_. None) cancel_start 16) [[], [(16, 100)], []]) = [[(16, 5)], [], []]"
    unfolding ops by (simp add: push_offset_def o enqueue_def)
  obtain t0 where t0: "a_tasks cancel_start 32 = Some t0" "\<not> TASK_IS_DONE t0" "32 \<noteq> a_cur cancel_start"
    by (simp add: cancel_start_def TASK_IS_DONE_def)
  have "\<forall>x f u. (\<lambda>_ :: unit. None :: (u32 \<Rightarrow> mp_error option) option) x = Some f \<longrightarrow> f u = None" "tick_offset 0 (ticks 5) < 2 ^ 29"
    by (simp_all add: o)
  note c = task_cancel_correct [OF cancel_start_ok t0(1) this, of "()"]
  show ?thesis
    using c [THEN conjunct2, THEN conjunct2, THEN conjunct1, rule_format, of 16] t0(2,3) u ok d unfolding spec by simp
qed

end
