(* ===== verification/Spec2Isabelle.thy ===== *)
theory Spec2Isabelle
  imports Mpz_Props Mpz_Conv_Props Mp_Props Gc_Props Py_Int_Props Sched_Props List_Props Task_Queue_Props
begin

text \<open>
  A verification development for the core of MicroPython, the C program under \<^verbatim>\<open>src/micropython\<close>. It
  models the parts of the interpreter that keep state and make the results of Python programs: the
  heap, the integers, the hash tables with dicts and sets, the interned strings, the lists, the
  scheduler that interrupt handlers use, and the task queues of asyncio. File names below are relative to
  \<^verbatim>\<open>src/micropython/py\<close>, but for \<^verbatim>\<open>modasyncio.c\<close>, which is in \<^verbatim>\<open>src/micropython/extmod\<close>.

  \<^bold>\<open>Setting.\<close> The configuration is that of the rp2 port (\<^verbatim>\<open>ports/rp2/mpconfigport.h\<close>): 32-bit machine words,
  object representation A with small integers of 31 bits, big integers of 16-bit digits, a collector with
  finalisers and one heap area, the lookup cache of maps, and a scheduler of 8 entries with
  its nodes. Machine integers are words where they can wrap; where a comment at a definition says
  why they cannot, they are numbers. Code that is not modelled enters as a parameter: the equality
  and hash of objects (locales \<open>hash_keys\<close>, \<open>obj_laws\<close>, \<open>set_laws\<close>), the answers of
  the allocator, of user-defined comparison, key and conversion functions (record \<open>py_env\<close>), the words
  of stacks and registers that \<^verbatim>\<open>gc_collect\<close> scans, the work that the scheduler runs, the time, and the
  \<^verbatim>\<open>remove\<close> methods that a cancelled task calls.

  \<^bold>\<open>How the parts interact.\<close> Every object is a block of the heap of \<^verbatim>\<open>gc.c\<close>. The operators of \<^verbatim>\<open>runtime.c\<close>
  work on small integers in place and pass what overflows to \<^verbatim>\<open>objint_mpz.c\<close>, which calls \<^verbatim>\<open>mpz.c\<close>, whose
  work is done by the \<^verbatim>\<open>mpn_*\<close> functions on arrays of digits. The keys of \<^verbatim>\<open>map.c\<close> are objects, often interned strings
  of \<^verbatim>\<open>qstr.c\<close>; \<^verbatim>\<open>objdict.c\<close> and \<^verbatim>\<open>objset.c\<close> are built on \<^verbatim>\<open>map.c\<close>. \<^verbatim>\<open>objlist.c\<close> uses \<^verbatim>\<open>sequence.c\<close> and
  \<^verbatim>\<open>objslice.c\<close> and converts its indices by \<^verbatim>\<open>mp_obj_get_int_maybe\<close>, which reads the integers above.
  Interrupt handlers fill the rings of \<^verbatim>\<open>ringbuf.h\<close> and of \<^verbatim>\<open>scheduler.c\<close>; the main thread empties them.
  The tasks of \<^verbatim>\<open>modasyncio.c\<close> are nodes of the pairing heaps of \<^verbatim>\<open>pairheap.c\<close>, compared by their ticks, which are small integers.

  \<^bold>\<open>The theories.\<close>
  \<^item> \<open>Prelude\<close>: the word types, lemmas on words, lists and bits that several parts share. \<open>Fifo\<close>: the
    contract of a bounded queue (locale \<open>bounded_fifo\<close>), which \<open>Ringbuf\<close> and \<open>Sched\<close> interpret.
  \<^item> \<open>Ringbuf\<close> (\<^verbatim>\<open>ringbuf.h\<close>, \<^verbatim>\<open>ringbuf.c\<close>), \<open>Sched\<close> (\<^verbatim>\<open>scheduler.c\<close>, the state in \<^verbatim>\<open>mpstate.h\<close>), \<open>Sched_Props\<close>. The
    scheduler is a step relation over its atomic sections, in which interrupts may come between any two.
  \<^item> \<open>Gc\<close> (\<^verbatim>\<open>gc.c\<close>): the allocation table, the finaliser table and the words of the blocks; \<open>Gc_Mark\<close>,
    \<open>Gc_Sweep\<close>, \<open>Gc_Collect\<close>, \<open>Gc_Alloc\<close> and \<open>Gc_Realloc\<close> hold the lemmas on each operation, \<open>Gc_Props\<close> the properties.
  \<^item> \<open>Mpn\<close> (the \<^verbatim>\<open>mpn_*\<close> functions of \<^verbatim>\<open>mpz.c\<close>) with \<open>Mpn_Correct\<close>, \<open>Mpn_Bits\<close> and \<open>Mpn_Div\<close>; \<open>Mpz\<close> (the \<^verbatim>\<open>mpz_*\<close>
    functions, on a store of numbers so that arguments may be the same) with \<open>Mpz_Correct\<close>; \<open>Mpz_Conv\<close>
    (machine words, bytes, text, floats) with \<open>Mpz_Conv_Correct\<close>; the properties in \<open>Mpz_Props\<close> and
    \<open>Mpz_Conv_Props\<close>.
  \<^item> \<open>Small_Int\<close> (\<^verbatim>\<open>smallint.c\<close>, \<^verbatim>\<open>smallint.h\<close>), \<open>Py_Int\<close> (\<^verbatim>\<open>objint_mpz.c\<close>, \<^verbatim>\<open>mp_unary_op\<close> and \<^verbatim>\<open>mp_binary_op\<close> of
    \<^verbatim>\<open>runtime.c\<close> on integers), \<open>Py_Int_Correct\<close>, \<open>Py_Int_Props\<close>.
  \<^item> \<open>Hash_Table\<close> (open addressing, shared by maps and sets), \<open>Mp_Map\<close> (\<^verbatim>\<open>mp_map_t\<close> of \<^verbatim>\<open>map.c\<close>) with \<open>Mp_Map_Correct\<close>,
    \<open>Mp_Set\<close> (\<^verbatim>\<open>mp_set_t\<close>), \<open>Mp_Dict\<close> (\<^verbatim>\<open>objdict.c\<close>), \<open>Mp_Set_Ops\<close> (\<^verbatim>\<open>objset.c\<close>), \<open>Qstr\<close> (\<^verbatim>\<open>qstr.c\<close>), \<open>Py_Obj\<close> (the equality
    and hash of small integers and strings, on which the locales are interpreted),
    \<open>Container_Ops\<close> (the operators of dicts and sets, the views of dicts), \<open>Mp_Props\<close>.
  \<^item> \<open>Py_Seq\<close> (\<^verbatim>\<open>sequence.c\<close>, \<^verbatim>\<open>objslice.c\<close>, the index functions of \<^verbatim>\<open>obj.c\<close>), \<open>List_Sort\<close> (\<^verbatim>\<open>mp_quicksort\<close>) with
    \<open>List_Sort_Correct\<close>, \<open>Py_List\<close> (\<^verbatim>\<open>objlist.c\<close>) with \<open>Py_List_Correct\<close>, \<open>Py_List_Slice\<close> and \<open>Py_List_Sort\<close>, \<open>List_Props\<close>.
  \<^item> \<open>Pairheap\<close> (\<^verbatim>\<open>pairheap.c\<close>, \<^verbatim>\<open>pairheap.h\<close>) on a memory of nodes with marked pointers, \<open>Pairheap_Correct\<close> (the trees that
    the nodes form, and each operation as a function on trees), \<open>Pairheap_Order\<close> (a heap stands for a list in the order
    of the keys and, for equal keys, of the insertions); \<open>Task_Queue\<close> (\<^verbatim>\<open>modasyncio.c\<close>), \<open>Task_Queue_Props\<close>.

  \<^bold>\<open>What is shown.\<close>
  \<^item> Big integers: the value of every operation for every sign, size and aliasing that the code
    allows, division and power by loops that are shown to end, round trips through bytes and text.
    Where the code differs from Python or from its own comments (the right shift of a negative number in
    place, powers with exponent 0, the flag of \<^verbatim>\<open>mpz_as_bytes\<close> for negative numbers) the property states
    exactly what it does.
  \<^item> Integers of the runtime: \<^verbatim>\<open>mp_binary_op\<close> always returns, with Python's value as a canonical object on every
    overflow and error path. Two cases are named where it is not Python's: shift counts from \<open>2 ^ 31\<close> in magnitude, which
    \<^verbatim>\<open>int_arith\<close> converts to a machine word (\<open>lim_binary_op\<close> is Python's operator with this limit), and
    \<^verbatim>\<open>divmod(-2**30, -1)\<close>. A property of its own has the operands for which the results are wrong, in general.
  \<^item> Maps and dicts: a lookup of each kind has its effect on the finite map that a table stands for,
    whatever the cache holds; a program of dict operations refines one on finite maps. Every operator of
    dicts, sets and frozensets is one on finite maps or on sets of members. Interned strings: each string has one number for good.
  \<^item> Heap: a collection frees exactly what the roots do not reach, for any size of the mark stack;
    an allocation fails only when the heap has no room after the collection that the settings allow;
    allocation, freeing and resizing keep every other chain; the layout fits the area.
  \<^item> Queues and scheduler: the ring buffer is a queue of bytes under any program of its operations, blocks and 16-bit
    numbers included, and loses a byte under interrupts in one case only; in every reachable state the scheduler has lost no work
    and the main thread alone, once the others hold no lock, calls all of it once and in order and reaches idle.
  \<^item> Lists: a program of list operations refines one on sequences, whose indices, slices and conversions to integers are
    defined as Python has them and not by the functions of the code. An access outside a buffer, or of a block that was
    freed, is a \<open>Fault\<close>, at which a run stops: there are none but for \<^verbatim>\<open>list * n\<close> with \<open>2 ^ 30\<close> items or more and for a list
    that is assigned to a slice of itself, grows, and is moved by the allocator. The sort ends within a recursion depth of \<open>log2 n\<close>, keeps the objects, and sorts when the
    comparison is a strict weak order; sizes that overflow are told apart from those that do not.
  \<^item> Task queues: programs on any number of queues, which share the nodes of the tasks, refine the same
    programs on sorted lists, with removals from the middle and through the wrap of the ticks; the
    cancellation of a task moves the task at the end of its chain, and does not return for a cycle.

  \<^bold>\<open>Bounds and fuel.\<close> Loops that the code leaves by a test that may not hold are partial functions in the option
    type (\<open>None\<close> is a loop that does not end), and the properties show that the result is \<open>Some\<close>. The number
    \<open>frames\<close> of \<^verbatim>\<open>mp_quicksort\<close> is the number of nested calls that \<^verbatim>\<open>mp_cstack_check\<close> lets pass; more than
    \<open>log2 n\<close> is enough. The bound \<open>sched_left\<close> on the steps of the main thread counts the work that is queued. Ring buffers have
    less than 65535 bytes, since an index of 16 bits wraps in \<^verbatim>\<open>ringbuf_get16\<close> otherwise. Heap areas may
    end at \<open>2 ^ 32\<close>; above 512 MB the size in bits wraps, as in the code. The entries of the mark stack are block
    numbers, which fit the type of its entries in every configuration of the port. Lists are on a heap that refuses blocks of \<open>2 ^ 30\<close> bytes (\<open>small_heap\<close>; the rp2 has less than
    \<open>2 ^ 24\<close>), and the positions of a slice do not overflow when its step is at most \<open>2 ^ 31 - 2 ^ 28\<close>
    (\<open>step_fits\<close>). \<open>MemoryError\<close> may come from any allocation.
  The due times of the tasks in the queues have to lie within \<open>2 ^ 29\<close> ticks from some tick (half the period), since the
  comparison of ticks is not an order otherwise.

  \<^bold>\<open>Not modelled.\<close> The lexer, parser, compiler, the virtual machine and the native emitters: their
  correctness is relative to a semantics of Python and of machine code that the repository does not
  hold. Floating point. The methods of strings and bytes, formatting and parsing apart from \<^verbatim>\<open>mpz.c\<close>.
  Classes, generators, exceptions and modules, which rest on type slots and non-local returns. Of the modelled
  files: printing and debug output, \<^verbatim>\<open>mpz_as_float\<close>, and split heaps.
  A key function or comparison that changes the list being sorted is outside the model, since the code then works on a freed block.
  The event loop of asyncio is Python code; the coroutine of a task is a value that the model stores and does not run.
  Vendored libraries, ports, drivers, the other extension modules, tools and tests are left aside.
\<close>

end
